(* ===== verification/Prelude.thy ===== *)
theory Prelude
  imports Main "HOL-Library.Word" "HOL-Library.Multiset"
begin

unbundle bit_operations_syntax

text \<open>
  Shared vocabulary of the development.

  The machine integers of the C sources are words of the same width (\<open>uint8_t\<close> is
  \<open>u8\<close>, \<open>size_t\<close> is \<open>u64\<close> on the 64-bit targets the extension ships for), byte buffers
  are lists of \<open>u8\<close> and the result codes are the constructors of \<open>evoke_status\<close>. A pointer
  that the code compares with \<open>NULL\<close> is an \<open>option\<close>; whether an allocation succeeds
  is an input of the operation that allocates.

  The theory holds the little-endian accessors and the FNV-1a checksum that every
  on-disk codec of the repository uses, the C library's \<open>qsort\<close>, and the generic lemmas
  on words, buffers and sorting the components share.
\<close>

section \<open>Types and constants\<close>

type_synonym u8 = "8 word"
type_synonym u16 = "16 word"
type_synonym u32 = "32 word"
type_synonym u64 = "64 word"
type_synonym bytes = "u8 list"

named_theorems word_nat \<open>word arithmetic read as arithmetic on natural numbers\<close>
named_theorems codec \<open>reads over writes in a byte buffer\<close>

datatype evoke_status =
    EVOKE_OK
  | EVOKE_ERR_NOMEM
  | EVOKE_ERR_INVALID
  | EVOKE_ERR_RANGE
  | EVOKE_ERR_FORMAT

definition UINT32_MAX :: u32 where "UINT32_MAX = 0xFFFFFFFF"
definition UINT64_MAX :: u64 where "UINT64_MAX = 0xFFFFFFFFFFFFFFFF"
definition SIZE_MAX :: u64 where "SIZE_MAX = 0xFFFFFFFFFFFFFFFF"

text \<open>The conversion \<open>(uint64_t) x\<close> of a 32-bit value.\<close>

definition u64_of_u32 :: "u32 \<Rightarrow> u64" where
  "u64_of_u32 x = ucast x"

section \<open>Word arithmetic on natural numbers\<close>

lemma unat_UINT32_MAX [simp, word_nat]: "unat UINT32_MAX = 4294967295"
  by (simp add: UINT32_MAX_def)

lemma unat_UINT64_MAX [simp, word_nat]: "unat UINT64_MAX = 18446744073709551615"
  by (simp add: UINT64_MAX_def)

lemma unat_SIZE_MAX [simp, word_nat]: "unat SIZE_MAX = 18446744073709551615"
  by (simp add: SIZE_MAX_def)

lemma unat_u64_of_u32 [simp, word_nat]: "unat (u64_of_u32 x) = unat x"
proof -
  have "unat x < 2 ^ 64" using unsigned_less [of x, where ?'a = nat] by simp
  then show ?thesis by (simp add: u64_of_u32_def unsigned_ucast_eq take_bit_nat_eq_self)
qed

lemma u32_less [simp]: "unat (x :: u32) < 4294967296"
  using unsigned_less [of x, where ?'a = nat] by simp

lemma u64_less [simp]: "unat (x :: u64) < 18446744073709551616"
  using unsigned_less [of x, where ?'a = nat] by simp

lemma u32_le_max: "unat (x :: u32) \<le> 4294967295"
  using u32_less [of x] by linarith

lemma unat_add_u32: "unat x + unat y < 4294967296 \<Longrightarrow> unat (x + y :: u32) = unat x + unat y"
  by (simp add: unat_word_ariths)

lemma unat_add_u64: "unat x + unat y < 18446744073709551616 \<Longrightarrow> unat (x + y :: u64) = unat x + unat y"
  by (simp add: unat_word_ariths)

lemma unat_sub_word: "y \<le> x \<Longrightarrow> unat (x - y :: 'a::len word) = unat x - unat y"
  by (simp add: unat_sub)

text \<open>A sum of two widened 32-bit values never wraps in 64 bits.\<close>

lemma unat_add_widened [simp, word_nat]:
  "unat (u64_of_u32 x + u64_of_u32 y) = unat x + unat y"
  using u32_less [of x] u32_less [of y] by (subst unat_add_u64) (simp_all del: u32_less)

lemma u32_eq_iff: "x = y \<longleftrightarrow> unat x = unat (y :: u32)"
  by (simp add: word_unat_eq_iff)

lemma unat_ucast_u64_u32: "unat x < 4294967296 \<Longrightarrow> unat (ucast (x :: u64) :: u32) = unat x"
  by (simp add: unsigned_ucast_eq take_bit_nat_eq_self)

lemmas word_order_nat = word_less_nat_alt word_le_nat_alt word_unat_eq_iff

section \<open>Byte buffers\<close>

text \<open>
  \<open>put_bytes buf off bs\<close> is the buffer after the stores \<open>buf[off] = bs[0]\<close>, \<open>buf[off + 1] = bs[1]\<close>
  and so on, in that order. The accessors take the base pointer and the offset that the C code
  adds to it.
\<close>

fun put_bytes :: "bytes \<Rightarrow> nat \<Rightarrow> bytes \<Rightarrow> bytes" where
  "put_bytes buf off [] = buf"
| "put_bytes buf off (b # bs) = put_bytes (buf[off := b]) (Suc off) bs"

definition evoke_write_u16_le :: "bytes \<Rightarrow> nat \<Rightarrow> u16 \<Rightarrow> bytes" where
  "evoke_write_u16_le dst off value =
     put_bytes dst off [ucast (value AND 0x00FF), ucast (drop_bit 8 value AND 0x00FF)]"

definition evoke_write_u32_le :: "bytes \<Rightarrow> nat \<Rightarrow> u32 \<Rightarrow> bytes" where
  "evoke_write_u32_le dst off value =
     put_bytes dst off
       [ucast (value AND 0x000000FF), ucast (drop_bit 8 value AND 0x000000FF),
        ucast (drop_bit 16 value AND 0x000000FF), ucast (drop_bit 24 value AND 0x000000FF)]"

definition evoke_write_u64_le :: "bytes \<Rightarrow> nat \<Rightarrow> u64 \<Rightarrow> bytes" where
  "evoke_write_u64_le dst off value =
     put_bytes dst off (map (\<lambda>i. ucast (drop_bit (i * 8) value AND 0xFF)) [0..<8])"

definition evoke_read_u16_le :: "bytes \<Rightarrow> nat \<Rightarrow> u16" where
  "evoke_read_u16_le src off = ucast (src ! off) OR push_bit 8 (ucast (src ! (off + 1)))"

definition evoke_read_u32_le :: "bytes \<Rightarrow> nat \<Rightarrow> u32" where
  "evoke_read_u32_le src off =
     ((ucast (src ! off) OR push_bit 8 (ucast (src ! (off + 1)))) OR
      push_bit 16 (ucast (src ! (off + 2)))) OR push_bit 24 (ucast (src ! (off + 3)))"

definition evoke_read_u64_le :: "bytes \<Rightarrow> nat \<Rightarrow> u64" where
  "evoke_read_u64_le src off =
     foldl (\<lambda>value i. value OR push_bit (i * 8) (ucast (src ! (off + i)))) 0 [0..<8]"

declare put_bytes.simps [simp del]

lemma length_put_bytes [simp]: "length (put_bytes buf off bs) = length buf"
  by (induction buf off bs rule: put_bytes.induct) (simp_all add: put_bytes.simps)

lemma nth_put_bytes:
  "put_bytes buf off bs ! i =
    (if off \<le> i \<and> i < off + length bs \<and> i < length buf then bs ! (i - off) else buf ! i)"
proof (induction buf off bs rule: put_bytes.induct)
  case (2 buf off b bs)
  then show ?case
    by (auto simp: put_bytes.simps nth_list_update nth_Cons' Suc_le_eq list_update_beyond)
qed (auto simp: put_bytes.simps)

lemma put_bytes_append:
  assumes "off + length bs \<le> length buf"
  shows "put_bytes buf off bs = take off buf @ bs @ drop (off + length bs) buf"
  using assms by (intro nth_equalityI) (auto simp: nth_put_bytes nth_append)

lemma length_write_le [simp]:
  "length (evoke_write_u16_le buf off a) = length buf"
  "length (evoke_write_u32_le buf off b) = length buf"
  "length (evoke_write_u64_le buf off c) = length buf"
  by (simp_all add: evoke_write_u16_le_def evoke_write_u32_le_def evoke_write_u64_le_def)

text \<open>
  Byte \<open>i\<close> of a value is \<open>take_bit 8 (drop_bit (8 * i) v)\<close>, and the bytes put back
  together give the value: the one bit-level fact the three widths share.
\<close>

lemma take_bit_byte_join:
  fixes v :: "'a::len word"
  shows "take_bit m v OR push_bit m (take_bit n (drop_bit m v)) = take_bit (m + n) v"
  by (rule bit_word_eqI) (auto simp: bit_simps)

lemma byte_mask [simp]:
  "ucast ((x :: u16) AND 255) = (ucast x :: u8)"
  "ucast ((y :: u32) AND 255) = (ucast y :: u8)"
  "ucast ((z :: u64) AND 255) = (ucast z :: u8)"
proof -
  have m: "(255 :: u16) = mask 8" "(255 :: u32) = mask 8" "(255 :: u64) = mask 8"
    by (simp_all add: mask_eq_exp_minus_1)
  show "ucast ((x :: u16) AND 255) = (ucast x :: u8)"
    and "ucast ((y :: u32) AND 255) = (ucast y :: u8)"
    and "ucast ((z :: u64) AND 255) = (ucast z :: u8)"
    unfolding m by (rule bit_word_eqI, simp add: bit_simps)+
qed

lemma ucast_byte [simp]:
  "(ucast (ucast (x :: u16) :: u8) :: u16) = take_bit 8 x"
  "(ucast (ucast (y :: u32) :: u8) :: u32) = take_bit 8 y"
  "(ucast (ucast (z :: u64) :: u8) :: u64) = take_bit 8 z"
  by (rule bit_word_eqI, auto simp: bit_simps)+

lemma read_write_u16_le [simp, codec]:
  assumes "off + 2 \<le> length buf"
  shows "evoke_read_u16_le (evoke_write_u16_le buf off v) off = v"
  using assms take_bit_byte_join [of 8 v 8]
  by (simp add: evoke_read_u16_le_def evoke_write_u16_le_def nth_put_bytes take_bit_word_eq_self)

lemma read_write_u32_le [simp, codec]:
  assumes "off + 4 \<le> length buf"
  shows "evoke_read_u32_le (evoke_write_u32_le buf off v) off = v"
  using assms take_bit_byte_join [of 8 v 8] take_bit_byte_join [of 16 v 8]
    take_bit_byte_join [of 24 v 8]
  by (simp add: evoke_read_u32_le_def evoke_write_u32_le_def nth_put_bytes take_bit_word_eq_self)

lemma foldl_bytes_join:
  fixes v :: u64
  shows "foldl (\<lambda>a i. a OR push_bit (i * 8) (take_bit 8 (drop_bit (i * 8) v))) 0 [0..<n] =
    take_bit (n * 8) v"
  by (induction n) (simp_all add: take_bit_byte_join add.commute)

lemma read_write_u64_le [simp, codec]:
  assumes "off + 8 \<le> length buf"
  shows "evoke_read_u64_le (evoke_write_u64_le buf off v) off = v"
proof -
  have "evoke_read_u64_le (evoke_write_u64_le buf off v) off =
      foldl (\<lambda>a i. a OR push_bit (i * 8) (take_bit 8 (drop_bit (i * 8) v))) 0 [0..<8]"
    unfolding evoke_read_u64_le_def
    by (rule foldl_cong) (use assms in \<open>simp_all add: evoke_write_u64_le_def nth_put_bytes\<close>)
  then show ?thesis
    by (simp only: foldl_bytes_join) (simp add: take_bit_word_eq_self)
qed

text \<open>
  The bytes a read looks at decide it: two buffers that agree on them give the same
  value, so a write elsewhere does not show.
\<close>

lemma read_le_cong:
  "(\<And>i. i < 2 \<Longrightarrow> a ! (off + i) = b ! (off + i)) \<Longrightarrow>
     evoke_read_u16_le a off = evoke_read_u16_le b off"
  "(\<And>i. i < 4 \<Longrightarrow> a ! (off + i) = b ! (off + i)) \<Longrightarrow>
     evoke_read_u32_le a off = evoke_read_u32_le b off"
  "(\<And>i. i < 8 \<Longrightarrow> a ! (off + i) = b ! (off + i)) \<Longrightarrow>
     evoke_read_u64_le a off = evoke_read_u64_le b off"
proof -
  assume *: "\<And>i. i < 2 \<Longrightarrow> a ! (off + i) = b ! (off + i)"
  from *[of 0] *[of 1] show "evoke_read_u16_le a off = evoke_read_u16_le b off"
    by (simp add: evoke_read_u16_le_def)
next
  assume *: "\<And>i. i < 4 \<Longrightarrow> a ! (off + i) = b ! (off + i)"
  from *[of 0] *[of 1] *[of 2] *[of 3]
  show "evoke_read_u32_le a off = evoke_read_u32_le b off"
    by (simp add: evoke_read_u32_le_def)
next
  assume *: "\<And>i. i < 8 \<Longrightarrow> a ! (off + i) = b ! (off + i)"
  show "evoke_read_u64_le a off = evoke_read_u64_le b off"
    unfolding evoke_read_u64_le_def by (rule foldl_cong) (use * in auto)
qed

lemma read_put_skip:
  "off + 2 \<le> off' \<or> off' + length bs \<le> off \<Longrightarrow>
      evoke_read_u16_le (put_bytes buf off' bs) off = evoke_read_u16_le buf off"
  "off + 4 \<le> off' \<or> off' + length bs \<le> off \<Longrightarrow>
      evoke_read_u32_le (put_bytes buf off' bs) off = evoke_read_u32_le buf off"
  "off + 8 \<le> off' \<or> off' + length bs \<le> off \<Longrightarrow>
      evoke_read_u64_le (put_bytes buf off' bs) off = evoke_read_u64_le buf off"
  by (auto intro!: read_le_cong simp: nth_put_bytes)

text \<open>Any of the three reads over any of the three writes elsewhere.\<close>

lemma read_u16_skip [codec]:
  "off + 2 \<le> off' \<or> off' + 2 \<le> off \<Longrightarrow>
     evoke_read_u16_le (evoke_write_u16_le buf off' a) off = evoke_read_u16_le buf off"
  "off + 2 \<le> off' \<or> off' + 4 \<le> off \<Longrightarrow>
     evoke_read_u16_le (evoke_write_u32_le buf off' b) off = evoke_read_u16_le buf off"
  "off + 2 \<le> off' \<or> off' + 8 \<le> off \<Longrightarrow>
     evoke_read_u16_le (evoke_write_u64_le buf off' c) off = evoke_read_u16_le buf off"
  unfolding evoke_write_u16_le_def evoke_write_u32_le_def evoke_write_u64_le_def
  by (rule read_put_skip(1); force)+

lemma read_u32_skip [codec]:
  "off + 4 \<le> off' \<or> off' + 2 \<le> off \<Longrightarrow>
     evoke_read_u32_le (evoke_write_u16_le buf off' a) off = evoke_read_u32_le buf off"
  "off + 4 \<le> off' \<or> off' + 4 \<le> off \<Longrightarrow>
     evoke_read_u32_le (evoke_write_u32_le buf off' b) off = evoke_read_u32_le buf off"
  "off + 4 \<le> off' \<or> off' + 8 \<le> off \<Longrightarrow>
     evoke_read_u32_le (evoke_write_u64_le buf off' c) off = evoke_read_u32_le buf off"
  unfolding evoke_write_u16_le_def evoke_write_u32_le_def evoke_write_u64_le_def
  by (rule read_put_skip(2); force)+

lemma read_u64_skip [codec]:
  "off + 8 \<le> off' \<or> off' + 2 \<le> off \<Longrightarrow>
     evoke_read_u64_le (evoke_write_u16_le buf off' a) off = evoke_read_u64_le buf off"
  "off + 8 \<le> off' \<or> off' + 4 \<le> off \<Longrightarrow>
     evoke_read_u64_le (evoke_write_u32_le buf off' b) off = evoke_read_u64_le buf off"
  "off + 8 \<le> off' \<or> off' + 8 \<le> off \<Longrightarrow>
     evoke_read_u64_le (evoke_write_u64_le buf off' c) off = evoke_read_u64_le buf off"
  unfolding evoke_write_u16_le_def evoke_write_u32_le_def evoke_write_u64_le_def
  by (rule read_put_skip(3); force)+

section \<open>The FNV-1a checksum\<close>

definition fnv_step :: "u64 \<Rightarrow> u8 \<Rightarrow> u64" where
  "fnv_step checksum b = (checksum XOR ucast b) * 1099511628211"

definition FNV_OFFSET_BASIS :: u64 where
  "FNV_OFFSET_BASIS = 14695981039346656037"

definition evoke_checksum_update :: "u64 \<Rightarrow> bytes \<Rightarrow> u64" where
  "evoke_checksum_update checksum bs = foldl fnv_step checksum bs"

text \<open>
  The multiplier is odd, so multiplying by it is injective modulo \<open>2 ^ 64\<close>; a step is
  injective in the running value and in the byte. Hence no change of a single byte is lost.
\<close>

lemma fnv_mult_inj: "(a :: u64) * 1099511628211 = b * 1099511628211 \<longleftrightarrow> a = b"
proof
  assume "a * 1099511628211 = b * 1099511628211"
  then have "a * 1099511628211 * 14886173955864302971 = b * 1099511628211 * 14886173955864302971"
    by (rule arg_cong)
  moreover have "x * 1099511628211 * 14886173955864302971 = x" for x :: u64
  proof -
    have "(1099511628211 :: u64) * 14886173955864302971 = 1" by simp
    then show ?thesis by (simp only: mult.assoc mult_1_right)
  qed
  ultimately show "a = b" by simp
qed simp

lemma xor_cancel: "(a :: 'a::len word) XOR b = c XOR b \<longleftrightarrow> a = c"
  by (metis xor.assoc xor_self_eq xor.right_neutral)

lemma xor_cancel_left: "(a :: 'a::len word) XOR b = a XOR c \<longleftrightarrow> b = c"
  by (metis xor.commute xor_cancel)

lemma ucast_ucast_u8 [simp]: "(ucast (ucast (a :: u8) :: u64) :: u8) = a"
  by (rule bit_word_eqI) (simp add: bit_simps)

lemma ucast_u8_inj: "(ucast (a :: u8) :: u64) = ucast b \<longleftrightarrow> a = b"
proof
  assume "(ucast a :: u64) = ucast b"
  then have "(ucast (ucast a :: u64) :: u8) = ucast (ucast b :: u64)" by simp
  then show "a = b" by simp
qed simp

lemma fnv_step_inj [simp]:
  "fnv_step a x = fnv_step b x \<longleftrightarrow> a = b"
  "fnv_step a x = fnv_step a y \<longleftrightarrow> x = y"
  by (simp_all add: fnv_step_def fnv_mult_inj xor_cancel xor_cancel_left ucast_u8_inj)

lemma evoke_checksum_update_append:
  "evoke_checksum_update c (xs @ ys) = evoke_checksum_update (evoke_checksum_update c xs) ys"
  by (simp add: evoke_checksum_update_def)

lemma evoke_checksum_update_inj [simp]:
  "evoke_checksum_update a bs = evoke_checksum_update b bs \<longleftrightarrow> a = b"
  by (induction bs arbitrary: a b) (simp_all add: evoke_checksum_update_def)

lemma evoke_checksum_update_single:
  assumes "i < length bs" and "x \<noteq> bs ! i"
  shows "evoke_checksum_update c (bs[i := x]) \<noteq> evoke_checksum_update c bs"
proof -
  have "bs[i := x] = take i bs @ x # drop (Suc i) bs" and "bs = take i bs @ bs ! i # drop (Suc i) bs"
    using assms by (simp_all add: upd_conv_take_nth_drop id_take_nth_drop [symmetric])
  then show ?thesis
    using assms(2)
    by (metis evoke_checksum_update_append evoke_checksum_update_inj evoke_checksum_update_def
        foldl_Cons fnv_step_inj(2))
qed

section \<open>The C library's sort\<close>

text \<open>
  \<open>qsort\<close> is modelled by an insertion sort over the caller's comparator. C leaves the
  order of elements that compare equal open; the lemmas below, which are all that the
  components use, hold for every choice.
\<close>

fun c_insert :: "('a \<Rightarrow> 'a \<Rightarrow> int) \<Rightarrow> 'a \<Rightarrow> 'a list \<Rightarrow> 'a list" where
  "c_insert cmp x [] = [x]"
| "c_insert cmp x (y # ys) = (if cmp x y \<le> 0 then x # y # ys else y # c_insert cmp x ys)"

definition c_qsort :: "('a \<Rightarrow> 'a \<Rightarrow> int) \<Rightarrow> 'a list \<Rightarrow> 'a list" where
  "c_qsort cmp xs = foldr (c_insert cmp) xs []"

lemma mset_c_insert [simp]: "mset (c_insert cmp x xs) = add_mset x (mset xs)"
  by (induction xs) auto

lemma mset_c_qsort [simp]: "mset (c_qsort cmp xs) = mset xs"
  unfolding c_qsort_def by (induction xs) auto

lemma set_c_qsort [simp]: "set (c_qsort cmp xs) = set xs"
  by (metis mset_c_qsort set_mset_mset)

lemma length_c_qsort [simp]: "length (c_qsort cmp xs) = length xs"
  by (metis mset_c_qsort size_mset)

lemma set_c_insert [simp]: "set (c_insert cmp x xs) = insert x (set xs)"
  by (metis mset_c_insert set_mset_add_mset_insert set_mset_mset)

text \<open>What a caller promises of a comparator on the elements it sorts.\<close>

locale c_comparator =
  fixes cmp :: "'a \<Rightarrow> 'a \<Rightarrow> int"
    and ok :: "'a \<Rightarrow> bool"
  assumes cmp_total: "ok x \<Longrightarrow> ok y \<Longrightarrow> cmp x y \<le> 0 \<or> cmp y x \<le> 0"
    and cmp_trans: "ok x \<Longrightarrow> ok y \<Longrightarrow> ok z \<Longrightarrow> cmp x y \<le> 0 \<Longrightarrow> cmp y z \<le> 0 \<Longrightarrow> cmp x z \<le> 0"
begin

lemma sorted_c_insert:
  assumes "ok x" and "\<forall>y \<in> set ys. ok y" and "sorted_wrt (\<lambda>a b. cmp a b \<le> 0) ys"
  shows "sorted_wrt (\<lambda>a b. cmp a b \<le> 0) (c_insert cmp x ys)"
  using assms
proof (induction ys)
  case (Cons y ys)
  show ?case
  proof (cases "cmp x y \<le> 0")
    case True
    have "cmp x z \<le> 0" if "z \<in> set ys" for z
      using Cons.prems True that cmp_trans [of x y z] by simp
    with True Cons.prems show ?thesis by simp
  next
    case False
    with Cons.prems cmp_total [of x y] have "cmp y x \<le> 0" by simp
    with False Cons show ?thesis by simp
  qed
qed simp

lemma sorted_c_qsort:
  "\<forall>x \<in> set xs. ok x \<Longrightarrow> sorted_wrt (\<lambda>a b. cmp a b \<le> 0) (c_qsort cmp xs)"
proof (induction xs)
  case (Cons x xs)
  then have "sorted_wrt (\<lambda>a b. cmp a b \<le> 0) (c_insert cmp x (c_qsort cmp xs))"
    by (intro sorted_c_insert) auto
  then show ?case by (simp add: c_qsort_def)
qed (simp add: c_qsort_def)

end

end
