(* ===== verification/Block_Ranges.thy ===== *)
theory Block_Ranges
  imports Prelude
begin

text \<open>
  The page-range inventory and the free-run allocator of \<open>src/evoke_block_ranges.c\<close>.

  Reclamation walks everything reachable from a checked root, adds each page range it
  meets to an inventory, and finalizes the inventory: sort, drop exact duplicates, reject
  partial overlap, merge adjacent ranges. The allocator is built as the complement of a
  finalized inventory (or from an authenticated list of free ranges) and hands out runs
  by best fit. The in-place array loops of the C code are kept as loops over an array with
  read and write indices; the lemmas relate them to functions on lists and those to sets
  of block numbers.
\<close>

section \<open>Data\<close>

record evoke_block_range =
  start_block :: u32
  block_count :: u32

text \<open>
  \<open>ranges\<close> with \<open>range_count\<close> is the list of the first \<open>range_count\<close> entries; the entries
  between that count and the capacity are never read.
\<close>

record evoke_block_range_inventory =
  inv_ranges :: "evoke_block_range list"
  inv_range_capacity :: u64
  inv_observed_range_count :: u64
  inv_reachable_block_count :: u64
  inv_interior_unreachable_block_count :: u64
  inv_highest_reachable_block_exclusive :: u32
  inv_published_block_high_watermark :: u32
  inv_finalized :: bool

record evoke_block_range_allocator =
  alloc_ranges :: "evoke_block_range list"
  alloc_available_block_count :: u64
  alloc_allocated_block_count :: u64
  alloc_initialized :: bool

definition sizeof_block_range :: u64 where "sizeof_block_range = 8"

section \<open>Inventory operations\<close>

definition evoke_block_range_compare :: "evoke_block_range \<Rightarrow> evoke_block_range \<Rightarrow> int" where
  "evoke_block_range_compare a b =
     (if start_block a \<noteq> start_block b
      then (if start_block a < start_block b then -1 else 1)
      else if block_count a \<noteq> block_count b
      then (if block_count a < block_count b then -1 else 1)
      else 0)"

definition zero_inventory :: evoke_block_range_inventory where
  "zero_inventory =
     \<lparr>inv_ranges = [], inv_range_capacity = 0, inv_observed_range_count = 0,
      inv_reachable_block_count = 0, inv_interior_unreachable_block_count = 0,
      inv_highest_reachable_block_exclusive = 0, inv_published_block_high_watermark = 0,
      inv_finalized = False\<rparr>"

definition evoke_block_range_inventory_init ::
  "evoke_block_range_inventory option \<Rightarrow> evoke_block_range_inventory option" where
  "evoke_block_range_inventory_init inventory =
     (case inventory of None \<Rightarrow> None | Some _ \<Rightarrow> Some zero_inventory)"

definition evoke_block_range_inventory_free ::
  "evoke_block_range_inventory option \<Rightarrow> evoke_block_range_inventory option" where
  "evoke_block_range_inventory_free inventory =
     (case inventory of None \<Rightarrow> None | Some _ \<Rightarrow> Some zero_inventory)"

text \<open>\<open>(uint64_t) r.start_block + r.block_count\<close>\<close>

definition range_end64 :: "evoke_block_range \<Rightarrow> u64" where
  "range_end64 r = u64_of_u32 (start_block r) + u64_of_u32 (block_count r)"

text \<open>\<open>realloc_ok\<close>: the \<open>realloc\<close> of the growth path returns a block.\<close>

definition evoke_block_range_inventory_add ::
  "bool \<Rightarrow> evoke_block_range_inventory option \<Rightarrow> u32 \<Rightarrow> u32
     \<Rightarrow> evoke_status \<times> evoke_block_range_inventory option" where
  "evoke_block_range_inventory_add realloc_ok inventory start blocks =
     (case inventory of
        None \<Rightarrow> (EVOKE_ERR_INVALID, None)
      | Some iv \<Rightarrow>
          if inv_finalized iv \<or> blocks = 0 \<or>
             u64_of_u32 start + u64_of_u32 blocks > u64_of_u32 UINT32_MAX
          then (EVOKE_ERR_INVALID, Some iv)
          else
            let next_capacity =
                  (if inv_range_capacity iv = 0 then 16 else inv_range_capacity iv * 2);
                appended = (\<lambda>iv. iv
                  \<lparr>inv_ranges := inv_ranges iv @ [\<lparr>start_block = start, block_count = blocks\<rparr>],
                   inv_observed_range_count := inv_observed_range_count iv + 1\<rparr>)
            in
              if of_nat (length (inv_ranges iv)) = inv_range_capacity iv then
                if next_capacity < inv_range_capacity iv \<or>
                   next_capacity > SIZE_MAX div sizeof_block_range
                then (EVOKE_ERR_RANGE, Some iv)
                else if \<not> realloc_ok then (EVOKE_ERR_NOMEM, Some iv)
                else (EVOKE_OK, Some (appended (iv\<lparr>inv_range_capacity := next_capacity\<rparr>)))
              else (EVOKE_OK, Some (appended iv)))"

text \<open>
  First pass of \<open>finalize\<close>: \<open>ranges[0 .. unique_count)\<close> is the output so far, \<open>index\<close>
  the read position. An error return leaves the array as it is at that moment.
\<close>

function finalize_unique_loop ::
  "u32 \<Rightarrow> evoke_block_range list \<Rightarrow> nat \<Rightarrow> nat \<Rightarrow> evoke_status \<times> evoke_block_range list \<times> nat" where
  "finalize_unique_loop high_watermark ranges index unique_count =
     (if index < length ranges then
        let current = ranges ! index in
        if range_end64 current > u64_of_u32 high_watermark
        then (EVOKE_ERR_RANGE, ranges, unique_count)
        else if unique_count > 0 then
          let previous = ranges ! (unique_count - 1) in
          if start_block current = start_block previous \<and>
             block_count current = block_count previous
          then finalize_unique_loop high_watermark ranges (Suc index) unique_count
          else if u64_of_u32 (start_block current) < range_end64 previous
          then (EVOKE_ERR_FORMAT, ranges, unique_count)
          else finalize_unique_loop high_watermark (ranges[unique_count := current])
                 (Suc index) (Suc unique_count)
        else finalize_unique_loop high_watermark (ranges[unique_count := current])
               (Suc index) (Suc unique_count)
      else (EVOKE_OK, ranges, unique_count))"
  by pat_completeness auto
termination
  by (relation "measure (\<lambda>(_, ranges, index, _). length ranges - index)") auto

text \<open>Second pass: merge neighbours among the first \<open>unique_count\<close> entries.\<close>

function finalize_merge_loop ::
  "evoke_block_range list \<Rightarrow> nat \<Rightarrow> nat \<Rightarrow> nat \<Rightarrow> evoke_block_range list \<times> nat" where
  "finalize_merge_loop ranges unique_count index output_count =
     (if index < unique_count then
        let current = ranges ! index in
        if output_count > 0 \<and>
           u64_of_u32 (start_block current) = range_end64 (ranges ! (output_count - 1))
        then finalize_merge_loop
               (ranges[output_count - 1 :=
                  (ranges ! (output_count - 1))
                    \<lparr>block_count := block_count (ranges ! (output_count - 1)) + block_count current\<rparr>])
               unique_count (Suc index) output_count
        else finalize_merge_loop (ranges[output_count := current])
               unique_count (Suc index) (Suc output_count)
      else (ranges, output_count))"
  by pat_completeness auto
termination
  by (relation "measure (\<lambda>(_, unique_count, index, _). unique_count - index)") auto

definition sum_block_counts :: "evoke_block_range list \<Rightarrow> u64" where
  "sum_block_counts rs = foldl (\<lambda>total r. total + u64_of_u32 (block_count r)) 0 rs"

definition evoke_block_range_inventory_finalize ::
  "evoke_block_range_inventory option \<Rightarrow> u32
     \<Rightarrow> evoke_status \<times> evoke_block_range_inventory option" where
  "evoke_block_range_inventory_finalize inventory high_watermark =
     (case inventory of
        None \<Rightarrow> (EVOKE_ERR_INVALID, None)
      | Some iv \<Rightarrow>
          if inv_finalized iv \<or> high_watermark = 0 \<or> inv_ranges iv = []
          then (EVOKE_ERR_INVALID, Some iv)
          else
            let sorted_ranges = c_qsort evoke_block_range_compare (inv_ranges iv);
                (status, unique_ranges, unique_count) =
                  finalize_unique_loop high_watermark sorted_ranges 0 0
            in
              if status \<noteq> EVOKE_OK then (status, Some (iv\<lparr>inv_ranges := unique_ranges\<rparr>))
              else
                let (merged, output_count) = finalize_merge_loop unique_ranges unique_count 0 0;
                    output = take output_count merged;
                    reachable_blocks = sum_block_counts output
                in
                  if reachable_blocks > u64_of_u32 high_watermark
                  then (EVOKE_ERR_FORMAT, Some (iv\<lparr>inv_ranges := merged\<rparr>))
                  else
                    (EVOKE_OK, Some (iv
                      \<lparr>inv_ranges := output,
                       inv_reachable_block_count := reachable_blocks,
                       inv_interior_unreachable_block_count :=
                         u64_of_u32 high_watermark - reachable_blocks,
                       inv_highest_reachable_block_exclusive :=
                         start_block (merged ! (output_count - 1)) +
                         block_count (merged ! (output_count - 1)),
                       inv_published_block_high_watermark := high_watermark,
                       inv_finalized := True\<rparr>)))"

section \<open>Allocator operations\<close>

definition zero_allocator :: evoke_block_range_allocator where
  "zero_allocator =
     \<lparr>alloc_ranges = [], alloc_available_block_count = 0, alloc_allocated_block_count = 0,
      alloc_initialized = False\<rparr>"

definition evoke_block_range_allocator_init ::
  "evoke_block_range_allocator option \<Rightarrow> evoke_block_range_allocator option" where
  "evoke_block_range_allocator_init allocator =
     (case allocator of None \<Rightarrow> None | Some _ \<Rightarrow> Some zero_allocator)"

definition evoke_block_range_allocator_free ::
  "evoke_block_range_allocator option \<Rightarrow> evoke_block_range_allocator option" where
  "evoke_block_range_allocator_free allocator =
     (case allocator of None \<Rightarrow> None | Some _ \<Rightarrow> Some zero_allocator)"

text \<open>
  The loop of \<open>allocator_build\<close> over the live ranges. The result is the cursor, the gaps
  written so far and their total; \<open>None\<close> is the \<open>EVOKE_ERR_FORMAT\<close> exit.
\<close>

fun build_gaps_loop ::
  "u32 \<Rightarrow> evoke_block_range list \<Rightarrow> u32 \<Rightarrow> evoke_block_range list \<Rightarrow> u64
     \<Rightarrow> (u32 \<times> evoke_block_range list \<times> u64) option" where
  "build_gaps_loop high_watermark [] cursor gaps available = Some (cursor, gaps, available)"
| "build_gaps_loop high_watermark (live # rest) cursor gaps available =
     (if start_block live < cursor \<or> range_end64 live > u64_of_u32 high_watermark then None
      else if start_block live > cursor then
        let gap_blocks = start_block live - cursor in
        build_gaps_loop high_watermark rest (ucast (range_end64 live))
          (gaps @ [\<lparr>start_block = cursor, block_count = gap_blocks\<rparr>])
          (available + u64_of_u32 gap_blocks)
      else build_gaps_loop high_watermark rest (ucast (range_end64 live)) gaps available)"

definition evoke_block_range_allocator_build ::
  "bool \<Rightarrow> evoke_block_range_inventory option \<Rightarrow> evoke_block_range_allocator option
     \<Rightarrow> evoke_status \<times> evoke_block_range_allocator option" where
  "evoke_block_range_allocator_build calloc_ok inventory allocator =
     (case (inventory, allocator) of
        (Some iv, Some alloc) \<Rightarrow>
          if \<not> inv_finalized iv \<or> alloc_initialized alloc \<or> inv_ranges iv = [] \<or>
             start_block (hd (inv_ranges iv)) \<noteq> 0 \<or> block_count (hd (inv_ranges iv)) = 0
          then (EVOKE_ERR_INVALID, allocator)
          else if length (inv_ranges iv) \<ge> unat (SIZE_MAX div sizeof_block_range)
          then (EVOKE_ERR_RANGE, allocator)
          else if \<not> calloc_ok then (EVOKE_ERR_NOMEM, Some (alloc\<lparr>alloc_ranges := []\<rparr>))
          else
            let high_watermark = inv_published_block_high_watermark iv in
            (case build_gaps_loop high_watermark (inv_ranges iv) 0 [] 0 of
               None \<Rightarrow> (EVOKE_ERR_FORMAT, evoke_block_range_allocator_free allocator)
             | Some (cursor, gaps, available) \<Rightarrow>
                 let (gaps, available) =
                       (if cursor < high_watermark
                        then (gaps @ [\<lparr>start_block = cursor,
                                       block_count = high_watermark - cursor\<rparr>],
                              available + u64_of_u32 (high_watermark - cursor))
                        else (gaps, available))
                 in
                   if available \<noteq> inv_interior_unreachable_block_count iv
                   then (EVOKE_ERR_FORMAT, evoke_block_range_allocator_free allocator)
                   else (EVOKE_OK, Some (alloc
                     \<lparr>alloc_ranges := gaps,
                      alloc_available_block_count := available,
                      alloc_initialized := True\<rparr>)))
      | _ \<Rightarrow> (EVOKE_ERR_INVALID, allocator))"

text \<open>The checks of \<open>allocator_build_free\<close>; \<open>previous\<close> is \<open>ranges[index - 1]\<close>.\<close>

fun build_free_loop ::
  "u32 \<Rightarrow> evoke_block_range option \<Rightarrow> evoke_block_range list \<Rightarrow> u64 \<Rightarrow> u64 option" where
  "build_free_loop high_watermark previous [] available = Some available"
| "build_free_loop high_watermark previous (current # rest) available =
     (if start_block current = 0 \<or> block_count current = 0 \<or>
         range_end64 current > u64_of_u32 high_watermark \<or>
         (case previous of None \<Rightarrow> False
          | Some p \<Rightarrow> range_end64 p \<ge> u64_of_u32 (start_block current)) \<or>
         available > UINT64_MAX - u64_of_u32 (block_count current)
      then None
      else build_free_loop high_watermark (Some current) rest
             (available + u64_of_u32 (block_count current)))"

definition evoke_block_range_allocator_build_free ::
  "bool \<Rightarrow> evoke_block_range list option \<Rightarrow> u32 \<Rightarrow> evoke_block_range_allocator option
     \<Rightarrow> evoke_status \<times> evoke_block_range_allocator option" where
  "evoke_block_range_allocator_build_free calloc_ok ranges high_watermark allocator =
     (case (ranges, allocator) of
        (Some rs, Some alloc) \<Rightarrow>
          if rs = [] \<or> high_watermark \<le> 1 \<or> alloc_initialized alloc \<or>
             length rs > unat (SIZE_MAX div sizeof_block_range)
          then (EVOKE_ERR_INVALID, allocator)
          else if \<not> calloc_ok then (EVOKE_ERR_NOMEM, Some (alloc\<lparr>alloc_ranges := []\<rparr>))
          else
            (case build_free_loop high_watermark None rs 0 of
               None \<Rightarrow> (EVOKE_ERR_FORMAT, evoke_block_range_allocator_free allocator)
             | Some available \<Rightarrow>
                 (EVOKE_OK, Some (alloc
                   \<lparr>alloc_ranges := rs,
                    alloc_available_block_count := available,
                    alloc_initialized := True\<rparr>)))
      | _ \<Rightarrow> (EVOKE_ERR_INVALID, allocator))"

text \<open>The selection loop of best fit; \<open>None\<close> is the sentinel \<open>SIZE_MAX\<close>.\<close>

function best_fit_loop ::
  "evoke_block_range list \<Rightarrow> u32 \<Rightarrow> nat \<Rightarrow> nat option \<Rightarrow> nat option" where
  "best_fit_loop ranges blocks index selected =
     (if index < length ranges then
        if block_count (ranges ! index) < blocks
        then best_fit_loop ranges blocks (Suc index) selected
        else if (case selected of None \<Rightarrow> True
                 | Some s \<Rightarrow> block_count (ranges ! index) < block_count (ranges ! s))
        then best_fit_loop ranges blocks (Suc index) (Some index)
        else best_fit_loop ranges blocks (Suc index) selected
      else selected)"
  by pat_completeness auto
termination
  by (relation "measure (\<lambda>(ranges, _, index, _). length ranges - index)") auto

text \<open>
  \<open>start_block_out\<close> is the output cell: \<open>None\<close> for a null pointer, otherwise its content.
\<close>

definition evoke_block_range_allocator_allocate_best_fit ::
  "evoke_block_range_allocator option \<Rightarrow> u32 \<Rightarrow> u32 option
     \<Rightarrow> bool \<times> evoke_block_range_allocator option \<times> u32 option" where
  "evoke_block_range_allocator_allocate_best_fit allocator blocks start_block_out =
     (case (allocator, start_block_out) of
        (Some alloc, Some _) \<Rightarrow>
          if \<not> alloc_initialized alloc \<or> blocks = 0
          then (False, allocator, start_block_out)
          else
            (case best_fit_loop (alloc_ranges alloc) blocks 0 None of
               None \<Rightarrow> (False, allocator, start_block_out)
             | Some selected \<Rightarrow>
                 let chosen = alloc_ranges alloc ! selected;
                     rest = chosen\<lparr>start_block := start_block chosen + blocks,
                                   block_count := block_count chosen - blocks\<rparr>;
                     ranges = (alloc_ranges alloc)[selected := rest]
                 in
                   (True,
                    Some (alloc
                      \<lparr>alloc_ranges :=
                         (if block_count rest = 0
                          then take selected ranges @ drop (selected + 1) ranges else ranges),
                       alloc_available_block_count :=
                         alloc_available_block_count alloc - u64_of_u32 blocks,
                       alloc_allocated_block_count :=
                         alloc_allocated_block_count alloc + u64_of_u32 blocks\<rparr>),
                    Some (start_block chosen)))
      | _ \<Rightarrow> (False, allocator, start_block_out))"

declare finalize_unique_loop.simps [simp del]
declare finalize_merge_loop.simps [simp del]
declare best_fit_loop.simps [simp del]

section \<open>Ranges as sets of blocks\<close>

definition range_end :: "evoke_block_range \<Rightarrow> nat" where
  "range_end r = unat (start_block r) + unat (block_count r)"

definition range_blocks :: "evoke_block_range \<Rightarrow> nat set" where
  "range_blocks r = {unat (start_block r) ..< range_end r}"

definition blocks_of :: "evoke_block_range list \<Rightarrow> nat set" where
  "blocks_of rs = (\<Union>r \<in> set rs. range_blocks r)"

text \<open>A range as \<open>inventory_add\<close> admits it: not empty, and its end fits in 32 bits.\<close>

definition range_ok :: "evoke_block_range \<Rightarrow> bool" where
  "range_ok r \<longleftrightarrow> 0 < unat (block_count r) \<and> range_end r \<le> 4294967295"

text \<open>Ascending and pairwise disjoint; ascending with a gap before every successor.\<close>

definition separated :: "evoke_block_range list \<Rightarrow> bool" where
  "separated rs \<longleftrightarrow> sorted_wrt (\<lambda>a b. range_end a \<le> unat (start_block b)) rs"

definition canonical :: "evoke_block_range list \<Rightarrow> bool" where
  "canonical rs \<longleftrightarrow> sorted_wrt (\<lambda>a b. range_end a < unat (start_block b)) rs"

text \<open>Two references name the same object or share no page.\<close>

definition compatible :: "evoke_block_range list \<Rightarrow> bool" where
  "compatible rs \<longleftrightarrow>
     (\<forall>a \<in> set rs. \<forall>b \<in> set rs. a = b \<or> range_blocks a \<inter> range_blocks b = {})"

lemma unat_range_end64 [simp, word_nat]: "unat (range_end64 r) = range_end r"
  by (simp add: range_end64_def range_end_def)

lemma range_end64_less [word_nat]:
  "u64_of_u32 w < range_end64 r \<longleftrightarrow> unat w < range_end r"
  "range_end64 r < u64_of_u32 w \<longleftrightarrow> range_end r < unat w"
  "u64_of_u32 w \<le> range_end64 r \<longleftrightarrow> unat w \<le> range_end r"
  "u64_of_u32 w = range_end64 r \<longleftrightarrow> unat w = range_end r"
  by (simp_all add: word_order_nat)

lemma blocks_of_simps [simp]:
  "blocks_of [] = {}"
  "blocks_of (r # rs) = range_blocks r \<union> blocks_of rs"
  "blocks_of (rs @ ss) = blocks_of rs \<union> blocks_of ss"
  by (auto simp: blocks_of_def)

lemma finite_blocks_of [simp]: "finite (blocks_of rs)" "finite (range_blocks r)"
  by (auto simp: blocks_of_def range_blocks_def)

lemma card_range_blocks [simp]: "card (range_blocks r) = unat (block_count r)"
  by (simp add: range_blocks_def range_end_def)

lemma blocks_of_set_cong: "set rs = set ss \<Longrightarrow> blocks_of rs = blocks_of ss"
  by (simp add: blocks_of_def)

lemma range_eqI: "start_block a = start_block b \<Longrightarrow> block_count a = block_count b \<Longrightarrow>
    (a :: evoke_block_range) = b"
  by simp

lemma canonical_separated: "canonical rs \<Longrightarrow> separated rs"
  unfolding canonical_def separated_def by (rule sorted_wrt_mono_rel) auto

lemma separated_snoc:
  "separated (rs @ [r]) \<longleftrightarrow> separated rs \<and> (\<forall>a \<in> set rs. range_end a \<le> unat (start_block r))"
  by (auto simp: separated_def sorted_wrt_append)

lemma canonical_snoc:
  "canonical (rs @ [r]) \<longleftrightarrow> canonical rs \<and> (\<forall>a \<in> set rs. range_end a < unat (start_block r))"
  by (auto simp: canonical_def sorted_wrt_append)

lemma separated_last:
  assumes "separated rs" and "rs \<noteq> []" and "a \<in> set rs"
  shows "range_end a \<le> range_end (last rs)"
proof -
  have rs: "rs = butlast rs @ [last rs]" using assms(2) by simp
  with assms(1) have "separated (butlast rs @ [last rs])" by simp
  then have "\<forall>a \<in> set (butlast rs). range_end a \<le> unat (start_block (last rs))"
    unfolding separated_snoc by simp
  moreover have "a \<in> set (butlast rs) \<or> a = last rs"
    using assms(2,3) rs by (metis UnE empty_iff empty_set set_ConsD set_append)
  ultimately show ?thesis by (auto simp: range_end_def)
qed

lemma separated_disjoint:
  "separated (rs @ ss) \<Longrightarrow> blocks_of rs \<inter> blocks_of ss = {}"
  by (fastforce simp: separated_def sorted_wrt_append blocks_of_def range_blocks_def)

lemma card_blocks_of:
  "separated rs \<Longrightarrow> card (blocks_of rs) = sum_list (map (\<lambda>r. unat (block_count r)) rs)"
proof (induction rs)
  case (Cons r rs)
  have "blocks_of [r] \<inter> blocks_of rs = {}"
    by (rule separated_disjoint) (use Cons.prems in simp)
  moreover have "separated rs" using Cons.prems by (simp add: separated_def)
  ultimately show ?case using Cons.IH by (simp add: card_Un_disjoint)
qed simp

lemma blocks_of_below:
  "\<forall>r \<in> set rs. range_end r \<le> n \<Longrightarrow> blocks_of rs \<subseteq> {..<n}"
  by (fastforce simp: blocks_of_def range_blocks_def)

text \<open>Sums of block counts do not wrap while the blocks are below a 32-bit mark.\<close>

lemma foldl_block_counts:
  assumes "unat t + sum_list (map (\<lambda>r. unat (block_count r)) rs) < 18446744073709551616"
  shows "unat (foldl (\<lambda>total r. total + u64_of_u32 (block_count r)) t rs) =
    unat t + sum_list (map (\<lambda>r. unat (block_count r)) rs)"
  using assms
proof (induction rs arbitrary: t)
  case (Cons r rs)
  then have "unat (t + u64_of_u32 (block_count r)) = unat t + unat (block_count r)"
    by (simp add: unat_add_u64)
  with Cons show ?case by simp
qed simp

lemma unat_sum_block_counts:
  assumes "separated rs" and "\<forall>r \<in> set rs. range_end r \<le> n" and "n < 4294967296"
  shows "unat (sum_block_counts rs) = card (blocks_of rs)" and "card (blocks_of rs) \<le> n"
proof -
  show le: "card (blocks_of rs) \<le> n"
    using card_mono [OF _ blocks_of_below [OF assms(2)]] by simp
  with assms show "unat (sum_block_counts rs) = card (blocks_of rs)"
    unfolding sum_block_counts_def
    by (subst foldl_block_counts) (simp_all add: card_blocks_of)
qed

section \<open>The in-place loops as functions on lists\<close>

text \<open>
  \<open>dedup\<close> and \<open>coalesce\<close> are the two passes with the output kept in a list of its own.
  The write index never passes the read index, so the array holds the output followed by
  input that has not been overwritten.
\<close>

fun dedup :: "nat \<Rightarrow> evoke_block_range list \<Rightarrow> evoke_block_range list
    \<Rightarrow> evoke_status \<times> evoke_block_range list" where
  "dedup hw out [] = (EVOKE_OK, out)"
| "dedup hw out (c # cs) =
     (if range_end c > hw then (EVOKE_ERR_RANGE, out)
      else if out \<noteq> [] \<and> c = last out then dedup hw out cs
      else if out \<noteq> [] \<and> unat (start_block c) < range_end (last out) then (EVOKE_ERR_FORMAT, out)
      else dedup hw (out @ [c]) cs)"

fun coalesce :: "evoke_block_range list \<Rightarrow> evoke_block_range list \<Rightarrow> evoke_block_range list" where
  "coalesce out [] = out"
| "coalesce out (c # cs) =
     (if out \<noteq> [] \<and> unat (start_block c) = range_end (last out)
      then coalesce (butlast out @
             [(last out)\<lparr>block_count := block_count (last out) + block_count c\<rparr>]) cs
      else coalesce (out @ [c]) cs)"

lemma take_Suc_update:
  "n < length xs \<Longrightarrow> take (Suc n) (xs[n := x]) = take n xs @ [x]"
  by (simp add: take_Suc_conv_app_nth)

lemma last_take_nth: "0 < n \<Longrightarrow> n \<le> length xs \<Longrightarrow> last (take n xs) = xs ! (n - 1)"
  by (cases n) (simp_all add: take_Suc_conv_app_nth)

lemma dedup_length: "length out \<le> length (snd (dedup hw out cs))"
  by (induction hw out cs rule: dedup.induct) auto

lemma finalize_unique_loop_dedup:
  assumes "uc \<le> i" and "i \<le> length rs"
  shows "finalize_unique_loop hw rs i uc =
    (case dedup (unat hw) (take uc rs) (drop i rs) of
       (status, out) \<Rightarrow> (status, out @ drop (length out) rs, length out))"
  using assms
proof (induction hw rs i uc rule: finalize_unique_loop.induct)
  case (1 hw rs i uc)
  show ?case
  proof (cases "i < length rs")
    case False
    then have "finalize_unique_loop hw rs i uc = (EVOKE_OK, rs, uc)"
      by (subst finalize_unique_loop.simps) simp
    with False "1.prems" show ?thesis by simp
  next
    case True
    let ?c = "rs ! i"
    have drop: "drop i rs = ?c # drop (Suc i) rs" using True by (simp add: Cons_nth_drop_Suc)
    have ne: "rs \<noteq> []" using True by auto
    have lst: "0 < uc \<Longrightarrow> last (take uc rs) = rs ! (uc - 1)"
      using True "1.prems" by (simp add: last_take_nth)
    have eq: "start_block ?c = start_block r \<and> block_count ?c = block_count r \<longleftrightarrow> ?c = r" for r
      by (auto intro: range_eqI)
    consider (range) "range_end ?c > unat hw"
      | (dup) "range_end ?c \<le> unat hw" "0 < uc" "?c = rs ! (uc - 1)"
      | (overlap) "range_end ?c \<le> unat hw" "0 < uc" "?c \<noteq> rs ! (uc - 1)"
          "unat (start_block ?c) < range_end (rs ! (uc - 1))"
      | (keep) "range_end ?c \<le> unat hw"
          "0 < uc \<Longrightarrow> ?c \<noteq> rs ! (uc - 1) \<and> \<not> unat (start_block ?c) < range_end (rs ! (uc - 1))"
      by (meson not_le)
    then show ?thesis
    proof cases
      case range
      then show ?thesis
        using True "1.prems"
        by (simp add: finalize_unique_loop.simps [of hw rs i uc] Let_def word_nat drop)
    next
      case dup
      then have "finalize_unique_loop hw rs i uc = finalize_unique_loop hw rs (Suc i) uc"
        using True by (simp add: finalize_unique_loop.simps [of hw rs i uc] Let_def word_nat)
      moreover have "finalize_unique_loop hw rs (Suc i) uc =
        (case dedup (unat hw) (take uc rs) (drop (Suc i) rs) of
          (status, out) \<Rightarrow> (status, out @ drop (length out) rs, length out))"
        using dup True "1.prems" by (intro "1.IH"(1)) (simp_all add: word_nat)
      ultimately show ?thesis using dup by (simp add: drop ne lst)
    next
      case overlap
      then show ?thesis
        using True "1.prems"
        by (simp add: finalize_unique_loop.simps [of hw rs i uc] Let_def word_nat drop ne lst eq)
    next
      case keep
      let ?rs = "rs[uc := ?c]"
      have step: "finalize_unique_loop hw rs i uc = finalize_unique_loop hw ?rs (Suc i) (Suc uc)"
        using keep True
        by (subst finalize_unique_loop.simps) (auto simp add: Let_def word_nat eq)
      have "finalize_unique_loop hw ?rs (Suc i) (Suc uc) =
        (case dedup (unat hw) (take (Suc uc) ?rs) (drop (Suc i) ?rs) of
          (status, out) \<Rightarrow> (status, out @ drop (length out) ?rs, length out))"
      proof (cases "0 < uc")
        case True
        show ?thesis
          by (rule "1.IH"(2)) (use keep True \<open>i < length rs\<close> "1.prems" in \<open>auto simp: word_nat eq\<close>)
      next
        case False
        show ?thesis
          by (rule "1.IH"(3)) (use keep False \<open>i < length rs\<close> "1.prems" in \<open>auto simp: word_nat eq\<close>)
      qed
      moreover have "take (Suc uc) ?rs = take uc rs @ [?c]" and "drop (Suc i) ?rs = drop (Suc i) rs"
        using True "1.prems" by (simp_all add: take_Suc_update)
      moreover have "uc < length (snd (dedup (unat hw) (take uc rs @ [?c]) (drop (Suc i) rs)))"
        using dedup_length [of "take uc rs @ [?c]" "unat hw" "drop (Suc i) rs"] True "1.prems" by simp
      moreover have "dedup (unat hw) (take uc rs) (drop i rs) =
          dedup (unat hw) (take uc rs @ [?c]) (drop (Suc i) rs)"
        using keep by (auto simp: drop ne lst)
      ultimately show ?thesis
        unfolding step by (auto split: prod.splits)
    qed
  qed
qed

lemma coalesce_length: "length (coalesce out cs) \<le> length out + length cs"
proof (induction out cs rule: coalesce.induct)
  case (2 out c cs)
  then show ?case by (cases "out = []") auto
qed simp

lemma coalesce_length_ge: "length out \<le> length (coalesce out cs)"
proof (induction out cs rule: coalesce.induct)
  case (2 out c cs)
  then show ?case by (cases "out = []") auto
qed simp

lemma take_update_last:
  "0 < n \<Longrightarrow> n \<le> length xs \<Longrightarrow> take n (xs[n - Suc 0 := x]) = butlast (take n xs) @ [x]"
  by (cases n) (simp_all add: take_Suc_update butlast_take)

lemma finalize_merge_loop_coalesce:
  assumes "oc \<le> i" and "i \<le> uc" and "uc \<le> length rs"
  shows "finalize_merge_loop rs uc i oc =
    (let out = coalesce (take oc rs) (drop i (take uc rs)) in (out @ drop (length out) rs, length out))"
  using assms
proof (induction rs uc i oc rule: finalize_merge_loop.induct)
  case (1 rs uc i oc)
  show ?case
  proof (cases "i < uc")
    case False
    then have "finalize_merge_loop rs uc i oc = (rs, oc)"
      by (subst finalize_merge_loop.simps) simp
    with False "1.prems" show ?thesis by simp
  next
    case True
    let ?c = "rs ! i" and ?p = "rs ! (oc - 1)"
    have drop: "drop i (take uc rs) = ?c # drop (Suc i) (take uc rs)"
      using True "1.prems" by (simp add: Cons_nth_drop_Suc [symmetric])
    have ne: "rs \<noteq> []" using True "1.prems" by auto
    have lst: "0 < oc \<Longrightarrow> last (take oc rs) = ?p"
      using True "1.prems" by (simp add: last_take_nth)
    show ?thesis
    proof (cases "0 < oc \<and> unat (start_block ?c) = range_end ?p")
      case merge: True
      let ?rs = "rs[oc - 1 := ?p\<lparr>block_count := block_count ?p + block_count ?c\<rparr>]"
      let ?out = "coalesce (take oc ?rs) (drop (Suc i) (take uc ?rs))"
      have "finalize_merge_loop rs uc i oc = finalize_merge_loop ?rs uc (Suc i) oc"
        using merge True by (subst finalize_merge_loop.simps) (simp add: Let_def word_nat)
      also have "\<dots> = (?out @ drop (length ?out) ?rs, length ?out)"
        using merge True "1.prems" by (subst "1.IH"(1)) (simp_all add: word_nat Let_def)
      also have "drop (length ?out) ?rs = drop (length ?out) rs"
      proof (rule drop_update_cancel)
        have "oc - 1 < length (take oc ?rs)" using merge "1.prems" True by simp
        then show "oc - 1 < length ?out" using coalesce_length_ge by (rule less_le_trans)
      qed
      also have "drop (Suc i) (take uc ?rs) = drop (Suc i) (take uc rs)"
        using merge "1.prems" by (simp add: take_update_swap)
      also have "coalesce (take oc ?rs) (drop (Suc i) (take uc rs)) =
          coalesce (take oc rs) (drop i (take uc rs))"
        using merge "1.prems" True ne lst by (simp add: drop take_update_last)
      finally show ?thesis by (simp add: Let_def)
    next
      case keep: False
      let ?rs = "rs[oc := ?c]"
      let ?out = "coalesce (take (Suc oc) ?rs) (drop (Suc i) (take uc ?rs))"
      have "finalize_merge_loop rs uc i oc = finalize_merge_loop ?rs uc (Suc i) (Suc oc)"
        using keep True by (subst finalize_merge_loop.simps) (auto simp add: Let_def word_nat)
      also have "\<dots> = (?out @ drop (length ?out) ?rs, length ?out)"
        using keep True "1.prems" by (subst "1.IH"(2)) (auto simp add: word_nat Let_def)
      also have "drop (length ?out) ?rs = drop (length ?out) rs"
      proof (rule drop_update_cancel)
        have "oc < length (take (Suc oc) ?rs)" using "1.prems" True by simp
        then show "oc < length ?out" using coalesce_length_ge by (rule less_le_trans)
      qed
      also have "drop (Suc i) (take uc ?rs) = drop (Suc i) (take uc rs)"
        using "1.prems" by (simp add: take_update_swap)
      also have "coalesce (take (Suc oc) ?rs) (drop (Suc i) (take uc rs)) =
          coalesce (take oc rs) (drop i (take uc rs))"
        using keep "1.prems" True ne lst by (auto simp: drop take_Suc_update)
      finally show ?thesis by (simp add: Let_def)
    qed
  qed
qed

section \<open>What the two passes compute\<close>

lemma evoke_block_range_compare_le:
  "evoke_block_range_compare a b \<le> 0 \<longleftrightarrow>
     unat (start_block a) < unat (start_block b) \<or>
     start_block a = start_block b \<and> unat (block_count a) \<le> unat (block_count b)"
  by (auto simp: evoke_block_range_compare_def word_order_nat)

interpretation range_cmp: c_comparator evoke_block_range_compare "\<lambda>_. True"
  by unfold_locales (auto simp: evoke_block_range_compare_le word_unat_eq_iff)

lemma sorted_starts:
  "sorted_wrt (\<lambda>a b. unat (start_block a) \<le> unat (start_block b)) (c_qsort evoke_block_range_compare rs)"
  by (rule sorted_wrt_mono_rel [OF _ range_cmp.sorted_c_qsort])
    (auto simp: evoke_block_range_compare_le)

lemma separated_compatible:
  assumes "separated rs"
  shows "compatible rs"
proof -
  have "range_blocks (rs ! i) \<inter> range_blocks (rs ! j) = {}" if "i < j" "j < length rs" for i j
  proof -
    have "range_end (rs ! i) \<le> unat (start_block (rs ! j))"
      using assms that by (simp add: separated_def sorted_wrt_iff_nth_less)
    then show ?thesis by (auto simp: range_blocks_def)
  qed
  then have "rs ! i = rs ! j \<or> range_blocks (rs ! i) \<inter> range_blocks (rs ! j) = {}"
    if "i < length rs" "j < length rs" for i j
    using that by (metis Int_commute linorder_neqE_nat)
  then show ?thesis unfolding compatible_def by (metis in_set_conv_nth)
qed

lemma compatible_set_cong: "set rs = set ss \<Longrightarrow> compatible rs = compatible ss"
  by (simp add: compatible_def)

lemma dedup_sound:
  assumes "dedup hw out cs = (EVOKE_OK, res)" and "separated out"
  shows "separated res \<and> set res = set out \<union> set cs \<and> (\<forall>c \<in> set cs. range_end c \<le> hw)"
  using assms
proof (induction hw out cs rule: dedup.induct)
  case (2 hw out c cs)
  consider "out \<noteq> []" "c = last out" | "out = [] \<or> range_end (last out) \<le> unat (start_block c)"
    using "2.prems" by (auto split: if_splits)
  then show ?case
  proof cases
    case 1
    with 2 show ?thesis by (auto split: if_splits)
  next
    case 2
    then have "range_end a \<le> unat (start_block c)" if "a \<in> set out" for a
      using separated_last [OF "2.prems"(2) _ that] that by force
    with "2.prems"(2) have "separated (out @ [c])" by (simp add: separated_snoc)
    with 2 "2.IH" "2.prems" show ?thesis by (auto split: if_splits)
  qed
qed simp

lemma dedup_complete:
  assumes "\<forall>c \<in> set cs. range_end c \<le> hw" and "compatible (out @ cs)"
    and "\<forall>c \<in> set cs. 0 < unat (block_count c)"
    and "sorted_wrt (\<lambda>a b. unat (start_block a) \<le> unat (start_block b)) cs"
    and "out \<noteq> [] \<Longrightarrow> \<forall>c \<in> set cs. unat (start_block (last out)) \<le> unat (start_block c)"
  shows "fst (dedup hw out cs) = EVOKE_OK"
  using assms
proof (induction hw out cs rule: dedup.induct)
  case (2 hw out c cs)
  have "\<not> unat (start_block c) < range_end (last out)" if "out \<noteq> []" "c \<noteq> last out"
  proof
    assume "unat (start_block c) < range_end (last out)"
    with "2.prems"(3,5) that have "unat (start_block c) \<in> range_blocks (last out) \<inter> range_blocks c"
      by (auto simp: range_blocks_def range_end_def)
    moreover have "last out \<in> set (out @ c # cs)" "c \<in> set (out @ c # cs)" using that by auto
    ultimately show False using "2.prems"(2) that unfolding compatible_def by blast
  qed
  moreover have "compatible (out @ cs)"
    using "2.prems"(2) by (auto simp: compatible_def)
  ultimately show ?case using 2 by auto
qed simp

lemma coalesce_correct:
  assumes "canonical out" and "separated (out @ cs)" and "\<forall>r \<in> set (out @ cs). range_ok r"
  shows "canonical (coalesce out cs) \<and> blocks_of (coalesce out cs) = blocks_of (out @ cs) \<and>
    (\<forall>r \<in> set (coalesce out cs). range_ok r) \<and>
    (\<forall>n. (\<forall>r \<in> set (out @ cs). range_end r \<le> n) \<longrightarrow> (\<forall>r \<in> set (coalesce out cs). range_end r \<le> n))"
  using assms
proof (induction out cs rule: coalesce.induct)
  case (2 out c cs)
  show ?case
  proof (cases "out \<noteq> [] \<and> unat (start_block c) = range_end (last out)")
    case True
    then obtain bs l where out: "out = bs @ [l]" by (metis rev_exhaust)
    define l' where "l' = l\<lparr>block_count := block_count l + block_count c\<rparr>"
    from True out have adj: "unat (start_block c) = range_end l" by simp
    have c_ok: "range_ok c" and l_ok: "range_ok l" using "2.prems"(3) out by auto
    have cnt: "unat (block_count l') = unat (block_count l) + unat (block_count c)"
      using c_ok adj by (simp add: l'_def range_ok_def range_end_def unat_add_u32)
    have st: "start_block l' = start_block l" by (simp add: l'_def)
    have e: "range_end l' = range_end c" and ok: "range_ok l'"
      using c_ok l_ok adj cnt st by (simp_all add: range_end_def range_ok_def)
    have b: "range_blocks l' = range_blocks l \<union> range_blocks c"
      using adj e st by (auto simp: range_blocks_def range_end_def)
    have can: "canonical (bs @ [l'])" and sep: "separated ((bs @ [l']) @ cs)"
      using "2.prems"(1,2) st e
      by (auto simp: out canonical_snoc separated_def sorted_wrt_append)
    have oks: "\<forall>r \<in> set ((bs @ [l']) @ cs). range_ok r"
      using "2.prems"(3) ok out by auto
    have eq: "butlast out @ [(last out)\<lparr>block_count := block_count (last out) + block_count c\<rparr>] = bs @ [l']"
      by (simp add: out l'_def)
    note IH = "2.IH"(1) [OF True, unfolded eq, OF can sep oks]
    have step: "coalesce out (c # cs) = coalesce (bs @ [l']) cs"
      using adj by (simp add: l'_def out)
    have blocks: "blocks_of ((bs @ [l']) @ cs) = blocks_of (out @ c # cs)" by (auto simp: b out)
    have ends: "\<forall>r \<in> set ((bs @ [l']) @ cs). range_end r \<le> n"
      if "\<forall>r \<in> set (out @ c # cs). range_end r \<le> n" for n
      using that by (simp add: out e)
    show ?thesis
      unfolding step
    proof (intro conjI allI impI)
      show "canonical (coalesce (bs @ [l']) cs)" using IH by (rule conjunct1)
      show "blocks_of (coalesce (bs @ [l']) cs) = blocks_of (out @ c # cs)"
        using IH unfolding blocks by (elim conjE)
      show "\<forall>r \<in> set (coalesce (bs @ [l']) cs). range_ok r" using IH by (elim conjE)
      fix n assume "\<forall>r \<in> set (out @ c # cs). range_end r \<le> n"
      from ends [OF this] show "\<forall>r \<in> set (coalesce (bs @ [l']) cs). range_end r \<le> n"
        using IH by (elim conjE) (rule mp, erule spec)
    qed
  next
    case False
    have "range_end a < unat (start_block c)" if "a \<in> set out" for a
    proof -
      have "range_end a \<le> range_end (last out)"
        by (rule separated_last) (use that canonical_separated "2.prems"(1) in auto)
      moreover have "last out \<in> set out" using that by (intro last_in_set) auto
      then have "range_end (last out) \<le> unat (start_block c)"
        using "2.prems"(2) by (auto simp: separated_def sorted_wrt_append)
      ultimately show ?thesis using False that by force
    qed
    with "2.prems"(1) have can: "canonical (out @ [c])" by (simp add: canonical_snoc)
    have assoc: "(out @ [c]) @ cs = out @ c # cs" by simp
    have step: "coalesce out (c # cs) = coalesce (out @ [c]) cs"
      by (simp only: coalesce.simps False if_False)
    show ?thesis
      unfolding step by (rule "2.IH"(2) [OF False can, unfolded assoc, OF "2.prems"(2,3)])
  qed
qed (auto simp: blocks_of_def)

section \<open>Finalizing an inventory\<close>

text \<open>
  The inventory's invariant: every admitted range is good, and a finalized inventory is
  canonical with its counters equal to the sizes of the sets they describe.
\<close>

definition inventory_wf :: "evoke_block_range_inventory \<Rightarrow> bool" where
  "inventory_wf iv \<longleftrightarrow>
     (\<forall>r \<in> set (inv_ranges iv). range_ok r) \<and>
     (inv_finalized iv \<longrightarrow>
        inv_ranges iv \<noteq> [] \<and> canonical (inv_ranges iv) \<and>
        (\<forall>r \<in> set (inv_ranges iv). range_end r \<le> unat (inv_published_block_high_watermark iv)) \<and>
        unat (inv_reachable_block_count iv) = card (blocks_of (inv_ranges iv)) \<and>
        unat (inv_interior_unreachable_block_count iv) =
          unat (inv_published_block_high_watermark iv) - card (blocks_of (inv_ranges iv)) \<and>
        unat (inv_highest_reachable_block_exclusive iv) = range_end (last (inv_ranges iv)))"

text \<open>The output of the two passes, as one list function of the sorted input.\<close>

definition finalize_output :: "nat \<Rightarrow> evoke_block_range list \<Rightarrow> evoke_block_range list" where
  "finalize_output hw rs = coalesce [] (snd (dedup hw [] (c_qsort evoke_block_range_compare rs)))"

lemma dedup_qsort_ok:
  assumes "\<forall>r \<in> set rs. range_ok r"
  shows "fst (dedup hw [] (c_qsort evoke_block_range_compare rs)) = EVOKE_OK \<longleftrightarrow>
    (\<forall>r \<in> set rs. range_end r \<le> hw) \<and> compatible rs"
    (is "?ok \<longleftrightarrow> ?good")
proof
  assume ?ok
  then obtain out where "dedup hw [] (c_qsort evoke_block_range_compare rs) = (EVOKE_OK, out)"
    by (metis prod.collapse)
  from dedup_sound [OF this] have "separated out" "set out = set rs"
      "\<forall>c \<in> set rs. range_end c \<le> hw"
    by (simp_all add: separated_def)
  then show ?good using separated_compatible compatible_set_cong by metis
next
  assume ?good
  then show ?ok
    using assms sorted_starts [of rs]
    by (intro dedup_complete) (auto simp: compatible_def range_ok_def)
qed

lemma finalize_output_correct:
  assumes "\<forall>r \<in> set rs. range_ok r" and "rs \<noteq> []"
    and "fst (dedup hw [] (c_qsort evoke_block_range_compare rs)) = EVOKE_OK"
  shows "canonical (finalize_output hw rs)"
    and "blocks_of (finalize_output hw rs) = blocks_of rs"
    and "\<forall>r \<in> set (finalize_output hw rs). range_ok r"
    and "\<forall>r \<in> set (finalize_output hw rs). range_end r \<le> hw"
    and "finalize_output hw rs \<noteq> []"
proof -
  define out where "out = snd (dedup hw [] (c_qsort evoke_block_range_compare rs))"
  have "dedup hw [] (c_qsort evoke_block_range_compare rs) = (EVOKE_OK, out)"
    using assms(3) by (simp add: out_def prod_eq_iff)
  from dedup_sound [OF this] have out: "separated out" "set out = set rs"
      "\<forall>c \<in> set rs. range_end c \<le> hw"
    by (simp_all add: separated_def)
  have fo: "finalize_output hw rs = coalesce [] out" by (simp add: finalize_output_def out_def)
  have "canonical []" by (simp add: canonical_def)
  note c = coalesce_correct [OF this, of out]
  show "canonical (finalize_output hw rs)"
    and "\<forall>r \<in> set (finalize_output hw rs). range_ok r"
    using c assms(1) out by (simp_all add: fo)
  show bl: "blocks_of (finalize_output hw rs) = blocks_of rs"
    using c assms(1) out blocks_of_set_cong [OF out(2)] by (simp add: fo)
  show "\<forall>r \<in> set (finalize_output hw rs). range_end r \<le> hw"
    using c assms(1) out by (auto simp: fo)
  obtain r where "r \<in> set rs" using assms(2) by (cases rs) auto
  then have "unat (start_block r) \<in> blocks_of rs"
    using assms(1) by (auto simp: blocks_of_def range_blocks_def range_ok_def range_end_def)
  then show "finalize_output hw rs \<noteq> []" using bl by auto
qed

lemma finalize_run:
  assumes "inventory_wf iv" and "\<not> inv_finalized iv" and "hw \<noteq> 0" and "inv_ranges iv \<noteq> []"
  shows "fst (evoke_block_range_inventory_finalize (Some iv) hw) =
      fst (dedup (unat hw) [] (c_qsort evoke_block_range_compare (inv_ranges iv)))"
    and "fst (evoke_block_range_inventory_finalize (Some iv) hw) = EVOKE_OK \<Longrightarrow>
      snd (evoke_block_range_inventory_finalize (Some iv) hw) =
        (let out = finalize_output (unat hw) (inv_ranges iv) in
         Some (iv\<lparr>inv_ranges := out,
                  inv_reachable_block_count := sum_block_counts out,
                  inv_interior_unreachable_block_count := u64_of_u32 hw - sum_block_counts out,
                  inv_highest_reachable_block_exclusive :=
                    start_block (last out) + block_count (last out),
                  inv_published_block_high_watermark := hw,
                  inv_finalized := True\<rparr>))"
proof -
  let ?s = "c_qsort evoke_block_range_compare (inv_ranges iv)"
  obtain status out where d: "dedup (unat hw) [] ?s = (status, out)" by fastforce
  have u: "finalize_unique_loop hw ?s 0 0 = (status, out @ drop (length out) ?s, length out)"
    by (simp add: finalize_unique_loop_dedup d)
  let ?o = "coalesce [] out"
  have m: "finalize_merge_loop (out @ drop (length out) ?s) (length out) 0 0 =
      (?o @ drop (length ?o) (out @ drop (length out) ?s), length ?o)"
    by (simp add: finalize_merge_loop_coalesce Let_def)
  have res: "fst (evoke_block_range_inventory_finalize (Some iv) hw) = status \<and>
    (status = EVOKE_OK \<longrightarrow>
      snd (evoke_block_range_inventory_finalize (Some iv) hw) =
         Some (iv\<lparr>inv_ranges := ?o,
                  inv_reachable_block_count := sum_block_counts ?o,
                  inv_interior_unreachable_block_count := u64_of_u32 hw - sum_block_counts ?o,
                  inv_highest_reachable_block_exclusive :=
                    start_block (last ?o) + block_count (last ?o),
                  inv_published_block_high_watermark := hw,
                  inv_finalized := True\<rparr>))"
  proof (cases "status = EVOKE_OK")
    case True
    have rok: "\<forall>r \<in> set (inv_ranges iv). range_ok r" using assms(1) by (simp add: inventory_wf_def)
    have "fst (dedup (unat hw) [] ?s) = EVOKE_OK" using d True by simp
    note fo = finalize_output_correct [OF rok assms(4) this]
    have o: "finalize_output (unat hw) (inv_ranges iv) = ?o" by (simp add: finalize_output_def d)
    have "unat (sum_block_counts ?o) \<le> unat hw"
      using unat_sum_block_counts [OF canonical_separated [OF fo(1)] fo(4)] by (simp add: o)
    then have "\<not> sum_block_counts ?o > u64_of_u32 hw" by (simp add: word_order_nat)
    moreover have "(?o @ xs) ! (length ?o - 1) = last ?o" for xs
      using fo(5) by (simp add: o nth_append last_conv_nth)
    ultimately show ?thesis
      using assms True
      by (simp add: evoke_block_range_inventory_finalize_def u m Let_def)
  next
    case False
    then show ?thesis
      using assms by (simp add: evoke_block_range_inventory_finalize_def u Let_def)
  qed
  then show "fst (evoke_block_range_inventory_finalize (Some iv) hw) = fst (dedup (unat hw) [] ?s)"
    by (simp add: d)
  assume "fst (evoke_block_range_inventory_finalize (Some iv) hw) = EVOKE_OK"
  with res show "snd (evoke_block_range_inventory_finalize (Some iv) hw) =
        (let out = finalize_output (unat hw) (inv_ranges iv) in
         Some (iv\<lparr>inv_ranges := out,
                  inv_reachable_block_count := sum_block_counts out,
                  inv_interior_unreachable_block_count := u64_of_u32 hw - sum_block_counts out,
                  inv_highest_reachable_block_exclusive :=
                    start_block (last out) + block_count (last out),
                  inv_published_block_high_watermark := hw,
                  inv_finalized := True\<rparr>))"
    by (simp add: finalize_output_def d Let_def)
qed

text \<open>
  C3. Finalizing accepts exactly the inventories whose references lie below the root's
  high-water mark and are pairwise equal or disjoint: a duplicate reference is legal, a
  partial overlap or a range past the mark is an error, and nothing else is.
\<close>

theorem inventory_finalize_accepts:
  assumes "inventory_wf iv" and "\<not> inv_finalized iv" and "hw \<noteq> 0" and "inv_ranges iv \<noteq> []"
  shows "fst (evoke_block_range_inventory_finalize (Some iv) hw) = EVOKE_OK \<longleftrightarrow>
    (\<forall>r \<in> set (inv_ranges iv). range_end r \<le> unat hw) \<and> compatible (inv_ranges iv)"
  using finalize_run(1) [OF assms] dedup_qsort_ok [of "inv_ranges iv" "unat hw"] assms(1)
  by (simp add: inventory_wf_def)

theorem inventory_finalize_accepts_witness:
  "fst (evoke_block_range_inventory_finalize
      (Some (zero_inventory\<lparr>inv_ranges := [\<lparr>start_block = 4, block_count = 2\<rparr>,
         \<lparr>start_block = 0, block_count = 4\<rparr>, \<lparr>start_block = 4, block_count = 2\<rparr>]\<rparr>)) 9) = EVOKE_OK"
proof -
  let ?iv = "zero_inventory\<lparr>inv_ranges := [\<lparr>start_block = 4, block_count = 2\<rparr>,
     \<lparr>start_block = 0, block_count = 4\<rparr>, \<lparr>start_block = 4, block_count = 2\<rparr>]\<rparr>"
  have "inventory_wf ?iv" "\<not> inv_finalized ?iv" "(9 :: u32) \<noteq> 0" "inv_ranges ?iv \<noteq> []"
    by (simp_all add: zero_inventory_def inventory_wf_def range_ok_def range_end_def)
  from inventory_finalize_accepts [OF this] show ?thesis
    by (auto simp: compatible_def range_blocks_def range_end_def)
qed

text \<open>
  C2. A finalized inventory covers exactly the blocks that were added, as ascending ranges
  with a gap between any two, and its counters are the numbers of reachable and of
  unreachable blocks below the mark; the invariant holds again.
\<close>

theorem inventory_finalize_exact:
  assumes "inventory_wf iv" and "\<not> inv_finalized iv" and "hw \<noteq> 0" and "inv_ranges iv \<noteq> []"
    and "evoke_block_range_inventory_finalize (Some iv) hw = (EVOKE_OK, res)"
  shows "\<exists>iv'. res = Some iv' \<and> inv_finalized iv' \<and> inventory_wf iv' \<and>
    blocks_of (inv_ranges iv') = blocks_of (inv_ranges iv) \<and> canonical (inv_ranges iv') \<and>
    unat (inv_reachable_block_count iv') = card (blocks_of (inv_ranges iv)) \<and>
    unat (inv_interior_unreachable_block_count iv') =
      card ({..<unat hw} - blocks_of (inv_ranges iv))"
proof -
  let ?out = "finalize_output (unat hw) (inv_ranges iv)"
  have ok: "fst (evoke_block_range_inventory_finalize (Some iv) hw) = EVOKE_OK"
    using assms(5) by simp
  have rok: "\<forall>r \<in> set (inv_ranges iv). range_ok r" using assms(1) by (simp add: inventory_wf_def)
  note run = finalize_run [OF assms(1-4)]
  note fo = finalize_output_correct [OF rok assms(4) ok [unfolded run(1)]]
  note sum = unat_sum_block_counts [OF canonical_separated [OF fo(1)] fo(4)]
  have below: "blocks_of ?out \<subseteq> {..<unat hw}" using fo(4) by (rule blocks_of_below)
  have sub: "unat (u64_of_u32 hw - sum_block_counts ?out) = unat hw - card (blocks_of ?out)"
    using sum by (subst unat_sub_word) (simp_all add: word_le_nat_alt)
  have "range_end (last ?out) \<le> unat hw" using fo(4,5) by simp
  then have hi: "unat (start_block (last ?out) + block_count (last ?out)) = range_end (last ?out)"
    using u32_less [of hw] by (subst unat_add_u32) (simp_all add: range_end_def del: u32_less)
  have "unat hw - card (blocks_of ?out) = card ({..<unat hw} - blocks_of ?out)"
    using below by (simp add: card_Diff_subset)
  with run(2) [OF ok] assms(5) fo sum sub hi show ?thesis
    by (simp add: inventory_wf_def Let_def)
qed

theorem inventory_finalize_exact_witness:
  "\<exists>iv'. evoke_block_range_inventory_finalize
      (Some (zero_inventory\<lparr>inv_ranges := [\<lparr>start_block = 0, block_count = 1\<rparr>]\<rparr>)) 3 =
        (EVOKE_OK, Some iv') \<and>
     unat (inv_interior_unreachable_block_count iv') = 2"
proof -
  let ?iv = "zero_inventory\<lparr>inv_ranges := [\<lparr>start_block = 0, block_count = 1\<rparr>]\<rparr>"
  let ?run = "evoke_block_range_inventory_finalize (Some ?iv) 3"
  have pre: "inventory_wf ?iv" "\<not> inv_finalized ?iv" "(3 :: u32) \<noteq> 0" "inv_ranges ?iv \<noteq> []"
    by (simp_all add: zero_inventory_def inventory_wf_def range_ok_def range_end_def)
  have "?run = (EVOKE_OK, snd ?run)"
    by (simp add: evoke_block_range_inventory_finalize_def zero_inventory_def c_qsort_def
        finalize_unique_loop.simps finalize_merge_loop.simps sum_block_counts_def range_end64_def
        u64_of_u32_def Let_def)
  from inventory_finalize_exact [OF pre this] this show ?thesis
    by (auto simp: range_blocks_def range_end_def card_Diff_subset)
qed

section \<open>Building the allocator\<close>

text \<open>
  An initialized allocator holds ascending, separated, non-empty free runs below the mark,
  never block zero, and counts them.
\<close>

definition allocator_wf :: "nat \<Rightarrow> evoke_block_range_allocator \<Rightarrow> bool" where
  "allocator_wf hw al \<longleftrightarrow>
     alloc_initialized al \<and> canonical (alloc_ranges al) \<and>
     (\<forall>r \<in> set (alloc_ranges al). range_ok r \<and> range_end r \<le> hw) \<and>
     0 \<notin> blocks_of (alloc_ranges al) \<and>
     unat (alloc_available_block_count al) = card (blocks_of (alloc_ranges al))"

lemma card_blocks_of_snoc:
  assumes "separated (rs @ [r])"
  shows "card (blocks_of (rs @ [r])) = card (blocks_of rs) + unat (block_count r)"
  using assms card_blocks_of [of "rs @ [r]"] card_blocks_of [of rs] by (simp add: separated_snoc)

lemma gap_then_live:
  fixes c s l c' :: nat
  assumes "c \<le> s" and "s \<le> l" and "l \<le> c'" and "R \<subseteq> {l ..< c'}"
  shows "{c ..< s} \<union> ({l ..< c'} - R) = {c ..< c'} - ({s ..< l} \<union> R)"
    and "{s ..< l} \<union> R \<subseteq> {c ..< c'}"
  using assms by fastforce+

lemma build_gaps_loop_correct:
  assumes "separated rs" and "\<forall>r \<in> set rs. range_ok r \<and> range_end r \<le> unat hw \<and> unat cursor \<le> unat (start_block r)"
    and "canonical gaps" and "\<forall>g \<in> set gaps. range_ok g \<and> range_end g < unat cursor"
    and "unat available = card (blocks_of gaps)" and "unat cursor \<le> unat hw"
  shows "\<exists>cursor' gaps' available'.
    build_gaps_loop hw rs cursor gaps available = Some (cursor', gaps', available') \<and>
    canonical gaps' \<and> (\<forall>g \<in> set gaps'. range_ok g \<and> range_end g < unat cursor') \<and>
    unat available' = card (blocks_of gaps') \<and>
    blocks_of gaps' = blocks_of gaps \<union> ({unat cursor ..< unat cursor'} - blocks_of rs) \<and>
    length gaps' \<le> length gaps + length rs \<and>
    unat cursor \<le> unat cursor' \<and> unat cursor' \<le> unat hw \<and> blocks_of rs \<subseteq> {unat cursor ..< unat cursor'}"
  using assms
proof (induction hw rs cursor gaps available rule: build_gaps_loop.induct)
  case (2 hw live rest cursor gaps available)
  have live: "range_ok live" "range_end live \<le> unat hw" "unat cursor \<le> unat (start_block live)"
    using "2.prems"(2) by simp_all
  let ?cur = "ucast (range_end64 live) :: u32"
  have cur: "unat ?cur = range_end live"
    using live(2) u32_less [of hw] by (simp add: unat_ucast_u64_u32 del: u32_less)
  have lt: "unat (start_block live) < range_end live" using live(1) by (simp add: range_ok_def range_end_def)
  have rest: "separated rest" "\<forall>r \<in> set rest. range_ok r \<and> range_end r \<le> unat hw \<and> unat ?cur \<le> unat (start_block r)"
    using "2.prems"(1,2) by (auto simp: separated_def cur)
  have guard: "\<not> (start_block live < cursor \<or> range_end64 live > u64_of_u32 hw)"
    using live by (simp add: word_nat word_order_nat not_less)
  have rest_blocks: "blocks_of rest \<inter> {..<range_end live} = {}"
    using rest(2) by (fastforce simp: blocks_of_def range_blocks_def cur)
  show ?case
  proof (cases "start_block live > cursor")
    case True
    define gap where "gap = \<lparr>start_block = cursor, block_count = start_block live - cursor\<rparr>"
    have sz: "unat (start_block live - cursor) = unat (start_block live) - unat cursor"
      using True by (simp add: unat_sub_word word_order_nat)
    have ge: "range_end gap = unat (start_block live)"
      using live(3) by (simp add: gap_def range_end_def sz)
    have "block_count gap = start_block live - cursor" by (simp add: gap_def)
    then have gap_ok: "range_ok gap"
      using True live(2) lt u32_less [of hw]
      by (simp add: range_ok_def ge sz word_order_nat del: u32_less)
    have can: "canonical (gaps @ [gap])"
      using "2.prems"(3,4) by (simp add: canonical_snoc gap_def)
    have av: "unat (available + u64_of_u32 (start_block live - cursor)) = card (blocks_of (gaps @ [gap]))"
    proof -
      have "blocks_of gaps \<subseteq> {..<unat cursor}"
        using "2.prems"(4) by (intro blocks_of_below) (simp add: less_imp_le)
      from card_mono [OF _ this] have "card (blocks_of gaps) \<le> unat cursor" by simp
      then have "unat available < 4294967296"
        using "2.prems"(5) u32_less [of cursor] by linarith
      then have "unat available + unat (u64_of_u32 (start_block live - cursor)) < 18446744073709551616"
        unfolding unat_u64_of_u32 using u32_less [of "start_block live - cursor"] by linarith
      from unat_add_u64 [OF this] show ?thesis
        unfolding card_blocks_of_snoc [OF canonical_separated [OF can]]
        by (simp only: "2.prems"(5) unat_u64_of_u32 gap_def evoke_block_range.select_convs)
    qed
    have bg: "range_blocks gap = {unat cursor ..< unat (start_block live)}"
      by (simp add: range_blocks_def ge) (simp add: gap_def)
    have "\<exists>cursor' gaps' available'.
      build_gaps_loop hw rest ?cur (gaps @ [gap]) (available + u64_of_u32 (start_block live - cursor)) =
        Some (cursor', gaps', available') \<and>
      canonical gaps' \<and> (\<forall>g \<in> set gaps'. range_ok g \<and> range_end g < unat cursor') \<and>
      unat available' = card (blocks_of gaps') \<and>
      blocks_of gaps' = blocks_of (gaps @ [gap]) \<union> ({unat ?cur ..< unat cursor'} - blocks_of rest) \<and>
      length gaps' \<le> length (gaps @ [gap]) + length rest \<and>
      unat ?cur \<le> unat cursor' \<and> unat cursor' \<le> unat hw \<and> blocks_of rest \<subseteq> {unat ?cur ..< unat cursor'}"
      unfolding gap_def
      by (rule "2.IH"(1) [OF guard True refl rest]) (use can av gap_ok ge lt live "2.prems"(4) cur in \<open>auto simp: gap_def\<close>)
    then obtain cursor' gaps' available' where *:
      "build_gaps_loop hw rest ?cur (gaps @ [gap]) (available + u64_of_u32 (start_block live - cursor)) =
        Some (cursor', gaps', available')"
      "canonical gaps'" "\<forall>g \<in> set gaps'. range_ok g \<and> range_end g < unat cursor'"
      "unat available' = card (blocks_of gaps')"
      "blocks_of gaps' = blocks_of (gaps @ [gap]) \<union> ({range_end live ..< unat cursor'} - blocks_of rest)"
      "length gaps' \<le> length (gaps @ [gap]) + length rest"
      "range_end live \<le> unat cursor'" "unat cursor' \<le> unat hw"
      "blocks_of rest \<subseteq> {range_end live ..< unat cursor'}"
      unfolding cur by blast
    note set = gap_then_live [OF live(3) less_imp_le [OF lt] *(7) *(9)]
    have bl: "blocks_of gaps' = blocks_of gaps \<union>
        ({unat cursor ..< unat cursor'} - blocks_of (live # rest))"
      using set(1) by (simp add: *(5) bg Un_assoc range_blocks_def [of live])
    have "build_gaps_loop hw (live # rest) cursor gaps available = Some (cursor', gaps', available')"
      using guard True *(1) by (simp add: gap_def Let_def)
    moreover have "unat cursor \<le> unat cursor'" using live(3) lt *(7) by linarith
    moreover have "length gaps' \<le> length gaps + length (live # rest)" using *(6) by simp
    moreover have "blocks_of (live # rest) \<subseteq> {unat cursor ..< unat cursor'}"
      using set(2) by (simp add: range_blocks_def)
    ultimately show ?thesis using *(2-4,8) bl by blast
  next
    case False
    then have eq: "unat (start_block live) = unat cursor"
      using live(3) by (simp add: word_order_nat)
    have "\<exists>cursor' gaps' available'.
      build_gaps_loop hw rest ?cur gaps available = Some (cursor', gaps', available') \<and>
      canonical gaps' \<and> (\<forall>g \<in> set gaps'. range_ok g \<and> range_end g < unat cursor') \<and>
      unat available' = card (blocks_of gaps') \<and>
      blocks_of gaps' = blocks_of gaps \<union> ({unat ?cur ..< unat cursor'} - blocks_of rest) \<and>
      length gaps' \<le> length gaps + length rest \<and>
      unat ?cur \<le> unat cursor' \<and> unat cursor' \<le> unat hw \<and> blocks_of rest \<subseteq> {unat ?cur ..< unat cursor'}"
      by (rule "2.IH"(2) [OF guard False rest "2.prems"(3)]) (use "2.prems" cur lt eq live in auto)
    then obtain cursor' gaps' available' where *:
      "build_gaps_loop hw rest ?cur gaps available = Some (cursor', gaps', available')"
      "canonical gaps'" "\<forall>g \<in> set gaps'. range_ok g \<and> range_end g < unat cursor'"
      "unat available' = card (blocks_of gaps')"
      "blocks_of gaps' = blocks_of gaps \<union> ({range_end live ..< unat cursor'} - blocks_of rest)"
      "length gaps' \<le> length gaps + length rest"
      "range_end live \<le> unat cursor'" "unat cursor' \<le> unat hw"
      "blocks_of rest \<subseteq> {range_end live ..< unat cursor'}"
      unfolding cur by blast
    note set = gap_then_live [OF order_refl [of "unat (start_block live)"] less_imp_le [OF lt] *(7) *(9)]
    have bl: "blocks_of gaps' = blocks_of gaps \<union>
        ({unat cursor ..< unat cursor'} - blocks_of (live # rest))"
      using set(1) by (simp add: *(5) eq range_blocks_def)
    have "build_gaps_loop hw (live # rest) cursor gaps available = Some (cursor', gaps', available')"
      using guard False *(1) by simp
    moreover have "unat cursor \<le> unat cursor'" using live(3) lt *(7) by linarith
    moreover have "length gaps' \<le> length gaps + length (live # rest)" using *(6) by simp
    moreover have "blocks_of (live # rest) \<subseteq> {unat cursor ..< unat cursor'}"
      using set(2) by (simp add: eq range_blocks_def)
    ultimately show ?thesis using *(2-4,8) bl by blast
  qed
qed auto


lemma canonical_length_le_card:
  assumes "separated rs" and "\<forall>r \<in> set rs. range_ok r"
  shows "length rs \<le> card (blocks_of rs)"
proof -
  have "length rs \<le> sum_list (map (\<lambda>r. unat (block_count r)) rs)"
    using assms(2) by (induction rs) (auto simp: range_ok_def)
  then show ?thesis using assms(1) by (simp add: card_blocks_of)
qed

text \<open>The trailing gap of \<open>allocator_build\<close> and its effect on the counters.\<close>

lemma trailing_gap:
  assumes "canonical gaps" and "\<forall>g \<in> set gaps. range_ok g \<and> range_end g < unat cursor"
    and "unat available = card (blocks_of gaps)" and "cursor < hw"
  defines "g \<equiv> \<lparr>start_block = cursor, block_count = hw - cursor\<rparr>"
  shows "canonical (gaps @ [g])" and "range_ok g" and "range_end g = unat hw"
    and "range_blocks g = {unat cursor ..< unat hw}"
    and "unat (available + u64_of_u32 (hw - cursor)) = card (blocks_of (gaps @ [g]))"
proof -
  have lt: "unat cursor < unat hw" using assms(4) by (simp add: word_less_nat_alt)
  have sz: "unat (hw - cursor) = unat hw - unat cursor"
    using assms(4) by (simp add: unat_sub_word)
  show e: "range_end g = unat hw" using lt by (simp add: g_def range_end_def sz)
  show "range_ok g" using lt u32_le_max [of hw] unfolding range_ok_def e by (simp add: g_def sz)
  show "range_blocks g = {unat cursor ..< unat hw}"
    unfolding range_blocks_def e by (simp add: g_def)
  show can: "canonical (gaps @ [g])" using assms(1,2) by (simp add: canonical_snoc g_def)
  have "blocks_of gaps \<subseteq> {..<unat cursor}"
    using assms(2) by (intro blocks_of_below) (simp add: less_imp_le)
  from card_mono [OF _ this] have "unat available < 4294967296"
    using assms(3) u32_less [of cursor] by (simp del: u32_less)
  then have "unat available + unat (u64_of_u32 (hw - cursor)) < 18446744073709551616"
    unfolding unat_u64_of_u32 using u32_less [of "hw - cursor"] by linarith
  from unat_add_u64 [OF this]
  show "unat (available + u64_of_u32 (hw - cursor)) = card (blocks_of (gaps @ [g]))"
    unfolding card_blocks_of_snoc [OF canonical_separated [OF can]]
    by (simp only: assms(3) unat_u64_of_u32 g_def evoke_block_range.select_convs)
qed

lemma build_gaps_finalized:
  assumes "inventory_wf iv" and "inv_finalized iv" and "start_block (hd (inv_ranges iv)) = 0"
  shows "\<exists>cursor gaps available.
    build_gaps_loop (inv_published_block_high_watermark iv) (inv_ranges iv) 0 [] 0 =
      Some (cursor, gaps, available) \<and>
    canonical gaps \<and> (\<forall>g \<in> set gaps. range_ok g \<and> range_end g < unat cursor) \<and>
    unat available = card (blocks_of gaps) \<and>
    blocks_of gaps = {..<unat cursor} - blocks_of (inv_ranges iv) \<and>
    length gaps < length (inv_ranges iv) \<and> 0 < unat cursor \<and>
    unat cursor \<le> unat (inv_published_block_high_watermark iv) \<and>
    blocks_of (inv_ranges iv) \<subseteq> {..<unat cursor}"
proof -
  let ?hw = "inv_published_block_high_watermark iv"
  obtain r rest where rs: "inv_ranges iv = r # rest"
    using assms(1,2) by (cases "inv_ranges iv") (auto simp: inventory_wf_def)
  have sep: "separated (r # rest)"
    using assms(1,2) by (simp add: inventory_wf_def canonical_separated rs)
  have ok: "range_ok x \<and> range_end x \<le> unat ?hw" if "x \<in> set (r # rest)" for x
    using assms(1,2) that unfolding inventory_wf_def rs by blast
  have r: "range_ok r" "range_end r \<le> unat ?hw" "start_block r = 0"
    using ok [of r] assms(3) by (simp_all add: rs)
  let ?cur = "ucast (range_end64 r) :: u32"
  have cur: "unat ?cur = range_end r"
    using r(2) u32_less [of ?hw] by (simp add: unat_ucast_u64_u32 del: u32_less)
  have guard: "\<not> range_end64 r > u64_of_u32 ?hw" using r(2) by (simp add: word_nat)
  have step: "build_gaps_loop ?hw (inv_ranges iv) 0 [] 0 = build_gaps_loop ?hw rest ?cur [] 0"
    using guard r(3) by (simp add: rs)
  have pos: "0 < range_end r" using r(1) by (simp add: range_ok_def range_end_def)
  have "\<exists>cursor gaps available.
    build_gaps_loop ?hw rest ?cur [] 0 = Some (cursor, gaps, available) \<and>
    canonical gaps \<and> (\<forall>g \<in> set gaps. range_ok g \<and> range_end g < unat cursor) \<and>
    unat available = card (blocks_of gaps) \<and>
    blocks_of gaps = blocks_of [] \<union> ({unat ?cur ..< unat cursor} - blocks_of rest) \<and>
    length gaps \<le> length ([] :: evoke_block_range list) + length rest \<and>
    unat ?cur \<le> unat cursor \<and> unat cursor \<le> unat ?hw \<and> blocks_of rest \<subseteq> {unat ?cur ..< unat cursor}"
    using sep ok r by (intro build_gaps_loop_correct) (auto simp: cur separated_def canonical_def)
  then obtain cursor gaps available where *:
    "build_gaps_loop ?hw rest ?cur [] 0 = Some (cursor, gaps, available)"
    "canonical gaps" "\<forall>g \<in> set gaps. range_ok g \<and> range_end g < unat cursor"
    "unat available = card (blocks_of gaps)"
    "blocks_of gaps = {range_end r ..< unat cursor} - blocks_of rest"
    "length gaps \<le> length rest" "range_end r \<le> unat cursor" "unat cursor \<le> unat ?hw"
    "blocks_of rest \<subseteq> {range_end r ..< unat cursor}"
    unfolding cur by auto
  have b: "range_blocks r = {0 ..< range_end r}" using r(3) by (simp add: range_blocks_def)
  note set = gap_then_live [OF order_refl less_imp_le [OF pos] *(7) *(9)]
  have "blocks_of gaps = {..<unat cursor} - blocks_of (inv_ranges iv)"
    using set(1) by (simp add: *(5) rs b lessThan_atLeast0)
  moreover have "blocks_of (inv_ranges iv) \<subseteq> {..<unat cursor}"
    using set(2) by (simp add: rs b lessThan_atLeast0)
  moreover have "length gaps < length (inv_ranges iv)" using *(6) by (simp add: rs)
  moreover have "0 < unat cursor" using pos *(7) by linarith
  ultimately show ?thesis using *(1-4,8) step by auto
qed

lemma allocator_build_complement_aux:
  assumes "inventory_wf iv" and "inv_finalized iv" and "start_block (hd (inv_ranges iv)) = 0"
    and "\<not> alloc_initialized al"
  shows "\<exists>al'. evoke_block_range_allocator_build True (Some iv) (Some al) = (EVOKE_OK, Some al') \<and>
    allocator_wf (unat (inv_published_block_high_watermark iv)) al' \<and>
    blocks_of (alloc_ranges al') =
      {..<unat (inv_published_block_high_watermark iv)} - blocks_of (inv_ranges iv) \<and>
    length (alloc_ranges al') \<le> length (inv_ranges iv)"
proof -
  let ?hw = "inv_published_block_high_watermark iv" and ?rs = "inv_ranges iv"
  from build_gaps_finalized [OF assms(1-3)] obtain cursor gaps available where *:
    "build_gaps_loop ?hw ?rs 0 [] 0 = Some (cursor, gaps, available)"
    "canonical gaps" "\<forall>g \<in> set gaps. range_ok g \<and> range_end g < unat cursor"
    "unat available = card (blocks_of gaps)" "blocks_of gaps = {..<unat cursor} - blocks_of ?rs"
    "length gaps < length ?rs" "0 < unat cursor" "unat cursor \<le> unat ?hw"
    "blocks_of ?rs \<subseteq> {..<unat cursor}"
    by blast
  define g where "g = \<lparr>start_block = cursor, block_count = ?hw - cursor\<rparr>"
  define gs where "gs = (if cursor < ?hw then gaps @ [g] else gaps)"
  define av where "av = (if cursor < ?hw then available + u64_of_u32 (?hw - cursor) else available)"
  note tg = trailing_gap [OF *(2-4), of ?hw, folded g_def]
  have wf: "?rs \<noteq> []" "\<forall>r \<in> set ?rs. range_ok r" "canonical ?rs"
    "\<forall>r \<in> set ?rs. range_end r \<le> unat ?hw"
    "unat (inv_interior_unreachable_block_count iv) = unat ?hw - card (blocks_of ?rs)"
    using assms(1,2) by (auto simp: inventory_wf_def)
  have gs: "canonical gs" "\<forall>r \<in> set gs. range_ok r \<and> range_end r \<le> unat ?hw"
    "unat av = card (blocks_of gs)" "length gs \<le> length ?rs"
    using tg *(2-4,6,8) by (auto simp: gs_def av_def)
  have bl: "blocks_of gs = {..<unat ?hw} - blocks_of ?rs"
  proof (cases "cursor < ?hw")
    case True
    have "{..<unat cursor} - blocks_of ?rs \<union> {unat cursor ..< unat ?hw} = {..<unat ?hw} - blocks_of ?rs"
      using *(8,9) by auto
    with True tg(4) *(5) show ?thesis by (simp add: gs_def)
  next
    case False
    then have "unat cursor = unat ?hw" using *(8) by (simp add: word_less_nat_alt)
    with False *(5) show ?thesis by (simp add: gs_def)
  qed
  have "unat av = unat (inv_interior_unreachable_block_count iv)"
    using gs(3) wf(5) blocks_of_below [OF wf(4)] by (simp add: bl card_Diff_subset)
  then have av: "av = inv_interior_unreachable_block_count iv" by (simp add: word_unat_eq_iff)
  have hd_ok: "block_count (hd ?rs) \<noteq> 0" using wf(1,2) by (cases ?rs) (auto simp: range_ok_def)
  have "card (blocks_of ?rs) \<le> unat ?hw"
    using card_mono [OF _ blocks_of_below [OF wf(4)]] by simp
  then have len: "length ?rs < unat (SIZE_MAX div sizeof_block_range)"
    using canonical_length_le_card [OF canonical_separated [OF wf(3)] wf(2)] u32_less [of ?hw]
    by (simp add: sizeof_block_range_def SIZE_MAX_def del: u32_less)
  have zero: "0 \<in> blocks_of ?rs"
    using assms(3) hd_ok wf(1) by (cases ?rs) (auto simp: range_blocks_def range_end_def unat_gt_0)
  have run: "evoke_block_range_allocator_build True (Some iv) (Some al) =
      (EVOKE_OK, Some (al\<lparr>alloc_ranges := gs, alloc_available_block_count := av,
                          alloc_initialized := True\<rparr>))"
    using assms(2-4) wf(1) hd_ok len *(1) av
    by (cases "cursor < ?hw")
      (simp_all add: evoke_block_range_allocator_build_def Let_def gs_def av_def g_def)
  show ?thesis
    unfolding run using gs bl zero by (simp add: allocator_wf_def)
qed

text \<open>
  C5. The allocator built from a finalized inventory that keeps block zero live holds exactly
  the blocks below the mark that the inventory does not cover, satisfies its invariant, and
  needs no more entries than the array the code allocates for it; the format check of the
  code never fires on such an inventory.
\<close>

theorem allocator_build_complement:
  assumes "inventory_wf iv" and "inv_finalized iv" and "start_block (hd (inv_ranges iv)) = 0"
    and "\<not> alloc_initialized al"
  shows "\<exists>al'. evoke_block_range_allocator_build True (Some iv) (Some al) = (EVOKE_OK, Some al') \<and>
    allocator_wf (unat (inv_published_block_high_watermark iv)) al' \<and>
    blocks_of (alloc_ranges al') =
      {..<unat (inv_published_block_high_watermark iv)} - blocks_of (inv_ranges iv) \<and>
    length (alloc_ranges al') \<le> length (inv_ranges iv)"
  using assms by (rule allocator_build_complement_aux)

theorem allocator_build_complement_witness:
  "\<exists>al'. evoke_block_range_allocator_build True
      (Some (zero_inventory\<lparr>inv_ranges := [\<lparr>start_block = 0, block_count = 2\<rparr>],
         inv_reachable_block_count := 2, inv_interior_unreachable_block_count := 3,
         inv_highest_reachable_block_exclusive := 2, inv_published_block_high_watermark := 5,
         inv_finalized := True\<rparr>)) (Some zero_allocator) = (EVOKE_OK, Some al') \<and>
     blocks_of (alloc_ranges al') = {2, 3, 4}"
proof -
  let ?iv = "zero_inventory\<lparr>inv_ranges := [\<lparr>start_block = 0, block_count = 2\<rparr>],
         inv_reachable_block_count := 2, inv_interior_unreachable_block_count := 3,
         inv_highest_reachable_block_exclusive := 2, inv_published_block_high_watermark := 5,
         inv_finalized := True\<rparr>"
  have "inventory_wf ?iv" "inv_finalized ?iv" "start_block (hd (inv_ranges ?iv)) = 0"
      "\<not> alloc_initialized zero_allocator"
    by (simp_all add: inventory_wf_def range_ok_def range_end_def canonical_def zero_allocator_def)
  from allocator_build_complement [OF this] show ?thesis
    by (auto simp: range_blocks_def range_end_def)
qed

section \<open>Best-fit allocation\<close>

text \<open>\<open>sel\<close> is the first smallest range among the first \<open>n\<close> that holds \<open>b\<close> blocks.\<close>

definition best_upto :: "evoke_block_range list \<Rightarrow> u32 \<Rightarrow> nat \<Rightarrow> nat option \<Rightarrow> bool" where
  "best_upto rs b n sel \<longleftrightarrow>
     (case sel of
        None \<Rightarrow> (\<forall>j < n. block_count (rs ! j) < b)
      | Some s \<Rightarrow> s < n \<and> b \<le> block_count (rs ! s) \<and>
          (\<forall>j < n. b \<le> block_count (rs ! j) \<longrightarrow>
             block_count (rs ! s) \<le> block_count (rs ! j) \<and>
             (block_count (rs ! j) = block_count (rs ! s) \<longrightarrow> s \<le> j)))"

lemma best_upto_Suc:
  assumes "best_upto rs b n sel"
  shows "best_upto rs b (Suc n)
    (if block_count (rs ! n) < b then sel
     else if (case sel of None \<Rightarrow> True | Some s \<Rightarrow> block_count (rs ! n) < block_count (rs ! s))
     then Some n else sel)"
  using assms
  by (cases sel) (auto simp: best_upto_def less_Suc_eq word_order_nat not_less)

lemma best_fit_loop_best:
  assumes "best_upto rs b i sel" and "i \<le> length rs"
  shows "best_upto rs b (length rs) (best_fit_loop rs b i sel)"
  using assms
proof (induction rs b i sel rule: best_fit_loop.induct)
  case (1 rs b i sel)
  show ?case
  proof (cases "i < length rs")
    case True
    note step = best_upto_Suc [OF "1.prems"(1)]
    consider (small) "block_count (rs ! i) < b"
      | (take) "\<not> block_count (rs ! i) < b"
          "case sel of None \<Rightarrow> True | Some s \<Rightarrow> block_count (rs ! i) < block_count (rs ! s)"
      | (keep) "\<not> block_count (rs ! i) < b"
          "\<not> (case sel of None \<Rightarrow> True | Some s \<Rightarrow> block_count (rs ! i) < block_count (rs ! s))"
      by blast
    then show ?thesis
    proof cases
      case small
      with "1.IH"(1) True step show ?thesis by (simp add: best_fit_loop.simps [of rs b i])
    next
      case take
      with "1.IH"(2) True step show ?thesis by (simp add: best_fit_loop.simps [of rs b i])
    next
      case keep
      with "1.IH"(3) True step show ?thesis by (simp add: best_fit_loop.simps [of rs b i])
    qed
  next
    case False
    with "1.prems" show ?thesis by (simp add: best_fit_loop.simps [of rs b "length rs"])
  qed
qed

lemma best_fit_selects:
  "best_upto rs b (length rs) (best_fit_loop rs b 0 None)"
  by (rule best_fit_loop_best) (simp_all add: best_upto_def)

text \<open>Taking \<open>b\<close> blocks off the front of one range of a canonical list.\<close>

lemma carve_range:
  assumes "canonical (xs @ c # ys)" and "range_ok c" and "0 < unat b" and "unat b \<le> unat (block_count c)"
  defines "c' \<equiv> c\<lparr>start_block := start_block c + b, block_count := block_count c - b\<rparr>"
  defines "run \<equiv> {unat (start_block c) ..< unat (start_block c) + unat b}"
  shows "range_end c' = range_end c" and "unat (block_count c') = unat (block_count c) - unat b"
    and "canonical (xs @ c' # ys)" and "canonical (xs @ ys)"
    and "run \<subseteq> range_blocks c"
    and "blocks_of (xs @ c' # ys) = blocks_of (xs @ c # ys) - run"
    and "block_count c' = 0 \<Longrightarrow> blocks_of (xs @ ys) = blocks_of (xs @ c # ys) - run"
proof -
  have st: "unat (start_block c') = unat (start_block c) + unat b"
    using assms(2,4) by (simp add: c'_def range_ok_def range_end_def unat_add_u32)
  show ct: "unat (block_count c') = unat (block_count c) - unat b"
    using assms(4) by (simp add: c'_def unat_sub_word word_le_nat_alt)
  show e: "range_end c' = range_end c" using st ct assms(4) by (simp add: range_end_def)
  show "canonical (xs @ c' # ys)" and "canonical (xs @ ys)"
    using assms(1) e st by (auto simp: canonical_def sorted_wrt_append)
  show run: "run \<subseteq> range_blocks c"
    using assms(4) by (auto simp: run_def range_blocks_def range_end_def)
  have cb: "range_blocks c' = range_blocks c - run"
    unfolding range_blocks_def e using st by (auto simp: run_def)
  have "separated ((xs @ [c]) @ ys)" and "separated (xs @ (c # ys))"
    using canonical_separated [OF assms(1)] by simp_all
  from this [THEN separated_disjoint]
  have "run \<inter> blocks_of xs = {}" and "run \<inter> blocks_of ys = {}"
    using run by auto
  then show b: "blocks_of (xs @ c' # ys) = blocks_of (xs @ c # ys) - run"
    by (auto simp: cb)
  assume "block_count c' = 0"
  then have "range_blocks c' = {}" by (simp add: range_blocks_def range_end_def)
  with b show "blocks_of (xs @ ys) = blocks_of (xs @ c # ys) - run" by simp
qed


text \<open>The state after a successful allocation from range \<open>s\<close>.\<close>

lemma allocate_run:
  assumes "alloc_initialized al" and "b \<noteq> 0" and "best_fit_loop (alloc_ranges al) b 0 None = Some s"
    and "s < length (alloc_ranges al)"
  defines "c \<equiv> alloc_ranges al ! s"
  defines "c' \<equiv> c\<lparr>start_block := start_block c + b, block_count := block_count c - b\<rparr>"
  defines "xs \<equiv> take s (alloc_ranges al)" and "ys \<equiv> drop (Suc s) (alloc_ranges al)"
  shows "alloc_ranges al = xs @ c # ys"
    and "evoke_block_range_allocator_allocate_best_fit (Some al) b (Some x) =
      (True,
       Some (al\<lparr>alloc_ranges := (if block_count c' = 0 then xs @ ys else xs @ c' # ys),
                alloc_available_block_count := alloc_available_block_count al - u64_of_u32 b,
                alloc_allocated_block_count := alloc_allocated_block_count al + u64_of_u32 b\<rparr>),
       Some (start_block c))"
proof -
  show rs: "alloc_ranges al = xs @ c # ys"
    using assms(4) by (simp add: xs_def ys_def c_def id_take_nth_drop [symmetric])
  show "evoke_block_range_allocator_allocate_best_fit (Some al) b (Some x) =
      (True,
       Some (al\<lparr>alloc_ranges := (if block_count c' = 0 then xs @ ys else xs @ c' # ys),
                alloc_available_block_count := alloc_available_block_count al - u64_of_u32 b,
                alloc_allocated_block_count := alloc_allocated_block_count al + u64_of_u32 b\<rparr>),
       Some (start_block c))"
    using assms(1-4)
    by (simp add: evoke_block_range_allocator_allocate_best_fit_def Let_def c_def c'_def xs_def ys_def
        upd_conv_take_nth_drop)
qed

text \<open>The blocks of a run of \<open>b\<close> blocks that starts at \<open>start\<close>.\<close>

definition run_blocks :: "u32 \<Rightarrow> u32 \<Rightarrow> nat set" where
  "run_blocks start b = {unat start ..< unat start + unat b}"

lemma finite_run_blocks [simp]: "finite (run_blocks start b)"
  by (simp add: run_blocks_def)

lemma card_run_blocks [simp]: "card (run_blocks start b) = unat b"
  by (simp add: run_blocks_def)

lemma allocate_effect:
  assumes "allocator_wf hw al" and "b \<noteq> 0"
    and "best_fit_loop (alloc_ranges al) b 0 None = Some s"
  shows "\<exists>al'. evoke_block_range_allocator_allocate_best_fit (Some al) b (Some x) =
      (True, Some al', Some (start_block (alloc_ranges al ! s))) \<and>
    allocator_wf hw al' \<and>
    run_blocks (start_block (alloc_ranges al ! s)) b \<subseteq> blocks_of (alloc_ranges al) \<and>
    blocks_of (alloc_ranges al') =
      blocks_of (alloc_ranges al) - run_blocks (start_block (alloc_ranges al ! s)) b"
proof -
  define c where "c = alloc_ranges al ! s"
  define c' where "c' = c\<lparr>start_block := start_block c + b, block_count := block_count c - b\<rparr>"
  define xs ys where "xs = take s (alloc_ranges al)" and "ys = drop (Suc s) (alloc_ranges al)"
  have wf: "alloc_initialized al" "canonical (alloc_ranges al)"
    "\<forall>r \<in> set (alloc_ranges al). range_ok r \<and> range_end r \<le> hw"
    "0 \<notin> blocks_of (alloc_ranges al)"
    "unat (alloc_available_block_count al) = card (blocks_of (alloc_ranges al))"
    using assms(1) by (simp_all add: allocator_wf_def)
  have s: "s < length (alloc_ranges al)" "b \<le> block_count c"
    using best_fit_selects [of "alloc_ranges al" b] assms(3) by (simp_all add: best_upto_def c_def)
  note run = allocate_run [OF wf(1) assms(2,3) s(1), folded c_def, folded c'_def xs_def ys_def]
  have b: "0 < unat b" "unat b \<le> unat (block_count c)"
    using assms(2) s(2) by (simp_all add: unat_gt_0 word_le_nat_alt)
  have c: "range_ok c" "range_end c \<le> hw" using wf(3) by (simp_all add: run(1))
  note cv = carve_range [OF wf(2) [unfolded run(1)] c(1) b, folded c'_def, folded run_blocks_def]
  let ?run = "run_blocks (start_block c) b"
  define rs' where "rs' = (if block_count c' = 0 then xs @ ys else xs @ c' # ys)"
  have bl: "blocks_of rs' = blocks_of (alloc_ranges al) - ?run"
    using cv(6,7) by (simp add: rs'_def run(1))
  have sub: "?run \<subseteq> blocks_of (alloc_ranges al)" using cv(5) by (auto simp: run(1))
  have "range_ok c'" if "block_count c' \<noteq> 0"
    using that c(1) cv(1) by (simp add: range_ok_def unat_gt_0)
  then have rs': "canonical rs'" "\<forall>r \<in> set rs'. range_ok r \<and> range_end r \<le> hw"
    using cv(1,3,4) wf(3) c(2) by (auto simp: rs'_def run(1))
  have le: "unat b \<le> unat (alloc_available_block_count al)"
    using card_mono [OF _ sub] wf(5) by simp
  then have "unat (alloc_available_block_count al - u64_of_u32 b) = card (blocks_of rs')"
    using wf(5) sub by (subst unat_sub_word) (simp_all add: word_le_nat_alt bl card_Diff_subset)
  then show ?thesis
    unfolding run(2) [folded rs'_def] c_def [symmetric]
    using wf(1,4) rs' bl sub by (simp add: allocator_wf_def)
qed

text \<open>
  C4. Best-fit allocation succeeds exactly when some free run is long enough. It then takes
  the front of a smallest such run and removes just those blocks from the free set, keeping the
  invariant; otherwise it changes neither the allocator nor the output cell.
\<close>

theorem best_fit_allocates:
  assumes "allocator_wf hw al" and "b \<noteq> 0"
  shows "if \<exists>r \<in> set (alloc_ranges al). b \<le> block_count r
    then \<exists>al' r. evoke_block_range_allocator_allocate_best_fit (Some al) b (Some x) =
           (True, Some al', Some (start_block r)) \<and>
         r \<in> set (alloc_ranges al) \<and> b \<le> block_count r \<and>
         (\<forall>r' \<in> set (alloc_ranges al). b \<le> block_count r' \<longrightarrow> block_count r \<le> block_count r') \<and>
         run_blocks (start_block r) b \<subseteq> blocks_of (alloc_ranges al) \<and>
         blocks_of (alloc_ranges al') = blocks_of (alloc_ranges al) - run_blocks (start_block r) b \<and>
         allocator_wf hw al'
    else evoke_block_range_allocator_allocate_best_fit (Some al) b (Some x) =
           (False, Some al, Some x)"
proof (cases "best_fit_loop (alloc_ranges al) b 0 None")
  case None
  have "\<not> (\<exists>r \<in> set (alloc_ranges al). b \<le> block_count r)"
    using best_fit_selects [of "alloc_ranges al" b] None
    by (auto simp: best_upto_def in_set_conv_nth not_le)
  with None show ?thesis by (simp add: evoke_block_range_allocator_allocate_best_fit_def)
next
  case (Some s)
  have s: "s < length (alloc_ranges al)" "b \<le> block_count (alloc_ranges al ! s)"
    "\<forall>r' \<in> set (alloc_ranges al). b \<le> block_count r' \<longrightarrow> block_count (alloc_ranges al ! s) \<le> block_count r'"
    using best_fit_selects [of "alloc_ranges al" b] Some by (auto simp: best_upto_def in_set_conv_nth)
  then have "\<exists>r \<in> set (alloc_ranges al). b \<le> block_count r" by (meson nth_mem)
  moreover note allocate_effect [OF assms Some, of x] s
  ultimately show ?thesis by (metis (lifting) nth_mem)
qed

theorem best_fit_allocates_witness:
  "\<exists>al' r. evoke_block_range_allocator_allocate_best_fit
      (Some (zero_allocator\<lparr>alloc_ranges := [\<lparr>start_block = 2, block_count = 3\<rparr>],
         alloc_available_block_count := 3, alloc_initialized := True\<rparr>)) 2 (Some 0) =
      (True, Some al', Some r)"
proof -
  let ?al = "zero_allocator\<lparr>alloc_ranges := [\<lparr>start_block = 2, block_count = 3\<rparr>],
         alloc_available_block_count := 3, alloc_initialized := True\<rparr>"
  have "allocator_wf 5 ?al" "(2 :: u32) \<noteq> 0"
    by (simp_all add: allocator_wf_def canonical_def range_ok_def range_end_def range_blocks_def)
  from best_fit_allocates [OF this, of 0] show ?thesis by auto
qed


section \<open>The allocator as an interface\<close>

text \<open>
  What the page writers rely on: a granted run is free, granting it removes exactly that run
  from the free blocks, and the state stays good. A caller that keeps asking therefore gets
  pairwise disjoint runs of the blocks that were free when it started.
\<close>

locale run_allocator =
  fixes good :: "'s \<Rightarrow> bool"
    and free :: "'s \<Rightarrow> nat set"
    and grant :: "'s \<Rightarrow> u32 \<Rightarrow> (u32 \<times> 's) option"
  assumes grant_free: "good s \<Longrightarrow> grant s n = Some (start, s') \<Longrightarrow> run_blocks start n \<subseteq> free s"
    and grant_removes: "good s \<Longrightarrow> grant s n = Some (start, s') \<Longrightarrow> free s' = free s - run_blocks start n"
    and grant_good: "good s \<Longrightarrow> grant s n = Some (start, s') \<Longrightarrow> good s'"
begin

text \<open>Serve a list of requests in order; a request that does not fit is skipped.\<close>

fun serve :: "'s \<Rightarrow> u32 list \<Rightarrow> (u32 \<times> u32) list \<times> 's" where
  "serve s [] = ([], s)"
| "serve s (n # ns) =
     (case grant s n of
        None \<Rightarrow> serve s ns
      | Some (start, s') \<Rightarrow> (case serve s' ns of (runs, s'') \<Rightarrow> ((start, n) # runs, s'')))"

lemma serve_disjoint:
  assumes "good s" and "serve s ns = (runs, s')"
  shows "good s' \<and> (\<Union>(st, n) \<in> set runs. run_blocks st n) \<subseteq> free s \<and>
    free s' = free s - (\<Union>(st, n) \<in> set runs. run_blocks st n) \<and>
    sorted_wrt (\<lambda>(st, n) (st', n'). run_blocks st n \<inter> run_blocks st' n' = {}) runs"
  using assms
proof (induction s ns arbitrary: runs rule: serve.induct)
  case (2 s n ns)
  show ?case
  proof (cases "grant s n")
    case None
    with 2 show ?thesis by simp
  next
    case (Some g)
    obtain st s1 where g: "g = (st, s1)" by fastforce
    obtain rs s2 where sv: "serve s1 ns = (rs, s2)" by fastforce
    note gr = Some [unfolded g]
    from "2.prems"(2) gr sv have runs: "runs = (st, n) # rs" "s' = s2" by simp_all
    have IH: "good s2 \<and> (\<Union>(st, n) \<in> set rs. run_blocks st n) \<subseteq> free s1 \<and>
        free s2 = free s1 - (\<Union>(st, n) \<in> set rs. run_blocks st n) \<and>
        sorted_wrt (\<lambda>(st, n) (st', n'). run_blocks st n \<inter> run_blocks st' n' = {}) rs"
      using "2.IH"(2) [OF Some g [symmetric]] grant_good [OF "2.prems"(1) gr] sv runs(2) by simp
    have "run_blocks st n \<inter> run_blocks st' n' = {}" if "(st', n') \<in> set rs" for st' n'
      using IH that grant_removes [OF "2.prems"(1) gr] by blast
    then show ?thesis
      using IH grant_free [OF "2.prems"(1) gr] grant_removes [OF "2.prems"(1) gr]
      unfolding runs by auto
  qed
qed simp

end

text \<open>The call of \<open>allocate_best_fit\<close> as the page writers make it, with a fresh output cell.\<close>

definition best_fit_grant ::
  "evoke_block_range_allocator \<Rightarrow> u32 \<Rightarrow> (u32 \<times> evoke_block_range_allocator) option" where
  "best_fit_grant al n =
     (case evoke_block_range_allocator_allocate_best_fit (Some al) n (Some 0) of
        (True, Some al', Some start) \<Rightarrow> Some (start, al') | _ \<Rightarrow> None)"

lemma best_fit_grant_effect:
  assumes "allocator_wf hw al" and "best_fit_grant al n = Some (start, al')"
  shows "allocator_wf hw al'" and "run_blocks start n \<subseteq> blocks_of (alloc_ranges al)"
    and "blocks_of (alloc_ranges al') = blocks_of (alloc_ranges al) - run_blocks start n"
proof -
  have "n \<noteq> 0" using assms(2)
    by (auto simp: best_fit_grant_def evoke_block_range_allocator_allocate_best_fit_def)
  moreover obtain s where "best_fit_loop (alloc_ranges al) n 0 None = Some s"
    using assms calculation
    by (cases "best_fit_loop (alloc_ranges al) n 0 None"; cases "alloc_initialized al")
      (auto simp: best_fit_grant_def evoke_block_range_allocator_allocate_best_fit_def)
  ultimately obtain al'' st where
    "evoke_block_range_allocator_allocate_best_fit (Some al) n (Some 0) = (True, Some al'', Some st)"
    "allocator_wf hw al''" "run_blocks st n \<subseteq> blocks_of (alloc_ranges al)"
    "blocks_of (alloc_ranges al'') = blocks_of (alloc_ranges al) - run_blocks st n"
    using allocate_effect [OF assms(1)] by blast
  with assms(2) show "allocator_wf hw al'" and "run_blocks start n \<subseteq> blocks_of (alloc_ranges al)"
    and "blocks_of (alloc_ranges al') = blocks_of (alloc_ranges al) - run_blocks start n"
    by (simp_all add: best_fit_grant_def)
qed

interpretation best_fit: run_allocator "allocator_wf hw" "\<lambda>al. blocks_of (alloc_ranges al)" best_fit_grant
  for hw
  by unfold_locales (blast dest: best_fit_grant_effect)+

text \<open>\<open>best_fit_serve\<close> is the interface's client on the model's own allocator.\<close>

definition best_fit_serve ::
  "evoke_block_range_allocator \<Rightarrow> u32 list \<Rightarrow> (u32 \<times> u32) list \<times> evoke_block_range_allocator" where
  "best_fit_serve = best_fit.serve"

text \<open>
  C1. From the inventory to the pages that get overwritten: build the allocator from a
  finalized inventory and serve any list of requests; every granted run lies below the mark,
  covers no block that the inventory found reachable, never block zero, and no two granted
  runs share a block.
\<close>

theorem reclaimed_runs_disjoint:
  assumes "inventory_wf iv" and "inv_finalized iv"
    and "evoke_block_range_allocator_build calloc_ok (Some iv) (Some al) = (EVOKE_OK, Some al')"
    and "best_fit_serve al' requests = (runs, al'')"
  shows "(\<forall>(st, n) \<in> set runs.
      run_blocks st n \<subseteq> {..<unat (inv_published_block_high_watermark iv)} \<and>
      run_blocks st n \<inter> blocks_of (inv_ranges iv) = {} \<and> 0 \<notin> run_blocks st n) \<and>
    sorted_wrt (\<lambda>(st, n) (st', n'). run_blocks st n \<inter> run_blocks st' n' = {}) runs"
proof -
  have "start_block (hd (inv_ranges iv)) = 0" and "\<not> alloc_initialized al" and calloc_ok
    using assms(3) by (auto simp: evoke_block_range_allocator_build_def split: if_splits)
  from allocator_build_complement_aux [OF assms(1,2) this(1,2)] assms(3) this(3)
  have wf: "allocator_wf (unat (inv_published_block_high_watermark iv)) al'"
    and bl: "blocks_of (alloc_ranges al') =
      {..<unat (inv_published_block_high_watermark iv)} - blocks_of (inv_ranges iv)"
    by auto
  have "0 \<notin> blocks_of (alloc_ranges al')" using wf by (simp add: allocator_wf_def)
  with best_fit.serve_disjoint [OF wf assms(4) [unfolded best_fit_serve_def]] show ?thesis
    unfolding bl by blast
qed

theorem reclaimed_runs_disjoint_witness:
  "\<exists>runs al''. best_fit_serve
      (zero_allocator\<lparr>alloc_ranges := [\<lparr>start_block = 2, block_count = 3\<rparr>],
         alloc_available_block_count := 3, alloc_initialized := True\<rparr>) [1, 5, 2] = (runs, al'') \<and>
     runs = [(2, 1), (3, 2)] \<and> (\<forall>(st, n) \<in> set runs. run_blocks st n \<inter> {0, 1} = {})"
proof -
  let ?iv = "zero_inventory\<lparr>inv_ranges := [\<lparr>start_block = 0, block_count = 2\<rparr>],
         inv_reachable_block_count := 2, inv_interior_unreachable_block_count := 3,
         inv_highest_reachable_block_exclusive := 2, inv_published_block_high_watermark := 5,
         inv_finalized := True\<rparr>"
  let ?al = "zero_allocator\<lparr>alloc_ranges := [\<lparr>start_block = 2, block_count = 3\<rparr>],
         alloc_available_block_count := 3, alloc_initialized := True\<rparr>"
  let ?al'' = "zero_allocator\<lparr>alloc_allocated_block_count := 3, alloc_initialized := True\<rparr>"
  have "inventory_wf ?iv" "inv_finalized ?iv"
    by (simp_all add: inventory_wf_def range_ok_def range_end_def canonical_def)
  moreover have "evoke_block_range_allocator_build True (Some ?iv) (Some zero_allocator) =
      (EVOKE_OK, Some ?al)"
    by (simp add: evoke_block_range_allocator_build_def zero_allocator_def SIZE_MAX_def
        sizeof_block_range_def range_end64_def u64_of_u32_def Let_def)
  moreover have run: "best_fit_serve ?al [1, 5, 2] = ([(2, 1), (3, 2)], ?al'')"
    by (simp add: best_fit_serve_def best_fit_grant_def zero_allocator_def best_fit_loop.simps
        evoke_block_range_allocator_allocate_best_fit_def u64_of_u32_def Let_def)
  ultimately have "\<forall>(st, n) \<in> set [(2, 1), (3, 2)]. run_blocks st n \<inter> blocks_of (inv_ranges ?iv) = {}"
    using reclaimed_runs_disjoint [of ?iv True zero_allocator ?al] by fastforce
  with run show ?thesis by (simp add: range_blocks_def range_end_def run_blocks_def)
qed

section \<open>Building from authenticated free ranges; growing an inventory\<close>

lemma build_free_loop_correct:
  assumes "canonical (pre @ rs)" and "\<forall>r \<in> set (pre @ rs). range_ok r \<and> range_end r \<le> unat hw \<and> start_block r \<noteq> 0"
    and "unat available = card (blocks_of pre)" and "previous = (if pre = [] then None else Some (last pre))"
  shows "\<exists>av. build_free_loop hw previous rs available = Some av \<and> unat av = card (blocks_of (pre @ rs))"
  using assms
proof (induction rs arbitrary: pre previous available)
  case (Cons r rs)
  have can: "canonical ((pre @ [r]) @ rs)" using Cons.prems(1) by simp
  then have cs: "separated (pre @ [r])"
    using canonical_separated [OF can] by (simp add: separated_def sorted_wrt_append)
  have r: "range_ok r" "range_end r \<le> unat hw" "start_block r \<noteq> 0" using Cons.prems(2) by simp_all
  have prev: "\<not> (case previous of None \<Rightarrow> False | Some p \<Rightarrow> range_end64 p \<ge> u64_of_u32 (start_block r))"
    using Cons.prems(1,4) by (auto simp: canonical_def sorted_wrt_append word_nat word_order_nat not_le)
  have sub: "blocks_of (pre @ [r]) \<subseteq> {..<unat hw}"
    using Cons.prems(2) by (intro blocks_of_below) auto
  have "card (blocks_of (pre @ [r])) \<le> unat hw" using card_mono [OF _ sub] by simp
  with card_blocks_of_snoc [OF cs] have sm: "card (blocks_of pre) + unat (block_count r) \<le> unat hw"
    by simp
  have no: "\<not> available > UINT64_MAX - u64_of_u32 (block_count r)"
    using sm Cons.prems(3) u32_less [of hw] u32_less [of "block_count r"]
    by (simp add: word_order_nat unat_sub_word del: u32_less)
  have av: "unat (available + u64_of_u32 (block_count r)) = card (blocks_of (pre @ [r]))"
    unfolding card_blocks_of_snoc [OF cs] using sm Cons.prems(3) u32_less [of hw]
    by (subst unat_add_u64) (simp_all del: u32_less)
  have step: "build_free_loop hw previous (r # rs) available =
      build_free_loop hw (Some r) rs (available + u64_of_u32 (block_count r))"
    using r prev no by (auto simp: range_ok_def word_nat word_order_nat)
  have "\<exists>a. build_free_loop hw (Some r) rs (available + u64_of_u32 (block_count r)) = Some a \<and>
      unat a = card (blocks_of ((pre @ [r]) @ rs))"
    by (rule Cons.IH [OF can]) (use Cons.prems(2) av in simp_all)
  then show ?case unfolding step by simp
qed simp

lemma build_free_loop_sound:
  assumes "build_free_loop hw previous rs available = Some av"
  shows "canonical rs \<and> (\<forall>r \<in> set rs. range_ok r \<and> range_end r \<le> unat hw \<and> start_block r \<noteq> 0) \<and>
    (\<forall>p. previous = Some p \<longrightarrow> (\<forall>r \<in> set rs. range_end p < unat (start_block r)))"
  using assms
proof (induction hw previous rs available rule: build_free_loop.induct)
  case (2 hw previous r rs available)
  have ok: "build_free_loop hw (Some r) rs (available + u64_of_u32 (block_count r)) = Some av"
    "start_block r \<noteq> 0" "block_count r \<noteq> 0" "range_end r \<le> unat hw"
    "\<forall>p. previous = Some p \<longrightarrow> range_end p < unat (start_block r)"
    using "2.prems" by (auto simp: word_nat word_order_nat not_le split: if_splits option.splits)
  have IH: "canonical rs" "\<forall>x \<in> set rs. range_ok x \<and> range_end x \<le> unat hw \<and> start_block x \<noteq> 0"
    "\<forall>x \<in> set rs. range_end r < unat (start_block x)"
    using 2 ok(1) by (auto split: if_splits)
  have r: "range_ok r"
    using ok(3,4) u32_le_max [of hw] by (simp add: range_ok_def unat_gt_0)
  have "unat (start_block r) \<le> range_end r" by (simp add: range_end_def)
  with ok(5) IH(3) have "\<forall>p. previous = Some p \<longrightarrow> (\<forall>x \<in> set (r # rs). range_end p < unat (start_block x))"
    by fastforce
  with r ok(2,4) IH show ?case by (simp add: canonical_def)
qed (simp add: canonical_def)

text \<open>
  The allocator takes an authenticated free list exactly when it is canonical: non-empty
  ranges in ascending order with a gap between neighbours, below the mark and clear of block
  zero. The allocator then owns exactly those blocks; otherwise it is left empty.
\<close>

lemma allocator_build_free_accepts:
  assumes "rs \<noteq> []" and "1 < hw" and "\<not> alloc_initialized al"
    and "length rs \<le> unat (SIZE_MAX div sizeof_block_range)"
  shows "if canonical rs \<and> (\<forall>r \<in> set rs. range_ok r \<and> range_end r \<le> unat hw \<and> start_block r \<noteq> 0)
    then \<exists>al'. evoke_block_range_allocator_build_free True (Some rs) hw (Some al) = (EVOKE_OK, Some al') \<and>
           alloc_ranges al' = rs \<and> allocator_wf (unat hw) al'
    else evoke_block_range_allocator_build_free True (Some rs) hw (Some al) =
           (EVOKE_ERR_FORMAT, Some zero_allocator)"
proof (cases "canonical rs \<and> (\<forall>r \<in> set rs. range_ok r \<and> range_end r \<le> unat hw \<and> start_block r \<noteq> 0)")
  case True
  then obtain av where av: "build_free_loop hw None rs 0 = Some av" "unat av = card (blocks_of rs)"
    using build_free_loop_correct [of "[]" rs hw 0 None] by auto
  have "0 \<notin> blocks_of rs"
    using True by (auto simp: blocks_of_def range_blocks_def unat_gt_0)
  with True av assms show ?thesis
    by (auto simp: evoke_block_range_allocator_build_free_def allocator_wf_def not_le)
next
  case False
  then have "build_free_loop hw None rs 0 = None"
    using build_free_loop_sound by fastforce
  with False assms show ?thesis
    by (auto simp: evoke_block_range_allocator_build_free_def evoke_block_range_allocator_free_def not_le)
qed

text \<open>
  The invariant holds of a fresh inventory and every addition keeps it, accepted or not; an
  accepted range is one whose end is a 32-bit block number.
\<close>

lemma inventory_wf_zero: "inventory_wf zero_inventory"
  by (simp add: inventory_wf_def zero_inventory_def)

lemma inventory_add_cases:
  assumes "evoke_block_range_inventory_add realloc_ok (Some iv) start blocks = (status, res)"
  obtains (refused) "status \<noteq> EVOKE_OK" "res = Some iv"
  | (added) cap where "status = EVOKE_OK" "\<not> inv_finalized iv" "blocks \<noteq> 0"
      "\<not> u64_of_u32 start + u64_of_u32 blocks > u64_of_u32 UINT32_MAX"
      "res = Some (iv\<lparr>inv_ranges := inv_ranges iv @ [\<lparr>start_block = start, block_count = blocks\<rparr>],
         inv_range_capacity := cap, inv_observed_range_count := inv_observed_range_count iv + 1\<rparr>)"
proof (cases "inv_finalized iv \<or> blocks = 0 \<or> u64_of_u32 start + u64_of_u32 blocks > u64_of_u32 UINT32_MAX")
  case True
  with assms refused show thesis by (simp add: evoke_block_range_inventory_add_def)
next
  case False
  define next_capacity where "next_capacity = (if inv_range_capacity iv = 0 then 16 else inv_range_capacity iv * 2)"
  have run: "evoke_block_range_inventory_add realloc_ok (Some iv) start blocks =
    (if of_nat (length (inv_ranges iv)) = inv_range_capacity iv then
       if next_capacity < inv_range_capacity iv \<or> next_capacity > SIZE_MAX div sizeof_block_range
       then (EVOKE_ERR_RANGE, Some iv)
       else if \<not> realloc_ok then (EVOKE_ERR_NOMEM, Some iv)
       else (EVOKE_OK, Some (iv\<lparr>inv_ranges := inv_ranges iv @ [\<lparr>start_block = start, block_count = blocks\<rparr>],
         inv_range_capacity := next_capacity, inv_observed_range_count := inv_observed_range_count iv + 1\<rparr>))
     else (EVOKE_OK, Some (iv\<lparr>inv_ranges := inv_ranges iv @ [\<lparr>start_block = start, block_count = blocks\<rparr>],
         inv_range_capacity := inv_range_capacity iv,
         inv_observed_range_count := inv_observed_range_count iv + 1\<rparr>)))"
    using False by (simp add: evoke_block_range_inventory_add_def Let_def next_capacity_def)
  from False have ok: "\<not> inv_finalized iv" "blocks \<noteq> 0"
      "\<not> u64_of_u32 start + u64_of_u32 blocks > u64_of_u32 UINT32_MAX" by blast+
  from assms [unfolded run] show thesis
    using refused added [OF _ ok, of "inv_range_capacity iv"] added [OF _ ok, of next_capacity]
    by (simp split: if_split_asm)
qed

text \<open>
  Adding a range keeps the inventory's invariant on every path, errors included, and
  appends exactly the given range when it reports success.
\<close>

lemma inventory_add_preserves:
  assumes "inventory_wf iv" and "evoke_block_range_inventory_add realloc_ok (Some iv) start blocks = (status, res)"
  shows "\<exists>iv'. res = Some iv' \<and> inventory_wf iv' \<and>
    inv_ranges iv' = inv_ranges iv @
      (if status = EVOKE_OK then [\<lparr>start_block = start, block_count = blocks\<rparr>] else []) \<and>
    (status = EVOKE_OK \<longrightarrow> \<not> inv_finalized iv \<and>
       range_ok \<lparr>start_block = start, block_count = blocks\<rparr> \<and>
       inv_observed_range_count iv' = inv_observed_range_count iv + 1)"
  using assms(2)
proof (cases rule: inventory_add_cases)
  case refused
  with assms(1) show ?thesis by simp
next
  case (added cap)
  have "range_ok \<lparr>start_block = start, block_count = blocks\<rparr>"
    using added(3,4) by (simp add: range_ok_def range_end_def word_less_nat_alt unat_gt_0)
  with assms(1) added(1,2) show ?thesis
    unfolding added(5) by (intro exI conjI) (auto simp: inventory_wf_def)
qed

end
