(* ===== verification/Segment_Codec.thy ===== *)
theory Segment_Codec
  imports Prelude
begin

text \<open>
  The page-level codecs of \<open>src/evoke_segments.c\<close>: the checksummed header of an immutable
  object page, the header of an active L0 page, and the header of an L0 record fragment.
  A byte pointer with its size is a list; an output buffer is the list of its old bytes.

  Every header is sealed by the same checksum, taken with the checksum field read as zero.
  The locale \<open>sealed_codec\<close> states that contract of a decoder and derives that no change of
  a single byte is accepted.
\<close>

section \<open>Constants and data\<close>

definition EVOKE_SEGMENT_PAGE_HEADER_SIZE :: nat where "EVOKE_SEGMENT_PAGE_HEADER_SIZE = 64"
definition EVOKE_ACTIVE_L0_PAGE_HEADER_SIZE :: nat where "EVOKE_ACTIVE_L0_PAGE_HEADER_SIZE = 64"
definition EVOKE_L0_FRAME_HEADER_SIZE :: nat where "EVOKE_L0_FRAME_HEADER_SIZE = 40"
definition EVOKE_L0_RECORD_HEADER_SIZE :: u32 where "EVOKE_L0_RECORD_HEADER_SIZE = 112"
definition EVOKE_SEGMENT_PAGE_MAGIC :: u32 where "EVOKE_SEGMENT_PAGE_MAGIC = 0x47504932"
definition EVOKE_SEGMENT_PAGE_VERSION :: u16 where "EVOKE_SEGMENT_PAGE_VERSION = 2"
definition EVOKE_SEGMENT_PAGE_CHECKSUM_OFFSET :: nat where "EVOKE_SEGMENT_PAGE_CHECKSUM_OFFSET = 56"
definition EVOKE_ACTIVE_L0_PAGE_MAGIC :: u32 where "EVOKE_ACTIVE_L0_PAGE_MAGIC = 0x304C4932"
definition EVOKE_ACTIVE_L0_PAGE_VERSION :: u16 where "EVOKE_ACTIVE_L0_PAGE_VERSION = 1"
definition EVOKE_ACTIVE_L0_PAGE_CHECKSUM_OFFSET :: nat where "EVOKE_ACTIVE_L0_PAGE_CHECKSUM_OFFSET = 56"
definition EVOKE_L0_FRAME_MAGIC :: u32 where "EVOKE_L0_FRAME_MAGIC = 0x464C4932"
definition EVOKE_L0_FRAME_VERSION :: u16 where "EVOKE_L0_FRAME_VERSION = 1"
definition EVOKE_L0_FRAME_FLAG_START :: u16 where "EVOKE_L0_FRAME_FLAG_START = 1"
definition EVOKE_L0_FRAME_FLAG_END :: u16 where "EVOKE_L0_FRAME_FLAG_END = 2"

lemmas codec_consts =
  EVOKE_SEGMENT_PAGE_HEADER_SIZE_def EVOKE_ACTIVE_L0_PAGE_HEADER_SIZE_def
  EVOKE_L0_FRAME_HEADER_SIZE_def EVOKE_SEGMENT_PAGE_MAGIC_def EVOKE_SEGMENT_PAGE_VERSION_def
  EVOKE_SEGMENT_PAGE_CHECKSUM_OFFSET_def EVOKE_ACTIVE_L0_PAGE_MAGIC_def
  EVOKE_ACTIVE_L0_PAGE_VERSION_def EVOKE_ACTIVE_L0_PAGE_CHECKSUM_OFFSET_def
  EVOKE_L0_FRAME_MAGIC_def EVOKE_L0_FRAME_VERSION_def

text \<open>
  A decoded object kind is an arbitrary number until it is checked, so the enumeration is
  kept as its codes.
\<close>

type_synonym evoke_segment_object_kind = u32

definition EVOKE_SEGMENT_OBJECT_INVALID :: evoke_segment_object_kind where
  "EVOKE_SEGMENT_OBJECT_INVALID = 0"
definition EVOKE_SEGMENT_OBJECT_MANIFEST :: evoke_segment_object_kind where
  "EVOKE_SEGMENT_OBJECT_MANIFEST = 1"
definition EVOKE_SEGMENT_OBJECT_SEMANTIC_ACCELERATOR_FORWARD_BOUND :: evoke_segment_object_kind where
  "EVOKE_SEGMENT_OBJECT_SEMANTIC_ACCELERATOR_FORWARD_BOUND = 16"

record evoke_segment_page_header =
  ph_object_kind :: evoke_segment_object_kind
  ph_object_id :: u64
  ph_owner_manifest_id :: u64
  ph_object_bytes :: u64
  ph_object_checksum :: u64
  ph_ordinal :: u32
  ph_page_count :: u32
  ph_used_bytes :: u32
  ph_payload_checksum :: u32

record evoke_active_l0_page_header =
  lp_segment_id :: u64
  lp_min_sequence :: u64
  lp_max_sequence :: u64
  lp_payload_checksum :: u64
  lp_ordinal :: u32
  lp_next_block :: u32
  lp_frame_count :: u32
  lp_used_bytes :: u32

record evoke_l0_frame_header =
  fh_flags :: u16
  fh_sequence :: u64
  fh_record_checksum :: u64
  fh_record_bytes :: u32
  fh_fragment_offset :: u32
  fh_fragment_bytes :: u32

section \<open>Checked sizes and checksums\<close>

definition evoke_checked_add_size :: "u64 \<Rightarrow> u64 \<Rightarrow> u64 option \<Rightarrow> bool \<times> u64 option" where
  "evoke_checked_add_size left right result_out =
     (case result_out of
        None \<Rightarrow> (False, None)
      | Some _ \<Rightarrow>
          if left > SIZE_MAX - right then (False, result_out) else (True, Some (left + right)))"

definition evoke_checked_mul_size :: "u64 \<Rightarrow> u64 \<Rightarrow> u64 option \<Rightarrow> bool \<times> u64 option" where
  "evoke_checked_mul_size left right result_out =
     (case result_out of
        None \<Rightarrow> (False, None)
      | Some _ \<Rightarrow>
          if left = 0 \<or> right = 0 then (True, Some 0)
          else if left > SIZE_MAX div right then (False, result_out)
          else (True, Some (left * right)))"

definition evoke_l0_aligned_size :: "u64 \<Rightarrow> u64 option \<Rightarrow> bool \<times> u64 option" where
  "evoke_l0_aligned_size nbytes aligned_out =
     (case evoke_checked_add_size nbytes 3 (Some 0) of
        (True, Some padded) \<Rightarrow>
          (case aligned_out of
             None \<Rightarrow> (False, None)
           | Some _ \<Rightarrow> (True, Some (padded AND NOT 3)))
      | _ \<Rightarrow> (False, aligned_out))"

text \<open>A null pointer with a positive size has checksum zero.\<close>

definition evoke_segment_blob_checksum :: "bytes option \<Rightarrow> nat \<Rightarrow> u64" where
  "evoke_segment_blob_checksum bs nbytes =
     (case bs of
        None \<Rightarrow> if nbytes > 0 then 0 else evoke_checksum_update FNV_OFFSET_BASIS []
      | Some b \<Rightarrow> evoke_checksum_update FNV_OFFSET_BASIS (take nbytes b))"

definition evoke_segment_page_payload_checksum :: "bytes option \<Rightarrow> nat \<Rightarrow> u32" where
  "evoke_segment_page_payload_checksum bs nbytes =
     (let checksum = evoke_segment_blob_checksum bs nbytes;
          folded = ucast checksum XOR ucast (drop_bit 32 checksum)
      in if folded = 0 then UINT32_MAX else folded)"

definition evoke_checksum_with_zero_range :: "bytes \<Rightarrow> nat \<Rightarrow> nat \<Rightarrow> nat \<Rightarrow> u64" where
  "evoke_checksum_with_zero_range bs nbytes zero_offset zero_size =
     (if zero_size \<noteq> 8 then 0
      else
        let checksum = evoke_checksum_update FNV_OFFSET_BASIS (take zero_offset bs);
            checksum = evoke_checksum_update checksum (replicate 8 0)
        in evoke_checksum_update checksum
             (take (nbytes - zero_offset - zero_size) (drop (zero_offset + zero_size) bs)))"

text \<open>\<open>memset (bytes_out, 0, n)\<close>\<close>

definition memset_zero :: "bytes \<Rightarrow> nat \<Rightarrow> bytes" where
  "memset_zero bs n = replicate n 0 @ drop n bs"

section \<open>Object pages\<close>

definition evoke_segment_object_kind_valid :: "evoke_segment_object_kind \<Rightarrow> bool" where
  "evoke_segment_object_kind_valid kind \<longleftrightarrow>
     kind \<ge> EVOKE_SEGMENT_OBJECT_MANIFEST \<and>
     kind \<le> EVOKE_SEGMENT_OBJECT_SEMANTIC_ACCELERATOR_FORWARD_BOUND"

definition evoke_segment_page_count_required ::
  "u64 \<Rightarrow> u64 \<Rightarrow> u32 option \<Rightarrow> evoke_status \<times> u32 option" where
  "evoke_segment_page_count_required object_bytes page_content_bytes page_count_out =
     (case page_count_out of
        None \<Rightarrow> (EVOKE_ERR_INVALID, None)
      | Some _ \<Rightarrow>
          if object_bytes = 0 \<or> page_content_bytes \<le> of_nat EVOKE_SEGMENT_PAGE_HEADER_SIZE
          then (EVOKE_ERR_FORMAT, Some 0)
          else
            let payload_capacity = page_content_bytes - of_nat EVOKE_SEGMENT_PAGE_HEADER_SIZE;
                page_count = object_bytes div payload_capacity;
                page_count =
                  (if object_bytes mod payload_capacity \<noteq> 0 then page_count + 1 else page_count)
            in
              if page_count = 0 \<or> page_count > u64_of_u32 UINT32_MAX
              then (EVOKE_ERR_FORMAT, Some 0)
              else (EVOKE_OK, Some (ucast page_count)))"

definition evoke_segment_page_header_validate ::
  "evoke_segment_page_header option \<Rightarrow> u64 \<Rightarrow> evoke_status" where
  "evoke_segment_page_header_validate header page_content_bytes =
     (case header of
        None \<Rightarrow> EVOKE_ERR_FORMAT
      | Some h \<Rightarrow>
          if \<not> evoke_segment_object_kind_valid (ph_object_kind h) \<or>
             ph_object_id h = 0 \<or> ph_owner_manifest_id h = 0 \<or> ph_object_bytes h = 0 \<or>
             ph_object_checksum h = 0 \<or> ph_payload_checksum h = 0 \<or> ph_object_bytes h > SIZE_MAX
          then EVOKE_ERR_FORMAT
          else
            (case evoke_segment_page_count_required (ph_object_bytes h) page_content_bytes (Some 0) of
               (EVOKE_OK, Some expected_page_count) \<Rightarrow>
                 if ph_page_count h \<noteq> expected_page_count \<or> ph_ordinal h \<ge> ph_page_count h
                 then EVOKE_ERR_FORMAT
                 else
                   let payload_capacity = page_content_bytes - of_nat EVOKE_SEGMENT_PAGE_HEADER_SIZE;
                       page_offset = u64_of_u32 (ph_ordinal h) * payload_capacity
                   in
                     if page_offset \<ge> ph_object_bytes h then EVOKE_ERR_FORMAT
                     else
                       let remaining = ph_object_bytes h - page_offset;
                           expected_used_bytes =
                             (if remaining > payload_capacity then ucast payload_capacity
                              else ucast remaining)
                       in if ph_used_bytes h \<noteq> expected_used_bytes then EVOKE_ERR_FORMAT
                          else EVOKE_OK
             | _ \<Rightarrow> EVOKE_ERR_FORMAT))"

text \<open>The field writes of the serializer, then the checksum over them.\<close>

definition write_segment_page_fields :: "evoke_segment_page_header \<Rightarrow> bytes \<Rightarrow> bytes" where
  "write_segment_page_fields h bs =
     (let bs = memset_zero bs EVOKE_SEGMENT_PAGE_HEADER_SIZE;
          bs = evoke_write_u32_le bs 0 EVOKE_SEGMENT_PAGE_MAGIC;
          bs = evoke_write_u16_le bs 4 EVOKE_SEGMENT_PAGE_VERSION;
          bs = evoke_write_u16_le bs 6 (ucast (ph_object_kind h));
          bs = evoke_write_u64_le bs 8 (ph_object_id h);
          bs = evoke_write_u64_le bs 16 (ph_owner_manifest_id h);
          bs = evoke_write_u64_le bs 24 (ph_object_bytes h);
          bs = evoke_write_u64_le bs 32 (ph_object_checksum h);
          bs = evoke_write_u32_le bs 40 (ph_ordinal h);
          bs = evoke_write_u32_le bs 44 (ph_page_count h);
          bs = evoke_write_u32_le bs 48 (ph_used_bytes h);
          bs = evoke_write_u32_le bs 52 (ph_payload_checksum h)
      in bs)"

definition evoke_segment_page_header_serialize ::
  "evoke_segment_page_header option \<Rightarrow> u64 \<Rightarrow> bytes option \<Rightarrow> evoke_status \<times> bytes option" where
  "evoke_segment_page_header_serialize header page_content_bytes bytes_out =
     (case bytes_out of
        None \<Rightarrow> (EVOKE_ERR_INVALID, None)
      | Some buf \<Rightarrow>
          if length buf < EVOKE_SEGMENT_PAGE_HEADER_SIZE then (EVOKE_ERR_INVALID, bytes_out)
          else
            (case header of
               None \<Rightarrow> (EVOKE_ERR_FORMAT, bytes_out)
             | Some h \<Rightarrow>
                 if evoke_segment_page_header_validate header page_content_bytes \<noteq> EVOKE_OK
                 then (EVOKE_ERR_FORMAT, bytes_out)
                 else
                   let bs = write_segment_page_fields h buf;
                       checksum = evoke_checksum_with_zero_range bs
                         EVOKE_SEGMENT_PAGE_HEADER_SIZE EVOKE_SEGMENT_PAGE_CHECKSUM_OFFSET 8
                   in (EVOKE_OK,
                       Some (evoke_write_u64_le bs EVOKE_SEGMENT_PAGE_CHECKSUM_OFFSET checksum))))"

definition read_segment_page_fields :: "bytes \<Rightarrow> evoke_segment_page_header" where
  "read_segment_page_fields bs =
     \<lparr>ph_object_kind = ucast (evoke_read_u16_le bs 6),
      ph_object_id = evoke_read_u64_le bs 8,
      ph_owner_manifest_id = evoke_read_u64_le bs 16,
      ph_object_bytes = evoke_read_u64_le bs 24,
      ph_object_checksum = evoke_read_u64_le bs 32,
      ph_ordinal = evoke_read_u32_le bs 40,
      ph_page_count = evoke_read_u32_le bs 44,
      ph_used_bytes = evoke_read_u32_le bs 48,
      ph_payload_checksum = evoke_read_u32_le bs 52\<rparr>"

definition evoke_segment_page_header_deserialize ::
  "bytes option \<Rightarrow> u64 \<Rightarrow> evoke_segment_page_header option
     \<Rightarrow> evoke_status \<times> evoke_segment_page_header option" where
  "evoke_segment_page_header_deserialize bs page_content_bytes header_out =
     (case (bs, header_out) of
        (Some b, Some _) \<Rightarrow>
          if length b < EVOKE_SEGMENT_PAGE_HEADER_SIZE \<or>
             evoke_read_u32_le b 0 \<noteq> EVOKE_SEGMENT_PAGE_MAGIC \<or>
             evoke_read_u16_le b 4 \<noteq> EVOKE_SEGMENT_PAGE_VERSION
          then (EVOKE_ERR_FORMAT, header_out)
          else
            let checksum = evoke_read_u64_le b EVOKE_SEGMENT_PAGE_CHECKSUM_OFFSET in
            if checksum = 0 \<or>
               checksum \<noteq> evoke_checksum_with_zero_range b
                 EVOKE_SEGMENT_PAGE_HEADER_SIZE EVOKE_SEGMENT_PAGE_CHECKSUM_OFFSET 8
            then (EVOKE_ERR_FORMAT, header_out)
            else
              let header = read_segment_page_fields b in
              if evoke_segment_page_header_validate (Some header) page_content_bytes \<noteq> EVOKE_OK
              then (EVOKE_ERR_FORMAT, header_out)
              else (EVOKE_OK, Some header)
      | _ \<Rightarrow> (EVOKE_ERR_INVALID, header_out))"

definition evoke_segment_page_payload_validate ::
  "evoke_segment_page_header option \<Rightarrow> bytes option \<Rightarrow> nat \<Rightarrow> evoke_status" where
  "evoke_segment_page_payload_validate header payload payload_size =
     (case (header, payload) of
        (Some h, Some p) \<Rightarrow>
          if payload_size \<noteq> unat (ph_used_bytes h) then EVOKE_ERR_INVALID
          else if evoke_segment_page_payload_checksum payload payload_size \<noteq> ph_payload_checksum h
          then EVOKE_ERR_FORMAT
          else EVOKE_OK
      | _ \<Rightarrow> EVOKE_ERR_INVALID)"

section \<open>Active L0 pages\<close>

definition evoke_active_l0_page_header_validate ::
  "evoke_active_l0_page_header option \<Rightarrow> u64 \<Rightarrow> evoke_status" where
  "evoke_active_l0_page_header_validate header page_content_bytes =
     (case header of
        None \<Rightarrow> EVOKE_ERR_FORMAT
      | Some h \<Rightarrow>
          if page_content_bytes \<le> of_nat EVOKE_ACTIVE_L0_PAGE_HEADER_SIZE \<or>
             lp_segment_id h = 0 \<or> lp_min_sequence h = 0 \<or>
             lp_min_sequence h > lp_max_sequence h \<or> lp_payload_checksum h = 0 \<or>
             lp_next_block h = 0 \<or> lp_frame_count h = 0 \<or> lp_used_bytes h = 0
          then EVOKE_ERR_FORMAT
          else
            let payload_capacity = page_content_bytes - of_nat EVOKE_ACTIVE_L0_PAGE_HEADER_SIZE in
            if u64_of_u32 (lp_used_bytes h) > payload_capacity then EVOKE_ERR_FORMAT
            else EVOKE_OK)"

definition write_active_l0_page_fields :: "evoke_active_l0_page_header \<Rightarrow> bytes \<Rightarrow> bytes" where
  "write_active_l0_page_fields h bs =
     (let bs = memset_zero bs EVOKE_ACTIVE_L0_PAGE_HEADER_SIZE;
          bs = evoke_write_u32_le bs 0 EVOKE_ACTIVE_L0_PAGE_MAGIC;
          bs = evoke_write_u16_le bs 4 EVOKE_ACTIVE_L0_PAGE_VERSION;
          bs = evoke_write_u64_le bs 8 (lp_segment_id h);
          bs = evoke_write_u64_le bs 16 (lp_min_sequence h);
          bs = evoke_write_u64_le bs 24 (lp_max_sequence h);
          bs = evoke_write_u64_le bs 32 (lp_payload_checksum h);
          bs = evoke_write_u32_le bs 40 (lp_ordinal h);
          bs = evoke_write_u32_le bs 44 (lp_next_block h);
          bs = evoke_write_u32_le bs 48 (lp_frame_count h);
          bs = evoke_write_u32_le bs 52 (lp_used_bytes h)
      in bs)"

definition evoke_active_l0_page_header_serialize ::
  "evoke_active_l0_page_header option \<Rightarrow> u64 \<Rightarrow> bytes option \<Rightarrow> evoke_status \<times> bytes option" where
  "evoke_active_l0_page_header_serialize header page_content_bytes bytes_out =
     (case bytes_out of
        None \<Rightarrow> (EVOKE_ERR_INVALID, None)
      | Some buf \<Rightarrow>
          if length buf < EVOKE_ACTIVE_L0_PAGE_HEADER_SIZE then (EVOKE_ERR_INVALID, bytes_out)
          else
            (case header of
               None \<Rightarrow> (EVOKE_ERR_FORMAT, bytes_out)
             | Some h \<Rightarrow>
                 if evoke_active_l0_page_header_validate header page_content_bytes \<noteq> EVOKE_OK
                 then (EVOKE_ERR_FORMAT, bytes_out)
                 else
                   let bs = write_active_l0_page_fields h buf;
                       checksum = evoke_checksum_with_zero_range bs
                         EVOKE_ACTIVE_L0_PAGE_HEADER_SIZE EVOKE_ACTIVE_L0_PAGE_CHECKSUM_OFFSET 8
                   in (EVOKE_OK,
                       Some (evoke_write_u64_le bs EVOKE_ACTIVE_L0_PAGE_CHECKSUM_OFFSET checksum))))"

definition read_active_l0_page_fields :: "bytes \<Rightarrow> evoke_active_l0_page_header" where
  "read_active_l0_page_fields bs =
     \<lparr>lp_segment_id = evoke_read_u64_le bs 8,
      lp_min_sequence = evoke_read_u64_le bs 16,
      lp_max_sequence = evoke_read_u64_le bs 24,
      lp_payload_checksum = evoke_read_u64_le bs 32,
      lp_ordinal = evoke_read_u32_le bs 40,
      lp_next_block = evoke_read_u32_le bs 44,
      lp_frame_count = evoke_read_u32_le bs 48,
      lp_used_bytes = evoke_read_u32_le bs 52\<rparr>"

definition evoke_active_l0_page_header_deserialize ::
  "bytes option \<Rightarrow> u64 \<Rightarrow> evoke_active_l0_page_header option
     \<Rightarrow> evoke_status \<times> evoke_active_l0_page_header option" where
  "evoke_active_l0_page_header_deserialize bs page_content_bytes header_out =
     (case (bs, header_out) of
        (Some b, Some _) \<Rightarrow>
          if length b < EVOKE_ACTIVE_L0_PAGE_HEADER_SIZE \<or>
             evoke_read_u32_le b 0 \<noteq> EVOKE_ACTIVE_L0_PAGE_MAGIC \<or>
             evoke_read_u16_le b 4 \<noteq> EVOKE_ACTIVE_L0_PAGE_VERSION \<or>
             evoke_read_u16_le b 6 \<noteq> 0
          then (EVOKE_ERR_FORMAT, header_out)
          else
            let checksum = evoke_read_u64_le b EVOKE_ACTIVE_L0_PAGE_CHECKSUM_OFFSET in
            if checksum = 0 \<or>
               checksum \<noteq> evoke_checksum_with_zero_range b
                 EVOKE_ACTIVE_L0_PAGE_HEADER_SIZE EVOKE_ACTIVE_L0_PAGE_CHECKSUM_OFFSET 8
            then (EVOKE_ERR_FORMAT, header_out)
            else
              let header = read_active_l0_page_fields b in
              if evoke_active_l0_page_header_validate (Some header) page_content_bytes \<noteq> EVOKE_OK
              then (EVOKE_ERR_FORMAT, header_out)
              else (EVOKE_OK, Some header)
      | _ \<Rightarrow> (EVOKE_ERR_INVALID, header_out))"

definition evoke_active_l0_page_payload_validate ::
  "evoke_active_l0_page_header option \<Rightarrow> bytes option \<Rightarrow> nat \<Rightarrow> evoke_status" where
  "evoke_active_l0_page_payload_validate header payload payload_size =
     (case (header, payload) of
        (Some h, Some p) \<Rightarrow>
          if payload_size \<noteq> unat (lp_used_bytes h) then EVOKE_ERR_INVALID
          else if evoke_segment_blob_checksum payload payload_size \<noteq> lp_payload_checksum h
          then EVOKE_ERR_FORMAT
          else EVOKE_OK
      | _ \<Rightarrow> EVOKE_ERR_INVALID)"

section \<open>L0 record fragments\<close>

definition evoke_l0_frame_header_validate :: "evoke_l0_frame_header option \<Rightarrow> evoke_status" where
  "evoke_l0_frame_header_validate header =
     (case header of
        None \<Rightarrow> EVOKE_ERR_FORMAT
      | Some h \<Rightarrow>
          if fh_flags h AND NOT (EVOKE_L0_FRAME_FLAG_START OR EVOKE_L0_FRAME_FLAG_END) \<noteq> 0 \<or>
             fh_sequence h = 0 \<or> fh_record_checksum h = 0 \<or>
             fh_record_bytes h < EVOKE_L0_RECORD_HEADER_SIZE \<or> fh_fragment_bytes h = 0
          then EVOKE_ERR_FORMAT
          else
            let fragment_end = u64_of_u32 (fh_fragment_offset h) + u64_of_u32 (fh_fragment_bytes h) in
            if fragment_end > u64_of_u32 (fh_record_bytes h) then EVOKE_ERR_FORMAT
            else
              let is_start = (fh_flags h AND EVOKE_L0_FRAME_FLAG_START \<noteq> 0);
                  is_end = (fh_flags h AND EVOKE_L0_FRAME_FLAG_END \<noteq> 0)
              in if is_start \<noteq> (fh_fragment_offset h = 0) \<or>
                    is_end \<noteq> (fragment_end = u64_of_u32 (fh_record_bytes h))
                 then EVOKE_ERR_FORMAT
                 else EVOKE_OK)"

definition evoke_l0_frame_header_serialize ::
  "evoke_l0_frame_header option \<Rightarrow> bytes option \<Rightarrow> evoke_status \<times> bytes option" where
  "evoke_l0_frame_header_serialize header bytes_out =
     (case bytes_out of
        None \<Rightarrow> (EVOKE_ERR_INVALID, None)
      | Some buf \<Rightarrow>
          if length buf < EVOKE_L0_FRAME_HEADER_SIZE then (EVOKE_ERR_INVALID, bytes_out)
          else
            (case header of
               None \<Rightarrow> (EVOKE_ERR_FORMAT, bytes_out)
             | Some h \<Rightarrow>
                 if evoke_l0_frame_header_validate header \<noteq> EVOKE_OK
                 then (EVOKE_ERR_FORMAT, bytes_out)
                 else
                   let bs = memset_zero buf EVOKE_L0_FRAME_HEADER_SIZE;
                       bs = evoke_write_u32_le bs 0 EVOKE_L0_FRAME_MAGIC;
                       bs = evoke_write_u16_le bs 4 EVOKE_L0_FRAME_VERSION;
                       bs = evoke_write_u16_le bs 6 (fh_flags h);
                       bs = evoke_write_u64_le bs 8 (fh_sequence h);
                       bs = evoke_write_u64_le bs 16 (fh_record_checksum h);
                       bs = evoke_write_u32_le bs 24 (fh_record_bytes h);
                       bs = evoke_write_u32_le bs 28 (fh_fragment_offset h);
                       bs = evoke_write_u32_le bs 32 (fh_fragment_bytes h)
                   in (EVOKE_OK, Some bs)))"

definition evoke_l0_frame_header_deserialize ::
  "bytes option \<Rightarrow> evoke_l0_frame_header option \<Rightarrow> evoke_status \<times> evoke_l0_frame_header option" where
  "evoke_l0_frame_header_deserialize bs header_out =
     (case (bs, header_out) of
        (Some b, Some _) \<Rightarrow>
          if length b < EVOKE_L0_FRAME_HEADER_SIZE \<or>
             evoke_read_u32_le b 0 \<noteq> EVOKE_L0_FRAME_MAGIC \<or>
             evoke_read_u16_le b 4 \<noteq> EVOKE_L0_FRAME_VERSION \<or>
             evoke_read_u32_le b 36 \<noteq> 0
          then (EVOKE_ERR_FORMAT, header_out)
          else
            let header =
                  \<lparr>fh_flags = evoke_read_u16_le b 6,
                   fh_sequence = evoke_read_u64_le b 8,
                   fh_record_checksum = evoke_read_u64_le b 16,
                   fh_record_bytes = evoke_read_u32_le b 24,
                   fh_fragment_offset = evoke_read_u32_le b 28,
                   fh_fragment_bytes = evoke_read_u32_le b 32\<rparr>
            in if evoke_l0_frame_header_validate (Some header) \<noteq> EVOKE_OK
               then (EVOKE_ERR_FORMAT, header_out)
               else (EVOKE_OK, Some header)
      | _ \<Rightarrow> (EVOKE_ERR_INVALID, header_out))"

section \<open>Sealed buffers\<close>

definition sealed :: "nat \<Rightarrow> nat \<Rightarrow> bytes \<Rightarrow> bool" where
  "sealed n off bs \<longleftrightarrow>
     n \<le> length bs \<and> evoke_read_u64_le bs off = evoke_checksum_with_zero_range bs n off 8"

text \<open>The bytes the checksum is taken over.\<close>

definition zeroed :: "nat \<Rightarrow> nat \<Rightarrow> bytes \<Rightarrow> bytes" where
  "zeroed n off bs = take off bs @ replicate 8 0 @ take (n - off - 8) (drop (off + 8) bs)"

lemma checksum_zeroed:
  "evoke_checksum_with_zero_range bs n off 8 = evoke_checksum_update FNV_OFFSET_BASIS (zeroed n off bs)"
  by (simp add: evoke_checksum_with_zero_range_def zeroed_def evoke_checksum_update_append Let_def)

lemma length_zeroed: "off + 8 \<le> n \<Longrightarrow> n \<le> length bs \<Longrightarrow> length (zeroed n off bs) = n"
  by (simp add: zeroed_def)

lemma zeroed_update_field:
  "off \<le> i \<Longrightarrow> i < off + 8 \<Longrightarrow> zeroed n off (bs[i := x]) = zeroed n off bs"
  by (simp add: zeroed_def take_update_cancel drop_update_cancel)

lemma zeroed_update_other:
  assumes "off + 8 \<le> n" and "n \<le> length bs" and "i < n" and "i < off \<or> off + 8 \<le> i"
  shows "zeroed n off (bs[i := x]) = (zeroed n off bs)[i := x]" and "zeroed n off bs ! i = bs ! i"
proof -
  show "zeroed n off (bs[i := x]) = (zeroed n off bs)[i := x]"
  proof (cases "i < off")
    case True
    with assms show ?thesis
      by (simp add: zeroed_def take_update_swap list_update_append drop_update_cancel)
  next
    case False
    with assms(4) have "off + 8 \<le> i" "\<not> i - off < 8" by linarith+
    with assms show ?thesis
      by (simp add: zeroed_def take_update_swap list_update_append drop_update_swap take_update_cancel
          list_update_beyond)
  qed
  show "zeroed n off bs ! i = bs ! i" using assms by (auto simp: zeroed_def nth_append)
qed

lemma zeroed_write_field:
  "off + 8 \<le> n \<Longrightarrow> n \<le> length bs \<Longrightarrow> zeroed n off (evoke_write_u64_le bs off v) = zeroed n off bs"
  by (simp add: zeroed_def evoke_write_u64_le_def put_bytes_append)

lemma sealed_write_checksum:
  assumes "off + 8 \<le> n" and "n \<le> length bs"
  shows "sealed n off (evoke_write_u64_le bs off (evoke_checksum_with_zero_range bs n off 8))"
  using assms by (simp add: sealed_def checksum_zeroed zeroed_write_field)

text \<open>A little-endian read determines the bytes it was made from.\<close>

lemma bit_read_bytes:
  fixes src :: bytes
  shows "bit (foldl (\<lambda>value i. value OR push_bit (i * 8) (ucast (src ! (off + i)) :: u64)) 0 [0..<n]) m \<longleftrightarrow>
    (\<exists>i < n. i * 8 \<le> m \<and> m < 64 \<and> bit (src ! (off + i)) (m - i * 8))"
  by (induction n) (auto simp: bit_simps less_Suc_eq)

lemma read_u64_byte:
  assumes "k < 8"
  shows "ucast (drop_bit (k * 8) (evoke_read_u64_le src off)) = src ! (off + k)"
proof (rule bit_word_eqI)
  fix j assume "j < LENGTH(8)"
  then have j: "j < 8" by simp
  have "(\<exists>i < 8. i * 8 \<le> k * 8 + j \<and> k * 8 + j < 64 \<and> bit (src ! (off + i)) (k * 8 + j - i * 8)) \<longleftrightarrow>
      bit (src ! (off + k)) j" (is "?L \<longleftrightarrow> _")
  proof
    assume ?L
    then obtain i where i: "i < 8" "i * 8 \<le> k * 8 + j" "bit (src ! (off + i)) (k * 8 + j - i * 8)" by blast
    have "k * 8 + j - i * 8 < 8" using bit_imp_le_length [OF i(3)] by simp
    with i(2) j have "i = k" by linarith
    with i(3) show "bit (src ! (off + k)) j" by simp
  next
    assume "bit (src ! (off + k)) j"
    with assms j show ?L by (intro exI [of _ k]) simp
  qed
  then show "bit (ucast (drop_bit (k * 8) (evoke_read_u64_le src off)) :: u8) j \<longleftrightarrow> bit (src ! (off + k)) j"
    using j by (simp add: bit_simps evoke_read_u64_le_def bit_read_bytes)
qed

lemma read_u64_update:
  assumes "off \<le> i" and "i < off + 8" and "i < length bs" and "x \<noteq> bs ! i"
  shows "evoke_read_u64_le (bs[i := x]) off \<noteq> evoke_read_u64_le bs off"
proof
  assume "evoke_read_u64_le (bs[i := x]) off = evoke_read_u64_le bs off"
  then have "bs[i := x] ! (off + (i - off)) = bs ! (off + (i - off))"
    using assms(1,2) read_u64_byte [of "i - off"] by (metis less_diff_conv2 add.commute)
  with assms show False by simp
qed

lemma sealed_single_byte:
  assumes "off + 8 \<le> n" and "sealed n off bs" and "i < n" and "x \<noteq> bs ! i"
  shows "\<not> sealed n off (bs[i := x])"
proof (cases "off \<le> i \<and> i < off + 8")
  case True
  have "evoke_read_u64_le (bs[i := x]) off \<noteq> evoke_read_u64_le bs off"
    using True assms by (intro read_u64_update) (auto simp: sealed_def)
  with True assms(2) show ?thesis by (simp add: sealed_def checksum_zeroed zeroed_update_field)
next
  case False
  have n: "n \<le> length bs" using assms(2) by (simp add: sealed_def)
  note z = zeroed_update_other [OF assms(1) n assms(3)]
  have "evoke_checksum_update FNV_OFFSET_BASIS ((zeroed n off bs)[i := x]) \<noteq>
      evoke_checksum_update FNV_OFFSET_BASIS (zeroed n off bs)"
    using False assms n z(2) by (intro evoke_checksum_update_single) (auto simp: length_zeroed)
  moreover have "evoke_read_u64_le (bs[i := x]) off = evoke_read_u64_le bs off"
    using False by (intro read_le_cong) (auto simp: nth_list_update)
  ultimately show ?thesis
    using False assms(2) z(1) by (auto simp: sealed_def checksum_zeroed)
qed

text \<open>
  A decoder of sealed buffers, with the codec parameters fixed: \<open>accepts\<close> says that the buffer
  decodes. Decoders that honour the seal refuse every single-byte change of a buffer they
  accept.
\<close>

locale sealed_codec =
  fixes accepts :: "bytes \<Rightarrow> bool"
    and n :: nat
    and off :: nat
  assumes field_inside: "off + 8 \<le> n"
    and accepts_sealed: "accepts bs \<Longrightarrow> sealed n off bs"
begin

lemma refuses_single_byte:
  "accepts bs \<Longrightarrow> i < n \<Longrightarrow> x \<noteq> bs ! i \<Longrightarrow> \<not> accepts (bs[i := x])"
  using sealed_single_byte [OF field_inside accepts_sealed] accepts_sealed by blast

lemma accepts_length: "accepts bs \<Longrightarrow> n \<le> length bs"
  using accepts_sealed by (simp add: sealed_def)

end

section \<open>Round trips and corruption\<close>

lemma length_memset_zero [simp, codec]: "n \<le> length bs \<Longrightarrow> length (memset_zero bs n) = length bs"
  by (simp add: memset_zero_def)

lemma read_memset_zero [codec]:
  "off + 2 \<le> n \<Longrightarrow> evoke_read_u16_le (memset_zero bs n) off = 0"
  "off + 4 \<le> n \<Longrightarrow> evoke_read_u32_le (memset_zero bs n) off = 0"
  by (simp_all add: evoke_read_u16_le_def evoke_read_u32_le_def memset_zero_def nth_append)

lemma length_segment_page_fields [simp]:
  "64 \<le> length buf \<Longrightarrow> length (write_segment_page_fields h buf) = length buf"
  by (simp add: write_segment_page_fields_def codec_consts Let_def)

lemma length_active_l0_page_fields [simp]:
  "64 \<le> length buf \<Longrightarrow> length (write_active_l0_page_fields h buf) = length buf"
  by (simp add: write_active_l0_page_fields_def codec_consts Let_def)

lemma kind_u16:
  assumes "evoke_segment_object_kind_valid k"
  shows "ucast (ucast k :: u16) = k"
proof -
  have "unat k \<le> 16"
    using assms by (simp add: evoke_segment_object_kind_valid_def word_le_nat_alt
        EVOKE_SEGMENT_OBJECT_SEMANTIC_ACCELERATOR_FORWARD_BOUND_def)
  then have "take_bit 16 k = k" by (simp add: take_bit_eq_mod word_unat_eq_iff unat_mod)
  moreover have "ucast (ucast k :: u16) = take_bit 16 k"
    by (rule bit_word_eqI) (auto simp: bit_simps)
  ultimately show ?thesis by simp
qed

lemma read_segment_page_written:
  fixes h :: evoke_segment_page_header and c :: u64
  assumes "64 \<le> length buf"
  defines "bs \<equiv> evoke_write_u64_le (write_segment_page_fields h buf) 56 c"
  shows "evoke_read_u32_le bs 0 = EVOKE_SEGMENT_PAGE_MAGIC"
    and "evoke_read_u16_le bs 4 = EVOKE_SEGMENT_PAGE_VERSION"
    and "read_segment_page_fields bs = h\<lparr>ph_object_kind := ucast (ucast (ph_object_kind h) :: u16)\<rparr>"
  using assms(1)
  by (simp_all add: bs_def write_segment_page_fields_def read_segment_page_fields_def
      Let_def codec EVOKE_SEGMENT_PAGE_HEADER_SIZE_def)

lemma read_active_l0_page_written:
  fixes h :: evoke_active_l0_page_header and c :: u64
  assumes "64 \<le> length buf"
  defines "bs \<equiv> evoke_write_u64_le (write_active_l0_page_fields h buf) 56 c"
  shows "evoke_read_u32_le bs 0 = EVOKE_ACTIVE_L0_PAGE_MAGIC"
    and "evoke_read_u16_le bs 4 = EVOKE_ACTIVE_L0_PAGE_VERSION"
    and "evoke_read_u16_le bs 6 = 0"
    and "read_active_l0_page_fields bs = h"
  using assms(1)
  by (simp_all add: bs_def write_active_l0_page_fields_def read_active_l0_page_fields_def
      Let_def codec EVOKE_ACTIVE_L0_PAGE_HEADER_SIZE_def)


lemma segment_page_header_roundtrip_parts:
  assumes "evoke_segment_page_header_serialize (Some h) pc (Some buf) = (EVOKE_OK, Some bs)"
    and "evoke_read_u64_le bs EVOKE_SEGMENT_PAGE_CHECKSUM_OFFSET \<noteq> 0"
  shows "evoke_segment_page_header_deserialize (Some bs) pc (Some h0) = (EVOKE_OK, Some h)"
    and "drop EVOKE_SEGMENT_PAGE_HEADER_SIZE bs = drop EVOKE_SEGMENT_PAGE_HEADER_SIZE buf"
proof -
  let ?w = "write_segment_page_fields h buf"
  have ok: "64 \<le> length buf" "evoke_segment_page_header_validate (Some h) pc = EVOKE_OK"
    "bs = evoke_write_u64_le ?w 56 (evoke_checksum_with_zero_range ?w 64 56 8)"
    using assms(1)
    by (auto simp: evoke_segment_page_header_serialize_def codec_consts Let_def split: if_splits)
  note rd = read_segment_page_written [OF ok(1), of h "evoke_checksum_with_zero_range ?w 64 56 8",
      folded ok(3)]
  have "evoke_segment_object_kind_valid (ph_object_kind h)"
    using ok(2) by (simp add: evoke_segment_page_header_validate_def split: if_splits)
  then have rd3: "read_segment_page_fields bs = h" using rd(3) by (simp add: kind_u16)
  have "sealed 64 56 bs" unfolding ok(3) by (rule sealed_write_checksum) (use ok(1) in simp_all)
  then show "evoke_segment_page_header_deserialize (Some bs) pc (Some h0) = (EVOKE_OK, Some h)"
    using assms(2) ok(1,2) rd(1,2) rd3
    by (simp add: evoke_segment_page_header_deserialize_def sealed_def Let_def
        EVOKE_SEGMENT_PAGE_HEADER_SIZE_def EVOKE_SEGMENT_PAGE_CHECKSUM_OFFSET_def)
  show "drop EVOKE_SEGMENT_PAGE_HEADER_SIZE bs = drop EVOKE_SEGMENT_PAGE_HEADER_SIZE buf"
    using ok(1)
    by (intro nth_equalityI)
      (simp_all add: ok(3) write_segment_page_fields_def codec_consts Let_def memset_zero_def
        evoke_write_u16_le_def evoke_write_u32_le_def evoke_write_u64_le_def nth_put_bytes nth_append)
qed


text \<open>
  C6. An object page header that was serialized reads back as it was, and nothing past its 64
  bytes is written, provided the stored checksum is not zero, the one value the reader refuses.
\<close>

theorem segment_page_header_roundtrip:
  assumes "evoke_segment_page_header_serialize (Some h) pc (Some buf) = (EVOKE_OK, Some bs)"
    and "evoke_read_u64_le bs EVOKE_SEGMENT_PAGE_CHECKSUM_OFFSET \<noteq> 0"
  shows "evoke_segment_page_header_deserialize (Some bs) pc (Some h0) = (EVOKE_OK, Some h) \<and>
    drop EVOKE_SEGMENT_PAGE_HEADER_SIZE bs = drop EVOKE_SEGMENT_PAGE_HEADER_SIZE buf"
  using segment_page_header_roundtrip_parts [OF assms] by blast

definition sample_page_header :: evoke_segment_page_header where
  "sample_page_header =
     \<lparr>ph_object_kind = 1, ph_object_id = 4, ph_owner_manifest_id = 4, ph_object_bytes = 10,
      ph_object_checksum = 5, ph_ordinal = 0, ph_page_count = 1, ph_used_bytes = 10,
      ph_payload_checksum = 7\<rparr>"

lemma sample_page_header_valid:
  "evoke_segment_page_header_validate (Some sample_page_header) 128 = EVOKE_OK"
  by code_simp

lemma sample_page_header_checksum:
  "evoke_checksum_with_zero_range (write_segment_page_fields sample_page_header (replicate 64 0)) 64 56 8 \<noteq> 0"
  by code_simp

theorem segment_page_header_roundtrip_witness:
  "\<exists>bs. evoke_segment_page_header_serialize (Some sample_page_header) 128 (Some (replicate 64 0)) =
       (EVOKE_OK, Some bs) \<and>
     evoke_segment_page_header_deserialize (Some bs) 128 (Some sample_page_header) =
       (EVOKE_OK, Some sample_page_header)"
proof -
  let ?w = "write_segment_page_fields sample_page_header (replicate 64 0)"
  let ?bs = "evoke_write_u64_le ?w 56 (evoke_checksum_with_zero_range ?w 64 56 8)"
  have s: "evoke_segment_page_header_serialize (Some sample_page_header) 128 (Some (replicate 64 0)) =
      (EVOKE_OK, Some ?bs)"
    using sample_page_header_valid
    by (simp add: evoke_segment_page_header_serialize_def codec_consts Let_def)
  have "evoke_read_u64_le ?bs EVOKE_SEGMENT_PAGE_CHECKSUM_OFFSET \<noteq> 0"
    using sample_page_header_checksum by (simp add: EVOKE_SEGMENT_PAGE_CHECKSUM_OFFSET_def)
  from segment_page_header_roundtrip [OF s this] s show ?thesis by blast
qed

text \<open>
  An active L0 page header that was serialized reads back as it was, under the same
  condition on the stored checksum.
\<close>

lemma active_l0_page_header_roundtrip:
  assumes "evoke_active_l0_page_header_serialize (Some h) pc (Some buf) = (EVOKE_OK, Some bs)"
    and "evoke_read_u64_le bs EVOKE_ACTIVE_L0_PAGE_CHECKSUM_OFFSET \<noteq> 0"
  shows "evoke_active_l0_page_header_deserialize (Some bs) pc (Some h0) = (EVOKE_OK, Some h)"
proof -
  let ?w = "write_active_l0_page_fields h buf"
  have ok: "64 \<le> length buf" "evoke_active_l0_page_header_validate (Some h) pc = EVOKE_OK"
    "bs = evoke_write_u64_le ?w 56 (evoke_checksum_with_zero_range ?w 64 56 8)"
    using assms(1)
    by (auto simp: evoke_active_l0_page_header_serialize_def codec_consts Let_def split: if_splits)
  note rd = read_active_l0_page_written [OF ok(1), of h "evoke_checksum_with_zero_range ?w 64 56 8",
      folded ok(3)]
  have "sealed 64 56 bs" unfolding ok(3) by (rule sealed_write_checksum) (use ok(1) in simp_all)
  then show ?thesis
    using assms(2) ok(1,2) rd
    by (simp add: evoke_active_l0_page_header_deserialize_def sealed_def Let_def
        EVOKE_ACTIVE_L0_PAGE_HEADER_SIZE_def EVOKE_ACTIVE_L0_PAGE_CHECKSUM_OFFSET_def)
qed

definition sample_l0_header :: evoke_active_l0_page_header where
  "sample_l0_header =
     \<lparr>lp_segment_id = 3, lp_min_sequence = 7, lp_max_sequence = 9, lp_payload_checksum = 11,
      lp_ordinal = 0, lp_next_block = 4294967295, lp_frame_count = 3, lp_used_bytes = 40\<rparr>"

lemma sample_l0_header_valid:
  "evoke_active_l0_page_header_validate (Some sample_l0_header) 128 = EVOKE_OK"
  by code_simp

lemma sample_l0_header_checksum:
  "evoke_checksum_with_zero_range (write_active_l0_page_fields sample_l0_header (replicate 64 0)) 64 56 8 \<noteq> 0"
  by code_simp

interpretation page_seal: sealed_codec
  "\<lambda>bs. fst (evoke_segment_page_header_deserialize (Some bs) pc (Some h0)) = EVOKE_OK" 64 56
  for pc h0
  by unfold_locales
    (auto simp: evoke_segment_page_header_deserialize_def sealed_def Let_def
        EVOKE_SEGMENT_PAGE_HEADER_SIZE_def EVOKE_SEGMENT_PAGE_CHECKSUM_OFFSET_def split: if_splits)

interpretation l0_page_seal: sealed_codec
  "\<lambda>bs. fst (evoke_active_l0_page_header_deserialize (Some bs) pc (Some h0)) = EVOKE_OK" 64 56
  for pc h0
  by unfold_locales
    (auto simp: evoke_active_l0_page_header_deserialize_def sealed_def Let_def
        EVOKE_ACTIVE_L0_PAGE_HEADER_SIZE_def EVOKE_ACTIVE_L0_PAGE_CHECKSUM_OFFSET_def split: if_splits)

lemma page_headers_detect_corruption_parts:
  assumes "i < 64" and "x \<noteq> bs ! i"
  shows "fst (evoke_segment_page_header_deserialize (Some bs) pc (Some h0)) = EVOKE_OK \<Longrightarrow>
      fst (evoke_segment_page_header_deserialize (Some (bs[i := x])) pc (Some h0)) \<noteq> EVOKE_OK"
    and "fst (evoke_active_l0_page_header_deserialize (Some bs) pc (Some l0)) = EVOKE_OK \<Longrightarrow>
      fst (evoke_active_l0_page_header_deserialize (Some (bs[i := x])) pc (Some l0)) \<noteq> EVOKE_OK"
  using assms by (blast dest: page_seal.refuses_single_byte l0_page_seal.refuses_single_byte)+

text \<open>
  C7. Change any one of the 64 bytes of an accepted page header, of an object page or of an
  active L0 page, and the reader refuses it.
\<close>

theorem page_headers_detect_corruption:
  assumes "i < 64" and "x \<noteq> bs ! i"
  shows "(fst (evoke_segment_page_header_deserialize (Some bs) pc (Some h0)) = EVOKE_OK \<longrightarrow>
      fst (evoke_segment_page_header_deserialize (Some (bs[i := x])) pc (Some h0)) \<noteq> EVOKE_OK) \<and>
    (fst (evoke_active_l0_page_header_deserialize (Some bs) pc (Some l0)) = EVOKE_OK \<longrightarrow>
      fst (evoke_active_l0_page_header_deserialize (Some (bs[i := x])) pc (Some l0)) \<noteq> EVOKE_OK)"
  using page_headers_detect_corruption_parts [OF assms] by blast

definition sample_page_bytes :: bytes where
  "sample_page_bytes =
     (let w = write_segment_page_fields sample_page_header (replicate 64 0)
      in evoke_write_u64_le w 56 (evoke_checksum_with_zero_range w 64 56 8))"

lemma sample_page_bytes_accepted:
  "fst (evoke_segment_page_header_deserialize (Some sample_page_bytes) 128 (Some sample_page_header)) = EVOKE_OK"
proof -
  let ?w = "write_segment_page_fields sample_page_header (replicate 64 0)"
  let ?c = "evoke_checksum_with_zero_range ?w 64 56 8"
  have "sealed 64 56 sample_page_bytes"
    unfolding sample_page_bytes_def Let_def by (rule sealed_write_checksum) simp_all
  moreover have "evoke_read_u64_le sample_page_bytes 56 \<noteq> 0"
    using sample_page_header_checksum by (simp add: sample_page_bytes_def Let_def)
  moreover note rd = read_segment_page_written [of "replicate 64 0" sample_page_header ?c]
  moreover have "sample_page_header\<lparr>ph_object_kind := ucast (ucast (ph_object_kind sample_page_header) :: u16)\<rparr> =
      sample_page_header"
    by (simp add: sample_page_header_def)
  ultimately show ?thesis
    using sample_page_header_valid
    by (simp add: sample_page_bytes_def evoke_segment_page_header_deserialize_def sealed_def Let_def
        EVOKE_SEGMENT_PAGE_HEADER_SIZE_def EVOKE_SEGMENT_PAGE_CHECKSUM_OFFSET_def)
qed

theorem page_headers_detect_corruption_witness:
  "fst (evoke_segment_page_header_deserialize (Some (sample_page_bytes[9 := sample_page_bytes ! 9 + 1])) 128
      (Some sample_page_header)) \<noteq> EVOKE_OK"
  using page_headers_detect_corruption [of 9 "sample_page_bytes ! 9 + 1" sample_page_bytes 128 sample_page_header]
    sample_page_bytes_accepted by simp

text \<open>
  A change of any byte of an active L0 page's payload is caught: the payload that the
  header's checksum was taken from is the only one, among those that differ in one byte, that
  validates.
\<close>

lemma l0_payload_detects_corruption:
  assumes "evoke_active_l0_page_payload_validate (Some h) (Some payload) (length payload) = EVOKE_OK"
    and "i < length payload" and "x \<noteq> payload ! i"
  shows "evoke_active_l0_page_payload_validate (Some h) (Some (payload[i := x])) (length payload) =
    EVOKE_ERR_FORMAT"
  using assms evoke_checksum_update_single [of i payload x FNV_OFFSET_BASIS]
  by (auto simp: evoke_active_l0_page_payload_validate_def evoke_segment_blob_checksum_def split: if_splits)

section \<open>Splitting an object into pages\<close>

lemma ceil_div:
  fixes b c :: nat
  assumes "0 < c"
  shows "(b + c - 1) div c = (if b mod c = 0 then b div c else b div c + 1)"
proof -
  have "b + c - 1 = b div c * c + (b mod c + c - 1)"
    using assms div_mult_mod_eq [of b c] by linarith
  moreover have "(b div c * c + y) div c = b div c + y div c" for y using assms by simp
  ultimately have "(b + c - 1) div c = b div c + (b mod c + c - 1) div c" by (simp only:)
  moreover have "(b mod c + c - 1) div c = 1" if "b mod c \<noteq> 0"
  proof -
    have "b mod c + c - 1 = (b mod c - 1) + 1 * c" using that assms by linarith
    moreover have "b mod c - 1 < c" using assms by (simp add: less_imp_diff_less)
    ultimately show ?thesis using assms by (metis div_mult_self3 div_less add_0_right add.commute less_not_refl)
  qed
  moreover have "(b mod c + c - 1) div c = 0" if "b mod c = 0" using that assms by simp
  ultimately show ?thesis by simp
qed

lemma le_ceil_mult:
  fixes b c :: nat
  assumes "0 < c"
  shows "b \<le> (b + c - 1) div c * c"
proof -
  have "b \<le> b div c * c + c" and "b mod c = 0 \<Longrightarrow> b \<le> b div c * c"
    using div_mult_mod_eq [of b c] mod_less_divisor [OF assms, of b] by linarith+
  then have "b \<le> (if b mod c = 0 then b div c else b div c + 1) * c"
    by (simp add: add.commute)
  then show ?thesis unfolding ceil_div [OF assms] .
qed

lemma page_count_required_ok:
  assumes "evoke_segment_page_count_required ob pc (Some x) = (EVOKE_OK, Some n)"
  defines "cap \<equiv> unat pc - 64"
  shows "0 < cap" and "0 < unat ob" and "unat pc = cap + 64"
    and "unat n = (unat ob + cap - 1) div cap" and "unat (pc - 64) = cap"
proof -
  have pc: "unat pc > 64" and ob: "ob \<noteq> 0"
    using assms(1)
    by (auto simp: evoke_segment_page_count_required_def EVOKE_SEGMENT_PAGE_HEADER_SIZE_def
        word_le_nat_alt split: if_splits)
  show cap: "0 < cap" and "unat pc = cap + 64" using pc by (simp_all add: cap_def)
  show ob0: "0 < unat ob" using ob by (simp add: unat_gt_0)
  show sub: "unat (pc - 64) = cap"
    using pc by (simp add: cap_def unat_sub_word word_le_nat_alt)
  let ?q = "ob div (pc - 64)" and ?r = "ob mod (pc - 64)"
  have q: "unat ?q = unat ob div cap" and r: "unat ?r = unat ob mod cap"
    by (simp_all add: unat_div unat_mod sub)
  define w where "w = (if ?r \<noteq> 0 then ?q + 1 else ?q)"
  have w: "w \<le> u64_of_u32 UINT32_MAX" "n = ucast w"
    using assms(1)
    by (auto simp: evoke_segment_page_count_required_def EVOKE_SEGMENT_PAGE_HEADER_SIZE_def Let_def
        w_def not_less split: if_splits)
  have "unat w = (unat ob + cap - 1) div cap"
  proof (cases "unat ob mod cap = 0")
    case True
    then have "?r = 0" using r by (simp add: word_unat_eq_iff)
    with True show ?thesis unfolding ceil_div [OF cap] by (simp add: w_def q)
  next
    case False
    then have "?r \<noteq> 0" using r by (auto simp: word_unat_eq_iff)
    have "unat ob div cap * cap < unat ob" using False
      by (metis div_mult_mod_eq less_add_same_cancel1 neq0_conv)
    moreover have "unat ob div cap \<le> unat ob div cap * cap" using cap by simp
    ultimately have "unat ?q + 1 < 18446744073709551616" using u64_less [of ob] q by linarith
    with \<open>?r \<noteq> 0\<close> False show ?thesis unfolding ceil_div [OF cap] by (simp add: w_def unat_add_u64 q)
  qed
  moreover have "unat n = unat w"
    using w by (simp add: word_le_nat_alt unat_ucast_u64_u32)
  ultimately show "unat n = (unat ob + cap - 1) div cap" by simp
qed


text \<open>What validation says of the bytes used on page \<open>k\<close>, in unbounded arithmetic.\<close>

lemma page_header_used:
  assumes "evoke_segment_page_header_validate (Some h) pc = EVOKE_OK" and "unat pc < 4294967296"
  defines "cap \<equiv> unat pc - 64"
  shows "unat (ph_ordinal h) * cap < unat (ph_object_bytes h)"
    and "unat (ph_used_bytes h) = min cap (unat (ph_object_bytes h) - unat (ph_ordinal h) * cap)"
    and "evoke_segment_page_count_required (ph_object_bytes h) pc (Some 0) =
      (EVOKE_OK, Some (ph_page_count h))"
proof -
  let ?ob = "ph_object_bytes h" and ?k = "ph_ordinal h"
  let ?off = "u64_of_u32 ?k * (pc - 64)"
  have v: "evoke_segment_page_count_required ?ob pc (Some 0) = (EVOKE_OK, Some (ph_page_count h))"
    "?k < ph_page_count h" "?off < ?ob"
    "ph_used_bytes h = (if ?ob - ?off > pc - 64 then ucast (pc - 64) else ucast (?ob - ?off))"
    using assms(1)
    by (auto simp: evoke_segment_page_header_validate_def Let_def EVOKE_SEGMENT_PAGE_HEADER_SIZE_def
        not_le split: if_splits evoke_status.splits option.splits prod.splits)
  then show "evoke_segment_page_count_required ?ob pc (Some 0) = (EVOKE_OK, Some (ph_page_count h))" by simp
  note pcr = page_count_required_ok [OF v(1), folded cap_def]
  have "unat ?k + 1 \<le> (unat ?ob + cap - 1) div cap" using v(2) pcr(4) by (simp add: word_less_nat_alt)
  then have "(unat ?k + 1) * cap \<le> unat ?ob + cap - 1"
    using pcr(1) by (simp add: less_eq_div_iff_mult_less_eq)
  then show lt: "unat ?k * cap < unat ?ob" using pcr(1,2) by (simp add: algebra_simps)
  then have off: "unat ?off = unat ?k * cap"
    using u64_less [of ?ob] by (simp add: unat_word_ariths pcr(5) del: u64_less)
  then have rem: "unat (?ob - ?off) = unat ?ob - unat ?k * cap"
    using v(3) by (simp add: unat_sub_word)
  have "cap < 4294967296" using assms(2) by (simp add: cap_def)
  then show "unat (ph_used_bytes h) = min cap (unat ?ob - unat ?k * cap)"
    unfolding v(4) using rem pcr(5) by (auto simp: word_less_nat_alt unat_ucast_u64_u32 not_less)
qed

lemma sum_chunks:
  fixes b c :: nat
  assumes "0 < c" and "b \<le> n * c"
  shows "(\<Sum>k < n. min c (b - k * c)) = b"
  using assms
proof (induction n arbitrary: b)
  case (Suc n)
  show ?case
  proof (cases "b \<le> n * c")
    case True
    then show ?thesis using Suc.IH [OF Suc.prems(1) True] by simp
  next
    case False
    have "(\<Sum>k < n. min c (b - k * c)) = (\<Sum>k < n. c)"
    proof (rule sum.cong)
      fix k assume "k \<in> {..<n}"
      then have "(k + 1) * c \<le> n * c" by (intro mult_le_mono1) simp
      with False show "min c (b - k * c) = c" by (simp add: algebra_simps)
    qed simp
    with False Suc.prems show ?thesis by simp
  qed
qed simp

text \<open>What a validated header says apart from the division of the object into pages.\<close>

definition page_header_labelled :: "evoke_segment_page_header \<Rightarrow> bool" where
  "page_header_labelled h \<longleftrightarrow>
     evoke_segment_object_kind_valid (ph_object_kind h) \<and> ph_object_id h \<noteq> 0 \<and> ph_owner_manifest_id h \<noteq> 0 \<and>
     ph_object_checksum h \<noteq> 0 \<and> ph_payload_checksum h \<noteq> 0"

lemma page_header_validate_iff:
  assumes required: "evoke_segment_page_count_required ob pc (Some x) = (EVOKE_OK, Some n)"
    and pc: "unat pc < 4294967296" and ob: "ph_object_bytes h = ob"
  shows "evoke_segment_page_header_validate (Some h) pc = EVOKE_OK \<longleftrightarrow>
    page_header_labelled h \<and> ph_page_count h = n \<and> unat (ph_ordinal h) < unat n \<and>
    unat (ph_used_bytes h) = min (unat pc - 64) (unat ob - unat (ph_ordinal h) * (unat pc - 64))"
proof -
  let ?cap = "unat pc - 64" and ?k = "ph_ordinal h"
  note pcr = page_count_required_ok [OF required]
  have req: "evoke_segment_page_count_required ob pc (Some 0) = (EVOKE_OK, Some n)"
    using required by (auto simp: evoke_segment_page_count_required_def Let_def split: if_splits)
  show ?thesis
  proof (cases "ph_page_count h = n \<and> unat ?k < unat n")
    case False
    then show ?thesis
      using req ob by (auto simp: evoke_segment_page_header_validate_def Let_def word_le_nat_alt not_less)
  next
    case True
    have "(unat ?k + 1) * ?cap \<le> unat ob + ?cap - 1"
      using True pcr(1) unfolding pcr(4) less_eq_div_iff_mult_less_eq [OF pcr(1), symmetric] by linarith
    then have lt: "unat ?k * ?cap < unat ob" using pcr(1,2) by (simp add: algebra_simps)
    let ?off = "u64_of_u32 ?k * (pc - 64)"
    have off: "unat ?off = unat ?k * ?cap"
      using lt u64_less [of ob] by (simp add: unat_word_ariths pcr(5) del: u64_less)
    have rem: "unat (ob - ?off) = unat ob - unat ?k * ?cap"
      using lt off by (simp add: unat_sub_word word_le_nat_alt)
    have cap: "?cap < 4294967296" using pc by simp
    have used: "(if ob - ?off > pc - 64 then ucast (pc - 64) else ucast (ob - ?off) :: u32) = ph_used_bytes h \<longleftrightarrow>
        unat (ph_used_bytes h) = min ?cap (unat ob - unat ?k * ?cap)"
      using rem pcr(5) cap by (auto simp: word_less_nat_alt unat_ucast_u64_u32 not_less word_unat_eq_iff)
    have "\<not> ob \<le> ?off" using lt off by (simp add: word_le_nat_alt)
    moreover have "\<not> ph_page_count h \<le> ?k" using True by (simp add: word_le_nat_alt)
    moreover have "ob \<noteq> 0" using pcr(2) by auto
    moreover have "\<not> SIZE_MAX < ob" using u64_less [of ob] by (simp add: word_less_nat_alt SIZE_MAX_def not_less del: u64_less)
    ultimately show ?thesis
      using True req ob used
      by (auto simp: evoke_segment_page_header_validate_def page_header_labelled_def Let_def EVOKE_SEGMENT_PAGE_HEADER_SIZE_def)
  qed
qed

text \<open>
  C8. The pages of an object. The page count the code computes is the number of pages the object fills: one page less is too
  small for it. A header of that object validates exactly when it carries this page count, the ordinal of one of these
  pages and the bytes used on that page (and its labels are set), so every page has a header that validates, with one value for
  its used bytes. No page is empty, and the bytes used on the pages add up to the object.
\<close>

theorem object_pages_partition:
  assumes "evoke_segment_page_count_required ob pc (Some x) = (EVOKE_OK, Some n)"
    and "unat pc < 4294967296"
  shows "(unat n - 1) * (unat pc - 64) < unat ob \<and> unat ob \<le> unat n * (unat pc - 64) \<and> 0 < unat n \<and>
    (\<forall>h. ph_object_bytes h = ob \<longrightarrow>
      (evoke_segment_page_header_validate (Some h) pc = EVOKE_OK \<longleftrightarrow>
        page_header_labelled h \<and> ph_page_count h = n \<and> unat (ph_ordinal h) < unat n \<and>
        unat (ph_used_bytes h) = min (unat pc - 64) (unat ob - unat (ph_ordinal h) * (unat pc - 64)))) \<and>
    (\<forall>k < unat n. 0 < min (unat pc - 64) (unat ob - k * (unat pc - 64))) \<and>
    (\<Sum>k < unat n. min (unat pc - 64) (unat ob - k * (unat pc - 64))) = unat ob"
proof -
  let ?cap = "unat pc - 64"
  note pcr = page_count_required_ok [OF assms(1)]
  have n: "0 < unat n" using pcr(1,2) unfolding pcr(4) by (intro div_greater_zero_iff [THEN iffD2]) simp
  have "unat n * ?cap \<le> unat ob + ?cap - 1" unfolding pcr(4) by (rule div_times_less_eq_dividend)
  then have lower: "(unat n - 1) * ?cap < unat ob" using n pcr(1,2) by (cases "unat n") (simp_all add: algebra_simps)
  have upper: "unat ob \<le> unat n * ?cap" unfolding pcr(4) by (rule le_ceil_mult [OF pcr(1)])
  have "k * ?cap < unat ob" if "k < unat n" for k
  proof -
    have "k * ?cap \<le> (unat n - 1) * ?cap" using that by (intro mult_le_mono1) simp
    then show ?thesis using lower by linarith
  qed
  then have "\<forall>k < unat n. 0 < min ?cap (unat ob - k * ?cap)" using pcr(1) by simp
  then show ?thesis
    using n lower upper page_header_validate_iff [OF assms] sum_chunks [OF pcr(1) upper] by blast
qed

text \<open>An object of 100 bytes in pages with room for 64: two pages, the second with 36 bytes.\<close>

theorem object_pages_partition_witness:
  "evoke_segment_page_count_required 100 128 (Some 0) = (EVOKE_OK, Some 2) \<and>
   evoke_segment_page_header_validate (Some (sample_page_header\<lparr>ph_object_bytes := 100, ph_page_count := 2, ph_ordinal := 1,
      ph_used_bytes := 36\<rparr>)) 128 = EVOKE_OK"
proof -
  have n: "evoke_segment_page_count_required 100 128 (Some 0) = (EVOKE_OK, Some 2)" by code_simp
  let ?h = "sample_page_header\<lparr>ph_object_bytes := 100, ph_page_count := 2, ph_ordinal := 1, ph_used_bytes := 36\<rparr>"
  have "page_header_labelled ?h" by code_simp
  moreover have "evoke_segment_page_header_validate (Some ?h) 128 = EVOKE_OK \<longleftrightarrow>
      page_header_labelled ?h \<and> ph_page_count ?h = 2 \<and> unat (ph_ordinal ?h) < unat (2 :: u32) \<and>
      unat (ph_used_bytes ?h) = min (unat (128 :: u64) - 64) (unat (100 :: u64) - unat (ph_ordinal ?h) * (unat (128 :: u64) - 64))"
    using object_pages_partition [OF n] by simp
  ultimately show ?thesis using n by (simp add: sample_page_header_def)
qed

section \<open>Fragments\<close>

text \<open>
  A fragment header that was serialized reads back as it was, for every header that the
  writer accepts.
\<close>

lemma l0_frame_header_roundtrip:
  assumes "evoke_l0_frame_header_serialize (Some h) (Some buf) = (EVOKE_OK, Some bs)"
  shows "evoke_l0_frame_header_deserialize (Some bs) (Some h0) = (EVOKE_OK, Some h)"
proof -
  have ok: "40 \<le> length buf" "evoke_l0_frame_header_validate (Some h) = EVOKE_OK"
    using assms
    by (auto simp: evoke_l0_frame_header_serialize_def codec_consts Let_def split: if_splits)
  with assms show ?thesis
    by (cases h)
      (auto simp: evoke_l0_frame_header_serialize_def evoke_l0_frame_header_deserialize_def codec
        Let_def EVOKE_L0_FRAME_HEADER_SIZE_def)
qed

end
