(* ===== verification/Read_Root.thy ===== *)
theory Read_Root
  imports Segment_Codec
begin

text \<open>
  The read root of a segment index (\<open>src/evoke_segments.c\<close>, \<open>src/evoke_segments.h\<close>) and the four
  operations that move it: a record is appended to the active L0 frontier
  (\<open>evoke_am_l0_advance_root\<close> of \<open>src/evoke_am_mutation.c\<close>), the active frontier is rotated to
  pending, the pending frontier is sealed under a new manifest, and a manifest is replaced.
  The operations return the status and the root after the call; the append raises a PostgreSQL
  error, modelled by \<open>None\<close>, after which the caller abandons the copy of the root it worked on.

  Besides the validation, its exact meaning and the round trip through the stored bytes, the
  theory has the reachable roots as an inductive relation and the invariants of every run.
\<close>

section \<open>Data\<close>

record evoke_segment_object_ref =
  ref_object_kind :: evoke_segment_object_kind
  ref_start_block :: u32
  ref_page_count :: u32
  ref_object_id :: u64
  ref_owner_manifest_id :: u64
  ref_object_bytes :: u64
  ref_object_checksum :: u64

record evoke_active_l0_frontier =
  fr_segment_id :: u64
  fr_min_sequence :: u64
  fr_max_sequence :: u64
  fr_payload_bytes :: u64
  fr_head_block :: u32
  fr_tail_block :: u32
  fr_page_count :: u32
  fr_record_count :: u32

record evoke_segment_read_root =
  root_id :: u64
  next_sequence :: u64
  next_document_slot :: u64
  next_segment_id :: u64
  published_block_high_watermark :: u32
  reusable_document_slot_cursor :: u32
  manifest :: evoke_segment_object_ref
  active_l0 :: evoke_active_l0_frontier
  pending_l0 :: evoke_active_l0_frontier

definition EVOKE_ACTIVE_L0_MAX_PAGES :: u32 where "EVOKE_ACTIVE_L0_MAX_PAGES = 1024"
definition EVOKE_ACTIVE_L0_MAX_RECORDS :: u32 where "EVOKE_ACTIVE_L0_MAX_RECORDS = 131072"
definition EVOKE_ACTIVE_L0_NO_NEXT_BLOCK :: u32 where "EVOKE_ACTIVE_L0_NO_NEXT_BLOCK = UINT32_MAX"
definition EVOKE_SEGMENT_READ_ROOT_SERIALIZED_SIZE :: nat where
  "EVOKE_SEGMENT_READ_ROOT_SERIALIZED_SIZE = 200"
definition EVOKE_SEGMENT_READ_ROOT_MAGIC :: u32 where "EVOKE_SEGMENT_READ_ROOT_MAGIC = 0x52524932"
definition EVOKE_SEGMENT_READ_ROOT_VERSION :: u16 where "EVOKE_SEGMENT_READ_ROOT_VERSION = 3"
definition EVOKE_SEGMENT_READ_ROOT_CHECKSUM_OFFSET :: nat where
  "EVOKE_SEGMENT_READ_ROOT_CHECKSUM_OFFSET = 192"

definition zero_frontier :: evoke_active_l0_frontier where
  "zero_frontier =
     \<lparr>fr_segment_id = 0, fr_min_sequence = 0, fr_max_sequence = 0, fr_payload_bytes = 0,
      fr_head_block = 0, fr_tail_block = 0, fr_page_count = 0, fr_record_count = 0\<rparr>"

section \<open>References and frontiers\<close>

definition evoke_segment_object_ref_equal ::
  "evoke_segment_object_ref option \<Rightarrow> evoke_segment_object_ref option \<Rightarrow> bool" where
  "evoke_segment_object_ref_equal left right =
     (case (left, right) of
        (Some l, Some r) \<Rightarrow>
          ref_object_kind l = ref_object_kind r \<and> ref_start_block l = ref_start_block r \<and>
          ref_page_count l = ref_page_count r \<and> ref_object_id l = ref_object_id r \<and>
          ref_owner_manifest_id l = ref_owner_manifest_id r \<and>
          ref_object_bytes l = ref_object_bytes r \<and>
          ref_object_checksum l = ref_object_checksum r
      | _ \<Rightarrow> False)"

definition evoke_active_l0_frontier_equal ::
  "evoke_active_l0_frontier option \<Rightarrow> evoke_active_l0_frontier option \<Rightarrow> bool" where
  "evoke_active_l0_frontier_equal left right =
     (case (left, right) of
        (Some l, Some r) \<Rightarrow>
          fr_segment_id l = fr_segment_id r \<and> fr_min_sequence l = fr_min_sequence r \<and>
          fr_max_sequence l = fr_max_sequence r \<and> fr_payload_bytes l = fr_payload_bytes r \<and>
          fr_head_block l = fr_head_block r \<and> fr_tail_block l = fr_tail_block r \<and>
          fr_page_count l = fr_page_count r \<and> fr_record_count l = fr_record_count r
      | _ \<Rightarrow> False)"

definition evoke_block_range_is_valid :: "u32 \<Rightarrow> u32 \<Rightarrow> bool" where
  "evoke_block_range_is_valid start blocks =
     (if blocks = 0 then start = 0
      else if start = 0 then False
      else start \<le> UINT32_MAX - blocks)"

definition evoke_block_ranges_overlap :: "u32 \<Rightarrow> u32 \<Rightarrow> u32 \<Rightarrow> u32 \<Rightarrow> bool" where
  "evoke_block_ranges_overlap left_start left_count right_start right_count =
     (if left_count = 0 \<or> right_count = 0 then False
      else
        let left_end = u64_of_u32 left_start + u64_of_u32 left_count;
            right_end = u64_of_u32 right_start + u64_of_u32 right_count
        in u64_of_u32 left_start < right_end \<and> u64_of_u32 right_start < left_end)"

definition evoke_segment_object_ref_is_absent :: "evoke_segment_object_ref option \<Rightarrow> bool" where
  "evoke_segment_object_ref_is_absent ref =
     (case ref of
        None \<Rightarrow> False
      | Some r \<Rightarrow>
          ref_object_kind r = EVOKE_SEGMENT_OBJECT_INVALID \<and> ref_start_block r = 0 \<and>
          ref_page_count r = 0 \<and> ref_object_id r = 0 \<and> ref_owner_manifest_id r = 0 \<and>
          ref_object_bytes r = 0 \<and> ref_object_checksum r = 0)"

definition evoke_segment_object_ref_validate ::
  "evoke_segment_object_ref option \<Rightarrow> u32 \<Rightarrow> evoke_status" where
  "evoke_segment_object_ref_validate ref high_watermark =
     (case ref of
        None \<Rightarrow> EVOKE_ERR_FORMAT
      | Some r \<Rightarrow>
          if \<not> evoke_segment_object_kind_valid (ref_object_kind r) \<or>
             ref_start_block r = 0 \<or> ref_start_block r = UINT32_MAX \<or> ref_page_count r = 0 \<or>
             ref_object_id r = 0 \<or> ref_owner_manifest_id r = 0 \<or> ref_object_bytes r = 0 \<or>
             ref_object_bytes r > SIZE_MAX \<or> ref_object_checksum r = 0
          then EVOKE_ERR_FORMAT
          else
            let end_block = u64_of_u32 (ref_start_block r) + u64_of_u32 (ref_page_count r) in
            if high_watermark \<le> 1 \<or> end_block > u64_of_u32 high_watermark \<or>
               end_block > u64_of_u32 UINT32_MAX
            then EVOKE_ERR_FORMAT
            else if ref_object_kind r = EVOKE_SEGMENT_OBJECT_MANIFEST \<and>
                    ref_object_id r \<noteq> ref_owner_manifest_id r
            then EVOKE_ERR_FORMAT
            else EVOKE_OK)"

definition evoke_flag_matches_object_ref ::
  "u32 \<Rightarrow> u32 \<Rightarrow> evoke_segment_object_ref option \<Rightarrow> evoke_segment_object_kind \<Rightarrow> u64 \<Rightarrow> bool" where
  "evoke_flag_matches_object_ref flags flag ref expected_kind manifest_id =
     (let has_flag = (flags AND flag \<noteq> 0) in
      if \<not> has_flag then evoke_segment_object_ref_is_absent ref
      else
        (case ref of
           None \<Rightarrow> False
         | Some r \<Rightarrow>
             ref_object_kind r = expected_kind \<and> ref_object_id r = manifest_id \<and>
             ref_owner_manifest_id r = manifest_id \<and>
             evoke_segment_object_ref_validate ref UINT32_MAX = EVOKE_OK))"

definition evoke_flag_matches_inherited_object_ref ::
  "u32 \<Rightarrow> u32 \<Rightarrow> evoke_segment_object_ref option \<Rightarrow> evoke_segment_object_kind \<Rightarrow> u64 \<Rightarrow> bool" where
  "evoke_flag_matches_inherited_object_ref flags flag ref expected_kind manifest_id =
     (let has_flag = (flags AND flag \<noteq> 0) in
      if \<not> has_flag then evoke_segment_object_ref_is_absent ref
      else
        (case ref of
           None \<Rightarrow> False
         | Some r \<Rightarrow>
             ref_object_kind r = expected_kind \<and> ref_object_id r = ref_owner_manifest_id r \<and>
             ref_owner_manifest_id r \<le> manifest_id \<and>
             evoke_segment_object_ref_validate ref UINT32_MAX = EVOKE_OK))"

definition evoke_segment_object_refs_overlap ::
  "evoke_segment_object_ref \<Rightarrow> evoke_segment_object_ref \<Rightarrow> bool" where
  "evoke_segment_object_refs_overlap left right =
     (if evoke_segment_object_ref_is_absent (Some left) \<or>
         evoke_segment_object_ref_is_absent (Some right)
      then False
      else evoke_block_ranges_overlap (ref_start_block left) (ref_page_count left)
             (ref_start_block right) (ref_page_count right))"

definition evoke_active_l0_frontier_validate ::
  "evoke_active_l0_frontier option \<Rightarrow> bool \<Rightarrow> evoke_status" where
  "evoke_active_l0_frontier_validate frontier allow_absent =
     (case frontier of
        None \<Rightarrow> EVOKE_ERR_INVALID
      | Some f \<Rightarrow>
          if fr_segment_id f = 0 then
            if allow_absent \<and> fr_min_sequence f = 0 \<and> fr_max_sequence f = 0 \<and>
               fr_payload_bytes f = 0 \<and> fr_head_block f = 0 \<and> fr_tail_block f = 0 \<and>
               fr_page_count f = 0 \<and> fr_record_count f = 0
            then EVOKE_OK else EVOKE_ERR_FORMAT
          else if fr_record_count f = 0 then
            if fr_min_sequence f = 0 \<and> fr_max_sequence f = 0 \<and> fr_payload_bytes f = 0 \<and>
               fr_head_block f = 0 \<and> fr_tail_block f = 0 \<and> fr_page_count f = 0
            then EVOKE_OK else EVOKE_ERR_FORMAT
          else if fr_min_sequence f = 0 \<or> fr_min_sequence f > fr_max_sequence f \<or>
             fr_record_count f > EVOKE_ACTIVE_L0_MAX_RECORDS \<or>
             fr_max_sequence f - fr_min_sequence f \<noteq> u64_of_u32 (fr_record_count f) - 1 \<or>
             fr_payload_bytes f = 0 \<or> fr_head_block f = 0 \<or>
             fr_head_block f = EVOKE_ACTIVE_L0_NO_NEXT_BLOCK \<or> fr_tail_block f = 0 \<or>
             fr_tail_block f = EVOKE_ACTIVE_L0_NO_NEXT_BLOCK \<or> fr_page_count f = 0 \<or>
             fr_page_count f > EVOKE_ACTIVE_L0_MAX_PAGES
          then EVOKE_ERR_FORMAT
          else EVOKE_OK)"

section \<open>The root\<close>

definition evoke_segment_read_root_validate :: "evoke_segment_read_root option \<Rightarrow> evoke_status" where
  "evoke_segment_read_root_validate root =
     (case root of
        None \<Rightarrow> EVOKE_ERR_INVALID
      | Some r \<Rightarrow>
          if root_id r = 0 \<or> next_sequence r = 0 \<or>
             next_document_slot r > u64_of_u32 UINT32_MAX \<or>
             u64_of_u32 (reusable_document_slot_cursor r) > next_document_slot r \<or>
             next_segment_id r = 0 \<or> next_segment_id r \<le> root_id r \<or>
             ref_object_kind (manifest r) \<noteq> EVOKE_SEGMENT_OBJECT_MANIFEST \<or>
             ref_object_id (manifest r) \<noteq> root_id r
          then EVOKE_ERR_FORMAT
          else
            let status = evoke_segment_object_ref_validate (Some (manifest r))
                  (published_block_high_watermark r) in
            if status \<noteq> EVOKE_OK then status else
            let status = evoke_active_l0_frontier_validate (Some (active_l0 r)) False in
            if status \<noteq> EVOKE_OK then status else
            let status = evoke_active_l0_frontier_validate (Some (pending_l0 r)) True in
            if status \<noteq> EVOKE_OK then status else
            let pending_present = (fr_segment_id (pending_l0 r) \<noteq> 0);
                active_nonempty = (fr_record_count (active_l0 r) \<noteq> 0)
            in
              if (pending_present \<and> fr_record_count (pending_l0 r) = 0) \<or>
                 (pending_present \<and> fr_segment_id (pending_l0 r) = fr_segment_id (active_l0 r)) \<or>
                 fr_segment_id (active_l0 r) \<ge> next_segment_id r \<or>
                 (pending_present \<and> fr_segment_id (pending_l0 r) \<ge> next_segment_id r)
              then EVOKE_ERR_FORMAT
              else if pending_present \<and>
                   (fr_head_block (pending_l0 r) \<ge> published_block_high_watermark r \<or>
                    fr_tail_block (pending_l0 r) \<ge> published_block_high_watermark r)
              then EVOKE_ERR_FORMAT
              else if active_nonempty \<and>
                   (fr_head_block (active_l0 r) \<ge> published_block_high_watermark r \<or>
                    fr_tail_block (active_l0 r) \<ge> published_block_high_watermark r \<or>
                    (pending_present \<and>
                     fr_max_sequence (pending_l0 r) \<ge> fr_min_sequence (active_l0 r)))
              then EVOKE_ERR_FORMAT
              else
                let maximum_sequence =
                      (if active_nonempty then fr_max_sequence (active_l0 r)
                       else if pending_present then fr_max_sequence (pending_l0 r)
                       else 0)
                in if next_sequence r \<le> maximum_sequence then EVOKE_ERR_FORMAT else EVOKE_OK)"

definition evoke_segment_read_root_rotate_l0 ::
  "evoke_segment_read_root option \<Rightarrow> evoke_status \<times> evoke_segment_read_root option" where
  "evoke_segment_read_root_rotate_l0 root =
     (case root of
        None \<Rightarrow> (EVOKE_ERR_INVALID, None)
      | Some r \<Rightarrow>
          let status = evoke_segment_read_root_validate root in
          if status \<noteq> EVOKE_OK then (status, root)
          else if fr_record_count (active_l0 r) = 0 \<or> fr_segment_id (pending_l0 r) \<noteq> 0 \<or>
                  next_segment_id r = UINT64_MAX
          then (EVOKE_ERR_FORMAT, root)
          else
            let next = r\<lparr>pending_l0 := active_l0 r,
                         active_l0 := zero_frontier\<lparr>fr_segment_id := next_segment_id r\<rparr>,
                         next_segment_id := next_segment_id r + 1\<rparr>;
                status = evoke_segment_read_root_validate (Some next)
            in if status \<noteq> EVOKE_OK then (status, root) else (EVOKE_OK, Some next))"

definition evoke_segment_read_root_seal_pending ::
  "evoke_segment_read_root option \<Rightarrow> evoke_segment_object_ref option \<Rightarrow> u32
     \<Rightarrow> evoke_status \<times> evoke_segment_read_root option" where
  "evoke_segment_read_root_seal_pending root manifest_ref high_watermark =
     (case (root, manifest_ref) of
        (Some r, Some m) \<Rightarrow>
          let status = evoke_segment_read_root_validate root in
          if status \<noteq> EVOKE_OK then (status, root)
          else if fr_segment_id (pending_l0 r) = 0 \<or> next_segment_id r = UINT64_MAX \<or>
                  ref_object_kind m \<noteq> EVOKE_SEGMENT_OBJECT_MANIFEST \<or>
                  ref_object_id m \<noteq> next_segment_id r \<or>
                  ref_owner_manifest_id m \<noteq> next_segment_id r \<or>
                  high_watermark < published_block_high_watermark r
          then (EVOKE_ERR_FORMAT, root)
          else
            let status = evoke_segment_object_ref_validate manifest_ref high_watermark in
            if status \<noteq> EVOKE_OK then (status, root)
            else
              let next = r\<lparr>root_id := ref_object_id m, manifest := m, pending_l0 := zero_frontier\<rparr>;
                  next = (if fr_record_count (active_l0 next) = 0
                          then next\<lparr>reusable_document_slot_cursor := 0\<rparr> else next);
                  next = next\<lparr>next_segment_id := next_segment_id next + 1,
                              published_block_high_watermark := high_watermark\<rparr>;
                  status = evoke_segment_read_root_validate (Some next)
              in if status \<noteq> EVOKE_OK then (status, root) else (EVOKE_OK, Some next)
      | _ \<Rightarrow> (EVOKE_ERR_INVALID, root))"

definition evoke_segment_read_root_replace_manifest ::
  "evoke_segment_read_root option \<Rightarrow> evoke_segment_object_ref option \<Rightarrow> u32
     \<Rightarrow> evoke_status \<times> evoke_segment_read_root option" where
  "evoke_segment_read_root_replace_manifest root manifest_ref high_watermark =
     (case (root, manifest_ref) of
        (Some r, Some m) \<Rightarrow>
          let status = evoke_segment_read_root_validate root in
          if status \<noteq> EVOKE_OK then (status, root)
          else if next_segment_id r = UINT64_MAX \<or>
                  ref_object_kind m \<noteq> EVOKE_SEGMENT_OBJECT_MANIFEST \<or>
                  ref_object_id m \<noteq> next_segment_id r \<or>
                  ref_owner_manifest_id m \<noteq> next_segment_id r \<or>
                  high_watermark < published_block_high_watermark r
          then (EVOKE_ERR_FORMAT, root)
          else
            let status = evoke_segment_object_ref_validate manifest_ref high_watermark in
            if status \<noteq> EVOKE_OK then (status, root)
            else
              let next = r\<lparr>root_id := ref_object_id m, manifest := m\<rparr>;
                  next = (if fr_record_count (active_l0 next) = 0 \<and> fr_record_count (pending_l0 next) = 0
                          then next\<lparr>reusable_document_slot_cursor := 0\<rparr> else next);
                  next = next\<lparr>next_segment_id := next_segment_id next + 1,
                              published_block_high_watermark := high_watermark\<rparr>;
                  status = evoke_segment_read_root_validate (Some next)
              in if status \<noteq> EVOKE_OK then (status, root) else (EVOKE_OK, Some next)
      | _ \<Rightarrow> (EVOKE_ERR_INVALID, root))"

section \<open>Appending a record\<close>

text \<open>The fields of a record and of the written chain that the append looks at.\<close>

type_synonym evoke_l0_record_kind = u32

definition EVOKE_L0_RECORD_UPSERT :: evoke_l0_record_kind where "EVOKE_L0_RECORD_UPSERT = 1"
definition EVOKE_L0_RECORD_RETIRE :: evoke_l0_record_kind where "EVOKE_L0_RECORD_RETIRE = 2"
definition EVOKE_L0_RECORD_SEMANTIC_COMPLETE :: evoke_l0_record_kind where
  "EVOKE_L0_RECORD_SEMANTIC_COMPLETE = 3"
definition EVOKE_L0_RECORD_SEMANTIC_QUARANTINE :: evoke_l0_record_kind where
  "EVOKE_L0_RECORD_SEMANTIC_QUARANTINE = 4"

record evoke_l0_record_key =
  rec_kind :: evoke_l0_record_kind
  rec_sequence :: u64
  rec_document_slot :: u64

record evoke_l0_chain_write_result =
  chain_head_block :: u32
  chain_tail_block :: u32
  chain_page_count :: u32

definition advance_frontier ::
  "evoke_active_l0_frontier \<Rightarrow> u64 \<Rightarrow> evoke_l0_chain_write_result option
     \<Rightarrow> evoke_active_l0_frontier option" where
  "advance_frontier f record_seq chain =
     (let was_empty = (fr_record_count f = 0) in
      case chain of
        Some c \<Rightarrow>
          if chain_page_count c = 0 \<or> chain_head_block c = 0 \<or> chain_tail_block c = 0 \<or>
             u64_of_u32 (fr_page_count f) + u64_of_u32 (chain_page_count c) >
               u64_of_u32 EVOKE_ACTIVE_L0_MAX_PAGES
          then None
          else
            let f = (if was_empty
                     then f\<lparr>fr_head_block := chain_head_block c, fr_min_sequence := record_seq\<rparr>
                     else f)
            in Some (f\<lparr>fr_tail_block := chain_tail_block c,
                       fr_page_count := fr_page_count f + chain_page_count c\<rparr>)
      | None \<Rightarrow> if was_empty then None else Some f)"

definition evoke_am_l0_advance_root ::
  "evoke_segment_read_root option \<Rightarrow> evoke_l0_record_key option \<Rightarrow> u64
     \<Rightarrow> evoke_l0_chain_write_result option \<Rightarrow> u32 \<Rightarrow> evoke_segment_read_root option" where
  "evoke_am_l0_advance_root root record record_size chain high_watermark =
     (case (root, record) of
        (Some r, Some k) \<Rightarrow>
          if (rec_kind k \<noteq> EVOKE_L0_RECORD_UPSERT \<and> rec_kind k \<noteq> EVOKE_L0_RECORD_RETIRE \<and>
              rec_kind k \<noteq> EVOKE_L0_RECORD_SEMANTIC_COMPLETE \<and>
              rec_kind k \<noteq> EVOKE_L0_RECORD_SEMANTIC_QUARANTINE) \<or>
             rec_sequence k \<noteq> next_sequence r \<or> next_sequence r = UINT64_MAX \<or>
             record_size = 0 \<or> high_watermark \<le> 1
          then None
          else
            let advances = (rec_kind k = EVOKE_L0_RECORD_UPSERT \<and>
                            rec_document_slot k = next_document_slot r)
            in
              if (rec_kind k = EVOKE_L0_RECORD_UPSERT \<and>
                  (rec_document_slot k > next_document_slot r \<or>
                   (advances \<and> next_document_slot r \<ge> u64_of_u32 UINT32_MAX))) \<or>
                 (rec_kind k \<noteq> EVOKE_L0_RECORD_UPSERT \<and>
                  rec_document_slot k \<ge> next_document_slot r)
              then None
              else if fr_record_count (active_l0 r) = UINT32_MAX \<or>
                      fr_payload_bytes (active_l0 r) > UINT64_MAX - record_size
              then None
              else
                (case advance_frontier (active_l0 r) (rec_sequence k) chain of
                   None \<Rightarrow> None
                 | Some f \<Rightarrow>
                     let f = f\<lparr>fr_max_sequence := rec_sequence k,
                               fr_record_count := fr_record_count f + 1,
                               fr_payload_bytes := fr_payload_bytes f + record_size\<rparr>;
                         r' = r\<lparr>active_l0 := f, next_sequence := next_sequence r + 1\<rparr>;
                         r' = (if advances
                               then r'\<lparr>next_document_slot := next_document_slot r' + 1\<rparr> else r');
                         r' = (if rec_kind k = EVOKE_L0_RECORD_UPSERT
                               then r'\<lparr>reusable_document_slot_cursor := ucast (rec_document_slot k + 1)\<rparr>
                               else r');
                         r' = r'\<lparr>published_block_high_watermark := high_watermark\<rparr>
                     in if evoke_segment_read_root_validate (Some r') \<noteq> EVOKE_OK then None else Some r')
      | _ \<Rightarrow> None)"

section \<open>Stored form\<close>

definition evoke_serialize_object_ref :: "bytes \<Rightarrow> nat \<Rightarrow> evoke_segment_object_ref \<Rightarrow> bytes" where
  "evoke_serialize_object_ref bs at r =
     (let bs = evoke_write_u32_le bs (at + 0) (ref_object_kind r);
          bs = evoke_write_u32_le bs (at + 8) (ref_start_block r);
          bs = evoke_write_u32_le bs (at + 12) (ref_page_count r);
          bs = evoke_write_u64_le bs (at + 16) (ref_object_id r);
          bs = evoke_write_u64_le bs (at + 24) (ref_owner_manifest_id r);
          bs = evoke_write_u64_le bs (at + 32) (ref_object_bytes r);
          bs = evoke_write_u64_le bs (at + 40) (ref_object_checksum r)
      in bs)"

definition evoke_deserialize_object_ref :: "bytes \<Rightarrow> nat \<Rightarrow> evoke_segment_object_ref" where
  "evoke_deserialize_object_ref bs at =
     \<lparr>ref_object_kind = evoke_read_u32_le bs (at + 0),
      ref_start_block = evoke_read_u32_le bs (at + 8),
      ref_page_count = evoke_read_u32_le bs (at + 12),
      ref_object_id = evoke_read_u64_le bs (at + 16),
      ref_owner_manifest_id = evoke_read_u64_le bs (at + 24),
      ref_object_bytes = evoke_read_u64_le bs (at + 32),
      ref_object_checksum = evoke_read_u64_le bs (at + 40)\<rparr>"

definition evoke_serialize_l0_frontier :: "bytes \<Rightarrow> nat \<Rightarrow> evoke_active_l0_frontier \<Rightarrow> bytes" where
  "evoke_serialize_l0_frontier bs at f =
     (let bs = evoke_write_u64_le bs (at + 0) (fr_segment_id f);
          bs = evoke_write_u64_le bs (at + 8) (fr_min_sequence f);
          bs = evoke_write_u64_le bs (at + 16) (fr_max_sequence f);
          bs = evoke_write_u64_le bs (at + 24) (fr_payload_bytes f);
          bs = evoke_write_u32_le bs (at + 32) (fr_head_block f);
          bs = evoke_write_u32_le bs (at + 36) (fr_tail_block f);
          bs = evoke_write_u32_le bs (at + 40) (fr_page_count f);
          bs = evoke_write_u32_le bs (at + 44) (fr_record_count f)
      in bs)"

definition evoke_deserialize_l0_frontier :: "bytes \<Rightarrow> nat \<Rightarrow> evoke_active_l0_frontier" where
  "evoke_deserialize_l0_frontier bs at =
     \<lparr>fr_segment_id = evoke_read_u64_le bs (at + 0),
      fr_min_sequence = evoke_read_u64_le bs (at + 8),
      fr_max_sequence = evoke_read_u64_le bs (at + 16),
      fr_payload_bytes = evoke_read_u64_le bs (at + 24),
      fr_head_block = evoke_read_u32_le bs (at + 32),
      fr_tail_block = evoke_read_u32_le bs (at + 36),
      fr_page_count = evoke_read_u32_le bs (at + 40),
      fr_record_count = evoke_read_u32_le bs (at + 44)\<rparr>"

definition write_root_fields :: "evoke_segment_read_root \<Rightarrow> bytes \<Rightarrow> bytes" where
  "write_root_fields r bs =
     (let bs = memset_zero bs EVOKE_SEGMENT_READ_ROOT_SERIALIZED_SIZE;
          bs = evoke_write_u32_le bs 0 EVOKE_SEGMENT_READ_ROOT_MAGIC;
          bs = evoke_write_u16_le bs 4 EVOKE_SEGMENT_READ_ROOT_VERSION;
          bs = evoke_write_u16_le bs 6 (of_nat EVOKE_SEGMENT_READ_ROOT_SERIALIZED_SIZE);
          bs = evoke_write_u64_le bs 8 (root_id r);
          bs = evoke_write_u64_le bs 16 (next_sequence r);
          bs = evoke_write_u32_le bs 24 (published_block_high_watermark r);
          bs = evoke_write_u32_le bs 28 (reusable_document_slot_cursor r);
          bs = evoke_serialize_object_ref bs 32 (manifest r);
          bs = evoke_serialize_l0_frontier bs 80 (active_l0 r);
          bs = evoke_serialize_l0_frontier bs 128 (pending_l0 r);
          bs = evoke_write_u64_le bs 176 (next_document_slot r);
          bs = evoke_write_u64_le bs 184 (next_segment_id r)
      in bs)"

definition evoke_segment_read_root_serialize ::
  "evoke_segment_read_root option \<Rightarrow> bytes option \<Rightarrow> evoke_status \<times> bytes option" where
  "evoke_segment_read_root_serialize root bytes_out =
     (let status = evoke_segment_read_root_validate root in
      case bytes_out of
        None \<Rightarrow> (EVOKE_ERR_INVALID, None)
      | Some buf \<Rightarrow>
          if length buf < EVOKE_SEGMENT_READ_ROOT_SERIALIZED_SIZE then (EVOKE_ERR_INVALID, bytes_out)
          else
            (case root of
               None \<Rightarrow> (status, bytes_out)
             | Some r \<Rightarrow>
                 if status \<noteq> EVOKE_OK then (status, bytes_out)
                 else
                   let bs = write_root_fields r buf
                   in (EVOKE_OK,
                       Some (evoke_write_u64_le bs EVOKE_SEGMENT_READ_ROOT_CHECKSUM_OFFSET
                         (evoke_checksum_with_zero_range bs EVOKE_SEGMENT_READ_ROOT_SERIALIZED_SIZE
                           EVOKE_SEGMENT_READ_ROOT_CHECKSUM_OFFSET 8)))))"

definition read_root_fields :: "bytes \<Rightarrow> evoke_segment_read_root" where
  "read_root_fields bs =
     \<lparr>root_id = evoke_read_u64_le bs 8,
      next_sequence = evoke_read_u64_le bs 16,
      next_document_slot = evoke_read_u64_le bs 176,
      next_segment_id = evoke_read_u64_le bs 184,
      published_block_high_watermark = evoke_read_u32_le bs 24,
      reusable_document_slot_cursor = evoke_read_u32_le bs 28,
      manifest = evoke_deserialize_object_ref bs 32,
      active_l0 = evoke_deserialize_l0_frontier bs 80,
      pending_l0 = evoke_deserialize_l0_frontier bs 128\<rparr>"

definition evoke_segment_read_root_deserialize ::
  "bytes option \<Rightarrow> evoke_segment_read_root option \<Rightarrow> evoke_status \<times> evoke_segment_read_root option" where
  "evoke_segment_read_root_deserialize bs root_out =
     (case (bs, root_out) of
        (Some b, Some _) \<Rightarrow>
          if length b \<noteq> EVOKE_SEGMENT_READ_ROOT_SERIALIZED_SIZE then (EVOKE_ERR_INVALID, root_out)
          else if evoke_read_u32_le b 0 \<noteq> EVOKE_SEGMENT_READ_ROOT_MAGIC \<or>
                  evoke_read_u16_le b 4 \<noteq> EVOKE_SEGMENT_READ_ROOT_VERSION \<or>
                  evoke_read_u16_le b 6 \<noteq> of_nat EVOKE_SEGMENT_READ_ROOT_SERIALIZED_SIZE
          then (EVOKE_ERR_FORMAT, root_out)
          else
            let expected_checksum = evoke_checksum_with_zero_range b (length b)
                  EVOKE_SEGMENT_READ_ROOT_CHECKSUM_OFFSET 8 in
            if evoke_read_u64_le b EVOKE_SEGMENT_READ_ROOT_CHECKSUM_OFFSET \<noteq> expected_checksum
            then (EVOKE_ERR_FORMAT, root_out)
            else
              let root = read_root_fields b;
                  status = evoke_segment_read_root_validate (Some root)
              in if status \<noteq> EVOKE_OK then (status, root_out) else (EVOKE_OK, Some root)
      | _ \<Rightarrow> (EVOKE_ERR_INVALID, root_out))"

section \<open>What validation means\<close>

lemma evoke_block_ranges_overlap_iff:
  "evoke_block_ranges_overlap s n s' n' \<longleftrightarrow>
     {unat s ..< unat s + unat n} \<inter> {unat s' ..< unat s' + unat n'} \<noteq> {}"
proof (cases "n = 0 \<or> n' = 0")
  case False
  then have "0 < unat n" "0 < unat n'" by (simp_all add: unat_gt_0)
  then have "unat s < unat s' + unat n' \<and> unat s' < unat s + unat n \<longleftrightarrow>
      max (unat s) (unat s') \<in> {unat s ..< unat s + unat n} \<inter> {unat s' ..< unat s' + unat n'}"
    by auto
  moreover have "x \<in> {unat s ..< unat s + unat n} \<inter> {unat s' ..< unat s' + unat n'} \<Longrightarrow>
      max (unat s) (unat s') \<in> {unat s ..< unat s + unat n} \<inter> {unat s' ..< unat s' + unat n'}" for x
    by auto
  ultimately show ?thesis
    using False by (auto simp: evoke_block_ranges_overlap_def word_less_nat_alt Let_def)
qed (auto simp: evoke_block_ranges_overlap_def)

text \<open>
  A frontier is absent, empty under a segment id, or live: it then holds one record per sequence
  number of an interval, within the limits on records and pages.
\<close>

definition frontier_empty :: "evoke_active_l0_frontier \<Rightarrow> bool" where
  "frontier_empty f \<longleftrightarrow> f = zero_frontier\<lparr>fr_segment_id := fr_segment_id f\<rparr>"

definition frontier_live :: "evoke_active_l0_frontier \<Rightarrow> bool" where
  "frontier_live f \<longleftrightarrow>
     fr_segment_id f \<noteq> 0 \<and> 0 < unat (fr_record_count f) \<and> unat (fr_record_count f) \<le> 131072 \<and>
     0 < unat (fr_min_sequence f) \<and>
     unat (fr_max_sequence f) + 1 = unat (fr_min_sequence f) + unat (fr_record_count f) \<and>
     fr_payload_bytes f \<noteq> 0 \<and> fr_head_block f \<notin> {0, UINT32_MAX} \<and> fr_tail_block f \<notin> {0, UINT32_MAX} \<and>
     0 < unat (fr_page_count f) \<and> unat (fr_page_count f) \<le> 1024"

lemma frontier_count_iff:
  assumes "fr_record_count f \<noteq> 0" and "fr_min_sequence f \<le> fr_max_sequence f"
  shows "fr_max_sequence f - fr_min_sequence f = u64_of_u32 (fr_record_count f) - 1 \<longleftrightarrow>
    unat (fr_max_sequence f) + 1 = unat (fr_min_sequence f) + unat (fr_record_count f)"
proof -
  have c: "0 < unat (fr_record_count f)" using assms(1) by (simp add: unat_gt_0)
  then have "unat (u64_of_u32 (fr_record_count f) - 1) = unat (fr_record_count f) - 1"
    by (subst unat_sub_word) (simp_all add: word_le_nat_alt)
  moreover have "unat (fr_max_sequence f - fr_min_sequence f) =
      unat (fr_max_sequence f) - unat (fr_min_sequence f)"
    using assms(2) by (rule unat_sub_word)
  ultimately show ?thesis
    using c assms(2) by (auto simp: word_unat_eq_iff word_le_nat_alt)
qed

lemma frontier_validate_iff:
  "evoke_active_l0_frontier_validate (Some f) allow_absent = EVOKE_OK \<longleftrightarrow>
     (frontier_empty f \<and> (allow_absent \<or> fr_segment_id f \<noteq> 0)) \<or> frontier_live f"
proof (cases "fr_segment_id f = 0 \<or> fr_record_count f = 0")
  case True
  then show ?thesis
    by (cases f) (auto simp: evoke_active_l0_frontier_validate_def frontier_empty_def frontier_live_def
        zero_frontier_def)
next
  case False
  have "\<not> frontier_empty f" using False by (cases f) (auto simp: frontier_empty_def zero_frontier_def)
  then have "(frontier_empty f \<and> (allow_absent \<or> fr_segment_id f \<noteq> 0)) \<or> frontier_live f \<longleftrightarrow> frontier_live f"
    by simp
  moreover have "evoke_active_l0_frontier_validate (Some f) allow_absent = EVOKE_OK \<longleftrightarrow> frontier_live f"
  proof (cases "fr_min_sequence f \<le> fr_max_sequence f")
    case True
    with False frontier_count_iff [of f] show ?thesis
      by (auto simp: evoke_active_l0_frontier_validate_def frontier_live_def EVOKE_ACTIVE_L0_MAX_RECORDS_def
          EVOKE_ACTIVE_L0_NO_NEXT_BLOCK_def EVOKE_ACTIVE_L0_MAX_PAGES_def not_less word_less_nat_alt
          word_le_nat_alt unat_gt_0)
  next
    case gt: False
    then have "\<not> frontier_live f" using False
      by (auto simp: frontier_live_def word_le_nat_alt)
    with gt False show ?thesis
      by (simp add: evoke_active_l0_frontier_validate_def not_le)
  qed
  ultimately show ?thesis by simp
qed

lemma frontier_validate_status:
  "evoke_active_l0_frontier_validate (Some f) allow_absent \<in> {EVOKE_OK, EVOKE_ERR_FORMAT}"
  by (simp add: evoke_active_l0_frontier_validate_def)

lemma ref_validate_status:
  "evoke_segment_object_ref_validate (Some m) hw \<in> {EVOKE_OK, EVOKE_ERR_FORMAT}"
  by (simp add: evoke_segment_object_ref_validate_def Let_def)

definition manifest_ok :: "u32 \<Rightarrow> evoke_segment_object_ref \<Rightarrow> bool" where
  "manifest_ok hw m \<longleftrightarrow>
     ref_object_kind m = EVOKE_SEGMENT_OBJECT_MANIFEST \<and>
     ref_object_id m \<noteq> 0 \<and> ref_owner_manifest_id m = ref_object_id m \<and>
     ref_object_bytes m \<noteq> 0 \<and> ref_object_checksum m \<noteq> 0 \<and>
     0 < unat (ref_start_block m) \<and> 0 < unat (ref_page_count m) \<and>
     unat (ref_start_block m) + unat (ref_page_count m) \<le> unat hw"

lemma manifest_validate_iff:
  assumes "ref_object_kind m = EVOKE_SEGMENT_OBJECT_MANIFEST"
  shows "evoke_segment_object_ref_validate (Some m) hw = EVOKE_OK \<longleftrightarrow> manifest_ok hw m"
proof -
  have "\<not> ref_object_bytes m > SIZE_MAX"
    using u64_less [of "ref_object_bytes m"] by (simp add: word_less_nat_alt del: u64_less)
  moreover have "evoke_segment_object_kind_valid (ref_object_kind m)"
    by (simp add: assms evoke_segment_object_kind_valid_def EVOKE_SEGMENT_OBJECT_MANIFEST_def
        EVOKE_SEGMENT_OBJECT_SEMANTIC_ACCELERATOR_FORWARD_BOUND_def)
  moreover have "unat hw \<le> 4294967295" by (rule u32_le_max)
  moreover have "ref_start_block m = 0 \<longleftrightarrow> unat (ref_start_block m) = 0"
      "ref_page_count m = 0 \<longleftrightarrow> unat (ref_page_count m) = 0"
      "ref_start_block m = UINT32_MAX \<longleftrightarrow> unat (ref_start_block m) = 4294967295"
    by (simp_all add: word_unat_eq_iff)
  ultimately show ?thesis
    using assms unfolding evoke_segment_object_ref_validate_def manifest_ok_def Let_def
      option.case word_less_nat_alt word_le_nat_alt
    by (auto simp del: unsigned_eq_0_iff)
qed


text \<open>
  The meaning of a valid root: the manifest is a page range below the high-water mark and gives
  the root its id, every id in use is below the next one to be assigned, the active frontier is
  empty or live, the pending one is absent or live, and the sequence numbers of pending come
  before those of active, which come before the next one.
\<close>

definition root_ok :: "evoke_segment_read_root \<Rightarrow> bool" where
  "root_ok r \<longleftrightarrow>
     root_id r < next_segment_id r \<and> 0 < next_sequence r \<and>
     unat (next_document_slot r) < 2 ^ 32 \<and>
     unat (reusable_document_slot_cursor r) \<le> unat (next_document_slot r) \<and>
     manifest_ok (published_block_high_watermark r) (manifest r) \<and>
     ref_object_id (manifest r) = root_id r \<and>
     fr_segment_id (active_l0 r) \<noteq> 0 \<and>
     (frontier_empty (active_l0 r) \<or> frontier_live (active_l0 r)) \<and>
     (pending_l0 r = zero_frontier \<or> frontier_live (pending_l0 r)) \<and>
     fr_segment_id (active_l0 r) < next_segment_id r \<and>
     (frontier_live (active_l0 r) \<longrightarrow>
        fr_head_block (active_l0 r) < published_block_high_watermark r \<and>
        fr_tail_block (active_l0 r) < published_block_high_watermark r \<and>
        fr_max_sequence (active_l0 r) < next_sequence r) \<and>
     (frontier_live (pending_l0 r) \<longrightarrow>
        fr_segment_id (pending_l0 r) < next_segment_id r \<and>
        fr_segment_id (pending_l0 r) \<noteq> fr_segment_id (active_l0 r) \<and>
        fr_head_block (pending_l0 r) < published_block_high_watermark r \<and>
        fr_tail_block (pending_l0 r) < published_block_high_watermark r \<and>
        fr_max_sequence (pending_l0 r) < next_sequence r \<and>
        (frontier_live (active_l0 r) \<longrightarrow>
           fr_max_sequence (pending_l0 r) < fr_min_sequence (active_l0 r)))"

lemma frontier_live_nonempty:
  "frontier_live f \<Longrightarrow> fr_record_count f \<noteq> 0 \<and> fr_segment_id f \<noteq> 0 \<and> \<not> frontier_empty f \<and>
     fr_min_sequence f \<le> fr_max_sequence f"
  by (cases f) (auto simp: frontier_live_def frontier_empty_def zero_frontier_def word_le_nat_alt)

lemma frontier_empty_count: "frontier_empty f \<Longrightarrow> fr_record_count f = 0"
  by (cases f) (simp add: frontier_empty_def zero_frontier_def)

lemma frontier_empty_absent: "frontier_empty f \<and> fr_segment_id f = 0 \<longleftrightarrow> f = zero_frontier"
  by (cases f) (auto simp: frontier_empty_def zero_frontier_def)

lemma zero_frontier_empty [simp]:
  "frontier_empty (zero_frontier\<lparr>fr_segment_id := s\<rparr>)" "frontier_empty zero_frontier"
  "\<not> frontier_live zero_frontier" "\<not> frontier_live (zero_frontier\<lparr>fr_segment_id := s\<rparr>)"
  "fr_segment_id zero_frontier = 0" "fr_record_count zero_frontier = 0"
  by (simp_all add: frontier_empty_def zero_frontier_def frontier_live_def)

lemma pending_shape:
  "(frontier_empty f \<and> (True \<or> fr_segment_id f \<noteq> 0)) \<or> frontier_live f \<Longrightarrow>
     \<not> (fr_segment_id f \<noteq> 0 \<and> fr_record_count f = 0) \<longleftrightarrow> f = zero_frontier \<or> frontier_live f"
  using frontier_empty_absent [of f] frontier_empty_count [of f] frontier_live_nonempty [of f] by auto

lemma status_guard:
  "(if c then EVOKE_ERR_FORMAT else e) = EVOKE_OK \<longleftrightarrow> \<not> c \<and> e = EVOKE_OK"
  "(if s \<noteq> EVOKE_OK then s else e) = EVOKE_OK \<longleftrightarrow> s = EVOKE_OK \<and> e = EVOKE_OK"
  by simp_all

lemma read_root_validate_unfold:
  "evoke_segment_read_root_validate (Some r) = EVOKE_OK \<longleftrightarrow>
     \<not> (root_id r = 0 \<or> next_sequence r = 0 \<or> next_document_slot r > u64_of_u32 UINT32_MAX \<or>
        u64_of_u32 (reusable_document_slot_cursor r) > next_document_slot r \<or>
        next_segment_id r = 0 \<or> next_segment_id r \<le> root_id r \<or>
        ref_object_kind (manifest r) \<noteq> EVOKE_SEGMENT_OBJECT_MANIFEST \<or>
        ref_object_id (manifest r) \<noteq> root_id r) \<and>
     evoke_segment_object_ref_validate (Some (manifest r)) (published_block_high_watermark r) = EVOKE_OK \<and>
     evoke_active_l0_frontier_validate (Some (active_l0 r)) False = EVOKE_OK \<and>
     evoke_active_l0_frontier_validate (Some (pending_l0 r)) True = EVOKE_OK \<and>
     \<not> ((fr_segment_id (pending_l0 r) \<noteq> 0 \<and> fr_record_count (pending_l0 r) = 0) \<or>
        (fr_segment_id (pending_l0 r) \<noteq> 0 \<and> fr_segment_id (pending_l0 r) = fr_segment_id (active_l0 r)) \<or>
        fr_segment_id (active_l0 r) \<ge> next_segment_id r \<or>
        (fr_segment_id (pending_l0 r) \<noteq> 0 \<and> fr_segment_id (pending_l0 r) \<ge> next_segment_id r)) \<and>
     \<not> (fr_segment_id (pending_l0 r) \<noteq> 0 \<and>
        (fr_head_block (pending_l0 r) \<ge> published_block_high_watermark r \<or>
         fr_tail_block (pending_l0 r) \<ge> published_block_high_watermark r)) \<and>
     \<not> (fr_record_count (active_l0 r) \<noteq> 0 \<and>
        (fr_head_block (active_l0 r) \<ge> published_block_high_watermark r \<or>
         fr_tail_block (active_l0 r) \<ge> published_block_high_watermark r \<or>
         (fr_segment_id (pending_l0 r) \<noteq> 0 \<and>
          fr_max_sequence (pending_l0 r) \<ge> fr_min_sequence (active_l0 r)))) \<and>
     \<not> next_sequence r \<le>
       (if fr_record_count (active_l0 r) \<noteq> 0 then fr_max_sequence (active_l0 r)
        else if fr_segment_id (pending_l0 r) \<noteq> 0 then fr_max_sequence (pending_l0 r) else 0)"
  unfolding evoke_segment_read_root_validate_def Let_def option.case status_guard by (simp only: simp_thms)

lemma status_guard_in:
  "e \<in> {EVOKE_OK, EVOKE_ERR_FORMAT} \<Longrightarrow>
     (if c then EVOKE_ERR_FORMAT else e) \<in> {EVOKE_OK, EVOKE_ERR_FORMAT}"
  "s \<in> {EVOKE_OK, EVOKE_ERR_FORMAT} \<Longrightarrow> e \<in> {EVOKE_OK, EVOKE_ERR_FORMAT} \<Longrightarrow>
     (if s \<noteq> EVOKE_OK then s else e) \<in> {EVOKE_OK, EVOKE_ERR_FORMAT}"
  by auto

lemma read_root_validate_status:
  "evoke_segment_read_root_validate (Some r) \<in> {EVOKE_OK, EVOKE_ERR_FORMAT}"
  unfolding evoke_segment_read_root_validate_def Let_def option.case
  by (intro status_guard_in ref_validate_status frontier_validate_status) simp

lemma root_header_iff:
  "\<not> (root_id r = 0 \<or> next_sequence r = 0 \<or> next_document_slot r > u64_of_u32 UINT32_MAX \<or>
      u64_of_u32 (reusable_document_slot_cursor r) > next_document_slot r \<or>
      next_segment_id r = 0 \<or> next_segment_id r \<le> root_id r \<or>
      ref_object_kind (manifest r) \<noteq> EVOKE_SEGMENT_OBJECT_MANIFEST \<or>
      ref_object_id (manifest r) \<noteq> root_id r) \<and>
    evoke_segment_object_ref_validate (Some (manifest r)) (published_block_high_watermark r) = EVOKE_OK \<longleftrightarrow>
    root_id r < next_segment_id r \<and> 0 < next_sequence r \<and> unat (next_document_slot r) < 2 ^ 32 \<and>
    unat (reusable_document_slot_cursor r) \<le> unat (next_document_slot r) \<and>
    manifest_ok (published_block_high_watermark r) (manifest r) \<and> ref_object_id (manifest r) = root_id r"
  (is "?L \<longleftrightarrow> ?R")
proof -
  have m: "manifest_ok hw (manifest r) \<Longrightarrow> ref_object_kind (manifest r) = EVOKE_SEGMENT_OBJECT_MANIFEST \<and>
      ref_object_id (manifest r) \<noteq> 0" for hw
    by (simp add: manifest_ok_def)
  have "0 < next_sequence r \<longleftrightarrow> next_sequence r \<noteq> 0" by (simp add: word_neq_0_conv)
  moreover have "root_id r < next_segment_id r \<Longrightarrow> next_segment_id r \<noteq> 0"
    by (auto simp: word_less_nat_alt)
  moreover have "next_document_slot r > u64_of_u32 UINT32_MAX \<longleftrightarrow> \<not> unat (next_document_slot r) < 2 ^ 32"
    by (auto simp: word_less_nat_alt)
  moreover have "u64_of_u32 (reusable_document_slot_cursor r) > next_document_slot r \<longleftrightarrow>
      \<not> unat (reusable_document_slot_cursor r) \<le> unat (next_document_slot r)"
    by (auto simp: word_less_nat_alt)
  ultimately show ?thesis
    using m manifest_validate_iff [of "manifest r"] not_le by metis
qed


lemma read_root_validate_ok: "evoke_segment_read_root_validate (Some r) = EVOKE_OK \<longleftrightarrow> root_ok r"
proof -
  let ?a = "active_l0 r" and ?p = "pending_l0 r" and ?hw = "published_block_high_watermark r"
  let ?hdr = "root_id r < next_segment_id r \<and> 0 < next_sequence r \<and> unat (next_document_slot r) < 2 ^ 32 \<and>
    unat (reusable_document_slot_cursor r) \<le> unat (next_document_slot r) \<and>
    manifest_ok ?hw (manifest r) \<and> ref_object_id (manifest r) = root_id r"
  have av: "evoke_active_l0_frontier_validate (Some ?a) False = EVOKE_OK \<longleftrightarrow>
      fr_segment_id ?a \<noteq> 0 \<and> (frontier_empty ?a \<or> frontier_live ?a)"
    using frontier_live_nonempty [of ?a] by (auto simp: frontier_validate_iff)
  have pv: "evoke_active_l0_frontier_validate (Some ?p) True = EVOKE_OK \<and>
      \<not> (fr_segment_id ?p \<noteq> 0 \<and> fr_record_count ?p = 0) \<longleftrightarrow> ?p = zero_frontier \<or> frontier_live ?p"
    using pending_shape [of ?p] by (auto simp: frontier_validate_iff)
  have an: "frontier_empty ?a \<or> frontier_live ?a \<Longrightarrow> fr_record_count ?a \<noteq> 0 \<longleftrightarrow> frontier_live ?a"
    using frontier_live_nonempty [of ?a] frontier_empty_count [of ?a] by auto
  have pn: "?p = zero_frontier \<or> frontier_live ?p \<Longrightarrow> fr_segment_id ?p \<noteq> 0 \<longleftrightarrow> frontier_live ?p"
    using frontier_live_nonempty [of ?p] by auto
  have am: "frontier_live ?a \<Longrightarrow> fr_min_sequence ?a \<le> fr_max_sequence ?a"
    using frontier_live_nonempty by blast
  have "evoke_segment_read_root_validate (Some r) = EVOKE_OK \<longleftrightarrow>
    ?hdr \<and> (fr_segment_id ?a \<noteq> 0 \<and> (frontier_empty ?a \<or> frontier_live ?a)) \<and>
    (?p = zero_frontier \<or> frontier_live ?p) \<and>
    fr_segment_id ?a < next_segment_id r \<and>
    (fr_segment_id ?p \<noteq> 0 \<longrightarrow> fr_segment_id ?p \<noteq> fr_segment_id ?a \<and> fr_segment_id ?p < next_segment_id r \<and>
       fr_head_block ?p < ?hw \<and> fr_tail_block ?p < ?hw) \<and>
    (fr_record_count ?a \<noteq> 0 \<longrightarrow> fr_head_block ?a < ?hw \<and> fr_tail_block ?a < ?hw \<and>
       (fr_segment_id ?p \<noteq> 0 \<longrightarrow> fr_max_sequence ?p < fr_min_sequence ?a)) \<and>
    (if fr_record_count ?a \<noteq> 0 then fr_max_sequence ?a
     else if fr_segment_id ?p \<noteq> 0 then fr_max_sequence ?p else 0) < next_sequence r"
    unfolding read_root_validate_unfold root_header_iff [symmetric] av [symmetric] pv [symmetric]
    unfolding not_le [symmetric] by blast
  also have "\<dots> \<longleftrightarrow> root_ok r"
    unfolding root_ok_def using an pn am by (auto simp: word_less_nat_alt word_le_nat_alt)
  finally show ?thesis .
qed

text \<open>
  C10. Validation accepts a root exactly when it is well formed in this sense, and refuses every
  other one with a format error.
\<close>

theorem read_root_validate_exact:
  "evoke_segment_read_root_validate (Some r) = (if root_ok r then EVOKE_OK else EVOKE_ERR_FORMAT)"
  using read_root_validate_ok [of r] read_root_validate_status [of r] by auto

section \<open>Rotation, sealing and replacement\<close>

lemma next_id_less:
  assumes "(x :: u64) \<noteq> UINT64_MAX"
  shows "x < x + 1" and "y < x \<Longrightarrow> y < x + 1"
proof -
  have "unat x \<noteq> unat UINT64_MAX" using assms by (simp only: word_unat_eq_iff) simp
  then have "unat x + 1 < 18446744073709551616" using u64_less [of x] by (simp del: u64_less)
  then have "unat (x + 1) = unat x + 1" by (simp add: unat_add_u64)
  then show "x < x + 1" and "y < x \<Longrightarrow> y < x + 1" by (simp_all add: word_less_nat_alt)
qed

text \<open>The roots the three operations move to.\<close>

definition rotated :: "evoke_segment_read_root \<Rightarrow> evoke_segment_read_root" where
  "rotated r = r\<lparr>pending_l0 := active_l0 r,
     active_l0 := zero_frontier\<lparr>fr_segment_id := next_segment_id r\<rparr>,
     next_segment_id := next_segment_id r + 1\<rparr>"

definition remanifested :: "evoke_segment_object_ref \<Rightarrow> u32 \<Rightarrow> bool \<Rightarrow> evoke_segment_read_root \<Rightarrow> evoke_segment_read_root" where
  "remanifested m hw reset r = r\<lparr>root_id := ref_object_id m, manifest := m,
     reusable_document_slot_cursor := (if reset then 0 else reusable_document_slot_cursor r),
     next_segment_id := next_segment_id r + 1, published_block_high_watermark := hw\<rparr>"

lemma root_ok_rotated:
  assumes "root_ok r" and "fr_record_count (active_l0 r) \<noteq> 0" and "fr_segment_id (pending_l0 r) = 0"
    and "next_segment_id r \<noteq> UINT64_MAX"
  shows "root_ok (rotated r)"
proof -
  have live: "frontier_live (active_l0 r)"
    using assms(1,2) frontier_empty_count by (auto simp: root_ok_def)
  have "next_segment_id r \<noteq> 0" using assms(1) by (auto simp: root_ok_def word_less_nat_alt)
  then show ?thesis
    using assms(1) live next_id_less [OF assms(4)] frontier_live_nonempty [OF live]
    by (auto simp: root_ok_def rotated_def)
qed

lemma root_ok_remanifested:
  assumes "root_ok r" and "manifest_ok hw m" and "ref_object_id m = next_segment_id r"
    and "next_segment_id r \<noteq> UINT64_MAX" and "published_block_high_watermark r \<le> hw"
  shows "root_ok (remanifested m hw reset r)"
proof -
  have up: "b < published_block_high_watermark r \<Longrightarrow> b < hw" for b
    using assms(5) by (rule order_less_le_trans [rotated])
  show ?thesis
    using assms(1-3) up next_id_less [OF assms(4)] by (auto simp: root_ok_def remanifested_def)
qed

lemma root_ok_drop_pending: "root_ok r \<Longrightarrow> root_ok (r\<lparr>pending_l0 := zero_frontier\<rparr>)"
  by (auto simp: root_ok_def)


definition manifest_refused :: "evoke_segment_read_root \<Rightarrow> evoke_segment_object_ref \<Rightarrow> u32 \<Rightarrow> bool" where
  "manifest_refused r m hw \<longleftrightarrow>
     next_segment_id r = UINT64_MAX \<or> ref_object_id m \<noteq> next_segment_id r \<or>
     hw < published_block_high_watermark r \<or> \<not> manifest_ok hw m"

lemma manifest_guard:
  "manifest_refused r m hw \<longleftrightarrow>
     (next_segment_id r = UINT64_MAX \<or> ref_object_kind m \<noteq> EVOKE_SEGMENT_OBJECT_MANIFEST \<or>
      ref_object_id m \<noteq> next_segment_id r \<or> ref_owner_manifest_id m \<noteq> next_segment_id r \<or>
      hw < published_block_high_watermark r) \<or>
     evoke_segment_object_ref_validate (Some m) hw \<noteq> EVOKE_OK"
  using manifest_validate_iff [of m hw] by (auto simp: manifest_refused_def manifest_ok_def)

lemma rotate_l0_run:
  assumes "root_ok r"
  shows "evoke_segment_read_root_rotate_l0 (Some r) =
    (if fr_record_count (active_l0 r) = 0 \<or> fr_segment_id (pending_l0 r) \<noteq> 0 \<or> next_segment_id r = UINT64_MAX
     then (EVOKE_ERR_FORMAT, Some r) else (EVOKE_OK, Some (rotated r)))"
proof (cases "fr_record_count (active_l0 r) = 0 \<or> fr_segment_id (pending_l0 r) \<noteq> 0 \<or> next_segment_id r = UINT64_MAX")
  case True
  with assms show ?thesis by (simp add: evoke_segment_read_root_rotate_l0_def read_root_validate_ok Let_def)
next
  case False
  then have "root_ok (rotated r)" by (intro root_ok_rotated [OF assms]) simp_all
  with False assms show ?thesis
    by (simp add: evoke_segment_read_root_rotate_l0_def read_root_validate_ok Let_def rotated_def)
qed

lemma seal_pending_run:
  assumes "root_ok r"
  shows "evoke_segment_read_root_seal_pending (Some r) (Some m) hw =
    (if fr_segment_id (pending_l0 r) = 0 \<or> manifest_refused r m hw then (EVOKE_ERR_FORMAT, Some r)
     else (EVOKE_OK, Some (remanifested m hw (fr_record_count (active_l0 r) = 0)
                             (r\<lparr>pending_l0 := zero_frontier\<rparr>))))"
proof (cases "fr_segment_id (pending_l0 r) = 0 \<or> manifest_refused r m hw")
  case True
  with assms ref_validate_status [of m hw] show ?thesis
    unfolding manifest_guard
    by (auto simp: evoke_segment_read_root_seal_pending_def read_root_validate_ok Let_def)
next
  case False
  let ?r = "r\<lparr>pending_l0 := zero_frontier\<rparr>"
  have "root_ok (remanifested m hw (fr_record_count (active_l0 r) = 0) ?r)"
    using False by (intro root_ok_remanifested root_ok_drop_pending assms)
      (simp_all add: manifest_refused_def not_less)
  moreover from False have g: "fr_segment_id (pending_l0 r) \<noteq> 0" "\<not> manifest_refused r m hw" by simp_all
  ultimately show ?thesis
    using assms unfolding manifest_guard
    by (cases r) (auto simp: evoke_segment_read_root_seal_pending_def read_root_validate_ok Let_def
        remanifested_def)
qed

lemma replace_manifest_run:
  assumes "root_ok r"
  shows "evoke_segment_read_root_replace_manifest (Some r) (Some m) hw =
    (if manifest_refused r m hw then (EVOKE_ERR_FORMAT, Some r)
     else (EVOKE_OK, Some (remanifested m hw
        (fr_record_count (active_l0 r) = 0 \<and> fr_record_count (pending_l0 r) = 0) r)))"
proof (cases "manifest_refused r m hw")
  case True
  with assms ref_validate_status [of m hw] show ?thesis
    unfolding manifest_guard
    by (auto simp: evoke_segment_read_root_replace_manifest_def read_root_validate_ok Let_def)
next
  case False
  have "root_ok (remanifested m hw (fr_record_count (active_l0 r) = 0 \<and> fr_record_count (pending_l0 r) = 0) r)"
    using False by (intro root_ok_remanifested assms) (simp_all add: manifest_refused_def not_less)
  with False assms show ?thesis
    unfolding manifest_guard
    by (auto simp: evoke_segment_read_root_replace_manifest_def read_root_validate_ok Let_def remanifested_def)
qed


lemma root_transitions_parts:
  assumes "root_ok r"
  shows "evoke_segment_read_root_rotate_l0 (Some r) =
      (if fr_record_count (active_l0 r) = 0 \<or> fr_segment_id (pending_l0 r) \<noteq> 0 \<or>
          next_segment_id r = UINT64_MAX
       then (EVOKE_ERR_FORMAT, Some r)
       else (EVOKE_OK, Some (r\<lparr>pending_l0 := active_l0 r,
               active_l0 := zero_frontier\<lparr>fr_segment_id := next_segment_id r\<rparr>,
               next_segment_id := next_segment_id r + 1\<rparr>)))"
    and "evoke_segment_read_root_seal_pending (Some r) (Some m) hw =
      (if fr_segment_id (pending_l0 r) = 0 \<or> manifest_refused r m hw then (EVOKE_ERR_FORMAT, Some r)
       else (EVOKE_OK, Some (remanifested m hw (fr_record_count (active_l0 r) = 0)
               (r\<lparr>pending_l0 := zero_frontier\<rparr>))))"
    and "evoke_segment_read_root_replace_manifest (Some r) (Some m) hw =
      (if manifest_refused r m hw then (EVOKE_ERR_FORMAT, Some r)
       else (EVOKE_OK, Some (remanifested m hw
          (fr_record_count (active_l0 r) = 0 \<and> fr_record_count (pending_l0 r) = 0) r)))"
  using rotate_l0_run [OF assms] seal_pending_run [OF assms] replace_manifest_run [OF assms]
  by (simp_all add: rotated_def)

lemma root_transitions_valid:
  assumes "root_ok r"
  shows "evoke_segment_read_root_rotate_l0 (Some r) = (EVOKE_OK, Some r') \<Longrightarrow> root_ok r'"
    and "evoke_segment_read_root_seal_pending (Some r) (Some m) hw = (EVOKE_OK, Some r') \<Longrightarrow> root_ok r'"
    and "evoke_segment_read_root_replace_manifest (Some r) (Some m) hw = (EVOKE_OK, Some r') \<Longrightarrow> root_ok r'"
proof -
  show "evoke_segment_read_root_rotate_l0 (Some r) = (EVOKE_OK, Some r') \<Longrightarrow> root_ok r'"
    using root_ok_rotated [OF assms] by (auto simp: rotate_l0_run [OF assms] split: if_splits)
  show "evoke_segment_read_root_seal_pending (Some r) (Some m) hw = (EVOKE_OK, Some r') \<Longrightarrow> root_ok r'"
    using root_ok_remanifested [OF root_ok_drop_pending [OF assms], of hw m]
    by (auto simp: seal_pending_run [OF assms] manifest_refused_def not_less split: if_splits)
  show "evoke_segment_read_root_replace_manifest (Some r) (Some m) hw = (EVOKE_OK, Some r') \<Longrightarrow> root_ok r'"
    using root_ok_remanifested [OF assms, of hw m]
    by (auto simp: replace_manifest_run [OF assms] manifest_refused_def not_less split: if_splits)
qed

text \<open>
  C11. Rotation, sealing and replacement of the manifest on a valid root: each succeeds exactly
  when its own guard holds, so the validation of the new root never refuses it; a success
  changes what is stated and nothing else, and the root it gives is valid again; a refusal leaves the root as it was.
\<close>

theorem root_transitions_exact:
  assumes "root_ok r"
  shows "evoke_segment_read_root_rotate_l0 (Some r) =
      (if fr_record_count (active_l0 r) = 0 \<or> fr_segment_id (pending_l0 r) \<noteq> 0 \<or>
          next_segment_id r = UINT64_MAX
       then (EVOKE_ERR_FORMAT, Some r)
       else (EVOKE_OK, Some (r\<lparr>pending_l0 := active_l0 r,
               active_l0 := zero_frontier\<lparr>fr_segment_id := next_segment_id r\<rparr>,
               next_segment_id := next_segment_id r + 1\<rparr>))) \<and>
    evoke_segment_read_root_seal_pending (Some r) (Some m) hw =
      (if fr_segment_id (pending_l0 r) = 0 \<or> manifest_refused r m hw then (EVOKE_ERR_FORMAT, Some r)
       else (EVOKE_OK, Some (remanifested m hw (fr_record_count (active_l0 r) = 0)
               (r\<lparr>pending_l0 := zero_frontier\<rparr>)))) \<and>
    evoke_segment_read_root_replace_manifest (Some r) (Some m) hw =
      (if manifest_refused r m hw then (EVOKE_ERR_FORMAT, Some r)
       else (EVOKE_OK, Some (remanifested m hw
          (fr_record_count (active_l0 r) = 0 \<and> fr_record_count (pending_l0 r) = 0) r))) \<and>
    (\<forall>r'. evoke_segment_read_root_rotate_l0 (Some r) = (EVOKE_OK, Some r') \<or>
          evoke_segment_read_root_seal_pending (Some r) (Some m) hw = (EVOKE_OK, Some r') \<or>
          evoke_segment_read_root_replace_manifest (Some r) (Some m) hw = (EVOKE_OK, Some r') \<longrightarrow>
        root_ok r' \<and> evoke_segment_read_root_validate (Some r') = EVOKE_OK)"
  using root_transitions_parts [OF assms] root_transitions_valid [OF assms] read_root_validate_ok by blast

text \<open>A root over a one-page manifest with three records in the active frontier.\<close>

definition sample_manifest :: "u64 \<Rightarrow> evoke_segment_object_ref" where
  "sample_manifest i =
     \<lparr>ref_object_kind = EVOKE_SEGMENT_OBJECT_MANIFEST, ref_start_block = 1, ref_page_count = 1,
      ref_object_id = i, ref_owner_manifest_id = i, ref_object_bytes = 10, ref_object_checksum = 9\<rparr>"

definition sample_root :: evoke_segment_read_root where
  "sample_root =
     \<lparr>root_id = 1, next_sequence = 8, next_document_slot = 4, next_segment_id = 3,
      published_block_high_watermark = 9, reusable_document_slot_cursor = 2,
      manifest = sample_manifest 1,
      active_l0 = \<lparr>fr_segment_id = 2, fr_min_sequence = 5, fr_max_sequence = 7, fr_payload_bytes = 600,
        fr_head_block = 4, fr_tail_block = 5, fr_page_count = 2, fr_record_count = 3\<rparr>,
      pending_l0 = zero_frontier\<rparr>"

lemma sample_root_ok: "root_ok sample_root"
  by (simp add: root_ok_def sample_root_def sample_manifest_def manifest_ok_def frontier_live_def
      UINT32_MAX_def)

theorem root_transitions_exact_witness:
  "fst (evoke_segment_read_root_rotate_l0 (Some sample_root)) = EVOKE_OK \<and>
   fst (evoke_segment_read_root_seal_pending (Some sample_root) (Some (sample_manifest 3)) 9) = EVOKE_ERR_FORMAT \<and>
   fst (evoke_segment_read_root_replace_manifest (Some sample_root) (Some (sample_manifest 3)) 9) = EVOKE_OK"
  using root_transitions_exact [OF sample_root_ok, of "sample_manifest 3" 9]
  by (simp add: sample_root_def sample_manifest_def manifest_refused_def manifest_ok_def UINT64_MAX_def)

section \<open>Appending, and the runs of a root\<close>

definition frontier_sequences :: "evoke_active_l0_frontier \<Rightarrow> nat set" where
  "frontier_sequences f =
     (if fr_record_count f = 0 then {} else {unat (fr_min_sequence f) .. unat (fr_max_sequence f)})"

text \<open>The sequence numbers of the records that only L0 holds.\<close>

definition l0_sequences :: "evoke_segment_read_root \<Rightarrow> nat set" where
  "l0_sequences r = frontier_sequences (pending_l0 r) \<union> frontier_sequences (active_l0 r)"

lemma frontier_sequences_zero [simp]:
  "frontier_sequences zero_frontier = {}" "frontier_sequences (zero_frontier\<lparr>fr_segment_id := s\<rparr>) = {}"
  by (simp_all add: frontier_sequences_def zero_frontier_def)

lemma card_frontier_sequences: "frontier_live f \<Longrightarrow> card (frontier_sequences f) = unat (fr_record_count f)"
  by (auto simp: frontier_sequences_def frontier_live_def)

lemma advance_frontier_fields:
  assumes "advance_frontier f n chain = Some f'"
  shows "fr_segment_id f' = fr_segment_id f" and "fr_record_count f' = fr_record_count f"
    and "fr_min_sequence f' = (if fr_record_count f = 0 then n else fr_min_sequence f)"
    and "fr_payload_bytes f' = fr_payload_bytes f"
  using assms by (auto simp: advance_frontier_def Let_def split: option.splits if_splits)

lemma advance_root_fields:
  assumes "evoke_am_l0_advance_root (Some r) (Some k) sz chain hw = Some r'"
  shows "root_ok r'" and "next_sequence r' = next_sequence r + 1" and "next_sequence r \<noteq> UINT64_MAX"
    and "pending_l0 r' = pending_l0 r" and "root_id r' = root_id r" and "manifest r' = manifest r"
    and "next_segment_id r' = next_segment_id r"
    and "fr_segment_id (active_l0 r') = fr_segment_id (active_l0 r)"
    and "fr_max_sequence (active_l0 r') = next_sequence r"
    and "fr_record_count (active_l0 r') = fr_record_count (active_l0 r) + 1"
    and "fr_record_count (active_l0 r) \<noteq> UINT32_MAX"
    and "fr_min_sequence (active_l0 r') =
      (if fr_record_count (active_l0 r) = 0 then next_sequence r else fr_min_sequence (active_l0 r))"
proof -
  obtain f where f: "advance_frontier (active_l0 r) (next_sequence r) chain = Some f"
    using assms by (auto simp: evoke_am_l0_advance_root_def Let_def split: if_splits option.splits)
  note ff = advance_frontier_fields [OF f]
  have "root_ok r' \<and> next_sequence r' = next_sequence r + 1 \<and> next_sequence r \<noteq> UINT64_MAX \<and>
      pending_l0 r' = pending_l0 r \<and> root_id r' = root_id r \<and> manifest r' = manifest r \<and>
      next_segment_id r' = next_segment_id r \<and> fr_record_count (active_l0 r) \<noteq> UINT32_MAX \<and>
      active_l0 r' = f\<lparr>fr_max_sequence := next_sequence r, fr_record_count := fr_record_count f + 1,
        fr_payload_bytes := fr_payload_bytes f + sz\<rparr>"
    using assms f
    by (auto simp: evoke_am_l0_advance_root_def Let_def read_root_validate_ok split: if_splits option.splits)
  with ff show "root_ok r'" and "next_sequence r' = next_sequence r + 1" and "next_sequence r \<noteq> UINT64_MAX"
    and "pending_l0 r' = pending_l0 r" and "root_id r' = root_id r" and "manifest r' = manifest r"
    and "next_segment_id r' = next_segment_id r"
    and "fr_segment_id (active_l0 r') = fr_segment_id (active_l0 r)"
    and "fr_max_sequence (active_l0 r') = next_sequence r"
    and "fr_record_count (active_l0 r') = fr_record_count (active_l0 r) + 1"
    and "fr_record_count (active_l0 r) \<noteq> UINT32_MAX"
    and "fr_min_sequence (active_l0 r') =
      (if fr_record_count (active_l0 r) = 0 then next_sequence r else fr_min_sequence (active_l0 r))"
    by simp_all
qed


lemma unat_next:
  "(x :: u64) \<noteq> UINT64_MAX \<Longrightarrow> unat (x + 1) = unat x + 1"
  "(c :: u32) \<noteq> UINT32_MAX \<Longrightarrow> unat (c + 1) = unat c + 1"
proof -
  assume "x \<noteq> UINT64_MAX"
  then have "unat x \<noteq> 18446744073709551615" by (simp add: word_unat_eq_iff)
  then have "unat x + unat (1 :: u64) < 18446744073709551616" using u64_less [of x] by (simp del: u64_less)
  then show "unat (x + 1) = unat x + 1" by (simp add: unat_add_u64)
next
  assume "c \<noteq> UINT32_MAX"
  then have "unat c \<noteq> 4294967295" by (simp add: word_unat_eq_iff)
  then have "unat c + unat (1 :: u32) < 4294967296" using u32_less [of c] by (simp del: u32_less)
  then show "unat (c + 1) = unat c + 1" by (simp add: unat_add_u32)
qed

lemma active_live_iff: "root_ok r \<Longrightarrow> fr_record_count (active_l0 r) \<noteq> 0 \<longleftrightarrow> frontier_live (active_l0 r)"
  using frontier_empty_count [of "active_l0 r"] frontier_live_nonempty [of "active_l0 r"]
  by (auto simp: root_ok_def)

lemma advance_root_sequences:
  assumes "root_ok r" and "evoke_am_l0_advance_root (Some r) (Some k) sz chain hw = Some r'"
  shows "l0_sequences r' = insert (unat (next_sequence r)) (l0_sequences r)"
proof -
  let ?a = "active_l0 r" and ?a' = "active_l0 r'" and ?n = "unat (next_sequence r)"
  note af = advance_root_fields [OF assms(2)]
  have cnt: "unat (fr_record_count ?a') = unat (fr_record_count ?a) + 1"
    using af(10,11) by (simp add: unat_next)
  then have ne: "fr_record_count ?a' \<noteq> 0" by (auto simp: word_unat_eq_iff)
  with active_live_iff [OF af(1)] have live': "frontier_live ?a'" by simp
  then have mx': "?n + 1 = unat (fr_min_sequence ?a') + unat (fr_record_count ?a) + 1"
    using af(9) cnt by (simp add: frontier_live_def)
  have "frontier_sequences ?a' = insert ?n (frontier_sequences ?a)"
  proof (cases "fr_record_count ?a = 0")
    case True
    with ne af(9,12) show ?thesis by (simp add: frontier_sequences_def)
  next
    case False
    with active_live_iff [OF assms(1)] have "frontier_live ?a" by simp
    then have "unat (fr_max_sequence ?a) + 1 = ?n" "unat (fr_min_sequence ?a) \<le> ?n"
      using mx' False af(12) by (simp_all add: frontier_live_def)
    then have "{unat (fr_min_sequence ?a) .. ?n} = insert ?n {unat (fr_min_sequence ?a) .. unat (fr_max_sequence ?a)}"
      by auto
    with False ne af(9,12) show ?thesis by (simp add: frontier_sequences_def)
  qed
  then show ?thesis by (simp add: l0_sequences_def af(4))
qed

lemma l0_sequence_accounting_parts:
  assumes "root_ok r"
  shows "evoke_am_l0_advance_root (Some r) (Some k) sz chain hw = Some r' \<Longrightarrow>
      l0_sequences r' = insert (unat (next_sequence r)) (l0_sequences r) \<and>
      unat (next_sequence r) \<notin> l0_sequences r"
    and "evoke_segment_read_root_rotate_l0 (Some r) = (EVOKE_OK, Some r') \<Longrightarrow> l0_sequences r' = l0_sequences r"
    and "evoke_segment_read_root_seal_pending (Some r) (Some m) hw = (EVOKE_OK, Some r') \<Longrightarrow>
      l0_sequences r' = l0_sequences r - frontier_sequences (pending_l0 r) \<and>
      l0_sequences r' = frontier_sequences (active_l0 r)"
    and "evoke_segment_read_root_replace_manifest (Some r) (Some m) hw = (EVOKE_OK, Some r') \<Longrightarrow>
      l0_sequences r' = l0_sequences r"
proof -
  have nx: "unat (next_sequence r) \<notin> l0_sequences r"
    using assms active_live_iff [OF assms]
    by (auto simp: l0_sequences_def frontier_sequences_def root_ok_def word_less_nat_alt
        zero_frontier_def split: if_splits)
  have disj: "frontier_sequences (pending_l0 r) \<inter> frontier_sequences (active_l0 r) = {}"
    using assms active_live_iff [OF assms]
    by (auto simp: frontier_sequences_def root_ok_def word_less_nat_alt zero_frontier_def split: if_splits)
  show "evoke_am_l0_advance_root (Some r) (Some k) sz chain hw = Some r' \<Longrightarrow>
      l0_sequences r' = insert (unat (next_sequence r)) (l0_sequences r) \<and>
      unat (next_sequence r) \<notin> l0_sequences r"
    using advance_root_sequences [OF assms] nx by blast
  have pz: "fr_segment_id (pending_l0 r) = 0 \<Longrightarrow> frontier_sequences (pending_l0 r) = {}"
    using assms frontier_live_nonempty by (auto simp: root_ok_def)
  then show "evoke_segment_read_root_rotate_l0 (Some r) = (EVOKE_OK, Some r') \<Longrightarrow> l0_sequences r' = l0_sequences r"
    using rotate_l0_run [OF assms] by (auto simp: l0_sequences_def rotated_def split: if_splits)
  show "evoke_segment_read_root_seal_pending (Some r) (Some m) hw = (EVOKE_OK, Some r') \<Longrightarrow>
      l0_sequences r' = l0_sequences r - frontier_sequences (pending_l0 r) \<and>
      l0_sequences r' = frontier_sequences (active_l0 r)"
    using seal_pending_run [OF assms, of m hw] disj
    by (auto simp: l0_sequences_def remanifested_def split: if_splits)
  show "evoke_segment_read_root_replace_manifest (Some r) (Some m) hw = (EVOKE_OK, Some r') \<Longrightarrow>
      l0_sequences r' = l0_sequences r"
    using replace_manifest_run [OF assms, of m hw]
    by (auto simp: l0_sequences_def remanifested_def split: if_splits)
qed

text \<open>
  C12. What each operation does to the set of sequence numbers that L0 holds: an append adds
  exactly the next sequence number, rotation and replacement of the manifest keep the set, and
  sealing removes exactly the records of the pending frontier.
\<close>

theorem l0_sequence_accounting:
  assumes "root_ok r"
  shows "(evoke_am_l0_advance_root (Some r) (Some k) sz chain hw = Some r' \<longrightarrow>
      l0_sequences r' = insert (unat (next_sequence r)) (l0_sequences r) \<and>
      unat (next_sequence r) \<notin> l0_sequences r) \<and>
    (evoke_segment_read_root_rotate_l0 (Some r) = (EVOKE_OK, Some r') \<longrightarrow> l0_sequences r' = l0_sequences r) \<and>
    (evoke_segment_read_root_seal_pending (Some r) (Some m) hw = (EVOKE_OK, Some r') \<longrightarrow>
      l0_sequences r' = l0_sequences r - frontier_sequences (pending_l0 r) \<and>
      l0_sequences r' = frontier_sequences (active_l0 r)) \<and>
    (evoke_segment_read_root_replace_manifest (Some r) (Some m) hw = (EVOKE_OK, Some r') \<longrightarrow>
      l0_sequences r' = l0_sequences r)"
  using l0_sequence_accounting_parts [OF assms] by blast

theorem l0_sequence_accounting_witness:
  "\<exists>r'. evoke_segment_read_root_rotate_l0 (Some sample_root) = (EVOKE_OK, Some r') \<and>
     l0_sequences r' = {5, 6, 7}"
proof -
  have run: "evoke_segment_read_root_rotate_l0 (Some sample_root) = (EVOKE_OK, Some (rotated sample_root))"
    using rotate_l0_run [OF sample_root_ok] by (simp add: sample_root_def UINT64_MAX_def)
  have "l0_sequences sample_root = {5, 6, 7}"
    by (auto simp: l0_sequences_def frontier_sequences_def sample_root_def)
  with l0_sequence_accounting [OF sample_root_ok, where r' = "rotated sample_root"] run show ?thesis by auto
qed

text \<open>The steps of a root, each one a successful call.\<close>

inductive root_step :: "evoke_segment_read_root \<Rightarrow> evoke_segment_read_root \<Rightarrow> bool" where
  append_record: "evoke_am_l0_advance_root (Some r) (Some k) sz chain hw = Some r' \<Longrightarrow> root_step r r'"
| rotate: "evoke_segment_read_root_rotate_l0 (Some r) = (EVOKE_OK, Some r') \<Longrightarrow> root_step r r'"
| seal: "evoke_segment_read_root_seal_pending (Some r) (Some m) hw = (EVOKE_OK, Some r') \<Longrightarrow> root_step r r'"
| replace: "evoke_segment_read_root_replace_manifest (Some r) (Some m) hw = (EVOKE_OK, Some r') \<Longrightarrow> root_step r r'"

text \<open>A step in terms of the fields the invariants read.\<close>

lemma root_step_cases:
  assumes "root_ok r" and "root_step r r'"
  obtains (append_record) "root_ok r'" "l0_sequences r' = insert (unat (next_sequence r)) (l0_sequences r)"
      "unat (next_sequence r') = unat (next_sequence r) + 1" "pending_l0 r' = pending_l0 r"
      "root_id r' = root_id r" "next_segment_id r' = next_segment_id r"
      "fr_segment_id (active_l0 r') = fr_segment_id (active_l0 r)"
  | (rotate) "root_ok r'" "r' = rotated r" "fr_segment_id (pending_l0 r) = 0" "next_segment_id r \<noteq> UINT64_MAX"
  | (seal) m hw where "root_ok r'" "r' = remanifested m hw (fr_record_count (active_l0 r) = 0) (r\<lparr>pending_l0 := zero_frontier\<rparr>)"
      "next_segment_id r \<noteq> UINT64_MAX" "ref_object_id m = next_segment_id r"
  | (replace) m hw reset where "root_ok r'" "r' = remanifested m hw reset r" "next_segment_id r \<noteq> UINT64_MAX"
      "ref_object_id m = next_segment_id r"
  using assms(2)
proof cases
  case (append_record k sz chain hw)
  note af = advance_root_fields [OF append_record]
  show thesis
    by (rule that(1)) (use af advance_root_sequences [OF assms(1) append_record] in \<open>simp_all add: unat_next\<close>)
next
  case rotate
  then have g: "fr_record_count (active_l0 r) \<noteq> 0" "fr_segment_id (pending_l0 r) = 0"
      "next_segment_id r \<noteq> UINT64_MAX" "r' = rotated r"
    using rotate_l0_run [OF assms(1)] by (simp_all split: if_splits)
  show thesis by (rule that(2)) (use g root_ok_rotated [OF assms(1)] in simp_all)
next
  case (seal m hw)
  then have g: "\<not> manifest_refused r m hw"
    "r' = remanifested m hw (fr_record_count (active_l0 r) = 0) (r\<lparr>pending_l0 := zero_frontier\<rparr>)"
    using seal_pending_run [OF assms(1), of m hw] by (simp_all split: if_splits)
  then have "root_ok r'"
    using root_ok_remanifested [OF root_ok_drop_pending [OF assms(1)]] by (simp add: manifest_refused_def not_less)
  with g show thesis by (intro that(3) [of m hw]) (simp_all add: manifest_refused_def)
next
  case (replace m hw)
  then have g: "\<not> manifest_refused r m hw"
    "r' = remanifested m hw (fr_record_count (active_l0 r) = 0 \<and> fr_record_count (pending_l0 r) = 0) r"
    using replace_manifest_run [OF assms(1), of m hw] by (simp_all split: if_splits)
  then have "root_ok r'"
    using root_ok_remanifested [OF assms(1)] by (simp add: manifest_refused_def not_less)
  with g show thesis by (intro that(4) [of m hw]) (simp_all add: manifest_refused_def)
qed


text \<open>
  The invariant of a run: the numbers in L0 are all the numbers from some point up to the next
  one, and no two of the ids in use coincide.
\<close>

definition root_inv :: "nat \<Rightarrow> evoke_segment_read_root \<Rightarrow> bool" where
  "root_inv start r \<longleftrightarrow>
     root_ok r \<and>
     (\<exists>lo. start \<le> lo \<and> lo \<le> unat (next_sequence r) \<and> l0_sequences r = {lo ..< unat (next_sequence r)}) \<and>
     fr_segment_id (active_l0 r) \<noteq> root_id r \<and> fr_segment_id (pending_l0 r) \<noteq> root_id r"

lemma active_suffix:
  assumes "root_ok r" and "l0_sequences r = {lo ..< n}" and "start \<le> lo" and "lo \<le> n"
  shows "\<exists>lo'. start \<le> lo' \<and> lo' \<le> n \<and> frontier_sequences (active_l0 r) = {lo' ..< n}"
proof (cases "fr_record_count (active_l0 r) = 0")
  case True
  with assms(3,4) show ?thesis by (intro exI [of _ n]) (simp add: frontier_sequences_def)
next
  case False
  let ?a = "active_l0 r" and ?p = "pending_l0 r"
  have live: "frontier_live ?a" using False active_live_iff [OF assms(1)] by simp
  then have le: "unat (fr_min_sequence ?a) \<le> unat (fr_max_sequence ?a)"
    using frontier_live_nonempty by (simp add: word_le_nat_alt)
  have a: "frontier_sequences ?a = {unat (fr_min_sequence ?a) .. unat (fr_max_sequence ?a)}"
    using False by (simp add: frontier_sequences_def)
  have p: "x \<in> frontier_sequences ?p \<Longrightarrow> x < unat (fr_min_sequence ?a)" for x
    using assms(1) live
    by (auto simp: root_ok_def frontier_sequences_def word_less_nat_alt zero_frontier_def split: if_splits)
  have "{unat (fr_min_sequence ?a) .. unat (fr_max_sequence ?a)} \<subseteq> {lo ..< n}"
    unfolding a [symmetric] assms(2) [symmetric] by (simp add: l0_sequences_def)
  with le have b: "unat (fr_max_sequence ?a) < n" "lo \<le> unat (fr_min_sequence ?a)" by auto
  then have "n - 1 \<in> l0_sequences r" using assms(2) le by simp
  then have "n - 1 \<le> unat (fr_max_sequence ?a)" using p [of "n - 1"] le by (auto simp: l0_sequences_def a)
  with b(1) have "Suc (unat (fr_max_sequence ?a)) = n" by linarith
  then have "frontier_sequences ?a = {unat (fr_min_sequence ?a) ..< n}"
    unfolding a by (simp only: atLeastLessThanSuc_atLeastAtMost [symmetric])
  moreover have "start \<le> unat (fr_min_sequence ?a)" "unat (fr_min_sequence ?a) \<le> n"
    using b le assms(3) by linarith+
  ultimately show ?thesis by blast
qed

lemma root_inv_step:
  assumes "root_inv start r" and "root_step r r'"
  shows "root_inv start r'"
proof -
  have ok: "root_ok r" and ids: "fr_segment_id (active_l0 r) \<noteq> root_id r" "fr_segment_id (pending_l0 r) \<noteq> root_id r"
    using assms(1) by (simp_all add: root_inv_def)
  obtain lo where lo: "start \<le> lo" "lo \<le> unat (next_sequence r)" "l0_sequences r = {lo ..< unat (next_sequence r)}"
    using assms(1) by (auto simp: root_inv_def)
  have below: "fr_segment_id (active_l0 r) \<noteq> next_segment_id r" "root_id r \<noteq> next_segment_id r"
      "fr_segment_id (pending_l0 r) \<noteq> next_segment_id r" "next_segment_id r \<noteq> 0"
    using ok by (auto simp: root_ok_def word_less_nat_alt)
  from ok assms(2) show ?thesis
  proof (cases rule: root_step_cases)
    case append_record
    moreover have "insert (unat (next_sequence r)) {lo ..< unat (next_sequence r)} = {lo ..< unat (next_sequence r) + 1}"
      using lo(2) by auto
    ultimately show ?thesis using lo ids unfolding root_inv_def by (intro conjI exI [of _ lo]) simp_all
  next
    case rotate
    have "frontier_sequences (pending_l0 r) = {}"
      using ok rotate(3) frontier_live_nonempty by (auto simp: root_ok_def)
    then have "l0_sequences r' = l0_sequences r" by (simp add: rotate(2) l0_sequences_def rotated_def)
    with rotate lo ids below show ?thesis
      unfolding root_inv_def by (intro conjI exI [of _ lo]) (simp_all add: rotated_def)
  next
    case (seal m hw)
    have "l0_sequences r' = frontier_sequences (active_l0 r)"
      by (simp add: seal(2) l0_sequences_def remanifested_def)
    with active_suffix [OF ok lo(3,1,2)] seal below show ?thesis
      unfolding root_inv_def by (simp add: remanifested_def)
  next
    case (replace m hw reset)
    have "l0_sequences r' = l0_sequences r" by (simp add: replace(2) l0_sequences_def remanifested_def)
    with replace lo below show ?thesis
      unfolding root_inv_def by (intro conjI exI [of _ lo]) (simp_all add: remanifested_def)
  qed
qed

lemma root_step_monotone:
  assumes "root_ok r" and "root_step r r'"
  shows "next_segment_id r \<le> next_segment_id r' \<and> next_sequence r \<le> next_sequence r' \<and> root_id r \<le> root_id r'"
  using assms
proof (cases rule: root_step_cases)
  case append_record
  then show ?thesis by (simp add: word_le_nat_alt)
next
  case rotate
  then show ?thesis using next_id_less(1) by (simp add: rotated_def less_imp_le)
next
  case (seal m hw)
  then show ?thesis using assms(1) next_id_less(1) by (auto simp: remanifested_def root_ok_def less_imp_le)
next
  case (replace m hw reset)
  then show ?thesis using assms(1) next_id_less(1) by (auto simp: remanifested_def root_ok_def less_imp_le)
qed

text \<open>
  C9. Every run of appends, rotations, seals and manifest replacements that starts from a valid
  root with empty L0 keeps the root valid, and at every moment the records in L0 are exactly
  those of one interval of sequence numbers that ends just before the next one, pending before
  active: no record is skipped, repeated or lost on the way from active to sealed. Segment ids,
  sequence numbers and root ids never go back, and the ids of the root, the active and the
  pending frontier are distinct.
\<close>

theorem root_run_contiguous:
  assumes "root_ok r0" and "fr_record_count (active_l0 r0) = 0" and "pending_l0 r0 = zero_frontier"
    and "fr_segment_id (active_l0 r0) \<noteq> root_id r0" and "root_step\<^sup>*\<^sup>* r0 r"
  shows "root_ok r \<and>
    (\<exists>lo. unat (next_sequence r0) \<le> lo \<and> lo \<le> unat (next_sequence r) \<and>
       l0_sequences r = {lo ..< unat (next_sequence r)}) \<and>
    fr_segment_id (active_l0 r) \<noteq> root_id r \<and> fr_segment_id (pending_l0 r) \<noteq> root_id r \<and>
    next_segment_id r0 \<le> next_segment_id r \<and> next_sequence r0 \<le> next_sequence r \<and> root_id r0 \<le> root_id r"
proof -
  have "root_id r0 \<noteq> 0" using assms(1) by (auto simp: root_ok_def manifest_ok_def)
  then have init: "root_inv (unat (next_sequence r0)) r0"
    using assms(1-4) by (auto simp: root_inv_def l0_sequences_def frontier_sequences_def)
  from assms(5) have "root_inv (unat (next_sequence r0)) r \<and>
    next_segment_id r0 \<le> next_segment_id r \<and> next_sequence r0 \<le> next_sequence r \<and> root_id r0 \<le> root_id r"
  proof (induction rule: rtranclp_induct)
    case base
    show ?case using init by simp
  next
    case (step s t)
    have "root_ok s" using step.IH by (simp add: root_inv_def)
    from root_step_monotone [OF this step.hyps(2)] root_inv_step [OF _ step.hyps(2)] step.IH
    show ?case by (meson order_trans)
  qed
  then show ?thesis by (auto simp: root_inv_def)
qed


definition sample_fresh_root :: evoke_segment_read_root where
  "sample_fresh_root = sample_root\<lparr>active_l0 := zero_frontier\<lparr>fr_segment_id := 2\<rparr>\<rparr>"

definition sample_appended_root :: "evoke_segment_read_root option" where
  "sample_appended_root = evoke_am_l0_advance_root (Some sample_fresh_root)
     (Some \<lparr>rec_kind = EVOKE_L0_RECORD_UPSERT, rec_sequence = 8, rec_document_slot = 4\<rparr>) 100
     (Some \<lparr>chain_head_block = 4, chain_tail_block = 4, chain_page_count = 1\<rparr>) 9"

theorem root_run_contiguous_witness:
  "\<exists>r. sample_appended_root = Some r \<and> root_step\<^sup>*\<^sup>* sample_fresh_root r \<and> root_ok r \<and>
     (\<exists>lo. 8 \<le> lo \<and> l0_sequences r = {lo ..< unat (next_sequence r)})"
proof -
  have "sample_appended_root \<noteq> None" by code_simp
  then obtain r where r: "sample_appended_root = Some r" by blast
  then have "root_step sample_fresh_root r"
    unfolding sample_appended_root_def by (rule root_step.append_record)
  then have run: "root_step\<^sup>*\<^sup>* sample_fresh_root r" by simp
  have "root_ok sample_fresh_root" "fr_record_count (active_l0 sample_fresh_root) = 0"
      "pending_l0 sample_fresh_root = zero_frontier" "fr_segment_id (active_l0 sample_fresh_root) \<noteq> root_id sample_fresh_root"
      "unat (next_sequence sample_fresh_root) = 8"
    by (simp_all add: sample_fresh_root_def root_ok_def sample_root_def sample_manifest_def manifest_ok_def)
  with root_run_contiguous [of sample_fresh_root r] run r show ?thesis by auto
qed

section \<open>The stored root\<close>

lemma length_serialize [simp]:
  "length (evoke_serialize_object_ref bs at m) = length bs"
  "length (evoke_serialize_l0_frontier bs at f) = length bs"
  by (simp_all add: evoke_serialize_object_ref_def evoke_serialize_l0_frontier_def Let_def)

lemma read_serialize_skip [codec]:
  "off + 2 \<le> at \<or> at + 48 \<le> off \<Longrightarrow>
     evoke_read_u16_le (evoke_serialize_object_ref bs at m) off = evoke_read_u16_le bs off"
  "off + 4 \<le> at \<or> at + 48 \<le> off \<Longrightarrow>
     evoke_read_u32_le (evoke_serialize_object_ref bs at m) off = evoke_read_u32_le bs off"
  "off + 8 \<le> at \<or> at + 48 \<le> off \<Longrightarrow>
     evoke_read_u64_le (evoke_serialize_object_ref bs at m) off = evoke_read_u64_le bs off"
  "off + 2 \<le> at \<or> at + 48 \<le> off \<Longrightarrow>
     evoke_read_u16_le (evoke_serialize_l0_frontier bs at f) off = evoke_read_u16_le bs off"
  "off + 4 \<le> at \<or> at + 48 \<le> off \<Longrightarrow>
     evoke_read_u32_le (evoke_serialize_l0_frontier bs at f) off = evoke_read_u32_le bs off"
  "off + 8 \<le> at \<or> at + 48 \<le> off \<Longrightarrow>
     evoke_read_u64_le (evoke_serialize_l0_frontier bs at f) off = evoke_read_u64_le bs off"
  unfolding evoke_serialize_object_ref_def evoke_serialize_l0_frontier_def Let_def
  by (erule disjE; simp add: codec)+

lemma deserialize_serialize [codec]:
  "at + 48 \<le> length bs \<Longrightarrow> evoke_deserialize_object_ref (evoke_serialize_object_ref bs at m) at = m"
  "at + 48 \<le> length bs \<Longrightarrow> evoke_deserialize_l0_frontier (evoke_serialize_l0_frontier bs at f) at = f"
  unfolding evoke_serialize_object_ref_def evoke_serialize_l0_frontier_def Let_def
    evoke_deserialize_object_ref_def evoke_deserialize_l0_frontier_def
  by (simp_all add: codec)


lemma deserialize_skip [codec]:
  "at + 48 \<le> off \<or> off + 8 \<le> at \<Longrightarrow>
     evoke_deserialize_object_ref (evoke_write_u64_le bs off v) at = evoke_deserialize_object_ref bs at"
  "at + 48 \<le> off \<or> off + 8 \<le> at \<Longrightarrow>
     evoke_deserialize_l0_frontier (evoke_write_u64_le bs off v) at = evoke_deserialize_l0_frontier bs at"
  "at + 48 \<le> off \<or> off + 48 \<le> at \<Longrightarrow>
     evoke_deserialize_object_ref (evoke_serialize_l0_frontier bs off f) at = evoke_deserialize_object_ref bs at"
  "at + 48 \<le> off \<or> off + 48 \<le> at \<Longrightarrow>
     evoke_deserialize_l0_frontier (evoke_serialize_l0_frontier bs off f) at = evoke_deserialize_l0_frontier bs at"
  unfolding evoke_deserialize_object_ref_def evoke_deserialize_l0_frontier_def
  by (erule disjE; simp add: codec)+

lemma length_root_fields [simp]: "200 \<le> length buf \<Longrightarrow> length (write_root_fields r buf) = length buf"
  by (simp add: write_root_fields_def EVOKE_SEGMENT_READ_ROOT_SERIALIZED_SIZE_def Let_def)

lemma read_root_written:
  fixes r :: evoke_segment_read_root and c :: u64
  assumes "200 \<le> length buf"
  defines "bs \<equiv> evoke_write_u64_le (write_root_fields r buf) 192 c"
  shows "evoke_read_u32_le bs 0 = EVOKE_SEGMENT_READ_ROOT_MAGIC"
    and "evoke_read_u16_le bs 4 = EVOKE_SEGMENT_READ_ROOT_VERSION"
    and "evoke_read_u16_le bs 6 = of_nat EVOKE_SEGMENT_READ_ROOT_SERIALIZED_SIZE"
    and "read_root_fields bs = r"
  using assms(1)
  by (simp_all add: bs_def write_root_fields_def read_root_fields_def Let_def codec
      EVOKE_SEGMENT_READ_ROOT_SERIALIZED_SIZE_def)

text \<open>
  C13. A valid root is always written, into any buffer of 200 bytes, and the bytes read back as
  the same root.
\<close>

theorem read_root_roundtrip:
  assumes "evoke_segment_read_root_validate (Some r) = EVOKE_OK" and "length buf = 200"
  shows "\<exists>bs. evoke_segment_read_root_serialize (Some r) (Some buf) = (EVOKE_OK, Some bs) \<and>
    evoke_segment_read_root_deserialize (Some bs) (Some r0) = (EVOKE_OK, Some r)"
proof -
  let ?w = "write_root_fields r buf"
  let ?c = "evoke_checksum_with_zero_range ?w 200 192 8"
  let ?bs = "evoke_write_u64_le ?w 192 ?c"
  have ser: "evoke_segment_read_root_serialize (Some r) (Some buf) = (EVOKE_OK, Some ?bs)"
    using assms
    by (simp add: evoke_segment_read_root_serialize_def EVOKE_SEGMENT_READ_ROOT_SERIALIZED_SIZE_def
        EVOKE_SEGMENT_READ_ROOT_CHECKSUM_OFFSET_def Let_def)
  have "sealed 200 192 ?bs" by (rule sealed_write_checksum) (use assms(2) in simp_all)
  moreover have "200 \<le> length buf" using assms(2) by simp
  note rd = read_root_written [OF this, of r ?c]
  ultimately have "evoke_segment_read_root_deserialize (Some ?bs) (Some r0) = (EVOKE_OK, Some r)"
    using assms
    by (simp add: evoke_segment_read_root_deserialize_def sealed_def Let_def
        EVOKE_SEGMENT_READ_ROOT_SERIALIZED_SIZE_def EVOKE_SEGMENT_READ_ROOT_CHECKSUM_OFFSET_def)
  with ser show ?thesis by blast
qed

theorem read_root_roundtrip_witness:
  "\<exists>bs. evoke_segment_read_root_serialize (Some sample_root) (Some (replicate 200 0)) = (EVOKE_OK, Some bs) \<and>
     evoke_segment_read_root_deserialize (Some bs) (Some sample_root) = (EVOKE_OK, Some sample_root)"
  by (rule read_root_roundtrip) (simp_all add: read_root_validate_ok sample_root_ok)

interpretation root_seal: sealed_codec
  "\<lambda>bs. fst (evoke_segment_read_root_deserialize (Some bs) (Some r0)) = EVOKE_OK" 200 192
  for r0
  by unfold_locales
    (auto simp: evoke_segment_read_root_deserialize_def sealed_def Let_def
        EVOKE_SEGMENT_READ_ROOT_SERIALIZED_SIZE_def EVOKE_SEGMENT_READ_ROOT_CHECKSUM_OFFSET_def
        split: if_splits)

text \<open>
  Change any one byte of a stored root that is accepted and it is refused; and what the
  reader accepts is always a valid root.
\<close>

lemma read_root_detects_corruption:
  assumes "evoke_segment_read_root_deserialize (Some bs) (Some r0) = (EVOKE_OK, Some r)"
  shows "root_ok r \<and> length bs = 200 \<and>
    (\<forall>i < 200. \<forall>x. x \<noteq> bs ! i \<longrightarrow>
       fst (evoke_segment_read_root_deserialize (Some (bs[i := x])) (Some r0)) \<noteq> EVOKE_OK)"
proof -
  have "root_ok r" "length bs = 200"
    using assms
    by (auto simp: evoke_segment_read_root_deserialize_def Let_def read_root_validate_ok
        EVOKE_SEGMENT_READ_ROOT_SERIALIZED_SIZE_def split: if_splits)
  with assms root_seal.refuses_single_byte [of bs r0] show ?thesis by simp
qed

definition sample_root_bytes :: bytes where
  "sample_root_bytes =
     (let w = write_root_fields sample_root (replicate 200 0)
      in evoke_write_u64_le w 192 (evoke_checksum_with_zero_range w 200 192 8))"

lemma sample_root_bytes_accepted:
  "evoke_segment_read_root_deserialize (Some sample_root_bytes) (Some sample_root) = (EVOKE_OK, Some sample_root)"
proof -
  let ?w = "write_root_fields sample_root (replicate 200 0)"
  let ?c = "evoke_checksum_with_zero_range ?w 200 192 8"
  have "sealed 200 192 sample_root_bytes"
    unfolding sample_root_bytes_def Let_def by (rule sealed_write_checksum) simp_all
  moreover note rd = read_root_written [of "replicate 200 0" sample_root ?c]
  ultimately show ?thesis
    using sample_root_ok
    by (simp add: sample_root_bytes_def evoke_segment_read_root_deserialize_def sealed_def Let_def
        EVOKE_SEGMENT_READ_ROOT_SERIALIZED_SIZE_def EVOKE_SEGMENT_READ_ROOT_CHECKSUM_OFFSET_def
        read_root_validate_ok)
qed

end
