(* ===== verification/Tid_Lookup.thy ===== *)
theory Tid_Lookup
  imports Segment_Codec
begin

text \<open>
  The sorted table from heap tuple identifiers to document slots of
  \<open>src/evoke_document_tid_lookup.c\<close>: it is built from a strictly ascending key array, opened from
  untrusted bytes, and searched by bisection. A null output pointer is \<open>None\<close>, a non-null one
  \<open>Some\<close> of the cell's content; \<open>calloc_ok\<close> says whether the allocation succeeds.
\<close>

section \<open>Data and accessors\<close>

definition EVOKE_DOCUMENT_TID_LOOKUP_HEADER_SIZE :: nat where
  "EVOKE_DOCUMENT_TID_LOOKUP_HEADER_SIZE = 48"
definition EVOKE_DOCUMENT_TID_LOOKUP_MAGIC :: u32 where
  "EVOKE_DOCUMENT_TID_LOOKUP_MAGIC = 0x4c544934"
definition EVOKE_DOCUMENT_TID_LOOKUP_VERSION :: u16 where
  "EVOKE_DOCUMENT_TID_LOOKUP_VERSION = 1"
definition EVOKE_DOCUMENT_TID_LOOKUP_CHECKSUM_OFFSET :: nat where
  "EVOKE_DOCUMENT_TID_LOOKUP_CHECKSUM_OFFSET = 32"

lemmas tid_consts =
  EVOKE_DOCUMENT_TID_LOOKUP_HEADER_SIZE_def EVOKE_DOCUMENT_TID_LOOKUP_CHECKSUM_OFFSET_def

record evoke_document_tid_lookup_view =
  view_bytes :: "bytes option"
  view_size :: u64
  view_keys_offset :: u64
  view_slots_offset :: u64
  view_source_authority_checksum :: u64
  view_entry_count :: u32
  view_document_slot_count :: u32

definition zero_tid_view :: evoke_document_tid_lookup_view where
  "zero_tid_view =
     \<lparr>view_bytes = None, view_size = 0, view_keys_offset = 0, view_slots_offset = 0,
      view_source_authority_checksum = 0, view_entry_count = 0, view_document_slot_count = 0\<rparr>"

definition evoke_document_tid_lookup_write_u16 :: "bytes \<Rightarrow> nat \<Rightarrow> u16 \<Rightarrow> bytes" where
  "evoke_document_tid_lookup_write_u16 bs off value =
     put_bytes bs off [ucast (value AND 0xFF), ucast (drop_bit 8 value AND 0xFF)]"

definition evoke_document_tid_lookup_write_u32 :: "bytes \<Rightarrow> nat \<Rightarrow> u32 \<Rightarrow> bytes" where
  "evoke_document_tid_lookup_write_u32 bs off value =
     put_bytes bs off (map (\<lambda>i. ucast (drop_bit (i * 8) value AND 0xFF)) [0..<4])"

definition evoke_document_tid_lookup_write_u64 :: "bytes \<Rightarrow> nat \<Rightarrow> u64 \<Rightarrow> bytes" where
  "evoke_document_tid_lookup_write_u64 bs off value =
     put_bytes bs off (map (\<lambda>i. ucast (drop_bit (i * 8) value AND 0xFF)) [0..<8])"

definition evoke_document_tid_lookup_read_u16 :: "bytes \<Rightarrow> nat \<Rightarrow> u16" where
  "evoke_document_tid_lookup_read_u16 bs off =
     ucast (bs ! off) OR push_bit 8 (ucast (bs ! (off + 1)))"

definition evoke_document_tid_lookup_read_u32 :: "bytes \<Rightarrow> nat \<Rightarrow> u32" where
  "evoke_document_tid_lookup_read_u32 bs off =
     ((ucast (bs ! off) OR push_bit 8 (ucast (bs ! (off + 1)))) OR
      push_bit 16 (ucast (bs ! (off + 2)))) OR push_bit 24 (ucast (bs ! (off + 3)))"

definition evoke_document_tid_lookup_read_u64 :: "bytes \<Rightarrow> nat \<Rightarrow> u64" where
  "evoke_document_tid_lookup_read_u64 bs off =
     foldl (\<lambda>value i. value OR push_bit (i * 8) (ucast (bs ! (off + i)))) 0 [0..<8]"

definition evoke_document_tid_lookup_checksum :: "bytes \<Rightarrow> nat \<Rightarrow> u64" where
  "evoke_document_tid_lookup_checksum bs n =
     foldl (\<lambda>checksum i.
        let value =
              (if i \<ge> EVOKE_DOCUMENT_TID_LOOKUP_CHECKSUM_OFFSET \<and>
                  i < EVOKE_DOCUMENT_TID_LOOKUP_CHECKSUM_OFFSET + 8
               then 0 else bs ! i)
        in (checksum XOR ucast value) * 1099511628211)
       14695981039346656037 [0..<n]"

text \<open>The module has its own copies of the accessors; they are the shared ones.\<close>

lemma tid_accessors [simp]:
  "evoke_document_tid_lookup_write_u16 = evoke_write_u16_le"
  "evoke_document_tid_lookup_write_u32 = evoke_write_u32_le"
  "evoke_document_tid_lookup_write_u64 = evoke_write_u64_le"
  "evoke_document_tid_lookup_read_u16 = evoke_read_u16_le"
  "evoke_document_tid_lookup_read_u32 = evoke_read_u32_le"
  "evoke_document_tid_lookup_read_u64 = evoke_read_u64_le"
proof -
  have "[0..<4] = [0, 1, 2, 3 :: nat]" by code_simp
  then show "evoke_document_tid_lookup_write_u32 = evoke_write_u32_le"
    by (intro ext) (simp add: evoke_document_tid_lookup_write_u32_def evoke_write_u32_le_def)
qed (auto simp: fun_eq_iff evoke_document_tid_lookup_write_u16_def evoke_write_u16_le_def
    evoke_document_tid_lookup_write_u64_def evoke_write_u64_le_def
    evoke_document_tid_lookup_read_u16_def evoke_read_u16_le_def
    evoke_document_tid_lookup_read_u32_def evoke_read_u32_le_def
    evoke_document_tid_lookup_read_u64_def evoke_read_u64_le_def)

section \<open>Building\<close>

text \<open>The check of the entries: keys strictly ascending, slots below the slot count.\<close>

definition tid_entries_ok :: "u64 list \<Rightarrow> u32 list \<Rightarrow> nat \<Rightarrow> u32 \<Rightarrow> bool" where
  "tid_entries_ok tid_keys document_slots n document_slot_count =
     (\<forall>i \<in> set [0..<n].
        \<not> ((i > 0 \<and> tid_keys ! (i - 1) \<ge> tid_keys ! i) \<or> document_slots ! i \<ge> document_slot_count))"

text \<open>The entry loop writes key \<open>i\<close> and slot \<open>i\<close> in turn.\<close>

definition write_tid_entries :: "bytes \<Rightarrow> nat \<Rightarrow> u64 list \<Rightarrow> u32 list \<Rightarrow> nat \<Rightarrow> bytes" where
  "write_tid_entries bs slots_offset tid_keys document_slots n =
     foldl (\<lambda>bs i.
        evoke_document_tid_lookup_write_u32
          (evoke_document_tid_lookup_write_u64 bs
             (EVOKE_DOCUMENT_TID_LOOKUP_HEADER_SIZE + i * 8) (tid_keys ! i))
          (slots_offset + i * 4) (document_slots ! i))
       bs [0..<n]"

definition evoke_document_tid_lookup_serialize ::
  "bool \<Rightarrow> u64 \<Rightarrow> u64 list option \<Rightarrow> u32 list option \<Rightarrow> u32 \<Rightarrow> u32 \<Rightarrow> bytes option \<Rightarrow> u64 option
     \<Rightarrow> evoke_status \<times> bytes option \<times> u64 option" where
  "evoke_document_tid_lookup_serialize calloc_ok source_authority_checksum tid_keys document_slots
     entry_count document_slot_count bytes_out size_out =
     (case (tid_keys, document_slots, bytes_out, size_out) of
        (Some keys, Some slots, Some _, Some _) \<Rightarrow>
          if source_authority_checksum = 0 \<or> entry_count = 0 \<or> document_slot_count < entry_count
          then (EVOKE_ERR_INVALID, bytes_out, size_out)
          else
            let key_bytes = u64_of_u32 entry_count * 8;
                slot_bytes = u64_of_u32 entry_count * 4;
                header = of_nat EVOKE_DOCUMENT_TID_LOOKUP_HEADER_SIZE
            in
              if key_bytes div 8 \<noteq> u64_of_u32 entry_count \<or> slot_bytes div 4 \<noteq> u64_of_u32 entry_count \<or>
                 key_bytes > SIZE_MAX - header \<or> slot_bytes > SIZE_MAX - header - key_bytes
              then (EVOKE_ERR_RANGE, bytes_out, size_out)
              else
                let slots_offset = header + key_bytes;
                    total_size = slots_offset + slot_bytes
                in
                  if slots_offset > u64_of_u32 UINT32_MAX \<or> total_size > u64_of_u32 UINT32_MAX
                  then (EVOKE_ERR_RANGE, bytes_out, size_out)
                  else if \<not> tid_entries_ok keys slots (unat entry_count) document_slot_count
                  then (EVOKE_ERR_FORMAT, bytes_out, size_out)
                  else if \<not> calloc_ok then (EVOKE_ERR_NOMEM, bytes_out, size_out)
                  else
                    let bs = replicate (unat total_size) 0;
                        bs = evoke_document_tid_lookup_write_u32 bs 0 EVOKE_DOCUMENT_TID_LOOKUP_MAGIC;
                        bs = evoke_document_tid_lookup_write_u16 bs 4 EVOKE_DOCUMENT_TID_LOOKUP_VERSION;
                        bs = evoke_document_tid_lookup_write_u16 bs 6
                               (of_nat EVOKE_DOCUMENT_TID_LOOKUP_HEADER_SIZE);
                        bs = evoke_document_tid_lookup_write_u32 bs 8 entry_count;
                        bs = evoke_document_tid_lookup_write_u32 bs 12 document_slot_count;
                        bs = evoke_document_tid_lookup_write_u64 bs 16 source_authority_checksum;
                        bs = evoke_document_tid_lookup_write_u64 bs 24 total_size;
                        bs = evoke_document_tid_lookup_write_u32 bs 40
                               (of_nat EVOKE_DOCUMENT_TID_LOOKUP_HEADER_SIZE);
                        bs = evoke_document_tid_lookup_write_u32 bs 44 (ucast slots_offset);
                        bs = write_tid_entries bs (unat slots_offset) keys slots (unat entry_count);
                        bs = evoke_document_tid_lookup_write_u64 bs
                               EVOKE_DOCUMENT_TID_LOOKUP_CHECKSUM_OFFSET
                               (evoke_document_tid_lookup_checksum bs (unat total_size))
                    in (EVOKE_OK, Some bs, Some total_size)
      | _ \<Rightarrow> (EVOKE_ERR_INVALID, bytes_out, size_out))"

section \<open>Opening\<close>

definition tid_view_entries_ok :: "bytes \<Rightarrow> nat \<Rightarrow> nat \<Rightarrow> nat \<Rightarrow> u32 \<Rightarrow> bool" where
  "tid_view_entries_ok bs keys_offset slots_offset n document_slot_count =
     (\<forall>i \<in> set [0..<n].
        let key = evoke_document_tid_lookup_read_u64 bs (keys_offset + i * 8);
            slot = evoke_document_tid_lookup_read_u32 bs (slots_offset + i * 4);
            previous = (if i = 0 then 0
                        else evoke_document_tid_lookup_read_u64 bs (keys_offset + (i - 1) * 8))
        in \<not> ((i > 0 \<and> previous \<ge> key) \<or> slot \<ge> document_slot_count))"

definition evoke_document_tid_lookup_open ::
  "bytes option \<Rightarrow> u64 \<Rightarrow> u32 \<Rightarrow> u32 \<Rightarrow> evoke_document_tid_lookup_view option
     \<Rightarrow> evoke_status \<times> evoke_document_tid_lookup_view option" where
  "evoke_document_tid_lookup_open bytes_in expected_source_authority_checksum expected_entry_count
     expected_document_slot_count view_out =
     (case (bytes_in, view_out) of
        (Some bs, Some _) \<Rightarrow>
          if length bs < EVOKE_DOCUMENT_TID_LOOKUP_HEADER_SIZE then (EVOKE_ERR_INVALID, view_out)
          else
            let entry_count = evoke_document_tid_lookup_read_u32 bs 8;
                document_slot_count = evoke_document_tid_lookup_read_u32 bs 12;
                source_authority_checksum = evoke_document_tid_lookup_read_u64 bs 16;
                keys_offset = u64_of_u32 (evoke_document_tid_lookup_read_u32 bs 40);
                slots_offset = u64_of_u32 (evoke_document_tid_lookup_read_u32 bs 44)
            in
              if evoke_document_tid_lookup_read_u32 bs 0 \<noteq> EVOKE_DOCUMENT_TID_LOOKUP_MAGIC \<or>
                 evoke_document_tid_lookup_read_u16 bs 4 \<noteq> EVOKE_DOCUMENT_TID_LOOKUP_VERSION \<or>
                 evoke_document_tid_lookup_read_u16 bs 6 \<noteq> of_nat EVOKE_DOCUMENT_TID_LOOKUP_HEADER_SIZE \<or>
                 entry_count = 0 \<or>
                 (expected_entry_count \<noteq> 0 \<and> entry_count \<noteq> expected_entry_count) \<or>
                 document_slot_count < entry_count \<or>
                 (expected_document_slot_count \<noteq> 0 \<and>
                  document_slot_count \<noteq> expected_document_slot_count) \<or>
                 source_authority_checksum = 0 \<or>
                 (expected_source_authority_checksum \<noteq> 0 \<and>
                  source_authority_checksum \<noteq> expected_source_authority_checksum) \<or>
                 keys_offset \<noteq> of_nat EVOKE_DOCUMENT_TID_LOOKUP_HEADER_SIZE \<or>
                 slots_offset \<noteq> keys_offset + u64_of_u32 entry_count * 8 \<or>
                 slots_offset < keys_offset
              then (EVOKE_ERR_FORMAT, Some zero_tid_view)
              else
                let expected_size = slots_offset + u64_of_u32 entry_count * 4;
                    buffer_size = of_nat (length bs)
                in
                  if expected_size < slots_offset \<or> expected_size \<noteq> buffer_size \<or>
                     evoke_document_tid_lookup_read_u64 bs 24 \<noteq> buffer_size \<or>
                     evoke_document_tid_lookup_read_u64 bs 32 \<noteq>
                       evoke_document_tid_lookup_checksum bs (length bs)
                  then (EVOKE_ERR_FORMAT, Some zero_tid_view)
                  else if \<not> tid_view_entries_ok bs (unat keys_offset) (unat slots_offset)
                              (unat entry_count) document_slot_count
                  then (EVOKE_ERR_FORMAT, Some zero_tid_view)
                  else
                    (EVOKE_OK, Some
                      \<lparr>view_bytes = Some bs, view_size = buffer_size, view_keys_offset = keys_offset,
                       view_slots_offset = slots_offset,
                       view_source_authority_checksum = source_authority_checksum,
                       view_entry_count = entry_count,
                       view_document_slot_count = document_slot_count\<rparr>)
      | _ \<Rightarrow> (EVOKE_ERR_INVALID, view_out))"

section \<open>Reading and searching\<close>

definition evoke_document_tid_lookup_entry ::
  "evoke_document_tid_lookup_view option \<Rightarrow> u32 \<Rightarrow> u64 option \<Rightarrow> u32 option
     \<Rightarrow> evoke_status \<times> u64 option \<times> u32 option" where
  "evoke_document_tid_lookup_entry view entry_index tid_key_out document_slot_out =
     (case (view, tid_key_out, document_slot_out) of
        (Some v, Some _, Some _) \<Rightarrow>
          (case view_bytes v of
             None \<Rightarrow> (EVOKE_ERR_INVALID, tid_key_out, document_slot_out)
           | Some bs \<Rightarrow>
               if entry_index \<ge> view_entry_count v
               then (EVOKE_ERR_INVALID, tid_key_out, document_slot_out)
               else (EVOKE_OK,
                     Some (evoke_document_tid_lookup_read_u64 bs
                             (unat (view_keys_offset v) + unat entry_index * 8)),
                     Some (evoke_document_tid_lookup_read_u32 bs
                             (unat (view_slots_offset v) + unat entry_index * 4))))
      | _ \<Rightarrow> (EVOKE_ERR_INVALID, tid_key_out, document_slot_out))"

function tid_find_loop :: "bytes \<Rightarrow> nat \<Rightarrow> u64 \<Rightarrow> nat \<Rightarrow> nat \<Rightarrow> nat" where
  "tid_find_loop bs keys_offset tid_key low high =
     (if low < high then
        let middle = low + (high - low) div 2;
            candidate = evoke_document_tid_lookup_read_u64 bs (keys_offset + middle * 8)
        in if candidate < tid_key then tid_find_loop bs keys_offset tid_key (middle + 1) high
           else tid_find_loop bs keys_offset tid_key low middle
      else low)"
  by pat_completeness auto
termination
  by (relation "measure (\<lambda>(_, _, _, low, high). high - low)") auto

declare tid_find_loop.simps [simp del]

definition evoke_document_tid_lookup_find ::
  "evoke_document_tid_lookup_view option \<Rightarrow> u64 \<Rightarrow> u32 option \<Rightarrow> bool \<times> u32 option" where
  "evoke_document_tid_lookup_find view tid_key document_slot_out =
     (case (view, document_slot_out) of
        (Some v, Some _) \<Rightarrow>
          (case view_bytes v of
             None \<Rightarrow> (False, document_slot_out)
           | Some bs \<Rightarrow>
               let low = tid_find_loop bs (unat (view_keys_offset v)) tid_key 0
                           (unat (view_entry_count v))
               in if low \<ge> unat (view_entry_count v) \<or>
                     evoke_document_tid_lookup_read_u64 bs (unat (view_keys_offset v) + low * 8) \<noteq> tid_key
                  then (False, document_slot_out)
                  else (True, Some (evoke_document_tid_lookup_read_u32 bs
                                      (unat (view_slots_offset v) + low * 4))))
      | _ \<Rightarrow> (False, document_slot_out))"

section \<open>Bisection\<close>

text \<open>The entries of a view, as the code reads them.\<close>

definition view_key :: "evoke_document_tid_lookup_view \<Rightarrow> nat \<Rightarrow> u64" where
  "view_key v i = evoke_read_u64_le (the (view_bytes v)) (unat (view_keys_offset v) + i * 8)"

definition view_slot :: "evoke_document_tid_lookup_view \<Rightarrow> nat \<Rightarrow> u32" where
  "view_slot v i = evoke_read_u32_le (the (view_bytes v)) (unat (view_slots_offset v) + i * 4)"

lemma tid_find_loop_lower_bound:
  assumes "low \<le> high" and "\<And>i j. i \<le> j \<Longrightarrow> j < n \<Longrightarrow> key i \<le> key j" and "high \<le> n"
    and "\<And>i. key i = evoke_read_u64_le bs (keys_offset + i * 8)"
    and "\<And>i. i < low \<Longrightarrow> key i < k" and "\<And>i. high \<le> i \<Longrightarrow> i < n \<Longrightarrow> k \<le> key i"
  shows "tid_find_loop bs keys_offset k low high \<le> high \<and>
    (\<forall>i < tid_find_loop bs keys_offset k low high. key i < k) \<and>
    (\<forall>i. tid_find_loop bs keys_offset k low high \<le> i \<longrightarrow> i < n \<longrightarrow> k \<le> key i)"
  using assms(1,3,4,5,6)
proof (induction bs keys_offset k low high rule: tid_find_loop.induct)
  case (1 bs keys_offset k low high)
  show ?case
  proof (cases "low < high")
    case False
    then have "tid_find_loop bs keys_offset k low high = low" by (subst tid_find_loop.simps) simp
    with False "1.prems"(1,4,5) show ?thesis by auto
  next
    case True
    define middle where "middle = low + (high - low) div 2"
    have m: "low \<le> middle" "middle < high" using True by (simp_all add: middle_def)
    have cand: "evoke_document_tid_lookup_read_u64 bs (keys_offset + middle * 8) = key middle"
      using "1.prems"(3) by simp
    show ?thesis
    proof (cases "key middle < k")
      case less: True
      have step: "tid_find_loop bs keys_offset k low high = tid_find_loop bs keys_offset k (middle + 1) high"
        using True less cand
        by (simp add: tid_find_loop.simps [of bs keys_offset k low high] Let_def middle_def [symmetric])
      have "key i < k" if "i < middle + 1" for i
        using assms(2) [of i middle] that m(2) "1.prems"(2) less by fastforce
      then show ?thesis
        unfolding step using m "1.prems"
        by (intro "1.IH"(1) [OF True middle_def refl]) (use less cand in auto)
    next
      case ge: False
      have step: "tid_find_loop bs keys_offset k low high = tid_find_loop bs keys_offset k low middle"
        using True ge cand
        by (simp add: tid_find_loop.simps [of bs keys_offset k low high] Let_def middle_def [symmetric])
      have up: "k \<le> key i" if "middle \<le> i" "i < n" for i
        using assms(2) [OF that] ge by simp
      have "tid_find_loop bs keys_offset k low middle \<le> middle \<and>
        (\<forall>i < tid_find_loop bs keys_offset k low middle. key i < k) \<and>
        (\<forall>i. tid_find_loop bs keys_offset k low middle \<le> i \<longrightarrow> i < n \<longrightarrow> k \<le> key i)"
        using m "1.prems" up
        by (intro "1.IH"(2) [OF True middle_def refl]) (use ge cand in auto)
      then show ?thesis unfolding step using m(2) by auto
    qed
  qed
qed

section \<open>Opened views\<close>

definition tid_view_ok :: "evoke_document_tid_lookup_view \<Rightarrow> bool" where
  "tid_view_ok v \<longleftrightarrow>
     (\<exists>bs. view_bytes v = Some bs \<and> view_keys_offset v = 48 \<and>
        unat (view_slots_offset v) = 48 + 8 * unat (view_entry_count v) \<and>
        length bs = 48 + 12 * unat (view_entry_count v)) \<and>
     0 < unat (view_entry_count v) \<and> view_entry_count v \<le> view_document_slot_count v \<and>
     (\<forall>j < unat (view_entry_count v). \<forall>i < j. view_key v i < view_key v j) \<and>
     (\<forall>i < unat (view_entry_count v). view_slot v i < view_document_slot_count v)"

lemma ascending_from_steps:
  fixes f :: "nat \<Rightarrow> 'a::order"
  assumes "\<And>i. 0 < i \<Longrightarrow> i < n \<Longrightarrow> f (i - 1) < f i"
  shows "j < n \<Longrightarrow> i < j \<Longrightarrow> f i < f j"
proof (induction j)
  case (Suc j)
  have step: "f j < f (Suc j)" using assms [of "Suc j"] Suc.prems by simp
  show ?case
  proof (cases "i = j")
    case False
    with Suc have "f i < f j" by simp
    with step show ?thesis by simp
  qed (use step in simp)
qed simp

lemma find_view_ok:
  assumes "tid_view_ok v"
  shows "i < unat (view_entry_count v) \<Longrightarrow> view_key v i = k \<Longrightarrow>
      evoke_document_tid_lookup_find (Some v) k (Some x) = (True, Some (view_slot v i))"
    and "(\<And>i. i < unat (view_entry_count v) \<Longrightarrow> view_key v i \<noteq> k) \<Longrightarrow>
      evoke_document_tid_lookup_find (Some v) k (Some x) = (False, Some x)"
proof -
  let ?n = "unat (view_entry_count v)"
  obtain bs where bs: "view_bytes v = Some bs" using assms by (auto simp: tid_view_ok_def)
  define low where "low = tid_find_loop bs (unat (view_keys_offset v)) k 0 ?n"
  have asc: "view_key v i < view_key v j" if "i < j" "j < ?n" for i j
    using assms that by (simp add: tid_view_ok_def)
  have "low \<le> ?n \<and> (\<forall>i < low. view_key v i < k) \<and> (\<forall>i. low \<le> i \<longrightarrow> i < ?n \<longrightarrow> k \<le> view_key v i)"
    unfolding low_def
    by (rule tid_find_loop_lower_bound)
      (use asc in \<open>auto simp: view_key_def bs le_less\<close>)
  then have low: "low \<le> ?n" "\<And>i. i < low \<Longrightarrow> view_key v i < k"
      "\<And>i. low \<le> i \<Longrightarrow> i < ?n \<Longrightarrow> k \<le> view_key v i" by auto
  have run: "evoke_document_tid_lookup_find (Some v) k (Some x) =
      (if low \<ge> ?n \<or> view_key v low \<noteq> k then (False, Some x) else (True, Some (view_slot v low)))"
    by (simp add: evoke_document_tid_lookup_find_def bs Let_def low_def view_key_def view_slot_def)
  show "evoke_document_tid_lookup_find (Some v) k (Some x) = (True, Some (view_slot v i))"
    if "i < ?n" "view_key v i = k" for i
  proof -
    have "\<not> i < low" using low(2) [of i] that(2) by auto
    moreover have "\<not> low < i" using asc [of low i] low(3) [of low] that by fastforce
    ultimately have "i = low" by simp
    with that run show ?thesis by simp
  qed
  show "(\<And>i. i < ?n \<Longrightarrow> view_key v i \<noteq> k) \<Longrightarrow>
      evoke_document_tid_lookup_find (Some v) k (Some x) = (False, Some x)"
    using run by (auto simp: not_le)
qed

lemma tid_checksum_zeroed:
  assumes "40 \<le> n" and "n \<le> length bs"
  shows "evoke_document_tid_lookup_checksum bs n = evoke_checksum_with_zero_range bs n 32 8"
proof -
  have z: "zeroed n 32 bs = map (\<lambda>i. if i \<ge> 32 \<and> i < 40 then 0 else bs ! i) [0..<n]"
    using assms by (intro nth_equalityI) (auto simp: zeroed_def nth_append)
  have "foldl fnv_step c (map f is) = foldl (\<lambda>c i. fnv_step c (f i)) c is" for c f and "is" :: "nat list"
    by (induction "is" arbitrary: c) simp_all
  then show ?thesis
    unfolding checksum_zeroed z evoke_checksum_update_def
    by (simp add: evoke_document_tid_lookup_checksum_def tid_consts fnv_step_def FNV_OFFSET_BASIS_def Let_def)
qed

lemma unat_mult_widened:
  "unat (u64_of_u32 x * 8) = unat x * 8" "unat (u64_of_u32 x * 4) = unat x * 4"
  using u32_less [of x] by (simp_all add: unat_word_ariths del: u32_less)

lemma unat_slots_end:
  "unat (48 + u64_of_u32 x * 8) = 48 + unat x * 8"
  "unat (48 + u64_of_u32 x * 8 + u64_of_u32 x * 4) = 48 + unat x * 12"
  "unat (12 * u64_of_u32 x + 48) = 48 + unat x * 12"
proof -
  have b: "unat x < 4294967296" by simp
  have "unat (48 :: u64) + unat (u64_of_u32 x * 8) < 18446744073709551616"
    using b by (simp add: unat_mult_widened del: u32_less)
  from unat_add_u64 [OF this] show s: "unat (48 + u64_of_u32 x * 8) = 48 + unat x * 8"
    by (simp add: unat_mult_widened)
  have "unat (48 + u64_of_u32 x * 8) + unat (u64_of_u32 x * 4) < 18446744073709551616"
    using b by (simp add: s unat_mult_widened del: u32_less)
  from unat_add_u64 [OF this] show t: "unat (48 + u64_of_u32 x * 8 + u64_of_u32 x * 4) = 48 + unat x * 12"
    unfolding s unat_mult_widened by simp
  have "12 * u64_of_u32 x + 48 = 48 + u64_of_u32 x * 8 + u64_of_u32 x * 4" by simp
  with t show "unat (12 * u64_of_u32 x + 48) = 48 + unat x * 12" by metis
qed

lemma open_fields:
  assumes "evoke_document_tid_lookup_open (Some bs) sc ec dc (Some v0) = (EVOKE_OK, Some v)"
  shows "view_bytes v = Some bs" and "48 \<le> length bs" and "view_keys_offset v = 48"
    and "view_slots_offset v = 48 + u64_of_u32 (view_entry_count v) * 8"
    and "of_nat (length bs) = 48 + u64_of_u32 (view_entry_count v) * 8 + u64_of_u32 (view_entry_count v) * 4"
    and "view_entry_count v \<noteq> 0" and "view_entry_count v \<le> view_document_slot_count v"
    and "tid_view_entries_ok bs 48 (unat (view_slots_offset v)) (unat (view_entry_count v)) (view_document_slot_count v)"
    and "evoke_read_u64_le bs 32 = evoke_document_tid_lookup_checksum bs (length bs)"
  using assms
  by (auto simp: evoke_document_tid_lookup_open_def Let_def tid_consts not_less split: if_splits)

lemma open_view_ok:
  assumes "evoke_document_tid_lookup_open (Some bs) sc ec dc (Some v0) = (EVOKE_OK, Some v)"
    and "length bs < 2 ^ 64"
  shows "tid_view_ok v"
proof -
  note of = open_fields [OF assms(1)]
  let ?n = "unat (view_entry_count v)"
  have len: "length bs = 48 + ?n * 12"
    using of(5) [THEN arg_cong [where f = unat]] assms(2) unfolding unat_slots_end by (simp add: unat_of_nat)
  have so: "unat (view_slots_offset v) = 48 + 8 * ?n" unfolding of(4) unat_slots_end by simp
  have k: "view_key v i = evoke_read_u64_le bs (48 + i * 8)"
      "view_slot v i = evoke_read_u32_le bs (unat (view_slots_offset v) + i * 4)" for i
    by (simp_all add: view_key_def view_slot_def of(1,3))
  have e: "\<not> ((i > 0 \<and> view_key v (i - 1) \<ge> view_key v i) \<or> view_slot v i \<ge> view_document_slot_count v)"
    if "i < ?n" for i
  proof -
    have "i \<in> set [0..<?n]" using that by simp
    with of(8) show ?thesis
      unfolding k tid_view_entries_ok_def tid_accessors Let_def
      by (cases "i = 0") (auto dest!: bspec)
  qed
  have "\<forall>j < ?n. \<forall>i < j. view_key v i < view_key v j"
    using ascending_from_steps [of ?n "view_key v"] e not_le by blast
  moreover have "0 < ?n" using of(6) by (simp add: unat_gt_0)
  moreover have "\<forall>i < ?n. view_slot v i < view_document_slot_count v" using e not_le by blast
  ultimately show ?thesis
    using of(1,3,7) len so by (simp add: tid_view_ok_def mult.commute)
qed

text \<open>
  C14. Whatever bytes \<open>open\<close> accepts, searching the view is a lookup in the entries the view
  lists: a key that occurs is found with its slot, which is below the slot count, a key that does
  not occur is not found, and every read of an entry stays inside the buffer.
\<close>

theorem tid_find_exact:
  assumes "evoke_document_tid_lookup_open (Some bs) sc ec dc (Some v0) = (EVOKE_OK, Some v)"
    and "length bs < 2 ^ 64"
  shows "(\<forall>i < unat (view_entry_count v).
      48 + i * 8 + 8 \<le> length bs \<and> unat (view_slots_offset v) + i * 4 + 4 \<le> length bs \<and>
      evoke_document_tid_lookup_find (Some v) (view_key v i) (Some x) = (True, Some (view_slot v i)) \<and>
      evoke_document_tid_lookup_entry (Some v) (of_nat i) (Some a) (Some b) =
        (EVOKE_OK, Some (view_key v i), Some (view_slot v i)) \<and>
      view_slot v i < view_document_slot_count v) \<and>
    (\<forall>k. (\<forall>i < unat (view_entry_count v). view_key v i \<noteq> k) \<longrightarrow>
      evoke_document_tid_lookup_find (Some v) k (Some x) = (False, Some x))"
proof -
  let ?n = "unat (view_entry_count v)"
  have ok: "tid_view_ok v" by (rule open_view_ok [OF assms])
  have b: "view_bytes v = Some bs" by (rule open_fields(1) [OF assms(1)])
  have "48 + i * 8 + 8 \<le> length bs \<and> unat (view_slots_offset v) + i * 4 + 4 \<le> length bs" if "i < ?n" for i
    using ok b that by (auto simp: tid_view_ok_def)
  moreover have "evoke_document_tid_lookup_entry (Some v) (of_nat i) (Some a) (Some b') =
        (EVOKE_OK, Some (view_key v i), Some (view_slot v i))" if "i < ?n" for i b'
  proof -
    have "i < 2 ^ 32" using that u32_less [of "view_entry_count v"] by (simp del: u32_less)
    then have u: "unat (of_nat i :: u32) = i" by (simp add: unat_of_nat)
    then have "\<not> of_nat i \<ge> view_entry_count v" using that by (simp add: word_le_nat_alt)
    then show ?thesis
      using b u by (simp add: evoke_document_tid_lookup_entry_def view_key_def view_slot_def)
  qed
  ultimately show ?thesis
    using find_view_ok [OF ok] ok by (auto simp: tid_view_ok_def)
qed

section \<open>Building and opening again\<close>

lemma length_write_tid_entries [simp]: "length (write_tid_entries bs so keys slots n) = length bs"
  by (induction n) (simp_all add: write_tid_entries_def)

lemma write_tid_entries_Suc:
  "write_tid_entries bs so keys slots (Suc n) =
     evoke_write_u32_le (evoke_write_u64_le (write_tid_entries bs so keys slots n) (48 + n * 8) (keys ! n))
       (so + n * 4) (slots ! n)"
  by (simp add: write_tid_entries_def tid_consts)

lemma read_tid_entries_header [codec]:
  assumes "48 \<le> so"
  shows "off + 2 \<le> 48 \<Longrightarrow> evoke_read_u16_le (write_tid_entries bs so keys slots n) off = evoke_read_u16_le bs off"
    and "off + 4 \<le> 48 \<Longrightarrow> evoke_read_u32_le (write_tid_entries bs so keys slots n) off = evoke_read_u32_le bs off"
    and "off + 8 \<le> 48 \<Longrightarrow> evoke_read_u64_le (write_tid_entries bs so keys slots n) off = evoke_read_u64_le bs off"
proof -
  have z: "write_tid_entries bs so keys slots 0 = bs" by (simp add: write_tid_entries_def)
  show "off + 2 \<le> 48 \<Longrightarrow> evoke_read_u16_le (write_tid_entries bs so keys slots n) off = evoke_read_u16_le bs off"
    and "off + 4 \<le> 48 \<Longrightarrow> evoke_read_u32_le (write_tid_entries bs so keys slots n) off = evoke_read_u32_le bs off"
    and "off + 8 \<le> 48 \<Longrightarrow> evoke_read_u64_le (write_tid_entries bs so keys slots n) off = evoke_read_u64_le bs off"
    using assms by (induction n) (simp_all add: z write_tid_entries_Suc codec)
qed

lemma read_tid_entries:
  assumes "so = 48 + 8 * N" and "n \<le> N" and "48 + 12 * N \<le> length bs" and "j < n"
  shows "evoke_read_u64_le (write_tid_entries bs so keys slots n) (48 + j * 8) = keys ! j \<and>
    evoke_read_u32_le (write_tid_entries bs so keys slots n) (so + j * 4) = slots ! j"
  using assms(2,4)
proof (induction n)
  case (Suc n)
  show ?case
  proof (cases "j = n")
    case True
    with Suc.prems assms(1,3) show ?thesis by (simp add: write_tid_entries_Suc codec)
  next
    case False
    with Suc have "evoke_read_u64_le (write_tid_entries bs so keys slots n) (48 + j * 8) = keys ! j \<and>
      evoke_read_u32_le (write_tid_entries bs so keys slots n) (so + j * 4) = slots ! j" by simp
    with False Suc.prems assms(1) show ?thesis by (simp add: write_tid_entries_Suc codec)
  qed
qed simp

lemma u32_widen_cast:
  "unat (y :: u64) \<le> 4294967295 \<Longrightarrow> u64_of_u32 (ucast y) = y"
  by (simp add: word_unat_eq_iff unat_ucast_u64_u32)

text \<open>The header of a table of \<open>ec\<close> entries before the entries are written.\<close>

definition tid_header :: "u64 \<Rightarrow> u32 \<Rightarrow> u32 \<Rightarrow> bytes" where
  "tid_header sc ec dc =
     (let bs = replicate (48 + unat ec * 12) 0;
          bs = evoke_write_u32_le bs 0 EVOKE_DOCUMENT_TID_LOOKUP_MAGIC;
          bs = evoke_write_u16_le bs 4 EVOKE_DOCUMENT_TID_LOOKUP_VERSION;
          bs = evoke_write_u16_le bs 6 48;
          bs = evoke_write_u32_le bs 8 ec;
          bs = evoke_write_u32_le bs 12 dc;
          bs = evoke_write_u64_le bs 16 sc;
          bs = evoke_write_u64_le bs 24 (48 + u64_of_u32 ec * 8 + u64_of_u32 ec * 4);
          bs = evoke_write_u32_le bs 40 48;
          bs = evoke_write_u32_le bs 44 (ucast (48 + u64_of_u32 ec * 8))
      in bs)"

lemma length_tid_header [simp]: "length (tid_header sc ec dc) = 48 + unat ec * 12"
  by (simp add: tid_header_def Let_def)

lemma read_tid_header:
  "evoke_read_u32_le (tid_header sc ec dc) 0 = EVOKE_DOCUMENT_TID_LOOKUP_MAGIC"
  "evoke_read_u16_le (tid_header sc ec dc) 4 = EVOKE_DOCUMENT_TID_LOOKUP_VERSION"
  "evoke_read_u16_le (tid_header sc ec dc) 6 = 48"
  "evoke_read_u32_le (tid_header sc ec dc) 8 = ec"
  "evoke_read_u32_le (tid_header sc ec dc) 12 = dc"
  "evoke_read_u64_le (tid_header sc ec dc) 16 = sc"
  "evoke_read_u64_le (tid_header sc ec dc) 24 = 48 + u64_of_u32 ec * 8 + u64_of_u32 ec * 4"
  "evoke_read_u32_le (tid_header sc ec dc) 40 = 48"
  "evoke_read_u32_le (tid_header sc ec dc) 44 = ucast (48 + u64_of_u32 ec * 8)"
  by (simp_all add: tid_header_def Let_def codec)

lemma serialize_run:
  assumes "evoke_document_tid_lookup_serialize calloc_ok sc (Some keys) (Some slots) ec dc (Some b0) (Some s0) =
      (EVOKE_OK, Some bs, out_size)"
  defines "w \<equiv> write_tid_entries (tid_header sc ec dc) (48 + unat ec * 8) keys slots (unat ec)"
  shows "bs = evoke_write_u64_le w 32 (evoke_document_tid_lookup_checksum w (48 + unat ec * 12))"
    and "sc \<noteq> 0" and "ec \<noteq> 0" and "ec \<le> dc" and "48 + unat ec * 12 \<le> 4294967295"
    and "tid_entries_ok keys slots (unat ec) dc"
proof -
  have g: "sc \<noteq> 0" "ec \<noteq> 0" "\<not> dc < ec" "\<not> 48 + u64_of_u32 ec * 8 + u64_of_u32 ec * 4 > u64_of_u32 UINT32_MAX"
    "tid_entries_ok keys slots (unat ec) dc"
    using assms(1)
    by (auto simp: evoke_document_tid_lookup_serialize_def tid_consts Let_def split: if_splits)
  then show "sc \<noteq> 0" and "ec \<noteq> 0" and "ec \<le> dc" and "tid_entries_ok keys slots (unat ec) dc"
    by (simp_all add: not_less)
  show "48 + unat ec * 12 \<le> 4294967295"
    using g(4) unfolding word_less_nat_alt unat_slots_end by simp
  show "bs = evoke_write_u64_le w 32 (evoke_document_tid_lookup_checksum w (48 + unat ec * 12))"
    using assms(1)
    by (auto simp: evoke_document_tid_lookup_serialize_def tid_consts Let_def w_def tid_header_def
        unat_slots_end split: if_splits)
qed


lemma open_intro:
  assumes "48 \<le> length bs" and "evoke_read_u32_le bs 0 = EVOKE_DOCUMENT_TID_LOOKUP_MAGIC"
    and "evoke_read_u16_le bs 4 = EVOKE_DOCUMENT_TID_LOOKUP_VERSION" and "evoke_read_u16_le bs 6 = 48"
    and "evoke_read_u32_le bs 8 = ec" and "evoke_read_u32_le bs 12 = dc" and "evoke_read_u64_le bs 16 = sc"
    and "u64_of_u32 (evoke_read_u32_le bs 40) = 48" and "u64_of_u32 (evoke_read_u32_le bs 44) = so"
    and "so = 48 + u64_of_u32 ec * 8" and "\<not> so < 48" and "ec \<noteq> 0" and "\<not> dc < ec" and "sc \<noteq> 0"
    and "\<not> so + u64_of_u32 ec * 4 < so" and "of_nat (length bs) = so + u64_of_u32 ec * 4"
    and "evoke_read_u64_le bs 24 = so + u64_of_u32 ec * 4"
    and "evoke_read_u64_le bs 32 = evoke_document_tid_lookup_checksum bs (length bs)"
    and "tid_view_entries_ok bs 48 (unat so) (unat ec) dc"
  shows "evoke_document_tid_lookup_open (Some bs) sc ec dc (Some v0) =
    (EVOKE_OK, Some \<lparr>view_bytes = Some bs, view_size = of_nat (length bs), view_keys_offset = 48,
       view_slots_offset = so, view_source_authority_checksum = sc, view_entry_count = ec,
       view_document_slot_count = dc\<rparr>)"
proof -
  have "\<not> length bs < 48" using assms(1) by simp
  moreover have "unat (48 :: u64) = 48" by simp
  ultimately show ?thesis
    unfolding evoke_document_tid_lookup_open_def option.case prod.case Let_def tid_accessors tid_consts
      of_nat_numeral
    unfolding assms(2-9,16-18) assms(10) [symmetric]
    using assms(11-15,19) by (simp only: simp_thms if_False if_True)
qed

text \<open>What a serialized table holds: its length, its header, its entries and its seal.\<close>

lemma serialized_table:
  assumes "evoke_document_tid_lookup_serialize calloc_ok sc (Some keys) (Some slots) ec dc (Some b0) (Some s0) =
      (EVOKE_OK, Some bs, out_size)"
  shows "length bs = 48 + unat ec * 12"
    and "evoke_read_u32_le bs 0 = EVOKE_DOCUMENT_TID_LOOKUP_MAGIC" "evoke_read_u16_le bs 4 = EVOKE_DOCUMENT_TID_LOOKUP_VERSION"
      "evoke_read_u16_le bs 6 = 48" "evoke_read_u32_le bs 8 = ec" "evoke_read_u32_le bs 12 = dc" "evoke_read_u64_le bs 16 = sc"
      "evoke_read_u64_le bs 24 = 48 + u64_of_u32 ec * 8 + u64_of_u32 ec * 4"
      "evoke_read_u32_le bs 40 = 48" "evoke_read_u32_le bs 44 = ucast (48 + u64_of_u32 ec * 8)"
    and "i < unat ec \<Longrightarrow> evoke_read_u64_le bs (48 + i * 8) = keys ! i \<and> evoke_read_u32_le bs (48 + unat ec * 8 + i * 4) = slots ! i"
    and "evoke_read_u64_le bs 32 = evoke_document_tid_lookup_checksum bs (length bs)"
proof -
  define w where "w = write_tid_entries (tid_header sc ec dc) (48 + unat ec * 8) keys slots (unat ec)"
  note run = serialize_run [OF assms, folded w_def]
  have lw: "length w = 48 + unat ec * 12" by (simp add: w_def)
  then show lb: "length bs = 48 + unat ec * 12" by (simp add: run(1))
  show "evoke_read_u32_le bs 0 = EVOKE_DOCUMENT_TID_LOOKUP_MAGIC" "evoke_read_u16_le bs 4 = EVOKE_DOCUMENT_TID_LOOKUP_VERSION"
    "evoke_read_u16_le bs 6 = 48" "evoke_read_u32_le bs 8 = ec" "evoke_read_u32_le bs 12 = dc" "evoke_read_u64_le bs 16 = sc"
    "evoke_read_u64_le bs 24 = 48 + u64_of_u32 ec * 8 + u64_of_u32 ec * 4"
    "evoke_read_u32_le bs 40 = 48" "evoke_read_u32_le bs 44 = ucast (48 + u64_of_u32 ec * 8)"
    by (simp_all add: run(1) w_def codec read_tid_header)
  show "evoke_read_u64_le bs (48 + i * 8) = keys ! i \<and> evoke_read_u32_le bs (48 + unat ec * 8 + i * 4) = slots ! i"
    if "i < unat ec"
  proof -
    have "evoke_read_u64_le w (48 + i * 8) = keys ! i \<and> evoke_read_u32_le w (48 + unat ec * 8 + i * 4) = slots ! i"
      unfolding w_def by (rule read_tid_entries [where N = "unat ec"]) (use that in \<open>simp_all add: mult.commute\<close>)
    then show ?thesis by (simp add: run(1) codec)
  qed
  have "evoke_document_tid_lookup_checksum w (48 + unat ec * 12) = evoke_checksum_with_zero_range w (48 + unat ec * 12) 32 8"
    by (rule tid_checksum_zeroed) (simp_all add: lw)
  then have "sealed (48 + unat ec * 12) 32 bs"
    unfolding run(1) by (simp only:) (rule sealed_write_checksum, simp_all add: lw)
  then show "evoke_read_u64_le bs 32 = evoke_document_tid_lookup_checksum bs (length bs)"
    using tid_checksum_zeroed [of "48 + unat ec * 12" bs] lb by (simp add: sealed_def)
qed

lemma serialized_opens:
  assumes "evoke_document_tid_lookup_serialize calloc_ok sc (Some keys) (Some slots) ec dc (Some b0) (Some s0) =
      (EVOKE_OK, Some bs, out_size)"
  shows "evoke_document_tid_lookup_open (Some bs) sc ec dc (Some v0) =
    (EVOKE_OK, Some \<lparr>view_bytes = Some bs, view_size = of_nat (length bs), view_keys_offset = 48,
       view_slots_offset = 48 + u64_of_u32 ec * 8, view_source_authority_checksum = sc,
       view_entry_count = ec, view_document_slot_count = dc\<rparr>)"
proof (rule open_intro)
  note run = serialize_run(2-6) [OF assms] and t = serialized_table [OF assms]
  have "length bs < 2 ^ 64" using t(1) run(4) by simp
  then have "unat (of_nat (length bs) :: u64) = length bs" by (simp add: unat_of_nat)
  then have "unat (of_nat (length bs) :: u64) = 48 + unat ec * 12" unfolding t(1) .
  then show "of_nat (length bs) = 48 + u64_of_u32 ec * 8 + u64_of_u32 ec * 4" unfolding word_unat_eq_iff unat_slots_end .
  show "u64_of_u32 (evoke_read_u32_le bs 44) = 48 + u64_of_u32 ec * 8"
    unfolding t(10) using run(4) by (intro u32_widen_cast) (simp add: unat_slots_end)
  show "tid_view_entries_ok bs 48 (unat (48 + u64_of_u32 ec * 8)) (unat ec) dc"
    using run(5) t(11) unfolding unat_slots_end tid_view_entries_ok_def tid_entries_ok_def tid_accessors Let_def
    by (auto simp: less_imp_diff_less)
  show "\<not> 48 + u64_of_u32 ec * 8 < 48" "\<not> 48 + u64_of_u32 ec * 8 + u64_of_u32 ec * 4 < 48 + u64_of_u32 ec * 8"
    unfolding word_less_nat_alt unat_slots_end by simp_all
  show "u64_of_u32 (evoke_read_u32_le bs 40) = 48" unfolding t(9) by (simp add: u64_of_u32_def)
qed (use serialize_run(2-4) [OF assms] serialized_table [OF assms] in simp_all)

lemma find_map_of:
  assumes ok: "tid_view_ok v" and n: "unat (view_entry_count v) = length keys" "length slots = length keys"
    and entries: "\<And>i. i < length keys \<Longrightarrow> view_key v i = keys ! i \<and> view_slot v i = slots ! i"
  shows "evoke_document_tid_lookup_find (Some v) k (Some x) =
    (case map_of (zip keys slots) k of None \<Rightarrow> (False, Some x) | Some s \<Rightarrow> (True, Some s))"
proof (cases "map_of (zip keys slots) k")
  case None
  then have "k \<notin> set keys" using n(2) by (simp add: map_of_zip_is_None)
  then have "\<And>i. i < unat (view_entry_count v) \<Longrightarrow> view_key v i \<noteq> k"
    using entries n(1) by (metis nth_mem)
  from find_view_ok(2) [OF ok this] None show ?thesis by simp
next
  case (Some s)
  then obtain i where "i < length (zip keys slots)" "zip keys slots ! i = (k, s)"
    by (metis map_of_SomeD in_set_conv_nth)
  then have i: "i < length keys" "keys ! i = k" "slots ! i = s" using n(2) by simp_all
  with find_view_ok(1) [OF ok, of i k x] entries n(1) Some show ?thesis by simp
qed

text \<open>
  C15. A table that was serialized opens again, under the expectations it was written with. Reading its entries one by
  one gives the given keys and slots in their order, and a search in it is the lookup in their association.
\<close>

theorem tid_lookup_roundtrip:
  assumes "evoke_document_tid_lookup_serialize calloc_ok sc (Some keys) (Some slots) ec dc (Some b0) (Some s0) =
      (EVOKE_OK, Some bs, out_size)"
    and "length keys = unat ec" and "length slots = unat ec"
  shows "\<exists>v. evoke_document_tid_lookup_open (Some bs) sc ec dc (Some v0) = (EVOKE_OK, Some v) \<and>
    (\<forall>i. evoke_document_tid_lookup_entry (Some v) i (Some k0) (Some x) =
      (if i < ec then (EVOKE_OK, Some (keys ! unat i), Some (slots ! unat i)) else (EVOKE_ERR_INVALID, Some k0, Some x))) \<and>
    (\<forall>k. evoke_document_tid_lookup_find (Some v) k (Some x) =
      (case map_of (zip keys slots) k of None \<Rightarrow> (False, Some x) | Some s \<Rightarrow> (True, Some s)))"
proof -
  note opn = serialized_opens [OF assms(1)] and t = serialized_table [OF assms(1)]
  have ok: "tid_view_ok \<lparr>view_bytes = Some bs, view_size = of_nat (length bs), view_keys_offset = 48,
       view_slots_offset = 48 + u64_of_u32 ec * 8, view_source_authority_checksum = sc,
       view_entry_count = ec, view_document_slot_count = dc\<rparr>" (is "tid_view_ok ?v")
    by (rule open_view_ok [OF opn]) (use t(1) serialize_run(5) [OF assms(1)] in simp)
  have entries: "view_key ?v i = keys ! i \<and> view_slot ?v i = slots ! i" if "i < length keys" for i
    using t(11) [of i] that assms(2) by (simp add: view_key_def view_slot_def unat_slots_end)
  have entry: "evoke_document_tid_lookup_entry (Some ?v) i (Some k0) (Some x) =
      (if i < ec then (EVOKE_OK, Some (keys ! unat i), Some (slots ! unat i)) else (EVOKE_ERR_INVALID, Some k0, Some x))" for i
    using entries [of "unat i"] assms(2)
    by (auto simp: evoke_document_tid_lookup_entry_def tid_accessors view_key_def view_slot_def word_less_nat_alt word_le_nat_alt)
  show ?thesis using opn find_map_of [OF ok] entries entry assms(2,3) by auto
qed

definition sample_tid_bytes :: "evoke_status \<times> bytes option \<times> u64 option" where
  "sample_tid_bytes = evoke_document_tid_lookup_serialize True 77 (Some [10, 25]) (Some [3, 0]) 2 4 (Some []) (Some 0)"

lemma sample_tid_open:
  "case sample_tid_bytes of (status, produced, _) \<Rightarrow> status = EVOKE_OK \<and>
     (case produced of None \<Rightarrow> False | Some bs \<Rightarrow> length bs = 72 \<and>
        fst (evoke_document_tid_lookup_open (Some bs) 77 2 4 (Some zero_tid_view)) = EVOKE_OK)"
  by code_simp

lemma sample_tid_table:
  obtains bs v sz where "sample_tid_bytes = (EVOKE_OK, Some bs, sz)" "fst (snd sample_tid_bytes) = Some bs"
    "length bs = 72" "evoke_document_tid_lookup_open (Some bs) 77 2 4 (Some zero_tid_view) = (EVOKE_OK, Some v)"
proof -
  obtain status produced sz where t: "sample_tid_bytes = (status, produced, sz)" by (metis prod.exhaust)
  from sample_tid_open [unfolded t] obtain bs where bs: "status = EVOKE_OK" "produced = Some bs" "length bs = 72"
    "fst (evoke_document_tid_lookup_open (Some bs) 77 2 4 (Some zero_tid_view)) = EVOKE_OK"
    by (auto split: option.splits)
  obtain ov where "evoke_document_tid_lookup_open (Some bs) 77 2 4 (Some zero_tid_view) = (EVOKE_OK, ov)"
    using bs(4) by (metis prod.collapse)
  moreover from this obtain v where "ov = Some v"
    by (auto simp: evoke_document_tid_lookup_open_def Let_def split: if_splits)
  moreover have "sample_tid_bytes = (EVOKE_OK, Some bs, sz)" unfolding t bs(1,2) ..
  moreover have "fst (snd sample_tid_bytes) = Some bs" unfolding t bs(2) by simp
  ultimately show thesis by (intro that [of bs sz v] bs(3)) simp_all
qed

theorem tid_lookup_roundtrip_witness:
  "\<exists>bs v. fst (snd sample_tid_bytes) = Some bs \<and>
     evoke_document_tid_lookup_open (Some bs) 77 2 4 (Some zero_tid_view) = (EVOKE_OK, Some v) \<and>
     evoke_document_tid_lookup_entry (Some v) 1 (Some 1) (Some 9) = (EVOKE_OK, Some 25, Some 0) \<and>
     evoke_document_tid_lookup_find (Some v) 25 (Some 9) = (True, Some 0) \<and>
     evoke_document_tid_lookup_find (Some v) 11 (Some 9) = (False, Some 9)"
proof -
  obtain bs v0 sz where s: "sample_tid_bytes = (EVOKE_OK, Some bs, sz)" "fst (snd sample_tid_bytes) = Some bs"
    by (rule sample_tid_table)
  from tid_lookup_roundtrip [OF s(1) [unfolded sample_tid_bytes_def], of zero_tid_view 1 9]
  obtain v where v: "evoke_document_tid_lookup_open (Some bs) 77 2 4 (Some zero_tid_view) = (EVOKE_OK, Some v)"
    "\<forall>i. evoke_document_tid_lookup_entry (Some v) i (Some 1) (Some 9) =
      (if i < 2 then (EVOKE_OK, Some ([10, 25] ! unat i), Some ([3, 0] ! unat i)) else (EVOKE_ERR_INVALID, Some 1, Some 9))"
    "\<forall>k. evoke_document_tid_lookup_find (Some v) k (Some 9) =
      (case map_of (zip [10, 25] [3, 0]) k of None \<Rightarrow> (False, Some 9) | Some s \<Rightarrow> (True, Some s))"
    by auto
  have "evoke_document_tid_lookup_entry (Some v) 1 (Some 1) (Some 9) = (EVOKE_OK, Some 25, Some 0)"
    using v(2) [rule_format, of 1] by simp
  moreover have "evoke_document_tid_lookup_find (Some v) 25 (Some 9) = (True, Some 0)"
    "evoke_document_tid_lookup_find (Some v) 11 (Some 9) = (False, Some 9)"
    using v(3) [rule_format, of 25] v(3) [rule_format, of 11] by simp_all
  ultimately show ?thesis using s(2) v(1) by blast
qed

theorem tid_find_exact_witness:
  "\<exists>bs v. fst (snd sample_tid_bytes) = Some bs \<and>
     evoke_document_tid_lookup_open (Some bs) 77 2 4 (Some zero_tid_view) = (EVOKE_OK, Some v) \<and>
     (\<forall>i < unat (view_entry_count v).
        evoke_document_tid_lookup_find (Some v) (view_key v i) (Some 9) = (True, Some (view_slot v i)))"
proof -
  obtain bs v sz where s: "fst (snd sample_tid_bytes) = Some bs" "length bs = 72"
    "evoke_document_tid_lookup_open (Some bs) 77 2 4 (Some zero_tid_view) = (EVOKE_OK, Some v)"
    by (rule sample_tid_table)
  have "length bs < 2 ^ 64" using s(2) by simp
  from tid_find_exact [OF s(3) this, of 9 0 0] s(1,3) show ?thesis by blast
qed

interpretation tid_seal: sealed_codec
  "\<lambda>bs. length bs = max n 48 \<and> fst (evoke_document_tid_lookup_open (Some bs) sc ec dc (Some v0)) = EVOKE_OK"
  "max n 48" 32
  for n sc ec dc v0
proof unfold_locales
  fix bs
  assume a: "length bs = max n 48 \<and> fst (evoke_document_tid_lookup_open (Some bs) sc ec dc (Some v0)) = EVOKE_OK"
  then have "evoke_read_u64_le bs 32 = evoke_document_tid_lookup_checksum bs (length bs)"
    by (auto simp: evoke_document_tid_lookup_open_def Let_def split: if_splits)
  with a tid_checksum_zeroed [of "length bs" bs] show "sealed (max n 48) 32 bs"
    by (simp add: sealed_def)
qed simp

text \<open>
  A stored table with any single byte changed does not open under any expectations it opened
  with before.
\<close>

lemma tid_lookup_detects_corruption:
  assumes "fst (evoke_document_tid_lookup_open (Some bs) sc ec dc (Some v0)) = EVOKE_OK"
    and "i < length bs" and "x \<noteq> bs ! i"
  shows "fst (evoke_document_tid_lookup_open (Some (bs[i := x])) sc ec dc (Some v0)) \<noteq> EVOKE_OK"
proof -
  have "48 \<le> length bs"
    using assms(1) by (auto simp: evoke_document_tid_lookup_open_def tid_consts split: if_splits)
  then show ?thesis
    using tid_seal.refuses_single_byte [of bs "length bs" sc ec dc v0 i x] assms by simp
qed

end
