(* ===== verification/Binary_Heap.thy ===== *)
theory Binary_Heap
  imports Prelude
begin

text \<open>
  Binary heaps in arrays, for the two places of the code that sift one: the selection of the best
  documents (\<open>src/evoke_core.c\<close>) and the heavy-hitter summary (\<open>src/evoke_weighted_space_saving.c\<close>).
  The locale \<open>binary_heap\<close> states the loops a heap is sifted with; its lemmas say that they restore the
  heap order and keep the elements.
\<close>

definition swap_items :: "'a list \<Rightarrow> nat \<Rightarrow> nat \<Rightarrow> 'a list" where
  "swap_items heap i j = heap[i := heap ! j, j := heap ! i]"

definition parent_of :: "nat \<Rightarrow> nat" where
  "parent_of i = (i - 1) div 2"

text \<open>Every key is at most the key of its parent.\<close>

definition heap_by :: "('a \<Rightarrow> 'k::linorder) \<Rightarrow> 'a list \<Rightarrow> bool" where
  "heap_by key h \<longleftrightarrow> (\<forall>i. 0 < i \<longrightarrow> i < length h \<longrightarrow> key (h ! i) \<le> key (h ! parent_of i))"

text \<open>Ordered but for the edge from \<open>idx\<close> to its parent, respectively the edges below \<open>idx\<close>.\<close>

definition heap_except_up :: "('a \<Rightarrow> 'k::linorder) \<Rightarrow> 'a list \<Rightarrow> nat \<Rightarrow> bool" where
  "heap_except_up key h idx \<longleftrightarrow>
     (\<forall>i. 0 < i \<longrightarrow> i < length h \<longrightarrow> i \<noteq> idx \<longrightarrow> key (h ! i) \<le> key (h ! parent_of i)) \<and>
     (\<forall>i. 0 < i \<longrightarrow> i < length h \<longrightarrow> 0 < idx \<longrightarrow> parent_of i = idx \<longrightarrow> key (h ! i) \<le> key (h ! parent_of idx))"

definition heap_except_down :: "('a \<Rightarrow> 'k::linorder) \<Rightarrow> 'a list \<Rightarrow> nat \<Rightarrow> bool" where
  "heap_except_down key h idx \<longleftrightarrow>
     (\<forall>i. 0 < i \<longrightarrow> i < length h \<longrightarrow> parent_of i \<noteq> idx \<longrightarrow> key (h ! i) \<le> key (h ! parent_of i)) \<and>
     (\<forall>i. 0 < i \<longrightarrow> i < length h \<longrightarrow> 0 < idx \<longrightarrow> parent_of i = idx \<longrightarrow> key (h ! i) \<le> key (h ! parent_of idx))"

lemma length_swap [simp]: "length (swap_items h i j) = length h"
  by (simp add: swap_items_def)

lemma mset_swap [simp]: "i < length h \<Longrightarrow> j < length h \<Longrightarrow> mset (swap_items h i j) = mset h"
  by (simp add: swap_items_def mset_swap)

lemma parent_less: "0 < i \<Longrightarrow> parent_of i < i"
  by (simp add: parent_of_def)

lemma nth_swap:
  "i < length h \<Longrightarrow> j < length h \<Longrightarrow> swap_items h i j ! l = (if l = j then h ! i else if l = i then h ! j else h ! l)"
  by (simp add: swap_items_def nth_list_update)

lemma heap_except_up_swap:
  assumes h: "heap_except_up key h idx" and idx: "idx < length h" "0 < idx"
    and less: "key (h ! parent_of idx) < key (h ! idx)"
  shows "heap_except_up key (swap_items h (parent_of idx) idx) (parent_of idx)"
proof -
  let ?p = "parent_of idx"
  have p: "?p < idx" "?p < length h" using parent_less [OF idx(2)] idx(1) by simp_all
  have other: "key (h ! i) \<le> key (h ! parent_of i)" if "0 < i" "i < length h" "i \<noteq> idx" for i
    using h that by (simp add: heap_except_up_def)
  have child: "key (h ! i) \<le> key (h ! ?p)" if "0 < i" "i < length h" "parent_of i = idx" for i
    using h that idx(2) by (simp add: heap_except_up_def)
  show ?thesis
    unfolding heap_except_up_def
  proof (intro conjI allI impI)
    fix i assume i: "0 < i" "i < length (swap_items h ?p idx)" "i \<noteq> ?p"
    consider "i = idx" | "i \<noteq> idx" "parent_of i = idx" | "i \<noteq> idx" "parent_of i = ?p"
      | "i \<noteq> idx" "parent_of i \<noteq> idx" "parent_of i \<noteq> ?p" by blast
    then show "key (swap_items h ?p idx ! i) \<le> key (swap_items h ?p idx ! parent_of i)"
      using other [of i] child [of i] less i p idx by cases (auto simp: nth_swap)
  next
    fix i assume i: "0 < i" "i < length (swap_items h ?p idx)" "0 < ?p" "parent_of i = ?p"
    have top: "key (h ! ?p) \<le> key (h ! parent_of ?p)" using other [of ?p] i(3) p by simp
    have "i \<noteq> ?p" "parent_of ?p \<noteq> ?p" "parent_of ?p \<noteq> idx"
      using i parent_less [OF i(1)] parent_less [OF i(3)] p by auto
    moreover have "key (h ! i) \<le> key (h ! parent_of ?p)" if "i \<noteq> idx"
      using other [of i] that i top by (simp add: order_trans)
    ultimately show "key (swap_items h ?p idx ! i) \<le> key (swap_items h ?p idx ! parent_of ?p)"
      using top p idx i by (cases "i = idx") (simp_all add: nth_swap)
  qed
qed

lemma parent_of_child: "0 < i \<Longrightarrow> parent_of i = idx \<longleftrightarrow> i = idx * 2 + 1 \<or> i = idx * 2 + 2"
  by (auto simp: parent_of_def)

lemma heap_root_worst:
  assumes "heap_by key h"
  shows "i < length h \<Longrightarrow> key (h ! i) \<le> key (h ! 0)"
proof (induction i rule: less_induct)
  case (less i)
  show ?case
  proof (cases "i = 0")
    case False
    then have "key (h ! i) \<le> key (h ! parent_of i)"
      using assms less.prems by (simp add: heap_by_def)
    moreover have "key (h ! parent_of i) \<le> key (h ! 0)"
      using False less parent_less [of i] by simp
    ultimately show ?thesis by (rule order_trans)
  qed simp
qed

lemma heap_append_up:
  assumes "heap_by key h"
  shows "heap_except_up key (h @ [it]) (length h)"
  unfolding heap_except_up_def
proof (intro conjI allI impI)
  fix i assume "0 < i" "i < length (h @ [it])" "i \<noteq> length h"
  then show "key ((h @ [it]) ! i) \<le> key ((h @ [it]) ! parent_of i)"
    using assms parent_less [of i] by (simp add: heap_by_def nth_append)
next
  fix i assume "0 < i" "i < length (h @ [it])" "parent_of i = length h"
  then show "key ((h @ [it]) ! i) \<le> key ((h @ [it]) ! parent_of (length h))"
    using parent_less [of i] by simp
qed

lemma heap_root_down:
  assumes "heap_by key h"
  shows "heap_except_down key (h[0 := it]) 0"
  using assms by (auto simp: heap_except_down_def heap_by_def nth_list_update)

section \<open>The loops\<close>

locale binary_heap =
  fixes worse :: "'a \<Rightarrow> 'a \<Rightarrow> bool" and key :: "'a \<Rightarrow> 'k::linorder" and ok :: "'a \<Rightarrow> bool"
    and up :: "'a list \<Rightarrow> nat \<Rightarrow> 'a list" and child :: "'a list \<Rightarrow> nat \<Rightarrow> nat \<Rightarrow> nat"
    and down :: "'a list \<Rightarrow> nat \<Rightarrow> nat \<Rightarrow> 'a list"
  assumes worse_key: "ok a \<Longrightarrow> ok b \<Longrightarrow> worse a b \<longleftrightarrow> key b < key a"
    and up_eq: "up h idx =
      (if 0 < idx
       then if \<not> worse (h ! idx) (h ! parent_of idx) then h
            else up (swap_items h (parent_of idx) idx) (parent_of idx)
       else h)"
    and child_eq: "child h len idx =
      (let smallest = (if idx * 2 + 1 < len \<and> worse (h ! (idx * 2 + 1)) (h ! idx) then idx * 2 + 1 else idx)
       in if idx * 2 + 2 < len \<and> worse (h ! (idx * 2 + 2)) (h ! smallest) then idx * 2 + 2 else smallest)"
    and down_eq: "down h len idx =
      (if child h len idx = idx then h else down (swap_items h idx (child h len idx)) len (child h len idx))"
begin

lemma sift_up_heap:
  assumes "heap_except_up key h idx" and "idx < length h" and "\<forall>it \<in> set h. ok it"
  shows "heap_by key (up h idx) \<and> mset (up h idx) = mset h"
  using assms
proof (induction idx arbitrary: h rule: less_induct)
  case (less idx)
  let ?p = "parent_of idx"
  have ok: "ok (h ! i)" if "i < length h" for i using less.prems(3) that by simp
  have p: "?p < length h" using less.prems(2) by (simp add: parent_of_def)
  consider (stop) "idx = 0 \<or> key (h ! idx) \<le> key (h ! ?p)"
    | (swap) "0 < idx" "key (h ! ?p) < key (h ! idx)" by force
  then show ?case
  proof cases
    case stop
    then have "idx = 0 \<or> \<not> worse (h ! idx) (h ! ?p)"
      using ok p less.prems(2) by (auto simp: worse_key)
    then have "up h idx = h"
      by (subst up_eq) auto
    moreover have "heap_by key h"
      unfolding heap_by_def using less.prems(1) stop by (metis heap_except_up_def less_not_refl)
    ultimately show ?thesis by simp
  next
    case swap
    have w: "worse (h ! idx) (h ! ?p)" using swap ok p less.prems(2) by (simp add: worse_key)
    then have step: "up h idx = up (swap_items h ?p idx) ?p"
      using swap(1) by (subst up_eq) simp
    have ex: "heap_except_up key (swap_items h ?p idx) ?p"
      using heap_except_up_swap [OF less.prems(1,2) swap] .
    have m: "mset (swap_items h ?p idx) = mset h" using p less.prems(2) by simp
    have "\<forall>it \<in> set (swap_items h ?p idx). ok it"
      using less.prems(3) mset_eq_setD [OF m] by simp
    then have "heap_by key (up (swap_items h ?p idx) ?p) \<and>
        mset (up (swap_items h ?p idx) ?p) = mset (swap_items h ?p idx)"
      using less.IH [OF parent_less [OF swap(1)] ex] p by simp
    with m step show ?thesis by simp
  qed
qed

lemma child_worst:
  assumes "idx < length h" and "\<forall>it \<in> set h. ok it"
  defines "c \<equiv> child h (length h) idx"
  shows "c < length h" and "key (h ! idx) \<le> key (h ! c)" and "c \<noteq> idx \<Longrightarrow> 0 < c \<and> parent_of c = idx"
    and "c \<noteq> idx \<Longrightarrow> key (h ! idx) < key (h ! c)"
    and "\<And>i. 0 < i \<Longrightarrow> i < length h \<Longrightarrow> parent_of i = idx \<Longrightarrow> key (h ! i) \<le> key (h ! c)"
proof -
  have ok: "ok (h ! i)" if "i < length h" for i using assms(2) that by simp
  let ?l = "idx * 2 + 1" and ?r = "idx * 2 + 2"
  define s where "s = (if ?l < length h \<and> key (h ! idx) < key (h ! ?l) then ?l else idx)"
  have s: "s < length h" using assms(1) by (simp add: s_def)
  have s1: "(if ?l < length h \<and> worse (h ! ?l) (h ! idx) then ?l else idx) = s"
    using ok assms(1) by (auto simp: s_def worse_key)
  have c: "c = (if ?r < length h \<and> key (h ! s) < key (h ! ?r) then ?r else s)"
    using ok s unfolding c_def child_eq s1 by (auto simp: worse_key)
  show "c < length h" and "key (h ! idx) \<le> key (h ! c)" and "c \<noteq> idx \<Longrightarrow> 0 < c \<and> parent_of c = idx"
    and "c \<noteq> idx \<Longrightarrow> key (h ! idx) < key (h ! c)"
    using s unfolding c s_def by (auto simp: parent_of_child split: if_splits)
  show "key (h ! i) \<le> key (h ! c)" if "0 < i" "i < length h" "parent_of i = idx" for i
  proof -
    from that(1,3) have "i = ?l \<or> i = ?r" by (simp add: parent_of_child)
    then show ?thesis
    proof
      assume "i = ?l"
      then have "key (h ! i) \<le> key (h ! s)" using that(2) by (auto simp: s_def)
      then show ?thesis unfolding c by (auto dest: order_trans)
    next
      assume "i = ?r"
      then show ?thesis using that(2) unfolding c by auto
    qed
  qed
qed

lemma heap_except_down_swap:
  assumes h: "heap_except_down key h idx" and idx: "idx < length h" and ok: "\<forall>it \<in> set h. ok it"
  defines "c \<equiv> child h (length h) idx"
  assumes ne: "c \<noteq> idx"
  shows "heap_except_down key (swap_items h idx c) c"
proof -
  note w = child_worst [OF idx ok, folded c_def]
  have c: "0 < c" "parent_of c = idx" "c < length h" "idx < c"
    using w(1,3) ne parent_less by auto
  have other: "key (h ! i) \<le> key (h ! parent_of i)" if "0 < i" "i < length h" "parent_of i \<noteq> idx" for i
    using h that by (simp add: heap_except_down_def)
  show ?thesis
    unfolding heap_except_down_def
  proof (intro conjI allI impI)
    fix i assume i: "0 < i" "i < length (swap_items h idx c)" "parent_of i \<noteq> c"
    consider "i = c" | "i \<noteq> c" "parent_of i = idx" | "i = idx" "i \<noteq> c" "parent_of i \<noteq> idx"
      | "i \<noteq> c" "i \<noteq> idx" "parent_of i \<noteq> idx" by blast
    then show "key (swap_items h idx c ! i) \<le> key (swap_items h idx c ! parent_of i)"
    proof cases
      case 1
      then show ?thesis using c idx w(2) by (simp add: nth_swap)
    next
      case 2
      have "i \<noteq> idx" using 2 parent_less [OF i(1)] by auto
      then show ?thesis using 2 c idx w(5) [of i] i by (simp add: nth_swap)
    next
      case 3
      have "key (h ! c) \<le> key (h ! parent_of idx)"
        using h c i(1) 3(1) by (simp add: heap_except_down_def)
      then show ?thesis using 3 i c idx by (simp add: nth_swap)
    next
      case 4
      then show ?thesis using i c idx other [of i] by (simp add: nth_swap)
    qed
  next
    fix i assume i: "0 < i" "i < length (swap_items h idx c)" "0 < c" "parent_of i = c"
    have "i \<noteq> c" "i \<noteq> idx" using i(4) parent_less [OF i(1)] c by auto
    then show "key (swap_items h idx c ! i) \<le> key (swap_items h idx c ! parent_of c)"
      using c idx other [of i] i ne by (simp add: nth_swap)
  qed
qed

lemma sift_down_heap:
  assumes "heap_except_down key h idx" and "idx < length h" and "\<forall>it \<in> set h. ok it" and "len = length h"
  shows "heap_by key (down h len idx) \<and> mset (down h len idx) = mset h"
  using assms
proof (induction "len - idx" arbitrary: h idx rule: less_induct)
  case less
  define c where "c = child h len idx"
  note w = child_worst [OF less.prems(2,3), folded less.prems(4), folded c_def]
  show ?case
  proof (cases "c = idx")
    case True
    then have "down h len idx = h"
      by (subst down_eq) (simp add: c_def)
    moreover have "heap_by key h"
      unfolding heap_by_def using less.prems(1,4) w(5) True by (metis heap_except_down_def)
    ultimately show ?thesis by simp
  next
    case False
    have m: "mset (swap_items h idx c) = mset h" using w(1) less.prems(2,4) by simp
    have "\<forall>it \<in> set (swap_items h idx c). ok it"
      using less.prems(3) mset_eq_setD [OF m] by simp
    moreover have "heap_except_down key (swap_items h idx c) c"
      using heap_except_down_swap [OF less.prems(1-3)] False less.prems(4) by (simp add: c_def)
    ultimately have "heap_by key (down (swap_items h idx c) len c) \<and>
        mset (down (swap_items h idx c) len c) = mset (swap_items h idx c)"
      using less.hyps [of c "swap_items h idx c"] w(1,3) False less.prems(2,4) parent_less [of c] by simp
    moreover have "down h len idx = down (swap_items h idx c) len c"
      using False by (subst down_eq) (simp add: c_def)
    ultimately show ?thesis using m by simp
  qed
qed

end

end
