(* ===== verification/Topk.thy ===== *)
theory Topk
  imports Binary_Heap "HOL-Library.Product_Lexorder"
begin

text \<open>
  Ranking: the top-k selection of \<open>src/evoke_core.c\<close>. Scores are \<open>float\<close> values, kept as their
  32 bits and compared as C compares them (a NaN compares false with everything, the two zeros
  are equal). The code has a streaming accumulator over a binary heap whose root is the worst
  item kept, a heap selection over a score array and a buffered selection that sorts a buffer of
  at most \<open>2 * k\<close> items whenever it fills up. \<open>Topk_Subset\<close> adds the selections over candidates.

  All of them are shown to return the same thing: the first \<open>k\<close> items of the candidates sorted
  by score, then tie-break key, then document id.
\<close>

section \<open>Scores\<close>

type_synonym f32 = u32

definition f32_is_nan :: "f32 \<Rightarrow> bool" where
  "f32_is_nan x \<longleftrightarrow> x AND 0x7F800000 = 0x7F800000 \<and> x AND 0x007FFFFF \<noteq> 0"

text \<open>Sign and magnitude of a number that is not a NaN, ordered as the numbers are.\<close>

definition f32_rank :: "f32 \<Rightarrow> int" where
  "f32_rank x =
     (if x AND 0x80000000 = 0 then int (unat (x AND 0x7FFFFFFF)) else - int (unat (x AND 0x7FFFFFFF)))"

definition f32_less :: "f32 \<Rightarrow> f32 \<Rightarrow> bool" where
  "f32_less a b \<longleftrightarrow> \<not> f32_is_nan a \<and> \<not> f32_is_nan b \<and> f32_rank a < f32_rank b"

definition f32_less_eq :: "f32 \<Rightarrow> f32 \<Rightarrow> bool" where
  "f32_less_eq a b \<longleftrightarrow> \<not> f32_is_nan a \<and> \<not> f32_is_nan b \<and> f32_rank a \<le> f32_rank b"

section \<open>Data\<close>

record evoke_topk_item =
  item_score :: f32
  item_doc_id :: u32
  item_tie_break_key :: u64

record evoke_topk_result =
  result_doc_ids :: "u32 list"
  result_scores :: "f32 list"
  result_len :: u64

record evoke_topk_accumulator =
  acc_heap :: "evoke_topk_item list option"
  acc_capacity :: u64
  acc_finalized :: bool

definition zero_topk_result :: evoke_topk_result where
  "zero_topk_result = \<lparr>result_doc_ids = [], result_scores = [], result_len = 0\<rparr>"

definition zero_accumulator :: evoke_topk_accumulator where
  "zero_accumulator = \<lparr>acc_heap = None, acc_capacity = 0, acc_finalized = False\<rparr>"

definition sizeof_topk_item :: u64 where "sizeof_topk_item = 16"

definition sizeof_compact_topk_item :: u64 where "sizeof_compact_topk_item = 8"

text \<open>The overflow check of \<open>evoke_core.c\<close>; \<open>None\<close> is the result \<open>false\<close>.\<close>

definition evoke_core_checked_mul_size :: "u64 \<Rightarrow> u64 \<Rightarrow> u64 option" where
  "evoke_core_checked_mul_size a b =
     (if a = 0 \<or> b = 0 then Some 0
      else if a > (0 - 1) div b then None
      else Some (a * b))"

section \<open>Comparing and sifting\<close>

definition evoke_heap_item_is_worse :: "evoke_topk_item \<Rightarrow> evoke_topk_item \<Rightarrow> bool" where
  "evoke_heap_item_is_worse lhs rhs =
     (if f32_less (item_score lhs) (item_score rhs) then True
      else if f32_less (item_score rhs) (item_score lhs) then False
      else if item_tie_break_key lhs > item_tie_break_key rhs then True
      else if item_tie_break_key lhs < item_tie_break_key rhs then False
      else item_doc_id lhs > item_doc_id rhs)"

definition evoke_heap_item_is_better :: "evoke_topk_item \<Rightarrow> evoke_topk_item \<Rightarrow> bool" where
  "evoke_heap_item_is_better lhs rhs =
     (if f32_less (item_score rhs) (item_score lhs) then True
      else if f32_less (item_score lhs) (item_score rhs) then False
      else if item_tie_break_key lhs < item_tie_break_key rhs then True
      else if item_tie_break_key lhs > item_tie_break_key rhs then False
      else item_doc_id lhs < item_doc_id rhs)"

definition evoke_cmp_topk_desc :: "evoke_topk_item \<Rightarrow> evoke_topk_item \<Rightarrow> int" where
  "evoke_cmp_topk_desc a b =
     (if f32_less (item_score a) (item_score b) then 1
      else if f32_less (item_score b) (item_score a) then -1
      else if item_tie_break_key a < item_tie_break_key b then -1
      else if item_tie_break_key a > item_tie_break_key b then 1
      else if item_doc_id a < item_doc_id b then -1
      else if item_doc_id a > item_doc_id b then 1
      else 0)"

text \<open>\<open>tie_break_keys\<close> is null or an array indexed by document id.\<close>

definition evoke_heap_item_init :: "f32 \<Rightarrow> u32 \<Rightarrow> u64 list option \<Rightarrow> evoke_topk_item" where
  "evoke_heap_item_init score doc_id tie_break_keys =
     \<lparr>item_score = score, item_doc_id = doc_id,
      item_tie_break_key =
        (case tie_break_keys of None \<Rightarrow> u64_of_u32 doc_id | Some keys \<Rightarrow> keys ! unat doc_id)\<rparr>"

fun evoke_heap_sift_up :: "evoke_topk_item list \<Rightarrow> nat \<Rightarrow> evoke_topk_item list" where
  "evoke_heap_sift_up heap idx =
     (if idx > 0 then
        let parent = (idx - 1) div 2 in
        if \<not> evoke_heap_item_is_worse (heap ! idx) (heap ! parent) then heap
        else evoke_heap_sift_up (swap_items heap parent idx) parent
      else heap)"

definition sift_child :: "evoke_topk_item list \<Rightarrow> nat \<Rightarrow> nat \<Rightarrow> nat" where
  "sift_child heap len idx =
     (let left = idx * 2 + 1;
          right = left + 1;
          smallest = idx;
          smallest = (if left < len \<and> evoke_heap_item_is_worse (heap ! left) (heap ! smallest)
                      then left else smallest);
          smallest = (if right < len \<and> evoke_heap_item_is_worse (heap ! right) (heap ! smallest)
                      then right else smallest)
      in smallest)"

lemma sift_child_range: "sift_child heap len idx = idx \<or> (idx < sift_child heap len idx \<and> sift_child heap len idx < len)"
  by (simp add: sift_child_def Let_def)

function evoke_heap_sift_down :: "evoke_topk_item list \<Rightarrow> nat \<Rightarrow> nat \<Rightarrow> evoke_topk_item list" where
  "evoke_heap_sift_down heap len idx =
     (let smallest = sift_child heap len idx in
      if smallest = idx then heap
      else evoke_heap_sift_down (swap_items heap idx smallest) len smallest)"
  by pat_completeness auto
termination
  by (relation "measure (\<lambda>(_, len, idx). len - idx)") (use sift_child_range in fastforce)+

declare evoke_heap_sift_up.simps [simp del]
declare evoke_heap_sift_down.simps [simp del]

section \<open>Results\<close>

definition evoke_use_buffered_topk :: "nat \<Rightarrow> nat \<Rightarrow> bool \<Rightarrow> bool" where
  "evoke_use_buffered_topk universe k sorted_out \<longleftrightarrow> sorted_out \<and> k > 0 \<and> k < universe \<and> k \<le> 4096"

text \<open>\<open>ids_ok\<close> and \<open>scores_ok\<close>: the two allocations of the result arrays succeed.\<close>

definition evoke_topk_result_from_items ::
  "bool \<Rightarrow> bool \<Rightarrow> evoke_topk_item list \<Rightarrow> evoke_topk_result option
     \<Rightarrow> evoke_status \<times> evoke_topk_result option" where
  "evoke_topk_result_from_items ids_ok scores_ok items result_out =
     (case result_out of
        None \<Rightarrow> (EVOKE_ERR_INVALID, None)
      | Some _ \<Rightarrow>
          if items = [] then (EVOKE_OK, Some zero_topk_result)
          else
            (case evoke_core_checked_mul_size (of_nat (length items)) 4 of
               None \<Rightarrow> (EVOKE_ERR_RANGE, Some zero_topk_result)
             | Some _ \<Rightarrow>
                 if \<not> ids_ok then (EVOKE_ERR_NOMEM, Some zero_topk_result)
                 else
                   (case evoke_core_checked_mul_size (of_nat (length items)) 4 of
                      None \<Rightarrow> (EVOKE_ERR_RANGE, Some zero_topk_result)
                    | Some _ \<Rightarrow>
                        if \<not> scores_ok then (EVOKE_ERR_NOMEM, Some zero_topk_result)
                        else (EVOKE_OK, Some
                          \<lparr>result_doc_ids = map item_doc_id items,
                           result_scores = map item_score items,
                           result_len = of_nat (length items)\<rparr>))))"

section \<open>The streaming accumulator\<close>

definition evoke_topk_accumulator_init ::
  "bool \<Rightarrow> evoke_topk_accumulator option \<Rightarrow> u64 \<Rightarrow> evoke_status \<times> evoke_topk_accumulator option" where
  "evoke_topk_accumulator_init malloc_ok accumulator capacity =
     (case accumulator of
        None \<Rightarrow> (EVOKE_ERR_INVALID, None)
      | Some _ \<Rightarrow>
          if capacity = 0 then (EVOKE_OK, Some zero_accumulator)
          else
            (case evoke_core_checked_mul_size capacity sizeof_topk_item of
               None \<Rightarrow> (EVOKE_ERR_RANGE, Some zero_accumulator)
             | Some _ \<Rightarrow>
                 if \<not> malloc_ok then (EVOKE_ERR_NOMEM, Some zero_accumulator)
                 else (EVOKE_OK, Some (zero_accumulator\<lparr>acc_heap := Some [], acc_capacity := capacity\<rparr>))))"

text \<open>The step shared by the accumulator and the heap selection.\<close>

definition topk_heap_step :: "nat \<Rightarrow> evoke_topk_item list \<Rightarrow> evoke_topk_item \<Rightarrow> evoke_topk_item list" where
  "topk_heap_step k heap item =
     (if length heap < k then evoke_heap_sift_up (heap @ [item]) (length heap)
      else if evoke_heap_item_is_better item (heap ! 0)
      then evoke_heap_sift_down (heap[0 := item]) (length heap) 0
      else heap)"

definition evoke_topk_accumulator_offer ::
  "evoke_topk_accumulator option \<Rightarrow> f32 \<Rightarrow> u32 \<Rightarrow> u64
     \<Rightarrow> evoke_status \<times> evoke_topk_accumulator option" where
  "evoke_topk_accumulator_offer accumulator score doc_id tie_break_key =
     (case accumulator of
        None \<Rightarrow> (EVOKE_ERR_INVALID, None)
      | Some acc \<Rightarrow>
          if acc_finalized acc \<or> (acc_capacity acc > 0 \<and> acc_heap acc = None)
          then (EVOKE_ERR_INVALID, accumulator)
          else if acc_capacity acc = 0 then (EVOKE_OK, accumulator)
          else
            let item = \<lparr>item_score = score, item_doc_id = doc_id, item_tie_break_key = tie_break_key\<rparr>
            in (EVOKE_OK, Some (acc\<lparr>acc_heap :=
                  Some (topk_heap_step (unat (acc_capacity acc)) (the (acc_heap acc)) item)\<rparr>)))"

definition evoke_topk_accumulator_finish ::
  "bool \<Rightarrow> bool \<Rightarrow> evoke_topk_accumulator option \<Rightarrow> bool \<Rightarrow> evoke_topk_result option
     \<Rightarrow> evoke_status \<times> evoke_topk_accumulator option \<times> evoke_topk_result option" where
  "evoke_topk_accumulator_finish ids_ok scores_ok accumulator sorted_out result_out =
     (case (accumulator, result_out) of
        (Some acc, Some _) \<Rightarrow>
          if acc_finalized acc \<or> (acc_capacity acc > 0 \<and> acc_heap acc = None)
          then (EVOKE_ERR_INVALID, accumulator, result_out)
          else
            let heap = (case acc_heap acc of None \<Rightarrow> [] | Some h \<Rightarrow> h);
                items = (if sorted_out \<and> length heap > 1 then c_qsort evoke_cmp_topk_desc heap else heap);
                acc' = acc\<lparr>acc_finalized := True, acc_heap := map_option (\<lambda>_. items) (acc_heap acc)\<rparr>;
                (status, result) = evoke_topk_result_from_items ids_ok scores_ok items result_out
            in (status, Some acc', result)
      | _ \<Rightarrow> (EVOKE_ERR_INVALID, accumulator, result_out))"

definition evoke_topk_accumulator_free ::
  "evoke_topk_accumulator option \<Rightarrow> evoke_topk_accumulator option" where
  "evoke_topk_accumulator_free accumulator =
     (case accumulator of None \<Rightarrow> None | Some _ \<Rightarrow> Some zero_accumulator)"

section \<open>Selection over a score array\<close>

definition score_item :: "f32 list \<Rightarrow> u64 list option \<Rightarrow> nat \<Rightarrow> evoke_topk_item" where
  "score_item scores tie_break_keys i = evoke_heap_item_init (scores ! i) (of_nat i) tie_break_keys"

text \<open>
  The main loop of the buffered selection. \<open>items\<close> is the used part of the buffer; after a sort
  only its first \<open>k\<close> entries stay in use.
\<close>

definition buffered_step ::
  "nat \<Rightarrow> nat \<Rightarrow> evoke_topk_item list \<Rightarrow> evoke_topk_item \<Rightarrow> evoke_topk_item list" where
  "buffered_step k buffer_cap items item =
     (if \<not> evoke_heap_item_is_better item (items ! (k - 1)) then items
      else
        let items = items @ [item] in
        if length items = buffer_cap then take k (c_qsort evoke_cmp_topk_desc items) else items)"

definition evoke_topk_buffered ::
  "bool \<Rightarrow> bool \<Rightarrow> bool \<Rightarrow> f32 list option \<Rightarrow> nat \<Rightarrow> u64 \<Rightarrow> u64 list option \<Rightarrow> evoke_topk_result option
     \<Rightarrow> evoke_status \<times> evoke_topk_result option" where
  "evoke_topk_buffered malloc_ok ids_ok scores_ok scores_in num_scores k tie_break_keys result_out =
     (if scores_in = None \<or> result_out = None \<or> k = 0 \<or> unat k \<ge> num_scores
      then (EVOKE_ERR_INVALID, result_out)
      else
        (case evoke_core_checked_mul_size k 2 of
           None \<Rightarrow> (EVOKE_ERR_RANGE, result_out)
         | Some doubled \<Rightarrow>
             let buffer_cap = (if unat doubled > num_scores then num_scores else unat doubled) in
             if buffer_cap = 0 then (EVOKE_ERR_INVALID, result_out)
             else
               (case evoke_core_checked_mul_size (of_nat buffer_cap) sizeof_topk_item of
                  None \<Rightarrow> (EVOKE_ERR_RANGE, result_out)
                | Some _ \<Rightarrow>
                    if \<not> malloc_ok then (EVOKE_ERR_NOMEM, result_out)
                    else
                      let scores = the scores_in;
                          items = map (score_item scores tie_break_keys) [0..<unat k];
                          items = c_qsort evoke_cmp_topk_desc items;
                          items = foldl (buffered_step (unat k) buffer_cap) items
                                    (map (score_item scores tie_break_keys) [unat k..<num_scores]);
                          items = (if length items > unat k
                                   then take (unat k) (c_qsort evoke_cmp_topk_desc items) else items)
                      in evoke_topk_result_from_items ids_ok scores_ok items result_out)))"

definition evoke_topk_with_tie_breaks ::
  "bool \<Rightarrow> bool \<Rightarrow> bool \<Rightarrow> f32 list option \<Rightarrow> nat \<Rightarrow> u64 \<Rightarrow> bool \<Rightarrow> u64 list option \<Rightarrow> evoke_topk_result option
     \<Rightarrow> evoke_status \<times> evoke_topk_result option" where
  "evoke_topk_with_tie_breaks malloc_ok ids_ok scores_ok scores_in num_scores k sorted_out tie_break_keys result_out =
     (if (num_scores > 0 \<and> scores_in = None) \<or> result_out = None then (EVOKE_ERR_INVALID, result_out)
      else if unat k > num_scores then (EVOKE_ERR_RANGE, Some zero_topk_result)
      else if k = 0 then (EVOKE_OK, Some zero_topk_result)
      else if evoke_use_buffered_topk num_scores (unat k) sorted_out
      then evoke_topk_buffered malloc_ok ids_ok scores_ok scores_in num_scores k tie_break_keys
             (Some zero_topk_result)
      else
        (case evoke_core_checked_mul_size k sizeof_topk_item of
           None \<Rightarrow> (EVOKE_ERR_RANGE, Some zero_topk_result)
         | Some _ \<Rightarrow>
             if \<not> malloc_ok then (EVOKE_ERR_NOMEM, Some zero_topk_result)
             else
               let heap = foldl (topk_heap_step (unat k)) []
                            (map (score_item (the scores_in) tie_break_keys) [0..<num_scores]);
                   heap = (if sorted_out then c_qsort evoke_cmp_topk_desc heap else heap)
               in
                 (case evoke_core_checked_mul_size k 4 of
                    None \<Rightarrow> (EVOKE_ERR_RANGE, Some zero_topk_result)
                  | Some _ \<Rightarrow>
                      if \<not> ids_ok then (EVOKE_ERR_NOMEM, Some zero_topk_result)
                      else
                        (case evoke_core_checked_mul_size k 4 of
                           None \<Rightarrow> (EVOKE_ERR_RANGE, Some zero_topk_result)
                         | Some _ \<Rightarrow>
                             if \<not> scores_ok then (EVOKE_ERR_NOMEM, Some zero_topk_result)
                             else (EVOKE_OK, Some
                               \<lparr>result_doc_ids = map item_doc_id heap,
                                result_scores = map item_score heap,
                                result_len = of_nat (length heap)\<rparr>)))))"

definition evoke_topk ::
  "bool \<Rightarrow> bool \<Rightarrow> bool \<Rightarrow> f32 list option \<Rightarrow> nat \<Rightarrow> u64 \<Rightarrow> bool \<Rightarrow> evoke_topk_result option
     \<Rightarrow> evoke_status \<times> evoke_topk_result option" where
  "evoke_topk malloc_ok ids_ok scores_ok scores_in num_scores k sorted_out result_out =
     evoke_topk_with_tie_breaks malloc_ok ids_ok scores_ok scores_in num_scores k sorted_out None result_out"

section \<open>The first \<open>k\<close> of a sorted list\<close>

definition first_k :: "nat \<Rightarrow> 'a::linorder list \<Rightarrow> 'a list" where
  "first_k k xs = take k (sort xs)"

lemma sort_cong_mset: "mset xs = mset ys \<Longrightarrow> sort xs = sort (ys :: 'a::linorder list)"
  by (rule properties_for_sort) simp_all

lemma first_k_cong: "mset xs = mset ys \<Longrightarrow> first_k k xs = first_k k (ys :: 'a::linorder list)"
  unfolding first_k_def using sort_cong_mset [of xs ys] by simp

lemma length_first_k [simp]: "length (first_k k xs) = min k (length xs)"
  by (simp add: first_k_def min.commute)

lemma sorted_first_k [simp]: "sorted (first_k k xs)"
  by (simp add: first_k_def sorted_wrt_take)

lemma takeWhile_le_sorted:
  fixes S :: "'a::linorder list"
  shows "sorted S \<Longrightarrow> takeWhile (\<lambda>y. y \<le> x) S = filter (\<lambda>y. y \<le> x) S"
proof (induction S)
  case (Cons a S)
  have "filter (\<lambda>y. y \<le> x) S = []" if "\<not> a \<le> x"
    using that Cons.prems by (auto simp: filter_empty_conv)
  with Cons show ?case by simp
qed simp

lemma sorted_insert_mid:
  fixes T :: "'a::linorder list"
  assumes "sorted (T @ D)" and "\<forall>y \<in> set T. y \<le> x" and "\<forall>y \<in> set D. x \<le> y"
  shows "sorted (T @ x # D)"
  using assms by (auto simp: sorted_append)

lemma sort_snoc:
  fixes xs :: "'a::linorder list"
  shows "sort (xs @ [x]) = takeWhile (\<lambda>y. y \<le> x) (sort xs) @ x # dropWhile (\<lambda>y. y \<le> x) (sort xs)"
proof -
  define T D where "T = takeWhile (\<lambda>y. y \<le> x) (sort xs)" and "D = dropWhile (\<lambda>y. y \<le> x) (sort xs)"
  have TD: "T @ D = sort xs" by (simp add: T_def D_def)
  have s: "sorted (T @ D)" unfolding TD by simp
  have "\<forall>y \<in> set D. x \<le> y"
  proof (cases D)
    case (Cons z zs)
    then have "\<not> z \<le> x" unfolding D_def by (simp add: dropWhile_eq_Cons_conv)
    moreover have "sorted (z # zs)" using s Cons by (simp add: sorted_append)
    ultimately show ?thesis unfolding Cons by auto
  qed simp
  moreover have "\<forall>y \<in> set T. y \<le> x" unfolding T_def by (auto dest: set_takeWhileD)
  ultimately have "sorted (T @ x # D)" using s by (intro sorted_insert_mid)
  moreover have "mset (T @ D) = mset xs" unfolding TD by simp
  then have "mset (T @ x # D) = mset (xs @ [x])" by simp
  ultimately show ?thesis unfolding T_def [symmetric] D_def [symmetric] by (intro properties_for_sort)
qed

text \<open>An item with \<open>k\<close> others at most as large does not enter the first \<open>k\<close>.\<close>

lemma first_k_drop:
  assumes "k \<le> length (filter (\<lambda>y. y \<le> x) xs)"
  shows "first_k k (xs @ [x]) = first_k k xs"
proof -
  let ?S = "sort xs"
  have "takeWhile (\<lambda>y. y \<le> x) ?S = filter (\<lambda>y. y \<le> x) ?S"
    by (rule takeWhile_le_sorted) simp
  then have "length (takeWhile (\<lambda>y. y \<le> x) ?S) = length (filter (\<lambda>y. y \<le> x) xs)"
    by (metis filter_sort length_sort)
  with assms have len: "k \<le> length (takeWhile (\<lambda>y. y \<le> x) ?S)" by simp
  then have "first_k k (xs @ [x]) = take k (takeWhile (\<lambda>y. y \<le> x) ?S)"
    unfolding first_k_def sort_snoc by simp
  also have "\<dots> = take k (takeWhile (\<lambda>y. y \<le> x) ?S @ dropWhile (\<lambda>y. y \<le> x) ?S)"
    using len by (simp del: takeWhile_dropWhile_id)
  finally show ?thesis by (simp add: first_k_def)
qed


lemma first_k_drop_many:
  assumes "\<forall>d \<in> set D. k \<le> length (filter (\<lambda>y. y \<le> d) xs)"
  shows "first_k k (xs @ D) = first_k k xs"
  using assms
proof (induction D rule: rev_induct)
  case (snoc d D)
  have "k \<le> length (filter (\<lambda>y. y \<le> d) (xs @ D))" using snoc.prems by simp
  then have "first_k k ((xs @ D) @ [d]) = first_k k (xs @ D)" by (rule first_k_drop)
  with snoc show ?case by simp
qed simp

text \<open>Selecting early loses nothing: what is dropped would never come back.\<close>

lemma first_k_absorb: "first_k k (first_k k A @ B) = first_k k (A @ B)"
proof -
  define T D where "T = take k (sort A)" and "D = drop k (sort A)"
  have TD: "T @ D = sort A" by (simp add: T_def D_def)
  have "k \<le> length (filter (\<lambda>y. y \<le> d) (T @ B))" if "d \<in> set D" for d
  proof -
    have "k < length (sort A)" using that by (auto simp: D_def intro: ccontr)
    then have "length T = k" by (simp add: T_def)
    moreover have "sorted (T @ D)" unfolding TD by simp
    then have "filter (\<lambda>y. y \<le> d) T = T" using that by (auto simp: sorted_append filter_id_conv)
    ultimately show ?thesis by simp
  qed
  then have "first_k k ((T @ B) @ D) = first_k k (T @ B)" by (intro first_k_drop_many ballI)
  moreover have "mset (A @ B) = mset ((T @ B) @ D)"
    using arg_cong [OF TD, of mset] by (simp add: ac_simps)
  then have "first_k k (A @ B) = first_k k ((T @ B) @ D)" by (rule first_k_cong)
  ultimately show ?thesis by (simp add: first_k_def T_def)
qed

lemma first_k_all: "length xs \<le> k \<Longrightarrow> first_k k xs = sort xs"
  by (simp add: first_k_def)

text \<open>A smaller item takes the place of the last one.\<close>

lemma first_k_replace:
  assumes "sorted T" and "length T = k" and "T \<noteq> []" and "x < last T"
  shows "mset (first_k k (T @ [x])) = add_mset x (mset T - {#last T#})"
proof -
  have T: "butlast T @ [last T] = T" using assms(3) by simp
  have "\<forall>y \<in> set (butlast T). y \<le> last T"
    using assms(1) T by (metis sorted_append list.set_intros(1))
  then have "sorted (sort (butlast T @ [x]) @ [last T])"
    using assms(4) by (auto simp: sorted_append)
  moreover have m: "mset T = add_mset (last T) (mset (butlast T))"
    using arg_cong [OF T, of mset] by simp
  ultimately have "sort (T @ [x]) = sort (butlast T @ [x]) @ [last T]"
    by (intro properties_for_sort) (simp_all add: m)
  moreover have "length (butlast T @ [x]) = k" using assms(2,3) by (cases T) auto
  ultimately show ?thesis by (simp add: first_k_def m)
qed

section \<open>The order of the items\<close>

text \<open>Better items have smaller keys.\<close>

definition item_key :: "evoke_topk_item \<Rightarrow> int \<times> nat \<times> nat" where
  "item_key it = (- f32_rank (item_score it), unat (item_tie_break_key it), unat (item_doc_id it))"

abbreviation item_ok :: "evoke_topk_item \<Rightarrow> bool" where
  "item_ok it \<equiv> \<not> f32_is_nan (item_score it)"

lemma item_order:
  assumes "item_ok a" and "item_ok b"
  shows "evoke_heap_item_is_better a b \<longleftrightarrow> item_key a < item_key b"
    and "evoke_heap_item_is_worse a b \<longleftrightarrow> item_key b < item_key a"
    and "evoke_cmp_topk_desc a b \<le> 0 \<longleftrightarrow> item_key a \<le> item_key b"
  using assms
  by (auto simp: evoke_heap_item_is_better_def evoke_heap_item_is_worse_def evoke_cmp_topk_desc_def
      f32_less_def item_key_def less_prod_def less_eq_prod_def word_less_nat_alt)

interpretation topk_cmp: c_comparator evoke_cmp_topk_desc item_ok
  by unfold_locales (auto simp: item_order intro: order_trans)

lemma sorted_qsort_keys:
  assumes "\<forall>it \<in> set xs. item_ok it"
  shows "sorted (map item_key (c_qsort evoke_cmp_topk_desc xs))"
proof -
  have "sorted_wrt (\<lambda>a b. evoke_cmp_topk_desc a b \<le> 0) (c_qsort evoke_cmp_topk_desc xs)"
    using assms by (rule topk_cmp.sorted_c_qsort)
  then have "sorted_wrt (\<lambda>a b. item_key a \<le> item_key b) (c_qsort evoke_cmp_topk_desc xs)"
    by (rule sorted_wrt_mono_rel [rotated]) (use assms in \<open>simp add: item_order\<close>)
  then show ?thesis by (simp add: sorted_map)
qed

lemma qsort_keys:
  assumes "\<forall>it \<in> set xs. item_ok it"
  shows "map item_key (c_qsort evoke_cmp_topk_desc xs) = sort (map item_key xs)"
  using sorted_qsort_keys [OF assms] by (intro properties_for_sort [symmetric]) simp_all

lemma take_qsort_keys:
  assumes "\<forall>it \<in> set xs. item_ok it"
  shows "map item_key (take k (c_qsort evoke_cmp_topk_desc xs)) = first_k k (map item_key xs)"
  by (simp add: take_map [symmetric] qsort_keys [OF assms] first_k_def)


section \<open>Heaps\<close>

text \<open>The root is the worst item: every key is at most the key of its parent.\<close>

abbreviation heap_ordered :: "evoke_topk_item list \<Rightarrow> bool" where
  "heap_ordered \<equiv> heap_by item_key"

lemma sift_up_eq:
  "evoke_heap_sift_up h idx =
     (if 0 < idx
      then if \<not> evoke_heap_item_is_worse (h ! idx) (h ! parent_of idx) then h
           else evoke_heap_sift_up (swap_items h (parent_of idx) idx) (parent_of idx)
      else h)"
  by (subst evoke_heap_sift_up.simps) (simp add: parent_of_def Let_def)

lemma sift_down_eq:
  "evoke_heap_sift_down h len idx =
     (if sift_child h len idx = idx then h
      else evoke_heap_sift_down (swap_items h idx (sift_child h len idx)) len (sift_child h len idx))"
  by (subst evoke_heap_sift_down.simps) (simp add: Let_def)

interpretation topk_heap: binary_heap evoke_heap_item_is_worse item_key item_ok evoke_heap_sift_up sift_child
  evoke_heap_sift_down
proof unfold_locales
  show "sift_child h len idx =
      (let smallest = (if idx * 2 + 1 < len \<and> evoke_heap_item_is_worse (h ! (idx * 2 + 1)) (h ! idx)
                       then idx * 2 + 1 else idx)
       in if idx * 2 + 2 < len \<and> evoke_heap_item_is_worse (h ! (idx * 2 + 2)) (h ! smallest)
          then idx * 2 + 2 else smallest)" for h len idx
    by (simp add: sift_child_def Let_def)
qed (rule item_order(2) sift_up_eq sift_down_eq; assumption)+

section \<open>One step of the selection\<close>

text \<open>The heap holds the best \<open>k\<close> of the items seen.\<close>

definition heap_selects :: "nat \<Rightarrow> evoke_topk_item list \<Rightarrow> evoke_topk_item list \<Rightarrow> bool" where
  "heap_selects k seen heap \<longleftrightarrow>
     heap_ordered heap \<and> mset heap \<subseteq># mset seen \<and> mset (map item_key heap) = mset (first_k k (map item_key seen))"

lemma sorted_le_last: "sorted T \<Longrightarrow> x \<in> set T \<Longrightarrow> x \<le> last (T :: 'a::linorder list)"
  by (induction T) auto

lemma root_is_last:
  assumes "heap_ordered heap" and "mset (map item_key heap) = mset T" and "sorted T" and "heap \<noteq> []"
  shows "last T = item_key (heap ! 0)" and "length T = length heap" and "T \<noteq> []"
proof -
  show len: "length T = length heap" using arg_cong [OF assms(2), of size] by simp
  then show ne: "T \<noteq> []" using assms(4) by auto
  have mem: "set T = set (map item_key heap)" using mset_eq_setD [OF assms(2)] by simp
  show "last T = item_key (heap ! 0)"
  proof (rule antisym)
    have "last T \<in> set (map item_key heap)" using ne mem last_in_set by blast
    then show "last T \<le> item_key (heap ! 0)"
      using heap_root_worst [OF assms(1)] by (auto simp: in_set_conv_nth)
    have "item_key (heap ! 0) \<in> set T" using assms(4) by (simp add: mem)
    then show "item_key (heap ! 0) \<le> last T" by (rule sorted_le_last [OF assms(3)])
  qed
qed

lemma heap_step_selects:
  assumes "heap_selects k seen heap" and "0 < k" and "\<forall>x \<in> set seen. item_ok x" and "item_ok it"
  shows "heap_selects k (seen @ [it]) (topk_heap_step k heap it)"
proof -
  let ?K = "map item_key"
  have h: "heap_ordered heap" "mset heap \<subseteq># mset seen" "mset (?K heap) = mset (first_k k (?K seen))"
    using assms(1) by (simp_all add: heap_selects_def)
  have len: "length heap = min k (length seen)"
    using arg_cong [OF h(3), of size] by simp
  have ok: "\<forall>x \<in> set heap. item_ok x" using h(2) assms(3) by (metis mset_subset_eqD set_mset_mset)
  have ab: "first_k k (?K (seen @ [it])) = first_k k (first_k k (?K seen) @ [item_key it])"
    by (simp add: first_k_absorb)
  consider (grow) "length heap < k" | (replace) "length heap = k" "item_key it < item_key (heap ! 0)"
    | (keep) "length heap = k" "item_key (heap ! 0) \<le> item_key it"
    using len by (metis le_neq_implies_less min.cobounded1 not_le_imp_less)
  then show ?thesis
  proof cases
    case grow
    let ?h = "evoke_heap_sift_up (heap @ [it]) (length heap)"
    have up: "heap_ordered ?h \<and> mset ?h = mset (heap @ [it])"
      using heap_append_up [OF h(1)] ok assms(4) by (intro topk_heap.sift_up_heap) auto
    have "length seen < k" using grow len by simp
    then have "mset (first_k k (?K (seen @ [it]))) = add_mset (item_key it) (mset (?K seen))"
      "mset (?K heap) = mset (?K seen)"
      using h(3) by (simp_all add: first_k_all)
    moreover have "mset (?K ?h) = image_mset item_key (mset ?h)" by simp
    ultimately show ?thesis
      using grow up h(2) by (simp add: heap_selects_def topk_heap_step_def)
  next
    case replace
    let ?h = "evoke_heap_sift_down (heap[0 := it]) (length heap) 0"
    have ne: "heap \<noteq> []" using replace(1) assms(2) by auto
    have "set (heap[0 := it]) \<subseteq> insert it (set heap)" by (rule set_update_subset_insert)
    then have dn: "heap_ordered ?h \<and> mset ?h = mset (heap[0 := it])"
      using heap_root_down [OF h(1)] ok assms(4) ne by (intro topk_heap.sift_down_heap) auto
    have upd: "mset (heap[0 := it]) = add_mset it (mset heap - {#heap ! 0#})"
      using ne by (simp add: mset_update)
    have better: "evoke_heap_item_is_better it (heap ! 0)"
      using replace(2) assms(4) ok ne by (simp add: item_order)
    let ?T = "first_k k (?K seen)"
    note T = root_is_last [OF h(1,3) sorted_first_k ne]
    then have "mset (first_k k (?T @ [item_key it])) =
        add_mset (item_key it) (mset ?T - {#item_key (heap ! 0)#})"
      using first_k_replace [OF sorted_first_k, of k "?K seen" k "item_key it"] replace by simp
    then have keys: "mset (first_k k (?K (seen @ [it]))) =
        add_mset (item_key it) (mset (?K heap) - {#item_key (heap ! 0)#})"
      unfolding ab h(3) .
    have "image_mset item_key (mset heap - {#heap ! 0#}) = mset (?K heap) - {#item_key (heap ! 0)#}"
      using ne by (simp add: image_mset_Diff)
    moreover have "mset heap - {#heap ! 0#} \<subseteq># mset seen"
      using h(2) diff_subset_eq_self subset_mset.order_trans by blast
    then have "add_mset it (mset heap - {#heap ! 0#}) \<subseteq># mset (seen @ [it])" by simp
    ultimately show ?thesis
      using replace(1) better dn upd keys by (simp add: heap_selects_def topk_heap_step_def)
  next
    case keep
    have ne: "heap \<noteq> []" using keep(1) assms(2) by auto
    have "\<not> evoke_heap_item_is_better it (heap ! 0)"
      using keep(2) assms(4) ok ne by (simp add: item_order)
    moreover have "filter (\<lambda>y. y \<le> item_key it) (first_k k (?K seen)) = first_k k (?K seen)"
    proof (rule filter_True, rule ballI)
      fix y assume "y \<in> set (first_k k (?K seen))"
      then have "y \<in># mset (?K heap)" unfolding h(3) by simp
      then obtain i where "i < length heap" "y = item_key (heap ! i)" by (auto simp: in_set_conv_nth)
      with heap_root_worst [OF h(1)] keep(2) show "y \<le> item_key it" by fastforce
    qed
    then have "first_k k (first_k k (?K seen) @ [item_key it]) = first_k k (first_k k (?K seen))"
      using keep(1) len by (intro first_k_drop) simp
    moreover have "first_k k (first_k k (?K seen)) = first_k k (?K seen)"
      using first_k_absorb [of k "?K seen" "[]"] by simp
    ultimately show ?thesis
      using keep(1) h ab subset_mset.order_trans [OF h(2), of "mset (seen @ [it])"]
      by (simp add: heap_selects_def topk_heap_step_def)
  qed
qed


lemma heap_fold_selects:
  assumes "0 < k" and "\<forall>x \<in> set items. item_ok x"
  shows "heap_selects k items (foldl (topk_heap_step k) [] items)"
  using assms(2)
proof (induction items rule: rev_induct)
  case (snoc it items)
  then show ?case using heap_step_selects [OF _ assms(1), of items] by simp
qed (simp add: heap_selects_def heap_by_def first_k_def)

text \<open>Items with different document ids have different keys, so the keys determine the items.\<close>

lemma items_from_keys:
  assumes "map item_key xs = map item_key ys" and "set xs \<subseteq> set items" and "set ys \<subseteq> set items"
    and "inj_on item_doc_id (set items)"
  shows "xs = ys"
proof (rule map_inj_on [OF assms(1)])
  have "inj_on item_key (set items)"
  proof (rule inj_onI)
    fix a b assume ab: "a \<in> set items" "b \<in> set items" "item_key a = item_key b"
    then have "item_doc_id a = item_doc_id b" by (simp add: item_key_def word_unat_eq_iff)
    with ab assms(4) show "a = b" by (simp add: inj_on_def)
  qed
  then show "inj_on item_key (set xs \<union> set ys)" using assms(2,3) by (meson Un_least inj_on_subset)
qed

text \<open>The reference: sort by key, take the first \<open>k\<close>.\<close>

definition ranked :: "nat \<Rightarrow> evoke_topk_item list \<Rightarrow> evoke_topk_item list" where
  "ranked k items = take k (sort_key item_key items)"

lemma ranked_keys: "map item_key (ranked k items) = first_k k (map item_key items)"
proof -
  have "map item_key (sort_key item_key items) = sort (map item_key items)"
    by (intro properties_for_sort [symmetric]) simp_all
  then show ?thesis by (simp add: ranked_def first_k_def take_map [symmetric])
qed

lemma set_ranked: "set (ranked k items) \<subseteq> set items"
  by (metis ranked_def set_sort set_take_subset)

lemma ranked_unique:
  assumes "map item_key xs = first_k k (map item_key items)" and "set xs \<subseteq> set items"
    and "inj_on item_doc_id (set items)"
  shows "xs = ranked k items"
  using assms ranked_keys set_ranked by (intro items_from_keys [of xs]) auto

lemma heap_sorted_ranked:
  assumes "heap_selects k items heap" and "\<forall>x \<in> set items. item_ok x" and "inj_on item_doc_id (set items)"
  shows "c_qsort evoke_cmp_topk_desc heap = ranked k items"
proof (rule ranked_unique)
  have sub: "mset heap \<subseteq># mset items" and m: "mset (map item_key heap) = mset (first_k k (map item_key items))"
    using assms(1) by (simp_all add: heap_selects_def)
  then have set: "set heap \<subseteq> set items" by (metis set_mset_mono set_mset_mset)
  then have "map item_key (c_qsort evoke_cmp_topk_desc heap) = sort (map item_key heap)"
    using assms(2) by (intro qsort_keys) auto
  also have "\<dots> = first_k k (map item_key items)" using m by (intro properties_for_sort) simp_all
  finally show "map item_key (c_qsort evoke_cmp_topk_desc heap) = first_k k (map item_key items)" .
  show "set (c_qsort evoke_cmp_topk_desc heap) \<subseteq> set items" using set by simp
qed (rule assms(3))

section \<open>The buffered selection\<close>

text \<open>
  The buffer holds at least \<open>k\<close> items, never fills its \<open>cap\<close> entries between steps, starts with the
  sorted result of the last sort, and its best \<open>k\<close> are the best \<open>k\<close> of everything seen.
\<close>

definition buffer_selects ::
  "nat \<Rightarrow> nat \<Rightarrow> evoke_topk_item list \<Rightarrow> evoke_topk_item list \<Rightarrow> bool" where
  "buffer_selects k cap seen items \<longleftrightarrow>
     k \<le> length items \<and> length items < cap \<and> set items \<subseteq> set seen \<and>
     sorted (map item_key (take k items)) \<and>
     first_k k (map item_key items) = first_k k (map item_key seen)"

lemma first_k_step:
  "first_k k xs = first_k k ys \<Longrightarrow> first_k k (xs @ zs) = first_k k (ys @ zs)"
  by (metis first_k_absorb)

lemma first_k_idem: "first_k k (first_k k xs) = first_k k xs"
  using first_k_absorb [of k xs "[]"] by simp

lemma buffered_step_selects:
  assumes "buffer_selects k cap seen items" and "0 < k" and "\<forall>x \<in> set seen. item_ok x" and "item_ok it"
  shows "buffer_selects k cap (seen @ [it]) (buffered_step k cap items it)"
proof -
  let ?K = "map item_key"
  have b: "k \<le> length items" "length items < cap" "set items \<subseteq> set seen" "sorted (?K (take k items))"
    "first_k k (?K items) = first_k k (?K seen)"
    using assms(1) by (simp_all add: buffer_selects_def)
  have ok: "\<forall>x \<in> set (items @ [it]). item_ok x" using b(3) assms(3,4) by auto
  have ext: "first_k k (?K items @ [item_key it]) = first_k k (?K (seen @ [it]))"
    using first_k_step [OF b(5)] by simp
  have better: "evoke_heap_item_is_better it (items ! (k - 1)) \<longleftrightarrow> item_key it < item_key (items ! (k - 1))"
    using ok b(1) assms(2,4) by (intro item_order) (simp_all add: subset_eq)
  consider (skip) "item_key (items ! (k - 1)) \<le> item_key it"
    | (full) "item_key it < item_key (items ! (k - 1))" "length (items @ [it]) = cap"
    | (room) "item_key it < item_key (items ! (k - 1))" "length (items @ [it]) < cap"
    using b(2) by force
  then show ?thesis
  proof cases
    case skip
    have "x \<le> item_key it" if "x \<in> set (?K (take k items))" for x
    proof -
      have "x \<le> last (?K (take k items))" using that by (rule sorted_le_last [OF b(4)])
      also have "last (?K (take k items)) = item_key (items ! (k - 1))"
        using b(1) assms(2) by (simp add: last_map last_conv_nth min_absorb2 flip: length_greater_0_conv)
      finally show ?thesis using skip by simp
    qed
    then have "filter (\<lambda>y. y \<le> item_key it) (?K (take k items)) = ?K (take k items)"
      by (intro filter_True ballI)
    then have "k \<le> length (filter (\<lambda>y. y \<le> item_key it) (?K (take k items)))" using b(1) by simp
    moreover have "?K items = ?K (take k items) @ ?K (drop k items)" by (simp flip: map_append)
    ultimately have "k \<le> length (filter (\<lambda>y. y \<le> item_key it) (?K items))"
      by (metis filter_append le_add1 length_append order_trans)
    then have "first_k k (?K items @ [item_key it]) = first_k k (?K items)" by (rule first_k_drop)
    moreover have "\<not> evoke_heap_item_is_better it (items ! (k - 1))" using skip better by simp
    then have "buffered_step k cap items it = items" by (simp add: buffered_step_def)
    ultimately show ?thesis using b ext by (auto simp: buffer_selects_def)
  next
    case full
    let ?q = "take k (c_qsort evoke_cmp_topk_desc (items @ [it]))"
    have keys: "?K ?q = first_k k (?K (items @ [it]))" by (rule take_qsort_keys [OF ok])
    have "set ?q \<subseteq> set (items @ [it])" by (metis set_c_qsort set_take_subset)
    moreover have "length ?q = k" using b(1) by simp
    moreover have "first_k k (?K ?q) = first_k k (?K (seen @ [it]))"
      unfolding keys first_k_idem using ext by simp
    moreover have "sorted (?K (take k ?q))" using keys by simp
    moreover have "buffered_step k cap items it = ?q" using full better by (simp add: buffered_step_def)
    ultimately show ?thesis using b by (auto simp: buffer_selects_def)
  next
    case room
    then have "buffered_step k cap items it = items @ [it]" using better by (simp add: buffered_step_def)
    then show ?thesis using room(2) b ext by (auto simp: buffer_selects_def)
  qed
qed

lemma buffered_fold_selects:
  assumes "buffer_selects k cap seen items" and "0 < k" and "\<forall>x \<in> set (seen @ rest). item_ok x"
  shows "buffer_selects k cap (seen @ rest) (foldl (buffered_step k cap) items rest)"
  using assms
proof (induction rest arbitrary: seen items)
  case (Cons it rest)
  have "buffer_selects k cap (seen @ [it]) (buffered_step k cap items it)"
    using Cons.prems by (intro buffered_step_selects) auto
  from Cons.IH [OF this Cons.prems(2)] Cons.prems(3) show ?case by simp
qed simp

text \<open>The buffer is sorted and cut once more at the end.\<close>

lemma buffered_result:
  assumes "buffer_selects k cap seen items" and "0 < k" and "\<forall>x \<in> set seen. item_ok x"
    and "inj_on item_doc_id (set seen)"
  shows "(if length items > k then take k (c_qsort evoke_cmp_topk_desc items) else items) = ranked k seen"
proof -
  have b: "k \<le> length items" "set items \<subseteq> set seen" "sorted (map item_key (take k items))"
    "first_k k (map item_key items) = first_k k (map item_key seen)"
    using assms(1) by (simp_all add: buffer_selects_def)
  have ok: "\<forall>x \<in> set items. item_ok x" using b(2) assms(3) by auto
  let ?r = "if length items > k then take k (c_qsort evoke_cmp_topk_desc items) else items"
  show ?thesis
  proof (rule ranked_unique [OF _ _ assms(4)])
    show "map item_key ?r = first_k k (map item_key seen)"
    proof (cases "length items > k")
      case True
      then show ?thesis using take_qsort_keys [OF ok, of k] b(4) by simp
    next
      case False
      then have "length items = k" using b(1) by simp
      then have "sort (map item_key items) = map item_key items" using b(3) by (simp add: sorted_sort_id)
      with False \<open>length items = k\<close> show ?thesis unfolding b(4) [symmetric] by (simp add: first_k_def)
    qed
    show "set ?r \<subseteq> set seen"
      using b(2) set_take_subset [of k "c_qsort evoke_cmp_topk_desc items"] by auto
  qed
qed

section \<open>Size checks\<close>

lemma checked_mul_some:
  "unat a * unat b < 2 ^ 64 \<Longrightarrow> evoke_core_checked_mul_size a b = Some (a * b)"
proof -
  assume h: "unat a * unat b < 2 ^ 64"
  have "\<not> a > (0 - 1) div b" if "b \<noteq> 0"
  proof -
    have "unat b > 0" using that by (simp add: unat_gt_0)
    moreover have "unat a * unat b \<le> 2 ^ 64 - 1" using h by simp
    ultimately have "unat a \<le> (2 ^ 64 - 1) div unat b" by (simp add: less_eq_div_iff_mult_less_eq)
    also have "\<dots> = unat ((0 - 1 :: u64) div b)"
    proof -
      have "unat (0 - 1 :: u64) = 2 ^ 64 - 1" by (simp add: unsigned_minus_1_eq_mask mask_eq_exp_minus_1)
      then show ?thesis by (simp only: unat_div)
    qed
    finally show ?thesis by (simp add: word_le_nat_alt linorder_not_less)
  qed
  then show ?thesis by (auto simp: evoke_core_checked_mul_size_def)
qed

lemma size_check_small:
  "n \<le> 2 ^ 32 \<Longrightarrow> evoke_core_checked_mul_size (of_nat n) 2 = Some (of_nat (n * 2))"
  "n \<le> 2 ^ 32 \<Longrightarrow> evoke_core_checked_mul_size (of_nat n) 4 = Some (of_nat (n * 4))"
  "n \<le> 2 ^ 32 \<Longrightarrow> evoke_core_checked_mul_size (of_nat n) sizeof_compact_topk_item = Some (of_nat (n * 8))"
  "n \<le> 2 ^ 32 \<Longrightarrow> evoke_core_checked_mul_size (of_nat n) sizeof_topk_item = Some (of_nat (n * 16))"
  by (simp_all add: checked_mul_some unat_of_nat sizeof_topk_item_def sizeof_compact_topk_item_def)

definition topk_answer :: "evoke_topk_item list \<Rightarrow> evoke_topk_result" where
  "topk_answer items =
     \<lparr>result_doc_ids = map item_doc_id items, result_scores = map item_score items,
      result_len = of_nat (length items)\<rparr>"

lemma topk_answer_Nil: "topk_answer [] = zero_topk_result"
  by (simp add: topk_answer_def zero_topk_result_def)

lemma result_from_items:
  "length items \<le> 2 ^ 32 \<Longrightarrow>
   evoke_topk_result_from_items True True items (Some r) = (EVOKE_OK, Some (topk_answer items))"
  by (simp add: evoke_topk_result_from_items_def size_check_small topk_answer_Nil) (simp add: topk_answer_def)

text \<open>With distinct documents the heap holds the ranked items in some order.\<close>

lemma heap_permutes_ranked:
  assumes "0 < k" and "\<forall>x \<in> set items. item_ok x" and "inj_on item_doc_id (set items)"
  shows "c_qsort evoke_cmp_topk_desc (foldl (topk_heap_step k) [] items) = ranked k items"
    and "mset (foldl (topk_heap_step k) [] items) = mset (ranked k items)"
proof -
  show *: "c_qsort evoke_cmp_topk_desc (foldl (topk_heap_step k) [] items) = ranked k items"
    using heap_fold_selects [OF assms(1,2)] assms(2,3) by (rule heap_sorted_ranked)
  show "mset (foldl (topk_heap_step k) [] items) = mset (ranked k items)"
    using * by (metis mset_c_qsort)
qed

lemma length_ranked [simp]: "length (ranked k items) = min k (length items)"
  by (simp add: ranked_def min.commute)

lemma buffer_start:
  assumes "length seen = k" and "k < cap" and "\<forall>x \<in> set seen. item_ok x"
  shows "buffer_selects k cap seen (c_qsort evoke_cmp_topk_desc seen)"
proof -
  have "map item_key (c_qsort evoke_cmp_topk_desc seen) = sort (map item_key seen)"
    using assms(3) by (rule qsort_keys)
  moreover have "take k (c_qsort evoke_cmp_topk_desc seen) = c_qsort evoke_cmp_topk_desc seen"
    using assms(1) by simp
  ultimately show ?thesis
    using assms(1,2) by (simp add: buffer_selects_def first_k_def sorted_sort_id)
qed

text \<open>The whole buffered pass over a list whose first \<open>k\<close> items fill the buffer.\<close>

lemma buffered_pass:
  assumes "length seen = k" and "0 < k" and "k < cap" and "\<forall>x \<in> set (seen @ rest). item_ok x"
    and "inj_on item_doc_id (set (seen @ rest))"
  defines "items \<equiv> foldl (buffered_step k cap) (c_qsort evoke_cmp_topk_desc seen) rest"
  shows "(if length items > k then take k (c_qsort evoke_cmp_topk_desc items) else items) = ranked k (seen @ rest)"
proof -
  have "buffer_selects k cap seen (c_qsort evoke_cmp_topk_desc seen)"
    using assms(1,3,4) by (intro buffer_start) auto
  then have "buffer_selects k cap (seen @ rest) items"
    unfolding items_def using assms(2,4) by (rule buffered_fold_selects)
  then show ?thesis using assms(2,4,5) by (rule buffered_result)
qed

section \<open>Selection over all scores\<close>

definition keys_cover :: "u64 list option \<Rightarrow> u32 set \<Rightarrow> bool" where
  "keys_cover tie_break_keys docs \<longleftrightarrow>
     (case tie_break_keys of None \<Rightarrow> True | Some keys \<Rightarrow> \<forall>d \<in> docs. unat d < length keys)"

definition scored_items :: "f32 list \<Rightarrow> u64 list option \<Rightarrow> nat \<Rightarrow> evoke_topk_item list" where
  "scored_items scores tie_break_keys n = map (score_item scores tie_break_keys) [0..<n]"

lemma length_scored_items [simp]: "length (scored_items scores keys n) = n"
  by (simp add: scored_items_def)

lemma scored_items_ok:
  assumes "n \<le> length scores" and "\<forall>s \<in> set (take n scores). \<not> f32_is_nan s"
  shows "\<forall>x \<in> set (scored_items scores keys n). item_ok x"
proof -
  have "\<not> f32_is_nan (scores ! i)" if "i < n" for i
    using assms that by (metis in_set_conv_nth length_take min.absorb2 nth_take)
  then show ?thesis by (auto simp: scored_items_def score_item_def evoke_heap_item_init_def)
qed

lemma scored_items_inj: "n \<le> 2 ^ 32 \<Longrightarrow> inj_on item_doc_id (set (scored_items scores keys n))"
proof (rule inj_onI)
  fix x y assume n: "n \<le> 2 ^ 32" and x: "x \<in> set (scored_items scores keys n)"
    and y: "y \<in> set (scored_items scores keys n)" and eq: "item_doc_id x = item_doc_id y"
  obtain i j where ij: "i < n" "x = score_item scores keys i" "j < n" "y = score_item scores keys j"
    using x y by (auto simp: scored_items_def)
  then have "of_nat i = (of_nat j :: u32)" using eq by (simp add: score_item_def evoke_heap_item_init_def)
  moreover have "unat (of_nat i :: u32) = i" "unat (of_nat j :: u32) = j"
    using ij(1,3) n by (simp_all add: unat_of_nat)
  ultimately have "i = j" by metis
  then show "x = y" using ij by simp
qed

lemma scored_items_split:
  "k \<le> n \<Longrightarrow> scored_items scores keys n
     = map (score_item scores keys) [0..<k] @ map (score_item scores keys) [k..<n]"
  unfolding scored_items_def by (metis map_append le_add_diff_inverse plus_nat.add_0 upt_add_eq_append zero_le)

lemma topk_buffered_ranked:
  assumes "n \<le> length scores" and "n \<le> 2 ^ 32" and "\<forall>s \<in> set (take n scores). \<not> f32_is_nan s"
    and "0 < k" and "unat k < n"
  shows "evoke_topk_buffered True True True (Some scores) n k keys (Some r)
         = (EVOKE_OK, Some (topk_answer (ranked (unat k) (scored_items scores keys n))))"
proof -
  let ?k = "unat k" and ?item = "score_item scores keys"
  let ?cap = "if ?k * 2 > n then n else ?k * 2"
  have k: "0 < ?k" using assms(4) by (simp add: unat_gt_0)
  have mul2: "evoke_core_checked_mul_size k 2 = Some (of_nat (?k * 2))"
    using size_check_small(1) [of ?k] assms(2,5) by simp
  have dbl: "unat (of_nat (?k * 2) :: u64) = ?k * 2"
    using assms(2,5) by (subst unat_of_nat) simp
  have cap: "?k < ?cap" "?cap \<le> 2 ^ 32" using k assms(2,5) by auto
  let ?items = "foldl (buffered_step ?k ?cap) (c_qsort evoke_cmp_topk_desc (map ?item [0..<?k])) (map ?item [?k..<n])"
  have pass: "(if length ?items > ?k then take ?k (c_qsort evoke_cmp_topk_desc ?items) else ?items)
      = ranked ?k (scored_items scores keys n)"
    using buffered_pass [of "map ?item [0..<?k]" ?k ?cap "map ?item [?k..<n]"] cap k assms(5)
      scored_items_ok [OF assms(1,3), of keys] scored_items_inj [OF assms(2), of scores keys]
    by (simp only: scored_items_split [of ?k n, symmetric] order_less_imp_le length_map length_upt minus_nat.diff_0 simp_thms)
  have "evoke_topk_buffered True True True (Some scores) n k keys (Some r)
      = evoke_topk_result_from_items True True (ranked ?k (scored_items scores keys n)) (Some r)"
    unfolding evoke_topk_buffered_def mul2 Let_def option.case dbl size_check_small(4) [OF cap(2)] option.sel pass
    using assms(4,5) cap(1) by auto
  also have "\<dots> = (EVOKE_OK, Some (topk_answer (ranked ?k (scored_items scores keys n))))"
    using assms(2) by (intro result_from_items) simp
  finally show ?thesis .
qed

lemma topk_heap_answer:
  fixes keys :: "u64 list option"
  assumes "n \<le> length scores" and "n \<le> 2 ^ 32" and "\<forall>s \<in> set (take n scores). \<not> f32_is_nan s"
    and "0 < k" and "unat k \<le> n" and "\<not> evoke_use_buffered_topk n (unat k) sorted_out"
  defines "heap \<equiv> foldl (topk_heap_step (unat k)) [] (scored_items scores keys n)"
  shows "evoke_topk_with_tie_breaks True True True (Some scores) n k sorted_out keys (Some r)
         = (EVOKE_OK, Some (topk_answer (if sorted_out then c_qsort evoke_cmp_topk_desc heap else heap)))"
proof -
  have kn: "unat k \<le> 2 ^ 32" using assms(2,5) by simp
  have mul: "evoke_core_checked_mul_size k sizeof_topk_item = Some (of_nat (unat k * 16))"
    "evoke_core_checked_mul_size k 4 = Some (of_nat (unat k * 4))"
    using size_check_small(2,4) [OF kn] by simp_all
  show ?thesis
    unfolding evoke_topk_with_tie_breaks_def mul heap_def topk_answer_def scored_items_def
    using assms(4-6) by (auto simp: Let_def)
qed

text \<open>
  C16. Top-k selection. For a score array without NaNs and any \<open>k\<close> up to its length,
  \<open>evoke_topk_with_tie_breaks\<close> succeeds on its buffered path and on its heap path, and answers
  exactly the \<open>k\<close> best documents: by score, then tie-break key, then document id. Asked for a
  sorted answer it lists them in that order, otherwise in some order.
\<close>

theorem topk_returns_best:
  assumes "n \<le> length scores" and "n \<le> 2 ^ 32" and "\<forall>s \<in> set (take n scores). \<not> f32_is_nan s"
    and "unat k \<le> n" and "keys_cover tie_break_keys (of_nat ` {..<n})"
  shows "\<exists>items.
           evoke_topk_with_tie_breaks True True True (Some scores) n k sorted_out tie_break_keys (Some r)
             = (EVOKE_OK, Some (topk_answer items)) \<and>
           mset items = mset (ranked (unat k) (scored_items scores tie_break_keys n)) \<and>
           (sorted_out \<longrightarrow> items = ranked (unat k) (scored_items scores tie_break_keys n))"
proof (cases "k = 0")
  case True
  then show ?thesis
    by (intro exI [of _ "[]"]) (simp add: evoke_topk_with_tie_breaks_def topk_answer_Nil ranked_def)
next
  case False
  let ?S = "scored_items scores tie_break_keys n"
  note perm = heap_permutes_ranked [of "unat k" ?S]
  have k: "0 < k" "0 < unat k" using False by (simp_all add: word_gt_0 unat_gt_0)
  have ok: "\<forall>x \<in> set ?S. item_ok x" "inj_on item_doc_id (set ?S)"
    using scored_items_ok [OF assms(1,3)] scored_items_inj [OF assms(2)] by blast+
  show ?thesis
  proof (cases "evoke_use_buffered_topk n (unat k) sorted_out")
    case True
    then have "unat k < n" by (simp add: evoke_use_buffered_topk_def)
    then show ?thesis
      using True False topk_buffered_ranked [OF assms(1-3) k(1)]
      by (intro exI [of _ "ranked (unat k) ?S"]) (simp add: evoke_topk_with_tie_breaks_def)
  next
    case False
    let ?heap = "foldl (topk_heap_step (unat k)) [] ?S"
    show ?thesis
      using topk_heap_answer [OF assms(1-3) k(1) assms(4) False] perm [OF k(2) ok]
      by (intro exI [of _ "if sorted_out then c_qsort evoke_cmp_topk_desc ?heap else ?heap"]) simp
  qed
qed

text \<open>Scores 1.0, 3.0, 2.0 and -1.0; the best two are documents 1 and 2.\<close>

theorem topk_returns_best_witness:
  "\<exists>items.
     evoke_topk_with_tie_breaks True True True (Some [0x3F800000, 0x40400000, 0x40000000, 0xBF800000]) 4 2 True
       None (Some zero_topk_result) = (EVOKE_OK, Some (topk_answer items)) \<and>
     map item_doc_id items = [1, 2]"
proof -
  let ?s = "[0x3F800000, 0x40400000, 0x40000000, 0xBF800000] :: f32 list"
  have "map item_doc_id (ranked (unat (2 :: u64)) (scored_items ?s None 4)) = [1, 2]"
    by (simp add: ranked_def scored_items_def upt_rec score_item_def evoke_heap_item_init_def item_key_def
        f32_rank_def less_eq_prod_def)
  moreover have "\<forall>s \<in> set (take 4 ?s). \<not> f32_is_nan s" by code_simp
  moreover have "unat (2 :: u64) \<le> 4" by simp
  ultimately show ?thesis
    using topk_returns_best [of 4 ?s 2 None True zero_topk_result]
    by (simp only: keys_cover_def option.case simp_thms length_Cons) auto
qed

section \<open>The streaming accumulator\<close>

text \<open>Offering a sequence of items, stopping at the first refusal.\<close>

fun offer_all ::
  "evoke_topk_accumulator option \<Rightarrow> evoke_topk_item list \<Rightarrow> evoke_status \<times> evoke_topk_accumulator option" where
  "offer_all acc [] = (EVOKE_OK, acc)"
| "offer_all acc (it # its) =
     (case evoke_topk_accumulator_offer acc (item_score it) (item_doc_id it) (item_tie_break_key it) of
        (status, acc') \<Rightarrow> if status = EVOKE_OK then offer_all acc' its else (status, acc'))"

lemma c_qsort_short: "length xs \<le> 1 \<Longrightarrow> c_qsort cmp xs = xs"
  by (cases xs) (simp_all add: c_qsort_def)

lemma item_eta [simp]:
  "\<lparr>item_score = item_score it, item_doc_id = item_doc_id it, item_tie_break_key = item_tie_break_key it\<rparr> = it"
  by simp

lemma offer_all_folds:
  "c \<noteq> 0 \<Longrightarrow>
   offer_all (Some \<lparr>acc_heap = Some h, acc_capacity = c, acc_finalized = False\<rparr>) items
   = (EVOKE_OK, Some \<lparr>acc_heap = Some (foldl (topk_heap_step (unat c)) h items), acc_capacity = c,
        acc_finalized = False\<rparr>)"
  by (induction items arbitrary: h) (simp_all add: evoke_topk_accumulator_offer_def Let_def)

lemma offer_all_zero:
  "offer_all (Some zero_accumulator) items = (EVOKE_OK, Some zero_accumulator)"
  by (induction items) (simp_all add: evoke_topk_accumulator_offer_def zero_accumulator_def)

lemma result_from_sized_items:
  assumes "length items * 4 < 2 ^ 64"
  shows "evoke_topk_result_from_items True True items (Some r) = (EVOKE_OK, Some (topk_answer items))"
proof -
  have "evoke_core_checked_mul_size (of_nat (length items)) 4 = Some (of_nat (length items) * 4)"
    using assms by (intro checked_mul_some) (simp add: unat_of_nat)
  then show ?thesis
    by (simp add: evoke_topk_result_from_items_def topk_answer_Nil) (simp add: topk_answer_def)
qed

text \<open>
  C17. The streaming accumulator. An accumulator of any capacity whose buffer size fits accepts
  every offer, keeps no more than its capacity, and finishing it answers exactly the best offers
  among all those made, in ranking order when asked. A finished accumulator refuses any further
  offer and a second finish.
\<close>

theorem accumulator_returns_best:
  assumes "unat capacity * 16 < 2 ^ 64" and "\<forall>x \<in> set items. item_ok x" and "inj_on item_doc_id (set items)"
  shows "\<exists>acc0 acc1 acc2 out.
           evoke_topk_accumulator_init True (Some a) capacity = (EVOKE_OK, Some acc0) \<and>
           offer_all (Some acc0) items = (EVOKE_OK, Some acc1) \<and>
           evoke_topk_accumulator_finish True True (Some acc1) sorted_out (Some r)
             = (EVOKE_OK, Some acc2, Some (topk_answer out)) \<and>
           mset out = mset (ranked (unat capacity) items) \<and>
           (sorted_out \<longrightarrow> out = ranked (unat capacity) items) \<and>
           evoke_topk_accumulator_offer (Some acc2) s d t = (EVOKE_ERR_INVALID, Some acc2) \<and>
           evoke_topk_accumulator_finish True True (Some acc2) sorted_out (Some r)
             = (EVOKE_ERR_INVALID, Some acc2, Some r)"
proof (cases "capacity = 0")
  case True
  let ?fin = "zero_accumulator\<lparr>acc_finalized := True\<rparr>"
  have "evoke_topk_accumulator_init True (Some a) capacity = (EVOKE_OK, Some zero_accumulator)"
    using True by (simp add: evoke_topk_accumulator_init_def)
  moreover have "evoke_topk_accumulator_finish True True (Some zero_accumulator) sorted_out (Some r)
      = (EVOKE_OK, Some ?fin, Some (topk_answer []))"
    by (simp add: evoke_topk_accumulator_finish_def zero_accumulator_def result_from_sized_items)
  moreover have "evoke_topk_accumulator_offer (Some ?fin) s d t = (EVOKE_ERR_INVALID, Some ?fin)"
    "evoke_topk_accumulator_finish True True (Some ?fin) sorted_out (Some r) = (EVOKE_ERR_INVALID, Some ?fin, Some r)"
    by (simp_all add: evoke_topk_accumulator_offer_def evoke_topk_accumulator_finish_def)
  moreover have "ranked (unat capacity) items = []" using True by (simp add: ranked_def)
  ultimately show ?thesis using offer_all_zero [of items] by metis
next
  case False
  let ?k = "unat capacity"
  let ?heap = "foldl (topk_heap_step ?k) [] items"
  let ?acc = "\<lambda>h fin. \<lparr>acc_heap = Some h, acc_capacity = capacity, acc_finalized = fin\<rparr>"
  let ?out = "if sorted_out \<and> length ?heap > 1 then c_qsort evoke_cmp_topk_desc ?heap else ?heap"
  have k: "0 < ?k" using False by (simp add: unat_gt_0)
  note perm = heap_permutes_ranked [OF k assms(2,3)]
  have sorted: "sorted_out \<longrightarrow> ?out = ranked ?k items"
    using perm(1) c_qsort_short [of ?heap evoke_cmp_topk_desc] linorder_not_less [of 1 "length ?heap"] by presburger
  have mset: "mset ?out = mset (ranked ?k items)" using perm(2) by simp
  then have "length ?out = min ?k (length items)" by (metis length_ranked size_mset)
  then have "length ?out * 4 < 2 ^ 64" using assms(1) by linarith
  note res = result_from_sized_items [OF this, of r]
  have "evoke_core_checked_mul_size capacity sizeof_topk_item = Some (capacity * 16)"
    using checked_mul_some [of capacity 16] assms(1) by (simp add: sizeof_topk_item_def)
  then have init: "evoke_topk_accumulator_init True (Some a) capacity = (EVOKE_OK, Some (?acc [] False))"
    using False by (simp add: evoke_topk_accumulator_init_def zero_accumulator_def)
  have finish: "evoke_topk_accumulator_finish True True (Some (?acc ?heap False)) sorted_out (Some r)
      = (EVOKE_OK, Some (?acc ?out True), Some (topk_answer ?out))"
    using res by (simp add: evoke_topk_accumulator_finish_def Let_def)
  have closed: "evoke_topk_accumulator_offer (Some (?acc ?out True)) s d t = (EVOKE_ERR_INVALID, Some (?acc ?out True))"
    "evoke_topk_accumulator_finish True True (Some (?acc ?out True)) sorted_out (Some r)
       = (EVOKE_ERR_INVALID, Some (?acc ?out True), Some r)"
    by (simp_all add: evoke_topk_accumulator_offer_def evoke_topk_accumulator_finish_def)
  show ?thesis using init offer_all_folds [OF False] finish mset sorted closed by blast
qed

text \<open>Capacity one over two offers of scores 1.0 and 3.0.\<close>

theorem accumulator_returns_best_witness:
  "\<exists>acc0 acc1 acc2 out.
     evoke_topk_accumulator_init True (Some zero_accumulator) 1 = (EVOKE_OK, Some acc0) \<and>
     offer_all (Some acc0)
       [\<lparr>item_score = 0x3F800000, item_doc_id = 5, item_tie_break_key = 0\<rparr>,
        \<lparr>item_score = 0x40400000, item_doc_id = 9, item_tie_break_key = 0\<rparr>] = (EVOKE_OK, Some acc1) \<and>
     evoke_topk_accumulator_finish True True (Some acc1) True (Some zero_topk_result)
       = (EVOKE_OK, Some acc2, Some (topk_answer out)) \<and>
     map item_doc_id out = [9]"
proof -
  let ?its = "[\<lparr>item_score = 0x3F800000, item_doc_id = 5, item_tie_break_key = 0\<rparr>,
        \<lparr>item_score = 0x40400000, item_doc_id = 9, item_tie_break_key = 0\<rparr>]"
  have "map item_doc_id (ranked (unat (1 :: u64)) ?its) = [9]"
    by (simp add: ranked_def item_key_def f32_rank_def less_eq_prod_def)
  moreover have "\<forall>x \<in> set ?its. item_ok x" by (simp add: f32_is_nan_def)
  moreover have "inj_on item_doc_id (set ?its)" by simp
  moreover have "unat (1 :: u64) * 16 < 2 ^ 64" by simp
  ultimately show ?thesis
    using accumulator_returns_best [of 1 ?its zero_accumulator True zero_topk_result] by metis
qed

end
