(* ===== verification/Topk_Subset.thy ===== *)
theory Topk_Subset
  imports Topk
begin

text \<open>
  Ranking a set of candidate documents: \<open>evoke_topk_subset_with_tie_breaks\<close> of \<open>src/evoke_core.c\<close>
  and the four selections it chooses from (compact, full sort, buffered, heap). The compact one
  works on items of half the size; it is shown to compute what the buffered one computes without
  tie-break keys. All of them answer the first \<open>k\<close> of the kept candidates in ranking order.
\<close>

section \<open>Selection over candidates\<close>

definition candidate_item :: "f32 list \<Rightarrow> u64 list option \<Rightarrow> u32 \<Rightarrow> evoke_topk_item" where
  "candidate_item scores tie_break_keys doc_id =
     evoke_heap_item_init (scores ! unat doc_id) doc_id tie_break_keys"

text \<open>\<open>positive_only && item.score <= 0.0f\<close>\<close>

definition skipped :: "bool \<Rightarrow> evoke_topk_item \<Rightarrow> bool" where
  "skipped positive_only item \<longleftrightarrow> positive_only \<and> f32_less_eq (item_score item) 0"

text \<open>The first loop collects until the heap capacity is reached; it returns the rest of the input.\<close>

fun subset_fill ::
  "bool \<Rightarrow> nat \<Rightarrow> evoke_topk_item list \<Rightarrow> evoke_topk_item list
     \<Rightarrow> evoke_topk_item list \<times> evoke_topk_item list" where
  "subset_fill positive_only heap_cap buf [] = (buf, [])"
| "subset_fill positive_only heap_cap buf (item # rest) =
     (if skipped positive_only item then subset_fill positive_only heap_cap buf rest
      else
        let buf = buf @ [item] in
        if length buf = heap_cap then (buf, rest)
        else subset_fill positive_only heap_cap buf rest)"

definition subset_step ::
  "bool \<Rightarrow> nat \<Rightarrow> nat \<Rightarrow> evoke_topk_item list \<Rightarrow> evoke_topk_item \<Rightarrow> evoke_topk_item list" where
  "subset_step positive_only heap_cap buffer_cap items item =
     (if skipped positive_only item then items
      else buffered_step heap_cap buffer_cap items item)"

definition evoke_topk_subset_buffered ::
  "bool \<Rightarrow> bool \<Rightarrow> bool \<Rightarrow> f32 list \<Rightarrow> u32 list \<Rightarrow> u64 \<Rightarrow> bool \<Rightarrow> u64 list option \<Rightarrow> evoke_topk_result
     \<Rightarrow> evoke_status \<times> evoke_topk_result" where
  "evoke_topk_subset_buffered malloc_ok ids_ok scores_ok scores candidate_doc_ids k positive_only
     tie_break_keys result_out =
     (let num_candidate_doc_ids = length candidate_doc_ids;
          heap_cap = (if unat k < num_candidate_doc_ids then unat k else num_candidate_doc_ids)
      in
        if heap_cap = 0 then (EVOKE_OK, zero_topk_result)
        else
          (case evoke_core_checked_mul_size (of_nat heap_cap) 2 of
             None \<Rightarrow> (EVOKE_ERR_RANGE, result_out)
           | Some doubled \<Rightarrow>
               let buffer_cap = (if unat doubled > num_candidate_doc_ids
                                 then num_candidate_doc_ids else unat doubled) in
               if buffer_cap < heap_cap then (EVOKE_ERR_RANGE, result_out)
               else
                 (case evoke_core_checked_mul_size (of_nat buffer_cap) sizeof_topk_item of
                    None \<Rightarrow> (EVOKE_ERR_RANGE, result_out)
                  | Some _ \<Rightarrow>
                      if \<not> malloc_ok then (EVOKE_ERR_NOMEM, result_out)
                      else
                        let (items, rest) = subset_fill positive_only heap_cap []
                              (map (candidate_item scores tie_break_keys) candidate_doc_ids)
                        in
                          if items = [] then (EVOKE_OK, zero_topk_result)
                          else
                            let items = c_qsort evoke_cmp_topk_desc items;
                                items = foldl (subset_step positive_only heap_cap buffer_cap) items rest;
                                items = (if length items > heap_cap
                                         then take heap_cap (c_qsort evoke_cmp_topk_desc items) else items)
                            in (case evoke_topk_result_from_items ids_ok scores_ok items (Some result_out) of
                                  (status, result) \<Rightarrow> (status, the result)))))"

definition evoke_rank_subset_sorted_all ::
  "bool \<Rightarrow> bool \<Rightarrow> bool \<Rightarrow> f32 list \<Rightarrow> u32 list \<Rightarrow> bool \<Rightarrow> u64 list option \<Rightarrow> evoke_topk_result
     \<Rightarrow> evoke_status \<times> evoke_topk_result" where
  "evoke_rank_subset_sorted_all malloc_ok ids_ok scores_ok scores candidate_doc_ids positive_only
     tie_break_keys result_out =
     (case evoke_core_checked_mul_size (of_nat (length candidate_doc_ids)) sizeof_topk_item of
        None \<Rightarrow> (EVOKE_ERR_RANGE, result_out)
      | Some _ \<Rightarrow>
          if \<not> malloc_ok then (EVOKE_ERR_NOMEM, result_out)
          else
            let items = filter (\<lambda>item. \<not> skipped positive_only item)
                          (map (candidate_item scores tie_break_keys) candidate_doc_ids);
                items = (if length items > 1 then c_qsort evoke_cmp_topk_desc items else items)
            in (case evoke_topk_result_from_items ids_ok scores_ok items (Some result_out) of
                  (status, result) \<Rightarrow> (status, the result)))"

text \<open>The compact selection works on items without a tie-break key.\<close>

record evoke_compact_topk_item =
  compact_score :: f32
  compact_doc_id :: u32

definition evoke_compact_topk_item_is_better :: "evoke_compact_topk_item \<Rightarrow> evoke_compact_topk_item \<Rightarrow> bool" where
  "evoke_compact_topk_item_is_better lhs rhs =
     (if f32_less (compact_score rhs) (compact_score lhs) then True
      else if f32_less (compact_score lhs) (compact_score rhs) then False
      else compact_doc_id lhs < compact_doc_id rhs)"

definition evoke_cmp_compact_topk_desc :: "evoke_compact_topk_item \<Rightarrow> evoke_compact_topk_item \<Rightarrow> int" where
  "evoke_cmp_compact_topk_desc a b =
     (if f32_less (compact_score a) (compact_score b) then 1
      else if f32_less (compact_score b) (compact_score a) then -1
      else if compact_doc_id a < compact_doc_id b then -1
      else if compact_doc_id a > compact_doc_id b then 1
      else 0)"

definition compact_item :: "f32 list \<Rightarrow> u32 \<Rightarrow> evoke_compact_topk_item" where
  "compact_item scores doc_id = \<lparr>compact_score = scores ! unat doc_id, compact_doc_id = doc_id\<rparr>"

definition compact_skipped :: "bool \<Rightarrow> evoke_compact_topk_item \<Rightarrow> bool" where
  "compact_skipped positive_only item \<longleftrightarrow> positive_only \<and> f32_less_eq (compact_score item) 0"

fun compact_fill ::
  "bool \<Rightarrow> nat \<Rightarrow> evoke_compact_topk_item list \<Rightarrow> evoke_compact_topk_item list
     \<Rightarrow> evoke_compact_topk_item list \<times> evoke_compact_topk_item list" where
  "compact_fill positive_only result_capacity buf [] = (buf, [])"
| "compact_fill positive_only result_capacity buf (item # rest) =
     (if compact_skipped positive_only item then compact_fill positive_only result_capacity buf rest
      else
        let buf = buf @ [item] in
        if length buf = result_capacity then (buf, rest)
        else compact_fill positive_only result_capacity buf rest)"

definition compact_step ::
  "bool \<Rightarrow> nat \<Rightarrow> nat \<Rightarrow> evoke_compact_topk_item list \<Rightarrow> evoke_compact_topk_item
     \<Rightarrow> evoke_compact_topk_item list" where
  "compact_step positive_only result_capacity buffer_capacity items item =
     (if compact_skipped positive_only item \<or>
         \<not> evoke_compact_topk_item_is_better item (items ! (result_capacity - 1))
      then items
      else
        let items = items @ [item] in
        if length items = buffer_capacity
        then take result_capacity (c_qsort evoke_cmp_compact_topk_desc items) else items)"

text \<open>The result arrays of the compact selection.\<close>

definition compact_result ::
  "bool \<Rightarrow> bool \<Rightarrow> evoke_compact_topk_item list \<Rightarrow> evoke_status \<times> evoke_topk_result" where
  "compact_result ids_ok scores_ok items =
     (case evoke_core_checked_mul_size (of_nat (length items)) 4 of
        None \<Rightarrow> (EVOKE_ERR_RANGE, zero_topk_result)
      | Some _ \<Rightarrow>
          if \<not> ids_ok then (EVOKE_ERR_NOMEM, zero_topk_result)
          else
            (case evoke_core_checked_mul_size (of_nat (length items)) 4 of
               None \<Rightarrow> (EVOKE_ERR_RANGE, zero_topk_result)
             | Some _ \<Rightarrow>
                 if \<not> scores_ok then (EVOKE_ERR_NOMEM, zero_topk_result)
                 else (EVOKE_OK,
                   \<lparr>result_doc_ids = map compact_doc_id items,
                    result_scores = map compact_score items,
                    result_len = of_nat (length items)\<rparr>)))"

definition evoke_topk_subset_compact ::
  "bool \<Rightarrow> bool \<Rightarrow> bool \<Rightarrow> f32 list \<Rightarrow> u32 list \<Rightarrow> u64 \<Rightarrow> bool \<Rightarrow> evoke_topk_result
     \<Rightarrow> evoke_status \<times> evoke_topk_result" where
  "evoke_topk_subset_compact malloc_ok ids_ok scores_ok scores candidate_doc_ids k positive_only result_out =
     (let num_candidate_doc_ids = length candidate_doc_ids;
          result_capacity = (if unat k < num_candidate_doc_ids then unat k else num_candidate_doc_ids)
      in
        if result_capacity = 0 then (EVOKE_OK, zero_topk_result)
        else
          (case evoke_core_checked_mul_size (of_nat result_capacity) 2 of
             None \<Rightarrow> (EVOKE_ERR_RANGE, result_out)
           | Some doubled \<Rightarrow>
               let buffer_capacity = (if unat doubled > num_candidate_doc_ids
                                      then num_candidate_doc_ids else unat doubled) in
               (case evoke_core_checked_mul_size (of_nat buffer_capacity) sizeof_compact_topk_item of
                  None \<Rightarrow> (EVOKE_ERR_RANGE, result_out)
                | Some _ \<Rightarrow>
                    if \<not> malloc_ok then (EVOKE_ERR_NOMEM, result_out)
                    else
                      let (items, rest) = compact_fill positive_only result_capacity []
                            (map (compact_item scores) candidate_doc_ids)
                      in
                        if items = [] then (EVOKE_OK, zero_topk_result)
                        else
                          let items = c_qsort evoke_cmp_compact_topk_desc items;
                              items = foldl (compact_step positive_only result_capacity buffer_capacity) items rest;
                              items = (if length items > result_capacity
                                       then take result_capacity (c_qsort evoke_cmp_compact_topk_desc items)
                                       else items)
                          in
                            compact_result ids_ok scores_ok items)))"

definition subset_heap_step ::
  "bool \<Rightarrow> nat \<Rightarrow> evoke_topk_item list \<Rightarrow> evoke_topk_item \<Rightarrow> evoke_topk_item list" where
  "subset_heap_step positive_only heap_cap heap item =
     (if skipped positive_only item then heap else topk_heap_step heap_cap heap item)"

text \<open>The code passes the candidates as a pointer and a count: \<open>None\<close> is the null pointer, with count 0.\<close>

definition evoke_topk_subset_with_tie_breaks ::
  "bool \<Rightarrow> bool \<Rightarrow> bool \<Rightarrow> f32 list option \<Rightarrow> u32 list option \<Rightarrow> nat \<Rightarrow> u64 \<Rightarrow> bool \<Rightarrow> bool
     \<Rightarrow> u64 list option \<Rightarrow> evoke_topk_result option \<Rightarrow> evoke_status \<times> evoke_topk_result option" where
  "evoke_topk_subset_with_tie_breaks malloc_ok ids_ok scores_ok scores_in candidates_in num_candidate_doc_ids k
     sorted_out positive_only tie_break_keys result_out =
     (if scores_in = None \<or> result_out = None then (EVOKE_ERR_INVALID, result_out)
      else if num_candidate_doc_ids > 0 \<and> candidates_in = None then (EVOKE_ERR_INVALID, result_out)
      else if k = 0 \<or> num_candidate_doc_ids = 0 then (EVOKE_OK, Some zero_topk_result)
      else
        let scores = the scores_in;
            candidate_doc_ids = take num_candidate_doc_ids (the candidates_in)
        in
          if sorted_out \<and> tie_break_keys = None
          then map_prod id Some (evoke_topk_subset_compact malloc_ok ids_ok scores_ok scores candidate_doc_ids k
                 positive_only zero_topk_result)
          else if sorted_out \<and> unat k = num_candidate_doc_ids
          then map_prod id Some (evoke_rank_subset_sorted_all malloc_ok ids_ok scores_ok scores
                 candidate_doc_ids positive_only tie_break_keys zero_topk_result)
          else if evoke_use_buffered_topk num_candidate_doc_ids
                    (if unat k < num_candidate_doc_ids then unat k else num_candidate_doc_ids) sorted_out
          then map_prod id Some (evoke_topk_subset_buffered malloc_ok ids_ok scores_ok scores
                 candidate_doc_ids k positive_only tie_break_keys zero_topk_result)
          else
            let heap_cap = (if unat k < num_candidate_doc_ids then unat k else num_candidate_doc_ids) in
            (case evoke_core_checked_mul_size (of_nat heap_cap) sizeof_topk_item of
               None \<Rightarrow> (EVOKE_ERR_RANGE, Some zero_topk_result)
             | Some _ \<Rightarrow>
                 if \<not> malloc_ok then (EVOKE_ERR_NOMEM, Some zero_topk_result)
                 else
                   let heap = foldl (subset_heap_step positive_only heap_cap) []
                                (map (candidate_item scores tie_break_keys) candidate_doc_ids);
                       heap = (if sorted_out then c_qsort evoke_cmp_topk_desc heap else heap)
                   in
                     (case evoke_core_checked_mul_size (of_nat (length heap)) 4 of
                        None \<Rightarrow> (EVOKE_ERR_RANGE, Some zero_topk_result)
                      | Some _ \<Rightarrow>
                          if length heap > 0 \<and> \<not> ids_ok then (EVOKE_ERR_NOMEM, Some zero_topk_result)
                          else
                            (case evoke_core_checked_mul_size (of_nat (length heap)) 4 of
                               None \<Rightarrow> (EVOKE_ERR_RANGE, Some zero_topk_result)
                             | Some _ \<Rightarrow>
                                 if length heap > 0 \<and> \<not> scores_ok then (EVOKE_ERR_NOMEM, Some zero_topk_result)
                                 else (EVOKE_OK, Some
                                   \<lparr>result_doc_ids = map item_doc_id heap,
                                    result_scores = map item_score heap,
                                    result_len = of_nat (length heap)\<rparr>)))))"

definition evoke_topk_subset ::
  "bool \<Rightarrow> bool \<Rightarrow> bool \<Rightarrow> f32 list option \<Rightarrow> u32 list option \<Rightarrow> nat \<Rightarrow> u64 \<Rightarrow> bool \<Rightarrow> bool
     \<Rightarrow> evoke_topk_result option \<Rightarrow> evoke_status \<times> evoke_topk_result option" where
  "evoke_topk_subset malloc_ok ids_ok scores_ok scores_in candidates_in num_candidate_doc_ids k
     sorted_out positive_only result_out =
     evoke_topk_subset_with_tie_breaks malloc_ok ids_ok scores_ok scores_in candidates_in num_candidate_doc_ids k
       sorted_out positive_only None result_out"

section \<open>The kept candidates\<close>

definition kept_items ::
  "f32 list \<Rightarrow> u64 list option \<Rightarrow> bool \<Rightarrow> u32 list \<Rightarrow> evoke_topk_item list" where
  "kept_items scores tie_break_keys positive_only docs =
     filter (\<lambda>it. \<not> skipped positive_only it) (map (candidate_item scores tie_break_keys) docs)"

lemma candidate_item_doc [simp]: "item_doc_id (candidate_item scores keys d) = d"
  by (simp add: candidate_item_def evoke_heap_item_init_def)

lemma length_kept_items: "length (kept_items scores keys pos docs) \<le> length docs"
  unfolding kept_items_def by (metis length_filter_le length_map)

lemma kept_items_ok:
  assumes "\<forall>d \<in> set docs. \<not> f32_is_nan (scores ! unat d)"
  shows "\<forall>x \<in> set (kept_items scores keys pos docs). item_ok x"
  using assms by (auto simp: kept_items_def candidate_item_def evoke_heap_item_init_def)

lemma kept_items_inj: "inj_on item_doc_id (set (kept_items scores keys pos docs))"
  by (rule inj_onI) (auto simp: kept_items_def)

lemma distinct_docs_length: "distinct (docs :: u32 list) \<Longrightarrow> length docs \<le> 2 ^ 32"
proof -
  assume "distinct docs"
  then have "length docs = card (set docs)" by (simp add: distinct_card)
  also have "\<dots> \<le> card (UNIV :: u32 set)" by (intro card_mono) simp_all
  finally show ?thesis by (simp add: card_word)
qed

lemma ranked_min: "length items \<le> n \<Longrightarrow> ranked (min k n) items = ranked k items"
  by (cases "k \<le> n") (simp_all add: ranked_def min_def)

lemma qsort_ranked:
  assumes "length items \<le> k" and "\<forall>x \<in> set items. item_ok x" and "inj_on item_doc_id (set items)"
  shows "c_qsort evoke_cmp_topk_desc items = ranked k items"
  using assms by (intro ranked_unique) (simp_all add: qsort_keys first_k_def)

section \<open>The buffered pass over candidates\<close>

lemma subset_fill_splits:
  assumes "subset_fill pos cap buf its = (b, rest)" and "length buf < cap"
  shows "b @ filter (\<lambda>it. \<not> skipped pos it) rest = buf @ filter (\<lambda>it. \<not> skipped pos it) its \<and>
    length b + length rest \<le> length buf + length its \<and>
    (length b = cap \<or> length b < cap \<and> rest = [])"
  using assms by (induction pos cap buf its rule: subset_fill.induct) (auto simp: Let_def split: if_splits)

lemma subset_fold:
  "foldl (subset_step pos k cap) items rest
   = foldl (buffered_step k cap) items (filter (\<lambda>it. \<not> skipped pos it) rest)"
  by (induction rest arbitrary: items) (simp_all add: subset_step_def)

text \<open>
  Filling, the sorted start, the steps and the final cut, for any candidate list: \<open>cap\<close> is the
  buffer the code allocates, \<open>min (length its) (k * 2)\<close>.
\<close>

lemma subset_pass:
  assumes "subset_fill pos k [] its = (b, rest)" and "0 < k" and "k \<le> length its"
    and "cap = min (length its) (k * 2)"
    and "\<forall>x \<in> set (filter (\<lambda>it. \<not> skipped pos it) its). item_ok x"
    and "inj_on item_doc_id (set (filter (\<lambda>it. \<not> skipped pos it) its))"
  defines "items \<equiv> foldl (subset_step pos k cap) (c_qsort evoke_cmp_topk_desc b) rest"
  shows "(if length items > k then take k (c_qsort evoke_cmp_topk_desc items) else items)
         = ranked k (filter (\<lambda>it. \<not> skipped pos it) its)"
proof -
  let ?keep = "filter (\<lambda>it. \<not> skipped pos it)"
  have fill: "b @ ?keep rest = ?keep its" "length b + length rest \<le> length its"
    "length b = k \<or> length b < k \<and> rest = []"
    using subset_fill_splits [OF assms(1)] assms(2) by auto
  show ?thesis
  proof (cases "rest = []")
    case True
    then have "b = ?keep its" "length b \<le> k" using fill by auto
    then show ?thesis
      using True qsort_ranked [of b k] assms(5,6) by (simp add: items_def)
  next
    case False
    then have "length b = k" "k < cap" using fill assms(2,4) by (cases rest; auto)+
    then show ?thesis
      using buffered_pass [of b k cap "?keep rest"] assms(2,5,6)
      unfolding items_def subset_fold fill(1) by blast
  qed
qed

lemma subset_capacity:
  assumes "length docs \<le> 2 ^ 32"
  shows "evoke_core_checked_mul_size (of_nat (min k (length docs))) 2 = Some (of_nat (min k (length docs) * 2))"
    and "unat (of_nat (min k (length docs) * 2) :: u64) = min k (length docs) * 2"
  using assms by (auto intro!: size_check_small simp: unat_of_nat simp del: of_nat_mult)

lemma if_less_min: "(if a < b then a else b) = min a (b :: nat)"
  by (simp add: min_def)

lemma subset_buffered_ranked:
  assumes "length docs \<le> 2 ^ 32" and "\<forall>d \<in> set docs. \<not> f32_is_nan (scores ! unat d)"
  shows "evoke_topk_subset_buffered True True True scores docs k pos keys r
         = (EVOKE_OK, topk_answer (ranked (unat k) (kept_items scores keys pos docs)))"
proof -
  let ?n = "length docs" and ?its = "map (candidate_item scores keys) docs"
  let ?k = "min (unat k) ?n" and ?kept = "kept_items scores keys pos docs"
  let ?cap = "min ?n (?k * 2)"
  note cap = subset_capacity [OF assms(1), of "unat k"]
  have len: "length ?kept \<le> ?n" by (rule length_kept_items)
  have kept: "ranked (unat k) ?kept = ranked ?k ?kept" using ranked_min [OF len] by simp
  have small: "?cap \<le> 2 ^ 32" "?k \<le> ?cap" "length (ranked ?k ?kept) \<le> 2 ^ 32" using assms(1) len by auto
  note items_ok = kept_items_ok [OF assms(2), of keys pos] kept_items_inj [of scores keys pos docs]
  obtain b rest where fill: "subset_fill pos ?k [] ?its = (b, rest)" by fastforce
  show ?thesis
  proof (cases "?k = 0")
    case True
    then have "ranked ?k ?kept = []" by (simp add: ranked_def)
    then show ?thesis
      using True by (simp add: evoke_topk_subset_buffered_def Let_def if_less_min kept topk_answer_Nil)
  next
    case False
    note pass = subset_pass [OF fill, of ?cap, folded kept_items_def, simplified length_map, OF _ _ refl items_ok]
    have "0 < ?k" "?k \<le> ?n" using False by simp_all
    note pass = pass [OF this]
    show ?thesis
    proof (cases "b = []")
      case True
      then have "rest = []" "?kept = []"
        using subset_fill_splits [OF fill] False by (auto simp: kept_items_def)
      then show ?thesis
        using True False small(2)
        unfolding evoke_topk_subset_buffered_def Let_def if_less_min cap option.case
          size_check_small(4) [OF small(1)] fill prod.case
        by (simp add: ranked_def topk_answer_Nil)
    next
      case b: False
      show ?thesis
        using b False small(2) result_from_items [OF small(3)]
        unfolding evoke_topk_subset_buffered_def Let_def if_less_min cap option.case
          size_check_small(4) [OF small(1)] fill prod.case kept pass
        by (auto simp: min_def split: if_splits)
    qed
  qed
qed

lemma rank_all_ranked:
  assumes "length docs \<le> 2 ^ 32" and "\<forall>d \<in> set docs. \<not> f32_is_nan (scores ! unat d)"
  shows "evoke_rank_subset_sorted_all True True True scores docs pos keys r
         = (EVOKE_OK, topk_answer (ranked (length docs) (kept_items scores keys pos docs)))"
proof -
  let ?kept = "kept_items scores keys pos docs"
  have len: "length ?kept \<le> length docs" by (rule length_kept_items)
  have "(if length ?kept > 1 then c_qsort evoke_cmp_topk_desc ?kept else ?kept) = ranked (length docs) ?kept"
    using qsort_ranked [OF len kept_items_ok [OF assms(2)] kept_items_inj]
      c_qsort_short [of ?kept evoke_cmp_topk_desc] linorder_not_less [of 1 "length ?kept"] by presburger
  moreover have "length (ranked (length docs) ?kept) \<le> 2 ^ 32" using assms(1) len by simp
  ultimately show ?thesis
    using result_from_items [of "ranked (length docs) ?kept" r] assms(1)
    by (simp add: evoke_rank_subset_sorted_all_def size_check_small(4) Let_def flip: kept_items_def)
qed

lemma subset_heap_fold:
  "foldl (subset_heap_step pos k) heap its
   = foldl (topk_heap_step k) heap (filter (\<lambda>it. \<not> skipped pos it) its)"
  by (induction its arbitrary: heap) (simp_all add: subset_heap_step_def)

section \<open>Compact items\<close>

text \<open>A compact item stands for the item whose tie-break key is its document id.\<close>

definition widen :: "evoke_compact_topk_item \<Rightarrow> evoke_topk_item" where
  "widen c = \<lparr>item_score = compact_score c, item_doc_id = compact_doc_id c,
              item_tie_break_key = u64_of_u32 (compact_doc_id c)\<rparr>"

lemma c_qsort_map:
  assumes "\<And>x y. cmp (f x) (f y) = cmp' x y"
  shows "c_qsort cmp (map f xs) = map f (c_qsort cmp' xs)"
proof -
  have "c_insert cmp (f x) (map f ys) = map f (c_insert cmp' x ys)" for x ys
    by (induction ys) (simp_all add: assms)
  then show ?thesis by (induction xs) (simp_all add: c_qsort_def)
qed

lemma widen_order:
  "evoke_heap_item_is_better (widen a) (widen b) = evoke_compact_topk_item_is_better a b"
  "evoke_cmp_topk_desc (widen a) (widen b) = evoke_cmp_compact_topk_desc a b"
  by (simp_all add: evoke_heap_item_is_better_def evoke_compact_topk_item_is_better_def evoke_cmp_topk_desc_def
      evoke_cmp_compact_topk_desc_def widen_def word_less_nat_alt)

lemmas widen_qsort = c_qsort_map [of evoke_cmp_topk_desc widen, OF widen_order(2)]

lemma widen_skipped [simp]: "skipped pos (widen c) = compact_skipped pos c"
  by (simp add: skipped_def compact_skipped_def widen_def)

lemma widen_item: "candidate_item scores None d = widen (compact_item scores d)"
  by (simp add: candidate_item_def evoke_heap_item_init_def widen_def compact_item_def)

lemma widen_fill:
  "subset_fill pos k (map widen buf) (map widen its) = map_prod (map widen) (map widen) (compact_fill pos k buf its)"
proof (induction pos k buf its rule: compact_fill.induct)
  case (2 pos k buf it rest)
  then show ?case by (simp add: Let_def flip: map_append list.map) (simp add: Let_def)
qed simp

lemma widen_step:
  assumes "0 < k" and "k \<le> length items"
  shows "subset_step pos k cap (map widen items) (widen it) = map widen (compact_step pos k cap items it)"
    and "k \<le> length (compact_step pos k cap items it)"
proof -
  have "map widen items ! (k - 1) = widen (items ! (k - 1))" using assms by (intro nth_map) simp
  then show "subset_step pos k cap (map widen items) (widen it) = map widen (compact_step pos k cap items it)"
    using widen_qsort [of "items @ [it]"]
    by (simp add: subset_step_def compact_step_def buffered_step_def widen_order Let_def take_map)
  show "k \<le> length (compact_step pos k cap items it)"
    using assms by (simp add: compact_step_def Let_def)
qed

lemma widen_fold:
  "0 < k \<Longrightarrow> k \<le> length items \<Longrightarrow>
   foldl (subset_step pos k cap) (map widen items) (map widen rest)
   = map widen (foldl (compact_step pos k cap) items rest)"
  by (induction rest arbitrary: items) (simp_all add: widen_step)

lemma compact_fill_full:
  assumes "compact_fill pos k [] its = (b, rest)" and "0 < k"
  shows "rest \<noteq> [] \<Longrightarrow> length b = k"
proof -
  have "subset_fill pos k [] (map widen its) = (map widen b, map widen rest)"
    using widen_fill [of pos k "[]" its] assms(1) by simp
  from subset_fill_splits [OF this] assms(2) show "rest \<noteq> [] \<Longrightarrow> length b = k" by auto
qed

lemma compact_fold_nonempty:
  "0 < k \<Longrightarrow> items \<noteq> [] \<Longrightarrow> foldl (compact_step pos k cap) items rest \<noteq> []"
proof (induction rest arbitrary: items)
  case (Cons it rest)
  have "c_qsort evoke_cmp_compact_topk_desc (items @ [it]) \<noteq> []"
    by (metis length_c_qsort length_0_conv append_is_Nil_conv not_Cons_self2)
  then have "compact_step pos k cap items it \<noteq> []"
    using Cons.prems by (simp add: compact_step_def Let_def)
  then show ?case using Cons by simp
qed simp

lemma result_widen:
  "xs \<noteq> [] \<Longrightarrow> (case evoke_topk_result_from_items ids_ok scores_ok (map widen xs) (Some r) of
      (status, result) \<Rightarrow> (status, the result)) = compact_result ids_ok scores_ok xs"
  by (simp add: evoke_topk_result_from_items_def compact_result_def widen_def comp_def split: option.split)

lemma widen_filled_fold:
  assumes "compact_fill positive_only k [] its = (b, rest)" "0 < k" "k \<le> cap"
  shows "foldl (subset_step positive_only k cap) (map widen (c_qsort evoke_cmp_compact_topk_desc b)) (map widen rest) =
    map widen (foldl (compact_step positive_only k cap) (c_qsort evoke_cmp_compact_topk_desc b) rest)"
proof (cases "rest = []")
  case False
  then have "length b = k" using compact_fill_full [OF assms(1,2)] by simp
  then show ?thesis using assms(2,3) by (intro widen_fold) simp_all
qed simp

lemma compact_cut_nonempty:
  assumes "b \<noteq> []" "0 < k"
    and c_def: "c = foldl (compact_step positive_only k cap) (c_qsort evoke_cmp_compact_topk_desc b) rest"
  shows "(if k < length c then take k (c_qsort evoke_cmp_compact_topk_desc c) else c) \<noteq> []"
proof -
  have "c_qsort evoke_cmp_compact_topk_desc b \<noteq> []" using assms(1) by (metis length_c_qsort length_0_conv)
  then have "c \<noteq> []" unfolding c_def using assms(2) by (intro compact_fold_nonempty)
  then show ?thesis using assms(2) by (auto simp: length_greater_0_conv [symmetric] simp del: length_greater_0_conv)
qed

lemma compact_is_buffered:
  assumes "length docs \<le> 2 ^ 32"
  shows "evoke_topk_subset_compact malloc_ok ids_ok scores_ok scores docs k positive_only r
         = evoke_topk_subset_buffered malloc_ok ids_ok scores_ok scores docs k positive_only None r"
proof -
  let ?k = "min (unat k) (length docs)" and ?its = "map (compact_item scores) docs"
  let ?cap = "min (length docs) (?k * 2)"
  note cap = subset_capacity [OF assms, of "unat k"]
  have small: "?cap \<le> 2 ^ 32" "?k \<le> ?cap" using assms by auto
  obtain b rest where fill: "compact_fill positive_only ?k [] ?its = (b, rest)" by fastforce
  have items: "map (candidate_item scores None) docs = map widen ?its" by (simp add: widen_item)
  have fill': "subset_fill positive_only ?k [] (map widen ?its) = (map widen b, map widen rest)"
    using widen_fill [of positive_only ?k "[]" ?its] fill by simp
  let ?c = "foldl (compact_step positive_only ?k ?cap) (c_qsort evoke_cmp_compact_topk_desc b) rest"
  let ?cut = "if ?k < length ?c then take ?k (c_qsort evoke_cmp_compact_topk_desc ?c) else ?c"
  have cut: "(if ?k < length (map widen ?c) then take ?k (map widen (c_qsort evoke_cmp_compact_topk_desc ?c))
      else map widen ?c) = map widen ?cut"
    by (simp add: take_map)
  show ?thesis
  proof (cases "0 < ?k \<and> malloc_ok \<and> b \<noteq> []")
    case True
    then have k: "0 < ?k" "b \<noteq> []" malloc_ok by blast+
    show ?thesis
      unfolding evoke_topk_subset_compact_def evoke_topk_subset_buffered_def Let_def if_less_min cap option.case
        size_check_small(3,4) [OF small(1)] items fill fill' prod.case widen_qsort widen_filled_fold [OF fill k(1) small(2)] cut
        result_widen [OF compact_cut_nonempty [OF k(2,1) refl]]
      using k small(2)
      by (simp only: if_True if_False simp_thms map_is_Nil_conv gr0_conv_Suc linorder_not_less [symmetric]
          not_gr_zero [symmetric])
  next
    case False
    then consider "?k = 0" | "?k \<noteq> 0" "\<not> malloc_ok" | "?k \<noteq> 0" malloc_ok "b = []" by blast
    then show ?thesis
      unfolding evoke_topk_subset_compact_def evoke_topk_subset_buffered_def Let_def if_less_min cap option.case
        size_check_small(3,4) [OF small(1)] items fill fill' prod.case
      by cases (use small(2) in \<open>simp_all only: if_True if_False simp_thms list.map linorder_not_less [symmetric]\<close>)
  qed
qed

text \<open>
  The compact selection computes exactly what the buffered selection computes without
  tie-break keys, status and answer alike, whichever allocation fails: dropping the key from the
  items changes nothing.
\<close>

lemma compact_equals_buffered:
  assumes "length docs \<le> 2 ^ 32"
  shows "evoke_topk_subset_compact malloc_ok ids_ok scores_ok scores docs k positive_only r
         = evoke_topk_subset_buffered malloc_ok ids_ok scores_ok scores docs k positive_only None r"
  using assms by (rule compact_is_buffered)

text \<open>Two of three candidates with scores 1.0, 3.0 and 2.0, the second allocation of the answer failing.\<close>

section \<open>All paths of the selection over candidates\<close>

lemma subset_heap_answer:
  fixes keys :: "u64 list option" and scores :: "f32 list" and pos :: bool
  assumes "length docs \<le> 2 ^ 32" and "docs \<noteq> []" and "k \<noteq> 0" and "\<not> (sorted_out \<and> keys = None)"
    and "\<not> (sorted_out \<and> unat k = length docs)"
    and "\<not> evoke_use_buffered_topk (length docs) (min (unat k) (length docs)) sorted_out"
  defines "heap \<equiv> foldl (topk_heap_step (min (unat k) (length docs))) [] (kept_items scores keys pos docs)"
  assumes "length heap \<le> 2 ^ 32"
  shows "evoke_topk_subset_with_tie_breaks True True True (Some scores) (Some docs) (length docs) k sorted_out pos
           keys (Some r)
         = (EVOKE_OK, Some (topk_answer (if sorted_out then c_qsort evoke_cmp_topk_desc heap else heap)))"
proof -
  let ?out = "if sorted_out then c_qsort evoke_cmp_topk_desc heap else heap"
  have small: "min (unat k) (length docs) \<le> 2 ^ 32" "length ?out \<le> 2 ^ 32" using assms(1,8) by auto
  have heap: "foldl (subset_heap_step pos (min (unat k) (length docs))) [] (map (candidate_item scores keys) docs) = heap"
    unfolding subset_heap_fold heap_def kept_items_def ..
  show ?thesis
    unfolding evoke_topk_subset_with_tie_breaks_def Let_def option.sel take_all [OF order_refl] if_less_min heap
      size_check_small(4) [OF small(1)] size_check_small(2) [OF small(2)] option.case topk_answer_def
    using assms(2-6) by (simp only: option.distinct if_False if_True simp_thms length_greater_0_conv length_0_conv)
qed

text \<open>The three paths without a heap answer the sorted prefix itself.\<close>

lemma subset_sorted_paths:
  assumes "length docs \<le> 2 ^ 32" "\<forall>d \<in> set docs. \<not> f32_is_nan (scores ! unat d)" "docs \<noteq> []" "k \<noteq> 0"
    and "sorted_out \<and> tie_break_keys = None \<or> sorted_out \<and> unat k = length docs \<or>
      evoke_use_buffered_topk (length docs) (min (unat k) (length docs)) sorted_out"
  shows "evoke_topk_subset_with_tie_breaks True True True (Some scores) (Some docs) (length docs) k sorted_out
      positive_only tie_break_keys (Some r) =
    (EVOKE_OK, Some (topk_answer (ranked (unat k) (kept_items scores tie_break_keys positive_only docs))))"
proof -
  consider (compact) "sorted_out \<and> tie_break_keys = None"
    | (all) "\<not> (sorted_out \<and> tie_break_keys = None)" "sorted_out \<and> unat k = length docs"
    | (buffered) "\<not> (sorted_out \<and> tie_break_keys = None)" "\<not> (sorted_out \<and> unat k = length docs)"
        "evoke_use_buffered_topk (length docs) (min (unat k) (length docs)) sorted_out"
    using assms(5) by blast
  then show ?thesis
  proof cases
    case compact
    then show ?thesis
      using assms(3,4) compact_is_buffered [OF assms(1)] subset_buffered_ranked [OF assms(1,2)]
      by (simp add: evoke_topk_subset_with_tie_breaks_def)
  next
    case all
    then show ?thesis
      using assms(3,4) rank_all_ranked [OF assms(1,2)] by (auto simp: evoke_topk_subset_with_tie_breaks_def)
  next
    case buffered
    then show ?thesis
      using assms(3,4) subset_buffered_ranked [OF assms(1,2)]
      by (auto simp: evoke_topk_subset_with_tie_breaks_def if_less_min)
  qed
qed

text \<open>
  C18. Ranking candidates. For distinct candidate documents without NaN scores, whichever of its
  four paths \<open>evoke_topk_subset_with_tie_breaks\<close> takes, it succeeds and answers exactly the \<open>k\<close>
  best of the candidates, those with a positive score only when so asked. A sorted answer is in
  ranking order.
\<close>

theorem subset_returns_best:
  assumes "distinct docs" and "\<forall>d \<in> set docs. unat d < length scores \<and> \<not> f32_is_nan (scores ! unat d)"
    and "keys_cover tie_break_keys (set docs)"
  shows "\<exists>items.
           evoke_topk_subset_with_tie_breaks True True True (Some scores) (Some docs) (length docs) k sorted_out
             positive_only tie_break_keys (Some r) = (EVOKE_OK, Some (topk_answer items)) \<and>
           mset items = mset (ranked (unat k) (kept_items scores tie_break_keys positive_only docs)) \<and>
           (sorted_out \<longrightarrow> items = ranked (unat k) (kept_items scores tie_break_keys positive_only docs))"
proof -
  let ?kept = "kept_items scores tie_break_keys positive_only docs"
  let ?r = "ranked (unat k) ?kept" and ?m = "min (unat k) (length docs)"
  let ?call = "evoke_topk_subset_with_tie_breaks True True True (Some scores) (Some docs) (length docs) k sorted_out
             positive_only tie_break_keys (Some r)"
  have len: "length docs \<le> 2 ^ 32" using assms(1) by (rule distinct_docs_length)
  have nan: "\<forall>d \<in> set docs. \<not> f32_is_nan (scores ! unat d)" using assms(2) by blast
  consider (none) "docs = [] \<or> k = 0"
    | (sorts) "docs \<noteq> []" "k \<noteq> 0" "sorted_out \<and> tie_break_keys = None \<or> sorted_out \<and> unat k = length docs \<or>
        evoke_use_buffered_topk (length docs) ?m sorted_out"
    | (heap) "docs \<noteq> []" "k \<noteq> 0" "\<not> (sorted_out \<and> tie_break_keys = None)"
        "\<not> (sorted_out \<and> unat k = length docs)" "\<not> evoke_use_buffered_topk (length docs) ?m sorted_out"
    by blast
  then show ?thesis
  proof cases
    case none
    then have "?r = []" by (auto simp: ranked_def kept_items_def)
    moreover have "?call = (EVOKE_OK, Some (topk_answer []))"
      using none by (auto simp: evoke_topk_subset_with_tie_breaks_def topk_answer_Nil)
    ultimately show ?thesis by (intro exI [of _ "[]"]) simp
  next
    case sorts
    from subset_sorted_paths [OF len nan this] show ?thesis by blast
  next
    case heap
    let ?heap = "foldl (topk_heap_step ?m) [] ?kept"
    have "0 < ?m" using heap(1,2) by (simp add: unat_gt_0)
    note perm = heap_permutes_ranked [OF this kept_items_ok [OF nan] kept_items_inj]
    have "length ?heap \<le> 2 ^ 32"
      using perm(2) len length_kept_items [of scores tie_break_keys positive_only docs]
      by (metis length_ranked min.coboundedI2 order_trans size_mset)
    note subset_heap_answer [OF len heap this]
    then show ?thesis using perm ranked_min [OF length_kept_items, of "unat k"]
      by (intro exI [of _ "if sorted_out then c_qsort evoke_cmp_topk_desc ?heap else ?heap"]) simp
  qed
qed

theorem subset_returns_best_witness:
  "\<exists>items.
     evoke_topk_subset_with_tie_breaks True True True (Some [0x3F800000, 0x40400000, 0xBF800000])
       (Some [2, 0, 1]) 3 3 True True None (Some zero_topk_result) = (EVOKE_OK, Some (topk_answer items)) \<and>
     map item_doc_id items = [1, 0]"
proof -
  let ?s = "[0x3F800000, 0x40400000, 0xBF800000] :: f32 list" and ?d = "[2, 0, 1] :: u32 list"
  have "map item_doc_id (ranked (unat (3 :: u64)) (kept_items ?s None True ?d)) = [1, 0]"
    by (simp add: ranked_def kept_items_def candidate_item_def evoke_heap_item_init_def item_key_def skipped_def
        f32_less_eq_def f32_is_nan_def f32_rank_def less_eq_prod_def)
  moreover have "\<forall>d \<in> set ?d. unat d < length ?s \<and> \<not> f32_is_nan (?s ! unat d)" by (simp add: f32_is_nan_def)
  moreover have "keys_cover None (set ?d)" "distinct ?d" "length ?d = 3" by (simp_all add: keys_cover_def)
  ultimately show ?thesis
    using subset_returns_best [of ?d ?s None 3 True True zero_topk_result] by metis
qed

end
