(* ===== verification/Query.thy ===== *)
theory Query
  imports Prelude
begin

text \<open>
  Search queries: the tokenizer of \<open>src/evoke_query.c\<close> and the two parsers behind
  \<open>evoke_parse_query_string\<close>. A query with parentheses or one of the words AND, OR and NOT goes to
  the boolean parser, a recursive descent with a bounded nesting depth; any other query is a
  classic list of optional, required (+) and excluded (-) terms.

  A C string is the list of its bytes before the terminator. Every allocation is an event that
  may fail: the functions thread a list with the outcomes of the allocations to come, and past its
  end every allocation succeeds. The parser is defined with fuel; \<open>Query_Parser\<close> shows that the
  fuel it is given is always enough.
\<close>

section \<open>Allocation\<close>

type_synonym allocs = "bool list"

fun alloc :: "allocs \<Rightarrow> bool \<times> allocs" where
  "alloc [] = (True, [])"
| "alloc (ok # al) = (ok, al)"

section \<open>Data\<close>

definition EVOKE_QUERY_MAX_TOKENS :: nat where "EVOKE_QUERY_MAX_TOKENS = 1024"
definition EVOKE_QUERY_MAX_NESTING :: nat where "EVOKE_QUERY_MAX_NESTING = 128"

text \<open>Indices into the term array are natural numbers; \<open>SIZE_MAX\<close> marks an index that is not set.\<close>

definition unset_index :: nat where "unset_index = unat SIZE_MAX"

datatype evoke_query_occur = EVOKE_QUERY_SHOULD | EVOKE_QUERY_MUST | EVOKE_QUERY_MUST_NOT

datatype evoke_query_term_kind = EVOKE_QUERY_TERM | EVOKE_QUERY_PREFIX | EVOKE_QUERY_PHRASE

datatype evoke_query_mode = EVOKE_QUERY_MODE_CLASSIC | EVOKE_QUERY_MODE_BOOLEAN_AST

text \<open>The arrays \<open>tokens\<close> and \<open>token_lens\<close> with their count: the list of the token byte strings.\<close>

record evoke_query_term =
  term_kind :: evoke_query_term_kind
  term_occur :: evoke_query_occur
  term_tokens :: "bytes list"

datatype evoke_query_node_kind =
  EVOKE_QUERY_NODE_TERM | EVOKE_QUERY_NODE_AND | EVOKE_QUERY_NODE_OR | EVOKE_QUERY_NODE_NOT

datatype evoke_query_node =
  Node (node_kind: evoke_query_node_kind) (node_term_index: nat)
    (node_left: "evoke_query_node option") (node_right: "evoke_query_node option")

record evoke_query =
  query_mode :: evoke_query_mode
  query_terms :: "evoke_query_term list"
  query_root :: "evoke_query_node option"

datatype evoke_query_token_kind =
  EVOKE_QUERY_TOKEN_TERM | EVOKE_QUERY_TOKEN_PREFIX | EVOKE_QUERY_TOKEN_PHRASE |
  EVOKE_QUERY_TOKEN_PLUS | EVOKE_QUERY_TOKEN_MINUS | EVOKE_QUERY_TOKEN_AND |
  EVOKE_QUERY_TOKEN_OR | EVOKE_QUERY_TOKEN_NOT | EVOKE_QUERY_TOKEN_LPAREN |
  EVOKE_QUERY_TOKEN_RPAREN | EVOKE_QUERY_TOKEN_EOF

record evoke_query_token =
  token_kind :: evoke_query_token_kind
  token_term :: evoke_query_term

definition zero_term :: evoke_query_term where
  "zero_term = \<lparr>term_kind = EVOKE_QUERY_TERM, term_occur = EVOKE_QUERY_SHOULD, term_tokens = []\<rparr>"

definition plain_token :: "evoke_query_token_kind \<Rightarrow> evoke_query_token" where
  "plain_token k = \<lparr>token_kind = k, token_term = zero_term\<rparr>"

definition zero_query :: evoke_query where
  "zero_query = \<lparr>query_mode = EVOKE_QUERY_MODE_CLASSIC, query_terms = [], query_root = None\<rparr>"

section \<open>Queries and nodes\<close>

text \<open>
  How a call ends: with a status, or with undefined behaviour of C, after which nothing can be said. The latter happens in one function. The
  copy of a term sets its length first; when a later allocation fails, all its tokens are freed, also those that were never written. Harmless are
  only a failure at the array of the tokens itself and one at the last token.
\<close>

datatype ending = Status evoke_status | Undefined

text \<open>One allocation per token of the term, after the two arrays.\<close>

fun clone_tokens :: "allocs \<Rightarrow> bytes list \<Rightarrow> allocs \<times> (ending + bytes list)" where
  "clone_tokens al [] = (al, Inr [])"
| "clone_tokens al (t # ts) =
     (let (ok, al) = alloc al in
      if \<not> ok then (al, Inl (if ts = [] then Status EVOKE_ERR_NOMEM else Undefined))
      else case clone_tokens al ts of (al, r) \<Rightarrow> (al, map_sum id ((#) t) r))"

definition evoke_query_term_clone ::
  "allocs \<Rightarrow> evoke_query_term option \<Rightarrow> allocs \<times> ending \<times> evoke_query_term" where
  "evoke_query_term_clone al trm =
     (case trm of
        None \<Rightarrow> (al, Status EVOKE_ERR_INVALID, zero_term)
      | Some t \<Rightarrow>
          if term_tokens t = []
          then (al, Status EVOKE_OK, t)
          else
            let (tokens_ok, al) = alloc al;
                (lens_ok, al) = alloc al
            in
              if \<not> tokens_ok then (al, Status EVOKE_ERR_NOMEM, zero_term)
              else if \<not> lens_ok then (al, Undefined, zero_term)
              else
                (case clone_tokens al (term_tokens t) of
                   (al, Inl ending) \<Rightarrow> (al, ending, zero_term)
                 | (al, Inr ts) \<Rightarrow> (al, Status EVOKE_OK, t\<lparr>term_tokens := ts\<rparr>)))"

definition evoke_query_init :: "evoke_query option \<Rightarrow> evoke_query option" where
  "evoke_query_init query = map_option (\<lambda>_. zero_query\<lparr>query_mode := EVOKE_QUERY_MODE_CLASSIC\<rparr>) query"

definition evoke_query_free :: "evoke_query option \<Rightarrow> evoke_query option" where
  "evoke_query_free query = map_option (\<lambda>_. zero_query) query"

fun evoke_query_node_is_simple_term_disjunction :: "evoke_query \<Rightarrow> evoke_query_node option \<Rightarrow> bool" where
  "evoke_query_node_is_simple_term_disjunction query None = False"
| "evoke_query_node_is_simple_term_disjunction query (Some (Node k i l r)) =
     (if k = EVOKE_QUERY_NODE_OR
      then evoke_query_node_is_simple_term_disjunction query l \<and>
           evoke_query_node_is_simple_term_disjunction query r
      else if k \<noteq> EVOKE_QUERY_NODE_TERM \<or> i \<ge> length (query_terms query) then False
      else
        let t = query_terms query ! i in
        term_kind t = EVOKE_QUERY_TERM \<and> length (term_tokens t) = 1)"

definition evoke_query_is_simple_term_query :: "evoke_query option \<Rightarrow> bool" where
  "evoke_query_is_simple_term_query query =
     (case query of
        None \<Rightarrow> False
      | Some q \<Rightarrow>
          if query_terms q = [] then False
          else if query_mode q = EVOKE_QUERY_MODE_BOOLEAN_AST
          then evoke_query_node_is_simple_term_disjunction q (query_root q)
          else list_all (\<lambda>t. term_kind t = EVOKE_QUERY_TERM \<and> term_occur t = EVOKE_QUERY_SHOULD \<and>
                             length (term_tokens t) = 1) (query_terms q))"

definition evoke_query_uses_boolean_ast :: "evoke_query option \<Rightarrow> bool" where
  "evoke_query_uses_boolean_ast query =
     (case query of None \<Rightarrow> False
      | Some q \<Rightarrow> query_mode q = EVOKE_QUERY_MODE_BOOLEAN_AST \<and> query_root q \<noteq> None)"

definition evoke_query_has_phrase :: "evoke_query option \<Rightarrow> bool" where
  "evoke_query_has_phrase query =
     (case query of None \<Rightarrow> False
      | Some q \<Rightarrow> list_ex (\<lambda>t. term_kind t = EVOKE_QUERY_PHRASE) (query_terms q))"

definition evoke_query_node_new ::
  "allocs \<Rightarrow> evoke_query_node_kind \<Rightarrow> allocs \<times> evoke_query_node option" where
  "evoke_query_node_new al kind =
     (let (ok, al) = alloc al in (al, if ok then Some (Node kind unset_index None None) else None))"

definition evoke_query_node_term :: "allocs \<Rightarrow> nat \<Rightarrow> allocs \<times> evoke_query_node option" where
  "evoke_query_node_term al term_index =
     (case evoke_query_node_new al EVOKE_QUERY_NODE_TERM of
        (al, None) \<Rightarrow> (al, None)
      | (al, Some n) \<Rightarrow> (al, Some (Node (node_kind n) term_index (node_left n) (node_right n))))"

definition evoke_query_node_unary ::
  "allocs \<Rightarrow> evoke_query_node_kind \<Rightarrow> evoke_query_node option \<Rightarrow> allocs \<times> evoke_query_node option" where
  "evoke_query_node_unary al kind child =
     (if child = None then (al, None)
      else
        (case evoke_query_node_new al kind of
           (al, None) \<Rightarrow> (al, None)
         | (al, Some n) \<Rightarrow> (al, Some (Node (node_kind n) (node_term_index n) child (node_right n)))))"

definition evoke_query_node_binary ::
  "allocs \<Rightarrow> evoke_query_node_kind \<Rightarrow> evoke_query_node option \<Rightarrow> evoke_query_node option
     \<Rightarrow> allocs \<times> evoke_query_node option" where
  "evoke_query_node_binary al kind left right =
     (if left = None then (al, right)
      else if right = None then (al, left)
      else
        (case evoke_query_node_new al kind of
           (al, None) \<Rightarrow> (al, None)
         | (al, Some n) \<Rightarrow> (al, Some (Node (node_kind n) (node_term_index n) left right))))"

section \<open>Tokens\<close>

text \<open>\<open>isspace\<close> of the C locale.\<close>

definition isspace :: "u8 \<Rightarrow> bool" where
  "isspace c \<longleftrightarrow> c = 0x20 \<or> (0x09 \<le> c \<and> c \<le> 0x0D)"

definition evoke_skip_space :: "bytes \<Rightarrow> bytes" where
  "evoke_skip_space cursor = dropWhile isspace cursor"

definition evoke_copy_span :: "allocs \<Rightarrow> bytes \<Rightarrow> nat \<Rightarrow> allocs \<times> bytes option" where
  "evoke_copy_span al start len =
     (let (ok, al) = alloc al in (al, if ok then Some (take len start) else None))"

definition evoke_append_token ::
  "allocs \<Rightarrow> evoke_query_token list \<Rightarrow> evoke_query_token \<Rightarrow> allocs \<times> evoke_status \<times> evoke_query_token list" where
  "evoke_append_token al tokens token =
     (let (ok, al) = alloc al in
      if \<not> ok then (al, EVOKE_ERR_NOMEM, tokens) else (al, EVOKE_OK, tokens @ [token]))"

text \<open>The loop of \<open>evoke_split_phrase\<close>; \<open>cursor\<close> is what is left of the quoted text.\<close>

lemma dropWhile_word_shorter:
  "dropWhile isspace cursor = c # cs \<Longrightarrow> length (dropWhile (\<lambda>x. \<not> isspace x) (c # cs)) < length cursor"
proof -
  assume h: "dropWhile isspace cursor = c # cs"
  then have "\<not> isspace c" by (metis hd_dropWhile list.distinct(1) list.sel(1))
  then have "length (dropWhile (\<lambda>x. \<not> isspace x) (c # cs)) \<le> length cs"
    using length_dropWhile_le [of "\<lambda>x. \<not> isspace x" cs] by simp
  also have "\<dots> < length (dropWhile isspace cursor)" using h by simp
  also have "\<dots> \<le> length cursor" by (rule length_dropWhile_le)
  finally show ?thesis .
qed

definition split_phrase_step ::
  "allocs \<Rightarrow> bytes \<Rightarrow> bytes list \<Rightarrow> allocs \<times> (evoke_status + bytes list)" where
  "split_phrase_step al term_start tokens =
     (let span_len = length (takeWhile (\<lambda>x. \<not> isspace x) term_start) in
      case evoke_copy_span al term_start span_len of
        (al, None) \<Rightarrow> (al, Inl EVOKE_ERR_NOMEM)
      | (al, Some token) \<Rightarrow>
          if length tokens \<ge> EVOKE_QUERY_MAX_TOKENS then (al, Inl EVOKE_ERR_RANGE)
          else
            let (tokens_ok, al) = alloc al;
                (lens_ok, al) = alloc al
            in
              if \<not> tokens_ok \<or> \<not> lens_ok then (al, Inl EVOKE_ERR_NOMEM)
              else (al, Inr (tokens @ [token])))"

function split_phrase_loop :: "allocs \<Rightarrow> bytes \<Rightarrow> bytes list \<Rightarrow> allocs \<times> (evoke_status + bytes list)" where
  "split_phrase_loop al cursor tokens =
     (case dropWhile isspace cursor of
        [] \<Rightarrow> (al, Inr tokens)
      | c # cs \<Rightarrow>
          (case split_phrase_step al (c # cs) tokens of
             (al, Inl status) \<Rightarrow> (al, Inl status)
           | (al, Inr tokens) \<Rightarrow> split_phrase_loop al (dropWhile (\<lambda>x. \<not> isspace x) (c # cs)) tokens))"
  by pat_completeness auto
termination
  by (relation "measure (\<lambda>(al, cursor, tokens). length cursor)") (simp_all only: in_measure wf_measure prod.case dropWhile_word_shorter)

declare split_phrase_loop.simps [simp del]

definition evoke_split_phrase :: "allocs \<Rightarrow> bytes \<Rightarrow> allocs \<times> evoke_status \<times> bytes list" where
  "evoke_split_phrase al span =
     (case split_phrase_loop al span [] of
        (al, Inl status) \<Rightarrow> (al, status, [])
      | (al, Inr tokens) \<Rightarrow>
          if tokens = [] then (al, EVOKE_ERR_INVALID, []) else (al, EVOKE_OK, tokens))"

text \<open>
  One turn of the tokenizer at a cursor that is not blank: the token, whether it is boolean
  syntax, and the cursor behind it, or the status the tokenizer gives up with.
\<close>

definition word_char :: "u8 \<Rightarrow> bool" where
  "word_char c \<longleftrightarrow> \<not> isspace c \<and> c \<noteq> 0x28 \<and> c \<noteq> 0x29"

definition word_token :: "allocs \<Rightarrow> bytes \<Rightarrow> allocs \<times> (evoke_status + evoke_query_token \<times> bool)" where
  "word_token al span =
     (if span = [] then (al, Inl EVOKE_ERR_INVALID)
      else if span = [0x41, 0x4E, 0x44] then (al, Inr (plain_token EVOKE_QUERY_TOKEN_AND, True))
      else if span = [0x4F, 0x52] then (al, Inr (plain_token EVOKE_QUERY_TOKEN_OR, True))
      else if span = [0x4E, 0x4F, 0x54] then (al, Inr (plain_token EVOKE_QUERY_TOKEN_NOT, True))
      else if last span = 0x2A \<and> length span = 1 then (al, Inl EVOKE_ERR_INVALID)
      else
        let prefix = (last span = 0x2A);
            span_len = (if prefix then length span - 1 else length span);
            (tokens_ok, al) = alloc al;
            (lens_ok, al) = alloc al
        in
          if \<not> tokens_ok \<or> \<not> lens_ok then (al, Inl EVOKE_ERR_NOMEM)
          else
            (case evoke_copy_span al span span_len of
               (al, None) \<Rightarrow> (al, Inl EVOKE_ERR_NOMEM)
             | (al, Some token) \<Rightarrow>
                 (al, Inr (\<lparr>token_kind = (if prefix then EVOKE_QUERY_TOKEN_PREFIX else EVOKE_QUERY_TOKEN_TERM),
                            token_term = \<lparr>term_kind = (if prefix then EVOKE_QUERY_PREFIX else EVOKE_QUERY_TERM),
                                          term_occur = EVOKE_QUERY_SHOULD, term_tokens = [token]\<rparr>\<rparr>, False))))"

definition phrase_token :: "allocs \<Rightarrow> bytes \<Rightarrow> allocs \<times> (evoke_status + evoke_query_token \<times> bool)" where
  "phrase_token al span =
     (case evoke_split_phrase al span of
        (al, status, tokens) \<Rightarrow>
          if status \<noteq> EVOKE_OK then (al, Inl status)
          else (al, Inr (\<lparr>token_kind = EVOKE_QUERY_TOKEN_PHRASE,
                          token_term = \<lparr>term_kind = EVOKE_QUERY_PHRASE, term_occur = EVOKE_QUERY_SHOULD,
                                        term_tokens = tokens\<rparr>\<rparr>, False)))"

definition next_token ::
  "allocs \<Rightarrow> u8 \<Rightarrow> bytes \<Rightarrow> allocs \<times> (evoke_status + evoke_query_token \<times> bool) \<times> bytes" where
  "next_token al c cs =
     (if c = 0x2B then (al, Inr (plain_token EVOKE_QUERY_TOKEN_PLUS, False), cs)
      else if c = 0x2D then (al, Inr (plain_token EVOKE_QUERY_TOKEN_MINUS, False), cs)
      else if c = 0x28 then (al, Inr (plain_token EVOKE_QUERY_TOKEN_LPAREN, True), cs)
      else if c = 0x29 then (al, Inr (plain_token EVOKE_QUERY_TOKEN_RPAREN, True), cs)
      else if c = 0x22 then
        (case dropWhile (\<lambda>x. x \<noteq> 0x22) cs of
           [] \<Rightarrow> (al, Inl EVOKE_ERR_INVALID, [])
         | q # rest \<Rightarrow>
             (case phrase_token al (takeWhile (\<lambda>x. x \<noteq> 0x22) cs) of (al, r) \<Rightarrow> (al, r, rest)))
      else
        (case word_token al (takeWhile word_char (c # cs)) of
           (al, r) \<Rightarrow> (al, r, dropWhile word_char (c # cs))))"

lemma next_token_rest:
  assumes "next_token al c cs = (al', r, rest)" and "\<not> isspace c"
  shows "length rest \<le> length cs"
proof -
  have "length (dropWhile P cs) \<le> length cs" for P by (rule length_dropWhile_le)
  moreover have "length qs < length cs" if "dropWhile P cs = q # qs" for P q qs
    using length_dropWhile_le [of P cs] that by simp
  ultimately show ?thesis
    using assms by (auto simp: next_token_def word_char_def less_imp_le split: if_splits list.splits prod.splits)
qed

lemma skip_space_head: "evoke_skip_space cursor = c # cs \<Longrightarrow> \<not> isspace c \<and> length cs < length cursor"
  unfolding evoke_skip_space_def
  by (metis hd_dropWhile length_Cons length_dropWhile_le less_eq_Suc_le list.distinct(1) list.sel(1))

text \<open>The loop of \<open>evoke_tokenize_query_string\<close>.\<close>

function tokenize_loop ::
  "allocs \<Rightarrow> bytes \<Rightarrow> evoke_query_token list \<Rightarrow> bool
     \<Rightarrow> allocs \<times> (evoke_status + evoke_query_token list \<times> bool)" where
  "tokenize_loop al cursor tokens has_boolean_syntax =
     (case evoke_skip_space cursor of
        [] \<Rightarrow> (al, Inr (tokens, has_boolean_syntax))
      | c # cs \<Rightarrow>
          (case next_token al c cs of
             (al, Inl status, rest) \<Rightarrow> (al, Inl status)
           | (al, Inr (token, boolean), rest) \<Rightarrow>
               if length tokens \<ge> EVOKE_QUERY_MAX_TOKENS then (al, Inl EVOKE_ERR_RANGE)
               else
                 (case evoke_append_token al tokens token of
                    (al, status, tokens) \<Rightarrow>
                      if status \<noteq> EVOKE_OK then (al, Inl status)
                      else tokenize_loop al rest tokens (has_boolean_syntax \<or> boolean))))"
  by pat_completeness auto
termination
proof (relation "measure (\<lambda>(al, cursor, tokens, b). length cursor)", goal_cases)
  case (2 al cursor tokens b c cs al' res r rest)
  then have "length cs < length cursor" "\<not> isspace c" using skip_space_head by blast+
  moreover have "next_token al c cs = (al', r, rest)" using 2(2,3) by simp
  ultimately have "length rest < length cursor" using next_token_rest by (meson order_le_less_trans)
  then show ?case by simp
qed simp

declare tokenize_loop.simps [simp del]

definition evoke_tokenize_query_string ::
  "allocs \<Rightarrow> bytes option \<Rightarrow> allocs \<times> evoke_status \<times> evoke_query_token list \<times> bool" where
  "evoke_tokenize_query_string al input =
     (case input of
        None \<Rightarrow> (al, EVOKE_ERR_INVALID, [], False)
      | Some s \<Rightarrow>
          (case tokenize_loop al s [] False of
             (al, Inl status) \<Rightarrow> (al, status, [], False)
           | (al, Inr (tokens, boolean)) \<Rightarrow> (al, EVOKE_OK, tokens, boolean)))"

section \<open>Terms and the classic root\<close>

text \<open>Its callers pass a query and a term; the last result is the index where the term was put.\<close>

definition evoke_append_term ::
  "allocs \<Rightarrow> evoke_query \<Rightarrow> evoke_query_term \<Rightarrow> allocs \<times> ending \<times> evoke_query \<times> nat" where
  "evoke_append_term al query trm =
     (case evoke_query_term_clone al (Some trm) of
        (al, ending, cloned) \<Rightarrow>
          if ending \<noteq> Status EVOKE_OK then (al, ending, query, unset_index)
          else
            let (ok, al) = alloc al in
            if \<not> ok then (al, Status EVOKE_ERR_NOMEM, query, unset_index)
            else (al, Status EVOKE_OK, query\<lparr>query_terms := query_terms query @ [cloned]\<rparr>, length (query_terms query)))"

record classic_roots =
  must_root :: "evoke_query_node option"
  should_root :: "evoke_query_node option"
  negative_root :: "evoke_query_node option"

text \<open>The loop of \<open>evoke_query_build_classic_root\<close>; \<open>None\<close> is its early return of \<open>NULL\<close>.\<close>

fun classic_root_loop ::
  "allocs \<Rightarrow> nat \<Rightarrow> evoke_query_term list \<Rightarrow> classic_roots \<Rightarrow> allocs \<times> classic_roots option" where
  "classic_root_loop al i [] roots = (al, Some roots)"
| "classic_root_loop al i (t # ts) roots =
     (case evoke_query_node_term al i of
        (al, None) \<Rightarrow> (al, None)
      | (al, leaf) \<Rightarrow>
          (case term_occur t of
             EVOKE_QUERY_MUST \<Rightarrow>
               (case evoke_query_node_binary al EVOKE_QUERY_NODE_AND (must_root roots) leaf of
                  (al, n) \<Rightarrow> classic_root_loop al (Suc i) ts (roots\<lparr>must_root := n\<rparr>))
           | EVOKE_QUERY_MUST_NOT \<Rightarrow>
               (case evoke_query_node_unary al EVOKE_QUERY_NODE_NOT leaf of
                  (al, neg) \<Rightarrow>
                    (case evoke_query_node_binary al EVOKE_QUERY_NODE_AND (negative_root roots) neg of
                       (al, n) \<Rightarrow> classic_root_loop al (Suc i) ts (roots\<lparr>negative_root := n\<rparr>)))
           | EVOKE_QUERY_SHOULD \<Rightarrow>
               (case evoke_query_node_binary al EVOKE_QUERY_NODE_OR (should_root roots) leaf of
                  (al, n) \<Rightarrow> classic_root_loop al (Suc i) ts (roots\<lparr>should_root := n\<rparr>))))"

definition evoke_query_build_classic_root ::
  "allocs \<Rightarrow> evoke_query option \<Rightarrow> allocs \<times> evoke_query_node option" where
  "evoke_query_build_classic_root al query =
     (case query of
        None \<Rightarrow> (al, None)
      | Some q \<Rightarrow>
          (case classic_root_loop al 0 (query_terms q)
                  \<lparr>must_root = None, should_root = None, negative_root = None\<rparr> of
             (al, None) \<Rightarrow> (al, None)
           | (al, Some roots) \<Rightarrow>
               let must = (if must_root roots = None then should_root roots else must_root roots) in
               if must = None then (al, negative_root roots)
               else evoke_query_node_binary al EVOKE_QUERY_NODE_AND must (negative_root roots)))"

section \<open>The boolean parser\<close>

definition evoke_parser_token_can_start_unary :: "evoke_query_token_kind \<Rightarrow> bool" where
  "evoke_parser_token_can_start_unary kind \<longleftrightarrow>
     kind = EVOKE_QUERY_TOKEN_TERM \<or> kind = EVOKE_QUERY_TOKEN_PREFIX \<or> kind = EVOKE_QUERY_TOKEN_PHRASE \<or>
     kind = EVOKE_QUERY_TOKEN_LPAREN \<or> kind = EVOKE_QUERY_TOKEN_PLUS \<or> kind = EVOKE_QUERY_TOKEN_MINUS \<or>
     kind = EVOKE_QUERY_TOKEN_NOT"

text \<open>The parser with the outcomes of its allocations; \<open>ps_tokens\<close> and its length never change.\<close>

record evoke_query_parser =
  ps_tokens :: "evoke_query_token list"
  ps_pos :: nat
  ps_depth :: nat
  ps_query :: evoke_query
  ps_allocs :: allocs

definition evoke_query_parser_peek :: "evoke_query_parser \<Rightarrow> evoke_query_token" where
  "evoke_query_parser_peek p =
     (if ps_pos p \<ge> length (ps_tokens p) then plain_token EVOKE_QUERY_TOKEN_EOF else ps_tokens p ! ps_pos p)"

definition evoke_query_parser_consume :: "evoke_query_parser \<Rightarrow> evoke_query_parser" where
  "evoke_query_parser_consume p = (if ps_pos p < length (ps_tokens p) then p\<lparr>ps_pos := ps_pos p + 1\<rparr> else p)"

text \<open>
  A parse function returns the parser and the status or the node; \<open>None\<close> means that the fuel is
  used up. The two loops have functions of their own.
\<close>

type_synonym parsed = "(evoke_query_parser \<times> (ending + evoke_query_node)) option"

definition node_in :: "evoke_query_parser \<Rightarrow> allocs \<times> evoke_query_node option
    \<Rightarrow> evoke_query_parser \<times> (ending + evoke_query_node)" where
  "node_in p r =
     (case r of
        (al, None) \<Rightarrow> (p\<lparr>ps_allocs := al\<rparr>, Inl (Status EVOKE_ERR_NOMEM))
      | (al, Some n) \<Rightarrow> (p\<lparr>ps_allocs := al\<rparr>, Inr n))"

definition evoke_parse_boolean_term :: "evoke_query_parser \<Rightarrow> evoke_query_parser \<times> (ending + evoke_query_node)" where
  "evoke_parse_boolean_term p =
     (case evoke_append_term (ps_allocs p) (ps_query p) (token_term (evoke_query_parser_peek p)) of
        (al, ending, query, term_index) \<Rightarrow>
          let p = p\<lparr>ps_allocs := al, ps_query := query\<rparr> in
          if ending \<noteq> Status EVOKE_OK then (p, Inl ending)
          else
            (case evoke_query_node_term (ps_allocs p) term_index of
               (al, None) \<Rightarrow> (p\<lparr>ps_allocs := al\<rparr>, Inl (Status EVOKE_ERR_NOMEM))
             | (al, Some n) \<Rightarrow> (evoke_query_parser_consume (p\<lparr>ps_allocs := al\<rparr>), Inr n)))"

fun evoke_parse_boolean_or :: "nat \<Rightarrow> evoke_query_parser \<Rightarrow> parsed"
  and parse_or_loop :: "nat \<Rightarrow> evoke_query_parser \<Rightarrow> evoke_query_node \<Rightarrow> parsed"
  and evoke_parse_boolean_and :: "nat \<Rightarrow> evoke_query_parser \<Rightarrow> parsed"
  and parse_and_loop :: "nat \<Rightarrow> evoke_query_parser \<Rightarrow> evoke_query_node \<Rightarrow> parsed"
  and evoke_parse_boolean_unary :: "nat \<Rightarrow> evoke_query_parser \<Rightarrow> parsed"
  and evoke_parse_boolean_primary :: "nat \<Rightarrow> evoke_query_parser \<Rightarrow> parsed" where
  "evoke_parse_boolean_or 0 p = None"
| "evoke_parse_boolean_or (Suc fuel) p =
     (case evoke_parse_boolean_and fuel p of
        None \<Rightarrow> None
      | Some (p, Inl ending) \<Rightarrow> Some (p, Inl ending)
      | Some (p, Inr node) \<Rightarrow> parse_or_loop fuel p node)"
| "parse_or_loop 0 p node = None"
| "parse_or_loop (Suc fuel) p node =
     (let kind = token_kind (evoke_query_parser_peek p) in
      if kind \<noteq> EVOKE_QUERY_TOKEN_OR \<and> \<not> evoke_parser_token_can_start_unary kind then Some (p, Inr node)
      else
        let p = (if kind = EVOKE_QUERY_TOKEN_OR then evoke_query_parser_consume p else p) in
        (case evoke_parse_boolean_and fuel p of
           None \<Rightarrow> None
         | Some (p, Inl ending) \<Rightarrow> Some (p, Inl ending)
         | Some (p, Inr rhs) \<Rightarrow>
             (case node_in p (evoke_query_node_binary (ps_allocs p) EVOKE_QUERY_NODE_OR (Some node) (Some rhs)) of
                (p, Inl ending) \<Rightarrow> Some (p, Inl ending)
              | (p, Inr node) \<Rightarrow> parse_or_loop fuel p node)))"
| "evoke_parse_boolean_and 0 p = None"
| "evoke_parse_boolean_and (Suc fuel) p =
     (case evoke_parse_boolean_unary fuel p of
        None \<Rightarrow> None
      | Some (p, Inl ending) \<Rightarrow> Some (p, Inl ending)
      | Some (p, Inr node) \<Rightarrow> parse_and_loop fuel p node)"
| "parse_and_loop 0 p node = None"
| "parse_and_loop (Suc fuel) p node =
     (if token_kind (evoke_query_parser_peek p) \<noteq> EVOKE_QUERY_TOKEN_AND then Some (p, Inr node)
      else
        (case evoke_parse_boolean_unary fuel (evoke_query_parser_consume p) of
           None \<Rightarrow> None
         | Some (p, Inl ending) \<Rightarrow> Some (p, Inl ending)
         | Some (p, Inr rhs) \<Rightarrow>
             (case node_in p (evoke_query_node_binary (ps_allocs p) EVOKE_QUERY_NODE_AND (Some node) (Some rhs)) of
                (p, Inl ending) \<Rightarrow> Some (p, Inl ending)
              | (p, Inr node) \<Rightarrow> parse_and_loop fuel p node)))"
| "evoke_parse_boolean_unary 0 p = None"
| "evoke_parse_boolean_unary (Suc fuel) p =
     (let kind = token_kind (evoke_query_parser_peek p) in
      if kind = EVOKE_QUERY_TOKEN_PLUS \<or> kind = EVOKE_QUERY_TOKEN_MINUS \<or> kind = EVOKE_QUERY_TOKEN_NOT
      then
        if ps_depth p \<ge> EVOKE_QUERY_MAX_NESTING then Some (p, Inl (Status EVOKE_ERR_RANGE))
        else
          let p = evoke_query_parser_consume p in
          (case evoke_parse_boolean_unary fuel (p\<lparr>ps_depth := ps_depth p + 1\<rparr>) of
             None \<Rightarrow> None
           | Some (p, r) \<Rightarrow>
               let p = p\<lparr>ps_depth := ps_depth p - 1\<rparr> in
               (case r of
                  Inl ending \<Rightarrow> Some (p, Inl ending)
                | Inr child \<Rightarrow>
                    if kind = EVOKE_QUERY_TOKEN_PLUS then Some (p, Inr child)
                    else Some (node_in p (evoke_query_node_unary (ps_allocs p) EVOKE_QUERY_NODE_NOT (Some child)))))
      else evoke_parse_boolean_primary fuel p)"
| "evoke_parse_boolean_primary 0 p = None"
| "evoke_parse_boolean_primary (Suc fuel) p =
     (let kind = token_kind (evoke_query_parser_peek p) in
      if kind = EVOKE_QUERY_TOKEN_LPAREN then
        if ps_depth p \<ge> EVOKE_QUERY_MAX_NESTING then Some (p, Inl (Status EVOKE_ERR_RANGE))
        else
          let p = evoke_query_parser_consume p in
          (case evoke_parse_boolean_or fuel (p\<lparr>ps_depth := ps_depth p + 1\<rparr>) of
             None \<Rightarrow> None
           | Some (p, r) \<Rightarrow>
               let p = p\<lparr>ps_depth := ps_depth p - 1\<rparr> in
               (case r of
                  Inl ending \<Rightarrow> Some (p, Inl ending)
                | Inr node \<Rightarrow>
                    if token_kind (evoke_query_parser_peek p) \<noteq> EVOKE_QUERY_TOKEN_RPAREN
                    then Some (p, Inl (Status EVOKE_ERR_INVALID))
                    else Some (evoke_query_parser_consume p, Inr node)))
      else if kind = EVOKE_QUERY_TOKEN_TERM \<or> kind = EVOKE_QUERY_TOKEN_PREFIX \<or> kind = EVOKE_QUERY_TOKEN_PHRASE
      then Some (evoke_parse_boolean_term p)
      else Some (p, Inl (Status EVOKE_ERR_INVALID)))"

text \<open>The fuel: four calls per token on the way down, and the calls at the end of the input.\<close>

definition parse_fuel :: "nat \<Rightarrow> nat" where
  "parse_fuel tokens = 4 * tokens + 4"

definition evoke_parse_boolean_tokens ::
  "allocs \<Rightarrow> evoke_query_token list \<Rightarrow> evoke_query \<Rightarrow> (allocs \<times> ending \<times> evoke_query) option" where
  "evoke_parse_boolean_tokens al tokens query_out =
     (let p = \<lparr>ps_tokens = tokens, ps_pos = 0, ps_depth = 0,
               ps_query = zero_query\<lparr>query_mode := EVOKE_QUERY_MODE_BOOLEAN_AST\<rparr>, ps_allocs = al\<rparr> in
      case evoke_parse_boolean_or (parse_fuel (length tokens)) p of
        None \<Rightarrow> None
      | Some (p, Inl ending) \<Rightarrow> Some (ps_allocs p, ending, query_out)
      | Some (p, Inr root) \<Rightarrow>
          if ps_pos p \<noteq> length tokens then Some (ps_allocs p, Status EVOKE_ERR_INVALID, query_out)
          else Some (ps_allocs p, Status EVOKE_OK, (ps_query p)\<lparr>query_root := Some root\<rparr>))"

section \<open>The classic parser\<close>

fun classic_loop ::
  "allocs \<Rightarrow> evoke_query_token list \<Rightarrow> evoke_query_occur \<Rightarrow> bool \<Rightarrow> evoke_query
     \<Rightarrow> allocs \<times> (ending + evoke_query \<times> bool)" where
  "classic_loop al [] next_occur expect_term query = (al, Inr (query, expect_term))"
| "classic_loop al (t # ts) next_occur expect_term query =
     (if token_kind t = EVOKE_QUERY_TOKEN_PLUS then classic_loop al ts EVOKE_QUERY_MUST True query
      else if token_kind t = EVOKE_QUERY_TOKEN_MINUS then classic_loop al ts EVOKE_QUERY_MUST_NOT True query
      else if token_kind t \<noteq> EVOKE_QUERY_TOKEN_TERM \<and> token_kind t \<noteq> EVOKE_QUERY_TOKEN_PREFIX \<and>
              token_kind t \<noteq> EVOKE_QUERY_TOKEN_PHRASE
      then (al, Inl (Status EVOKE_ERR_INVALID))
      else
        (case evoke_append_term al query ((token_term t)\<lparr>term_occur := next_occur\<rparr>) of
           (al, ending, query, _) \<Rightarrow>
             if ending \<noteq> Status EVOKE_OK then (al, Inl ending)
             else classic_loop al ts EVOKE_QUERY_SHOULD False query))"

definition evoke_parse_classic_tokens ::
  "allocs \<Rightarrow> evoke_query_token list \<Rightarrow> evoke_query \<Rightarrow> allocs \<times> ending \<times> evoke_query" where
  "evoke_parse_classic_tokens al tokens query_out =
     (case classic_loop al tokens EVOKE_QUERY_SHOULD True
             (zero_query\<lparr>query_mode := EVOKE_QUERY_MODE_CLASSIC\<rparr>) of
        (al, Inl ending) \<Rightarrow> (al, ending, query_out)
      | (al, Inr (query, expect_term)) \<Rightarrow>
          if expect_term \<and> tokens \<noteq> [] then (al, Status EVOKE_ERR_INVALID, query_out)
          else
            (case evoke_query_build_classic_root al (Some query) of
               (al, root) \<Rightarrow>
                 if query_terms query \<noteq> [] \<and> root = None then (al, Status EVOKE_ERR_NOMEM, query_out)
                 else (al, Status EVOKE_OK, query\<lparr>query_root := root\<rparr>)))"

section \<open>Rewriting and parsing a query\<close>

fun evoke_query_rewrite_node ::
  "evoke_query_node option \<Rightarrow> nat list \<Rightarrow> nat \<Rightarrow> evoke_query_node option" where
  "evoke_query_rewrite_node None old_to_new old_len = None"
| "evoke_query_rewrite_node (Some (Node kind i l r)) old_to_new old_len =
     (if kind = EVOKE_QUERY_NODE_TERM
      then if i \<ge> old_len \<or> old_to_new ! i = unset_index then None
           else Some (Node kind (old_to_new ! i) l r)
      else
        let l = evoke_query_rewrite_node l old_to_new old_len;
            r = evoke_query_rewrite_node r old_to_new old_len
        in
          if kind = EVOKE_QUERY_NODE_NOT
          then if l = None then None else Some (Node kind i l r)
          else if l = None \<and> r = None then None
          else if l = None then r
          else if r = None then l
          else Some (Node kind i l r))"

definition evoke_query_rewrite_terms :: "evoke_query option \<Rightarrow> nat list option \<Rightarrow> nat \<Rightarrow> evoke_query option" where
  "evoke_query_rewrite_terms query old_to_new old_len =
     (case (query, old_to_new) of
        (Some q, Some m) \<Rightarrow> Some (q\<lparr>query_root := evoke_query_rewrite_node (query_root q) m old_len\<rparr>)
      | _ \<Rightarrow> query)"

definition evoke_parse_query_string ::
  "allocs \<Rightarrow> bytes option \<Rightarrow> evoke_query option \<Rightarrow> (allocs \<times> ending \<times> evoke_query option) option" where
  "evoke_parse_query_string al input query_out =
     (case (input, query_out) of
        (Some s, Some out) \<Rightarrow>
          (case evoke_tokenize_query_string al (Some s) of
             (al, status, tokens, has_boolean_syntax) \<Rightarrow>
               if status \<noteq> EVOKE_OK then Some (al, Status status, query_out)
               else if has_boolean_syntax
               then map_option (\<lambda>(al, ending, q). (al, ending, Some q)) (evoke_parse_boolean_tokens al tokens out)
               else
                 (case evoke_parse_classic_tokens al tokens out of
                    (al, ending, q) \<Rightarrow> Some (al, ending, Some q)))
      | _ \<Rightarrow> Some (al, Status EVOKE_ERR_INVALID, query_out))"

end
