(* ===== verification/Query_Parser.thy ===== *)
theory Query_Parser
  imports Query
begin

text \<open>
  The boolean parser: it needs no more fuel than it gets, its tree lists the terms of the query in
  order, whatever allocations fail, and it reads back every expression printed with no more
  parentheses than the precedence of NOT, AND and OR calls for.
\<close>

section \<open>Peeking and consuming\<close>

lemma consume_simps [simp]:
  "ps_tokens (evoke_query_parser_consume p) = ps_tokens p"
  "ps_depth (evoke_query_parser_consume p) = ps_depth p"
  "ps_query (evoke_query_parser_consume p) = ps_query p"
  "ps_allocs (evoke_query_parser_consume p) = ps_allocs p"
  by (simp_all add: evoke_query_parser_consume_def)

lemma peek_not_eof:
  "token_kind (evoke_query_parser_peek p) \<noteq> EVOKE_QUERY_TOKEN_EOF \<Longrightarrow> ps_pos p < length (ps_tokens p)"
  by (simp add: evoke_query_parser_peek_def plain_token_def split: if_splits)

lemma peek_token: "ps_pos p < length (ps_tokens p) \<Longrightarrow> evoke_query_parser_peek p = ps_tokens p ! ps_pos p"
  by (simp add: evoke_query_parser_peek_def)

lemma consume_pos: "ps_pos p < length (ps_tokens p) \<Longrightarrow> ps_pos (evoke_query_parser_consume p) = Suc (ps_pos p)"
  by (simp add: evoke_query_parser_consume_def)

section \<open>Nodes and terms\<close>

text \<open>The shape of a tree and the terms at its leaves, from left to right.\<close>

fun node_wf :: "evoke_query_node option \<Rightarrow> bool" where
  "node_wf None = False"
| "node_wf (Some (Node k i l r)) =
     (case k of
        EVOKE_QUERY_NODE_TERM \<Rightarrow> l = None \<and> r = None
      | EVOKE_QUERY_NODE_NOT \<Rightarrow> node_wf l \<and> r = None
      | _ \<Rightarrow> node_wf l \<and> node_wf r)"

fun leaves :: "evoke_query_node option \<Rightarrow> nat list" where
  "leaves None = []"
| "leaves (Some (Node k i l r)) = (if k = EVOKE_QUERY_NODE_TERM then [i] else leaves l @ leaves r)"

lemma node_term_ok:
  "evoke_query_node_term al i = (al', Some n) \<Longrightarrow> n = Node EVOKE_QUERY_NODE_TERM i None None"
  by (auto simp: evoke_query_node_term_def evoke_query_node_new_def split: prod.splits option.splits if_splits)

lemma node_unary_ok:
  "evoke_query_node_unary al k (Some c) = (al', Some n) \<Longrightarrow> n = Node k unset_index (Some c) None"
  by (auto simp: evoke_query_node_unary_def evoke_query_node_new_def split: prod.splits option.splits if_splits)

lemma node_binary_ok:
  "evoke_query_node_binary al k (Some l) (Some r) = (al', Some n) \<Longrightarrow> n = Node k unset_index (Some l) (Some r)"
  by (auto simp: evoke_query_node_binary_def evoke_query_node_new_def split: prod.splits option.splits if_splits)

lemma clone_tokens_cases:
  "clone_tokens al ts = (al', r) \<Longrightarrow> r = Inr ts \<or> r = Inl (Status EVOKE_ERR_NOMEM) \<or> r = Inl Undefined"
proof (induction al ts arbitrary: al' r rule: clone_tokens.induct)
  case (2 al t ts)
  obtain ok al1 where al1: "alloc al = (ok, al1)" by fastforce
  obtain al2 r2 where r2: "clone_tokens al1 ts = (al2, r2)" by fastforce
  show ?case using "2.IH" [OF al1 [symmetric] refl _ r2] "2.prems" al1 r2 by (cases ok; cases "ts = []") auto
qed simp

lemma term_clone_ok: "evoke_query_term_clone al (Some t) = (al', Status EVOKE_OK, u) \<Longrightarrow> u = t"
  by (auto simp: evoke_query_term_clone_def dest!: clone_tokens_cases split: if_splits prod.splits option.splits sum.splits)

lemma append_term_ok:
  "evoke_append_term al q t = (al', Status EVOKE_OK, q', i) \<Longrightarrow>
   q' = q\<lparr>query_terms := query_terms q @ [t]\<rparr> \<and> i = length (query_terms q)"
  by (auto simp: evoke_append_term_def dest!: term_clone_ok split: if_splits prod.splits)

lemma append_term_error:
  "evoke_append_term al q t = (al', st, q', i) \<Longrightarrow> st \<noteq> Status EVOKE_OK \<Longrightarrow> q' = q"
  by (auto simp: evoke_append_term_def split: if_splits prod.splits)

section \<open>What a parse function keeps\<close>

definition is_term_token :: "evoke_query_token \<Rightarrow> bool" where
  "is_term_token t \<longleftrightarrow> token_kind t = EVOKE_QUERY_TOKEN_TERM \<or> token_kind t = EVOKE_QUERY_TOKEN_PREFIX \<or>
     token_kind t = EVOKE_QUERY_TOKEN_PHRASE"

text \<open>The terms of the tokens from one position to another.\<close>

definition terms_between :: "evoke_query_token list \<Rightarrow> nat \<Rightarrow> nat \<Rightarrow> evoke_query_term list" where
  "terms_between ts a b = map (\<lambda>i. token_term (ts ! i)) (filter (\<lambda>i. is_term_token (ts ! i)) [a..<b])"

lemma upt_join: "a \<le> b \<Longrightarrow> b \<le> c \<Longrightarrow> [a..<b] @ [b..<c] = [a..<c]"
  using upt_add_eq_append [of a b "c - b"] by simp

lemma terms_between_append:
  "a \<le> b \<Longrightarrow> b \<le> c \<Longrightarrow> terms_between ts a b @ terms_between ts b c = terms_between ts a c"
  using upt_join [of a b c] unfolding terms_between_def by (simp flip: map_append filter_append)

lemma terms_between_same [simp]: "terms_between ts a a = []"
  by (simp add: terms_between_def)

lemma terms_between_step:
  "terms_between ts a (Suc a) = (if is_term_token (ts ! a) then [token_term (ts ! a)] else [])"
  by (simp add: terms_between_def)

text \<open>
  A call keeps the tokens and the depth and never goes back; it appends the terms it passes, and
  keeps everything else of the query.
\<close>

definition moved :: "evoke_query_parser \<Rightarrow> evoke_query_parser \<Rightarrow> bool" where
  "moved p p' \<longleftrightarrow>
     ps_tokens p' = ps_tokens p \<and> ps_depth p' = ps_depth p \<and> ps_pos p \<le> ps_pos p' \<and>
     (ps_pos p \<le> length (ps_tokens p) \<longrightarrow> ps_pos p' \<le> length (ps_tokens p))"

definition read_terms :: "evoke_query_parser \<Rightarrow> evoke_query_parser \<Rightarrow> bool" where
  "read_terms p p' \<longleftrightarrow>
     ps_query p' = (ps_query p)\<lparr>query_terms :=
       query_terms (ps_query p) @ terms_between (ps_tokens p) (ps_pos p) (ps_pos p')\<rparr>"

definition new_leaves :: "evoke_query_parser \<Rightarrow> evoke_query_parser \<Rightarrow> nat list" where
  "new_leaves p p' = [length (query_terms (ps_query p))..<length (query_terms (ps_query p'))]"

lemma moved_refl [simp]: "moved p p"
  by (simp add: moved_def)

lemma moved_trans: "moved p q \<Longrightarrow> moved q r \<Longrightarrow> moved p r"
  by (auto simp: moved_def)

lemma moved_allocs [simp]:
  "moved p (q\<lparr>ps_allocs := al\<rparr>) = moved p q" "moved (p\<lparr>ps_allocs := al\<rparr>) q = moved p q"
  by (simp_all add: moved_def)

lemma read_terms_allocs [simp]:
  "read_terms p (q\<lparr>ps_allocs := al\<rparr>) = read_terms p q" "new_leaves p (q\<lparr>ps_allocs := al\<rparr>) = new_leaves p q"
  by (simp_all add: read_terms_def new_leaves_def)

lemma read_terms_refl [simp]: "read_terms p p"
  by (simp add: read_terms_def)

lemma read_terms_trans:
  assumes "read_terms p q" and "read_terms q r" and "moved p q" and "moved q r"
  shows "read_terms p r" and "new_leaves p q @ new_leaves q r = new_leaves p r"
proof -
  have "terms_between (ps_tokens p) (ps_pos p) (ps_pos q) @ terms_between (ps_tokens p) (ps_pos q) (ps_pos r)
      = terms_between (ps_tokens p) (ps_pos p) (ps_pos r)"
    using assms(3,4) by (intro terms_between_append) (auto simp: moved_def)
  then show "read_terms p r" using assms by (simp add: read_terms_def moved_def)
  show "new_leaves p q @ new_leaves q r = new_leaves p r"
    unfolding new_leaves_def using assms(1,2)
    by (intro upt_join) (auto simp: read_terms_def)
qed

text \<open>A successful parse from \<open>p\<close> that ends in \<open>p'\<close> with the tree \<open>n\<close>, and a successful loop that extends a tree.\<close>

definition parsed_node :: "evoke_query_parser \<Rightarrow> evoke_query_parser \<Rightarrow> evoke_query_node \<Rightarrow> bool" where
  "parsed_node p p' n \<longleftrightarrow> moved p p' \<and> ps_pos p < ps_pos p' \<and> read_terms p p' \<and>
     node_wf (Some n) \<and> leaves (Some n) = new_leaves p p'"

definition extended_node ::
  "evoke_query_parser \<Rightarrow> evoke_query_node \<Rightarrow> evoke_query_parser \<Rightarrow> evoke_query_node \<Rightarrow> bool" where
  "extended_node p n0 p' n \<longleftrightarrow> moved p p' \<and> read_terms p p' \<and>
     (node_wf (Some n0) \<longrightarrow> node_wf (Some n) \<and> leaves (Some n) = leaves (Some n0) @ new_leaves p p')"

text \<open>Passing a token that carries no term.\<close>

definition skips :: "evoke_query_parser \<Rightarrow> evoke_query_parser \<Rightarrow> bool" where
  "skips p q \<longleftrightarrow> moved p q \<and> read_terms p q \<and> new_leaves p q = []"

lemma skips_refl: "skips p p"
  by (simp add: skips_def new_leaves_def)

lemma skips_consume:
  assumes "token_kind (evoke_query_parser_peek p) \<noteq> EVOKE_QUERY_TOKEN_EOF"
    and "\<not> is_term_token (evoke_query_parser_peek p)"
  shows "skips p (evoke_query_parser_consume p)"
  using peek_not_eof [OF assms(1)] assms(2)
  by (simp add: skips_def moved_def read_terms_def new_leaves_def consume_pos peek_token terms_between_step)

lemma parsed_after_skip: "skips p q \<Longrightarrow> parsed_node q r n \<Longrightarrow> parsed_node p r n"
  using read_terms_trans [of p q r] moved_trans [of p q r]
  by (auto simp: skips_def parsed_node_def moved_def)

lemma skip_after_parsed: "parsed_node p q n \<Longrightarrow> skips q r \<Longrightarrow> parsed_node p r n"
  using read_terms_trans [of p q r] moved_trans [of p q r]
  by (auto simp: skips_def parsed_node_def moved_def)

lemma parsed_deeper:
  "parsed_node (p\<lparr>ps_depth := ps_depth p + 1\<rparr>) q n \<Longrightarrow> parsed_node p (q\<lparr>ps_depth := ps_depth q - 1\<rparr>) n"
  by (auto simp: parsed_node_def moved_def read_terms_def new_leaves_def)

lemma parsed_allocs [simp]: "parsed_node p (q\<lparr>ps_allocs := al\<rparr>) n = parsed_node p q n"
  by (simp add: parsed_node_def)

lemma parsed_then_extended:
  "parsed_node p q n0 \<Longrightarrow> extended_node q n0 r n \<Longrightarrow> parsed_node p r n"
  using read_terms_trans [of p q r] moved_trans [of p q r]
  by (auto simp: parsed_node_def extended_node_def moved_def)

lemma extended_refl: "extended_node p n p n"
  by (simp add: extended_node_def new_leaves_def)

text \<open>One turn of either loop: a skip, an operand, the new node, and the turns that follow.\<close>

lemma extended_turn:
  assumes "skips p p1" and "parsed_node p1 p2 rhs" and "k = EVOKE_QUERY_NODE_AND \<or> k = EVOKE_QUERY_NODE_OR"
    and "extended_node p2 (Node k unset_index (Some n0) (Some rhs)) p3 n"
  shows "extended_node p n0 p3 n"
proof -
  have p: "parsed_node p p2 rhs" using assms(1,2) by (rule parsed_after_skip)
  note rt = read_terms_trans [of p p2 p3]
  show ?thesis
    using p assms(3,4) rt moved_trans [of p p2 p3]
    by (auto simp: parsed_node_def extended_node_def)
qed

lemma node_in_ok: "node_in p r = (p', Inr n) \<Longrightarrow> \<exists>al. r = (al, Some n) \<and> p' = p\<lparr>ps_allocs := al\<rparr>"
  by (auto simp: node_in_def split: prod.splits option.splits)

lemma parse_term_ok:
  assumes "evoke_parse_boolean_term p = (p', Inr n)" and "is_term_token (evoke_query_parser_peek p)"
  shows "parsed_node p p' n"
proof -
  obtain al q i al' where a: "evoke_append_term (ps_allocs p) (ps_query p) (token_term (evoke_query_parser_peek p))
      = (al, Status EVOKE_OK, q, i)"
    and n: "evoke_query_node_term al i = (al', Some n)"
    and p': "p' = evoke_query_parser_consume (p\<lparr>ps_query := q, ps_allocs := al'\<rparr>)"
    using assms(1) by (auto simp: evoke_parse_boolean_term_def Let_def split: prod.splits if_splits option.splits)
  have pos: "ps_pos p < length (ps_tokens p)"
    using assms(2) by (intro peek_not_eof) (auto simp: is_term_token_def)
  show ?thesis
    using append_term_ok [OF a] node_term_ok [OF n] pos assms(2)
    by (simp add: p' parsed_node_def moved_def read_terms_def new_leaves_def evoke_query_parser_consume_def peek_token
        terms_between_step)
qed

lemma can_start_kinds:
  "evoke_parser_token_can_start_unary k \<Longrightarrow> k \<noteq> EVOKE_QUERY_TOKEN_EOF"
  by (auto simp: evoke_parser_token_can_start_unary_def)

text \<open>Every success of every parse function, whatever fails to be allocated.\<close>

lemma parse_success:
  "evoke_parse_boolean_or fuel p = Some (p', Inr n) \<Longrightarrow> parsed_node p p' n"
  "parse_or_loop fuel p n0 = Some (p', Inr n) \<Longrightarrow> extended_node p n0 p' n"
  "evoke_parse_boolean_and fuel p = Some (p', Inr n) \<Longrightarrow> parsed_node p p' n"
  "parse_and_loop fuel p n0 = Some (p', Inr n) \<Longrightarrow> extended_node p n0 p' n"
  "evoke_parse_boolean_unary fuel p = Some (p', Inr n) \<Longrightarrow> parsed_node p p' n"
  "evoke_parse_boolean_primary fuel p = Some (p', Inr n) \<Longrightarrow> parsed_node p p' n"
proof (induction fuel arbitrary: p n0 p' n)
  case (Suc fuel)
  {
    case 1
    then show ?case using Suc.IH(2,3) parsed_then_extended
      by (fastforce split: option.splits prod.splits sum.splits)
  next
    case 2
    let ?k = "token_kind (evoke_query_parser_peek p)"
    let ?p1 = "if ?k = EVOKE_QUERY_TOKEN_OR then evoke_query_parser_consume p else p"
    show ?case
    proof (cases "?k \<noteq> EVOKE_QUERY_TOKEN_OR \<and> \<not> evoke_parser_token_can_start_unary ?k")
      case True
      then show ?thesis using 2 extended_refl by simp
    next
      case False
      have "skips p ?p1" using skips_consume [of p] skips_refl by (simp add: is_term_token_def)
      moreover obtain p2 rhs al m where r: "evoke_parse_boolean_and fuel ?p1 = Some (p2, Inr rhs)"
        "evoke_query_node_binary (ps_allocs p2) EVOKE_QUERY_NODE_OR (Some n0) (Some rhs) = (al, Some m)"
        "parse_or_loop fuel (p2\<lparr>ps_allocs := al\<rparr>) m = Some (p', Inr n)"
        using 2 False by (auto simp: Let_def split: option.splits prod.splits sum.splits dest!: node_in_ok)
      moreover have "parsed_node ?p1 (p2\<lparr>ps_allocs := al\<rparr>) rhs" using Suc.IH(3) [OF r(1)] by simp
      moreover have "extended_node (p2\<lparr>ps_allocs := al\<rparr>) m p' n" by (rule Suc.IH(2) [OF r(3)])
      ultimately show ?thesis using node_binary_ok [OF r(2)] extended_turn by blast
    qed
  next
    case 3
    then show ?case using Suc.IH(4,5) parsed_then_extended
      by (fastforce split: option.splits prod.splits sum.splits)
  next
    case 4
    show ?case
    proof (cases "token_kind (evoke_query_parser_peek p) = EVOKE_QUERY_TOKEN_AND")
      case False
      then show ?thesis using 4 extended_refl by simp
    next
      case True
      let ?p1 = "evoke_query_parser_consume p"
      have "skips p ?p1" using True by (intro skips_consume) (simp_all add: is_term_token_def)
      moreover obtain p2 rhs al m where r: "evoke_parse_boolean_unary fuel ?p1 = Some (p2, Inr rhs)"
        "evoke_query_node_binary (ps_allocs p2) EVOKE_QUERY_NODE_AND (Some n0) (Some rhs) = (al, Some m)"
        "parse_and_loop fuel (p2\<lparr>ps_allocs := al\<rparr>) m = Some (p', Inr n)"
        using 4 True by (auto split: option.splits prod.splits sum.splits dest!: node_in_ok)
      moreover have "parsed_node ?p1 (p2\<lparr>ps_allocs := al\<rparr>) rhs" using Suc.IH(5) [OF r(1)] by simp
      moreover have "extended_node (p2\<lparr>ps_allocs := al\<rparr>) m p' n" by (rule Suc.IH(4) [OF r(3)])
      ultimately show ?thesis using node_binary_ok [OF r(2)] extended_turn by blast
    qed
  next
    case 5
    let ?k = "token_kind (evoke_query_parser_peek p)" and ?p1 = "evoke_query_parser_consume p"
    show ?case
    proof (cases "?k = EVOKE_QUERY_TOKEN_PLUS \<or> ?k = EVOKE_QUERY_TOKEN_MINUS \<or> ?k = EVOKE_QUERY_TOKEN_NOT")
      case False
      then show ?thesis using 5 Suc.IH(6) by simp
    next
      case True
      then have skip: "skips p ?p1" by (intro skips_consume) (auto simp: is_term_token_def)
      obtain q c where c: "evoke_parse_boolean_unary fuel (?p1\<lparr>ps_depth := ps_depth ?p1 + 1\<rparr>) = Some (q, Inr c)"
        using 5 True by (auto simp: Let_def split: option.splits prod.splits sum.splits if_splits)
      let ?q = "q\<lparr>ps_depth := ps_depth q - 1\<rparr>"
      have sub: "parsed_node p ?q c" using Suc.IH(5) [OF c] skip parsed_deeper parsed_after_skip by blast
      consider "p' = ?q" "n = c"
        | al where "evoke_query_node_unary (ps_allocs q) EVOKE_QUERY_NODE_NOT (Some c) = (al, Some n)"
            "p' = ?q\<lparr>ps_allocs := al\<rparr>"
        using 5 True c by (auto simp: Let_def split: if_splits dest!: node_in_ok)
      then show ?thesis
        by cases (use sub in \<open>auto simp: parsed_node_def dest!: node_unary_ok\<close>)
    qed
  next
    case 6
    let ?k = "token_kind (evoke_query_parser_peek p)" and ?p1 = "evoke_query_parser_consume p"
    show ?case
    proof (cases "?k = EVOKE_QUERY_TOKEN_LPAREN")
      case False
      then show ?thesis using 6 parse_term_ok by (auto simp: is_term_token_def Let_def split: if_splits)
    next
      case True
      then have skip: "skips p ?p1" by (intro skips_consume) (auto simp: is_term_token_def)
      obtain q where c: "evoke_parse_boolean_or fuel (?p1\<lparr>ps_depth := ps_depth ?p1 + 1\<rparr>) = Some (q, Inr n)"
        and close: "token_kind (evoke_query_parser_peek (q\<lparr>ps_depth := ps_depth q - 1\<rparr>)) = EVOKE_QUERY_TOKEN_RPAREN"
        and p': "p' = evoke_query_parser_consume (q\<lparr>ps_depth := ps_depth q - 1\<rparr>)"
        using 6 True by (auto simp: Let_def split: option.splits prod.splits sum.splits if_splits)
      let ?q = "q\<lparr>ps_depth := ps_depth q - 1\<rparr>"
      have "parsed_node p ?q n" using Suc.IH(1) [OF c] skip parsed_deeper parsed_after_skip by blast
      moreover have "skips ?q p'" unfolding p' using close by (intro skips_consume) (auto simp: is_term_token_def)
      ultimately show ?thesis by (rule skip_after_parsed)
    qed
  }
qed simp_all

section \<open>Fuel\<close>

definition tokens_left :: "evoke_query_parser \<Rightarrow> nat" where
  "tokens_left p = length (ps_tokens p) - ps_pos p"

lemma tokens_left_simps [simp]:
  "tokens_left (p\<lparr>ps_depth := d\<rparr>) = tokens_left p" "tokens_left (p\<lparr>ps_allocs := al\<rparr>) = tokens_left p"
  by (simp_all add: tokens_left_def)

lemma tokens_left_consume:
  "token_kind (evoke_query_parser_peek p) \<noteq> EVOKE_QUERY_TOKEN_EOF \<Longrightarrow>
   Suc (tokens_left (evoke_query_parser_consume p)) = tokens_left p"
  using peek_not_eof [of p] consume_pos [of p] by (simp add: tokens_left_def)

lemma tokens_left_parsed:
  assumes "parsed_node p p' n" and "token_kind (evoke_query_parser_peek p) \<noteq> EVOKE_QUERY_TOKEN_EOF"
  shows "tokens_left p' < tokens_left p"
  using peek_not_eof [OF assms(2)] assms(1) by (auto simp: parsed_node_def moved_def tokens_left_def)

lemma parsed_not_eof:
  "parsed_node p p' n \<Longrightarrow> tokens_left p' < tokens_left p \<or> tokens_left p = 0"
  by (auto simp: parsed_node_def moved_def tokens_left_def)

text \<open>At the end of the input no parse function succeeds.\<close>

lemma eof_fails:
  assumes "tokens_left p = 0"
  shows "evoke_parse_boolean_and fuel p \<noteq> Some (p', Inr n)" and "evoke_parse_boolean_unary fuel p \<noteq> Some (p', Inr n)"
proof -
  have eof: "token_kind (evoke_query_parser_peek p) = EVOKE_QUERY_TOKEN_EOF"
    using assms by (simp add: tokens_left_def evoke_query_parser_peek_def plain_token_def)
  have prim: "evoke_parse_boolean_primary fuel p \<noteq> Some (p', Inr n)" for fuel p' n
    using eof by (cases fuel) simp_all
  then show un: "evoke_parse_boolean_unary fuel p \<noteq> Some (p', Inr n)" for fuel p' n
    using eof by (cases fuel) simp_all
  show "evoke_parse_boolean_and fuel p \<noteq> Some (p', Inr n)"
    using un by (cases fuel) (auto split: option.splits prod.splits sum.splits)
qed

lemma left_after:
  "evoke_parse_boolean_and fuel p = Some (p', Inr n) \<Longrightarrow> tokens_left p' < tokens_left p"
  "evoke_parse_boolean_unary fuel p = Some (p', Inr n) \<Longrightarrow> tokens_left p' < tokens_left p"
  using parse_success(3,5) parsed_not_eof eof_fails by blast+

lemma enough_fuel:
  "4 * tokens_left p + 4 \<le> fuel \<Longrightarrow> evoke_parse_boolean_or fuel p \<noteq> None"
  "4 * tokens_left p + 4 \<le> fuel \<Longrightarrow> parse_or_loop fuel p n0 \<noteq> None"
  "4 * tokens_left p + 3 \<le> fuel \<Longrightarrow> evoke_parse_boolean_and fuel p \<noteq> None"
  "4 * tokens_left p + 1 \<le> fuel \<Longrightarrow> parse_and_loop fuel p n0 \<noteq> None"
  "4 * tokens_left p + 2 \<le> fuel \<Longrightarrow> evoke_parse_boolean_unary fuel p \<noteq> None"
  "4 * tokens_left p + 1 \<le> fuel \<Longrightarrow> evoke_parse_boolean_primary fuel p \<noteq> None"
proof (induction fuel arbitrary: p n0)
  case (Suc fuel)
  {
    case 1
    then have "evoke_parse_boolean_and fuel p \<noteq> None" by (intro Suc.IH(3)) simp
    moreover have "parse_or_loop fuel q m \<noteq> None" if "evoke_parse_boolean_and fuel p = Some (q, Inr m)" for q m
      using left_after(1) [OF that] 1 by (intro Suc.IH(2)) simp
    ultimately show ?case by (auto split: option.splits sum.splits)
  next
    case 2
    let ?k = "token_kind (evoke_query_parser_peek p)"
    let ?p1 = "if ?k = EVOKE_QUERY_TOKEN_OR then evoke_query_parser_consume p else p"
    have left: "tokens_left ?p1 \<le> tokens_left p" using tokens_left_consume [of p] by auto
    then have "evoke_parse_boolean_and fuel ?p1 \<noteq> None" using 2 by (intro Suc.IH(3)) simp
    moreover have "parse_or_loop fuel (q\<lparr>ps_allocs := al\<rparr>) m \<noteq> None"
      if "evoke_parse_boolean_and fuel ?p1 = Some (q, Inr r)" for q r al m
      using left_after(1) [OF that] left 2 by (intro Suc.IH(2)) simp
    ultimately show ?case
      by (auto simp: Let_def node_in_def split: option.splits sum.splits prod.splits if_splits)
  next
    case 3
    then have "evoke_parse_boolean_unary fuel p \<noteq> None" by (intro Suc.IH(5)) simp
    moreover have "parse_and_loop fuel q m \<noteq> None" if "evoke_parse_boolean_unary fuel p = Some (q, Inr m)" for q m
      using left_after(2) [OF that] 3 by (intro Suc.IH(4)) simp
    ultimately show ?case by (auto split: option.splits sum.splits)
  next
    case 4
    show ?case
    proof (cases "token_kind (evoke_query_parser_peek p) = EVOKE_QUERY_TOKEN_AND")
      case True
      let ?p1 = "evoke_query_parser_consume p"
      have left: "Suc (tokens_left ?p1) = tokens_left p" using True by (intro tokens_left_consume) simp
      then have "evoke_parse_boolean_unary fuel ?p1 \<noteq> None" using 4 by (intro Suc.IH(5)) simp
      moreover have "parse_and_loop fuel (q\<lparr>ps_allocs := al\<rparr>) m \<noteq> None"
        if "evoke_parse_boolean_unary fuel ?p1 = Some (q, Inr r)" for q r al m
        using left_after(2) [OF that] left 4 by (intro Suc.IH(4)) simp
      ultimately show ?thesis by (auto simp: node_in_def split: option.splits sum.splits prod.splits if_splits)
    qed simp
  next
    case 5
    let ?k = "token_kind (evoke_query_parser_peek p)" and ?p1 = "evoke_query_parser_consume p"
    have "evoke_parse_boolean_unary fuel (?p1\<lparr>ps_depth := ps_depth ?p1 + 1\<rparr>) \<noteq> None"
      if "?k = EVOKE_QUERY_TOKEN_PLUS \<or> ?k = EVOKE_QUERY_TOKEN_MINUS \<or> ?k = EVOKE_QUERY_TOKEN_NOT"
      using tokens_left_consume [of p] that 5 by (intro Suc.IH(5)) auto
    moreover have "evoke_parse_boolean_primary fuel p \<noteq> None" using 5 by (intro Suc.IH(6)) simp
    ultimately show ?case by (auto simp: Let_def split: option.splits sum.splits if_splits)
  next
    case 6
    let ?k = "token_kind (evoke_query_parser_peek p)" and ?p1 = "evoke_query_parser_consume p"
    have "evoke_parse_boolean_or fuel (?p1\<lparr>ps_depth := ps_depth ?p1 + 1\<rparr>) \<noteq> None"
      if "?k = EVOKE_QUERY_TOKEN_LPAREN"
      using tokens_left_consume [of p] that 6 by (intro Suc.IH(1)) auto
    then show ?case by (auto simp: Let_def split: option.splits sum.splits if_splits)
  }
qed simp_all

section \<open>Tokens\<close>

text \<open>A word of a query: not empty, no white space in it.\<close>

definition word_ok :: "bytes \<Rightarrow> bool" where
  "word_ok w \<longleftrightarrow> w \<noteq> [] \<and> list_all (\<lambda>c. \<not> isspace c) w"

definition term_ok :: "evoke_query_term \<Rightarrow> bool" where
  "term_ok t \<longleftrightarrow> term_tokens t \<noteq> [] \<and> length (term_tokens t) \<le> EVOKE_QUERY_MAX_TOKENS \<and>
     list_all word_ok (term_tokens t) \<and> (term_kind t \<noteq> EVOKE_QUERY_PHRASE \<longrightarrow> length (term_tokens t) = 1)"

definition boolean_kind :: "evoke_query_token_kind \<Rightarrow> bool" where
  "boolean_kind k \<longleftrightarrow> k = EVOKE_QUERY_TOKEN_LPAREN \<or> k = EVOKE_QUERY_TOKEN_RPAREN \<or> k = EVOKE_QUERY_TOKEN_AND \<or>
     k = EVOKE_QUERY_TOKEN_OR \<or> k = EVOKE_QUERY_TOKEN_NOT"

definition token_ok :: "evoke_query_token \<Rightarrow> bool" where
  "token_ok t \<longleftrightarrow> token_kind t \<noteq> EVOKE_QUERY_TOKEN_EOF \<and> (is_term_token t \<longrightarrow> term_ok (token_term t))"

lemma split_step_ok:
  assumes "split_phrase_step al (c # cs) ts = (al', Inr us)" and "\<not> isspace c"
    and "list_all word_ok ts" and "length ts \<le> EVOKE_QUERY_MAX_TOKENS"
  shows "list_all word_ok us \<and> length us \<le> EVOKE_QUERY_MAX_TOKENS"
proof -
  let ?w = "takeWhile (\<lambda>x. \<not> isspace x) (c # cs)"
  have "word_ok ?w" using assms(2) by (auto simp: word_ok_def list_all_iff dest: set_takeWhileD)
  moreover have "take (length ?w) (c # cs) = ?w" by (metis takeWhile_eq_take)
  ultimately show ?thesis
    using assms(1,3,4)
    by (auto simp: split_phrase_step_def evoke_copy_span_def Let_def split: prod.splits option.splits if_splits)
qed

lemma split_loop_ok:
  assumes "split_phrase_loop al cursor ts = (al', Inr us)"
    and "list_all word_ok ts" and "length ts \<le> EVOKE_QUERY_MAX_TOKENS"
  shows "list_all word_ok us \<and> length us \<le> EVOKE_QUERY_MAX_TOKENS"
  using assms
proof (induction al cursor ts rule: split_phrase_loop.induct)
  case (1 al cursor ts)
  show ?case
  proof (cases "dropWhile isspace cursor")
    case Nil
    then show ?thesis using "1.prems"
      by (subst (asm) split_phrase_loop.simps) (simp only: list.case prod.inject sum.inject simp_thms)
  next
    case (Cons c cs)
    have ns: "\<not> isspace c" using Cons by (metis hd_dropWhile list.distinct(1) list.sel(1))
    obtain al1 vs where step: "split_phrase_step al (c # cs) ts = (al1, Inr vs)"
      and rest: "split_phrase_loop al1 (dropWhile (\<lambda>x. \<not> isspace x) (c # cs)) vs = (al', Inr us)"
      using "1.prems"(1) Cons
      by (subst (asm) split_phrase_loop.simps) (auto split: prod.splits sum.splits)
    show ?thesis
      using "1.IH" [OF Cons step [symmetric] refl rest] split_step_ok [OF step ns "1.prems"(2,3)] by blast
  qed
qed

lemma split_loop_error: "split_phrase_loop al cursor ts = (al', Inl st) \<Longrightarrow> st \<noteq> EVOKE_OK"
proof (induction al cursor ts rule: split_phrase_loop.induct)
  case (1 al cursor ts)
  have "split_phrase_step al w ts = (al1, Inl st1) \<Longrightarrow> st1 \<noteq> EVOKE_OK" for w al1 st1
    by (auto simp: split_phrase_step_def Let_def split: prod.splits option.splits if_splits)
  note step = this
  have "(case dropWhile isspace cursor of
        [] \<Rightarrow> (al, Inr ts)
      | c # cs \<Rightarrow>
          (case split_phrase_step al (c # cs) ts of
             (al, Inl status) \<Rightarrow> (al, Inl status)
           | (al, Inr tokens) \<Rightarrow> split_phrase_loop al (dropWhile (\<lambda>x. \<not> isspace x) (c # cs)) tokens)) = (al', Inl st)"
    using "1.prems" by (subst (asm) split_phrase_loop.simps)
  then show ?case
    using step "1.IH" by (auto split: list.splits prod.splits sum.splits simp del: dropWhile.simps)
qed

lemma phrase_token_ok: "phrase_token al span = (al', Inr (t, b)) \<Longrightarrow> token_ok t \<and> \<not> b \<and> \<not> boolean_kind (token_kind t)"
  by (auto simp: phrase_token_def evoke_split_phrase_def token_ok_def term_ok_def is_term_token_def boolean_kind_def
      split: prod.splits if_splits sum.splits dest!: split_loop_ok dest: split_loop_error)

lemma word_token_ok:
  assumes "word_token al w = (al', Inr (t, b))" and "list_all (\<lambda>c. \<not> isspace c) w"
  shows "token_ok t \<and> b = boolean_kind (token_kind t)"
proof -
  have "list_all (\<lambda>c. \<not> isspace c) (take n w)" for n
    using assms(2) by (auto simp: list_all_iff dest: in_set_takeD)
  moreover have "take (length w - 1) w \<noteq> []" if "w \<noteq> []" "\<not> (last w = 0x2A \<and> length w = 1)" "last w = 0x2A"
    using that by (cases w) auto
  ultimately show ?thesis
    using assms
    by (auto simp: word_token_def evoke_copy_span_def plain_token_def token_ok_def is_term_token_def term_ok_def
        word_ok_def boolean_kind_def EVOKE_QUERY_MAX_TOKENS_def Let_def split: prod.splits if_splits option.splits)
qed

lemma next_token_ok:
  assumes "next_token al c cs = (al', Inr (t, b), rest)"
  shows "token_ok t \<and> b = boolean_kind (token_kind t)"
proof -
  have "list_all (\<lambda>c. \<not> isspace c) (takeWhile word_char (c # cs))"
    by (auto simp: list_all_iff word_char_def dest: set_takeWhileD)
  note word = this
  show ?thesis
  proof (cases "c = 0x2B \<or> c = 0x2D \<or> c = 0x28 \<or> c = 0x29")
    case True
    then show ?thesis
      using assms by (auto simp: next_token_def plain_token_def token_ok_def is_term_token_def boolean_kind_def)
  next
    case plain: False
    show ?thesis
    proof (cases "c = 0x22")
      case True
      then show ?thesis
        using assms by (auto simp: next_token_def split: list.splits prod.splits dest!: phrase_token_ok)
    next
      case False
      then have "word_token al (takeWhile word_char (c # cs)) = (al', Inr (t, b))"
        using plain assms by (simp add: next_token_def del: takeWhile.simps dropWhile.simps split: prod.splits)
      then show ?thesis using word by (rule word_token_ok)
    qed
  qed
qed

lemma tokenize_loop_ok:
  assumes "tokenize_loop al cursor ts b = (al', Inr (us, b'))"
    and "list_all token_ok ts" and "length ts \<le> EVOKE_QUERY_MAX_TOKENS"
    and "b = list_ex (\<lambda>t. boolean_kind (token_kind t)) ts"
  shows "list_all token_ok us \<and> length us \<le> EVOKE_QUERY_MAX_TOKENS \<and>
    b' = list_ex (\<lambda>t. boolean_kind (token_kind t)) us"
  using assms
proof (induction al cursor ts b rule: tokenize_loop.induct)
  case (1 al cursor ts b)
  show ?case
  proof (cases "evoke_skip_space cursor")
    case Nil
    then show ?thesis using "1.prems"
      by (subst (asm) tokenize_loop.simps) (auto simp only: list.case prod.inject sum.inject)
  next
    case (Cons c cs)
    obtain al1 r rest where step: "next_token al c cs = (al1, r, rest)" by (metis prod_cases3)
    have eq: "(al', Inr (us, b')) =
        (case (al1, r, rest) of
           (al, Inl status, rest) \<Rightarrow> (al, Inl status)
         | (al, Inr (token, boolean), rest) \<Rightarrow>
             if length ts \<ge> EVOKE_QUERY_MAX_TOKENS then (al, Inl EVOKE_ERR_RANGE)
             else
               (case evoke_append_token al ts token of
                  (al, status, tokens) \<Rightarrow>
                    if status \<noteq> EVOKE_OK then (al, Inl status)
                    else tokenize_loop al rest tokens (b \<or> boolean)))"
      using "1.prems"(1) unfolding tokenize_loop.simps [of al cursor] Cons list.case step by simp
    obtain t tb where r: "r = Inr (t, tb)" using eq by (cases r) auto
    then have len: "\<not> EVOKE_QUERY_MAX_TOKENS \<le> length ts" using eq by auto
    obtain al2 where app: "evoke_append_token al1 ts t = (al2, EVOKE_OK, ts @ [t])"
      using eq r len by (auto simp: evoke_append_token_def Let_def split: prod.splits if_splits)
    have loop: "tokenize_loop al2 rest (ts @ [t]) (b \<or> tb) = (al', Inr (us, b'))"
      using eq r len app by simp
    note step = step [unfolded r]
    have "list_all token_ok (ts @ [t])" "length (ts @ [t]) \<le> EVOKE_QUERY_MAX_TOKENS"
      "(b \<or> tb) = list_ex (\<lambda>t. boolean_kind (token_kind t)) (ts @ [t])"
      using "1.prems" len next_token_ok [OF step] by simp_all
    note ok = this
    show ?thesis
      using "1.IH" [OF Cons step [symmetric] refl refl refl len app [symmetric] refl _ loop ok] by simp
  qed
qed

section \<open>Printing and parsing back\<close>

text \<open>
  Boolean expressions, and their tokens with parentheses only where precedence calls for them:
  OR binds weakest and AND stronger, both to the left, and NOT strongest. The level says what may
  stand there: 0 anything, 1 no bare OR, 2 neither a bare OR nor a bare AND.
\<close>

datatype qexp = QTerm evoke_query_token | QNot qexp | QAnd qexp qexp | QOr qexp qexp

abbreviation tok :: "evoke_query_token_kind \<Rightarrow> evoke_query_token" where
  "tok k \<equiv> plain_token k"

definition parens :: "bool \<Rightarrow> evoke_query_token list \<Rightarrow> evoke_query_token list" where
  "parens b ts = (if b then tok EVOKE_QUERY_TOKEN_LPAREN # ts @ [tok EVOKE_QUERY_TOKEN_RPAREN] else ts)"

fun print :: "nat \<Rightarrow> qexp \<Rightarrow> evoke_query_token list" where
  "print l (QTerm t) = [t]"
| "print l (QNot e) = tok EVOKE_QUERY_TOKEN_NOT # print 2 e"
| "print l (QAnd a b) = parens (l \<ge> 2) (print 1 a @ tok EVOKE_QUERY_TOKEN_AND # print 2 b)"
| "print l (QOr a b) = parens (l \<ge> 1) (print 0 a @ tok EVOKE_QUERY_TOKEN_OR # print 1 b)"

text \<open>The nesting the parser has to go through.\<close>

fun nesting :: "nat \<Rightarrow> qexp \<Rightarrow> nat" where
  "nesting l (QTerm t) = 0"
| "nesting l (QNot e) = Suc (nesting 2 e)"
| "nesting l (QAnd a b) = (if l \<ge> 2 then 1 else 0) + max (nesting 1 a) (nesting 2 b)"
| "nesting l (QOr a b) = (if l \<ge> 1 then 1 else 0) + max (nesting 0 a) (nesting 1 b)"

fun exp_tokens :: "qexp \<Rightarrow> evoke_query_token list" where
  "exp_tokens (QTerm t) = [t]"
| "exp_tokens (QNot e) = exp_tokens e"
| "exp_tokens (QAnd a b) = exp_tokens a @ exp_tokens b"
| "exp_tokens (QOr a b) = exp_tokens a @ exp_tokens b"

text \<open>The tree of an expression whose first term has the index \<open>i\<close>.\<close>

fun tree :: "nat \<Rightarrow> qexp \<Rightarrow> evoke_query_node" where
  "tree i (QTerm t) = Node EVOKE_QUERY_NODE_TERM i None None"
| "tree i (QNot e) = Node EVOKE_QUERY_NODE_NOT unset_index (Some (tree i e)) None"
| "tree i (QAnd a b) =
     Node EVOKE_QUERY_NODE_AND unset_index (Some (tree i a)) (Some (tree (i + length (exp_tokens a)) b))"
| "tree i (QOr a b) =
     Node EVOKE_QUERY_NODE_OR unset_index (Some (tree i a)) (Some (tree (i + length (exp_tokens a)) b))"

text \<open>More fuel changes no result.\<close>

lemma fuel_mono:
  "f \<le> g \<Longrightarrow> evoke_parse_boolean_or f p = Some x \<Longrightarrow> evoke_parse_boolean_or g p = Some x"
  "f \<le> g \<Longrightarrow> parse_or_loop f p n = Some x \<Longrightarrow> parse_or_loop g p n = Some x"
  "f \<le> g \<Longrightarrow> evoke_parse_boolean_and f p = Some x \<Longrightarrow> evoke_parse_boolean_and g p = Some x"
  "f \<le> g \<Longrightarrow> parse_and_loop f p n = Some x \<Longrightarrow> parse_and_loop g p n = Some x"
  "f \<le> g \<Longrightarrow> evoke_parse_boolean_unary f p = Some x \<Longrightarrow> evoke_parse_boolean_unary g p = Some x"
  "f \<le> g \<Longrightarrow> evoke_parse_boolean_primary f p = Some x \<Longrightarrow> evoke_parse_boolean_primary g p = Some x"
proof (induction f arbitrary: g p n x)
  case (Suc f)
  {
    case 1
    then obtain h where "g = Suc h" "f \<le> h" by (cases g) auto
    then show ?case using 1(2) Suc.IH(2,3) [of h] by (cases x) (auto split: option.splits sum.splits)
  next
    case 2
    then obtain h where "g = Suc h" "f \<le> h" by (cases g) auto
    then show ?case using 2(2) Suc.IH(2,3) [of h]
      by (cases x) (auto simp: Let_def split: option.splits sum.splits prod.splits if_splits)
  next
    case 3
    then obtain h where "g = Suc h" "f \<le> h" by (cases g) auto
    then show ?case using 3(2) Suc.IH(4,5) [of h] by (cases x) (auto split: option.splits sum.splits)
  next
    case 4
    then obtain h where "g = Suc h" "f \<le> h" by (cases g) auto
    then show ?case using 4(2) Suc.IH(4,5) [of h]
      by (cases x) (auto split: option.splits sum.splits prod.splits if_splits)
  next
    case 5
    then obtain h where "g = Suc h" "f \<le> h" by (cases g) auto
    then show ?case using 5(2) Suc.IH(5,6) [of h]
      by (cases x) (auto simp: Let_def split: option.splits sum.splits if_splits)
  next
    case 6
    then obtain h where "g = Suc h" "f \<le> h" by (cases g) auto
    then show ?case using 6(2) Suc.IH(1) [of h]
      by (cases x) (auto simp: Let_def split: option.splits sum.splits if_splits)
  }
qed simp_all

definition runs_or :: "evoke_query_parser \<Rightarrow> evoke_query_parser \<times> (ending + evoke_query_node) \<Rightarrow> bool" where
  "runs_or p x \<longleftrightarrow> (\<exists>f. evoke_parse_boolean_or f p = Some x)"

definition runs_or_loop ::
  "evoke_query_parser \<Rightarrow> evoke_query_node \<Rightarrow> evoke_query_parser \<times> (ending + evoke_query_node) \<Rightarrow> bool" where
  "runs_or_loop p n x \<longleftrightarrow> (\<exists>f. parse_or_loop f p n = Some x)"

definition runs_and :: "evoke_query_parser \<Rightarrow> evoke_query_parser \<times> (ending + evoke_query_node) \<Rightarrow> bool" where
  "runs_and p x \<longleftrightarrow> (\<exists>f. evoke_parse_boolean_and f p = Some x)"

definition runs_and_loop ::
  "evoke_query_parser \<Rightarrow> evoke_query_node \<Rightarrow> evoke_query_parser \<times> (ending + evoke_query_node) \<Rightarrow> bool" where
  "runs_and_loop p n x \<longleftrightarrow> (\<exists>f. parse_and_loop f p n = Some x)"

definition runs_unary :: "evoke_query_parser \<Rightarrow> evoke_query_parser \<times> (ending + evoke_query_node) \<Rightarrow> bool" where
  "runs_unary p x \<longleftrightarrow> (\<exists>f. evoke_parse_boolean_unary f p = Some x)"

lemma runs_or_start:
  assumes "runs_and p (q, Inr n)" and "runs_or_loop q n x"
  shows "runs_or p x"
proof -
  obtain f g where "evoke_parse_boolean_and f p = Some (q, Inr n)" "parse_or_loop g q n = Some x"
    using assms by (auto simp: runs_and_def runs_or_loop_def)
  then have "evoke_parse_boolean_or (Suc (max f g)) p = Some x"
    using fuel_mono(3) [of f "max f g" p] fuel_mono(2) [of g "max f g"] by simp
  then show ?thesis unfolding runs_or_def by blast
qed

lemma runs_and_start:
  assumes "runs_unary p (q, Inr n)" and "runs_and_loop q n x"
  shows "runs_and p x"
proof -
  obtain f g where "evoke_parse_boolean_unary f p = Some (q, Inr n)" "parse_and_loop g q n = Some x"
    using assms by (auto simp: runs_unary_def runs_and_loop_def)
  then have "evoke_parse_boolean_and (Suc (max f g)) p = Some x"
    using fuel_mono(5) [of f "max f g" p] fuel_mono(4) [of g "max f g"] by simp
  then show ?thesis unfolding runs_and_def by blast
qed

lemma runs_or_stop:
  assumes "token_kind (evoke_query_parser_peek p) = EVOKE_QUERY_TOKEN_RPAREN \<or>
    token_kind (evoke_query_parser_peek p) = EVOKE_QUERY_TOKEN_EOF"
  shows "runs_or_loop p n (p, Inr n)"
  unfolding runs_or_loop_def
  by (rule exI [of _ 1]) (use assms in \<open>auto simp: evoke_parser_token_can_start_unary_def\<close>)

lemma runs_and_stop:
  "token_kind (evoke_query_parser_peek p) \<noteq> EVOKE_QUERY_TOKEN_AND \<Longrightarrow> runs_and_loop p n (p, Inr n)"
  unfolding runs_and_loop_def by (rule exI [of _ 1]) simp

lemma node_in_binary [simp]:
  "ps_allocs q = [] \<Longrightarrow>
   node_in q (evoke_query_node_binary [] k (Some l) (Some r)) = (q, Inr (Node k unset_index (Some l) (Some r)))"
  by (simp add: node_in_def evoke_query_node_binary_def evoke_query_node_new_def)

lemma runs_or_turn:
  assumes "token_kind (evoke_query_parser_peek p) = EVOKE_QUERY_TOKEN_OR" and "ps_allocs q = []"
    and "runs_and (evoke_query_parser_consume p) (q, Inr r)"
    and "runs_or_loop q (Node EVOKE_QUERY_NODE_OR unset_index (Some n) (Some r)) x"
  shows "runs_or_loop p n x"
proof -
  obtain f g where "evoke_parse_boolean_and f (evoke_query_parser_consume p) = Some (q, Inr r)"
    "parse_or_loop g q (Node EVOKE_QUERY_NODE_OR unset_index (Some n) (Some r)) = Some x"
    using assms(3,4) by (auto simp: runs_and_def runs_or_loop_def)
  then have "parse_or_loop (Suc (max f g)) p n = Some x"
    using fuel_mono(3) [of f "max f g"] fuel_mono(2) [of g "max f g"] assms(1,2) by simp
  then show ?thesis unfolding runs_or_loop_def by blast
qed

lemma runs_and_turn:
  assumes "token_kind (evoke_query_parser_peek p) = EVOKE_QUERY_TOKEN_AND" and "ps_allocs q = []"
    and "runs_unary (evoke_query_parser_consume p) (q, Inr r)"
    and "runs_and_loop q (Node EVOKE_QUERY_NODE_AND unset_index (Some n) (Some r)) x"
  shows "runs_and_loop p n x"
proof -
  obtain f g where "evoke_parse_boolean_unary f (evoke_query_parser_consume p) = Some (q, Inr r)"
    "parse_and_loop g q (Node EVOKE_QUERY_NODE_AND unset_index (Some n) (Some r)) = Some x"
    using assms(3,4) by (auto simp: runs_unary_def runs_and_loop_def)
  then have "parse_and_loop (Suc (max f g)) p n = Some x"
    using fuel_mono(5) [of f "max f g"] fuel_mono(4) [of g "max f g"] assms(1,2) by simp
  then show ?thesis unfolding runs_and_loop_def by blast
qed

lemma runs_not:
  assumes "token_kind (evoke_query_parser_peek p) = EVOKE_QUERY_TOKEN_NOT"
    and "ps_depth p < EVOKE_QUERY_MAX_NESTING" and "ps_allocs q = []"
    and "runs_unary ((evoke_query_parser_consume p)\<lparr>ps_depth := ps_depth p + 1\<rparr>) (q, Inr c)"
  shows "runs_unary p (q\<lparr>ps_depth := ps_depth q - 1\<rparr>, Inr (Node EVOKE_QUERY_NODE_NOT unset_index (Some c) None))"
proof -
  obtain f where "evoke_parse_boolean_unary f ((evoke_query_parser_consume p)\<lparr>ps_depth := ps_depth p + 1\<rparr>) = Some (q, Inr c)"
    using assms(4) by (auto simp: runs_unary_def)
  then have "evoke_parse_boolean_unary (Suc f) p
      = Some (q\<lparr>ps_depth := ps_depth q - 1\<rparr>, Inr (Node EVOKE_QUERY_NODE_NOT unset_index (Some c) None))"
    using assms(1-3) by (simp add: node_in_def evoke_query_node_unary_def evoke_query_node_new_def)
  then show ?thesis unfolding runs_unary_def by blast
qed

lemma runs_parens:
  assumes "token_kind (evoke_query_parser_peek p) = EVOKE_QUERY_TOKEN_LPAREN"
    and "ps_depth p < EVOKE_QUERY_MAX_NESTING"
    and "runs_or ((evoke_query_parser_consume p)\<lparr>ps_depth := ps_depth p + 1\<rparr>) (q, Inr n)"
    and "token_kind (evoke_query_parser_peek (q\<lparr>ps_depth := ps_depth q - 1\<rparr>)) = EVOKE_QUERY_TOKEN_RPAREN"
  shows "runs_unary p (evoke_query_parser_consume (q\<lparr>ps_depth := ps_depth q - 1\<rparr>), Inr n)"
proof -
  obtain f where "evoke_parse_boolean_or f ((evoke_query_parser_consume p)\<lparr>ps_depth := ps_depth p + 1\<rparr>) = Some (q, Inr n)"
    using assms(3) by (auto simp: runs_or_def)
  then have "evoke_parse_boolean_unary (Suc (Suc f)) p
      = Some (evoke_query_parser_consume (q\<lparr>ps_depth := ps_depth q - 1\<rparr>), Inr n)"
    using assms(1,2,4) by simp
  then show ?thesis unfolding runs_unary_def by blast
qed

lemma clone_tokens_Nil [simp]: "clone_tokens [] ts = ([], Inr ts)"
  by (induction ts) simp_all

lemma append_term_Nil [simp]:
  "evoke_append_term [] q t = ([], Status EVOKE_OK, q\<lparr>query_terms := query_terms q @ [t]\<rparr>, length (query_terms q))"
  by (simp add: evoke_append_term_def evoke_query_term_clone_def)

lemma runs_term:
  assumes "is_term_token (evoke_query_parser_peek p)" and "ps_allocs p = []"
  shows "runs_unary p
    (p\<lparr>ps_pos := Suc (ps_pos p), ps_query := (ps_query p)\<lparr>query_terms :=
         query_terms (ps_query p) @ [token_term (evoke_query_parser_peek p)]\<rparr>\<rparr>,
     Inr (Node EVOKE_QUERY_NODE_TERM (length (query_terms (ps_query p))) None None))"
proof -
  have "ps_pos p < length (ps_tokens p)"
    using assms(1) by (intro peek_not_eof) (auto simp: is_term_token_def)
  then show ?thesis
    unfolding runs_unary_def using assms
    by (intro exI [of _ "Suc (Suc 0)"])
      (auto simp: is_term_token_def evoke_parse_boolean_term_def evoke_query_node_term_def evoke_query_node_new_def
        evoke_query_parser_consume_def)
qed

text \<open>The parser at the start of a printed expression, and where it is behind it.\<close>

definition stands_at :: "evoke_query_parser \<Rightarrow> nat \<Rightarrow> qexp \<Rightarrow> evoke_query_token list \<Rightarrow> bool" where
  "stands_at p l e rest \<longleftrightarrow> ps_allocs p = [] \<and> drop (ps_pos p) (ps_tokens p) = print l e @ rest \<and>
     ps_depth p + nesting l e \<le> EVOKE_QUERY_MAX_NESTING \<and> list_all is_term_token (exp_tokens e)"

definition past :: "evoke_query_parser \<Rightarrow> nat \<Rightarrow> qexp \<Rightarrow> evoke_query_parser" where
  "past p l e = p\<lparr>ps_pos := ps_pos p + length (print l e),
     ps_query := (ps_query p)\<lparr>query_terms := query_terms (ps_query p) @ map token_term (exp_tokens e)\<rparr>\<rparr>"

abbreviation tree_at :: "evoke_query_parser \<Rightarrow> qexp \<Rightarrow> evoke_query_node" where
  "tree_at p e \<equiv> tree (length (query_terms (ps_query p))) e"

lemma peek_drop: "drop (ps_pos p) (ps_tokens p) = t # ts \<Longrightarrow> evoke_query_parser_peek p = t"
proof -
  assume h: "drop (ps_pos p) (ps_tokens p) = t # ts"
  then have "ps_pos p < length (ps_tokens p)" by (metis drop_eq_Nil2 list.distinct(1) not_le)
  then show ?thesis using h by (simp add: peek_token Cons_nth_drop_Suc [symmetric])
qed

lemma consume_drop:
  "drop (ps_pos p) (ps_tokens p) = t # ts \<Longrightarrow>
   evoke_query_parser_consume p = p\<lparr>ps_pos := Suc (ps_pos p)\<rparr> \<and> drop (Suc (ps_pos p)) (ps_tokens p) = ts"
proof -
  assume h: "drop (ps_pos p) (ps_tokens p) = t # ts"
  then have "ps_pos p < length (ps_tokens p)" by (metis drop_eq_Nil2 list.distinct(1) not_le)
  then show ?thesis using h by (simp add: evoke_query_parser_consume_def Cons_nth_drop_Suc [symmetric])
qed

lemma past_drop: "stands_at p l e rest \<Longrightarrow> drop (ps_pos (past p l e)) (ps_tokens (past p l e)) = rest"
proof -
  assume "stands_at p l e rest"
  then have "drop (length (print l e)) (drop (ps_pos p) (ps_tokens p)) = rest" by (simp add: stands_at_def)
  then show ?thesis by (simp add: past_def add.commute)
qed

lemma past_simps [simp]:
  "ps_allocs (past p l e) = ps_allocs p" "ps_depth (past p l e) = ps_depth p" "ps_tokens (past p l e) = ps_tokens p"
  "ps_pos (past p l e) = ps_pos p + length (print l e)"
  "query_terms (ps_query (past p l e)) = query_terms (ps_query p) @ map token_term (exp_tokens e)"
  by (simp_all add: past_def)

definition reads_unary :: "qexp \<Rightarrow> bool" where
  "reads_unary e \<longleftrightarrow> (\<forall>p rest. stands_at p 2 e rest \<longrightarrow> runs_unary p (past p 2 e, Inr (tree_at p e)))"

definition reads_and :: "qexp \<Rightarrow> bool" where
  "reads_and e \<longleftrightarrow> (\<forall>p rest x. stands_at p 1 e rest \<longrightarrow>
     runs_and_loop (past p 1 e) (tree_at p e) x \<longrightarrow> runs_and p x)"

definition reads_or :: "qexp \<Rightarrow> bool" where
  "reads_or e \<longleftrightarrow> (\<forall>p rest x. stands_at p 0 e rest \<longrightarrow>
     token_kind (evoke_query_parser_peek (past p 0 e)) \<noteq> EVOKE_QUERY_TOKEN_AND \<longrightarrow>
     runs_or_loop (past p 0 e) (tree_at p e) x \<longrightarrow> runs_or p x)"

lemma and_of_unary:
  assumes "reads_unary e" and "print 1 e = print 2 e" and "nesting 1 e = nesting 2 e"
  shows "reads_and e"
proof -
  have "stands_at p 1 e rest = stands_at p 2 e rest" "past p 1 e = past p 2 e" for p rest
    using assms(2,3) by (simp_all add: stands_at_def past_def)
  then show ?thesis using assms(1) runs_and_start unfolding reads_and_def reads_unary_def by metis
qed

lemma or_of_and:
  assumes "reads_and e" and "print 0 e = print 1 e" and "nesting 0 e = nesting 1 e"
  shows "reads_or e"
proof -
  have "stands_at p 0 e rest = stands_at p 1 e rest" "past p 0 e = past p 1 e" for p rest
    using assms(2,3) by (simp_all add: stands_at_def past_def)
  then show ?thesis
    using assms(1) runs_or_start runs_and_stop unfolding reads_and_def reads_or_def by metis
qed

lemma unary_of_or:
  assumes "reads_or e" and "print 2 e = parens True (print 0 e)" and "nesting 2 e = Suc (nesting 0 e)"
  shows "reads_unary e"
  unfolding reads_unary_def
proof (intro allI impI)
  fix p rest assume at: "stands_at p 2 e rest"
  let ?p1 = "(evoke_query_parser_consume p)\<lparr>ps_depth := ps_depth p + 1\<rparr>"
  let ?q = "past ?p1 0 e"
  have d: "drop (ps_pos p) (ps_tokens p) = tok EVOKE_QUERY_TOKEN_LPAREN # print 0 e @ tok EVOKE_QUERY_TOKEN_RPAREN # rest"
    using at assms(2) by (simp add: stands_at_def parens_def)
  note c = consume_drop [OF d]
  have at1: "stands_at ?p1 0 e (tok EVOKE_QUERY_TOKEN_RPAREN # rest)"
    using at c assms(3) by (simp add: stands_at_def)
  have q: "drop (ps_pos ?q) (ps_tokens ?q) = tok EVOKE_QUERY_TOKEN_RPAREN # rest" by (rule past_drop [OF at1])
  have k: "token_kind (evoke_query_parser_peek ?q) = EVOKE_QUERY_TOKEN_RPAREN"
    using peek_drop [OF q] by (simp add: plain_token_def)
  have "runs_or ?p1 (?q, Inr (tree_at ?p1 e))"
    using k runs_or_stop [of ?q] by (intro assms(1) [unfolded reads_or_def, rule_format, OF at1]) simp_all
  then have run: "runs_or ?p1 (?q, Inr (tree_at p e))" using c by simp
  have q': "drop (ps_pos (?q\<lparr>ps_depth := ps_depth ?q - 1\<rparr>)) (ps_tokens (?q\<lparr>ps_depth := ps_depth ?q - 1\<rparr>))
      = tok EVOKE_QUERY_TOKEN_RPAREN # rest" using q by simp
  have "runs_unary p (evoke_query_parser_consume (?q\<lparr>ps_depth := ps_depth ?q - 1\<rparr>), Inr (tree_at p e))"
    using peek_drop [OF d] run peek_drop [OF q'] at assms(3)
    by (intro runs_parens) (simp_all add: plain_token_def stands_at_def)
  moreover have "evoke_query_parser_consume (?q\<lparr>ps_depth := ps_depth ?q - 1\<rparr>) = past p 2 e"
    using consume_drop [OF q'] c assms(2) by (simp add: past_def parens_def)
  ultimately show "runs_unary p (past p 2 e, Inr (tree_at p e))" by simp
qed

lemma reads_term: "reads_unary (QTerm t)"
  unfolding reads_unary_def
proof (intro allI impI)
  fix p rest assume at: "stands_at p 2 (QTerm t) rest"
  then have "evoke_query_parser_peek p = t" by (intro peek_drop) (simp add: stands_at_def)
  then show "runs_unary p (past p 2 (QTerm t), Inr (tree_at p (QTerm t)))"
    using runs_term [of p] at by (simp add: stands_at_def past_def)
qed

lemma reads_not:
  assumes "reads_unary e"
  shows "reads_unary (QNot e)"
  unfolding reads_unary_def
proof (intro allI impI)
  fix p rest assume at: "stands_at p 2 (QNot e) rest"
  let ?p1 = "(evoke_query_parser_consume p)\<lparr>ps_depth := ps_depth p + 1\<rparr>"
  have d: "drop (ps_pos p) (ps_tokens p) = tok EVOKE_QUERY_TOKEN_NOT # print 2 e @ rest"
    using at by (simp add: stands_at_def)
  note c = consume_drop [OF d]
  have at1: "stands_at ?p1 2 e rest" using at c by (simp add: stands_at_def nat_add_max_right)
  have "runs_unary ?p1 (past ?p1 2 e, Inr (tree_at p e))"
    using assms at1 c unfolding reads_unary_def by fastforce
  then have "runs_unary p ((past ?p1 2 e)\<lparr>ps_depth := ps_depth (past ?p1 2 e) - 1\<rparr>,
      Inr (Node EVOKE_QUERY_NODE_NOT unset_index (Some (tree_at p e)) None))"
    using peek_drop [OF d] at by (intro runs_not) (simp_all add: plain_token_def stands_at_def)
  moreover have "(past ?p1 2 e)\<lparr>ps_depth := ps_depth (past ?p1 2 e) - 1\<rparr> = past p 2 (QNot e)"
    using c by (simp add: past_def)
  ultimately show "runs_unary p (past p 2 (QNot e), Inr (tree_at p (QNot e)))" by simp
qed

lemma reads_conj:
  assumes "reads_and a" and "reads_unary b"
  shows "reads_and (QAnd a b)"
  unfolding reads_and_def
proof (intro allI impI)
  fix p rest x assume at: "stands_at p 1 (QAnd a b) rest"
    and loop: "runs_and_loop (past p 1 (QAnd a b)) (tree_at p (QAnd a b)) x"
  let ?pa = "past p 1 a" and ?R = "tok EVOKE_QUERY_TOKEN_AND # print 2 b @ rest"
  have at1: "stands_at p 1 a ?R" using at by (simp add: stands_at_def parens_def nat_add_max_right)
  have d: "drop (ps_pos ?pa) (ps_tokens ?pa) = ?R" by (rule past_drop [OF at1])
  note c = consume_drop [OF d]
  let ?p1 = "evoke_query_parser_consume ?pa"
  have at2: "stands_at ?p1 2 b rest" using at c by (simp add: stands_at_def nat_add_max_right)
  have "past ?p1 2 b = past p 1 (QAnd a b)" using c by (simp add: past_def parens_def)
  moreover have "runs_unary ?p1 (past ?p1 2 b, Inr (tree_at ?p1 b))"
    using assms(2) at2 unfolding reads_unary_def by blast
  ultimately have "runs_and_loop ?pa (tree_at p a) x"
    using loop at peek_drop [OF d]
    by (intro runs_and_turn [of ?pa "past ?p1 2 b" "tree_at ?p1 b"]) (simp_all add: plain_token_def stands_at_def)
  then show "runs_and p x" using assms(1) at1 unfolding reads_and_def by blast
qed

lemma reads_disj:
  assumes "reads_or a" and "reads_and b"
  shows "reads_or (QOr a b)"
  unfolding reads_or_def
proof (intro allI impI)
  fix p rest x assume at: "stands_at p 0 (QOr a b) rest"
    and next_kind: "token_kind (evoke_query_parser_peek (past p 0 (QOr a b))) \<noteq> EVOKE_QUERY_TOKEN_AND"
    and loop: "runs_or_loop (past p 0 (QOr a b)) (tree_at p (QOr a b)) x"
  let ?pa = "past p 0 a" and ?R = "tok EVOKE_QUERY_TOKEN_OR # print 1 b @ rest"
  have at1: "stands_at p 0 a ?R" using at by (simp add: stands_at_def parens_def nat_add_max_right)
  have d: "drop (ps_pos ?pa) (ps_tokens ?pa) = ?R" by (rule past_drop [OF at1])
  note c = consume_drop [OF d]
  let ?p1 = "evoke_query_parser_consume ?pa"
  have at2: "stands_at ?p1 1 b rest" using at c by (simp add: stands_at_def nat_add_max_right)
  have same: "past ?p1 1 b = past p 0 (QOr a b)" using c by (simp add: past_def parens_def)
  then have "runs_and ?p1 (past ?p1 1 b, Inr (tree_at ?p1 b))"
    using assms(2) at2 runs_and_stop next_kind unfolding reads_and_def by metis
  then have "runs_or_loop ?pa (tree_at p a) x"
    using same loop at peek_drop [OF d]
    by (intro runs_or_turn [of ?pa "past ?p1 1 b" "tree_at ?p1 b"]) (simp_all add: plain_token_def stands_at_def)
  moreover have "token_kind (evoke_query_parser_peek ?pa) \<noteq> EVOKE_QUERY_TOKEN_AND"
    using peek_drop [OF d] by (simp add: plain_token_def)
  ultimately show "runs_or p x" using assms(1) at1 unfolding reads_or_def by blast
qed

lemma reads_all: "reads_unary e \<and> reads_and e \<and> reads_or e"
proof (induction e)
  case (QTerm t)
  then show ?case using reads_term and_of_unary or_of_and by simp
next
  case (QNot e)
  then show ?case using reads_not and_of_unary or_of_and by simp
next
  case (QAnd a b)
  then have conj: "reads_and (QAnd a b)" by (intro reads_conj) simp_all
  then have disj: "reads_or (QAnd a b)" by (rule or_of_and) (simp_all add: parens_def)
  then have "reads_unary (QAnd a b)" by (rule unary_of_or) (simp_all add: parens_def)
  with conj disj show ?case by simp
next
  case (QOr a b)
  then have disj: "reads_or (QOr a b)" by (intro reads_disj) simp_all
  then have un: "reads_unary (QOr a b)" by (rule unary_of_or) (simp_all add: parens_def)
  then have "reads_and (QOr a b)" by (rule and_of_unary) (simp_all add: parens_def)
  with un disj show ?case by simp
qed

text \<open>
  C19. Every boolean expression over term tokens, printed with no more parentheses than needed and
  nested no deeper than the limit, is read back by the boolean parser as the very same tree, with
  its terms numbered from left to right: OR binds weakest, AND stronger, NOT strongest, and OR
  and AND group to the left.
\<close>

theorem parse_print_roundtrip:
  assumes "list_all is_term_token (exp_tokens e)" and "nesting 0 e \<le> EVOKE_QUERY_MAX_NESTING"
  shows "evoke_parse_boolean_tokens [] (print 0 e) out = Some ([], Status EVOKE_OK,
    \<lparr>query_mode = EVOKE_QUERY_MODE_BOOLEAN_AST, query_terms = map token_term (exp_tokens e),
     query_root = Some (tree 0 e)\<rparr>)"
proof -
  let ?ts = "print 0 e"
  let ?p = "\<lparr>ps_tokens = ?ts, ps_pos = 0, ps_depth = 0,
      ps_query = zero_query\<lparr>query_mode := EVOKE_QUERY_MODE_BOOLEAN_AST\<rparr>, ps_allocs = []\<rparr>"
  have at: "stands_at ?p 0 e []" using assms by (simp add: stands_at_def)
  have eof: "token_kind (evoke_query_parser_peek (past ?p 0 e)) = EVOKE_QUERY_TOKEN_EOF"
    by (simp add: evoke_query_parser_peek_def plain_token_def)
  have reads: "reads_or e" using reads_all by blast
  have "runs_or ?p (past ?p 0 e, Inr (tree_at ?p e))"
    using eof runs_or_stop [of "past ?p 0 e"] by (intro reads [unfolded reads_or_def, rule_format, OF at]) simp_all
  then obtain f where f: "evoke_parse_boolean_or f ?p = Some (past ?p 0 e, Inr (tree 0 e))"
    by (auto simp: runs_or_def zero_query_def)
  let ?fuel = "parse_fuel (length ?ts)"
  obtain x where x: "evoke_parse_boolean_or ?fuel ?p = Some x"
    using enough_fuel(1) [of ?p ?fuel] by (auto simp: tokens_left_def parse_fuel_def)
  have "x = (past ?p 0 e, Inr (tree 0 e))"
    using fuel_mono(1) [of f "max f ?fuel" ?p] fuel_mono(1) [of ?fuel "max f ?fuel" ?p] f x by simp
  then show ?thesis
    using x by (simp add: evoke_parse_boolean_tokens_def past_def zero_query_def)
qed

text \<open>\<open>a OR b AND NOT (c OR d)\<close>, over single-letter terms.\<close>

definition sample_term :: "u8 \<Rightarrow> evoke_query_token" where
  "sample_term c = \<lparr>token_kind = EVOKE_QUERY_TOKEN_TERM,
     token_term = \<lparr>term_kind = EVOKE_QUERY_TERM, term_occur = EVOKE_QUERY_SHOULD, term_tokens = [[c]]\<rparr>\<rparr>"

definition sample_exp :: qexp where
  "sample_exp = QOr (QTerm (sample_term 0x61)) (QAnd (QTerm (sample_term 0x62))
     (QNot (QOr (QTerm (sample_term 0x63)) (QTerm (sample_term 0x64)))))"

theorem parse_print_roundtrip_witness:
  "print 0 sample_exp =
     [sample_term 0x61, tok EVOKE_QUERY_TOKEN_OR, sample_term 0x62, tok EVOKE_QUERY_TOKEN_AND,
      tok EVOKE_QUERY_TOKEN_NOT, tok EVOKE_QUERY_TOKEN_LPAREN, sample_term 0x63, tok EVOKE_QUERY_TOKEN_OR,
      sample_term 0x64, tok EVOKE_QUERY_TOKEN_RPAREN] \<and>
   (\<exists>q. evoke_parse_boolean_tokens [] (print 0 sample_exp) zero_query = Some ([], Status EVOKE_OK, q) \<and>
     query_root q = Some (tree 0 sample_exp) \<and> leaves (query_root q) = [0, 1, 2, 3])"
proof -
  have "list_all is_term_token (exp_tokens sample_exp)" "nesting 0 sample_exp \<le> EVOKE_QUERY_MAX_NESTING"
    by (simp_all add: sample_exp_def sample_term_def is_term_token_def EVOKE_QUERY_MAX_NESTING_def)
  from parse_print_roundtrip [OF this, of zero_query] show ?thesis
    by (simp add: sample_exp_def parens_def)
qed

end
