(* ===== verification/Query_Meaning.thy ===== *)
theory Query_Meaning
  imports Query_Parser
begin

text \<open>
  What a parsed query means: the value of its tree under an assignment of truth values to its
  terms. The classic parser builds the tree of required, excluded and optional terms; rewriting
  drops the terms that an index does not know; a simple query is a plain disjunction. Parsing
  always ends, and what it accepts is well formed, whichever allocations fail.
\<close>

section \<open>Values\<close>

fun eval_node :: "(nat \<Rightarrow> bool) \<Rightarrow> evoke_query_node option \<Rightarrow> bool" where
  "eval_node v None = False"
| "eval_node v (Some (Node k i l r)) =
     (case k of
        EVOKE_QUERY_NODE_TERM \<Rightarrow> v i
      | EVOKE_QUERY_NODE_NOT \<Rightarrow> \<not> eval_node v l
      | EVOKE_QUERY_NODE_AND \<Rightarrow> eval_node v l \<and> eval_node v r
      | EVOKE_QUERY_NODE_OR \<Rightarrow> eval_node v l \<or> eval_node v r)"

text \<open>A missing conjunction is true.\<close>

definition all_of :: "(nat \<Rightarrow> bool) \<Rightarrow> evoke_query_node option \<Rightarrow> bool" where
  "all_of v n \<longleftrightarrow> n = None \<or> eval_node v n"

section \<open>The classic root\<close>

lemma node_new_Nil [simp]: "evoke_query_node_new [] k = ([], Some (Node k unset_index None None))"
  by (simp add: evoke_query_node_new_def)

lemma node_term_Nil [simp]: "evoke_query_node_term [] i = ([], Some (Node EVOKE_QUERY_NODE_TERM i None None))"
  by (simp add: evoke_query_node_term_def)

lemma node_unary_Nil [simp]: "evoke_query_node_unary [] k (Some c) = ([], Some (Node k unset_index (Some c) None))"
  by (simp add: evoke_query_node_unary_def)

lemma node_binary_Nil:
  "evoke_query_node_binary [] k n (Some m) =
     ([], Some (case n of None \<Rightarrow> m | Some l \<Rightarrow> Node k unset_index (Some l) (Some m)))"
  by (simp add: evoke_query_node_binary_def split: option.split)

definition joined :: "evoke_query_node_kind \<Rightarrow> evoke_query_node option \<Rightarrow> evoke_query_node \<Rightarrow> evoke_query_node option" where
  "joined k n m = Some (case n of None \<Rightarrow> m | Some l \<Rightarrow> Node k unset_index (Some l) (Some m))"

lemma joined_not_None [simp]: "joined k n m \<noteq> None"
  by (simp add: joined_def)

lemma joined_value:
  "all_of v (joined EVOKE_QUERY_NODE_AND n m) \<longleftrightarrow> all_of v n \<and> eval_node v (Some m)"
  "eval_node v (joined EVOKE_QUERY_NODE_OR n m) \<longleftrightarrow> eval_node v n \<or> eval_node v (Some m)"
  by (auto simp: all_of_def joined_def split: option.splits)

lemma ball_less_Suc: "(\<forall>j < Suc n. P j) \<longleftrightarrow> P 0 \<and> (\<forall>j < n. P (Suc j))"
  using less_Suc_eq_0_disj by auto

lemma bex_less_Suc: "(\<exists>j < Suc n. P j) \<longleftrightarrow> P 0 \<or> (\<exists>j < n. P (Suc j))"
  using less_Suc_eq_0_disj by auto

lemma classic_loop_value:
  "\<exists>roots'. classic_root_loop [] i ts roots = ([], Some roots') \<and>
     (must_root roots' = None \<longleftrightarrow> must_root roots = None \<and> (\<forall>j < length ts. term_occur (ts ! j) \<noteq> EVOKE_QUERY_MUST)) \<and>
     (should_root roots' = None \<longleftrightarrow> should_root roots = None \<and> (\<forall>j < length ts. term_occur (ts ! j) \<noteq> EVOKE_QUERY_SHOULD)) \<and>
     (negative_root roots' = None \<longleftrightarrow>
        negative_root roots = None \<and> (\<forall>j < length ts. term_occur (ts ! j) \<noteq> EVOKE_QUERY_MUST_NOT)) \<and>
     (\<forall>v. all_of v (must_root roots') \<longleftrightarrow>
        all_of v (must_root roots) \<and> (\<forall>j < length ts. term_occur (ts ! j) = EVOKE_QUERY_MUST \<longrightarrow> v (i + j))) \<and>
     (\<forall>v. eval_node v (should_root roots') \<longleftrightarrow>
        eval_node v (should_root roots) \<or> (\<exists>j < length ts. term_occur (ts ! j) = EVOKE_QUERY_SHOULD \<and> v (i + j))) \<and>
     (\<forall>v. all_of v (negative_root roots') \<longleftrightarrow>
        all_of v (negative_root roots) \<and> (\<forall>j < length ts. term_occur (ts ! j) = EVOKE_QUERY_MUST_NOT \<longrightarrow> \<not> v (i + j)))"
proof (induction ts arbitrary: i roots)
  case (Cons t ts)
  show ?case
  proof (cases "term_occur t")
    case EVOKE_QUERY_MUST
    let ?roots = "roots\<lparr>must_root := joined EVOKE_QUERY_NODE_AND (must_root roots) (Node EVOKE_QUERY_NODE_TERM i None None)\<rparr>"
    have "classic_root_loop [] i (t # ts) roots = classic_root_loop [] (Suc i) ts ?roots"
      using EVOKE_QUERY_MUST by (simp add: node_binary_Nil joined_def)
    with Cons [of "Suc i" ?roots] show ?thesis
      using EVOKE_QUERY_MUST by (auto simp: ball_less_Suc bex_less_Suc joined_value)
  next
    case EVOKE_QUERY_MUST_NOT
    let ?neg = "Node EVOKE_QUERY_NODE_NOT unset_index (Some (Node EVOKE_QUERY_NODE_TERM i None None)) None"
    let ?roots = "roots\<lparr>negative_root := joined EVOKE_QUERY_NODE_AND (negative_root roots) ?neg\<rparr>"
    have "classic_root_loop [] i (t # ts) roots = classic_root_loop [] (Suc i) ts ?roots"
      using EVOKE_QUERY_MUST_NOT by (simp add: node_binary_Nil joined_def)
    with Cons [of "Suc i" ?roots] show ?thesis
      using EVOKE_QUERY_MUST_NOT by (auto simp: ball_less_Suc bex_less_Suc joined_value)
  next
    case EVOKE_QUERY_SHOULD
    let ?roots = "roots\<lparr>should_root := joined EVOKE_QUERY_NODE_OR (should_root roots) (Node EVOKE_QUERY_NODE_TERM i None None)\<rparr>"
    have "classic_root_loop [] i (t # ts) roots = classic_root_loop [] (Suc i) ts ?roots"
      using EVOKE_QUERY_SHOULD by (simp add: node_binary_Nil joined_def)
    with Cons [of "Suc i" ?roots] show ?thesis
      using EVOKE_QUERY_SHOULD by (auto simp: ball_less_Suc bex_less_Suc joined_value)
  qed
qed simp

section \<open>The classic parser\<close>

text \<open>The sign in front of a term is the token before it.\<close>

definition occur_at :: "evoke_query_token list \<Rightarrow> nat \<Rightarrow> evoke_query_occur" where
  "occur_at ts i =
     (if i = 0 then EVOKE_QUERY_SHOULD
      else if token_kind (ts ! (i - 1)) = EVOKE_QUERY_TOKEN_PLUS then EVOKE_QUERY_MUST
      else if token_kind (ts ! (i - 1)) = EVOKE_QUERY_TOKEN_MINUS then EVOKE_QUERY_MUST_NOT
      else EVOKE_QUERY_SHOULD)"

definition signed_terms :: "evoke_query_token list \<Rightarrow> nat \<Rightarrow> evoke_query_term list" where
  "signed_terms ts i =
     map (\<lambda>j. (token_term (ts ! j))\<lparr>term_occur := occur_at ts j\<rparr>)
       (filter (\<lambda>j. is_term_token (ts ! j)) [i..<length ts])"

definition classic_token :: "evoke_query_token \<Rightarrow> bool" where
  "classic_token t \<longleftrightarrow> is_term_token t \<or> token_kind t = EVOKE_QUERY_TOKEN_PLUS \<or> token_kind t = EVOKE_QUERY_TOKEN_MINUS"

lemma classic_loop_reads:
  assumes "i \<le> length ts" and "list_all classic_token (drop i ts)"
  shows "classic_loop [] (drop i ts) (occur_at ts i) e q =
    ([], Inr (q\<lparr>query_terms := query_terms q @ signed_terms ts i\<rparr>,
              if i = length ts then e else \<not> is_term_token (last ts)))"
  using assms
proof (induction "length ts - i" arbitrary: i e q)
  case 0
  then show ?case by (simp add: signed_terms_def)
next
  case (Suc n)
  let ?t = "ts ! i"
  have i: "i < length ts" using Suc.hyps(2) by simp
  then have drop: "drop i ts = ?t # drop (Suc i) ts" by (simp add: Cons_nth_drop_Suc)
  have upt: "[i..<length ts] = i # [Suc i..<length ts]" using i by (rule upt_conv_Cons)
  have ok: "classic_token ?t" "list_all classic_token (drop (Suc i) ts)" using Suc.prems(2) drop by simp_all
  have last: "last ts = ?t" if "Suc i = length ts"
    using that i by (metis diff_Suc_1 last_conv_nth list.size(3) not_less_zero)
  note IH = Suc.hyps(1) [of "Suc i"]
  consider (sign) "\<not> is_term_token ?t" "token_kind ?t = EVOKE_QUERY_TOKEN_PLUS \<or> token_kind ?t = EVOKE_QUERY_TOKEN_MINUS"
    | (trm) "is_term_token ?t" using ok(1) by (auto simp: classic_token_def)
  then show ?case
  proof cases
    case sign
    have "classic_loop [] (drop i ts) (occur_at ts i) e q = classic_loop [] (drop (Suc i) ts) (occur_at ts (Suc i)) True q"
      unfolding drop using sign by (auto simp: occur_at_def)
    also have "\<dots> = ([], Inr (q\<lparr>query_terms := query_terms q @ signed_terms ts (Suc i)\<rparr>, \<not> is_term_token (last ts)))"
      using IH [of True q] Suc.hyps(2) i ok(2) last sign(1) by simp
    finally show ?thesis using i sign(1) by (simp add: signed_terms_def upt)
  next
    case trm
    let ?q = "q\<lparr>query_terms := query_terms q @ [(token_term ?t)\<lparr>term_occur := occur_at ts i\<rparr>]\<rparr>"
    have "classic_loop [] (drop i ts) (occur_at ts i) e q = classic_loop [] (drop (Suc i) ts) (occur_at ts (Suc i)) False ?q"
      unfolding drop using trm by (auto simp: occur_at_def is_term_token_def)
    also have "\<dots> = ([], Inr (?q\<lparr>query_terms := query_terms ?q @ signed_terms ts (Suc i)\<rparr>, \<not> is_term_token (last ts)))"
      using IH [of False ?q] Suc.hyps(2) i ok(2) last trm by simp
    finally show ?thesis using i trm by (simp add: signed_terms_def upt)
  qed
qed

lemma classic_loop_refuses:
  "\<not> list_all classic_token ts \<Longrightarrow> classic_loop [] ts oc e q = ([], Inl (Status EVOKE_ERR_INVALID))"
  by (induction "[] :: allocs" ts oc e q rule: classic_loop.induct)
    (auto simp: classic_token_def is_term_token_def)

definition classic_accepts :: "evoke_query_token list \<Rightarrow> bool" where
  "classic_accepts ts \<longleftrightarrow> list_all classic_token ts \<and> (ts = [] \<or> is_term_token (last ts))"

text \<open>What a list of classic terms asks of the terms that match.\<close>

definition having :: "evoke_query_term list \<Rightarrow> evoke_query_occur \<Rightarrow> nat set" where
  "having terms oc = {i. i < length terms \<and> term_occur (terms ! i) = oc}"

definition classic_matches :: "evoke_query_term list \<Rightarrow> (nat \<Rightarrow> bool) \<Rightarrow> bool" where
  "classic_matches terms v \<longleftrightarrow>
     (\<forall>i \<in> having terms EVOKE_QUERY_MUST_NOT. \<not> v i) \<and>
     (if having terms EVOKE_QUERY_MUST \<noteq> {} then \<forall>i \<in> having terms EVOKE_QUERY_MUST. v i
      else having terms EVOKE_QUERY_SHOULD \<noteq> {} \<longrightarrow> (\<exists>i \<in> having terms EVOKE_QUERY_SHOULD. v i))"

lemma classic_loop_start:
  "\<exists>R. classic_root_loop [] 0 ts \<lparr>must_root = None, should_root = None, negative_root = None\<rparr> = ([], Some R) \<and>
     (must_root R = None \<longleftrightarrow> having ts EVOKE_QUERY_MUST = {}) \<and>
     (should_root R = None \<longleftrightarrow> having ts EVOKE_QUERY_SHOULD = {}) \<and>
     (negative_root R = None \<longleftrightarrow> having ts EVOKE_QUERY_MUST_NOT = {}) \<and>
     (\<forall>v. all_of v (must_root R) \<longleftrightarrow> (\<forall>i \<in> having ts EVOKE_QUERY_MUST. v i)) \<and>
     (\<forall>v. eval_node v (should_root R) \<longleftrightarrow> (\<exists>i \<in> having ts EVOKE_QUERY_SHOULD. v i)) \<and>
     (\<forall>v. all_of v (negative_root R) \<longleftrightarrow> (\<forall>i \<in> having ts EVOKE_QUERY_MUST_NOT. \<not> v i))"
proof -
  have none: "all_of v None" for v by (simp add: all_of_def)
  have sets: "(having ts oc = {}) = (\<forall>j < length ts. term_occur (ts ! j) \<noteq> oc)"
    "(\<forall>i \<in> having ts oc. P i) = (\<forall>j < length ts. term_occur (ts ! j) = oc \<longrightarrow> P j)"
    "(\<exists>i \<in> having ts oc. P i) = (\<exists>j < length ts. term_occur (ts ! j) = oc \<and> P j)" for oc P
    by (auto simp: having_def)
  show ?thesis
    unfolding sets
    using classic_loop_value [of 0 ts "\<lparr>must_root = None, should_root = None, negative_root = None\<rparr>"]
    by (simp only: none classic_roots.simps simp_thms add_0 eval_node.simps(1))
qed

lemma build_root_value:
  assumes "query_terms q \<noteq> []"
  shows "\<exists>root. evoke_query_build_classic_root [] (Some q) = ([], Some root) \<and>
    (\<forall>v. eval_node v (Some root) \<longleftrightarrow> classic_matches (query_terms q) v)"
proof -
  let ?ts = "query_terms q"
  obtain R where loop: "classic_root_loop [] 0 ?ts \<lparr>must_root = None, should_root = None, negative_root = None\<rparr> = ([], Some R)"
    and none: "must_root R = None \<longleftrightarrow> having ?ts EVOKE_QUERY_MUST = {}"
      "should_root R = None \<longleftrightarrow> having ?ts EVOKE_QUERY_SHOULD = {}"
      "negative_root R = None \<longleftrightarrow> having ?ts EVOKE_QUERY_MUST_NOT = {}"
    and val: "\<forall>v. all_of v (must_root R) \<longleftrightarrow> (\<forall>i \<in> having ?ts EVOKE_QUERY_MUST. v i)"
      "\<forall>v. eval_node v (should_root R) \<longleftrightarrow> (\<exists>i \<in> having ?ts EVOKE_QUERY_SHOULD. v i)"
      "\<forall>v. all_of v (negative_root R) \<longleftrightarrow> (\<forall>i \<in> having ?ts EVOKE_QUERY_MUST_NOT. \<not> v i)"
    using classic_loop_start [of ?ts] by (elim exE conjE) (rule that; assumption)
  have some: "\<not> (must_root R = None \<and> should_root R = None \<and> negative_root R = None)"
  proof -
    have "0 \<in> having ?ts (term_occur (?ts ! 0))" using assms by (simp add: having_def)
    then show ?thesis unfolding none by (cases "term_occur (?ts ! 0)") auto
  qed
  let ?must = "if must_root R = None then should_root R else must_root R"
  have root: "evoke_query_build_classic_root [] (Some q) =
      (if ?must = None then ([], negative_root R)
       else evoke_query_node_binary [] EVOKE_QUERY_NODE_AND ?must (negative_root R))"
    by (simp add: evoke_query_build_classic_root_def loop Let_def)
  show ?thesis
  proof (cases "negative_root R")
    case None
    then obtain n where n: "?must = Some n" using some by (cases ?must) (auto split: if_splits)
    then have "evoke_query_build_classic_root [] (Some q) = ([], Some n)"
      unfolding root using None by (simp add: evoke_query_node_binary_def)
    moreover have "eval_node v (Some n) \<longleftrightarrow> classic_matches ?ts v" for v
      using n none val [rule_format, of v] None by (auto simp: classic_matches_def all_of_def split: if_splits)
    ultimately show ?thesis by blast
  next
    case (Some m)
    let ?root = "case ?must of None \<Rightarrow> m | Some l \<Rightarrow> Node EVOKE_QUERY_NODE_AND unset_index (Some l) (Some m)"
    have "evoke_query_build_classic_root [] (Some q) = ([], Some ?root)"
      unfolding root Some node_binary_Nil by simp
    moreover have "eval_node v (Some ?root) \<longleftrightarrow> classic_matches ?ts v" for v
      using none val [rule_format, of v] Some
      by (cases "must_root R"; cases "should_root R") (auto simp: classic_matches_def all_of_def)
    ultimately show ?thesis by blast
  qed
qed

lemma classic_parse_refuses:
  assumes "\<not> classic_accepts ts"
  shows "evoke_parse_classic_tokens [] ts out = ([], Status EVOKE_ERR_INVALID, out)"
proof (cases "list_all classic_token ts")
  case False
  then show ?thesis using classic_loop_refuses [OF False] by (simp add: evoke_parse_classic_tokens_def)
next
  case True
  then have "ts \<noteq> []" "\<not> is_term_token (last ts)" using assms by (simp_all add: classic_accepts_def)
  then show ?thesis using classic_loop_reads [of 0 ts True "zero_query\<lparr>query_mode := EVOKE_QUERY_MODE_CLASSIC\<rparr>"] True
    by (simp add: occur_at_def zero_query_def evoke_parse_classic_tokens_def)
qed

lemma classic_parse_value:
  assumes "classic_accepts ts"
  shows "\<exists>root. evoke_parse_classic_tokens [] ts out = ([], Status EVOKE_OK,
         \<lparr>query_mode = EVOKE_QUERY_MODE_CLASSIC, query_terms = signed_terms ts 0, query_root = root\<rparr>) \<and>
       (root = None \<longleftrightarrow> ts = []) \<and>
       (ts \<noteq> [] \<longrightarrow> (\<forall>v. eval_node v root \<longleftrightarrow> classic_matches (signed_terms ts 0) v))"
proof (cases "ts = []")
  case True
  then show ?thesis
    by (simp add: evoke_parse_classic_tokens_def evoke_query_build_classic_root_def zero_query_def signed_terms_def)
next
  case nonempty: False
  let ?q = "zero_query\<lparr>query_mode := EVOKE_QUERY_MODE_CLASSIC\<rparr>"
  let ?q1 = "?q\<lparr>query_terms := signed_terms ts 0\<rparr>"
  have accepted: "list_all classic_token ts" "is_term_token (last ts)" using assms nonempty by (simp_all add: classic_accepts_def)
  have loop: "classic_loop [] ts EVOKE_QUERY_SHOULD True ?q =
      ([], Inr (?q1, if ts = [] then True else \<not> is_term_token (last ts)))"
    using classic_loop_reads [of 0 ts True ?q] accepted(1) by (auto simp: occur_at_def zero_query_def)
  have "length ts - 1 \<in> set (filter (\<lambda>j. is_term_token (ts ! j)) [0..<length ts])"
    using nonempty accepted(2) by (simp add: last_conv_nth)
  then have "signed_terms ts 0 \<noteq> []" unfolding signed_terms_def by (metis empty_iff list.set(1) map_is_Nil_conv)
  then obtain root where "evoke_query_build_classic_root [] (Some ?q1) = ([], Some root)"
    "\<forall>v. eval_node v (Some root) \<longleftrightarrow> classic_matches (signed_terms ts 0) v"
    using build_root_value [of ?q1] by auto
  then show ?thesis using nonempty accepted(2) loop by (simp add: evoke_parse_classic_tokens_def zero_query_def)
qed

text \<open>
  C21. The classic parser, when allocations succeed. It accepts exactly the token lists of terms and
  signs that do not end in a sign; the terms of the query are the terms of the list in order, each
  required, excluded or optional by the token before it. The tree matches when every required term
  matches, or without required terms some optional term if there is one, and no excluded term
  does.
\<close>

theorem classic_query_meaning:
  "if classic_accepts ts then
     \<exists>root. evoke_parse_classic_tokens [] ts out = ([], Status EVOKE_OK,
         \<lparr>query_mode = EVOKE_QUERY_MODE_CLASSIC, query_terms = signed_terms ts 0, query_root = root\<rparr>) \<and>
       (root = None \<longleftrightarrow> ts = []) \<and>
       (ts \<noteq> [] \<longrightarrow> (\<forall>v. eval_node v root \<longleftrightarrow> classic_matches (signed_terms ts 0) v))
   else evoke_parse_classic_tokens [] ts out = ([], Status EVOKE_ERR_INVALID, out)"
  using classic_parse_value [of ts out] classic_parse_refuses [of ts out] by simp

text \<open>The tokens of \<open>+a b -c\<close>: required, optional, excluded.\<close>

theorem classic_query_meaning_witness:
  "\<exists>root. evoke_parse_classic_tokens []
       [tok EVOKE_QUERY_TOKEN_PLUS, sample_term 0x61, sample_term 0x62, tok EVOKE_QUERY_TOKEN_MINUS, sample_term 0x63]
       zero_query =
     ([], Status EVOKE_OK, \<lparr>query_mode = EVOKE_QUERY_MODE_CLASSIC,
        query_terms = [(token_term (sample_term 0x61))\<lparr>term_occur := EVOKE_QUERY_MUST\<rparr>,
          token_term (sample_term 0x62), (token_term (sample_term 0x63))\<lparr>term_occur := EVOKE_QUERY_MUST_NOT\<rparr>],
        query_root = root\<rparr>) \<and>
     (\<forall>v. eval_node v root \<longleftrightarrow> v 0 \<and> \<not> v 2)"
proof -
  let ?ts = "[tok EVOKE_QUERY_TOKEN_PLUS, sample_term 0x61, sample_term 0x62, tok EVOKE_QUERY_TOKEN_MINUS, sample_term 0x63]"
  let ?terms = "[(token_term (sample_term 0x61))\<lparr>term_occur := EVOKE_QUERY_MUST\<rparr>,
      token_term (sample_term 0x62), (token_term (sample_term 0x63))\<lparr>term_occur := EVOKE_QUERY_MUST_NOT\<rparr>]"
  have terms: "signed_terms ?ts 0 = ?terms"
    by (simp add: signed_terms_def upt_rec occur_at_def is_term_token_def sample_term_def plain_token_def)
  have "having ?terms EVOKE_QUERY_MUST = {0}" "having ?terms EVOKE_QUERY_MUST_NOT = {2}"
    by (auto simp: having_def sample_term_def less_Suc_eq)
  then have "classic_matches ?terms v \<longleftrightarrow> v 0 \<and> \<not> v 2" for v by (auto simp: classic_matches_def)
  moreover have "classic_accepts ?ts"
    by (simp add: classic_accepts_def classic_token_def is_term_token_def sample_term_def plain_token_def)
  ultimately show ?thesis using classic_query_meaning [of ?ts zero_query] by (auto simp: terms)
qed

text \<open>
  A failed allocation is not always reported: the query \<open>+a +b +c\<close> when the node that joins the first two terms cannot be allocated. The code
  frees both, goes on with the third and reports success, with a tree that only asks for \<open>c\<close>.
\<close>

lemma classic_root_drops_terms:
  "evoke_parse_classic_tokens [True, True, True, True, True, True, True, True, True, True, True, True, True, True, False]
     [tok EVOKE_QUERY_TOKEN_PLUS, sample_term 0x61, tok EVOKE_QUERY_TOKEN_PLUS, sample_term 0x62,
      tok EVOKE_QUERY_TOKEN_PLUS, sample_term 0x63] zero_query =
   ([], Status EVOKE_OK, \<lparr>query_mode = EVOKE_QUERY_MODE_CLASSIC,
      query_terms = map (\<lambda>c. (token_term (sample_term c))\<lparr>term_occur := EVOKE_QUERY_MUST\<rparr>) [0x61, 0x62, 0x63],
      query_root = Some (Node EVOKE_QUERY_NODE_TERM 2 None None)\<rparr>)"
  by (simp add: evoke_parse_classic_tokens_def evoke_append_term_def evoke_query_term_clone_def zero_query_def
      evoke_query_build_classic_root_def evoke_query_node_term_def evoke_query_node_binary_def evoke_query_node_new_def
      sample_term_def plain_token_def Let_def)

text \<open>
  A failed allocation can also be undefined behaviour: the term \<open>a\<close> when the array for the lengths of its copy cannot be allocated, since the
  entries of the other array are freed without having been written.
\<close>

lemma term_copy_undefined:
  "evoke_parse_classic_tokens [True, False] [sample_term 0x61] zero_query = ([], Undefined, zero_query)"
  by (simp add: evoke_parse_classic_tokens_def evoke_append_term_def evoke_query_term_clone_def zero_query_def
      sample_term_def plain_token_def Let_def)

section \<open>Well-formed queries\<close>

text \<open>Whatever allocations fail, each of the three trees stays well formed, over terms of its own.\<close>

definition opt_wf :: "evoke_query_node option \<Rightarrow> bool" where
  "opt_wf n \<longleftrightarrow> n = None \<or> node_wf n"

definition roots_ok :: "nat \<Rightarrow> classic_roots \<Rightarrow> bool" where
  "roots_ok i R \<longleftrightarrow> opt_wf (must_root R) \<and> opt_wf (should_root R) \<and> opt_wf (negative_root R) \<and>
     distinct (leaves (must_root R) @ leaves (should_root R) @ leaves (negative_root R)) \<and>
     set (leaves (must_root R) @ leaves (should_root R) @ leaves (negative_root R)) \<subseteq> {..<i}"

lemma binary_ok:
  assumes "evoke_query_node_binary al k n m = (al', r)" and "opt_wf n" and "opt_wf m"
    and "k = EVOKE_QUERY_NODE_AND \<or> k = EVOKE_QUERY_NODE_OR"
  shows "opt_wf r \<and> (leaves r = leaves n @ leaves m \<or> leaves r = [])"
proof (cases "n = None \<or> m = None")
  case True
  then show ?thesis using assms by (auto simp: evoke_query_node_binary_def split: if_splits)
next
  case False
  then show ?thesis
    using assms
    by (auto simp: evoke_query_node_binary_def evoke_query_node_new_def opt_wf_def
        split: if_splits prod.splits)
qed

lemma unary_not_ok:
  assumes "evoke_query_node_unary al EVOKE_QUERY_NODE_NOT (Some (Node EVOKE_QUERY_NODE_TERM i None None)) = (al', r)"
  shows "opt_wf r \<and> (leaves r = [i] \<or> leaves r = [])"
  using assms
  by (auto simp: evoke_query_node_unary_def evoke_query_node_new_def opt_wf_def split: if_splits prod.splits)

lemma classic_root_loop_ok:
  "classic_root_loop al i ts R = (al', Some R') \<Longrightarrow> roots_ok i R \<Longrightarrow> roots_ok (i + length ts) R'"
proof (induction ts arbitrary: al i R)
  case (Cons t ts)
  obtain al1 leaf where leaf: "evoke_query_node_term al i = (al1, Some leaf)"
    using Cons.prems(1) by (cases "evoke_query_node_term al i") (auto split: option.splits)
  have n: "leaf = Node EVOKE_QUERY_NODE_TERM i None None" by (rule node_term_ok [OF leaf])
  have lw: "opt_wf (Some leaf)" "leaves (Some leaf) = [i]" by (simp_all add: n opt_wf_def)
  have old: "opt_wf (must_root R)" "opt_wf (should_root R)" "opt_wf (negative_root R)"
    using Cons.prems(2) by (simp_all add: roots_ok_def)
  have step: "roots_ok (Suc i) R1" if "R1 = R\<lparr>must_root := m\<rparr> \<and> opt_wf m \<and> (leaves m = leaves (must_root R) @ [i] \<or> leaves m = []) \<or>
      R1 = R\<lparr>should_root := m\<rparr> \<and> opt_wf m \<and> (leaves m = leaves (should_root R) @ [i] \<or> leaves m = []) \<or>
      R1 = R\<lparr>negative_root := m\<rparr> \<and> opt_wf m \<and>
        (leaves m = leaves (negative_root R) @ [i] \<or> leaves m = leaves (negative_root R) \<or> leaves m = [])" for R1 m
    using that Cons.prems(2) by (auto simp: roots_ok_def)
  show ?case
  proof (cases "term_occur t")
    case EVOKE_QUERY_MUST
    obtain al2 m where b: "evoke_query_node_binary al1 EVOKE_QUERY_NODE_AND (must_root R) (Some leaf) = (al2, m)"
      by fastforce
    have "roots_ok (Suc i) (R\<lparr>must_root := m\<rparr>)" using binary_ok [OF b old(1) lw(1)] lw(2) by (intro step) auto
    then show ?thesis using Cons.IH [of al2 "Suc i"] Cons.prems(1) EVOKE_QUERY_MUST leaf b by simp
  next
    case EVOKE_QUERY_MUST_NOT
    obtain al2 neg where u: "evoke_query_node_unary al1 EVOKE_QUERY_NODE_NOT (Some leaf) = (al2, neg)" by fastforce
    obtain al3 m where b: "evoke_query_node_binary al2 EVOKE_QUERY_NODE_AND (negative_root R) neg = (al3, m)"
      by fastforce
    have "roots_ok (Suc i) (R\<lparr>negative_root := m\<rparr>)"
      using unary_not_ok [OF u [unfolded n]] binary_ok [OF b old(3)] by (intro step) auto
    then show ?thesis using Cons.IH [of al3 "Suc i"] Cons.prems(1) EVOKE_QUERY_MUST_NOT leaf u b by simp
  next
    case EVOKE_QUERY_SHOULD
    obtain al2 m where b: "evoke_query_node_binary al1 EVOKE_QUERY_NODE_OR (should_root R) (Some leaf) = (al2, m)"
      by fastforce
    have "roots_ok (Suc i) (R\<lparr>should_root := m\<rparr>)" using binary_ok [OF b old(2) lw(1)] lw(2) by (intro step) auto
    then show ?thesis using Cons.IH [of al2 "Suc i"] Cons.prems(1) EVOKE_QUERY_SHOULD leaf b by simp
  qed
qed simp

lemma build_root_ok:
  assumes "evoke_query_build_classic_root al (Some q) = (al', Some root)"
  shows "node_wf (Some root) \<and> distinct (leaves (Some root)) \<and> set (leaves (Some root)) \<subseteq> {..<length (query_terms q)}"
proof -
  obtain al1 R where loop: "classic_root_loop al 0 (query_terms q)
      \<lparr>must_root = None, should_root = None, negative_root = None\<rparr> = (al1, Some R)"
    using assms by (auto simp: evoke_query_build_classic_root_def split: prod.splits option.splits)
  have "roots_ok (length (query_terms q)) R"
    using classic_root_loop_ok [OF loop] by (simp add: roots_ok_def opt_wf_def)
  note R = this [unfolded roots_ok_def]
  let ?must = "if must_root R = None then should_root R else must_root R"
  consider "negative_root R = Some root"
    | "?must \<noteq> None" "evoke_query_node_binary al1 EVOKE_QUERY_NODE_AND ?must (negative_root R) = (al', Some root)"
    using assms loop by (auto simp: evoke_query_build_classic_root_def Let_def split: if_splits)
  then show ?thesis
  proof cases
    case 1
    then show ?thesis using R by (simp add: opt_wf_def)
  next
    case 2
    have "opt_wf ?must" "opt_wf (negative_root R)" using R by simp_all
    note b = binary_ok [OF 2(2) this]
    have "distinct (leaves ?must @ leaves (negative_root R))"
      "set (leaves ?must @ leaves (negative_root R)) \<subseteq> {..<length (query_terms q)}" using R by auto
    then show ?thesis using b by (auto simp: opt_wf_def)
  qed
qed

lemma parse_error:
  "evoke_parse_boolean_or fuel p = Some (p', Inl st) \<Longrightarrow> st \<noteq> Status EVOKE_OK"
  "parse_or_loop fuel p n0 = Some (p', Inl st) \<Longrightarrow> st \<noteq> Status EVOKE_OK"
  "evoke_parse_boolean_and fuel p = Some (p', Inl st) \<Longrightarrow> st \<noteq> Status EVOKE_OK"
  "parse_and_loop fuel p n0 = Some (p', Inl st) \<Longrightarrow> st \<noteq> Status EVOKE_OK"
  "evoke_parse_boolean_unary fuel p = Some (p', Inl st) \<Longrightarrow> st \<noteq> Status EVOKE_OK"
  "evoke_parse_boolean_primary fuel p = Some (p', Inl st) \<Longrightarrow> st \<noteq> Status EVOKE_OK"
proof (induction fuel arbitrary: p n0 p' st)
  case (Suc fuel)
  {
    case 1
    then show ?case by (auto split: option.splits sum.splits dest: Suc.IH(2,3))
  next
    case 2
    then show ?case by (auto simp: Let_def node_in_def split: option.splits sum.splits prod.splits if_splits dest: Suc.IH(2,3))
  next
    case 3
    then show ?case by (auto split: option.splits sum.splits dest: Suc.IH(4,5))
  next
    case 4
    then show ?case by (auto simp: node_in_def split: option.splits sum.splits prod.splits if_splits dest: Suc.IH(4,5))
  next
    case 5
    then show ?case by (auto simp: Let_def node_in_def split: option.splits sum.splits prod.splits if_splits dest: Suc.IH(5,6))
  next
    case 6
    then show ?case by (auto simp: Let_def evoke_parse_boolean_term_def split: option.splits sum.splits prod.splits if_splits dest: Suc.IH(1))
  }
qed simp_all

lemma boolean_tokens_ok:
  assumes "evoke_parse_boolean_tokens al ts out = Some (al', Status EVOKE_OK, q)"
  shows "query_mode q = EVOKE_QUERY_MODE_BOOLEAN_AST \<and> query_terms q = terms_between ts 0 (length ts) \<and>
    node_wf (query_root q) \<and> leaves (query_root q) = [0..<length (query_terms q)]"
proof -
  let ?p = "\<lparr>ps_tokens = ts, ps_pos = 0, ps_depth = 0,
      ps_query = zero_query\<lparr>query_mode := EVOKE_QUERY_MODE_BOOLEAN_AST\<rparr>, ps_allocs = al\<rparr>"
  obtain p n where run: "evoke_parse_boolean_or (parse_fuel (length ts)) ?p = Some (p, Inr n)"
    and q: "ps_pos p = length ts" "q = (ps_query p)\<lparr>query_root := Some n\<rparr>"
    using assms parse_error(1) [of "parse_fuel (length ts)" ?p]
    by (auto simp: evoke_parse_boolean_tokens_def Let_def split: option.splits sum.splits if_splits)
  show ?thesis
    using parse_success(1) [OF run] q
    by (simp add: parsed_node_def read_terms_def new_leaves_def zero_query_def)
qed

lemma boolean_tokens_total: "evoke_parse_boolean_tokens al ts out \<noteq> None"
proof -
  have "evoke_parse_boolean_or (parse_fuel (length ts)) p \<noteq> None" if "ps_tokens p = ts" "ps_pos p = 0" for p
    using that by (intro enough_fuel) (simp add: tokens_left_def parse_fuel_def)
  then show ?thesis
    by (auto simp: evoke_parse_boolean_tokens_def Let_def split: option.splits sum.splits)
qed

lemma boolean_tokens_error:
  "evoke_parse_boolean_tokens al ts out = Some (al', st, q) \<Longrightarrow> st \<noteq> Status EVOKE_OK \<Longrightarrow> q = out"
  by (auto simp: evoke_parse_boolean_tokens_def Let_def split: option.splits sum.splits if_splits)

lemma classic_loop_ok:
  "classic_loop al ts oc e q = (al', Inr (q', e')) \<Longrightarrow>
   query_mode q' = query_mode q \<and> query_root q' = query_root q \<and>
   length (query_terms q') \<le> length (query_terms q) + length ts \<and>
   (list_all token_ok ts \<longrightarrow> list_all term_ok (query_terms q) \<longrightarrow> list_all term_ok (query_terms q'))"
proof (induction al ts oc e q rule: classic_loop.induct)
  case (2 al t ts oc e q)
  show ?case
  proof (cases "is_term_token t")
    case False
    then show ?thesis using 2 by (auto simp: is_term_token_def split: if_splits)
  next
    case True
    let ?t = "(token_term t)\<lparr>term_occur := oc\<rparr>"
    obtain al1 q1 i where a: "evoke_append_term al q ?t = (al1, Status EVOKE_OK, q1, i)"
      and loop: "classic_loop al1 ts EVOKE_QUERY_SHOULD False q1 = (al', Inr (q', e'))"
      using "2.prems" True by (auto simp: is_term_token_def split: if_splits prod.splits)
    note q1 = append_term_ok [OF a]
    have "token_ok t \<Longrightarrow> term_ok ?t" using True by (simp add: token_ok_def term_ok_def)
    then show ?thesis
      using "2.IH"(3) [OF _ _ _ a [symmetric] refl refl _ loop] True q1 by (auto simp: is_term_token_def)
  qed
qed simp

lemma classic_loop_error: "classic_loop al ts oc e q = (al', Inl st) \<Longrightarrow> st \<noteq> Status EVOKE_OK"
  by (induction al ts oc e q rule: classic_loop.induct) (auto split: if_splits prod.splits)

lemma terms_between_ok:
  "list_all token_ok ts \<Longrightarrow> list_all term_ok (terms_between ts 0 (length ts)) \<and>
   length (terms_between ts 0 (length ts)) \<le> length ts"
proof -
  assume "list_all token_ok ts"
  then have "list_all term_ok (terms_between ts 0 (length ts))"
    by (auto simp: terms_between_def list_all_iff token_ok_def)
  moreover have "length (terms_between ts 0 (length ts)) \<le> length [0..<length ts]"
    unfolding terms_between_def length_map by (rule length_filter_le)
  ultimately show ?thesis by simp
qed

text \<open>A query a caller may rely on.\<close>

definition query_ok :: "evoke_query \<Rightarrow> bool" where
  "query_ok q \<longleftrightarrow> length (query_terms q) \<le> EVOKE_QUERY_MAX_TOKENS \<and> list_all term_ok (query_terms q) \<and>
     (case query_root q of
        None \<Rightarrow> query_terms q = []
      | Some n \<Rightarrow> node_wf (Some n) \<and> distinct (leaves (Some n)) \<and>
          set (leaves (Some n)) \<subseteq> {..<length (query_terms q)} \<and>
          (query_mode q = EVOKE_QUERY_MODE_BOOLEAN_AST \<longrightarrow> leaves (Some n) = [0..<length (query_terms q)]))"

lemma classic_tokens_ok:
  assumes "evoke_parse_classic_tokens al ts out = (al', st, q)" "list_all token_ok ts" "length ts \<le> EVOKE_QUERY_MAX_TOKENS"
  shows "if st = Status EVOKE_OK then query_ok q else q = out"
proof (cases "st = Status EVOKE_OK")
  case True
  let ?q0 = "zero_query\<lparr>query_mode := EVOKE_QUERY_MODE_CLASSIC\<rparr>"
  obtain al3 q1 e al4 root where loop: "classic_loop al ts EVOKE_QUERY_SHOULD True ?q0 = (al3, Inr (q1, e))"
    and root: "evoke_query_build_classic_root al3 (Some q1) = (al4, root)"
    and q: "q = q1\<lparr>query_root := root\<rparr>" "query_terms q1 = [] \<or> root \<noteq> None"
    using assms(1) True classic_loop_error
    by (auto simp: evoke_parse_classic_tokens_def split: prod.splits sum.splits if_splits)
  note l = classic_loop_ok [OF loop]
  show ?thesis
    using True l root q build_root_ok [of al3 q1 al4] assms(2,3)
    by (cases root) (auto simp: query_ok_def zero_query_def)
next
  case False
  then show ?thesis
    using assms(1) by (auto simp: evoke_parse_classic_tokens_def split: prod.splits sum.splits if_splits)
qed

section \<open>Outcomes of allocations\<close>

text \<open>The outcomes that are left were there before, and undefined behaviour needs a failure among them.\<close>

definition uses :: "allocs \<Rightarrow> allocs \<Rightarrow> ending + 'a \<Rightarrow> bool" where
  "uses al al' r \<longleftrightarrow> set al' \<subseteq> set al \<and> (r = Inl Undefined \<longrightarrow> False \<in> set al)"

lemma uses_trans: "set al1 \<subseteq> set al \<Longrightarrow> uses al1 al2 r \<Longrightarrow> uses al al2 r"
  by (auto simp: uses_def)

lemma alloc_uses: "alloc al = (ok, al') \<Longrightarrow> set al' \<subseteq> set al \<and> (\<not> ok \<longrightarrow> False \<in> set al)"
  by (cases al) auto

lemma nodes_use:
  "evoke_query_node_new al k = (al', r) \<Longrightarrow> set al' \<subseteq> set al"
  "evoke_query_node_term al i = (al', r) \<Longrightarrow> set al' \<subseteq> set al"
  "evoke_query_node_unary al k c = (al', r) \<Longrightarrow> set al' \<subseteq> set al"
  "evoke_query_node_binary al k n m = (al', r) \<Longrightarrow> set al' \<subseteq> set al"
  by (auto simp: evoke_query_node_term_def evoke_query_node_unary_def evoke_query_node_binary_def evoke_query_node_new_def
      dest!: alloc_uses split: prod.splits option.splits if_splits)

lemma node_in_uses: "(\<And>al n. r = (al, n) \<Longrightarrow> set al \<subseteq> set (ps_allocs p)) \<Longrightarrow> node_in p r = (p', x) \<Longrightarrow>
    uses (ps_allocs p) (ps_allocs p') x"
  by (auto simp: node_in_def uses_def split: prod.splits option.splits)

lemma clone_tokens_uses: "clone_tokens al ts = (al', r) \<Longrightarrow> uses al al' r"
proof (induction al ts arbitrary: al' r rule: clone_tokens.induct)
  case (2 al t ts)
  obtain ok al1 where al1: "alloc al = (ok, al1)" by fastforce
  obtain al2 r2 where r2: "clone_tokens al1 ts = (al2, r2)" by fastforce
  show ?case
    using "2.IH" [OF al1 [symmetric] refl _ r2] "2.prems" al1 r2 alloc_uses [OF al1]
    by (cases ok; cases r2) (auto simp: uses_def)
qed (simp add: uses_def)

lemma append_term_uses:
  assumes "evoke_append_term al q t = (al', e, q', i)"
  shows "uses al al' (Inl e)"
proof -
  obtain al1 e1 u where clone: "evoke_query_term_clone al (Some t) = (al1, e1, u)" by (metis prod_cases3)
  have "uses al al1 (Inl e1)"
    using clone
    by (auto simp: evoke_query_term_clone_def uses_def dest!: alloc_uses clone_tokens_uses split: if_splits prod.splits sum.splits) blast+
  then show ?thesis
    using assms clone by (auto simp: evoke_append_term_def uses_def dest!: alloc_uses split: if_splits prod.splits)
qed

lemma parse_term_uses:
  assumes "evoke_parse_boolean_term p = (p', r)"
  shows "uses (ps_allocs p) (ps_allocs p') r"
proof -
  obtain al e q i where a: "evoke_append_term (ps_allocs p) (ps_query p) (token_term (evoke_query_parser_peek p)) = (al, e, q, i)"
    by (metis prod_cases4)
  obtain al2 n where n: "evoke_query_node_term al i = (al2, n)" by fastforce
  show ?thesis
    using assms a n append_term_uses [OF a] nodes_use(2) [OF n]
    by (cases n) (auto simp: evoke_parse_boolean_term_def Let_def uses_def split: if_splits)
qed

text \<open>One turn of the loops of the parser.\<close>

lemma turn_uses:
  assumes "uses al (ps_allocs p2) x"
    and "case x of Inl e \<Rightarrow> r = Inl e \<and> p' = p2
      | Inr rhs \<Rightarrow> (case node_in p2 (evoke_query_node_binary (ps_allocs p2) k (Some n0) (Some rhs)) of
          (p3, Inl e) \<Rightarrow> r = Inl e \<and> p' = p3
        | (p3, Inr n) \<Rightarrow> uses (ps_allocs p3) (ps_allocs p') r)"
  shows "uses al (ps_allocs p') (r :: ending + evoke_query_node)"
proof (cases x)
  case (Inr rhs)
  obtain p3 y where y: "node_in p2 (evoke_query_node_binary (ps_allocs p2) k (Some n0) (Some rhs)) = (p3, y)" by fastforce
  have "uses (ps_allocs p2) (ps_allocs p3) y" using y by (rule node_in_uses [rotated]) (rule nodes_use(4))
  then show ?thesis using assms Inr y by (cases y) (auto simp: uses_def)
qed (use assms in \<open>auto simp: uses_def\<close>)

lemma parse_uses:
  "evoke_parse_boolean_or fuel p = Some (p', r) \<Longrightarrow> uses (ps_allocs p) (ps_allocs p') r"
  "parse_or_loop fuel p n0 = Some (p', r) \<Longrightarrow> uses (ps_allocs p) (ps_allocs p') r"
  "evoke_parse_boolean_and fuel p = Some (p', r) \<Longrightarrow> uses (ps_allocs p) (ps_allocs p') r"
  "parse_and_loop fuel p n0 = Some (p', r) \<Longrightarrow> uses (ps_allocs p) (ps_allocs p') r"
  "evoke_parse_boolean_unary fuel p = Some (p', r) \<Longrightarrow> uses (ps_allocs p) (ps_allocs p') r"
  "evoke_parse_boolean_primary fuel p = Some (p', r) \<Longrightarrow> uses (ps_allocs p) (ps_allocs p') r"
proof (induction fuel arbitrary: p n0 p' r)
  case (Suc fuel)
  {
    case 1
    then show ?case by (auto split: option.splits sum.splits dest!: Suc.IH(2,3)) (auto simp: uses_def)
  next
    case 2
    show ?case
    proof (cases "token_kind (evoke_query_parser_peek p) \<noteq> EVOKE_QUERY_TOKEN_OR \<and>
        \<not> evoke_parser_token_can_start_unary (token_kind (evoke_query_parser_peek p))")
      case False
      let ?p1 = "if token_kind (evoke_query_parser_peek p) = EVOKE_QUERY_TOKEN_OR then evoke_query_parser_consume p else p"
      obtain p2 x where x: "evoke_parse_boolean_and fuel ?p1 = Some (p2, x)"
        using 2 False by (auto simp: Let_def split: option.splits)
      show ?thesis
        using turn_uses [of "ps_allocs p" p2 x r p' EVOKE_QUERY_NODE_OR n0] Suc.IH(3) [OF x] 2 False x
        by (auto simp: Let_def split: sum.splits prod.splits if_splits dest!: Suc.IH(2))
    qed (use 2 in \<open>auto simp: uses_def\<close>)
  next
    case 3
    then show ?case by (auto split: option.splits sum.splits dest!: Suc.IH(4,5)) (auto simp: uses_def)
  next
    case 4
    show ?case
    proof (cases "token_kind (evoke_query_parser_peek p) = EVOKE_QUERY_TOKEN_AND")
      case True
      obtain p2 x where x: "evoke_parse_boolean_unary fuel (evoke_query_parser_consume p) = Some (p2, x)"
        using 4 True by (auto split: option.splits)
      show ?thesis
        using turn_uses [of "ps_allocs p" p2 x r p' EVOKE_QUERY_NODE_AND n0] Suc.IH(5) [OF x] 4 True x
        by (auto split: sum.splits prod.splits dest!: Suc.IH(4))
    qed (use 4 in \<open>auto simp: uses_def\<close>)
  next
    case 5
    let ?k = "token_kind (evoke_query_parser_peek p)" and ?p1 = "evoke_query_parser_consume p"
    show ?case
    proof (cases "?k = EVOKE_QUERY_TOKEN_PLUS \<or> ?k = EVOKE_QUERY_TOKEN_MINUS \<or> ?k = EVOKE_QUERY_TOKEN_NOT")
      case False
      then show ?thesis using 5 Suc.IH(6) by simp
    next
      case True
      show ?thesis
      proof (cases "ps_depth p \<ge> EVOKE_QUERY_MAX_NESTING")
        case deep: False
        obtain q x where x: "evoke_parse_boolean_unary fuel (?p1\<lparr>ps_depth := ps_depth ?p1 + 1\<rparr>) = Some (q, x)"
          using 5 True deep by (auto simp: Let_def split: option.splits)
        let ?q = "q\<lparr>ps_depth := ps_depth q - 1\<rparr>"
        have u: "uses (ps_allocs p) (ps_allocs q) x" using Suc.IH(5) [OF x] by simp
        obtain p3 y where y: "node_in ?q (evoke_query_node_unary (ps_allocs q) EVOKE_QUERY_NODE_NOT (Some n)) = (p3, y)"
          if "x = Inr n" for n by (cases x) fastforce+
        have "uses (ps_allocs ?q) (ps_allocs p3) y" if "x = Inr n" for n
          using y [OF that] by (rule node_in_uses [rotated]) (simp add: nodes_use(3))
        then show ?thesis
          using 5 True deep x u y by (cases x) (auto simp: Let_def uses_def split: if_splits)
      qed (use 5 True in \<open>auto simp: Let_def uses_def\<close>)
    qed
  next
    case 6
    then show ?case
      by (auto simp: Let_def uses_def dest!: Suc.IH(1) parse_term_uses split: option.splits sum.splits if_splits) blast+
  }
qed simp_all

lemma boolean_tokens_use: "evoke_parse_boolean_tokens al ts out = Some (al', Undefined, q) \<Longrightarrow> False \<in> set al"
  by (auto simp: evoke_parse_boolean_tokens_def Let_def uses_def dest!: parse_uses(1) split: option.splits sum.splits if_splits)

lemma classic_loop_uses: "classic_loop al ts oc e q = (al', r) \<Longrightarrow> uses al al' r"
proof (induction al ts oc e q rule: classic_loop.induct)
  case (2 al t ts oc e q)
  obtain al1 e1 q1 i where a: "evoke_append_term al q ((token_term t)\<lparr>term_occur := oc\<rparr>) = (al1, e1, q1, i)"
    by (metis prod_cases4)
  show ?case
  proof (cases "is_term_token t")
    case False
    then show ?thesis using 2 by (auto simp: is_term_token_def uses_def split: if_splits)
  next
    case True
    show ?thesis
    proof (cases "e1 = Status EVOKE_OK")
      case ok: True
      then have "classic_loop al1 ts EVOKE_QUERY_SHOULD False q1 = (al', r)"
        using "2.prems" True a by (auto simp: is_term_token_def split: if_splits)
      then show ?thesis
        using "2.IH"(3) [OF _ _ _ a [symmetric] refl refl _] True ok append_term_uses [OF a]
        by (auto simp: is_term_token_def uses_def) blast+
    next
      case False
      then show ?thesis
        using "2.prems" True a append_term_uses [OF a] by (auto simp: is_term_token_def uses_def split: if_splits)
    qed
  qed
qed (auto simp: uses_def)

lemma classic_tokens_use: "evoke_parse_classic_tokens al ts out = (al', Undefined, q) \<Longrightarrow> False \<in> set al"
  by (auto simp: evoke_parse_classic_tokens_def uses_def dest!: classic_loop_uses split: prod.splits sum.splits if_splits)

lemma split_loop_uses: "split_phrase_loop al cursor ts = (al', r) \<Longrightarrow> set al' \<subseteq> set al"
proof (induction al cursor ts rule: split_phrase_loop.induct)
  case (1 al cursor ts)
  have step: "split_phrase_step al w ts = (al1, r1) \<Longrightarrow> set al1 \<subseteq> set al" for w al1 r1
    by (auto simp: split_phrase_step_def evoke_copy_span_def Let_def dest!: alloc_uses split: if_splits prod.splits) blast+
  show ?case
  proof (cases "dropWhile isspace cursor")
    case Nil
    then show ?thesis using "1.prems" unfolding split_phrase_loop.simps [of _ cursor] Nil list.case by simp
  next
    case (Cons c cs)
    obtain al1 r1 where s: "split_phrase_step al (c # cs) ts = (al1, r1)" by fastforce
    show ?thesis
      using "1.prems" "1.IH" [OF Cons s [symmetric]] s step [OF s] unfolding split_phrase_loop.simps [of _ cursor] Cons
      by (cases r1) auto
  qed
qed

lemma next_token_uses: "next_token al c cs = (al', r, rest) \<Longrightarrow> set al' \<subseteq> set al"
proof -
  assume h: "next_token al c cs = (al', r, rest)"
  have "phrase_token al w = (al1, r1) \<Longrightarrow> set al1 \<subseteq> set al" for w al1 r1
    by (auto simp: phrase_token_def evoke_split_phrase_def split: prod.splits sum.splits if_splits dest!: split_loop_uses)
  moreover have "word_token al w = (al1, r1) \<Longrightarrow> set al1 \<subseteq> set al" for w al1 r1
    by (auto simp: word_token_def evoke_copy_span_def Let_def dest!: alloc_uses split: if_splits prod.splits option.splits)
  ultimately show ?thesis
    using h unfolding next_token_def
    by (auto split: if_splits list.splits prod.splits simp del: takeWhile.simps dropWhile.simps)
qed

lemma tokenize_loop_uses: "tokenize_loop al cursor ts b = (al', r) \<Longrightarrow> set al' \<subseteq> set al"
proof (induction al cursor ts b rule: tokenize_loop.induct)
  case (1 al cursor ts b)
  show ?case
  proof (cases "evoke_skip_space cursor")
    case Nil
    then show ?thesis using "1.prems" unfolding tokenize_loop.simps [of _ cursor] Nil list.case by simp
  next
    case (Cons c cs)
    obtain al1 r1 rest where s: "next_token al c cs = (al1, r1, rest)" by (metis prod_cases3)
    have al1: "set al1 \<subseteq> set al" by (rule next_token_uses [OF s])
    show ?thesis
    proof (cases r1)
      case (Inl st)
      then show ?thesis using "1.prems" s al1 unfolding tokenize_loop.simps [of _ cursor] Cons by simp
    next
      case (Inr x)
      obtain t tb where x: "x = (t, tb)" by fastforce
      obtain al2 st ts2 where app: "evoke_append_token al1 ts t = (al2, st, ts2)" by (metis prod_cases3)
      have al2: "set al2 \<subseteq> set al1"
        using app by (auto simp: evoke_append_token_def dest!: alloc_uses split: prod.splits if_splits)
      note IH = "1.IH" [OF Cons s [symmetric] refl Inr x [symmetric] _ app [symmetric] refl]
      show ?thesis
        using "1.prems" s al1 al2 app Inr x IH unfolding tokenize_loop.simps [of _ cursor] Cons by (auto split: if_splits)
    qed
  qed
qed

lemma tokenize_uses: "evoke_tokenize_query_string al (Some s) = (al', st, ts, b) \<Longrightarrow> set al' \<subseteq> set al"
  by (auto simp: evoke_tokenize_query_string_def split: prod.splits sum.splits dest!: tokenize_loop_uses)

text \<open>
  C20. Parsing a query string ends for every input and whichever allocations fail. Either it returns a status; on
  success the query is then well formed: at most 1024 terms, each with at least one non-empty word free
  of white space; a tree whose nodes have the children of their kind and whose leaves are indices of
  distinct terms, the terms in order when the boolean parser built it; no tree only for no terms; on
  failure the caller's query is left as it was. Or the copy of a term has run into undefined behaviour (see
  \<open>evoke_query_term_clone\<close>), which never happens as long as no allocation fails.
\<close>

theorem parsed_query_ok:
  "\<exists>al' e q. evoke_parse_query_string al (Some s) (Some out) = Some (al', e, Some q) \<and>
     (case e of Status st \<Rightarrow> if st = EVOKE_OK then query_ok q else q = out | Undefined \<Rightarrow> False \<in> set al)"
proof -
  obtain al1 st ts b where tz: "evoke_tokenize_query_string al (Some s) = (al1, st, ts, b)" by (metis prod_cases4)
  show ?thesis
  proof (cases "st = EVOKE_OK")
    case False
    then show ?thesis using tz by (simp add: evoke_parse_query_string_def)
  next
    case True
    have ts: "list_all token_ok ts" "length ts \<le> EVOKE_QUERY_MAX_TOKENS"
      using tz tokenize_loop_ok [of al s "[]" False]
      by (auto simp: evoke_tokenize_query_string_def split: prod.splits sum.splits)
    have al1: "set al1 \<subseteq> set al" using tz by (rule tokenize_uses)
    show ?thesis
    proof (cases b)
      case boolean: True
      obtain al2 e q where run: "evoke_parse_boolean_tokens al1 ts out = Some (al2, e, q)"
        using boolean_tokens_total [of al1 ts out] by (auto simp del: split_paired_Ex)
      have "query_ok q" if "e = Status EVOKE_OK"
        using boolean_tokens_ok [OF run [unfolded that]] terms_between_ok [OF ts(1)] ts(2)
        by (cases "query_root q") (auto simp: query_ok_def)
      moreover have "False \<in> set al" if "e = Undefined"
        using boolean_tokens_use [OF run [unfolded that]] al1 by blast
      ultimately show ?thesis
        using tz True boolean run boolean_tokens_error [OF run] by (cases e) (simp_all add: evoke_parse_query_string_def)
    next
      case False
      obtain al2 e q where run: "evoke_parse_classic_tokens al1 ts out = (al2, e, q)" by (metis prod_cases3)
      have "False \<in> set al" if "e = Undefined"
        using classic_tokens_use [OF run [unfolded that]] al1 by blast
      then show ?thesis
        using tz True False run classic_tokens_ok [OF run ts] by (cases e) (simp_all add: evoke_parse_query_string_def)
    qed
  qed
qed

section \<open>Rewriting terms\<close>

text \<open>
  The value of a tree in which some terms are absent: an absent operand of AND or OR is ignored,
  the negation of something absent is absent.
\<close>

fun both :: "(bool \<Rightarrow> bool \<Rightarrow> bool) \<Rightarrow> bool option \<Rightarrow> bool option \<Rightarrow> bool option" where
  "both f None y = y"
| "both f x None = x"
| "both f (Some a) (Some b) = Some (f a b)"

lemma both_None [simp]: "both f x None = x"
  by (cases x) simp_all

fun eval_present :: "(nat \<Rightarrow> bool option) \<Rightarrow> evoke_query_node option \<Rightarrow> bool option" where
  "eval_present v None = None"
| "eval_present v (Some (Node k i l r)) =
     (case k of
        EVOKE_QUERY_NODE_TERM \<Rightarrow> v i
      | EVOKE_QUERY_NODE_NOT \<Rightarrow> map_option Not (eval_present v l)
      | EVOKE_QUERY_NODE_AND \<Rightarrow> both (\<and>) (eval_present v l) (eval_present v r)
      | EVOKE_QUERY_NODE_OR \<Rightarrow> both (\<or>) (eval_present v l) (eval_present v r))"

definition live :: "nat list \<Rightarrow> nat \<Rightarrow> nat \<Rightarrow> bool" where
  "live old_to_new old_len i \<longleftrightarrow> i < old_len \<and> old_to_new ! i \<noteq> unset_index"

definition present :: "nat list \<Rightarrow> nat \<Rightarrow> (nat \<Rightarrow> bool) \<Rightarrow> nat \<Rightarrow> bool option" where
  "present m n v i = (if live m n i then Some (v (m ! i)) else None)"

text \<open>
  C22. Rewriting the terms of a well-formed tree keeps exactly the leaves that have a new index, in
  order and renumbered, in a well-formed tree; the tree vanishes only if no leaf is left. Its
  value is the value of the old tree with the dropped terms absent.
\<close>

theorem rewrite_keeps_meaning:
  assumes "node_wf (query_root q)"
  shows "\<exists>q'. evoke_query_rewrite_terms (Some q) (Some m) n = Some q' \<and> query_terms q' = query_terms q \<and>
    query_mode q' = query_mode q \<and>
    (query_root q' = None \<longleftrightarrow> filter (live m n) (leaves (query_root q)) = []) \<and>
    leaves (query_root q') = map ((!) m) (filter (live m n) (leaves (query_root q))) \<and>
    (query_root q' \<noteq> None \<longrightarrow> node_wf (query_root q') \<and>
       eval_present (present m n v) (query_root q) = Some (eval_node v (query_root q')))"
proof -
  have "(evoke_query_rewrite_node r m n = None \<longleftrightarrow> filter (live m n) (leaves r) = []) \<and>
      leaves (evoke_query_rewrite_node r m n) = map ((!) m) (filter (live m n) (leaves r)) \<and>
      (evoke_query_rewrite_node r m n = None \<longrightarrow> eval_present (present m n v) r = None) \<and>
      (evoke_query_rewrite_node r m n \<noteq> None \<longrightarrow> node_wf (evoke_query_rewrite_node r m n) \<and>
         eval_present (present m n v) r = Some (eval_node v (evoke_query_rewrite_node r m n)))"
    if "node_wf r" for r
    using that
  proof (induction r rule: node_wf.induct)
    case (2 k i l r)
    let ?l = "evoke_query_rewrite_node l m n" and ?r = "evoke_query_rewrite_node r m n"
    show ?case
    proof (cases k)
      case EVOKE_QUERY_NODE_TERM
      then show ?thesis using "2.prems" by (auto simp: live_def present_def)
    next
      case EVOKE_QUERY_NODE_NOT
      then show ?thesis using 2 by (cases ?l) auto
    next
      case EVOKE_QUERY_NODE_AND
      then show ?thesis using 2 by (cases ?l; cases ?r) (simp_all add: Let_def)
    next
      case EVOKE_QUERY_NODE_OR
      then show ?thesis using 2 by (cases ?l; cases ?r) (simp_all add: Let_def)
    qed
  qed simp
  from this [OF assms] show ?thesis by (simp add: evoke_query_rewrite_terms_def)
qed

text \<open>\<open>0 OR NOT 1\<close> with term 0 dropped and term 1 renumbered to 0 is \<open>NOT 0\<close>.\<close>

theorem rewrite_keeps_meaning_witness:
  "\<exists>q'. evoke_query_rewrite_terms
      (Some (zero_query\<lparr>query_root := Some (tree 0 (QOr (QTerm (sample_term 0x61)) (QNot (QTerm (sample_term 0x62)))))\<rparr>))
      (Some [unset_index, 0]) 2 = Some q' \<and>
     leaves (query_root q') = [0] \<and> (\<forall>v. eval_node v (query_root q') \<longleftrightarrow> \<not> v 0)"
proof -
  let ?q = "zero_query\<lparr>query_root := Some (tree 0 (QOr (QTerm (sample_term 0x61)) (QNot (QTerm (sample_term 0x62)))))\<rparr>"
  let ?m = "[unset_index, 0]"
  have wf: "node_wf (query_root ?q)" by simp
  have live: "filter (live ?m 2) (leaves (query_root ?q)) = [1]" by (simp add: live_def unset_index_def)
  have val: "eval_present (present ?m 2 v) (query_root ?q) = Some (\<not> v 0)" for v
    by (simp add: present_def live_def unset_index_def)
  let ?root = "Some (Node EVOKE_QUERY_NODE_NOT unset_index (Some (Node EVOKE_QUERY_NODE_TERM 0 None None)) None)"
  have run: "evoke_query_rewrite_terms (Some ?q) (Some ?m) 2 = Some (zero_query\<lparr>query_root := ?root\<rparr>)"
    by (simp add: evoke_query_rewrite_terms_def unset_index_def)
  have "Some (eval_node v ?root) = Some (\<not> v 0)" for v
    using rewrite_keeps_meaning [OF wf, of ?m 2 v] val [of v] unfolding run by simp
  then show ?thesis using run by simp
qed

section \<open>Simple queries\<close>

lemma simple_disjunction:
  "evoke_query_node_is_simple_term_disjunction q n \<Longrightarrow> node_wf n \<Longrightarrow>
   (eval_node v n \<longleftrightarrow> (\<exists>i \<in> set (leaves n). v i)) \<and>
   (\<forall>i \<in> set (leaves n). term_kind (query_terms q ! i) = EVOKE_QUERY_TERM \<and> length (term_tokens (query_terms q ! i)) = 1)"
proof (induction q n rule: evoke_query_node_is_simple_term_disjunction.induct)
  case (2 q k i l r)
  then show ?case by (cases k) (auto simp: Let_def split: if_splits)
qed simp

text \<open>
  C23. When no allocation fails, a parsed query that the code classifies as simple is a plain disjunction: it matches exactly
  when one of its terms does, and each of its terms is a single word. (With a failed allocation this is wrong, since
  \<open>evoke_query_build_classic_root\<close> may drop terms from the tree and report success; see \<open>classic_root_drops_terms\<close>.)
\<close>

theorem simple_query_is_disjunction:
  assumes "evoke_parse_query_string [] (Some s) (Some out) = Some (al, Status EVOKE_OK, Some q)"
    and "evoke_query_is_simple_term_query (Some q)"
  shows "(\<forall>v. eval_node v (query_root q) \<longleftrightarrow> (\<exists>i < length (query_terms q). v i)) \<and>
    (\<forall>t \<in> set (query_terms q). term_kind t = EVOKE_QUERY_TERM \<and> length (term_tokens t) = 1)"
proof -
  obtain al1 ts b where tz: "evoke_tokenize_query_string [] (Some s) = (al1, EVOKE_OK, ts, b)"
    using assms(1) by (auto simp: evoke_parse_query_string_def split: prod.splits if_splits)
  show ?thesis
  proof (cases b)
    case True
    then have run: "evoke_parse_boolean_tokens al1 ts out = Some (al, Status EVOKE_OK, q)"
      using assms(1) tz by (auto simp: evoke_parse_query_string_def)
    note ok = boolean_tokens_ok [OF run]
    then have "evoke_query_node_is_simple_term_disjunction q (query_root q)"
      using assms(2) by (simp add: evoke_query_is_simple_term_query_def split: if_splits)
    then show ?thesis
      using simple_disjunction [of q "query_root q"] ok by (auto simp: in_set_conv_nth)
  next
    case False
    then have "evoke_parse_classic_tokens [] ts out = (al, Status EVOKE_OK, q)"
      using assms(1) tz tokenize_uses [OF tz] by (auto simp: evoke_parse_query_string_def split: prod.splits)
    then have q: "query_mode q = EVOKE_QUERY_MODE_CLASSIC" "query_terms q = signed_terms ts 0"
      "ts \<noteq> [] \<Longrightarrow> eval_node v (query_root q) \<longleftrightarrow> classic_matches (query_terms q) v" for v
      using classic_parse_value [of ts out] classic_parse_refuses [of ts out] by (cases "classic_accepts ts"; force)+
    have simple: "query_terms q \<noteq> []" "\<forall>t \<in> set (query_terms q). term_kind t = EVOKE_QUERY_TERM \<and>
        term_occur t = EVOKE_QUERY_SHOULD \<and> length (term_tokens t) = 1"
      using assms(2) q(1) by (auto simp: evoke_query_is_simple_term_query_def list_all_iff split: if_splits)
    have "having (query_terms q) EVOKE_QUERY_SHOULD = {..<length (query_terms q)}"
      "having (query_terms q) EVOKE_QUERY_MUST = {}" "having (query_terms q) EVOKE_QUERY_MUST_NOT = {}"
      using simple(2) by (auto simp: having_def)
    then have "classic_matches (query_terms q) v \<longleftrightarrow> (\<exists>i < length (query_terms q). v i)" for v
      using simple(1) by (auto simp: classic_matches_def)
    moreover have "ts \<noteq> []" using simple(1) q(2) by (auto simp: signed_terms_def)
    ultimately show ?thesis using q(3) simple(2) by auto
  qed
qed

text \<open>The query \<open>a\<close>.\<close>

theorem simple_query_is_disjunction_witness:
  "\<exists>q. evoke_parse_query_string [] (Some [0x61]) (Some zero_query) = Some ([], Status EVOKE_OK, Some q) \<and>
     (\<forall>v. eval_node v (query_root q) \<longleftrightarrow> v 0)"
proof -
  let ?q = "\<lparr>query_mode = EVOKE_QUERY_MODE_CLASSIC, query_terms = [token_term (sample_term 0x61)],
    query_root = Some (Node EVOKE_QUERY_NODE_TERM 0 None None)\<rparr>"
  have "next_token [] 0x61 [] = ([], Inr (sample_term 0x61, False), [])"
    by (simp add: next_token_def word_token_def word_char_def isspace_def evoke_copy_span_def sample_term_def)
  then have "tokenize_loop [] [0x61] [] False = ([], Inr ([sample_term 0x61], False))"
    by (simp add: tokenize_loop.simps [of "[]" "[0x61]"] tokenize_loop.simps [of "[]" "[]"] evoke_skip_space_def
        isspace_def evoke_append_token_def EVOKE_QUERY_MAX_TOKENS_def)
  then have run: "evoke_parse_query_string [] (Some [0x61]) (Some zero_query) = Some ([], Status EVOKE_OK, Some ?q)"
    by (simp add: evoke_parse_query_string_def evoke_tokenize_query_string_def evoke_parse_classic_tokens_def
        evoke_query_build_classic_root_def node_binary_Nil zero_query_def sample_term_def evoke_query_node_binary_def)
  moreover have "evoke_query_is_simple_term_query (Some ?q)"
    by (simp add: evoke_query_is_simple_term_query_def sample_term_def)
  ultimately show ?thesis using simple_query_is_disjunction [OF run] by fastforce
qed

end
