(* ===== verification/Posting_Heat.thy ===== *)
theory Posting_Heat
  imports Prelude "HOL-Library.Product_Lexorder"
begin

unbundle bit_operations_syntax

text \<open>
  The heat table of \<open>src/evoke_posting_heat.c\<close>: a fixed, set-associative table of the terms that
  queries touch most, with counters that saturate and halve over time. Queries merge observations
  into it, the scheduler selects the best term to work on and notes what it tried.

  The table is a list of entries whose length is the capacity; a pointer to an entry is its index.
\<close>

section \<open>Data\<close>

definition EVOKE_POSTING_HEAT_WAYS :: u64 where "EVOKE_POSTING_HEAT_WAYS = 4"

record evoke_posting_heat_observation =
  ob_database_id :: u32
  ob_index_id :: u32
  ob_term_id :: u32
  ob_root_id :: u64
  ob_query_count :: u64
  ob_root_query_count :: u64
  ob_extent_transition_work :: u64
  ob_posting_work :: u64
  ob_block_work :: u64
  ob_blocks_considered :: u64
  ob_blocks_scored :: u64
  ob_blocks_skipped :: u64
  ob_postings_scored :: u64
  ob_last_posting_count :: u64
  ob_last_extent_count :: u32
  ob_last_block_count :: u32
  ob_impact_specialization_ready :: bool
  ob_hot_cache_republish_ready :: bool
  ob_observed_at_ms :: u64

record evoke_posting_heat_entry =
  he_database_id :: u32
  he_index_id :: u32
  he_term_id :: u32
  he_last_extent_count :: u32
  he_last_block_count :: u32
  he_impact_specialization_ready :: bool
  he_hot_cache_republish_ready :: bool
  he_root_id :: u64
  he_query_heat :: u64
  he_root_heat :: u64
  he_extent_transition_work :: u64
  he_posting_work :: u64
  he_block_work :: u64
  he_blocks_considered :: u64
  he_blocks_scored :: u64
  he_blocks_skipped :: u64
  he_postings_scored :: u64
  he_last_posting_count :: u64
  he_last_seen_ms :: u64
  he_last_decay_ms :: u64
  he_last_attempt_root_id :: u64
  he_last_attempt_ms :: u64

record evoke_posting_heat_merge_result =
  mr_valid :: bool
  mr_evicted :: bool
  mr_became_candidate :: bool
  mr_query_heat :: u64
  mr_root_heat :: u64

record evoke_posting_heat_summary =
  su_entry_count :: u32
  su_total_query_heat :: u64
  su_candidate_found :: bool
  su_candidate :: evoke_posting_heat_entry

definition zero_entry :: evoke_posting_heat_entry where
  "zero_entry = \<lparr>he_database_id = 0, he_index_id = 0, he_term_id = 0, he_last_extent_count = 0,
     he_last_block_count = 0, he_impact_specialization_ready = False, he_hot_cache_republish_ready = False,
     he_root_id = 0, he_query_heat = 0, he_root_heat = 0, he_extent_transition_work = 0, he_posting_work = 0,
     he_block_work = 0, he_blocks_considered = 0, he_blocks_scored = 0, he_blocks_skipped = 0,
     he_postings_scored = 0, he_last_posting_count = 0, he_last_seen_ms = 0, he_last_decay_ms = 0,
     he_last_attempt_root_id = 0, he_last_attempt_ms = 0\<rparr>"

definition zero_merge_result :: evoke_posting_heat_merge_result where
  "zero_merge_result = \<lparr>mr_valid = False, mr_evicted = False, mr_became_candidate = False, mr_query_heat = 0,
     mr_root_heat = 0\<rparr>"

section \<open>Entries\<close>

definition evoke_posting_heat_add_saturating :: "u64 \<Rightarrow> u64 \<Rightarrow> u64" where
  "evoke_posting_heat_add_saturating left right =
     (if UINT64_MAX - left < right then UINT64_MAX else left + right)"

definition evoke_posting_heat_hash :: "u32 \<Rightarrow> u32 \<Rightarrow> u32 \<Rightarrow> u64" where
  "evoke_posting_heat_hash database_id index_id term_id =
     (let key = (push_bit 32 (u64_of_u32 database_id) XOR push_bit 1 (u64_of_u32 index_id)) XOR u64_of_u32 term_id;
          key = key XOR drop_bit 33 key;
          key = key * 0xff51afd7ed558ccd;
          key = key XOR drop_bit 33 key;
          key = key * 0xc4ceb9fe1a85ec53;
          key = key XOR drop_bit 33 key
      in key)"

definition evoke_posting_heat_entry_valid :: "evoke_posting_heat_entry \<Rightarrow> bool" where
  "evoke_posting_heat_entry_valid e \<longleftrightarrow> he_database_id e \<noteq> 0 \<and> he_index_id e \<noteq> 0"

definition evoke_posting_heat_entry_matches :: "evoke_posting_heat_entry \<Rightarrow> u32 \<Rightarrow> u32 \<Rightarrow> u32 \<Rightarrow> bool" where
  "evoke_posting_heat_entry_matches e database_id index_id term_id \<longleftrightarrow>
     evoke_posting_heat_entry_valid e \<and> he_database_id e = database_id \<and> he_index_id e = index_id \<and>
     he_term_id e = term_id"

text \<open>The nine decaying counters, changed by the same function.\<close>

definition map_counters :: "(u64 \<Rightarrow> u64) \<Rightarrow> evoke_posting_heat_entry \<Rightarrow> evoke_posting_heat_entry" where
  "map_counters f e = e\<lparr>he_query_heat := f (he_query_heat e), he_root_heat := f (he_root_heat e),
     he_extent_transition_work := f (he_extent_transition_work e), he_posting_work := f (he_posting_work e),
     he_block_work := f (he_block_work e), he_blocks_considered := f (he_blocks_considered e),
     he_blocks_scored := f (he_blocks_scored e), he_blocks_skipped := f (he_blocks_skipped e),
     he_postings_scored := f (he_postings_scored e)\<rparr>"

definition evoke_posting_heat_decay :: "evoke_posting_heat_entry \<Rightarrow> u64 \<Rightarrow> u64 \<Rightarrow> evoke_posting_heat_entry" where
  "evoke_posting_heat_decay e now_ms half_life_ms =
     (if \<not> evoke_posting_heat_entry_valid e \<or> half_life_ms = 0 \<or> now_ms \<le> he_last_decay_ms e then e
      else
        let elapsed_ms = now_ms - he_last_decay_ms e;
            steps = elapsed_ms div half_life_ms
        in
          if steps = 0 then e
          else
            let e = (if steps \<ge> 64 then map_counters (\<lambda>_. 0) e else map_counters (drop_bit (unat steps)) e)
            in e\<lparr>he_last_decay_ms := now_ms - elapsed_ms mod half_life_ms\<rparr>)"

section \<open>Buckets\<close>

definition evoke_posting_heat_bucket_start :: "u64 \<Rightarrow> u32 \<Rightarrow> u32 \<Rightarrow> u32 \<Rightarrow> u64" where
  "evoke_posting_heat_bucket_start capacity database_id index_id term_id =
     (let bucket_count = capacity div EVOKE_POSTING_HEAT_WAYS;
          hash = evoke_posting_heat_hash database_id index_id term_id
      in (hash mod bucket_count) * EVOKE_POSTING_HEAT_WAYS)"

definition evoke_posting_heat_table_valid :: "u64 \<Rightarrow> bool" where
  "evoke_posting_heat_table_valid capacity =
     (if capacity < EVOKE_POSTING_HEAT_WAYS \<or> capacity mod EVOKE_POSTING_HEAT_WAYS \<noteq> 0 then False
      else
        let bucket_count = capacity div EVOKE_POSTING_HEAT_WAYS in
        bucket_count AND (bucket_count - 1) = 0)"

definition evoke_posting_heat_find ::
  "evoke_posting_heat_entry list option \<Rightarrow> u64 \<Rightarrow> u32 \<Rightarrow> u32 \<Rightarrow> u32 \<Rightarrow> nat option" where
  "evoke_posting_heat_find entries capacity database_id index_id term_id =
     (if \<not> evoke_posting_heat_table_valid capacity \<or> entries = None then None
      else
        let bucket_start = unat (evoke_posting_heat_bucket_start capacity database_id index_id term_id) in
        find (\<lambda>i. evoke_posting_heat_entry_matches (the entries ! i) database_id index_id term_id)
          [bucket_start..<bucket_start + 4])"

section \<open>Merging\<close>

text \<open>
  The loop over the ways of a bucket: the table with the decayed entries, the entry that matches,
  where the loop breaks off, and the victim so far.
\<close>

fun merge_scan ::
  "evoke_posting_heat_observation \<Rightarrow> u64 \<Rightarrow> nat list \<Rightarrow> evoke_posting_heat_entry list \<Rightarrow> nat option
     \<Rightarrow> evoke_posting_heat_entry list \<times> nat option \<times> nat option" where
  "merge_scan ob half_life_ms [] entries victim = (entries, None, victim)"
| "merge_scan ob half_life_ms (i # ways) entries victim =
     (let candidate = entries ! i in
      if evoke_posting_heat_entry_matches candidate (ob_database_id ob) (ob_index_id ob) (ob_term_id ob)
      then (entries, Some i, victim)
      else if \<not> evoke_posting_heat_entry_valid candidate
      then merge_scan ob half_life_ms ways entries (if victim = None then Some i else victim)
      else
        let candidate = evoke_posting_heat_decay candidate (ob_observed_at_ms ob) half_life_ms;
            entries = entries[i := candidate]
        in merge_scan ob half_life_ms ways entries
             (case victim of
                None \<Rightarrow> Some i
              | Some v \<Rightarrow>
                  if he_query_heat candidate < he_query_heat (entries ! v) \<or>
                     (he_query_heat candidate = he_query_heat (entries ! v) \<and>
                      he_last_seen_ms candidate < he_last_seen_ms (entries ! v))
                  then Some i else Some v))"

text \<open>What a merge does to the entry of the term, once it is there.\<close>

definition merge_entry ::
  "evoke_posting_heat_observation \<Rightarrow> bool \<Rightarrow> evoke_posting_heat_entry \<Rightarrow> evoke_posting_heat_entry" where
  "merge_entry ob prior_hot e =
     (let e = e\<lparr>he_query_heat := evoke_posting_heat_add_saturating (he_query_heat e) (ob_query_count ob)\<rparr>;
          newer = (ob_root_id ob > he_root_id e);
          current = (newer \<or> ob_root_id ob = he_root_id e);
          prior_hot = (prior_hot \<and> \<not> newer);
          e = (if newer
               then e\<lparr>he_root_id := ob_root_id ob, he_root_heat := ob_root_query_count ob,
                      he_extent_transition_work := 0, he_posting_work := 0, he_block_work := 0,
                      he_blocks_considered := 0, he_blocks_scored := 0, he_blocks_skipped := 0,
                      he_postings_scored := 0, he_impact_specialization_ready := False,
                      he_hot_cache_republish_ready := False\<rparr>
               else if current
               then e\<lparr>he_root_heat := evoke_posting_heat_add_saturating (he_root_heat e) (ob_root_query_count ob)\<rparr>
               else e);
          e = (if current
               then e\<lparr>he_extent_transition_work :=
                        evoke_posting_heat_add_saturating (he_extent_transition_work e) (ob_extent_transition_work ob),
                      he_posting_work := evoke_posting_heat_add_saturating (he_posting_work e) (ob_posting_work ob),
                      he_block_work := evoke_posting_heat_add_saturating (he_block_work e) (ob_block_work ob),
                      he_blocks_considered :=
                        evoke_posting_heat_add_saturating (he_blocks_considered e) (ob_blocks_considered ob),
                      he_blocks_scored := evoke_posting_heat_add_saturating (he_blocks_scored e) (ob_blocks_scored ob),
                      he_blocks_skipped := evoke_posting_heat_add_saturating (he_blocks_skipped e) (ob_blocks_skipped ob),
                      he_postings_scored :=
                        evoke_posting_heat_add_saturating (he_postings_scored e) (ob_postings_scored ob)\<rparr>
               else e);
          e = (if current \<and> ob_observed_at_ms ob \<ge> he_last_seen_ms e
               then
                 let e = e\<lparr>he_last_extent_count := ob_last_extent_count ob,
                           he_last_block_count := ob_last_block_count ob,
                           he_last_posting_count := ob_last_posting_count ob,
                           he_impact_specialization_ready := ob_impact_specialization_ready ob,
                           he_hot_cache_republish_ready := ob_hot_cache_republish_ready ob\<rparr>
                 in if he_hot_cache_republish_ready e \<and> \<not> prior_hot
                    then e\<lparr>he_last_attempt_root_id := 0, he_last_attempt_ms := 0\<rparr> else e
               else e)
      in e\<lparr>he_last_seen_ms :=
             (if ob_observed_at_ms ob > he_last_seen_ms e then ob_observed_at_ms ob else he_last_seen_ms e)\<rparr>)"

definition observation_valid :: "evoke_posting_heat_observation \<Rightarrow> bool" where
  "observation_valid ob \<longleftrightarrow> ob_database_id ob \<noteq> 0 \<and> ob_index_id ob \<noteq> 0 \<and> ob_query_count ob \<noteq> 0 \<and>
     ob_root_query_count ob \<le> ob_query_count ob \<and> ob_observed_at_ms ob \<noteq> 0"

text \<open>The rest of a merge, behind the choice of the entry: its result and the table with the entry changed.\<close>

definition merge_finish ::
  "evoke_posting_heat_observation \<Rightarrow> u64 \<Rightarrow> u64 \<Rightarrow> nat \<Rightarrow> evoke_posting_heat_entry list \<Rightarrow> bool \<Rightarrow> u64 \<Rightarrow> u64 \<Rightarrow> bool
     \<Rightarrow> evoke_posting_heat_merge_result \<times> evoke_posting_heat_entry list option" where
  "merge_finish ob candidate_heat candidate_root_heat i entries evicted prior_heat prior_root_heat prior_hot =
     (let newer = (ob_root_id ob > he_root_id (entries ! i));
          prior_root_heat = (if newer then 0 else prior_root_heat);
          e = merge_entry ob prior_hot (entries ! i)
      in (\<lparr>mr_valid = True, mr_evicted = evicted,
           mr_became_candidate =
             (he_last_extent_count e > 1 \<or> he_impact_specialization_ready e \<or> he_hot_cache_republish_ready e) \<and>
             he_query_heat e \<ge> candidate_heat \<and> he_root_heat e \<ge> candidate_root_heat \<and>
             (prior_heat < candidate_heat \<or> prior_root_heat < candidate_root_heat),
           mr_query_heat = he_query_heat e, mr_root_heat = he_root_heat e\<rparr>,
          Some (entries[i := e])))"

definition evoke_posting_heat_merge ::
  "evoke_posting_heat_entry list option \<Rightarrow> u64 \<Rightarrow> evoke_posting_heat_observation option \<Rightarrow> u64 \<Rightarrow> u64 \<Rightarrow> u64
     \<Rightarrow> evoke_posting_heat_merge_result \<times> evoke_posting_heat_entry list option" where
  "evoke_posting_heat_merge table capacity observation half_life_ms candidate_heat candidate_root_heat =
     (case (table, observation) of
        (Some entries, Some ob) \<Rightarrow>
          if \<not> evoke_posting_heat_table_valid capacity \<or> \<not> observation_valid ob
          then (zero_merge_result, table)
          else
            let bucket_start = unat (evoke_posting_heat_bucket_start capacity (ob_database_id ob) (ob_index_id ob)
                                       (ob_term_id ob));
                (entries, found, victim) =
                  merge_scan ob half_life_ms [bucket_start..<bucket_start + 4] entries None
            in
              (case found of
                 None \<Rightarrow>
                   (case victim of
                      None \<Rightarrow> (zero_merge_result, Some entries)
                    | Some v \<Rightarrow>
                        merge_finish ob candidate_heat candidate_root_heat v
                          (entries[v := zero_entry\<lparr>he_database_id := ob_database_id ob, he_index_id := ob_index_id ob,
                                          he_term_id := ob_term_id ob, he_last_decay_ms := ob_observed_at_ms ob\<rparr>])
                          (evoke_posting_heat_entry_valid (entries ! v)) 0 0 False)
               | Some i \<Rightarrow>
                   let e = evoke_posting_heat_decay (entries ! i) (ob_observed_at_ms ob) half_life_ms
                   in merge_finish ob candidate_heat candidate_root_heat i (entries[i := e]) False (he_query_heat e) (he_root_heat e)
                        (he_hot_cache_republish_ready e))
      | _ \<Rightarrow> (zero_merge_result, table))"

section \<open>Selecting\<close>

definition scored_exposure :: "evoke_posting_heat_entry \<Rightarrow> u64" where
  "scored_exposure e =
     (if he_blocks_considered e \<ge> he_blocks_skipped e then he_blocks_considered e - he_blocks_skipped e else 0)"

definition fragment_work :: "evoke_posting_heat_entry \<Rightarrow> u64" where
  "fragment_work e = evoke_posting_heat_add_saturating (he_extent_transition_work e) (scored_exposure e)"

definition evoke_posting_heat_candidate_is_better ::
  "evoke_posting_heat_entry \<Rightarrow> evoke_posting_heat_entry option \<Rightarrow> bool" where
  "evoke_posting_heat_candidate_is_better candidate current =
     (case current of
        None \<Rightarrow> True
      | Some c \<Rightarrow>
          if fragment_work candidate \<noteq> fragment_work c then fragment_work candidate > fragment_work c
          else if he_root_heat candidate \<noteq> he_root_heat c then he_root_heat candidate > he_root_heat c
          else if he_query_heat candidate \<noteq> he_query_heat c then he_query_heat candidate > he_query_heat c
          else he_term_id candidate < he_term_id c)"

text \<open>The conditions of the two \<open>continue\<close> statements behind the decay.\<close>

definition selectable :: "u64 \<Rightarrow> u64 \<Rightarrow> u64 \<Rightarrow> u64 \<Rightarrow> u64 \<Rightarrow> evoke_posting_heat_entry \<Rightarrow> bool" where
  "selectable root_id now_ms minimum_heat minimum_root_heat retry_cooldown_ms e \<longleftrightarrow>
     \<not> (he_root_id e \<noteq> root_id \<or> he_query_heat e < minimum_heat \<or> he_root_heat e < minimum_root_heat \<or>
        (he_last_extent_count e < 2 \<and> \<not> he_impact_specialization_ready e \<and> \<not> he_hot_cache_republish_ready e)) \<and>
     \<not> (he_last_attempt_root_id e = root_id \<and> now_ms \<ge> he_last_attempt_ms e \<and>
        now_ms - he_last_attempt_ms e < retry_cooldown_ms)"

definition of_index :: "u32 \<Rightarrow> u32 \<Rightarrow> evoke_posting_heat_entry \<Rightarrow> bool" where
  "of_index database_id index_id e \<longleftrightarrow>
     evoke_posting_heat_entry_valid e \<and> he_database_id e = database_id \<and> he_index_id e = index_id"

text \<open>The loop over the table: the entries it has passed, and the best one so far.\<close>

fun select_scan ::
  "(evoke_posting_heat_entry \<Rightarrow> bool) \<Rightarrow> (evoke_posting_heat_entry \<Rightarrow> evoke_posting_heat_entry)
     \<Rightarrow> (evoke_posting_heat_entry \<Rightarrow> bool) \<Rightarrow> evoke_posting_heat_entry list \<Rightarrow> evoke_posting_heat_entry option
     \<Rightarrow> evoke_posting_heat_entry list \<times> evoke_posting_heat_entry option" where
  "select_scan mine decay eligible [] best = ([], best)"
| "select_scan mine decay eligible (e # es) best =
     (if \<not> mine e
      then (case select_scan mine decay eligible es best of (es', b) \<Rightarrow> (e # es', b))
      else
        let e = decay e;
            best = (if eligible e \<and> evoke_posting_heat_candidate_is_better e best then Some e else best)
        in (case select_scan mine decay eligible es best of (es', b) \<Rightarrow> (e # es', b)))"

definition evoke_posting_heat_select ::
  "evoke_posting_heat_entry list option \<Rightarrow> u64 \<Rightarrow> u32 \<Rightarrow> u32 \<Rightarrow> u64 \<Rightarrow> u64 \<Rightarrow> u64 \<Rightarrow> u64 \<Rightarrow> u64 \<Rightarrow> u64
     \<Rightarrow> evoke_posting_heat_entry option
     \<Rightarrow> bool \<times> evoke_posting_heat_entry list option \<times> evoke_posting_heat_entry option" where
  "evoke_posting_heat_select table capacity database_id index_id root_id now_ms half_life_ms minimum_heat
     minimum_root_heat retry_cooldown_ms candidate_out =
     (case (table, candidate_out) of
        (Some entries, Some _) \<Rightarrow>
          if \<not> evoke_posting_heat_table_valid capacity \<or> database_id = 0 \<or> index_id = 0 \<or> root_id = 0 \<or> now_ms = 0
          then (False, table, candidate_out)
          else
            (case select_scan (of_index database_id index_id) (\<lambda>e. evoke_posting_heat_decay e now_ms half_life_ms)
                    (selectable root_id now_ms minimum_heat minimum_root_heat retry_cooldown_ms) entries None of
               (entries, None) \<Rightarrow> (False, Some entries, Some zero_entry)
             | (entries, Some best) \<Rightarrow> (True, Some entries, Some best))
      | _ \<Rightarrow> (False, table, candidate_out))"

section \<open>Notes and summaries\<close>

definition note_entry ::
  "(evoke_posting_heat_entry \<Rightarrow> evoke_posting_heat_entry) \<Rightarrow> evoke_posting_heat_entry list option \<Rightarrow> u64
     \<Rightarrow> u32 \<Rightarrow> u32 \<Rightarrow> u32 \<Rightarrow> u64 \<Rightarrow> bool \<times> evoke_posting_heat_entry list option" where
  "note_entry change table capacity database_id index_id term_id root_id =
     (case evoke_posting_heat_find table capacity database_id index_id term_id of
        None \<Rightarrow> (False, table)
      | Some i \<Rightarrow>
          if he_root_id (the table ! i) \<noteq> root_id then (False, table)
          else (True, Some ((the table)[i := change (the table ! i)])))"

definition evoke_posting_heat_note_attempt ::
  "evoke_posting_heat_entry list option \<Rightarrow> u64 \<Rightarrow> u32 \<Rightarrow> u32 \<Rightarrow> u32 \<Rightarrow> u64 \<Rightarrow> u64
     \<Rightarrow> bool \<times> evoke_posting_heat_entry list option" where
  "evoke_posting_heat_note_attempt table capacity database_id index_id term_id root_id attempted_at_ms =
     note_entry (\<lambda>e. e\<lparr>he_last_attempt_root_id := root_id, he_last_attempt_ms := attempted_at_ms\<rparr>)
       table capacity database_id index_id term_id root_id"

definition evoke_posting_heat_note_hot_cache_resident ::
  "evoke_posting_heat_entry list option \<Rightarrow> u64 \<Rightarrow> u32 \<Rightarrow> u32 \<Rightarrow> u32 \<Rightarrow> u64
     \<Rightarrow> bool \<times> evoke_posting_heat_entry list option" where
  "evoke_posting_heat_note_hot_cache_resident table capacity database_id index_id term_id root_id =
     note_entry (\<lambda>e. e\<lparr>he_hot_cache_republish_ready := False\<rparr>)
       table capacity database_id index_id term_id root_id"

fun summary_scan ::
  "(evoke_posting_heat_entry \<Rightarrow> bool) \<Rightarrow> (evoke_posting_heat_entry \<Rightarrow> evoke_posting_heat_entry)
     \<Rightarrow> evoke_posting_heat_entry list \<Rightarrow> u32 \<Rightarrow> u64 \<Rightarrow> evoke_posting_heat_entry list \<times> u32 \<times> u64" where
  "summary_scan mine decay [] entry_count heat_sum = ([], entry_count, heat_sum)"
| "summary_scan mine decay (e # es) entry_count heat_sum =
     (if \<not> mine e
      then (case summary_scan mine decay es entry_count heat_sum of (es', r) \<Rightarrow> (e # es', r))
      else
        let e = decay e in
        (case summary_scan mine decay es (entry_count + 1)
                (evoke_posting_heat_add_saturating heat_sum (he_query_heat e)) of (es', r) \<Rightarrow> (e # es', r)))"

definition evoke_posting_heat_summarize ::
  "evoke_posting_heat_entry list option \<Rightarrow> u64 \<Rightarrow> u32 \<Rightarrow> u32 \<Rightarrow> u64 \<Rightarrow> u64 \<Rightarrow> u64 \<Rightarrow> u64 \<Rightarrow> u64 \<Rightarrow> u64
     \<Rightarrow> evoke_posting_heat_summary option
     \<Rightarrow> evoke_posting_heat_entry list option \<times> evoke_posting_heat_summary option" where
  "evoke_posting_heat_summarize table capacity database_id index_id root_id now_ms half_life_ms minimum_heat
     minimum_root_heat retry_cooldown_ms summary_out =
     (case summary_out of
        None \<Rightarrow> (table, None)
      | Some _ \<Rightarrow>
          let zero = \<lparr>su_entry_count = 0, su_total_query_heat = 0, su_candidate_found = False,
                      su_candidate = zero_entry\<rparr> in
          (case table of
             None \<Rightarrow> (table, Some zero)
           | Some entries \<Rightarrow>
               if \<not> evoke_posting_heat_table_valid capacity then (table, Some zero)
               else
                 let (entries, entry_count, heat_sum) =
                       summary_scan (of_index database_id index_id)
                         (\<lambda>e. evoke_posting_heat_decay e now_ms half_life_ms) entries 0 0;
                     (found, table, candidate) =
                       evoke_posting_heat_select (Some entries) capacity database_id index_id root_id now_ms
                         half_life_ms minimum_heat minimum_root_heat retry_cooldown_ms (Some zero_entry)
                 in (table, Some \<lparr>su_entry_count = entry_count, su_total_query_heat = heat_sum,
                       su_candidate_found = found, su_candidate = the candidate\<rparr>)))"

section \<open>Decay\<close>

lemma map_counters_simps [simp]:
  "he_database_id (map_counters f e) = he_database_id e" "he_index_id (map_counters f e) = he_index_id e"
  "he_term_id (map_counters f e) = he_term_id e" "he_last_decay_ms (map_counters f e) = he_last_decay_ms e"
  "he_query_heat (map_counters f e) = f (he_query_heat e)"
  "he_root_heat (map_counters f e) = f (he_root_heat e)" "he_root_id (map_counters f e) = he_root_id e"
  by (simp_all add: map_counters_def)

lemma decay_keeps [simp]:
  "he_database_id (evoke_posting_heat_decay e t h) = he_database_id e"
  "he_index_id (evoke_posting_heat_decay e t h) = he_index_id e"
  "he_term_id (evoke_posting_heat_decay e t h) = he_term_id e"
  "he_root_id (evoke_posting_heat_decay e t h) = he_root_id e"
  by (simp_all add: evoke_posting_heat_decay_def Let_def)

lemma decay_valid [simp]:
  "evoke_posting_heat_entry_valid (evoke_posting_heat_decay e t h) = evoke_posting_heat_entry_valid e"
  by (simp add: evoke_posting_heat_entry_valid_def)

text \<open>The number of half-lives between the last decay and now, and the decay as one formula.\<close>

definition half_lives :: "evoke_posting_heat_entry \<Rightarrow> u64 \<Rightarrow> u64 \<Rightarrow> nat" where
  "half_lives e t h = (unat t - unat (he_last_decay_ms e)) div unat h"

definition shifted :: "nat \<Rightarrow> nat \<Rightarrow> evoke_posting_heat_entry \<Rightarrow> evoke_posting_heat_entry" where
  "shifted s t e = (map_counters (drop_bit s) e)\<lparr>he_last_decay_ms := of_nat t\<rparr>"

lemma shifted_last: "he_last_decay_ms (shifted s t e) = of_nat t"
  by (simp add: shifted_def)

lemma shifted_shifted: "shifted a t (shifted b u e) = shifted (b + a) t e"
  by (simp add: shifted_def map_counters_def add.commute)

lemma drop_bit_large: "64 \<le> n \<Longrightarrow> drop_bit n (x :: u64) = 0"
  by (rule bit_eqI) (auto simp: bit_simps dest: bit_imp_le_length)

lemma map_counters_zero: "64 \<le> n \<Longrightarrow> map_counters (\<lambda>_. 0) e = map_counters (drop_bit n) e"
  by (simp add: map_counters_def drop_bit_large)

lemma map_counters_id [simp]: "map_counters id e = e"
  by (simp add: map_counters_def)

lemma decay_formula:
  assumes "evoke_posting_heat_entry_valid e"
  shows "evoke_posting_heat_decay e t h =
    shifted (half_lives e t h) (unat (he_last_decay_ms e) + half_lives e t h * unat h) e"
proof (cases "h = 0 \<or> t \<le> he_last_decay_ms e")
  case True
  then have "half_lives e t h = 0" by (auto simp: half_lives_def word_le_nat_alt)
  moreover have "evoke_posting_heat_decay e t h = e" using True by (auto simp: evoke_posting_heat_decay_def)
  ultimately show ?thesis by (simp add: shifted_def)
next
  case False
  let ?L = "he_last_decay_ms e" and ?s = "half_lives e t h"
  have le: "?L \<le> t" using False by (meson linear)
  have steps: "unat ((t - ?L) div h) = ?s" using unat_sub_word [OF le] by (simp add: unat_div half_lives_def)
  have "t - (t - ?L) mod h = ?L + (t - ?L) div h * h"
    using div_mult_mod_eq [of "t - ?L" h] by (simp add: algebra_simps)
  also have "\<dots> = of_nat (unat ?L + ?s * unat h)" by (simp add: steps [symmetric])
  finally have last: "t - (t - ?L) mod h = of_nat (unat ?L + ?s * unat h)" .
  show ?thesis
  proof (cases "(t - ?L) div h = 0")
    case True
    then have "?s = 0" using steps by simp
    then show ?thesis using True False assms by (simp add: evoke_posting_heat_decay_def shifted_def)
  next
    case pos: False
    have "(64 \<le> (t - ?L) div h) = (64 \<le> ?s)" by (simp add: word_le_nat_alt steps)
    then have "(if 64 \<le> (t - ?L) div h then map_counters (\<lambda>_. 0) e
        else map_counters (drop_bit (unat ((t - ?L) div h))) e) = map_counters (drop_bit ?s) e"
      using map_counters_zero [of ?s e] steps by simp
    then show ?thesis
      using pos False assms last by (simp add: evoke_posting_heat_decay_def Let_def shifted_def)
  qed
qed

lemma unat_of_nat_small: "n < 2 ^ 64 \<Longrightarrow> unat (of_nat n :: u64) = n"
  by (simp add: unat_of_nat)

lemma decay_decay:
  assumes "t1 \<le> t2"
  shows "evoke_posting_heat_decay (evoke_posting_heat_decay e t1 h) t2 h = evoke_posting_heat_decay e t2 h"
proof (cases "evoke_posting_heat_entry_valid e")
  case False
  then show ?thesis by (simp add: evoke_posting_heat_decay_def)
next
  case True
  let ?e1 = "evoke_posting_heat_decay e t1 h" and ?L = "unat (he_last_decay_ms e)"
  let ?s1 = "half_lives e t1 h" and ?s = "half_lives e t2 h"
  have e1: "?e1 = shifted ?s1 (?L + ?s1 * unat h) e" by (rule decay_formula [OF True])
  have le: "?s1 * unat h \<le> unat t1 - ?L" by (simp add: half_lives_def)
  have t12: "unat t1 - ?L \<le> unat t2 - ?L" using assms by (simp add: word_le_nat_alt diff_le_mono)
  have "?L + ?s1 * unat h < 2 ^ 64"
  proof (cases "?L \<le> unat t1")
    case True
    then show ?thesis using le u64_less [of t1] by (simp del: u64_less)
  next
    case False
    then have zero: "?s1 * unat h = 0" using le by simp
    show ?thesis unfolding zero using u64_less [of "he_last_decay_ms e"] by simp
  qed
  then have "unat (of_nat (?L + ?s1 * unat h) :: u64) = ?L + ?s1 * unat h" by (rule unat_of_nat_small)
  then have L1: "unat (he_last_decay_ms ?e1) = ?L + ?s1 * unat h"
    unfolding e1 shifted_last .
  obtain b where b: "unat t2 - ?L = ?s1 * unat h + b"
    using le_Suc_ex [OF order_trans [OF le t12]] by (elim exE) (rule that)
  have s: "?s = ?s1 + half_lives ?e1 t2 h"
  proof (cases "h = 0")
    case False
    then have "unat h \<noteq> 0" by (simp add: unat_eq_0)
    moreover have "unat t2 - (?L + ?s1 * unat h) = b" using b by (simp only: diff_diff_left [symmetric] add_diff_cancel_left')
    ultimately show ?thesis unfolding half_lives_def [of ?e1] L1 half_lives_def [of e t2 h] b by simp
  qed (simp add: half_lives_def)
  have "evoke_posting_heat_decay ?e1 t2 h =
      shifted (half_lives ?e1 t2 h) (unat (he_last_decay_ms ?e1) + half_lives ?e1 t2 h * unat h) ?e1"
    using True by (intro decay_formula) simp
  also have "\<dots> = shifted ?s (?L + ?s * unat h) e"
  proof -
    have "shifted c (?L + ?s1 * unat h + c * unat h) ?e1 = shifted (?s1 + c) (?L + (?s1 + c) * unat h) e" for c
      unfolding e1 shifted_shifted by (simp only: distrib_right add.assoc)
    then show ?thesis unfolding L1 s .
  qed
  also have "\<dots> = evoke_posting_heat_decay e t2 h" by (rule decay_formula [OF True, symmetric])
  finally show ?thesis .
qed

text \<open>
  Decay does not depend on when it is applied: decaying an entry at one time and again at a
  later one leaves exactly what decaying it once at the later time does, so the lazy decay of the
  table loses nothing, also across the cut-off at 64 half-lives.
\<close>

lemma decay_composes:
  assumes "t1 \<le> t2"
  shows "evoke_posting_heat_decay (evoke_posting_heat_decay e t1 h) t2 h = evoke_posting_heat_decay e t2 h"
  using assms by (rule decay_decay)

definition sample_entry :: evoke_posting_heat_entry where
  "sample_entry = zero_entry\<lparr>he_database_id := 11, he_index_id := 22, he_term_id := 7, he_query_heat := 96,
     he_last_decay_ms := 1000\<rparr>"

text \<open>Half-life 1000: from 1000, once at 2500 and once at 3100, against once at 3100.\<close>

section \<open>Well-formed tables\<close>

type_synonym heat_key = "u32 \<times> u32 \<times> u32"

definition entry_key :: "evoke_posting_heat_entry \<Rightarrow> heat_key" where
  "entry_key e = (he_database_id e, he_index_id e, he_term_id e)"

definition bucket :: "u64 \<Rightarrow> heat_key \<Rightarrow> nat" where
  "bucket capacity k = (case k of (d, x, t) \<Rightarrow> unat (evoke_posting_heat_bucket_start capacity d x t))"

text \<open>Every entry sits in the bucket of its key, and no key has two entries.\<close>

definition heat_ok :: "u64 \<Rightarrow> evoke_posting_heat_entry list \<Rightarrow> bool" where
  "heat_ok capacity es \<longleftrightarrow> length es = unat capacity \<and>
     (\<forall>i < length es. evoke_posting_heat_entry_valid (es ! i) \<longrightarrow>
        bucket capacity (entry_key (es ! i)) \<le> i \<and> i < bucket capacity (entry_key (es ! i)) + 4) \<and>
     (\<forall>i < length es. \<forall>j < length es. evoke_posting_heat_entry_valid (es ! i) \<longrightarrow>
        evoke_posting_heat_entry_valid (es ! j) \<longrightarrow> entry_key (es ! i) = entry_key (es ! j) \<longrightarrow> i = j)"

lemma heat_okD:
  assumes "heat_ok capacity es"
  shows "length es = unat capacity"
    and "i < length es \<Longrightarrow> evoke_posting_heat_entry_valid (es ! i) \<Longrightarrow> bucket capacity (entry_key (es ! i)) \<le> i"
    and "i < length es \<Longrightarrow> evoke_posting_heat_entry_valid (es ! i) \<Longrightarrow> i < bucket capacity (entry_key (es ! i)) + 4"
    and "i < length es \<Longrightarrow> j < length es \<Longrightarrow> evoke_posting_heat_entry_valid (es ! i) \<Longrightarrow>
      evoke_posting_heat_entry_valid (es ! j) \<Longrightarrow> entry_key (es ! i) = entry_key (es ! j) \<Longrightarrow> i = j"
  using assms by (auto simp: heat_ok_def)

lemma table_valid_buckets:
  assumes "evoke_posting_heat_table_valid capacity"
  shows "unat capacity = unat (capacity div 4) * 4" and "0 < unat (capacity div 4)"
proof -
  have v: "\<not> capacity < 4" "capacity mod 4 = 0"
    using assms by (auto simp: evoke_posting_heat_table_valid_def EVOKE_POSTING_HEAT_WAYS_def split: if_splits)
  have "unat (capacity mod 4) = 0" using v(2) by simp
  then have "unat capacity mod 4 = 0" by (simp add: unat_mod)
  then show "unat capacity = unat (capacity div 4) * 4" by (auto simp: unat_div)
  have "4 \<le> unat capacity" using v(1) by (simp add: word_less_nat_alt)
  then show "0 < unat (capacity div 4)" by (simp add: unat_div)
qed

lemma bucket_fits:
  assumes "evoke_posting_heat_table_valid capacity"
  shows "bucket capacity k + 4 \<le> unat capacity" and "bucket capacity k mod 4 = 0"
proof -
  obtain d x t where k: "k = (d, x, t)" by (cases k)
  let ?n = "capacity div 4" and ?h = "evoke_posting_heat_hash d x t"
  note n = table_valid_buckets [OF assms]
  have less: "unat (?h mod ?n) < unat ?n" using n(2) by (simp add: unat_mod)
  then have "unat (?h mod ?n) * 4 + 4 \<le> unat capacity" using n(1) by simp
  moreover have "unat (?h mod ?n * 4) = unat (?h mod ?n) * 4"
    using less n(1) u64_less [of capacity] by (subst unat_mult_lem [THEN iffD1]) (simp_all del: u64_less)
  ultimately show "bucket capacity k + 4 \<le> unat capacity" "bucket capacity k mod 4 = 0"
    by (simp_all add: k bucket_def evoke_posting_heat_bucket_start_def EVOKE_POSTING_HEAT_WAYS_def Let_def)
qed

lemma matches_key:
  "evoke_posting_heat_entry_matches e d x t \<longleftrightarrow> evoke_posting_heat_entry_valid e \<and> entry_key e = (d, x, t)"
  by (auto simp: evoke_posting_heat_entry_matches_def entry_key_def)

lemma decay_entry_key [simp]: "entry_key (evoke_posting_heat_decay e t h) = entry_key e"
  by (simp add: entry_key_def)

text \<open>Changing entries without touching their keys keeps a table well formed.\<close>

definition same_keys :: "evoke_posting_heat_entry list \<Rightarrow> evoke_posting_heat_entry list \<Rightarrow> bool" where
  "same_keys es es' \<longleftrightarrow> length es' = length es \<and> (\<forall>i < length es. entry_key (es' ! i) = entry_key (es ! i))"

lemma entry_key_valid: "entry_key e = entry_key e' \<Longrightarrow> evoke_posting_heat_entry_valid e = evoke_posting_heat_entry_valid e'"
  by (simp add: entry_key_def evoke_posting_heat_entry_valid_def)

lemma same_keys_ok: "same_keys es es' \<Longrightarrow> heat_ok capacity es = heat_ok capacity es'"
  unfolding heat_ok_def same_keys_def using entry_key_valid by (smt (verit))

lemma same_keys_update:
  "entry_key e = entry_key (es ! i) \<Longrightarrow> same_keys es (es[i := e])"
  by (cases "i < length es") (auto simp: same_keys_def nth_list_update)

text \<open>The table as a map from keys to entries, and \<open>find\<close> as the lookup in it.\<close>

lemma find_some:
  assumes "evoke_posting_heat_table_valid capacity" and "heat_ok capacity es"
  shows "evoke_posting_heat_find (Some es) capacity d x t = Some i \<longleftrightarrow>
    i < length es \<and> evoke_posting_heat_entry_matches (es ! i) d x t"
proof -
  let ?b = "bucket capacity (d, x, t)" and ?P = "\<lambda>i. evoke_posting_heat_entry_matches (es ! i) d x t"
  have b: "?b + 4 \<le> length es" using bucket_fits(1) [OF assms(1)] assms(2) by (simp add: heat_ok_def)
  have uniq: "i = j" if "i < length es" "j < length es" "?P i" "?P j" for i j
    using assms(2) that by (auto simp: heat_ok_def matches_key)
  have inside: "i \<in> set [?b..<?b + 4]" if "i < length es" "?P i" for i
    using assms(2) that by (auto simp: heat_ok_def matches_key)
  have eq: "evoke_posting_heat_find (Some es) capacity d x t = find ?P [?b..<?b + 4]"
    using assms(1) by (simp add: evoke_posting_heat_find_def bucket_def Let_def)
  show ?thesis
  proof
    assume "evoke_posting_heat_find (Some es) capacity d x t = Some i"
    then show "i < length es \<and> ?P i" using b unfolding eq by (auto simp: find_Some_iff)
  next
    assume i: "i < length es \<and> ?P i"
    then have "find ?P [?b..<?b + 4] \<noteq> None" using inside by (auto simp: find_None_iff)
    then obtain j where j: "find ?P [?b..<?b + 4] = Some j" by blast
    then have "j < length es \<and> ?P j" using b by (auto simp: find_Some_iff)
    then have "i = j" using i uniq by blast
    then show "evoke_posting_heat_find (Some es) capacity d x t = Some i" using j eq by simp
  qed
qed


section \<open>What a merge does\<close>

lemma decay_idem [simp]:
  "evoke_posting_heat_decay (evoke_posting_heat_decay e t h) t h = evoke_posting_heat_decay e t h"
  by (simp add: decay_decay)

text \<open>Every entry is as it was or decayed to the given time.\<close>

definition decayed :: "u64 \<Rightarrow> u64 \<Rightarrow> evoke_posting_heat_entry list \<Rightarrow> evoke_posting_heat_entry list \<Rightarrow> bool" where
  "decayed t h es es' \<longleftrightarrow> length es' = length es \<and>
     (\<forall>j < length es. es' ! j = es ! j \<or> es' ! j = evoke_posting_heat_decay (es ! j) t h)"

lemma decayed_refl [simp]: "decayed t h es es"
  by (simp add: decayed_def)

lemma decayed_trans: "decayed t h es es' \<Longrightarrow> decayed t h es' es'' \<Longrightarrow> decayed t h es es''"
  unfolding decayed_def using decay_idem by metis

lemma decayed_update: "decayed t h es (es[i := evoke_posting_heat_decay (es ! i) t h])"
  by (cases "i < length es") (auto simp: decayed_def nth_list_update)

lemma decayed_same_keys: "decayed t h es es' \<Longrightarrow> same_keys es es'"
  unfolding decayed_def same_keys_def by (metis decay_entry_key)

lemma decayed_nth:
  "decayed t h es es' \<Longrightarrow> i < length es \<Longrightarrow>
     evoke_posting_heat_decay (es' ! i) t h = evoke_posting_heat_decay (es ! i) t h"
  unfolding decayed_def by (metis decay_idem)

abbreviation ob_key :: "evoke_posting_heat_observation \<Rightarrow> heat_key" where
  "ob_key ob \<equiv> (ob_database_id ob, ob_index_id ob, ob_term_id ob)"

abbreviation ob_match :: "evoke_posting_heat_observation \<Rightarrow> evoke_posting_heat_entry \<Rightarrow> bool" where
  "ob_match ob e \<equiv> evoke_posting_heat_entry_matches e (ob_database_id ob) (ob_index_id ob) (ob_term_id ob)"

lemma decay_matches [simp]:
  "evoke_posting_heat_entry_matches (evoke_posting_heat_decay e t h) d x k = evoke_posting_heat_entry_matches e d x k"
  by (simp add: matches_key)

lemma scan_decayed:
  "merge_scan ob h ways es v = (es', found, v') \<Longrightarrow> decayed (ob_observed_at_ms ob) h es es'"
proof (induction ways arbitrary: es v)
  case (Cons i ways)
  consider "ob_match ob (es ! i)"
    | "\<not> ob_match ob (es ! i)" "\<not> evoke_posting_heat_entry_valid (es ! i)"
    | "\<not> ob_match ob (es ! i)" "evoke_posting_heat_entry_valid (es ! i)"
    by blast
  then show ?case
  proof cases
    case 1
    then show ?thesis using Cons.prems by simp
  next
    case c: 2
    then show ?thesis using Cons by simp
  next
    case 3
    have "decayed (ob_observed_at_ms ob) h (es[i := evoke_posting_heat_decay (es ! i) (ob_observed_at_ms ob) h]) es'"
      using 3 Cons.prems by (intro Cons.IH) (auto simp: Let_def)
    then show ?thesis by (rule decayed_trans [OF decayed_update])
  qed
qed simp

lemma scan_outcome:
  assumes "merge_scan ob h ways es v = (es', found, v')" and "\<forall>i \<in> set ways. i < length es"
  shows "case found of
      Some i \<Rightarrow> i \<in> set ways \<and> ob_match ob (es ! i)
    | None \<Rightarrow> (\<forall>i \<in> set ways. \<not> ob_match ob (es ! i)) \<and>
        (v' = None \<longrightarrow> v = None \<and> ways = []) \<and> (\<forall>w. v' = Some w \<longrightarrow> v = Some w \<or> w \<in> set ways)"
  using assms
proof (induction ways arbitrary: es v)
  case (Cons i ways)
  have len: "i < length es" using Cons.prems by simp
  consider "ob_match ob (es ! i)"
    | "\<not> ob_match ob (es ! i)" "\<not> evoke_posting_heat_entry_valid (es ! i)"
    | "\<not> ob_match ob (es ! i)" "evoke_posting_heat_entry_valid (es ! i)"
    by blast
  then show ?case
  proof cases
    case 1
    then show ?thesis using Cons.prems by auto
  next
    case c: 2
    then show ?thesis using Cons by (fastforce split: option.splits if_splits)
  next
    case 3
    let ?es = "es[i := evoke_posting_heat_decay (es ! i) (ob_observed_at_ms ob) h]"
    have m: "ob_match ob (?es ! j) = ob_match ob (es ! j)" for j
      using len by (cases "j = i") auto
    show ?thesis
      using Cons.IH [of ?es] Cons.prems 3
      by (fastforce simp: Let_def m split: option.splits if_splits)
  qed
qed simp


lemma merge_entry_simps [simp]:
  "he_database_id (merge_entry ob hot e) = he_database_id e" "he_index_id (merge_entry ob hot e) = he_index_id e"
  "he_term_id (merge_entry ob hot e) = he_term_id e"
  "he_query_heat (merge_entry ob hot e) = evoke_posting_heat_add_saturating (he_query_heat e) (ob_query_count ob)"
  by (simp_all add: merge_entry_def Let_def)

lemma merge_entry_key [simp]: "entry_key (merge_entry ob hot e) = entry_key e"
  by (simp add: entry_key_def)

definition fresh_entry :: "evoke_posting_heat_observation \<Rightarrow> evoke_posting_heat_entry" where
  "fresh_entry ob = zero_entry\<lparr>he_database_id := ob_database_id ob, he_index_id := ob_index_id ob,
     he_term_id := ob_term_id ob, he_last_decay_ms := ob_observed_at_ms ob\<rparr>"

lemma fresh_entry_simps [simp]: "entry_key (fresh_entry ob) = ob_key ob" "he_query_heat (fresh_entry ob) = 0"
  by (simp_all add: fresh_entry_def entry_key_def zero_entry_def)

lemma bucket_ways:
  assumes "evoke_posting_heat_table_valid capacity" and "heat_ok capacity es"
  shows "\<forall>i \<in> set [bucket capacity k..<bucket capacity k + 4]. i < length es"
  using bucket_fits(1) [OF assms(1), of k] heat_okD(1) [OF assms(2)] by auto

lemma no_match_anywhere:
  assumes "heat_ok capacity es" and "\<forall>i \<in> set [bucket capacity (ob_key ob)..<bucket capacity (ob_key ob) + 4]. \<not> ob_match ob (es ! i)"
    and "i < length es"
  shows "\<not> ob_match ob (es ! i)"
  using heat_okD(2,3) [OF assms(1,3)] assms(2) by (auto simp: matches_key)

lemma merge_finish_simps:
  assumes "i < length es"
  shows "snd (merge_finish ob ch crh i (es[i := e]) evicted ph prh hot) = Some (es[i := merge_entry ob hot e])"
    and "mr_valid (fst (merge_finish ob ch crh i (es[i := e]) evicted ph prh hot))"
    and "mr_query_heat (fst (merge_finish ob ch crh i (es[i := e]) evicted ph prh hot)) = he_query_heat (merge_entry ob hot e)"
    and "mr_evicted (fst (merge_finish ob ch crh i (es[i := e]) evicted ph prh hot)) = evicted"
  using assms by (simp_all add: merge_finish_def Let_def)

text \<open>
  The two ways a merge can go: it finds the entry of the term, or it takes a way of the bucket from
  its owner. Nothing else changes but for decay.
\<close>

definition merge_hits ::
  "evoke_posting_heat_observation \<Rightarrow> u64 \<Rightarrow> evoke_posting_heat_entry list \<Rightarrow> nat \<Rightarrow> evoke_posting_heat_entry \<Rightarrow> bool \<Rightarrow> bool" where
  "merge_hits ob h es i e evicted \<longleftrightarrow>
     ob_match ob (es ! i) \<and> e = evoke_posting_heat_decay (es ! i) (ob_observed_at_ms ob) h \<and> \<not> evicted"

definition merge_takes ::
  "evoke_posting_heat_observation \<Rightarrow> evoke_posting_heat_entry list \<Rightarrow> nat \<Rightarrow> evoke_posting_heat_entry \<Rightarrow> bool \<Rightarrow> bool" where
  "merge_takes ob es i e evicted \<longleftrightarrow> (\<forall>j < length es. \<not> ob_match ob (es ! j)) \<and> e = fresh_entry ob \<and>
     evicted = evoke_posting_heat_entry_valid (es ! i)"

lemma merge_outcome:
  assumes "evoke_posting_heat_table_valid capacity" and ok: "heat_ok capacity es" and "observation_valid ob"
    and scan: "merge_scan ob h [bucket capacity (ob_key ob)..<bucket capacity (ob_key ob) + 4] es None = (es1, found, victim)"
  obtains i e hot where "i \<in> set [bucket capacity (ob_key ob)..<bucket capacity (ob_key ob) + 4]"
    and "snd (evoke_posting_heat_merge (Some es) capacity (Some ob) h ch crh) = Some (es1[i := merge_entry ob hot e])"
    and "mr_valid (fst (evoke_posting_heat_merge (Some es) capacity (Some ob) h ch crh))"
    and "mr_query_heat (fst (evoke_posting_heat_merge (Some es) capacity (Some ob) h ch crh)) =
           he_query_heat (merge_entry ob hot e)"
    and "found = Some i \<or> found = None \<and> victim = Some i"
    and "if found = None
         then merge_takes ob es i e (mr_evicted (fst (evoke_posting_heat_merge (Some es) capacity (Some ob) h ch crh)))
         else merge_hits ob h es i e (mr_evicted (fst (evoke_posting_heat_merge (Some es) capacity (Some ob) h ch crh)))"
proof -
  let ?t = "ob_observed_at_ms ob" and ?m = "evoke_posting_heat_merge (Some es) capacity (Some ob) h ch crh"
  have dec: "decayed ?t h es es1" by (rule scan_decayed [OF scan])
  note ways = bucket_ways [OF assms(1,2)]
  note out = scan_outcome [OF scan ways]
  have len: "length es1 = length es" using dec by (simp add: decayed_def)
  have valid1: "evoke_posting_heat_entry_valid (es1 ! i) = evoke_posting_heat_entry_valid (es ! i)"
    if "i < length es" for i using dec that unfolding decayed_def by (metis decay_valid)
  show thesis
  proof (cases found)
    case (Some i)
    let ?e = "evoke_posting_heat_decay (es ! i) ?t h"
    have i: "i \<in> set [bucket capacity (ob_key ob)..<bucket capacity (ob_key ob) + 4]" "ob_match ob (es ! i)"
      using out Some by simp_all
    then have il: "i < length es" using ways by blast
    have m: "?m = merge_finish ob ch crh i (es1[i := ?e]) False (he_query_heat ?e) (he_root_heat ?e)
        (he_hot_cache_republish_ready ?e)"
      using assms(1,3) scan Some decayed_nth [OF dec il]
      by (simp add: evoke_posting_heat_merge_def bucket_def Let_def)
    show thesis
      using that [OF i(1), of "he_hot_cache_republish_ready ?e" ?e] merge_finish_simps [of i es1] il len i(2) Some
      unfolding m merge_hits_def by simp
  next
    case None
    then obtain i where i: "victim = Some i" "i \<in> set [bucket capacity (ob_key ob)..<bucket capacity (ob_key ob) + 4]"
      using out by (cases victim) auto
    then have il: "i < length es" using ways by blast
    have m: "?m = merge_finish ob ch crh i (es1[i := fresh_entry ob]) (evoke_posting_heat_entry_valid (es1 ! i)) 0 0 False"
      using assms(1,3) scan None i(1)
      by (simp add: evoke_posting_heat_merge_def bucket_def Let_def fresh_entry_def)
    have "\<forall>j < length es. \<not> ob_match ob (es ! j)"
      using no_match_anywhere [OF ok] out None by simp
    then show thesis
      using that [OF i(2), of False "fresh_entry ob"] merge_finish_simps [of i es1] il len i(1) None valid1 [OF il]
      unfolding m merge_takes_def by simp
  qed
qed


lemma heat_ok_insert:
  assumes ok: "heat_ok capacity es" and i: "bucket capacity (entry_key e) \<le> i" "i < bucket capacity (entry_key e) + 4"
    and new: "\<And>j. j < length es \<Longrightarrow> evoke_posting_heat_entry_valid (es ! j) \<Longrightarrow> entry_key (es ! j) = entry_key e \<Longrightarrow> j = i"
  shows "heat_ok capacity (es[i := e])"
proof -
  have nth: "es[i := e] ! j = (if j = i then e else es ! j)" if "j < length es" for j using that by auto
  show ?thesis
    unfolding heat_ok_def length_list_update
  proof (intro conjI allI impI)
    show "length es = unat capacity" by (rule heat_okD(1) [OF ok])
  next
    fix j assume j: "j < length es" "evoke_posting_heat_entry_valid (es[i := e] ! j)"
    show "bucket capacity (entry_key (es[i := e] ! j)) \<le> j" "j < bucket capacity (entry_key (es[i := e] ! j)) + 4"
      using heat_okD(2,3) [OF ok j(1)] i j by (auto simp: nth split: if_splits)
  next
    fix j k assume jk: "j < length es" "k < length es" and v: "evoke_posting_heat_entry_valid (es[i := e] ! j)"
      "evoke_posting_heat_entry_valid (es[i := e] ! k)" "entry_key (es[i := e] ! j) = entry_key (es[i := e] ! k)"
    show "j = k"
      using v heat_okD(4) [OF ok jk] new [OF jk(1)] new [OF jk(2)] unfolding nth [OF jk(1)] nth [OF jk(2)] by metis
  qed
qed

lemma merge_heat_ok:
  assumes "evoke_posting_heat_table_valid capacity" and ok: "heat_ok capacity es" and "observation_valid ob"
    and scan: "merge_scan ob h [bucket capacity (ob_key ob)..<bucket capacity (ob_key ob) + 4] es None = (es1, found, victim)"
    and i: "i \<in> set [bucket capacity (ob_key ob)..<bucket capacity (ob_key ob) + 4]"
    and out: "if found = None then merge_takes ob es i e ev else merge_hits ob h es i e ev"
  shows "heat_ok capacity (es1[i := merge_entry ob hot e])" and "entry_key e = ob_key ob"
proof -
  have keys: "same_keys es es1" using decayed_same_keys [OF scan_decayed [OF scan]] .
  have ok1: "heat_ok capacity es1" using ok same_keys_ok [OF keys] by simp
  show key: "entry_key e = ob_key ob"
    using out by (auto simp: merge_takes_def merge_hits_def matches_key split: if_splits)
  have il: "i < length es" using bucket_ways [OF assms(1,2)] i by blast
  have "j = i" if j: "j < length es1" "evoke_posting_heat_entry_valid (es1 ! j)" "entry_key (es1 ! j) = ob_key ob" for j
  proof -
    have "j < length es" "entry_key (es1 ! j) = entry_key (es ! j)" using keys j(1) by (simp_all add: same_keys_def)
    moreover from this have m: "ob_match ob (es ! j)" using j entry_key_valid [of "es1 ! j" "es ! j"] by (simp add: matches_key)
    moreover have "found \<noteq> None" using out m \<open>j < length es\<close> by (cases found) (auto simp: merge_takes_def)
    then have "ob_match ob (es ! i)" using out by (auto simp: merge_hits_def)
    ultimately show ?thesis using heat_okD(4) [OF ok il] unfolding matches_key by metis
  qed
  then show "heat_ok capacity (es1[i := merge_entry ob hot e])"
    using i by (intro heat_ok_insert [OF ok1]) (auto simp: key)
qed

text \<open>What a search before the merge says of the slot the merge takes.\<close>

lemma merge_slot_before:
  assumes "evoke_posting_heat_table_valid capacity" "heat_ok capacity es" "i < length es"
    and "if found = None then merge_takes ob es i e evicted else merge_hits ob h es i e evicted"
  shows "case evoke_posting_heat_find (Some es) capacity (ob_database_id ob) (ob_index_id ob) (ob_term_id ob) of
      Some j \<Rightarrow> j = i \<and> merge_hits ob h es i e evicted
    | None \<Rightarrow> merge_takes ob es i e evicted"
proof (cases found)
  case None
  then have "evoke_posting_heat_find (Some es) capacity (ob_database_id ob) (ob_index_id ob) (ob_term_id ob) \<noteq> Some j" for j
    using assms(4) by (simp add: find_some [OF assms(1,2)] merge_takes_def)
  then show ?thesis using assms(4) None by (auto split: option.split)
next
  case (Some j)
  then have "evoke_posting_heat_find (Some es) capacity (ob_database_id ob) (ob_index_id ob) (ob_term_id ob) = Some i"
    using assms(3,4) by (simp add: find_some [OF assms(1,2)] merge_hits_def)
  then show ?thesis using assms(4) Some by simp
qed

text \<open>
  C24. Recording an observation, for every table that is well formed and every valid observation:
  the merge succeeds and leaves a well formed table in which \<open>find\<close> returns a slot of the observed
  term; that slot's query heat is the observed count added, saturating, to the decayed heat the term
  had, or to zero when it was not in the table; the merge reports that heat, and reports an eviction
  exactly when the term was absent and the slot belonged to another one; every other slot is as it
  was or decayed to the time of the observation.
\<close>

theorem heat_merge_records:
  assumes "evoke_posting_heat_table_valid capacity" and "heat_ok capacity es" and "observation_valid ob"
  shows "\<exists>r es' i. evoke_posting_heat_merge (Some es) capacity (Some ob) h ch crh = (r, Some es') \<and>
    mr_valid r \<and> heat_ok capacity es' \<and>
    evoke_posting_heat_find (Some es') capacity (ob_database_id ob) (ob_index_id ob) (ob_term_id ob) = Some i \<and>
    mr_query_heat r = he_query_heat (es' ! i) \<and>
    (case evoke_posting_heat_find (Some es) capacity (ob_database_id ob) (ob_index_id ob) (ob_term_id ob) of
       Some j \<Rightarrow> j = i \<and> \<not> mr_evicted r \<and>
         he_query_heat (es' ! i) = evoke_posting_heat_add_saturating
           (he_query_heat (evoke_posting_heat_decay (es ! i) (ob_observed_at_ms ob) h)) (ob_query_count ob)
     | None \<Rightarrow> mr_evicted r = evoke_posting_heat_entry_valid (es ! i) \<and>
         he_query_heat (es' ! i) = evoke_posting_heat_add_saturating 0 (ob_query_count ob)) \<and>
    (\<forall>j < length es. j \<noteq> i \<longrightarrow>
       es' ! j = es ! j \<or> es' ! j = evoke_posting_heat_decay (es ! j) (ob_observed_at_ms ob) h)"
proof -
  obtain es1 found victim where scan:
    "merge_scan ob h [bucket capacity (ob_key ob)..<bucket capacity (ob_key ob) + 4] es None = (es1, found, victim)"
    by (rule prod_cases3)
  obtain i e hot where i: "i \<in> set [bucket capacity (ob_key ob)..<bucket capacity (ob_key ob) + 4]"
    and m: "snd (evoke_posting_heat_merge (Some es) capacity (Some ob) h ch crh) = Some (es1[i := merge_entry ob hot e])"
    and r: "mr_valid (fst (evoke_posting_heat_merge (Some es) capacity (Some ob) h ch crh))"
      "mr_query_heat (fst (evoke_posting_heat_merge (Some es) capacity (Some ob) h ch crh)) = he_query_heat (merge_entry ob hot e)"
    and out: "if found = None
      then merge_takes ob es i e (mr_evicted (fst (evoke_posting_heat_merge (Some es) capacity (Some ob) h ch crh)))
      else merge_hits ob h es i e (mr_evicted (fst (evoke_posting_heat_merge (Some es) capacity (Some ob) h ch crh)))"
    by (rule merge_outcome [OF assms scan, where ch = ch and crh = crh])
  note ok = merge_heat_ok [OF assms scan i out] and dec = scan_decayed [OF scan]
  have il: "i < length es" "length es1 = length es"
    using bucket_ways [OF assms(1,2)] i dec by (auto simp: decayed_def)
  let ?es = "es1[i := merge_entry ob hot e]"
  have found: "evoke_posting_heat_find (Some ?es) capacity (ob_database_id ob) (ob_index_id ob) (ob_term_id ob) = Some i"
    using il assms(3) ok(2) entry_key_valid [of e "fresh_entry ob"]
    by (simp add: find_some [OF assms(1) ok(1)] matches_key entry_key_valid [of "merge_entry ob hot e" "fresh_entry ob"])
      (simp add: observation_valid_def fresh_entry_def evoke_posting_heat_entry_valid_def)
  note before = merge_slot_before [OF assms(1,2) il(1) out]
  have others: "\<forall>j < length es. j \<noteq> i \<longrightarrow>
      ?es ! j = es ! j \<or> ?es ! j = evoke_posting_heat_decay (es ! j) (ob_observed_at_ms ob) h"
    using dec by (simp add: decayed_def)
  have slot: "?es ! i = merge_entry ob hot e" using il by simp
  obtain r' where r': "evoke_posting_heat_merge (Some es) capacity (Some ob) h ch crh = (r', Some ?es)"
    using m by (metis prod.collapse)
  show ?thesis
    using r ok(1) found before others unfolding r' merge_takes_def merge_hits_def
    by (intro exI [of _ r'] exI [of _ ?es] exI [of _ i]) (simp add: slot split: option.splits)
qed


definition sample_observation :: evoke_posting_heat_observation where
  "sample_observation = \<lparr>ob_database_id = 11, ob_index_id = 22, ob_term_id = 7, ob_root_id = 3, ob_query_count = 5,
     ob_root_query_count = 5, ob_extent_transition_work = 2, ob_posting_work = 9, ob_block_work = 1,
     ob_blocks_considered = 4, ob_blocks_scored = 3, ob_blocks_skipped = 1, ob_postings_scored = 8,
     ob_last_posting_count = 9, ob_last_extent_count = 2, ob_last_block_count = 1,
     ob_impact_specialization_ready = False, ob_hot_cache_republish_ready = False, ob_observed_at_ms = 2500\<rparr>"

lemma empty_heat_ok: "heat_ok capacity (replicate (unat capacity) zero_entry)"
  by (auto simp: heat_ok_def evoke_posting_heat_entry_valid_def zero_entry_def)

text \<open>An observation of a term recorded in the empty table of two buckets.\<close>

theorem heat_merge_records_witness:
  "\<exists>r es' i. evoke_posting_heat_merge (Some (replicate 8 zero_entry)) 8 (Some sample_observation) 1000 4 4 = (r, Some es') \<and>
    mr_valid r \<and> heat_ok 8 es' \<and> evoke_posting_heat_find (Some es') 8 11 22 7 = Some i"
proof -
  have v: "evoke_posting_heat_table_valid 8" by code_simp
  have o: "observation_valid sample_observation" by code_simp
  have k: "ob_database_id sample_observation = 11" "ob_index_id sample_observation = 22"
    "ob_term_id sample_observation = 7" by (simp_all add: sample_observation_def)
  have ok: "heat_ok 8 (replicate 8 zero_entry)" using empty_heat_ok [of 8] by simp
  show ?thesis using heat_merge_records [OF v ok o, of 1000 4 4] unfolding k by metis
qed

section \<open>The life of a table\<close>

text \<open>The operations the scheduler and the queries run on the shared table, in any order.\<close>

inductive heat_step :: "u64 \<Rightarrow> evoke_posting_heat_entry list \<Rightarrow> evoke_posting_heat_entry list \<Rightarrow> bool" for capacity where
  merge: "evoke_posting_heat_merge (Some es) capacity ob h ch crh = (r, Some es') \<Longrightarrow> heat_step capacity es es'"
| select: "evoke_posting_heat_select (Some es) capacity d x root now h mh mrh cool out = (found, Some es', out') \<Longrightarrow>
    heat_step capacity es es'"
| note_attempt: "evoke_posting_heat_note_attempt (Some es) capacity d x term root at = (found, Some es') \<Longrightarrow>
    heat_step capacity es es'"
| note_hot_cache_resident:
    "evoke_posting_heat_note_hot_cache_resident (Some es) capacity d x term root = (found, Some es') \<Longrightarrow>
    heat_step capacity es es'"
| summarize: "evoke_posting_heat_summarize (Some es) capacity d x root now h mh mrh cool out = (Some es', out') \<Longrightarrow>
    heat_step capacity es es'"

inductive_cases heat_stepE: "heat_step capacity es es'"

text \<open>The tables that come from the zeroed one.\<close>

inductive heat_reachable :: "u64 \<Rightarrow> evoke_posting_heat_entry list \<Rightarrow> bool" for capacity where
  zeroed: "heat_reachable capacity (replicate (unat capacity) zero_entry)"
| step: "heat_reachable capacity es \<Longrightarrow> heat_step capacity es es' \<Longrightarrow> heat_reachable capacity es'"

text \<open>The scans decay the entries of the index and keep the rest.\<close>

lemma select_scan_map: "fst (select_scan mine f eligible es b) = map (\<lambda>e. if mine e then f e else e) es"
  by (induction es arbitrary: b) (simp_all add: Let_def split: prod.split, (metis fst_conv)+)

lemma summary_scan_map: "fst (summary_scan mine f es c s) = map (\<lambda>e. if mine e then f e else e) es"
  by (induction es arbitrary: c s) (simp_all add: Let_def split: prod.split, (metis fst_conv)+)

lemma map_same_keys: "(\<And>e. entry_key (f e) = entry_key e) \<Longrightarrow> same_keys es (map f es)"
  by (simp add: same_keys_def)

lemma same_keys_refl [simp]: "same_keys es es" by (simp add: same_keys_def)

lemma same_keys_trans: "same_keys es es' \<Longrightarrow> same_keys es' es'' \<Longrightarrow> same_keys es es''"
  by (auto simp: same_keys_def)

lemma select_same_keys:
  assumes "evoke_posting_heat_select (Some es) capacity d x root now h mh mrh cool out = (found, Some es', out')"
  shows "same_keys es es'"
proof -
  have "es' = es \<or> es' = fst (select_scan (of_index d x) (\<lambda>e. evoke_posting_heat_decay e now h) (selectable root now mh mrh cool) es None)"
    using assms by (auto simp: evoke_posting_heat_select_def split: option.splits if_splits prod.splits)
  then show ?thesis unfolding select_scan_map by (auto intro!: map_same_keys)
qed

lemma note_same_keys:
  assumes "note_entry f (Some es) capacity d x term root = (found, Some es')" and "\<And>e. entry_key (f e) = entry_key e"
  shows "same_keys es es'"
  using assms by (auto simp: note_entry_def split: option.splits if_splits intro: same_keys_update)

lemma summarize_same_keys:
  assumes "evoke_posting_heat_summarize (Some es) capacity d x root now h mh mrh cool out = (Some es', out')"
  shows "same_keys es es'"
proof (cases "out = None \<or> \<not> evoke_posting_heat_table_valid capacity")
  case True
  then show ?thesis using assms by (auto simp: evoke_posting_heat_summarize_def Let_def split: option.splits)
next
  case False
  then obtain so where so: "out = Some so" by auto
  let ?es = "fst (summary_scan (of_index d x) (\<lambda>e. evoke_posting_heat_decay e now h) es 0 0)"
  obtain found c where "evoke_posting_heat_select (Some ?es) capacity d x root now h mh mrh cool (Some zero_entry) = (found, Some es', c)"
    using assms False so by (auto simp: evoke_posting_heat_summarize_def Let_def split: prod.splits)
  then have "same_keys ?es es'" by (rule select_same_keys)
  moreover have "same_keys es ?es" unfolding summary_scan_map by (rule map_same_keys) simp
  ultimately show ?thesis by (rule same_keys_trans [rotated])
qed


lemma merge_rejected:
  assumes "\<not> (evoke_posting_heat_table_valid capacity \<and> (\<exists>o1. ob = Some o1 \<and> observation_valid o1))"
    and "evoke_posting_heat_merge (Some es) capacity ob h ch crh = (r, Some es')"
  shows "es' = es"
  using assms by (auto simp: evoke_posting_heat_merge_def split: option.splits)

lemma step_cases:
  assumes "heat_step capacity es es'"
  obtains "same_keys es es'"
  | ob h ch crh where "evoke_posting_heat_table_valid capacity" "observation_valid ob"
      "snd (evoke_posting_heat_merge (Some es) capacity (Some ob) h ch crh) = Some es'"
  using assms
proof cases
  case (merge ob h ch crh r)
  then show ?thesis
  proof (cases "evoke_posting_heat_table_valid capacity \<and> (\<exists>o1. ob = Some o1 \<and> observation_valid o1)")
    case True
    then obtain o1 where "ob = Some o1" "observation_valid o1" by blast
    then show ?thesis using that(2) [of o1 h ch crh] True merge by simp
  next
    case False
    then show ?thesis using that(1) merge_rejected [OF _ merge] by simp
  qed
next
  case (select d x root now h mh mrh cool out found out')
  then show ?thesis using that(1) select_same_keys by blast
next
  case (note_attempt d x "term" root at found)
  then show ?thesis
    unfolding evoke_posting_heat_note_attempt_def using that(1) note_same_keys by (force simp: entry_key_def)
next
  case (note_hot_cache_resident d x "term" root found)
  then show ?thesis
    unfolding evoke_posting_heat_note_hot_cache_resident_def using that(1) note_same_keys by (force simp: entry_key_def)
next
  case (summarize d x root now h mh mrh cool out out')
  then show ?thesis using that(1) summarize_same_keys by blast
qed

lemma merge_keeps_heat_ok:
  assumes "evoke_posting_heat_table_valid capacity" and "heat_ok capacity es" and "observation_valid ob"
    and "snd (evoke_posting_heat_merge (Some es) capacity (Some ob) h ch crh) = Some es'"
  shows "heat_ok capacity es'"
proof -
  obtain es1 found victim where scan:
    "merge_scan ob h [bucket capacity (ob_key ob)..<bucket capacity (ob_key ob) + 4] es None = (es1, found, victim)"
    by (rule prod_cases3)
  show ?thesis
  proof (rule merge_outcome [OF assms(1,2,3) scan, where ch = ch and crh = crh])
    fix i e hot
    assume i: "i \<in> set [bucket capacity (ob_key ob)..<bucket capacity (ob_key ob) + 4]"
      and m: "snd (evoke_posting_heat_merge (Some es) capacity (Some ob) h ch crh) = Some (es1[i := merge_entry ob hot e])"
      and out: "if found = None
        then merge_takes ob es i e (mr_evicted (fst (evoke_posting_heat_merge (Some es) capacity (Some ob) h ch crh)))
        else merge_hits ob h es i e (mr_evicted (fst (evoke_posting_heat_merge (Some es) capacity (Some ob) h ch crh)))"
    show "heat_ok capacity es'" using merge_heat_ok(1) [OF assms(1,2,3) scan i out] m assms(4) by simp
  qed
qed

lemma step_heat_ok: "heat_step capacity es es' \<Longrightarrow> heat_ok capacity es \<Longrightarrow> heat_ok capacity es'"
  by (erule step_cases) (auto simp: same_keys_ok intro: merge_keeps_heat_ok)

text \<open>
  C25. In every table that merges, selections, notes and summaries reach from the zeroed one, each
  entry is in the bucket its key hashes to and no key has two entries, so \<open>find\<close> is the lookup in a
  map: it returns a slot exactly when that slot holds the term.
\<close>

theorem heat_table_invariant:
  assumes "heat_reachable capacity es" and "evoke_posting_heat_table_valid capacity"
  shows "heat_ok capacity es \<and>
    (evoke_posting_heat_find (Some es) capacity d x t = Some i \<longleftrightarrow>
       i < length es \<and> evoke_posting_heat_entry_matches (es ! i) d x t)"
proof -
  have "heat_ok capacity es"
    using assms(1) by induction (auto intro: empty_heat_ok step_heat_ok)
  then show ?thesis using find_some [OF assms(2)] by blast
qed

definition sample_table :: "evoke_posting_heat_entry list" where
  "sample_table = the (snd (evoke_posting_heat_merge (Some (replicate 8 zero_entry)) 8 (Some sample_observation) 1000 4 4))"

lemma sample_table_reachable: "heat_reachable 8 sample_table"
proof -
  have "heat_reachable 8 (replicate 8 zero_entry)" using heat_reachable.zeroed [of 8] by simp
  moreover have "snd (evoke_posting_heat_merge (Some (replicate 8 zero_entry)) 8 (Some sample_observation) 1000 4 4) =
      Some sample_table" unfolding sample_table_def by code_simp
  then have "heat_step 8 (replicate 8 zero_entry) sample_table"
    by (intro heat_step.merge [where ob = "Some sample_observation" and h = 1000 and ch = 4 and crh = 4])
      (simp add: prod_eq_iff)
  ultimately show ?thesis by (rule heat_reachable.step)
qed

text \<open>The table of two buckets with one observed term, which is in its first way.\<close>

theorem heat_table_invariant_witness:
  "heat_ok 8 sample_table \<and> (\<exists>i. evoke_posting_heat_find (Some sample_table) 8 11 22 7 = Some i \<and>
     evoke_posting_heat_entry_matches (sample_table ! i) 11 22 7)"
proof -
  have v: "evoke_posting_heat_table_valid 8" by code_simp
  have "evoke_posting_heat_find (Some sample_table) 8 11 22 7 \<noteq> None" by code_simp
  then show ?thesis using heat_table_invariant [OF sample_table_reachable v, of 11 22 7] by blast
qed


section \<open>How much of a bucket is used\<close>

definition one_way :: "evoke_posting_heat_entry list \<Rightarrow> bool" where
  "one_way es \<longleftrightarrow> (\<forall>i < length es. evoke_posting_heat_entry_valid (es ! i) \<longrightarrow> i mod 4 = 0)"

lemma same_keys_one_way: "same_keys es es' \<Longrightarrow> one_way es \<Longrightarrow> one_way es'"
  unfolding one_way_def same_keys_def using entry_key_valid by metis

lemma not_valid_no_match: "\<not> evoke_posting_heat_entry_valid e \<Longrightarrow> \<not> evoke_posting_heat_entry_matches e d x t"
  by (simp add: evoke_posting_heat_entry_matches_def)

lemma scan_skips_empty:
  "\<forall>i \<in> set ways. \<not> evoke_posting_heat_entry_valid (es ! i) \<Longrightarrow> merge_scan ob h ways es (Some v) = (es, None, Some v)"
  by (induction ways) (simp_all add: not_valid_no_match)

lemma scan_first_way:
  assumes "\<forall>i \<in> set ways. i \<noteq> b \<and> \<not> evoke_posting_heat_entry_valid (es ! i)"
    and "merge_scan ob h (b # ways) es None = (es1, found, victim)"
  shows "found = Some b \<or> found = None \<and> victim = Some b"
proof -
  have "\<forall>i \<in> set ways. \<not> evoke_posting_heat_entry_valid (es[b := e] ! i)" for e
    using assms(1) by (auto simp: nth_list_update_neq)
  then show ?thesis
    using assms by (auto simp: Let_def scan_skips_empty split: if_splits)
qed

lemma merge_one_way:
  assumes "evoke_posting_heat_table_valid capacity" and "heat_ok capacity es" and "observation_valid ob"
    and one: "one_way es"
    and es': "snd (evoke_posting_heat_merge (Some es) capacity (Some ob) h ch crh) = Some es'"
  shows "one_way es'"
proof -
  let ?b = "bucket capacity (ob_key ob)"
  have ways: "[?b..<?b + 4] = ?b # [Suc ?b..<?b + 4]" by (simp add: upt_rec)
  obtain es1 found victim where scan: "merge_scan ob h [?b..<?b + 4] es None = (es1, found, victim)"
    by (rule prod_cases3)
  have "\<not> evoke_posting_heat_entry_valid (es ! i)" if "i \<in> set [Suc ?b..<?b + 4]" for i
  proof -
    have "i mod 4 \<noteq> 0" using that bucket_fits(2) [OF assms(1), of "ob_key ob"] by auto presburger
    then show ?thesis using one that bucket_ways [OF assms(1,2), of "ob_key ob"] by (auto simp: one_way_def)
  qed
  then have first: "found = Some ?b \<or> found = None \<and> victim = Some ?b"
    using scan unfolding ways by (intro scan_first_way) auto
  obtain i e hot where "snd (evoke_posting_heat_merge (Some es) capacity (Some ob) h ch crh) = Some (es1[i := merge_entry ob hot e])"
    and "found = Some i \<or> found = None \<and> victim = Some i"
    by (rule merge_outcome [OF assms(1-3) scan, where ch = ch and crh = crh])
  then have "es' = es1[?b := merge_entry ob hot e]" using first es' by auto
  moreover have "one_way es1" by (rule same_keys_one_way [OF decayed_same_keys [OF scan_decayed [OF scan]] one])
  moreover have "one_way (es1[j := e'])" if "one_way es1" "j mod 4 = 0" for j e'
    using that unfolding one_way_def length_list_update by (metis nth_list_update_eq nth_list_update_neq)
  ultimately show ?thesis using bucket_fits(2) [OF assms(1), of "ob_key ob"] by simp
qed

text \<open>
  C26. The table never holds more than one term per bucket: in every table reached from the zeroed
  one, only the first of a bucket's four ways is ever occupied. The search for a victim takes an
  empty way only when it has seen no occupied one, so a second term of a bucket always displaces
  the first, whatever its heat.
\<close>

theorem heat_table_single_way:
  assumes "heat_reachable capacity es" and "evoke_posting_heat_table_valid capacity"
    and "i < length es" and "evoke_posting_heat_entry_valid (es ! i)"
  shows "i mod 4 = 0"
proof -
  have "heat_ok capacity es \<and> one_way es"
    using assms(1)
  proof induction
    case zeroed
    have "one_way (replicate (unat capacity) zero_entry)"
      by (simp add: one_way_def evoke_posting_heat_entry_valid_def zero_entry_def)
    then show ?case using empty_heat_ok by blast
  next
    case (step es es')
    then have "one_way es'"
      by (elim step_cases) (auto intro: same_keys_one_way merge_one_way)
    then show ?case using step step_heat_ok by blast
  qed
  then show ?thesis using assms(3,4) by (simp add: one_way_def)
qed

text \<open>Two terms of the same bucket, one after the other: the first is gone though three ways are empty.\<close>

definition sample_observation2 :: evoke_posting_heat_observation where
  "sample_observation2 = sample_observation\<lparr>ob_term_id := 8\<rparr>"

definition sample_table2 :: "evoke_posting_heat_entry list" where
  "sample_table2 = the (snd (evoke_posting_heat_merge
     (Some (the (snd (evoke_posting_heat_merge (Some (replicate 4 zero_entry)) 4 (Some sample_observation) 1000 4 4))))
     4 (Some sample_observation2) 1000 4 4))"

lemma heat_reachable_merge:
  assumes "heat_reachable capacity es"
    and "snd (evoke_posting_heat_merge (Some es) capacity ob h ch crh) \<noteq> None"
  shows "heat_reachable capacity (the (snd (evoke_posting_heat_merge (Some es) capacity ob h ch crh)))"
  using assms by (intro heat_reachable.step [OF assms(1)] heat_step.merge [where ob = ob and h = h and ch = ch and crh = crh])
    (auto simp: prod_eq_iff)

lemma sample_table2_reachable: "heat_reachable 4 sample_table2"
proof -
  have z: "heat_reachable 4 (replicate 4 zero_entry)" using heat_reachable.zeroed [of 4] by simp
  show ?thesis
    unfolding sample_table2_def by (intro heat_reachable_merge z; code_simp)
qed

theorem heat_table_single_way_witness:
  "0 < length sample_table2 \<and> evoke_posting_heat_entry_matches (sample_table2 ! 0) 11 22 8 \<and> (0 :: nat) mod 4 = 0 \<and>
   evoke_posting_heat_find (Some sample_table2) 4 11 22 7 = None"
proof -
  have v: "evoke_posting_heat_table_valid 4" by code_simp
  have l: "0 < length sample_table2" by code_simp
  have m: "evoke_posting_heat_entry_matches (sample_table2 ! 0) 11 22 8" by code_simp
  have f: "evoke_posting_heat_find (Some sample_table2) 4 11 22 7 = None" by code_simp
  have "evoke_posting_heat_entry_valid (sample_table2 ! 0)" using m by (simp add: matches_key)
  then have "(0 :: nat) mod 4 = 0" by (rule heat_table_single_way [OF sample_table2_reachable v l])
  then show ?thesis using l m f by blast
qed

section \<open>What a selection returns\<close>

text \<open>The order of \<open>evoke_posting_heat_candidate_is_better\<close>: more fragment work, then more root heat, then more
  query heat, then the smaller term.\<close>

definition heat_rank :: "evoke_posting_heat_entry \<Rightarrow> u64 \<times> u64 \<times> u64 \<times> int" where
  "heat_rank e = (fragment_work e, he_root_heat e, he_query_heat e, - uint (he_term_id e))"

lemma better_rank: "evoke_posting_heat_candidate_is_better e (Some c) \<longleftrightarrow> heat_rank c < heat_rank e"
  by (auto simp: evoke_posting_heat_candidate_is_better_def heat_rank_def less_prod_def' word_less_alt)

definition candidates ::
  "(evoke_posting_heat_entry \<Rightarrow> bool) \<Rightarrow> (evoke_posting_heat_entry \<Rightarrow> evoke_posting_heat_entry)
     \<Rightarrow> (evoke_posting_heat_entry \<Rightarrow> bool) \<Rightarrow> evoke_posting_heat_entry list \<Rightarrow> evoke_posting_heat_entry list" where
  "candidates mine f eligible es = filter eligible (map f (filter mine es))"

lemma candidates_simps [simp]:
  "candidates mine f eligible [] = []"
  "candidates mine f eligible (e # es) =
     (if mine e \<and> eligible (f e) then f e # candidates mine f eligible es else candidates mine f eligible es)"
  by (simp_all add: candidates_def)

lemma select_scan_best:
  assumes "select_scan mine f eligible es b = (es', b')"
  shows "case b' of None \<Rightarrow> b = None \<and> candidates mine f eligible es = []
    | Some c \<Rightarrow> c \<in> set_option b \<union> set (candidates mine f eligible es) \<and>
        (\<forall>e \<in> set_option b \<union> set (candidates mine f eligible es). heat_rank e \<le> heat_rank c)"
  using assms
proof (induction es arbitrary: b es')
  case (Cons e es)
  let ?b = "if mine e \<and> eligible (f e) \<and> evoke_posting_heat_candidate_is_better (f e) b then Some (f e) else b"
  obtain es1 where "select_scan mine f eligible es ?b = (es1, b')"
    using Cons.prems by (auto simp: Let_def split: prod.splits if_splits)
  note IH = Cons.IH [OF this]
  show ?case
  proof (cases "mine e \<and> eligible (f e)")
    case False
    then have "?b = b" "candidates mine f eligible (e # es) = candidates mine f eligible es" by auto
    then show ?thesis using IH by (simp only:)
  next
    case True
    then have cs: "candidates mine f eligible (e # es) = f e # candidates mine f eligible es" by simp
    show ?thesis
    proof (cases b)
      case None
      then have "?b = Some (f e)" using True by (simp add: evoke_posting_heat_candidate_is_better_def)
      then show ?thesis using IH None unfolding cs by (auto split: option.splits)
    next
      case (Some c)
      then have "?b = (if heat_rank c < heat_rank (f e) then Some (f e) else Some c)"
        using True by (simp add: better_rank)
      then show ?thesis using IH Some unfolding cs
        by (cases "heat_rank c < heat_rank (f e)") (auto simp: not_less split: option.splits intro: order_trans less_imp_le)
    qed
  qed
qed (simp split: option.split)

text \<open>The decayed entries of an index that a selection may return.\<close>

definition wanted :: "u32 \<Rightarrow> u32 \<Rightarrow> u64 \<Rightarrow> u64 \<Rightarrow> u64 \<Rightarrow> u64 \<Rightarrow> u64 \<Rightarrow> u64 \<Rightarrow> evoke_posting_heat_entry list
    \<Rightarrow> evoke_posting_heat_entry list" where
  "wanted d x root_id now h minimum_heat minimum_root_heat cooldown =
     candidates (of_index d x) (\<lambda>e. evoke_posting_heat_decay e now h)
       (selectable root_id now minimum_heat minimum_root_heat cooldown)"

text \<open>
  C27. Selection, for every table and every valid request: it succeeds exactly when the index has a
  decayed entry of the requested root that is hot enough, worth working on and not in its retry
  cooldown, and then returns one no other such entry outranks, in fragment work, then root heat,
  then query heat, then the smallest term; otherwise it zeroes the candidate. The table it leaves has
  the entries of the index decayed to now and all others unchanged.
\<close>

theorem heat_select_best:
  assumes "evoke_posting_heat_table_valid capacity" and "d \<noteq> 0" and "x \<noteq> 0" and "root_id \<noteq> 0" and "now \<noteq> 0"
  shows "\<exists>c. evoke_posting_heat_select (Some es) capacity d x root_id now h mh mrh cooldown (Some out) =
      (wanted d x root_id now h mh mrh cooldown es \<noteq> [],
       Some (map (\<lambda>e. if of_index d x e then evoke_posting_heat_decay e now h else e) es), Some c) \<and>
    (if wanted d x root_id now h mh mrh cooldown es = [] then c = zero_entry
     else c \<in> set (wanted d x root_id now h mh mrh cooldown es) \<and>
       (\<forall>e \<in> set (wanted d x root_id now h mh mrh cooldown es). heat_rank e \<le> heat_rank c))"
proof -
  let ?W = "wanted d x root_id now h mh mrh cooldown es"
  let ?scan = "select_scan (of_index d x) (\<lambda>e. evoke_posting_heat_decay e now h) (selectable root_id now mh mrh cooldown) es None"
  obtain es' b where scan: "?scan = (es', b)" by (cases ?scan)
  have es': "es' = map (\<lambda>e. if of_index d x e then evoke_posting_heat_decay e now h else e) es"
    unfolding select_scan_map [of _ _ "selectable root_id now mh mrh cooldown" _ None, symmetric] scan by simp
  have best: "case b of None \<Rightarrow> ?W = []
      | Some c \<Rightarrow> c \<in> set ?W \<and> (\<forall>e \<in> set ?W. heat_rank e \<le> heat_rank c)"
    using select_scan_best [OF scan] unfolding wanted_def by (simp split: option.splits)
  have sel: "evoke_posting_heat_select (Some es) capacity d x root_id now h mh mrh cooldown (Some out) =
      (case b of None \<Rightarrow> (False, Some es', Some zero_entry) | Some c \<Rightarrow> (True, Some es', Some c))"
    using assms scan by (simp add: evoke_posting_heat_select_def split: option.split)
  show ?thesis
    using best unfolding sel es' by (cases b) auto
qed

theorem heat_select_best_witness:
  "\<exists>c. evoke_posting_heat_select (Some sample_table) 8 11 22 3 3000 1000 1 1 0 (Some zero_entry) =
     (True, Some (map (\<lambda>e. if of_index 11 22 e then evoke_posting_heat_decay e 3000 1000 else e) sample_table), Some c) \<and>
     he_term_id c = 7"
proof -
  have v: "evoke_posting_heat_table_valid 8" by code_simp
  have "map he_term_id (wanted 11 22 3 3000 1000 1 1 0 sample_table) = [7]" by code_simp
  then obtain e where e: "wanted 11 22 3 3000 1000 1 1 0 sample_table = [e]" "he_term_id e = 7" by auto
  show ?thesis
    using heat_select_best [OF v, of 11 22 3 3000 sample_table 1000 1 1 0 zero_entry] e(2) by (simp add: e(1))
qed

end
