(* ===== verification/Doubles.thy ===== *)
theory Doubles
  imports Prelude
begin

unbundle bit_operations_syntax

text \<open>
  The \<open>double\<close> values of C as their 64 bits, with the comparisons and the addition of IEEE 754 in the
  default rounding mode (to nearest, ties to even). Magnitudes are integers in units of the smallest
  positive number, \<open>2 ^ -1074\<close>, in which every finite double is exact.
\<close>

type_synonym f64 = u64

section \<open>Numbers and comparisons\<close>

definition f64_magnitude :: "f64 \<Rightarrow> int" where
  "f64_magnitude x = uint (x AND 0x7FFFFFFFFFFFFFFF)"

definition f64_negative :: "f64 \<Rightarrow> bool" where
  "f64_negative x \<longleftrightarrow> x AND 0x8000000000000000 \<noteq> 0"

definition INF_MAGNITUDE :: int where "INF_MAGNITUDE = 0x7FF0000000000000"

definition f64_is_nan :: "f64 \<Rightarrow> bool" where
  "f64_is_nan x \<longleftrightarrow> f64_magnitude x > INF_MAGNITUDE"

definition f64_is_finite :: "f64 \<Rightarrow> bool" where
  "f64_is_finite x \<longleftrightarrow> f64_magnitude x < INF_MAGNITUDE"

text \<open>Sign and magnitude of a number that is not a NaN, ordered as the numbers are.\<close>

definition f64_rank :: "f64 \<Rightarrow> int" where
  "f64_rank x = (if f64_negative x then - f64_magnitude x else f64_magnitude x)"

definition f64_less :: "f64 \<Rightarrow> f64 \<Rightarrow> bool" where
  "f64_less a b \<longleftrightarrow> \<not> f64_is_nan a \<and> \<not> f64_is_nan b \<and> f64_rank a < f64_rank b"

definition f64_less_eq :: "f64 \<Rightarrow> f64 \<Rightarrow> bool" where
  "f64_less_eq a b \<longleftrightarrow> \<not> f64_is_nan a \<and> \<not> f64_is_nan b \<and> f64_rank a \<le> f64_rank b"

definition f64_equal :: "f64 \<Rightarrow> f64 \<Rightarrow> bool" where
  "f64_equal a b \<longleftrightarrow> \<not> f64_is_nan a \<and> \<not> f64_is_nan b \<and> f64_rank a = f64_rank b"

section \<open>Addition\<close>

text \<open>The value of a finite magnitude: eleven bits of exponent over 52 bits of fraction.\<close>

definition magnitude_value :: "int \<Rightarrow> int" where
  "magnitude_value k =
     (let e = k div 2 ^ 52; m = k mod 2 ^ 52
      in if e = 0 then m else (2 ^ 52 + m) * 2 ^ nat (e - 1))"

text \<open>How far a value is shifted right to fit into the 53 bits of a significand.\<close>

function excess_bits :: "int \<Rightarrow> nat" where
  "excess_bits n = (if n < 2 ^ 53 then 0 else Suc (excess_bits (n div 2)))"
  by pat_completeness auto
termination
  by (relation "measure nat") auto

declare excess_bits.simps [simp del]

definition round_shifted :: "nat \<Rightarrow> int \<Rightarrow> int" where
  "round_shifted s n =
     (let q = n div 2 ^ s; r = n mod 2 ^ s
      in if 2 * r > 2 ^ s \<or> (2 * r = 2 ^ s \<and> odd q) then q + 1 else q)"

text \<open>The magnitude nearest to a value; a significand rounded up to \<open>2 ^ 53\<close> carries into the exponent.\<close>

definition round_magnitude :: "int \<Rightarrow> int" where
  "round_magnitude n =
     (let s = excess_bits n; k = round_shifted s n + int s * 2 ^ 52
      in if k \<ge> INF_MAGNITUDE then INF_MAGNITUDE else k)"

definition f64_value :: "f64 \<Rightarrow> int" where
  "f64_value x = (if f64_negative x then - magnitude_value (f64_magnitude x) else magnitude_value (f64_magnitude x))"

definition f64_add :: "f64 \<Rightarrow> f64 \<Rightarrow> f64" where
  "f64_add a b =
     (if f64_is_nan a \<or> f64_is_nan b then 0x7FF8000000000000
      else if \<not> f64_is_finite a
      then (if \<not> f64_is_finite b \<and> f64_negative a \<noteq> f64_negative b then 0x7FF8000000000000 else a)
      else if \<not> f64_is_finite b then b
      else
        let v = f64_value a + f64_value b
        in if v = 0 then (if f64_negative a \<and> f64_negative b then 0x8000000000000000 else 0)
           else if v > 0 then word_of_int (round_magnitude v)
           else 0x8000000000000000 OR word_of_int (round_magnitude (- v)))"

section \<open>Rounding is monotone\<close>

lemma round_shifted_mono:
  assumes "0 \<le> n" and "n \<le> m"
  shows "round_shifted s n \<le> round_shifted s m"
proof (cases "n div 2 ^ s = m div 2 ^ s")
  case True
  then have "n mod 2 ^ s \<le> m mod 2 ^ s" using assms(2) by (simp add: minus_div_mult_eq_mod [symmetric])
  then show ?thesis using True by (auto simp: round_shifted_def Let_def)
next
  case False
  then have "n div 2 ^ s + 1 \<le> m div 2 ^ s" using zdiv_mono1 [OF assms(2), of "2 ^ s"] by simp
  then show ?thesis by (auto simp: round_shifted_def Let_def)
qed

lemma round_shifted_bounds: "n div 2 ^ s \<le> round_shifted s n" "round_shifted s n \<le> n div 2 ^ s + 1"
  by (auto simp: round_shifted_def Let_def)

lemma excess_bits_0: "n < 2 ^ 53 \<Longrightarrow> excess_bits n = 0"
  by (subst excess_bits.simps) simp

lemma excess_bits_Suc: "2 ^ 53 \<le> n \<Longrightarrow> excess_bits n = Suc (excess_bits (n div 2))"
  by (subst excess_bits.simps) simp

lemma excess_bits_range:
  "n div 2 ^ excess_bits n < 2 ^ 53" "2 ^ 53 \<le> n \<Longrightarrow> 2 ^ 52 \<le> n div 2 ^ excess_bits n"
proof (induction n rule: excess_bits.induct)
  case (1 n)
  {
    case 1
    show ?case
    proof (cases "n < 2 ^ 53")
      case False
      then show ?thesis using "1.IH"(1) by (simp add: excess_bits_Suc zdiv_zmult2_eq)
    qed (simp add: excess_bits_0)
  next
    case 2
    show ?case
    proof (cases "2 ^ 53 \<le> n div 2")
      case True
      have "n div 2 ^ excess_bits n = n div 2 div 2 ^ excess_bits (n div 2)"
        unfolding excess_bits_Suc [OF 2] by (simp only: power_Suc) (rule zdiv_zmult2_eq, simp)
      then show ?thesis using "1.IH"(2) True 2 by simp
    next
      case False
      then show ?thesis using 2 by (simp add: excess_bits_Suc excess_bits_0)
    qed
  }
qed

lemma excess_bits_mono: "n \<le> m \<Longrightarrow> excess_bits n \<le> excess_bits m"
proof (induction n arbitrary: m rule: excess_bits.induct)
  case (1 n)
  show ?case
  proof (cases "n < 2 ^ 53")
    case False
    then show ?thesis using "1.IH" [of "m div 2"] "1.prems" by (simp add: excess_bits_Suc zdiv_mono1)
  qed (simp add: excess_bits_0)
qed

definition unbounded :: "int \<Rightarrow> int" where
  "unbounded n = round_shifted (excess_bits n) n + int (excess_bits n) * 2 ^ 52"

lemma round_magnitude_unbounded: "round_magnitude n = min (unbounded n) INF_MAGNITUDE"
  by (simp add: round_magnitude_def unbounded_def Let_def)

lemma unbounded_mono:
  assumes "0 \<le> n" and "n \<le> m"
  shows "unbounded n \<le> unbounded m"
proof (cases "excess_bits n = excess_bits m")
  case True
  then show ?thesis using round_shifted_mono [OF assms, of "excess_bits m"] by (simp add: unbounded_def)
next
  case False
  then have s: "int (excess_bits n) + 1 \<le> int (excess_bits m)" using excess_bits_mono [OF assms(2)] by simp
  have "2 ^ 53 \<le> m" using s by (cases "2 ^ 53 \<le> m") (simp_all add: excess_bits_0)
  then have "2 ^ 52 \<le> round_shifted (excess_bits m) m"
    using excess_bits_range(2) [of m] round_shifted_bounds(1) [of m "excess_bits m"] by linarith
  moreover have "round_shifted (excess_bits n) n \<le> 2 ^ 53"
    using excess_bits_range(1) [of n] round_shifted_bounds(2) [where n = n and s = "excess_bits n"] by linarith
  moreover have "int (excess_bits n) * 2 ^ 52 + 2 ^ 52 \<le> int (excess_bits m) * 2 ^ 52"
    using s by (simp add: algebra_simps)
  ultimately show ?thesis by (simp add: unbounded_def)
qed

lemma round_magnitude_mono: "0 \<le> n \<Longrightarrow> n \<le> m \<Longrightarrow> round_magnitude n \<le> round_magnitude m"
  using unbounded_mono [of n m] by (simp add: round_magnitude_unbounded)

text \<open>A value that is a double is not changed.\<close>

lemma excess_bits_shift:
  assumes "2 ^ 52 \<le> m" and "m < 2 ^ 53"
  shows "excess_bits (m * 2 ^ s) = s"
proof (induction s)
  case 0
  then show ?case using assms by (simp add: excess_bits_0)
next
  case (Suc s)
  have "2 ^ 52 \<le> m * 2 ^ s" using assms(1) by (simp add: mult_le_cancel_left1 order_trans)
  then have "2 ^ 53 \<le> m * 2 ^ Suc s" by simp
  moreover have "m * 2 ^ Suc s div 2 = m * 2 ^ s" by simp
  ultimately show ?case using Suc by (simp add: excess_bits_Suc)
qed

lemma unbounded_value:
  assumes "0 \<le> k"
  shows "unbounded (magnitude_value k) = k"
proof (cases "k div 2 ^ 52 = 0")
  case True
  then have "magnitude_value k = k" "k < 2 ^ 52" using assms by (auto simp: magnitude_value_def div_eq_0_iff zdiv_eq_0_iff)
  then show ?thesis by (simp add: unbounded_def excess_bits_0 round_shifted_def)
next
  case False
  let ?m = "2 ^ 52 + k mod 2 ^ 52" and ?s = "nat (k div 2 ^ 52 - 1)"
  have "0 \<le> k div 2 ^ 52" using assms by (simp add: pos_imp_zdiv_nonneg_iff)
  then have pos: "1 \<le> k div 2 ^ 52" using False by linarith
  have v: "magnitude_value k = ?m * 2 ^ ?s" using False by (simp add: magnitude_value_def Let_def)
  have "k mod 2 ^ 52 < 2 ^ 52" "0 \<le> k mod 2 ^ 52" by simp_all
  then have s: "excess_bits (magnitude_value k) = ?s" unfolding v by (intro excess_bits_shift) simp_all
  have "round_shifted ?s (magnitude_value k) = ?m" unfolding v by (simp add: round_shifted_def)
  then have "unbounded (magnitude_value k) = ?m + (k div 2 ^ 52 - 1) * 2 ^ 52" using pos unfolding unbounded_def s by simp
  also have "\<dots> = k" using div_mult_mod_eq [of k "2 ^ 52"] by (simp add: algebra_simps)
  finally show ?thesis .
qed

lemma magnitude_value_nonneg: "0 \<le> k \<Longrightarrow> 0 \<le> magnitude_value k"
  by (simp add: magnitude_value_def Let_def)

lemma magnitude_value_mono:
  assumes "0 \<le> k" and "k \<le> l"
  shows "magnitude_value k \<le> magnitude_value l"
proof (rule ccontr)
  assume "\<not> magnitude_value k \<le> magnitude_value l"
  then have "unbounded (magnitude_value l) \<le> unbounded (magnitude_value k)"
    using magnitude_value_nonneg [of l] assms by (intro unbounded_mono) auto
  then have "k = l" using assms unbounded_value by simp
  then show False using \<open>\<not> magnitude_value k \<le> magnitude_value l\<close> by simp
qed


section \<open>Numbers that are not negative\<close>

text \<open>On the numbers from zero to infinity the order is the order of the bits.\<close>

definition f64_nonneg :: "f64 \<Rightarrow> bool" where
  "f64_nonneg x \<longleftrightarrow> uint x \<le> INF_MAGNITUDE"

lemma magnitude_mask: "f64_magnitude x = uint x mod 2 ^ 63"
proof -
  have "(0x7FFFFFFFFFFFFFFF :: f64) = mask 63" by (simp add: mask_eq_exp_minus_1)
  then have "f64_magnitude x = uint (take_bit 63 x)" by (simp add: f64_magnitude_def take_bit_eq_mask)
  also have "uint (take_bit 63 x) = take_bit 63 (uint x)" by (rule unsigned_take_bit_eq)
  also have "\<dots> = uint x mod 2 ^ 63" by (rule take_bit_eq_mod)
  finally show ?thesis .
qed

lemma negative_bit: "f64_negative x \<longleftrightarrow> bit x 63"
proof -
  have "(0x8000000000000000 :: f64) = 2 ^ 63" by simp
  then have "f64_negative x \<longleftrightarrow> x AND 2 ^ 63 \<noteq> 0" by (simp only: f64_negative_def)
  then show ?thesis unfolding and_exp_eq_0_iff_not_bit by simp
qed

lemma f64_nonneg_simps:
  assumes "f64_nonneg x"
  shows "f64_magnitude x = uint x" "\<not> f64_negative x" "\<not> f64_is_nan x" "f64_rank x = uint x"
    "f64_is_finite x \<longleftrightarrow> uint x < INF_MAGNITUDE" "f64_value x = magnitude_value (uint x)"
proof -
  have small: "uint x < 2 ^ 63" using assms by (simp add: f64_nonneg_def INF_MAGNITUDE_def)
  then show m: "f64_magnitude x = uint x" by (simp add: magnitude_mask)
  have "\<not> bit (uint x) 63" using small by (simp add: bit_iff_odd div_pos_pos_trivial)
  then show n: "\<not> f64_negative x" by (simp add: negative_bit bit_uint_iff)
  show "\<not> f64_is_nan x" "f64_rank x = uint x" "f64_is_finite x \<longleftrightarrow> uint x < INF_MAGNITUDE"
    "f64_value x = magnitude_value (uint x)"
    using assms by (simp_all add: f64_is_nan_def f64_rank_def f64_is_finite_def f64_value_def m n f64_nonneg_def)
qed

lemma round_magnitude_range: "0 \<le> n \<Longrightarrow> 0 \<le> round_magnitude n" "round_magnitude n \<le> INF_MAGNITUDE"
  using unbounded_mono [of 0 n]
  by (simp_all add: round_magnitude_unbounded INF_MAGNITUDE_def unbounded_def excess_bits_0 round_shifted_def)

text \<open>The sum of two such numbers: infinity when one is, and otherwise the rounded exact sum.\<close>

lemma uint_add:
  assumes "f64_nonneg a" and "f64_nonneg b"
  shows "uint (f64_add a b) =
    (if uint a = INF_MAGNITUDE \<or> uint b = INF_MAGNITUDE then INF_MAGNITUDE
     else round_magnitude (magnitude_value (uint a) + magnitude_value (uint b)))"
proof (cases "uint a < INF_MAGNITUDE \<and> uint b < INF_MAGNITUDE")
  case True
  let ?v = "magnitude_value (uint a) + magnitude_value (uint b)"
  have v: "0 \<le> ?v" using magnitude_value_nonneg [of "uint a"] magnitude_value_nonneg [of "uint b"] by simp
  have zero: "round_magnitude 0 = 0"
    by (simp add: round_magnitude_def excess_bits_0 round_shifted_def INF_MAGNITUDE_def)
  have "uint (word_of_int (round_magnitude ?v) :: f64) = round_magnitude ?v"
    using round_magnitude_range(1) [OF v] round_magnitude_range(2) [of ?v]
    by (simp add: uint_word_of_int_eq take_bit_int_eq_self INF_MAGNITUDE_def)
  then show ?thesis
    using True v zero by (auto simp: f64_add_def f64_nonneg_simps [OF assms(1)] f64_nonneg_simps [OF assms(2)] Let_def)
next
  case False
  then show ?thesis
    using assms by (auto simp: f64_add_def f64_nonneg_simps [OF assms(1)] f64_nonneg_simps [OF assms(2)] f64_nonneg_def)
qed

section \<open>Accumulating\<close>

text \<open>
  What a running sum of such numbers may rely on: adding keeps the range, does not go down and is
  monotone in the running sum.
\<close>

locale accumulation =
  fixes add :: "'n \<Rightarrow> 'n \<Rightarrow> 'n" and num :: "'n \<Rightarrow> bool" and rank :: "'n \<Rightarrow> int"
  assumes num_add: "num a \<Longrightarrow> num w \<Longrightarrow> num (add a w)"
    and add_ge: "num a \<Longrightarrow> num w \<Longrightarrow> rank a \<le> rank (add a w)"
    and add_mono: "num a \<Longrightarrow> num b \<Longrightarrow> num w \<Longrightarrow> rank a \<le> rank b \<Longrightarrow> rank (add a w) \<le> rank (add b w)"
begin

definition running :: "'n \<Rightarrow> 'n list \<Rightarrow> 'n" where
  "running = foldl add"

lemma running_simps [simp]: "running a [] = a" "running a (w # ws) = running (add a w) ws"
  "running a (ws @ [w]) = add (running a ws) w"
  by (simp_all add: running_def)

lemma num_running: "num a \<Longrightarrow> \<forall>w \<in> set ws. num w \<Longrightarrow> num (running a ws)"
  by (induction ws arbitrary: a) (simp_all add: num_add)

lemma running_ge: "num a \<Longrightarrow> \<forall>w \<in> set ws. num w \<Longrightarrow> rank a \<le> rank (running a ws)"
proof (induction ws rule: rev_induct)
  case (snoc w ws)
  then have "rank a \<le> rank (running a ws)" "rank (running a ws) \<le> rank (add (running a ws) w)"
    by (auto intro: add_ge num_running)
  then show ?case by simp
qed simp

lemma running_mono:
  "num a \<Longrightarrow> num b \<Longrightarrow> rank a \<le> rank b \<Longrightarrow> \<forall>w \<in> set ws. num w \<Longrightarrow> rank (running a ws) \<le> rank (running b ws)"
  by (induction ws arbitrary: a b) (simp_all add: num_add add_mono)

end

lemma f64_add_rank:
  assumes "f64_nonneg a" and "f64_nonneg b" and "f64_nonneg w" and "uint a \<le> uint b"
  shows "f64_nonneg (f64_add a w)" "uint a \<le> uint (f64_add a w)" "uint (f64_add a w) \<le> uint (f64_add b w)"
proof -
  show "f64_nonneg (f64_add a w)"
    unfolding f64_nonneg_def uint_add [OF assms(1,3)] using round_magnitude_range(2) by simp
  have nn: "0 \<le> magnitude_value (uint x)" for x :: f64 by (simp add: magnitude_value_nonneg)
  have "round_magnitude (magnitude_value (uint a)) \<le> round_magnitude (magnitude_value (uint a) + magnitude_value (uint w))"
    using nn [of a] nn [of w] by (intro round_magnitude_mono) simp_all
  moreover have "round_magnitude (magnitude_value (uint a)) = uint a"
    using assms(1) by (simp add: round_magnitude_unbounded unbounded_value f64_nonneg_def)
  ultimately show "uint a \<le> uint (f64_add a w)"
    unfolding uint_add [OF assms(1,3)] using assms(1) by (simp add: f64_nonneg_def)
  have "magnitude_value (uint a) \<le> magnitude_value (uint b)" using assms(4) by (simp add: magnitude_value_mono)
  then have "round_magnitude (magnitude_value (uint a) + magnitude_value (uint w)) \<le>
      round_magnitude (magnitude_value (uint b) + magnitude_value (uint w))"
    using nn [of a] nn [of w] by (intro round_magnitude_mono) simp_all
  then show "uint (f64_add a w) \<le> uint (f64_add b w)"
    unfolding uint_add [OF assms(1,3)] uint_add [OF assms(2,3)]
    using assms round_magnitude_range(2) by (auto simp: f64_nonneg_def)
qed

interpretation double_sum: accumulation f64_add f64_nonneg uint
  by unfold_locales (auto intro: f64_add_rank)

end
