(* ===== verification/Space_Saving.thy ===== *)
theory Space_Saving
  imports Binary_Heap Doubles "HOL-Library.Product_Lexorder"
begin

unbundle bit_operations_syntax

text \<open>
  The heavy-hitter summary of \<open>src/evoke_weighted_space_saving.c\<close>: at most \<open>capacity\<close> counters over a stream of
  weighted items. An item that is counted adds its weight; an item that is not takes over the smallest
  counter. Counters are found through a table with open addressing and linear probing, the smallest
  one is the root of a heap of counter indices, and every counter knows its position in the heap.

  \<open>ss_counters\<close> and \<open>ss_heap\<close> are the parts of the arrays in use, whose length is \<open>len\<close>; indices into them
  are natural numbers, slots of the table are words as in the code.
\<close>

section \<open>Data\<close>

record evoke_weighted_space_saving_counter =
  ct_item :: u32
  ct_estimate :: f64
  ct_error :: f64
  ct_heap_position :: nat

record evoke_weighted_space_saving_hash_slot =
  hs_item :: u32
  hs_counter_index_plus_one :: nat

record evoke_weighted_space_saving =
  ss_counters :: "evoke_weighted_space_saving_counter list"
  ss_hash_slots :: "evoke_weighted_space_saving_hash_slot list"
  ss_heap :: "nat list"
  ss_capacity :: u64
  ss_hash_capacity :: u64
  ss_replacements :: u64
  ss_total_weight :: f64
  ss_maximum_error :: f64

definition zero_slot :: evoke_weighted_space_saving_hash_slot where
  "zero_slot = \<lparr>hs_item = 0, hs_counter_index_plus_one = 0\<rparr>"

definition zero_summary :: evoke_weighted_space_saving where
  "zero_summary = \<lparr>ss_counters = [], ss_hash_slots = [], ss_heap = [], ss_capacity = 0, ss_hash_capacity = 0,
     ss_replacements = 0, ss_total_weight = 0, ss_maximum_error = 0\<rparr>"

section \<open>The heap\<close>

definition evoke_weighted_space_saving_hash :: "u32 \<Rightarrow> u64" where
  "evoke_weighted_space_saving_hash item =
     (let value = item;
          value = value XOR drop_bit 16 value;
          value = value * 0x7feb352d;
          value = value XOR drop_bit 15 value;
          value = value * 0x846ca68b;
          value = value XOR drop_bit 16 value
      in u64_of_u32 value)"

definition evoke_weighted_space_saving_counter_less :: "evoke_weighted_space_saving \<Rightarrow> nat \<Rightarrow> nat \<Rightarrow> bool" where
  "evoke_weighted_space_saving_counter_less summary left_index right_index =
     (let left = ss_counters summary ! left_index; right = ss_counters summary ! right_index
      in if \<not> f64_equal (ct_estimate left) (ct_estimate right)
         then f64_less (ct_estimate left) (ct_estimate right)
         else ct_item left > ct_item right)"

definition set_heap_position :: "nat \<Rightarrow> nat \<Rightarrow> evoke_weighted_space_saving \<Rightarrow> evoke_weighted_space_saving" where
  "set_heap_position index position summary =
     summary\<lparr>ss_counters := (ss_counters summary)[index := (ss_counters summary ! index)\<lparr>ct_heap_position := position\<rparr>]\<rparr>"

definition evoke_weighted_space_saving_heap_swap ::
  "evoke_weighted_space_saving \<Rightarrow> nat \<Rightarrow> nat \<Rightarrow> evoke_weighted_space_saving" where
  "evoke_weighted_space_saving_heap_swap summary left right =
     (let left_index = ss_heap summary ! left; right_index = ss_heap summary ! right;
          summary = summary\<lparr>ss_heap := (ss_heap summary)[left := right_index, right := left_index]\<rparr>
      in set_heap_position right_index left (set_heap_position left_index right summary))"

fun evoke_weighted_space_saving_heap_up ::
  "evoke_weighted_space_saving \<Rightarrow> nat \<Rightarrow> evoke_weighted_space_saving" where
  "evoke_weighted_space_saving_heap_up summary position =
     (if position > 0 then
        let parent = (position - 1) div 2 in
        if \<not> evoke_weighted_space_saving_counter_less summary (ss_heap summary ! position) (ss_heap summary ! parent)
        then summary
        else evoke_weighted_space_saving_heap_up (evoke_weighted_space_saving_heap_swap summary position parent) parent
      else summary)"

text \<open>The body of the loop downwards: the smallest of a node and its children.\<close>

definition smallest_child :: "evoke_weighted_space_saving \<Rightarrow> nat \<Rightarrow> nat" where
  "smallest_child summary position =
     (let len = length (ss_counters summary);
          left = position * 2 + 1;
          right = left + 1;
          smallest = position;
          smallest = (if left < len \<and>
                         evoke_weighted_space_saving_counter_less summary (ss_heap summary ! left) (ss_heap summary ! smallest)
                      then left else smallest);
          smallest = (if right < len \<and>
                         evoke_weighted_space_saving_counter_less summary (ss_heap summary ! right) (ss_heap summary ! smallest)
                      then right else smallest)
      in smallest)"

lemma smallest_child_range:
  "smallest_child summary position = position \<or>
   (position < smallest_child summary position \<and> smallest_child summary position < length (ss_counters summary))"
  by (simp add: smallest_child_def Let_def)

lemma heap_swap_length [simp]:
  "length (ss_counters (evoke_weighted_space_saving_heap_swap summary i j)) = length (ss_counters summary)"
  "length (ss_heap (evoke_weighted_space_saving_heap_swap summary i j)) = length (ss_heap summary)"
  by (simp_all add: evoke_weighted_space_saving_heap_swap_def set_heap_position_def Let_def)

function evoke_weighted_space_saving_heap_down ::
  "evoke_weighted_space_saving \<Rightarrow> nat \<Rightarrow> evoke_weighted_space_saving" where
  "evoke_weighted_space_saving_heap_down summary position =
     (let smallest = smallest_child summary position in
      if smallest = position then summary
      else evoke_weighted_space_saving_heap_down (evoke_weighted_space_saving_heap_swap summary position smallest) smallest)"
  by pat_completeness auto
termination
  by (relation "measure (\<lambda>(summary, position). length (ss_counters summary) - position)")
    (use smallest_child_range in fastforce)+

declare evoke_weighted_space_saving_heap_up.simps [simp del]
declare evoke_weighted_space_saving_heap_down.simps [simp del]

section \<open>The table\<close>

text \<open>
  What a lookup reports: the slot and the counter of the item, a free slot, or that every slot is
  taken (\<open>SIZE_MAX\<close> in the code).
\<close>

datatype probe_result = Probe_Found u64 nat | Probe_Free u64 | Probe_Full

fun probe_loop ::
  "evoke_weighted_space_saving_hash_slot list \<Rightarrow> u64 \<Rightarrow> u32 \<Rightarrow> nat \<Rightarrow> u64 \<Rightarrow> probe_result" where
  "probe_loop slots slot_mask item 0 slot = Probe_Full"
| "probe_loop slots slot_mask item (Suc probes) slot =
     (let entry = slots ! unat slot in
      if hs_counter_index_plus_one entry = 0 then Probe_Free slot
      else if hs_item entry = item then Probe_Found slot (hs_counter_index_plus_one entry - 1)
      else probe_loop slots slot_mask item probes ((slot + 1) AND slot_mask))"

definition evoke_weighted_space_saving_hash_lookup :: "evoke_weighted_space_saving \<Rightarrow> u32 \<Rightarrow> probe_result" where
  "evoke_weighted_space_saving_hash_lookup summary item =
     (let slot_mask = ss_hash_capacity summary - 1;
          slot = evoke_weighted_space_saving_hash item AND slot_mask
      in probe_loop (ss_hash_slots summary) slot_mask item (unat (ss_hash_capacity summary)) slot)"

definition evoke_weighted_space_saving_hash_insert ::
  "evoke_weighted_space_saving \<Rightarrow> u32 \<Rightarrow> nat \<Rightarrow> evoke_status \<times> evoke_weighted_space_saving" where
  "evoke_weighted_space_saving_hash_insert summary item counter_index =
     (case evoke_weighted_space_saving_hash_lookup summary item of
        Probe_Free slot \<Rightarrow>
          (EVOKE_OK, summary\<lparr>ss_hash_slots := (ss_hash_slots summary)[unat slot :=
             \<lparr>hs_item = item, hs_counter_index_plus_one = counter_index + 1\<rparr>]\<rparr>)
      | _ \<Rightarrow> (EVOKE_ERR_FORMAT, summary))"

text \<open>The loop that closes the hole a removed entry leaves; \<open>None\<close> if it does not end.\<close>

partial_function (option) remove_loop ::
  "u64 \<Rightarrow> evoke_weighted_space_saving_hash_slot list \<Rightarrow> u64 \<Rightarrow> u64
     \<Rightarrow> (evoke_weighted_space_saving_hash_slot list \<times> u64) option" where
  "remove_loop slot_mask slots hole scan =
     (if hs_counter_index_plus_one (slots ! unat scan) = 0 then Some (slots, hole)
      else
        let home = evoke_weighted_space_saving_hash (hs_item (slots ! unat scan)) AND slot_mask;
            home_distance = (scan - home) AND slot_mask;
            hole_distance = (scan - hole) AND slot_mask
        in if home_distance \<ge> hole_distance
           then remove_loop slot_mask (slots[unat hole := slots ! unat scan]) scan ((scan + 1) AND slot_mask)
           else remove_loop slot_mask slots hole ((scan + 1) AND slot_mask))"

definition evoke_weighted_space_saving_hash_remove ::
  "evoke_weighted_space_saving \<Rightarrow> u32 \<Rightarrow> (evoke_status \<times> evoke_weighted_space_saving) option" where
  "evoke_weighted_space_saving_hash_remove summary item =
     (case evoke_weighted_space_saving_hash_lookup summary item of
        Probe_Found hole _ \<Rightarrow>
          let slot_mask = ss_hash_capacity summary - 1 in
          (case remove_loop slot_mask (ss_hash_slots summary) hole ((hole + 1) AND slot_mask) of
             None \<Rightarrow> None
           | Some (slots, hole) \<Rightarrow> Some (EVOKE_OK, summary\<lparr>ss_hash_slots := slots[unat hole := zero_slot]\<rparr>))
      | _ \<Rightarrow> Some (EVOKE_ERR_FORMAT, summary))"

section \<open>Operations\<close>

definition evoke_weighted_space_saving_init_empty ::
  "evoke_weighted_space_saving option \<Rightarrow> evoke_weighted_space_saving option" where
  "evoke_weighted_space_saving_init_empty summary = (if summary \<noteq> None then Some zero_summary else None)"

definition evoke_weighted_space_saving_free ::
  "evoke_weighted_space_saving option \<Rightarrow> evoke_weighted_space_saving option" where
  "evoke_weighted_space_saving_free summary = (if summary = None then None else Some zero_summary)"

text \<open>The loop that doubles the number of slots; the sum is the status it returns early with.\<close>

partial_function (option) grow_hash_capacity :: "u64 \<Rightarrow> u64 \<Rightarrow> (evoke_status + u64) option" where
  "grow_hash_capacity capacity hash_capacity =
     (if hash_capacity < capacity * 2
      then if hash_capacity > SIZE_MAX div 2 then Some (Inl EVOKE_ERR_RANGE)
           else grow_hash_capacity capacity (hash_capacity * 2)
      else Some (Inr hash_capacity))"

text \<open>\<open>counters_ok\<close>, \<open>slots_ok\<close> and \<open>heap_ok\<close>: the three allocations succeed.\<close>

definition evoke_weighted_space_saving_init ::
  "bool \<Rightarrow> bool \<Rightarrow> bool \<Rightarrow> evoke_weighted_space_saving option \<Rightarrow> u64
     \<Rightarrow> (evoke_status \<times> evoke_weighted_space_saving option) option" where
  "evoke_weighted_space_saving_init counters_ok slots_ok heap_ok summary capacity =
     (if summary = None \<or> capacity = 0 \<or> capacity > SIZE_MAX div 2 then Some (EVOKE_ERR_INVALID, summary)
      else
        case grow_hash_capacity capacity 8 of
          None \<Rightarrow> None
        | Some (Inl status) \<Rightarrow> Some (status, evoke_weighted_space_saving_free summary)
        | Some (Inr hash_capacity) \<Rightarrow>
            if \<not> counters_ok \<or> \<not> slots_ok \<or> \<not> heap_ok
            then Some (EVOKE_ERR_NOMEM, evoke_weighted_space_saving_free summary)
            else Some (EVOKE_OK, Some (zero_summary\<lparr>ss_hash_slots := replicate (unat hash_capacity) zero_slot,
                         ss_capacity := capacity, ss_hash_capacity := hash_capacity\<rparr>)))"

definition evoke_weighted_space_saving_offer ::
  "evoke_weighted_space_saving option \<Rightarrow> u32 \<Rightarrow> f64
     \<Rightarrow> (evoke_status \<times> evoke_weighted_space_saving option) option" where
  "evoke_weighted_space_saving_offer summary item weight =
     (case summary of
        None \<Rightarrow> Some (EVOKE_ERR_INVALID, None)
      | Some s \<Rightarrow>
          if ss_capacity s = 0 \<or> \<not> f64_is_finite weight \<or> f64_less_eq weight 0 then Some (EVOKE_ERR_INVALID, summary)
          else
            let total_weight = f64_add (ss_total_weight s) weight in
            if \<not> f64_is_finite total_weight then Some (EVOKE_ERR_RANGE, summary)
            else
              let s = s\<lparr>ss_total_weight := total_weight\<rparr> in
              (case evoke_weighted_space_saving_hash_lookup s item of
                 Probe_Found slot counter_index \<Rightarrow>
                   let counter = ss_counters s ! counter_index;
                       counter = counter\<lparr>ct_estimate := f64_add (ct_estimate counter) weight\<rparr>;
                       s = s\<lparr>ss_counters := (ss_counters s)[counter_index := counter]\<rparr>
                   in if \<not> f64_is_finite (ct_estimate counter) then Some (EVOKE_ERR_RANGE, Some s)
                      else Some (EVOKE_OK, Some (evoke_weighted_space_saving_heap_down s (ct_heap_position counter)))
               | _ \<Rightarrow>
                   let len = length (ss_counters s) in
                   if len < unat (ss_capacity s)
                   then
                     let counter = \<lparr>ct_item = item, ct_estimate = weight, ct_error = 0, ct_heap_position = len\<rparr>;
                         s = s\<lparr>ss_counters := ss_counters s @ [counter], ss_heap := ss_heap s @ [len]\<rparr>;
                         (status, s) = evoke_weighted_space_saving_hash_insert s item len
                     in if status \<noteq> EVOKE_OK then Some (EVOKE_ERR_FORMAT, Some s)
                        else Some (EVOKE_OK, Some (evoke_weighted_space_saving_heap_up s (ct_heap_position counter)))
                   else
                     let counter_index = ss_heap s ! 0;
                         counter = ss_counters s ! counter_index;
                         minimum = ct_estimate counter
                     in (case evoke_weighted_space_saving_hash_remove s (ct_item counter) of
                           None \<Rightarrow> None
                         | Some (status, s) \<Rightarrow>
                             if status \<noteq> EVOKE_OK then Some (status, Some s)
                             else
                               let counter = counter\<lparr>ct_item := item, ct_estimate := f64_add minimum weight, ct_error := minimum\<rparr>;
                                   s = s\<lparr>ss_counters := (ss_counters s)[counter_index := counter]\<rparr>
                               in if \<not> f64_is_finite (ct_estimate counter) then Some (EVOKE_ERR_RANGE, Some s)
                                  else
                                    let s = (if f64_less (ss_maximum_error s) (ct_error counter)
                                             then s\<lparr>ss_maximum_error := ct_error counter\<rparr> else s);
                                        s = s\<lparr>ss_replacements := ss_replacements s + 1\<rparr>;
                                        (status, s) = evoke_weighted_space_saving_hash_insert s item counter_index
                                    in if status \<noteq> EVOKE_OK then Some (status, Some s)
                                       else Some (EVOKE_OK, Some (evoke_weighted_space_saving_heap_down s 0)))))"

end
