(* ===== verification/Space_Saving_Table.thy ===== *)
theory Space_Saving_Table
  imports Space_Saving
begin

unbundle bit_operations_syntax

text \<open>
  The table of the heavy-hitter summary: linear probing over a power of two of slots, and removal that
  moves later entries back into the hole instead of leaving a tombstone. A lookup finds exactly the
  entries that are stored; insertion and removal keep it so.
\<close>

section \<open>Slots modulo the capacity\<close>

text \<open>A capacity that is a power of two, and its number of slots.\<close>

definition slots_of :: "u64 \<Rightarrow> nat \<Rightarrow> bool" where
  "slots_of hash_capacity n \<longleftrightarrow> (\<exists>k < 64. hash_capacity = 2 ^ k \<and> n = 2 ^ k)"

lemma unat_take_bit_word: "unat (take_bit k (x :: u64)) = unat x mod 2 ^ k"
  by (rule trans [OF unsigned_take_bit_eq take_bit_eq_mod])

lemma unat_exp_word:
  assumes "k < 64"
  shows "unat (2 ^ k :: u64) = 2 ^ k"
proof -
  have "(2 :: nat) ^ k < 2 ^ 64" using assms by (intro power_strict_increasing) simp_all
  then have "unat (of_nat (2 ^ k) :: u64) = 2 ^ k" by (simp only: unat_of_nat) simp
  then show ?thesis by simp
qed

lemma slots_of_simps:
  assumes "slots_of hash_capacity n"
  shows "unat hash_capacity = n" "0 < n" "n dvd 2 ^ 64" "unat (x AND (hash_capacity - 1)) = unat x mod n"
proof -
  obtain k where k: "k < 64" "hash_capacity = 2 ^ k" "n = 2 ^ k" using assms by (auto simp: slots_of_def)
  show "unat hash_capacity = n" "0 < n" using k(1) unfolding k(2,3) by (simp_all add: unat_exp_word)
  show "n dvd 2 ^ 64" unfolding k(3) using k(1) by (intro le_imp_power_dvd) simp
  have "hash_capacity - 1 = mask k" by (simp add: k(2) mask_eq_exp_minus_1)
  then show "unat (x AND (hash_capacity - 1)) = unat x mod n"
    unfolding k(3) by (simp only: take_bit_eq_mask [symmetric] unat_take_bit_word)
qed

lemma next_slot:
  assumes "slots_of hash_capacity n"
  shows "unat ((s + 1) AND (hash_capacity - 1)) = (unat s + 1) mod n"
proof -
  have "unat (s + 1) = (unat s + 1) mod 2 ^ 64" by (simp add: unat_word_ariths)
  then have "unat (s + 1) mod n = (unat s + 1) mod n" by (simp only: mod_mod_cancel [OF slots_of_simps(3) [OF assms]])
  then show ?thesis by (simp only: slots_of_simps(4) [OF assms])
qed

lemma unat_minus_mod: "unat (a - b :: u64) = (unat a + 2 ^ 64 - unat b) mod 2 ^ 64"
  using unat_sub_if' [of a b] u64_less [of a] u64_less [of b]
  by (auto simp del: u64_less simp: mod_if)

lemma slot_distance:
  assumes "slots_of hash_capacity n" and "unat b < n"
  shows "unat ((a - b) AND (hash_capacity - 1)) = (unat a + n - unat b) mod n"
proof -
  note n = slots_of_simps [OF assms(1)]
  have "n \<le> 2 ^ 64" using dvd_imp_le [OF n(3)] by simp
  then obtain c where c: "2 ^ 64 = n + c" using le_Suc_ex by blast
  have "n dvd c" using n(3) unfolding c by simp
  have "unat (a - b) mod n = (unat a + 2 ^ 64 - unat b) mod n"
    unfolding unat_minus_mod by (simp only: mod_mod_cancel [OF n(3)])
  also have "unat a + 2 ^ 64 - unat b = (unat a + n - unat b) + c" using assms(2) unfolding c by simp
  also have "((unat a + n - unat b) + c) mod n = (unat a + n - unat b) mod n"
    using \<open>n dvd c\<close> by (metis add.right_neutral dvd_imp_mod_0 mod_add_right_eq)
  finally show ?thesis unfolding n(4) .
qed

text \<open>The distance from one slot to another, going up and round.\<close>

definition dist_up :: "nat \<Rightarrow> nat \<Rightarrow> nat \<Rightarrow> nat" where
  "dist_up n a b = (b + n - a) mod n"

lemma dist_up_if: "a < n \<Longrightarrow> b < n \<Longrightarrow> dist_up n a b = (if a \<le> b then b - a else b + n - a)"
  by (auto simp: dist_up_def mod_if)

lemma dist_up_less: "0 < n \<Longrightarrow> dist_up n a b < n"
  by (simp add: dist_up_def)

lemma dist_up_self [simp]: "a < n \<Longrightarrow> dist_up n a a = 0"
  by (simp add: dist_up_if)

lemma dist_up_0: "a < n \<Longrightarrow> b < n \<Longrightarrow> dist_up n a b = 0 \<longleftrightarrow> a = b"
  by (auto simp: dist_up_if)

lemma dist_up_reach: "a < n \<Longrightarrow> b < n \<Longrightarrow> (a + dist_up n a b) mod n = b"
  by (auto simp: dist_up_if)

lemma dist_up_walk: "a < n \<Longrightarrow> d < n \<Longrightarrow> dist_up n a ((a + d) mod n) = d"
  by (subst dist_up_if) (auto simp: mod_if)

lemma dist_up_Suc:
  "a < n \<Longrightarrow> b < n \<Longrightarrow> dist_up n a ((b + 1) mod n) = (if dist_up n a b + 1 = n then 0 else dist_up n a b + 1)"
  by (cases "b + 1 = n") (auto simp: dist_up_if)

lemma dist_up_next:
  assumes "a < n" "e < n" "a \<noteq> e"
  shows "dist_up n ((a + 1) mod n) e < dist_up n a e"
proof (cases "a + 1 = n")
  case True
  moreover have "dist_up n 0 e = e" using assms by (subst dist_up_if) auto
  ultimately show ?thesis using assms by (simp add: dist_up_if)
next
  case False
  then have "(a + 1) mod n = a + 1" "a + 1 < n" using assms by simp_all
  then show ?thesis using assms by (auto simp: dist_up_if)
qed

lemma dist_up_inj: "a < n \<Longrightarrow> b < n \<Longrightarrow> c < n \<Longrightarrow> dist_up n a b = dist_up n a c \<Longrightarrow> b = c"
  by (auto simp: dist_up_if split: if_splits)

lemma dist_up_split:
  "a < n \<Longrightarrow> b < n \<Longrightarrow> c < n \<Longrightarrow> dist_up n a b \<le> dist_up n a c \<Longrightarrow> dist_up n a c = dist_up n a b + dist_up n b c"
  by (auto simp: dist_up_if split: if_splits)

lemma on_path_iff:
  "a < n \<Longrightarrow> b < n \<Longrightarrow> c < n \<Longrightarrow> dist_up n a b \<le> dist_up n a c \<longleftrightarrow> dist_up n b c \<le> dist_up n a c"
  by (auto simp: dist_up_if split: if_splits)

lemma on_path_trans:
  assumes "a < n" "b < n" "c < n" "s < n" "dist_up n a b \<le> dist_up n a c" "dist_up n b s \<le> dist_up n b c"
  shows "dist_up n a s \<le> dist_up n a c"
  using assms by (auto simp: dist_up_if split: if_splits)


section \<open>Well-formed tables\<close>

type_synonym slots = "evoke_weighted_space_saving_hash_slot list"

definition occupied :: "slots \<Rightarrow> nat \<Rightarrow> bool" where
  "occupied T p \<longleftrightarrow> hs_counter_index_plus_one (T ! p) \<noteq> 0"

definition home_of :: "nat \<Rightarrow> u32 \<Rightarrow> nat" where
  "home_of n item = unat (evoke_weighted_space_saving_hash item) mod n"

definition home :: "slots \<Rightarrow> nat \<Rightarrow> nat" where
  "home T p = home_of (length T) (hs_item (T ! p))"

text \<open>No free slot lies between the home of an entry and the entry.\<close>

definition probed :: "slots \<Rightarrow> nat \<Rightarrow> bool" where
  "probed T p \<longleftrightarrow>
     (\<forall>q < length T. dist_up (length T) (home T p) q \<le> dist_up (length T) (home T p) p \<longrightarrow> occupied T q)"

definition table_ok :: "slots \<Rightarrow> bool" where
  "table_ok T \<longleftrightarrow> (\<forall>p < length T. occupied T p \<longrightarrow> probed T p) \<and>
     (\<forall>p < length T. \<forall>q < length T. occupied T p \<longrightarrow> occupied T q \<longrightarrow> hs_item (T ! p) = hs_item (T ! q) \<longrightarrow> p = q)"

definition has_room :: "slots \<Rightarrow> bool" where
  "has_room T \<longleftrightarrow> (\<exists>p < length T. \<not> occupied T p)"

text \<open>The entries of a table, as items with the indices of their counters.\<close>

definition slot_entry :: "evoke_weighted_space_saving_hash_slot \<Rightarrow> u32 \<times> nat" where
  "slot_entry e = (hs_item e, hs_counter_index_plus_one e - 1)"

definition entries :: "slots \<Rightarrow> (u32 \<times> nat) set" where
  "entries T = (\<lambda>p. slot_entry (T ! p)) ` {p. p < length T \<and> occupied T p}"

lemma in_entries:
  "(item, i) \<in> entries T \<longleftrightarrow>
     (\<exists>p < length T. occupied T p \<and> hs_item (T ! p) = item \<and> hs_counter_index_plus_one (T ! p) - 1 = i)"
  by (auto simp: entries_def slot_entry_def image_iff)

lemma home_less: "0 < length T \<Longrightarrow> home T p < length T"
  by (simp add: home_def home_of_def)

lemma table_ok_occupied:
  assumes "table_ok T" "p < length T" "occupied T p" "q < length T"
    and "dist_up (length T) (home T p) q \<le> dist_up (length T) (home T p) p"
  shows "occupied T q"
  using assms unfolding table_ok_def probed_def by blast

lemma table_ok_inj:
  assumes "table_ok T" "p < length T" "q < length T" "occupied T p" "occupied T q" "hs_item (T ! p) = hs_item (T ! q)"
  shows "p = q"
  using assms unfolding table_ok_def by blast

section \<open>Lookup\<close>

lemma probe_finds:
  assumes ok: "table_ok T" and n: "slots_of hash_capacity (length T)" and p: "p < length T" "occupied T p"
    and slot: "unat slot = (home T p + d) mod length T" and d: "d \<le> dist_up (length T) (home T p) p"
    and probes: "dist_up (length T) (home T p) p - d < probes"
  shows "\<exists>s. unat s = p \<and> probe_loop T (hash_capacity - 1) (hs_item (T ! p)) probes slot =
    Probe_Found s (hs_counter_index_plus_one (T ! p) - 1)"
  using slot d probes
proof (induction probes arbitrary: slot d)
  case (Suc probes)
  let ?n = "length T" and ?h = "home T p"
  have pos: "0 < ?n" using p(1) by linarith
  have h: "?h < ?n" by (rule home_less [OF pos])
  have less: "unat slot < ?n" unfolding Suc.prems(1) using pos by simp
  have dist: "dist_up ?n ?h (unat slot) = d"
    unfolding Suc.prems(1) using Suc.prems(2) dist_up_less [OF pos, of ?h p] by (intro dist_up_walk [OF h]) linarith
  have occ: "occupied T (unat slot)" using table_ok_occupied [OF ok p less] dist Suc.prems(2) by simp
  show ?case
  proof (cases "unat slot = p")
    case True
    then show ?thesis using occ by (auto simp: occupied_def)
  next
    case False
    then have other: "hs_item (T ! unat slot) \<noteq> hs_item (T ! p)" using table_ok_inj [OF ok less p(1) occ p(2)] by blast
    have "d \<noteq> dist_up ?n ?h p" using False dist dist_up_inj [OF h less p(1)] by blast
    then have d: "d < dist_up ?n ?h p" using Suc.prems(2) by simp
    have "unat ((slot + 1) AND (hash_capacity - 1)) = (?h + Suc d) mod ?n"
      unfolding next_slot [OF n] Suc.prems(1) by (simp add: mod_Suc_eq)
    then show ?thesis using Suc.IH [of "(slot + 1) AND (hash_capacity - 1)" "Suc d"] Suc.prems(3) d occ other
      by (simp add: occupied_def)
  qed
qed simp

lemma probe_frees:
  assumes n: "slots_of hash_capacity (length T)" and h: "h < length T" and absent: "\<forall>p < length T. occupied T p \<longrightarrow> hs_item (T ! p) \<noteq> item"
    and e: "e < length T" "\<not> occupied T e"
    and slot: "unat slot = (h + d) mod length T" and d: "d \<le> dist_up (length T) h e"
    and below: "\<forall>q < length T. dist_up (length T) h q < d \<longrightarrow> occupied T q"
    and probes: "dist_up (length T) h e - d < probes"
  shows "\<exists>s. unat s < length T \<and> \<not> occupied T (unat s) \<and>
    (\<forall>q < length T. dist_up (length T) h q < dist_up (length T) h (unat s) \<longrightarrow> occupied T q) \<and>
    probe_loop T (hash_capacity - 1) item probes slot = Probe_Free s"
  using slot d below probes
proof (induction probes arbitrary: slot d)
  case (Suc probes)
  let ?n = "length T"
  have pos: "0 < ?n" using h by linarith
  then have less: "unat slot < ?n" unfolding Suc.prems(1) by simp
  have dist: "dist_up ?n h (unat slot) = d"
    unfolding Suc.prems(1) using Suc.prems(2) dist_up_less [OF pos, of h e] by (intro dist_up_walk [OF h]) linarith
  show ?case
  proof (cases "occupied T (unat slot)")
    case False
    then show ?thesis using less dist Suc.prems(3) by (auto simp: occupied_def)
  next
    case True
    then have "d \<noteq> dist_up ?n h e" using e dist dist_up_inj [OF h less e(1)] by blast
    then have d: "d < dist_up ?n h e" using Suc.prems(2) by simp
    have "unat ((slot + 1) AND (hash_capacity - 1)) = (h + Suc d) mod ?n"
      unfolding next_slot [OF n] Suc.prems(1) by (simp add: mod_Suc_eq)
    moreover have "\<forall>q < ?n. dist_up ?n h q < Suc d \<longrightarrow> occupied T q"
      using Suc.prems(3) True dist dist_up_inj [OF h _ less] by (metis less_Suc_eq)
    ultimately show ?thesis using Suc.IH [of "(slot + 1) AND (hash_capacity - 1)" "Suc d"] Suc.prems(4) d True absent less
      by (simp add: occupied_def)
  qed
qed simp

text \<open>A lookup in a table with room: the stored entry of the item, or the first free slot from its home.\<close>

lemma lookup_cases:
  assumes ok: "table_ok (ss_hash_slots s)" and n: "slots_of (ss_hash_capacity s) (length (ss_hash_slots s))"
    and room: "has_room (ss_hash_slots s)"
  obtains (found) slot i where "(item, i) \<in> entries (ss_hash_slots s)"
      "evoke_weighted_space_saving_hash_lookup s item = Probe_Found slot i"
      "unat slot < length (ss_hash_slots s)" "occupied (ss_hash_slots s) (unat slot)"
      "hs_item (ss_hash_slots s ! unat slot) = item" "i = hs_counter_index_plus_one (ss_hash_slots s ! unat slot) - 1"
  | (free) slot where "\<forall>i. (item, i) \<notin> entries (ss_hash_slots s)"
      "evoke_weighted_space_saving_hash_lookup s item = Probe_Free slot"
      "unat slot < length (ss_hash_slots s)" "\<not> occupied (ss_hash_slots s) (unat slot)"
      "\<forall>q < length (ss_hash_slots s). dist_up (length (ss_hash_slots s)) (home_of (length (ss_hash_slots s)) item) q
         < dist_up (length (ss_hash_slots s)) (home_of (length (ss_hash_slots s)) item) (unat slot)
         \<longrightarrow> occupied (ss_hash_slots s) q"
proof -
  let ?T = "ss_hash_slots s" and ?m = "ss_hash_capacity s - 1"
  let ?n = "length ?T" and ?start = "evoke_weighted_space_saving_hash item AND ?m"
  have start: "unat ?start = (home_of ?n item + 0) mod ?n" by (simp add: slots_of_simps(4) [OF n] home_of_def)
  have lookup: "evoke_weighted_space_saving_hash_lookup s item = probe_loop ?T ?m item ?n ?start"
    by (simp add: evoke_weighted_space_saving_hash_lookup_def slots_of_simps(1) [OF n] Let_def)
  have pos: "0 < ?n" using slots_of_simps(2) [OF n] .
  show thesis
  proof (cases "\<exists>p < ?n. occupied ?T p \<and> hs_item (?T ! p) = item")
    case True
    then obtain p where p: "p < ?n" "occupied ?T p" "hs_item (?T ! p) = item" by blast
    have "\<exists>s. unat s = p \<and> probe_loop ?T ?m (hs_item (?T ! p)) ?n ?start =
        Probe_Found s (hs_counter_index_plus_one (?T ! p) - 1)"
      using start dist_up_less [OF pos] p(3) by (intro probe_finds [OF ok n p(1,2), of _ 0]) (simp_all add: home_def)
    then obtain slot where slot: "unat slot = p"
      "probe_loop ?T ?m item ?n ?start = Probe_Found slot (hs_counter_index_plus_one (?T ! p) - 1)"
      unfolding p(3) by blast
    have "(item, hs_counter_index_plus_one (?T ! p) - 1) \<in> entries ?T" using p by (auto simp: in_entries)
    then show thesis using found [of "hs_counter_index_plus_one (?T ! p) - 1" slot] p slot lookup by simp
  next
    case False
    obtain e where e: "e < ?n" "\<not> occupied ?T e" using room by (auto simp: has_room_def)
    have "\<exists>s. unat s < ?n \<and> \<not> occupied ?T (unat s) \<and>
        (\<forall>q < ?n. dist_up ?n (home_of ?n item) q < dist_up ?n (home_of ?n item) (unat s) \<longrightarrow> occupied ?T q) \<and>
        probe_loop ?T ?m item ?n ?start = Probe_Free s"
      using start False dist_up_less [OF pos] pos
      by (intro probe_frees [OF n _ _ e, of _ _ _ 0]) (simp_all add: home_of_def)
    then obtain slot where slot: "unat slot < ?n" "\<not> occupied ?T (unat slot)"
        "\<forall>q < ?n. dist_up ?n (home_of ?n item) q < dist_up ?n (home_of ?n item) (unat slot) \<longrightarrow> occupied ?T q"
        "probe_loop ?T ?m item ?n ?start = Probe_Free slot" by blast
    have "\<forall>i. (item, i) \<notin> entries ?T" using False by (auto simp: in_entries)
    then show thesis using free [of slot] slot lookup by simp
  qed
qed

section \<open>Insertion\<close>

lemma table_ok_insert:
  assumes ok: "table_ok T" and free: "p < length T" "\<not> occupied T p" and absent: "\<forall>i. (item, i) \<notin> entries T"
    and below: "\<forall>q < length T. dist_up (length T) (home_of (length T) item) q < dist_up (length T) (home_of (length T) item) p
      \<longrightarrow> occupied T q"
  shows "table_ok (T[p := \<lparr>hs_item = item, hs_counter_index_plus_one = Suc i\<rparr>])"
    and "entries (T[p := \<lparr>hs_item = item, hs_counter_index_plus_one = Suc i\<rparr>]) = insert (item, i) (entries T)"
proof -
  let ?T = "T[p := \<lparr>hs_item = item, hs_counter_index_plus_one = Suc i\<rparr>]" and ?n = "length T"
  have nth: "?T ! q = (if q = p then \<lparr>hs_item = item, hs_counter_index_plus_one = Suc i\<rparr> else T ! q)" if "q < ?n" for q
    using that by auto
  have occ: "occupied ?T q \<longleftrightarrow> q = p \<or> occupied T q" if "q < ?n" for q unfolding occupied_def nth [OF that] by simp
  have hm: "home ?T q = (if q = p then home_of ?n item else home T q)" if "q < ?n" for q
    unfolding home_def nth [OF that] by simp
  have pos: "0 < ?n" using free(1) by linarith
  have new: "hs_item (T ! q) \<noteq> item" if "q < ?n" "occupied T q" for q using absent that by (auto simp: in_entries)
  show "table_ok ?T"
    unfolding table_ok_def length_list_update
  proof (intro conjI allI impI)
    fix q assume q: "q < ?n" "occupied ?T q"
    show "probed ?T q"
      unfolding probed_def length_list_update
    proof (intro allI impI)
      fix r assume r: "r < ?n" "dist_up ?n (home ?T q) r \<le> dist_up ?n (home ?T q) q"
      show "occupied ?T r"
      proof (cases "q = p")
        case True
        have hi: "home_of ?n item < ?n" using pos by (simp add: home_of_def)
        have "r = p \<or> dist_up ?n (home_of ?n item) r < dist_up ?n (home_of ?n item) p"
          using r(2) dist_up_inj [OF hi r(1) free(1)] unfolding True hm [OF free(1)] by (auto simp: le_less)
        then show ?thesis using below r(1) by (auto simp: occ)
      next
        case False
        then show ?thesis using table_ok_occupied [OF ok q(1) _ r(1)] q r by (simp add: occ hm)
      qed
    qed
  next
    fix q r assume "q < ?n" "r < ?n" "occupied ?T q" "occupied ?T r" "hs_item (?T ! q) = hs_item (?T ! r)"
    then show "q = r" using ok new [of q] new [of r] by (auto simp: occ nth table_ok_def split: if_splits)
  qed
  have "{q. q < ?n \<and> occupied ?T q} = insert p {q. q < ?n \<and> occupied T q}" using occ free(1) by auto
  moreover have "(\<lambda>q. slot_entry (?T ! q)) ` {q. q < ?n \<and> occupied T q} = entries T"
    unfolding entries_def using free(2) by (intro image_cong refl) (auto simp: nth)
  ultimately show "entries ?T = insert (item, i) (entries T)"
    using free(1) by (simp add: entries_def slot_entry_def)
qed


section \<open>Removal\<close>

text \<open>
  While the hole is being closed, the slot of the hole still has its old content. The slots from the
  hole up to the scan are occupied, every other entry is reached from its home, and no entry that has
  been scanned needs the hole on its way.
\<close>

definition closing :: "slots \<Rightarrow> nat \<Rightarrow> nat \<Rightarrow> bool" where
  "closing T hole scan \<longleftrightarrow> hole < length T \<and> scan < length T \<and> hole \<noteq> scan \<and> occupied T hole \<and>
     (\<forall>q < length T. dist_up (length T) hole q < dist_up (length T) hole scan \<longrightarrow> occupied T q) \<and>
     (\<forall>p < length T. p \<noteq> hole \<longrightarrow> occupied T p \<longrightarrow> probed T p) \<and>
     (\<forall>p < length T. p \<noteq> hole \<longrightarrow> occupied T p \<longrightarrow>
        dist_up (length T) (home T p) hole \<le> dist_up (length T) (home T p) p \<longrightarrow>
        dist_up (length T) hole scan \<le> dist_up (length T) hole p) \<and>
     (\<forall>p < length T. \<forall>q < length T. p \<noteq> hole \<longrightarrow> q \<noteq> hole \<longrightarrow> occupied T p \<longrightarrow> occupied T q \<longrightarrow>
        hs_item (T ! p) = hs_item (T ! q) \<longrightarrow> p = q)"

definition entries_but :: "slots \<Rightarrow> nat \<Rightarrow> (u32 \<times> nat) set" where
  "entries_but T hole = (\<lambda>p. slot_entry (T ! p)) ` {p. p < length T \<and> occupied T p \<and> p \<noteq> hole}"

lemma closing_start:
  assumes "table_ok T" and "hole < length T" and "occupied T hole" and "has_room T"
  shows "closing T hole ((hole + 1) mod length T)"
proof -
  let ?n = "length T" and ?s = "(hole + 1) mod length T"
  have pos: "0 < ?n" using assms(2) by linarith
  obtain e where e: "e < ?n" "\<not> occupied T e" using assms(4) by (auto simp: has_room_def)
  then have "e \<noteq> hole" using assms(3) by blast
  then have "1 < ?n" using e(1) assms(2) by linarith
  then have d: "dist_up ?n hole ?s = 1" using dist_up_walk [OF assms(2), of 1] by simp
  have ne: "hole \<noteq> ?s" using d dist_up_self [OF assms(2)] by (metis zero_neq_one)
  have "1 \<le> dist_up ?n hole p" if "p < ?n" "p \<noteq> hole" for p
    using dist_up_0 [OF assms(2) that(1)] that(2) by (metis less_one not_le)
  then show ?thesis
    using assms(1-3) ne d pos dist_up_0 [OF assms(2)] unfolding closing_def table_ok_def by auto
qed

lemma closing_move:
  assumes c: "closing T hole scan" and occ: "occupied T scan"
    and far: "dist_up (length T) hole scan \<le> dist_up (length T) (home T scan) scan"
    and room: "has_room T"
  shows "closing (T[hole := T ! scan]) scan ((scan + 1) mod length T)"
    and "entries_but (T[hole := T ! scan]) scan = entries_but T hole"
    and "\<And>q. q < length T \<Longrightarrow> occupied (T[hole := T ! scan]) q = occupied T q"
proof -
  let ?n = "length T" and ?T = "T[hole := T ! scan]" and ?s = "(scan + 1) mod length T"
  note C = c [unfolded closing_def]
  have hs: "hole < ?n" "scan < ?n" "hole \<noteq> scan" "occupied T hole" using C by blast+
  have nth: "?T ! q = (if q = hole then T ! scan else T ! q)" if "q < ?n" for q using that by auto
  show occ': "occupied ?T q = occupied T q" if "q < ?n" for q
    using occ hs(4) unfolding occupied_def nth [OF that] by auto
  have hm: "home ?T q = (if q = hole then home T scan else home T q)" if "q < ?n" for q
    unfolding home_def nth [OF that] by simp
  have pos: "0 < ?n" using hs(1) by linarith
  have h: "home T q < ?n" for q by (rule home_less [OF pos])
  have onp: "dist_up ?n (home T scan) hole \<le> dist_up ?n (home T scan) scan"
    using far on_path_iff [OF h hs(1,2)] by blast
  obtain e where e: "e < ?n" "\<not> occupied T e" using room by (auto simp: has_room_def)
  have "1 < ?n" using hs(1-3) by linarith
  then have d: "dist_up ?n scan ?s = 1" using dist_up_walk [OF hs(2), of 1] by simp
  have ne: "scan \<noteq> ?s" using d dist_up_self [OF hs(2)] by (metis zero_neq_one)
  have ge: "1 \<le> dist_up ?n scan p" if "p < ?n" "p \<noteq> scan" for p
    using dist_up_0 [OF hs(2) that(1)] that(2) by (metis less_one not_le)
  have pr: "occupied T q" if "p < ?n" "p \<noteq> hole" "occupied T p" "q < ?n" "dist_up ?n (home T p) q \<le> dist_up ?n (home T p) p" for p q
    using C that unfolding probed_def by blast
  have "probed ?T p" if "p < ?n" "p \<noteq> scan" "occupied ?T p" for p
    unfolding probed_def length_list_update
  proof (intro allI impI)
    fix q assume q: "q < ?n" "dist_up ?n (home ?T p) q \<le> dist_up ?n (home ?T p) p"
    show "occupied ?T q"
    proof (cases "p = hole")
      case True
      then have "dist_up ?n (home T scan) q \<le> dist_up ?n (home T scan) scan"
        using q(2) onp hm [OF hs(1)] by simp
      then show ?thesis using pr [OF hs(2) _ occ q(1)] hs(3) occ' [OF q(1)] by simp
    next
      case False
      then show ?thesis using pr [OF that(1) False _ q(1)] q that occ' [OF q(1)] occ' [OF that(1)] hm [OF that(1)] by simp
    qed
  qed
  moreover have "p = q" if "p < ?n" "q < ?n" "p \<noteq> scan" "q \<noteq> scan" "occupied ?T p" "occupied ?T q"
      "hs_item (?T ! p) = hs_item (?T ! q)" for p q
  proof -
    have inj: "p = q" if "p < ?n" "q < ?n" "p \<noteq> hole" "q \<noteq> hole" "occupied T p" "occupied T q" "hs_item (T ! p) = hs_item (T ! q)" for p q
      using C that by blast
    show ?thesis
      using that inj [of p q] inj [of scan q] inj [of p scan] hs occ unfolding nth [OF that(1)] nth [OF that(2)]
      by (metis occ')
  qed
  moreover have "occupied ?T q" if "q < ?n" "dist_up ?n scan q < dist_up ?n scan ?s" for q
    using that(2) d occ dist_up_0 [OF hs(2) that(1)] occ' [OF that(1)] by auto
  moreover have "?s < ?n" "occupied ?T scan" using pos occ occ' [OF hs(2)] by simp_all
  moreover have "dist_up ?n scan ?s \<le> dist_up ?n scan p" if "p < ?n" "p \<noteq> scan" for p
    unfolding d using that by (rule ge)
  ultimately show "closing ?T scan ?s"
    unfolding closing_def length_list_update using hs(2) ne by blast
  let ?R = "{q. q < ?n \<and> occupied T q \<and> q \<noteq> hole} - {scan}"
  have "{q. q < ?n \<and> occupied ?T q \<and> q \<noteq> scan} = insert hole ?R" using hs occ' by auto
  then have "entries_but ?T scan = (\<lambda>q. slot_entry (?T ! q)) ` insert hole ?R" by (simp only: entries_but_def length_list_update)
  also have "\<dots> = insert (slot_entry (T ! scan)) ((\<lambda>q. slot_entry (T ! q)) ` ?R)"
    using hs(1) by (auto simp: nth_list_update)
  also have "\<dots> = (\<lambda>q. slot_entry (T ! q)) ` insert scan ?R" by (simp only: image_insert)
  also have "insert scan ?R = {q. q < ?n \<and> occupied T q \<and> q \<noteq> hole}" using hs occ by auto
  finally show "entries_but ?T scan = entries_but T hole" by (simp only: entries_but_def)
qed


lemma closing_skip:
  assumes c: "closing T hole scan" and occ: "occupied T scan"
    and near: "dist_up (length T) (home T scan) scan < dist_up (length T) hole scan"
    and room: "has_room T"
  shows "closing T hole ((scan + 1) mod length T)"
proof -
  let ?n = "length T" and ?s = "(scan + 1) mod length T"
  note C = c [unfolded closing_def]
  have hs: "hole < ?n" "scan < ?n" "hole \<noteq> scan" using C by blast+
  have pos: "0 < ?n" using hs(1) by linarith
  have h: "home T q < ?n" for q by (rule home_less [OF pos])
  have all: "occupied T q" if "q < ?n" "dist_up ?n hole q \<le> dist_up ?n hole scan" for q
    using C that occ dist_up_inj [OF hs(1) that(1) hs(2)] by (metis le_less)
  obtain e where e: "e < ?n" "\<not> occupied T e" using room by (auto simp: has_room_def)
  then have "dist_up ?n hole scan < dist_up ?n hole e" using all by (meson not_le)
  then have d: "dist_up ?n hole ?s = dist_up ?n hole scan + 1"
    using dist_up_Suc [OF hs(1,2)] dist_up_less [OF pos, of hole e] by simp
  have s: "?s < ?n" using pos by simp
  have ne: "hole \<noteq> ?s" using d dist_up_self [OF hs(1)] by (metis add_is_0 zero_neq_one)
  have "dist_up ?n hole ?s \<le> dist_up ?n hole p"
    if p: "p < ?n" "p \<noteq> hole" "occupied T p" "dist_up ?n (home T p) hole \<le> dist_up ?n (home T p) p" for p
  proof -
    have "dist_up ?n hole scan \<le> dist_up ?n hole p" using C p by blast
    moreover have "p \<noteq> scan" using p(4) near on_path_iff [OF h hs(1,2)] by (metis not_le)
    then have "dist_up ?n hole scan \<noteq> dist_up ?n hole p" using dist_up_inj [OF hs(1,2) p(1)] by metis
    ultimately show ?thesis using d by simp
  qed
  moreover have "occupied T q" if "q < ?n" "dist_up ?n hole q < dist_up ?n hole ?s" for q
    using all that d by simp
  ultimately show ?thesis using C s ne unfolding closing_def by blast
qed

lemma closing_done:
  assumes c: "closing T hole scan" and free: "\<not> occupied T scan"
  shows "table_ok (T[hole := zero_slot])" and "entries (T[hole := zero_slot]) = entries_but T hole"
proof -
  let ?n = "length T" and ?T = "T[hole := zero_slot]"
  note C = c [unfolded closing_def]
  have hs: "hole < ?n" "scan < ?n" using C by blast+
  have pos: "0 < ?n" using hs(1) by linarith
  have h: "home T q < ?n" for q by (rule home_less [OF pos])
  have occ: "occupied ?T q \<longleftrightarrow> q \<noteq> hole \<and> occupied T q" if "q < ?n" for q
    using that by (cases "q = hole") (auto simp: occupied_def zero_slot_def)
  have hm: "home ?T q = home T q" if "q \<noteq> hole" for q using that by (simp add: home_def)
  have clear: "\<not> dist_up ?n (home T p) hole \<le> dist_up ?n (home T p) p"
    if p: "p < ?n" "p \<noteq> hole" "occupied T p" for p
  proof
    assume path: "dist_up ?n (home T p) hole \<le> dist_up ?n (home T p) p"
    then have "dist_up ?n hole scan \<le> dist_up ?n hole p" using C p by blast
    then have "dist_up ?n (home T p) scan \<le> dist_up ?n (home T p) p"
      by (rule on_path_trans [OF h hs(1) p(1) hs(2) path])
    then show False using C p hs(2) free unfolding probed_def by blast
  qed
  have "probed ?T p" if p: "p < ?n" "occupied ?T p" for p
  proof -
    have "p \<noteq> hole" "occupied T p" using p occ by blast+
    then show ?thesis
      using C p(1) clear [of p] occ hm unfolding probed_def length_list_update by metis
  qed
  moreover have "p = q" if "p < ?n" "q < ?n" "occupied ?T p" "occupied ?T q" "hs_item (?T ! p) = hs_item (?T ! q)" for p q
  proof -
    have "p \<noteq> hole" "q \<noteq> hole" "occupied T p" "occupied T q" using that occ by blast+
    moreover from this have "hs_item (T ! p) = hs_item (T ! q)" using that(5) by simp
    ultimately show ?thesis using C that(1,2) by blast
  qed
  ultimately show "table_ok ?T" unfolding table_ok_def length_list_update by blast
  have "{q. q < ?n \<and> occupied ?T q} = {q. q < ?n \<and> occupied T q \<and> q \<noteq> hole}" using occ by blast
  then show "entries ?T = entries_but T hole"
    unfolding entries_def entries_but_def length_list_update by (auto intro!: image_cong)
qed

text \<open>The loop ends at the next free slot, wherever the hole is by then.\<close>

lemma remove_loop_closes:
  assumes n: "slots_of hash_capacity (length T)" and c: "closing T (unat hole) (unat scan)"
    and e: "e < length T" "\<not> occupied T e"
  shows "\<exists>T' hole'. remove_loop (hash_capacity - 1) T hole scan = Some (T', hole') \<and> length T' = length T \<and>
    unat hole' < length T \<and> table_ok (T'[unat hole' := zero_slot]) \<and>
    entries (T'[unat hole' := zero_slot]) = entries_but T (unat hole)"
  using assms
proof (induction "dist_up (length T) (unat scan) e" arbitrary: T hole scan rule: less_induct)
  case less
  let ?n = "length T" and ?m = "hash_capacity - 1" and ?next = "(scan + 1) AND (hash_capacity - 1)"
  have hs: "unat hole < ?n" "unat scan < ?n" using less.prems(2) unfolding closing_def by blast+
  have room: "has_room T" using less.prems(3,4) by (auto simp: has_room_def)
  show ?case
  proof (cases "occupied T (unat scan)")
    case False
    then have "remove_loop ?m T hole scan = Some (T, hole)"
      by (subst remove_loop.simps) (simp add: occupied_def)
    then show ?thesis using closing_done [OF less.prems(2) False] hs(1) by simp
  next
    case True
    have nxt: "unat ?next = (unat scan + 1) mod ?n" by (rule next_slot [OF less.prems(1)])
    have ne: "unat scan \<noteq> e" using True less.prems(4) by blast
    have smaller: "dist_up ?n (unat ?next) e < dist_up ?n (unat scan) e"
      unfolding nxt by (rule dist_up_next [OF hs(2) less.prems(3) ne])
    define hd where "hd = evoke_weighted_space_saving_hash (hs_item (T ! unat scan)) AND ?m"
    have hd: "unat hd = home T (unat scan)" by (simp add: hd_def home_def home_of_def slots_of_simps(4) [OF less.prems(1)])
    have hdl: "unat hd < ?n" unfolding hd using home_less hs(1) by (metis gr_implies_not0 gr0I)
    have far: "((scan - hole) AND ?m \<le> (scan - hd) AND ?m) \<longleftrightarrow>
        dist_up ?n (unat hole) (unat scan) \<le> dist_up ?n (home T (unat scan)) (unat scan)"
      unfolding word_le_nat_alt slot_distance [OF less.prems(1) hs(1)] slot_distance [OF less.prems(1) hdl] dist_up_def hd ..
    have step: "remove_loop ?m T hole scan =
        (if dist_up ?n (unat hole) (unat scan) \<le> dist_up ?n (home T (unat scan)) (unat scan)
         then remove_loop ?m (T[unat hole := T ! unat scan]) scan ?next else remove_loop ?m T hole ?next)"
      using True far unfolding hd_def by (subst remove_loop.simps) (simp add: occupied_def Let_def)
    show ?thesis
    proof (cases "dist_up ?n (unat hole) (unat scan) \<le> dist_up ?n (home T (unat scan)) (unat scan)")
      case move: True
      note m = closing_move [OF less.prems(2) True move room]
      show ?thesis
        using less.hyps [where T = "T[unat hole := T ! unat scan]" and hole = scan and scan = ?next] smaller less.prems(1,3,4) m step move nxt by simp
    next
      case False
      then have "closing T (unat hole) (unat ?next)"
        using closing_skip [OF less.prems(2) True _ room] nxt by simp
      then show ?thesis using less.hyps [where T = T and hole = hole and scan = ?next] smaller less.prems(1,3,4) step False by simp
    qed
  qed
qed

text \<open>Removing an item from a table with room: it succeeds on a stored item and drops exactly that entry.\<close>

lemma hash_remove_ok:
  assumes ok: "table_ok (ss_hash_slots s)" and n: "slots_of (ss_hash_capacity s) (length (ss_hash_slots s))"
    and room: "has_room (ss_hash_slots s)" and item: "(item, i) \<in> entries (ss_hash_slots s)"
  obtains T where "evoke_weighted_space_saving_hash_remove s item = Some (EVOKE_OK, s\<lparr>ss_hash_slots := T\<rparr>)"
    "table_ok T" "length T = length (ss_hash_slots s)" "entries T = {x \<in> entries (ss_hash_slots s). fst x \<noteq> item}"
proof (rule lookup_cases [OF ok n room, of item])
  let ?T = "ss_hash_slots s" and ?m = "ss_hash_capacity s - 1"
  fix slot j assume look: "evoke_weighted_space_saving_hash_lookup s item = Probe_Found slot j"
    and slot: "unat slot < length ?T" "occupied ?T (unat slot)" "hs_item (?T ! unat slot) = item"
  obtain e where e: "e < length ?T" "\<not> occupied ?T e" using room by (auto simp: has_room_def)
  have c: "closing ?T (unat slot) (unat ((slot + 1) AND ?m))"
    unfolding next_slot [OF n] by (rule closing_start [OF ok slot(1,2) room])
  obtain T' hole' where r: "remove_loop ?m ?T slot ((slot + 1) AND ?m) = Some (T', hole')" "length T' = length ?T"
    "table_ok (T'[unat hole' := zero_slot])" "entries (T'[unat hole' := zero_slot]) = entries_but ?T (unat slot)"
    using remove_loop_closes [OF n c e] by blast
  have "entries_but ?T (unat slot) = {x \<in> entries ?T. fst x \<noteq> item}"
  proof -
    have "p = unat slot \<longleftrightarrow> hs_item (?T ! p) = item" if "p < length ?T" "occupied ?T p" for p
      using table_ok_inj [OF ok that(1) slot(1) that(2) slot(2)] slot(3) by auto
    then show ?thesis by (auto simp: entries_but_def entries_def slot_entry_def)
  qed
  then show thesis using that [of "T'[unat hole' := zero_slot]"] r look
    by (simp add: evoke_weighted_space_saving_hash_remove_def Let_def)
qed (use item in blast)

text \<open>Inserting an item that is not stored: it succeeds and adds exactly that entry.\<close>

lemma hash_insert_ok:
  assumes ok: "table_ok (ss_hash_slots s)" and n: "slots_of (ss_hash_capacity s) (length (ss_hash_slots s))"
    and room: "has_room (ss_hash_slots s)" and item: "\<forall>j. (item, j) \<notin> entries (ss_hash_slots s)"
  obtains T where "evoke_weighted_space_saving_hash_insert s item i = (EVOKE_OK, s\<lparr>ss_hash_slots := T\<rparr>)"
    "table_ok T" "length T = length (ss_hash_slots s)" "entries T = insert (item, i) (entries (ss_hash_slots s))"
proof (rule lookup_cases [OF ok n room, of item])
  let ?T = "ss_hash_slots s"
  fix slot assume look: "evoke_weighted_space_saving_hash_lookup s item = Probe_Free slot"
    and slot: "unat slot < length ?T" "\<not> occupied ?T (unat slot)"
      "\<forall>q < length ?T. dist_up (length ?T) (home_of (length ?T) item) q < dist_up (length ?T) (home_of (length ?T) item) (unat slot)
         \<longrightarrow> occupied ?T q"
  note t = table_ok_insert [OF ok slot(1,2) item slot(3), of i]
  show thesis
    using that [of "?T[unat slot := \<lparr>hs_item = item, hs_counter_index_plus_one = Suc i\<rparr>]"] t look
    by (simp add: evoke_weighted_space_saving_hash_insert_def)
qed (use item in blast)

end
