(* ===== verification/Space_Saving_Bounds.thy ===== *)
theory Space_Saving_Bounds
  imports Space_Saving_Table "HOL-Library.Sublist"
begin

text \<open>
  What the heavy-hitter summary computes: one offer, as a step of the abstract algorithm on a map from
  items to estimates, and the guarantees of the estimates over a whole stream. The heap of counter
  indices is an instance of \<open>binary_heap\<close>, the sums are those of \<open>accumulation\<close>.
\<close>

section \<open>The heap of indices\<close>

text \<open>A counter without its position; sifting changes nothing else.\<close>

type_synonym core = "u32 \<times> f64 \<times> f64"

definition core :: "evoke_weighted_space_saving_counter \<Rightarrow> core" where
  "core c = (ct_item c, ct_estimate c, ct_error c)"

abbreviation cores :: "evoke_weighted_space_saving \<Rightarrow> core list" where
  "cores s \<equiv> map core (ss_counters s)"

definition index_less :: "core list \<Rightarrow> nat \<Rightarrow> nat \<Rightarrow> bool" where
  "index_less cs i j =
     (if \<not> f64_equal (fst (snd (cs ! i))) (fst (snd (cs ! j))) then f64_less (fst (snd (cs ! i))) (fst (snd (cs ! j)))
      else fst (cs ! i) > fst (cs ! j))"

text \<open>Smaller counters have larger keys, so that the smallest is at the root.\<close>

definition index_key :: "core list \<Rightarrow> nat \<Rightarrow> int \<times> int" where
  "index_key cs i = (- uint (fst (snd (cs ! i))), uint (fst (cs ! i)))"

definition index_ok :: "core list \<Rightarrow> nat \<Rightarrow> bool" where
  "index_ok cs i \<longleftrightarrow> f64_nonneg (fst (snd (cs ! i)))"

function index_up :: "core list \<Rightarrow> nat list \<Rightarrow> nat \<Rightarrow> nat list" where
  "index_up cs h idx =
     (if 0 < idx
      then if \<not> index_less cs (h ! idx) (h ! parent_of idx) then h
           else index_up cs (swap_items h (parent_of idx) idx) (parent_of idx)
      else h)"
  by pat_completeness auto
termination
  by (relation "measure (\<lambda>(_, _, idx). idx)") (auto simp: parent_less)

definition index_child :: "core list \<Rightarrow> nat list \<Rightarrow> nat \<Rightarrow> nat \<Rightarrow> nat" where
  "index_child cs h len idx =
     (let smallest = (if idx * 2 + 1 < len \<and> index_less cs (h ! (idx * 2 + 1)) (h ! idx) then idx * 2 + 1 else idx)
      in if idx * 2 + 2 < len \<and> index_less cs (h ! (idx * 2 + 2)) (h ! smallest) then idx * 2 + 2 else smallest)"

lemma index_child_range:
  "index_child cs h len idx = idx \<or> (idx < index_child cs h len idx \<and> index_child cs h len idx < len)"
  by (simp add: index_child_def Let_def)

function index_down :: "core list \<Rightarrow> nat list \<Rightarrow> nat \<Rightarrow> nat \<Rightarrow> nat list" where
  "index_down cs h len idx =
     (if index_child cs h len idx = idx then h
      else index_down cs (swap_items h idx (index_child cs h len idx)) len (index_child cs h len idx))"
  by pat_completeness auto
termination
  by (relation "measure (\<lambda>(_, _, len, idx). len - idx)") (use index_child_range in fastforce)+

declare index_up.simps [simp del] index_down.simps [simp del]

lemma index_less_key:
  "index_ok cs i \<Longrightarrow> index_ok cs j \<Longrightarrow> index_less cs i j \<longleftrightarrow> index_key cs j < index_key cs i"
  by (auto simp: index_less_def index_ok_def f64_equal_def f64_less_def f64_nonneg_simps index_key_def less_prod_def' word_less_alt)

interpretation index_heap: binary_heap "index_less cs" "index_key cs" "index_ok cs" "index_up cs" "index_child cs" "index_down cs"
  for cs
  by unfold_locales (rule index_less_key index_up.simps index_child_def index_down.simps; assumption?)+

section \<open>Positions\<close>

text \<open>The heap and the positions in the counters are inverse to each other.\<close>

definition positions_ok :: "evoke_weighted_space_saving \<Rightarrow> bool" where
  "positions_ok s \<longleftrightarrow> length (ss_heap s) = length (ss_counters s) \<and>
     (\<forall>i < length (ss_heap s). ss_heap s ! i < length (ss_counters s) \<and>
        ct_heap_position (ss_counters s ! (ss_heap s ! i)) = i)"

text \<open>The counters keep all but their positions, and the rest of the summary is the same.\<close>

definition sifted :: "evoke_weighted_space_saving \<Rightarrow> evoke_weighted_space_saving \<Rightarrow> bool" where
  "sifted s s' \<longleftrightarrow> cores s' = cores s \<and>
     s'\<lparr>ss_counters := [], ss_heap := []\<rparr> = s\<lparr>ss_counters := [], ss_heap := []\<rparr>"

lemma sifted_refl [simp]: "sifted s s"
  by (simp add: sifted_def)

lemma sifted_trans: "sifted s s' \<Longrightarrow> sifted s' s'' \<Longrightarrow> sifted s s''"
  by (simp add: sifted_def)

lemma sifted_fields:
  assumes "sifted s s'"
  shows "ss_hash_slots s' = ss_hash_slots s" "ss_capacity s' = ss_capacity s" "ss_hash_capacity s' = ss_hash_capacity s"
    "ss_replacements s' = ss_replacements s" "ss_total_weight s' = ss_total_weight s"
    "ss_maximum_error s' = ss_maximum_error s" "length (ss_counters s') = length (ss_counters s)"
proof -
  have eq: "s'\<lparr>ss_counters := [], ss_heap := []\<rparr> = s\<lparr>ss_counters := [], ss_heap := []\<rparr>"
    using assms by (simp add: sifted_def)
  show "ss_hash_slots s' = ss_hash_slots s" using arg_cong [OF eq, of ss_hash_slots] by simp
  show "ss_capacity s' = ss_capacity s" using arg_cong [OF eq, of ss_capacity] by simp
  show "ss_hash_capacity s' = ss_hash_capacity s" using arg_cong [OF eq, of ss_hash_capacity] by simp
  show "ss_replacements s' = ss_replacements s" using arg_cong [OF eq, of ss_replacements] by simp
  show "ss_total_weight s' = ss_total_weight s" using arg_cong [OF eq, of ss_total_weight] by simp
  show "ss_maximum_error s' = ss_maximum_error s" using arg_cong [OF eq, of ss_maximum_error] by simp
  show "length (ss_counters s') = length (ss_counters s)"
    using assms unfolding sifted_def by (metis length_map)
qed

lemma counter_less_index:
  assumes "i < length (ss_counters s)" and "j < length (ss_counters s)"
  shows "evoke_weighted_space_saving_counter_less s i j = index_less (cores s) i j"
  using assms by (simp add: index_less_def evoke_weighted_space_saving_counter_less_def core_def Let_def)

lemma positions_distinct:
  assumes "positions_ok s"
  shows "distinct (ss_heap s)" and "set (ss_heap s) = {..<length (ss_counters s)}"
proof -
  show d: "distinct (ss_heap s)"
    unfolding distinct_conv_nth using assms by (metis positions_ok_def)
  have sub: "set (ss_heap s) \<subseteq> {..<length (ss_counters s)}" using assms by (auto simp: positions_ok_def in_set_conv_nth)
  have "card (set (ss_heap s)) = length (ss_counters s)" using d assms by (simp add: distinct_card positions_ok_def)
  then show "set (ss_heap s) = {..<length (ss_counters s)}" using sub by (intro card_subset_eq) simp_all
qed

lemma heap_position:
  assumes p: "positions_ok s" and i: "i < length (ss_counters s)"
  shows "ct_heap_position (ss_counters s ! i) < length (ss_heap s)" "ss_heap s ! ct_heap_position (ss_counters s ! i) = i"
proof -
  have "i \<in> set (ss_heap s)" using positions_distinct(2) [OF p] i by simp
  then obtain q where q: "q < length (ss_heap s)" "ss_heap s ! q = i" by (auto simp: in_set_conv_nth)
  then have "ct_heap_position (ss_counters s ! i) = q" using p by (auto simp: positions_ok_def)
  then show "ct_heap_position (ss_counters s ! i) < length (ss_heap s)" "ss_heap s ! ct_heap_position (ss_counters s ! i) = i"
    using q by simp_all
qed

lemma swap_positions:
  assumes p: "positions_ok s" and i: "i < length (ss_heap s)" and j: "j < length (ss_heap s)"
  shows "positions_ok (evoke_weighted_space_saving_heap_swap s i j)"
    and "ss_heap (evoke_weighted_space_saving_heap_swap s i j) = swap_items (ss_heap s) i j"
    and "sifted s (evoke_weighted_space_saving_heap_swap s i j)"
proof -
  let ?s = "evoke_weighted_space_saving_heap_swap s i j" and ?a = "ss_heap s ! i" and ?b = "ss_heap s ! j"
  show heap: "ss_heap ?s = swap_items (ss_heap s) i j"
    by (simp add: evoke_weighted_space_saving_heap_swap_def set_heap_position_def Let_def swap_items_def)
  have cs: "ss_counters ?s = (ss_counters s)[?a := (ss_counters s ! ?a)\<lparr>ct_heap_position := j\<rparr>,
      ?b := ((ss_counters s)[?a := (ss_counters s ! ?a)\<lparr>ct_heap_position := j\<rparr>] ! ?b)\<lparr>ct_heap_position := i\<rparr>]"
    by (simp add: evoke_weighted_space_saving_heap_swap_def set_heap_position_def Let_def)
  have ab: "?a < length (ss_counters s)" "?b < length (ss_counters s)" using p i j by (auto simp: positions_ok_def)
  have inj: "ss_heap s ! l = ss_heap s ! m \<longleftrightarrow> l = m" if "l < length (ss_heap s)" "m < length (ss_heap s)" for l m
    using nth_eq_iff_index_eq [OF positions_distinct(1) [OF p] that] .
  have pos: "ct_heap_position (ss_counters ?s ! l) = (if l = ?b then i else if l = ?a then j else ct_heap_position (ss_counters s ! l))"
    if "l < length (ss_counters s)" for l
    unfolding cs using ab that by (simp add: nth_list_update)
  show "positions_ok ?s"
    unfolding positions_ok_def
  proof (intro conjI allI impI)
    show "length (ss_heap ?s) = length (ss_counters ?s)" using p by (simp add: positions_ok_def)
  next
    fix l assume "l < length (ss_heap ?s)"
    then have l: "l < length (ss_heap s)" by simp
    have sw: "ss_heap ?s ! l = (if l = j then ?a else if l = i then ?b else ss_heap s ! l)"
      unfolding heap by (rule nth_swap [OF i j])
    have lc: "ss_heap s ! l < length (ss_counters s)" "ct_heap_position (ss_counters s ! (ss_heap s ! l)) = l"
      using p l by (auto simp: positions_ok_def)
    show "ss_heap ?s ! l < length (ss_counters ?s)" unfolding sw using ab lc by simp
    show "ct_heap_position (ss_counters ?s ! (ss_heap ?s ! l)) = l"
      unfolding sw using ab lc inj [OF i j] inj [OF l i] inj [OF l j] pos by auto
  qed
  have "core (ss_counters ?s ! l) = core (ss_counters s ! l)" if "l < length (ss_counters s)" for l
    unfolding cs using ab that by (simp add: nth_list_update core_def)
  then have "map core (ss_counters ?s) = map core (ss_counters s)" by (intro nth_equalityI) simp_all
  then show "sifted s ?s"
    by (simp add: sifted_def evoke_weighted_space_saving_heap_swap_def set_heap_position_def Let_def)
qed


section \<open>Sifting\<close>

lemma swap_items_commute: "swap_items h i j = swap_items h j i"
  by (cases "i = j") (auto simp: swap_items_def list_update_swap)

lemma heap_up_sifts:
  assumes "positions_ok s" and "idx < length (ss_heap s)"
  shows "positions_ok (evoke_weighted_space_saving_heap_up s idx) \<and> sifted s (evoke_weighted_space_saving_heap_up s idx) \<and>
    ss_heap (evoke_weighted_space_saving_heap_up s idx) = index_up (cores s) (ss_heap s) idx"
  using assms
proof (induction s idx rule: evoke_weighted_space_saving_heap_up.induct)
  case (1 s idx)
  let ?p = "parent_of idx" and ?up = "evoke_weighted_space_saving_heap_up"
  have p: "?p < length (ss_heap s)" using "1.prems"(2) by (simp add: parent_of_def)
  have less: "evoke_weighted_space_saving_counter_less s (ss_heap s ! idx) (ss_heap s ! ?p) =
      index_less (cores s) (ss_heap s ! idx) (ss_heap s ! ?p)"
    using "1.prems" p by (intro counter_less_index) (simp_all add: positions_ok_def)
  show ?case
  proof (cases "0 < idx \<and> index_less (cores s) (ss_heap s ! idx) (ss_heap s ! ?p)")
    case False
    then have "?up s idx = s" using less by (subst evoke_weighted_space_saving_heap_up.simps) (auto simp: parent_of_def Let_def)
    moreover have "index_up (cores s) (ss_heap s) idx = ss_heap s" using False by (subst index_up.simps) auto
    ultimately show ?thesis using "1.prems" by simp
  next
    case True
    let ?s = "evoke_weighted_space_saving_heap_swap s idx ?p"
    note sw = swap_positions [OF "1.prems" p]
    have step: "?up s idx = ?up ?s ?p"
      using True less by (subst evoke_weighted_space_saving_heap_up.simps) (simp add: parent_of_def Let_def)
    have "index_up (cores s) (ss_heap s) idx = index_up (cores s) (swap_items (ss_heap s) ?p idx) ?p"
      using True by (subst index_up.simps) simp
    also have "\<dots> = index_up (cores ?s) (ss_heap ?s) ?p" using sw(2,3) by (simp add: sifted_def swap_items_commute)
    finally have ix: "index_up (cores s) (ss_heap s) idx = index_up (cores ?s) (ss_heap ?s) ?p" .
    have "positions_ok (?up ?s ?p) \<and> sifted ?s (?up ?s ?p) \<and> ss_heap (?up ?s ?p) = index_up (cores ?s) (ss_heap ?s) ?p"
      using "1.IH" [OF _ refl] True less sw(1) p by (simp add: parent_of_def)
    then show ?thesis unfolding step ix using sifted_trans [OF sw(3)] by blast
  qed
qed

lemma smallest_child_index:
  assumes "positions_ok s" and "idx < length (ss_heap s)"
  shows "smallest_child s idx = index_child (cores s) (ss_heap s) (length (ss_counters s)) idx"
proof -
  have less: "evoke_weighted_space_saving_counter_less s (ss_heap s ! i) (ss_heap s ! j) =
      index_less (cores s) (ss_heap s ! i) (ss_heap s ! j)" if "i < length (ss_heap s)" "j < length (ss_heap s)" for i j
    using assms(1) that by (intro counter_less_index) (simp_all add: positions_ok_def)
  have len: "length (ss_heap s) = length (ss_counters s)" using assms(1) by (simp add: positions_ok_def)
  show ?thesis
    using assms(2) by (auto simp: smallest_child_def index_child_def Let_def less len)
qed

lemma heap_down_sifts:
  assumes "positions_ok s" and "idx < length (ss_heap s)"
  shows "positions_ok (evoke_weighted_space_saving_heap_down s idx) \<and> sifted s (evoke_weighted_space_saving_heap_down s idx) \<and>
    ss_heap (evoke_weighted_space_saving_heap_down s idx) = index_down (cores s) (ss_heap s) (length (ss_counters s)) idx"
  using assms
proof (induction s idx rule: evoke_weighted_space_saving_heap_down.induct)
  case (1 s idx)
  let ?c = "smallest_child s idx" and ?down = "evoke_weighted_space_saving_heap_down"
  have c: "?c = index_child (cores s) (ss_heap s) (length (ss_counters s)) idx" by (rule smallest_child_index [OF "1.prems"])
  show ?case
  proof (cases "?c = idx")
    case True
    then have "?down s idx = s" by (subst evoke_weighted_space_saving_heap_down.simps) (simp add: Let_def)
    moreover have "index_down (cores s) (ss_heap s) (length (ss_counters s)) idx = ss_heap s"
      using True unfolding c by (subst index_down.simps) simp
    ultimately show ?thesis using "1.prems" by simp
  next
    case False
    let ?s = "evoke_weighted_space_saving_heap_swap s idx ?c"
    have cl: "?c < length (ss_heap s)"
      using False smallest_child_range [of s idx] "1.prems"(1) by (auto simp: positions_ok_def)
    note sw = swap_positions [OF "1.prems" cl]
    have step: "?down s idx = ?down ?s ?c"
      using False by (subst evoke_weighted_space_saving_heap_down.simps) (simp add: Let_def)
    have "index_down (cores s) (ss_heap s) (length (ss_counters s)) idx =
        index_down (cores s) (swap_items (ss_heap s) idx ?c) (length (ss_counters s)) ?c"
      using False unfolding c by (subst index_down.simps) simp
    also have "\<dots> = index_down (cores ?s) (ss_heap ?s) (length (ss_counters ?s)) ?c"
      using sw(2,3) by (simp add: sifted_def)
    finally have ix: "index_down (cores s) (ss_heap s) (length (ss_counters s)) idx =
        index_down (cores ?s) (ss_heap ?s) (length (ss_counters ?s)) ?c" .
    have "positions_ok (?down ?s ?c) \<and> sifted ?s (?down ?s ?c) \<and>
        ss_heap (?down ?s ?c) = index_down (cores ?s) (ss_heap ?s) (length (ss_counters ?s)) ?c"
      using "1.IH" [OF refl False] sw(1) cl by simp
    then show ?thesis unfolding step ix using sifted_trans [OF sw(3)] by blast
  qed
qed


section \<open>Well-formed summaries\<close>

text \<open>
  The table holds exactly the items of the counters, with their indices; estimates stay below the total
  weight, errors below their estimates and below the recorded maximum.
\<close>

definition indexed :: "core list \<Rightarrow> (u32 \<times> nat) set" where
  "indexed cs = {(fst (cs ! i), i) |i. i < length cs}"

definition bounded :: "core list \<Rightarrow> f64 \<Rightarrow> f64 \<Rightarrow> bool" where
  "bounded cs total_weight maximum_error \<longleftrightarrow> uint total_weight < INF_MAGNITUDE \<and> maximum_error \<le> total_weight \<and>
     (\<forall>(item, e, r) \<in> set cs. e \<le> total_weight \<and> r \<le> e \<and> r \<le> maximum_error)"

definition table_for :: "u64 \<Rightarrow> u64 \<Rightarrow> slots \<Rightarrow> core list \<Rightarrow> bool" where
  "table_for capacity hash_capacity T cs \<longleftrightarrow> 0 < unat capacity \<and> 2 * unat capacity \<le> length T \<and>
     slots_of hash_capacity (length T) \<and> length cs \<le> unat capacity \<and> distinct (map fst cs) \<and> table_ok T"

definition ss_ok :: "evoke_weighted_space_saving \<Rightarrow> bool" where
  "ss_ok s \<longleftrightarrow> table_for (ss_capacity s) (ss_hash_capacity s) (ss_hash_slots s) (cores s) \<and>
     entries (ss_hash_slots s) = indexed (cores s) \<and> bounded (cores s) (ss_total_weight s) (ss_maximum_error s) \<and>
     positions_ok s \<and> heap_by (index_key (cores s)) (ss_heap s)"

lemma entries_card:
  assumes "table_ok T"
  shows "card {p. p < length T \<and> occupied T p} = card (entries T)"
proof -
  have "inj_on (\<lambda>p. slot_entry (T ! p)) {p. p < length T \<and> occupied T p}"
    by (rule inj_onI) (auto simp: slot_entry_def intro: table_ok_inj [OF assms])
  then show ?thesis by (simp add: entries_def card_image)
qed

lemma indexed_image: "indexed cs = (\<lambda>i. (fst (cs ! i), i)) ` {..<length cs}"
  by (auto simp: indexed_def)

lemma in_indexed: "(x, i) \<in> indexed cs \<longleftrightarrow> i < length cs \<and> x = fst (cs ! i)"
  by (auto simp: indexed_def)

lemma indexed_card: "card (indexed cs) = length cs"
  unfolding indexed_image by (subst card_image) (auto intro: inj_onI)

lemma has_room_if:
  assumes "table_ok T" and "card (entries T) < length T"
  shows "has_room T"
proof (rule ccontr)
  assume "\<not> has_room T"
  then have "{p. p < length T \<and> occupied T p} = {..<length T}" by (auto simp: has_room_def)
  then show False using entries_card [OF assms(1)] assms(2) by simp
qed

lemma table_for_room:
  assumes "table_for capacity hash_capacity T cs" and "entries T = indexed cs'" and "length cs' \<le> length cs"
  shows "has_room T"
  using assms by (intro has_room_if) (auto simp: table_for_def indexed_card)

text \<open>The map from items to estimates and errors that a summary stands for.\<close>

abbreviation summary_map :: "evoke_weighted_space_saving \<Rightarrow> u32 \<rightharpoonup> f64 \<times> f64" where
  "summary_map s \<equiv> map_of (cores s)"

lemma map_of_nth_core:
  assumes "distinct (map fst cs)" and "i < length cs"
  shows "map_of cs (fst (cs ! i)) = Some (snd (cs ! i))"
  using assms by (simp add: map_of_eq_Some_iff)

lemma map_of_update_core:
  assumes "distinct (map fst cs)" and "i < length cs" and "k = fst (cs ! i) \<or> k \<notin> set (map fst cs)"
  shows "map_of (cs[i := (k, v)]) = (map_of cs)(fst (cs ! i) := None, k \<mapsto> v)"
  using assms
proof (induction cs arbitrary: i)
  case (Cons c cs)
  obtain a b where c: "c = (a, b)" by (cases c)
  show ?case
  proof (cases i)
    case 0
    have "map_of cs a = None" using Cons.prems(1) c by (simp add: map_of_eq_None_iff)
    then show ?thesis using 0 c by (auto simp: fun_eq_iff)
  next
    case (Suc l)
    then have l: "l < length cs" using Cons.prems(2) by simp
    have "fst (cs ! l) \<in> fst ` set cs" using l by simp
    then have ne: "a \<noteq> fst (cs ! l)" using Cons.prems(1) c by auto
    have "map_of (cs[l := (k, v)]) = (map_of cs)(fst (cs ! l) := None, k \<mapsto> v)"
      using Cons.prems Suc c l by (intro Cons.IH) auto
    moreover have "k \<noteq> a" using Cons.prems(3) Suc c ne by auto
    ultimately show ?thesis using Suc c ne by auto
  qed
qed simp

text \<open>
  One step of the abstract algorithm: add to a tracked item; start a counter while there is room; or take over
  the counter of an item with the smallest estimate, the largest item among equals.
\<close>

definition space_saving_step :: "nat \<Rightarrow> (u32 \<rightharpoonup> f64 \<times> f64) \<Rightarrow> u32 \<Rightarrow> f64 \<Rightarrow> (u32 \<rightharpoonup> f64 \<times> f64) \<Rightarrow> bool" where
  "space_saving_step capacity m item w m' \<longleftrightarrow>
     (case m item of
        Some (e, r) \<Rightarrow> m' = m(item \<mapsto> (f64_add e w, r))
      | None \<Rightarrow>
          if card (dom m) < capacity then m' = m(item \<mapsto> (w, 0))
          else \<exists>v e r. m v = Some (e, r) \<and>
            (\<forall>u e' r'. m u = Some (e', r') \<longrightarrow> e < e' \<or> (e = e' \<and> u \<le> v)) \<and>
            m' = m(v := None, item \<mapsto> (f64_add e w, e)))"

section \<open>The heap after a change\<close>

lemma heap_lower_key:
  assumes h: "heap_by (index_key cs) h" and d: "distinct h" and p: "p < length h" "h ! p = i" and len: "\<forall>x \<in> set h. x < length cs"
    and e: "fst c = fst (cs ! i)" "fst (snd (cs ! i)) \<le> fst (snd c)"
  shows "heap_except_down (index_key (cs[i := c])) h p"
proof -
  let ?k = "index_key cs" and ?k' = "index_key (cs[i := c])"
  have other: "?k' (h ! q) = ?k (h ! q)" if "q < length h" "q \<noteq> p" for q
    using that d p nth_eq_iff_index_eq [OF d that(1) p(1)] by (simp add: index_key_def nth_list_update)
  have i: "i < length cs" using p len by auto
  have low: "?k' (h ! p) \<le> ?k (h ! p)" using e i p(2) by (simp add: index_key_def less_eq_prod_def word_le_def)
  have par: "parent_of q < length h" if "0 < q" "q < length h" for q using parent_less [OF that(1)] that(2) by linarith
  have H: "?k (h ! q) \<le> ?k (h ! parent_of q)" if "0 < q" "q < length h" for q using h that by (simp add: heap_by_def)
  show ?thesis
    unfolding heap_except_down_def
  proof (intro conjI allI impI)
    fix q assume q: "0 < q" "q < length h" "parent_of q \<noteq> p"
    have "?k' (h ! q) \<le> ?k (h ! q)" using other low q by (cases "q = p") auto
    also note H [OF q(1,2)]
    also have "?k (h ! parent_of q) = ?k' (h ! parent_of q)" using other [OF par [OF q(1,2)] q(3)] by simp
    finally show "?k' (h ! q) \<le> ?k' (h ! parent_of q)" .
  next
    fix q assume q: "0 < q" "q < length h" "0 < p" "parent_of q = p"
    have "q \<noteq> p" "parent_of p \<noteq> p" using parent_less [OF q(1)] parent_less [OF q(3)] q(4) by auto
    then have "?k' (h ! q) = ?k (h ! q)" "?k' (h ! parent_of p) = ?k (h ! parent_of p)"
      using other q(2) par [OF q(3) p(1)] by simp_all
    then show "?k' (h ! q) \<le> ?k' (h ! parent_of p)" using H [OF q(1,2)] H [OF q(3) p(1)] q(4) by simp
  qed
qed

lemma heap_change_root:
  assumes h: "heap_by (index_key cs) h" and d: "distinct h" and ne: "h \<noteq> []"
  shows "heap_except_down (index_key (cs[h ! 0 := c])) h 0"
proof -
  have other: "index_key (cs[h ! 0 := c]) (h ! q) = index_key cs (h ! q)" if "0 < q" "q < length h" for q
    using that nth_eq_iff_index_eq [OF d that(2), of 0] ne by (simp add: index_key_def nth_list_update)
  have "0 < parent_of q \<Longrightarrow> parent_of q < length h" if "0 < q" "q < length h" for q
    using parent_less [OF that(1)] that(2) by linarith
  then show ?thesis using h other by (simp add: heap_except_down_def heap_by_def)
qed

lemma heap_append:
  assumes h: "heap_by (index_key cs) h" and len: "\<forall>x \<in> set h. x < length cs"
  shows "heap_except_up (index_key (cs @ [c])) (h @ [length cs]) (length h)"
proof -
  have "index_key (cs @ [c]) x = index_key cs x" if "x \<in> set h" for x using len that by (simp add: index_key_def nth_append)
  moreover have "h ! q \<in> set h" "h ! parent_of q \<in> set h" if "0 < q" "q < length h" for q
    using that parent_less [OF that(1)] by simp_all
  ultimately have "heap_by (index_key (cs @ [c])) h" using h by (simp add: heap_by_def)
  then show ?thesis by (rule heap_append_up)
qed


section \<open>One offer\<close>

lemma bounded_core:
  assumes "bounded cs t m" and "(item, e, r) \<in> set cs"
  shows "e \<le> t" "r \<le> e" "r \<le> m" "f64_nonneg e" "f64_nonneg r"
proof -
  show le: "e \<le> t" "r \<le> e" "r \<le> m" using assms by (auto simp: bounded_def)
  then show "f64_nonneg e" "f64_nonneg r" using assms(1) by (auto simp: bounded_def f64_nonneg_def word_le_def)
qed

lemma bounded_index_ok:
  assumes "bounded cs t m" and "i < length cs"
  shows "index_ok cs i"
  using bounded_core(4) [OF assms(1), of "fst (cs ! i)" "fst (snd (cs ! i))" "snd (snd (cs ! i))"] assms(2)
  by (simp add: index_ok_def)

lemma heap_down_ss_ok:
  assumes "table_for (ss_capacity s) (ss_hash_capacity s) (ss_hash_slots s) (cores s)"
    and "entries (ss_hash_slots s) = indexed (cores s)" and b: "bounded (cores s) (ss_total_weight s) (ss_maximum_error s)"
    and p: "positions_ok s" and "heap_except_down (index_key (cores s)) (ss_heap s) p" and "p < length (ss_heap s)"
  shows "ss_ok (evoke_weighted_space_saving_heap_down s p)" and "sifted s (evoke_weighted_space_saving_heap_down s p)"
proof -
  let ?s = "evoke_weighted_space_saving_heap_down s p"
  have len: "length (ss_heap s) = length (ss_counters s)" using p by (simp add: positions_ok_def)
  have "\<forall>i \<in> set (ss_heap s). index_ok (cores s) i"
    using bounded_index_ok [OF b] positions_distinct(2) [OF p] by simp
  then have h: "heap_by (index_key (cores s)) (index_down (cores s) (ss_heap s) (length (ss_counters s)) p)"
    using index_heap.sift_down_heap [OF assms(5,6)] len by simp
  have d: "positions_ok ?s" "sifted s ?s" "ss_heap ?s = index_down (cores s) (ss_heap s) (length (ss_counters s)) p"
    using heap_down_sifts [OF p assms(6)] by simp_all
  then show "sifted s ?s" by simp
  have "cores ?s = cores s" using d(2) by (simp add: sifted_def)
  then show "ss_ok ?s" using assms(1,2) b d(1,3) h sifted_fields [OF d(2)] by (simp add: ss_ok_def)
qed

lemma heap_up_ss_ok:
  assumes "table_for (ss_capacity s) (ss_hash_capacity s) (ss_hash_slots s) (cores s)"
    and "entries (ss_hash_slots s) = indexed (cores s)" and b: "bounded (cores s) (ss_total_weight s) (ss_maximum_error s)"
    and p: "positions_ok s" and "heap_except_up (index_key (cores s)) (ss_heap s) p" and "p < length (ss_heap s)"
  shows "ss_ok (evoke_weighted_space_saving_heap_up s p)" and "sifted s (evoke_weighted_space_saving_heap_up s p)"
proof -
  let ?s = "evoke_weighted_space_saving_heap_up s p"
  have "\<forall>i \<in> set (ss_heap s). index_ok (cores s) i"
    using bounded_index_ok [OF b] positions_distinct(2) [OF p] by simp
  then have h: "heap_by (index_key (cores s)) (index_up (cores s) (ss_heap s) p)"
    using index_heap.sift_up_heap [OF assms(5,6)] by simp
  have d: "positions_ok ?s" "sifted s ?s" "ss_heap ?s = index_up (cores s) (ss_heap s) p"
    using heap_up_sifts [OF p assms(6)] by simp_all
  then show "sifted s ?s" by simp
  have "cores ?s = cores s" using d(2) by (simp add: sifted_def)
  then show "ss_ok ?s" using assms(1,2) b d(1,3) h sifted_fields [OF d(2)] by (simp add: ss_ok_def)
qed

lemma map_fst_cores: "map fst (cs[i := c]) = (map fst cs)[i := fst c]"
  by (simp add: map_update)

lemma indexed_same: "fst c = fst (cs ! i) \<Longrightarrow> indexed (cs[i := c]) = indexed cs"
  by (cases "i < length cs") (auto simp: indexed_image nth_list_update intro!: image_cong)

lemma indexed_append: "indexed (cs @ [c]) = insert (fst c, length cs) (indexed cs)"
  by (auto simp: indexed_image nth_append lessThan_Suc intro!: image_cong)

lemma indexed_replace:
  assumes "i < length cs" and "distinct (map fst cs)" and "fst c \<notin> set (map fst cs)"
  shows "indexed (cs[i := c]) = insert (fst c, i) {x \<in> indexed cs. fst x \<noteq> fst (cs ! i)}"
proof -
  have "fst (cs ! j) = fst (cs ! i) \<longleftrightarrow> j = i" if "j < length cs" for j
    using nth_eq_iff_index_eq [OF assms(2), of j i] that assms(1) by simp
  then have "(x, j) \<in> indexed (cs[i := c]) \<longleftrightarrow> (x, j) = (fst c, i) \<or> (x, j) \<in> indexed cs \<and> x \<noteq> fst (cs ! i)" for x j
    using assms(1) by (cases "j = i") (auto simp: in_indexed)
  then show ?thesis by auto
qed

lemma positions_ok_update:
  assumes "positions_ok s" and "ct_heap_position c = ct_heap_position (ss_counters s ! i)"
    and "ss_counters s' = (ss_counters s)[i := c]" and "ss_heap s' = ss_heap s"
  shows "positions_ok s'"
  using assms unfolding positions_ok_def by (cases "i < length (ss_counters s)") (auto simp: nth_list_update)

text \<open>The numbers: a weight that passes the guard is positive, and sums below the total are finite with it.\<close>

lemma weight_nonneg:
  assumes "f64_is_finite w" and "\<not> f64_less_eq w 0"
  shows "f64_nonneg w" "0 < w"
proof -
  have z: "f64_nonneg 0" by (simp add: f64_nonneg_def INF_MAGNITUDE_def)
  have nn: "\<not> f64_is_nan w" using assms(1) by (simp add: f64_is_nan_def f64_is_finite_def)
  then have pos: "0 < f64_rank w" using assms(2) f64_nonneg_simps(3,4) [OF z] by (simp add: f64_less_eq_def)
  have m: "0 \<le> f64_magnitude w" by (simp add: f64_magnitude_def)
  then have neg: "\<not> f64_negative w" and mag: "0 < f64_magnitude w" using pos by (auto simp: f64_rank_def split: if_splits)
  have "uint w < 2 ^ 63"
  proof (rule ccontr)
    assume "\<not> uint w < 2 ^ 63"
    then have "uint w div 2 ^ 63 = 1" using uint_lt2p [of w]
      by (intro int_div_pos_eq [of _ _ 1 "uint w - 2 ^ 63"]) simp_all
    then have "bit (uint w) 63" by (simp add: bit_iff_odd)
    then show False using neg by (simp add: negative_bit bit_uint_iff)
  qed
  then have eq: "f64_magnitude w = uint w" by (simp add: magnitude_mask)
  then show "f64_nonneg w" "0 < w" using assms(1) mag by (simp_all add: f64_nonneg_def f64_is_finite_def word_less_def)
qed

lemma add_below_total:
  assumes "e \<le> t" and "f64_nonneg t" and "f64_nonneg w"
  shows "e \<le> f64_add e w" "f64_add e w \<le> f64_add t w" "f64_nonneg (f64_add e w)"
proof -
  have e: "f64_nonneg e" using assms(1,2) by (simp add: f64_nonneg_def word_le_def)
  show "e \<le> f64_add e w" "f64_add e w \<le> f64_add t w" "f64_nonneg (f64_add e w)"
    using f64_add_rank [OF e assms(2,3)] assms(1) by (simp_all add: word_le_def)
qed

lemma add_zero:
  assumes "f64_nonneg w" and "f64_is_finite w"
  shows "f64_add 0 w = w"
proof -
  have z: "f64_nonneg 0" by (simp add: f64_nonneg_def INF_MAGNITUDE_def)
  have "uint (f64_add 0 w) = uint w"
    using assms f64_nonneg_simps(5) [OF assms(1)]
    by (simp add: uint_add [OF z assms(1)] INF_MAGNITUDE_def round_magnitude_unbounded unbounded_value magnitude_value_def [of 0])
  then show ?thesis by (simp add: word_uint_eq_iff)
qed


text \<open>What an accepted offer leaves.\<close>

definition offer_result :: "evoke_weighted_space_saving \<Rightarrow> u32 \<Rightarrow> f64 \<Rightarrow> evoke_weighted_space_saving \<Rightarrow> bool" where
  "offer_result s item w s' \<longleftrightarrow> ss_ok s' \<and> ss_capacity s' = ss_capacity s \<and>
     ss_total_weight s' = f64_add (ss_total_weight s) w \<and>
     space_saving_step (unat (ss_capacity s)) (summary_map s) item w (summary_map s')"

lemma sifted_offer_result:
  assumes "sifted s1 s'" and "ss_ok s'" and "ss_capacity s1 = ss_capacity s" and "ss_total_weight s1 = f64_add (ss_total_weight s) w"
    and "space_saving_step (unat (ss_capacity s)) (summary_map s) item w (map_of (cores s1))"
  shows "offer_result s item w s'"
  using assms sifted_fields [OF assms(1)] by (simp add: offer_result_def sifted_def)

lemma total_nonneg: "bounded cs t m \<Longrightarrow> f64_nonneg t"
  by (simp add: bounded_def f64_nonneg_def)

lemma bounded_update:
  assumes b: "bounded cs t m" and w: "f64_nonneg w" and t: "f64_is_finite (f64_add t w)"
    and m: "m \<le> m'" "m' \<le> t" and c: "e' \<le> f64_add t w" "r' \<le> e'" "r' \<le> m'"
    and cs': "set cs' \<subseteq> insert (item, e', r') (set cs)"
  shows "bounded cs' (f64_add t w) m'"
proof -
  note total = add_below_total [OF order_refl total_nonneg [OF b] w]
  have "uint (f64_add t w) < INF_MAGNITUDE" using f64_nonneg_simps(5) [OF total(3)] t by simp
  moreover have "e \<le> f64_add t w \<and> r \<le> e \<and> r \<le> m'" if "(it, e, r) \<in> set cs'" for it e r
    using that cs' c bounded_core(1-3) [OF b, of it e r] total(1) m(1) by (auto intro: order_trans)
  ultimately show ?thesis using m(2) total(1) by (auto simp: bounded_def)
qed

lemma offer_tracked:
  assumes ok: "ss_ok s" and w: "f64_nonneg w" and t: "f64_is_finite (f64_add (ss_total_weight s) w)"
    and i: "i < length (ss_counters s)" and item: "ct_item (ss_counters s ! i) = item"
  defines "c \<equiv> ss_counters s ! i"
  defines "s1 \<equiv> s\<lparr>ss_total_weight := f64_add (ss_total_weight s) w,
    ss_counters := (ss_counters s)[i := c\<lparr>ct_estimate := f64_add (ct_estimate c) w\<rparr>]\<rparr>"
  shows "f64_is_finite (f64_add (ct_estimate c) w)"
    and "offer_result s item w (evoke_weighted_space_saving_heap_down s1 (ct_heap_position c))"
proof -
  let ?cs = "cores s" and ?c = "(item, f64_add (ct_estimate c) w, ct_error c)" and ?t = "ss_total_weight s"
  have b: "bounded ?cs ?t (ss_maximum_error s)" and p: "positions_ok s" and h: "heap_by (index_key ?cs) (ss_heap s)"
    and tf: "table_for (ss_capacity s) (ss_hash_capacity s) (ss_hash_slots s) ?cs"
    and en: "entries (ss_hash_slots s) = indexed ?cs" using ok by (simp_all add: ss_ok_def)
  have ci: "?cs ! i = (item, ct_estimate c, ct_error c)" using i item by (simp add: core_def c_def)
  have mem: "(item, ct_estimate c, ct_error c) \<in> set ?cs" unfolding ci [symmetric] using i by simp
  note le = bounded_core [OF b mem]
  note add = add_below_total [OF le(1) total_nonneg [OF b] w]
  have nt: "f64_nonneg (f64_add ?t w)" by (rule add_below_total(3) [OF order_refl total_nonneg [OF b] w])
  show fin: "f64_is_finite (f64_add (ct_estimate c) w)"
    using add(2) t f64_nonneg_simps(5) [OF add(3)] f64_nonneg_simps(5) [OF nt] by (simp add: word_le_def)
  have cs1: "cores s1 = ?cs[i := ?c]" by (simp add: s1_def map_update core_def item [symmetric] c_def)
  have b1: "bounded (cores s1) (f64_add ?t w) (ss_maximum_error s)"
    unfolding cs1 using b le add set_update_subset_insert [of ?cs i ?c]
    by (intro bounded_update [OF b w t, of _ "f64_add (ct_estimate c) w" "ct_error c"]) (auto simp: bounded_def intro: order_trans)
  note pos = heap_position [OF p i, folded c_def]
  have p1: "positions_ok s1" by (rule positions_ok_update [OF p]) (simp_all add: s1_def c_def)
  have fs: "map fst (?cs[i := ?c]) = map fst ?cs" using ci i by (simp add: map_fst_cores list_update_same_conv)
  have t1: "table_for (ss_capacity s1) (ss_hash_capacity s1) (ss_hash_slots s1) (cores s1)"
    using tf fs unfolding cs1 by (simp add: table_for_def s1_def)
  have e1: "entries (ss_hash_slots s1) = indexed (cores s1)"
    unfolding cs1 using indexed_same [of ?c ?cs i] ci en by (simp add: s1_def)
  have "heap_except_down (index_key (cores s1)) (ss_heap s1) (ct_heap_position c)"
    unfolding cs1 using heap_lower_key [OF h positions_distinct(1) [OF p] pos, of ?c] positions_distinct(2) [OF p] ci add(1)
    by (simp add: s1_def)
  then have down: "ss_ok (evoke_weighted_space_saving_heap_down s1 (ct_heap_position c))"
    "sifted s1 (evoke_weighted_space_saving_heap_down s1 (ct_heap_position c))"
    using heap_down_ss_ok [OF t1 e1 _ p1] b1 pos(1) by (simp_all add: s1_def)
  have d: "distinct (map fst ?cs)" using tf by (simp add: table_for_def)
  have "map_of ?cs item = Some (ct_estimate c, ct_error c)" using map_of_nth_core [OF d, of i] i ci by simp
  moreover have "map_of (cores s1) = (map_of ?cs)(item \<mapsto> (f64_add (ct_estimate c) w, ct_error c))"
    unfolding cs1 using map_of_update_core [OF d, of i item] i ci by simp
  ultimately have "space_saving_step (unat (ss_capacity s)) (summary_map s) item w (map_of (cores s1))"
    by (simp add: space_saving_step_def)
  then show "offer_result s item w (evoke_weighted_space_saving_heap_down s1 (ct_heap_position c))"
    using down by (intro sifted_offer_result [of s1]) (simp_all add: s1_def)
qed


lemma offer_new:
  assumes ok: "ss_ok s" and w: "f64_nonneg w" and t: "f64_is_finite (f64_add (ss_total_weight s) w)"
    and item: "item \<notin> set (map fst (cores s))" and room: "length (ss_counters s) < unat (ss_capacity s)"
  defines "s1 \<equiv> s\<lparr>ss_total_weight := f64_add (ss_total_weight s) w,
    ss_counters := ss_counters s @ [\<lparr>ct_item = item, ct_estimate = w, ct_error = 0, ct_heap_position = length (ss_counters s)\<rparr>],
    ss_heap := ss_heap s @ [length (ss_counters s)]\<rparr>"
  shows "\<exists>s2. evoke_weighted_space_saving_hash_insert s1 item (length (ss_counters s)) = (EVOKE_OK, s2) \<and>
    offer_result s item w (evoke_weighted_space_saving_heap_up s2 (length (ss_counters s)))"
proof -
  let ?cs = "cores s" and ?n = "length (ss_counters s)" and ?t = "ss_total_weight s"
  have b: "bounded ?cs ?t (ss_maximum_error s)" and p: "positions_ok s" and h: "heap_by (index_key ?cs) (ss_heap s)"
    and tf: "table_for (ss_capacity s) (ss_hash_capacity s) (ss_hash_slots s) ?cs"
    and en: "entries (ss_hash_slots s) = indexed ?cs" using ok by (simp_all add: ss_ok_def)
  have cs1: "cores s1 = ?cs @ [(item, w, 0)]" by (simp add: s1_def core_def)
  have "\<forall>j. (item, j) \<notin> entries (ss_hash_slots s1)" using item en by (auto simp: s1_def in_indexed)
  moreover have "has_room (ss_hash_slots s1)" using table_for_room [OF tf en] by (simp add: s1_def)
  ultimately obtain T where T: "evoke_weighted_space_saving_hash_insert s1 item ?n = (EVOKE_OK, s1\<lparr>ss_hash_slots := T\<rparr>)"
      "table_ok T" "length T = length (ss_hash_slots s)" "entries T = insert (item, ?n) (entries (ss_hash_slots s))"
    using hash_insert_ok [of s1 item ?n] tf by (auto simp: table_for_def s1_def)
  let ?s2 = "s1\<lparr>ss_hash_slots := T\<rparr>"
  have cs2: "cores ?s2 = ?cs @ [(item, w, 0)]" using cs1 by simp
  have t2: "table_for (ss_capacity ?s2) (ss_hash_capacity ?s2) (ss_hash_slots ?s2) (cores ?s2)"
    unfolding cs2 using tf T(2,3) item room by (simp add: table_for_def s1_def)
  have e2: "entries (ss_hash_slots ?s2) = indexed (cores ?s2)" unfolding cs2 indexed_append using T(4) en by simp
  have add: "f64_add 0 w \<le> f64_add ?t w" by (rule add_below_total(2) [OF _ total_nonneg [OF b] w]) simp
  have wf: "w \<le> f64_add ?t w"
  proof -
    have z: "f64_nonneg 0" by (simp add: f64_nonneg_def INF_MAGNITUDE_def)
    have nt: "f64_nonneg (f64_add ?t w)" by (rule add_below_total(3) [OF order_refl total_nonneg [OF b] w])
    have "uint w \<noteq> INF_MAGNITUDE" using t uint_add [OF total_nonneg [OF b] w] f64_nonneg_simps(5) [OF nt] by auto
    then have "f64_is_finite w" using w f64_nonneg_simps(5) [OF w] by (simp add: f64_nonneg_def)
    then show ?thesis using add add_zero [OF w] by simp
  qed
  have b2: "bounded (cores ?s2) (ss_total_weight ?s2) (ss_maximum_error ?s2)"
    unfolding cs2 using b wf by (simp add: s1_def) (intro bounded_update [OF b w t, of _ w 0 _ item], auto simp: bounded_def)
  have p2: "positions_ok ?s2" using p by (auto simp: positions_ok_def s1_def nth_append less_Suc_eq)
  have "heap_except_up (index_key (cores ?s2)) (ss_heap ?s2) ?n"
    unfolding cs2 using heap_append [OF h, of "(item, w, 0)"] positions_distinct(2) [OF p] p by (simp add: s1_def positions_ok_def)
  then have up: "ss_ok (evoke_weighted_space_saving_heap_up ?s2 ?n)" "sifted ?s2 (evoke_weighted_space_saving_heap_up ?s2 ?n)"
    using heap_up_ss_ok [OF t2 e2 b2 p2] p by (simp_all add: s1_def positions_ok_def)
  have none: "map_of ?cs item = None" using item by (simp add: map_of_eq_None_iff image_image)
  have "card (dom (map_of ?cs)) = ?n"
    using tf by (simp add: dom_map_of_conv_image_fst table_for_def distinct_card flip: set_map)
  moreover have "map_of (cores ?s2) = (map_of ?cs)(item \<mapsto> (w, 0))" unfolding cs2 map_of_append using none by (auto simp: map_add_def split: option.splits)
  ultimately have "space_saving_step (unat (ss_capacity s)) (summary_map s) item w (map_of (cores ?s2))"
    using none room by (simp add: space_saving_step_def)
  then have "offer_result s item w (evoke_weighted_space_saving_heap_up ?s2 ?n)"
    using up by (intro sifted_offer_result [of ?s2]) (simp_all add: s1_def)
  then show ?thesis using T(1) by blast
qed


text \<open>The root of the heap has the smallest estimate, the largest item among equals.\<close>

lemma root_smallest:
  assumes ok: "ss_ok s" and ne: "ss_counters s \<noteq> []"
  shows "ss_heap s ! 0 < length (ss_counters s)"
    and "j < length (ss_counters s) \<Longrightarrow>
      ct_estimate (ss_counters s ! (ss_heap s ! 0)) < ct_estimate (ss_counters s ! j) \<or>
      ct_estimate (ss_counters s ! (ss_heap s ! 0)) = ct_estimate (ss_counters s ! j) \<and>
        ct_item (ss_counters s ! j) \<le> ct_item (ss_counters s ! (ss_heap s ! 0))"
proof -
  have p: "positions_ok s" and h: "heap_by (index_key (cores s)) (ss_heap s)" using ok by (simp_all add: ss_ok_def)
  have "0 < length (ss_heap s)" using p ne by (simp add: positions_ok_def)
  then show r: "ss_heap s ! 0 < length (ss_counters s)" using p by (auto simp: positions_ok_def)
  assume j: "j < length (ss_counters s)"
  have "index_key (cores s) j \<le> index_key (cores s) (ss_heap s ! 0)"
    using heap_root_worst [OF h heap_position(1) [OF p j]] heap_position(2) [OF p j] by simp
  then show "ct_estimate (ss_counters s ! (ss_heap s ! 0)) < ct_estimate (ss_counters s ! j) \<or>
      ct_estimate (ss_counters s ! (ss_heap s ! 0)) = ct_estimate (ss_counters s ! j) \<and>
        ct_item (ss_counters s ! j) \<le> ct_item (ss_counters s ! (ss_heap s ! 0))"
    using j r by (auto simp: index_key_def core_def less_eq_prod_def word_less_def word_le_def word_uint_eq_iff)
qed

lemma replace_step:
  assumes ok: "ss_ok s" and item: "item \<notin> set (map fst (cores s))" and full: "\<not> length (ss_counters s) < unat (ss_capacity s)"
    and ne: "ss_counters s \<noteq> []"
  defines "i \<equiv> ss_heap s ! 0"
  defines "e \<equiv> ct_estimate (ss_counters s ! i)"
  shows "space_saving_step (unat (ss_capacity s)) (summary_map s) item w (map_of ((cores s)[i := (item, f64_add e w, e)]))"
proof -
  let ?cs = "cores s" and ?v = "ct_item (ss_counters s ! i)"
  have d: "distinct (map fst ?cs)" using ok by (simp add: ss_ok_def table_for_def)
  note root = root_smallest [OF ok ne, folded i_def]
  have ci: "?cs ! i = (?v, e, ct_error (ss_counters s ! i))" using root(1) by (simp add: core_def e_def)
  have "card (dom (map_of ?cs)) = length (ss_counters s)"
    using d by (simp add: dom_map_of_conv_image_fst distinct_card flip: set_map)
  moreover have "map_of ?cs item = None" using item by (simp add: map_of_eq_None_iff image_image)
  moreover have "map_of ?cs ?v = Some (e, ct_error (ss_counters s ! i))"
    using map_of_nth_core [OF d, of i] root(1) ci by simp
  moreover have "e < e' \<or> e = e' \<and> u \<le> ?v" if "map_of ?cs u = Some (e', r')" for u e' r'
  proof -
    have "(u, e', r') \<in> set ?cs" by (rule map_of_SomeD [OF that])
    then obtain j where "j < length (ss_counters s)" "u = ct_item (ss_counters s ! j)" "e' = ct_estimate (ss_counters s ! j)"
      by (auto simp: in_set_conv_nth core_def)
    then show ?thesis using root(2) by (simp add: e_def)
  qed
  moreover have "map_of (?cs[i := (item, f64_add e w, e)]) = (map_of ?cs)(?v := None, item \<mapsto> (f64_add e w, e))"
    using map_of_update_core [OF d, of i item] root(1) item ci by simp
  ultimately show ?thesis
    using full unfolding space_saving_step_def by simp (rule exI [of _ ?v], rule exI [of _ e], auto)
qed

text \<open>Removing the old item of the root: the table is the one of the changed counters but for the new item.\<close>

lemma replace_removes:
  assumes tf: "table_for capacity (ss_hash_capacity s) (ss_hash_slots s) cs" and en: "entries (ss_hash_slots s) = indexed cs"
    and i: "i < length cs" and item: "fst c \<notin> set (map fst cs)"
  obtains T where "evoke_weighted_space_saving_hash_remove s (fst (cs ! i)) = Some (EVOKE_OK, s\<lparr>ss_hash_slots := T\<rparr>)"
    "table_for capacity (ss_hash_capacity s) T (cs[i := c])" "has_room T" "\<forall>j. (fst c, j) \<notin> entries T"
    "indexed (cs[i := c]) = insert (fst c, i) (entries T)"
proof -
  have "(fst (cs ! i), i) \<in> entries (ss_hash_slots s)" using en i by (simp add: in_indexed)
  moreover have "has_room (ss_hash_slots s)" using table_for_room [OF tf en] by simp
  ultimately obtain T where T: "evoke_weighted_space_saving_hash_remove s (fst (cs ! i)) = Some (EVOKE_OK, s\<lparr>ss_hash_slots := T\<rparr>)"
      "table_ok T" "length T = length (ss_hash_slots s)" "entries T = {x \<in> indexed cs. fst x \<noteq> fst (cs ! i)}"
    using hash_remove_ok [of s "fst (cs ! i)" i] tf en by (auto simp: table_for_def)
  have d: "distinct (map fst cs)" using tf by (simp add: table_for_def)
  have rep: "indexed (cs[i := c]) = insert (fst c, i) (entries T)"
    using indexed_replace [OF i d item] T(4) by simp
  have "distinct (map fst (cs[i := c]))" unfolding map_fst_cores using d item by (intro distinct_list_update) auto
  then have "table_for capacity (ss_hash_capacity s) T (cs[i := c])" using tf T(2,3) by (simp add: table_for_def)
  moreover have "finite (entries T)" unfolding T(4) indexed_image by simp
  moreover have "card (insert (fst c, i) (entries T)) = length cs" unfolding rep [symmetric] by (simp add: indexed_card)
  ultimately have "has_room T"
    using T(2,3) tf by (intro has_room_if) (auto simp: table_for_def card_insert_if split: if_splits)
  moreover have "\<forall>j. (fst c, j) \<notin> entries T" using item by (auto simp: T(4) in_indexed)
  ultimately show thesis using that T(1) rep \<open>table_for capacity (ss_hash_capacity s) T (cs[i := c])\<close> by blast
qed

text \<open>What the root's counter becomes, and what inserting the new item and sifting leave.\<close>

definition taken_over :: "u32 \<Rightarrow> f64 \<Rightarrow> evoke_weighted_space_saving_counter \<Rightarrow> evoke_weighted_space_saving_counter" where
  "taken_over item w c = c\<lparr>ct_item := item, ct_estimate := f64_add (ct_estimate c) w, ct_error := ct_estimate c\<rparr>"

lemma replace_inserts:
  assumes ok: "ss_ok s" and w: "f64_nonneg w" and t: "f64_is_finite (f64_add (ss_total_weight s) w)"
    and item: "item \<notin> set (map fst (cores s))" and full: "\<not> length (ss_counters s) < unat (ss_capacity s)"
    and ne: "ss_counters s \<noteq> []"
  defines "i \<equiv> ss_heap s ! 0"
  defines "c \<equiv> ss_counters s ! i"
  assumes T: "table_for (ss_capacity s) (ss_hash_capacity s) T ((cores s)[i := core (taken_over item w c)])" "has_room T"
      "\<forall>j. (item, j) \<notin> entries T" "indexed ((cores s)[i := core (taken_over item w c)]) = insert (item, i) (entries T)"
    and m: "m = ss_maximum_error s \<and> ct_estimate c \<le> m \<or> m = ct_estimate c \<and> ss_maximum_error s \<le> m"
    and s1: "s1 = s\<lparr>ss_total_weight := f64_add (ss_total_weight s) w, ss_hash_slots := T,
      ss_counters := (ss_counters s)[i := taken_over item w c], ss_maximum_error := m, ss_replacements := n\<rparr>"
  shows "\<exists>s2. evoke_weighted_space_saving_hash_insert s1 item i = (EVOKE_OK, s2) \<and>
    offer_result s item w (evoke_weighted_space_saving_heap_down s2 0)"
proof -
  let ?cs = "cores s" and ?t = "ss_total_weight s" and ?e = "ct_estimate c"
  let ?c = "(item, f64_add ?e w, ?e)"
  have cc: "core (taken_over item w c) = ?c" by (simp add: core_def taken_over_def)
  have b: "bounded ?cs ?t (ss_maximum_error s)" and p: "positions_ok s" and h: "heap_by (index_key ?cs) (ss_heap s)"
    using ok by (simp_all add: ss_ok_def)
  have i: "i < length (ss_counters s)" using root_smallest(1) [OF ok ne] by (simp add: i_def)
  have mem: "(ct_item c, ?e, ct_error c) \<in> set ?cs" using i by (force simp: core_def c_def)
  note le = bounded_core [OF b mem] and add = add_below_total [OF bounded_core(1) [OF b mem] total_nonneg [OF b] w]
  obtain T' where T': "evoke_weighted_space_saving_hash_insert s1 item i = (EVOKE_OK, s1\<lparr>ss_hash_slots := T'\<rparr>)"
      "table_ok T'" "length T' = length T" "entries T' = insert (item, i) (entries T)"
    using hash_insert_ok [of s1 item i] T by (auto simp: table_for_def s1)
  let ?s2 = "s1\<lparr>ss_hash_slots := T'\<rparr>"
  have cs2: "cores ?s2 = ?cs[i := ?c]" by (simp add: s1 map_update cc)
  have t2: "table_for (ss_capacity ?s2) (ss_hash_capacity ?s2) (ss_hash_slots ?s2) (cores ?s2)"
    unfolding cs2 using T(1) T'(2,3) by (simp add: table_for_def s1 cc)
  have e2: "entries (ss_hash_slots ?s2) = indexed (cores ?s2)" unfolding cs2 using T(4) T'(4) by (simp add: cc)
  have "bounded (?cs[i := ?c]) (f64_add ?t w) m"
    using m b le add set_update_subset_insert [of ?cs i ?c]
    by (intro bounded_update [OF b w t, of m "f64_add ?e w" ?e _ item]) (auto simp: bounded_def)
  then have b2: "bounded (cores ?s2) (ss_total_weight ?s2) (ss_maximum_error ?s2)" unfolding cs2 by (simp add: s1)
  have p2: "positions_ok ?s2" by (rule positions_ok_update [OF p]) (simp_all add: s1 c_def taken_over_def)
  have hne: "ss_heap s \<noteq> []" using ne p by (auto simp: positions_ok_def)
  have "heap_except_down (index_key (cores ?s2)) (ss_heap ?s2) 0"
    unfolding cs2 using heap_change_root [OF h positions_distinct(1) [OF p] hne, of ?c] by (simp add: s1 i_def)
  then have down: "ss_ok (evoke_weighted_space_saving_heap_down ?s2 0)" "sifted ?s2 (evoke_weighted_space_saving_heap_down ?s2 0)"
    using heap_down_ss_ok [OF t2 e2 b2 p2] hne by (simp_all add: s1)
  have "space_saving_step (unat (ss_capacity s)) (summary_map s) item w (map_of (cores ?s2))"
    unfolding cs2 using replace_step [OF ok item full ne, of w] by (simp add: i_def c_def)
  then have "offer_result s item w (evoke_weighted_space_saving_heap_down ?s2 0)"
    using down by (intro sifted_offer_result [of ?s2]) (simp_all add: s1)
  then show ?thesis using T'(1) by blast
qed


lemma tracked_iff:
  assumes "ss_ok s"
  shows "(item, i) \<in> entries (ss_hash_slots s) \<longleftrightarrow> i < length (ss_counters s) \<and> ct_item (ss_counters s ! i) = item"
  using assms by (auto simp: ss_ok_def in_indexed core_def)

lemma untracked:
  assumes "ss_ok s" and "\<forall>i. (item, i) \<notin> entries (ss_hash_slots s)"
  shows "item \<notin> set (map fst (cores s))"
  using assms(2) unfolding tracked_iff [OF assms(1)] by (auto simp: in_set_conv_nth core_def)

lemma f64_less_nonneg: "f64_nonneg a \<Longrightarrow> f64_nonneg b \<Longrightarrow> f64_less a b \<longleftrightarrow> a < b"
  by (simp add: f64_less_def f64_nonneg_simps word_less_def)

lemma offer_accepted:
  assumes ok: "ss_ok s" and "f64_is_finite w" and "\<not> f64_less_eq w 0" and t: "f64_is_finite (f64_add (ss_total_weight s) w)"
  shows "\<exists>s'. evoke_weighted_space_saving_offer (Some s) item w = Some (EVOKE_OK, Some s') \<and> offer_result s item w s'"
proof -
  let ?s = "s\<lparr>ss_total_weight := f64_add (ss_total_weight s) w\<rparr>"
  have w: "f64_nonneg w" by (rule weight_nonneg [OF assms(2,3)])
  have tf: "table_for (ss_capacity s) (ss_hash_capacity s) (ss_hash_slots s) (cores s)"
    and en: "entries (ss_hash_slots s) = indexed (cores s)"
    and b: "bounded (cores s) (ss_total_weight s) (ss_maximum_error s)" using ok by (simp_all add: ss_ok_def)
  have cap: "ss_capacity s \<noteq> 0" using tf by (auto simp: table_for_def)
  have tab: "table_ok (ss_hash_slots ?s)" "slots_of (ss_hash_capacity ?s) (length (ss_hash_slots ?s))" "has_room (ss_hash_slots ?s)"
    using tf table_for_room [OF tf en] by (simp_all add: table_for_def)
  note def = evoke_weighted_space_saving_offer_def Let_def
  show ?thesis
  proof (rule lookup_cases [OF tab, of item])
    fix slot i assume look: "evoke_weighted_space_saving_hash_lookup ?s item = Probe_Found slot i"
      and "(item, i) \<in> entries (ss_hash_slots ?s)"
    then have i: "i < length (ss_counters s)" "ct_item (ss_counters s ! i) = item" using tracked_iff [OF ok] by simp_all
    show ?thesis using offer_tracked [OF ok w t i] look assms cap by (simp add: def)
  next
    fix slot assume look: "evoke_weighted_space_saving_hash_lookup ?s item = Probe_Free slot"
      and "\<forall>i. (item, i) \<notin> entries (ss_hash_slots ?s)"
    then have un: "item \<notin> set (map fst (cores s))" using untracked [OF ok] by simp
    show ?thesis
    proof (cases "length (ss_counters s) < unat (ss_capacity s)")
      case True
      then show ?thesis using offer_new [OF ok w t un True] look assms cap by (auto simp: def split: prod.splits)
    next
      case False
      let ?i = "ss_heap s ! 0" and ?c = "ss_counters s ! (ss_heap s ! 0)"
      have ne: "ss_counters s \<noteq> []" using False tf by (auto simp: table_for_def)
      have i: "?i < length (ss_counters s)" by (rule root_smallest(1) [OF ok ne])
      have ci: "cores s ! ?i = core ?c" using i by simp
      have mem: "(ct_item ?c, ct_estimate ?c, ct_error ?c) \<in> set (cores s)" using i by (force simp: core_def)
      note le = bounded_core [OF b mem]
      have fin: "f64_is_finite (f64_add (ct_estimate ?c) w)"
        using add_below_total [OF le(1) total_nonneg [OF b] w] t f64_nonneg_simps(5)
          add_below_total(3) [OF order_refl total_nonneg [OF b] w] by (auto simp: word_le_def)
      have nm: "f64_nonneg (ss_maximum_error s)" using b by (auto simp: bounded_def f64_nonneg_def word_le_def)
      have fc: "fst (core (taken_over item w ?c)) = item" by (simp add: core_def taken_over_def)
      obtain T where T: "evoke_weighted_space_saving_hash_remove ?s (ct_item ?c) = Some (EVOKE_OK, ?s\<lparr>ss_hash_slots := T\<rparr>)"
          "table_for (ss_capacity s) (ss_hash_capacity s) T ((cores s)[?i := core (taken_over item w ?c)])" "has_room T"
          "\<forall>j. (item, j) \<notin> entries T" "indexed ((cores s)[?i := core (taken_over item w ?c)]) = insert (item, ?i) (entries T)"
        using replace_removes [of "ss_capacity s" ?s "cores s" ?i "core (taken_over item w ?c)"] tf en i un
        by (auto simp: fc core_def [of ?c])
      define m where "m = (if f64_less (ss_maximum_error s) (ct_estimate ?c) then ct_estimate ?c else ss_maximum_error s)"
      have m: "m = ss_maximum_error s \<and> ct_estimate ?c \<le> m \<or> m = ct_estimate ?c \<and> ss_maximum_error s \<le> m"
        using f64_less_nonneg [OF nm le(4)] by (auto simp: m_def)
      obtain s2 where s2: "evoke_weighted_space_saving_hash_insert (?s\<lparr>ss_hash_slots := T,
          ss_counters := (ss_counters s)[?i := taken_over item w ?c], ss_maximum_error := m,
          ss_replacements := ss_replacements s + 1\<rparr>) item ?i = (EVOKE_OK, s2)"
        "offer_result s item w (evoke_weighted_space_saving_heap_down s2 0)"
        using replace_inserts [OF ok w t un False ne T(2-5) m refl, of "ss_replacements s + 1"] by (auto simp: ac_simps)
      show ?thesis
        using look assms cap False T(1) fin s2 by (simp add: def taken_over_def m_def split: if_splits)
    qed
  qed
qed

text \<open>
  C29. One offer, on every well-formed summary: a weight that is not finite or not positive is refused, as is
  one that would make the total infinite, and neither changes anything; every other offer succeeds, never
  runs into the format errors or the later overflow check, never loops while it closes a hole in the
  table, keeps the summary well formed, and changes the map from items to estimates exactly as one step of
  the space-saving algorithm does.
\<close>

theorem space_saving_offer_refines:
  assumes "ss_ok s"
  shows "if \<not> f64_is_finite w \<or> f64_less_eq w 0 then evoke_weighted_space_saving_offer (Some s) item w = Some (EVOKE_ERR_INVALID, Some s)
    else if \<not> f64_is_finite (f64_add (ss_total_weight s) w)
    then evoke_weighted_space_saving_offer (Some s) item w = Some (EVOKE_ERR_RANGE, Some s)
    else \<exists>s'. evoke_weighted_space_saving_offer (Some s) item w = Some (EVOKE_OK, Some s') \<and> ss_ok s' \<and>
      ss_capacity s' = ss_capacity s \<and> ss_total_weight s' = f64_add (ss_total_weight s) w \<and>
      space_saving_step (unat (ss_capacity s)) (summary_map s) item w (summary_map s')"
proof -
  have cap: "ss_capacity s \<noteq> 0" using assms by (auto simp: ss_ok_def table_for_def)
  consider "\<not> f64_is_finite w \<or> f64_less_eq w 0"
    | "f64_is_finite w" "\<not> f64_less_eq w 0" "\<not> f64_is_finite (f64_add (ss_total_weight s) w)"
    | "f64_is_finite w" "\<not> f64_less_eq w 0" "f64_is_finite (f64_add (ss_total_weight s) w)" by blast
  then show ?thesis
  proof cases
    case 3
    then show ?thesis using offer_accepted [OF assms 3] by (simp add: offer_result_def)
  qed (use cap in \<open>auto simp: evoke_weighted_space_saving_offer_def Let_def\<close>)
qed


section \<open>A stream of offers\<close>

text \<open>The sum of weights in the order of their offers, with the rounding of each addition.\<close>

definition f64_sum :: "f64 list \<Rightarrow> f64" where
  "f64_sum = foldl f64_add 0"

lemma f64_sum_running: "f64_sum ws = double_sum.running 0 ws"
  by (simp add: f64_sum_def double_sum.running_def)

definition weights :: "u32 \<Rightarrow> (u32 \<times> f64) list \<Rightarrow> f64 list" where
  "weights item offers = map snd (filter (\<lambda>x. fst x = item) offers)"

lemma weights_snoc [simp]:
  "weights item (xs @ [(i, w)]) = (if i = item then weights item xs @ [w] else weights item xs)"
  by (simp add: weights_def)

lemma f64_sum_snoc [simp]: "f64_sum [] = 0" "f64_sum (ws @ [w]) = f64_add (f64_sum ws) w"
  by (simp_all add: f64_sum_def)

definition weight_ok :: "f64 \<Rightarrow> bool" where
  "weight_ok w \<longleftrightarrow> f64_is_finite w \<and> \<not> f64_less_eq w 0"

text \<open>
  What the estimates say about the offers so far: an estimate is at least the weight of its item, and it is its
  error plus the most recent weights of the item; an item that is not tracked weighs at most the smallest
  estimate.
\<close>

definition tracks :: "nat \<Rightarrow> (u32 \<times> f64) list \<Rightarrow> (u32 \<rightharpoonup> f64 \<times> f64) \<Rightarrow> bool" where
  "tracks capacity xs m \<longleftrightarrow> finite (dom m) \<and>
     (\<forall>item e r. m item = Some (e, r) \<longrightarrow> f64_nonneg e \<and> f64_sum (weights item xs) \<le> e \<and>
        (\<exists>ws. suffix ws (weights item xs) \<and> ws \<noteq> [] \<and> e = foldl f64_add r ws)) \<and>
     (\<forall>item u e r. m item = None \<longrightarrow> m u = Some (e, r) \<longrightarrow> f64_sum (weights item xs) \<le> e) \<and>
     (card (dom m) < capacity \<longrightarrow> (\<forall>item. m item = None \<longrightarrow> weights item xs = []))"

lemma tracksD:
  assumes "tracks capacity xs m"
  shows "finite (dom m)" "m item = Some (e, r) \<Longrightarrow> f64_nonneg e" "m item = Some (e, r) \<Longrightarrow> f64_sum (weights item xs) \<le> e"
    "m item = Some (e, r) \<Longrightarrow> \<exists>ws. suffix ws (weights item xs) \<and> ws \<noteq> [] \<and> e = foldl f64_add r ws"
    "m item = None \<Longrightarrow> m u = Some (e, r) \<Longrightarrow> f64_sum (weights item xs) \<le> e"
    "card (dom m) < capacity \<Longrightarrow> m item = None \<Longrightarrow> weights item xs = []"
  using assms unfolding tracks_def by blast+

lemma weight_ok_num: "weight_ok w \<Longrightarrow> f64_nonneg w"
  by (simp add: weight_ok_def weight_nonneg)

lemma f64_sum_nonneg: "\<forall>w \<in> set ws. weight_ok w \<Longrightarrow> f64_nonneg (f64_sum ws)"
  unfolding f64_sum_running using weight_ok_num
  by (intro double_sum.num_running) (simp_all add: f64_nonneg_def [of 0] INF_MAGNITUDE_def)

lemma weights_ok: "\<forall>x \<in> set xs. weight_ok (snd x) \<Longrightarrow> \<forall>w \<in> set (weights item xs). weight_ok w"
  by (auto simp: weights_def)

lemma tracks_step_tracked:
  assumes t: "tracks capacity xs m" and w: "weight_ok w" and m: "m item = Some (e, r)"
  shows "tracks capacity (xs @ [(item, w)]) (m(item \<mapsto> (f64_add e w, r)))"
proof -
  note D = tracksD [OF t]
  note add = add_below_total [OF _ D(2) [OF m] weight_ok_num [OF w]]
  obtain ws where ws: "suffix ws (weights item xs)" "e = foldl f64_add r ws" using D(4) [OF m] by blast
  have "suffix (ws @ [w]) (weights item xs @ [w]) \<and> ws @ [w] \<noteq> [] \<and> f64_add e w = foldl f64_add r (ws @ [w])"
    using ws by simp
  moreover have "insert item (dom m) = dom m" using m by (auto simp: dom_def)
  moreover have "f64_sum (weights x xs) \<le> f64_add e w" if "m x = None" for x
    using D(5) [OF that m] add(1) [OF order_refl] by (rule order_trans)
  ultimately show ?thesis
    unfolding tracks_def using D add [OF D(3) [OF m]] add(3) [OF order_refl] by (auto simp: fun_upd_apply)
qed

lemma tracks_step_new:
  assumes t: "tracks capacity xs m" and w: "weight_ok w" and m: "m item = None" and room: "card (dom m) < capacity"
  shows "tracks capacity (xs @ [(item, w)]) (m(item \<mapsto> (w, 0)))"
proof -
  note D = tracksD [OF t]
  have w0: "f64_add 0 w = w" using w by (intro add_zero weight_ok_num) (simp_all add: weight_ok_def)
  have one: "f64_sum [w] = w" using w0 by (simp add: f64_sum_def)
  have "weights x xs = []" if "m x = None" for x using D(6) [OF room that] .
  then show ?thesis
    unfolding tracks_def using D m w0 one weight_ok_num [OF w] by (auto simp: fun_upd_apply intro!: exI [of _ "[w]"])
qed

lemma tracks_step_replace:
  assumes t: "tracks capacity xs m" and w: "weight_ok w" and m: "m item = None" and full: "\<not> card (dom m) < capacity"
    and v: "m v = Some (e, r)" and least: "\<forall>u e' r'. m u = Some (e', r') \<longrightarrow> e < e' \<or> (e = e' \<and> u \<le> v)"
  shows "tracks capacity (xs @ [(item, w)]) (m(v := None, item \<mapsto> (f64_add e w, e)))"
proof -
  note D = tracksD [OF t]
  note add = add_below_total [OF _ D(2) [OF v] weight_ok_num [OF w]]
  have ne: "item \<noteq> v" using m v by auto
  have recent: "\<exists>ws. suffix ws (weights item xs @ [w]) \<and> ws \<noteq> [] \<and> f64_add e w = foldl f64_add e ws"
    by (rule exI [of _ "[w]"]) simp
  have le: "e \<le> e'" if "m u = Some (e', r')" for u e' r' using least that by (auto intro: less_imp_le)
  have small: "f64_sum (weights x xs) \<le> e" if "m x = None \<or> x = v" for x using that D(3) [OF v] D(5) [OF _ v] by auto
  have "dom (m(v := None, item \<mapsto> (f64_add e w, e))) = insert item (dom m - {v})" using ne by auto
  moreover have "card (insert item (dom m - {v})) = card (dom m)"
  proof -
    have "v \<in> dom m" "item \<notin> dom m - {v}" using m v by auto
    then show ?thesis using D(1) card_Suc_Diff1 [OF D(1), of v] by simp
  qed
  ultimately have "\<not> card (dom (m(v := None, item \<mapsto> (f64_add e w, e)))) < capacity" using full by simp
  moreover have "f64_sum (weights x xs) \<le> e'" if "m x = None \<or> x = v" "m u = Some (e', r')" for x u e' r'
    using small [OF that(1)] le [OF that(2)] by (rule order_trans)
  moreover have "f64_sum (weights x xs) \<le> f64_add e w" if "m x = None \<or> x = v" for x
    using small [OF that] add(1) [OF order_refl] by (rule order_trans)
  moreover have "f64_add (f64_sum (weights item xs)) w \<le> f64_add e w" using add(2) [OF small [of item]] m by simp
  ultimately show ?thesis
    unfolding tracks_def using D(1-4) m ne add(3) [OF order_refl] recent
    by (auto simp: fun_upd_apply split: if_splits)
qed

lemma tracks_step:
  assumes "tracks capacity xs m" and "weight_ok w" and "space_saving_step capacity m item w m'"
  shows "tracks capacity (xs @ [(item, w)]) m'"
  using assms tracks_step_tracked [OF assms(1,2)] tracks_step_new [OF assms(1,2)] tracks_step_replace [OF assms(1,2)]
  by (auto simp: space_saving_step_def split: option.splits if_splits)


section \<open>Initialising\<close>

lemma unat_double: "unat (x :: u64) \<le> unat (SIZE_MAX div 2) \<Longrightarrow> unat (x * 2) = unat x * 2"
  by (subst unat_mult_lem [THEN iffD1]) (simp_all add: SIZE_MAX_def)

text \<open>The doubling ends with a power of two, or with the range error once no power fits.\<close>

lemma grow_hash_capacity_ends:
  assumes cap: "capacity \<le> SIZE_MAX div 2" and k: "k < 64"
  shows "\<exists>r. grow_hash_capacity capacity (2 ^ k) = Some r \<and>
    (case r of Inl status \<Rightarrow> status = EVOKE_ERR_RANGE \<and> 2 ^ 62 < unat capacity
     | Inr h \<Rightarrow> \<exists>j < 64. h = 2 ^ j \<and> 2 * unat capacity \<le> 2 ^ j)"
  using k
proof (induction "64 - k" arbitrary: k rule: less_induct)
  case less
  let ?h = "2 ^ k :: u64"
  have h: "unat ?h = 2 ^ k" by (rule unat_exp_word [OF less.prems])
  have c2: "unat (capacity * 2) = 2 * unat capacity" using cap unat_double [of capacity] by (simp add: word_le_nat_alt)
  have half: "unat (SIZE_MAX div 2) = 2 ^ 63 - 1" by (simp add: SIZE_MAX_def)
  consider "2 * unat capacity \<le> 2 ^ k" | "2 ^ k < 2 * unat capacity" "k = 63" | "2 ^ k < 2 * unat capacity" "k < 63"
    using less.prems by linarith
  then show ?case
  proof cases
    case 1
    then have "grow_hash_capacity capacity ?h = Some (Inr ?h)"
      by (subst grow_hash_capacity.simps) (simp add: word_less_nat_alt h c2)
    then show ?thesis using 1 less.prems by auto
  next
    case 2
    then have "SIZE_MAX div 2 < ?h" "?h < capacity * 2" unfolding word_less_nat_alt h c2 half by simp_all
    then have "grow_hash_capacity capacity ?h = Some (Inl EVOKE_ERR_RANGE)"
      by (subst grow_hash_capacity.simps) simp
    then show ?thesis using 2 by simp
  next
    case 3
    have "(2 :: nat) ^ k \<le> 2 ^ 62" using 3(2) by (intro power_increasing) simp_all
    then have "\<not> SIZE_MAX div 2 < ?h" "?h < capacity * 2" using 3(1) unfolding word_less_nat_alt h c2 half by simp_all
    then have "grow_hash_capacity capacity ?h = grow_hash_capacity capacity (2 ^ Suc k)"
      by (subst grow_hash_capacity.simps) (simp add: mult.commute)
    then show ?thesis using less.hyps [of "Suc k"] 3(2) by simp
  qed
qed

lemma empty_table_ok: "table_ok (replicate n zero_slot)" "entries (replicate n zero_slot) = {}"
  by (auto simp: table_ok_def occupied_def zero_slot_def entries_def)

lemma init_ok:
  assumes "0 < unat capacity" and "unat capacity \<le> 2 ^ 62"
  shows "\<exists>s. evoke_weighted_space_saving_init True True True (Some s0) capacity = Some (EVOKE_OK, Some s) \<and> ss_ok s \<and>
    ss_counters s = [] \<and> ss_total_weight s = 0 \<and> ss_capacity s = capacity"
proof -
  have cap: "capacity \<le> SIZE_MAX div 2" "capacity \<noteq> 0" "\<not> SIZE_MAX div 2 < capacity"
    using assms by (auto simp: word_le_nat_alt word_less_nat_alt SIZE_MAX_def unat_eq_0)
  obtain r where r: "grow_hash_capacity capacity (2 ^ 3) = Some r"
    "case r of Inl status \<Rightarrow> status = EVOKE_ERR_RANGE \<and> 2 ^ 62 < unat capacity
     | Inr h \<Rightarrow> \<exists>j < 64. h = 2 ^ j \<and> 2 * unat capacity \<le> 2 ^ j"
    using grow_hash_capacity_ends [OF cap(1), of 3] by auto
  then obtain j where j: "grow_hash_capacity capacity 8 = Some (Inr (2 ^ j))" "j < 64" "2 * unat capacity \<le> 2 ^ j"
    using assms(2) by (auto split: sum.splits)
  let ?s = "zero_summary\<lparr>ss_hash_slots := replicate (unat (2 ^ j :: u64)) zero_slot, ss_capacity := capacity, ss_hash_capacity := 2 ^ j\<rparr>"
  have "slots_of (2 ^ j) (2 ^ j)" using j(2) by (auto simp: slots_of_def)
  then have "ss_ok ?s"
    using assms(1) j(2,3) empty_table_ok
    by (simp add: ss_ok_def table_for_def zero_summary_def indexed_def bounded_def INF_MAGNITUDE_def positions_ok_def heap_by_def unat_exp_word)
  then show ?thesis
    using j(1) cap by (auto simp: evoke_weighted_space_saving_init_def zero_summary_def)
qed

section \<open>The guarantees\<close>

text \<open>Offers one after the other, for as long as they succeed.\<close>

fun offers :: "evoke_weighted_space_saving \<Rightarrow> (u32 \<times> f64) list \<Rightarrow> evoke_weighted_space_saving option" where
  "offers s [] = Some s"
| "offers s ((item, w) # xs) =
     (case evoke_weighted_space_saving_offer (Some s) item w of
        Some (EVOKE_OK, Some s') \<Rightarrow> offers s' xs
      | _ \<Rightarrow> None)"

lemma offers_snoc:
  "offers s xs = Some s1 \<Longrightarrow> evoke_weighted_space_saving_offer (Some s1) item w = Some (EVOKE_OK, Some s2) \<Longrightarrow>
     offers s (xs @ [(item, w)]) = Some s2"
  by (induction s xs rule: offers.induct) (auto split: option.splits prod.splits evoke_status.splits)

lemma f64_sum_prefix_finite:
  assumes "\<forall>w \<in> set (ws @ [w']). weight_ok w" and "f64_is_finite (f64_sum (ws @ [w']))"
  shows "f64_is_finite (f64_sum ws)"
proof -
  have n: "f64_nonneg (f64_sum ws)" "f64_nonneg w'" using assms(1) f64_sum_nonneg weight_ok_num by simp_all
  have "f64_nonneg (f64_sum (ws @ [w']))" using assms(1) by (rule f64_sum_nonneg)
  then show ?thesis
    using add_below_total(1) [OF order_refl n] assms(2) f64_nonneg_simps(5) n(1) by (auto simp: word_le_def)
qed

lemma offers_track:
  assumes ok: "ss_ok s" and s: "ss_counters s = []" "ss_total_weight s = 0"
    and "\<forall>x \<in> set xs. weight_ok (snd x)" and "f64_is_finite (f64_sum (map snd xs))"
  shows "\<exists>s'. offers s xs = Some s' \<and> ss_ok s' \<and> ss_capacity s' = ss_capacity s \<and> ss_total_weight s' = f64_sum (map snd xs) \<and>
    tracks (unat (ss_capacity s)) xs (summary_map s')"
  using assms(4,5)
proof (induction xs rule: rev_induct)
  case Nil
  then show ?case using ok s by (simp add: tracks_def weights_def)
next
  case (snoc x xs)
  obtain item w where x: "x = (item, w)" by (cases x)
  have "f64_is_finite (f64_sum (map snd xs))"
    using f64_sum_prefix_finite [of "map snd xs" w] snoc.prems x by auto
  then obtain s1 where s1: "offers s xs = Some s1" "ss_ok s1" "ss_capacity s1 = ss_capacity s"
    "ss_total_weight s1 = f64_sum (map snd xs)" "tracks (unat (ss_capacity s)) xs (summary_map s1)"
    using snoc.IH snoc.prems(1) by auto
  have w: "weight_ok w" using snoc.prems(1) x by simp
  have fin: "f64_is_finite (f64_add (ss_total_weight s1) w)" using snoc.prems(2) x s1(4) by simp
  obtain s2 where s2: "evoke_weighted_space_saving_offer (Some s1) item w = Some (EVOKE_OK, Some s2)" "offer_result s1 item w s2"
    using offer_accepted [OF s1(2) _ _ fin] w by (auto simp: weight_ok_def)
  have "tracks (unat (ss_capacity s)) (xs @ [(item, w)]) (summary_map s2)"
    using tracks_step [OF s1(5) w] s2(2) s1(3) by (simp add: offer_result_def)
  then show ?case using offers_snoc [OF s1(1) s2(1)] s2(2) s1(3,4) x by (auto simp: offer_result_def)
qed

text \<open>
  C28. The guarantees of the summary over every stream of valid weights with a finite total, with the rounding of
  every double addition included. From a fresh summary of any capacity up to \<open>2 ^ 62\<close>: all offers succeed; the
  total is the running sum of the weights; there are at most \<open>capacity\<close> counters; an estimate is at least the
  weight of its item and at most the total; it is its error plus the most recent weights of the item; no
  error exceeds the recorded maximum; and an item without a counter weighs no more than any estimate, so
  every item heavier than the smallest estimate is tracked.
\<close>

theorem space_saving_bounds:
  assumes "0 < unat capacity" and "unat capacity \<le> 2 ^ 62"
    and "\<forall>x \<in> set xs. weight_ok (snd x)" and "f64_is_finite (f64_sum (map snd xs))"
  shows "\<exists>s s'. evoke_weighted_space_saving_init True True True (Some s0) capacity = Some (EVOKE_OK, Some s) \<and>
    offers s xs = Some s' \<and> ss_total_weight s' = f64_sum (map snd xs) \<and> length (ss_counters s') \<le> unat capacity \<and>
    (\<forall>c \<in> set (ss_counters s'). f64_sum (weights (ct_item c) xs) \<le> ct_estimate c \<and> ct_estimate c \<le> ss_total_weight s' \<and>
       (\<exists>ws. suffix ws (weights (ct_item c) xs) \<and> ws \<noteq> [] \<and> ct_estimate c = foldl f64_add (ct_error c) ws) \<and>
       ct_error c \<le> ss_maximum_error s') \<and>
    (\<forall>item. item \<notin> ct_item ` set (ss_counters s') \<longrightarrow>
       (\<forall>c \<in> set (ss_counters s'). f64_sum (weights item xs) \<le> ct_estimate c))"
proof -
  obtain s where s: "evoke_weighted_space_saving_init True True True (Some s0) capacity = Some (EVOKE_OK, Some s)" "ss_ok s"
    "ss_counters s = []" "ss_total_weight s = 0" "ss_capacity s = capacity" using init_ok [OF assms(1,2)] by blast
  obtain s' where s': "offers s xs = Some s'" "ss_ok s'" "ss_capacity s' = capacity" "ss_total_weight s' = f64_sum (map snd xs)"
    "tracks (unat capacity) xs (summary_map s')" using offers_track [OF s(2-4) assms(3,4)] s(5) by auto
  note D = tracksD [OF s'(5)]
  have ok: "length (ss_counters s') \<le> unat capacity" "distinct (map fst (cores s'))"
    "bounded (cores s') (ss_total_weight s') (ss_maximum_error s')"
    using s'(2,3) by (simp_all add: ss_ok_def table_for_def)
  have c: "summary_map s' (ct_item c) = Some (ct_estimate c, ct_error c)" "(ct_item c, ct_estimate c, ct_error c) \<in> set (cores s')"
    if "c \<in> set (ss_counters s')" for c
  proof -
    show mem: "(ct_item c, ct_estimate c, ct_error c) \<in> set (cores s')" using that by (force simp: core_def)
    then show "summary_map s' (ct_item c) = Some (ct_estimate c, ct_error c)" using ok(2) by (simp add: map_of_eq_Some_iff)
  qed
  have none: "summary_map s' item = None" if "item \<notin> ct_item ` set (ss_counters s')" for item
    using that by (auto simp: map_of_eq_None_iff core_def)
  have "\<forall>c \<in> set (ss_counters s'). f64_sum (weights (ct_item c) xs) \<le> ct_estimate c \<and> ct_estimate c \<le> ss_total_weight s' \<and>
       (\<exists>ws. suffix ws (weights (ct_item c) xs) \<and> ws \<noteq> [] \<and> ct_estimate c = foldl f64_add (ct_error c) ws) \<and>
       ct_error c \<le> ss_maximum_error s'"
    using D(3,4) [OF c(1)] bounded_core(1,3) [OF ok(3) c(2)] by blast
  moreover have "\<forall>item. item \<notin> ct_item ` set (ss_counters s') \<longrightarrow>
       (\<forall>c \<in> set (ss_counters s'). f64_sum (weights item xs) \<le> ct_estimate c)"
    using D(5) [OF none c(1)] by blast
  ultimately show ?thesis using s(1) s'(1,4) ok(1) by blast
qed


section \<open>Concrete summaries\<close>

definition sample_summary :: evoke_weighted_space_saving where
  "sample_summary = zero_summary\<lparr>ss_hash_slots := replicate 8 zero_slot, ss_capacity := 2, ss_hash_capacity := 8\<rparr>"

lemma sample_summary_ok: "ss_ok sample_summary"
proof -
  have "slots_of 8 8" unfolding slots_of_def by (rule exI [of _ 3]) simp
  then show ?thesis
    using empty_table_ok [of 8]
    by (simp add: sample_summary_def ss_ok_def table_for_def zero_summary_def indexed_def bounded_def INF_MAGNITUDE_def
        positions_ok_def heap_by_def)
qed

text \<open>The numbers 1 and 2.5 as doubles.\<close>

abbreviation f64_one :: f64 where "f64_one \<equiv> 0x3FF0000000000000"
abbreviation f64_two_and_a_half :: f64 where "f64_two_and_a_half \<equiv> 0x4004000000000000"

theorem space_saving_offer_refines_witness:
  "\<exists>s'. evoke_weighted_space_saving_offer (Some sample_summary) 7 f64_one = Some (EVOKE_OK, Some s') \<and> ss_ok s' \<and>
     ss_total_weight s' = f64_one"
proof -
  have "f64_is_finite f64_one \<and> \<not> f64_less_eq f64_one 0" by code_simp
  moreover have t: "f64_add (ss_total_weight sample_summary) f64_one = f64_one" by code_simp
  ultimately show ?thesis
    using space_saving_offer_refines [OF sample_summary_ok, of f64_one 7] by (simp only: t) auto
qed

text \<open>Capacity one, so that the second item takes over the counter of the first.\<close>

theorem space_saving_bounds_witness:
  "\<exists>s s'. evoke_weighted_space_saving_init True True True (Some zero_summary) 1 = Some (EVOKE_OK, Some s) \<and>
     offers s [(7, f64_one), (8, f64_two_and_a_half)] = Some s' \<and> length (ss_counters s') \<le> 1 \<and>
     (\<forall>c \<in> set (ss_counters s'). f64_sum (weights (ct_item c) [(7, f64_one), (8, f64_two_and_a_half)]) \<le> ct_estimate c)"
proof -
  have w: "\<forall>x \<in> set [(7, f64_one), (8, f64_two_and_a_half)]. weight_ok (snd x)" by code_simp
  have f: "f64_is_finite (f64_sum (map snd [(7 :: u32, f64_one), (8, f64_two_and_a_half)]))" by code_simp
  have "0 < unat (1 :: u64)" "unat (1 :: u64) \<le> 2 ^ 62" by simp_all
  from space_saving_bounds [OF this w f, of zero_summary] show ?thesis by fastforce
qed

end
