(* ===== verification/Scope_Text.thy ===== *)
theory Scope_Text
  imports Prelude
begin

unbundle bit_operations_syntax

text \<open>
  Matching \<open>ILIKE\<close> patterns against the dictionary of a scope column: the fast substring search and the trigram
  filters of \<open>src/evoke_scope.c\<close>, and the trigrams of a pattern and the two tests against the filters in
  \<open>src/evoke_filter.c\<close>. The search is shown to decide the pattern, and the filters to keep every value that
  matches.

  Sizes and offsets inside one value are natural numbers; a value is the list of its bytes.
\<close>

section \<open>Bytes\<close>

abbreviation PERCENT :: u8 where "PERCENT \<equiv> 0x25"
abbreviation UNDERSCORE :: u8 where "UNDERSCORE \<equiv> 0x5F"
abbreviation BACKSLASH :: u8 where "BACKSLASH \<equiv> 0x5C"

definition EVOKE_SCOPE_GRAM_FILTER_BYTES :: nat where "EVOKE_SCOPE_GRAM_FILTER_BYTES = 1024"

definition evoke_scope_ascii_lower :: "u8 \<Rightarrow> u8" where
  "evoke_scope_ascii_lower value = (if 0x41 \<le> value \<and> value \<le> 0x5A then value + (0x61 - 0x41) else value)"

definition evoke_scope_ascii_gram_bit :: "u8 \<Rightarrow> u8 \<Rightarrow> u8 \<Rightarrow> u32" where
  "evoke_scope_ascii_gram_bit first second third =
     (let hash = foldl (\<lambda>hash b. (hash XOR ucast (evoke_scope_ascii_lower b)) * 16777619)
                   (2166136261 :: u32) [first, second, third]
      in hash mod (1024 * 8))"

section \<open>The fast path of a contains pattern\<close>

text \<open>\<open>Some literal\<close> when the pattern is accepted; the output cells must not be null for that.\<close>

definition evoke_scope_ascii_ilike_contains_pattern :: "bytes option \<Rightarrow> bool \<Rightarrow> bytes option" where
  "evoke_scope_ascii_ilike_contains_pattern pattern outputs =
     (case pattern of
        None \<Rightarrow> None
      | Some p \<Rightarrow>
          if length p < 2 \<or> \<not> outputs \<or> p ! 0 \<noteq> PERCENT \<or> p ! (length p - 1) \<noteq> PERCENT then None
          else if \<exists>v \<in> set (take (length p - 2) (drop 1 p)). v \<ge> 0x80 \<or> v = PERCENT \<or> v = UNDERSCORE \<or> v = BACKSLASH then None
          else Some (take (length p - 2) (drop 1 p)))"

text \<open>The check of a value eight bytes at a time, and of the bytes left over.\<close>

definition HIGH_BITS :: u64 where "HIGH_BITS = (SIZE_MAX div 255) * 0x80"

function words_ascii :: "bytes \<Rightarrow> nat \<Rightarrow> bool" where
  "words_ascii value offset =
     (if offset + 8 \<le> length value
      then if evoke_read_u64_le value offset AND HIGH_BITS \<noteq> 0 then False else words_ascii value (offset + 8)
      else True)"
  by pat_completeness auto
termination
  by (relation "measure (\<lambda>(value, offset). length value - offset)") auto

declare words_ascii.simps [simp del]

definition bytes_ascii :: "bytes \<Rightarrow> nat \<Rightarrow> bool" where
  "bytes_ascii value offset \<longleftrightarrow> (\<forall>b \<in> set (drop offset value). \<not> b \<ge> 0x80)"

text \<open>\<open>memchr\<close> from a position over a number of bytes.\<close>

definition memchr_from :: "bytes \<Rightarrow> nat \<Rightarrow> u8 \<Rightarrow> nat \<Rightarrow> nat option" where
  "memchr_from value cursor b n = find (\<lambda>i. value ! i = b) [cursor..<cursor + n]"

definition literal_at :: "bytes \<Rightarrow> bytes \<Rightarrow> nat \<Rightarrow> bool" where
  "literal_at value literal start \<longleftrightarrow>
     (\<forall>offset \<in> set [1..<length literal].
        evoke_scope_ascii_lower (value ! (start + offset)) = evoke_scope_ascii_lower (literal ! offset))"

definition next_start :: "bytes \<Rightarrow> u8 \<Rightarrow> u8 \<Rightarrow> nat \<Rightarrow> nat \<Rightarrow> nat option" where
  "next_start value first_lower first_upper cursor searchable =
     (let lower_match = memchr_from value cursor first_lower searchable;
          upper_match = (if first_upper = first_lower then None else memchr_from value cursor first_upper searchable)
      in case lower_match of
           None \<Rightarrow> upper_match
         | Some l \<Rightarrow> (case upper_match of None \<Rightarrow> Some l | Some u \<Rightarrow> if l < u then Some l else Some u))"

lemma memchr_from_range: "memchr_from value cursor b n = Some i \<Longrightarrow> cursor \<le> i \<and> i < cursor + n"
  by (auto simp: memchr_from_def find_Some_iff)

lemma next_start_range: "next_start value a b cursor n = Some i \<Longrightarrow> cursor \<le> i \<and> i < cursor + n"
  by (auto simp: next_start_def Let_def split: option.splits if_splits dest!: memchr_from_range)

function contains_loop :: "bytes \<Rightarrow> bytes \<Rightarrow> u8 \<Rightarrow> u8 \<Rightarrow> nat \<Rightarrow> bool" where
  "contains_loop value literal first_lower first_upper cursor =
     (if cursor + length literal \<le> length value
      then
        let remaining = length value - cursor;
            searchable = remaining - length literal + 1
        in case next_start value first_lower first_upper cursor searchable of
             None \<Rightarrow> False
           | Some start \<Rightarrow>
               if literal_at value literal start then True
               else contains_loop value literal first_lower first_upper (start + 1)
      else False)"
  by pat_completeness auto
termination
  by (relation "measure (\<lambda>(value, _, _, _, cursor). length value + 1 - cursor)") (auto dest!: next_start_range)

declare contains_loop.simps [simp del]

text \<open>
  \<open>None\<close> is the result \<open>false\<close> (not handled); \<open>Some m\<close> the result \<open>true\<close> with \<open>m\<close> in the output cell. A null pointer
  with a size that is not zero is \<open>None\<close>, a null pointer with size zero \<open>Some []\<close>.
\<close>

definition evoke_scope_ascii_case_insensitive_contains :: "bytes option \<Rightarrow> bytes option \<Rightarrow> bool \<Rightarrow> bool option" where
  "evoke_scope_ascii_case_insensitive_contains value literal output =
     (case (value, literal) of
        (Some value, Some literal) \<Rightarrow>
          if \<not> output then None
          else if \<not> words_ascii value 0 \<or> \<not> bytes_ascii value (length value - length value mod 8) \<or> \<not> bytes_ascii literal 0 then None
          else if length literal = 0 \<or> length literal > length value then Some (length literal = 0)
          else
            let first_lower = evoke_scope_ascii_lower (literal ! 0);
                first_upper = (if 0x61 \<le> first_lower \<and> first_lower \<le> 0x7A then first_lower - (0x61 - 0x41) else first_lower)
            in Some (contains_loop value literal first_lower first_upper 0)
      | _ \<Rightarrow> None)"

section \<open>The trigrams of a value\<close>

text \<open>The loop over the trigrams: the filter of the block and the mask of the value.\<close>

fun add_grams_loop :: "bytes \<Rightarrow> bytes \<Rightarrow> u32 \<Rightarrow> bytes \<times> u32" where
  "add_grams_loop (a # b # c # rest) filter_bytes value_mask =
     (let gram = evoke_scope_ascii_gram_bit a b c;
          index = unat (gram div 8)
      in add_grams_loop (b # c # rest)
           (filter_bytes[index := filter_bytes ! index OR push_bit (unat (gram mod 8)) 1])
           (value_mask OR push_bit (unat (gram mod 32)) 1))"
| "add_grams_loop _ filter_bytes value_mask = (filter_bytes, value_mask)"

text \<open>The filter is the block's 1024 bytes or null; the last argument is the content of the mask cell, or null.\<close>

definition evoke_scope_add_value_grams ::
  "bytes option \<Rightarrow> bytes option \<Rightarrow> bool \<Rightarrow> u32 option \<Rightarrow> bytes option \<times> u32 option" where
  "evoke_scope_add_value_grams filter_bytes value collation_folded value_mask_out =
     (if value_mask_out = None then (filter_bytes, None)
      else
        case (filter_bytes, value) of
          (Some f, Some v) \<Rightarrow>
            if length v < 3 then (Some f, Some 0)
            else if \<not> (\<forall>b \<in> set v. \<not> b \<ge> 0x80) \<and> \<not> collation_folded
            then (Some (replicate EVOKE_SCOPE_GRAM_FILTER_BYTES 0xFF @ drop EVOKE_SCOPE_GRAM_FILTER_BYTES f), Some UINT32_MAX)
            else (case add_grams_loop v f 0 of (f, value_mask) \<Rightarrow> (Some f, Some value_mask))
        | _ \<Rightarrow> (filter_bytes, Some 0))"

section \<open>The trigrams of a pattern\<close>

definition EVOKE_FILTER_SCOPE_PATTERN_GRAMS :: nat where "EVOKE_FILTER_SCOPE_PATTERN_GRAMS = 8"

record evoke_filter_scope_pattern_grams =
  pg_bits :: "u16 list"
  pg_value_mask :: u32

definition zero_grams :: evoke_filter_scope_pattern_grams where
  "zero_grams = \<lparr>pg_bits = [], pg_value_mask = 0\<rparr>"

text \<open>What the loop does with a literal byte: the trigram it completes, if any.\<close>

definition add_pattern_gram ::
  "u8 \<Rightarrow> u8 \<Rightarrow> u8 \<Rightarrow> nat \<Rightarrow> evoke_filter_scope_pattern_grams \<Rightarrow> evoke_filter_scope_pattern_grams" where
  "add_pattern_gram previous0 previous1 value literal_size grams =
     (if literal_size \<ge> 2 then
        let gram = ucast (evoke_scope_ascii_gram_bit previous0 previous1 value) :: u16
        in if gram \<notin> set (pg_bits grams) \<and> length (pg_bits grams) < EVOKE_FILTER_SCOPE_PATTERN_GRAMS
           then grams\<lparr>pg_bits := pg_bits grams @ [gram],
                      pg_value_mask := pg_value_mask grams OR push_bit (unat (gram mod 32)) 1\<rparr>
           else grams
      else grams)"

fun pattern_grams_loop ::
  "bytes \<Rightarrow> u8 \<Rightarrow> u8 \<Rightarrow> nat \<Rightarrow> evoke_filter_scope_pattern_grams \<Rightarrow> evoke_filter_scope_pattern_grams" where
  "pattern_grams_loop [] previous0 previous1 literal_size grams = grams"
| "pattern_grams_loop (value # rest) previous0 previous1 literal_size grams =
     (if value = BACKSLASH then
        (case rest of
           [] \<Rightarrow> grams
         | value # rest \<Rightarrow>
             if value \<ge> 0x80 then pattern_grams_loop rest previous0 previous1 0 grams
             else pattern_grams_loop rest (if literal_size = 0 then value else previous1) value (literal_size + 1)
                    (add_pattern_gram previous0 previous1 value literal_size grams))
      else if value = PERCENT \<or> value = UNDERSCORE \<or> value \<ge> 0x80
      then pattern_grams_loop rest previous0 previous1 0 grams
      else pattern_grams_loop rest (if literal_size = 0 then value else previous1) value (literal_size + 1)
             (add_pattern_gram previous0 previous1 value literal_size grams))"

definition evoke_filter_scope_pattern_grams_build :: "bytes \<Rightarrow> bool \<times> evoke_filter_scope_pattern_grams" where
  "evoke_filter_scope_pattern_grams_build pattern =
     (let grams = pattern_grams_loop pattern 0 0 0 zero_grams in (length (pg_bits grams) > 0, grams))"

text \<open>The loop over the patterns that tests the mask of a value.\<close>

definition gram_mask_matches :: "u32 \<Rightarrow> evoke_filter_scope_pattern_grams list \<Rightarrow> bool" where
  "gram_mask_matches gram_mask patterns \<longleftrightarrow>
     (\<exists>p \<in> set patterns. gram_mask AND pg_value_mask p = pg_value_mask p)"

text \<open>The loops over the patterns and their trigrams that test the filter of a block.\<close>

definition gram_filter_matches :: "bytes \<Rightarrow> evoke_filter_scope_pattern_grams list \<Rightarrow> bool" where
  "gram_filter_matches filter_bytes patterns \<longleftrightarrow>
     (\<exists>p \<in> set patterns. \<forall>gram \<in> set (pg_bits p).
        \<not> (filter_bytes ! unat (gram div 8) AND push_bit (unat (gram mod 8)) 1 = 0))"

section \<open>The meaning of a pattern\<close>

text \<open>
  \<open>ILIKE\<close> on bytes, with letters compared in lower case: \<open>%\<close> stands for any bytes, \<open>_\<close> for the bytes of one character,
  of which there is at least one, a backslash for the byte behind it. A value with other case mappings is
  folded before it is compared.
\<close>

fun like_match :: "bytes \<Rightarrow> bytes \<Rightarrow> bool" where
  "like_match [] value = (value = [])"
| "like_match (p # ps) value =
     (if p = PERCENT then (\<exists>i \<in> set [0..<length value + 1]. like_match ps (drop i value))
      else if p = UNDERSCORE then (\<exists>i \<in> set [1..<length value + 1]. like_match ps (drop i value))
      else if p = BACKSLASH
      then (case ps of
              [] \<Rightarrow> False
            | q # qs \<Rightarrow> (case value of [] \<Rightarrow> False
                         | v # vs \<Rightarrow> evoke_scope_ascii_lower v = evoke_scope_ascii_lower q \<and> like_match qs vs))
      else (case value of [] \<Rightarrow> False
            | v # vs \<Rightarrow> evoke_scope_ascii_lower v = evoke_scope_ascii_lower p \<and> like_match ps vs))"


section \<open>Checking for ASCII\<close>

lemma byte_high: "(b :: u8) \<ge> 0x80 \<longleftrightarrow> bit b 7"
proof -
  have "bit b 7 \<longleftrightarrow> bit (uint b) 7" by (simp add: bit_uint_iff)
  also have "\<dots> \<longleftrightarrow> odd (uint b div 128)" by (simp add: bit_iff_odd)
  also have "\<dots> \<longleftrightarrow> 128 \<le> uint b"
  proof -
    have "0 \<le> uint b" "uint b < 256" using uint_bounded [of b] by simp_all
    then have "uint b div 128 = (if 128 \<le> uint b then 1 else 0)" by auto
    then show ?thesis by simp
  qed
  finally show ?thesis by (simp add: word_le_def)
qed

lemma bit_byte_at: "k < 8 \<Longrightarrow>
   bit (push_bit (k * 8) (ucast b :: u64)) n \<longleftrightarrow> k * 8 \<le> n \<and> n < k * 8 + 8 \<and> bit (b :: u8) (n - k * 8)"
  using bit_imp_le_length [of b "n - k * 8"] by (auto simp: bit_push_bit_iff bit_ucast_iff)

lemma bit_bytes_join:
  "k \<le> 8 \<Longrightarrow> bit (foldl (\<lambda>value i. value OR push_bit (i * 8) (ucast (src ! (off + i)))) (0 :: u64) [0..<k]) n \<longleftrightarrow>
     n < 8 * k \<and> bit (src ! (off + n div 8) :: u8) (n mod 8)"
proof (induction k)
  case (Suc k)
  consider "n < 8 * k" | "8 * k \<le> n" "n < 8 * k + 8" | "8 * k + 8 \<le> n" by linarith
  then show ?case
  proof cases
    case 2
    then have "n div 8 = k" "n mod 8 = n - k * 8" by (simp_all add: div_nat_eqI modulo_nat_def)
    then show ?thesis using 2 Suc bit_byte_at [of k "src ! (off + k)" n] by (simp add: bit_or_iff)
  qed (use Suc bit_byte_at [of k "src ! (off + k)" n] in \<open>simp_all add: bit_or_iff\<close>)
qed simp

lemma bit_read_u64: "bit (evoke_read_u64_le src off) n \<longleftrightarrow> n < 64 \<and> bit (src ! (off + n div 8)) (n mod 8)"
  unfolding evoke_read_u64_le_def using bit_bytes_join [of 8 src off n] by simp

lemma HIGH_BITS_bits: "n < 64 \<Longrightarrow> bit HIGH_BITS n \<longleftrightarrow> n mod 8 = 7"
proof -
  have "\<forall>n \<in> set [0..<64]. bit HIGH_BITS n \<longleftrightarrow> n mod 8 = 7" by code_simp
  then show "n < 64 \<Longrightarrow> bit HIGH_BITS n \<longleftrightarrow> n mod 8 = 7" by simp
qed

lemma word_high_bits:
  "evoke_read_u64_le src off AND HIGH_BITS = 0 \<longleftrightarrow> (\<forall>i < 8. \<not> src ! (off + i) \<ge> 0x80)"
proof -
  have "evoke_read_u64_le src off AND HIGH_BITS = 0 \<longleftrightarrow> (\<forall>n < 64. n mod 8 = 7 \<longrightarrow> \<not> bit (src ! (off + n div 8)) (n mod 8))"
    by (auto simp: bit_eq_iff bit_and_iff bit_read_u64 HIGH_BITS_bits)
  also have "\<dots> \<longleftrightarrow> (\<forall>i < 8. \<not> bit (src ! (off + i)) 7)"
  proof
    assume *: "\<forall>n < 64. n mod 8 = 7 \<longrightarrow> \<not> bit (src ! (off + n div 8)) (n mod 8)"
    show "\<forall>i < 8. \<not> bit (src ! (off + i)) 7"
    proof (intro allI impI)
      fix i :: nat assume "i < 8"
      then show "\<not> bit (src ! (off + i)) 7" using * [rule_format, of "8 * i + 7"] by simp
    qed
  qed auto
  finally show ?thesis by (simp add: byte_high)
qed

lemma all_shifted: "(\<forall>i < n. P (off + i)) \<longleftrightarrow> (\<forall>i. off \<le> i \<longrightarrow> i < off + n \<longrightarrow> P i)" for off :: nat
proof
  assume *: "\<forall>i < n. P (off + i)"
  show "\<forall>i. off \<le> i \<longrightarrow> i < off + n \<longrightarrow> P i"
  proof (intro allI impI)
    fix i assume "off \<le> i" "i < off + n"
    then show "P i" using * [rule_format, of "i - off"] by simp
  qed
qed simp

lemma words_ascii_iff:
  "off \<le> length v \<Longrightarrow> words_ascii v off \<longleftrightarrow> (\<forall>i. off \<le> i \<longrightarrow> i < length v - (length v - off) mod 8 \<longrightarrow> \<not> v ! i \<ge> 0x80)"
proof (induction v off rule: words_ascii.induct)
  case (1 v off)
  show ?case
  proof (cases "off + 8 \<le> length v")
    case False
    then have "(length v - off) mod 8 = length v - off" using "1.prems" by simp
    then show ?thesis using False "1.prems" by (subst words_ascii.simps) auto
  next
    case True
    have m: "(length v - (off + 8)) mod 8 = (length v - off) mod 8"
    proof -
      obtain c where "length v = off + 8 + c" using True le_Suc_ex by blast
      then show ?thesis by simp
    qed
    have "(length v - off) mod 8 \<le> length v - (off + 8)"
      using m mod_less_eq_dividend [of "length v - (off + 8)" 8] by simp
    then have room: "off + 8 \<le> length v - (length v - off) mod 8" using True by linarith
    let ?stop = "length v - (length v - off) mod 8"
    have step: "words_ascii v off \<longleftrightarrow> (\<forall>i < 8. \<not> v ! (off + i) \<ge> 0x80) \<and> words_ascii v (off + 8)"
      using True by (subst words_ascii.simps) (simp add: word_high_bits)
    have "words_ascii v (off + 8) \<longleftrightarrow> (\<forall>i. off + 8 \<le> i \<longrightarrow> i < ?stop \<longrightarrow> \<not> v ! i \<ge> 0x80)"
      if "\<forall>i < 8. \<not> v ! (off + i) \<ge> 0x80"
      using "1.IH" True that word_high_bits [of v off] m by simp
    moreover have "(\<forall>i < 8. \<not> v ! (off + i) \<ge> 0x80) \<longleftrightarrow> (\<forall>i. off \<le> i \<longrightarrow> i < off + 8 \<longrightarrow> \<not> v ! i \<ge> 0x80)"
      by (rule all_shifted)
    moreover have "i < off + 8 \<or> off + 8 \<le> i" "i < off + 8 \<longrightarrow> i < ?stop" "off + 8 \<le> i \<longrightarrow> off \<le> i" for i
      using room by linarith+
    ultimately show ?thesis unfolding step by blast
  qed
qed

lemma ascii_check:
  "words_ascii v 0 \<and> bytes_ascii v (length v - length v mod 8) \<longleftrightarrow> (\<forall>b \<in> set v. \<not> b \<ge> 0x80)"
proof -
  have "words_ascii v 0 \<longleftrightarrow> (\<forall>b \<in> set (take (length v - length v mod 8) v). \<not> b \<ge> 0x80)"
    by (simp add: words_ascii_iff all_set_conv_all_nth)
  moreover have "set v = set (take (length v - length v mod 8) v) \<union> set (drop (length v - length v mod 8) v)"
    by (metis append_take_drop_id set_append)
  ultimately show ?thesis unfolding bytes_ascii_def by blast
qed


section \<open>The search\<close>

lemma lower_cases:
  fixes x y :: u8
  defines "lo \<equiv> evoke_scope_ascii_lower y"
  shows "evoke_scope_ascii_lower x = lo \<longleftrightarrow>
     x = lo \<or> x = (if 0x61 \<le> lo \<and> lo \<le> 0x7A then lo - (0x61 - 0x41) else lo)"
proof -
  have up: "unat (z + 0x20) = unat z + 32" if "unat z < 224" for z :: u8
    using that by (simp add: unat_word_ariths)
  have down: "unat (z - 0x20) = unat z - 32" if "32 \<le> unat z" for z :: u8
    using that by (simp add: unat_sub word_le_nat_alt)
  show ?thesis unfolding lo_def evoke_scope_ascii_lower_def
    by (auto simp: word_le_nat_alt word_unat_eq_iff up down split: if_splits)
qed

lemma find_upt_Some: "find P [a..<a + n] = Some i \<Longrightarrow> a \<le> i \<and> i < a + n \<and> P i \<and> (\<forall>j. a \<le> j \<longrightarrow> j < i \<longrightarrow> \<not> P j)"
proof -
  assume "find P [a..<a + n] = Some i"
  then obtain k where "k < n" "i = a + k" "P (a + k)" "\<forall>j < k. \<not> P (a + j)"
    by (auto simp: find_Some_iff simp del: upt_Suc)
  then show ?thesis using all_shifted [of k "\<lambda>j. \<not> P j" a] by auto
qed

lemma find_either: "find (\<lambda>i. P i \<or> Q i) [a..<a + n] =
   (case find P [a..<a + n] of
      None \<Rightarrow> find Q [a..<a + n]
    | Some l \<Rightarrow> (case find Q [a..<a + n] of None \<Rightarrow> Some l | Some u \<Rightarrow> if l < u then Some l else Some u))"
proof (induction n arbitrary: a)
  case (Suc n)
  have "[a..<a + Suc n] = a # [Suc a..<Suc a + n]" by (simp add: upt_conv_Cons del: upt_Suc)
  moreover have later: "a < i" if "find R [Suc a..<Suc (a + n)] = Some i" for R i
    using find_upt_Some [of R "Suc a" n i] that by simp
  ultimately show ?case using Suc.IH [of "Suc a"]
    by (auto simp del: upt_Suc split: option.splits dest: later)
qed simp

lemma next_start_find:
  assumes "first_lower = evoke_scope_ascii_lower y"
    and "first_upper = (if 0x61 \<le> first_lower \<and> first_lower \<le> 0x7A then first_lower - (0x61 - 0x41) else first_lower)"
  shows "next_start value first_lower first_upper cursor n =
    find (\<lambda>i. evoke_scope_ascii_lower (value ! i) = evoke_scope_ascii_lower y) [cursor..<cursor + n]"
proof -
  have "evoke_scope_ascii_lower x = evoke_scope_ascii_lower y \<longleftrightarrow> x = first_lower \<or> x = first_upper" for x
    using lower_cases [of x y] assms by simp
  then show ?thesis
    by (simp add: next_start_def Let_def memchr_from_def find_either split: option.splits)
qed

definition occurs_at :: "bytes \<Rightarrow> bytes \<Rightarrow> nat \<Rightarrow> bool" where
  "occurs_at literal value start \<longleftrightarrow>
     start + length literal \<le> length value \<and>
     map evoke_scope_ascii_lower (take (length literal) (drop start value)) = map evoke_scope_ascii_lower literal"

lemma occurs_at_nth:
  assumes "lit \<noteq> []" "start + length lit \<le> length v"
  shows "occurs_at lit v start \<longleftrightarrow>
     evoke_scope_ascii_lower (v ! start) = evoke_scope_ascii_lower (lit ! 0) \<and> literal_at v lit start"
proof -
  have "length (take (length lit) (drop start v)) = length lit" using assms by simp
  then have "occurs_at lit v start \<longleftrightarrow>
      (\<forall>i < length lit. evoke_scope_ascii_lower (take (length lit) (drop start v) ! i) = evoke_scope_ascii_lower (lit ! i))"
    using assms(2) unfolding occurs_at_def list_eq_iff_nth_eq [of "map _ _"] by (simp del: nth_take nth_drop)
  also have "\<dots> \<longleftrightarrow> (\<forall>i < length lit. evoke_scope_ascii_lower (v ! (start + i)) = evoke_scope_ascii_lower (lit ! i))"
    using assms(2) by simp
  also have "\<dots> \<longleftrightarrow> (\<forall>i. i = 0 \<or> i \<in> set [1..<length lit] \<longrightarrow> evoke_scope_ascii_lower (v ! (start + i)) = evoke_scope_ascii_lower (lit ! i))"
  proof -
    have "i < length lit \<longleftrightarrow> i = 0 \<or> i \<in> set [1..<length lit]" for i
      using assms(1) by (cases lit) auto
    then show ?thesis by blast
  qed
  finally show ?thesis unfolding literal_at_def by force
qed

lemma occurs_at_trivial:
  "lit = [] \<or> length v < length lit \<Longrightarrow> (\<exists>start. occurs_at lit v start) \<longleftrightarrow> lit = []"
  by (auto simp: occurs_at_def)

lemma contains_loop_iff:
  assumes "lit \<noteq> []" "first_lower = evoke_scope_ascii_lower (lit ! 0)"
    and "first_upper = (if 0x61 \<le> first_lower \<and> first_lower \<le> 0x7A then first_lower - (0x61 - 0x41) else first_lower)"
  shows "contains_loop v lit first_lower first_upper cursor \<longleftrightarrow> (\<exists>start \<ge> cursor. occurs_at lit v start)"
  using assms
proof (induction v lit first_lower first_upper cursor rule: contains_loop.induct)
  case (1 v lit first_lower first_upper cursor)
  let ?hit = "\<lambda>i. evoke_scope_ascii_lower (v ! i) = evoke_scope_ascii_lower (lit ! 0)"
  let ?n = "length v - cursor - length lit + 1"
  note first = next_start_find [OF "1.prems"(2,3), of v cursor ?n]
  show ?case
  proof (cases "cursor + length lit \<le> length v")
    case False
    then show ?thesis by (subst contains_loop.simps) (auto simp: occurs_at_def)
  next
    case True
    have hit: "?hit start \<and> start < cursor + ?n" if "cursor \<le> start" "occurs_at lit v start" for start
      using that "1.prems"(1) occurs_at_nth [of lit start v] by (auto simp: occurs_at_def)
    show ?thesis
    proof (cases "next_start v first_lower first_upper cursor ?n")
      case None
      then have "\<not> ?hit i" if "cursor \<le> i" "i < cursor + ?n" for i
        using that first find_None_iff [of ?hit "[cursor..<cursor + ?n]"] by (simp del: upt_Suc)
      then have "\<not> occurs_at lit v start" if "cursor \<le> start" for start using hit that by blast
      then show ?thesis using True None
        by (subst contains_loop.simps) (simp add: Let_def)
    next
      case (Some start)
      have found: "find ?hit [cursor..<cursor + ?n] = Some start" using first Some by simp
      have at: "cursor \<le> start" "start < cursor + ?n" "?hit start"
        and before: "\<And>i. cursor \<le> i \<Longrightarrow> i < start \<Longrightarrow> \<not> ?hit i"
        using find_upt_Some [OF found] by blast+
      have here: "occurs_at lit v start \<longleftrightarrow> literal_at v lit start"
        using occurs_at_nth [of lit start v] at True "1.prems"(1) by simp
      have "(\<exists>s \<ge> cursor. occurs_at lit v s) \<longleftrightarrow> literal_at v lit start \<or> (\<exists>s \<ge> start + 1. occurs_at lit v s)"
      proof -
        have "start \<le> s" if "cursor \<le> s" "occurs_at lit v s" for s
          using before hit that by (meson not_le)
        then show ?thesis using here at(1) by (metis Suc_eq_plus1 Suc_leI le_neq_implies_less le_trans add_leE)
      qed
      then show ?thesis using "1.IH" [OF True refl refl Some] "1.prems" True Some
        by (subst contains_loop.simps) (simp add: Let_def)
    qed
  qed
qed


section \<open>What a pattern of the fast path means\<close>

lemma like_match_literal:
  "\<forall>b \<in> set lit. b \<noteq> PERCENT \<and> b \<noteq> UNDERSCORE \<and> b \<noteq> BACKSLASH \<Longrightarrow>
   like_match (lit @ ps) v \<longleftrightarrow> occurs_at lit v 0 \<and> like_match ps (drop (length lit) v)"
proof (induction lit arbitrary: v)
  case (Cons b lit)
  then show ?case by (cases v) (auto simp: occurs_at_def)
qed (simp add: occurs_at_def)

lemma like_match_all: "like_match [PERCENT] v"
  by (auto intro!: bexI [of _ "length v"])

lemma like_match_contains:
  assumes "\<forall>b \<in> set lit. b \<noteq> PERCENT \<and> b \<noteq> UNDERSCORE \<and> b \<noteq> BACKSLASH"
  shows "like_match (PERCENT # lit @ [PERCENT]) v \<longleftrightarrow> (\<exists>start. occurs_at lit v start)"
proof -
  have "like_match (lit @ [PERCENT]) (drop i v) \<longleftrightarrow> occurs_at lit v i" if "i \<le> length v" for i
    using that like_match_literal [OF assms] like_match_all by (auto simp: occurs_at_def simp del: like_match.simps)
  moreover have "start \<le> length v" if "occurs_at lit v start" for start
    using that by (simp add: occurs_at_def)
  ultimately show ?thesis by (auto simp: less_Suc_eq_le simp del: upt_Suc)
qed

lemma contains_pattern_shape:
  assumes "evoke_scope_ascii_ilike_contains_pattern (Some p) outputs = Some lit"
  shows "p = PERCENT # lit @ [PERCENT]"
    and "\<forall>b \<in> set lit. b < 0x80 \<and> b \<noteq> PERCENT \<and> b \<noteq> UNDERSCORE \<and> b \<noteq> BACKSLASH"
proof -
  have p: "2 \<le> length p" "p ! 0 = PERCENT" "p ! (length p - 1) = PERCENT" "lit = take (length p - 2) (drop 1 p)"
    and b: "\<forall>v \<in> set (take (length p - 2) (drop 1 p)). \<not> (v \<ge> 0x80 \<or> v = PERCENT \<or> v = UNDERSCORE \<or> v = BACKSLASH)"
    using assms by (auto simp: evoke_scope_ascii_ilike_contains_pattern_def split: if_splits)
  obtain q where q: "p = PERCENT # q" "q \<noteq> []" using p(1,2) by (cases p) fastforce+
  moreover have "q = butlast q @ [last q]" using q(2) by simp
  moreover have "last q = PERCENT" using p(3) q by (simp add: last_conv_nth nth_Cons')
  moreover have "lit = butlast q" using p(4) q by (simp add: butlast_conv_take)
  ultimately show "p = PERCENT # lit @ [PERCENT]" by metis
  show "\<forall>b \<in> set lit. b < 0x80 \<and> b \<noteq> PERCENT \<and> b \<noteq> UNDERSCORE \<and> b \<noteq> BACKSLASH"
    unfolding p(4) using b not_le by blast
qed

text \<open>
  C33. The fast path of a contains pattern decides \<open>ILIKE\<close>: when a pattern is accepted as \<open>%literal%\<close>, the search for the
  literal returns for every ASCII value exactly whether the value matches the pattern, and for every other
  value it reports that it cannot tell.
\<close>

theorem scope_contains_decides_like:
  assumes "evoke_scope_ascii_ilike_contains_pattern (Some p) True = Some lit"
  shows "evoke_scope_ascii_case_insensitive_contains (Some v) (Some lit) True =
    (if \<forall>b \<in> set v. b < 0x80 then Some (like_match p v) else None)"
proof -
  note shape = contains_pattern_shape [OF assms]
  have means: "like_match p v \<longleftrightarrow> (\<exists>start. occurs_at lit v start)"
    using like_match_contains [of lit v] shape by simp
  have lit: "bytes_ascii lit 0" unfolding bytes_ascii_def drop_0 using shape(2) not_le by blast
  have ascii: "words_ascii v 0 \<and> bytes_ascii v (length v - length v mod 8) \<longleftrightarrow> (\<forall>b \<in> set v. b < 0x80)"
    unfolding ascii_check by (simp add: not_le)
  show ?thesis
  proof (cases "\<forall>b \<in> set v. b < 0x80")
    case False
    then show ?thesis using ascii by (auto simp: evoke_scope_ascii_case_insensitive_contains_def)
  next
    case True
    then have "evoke_scope_ascii_case_insensitive_contains (Some v) (Some lit) True = Some (\<exists>start. occurs_at lit v start)"
      using ascii lit occurs_at_trivial [of lit v] contains_loop_iff [of lit _ _ v 0]
      by (simp add: evoke_scope_ascii_case_insensitive_contains_def Let_def)
    then show ?thesis using True means by simp
  qed
qed

theorem scope_contains_decides_like_witness:
  "evoke_scope_ascii_case_insensitive_contains (Some [0x58, 0x41, 0x62]) (Some [0x61, 0x42]) True =
     Some (like_match [PERCENT, 0x61, 0x42, PERCENT] [0x58, 0x41, 0x62])"
proof -
  have "evoke_scope_ascii_ilike_contains_pattern (Some [PERCENT, 0x61, 0x42, PERCENT]) True = Some [0x61, 0x42]"
    by code_simp
  from scope_contains_decides_like [OF this, of "[0x58, 0x41, 0x62]"] show ?thesis by simp
qed


section \<open>The trigrams of a value cover those of a pattern it matches\<close>

definition gram_at :: "bytes \<Rightarrow> nat \<Rightarrow> u32" where
  "gram_at v i = evoke_scope_ascii_gram_bit (v ! i) (v ! (i + 1)) (v ! (i + 2))"

definition gram_of :: "bytes \<Rightarrow> u16 \<Rightarrow> bool" where
  "gram_of v gram \<longleftrightarrow> (\<exists>i. i + 2 < length v \<and> gram = ucast (gram_at v i))"

definition in_filter :: "bytes \<Rightarrow> u16 \<Rightarrow> bool" where
  "in_filter f gram \<longleftrightarrow> bit (f ! unat (gram div 8)) (unat (gram mod 8))"

lemma gram_bit_less: "unat (evoke_scope_ascii_gram_bit a b c) < 8192"
proof -
  have "unat (x mod 8192 :: u32) < 8192" for x by (simp add: unat_mod)
  then show ?thesis by (simp add: evoke_scope_ascii_gram_bit_def Let_def)
qed

lemma gram_bit_lower:
  "evoke_scope_ascii_lower a = evoke_scope_ascii_lower a' \<Longrightarrow> evoke_scope_ascii_lower b = evoke_scope_ascii_lower b' \<Longrightarrow>
   evoke_scope_ascii_lower c = evoke_scope_ascii_lower c' \<Longrightarrow>
   evoke_scope_ascii_gram_bit a b c = evoke_scope_ascii_gram_bit a' b' c'"
  by (simp add: evoke_scope_ascii_gram_bit_def)

lemma gram_narrow:
  "unat (ucast (evoke_scope_ascii_gram_bit a b c) :: u16) = unat (evoke_scope_ascii_gram_bit a b c)"
  using gram_bit_less [of a b c] by (simp add: unsigned_ucast_eq take_bit_nat_eq_self)

lemma gram_at_Cons [simp]: "gram_at (x # v) (Suc i) = gram_at v i"
  by (simp add: gram_at_def)

text \<open>What the loop over a value leaves in the filter and in the mask.\<close>

lemma add_grams_length: "add_grams_loop v f m = (f', m') \<Longrightarrow> length f' = length f"
  by (induction v f m rule: add_grams_loop.induct) (auto simp: Let_def)

lemma add_grams_keep:
  "add_grams_loop v f m = (f', m') \<Longrightarrow> (bit (f ! j) k \<longrightarrow> bit (f' ! j) k) \<and> (bit m n \<longrightarrow> bit m' n)"
proof (induction v f m rule: add_grams_loop.induct)
  case (1 a b c rest f m)
  let ?g = "evoke_scope_ascii_gram_bit a b c"
  have "bit (f ! j) k \<Longrightarrow> bit (f[unat (?g div 8) := f ! unat (?g div 8) OR push_bit (unat (?g mod 8)) 1] ! j) k"
    by (cases "unat (?g div 8) < length f") (auto simp: nth_list_update bit_or_iff list_update_beyond)
  moreover have "bit m n \<Longrightarrow> bit (m OR push_bit (unat (?g mod 32)) 1) n" by (simp add: bit_or_iff)
  ultimately show ?case using 1 by (simp add: Let_def)
qed auto

lemma add_grams_cover:
  assumes "add_grams_loop v f m = (f', m')" "length f = 1024" "i + 2 < length v"
  shows "bit (f' ! unat (gram_at v i div 8)) (unat (gram_at v i mod 8)) \<and> bit m' (unat (gram_at v i mod 32))"
  using assms
proof (induction v f m arbitrary: i rule: add_grams_loop.induct)
  case (1 a b c rest f m)
  let ?g = "evoke_scope_ascii_gram_bit a b c"
  let ?f = "f[unat (?g div 8) := f ! unat (?g div 8) OR push_bit (unat (?g mod 8)) 1]"
  let ?m = "m OR push_bit (unat (?g mod 32)) 1"
  have loop: "add_grams_loop (b # c # rest) ?f ?m = (f', m')" using "1.prems"(1) by (simp add: Let_def)
  show ?case
  proof (cases i)
    case 0
    have "unat (?g div 8) < length f" using gram_bit_less [of a b c] "1.prems"(2) by (simp add: unat_div)
    moreover have "unat (?g mod 8) < 8" "unat (?g mod 32) < 32" by (simp_all add: unat_mod)
    ultimately have "bit (?f ! unat (?g div 8)) (unat (?g mod 8))" "bit ?m (unat (?g mod 32))"
      by (simp_all add: bit_or_iff bit_exp_iff)
    then show ?thesis using add_grams_keep [OF loop] 0 by (simp add: gram_at_def)
  next
    case (Suc k)
    then show ?thesis using "1.IH" [OF refl refl _ _, of k] loop "1.prems"(2,3) by simp
  qed
qed auto

text \<open>The trigrams the loop over a pattern collects: \<open>u\<close> is the part of the value already matched.\<close>

definition tail_is :: "bytes \<Rightarrow> u8 \<Rightarrow> u8 \<Rightarrow> nat \<Rightarrow> bool" where
  "tail_is u previous0 previous1 n \<longleftrightarrow>
     (n \<ge> 1 \<longrightarrow> (\<exists>x x0. u = x0 @ [x] \<and> evoke_scope_ascii_lower x = evoke_scope_ascii_lower previous1)) \<and>
     (n \<ge> 2 \<longrightarrow> (\<exists>x y x0. u = x0 @ [y, x] \<and> evoke_scope_ascii_lower x = evoke_scope_ascii_lower previous1 \<and>
                   evoke_scope_ascii_lower y = evoke_scope_ascii_lower previous0))"

lemma tail_is_zero [simp]: "tail_is u previous0 previous1 0"
  by (simp add: tail_is_def)

lemma tail_is_step:
  assumes "tail_is u previous0 previous1 n" "evoke_scope_ascii_lower x = evoke_scope_ascii_lower b"
  shows "tail_is (u @ [x]) (if n = 0 then b else previous1) b (n + 1)"
  using assms by (auto simp: tail_is_def)

lemma add_pattern_gram_of:
  assumes "tail_is u previous0 previous1 n" "evoke_scope_ascii_lower x = evoke_scope_ascii_lower b"
    and "\<forall>g \<in> set (pg_bits grams). gram_of (u @ x # w) g"
  shows "\<forall>g \<in> set (pg_bits (add_pattern_gram previous0 previous1 b n grams)). gram_of (u @ x # w) g"
proof (cases "n \<ge> 2")
  case True
  then obtain y z u0 where u: "u = u0 @ [y, z]" "evoke_scope_ascii_lower z = evoke_scope_ascii_lower previous1"
      "evoke_scope_ascii_lower y = evoke_scope_ascii_lower previous0"
    using assms(1) unfolding tail_is_def by blast
  have "gram_at (u @ x # w) (length u0) = evoke_scope_ascii_gram_bit previous0 previous1 b"
    using gram_bit_lower [of y previous0 z previous1 x b] u assms(2) by (simp add: gram_at_def nth_append)
  then have "gram_of (u @ x # w) (ucast (evoke_scope_ascii_gram_bit previous0 previous1 b))"
    unfolding gram_of_def using u(1) by (intro exI [of _ "length u0"]) simp
  then show ?thesis using assms(3) by (simp add: add_pattern_gram_def Let_def)
qed (use assms(3) in \<open>simp add: add_pattern_gram_def\<close>)

lemma pattern_grams_of:
  assumes "like_match p w" "tail_is u previous0 previous1 n" "\<forall>g \<in> set (pg_bits grams). gram_of (u @ w) g"
  shows "\<forall>g \<in> set (pg_bits (pattern_grams_loop p previous0 previous1 n grams)). gram_of (u @ w) g"
  using assms
proof (induction p previous0 previous1 n grams arbitrary: u w rule: pattern_grams_loop.induct)
  case (2 b rest previous0 previous1 n grams)
  note IH = "2.IH" and tail = "2.prems"(2) and old = "2.prems"(3)
  consider (escape) "b = BACKSLASH" | (wild) "b = PERCENT \<or> b = UNDERSCORE"
    | (plain) "b \<noteq> BACKSLASH" "b \<noteq> PERCENT" "b \<noteq> UNDERSCORE" by blast
  then show ?case
  proof cases
    case escape
    then obtain q qs x xs where w: "rest = q # qs" "w = x # xs"
        and x: "evoke_scope_ascii_lower x = evoke_scope_ascii_lower q" "like_match qs xs"
      using "2.prems"(1) by (auto split: list.splits)
    have u: "u @ w = (u @ [x]) @ xs" using w by simp
    show ?thesis
      using IH(1) [OF escape w(1) _ x(2), of "u @ [x]"] IH(2) [OF escape w(1) _ x(2) tail_is_step [OF tail x(1)]]
        add_pattern_gram_of [OF tail x(1), of grams xs] old escape w by simp
  next
    case wild
    then obtain i where "like_match rest (drop i w)" using "2.prems"(1) by (auto split: if_splits simp del: upt_Suc)
    then show ?thesis using IH(3) [of "drop i w" "u @ take i w"] wild old by auto
  next
    case plain
    then obtain x xs where w: "w = x # xs" and x: "evoke_scope_ascii_lower x = evoke_scope_ascii_lower b" "like_match rest xs"
      using "2.prems"(1) by (auto split: list.splits)
    show ?thesis
      using IH(3) [OF plain(1) _ x(2), of "u @ [x]"] IH(4) [OF plain(1) _ x(2) tail_is_step [OF tail x(1)]]
        add_pattern_gram_of [OF tail x(1), of grams xs] old plain w by simp
  qed
qed simp

text \<open>The mask of a pattern has no bits but those of its trigrams.\<close>

definition mask_from :: "evoke_filter_scope_pattern_grams \<Rightarrow> bool" where
  "mask_from grams \<longleftrightarrow> (\<forall>k. bit (pg_value_mask grams) k \<longrightarrow> (\<exists>g \<in> set (pg_bits grams). k = unat (g mod 32)))"

lemma mask_from_zero: "mask_from zero_grams"
  by (simp add: mask_from_def zero_grams_def)

lemma mask_from_add: "mask_from grams \<Longrightarrow> mask_from (add_pattern_gram a b c n grams)"
  by (auto simp: mask_from_def add_pattern_gram_def Let_def bit_or_iff bit_exp_iff)

lemma mask_from_loop: "mask_from grams \<Longrightarrow> mask_from (pattern_grams_loop p a b n grams)"
  by (induction p a b n grams rule: pattern_grams_loop.induct) (auto simp: mask_from_add split: list.splits)

text \<open>A filter that has every trigram of a value, and a mask that has them.\<close>

definition covers :: "bytes \<Rightarrow> u32 \<Rightarrow> (u16 \<Rightarrow> bool) \<Rightarrow> bool" where
  "covers f m grams \<longleftrightarrow> (\<forall>g. grams g \<longrightarrow> in_filter f g \<and> bit m (unat (g mod 32)))"

lemma in_filter_test: "\<not> (f ! unat (gram div 8) AND push_bit (unat (gram mod 8)) 1 = 0) \<longleftrightarrow> in_filter f gram" for f :: bytes
proof -
  have "unat (gram mod 8) < 8" by (simp add: unat_mod)
  then show ?thesis by (simp add: in_filter_def and_exp_eq_0_iff_not_bit)
qed

lemma mask_test: "mask_from grams \<Longrightarrow> (\<forall>g \<in> set (pg_bits grams). bit m (unat (g mod 32))) \<Longrightarrow>
   m AND pg_value_mask grams = pg_value_mask grams"
  by (rule bit_eqI) (auto simp: bit_and_iff mask_from_def)

lemma gram_of_narrow:
  assumes "gram_of v g"
  obtains i where "i + 2 < length v" "unat (g div 8) = unat (gram_at v i div 8)"
    "unat (g mod 8) = unat (gram_at v i mod 8)" "unat (g mod 32) = unat (gram_at v i mod 32)"
  using assms that unfolding gram_of_def by (auto simp: gram_at_def unat_div unat_mod gram_narrow)


lemma pattern_bits_small:
  "\<forall>g \<in> set (pg_bits grams). g < 8192 \<Longrightarrow> \<forall>g \<in> set (pg_bits (pattern_grams_loop p a b n grams)). g < 8192"
proof (induction p a b n grams rule: pattern_grams_loop.induct)
  case (2 q rest a b n grams)
  have "ucast (evoke_scope_ascii_gram_bit a b c) < (8192 :: u16)" for c
    using gram_bit_less [of a b c] by (simp add: word_less_nat_alt gram_narrow)
  then have "\<forall>g \<in> set (pg_bits (add_pattern_gram a b c n grams)). g < 8192" for c
    using "2.prems" by (simp add: add_pattern_gram_def Let_def)
  then show ?case using 2 by (auto split: list.splits)
qed simp

definition saturates :: "bytes \<Rightarrow> bool \<Rightarrow> bool" where
  "saturates v collation_folded \<longleftrightarrow> 3 \<le> length v \<and> (\<exists>b \<in> set v. b \<ge> 0x80) \<and> \<not> collation_folded"

lemma saturated_filter: "length f = 1024 \<Longrightarrow> g < (8192 :: u16) \<Longrightarrow> in_filter (replicate 1024 0xFF @ drop 1024 f) g"
proof -
  assume "g < (8192 :: u16)"
  then have "unat (g div 8) < 1024" by (simp add: word_less_nat_alt unat_div)
  moreover have "\<forall>n \<in> set [0..<8]. bit (0xFF :: u8) n" by code_simp
  then have "bit (0xFF :: u8) (unat (g mod 8))" by (simp add: unat_mod del: upt_Suc)
  ultimately show ?thesis by (simp add: in_filter_def nth_append)
qed

lemma bit_UINT32_MAX: "n < 32 \<Longrightarrow> bit UINT32_MAX n"
proof -
  have "\<forall>n \<in> set [0..<32]. bit UINT32_MAX n" by code_simp
  then show "n < 32 \<Longrightarrow> bit UINT32_MAX n" by simp
qed

lemma add_value_grams_covers:
  assumes "length f = 1024" "evoke_scope_add_value_grams (Some f) (Some v) folded (Some m0) = (Some f', Some m)"
  shows "length f' = 1024 \<and> (\<forall>g < 8192. in_filter f g \<longrightarrow> in_filter f' g) \<and> covers f' m (gram_of v) \<and>
    (saturates v folded \<longrightarrow> covers f' m (\<lambda>g. g < 8192))"
proof -
  consider (short) "length v < 3" | (full) "saturates v folded" | (loop) "3 \<le> length v" "\<not> saturates v folded"
    using not_less by blast
  then show ?thesis
  proof cases
    case short
    then show ?thesis using assms by (auto simp: evoke_scope_add_value_grams_def covers_def gram_of_def saturates_def)
  next
    case full
    then have f': "f' = replicate 1024 0xFF @ drop 1024 f" "m = UINT32_MAX"
      using assms unfolding saturates_def
      by (auto simp: evoke_scope_add_value_grams_def EVOKE_SCOPE_GRAM_FILTER_BYTES_def)
    have "g < 8192" if "gram_of v g" for g
      using that gram_bit_less unfolding gram_of_def gram_at_def by (auto simp: word_less_nat_alt gram_narrow)
    moreover have "covers f' m (\<lambda>g. g < 8192)"
      using saturated_filter [OF assms(1)] f' bit_UINT32_MAX by (simp add: covers_def unat_mod)
    ultimately show ?thesis using f' assms(1) saturated_filter [OF assms(1)] by (auto simp: covers_def)
  next
    case loop
    then have run: "add_grams_loop v f 0 = (f', m)"
      using assms unfolding saturates_def
      by (auto simp: evoke_scope_add_value_grams_def split: if_splits prod.splits)
    have "in_filter f g \<longrightarrow> in_filter f' g" for g
      using add_grams_keep [OF run] by (auto simp: in_filter_def)
    moreover have "in_filter f' g \<and> bit m (unat (g mod 32))" if "gram_of v g" for g
      using that add_grams_cover [OF run assms(1)] by (elim gram_of_narrow) (simp add: in_filter_def)
    ultimately show ?thesis using add_grams_length [OF run] assms(1) loop by (auto simp: covers_def)
  qed
qed

text \<open>The filter of a block: the values of the block are added one after the other.\<close>

definition block_filter :: "bytes \<Rightarrow> (bytes \<times> bool) list \<Rightarrow> bytes" where
  "block_filter f vs = foldl (\<lambda>f (v, folded). the (fst (evoke_scope_add_value_grams (Some f) (Some v) folded (Some 0)))) f vs"

definition value_mask :: "bytes \<Rightarrow> bytes \<Rightarrow> bool \<Rightarrow> u32" where
  "value_mask f v folded = the (snd (evoke_scope_add_value_grams (Some f) (Some v) folded (Some 0)))"

lemma add_value_grams_some:
  "evoke_scope_add_value_grams (Some f) (Some v) folded (Some m) =
     (Some (the (fst (evoke_scope_add_value_grams (Some f) (Some v) folded (Some 0)))), Some (value_mask f v folded))"
  by (auto simp: evoke_scope_add_value_grams_def value_mask_def split: prod.splits)

lemma block_filter_keeps:
  "length f = 1024 \<Longrightarrow> length (block_filter f vs) = 1024 \<and> (\<forall>g < 8192. in_filter f g \<longrightarrow> in_filter (block_filter f vs) g)"
proof (induction vs arbitrary: f)
  case (Cons x vs)
  obtain v folded where x: "x = (v, folded)" by (cases x)
  note step = add_value_grams_covers [OF Cons.prems add_value_grams_some [of f v folded 0]]
  show ?case using step Cons.IH [of "the (fst (evoke_scope_add_value_grams (Some f) (Some v) folded (Some 0)))"]
    by (auto simp: block_filter_def x)
qed (simp add: block_filter_def)

lemma add_grams_mask: "snd (add_grams_loop v f m) = snd (add_grams_loop v f' m)"
proof (induction v f m arbitrary: f' rule: add_grams_loop.induct)
  case (1 a b c rest f m)
  show ?case unfolding add_grams_loop.simps Let_def by (rule 1 [OF refl refl])
qed simp_all

lemma value_mask_any: "value_mask f v folded = value_mask f' v folded"
  using add_grams_mask [of v f 0 f']
  by (cases "add_grams_loop v f 0"; cases "add_grams_loop v f' 0")
    (simp add: evoke_scope_add_value_grams_def value_mask_def)

lemma block_filter_covers:
  assumes "length f = 1024" "(v, folded) \<in> set vs" "\<forall>g. P g \<longrightarrow> g < 8192"
    and "saturates v folded \<or> (\<forall>g. P g \<longrightarrow> gram_of v g)"
  shows "covers (block_filter f vs) (value_mask f' v folded) P"
proof -
  obtain as bs where vs: "vs = as @ (v, folded) # bs" using assms(2) by (meson split_list)
  let ?f1 = "block_filter f as"
  let ?f2 = "the (fst (evoke_scope_add_value_grams (Some ?f1) (Some v) folded (Some 0)))"
  have "length ?f1 = 1024" using block_filter_keeps [OF assms(1)] by blast
  note step = add_value_grams_covers [OF this add_value_grams_some [of ?f1 v folded 0]]
  have "block_filter f vs = block_filter ?f2 bs" by (simp add: block_filter_def vs)
  moreover have "\<forall>g < 8192. in_filter ?f2 g \<longrightarrow> in_filter (block_filter ?f2 bs) g"
    using block_filter_keeps step by blast
  moreover have "in_filter ?f2 g \<and> bit (value_mask ?f1 v folded) (unat (g mod 32))" if "P g" for g
    using step assms(3,4) that unfolding covers_def by blast
  ultimately show ?thesis using assms(3) value_mask_any [of f' v folded ?f1] unfolding covers_def by auto
qed

lemma pattern_grams_covered:
  assumes "like_match p v \<or> saturates v folded"
  defines "grams \<equiv> snd (evoke_filter_scope_pattern_grams_build p)"
  shows "mask_from grams" and "\<forall>g \<in> set (pg_bits grams). g < 8192"
    and "saturates v folded \<or> (\<forall>g. g \<in> set (pg_bits grams) \<longrightarrow> gram_of v g)"
proof -
  have grams: "grams = pattern_grams_loop p 0 0 0 zero_grams"
    by (simp add: grams_def evoke_filter_scope_pattern_grams_build_def Let_def)
  show "mask_from grams" unfolding grams by (rule mask_from_loop [OF mask_from_zero])
  show "\<forall>g \<in> set (pg_bits grams). g < 8192"
    unfolding grams by (rule pattern_bits_small) (simp add: zero_grams_def)
  show "saturates v folded \<or> (\<forall>g. g \<in> set (pg_bits grams) \<longrightarrow> gram_of v g)"
    using assms(1) pattern_grams_of [of p v "[]" 0 0 0 zero_grams] unfolding grams by (auto simp: zero_grams_def)
qed

text \<open>
  Let the values of a block be added to its filter, and let one of them match a pattern, or else be a value with
  bytes outside ASCII that was not folded, which may match under a collation's own rules. Then the value
  passes the test of its own mask and its block passes the test of the filter.
\<close>

lemma pruning_keeps:
  assumes "like_match p v \<or> saturates v folded"
    and "length f = 1024" "(v, folded) \<in> set vs"
    and "snd (evoke_filter_scope_pattern_grams_build p) \<in> set patterns"
  shows "gram_mask_matches (value_mask f v folded) patterns \<and>
    gram_filter_matches (block_filter f vs) patterns"
proof -
  let ?grams = "snd (evoke_filter_scope_pattern_grams_build p)"
  note * = pattern_grams_covered [OF assms(1)]
  have "covers (block_filter f vs) (value_mask f v folded) (\<lambda>g. g \<in> set (pg_bits ?grams))"
    by (rule block_filter_covers [OF assms(2,3)]) (use * in auto)
  then show ?thesis using assms(4) mask_test [OF *(1), of "value_mask f v folded"]
    unfolding covers_def gram_mask_matches_def gram_filter_matches_def in_filter_test
    by blast
qed

end
