(* ===== verification/Scope_Codec.thy ===== *)
theory Scope_Codec
  imports Segment_Codec Scope_Text
begin

unbundle bit_operations_syntax

text \<open>
  The scope object of \<open>src/evoke_scope.c\<close>: for every filterable column the sorted dictionary of its values, with the
  documents that have each value. The theory holds the incremental writer (begin, start a value, append a
  document, finish), the serializer that drives it, the decoders of the header and of the entries, and the
  validator of a whole object; \<open>Scope_Layout\<close> and \<open>Scope_Roundtrip\<close> hold the proofs.

  A null pointer is \<open>None\<close>. The bytes behind a pointer are a list, of which the code uses as many as the size next to
  the pointer says. \<open>int16_t\<close> and \<open>int32_t\<close> are words read as signed where the code compares them;
  \<open>calloc_ok\<close> says whether the allocation succeeds.
\<close>

section \<open>Data\<close>

definition EVOKE_SCOPE_HEADER_SIZE :: nat where "EVOKE_SCOPE_HEADER_SIZE = 80"
definition EVOKE_SCOPE_COLUMN_ENTRY_SIZE :: nat where "EVOKE_SCOPE_COLUMN_ENTRY_SIZE = 40"
definition EVOKE_SCOPE_VALUE_ENTRY_SIZE :: nat where "EVOKE_SCOPE_VALUE_ENTRY_SIZE = 32"
definition EVOKE_SCOPE_GRAM_BLOCK_VALUES :: nat where "EVOKE_SCOPE_GRAM_BLOCK_VALUES = 256"
definition EVOKE_SCOPE_VERSION :: u16 where "EVOKE_SCOPE_VERSION = 6"
definition EVOKE_SCOPE_MAGIC :: u32 where "EVOKE_SCOPE_MAGIC = 0x50435332"
definition EVOKE_SCOPE_CHECKSUM_OFFSET :: nat where "EVOKE_SCOPE_CHECKSUM_OFFSET = 72"
definition EVOKE_SCOPE_VALUE_SCALAR :: u8 where "EVOKE_SCOPE_VALUE_SCALAR = 1"
definition EVOKE_SCOPE_VALUE_ARRAY_ELEMENT :: u8 where "EVOKE_SCOPE_VALUE_ARRAY_ELEMENT = 2"

lemmas scope_consts =
  EVOKE_SCOPE_HEADER_SIZE_def EVOKE_SCOPE_COLUMN_ENTRY_SIZE_def EVOKE_SCOPE_VALUE_ENTRY_SIZE_def
  EVOKE_SCOPE_GRAM_BLOCK_VALUES_def EVOKE_SCOPE_GRAM_FILTER_BYTES_def EVOKE_SCOPE_CHECKSUM_OFFSET_def

record evoke_scope_column =
  sc_index_attribute :: u16
  sc_heap_attribute :: u16
  sc_type_oid :: u32
  sc_element_type_oid :: u32
  sc_collation_oid :: u32
  sc_type_modifier :: u32
  sc_name :: "bytes option"
  sc_name_size :: u32
  sc_first_value :: u32
  sc_value_count :: u32

record evoke_scope_value =
  sv_column_index :: u32
  sv_kind :: u8
  sv_value :: "bytes option"
  sv_value_size :: u32
  sv_gram_value :: "bytes option"
  sv_gram_value_size :: u32
  sv_documents :: "u32 list option"
  sv_document_count :: u32

record evoke_scope_header =
  sh_source_authority_checksum :: u64
  sh_object_checksum :: u64
  sh_total_size :: u64
  sh_dictionary_offset :: u64
  sh_dictionary_size :: u64
  sh_postings_offset :: u64
  sh_postings_size :: u64
  sh_gram_filter_offset :: u64
  sh_gram_filter_size :: u64
  sh_document_count :: u32
  sh_column_count :: u32
  sh_value_count :: u32
  sh_version :: u16
  sh_gram_block_values :: u16
  sh_gram_filter_bytes :: u16

record evoke_scope_column_entry =
  ce_index_attribute :: u16
  ce_heap_attribute :: u16
  ce_type_oid :: u32
  ce_element_type_oid :: u32
  ce_collation_oid :: u32
  ce_type_modifier :: u32
  ce_name_offset :: u32
  ce_name_size :: u32
  ce_first_value :: u32
  ce_value_count :: u32

record evoke_scope_value_entry =
  ve_column_index :: u32
  ve_kind :: u8
  ve_value_offset :: u32
  ve_value_size :: u32
  ve_postings_offset :: u64
  ve_document_count :: u32
  ve_gram_mask :: u32

record evoke_scope_writer =
  sw_bytes :: "bytes option"
  sw_total_size :: u64
  sw_column_bytes :: u64
  sw_dictionary_offset :: u64
  sw_dictionary_size :: u64
  sw_dictionary_cursor :: u64
  sw_gram_filter_offset :: u64
  sw_postings_offset :: u64
  sw_postings_size :: u64
  sw_postings_cursor :: u64
  sw_document_count :: u32
  sw_column_count :: u32
  sw_value_count :: u32
  sw_next_value :: u32
  sw_current_document_count :: u32
  sw_previous_document :: u32
  sw_value_open :: bool

section \<open>Accessors\<close>

definition evoke_scope_write_u16 :: "bytes \<Rightarrow> nat \<Rightarrow> u16 \<Rightarrow> bytes" where
  "evoke_scope_write_u16 bs off value =
     put_bytes bs off [ucast (value AND 0xFF), ucast (drop_bit 8 value AND 0xFF)]"

definition evoke_scope_write_u32 :: "bytes \<Rightarrow> nat \<Rightarrow> u32 \<Rightarrow> bytes" where
  "evoke_scope_write_u32 bs off value = put_bytes bs off (map (\<lambda>i. ucast (drop_bit (i * 8) value)) [0..<4])"

definition evoke_scope_write_u64 :: "bytes \<Rightarrow> nat \<Rightarrow> u64 \<Rightarrow> bytes" where
  "evoke_scope_write_u64 bs off value = put_bytes bs off (map (\<lambda>i. ucast (drop_bit (i * 8) value)) [0..<8])"

definition evoke_scope_read_u16 :: "bytes \<Rightarrow> nat \<Rightarrow> u16" where
  "evoke_scope_read_u16 bs off = ucast (bs ! off) OR push_bit 8 (ucast (bs ! (off + 1)))"

definition evoke_scope_read_u32 :: "bytes \<Rightarrow> nat \<Rightarrow> u32" where
  "evoke_scope_read_u32 bs off =
     ((ucast (bs ! off) OR push_bit 8 (ucast (bs ! (off + 1)))) OR
      push_bit 16 (ucast (bs ! (off + 2)))) OR push_bit 24 (ucast (bs ! (off + 3)))"

definition evoke_scope_read_u64 :: "bytes \<Rightarrow> nat \<Rightarrow> u64" where
  "evoke_scope_read_u64 bs off =
     foldl (\<lambda>value i. value OR push_bit (i * 8) (ucast (bs ! (off + i)))) 0 [0..<8]"

definition evoke_scope_checksum :: "bytes \<Rightarrow> nat \<Rightarrow> u64" where
  "evoke_scope_checksum bs n =
     foldl (\<lambda>checksum i.
        let value =
              (if i \<ge> EVOKE_SCOPE_CHECKSUM_OFFSET \<and> i < EVOKE_SCOPE_CHECKSUM_OFFSET + 8 then 0 else bs ! i)
        in (checksum XOR ucast value) * 1099511628211)
       14695981039346656037 [0..<n]"

text \<open>The sum, or \<open>None\<close> when it does not fit.\<close>

definition evoke_scope_add_size :: "u64 \<Rightarrow> u64 \<Rightarrow> u64 option" where
  "evoke_scope_add_size total_size value = (if total_size > SIZE_MAX - value then None else Some (total_size + value))"

definition evoke_scope_header_is_current :: "evoke_scope_header option \<Rightarrow> bool" where
  "evoke_scope_header_is_current header =
     (case header of
        None \<Rightarrow> False
      | Some h \<Rightarrow>
          sh_version h = EVOKE_SCOPE_VERSION \<and>
          sh_gram_block_values h = of_nat EVOKE_SCOPE_GRAM_BLOCK_VALUES \<and>
          sh_gram_filter_bytes h = of_nat EVOKE_SCOPE_GRAM_FILTER_BYTES)"

text \<open>\<open>memcmp\<close> of two ranges of the same length.\<close>

fun memcmp :: "bytes \<Rightarrow> bytes \<Rightarrow> int" where
  "memcmp (a # as) (b # bs) = (if a < b then -1 else if a > b then 1 else memcmp as bs)"
| "memcmp _ _ = 0"

section \<open>The writer\<close>

definition zero_scope_writer :: evoke_scope_writer where
  "zero_scope_writer =
     \<lparr>sw_bytes = None, sw_total_size = 0, sw_column_bytes = 0, sw_dictionary_offset = 0, sw_dictionary_size = 0,
      sw_dictionary_cursor = 0, sw_gram_filter_offset = 0, sw_postings_offset = 0, sw_postings_size = 0,
      sw_postings_cursor = 0, sw_document_count = 0, sw_column_count = 0, sw_value_count = 0, sw_next_value = 0,
      sw_current_document_count = 0, sw_previous_document = 0, sw_value_open = False\<rparr>"

definition evoke_scope_writer_init :: "evoke_scope_writer option \<Rightarrow> evoke_scope_writer option" where
  "evoke_scope_writer_init writer = map_option (\<lambda>_. zero_scope_writer) writer"

definition evoke_scope_writer_free :: "evoke_scope_writer option \<Rightarrow> evoke_scope_writer option" where
  "evoke_scope_writer_free writer = (case writer of None \<Rightarrow> None | Some w \<Rightarrow> evoke_scope_writer_init (Some w))"

definition evoke_scope_writer_close_value :: "evoke_scope_writer \<Rightarrow> evoke_status \<times> evoke_scope_writer" where
  "evoke_scope_writer_close_value w =
     (if \<not> sw_value_open w then (EVOKE_OK, w)
      else if sw_current_document_count w = 0 then (EVOKE_ERR_FORMAT, w)
      else
        let entry = EVOKE_SCOPE_HEADER_SIZE + unat (sw_column_bytes w) +
                      unat (sw_next_value w - 1) * EVOKE_SCOPE_VALUE_ENTRY_SIZE
        in (EVOKE_OK,
            w\<lparr>sw_bytes := map_option (\<lambda>bs. evoke_scope_write_u32 bs (entry + 24) (sw_current_document_count w)) (sw_bytes w),
              sw_value_open := False, sw_current_document_count := 0, sw_previous_document := 0\<rparr>))"

text \<open>The check of the columns; the result is the size of the dictionary with the names.\<close>

fun begin_columns :: "u32 \<Rightarrow> evoke_scope_column option \<Rightarrow> evoke_scope_column list \<Rightarrow> u64 \<Rightarrow> u64 option" where
  "begin_columns value_count previous [] dictionary_size = Some dictionary_size"
| "begin_columns value_count previous (input # rest) dictionary_size =
     (if sc_index_attribute input = 0 \<or> sint (sc_heap_attribute input) \<le> 0 \<or> sc_type_oid input = 0 \<or>
         sc_name input = None \<or> sc_name_size input = 0 \<or> sc_first_value input > value_count \<or>
         sc_value_count input > value_count - sc_first_value input \<or>
         (case previous of
            None \<Rightarrow> sc_first_value input \<noteq> 0
          | Some p \<Rightarrow> sc_index_attribute p \<ge> sc_index_attribute input \<or>
                      sc_first_value input \<noteq> sc_first_value p + sc_value_count p) \<or>
         (rest = [] \<and> sc_first_value input + sc_value_count input \<noteq> value_count)
      then None
      else
        case evoke_scope_add_size dictionary_size (u64_of_u32 (sc_name_size input)) of
          None \<Rightarrow> None
        | Some dictionary_size \<Rightarrow> begin_columns value_count (Some input) rest dictionary_size)"

definition write_column_entry :: "bytes \<Rightarrow> nat \<Rightarrow> evoke_scope_column \<Rightarrow> u64 \<Rightarrow> bytes" where
  "write_column_entry bs entry input dictionary_cursor =
     (let bs = evoke_scope_write_u16 bs (entry + 0) (sc_index_attribute input);
          bs = evoke_scope_write_u16 bs (entry + 2) (sc_heap_attribute input);
          bs = evoke_scope_write_u32 bs (entry + 4) (sc_type_oid input);
          bs = evoke_scope_write_u32 bs (entry + 8) (sc_element_type_oid input);
          bs = evoke_scope_write_u32 bs (entry + 12) (sc_collation_oid input);
          bs = evoke_scope_write_u32 bs (entry + 16) (sc_type_modifier input);
          bs = evoke_scope_write_u32 bs (entry + 20) (ucast dictionary_cursor);
          bs = evoke_scope_write_u32 bs (entry + 24) (sc_name_size input);
          bs = evoke_scope_write_u32 bs (entry + 28) (sc_first_value input)
      in evoke_scope_write_u32 bs (entry + 32) (sc_value_count input))"

fun write_columns :: "nat \<Rightarrow> bytes \<Rightarrow> nat \<Rightarrow> u64 \<Rightarrow> evoke_scope_column list \<Rightarrow> bytes \<times> u64" where
  "write_columns dictionary_offset bs column dictionary_cursor [] = (bs, dictionary_cursor)"
| "write_columns dictionary_offset bs column dictionary_cursor (input # rest) =
     (let entry = EVOKE_SCOPE_HEADER_SIZE + column * EVOKE_SCOPE_COLUMN_ENTRY_SIZE;
          bs = write_column_entry bs entry input dictionary_cursor;
          bs = put_bytes bs (dictionary_offset + unat dictionary_cursor)
                 (take (unat (sc_name_size input)) (the (sc_name input)))
      in write_columns dictionary_offset bs (column + 1) (dictionary_cursor + u64_of_u32 (sc_name_size input)) rest)"

definition write_scope_header ::
  "bytes \<Rightarrow> u64 \<Rightarrow> u32 \<Rightarrow> u32 \<Rightarrow> u32 \<Rightarrow> u64 \<Rightarrow> u64 \<Rightarrow> u64 \<Rightarrow> u64 \<Rightarrow> bytes" where
  "write_scope_header bs source_authority_checksum document_count column_count value_count
     dictionary_offset dictionary_size postings_offset postings_size =
     (let bs = evoke_scope_write_u32 bs 0 EVOKE_SCOPE_MAGIC;
          bs = evoke_scope_write_u16 bs 4 EVOKE_SCOPE_VERSION;
          bs = evoke_scope_write_u16 bs 6 (of_nat EVOKE_SCOPE_HEADER_SIZE);
          bs = evoke_scope_write_u16 bs 8 (of_nat EVOKE_SCOPE_COLUMN_ENTRY_SIZE);
          bs = evoke_scope_write_u16 bs 10 (of_nat EVOKE_SCOPE_VALUE_ENTRY_SIZE);
          bs = evoke_scope_write_u16 bs 12 (of_nat EVOKE_SCOPE_GRAM_BLOCK_VALUES);
          bs = evoke_scope_write_u16 bs 14 (of_nat EVOKE_SCOPE_GRAM_FILTER_BYTES);
          bs = evoke_scope_write_u64 bs 16 source_authority_checksum;
          bs = evoke_scope_write_u32 bs 24 document_count;
          bs = evoke_scope_write_u32 bs 28 column_count;
          bs = evoke_scope_write_u32 bs 32 value_count;
          bs = evoke_scope_write_u64 bs 40 dictionary_offset;
          bs = evoke_scope_write_u64 bs 48 dictionary_size;
          bs = evoke_scope_write_u64 bs 56 postings_offset
      in evoke_scope_write_u64 bs 64 postings_size)"

text \<open>
  The layout of the object. The writer already has the fields set that the code assigns before it fails.
  The sizes are the value entries, the dictionary, the filters and the postings.
\<close>

definition begin_layout ::
  "evoke_scope_writer \<Rightarrow> u64 \<Rightarrow> u64 \<Rightarrow> u64 \<Rightarrow> u64 \<Rightarrow> evoke_status \<times> evoke_scope_writer" where
  "begin_layout w value_bytes dictionary_size gram_filter_size postings_size =
     (case Option.bind (evoke_scope_add_size (of_nat EVOKE_SCOPE_HEADER_SIZE) (sw_column_bytes w))
             (\<lambda>total_size. evoke_scope_add_size total_size value_bytes) of
        None \<Rightarrow> (EVOKE_ERR_RANGE, w)
      | Some total_size \<Rightarrow>
          let w = w\<lparr>sw_dictionary_offset := total_size\<rparr>
          in case evoke_scope_add_size total_size dictionary_size of
               None \<Rightarrow> (EVOKE_ERR_RANGE, w)
             | Some total_size \<Rightarrow>
                 let w = w\<lparr>sw_gram_filter_offset := total_size\<rparr>
                 in case evoke_scope_add_size total_size gram_filter_size of
                      None \<Rightarrow> (EVOKE_ERR_RANGE, w)
                    | Some total_size \<Rightarrow>
                        let w = w\<lparr>sw_postings_offset := total_size\<rparr>
                        in case evoke_scope_add_size total_size postings_size of
                             None \<Rightarrow> (EVOKE_ERR_RANGE, w)
                           | Some total_size \<Rightarrow> (EVOKE_OK, w\<lparr>sw_total_size := total_size\<rparr>))"

definition evoke_scope_writer_begin ::
  "bool \<Rightarrow> evoke_scope_writer option \<Rightarrow> u64 \<Rightarrow> u32 \<Rightarrow> evoke_scope_column list option \<Rightarrow> u32 \<Rightarrow> u32 \<Rightarrow> u64 \<Rightarrow> u64 \<Rightarrow> u64
     \<Rightarrow> evoke_status \<times> evoke_scope_writer option" where
  "evoke_scope_writer_begin calloc_ok writer source_authority_checksum document_count columns column_count value_count
     value_dictionary_size posting_count maximum_size =
     (case (writer, columns) of
        (Some w, Some columns) \<Rightarrow>
          if sw_bytes w \<noteq> None \<or> source_authority_checksum = 0 \<or> document_count = 0 \<or> column_count = 0 \<or>
             (value_count = 0 \<and> posting_count \<noteq> 0) \<or> posting_count > SIZE_MAX div 4
          then (EVOKE_ERR_INVALID, writer)
          else
            let w = w\<lparr>sw_column_bytes := u64_of_u32 column_count * of_nat EVOKE_SCOPE_COLUMN_ENTRY_SIZE\<rparr>;
                value_bytes = u64_of_u32 value_count * of_nat EVOKE_SCOPE_VALUE_ENTRY_SIZE
            in
              if sw_column_bytes w div of_nat EVOKE_SCOPE_COLUMN_ENTRY_SIZE \<noteq> u64_of_u32 column_count \<or>
                 (value_count > 0 \<and> value_bytes div of_nat EVOKE_SCOPE_VALUE_ENTRY_SIZE \<noteq> u64_of_u32 value_count)
              then (EVOKE_ERR_RANGE, Some w)
              else
                let gram_filter_size =
                      (if value_count = 0 then 0
                       else (u64_of_u32 value_count + of_nat EVOKE_SCOPE_GRAM_BLOCK_VALUES - 1) div
                              of_nat EVOKE_SCOPE_GRAM_BLOCK_VALUES)
                in
                  if gram_filter_size > SIZE_MAX div of_nat EVOKE_SCOPE_GRAM_FILTER_BYTES
                  then (EVOKE_ERR_RANGE, Some w)
                  else
                    let gram_filter_size = gram_filter_size * of_nat EVOKE_SCOPE_GRAM_FILTER_BYTES;
                        columns = take (unat column_count) columns
                    in case begin_columns value_count None columns value_dictionary_size of
                         None \<Rightarrow> (EVOKE_ERR_FORMAT, Some w)
                       | Some dictionary_size \<Rightarrow>
                           if dictionary_size > u64_of_u32 UINT32_MAX then (EVOKE_ERR_RANGE, Some w)
                           else
                             let postings_size = posting_count * 4
                             in case begin_layout w value_bytes dictionary_size gram_filter_size postings_size of
                                  (status, w) \<Rightarrow>
                                    if status \<noteq> EVOKE_OK then (status, Some w)
                                    else if sw_total_size w > maximum_size then (EVOKE_ERR_NOMEM, Some w)
                                    else if \<not> calloc_ok then (EVOKE_ERR_NOMEM, Some w)
                                    else
                                      let bs = write_scope_header (replicate (unat (sw_total_size w)) 0)
                                                 source_authority_checksum document_count column_count value_count
                                                 (sw_dictionary_offset w) dictionary_size (sw_postings_offset w) postings_size
                                      in case write_columns (unat (sw_dictionary_offset w)) bs 0 0 columns of
                                           (bs, dictionary_cursor) \<Rightarrow>
                                             (EVOKE_OK,
                                              Some (w\<lparr>sw_bytes := Some bs, sw_dictionary_size := dictionary_size,
                                                      sw_postings_size := postings_size, sw_document_count := document_count,
                                                      sw_column_count := column_count, sw_value_count := value_count,
                                                      sw_dictionary_cursor := dictionary_cursor\<rparr>))
      | _ \<Rightarrow> (EVOKE_ERR_INVALID, writer))"


text \<open>The bytes behind a pointer and a size.\<close>

definition sized_bytes :: "bytes option \<Rightarrow> u32 \<Rightarrow> bytes" where
  "sized_bytes p n = (case p of None \<Rightarrow> [] | Some bs \<Rightarrow> take (unat n) bs)"

text \<open>The comparison with the value written before: the new one must come later.\<close>

definition follows_previous :: "bytes \<Rightarrow> nat \<Rightarrow> nat \<Rightarrow> evoke_scope_value \<Rightarrow> bool" where
  "follows_previous bs previous_entry dictionary_offset value =
     (let previous_column = evoke_scope_read_u32 bs (previous_entry + 0);
          previous_kind = bs ! (previous_entry + 4);
          previous_offset = evoke_scope_read_u32 bs (previous_entry + 8);
          previous_size = evoke_scope_read_u32 bs (previous_entry + 12);
          previous_value = drop (dictionary_offset + unat previous_offset) bs;
          common = unat (if previous_size < sv_value_size value then previous_size else sv_value_size value);
          comparison =
            (if previous_column = sv_column_index value \<and> previous_kind = sv_kind value
             then let comparison =
                        (if common = 0 then 0
                         else memcmp (take common previous_value) (take common (sized_bytes (sv_value value) (sv_value_size value))))
                  in if comparison = 0
                     then if previous_size < sv_value_size value then -1
                          else if previous_size > sv_value_size value then 1 else 0
                     else comparison
             else 0)
      in \<not> (previous_column > sv_column_index value \<or>
            (previous_column = sv_column_index value \<and> previous_kind > sv_kind value) \<or>
            (previous_column = sv_column_index value \<and> previous_kind = sv_kind value \<and> comparison \<ge> 0)))"

text \<open>The bytes of the value and its trigrams; the result has the mask of the value.\<close>

definition write_value_bytes :: "evoke_scope_writer \<Rightarrow> evoke_scope_value \<Rightarrow> bytes \<Rightarrow> bytes \<times> u32" where
  "write_value_bytes w value bs =
     (if sv_value_size value > 0
      then
        let bs = put_bytes bs (unat (sw_dictionary_offset w) + unat (sw_dictionary_cursor w))
                   (sized_bytes (sv_value value) (sv_value_size value));
            gram_value = (if sv_gram_value value = None then sv_value value else sv_gram_value value);
            gram_value_size = (if sv_gram_value value = None then sv_value_size value else sv_gram_value_size value);
            filter_at = unat (sw_gram_filter_offset w) +
                          (unat (sw_next_value w) div EVOKE_SCOPE_GRAM_BLOCK_VALUES) * EVOKE_SCOPE_GRAM_FILTER_BYTES
        in case evoke_scope_add_value_grams (Some (take EVOKE_SCOPE_GRAM_FILTER_BYTES (drop filter_at bs)))
                  (map_option (\<lambda>_. sized_bytes gram_value gram_value_size) gram_value)
                  (sv_gram_value value \<noteq> None) (Some 0) of
             (filter_bytes, value_gram_mask) \<Rightarrow> (put_bytes bs filter_at (the filter_bytes), the value_gram_mask)
      else (bs, 0))"

definition evoke_scope_writer_start_value ::
  "evoke_scope_writer option \<Rightarrow> evoke_scope_value option \<Rightarrow> evoke_status \<times> evoke_scope_writer option" where
  "evoke_scope_writer_start_value writer value =
     (case (writer, value) of
        (Some w, Some value) \<Rightarrow>
          if sw_bytes w = None \<or> sw_next_value w \<ge> sw_value_count w \<or> sv_column_index value \<ge> sw_column_count w \<or>
             (sv_value_size value > 0 \<and> sv_value value = None) \<or>
             (sv_gram_value_size value > 0 \<and> sv_gram_value value = None) \<or>
             (sv_kind value \<noteq> EVOKE_SCOPE_VALUE_SCALAR \<and> sv_kind value \<noteq> EVOKE_SCOPE_VALUE_ARRAY_ELEMENT) \<or>
             sw_dictionary_cursor w > sw_dictionary_size w \<or>
             u64_of_u32 (sv_value_size value) > sw_dictionary_size w - sw_dictionary_cursor w
          then (EVOKE_ERR_INVALID, writer)
          else
            case evoke_scope_writer_close_value w of
              (status, w) \<Rightarrow>
                if status \<noteq> EVOKE_OK then (status, Some w)
                else
                  let bs = the (sw_bytes w);
                      column_entry = EVOKE_SCOPE_HEADER_SIZE + unat (sv_column_index value) * EVOKE_SCOPE_COLUMN_ENTRY_SIZE;
                      first_value = evoke_scope_read_u32 bs (column_entry + 28);
                      column_value_count = evoke_scope_read_u32 bs (column_entry + 32);
                      entries = EVOKE_SCOPE_HEADER_SIZE + unat (sw_column_bytes w)
                  in
                    if sw_next_value w < first_value \<or> sw_next_value w - first_value \<ge> column_value_count
                    then (EVOKE_ERR_FORMAT, Some w)
                    else if sw_next_value w > 0 \<and>
                            \<not> follows_previous bs (entries + unat (sw_next_value w - 1) * EVOKE_SCOPE_VALUE_ENTRY_SIZE)
                                (unat (sw_dictionary_offset w)) value
                    then (EVOKE_ERR_FORMAT, Some w)
                    else
                      let entry = entries + unat (sw_next_value w) * EVOKE_SCOPE_VALUE_ENTRY_SIZE;
                          bs = evoke_scope_write_u32 bs (entry + 0) (sv_column_index value);
                          bs = bs[entry + 4 := sv_kind value];
                          bs = evoke_scope_write_u32 bs (entry + 8) (ucast (sw_dictionary_cursor w));
                          bs = evoke_scope_write_u32 bs (entry + 12) (sv_value_size value);
                          bs = evoke_scope_write_u64 bs (entry + 16) (sw_postings_cursor w)
                      in case write_value_bytes w value bs of
                           (bs, value_gram_mask) \<Rightarrow>
                             (EVOKE_OK,
                              Some (w\<lparr>sw_bytes := Some (evoke_scope_write_u32 bs (entry + 28) value_gram_mask),
                                      sw_dictionary_cursor := sw_dictionary_cursor w + u64_of_u32 (sv_value_size value),
                                      sw_next_value := sw_next_value w + 1, sw_value_open := True\<rparr>))
      | _ \<Rightarrow> (EVOKE_ERR_INVALID, writer))"

definition evoke_scope_writer_append_document ::
  "evoke_scope_writer option \<Rightarrow> u32 \<Rightarrow> evoke_status \<times> evoke_scope_writer option" where
  "evoke_scope_writer_append_document writer document =
     (case writer of
        None \<Rightarrow> (EVOKE_ERR_FORMAT, writer)
      | Some w \<Rightarrow>
          if sw_bytes w = None \<or> \<not> sw_value_open w \<or> document \<ge> sw_document_count w \<or>
             (sw_current_document_count w > 0 \<and> sw_previous_document w \<ge> document) \<or>
             sw_postings_cursor w > sw_postings_size w \<or> sw_postings_size w - sw_postings_cursor w < 4
          then (EVOKE_ERR_FORMAT, writer)
          else
            (EVOKE_OK,
             Some (w\<lparr>sw_bytes := map_option (\<lambda>bs. evoke_scope_write_u32 bs
                                    (unat (sw_postings_offset w) + unat (sw_postings_cursor w)) document) (sw_bytes w),
                     sw_postings_cursor := sw_postings_cursor w + 4, sw_previous_document := document,
                     sw_current_document_count := sw_current_document_count w + 1\<rparr>)))"

text \<open>The output cells are \<open>None\<close> for a null pointer and otherwise have the pointer and the size they hold.\<close>

definition evoke_scope_writer_finish ::
  "evoke_scope_writer option \<Rightarrow> bytes option option \<Rightarrow> u64 option
     \<Rightarrow> evoke_status \<times> evoke_scope_writer option \<times> bytes option option \<times> u64 option" where
  "evoke_scope_writer_finish writer bytes_out size_out =
     (case (writer, bytes_out, size_out) of
        (Some w, Some _, Some _) \<Rightarrow>
          if sw_bytes w = None then (EVOKE_ERR_INVALID, writer, bytes_out, size_out)
          else
            case evoke_scope_writer_close_value w of
              (status, w) \<Rightarrow>
                if status \<noteq> EVOKE_OK \<or> sw_next_value w \<noteq> sw_value_count w \<or>
                   sw_dictionary_cursor w \<noteq> sw_dictionary_size w \<or> sw_postings_cursor w \<noteq> sw_postings_size w
                then (if status = EVOKE_OK then EVOKE_ERR_FORMAT else status, Some w, Some None, Some 0)
                else
                  let bs = the (sw_bytes w);
                      bs = evoke_scope_write_u64 bs EVOKE_SCOPE_CHECKSUM_OFFSET
                             (evoke_scope_checksum bs (unat (sw_total_size w)))
                  in (EVOKE_OK, evoke_scope_writer_init (Some w), Some (Some bs), Some (sw_total_size w))
      | _ \<Rightarrow> (EVOKE_ERR_INVALID, writer, bytes_out, size_out))"

section \<open>Serializing\<close>

text \<open>The sizes of the dictionary and the number of postings; \<open>None\<close> for an input that is refused.\<close>

fun serialize_sizes :: "evoke_scope_value list \<Rightarrow> u64 \<Rightarrow> u64 \<Rightarrow> (u64 \<times> u64) option" where
  "serialize_sizes [] value_dictionary_size posting_count = Some (value_dictionary_size, posting_count)"
| "serialize_sizes (input # rest) value_dictionary_size posting_count =
     (if (sv_value_size input > 0 \<and> sv_value input = None) \<or> sv_documents input = None \<or> sv_document_count input = 0
      then None
      else
        case evoke_scope_add_size value_dictionary_size (u64_of_u32 (sv_value_size input)) of
          None \<Rightarrow> None
        | Some value_dictionary_size \<Rightarrow>
            if posting_count > UINT64_MAX - u64_of_u32 (sv_document_count input) then None
            else serialize_sizes rest value_dictionary_size (posting_count + u64_of_u32 (sv_document_count input)))"

fun append_documents :: "evoke_scope_writer option \<Rightarrow> u32 list \<Rightarrow> evoke_status \<times> evoke_scope_writer option" where
  "append_documents writer [] = (EVOKE_OK, writer)"
| "append_documents writer (document # rest) =
     (case evoke_scope_writer_append_document writer document of
        (status, writer) \<Rightarrow> if status = EVOKE_OK then append_documents writer rest else (status, writer))"

fun serialize_values :: "evoke_scope_writer option \<Rightarrow> evoke_scope_value list \<Rightarrow> evoke_status \<times> evoke_scope_writer option" where
  "serialize_values writer [] = (EVOKE_OK, writer)"
| "serialize_values writer (input # rest) =
     (case evoke_scope_writer_start_value writer (Some input) of
        (status, writer) \<Rightarrow>
          if status \<noteq> EVOKE_OK then (status, writer)
          else
            case append_documents writer (take (unat (sv_document_count input)) (the (sv_documents input))) of
              (status, writer) \<Rightarrow> if status = EVOKE_OK then serialize_values writer rest else (status, writer))"

definition evoke_scope_serialize ::
  "bool \<Rightarrow> u64 \<Rightarrow> u32 \<Rightarrow> evoke_scope_column list option \<Rightarrow> u32 \<Rightarrow> evoke_scope_value list option \<Rightarrow> u32
     \<Rightarrow> bytes option option \<Rightarrow> u64 option \<Rightarrow> evoke_status \<times> bytes option option \<times> u64 option" where
  "evoke_scope_serialize calloc_ok source_authority_checksum document_count columns column_count values value_count
     bytes_out size_out =
     (if source_authority_checksum = 0 \<or> document_count = 0 \<or> columns = None \<or> column_count = 0 \<or>
         (value_count > 0 \<and> values = None) \<or> bytes_out = None \<or> size_out = None
      then (EVOKE_ERR_INVALID, bytes_out, size_out)
      else
        let inputs = take (unat value_count) (case values of None \<Rightarrow> [] | Some vs \<Rightarrow> vs)
        in case serialize_sizes inputs 0 0 of
             None \<Rightarrow> (EVOKE_ERR_FORMAT, Some None, Some 0)
           | Some (value_dictionary_size, posting_count) \<Rightarrow>
               case evoke_scope_writer_begin calloc_ok (Some zero_scope_writer) source_authority_checksum document_count
                      columns column_count value_count value_dictionary_size posting_count SIZE_MAX of
                 (status, writer) \<Rightarrow>
                   case (if status = EVOKE_OK then serialize_values writer inputs else (status, writer)) of
                     (status, writer) \<Rightarrow>
                       if status = EVOKE_OK
                       then case evoke_scope_writer_finish writer (Some None) (Some 0) of
                              (status, writer, bytes_out, size_out) \<Rightarrow> (status, bytes_out, size_out)
                       else (status, Some None, Some 0))"


section \<open>Decoding\<close>

definition evoke_scope_header_deserialize ::
  "bytes option \<Rightarrow> u64 \<Rightarrow> u64 \<Rightarrow> u64 \<Rightarrow> evoke_scope_header option \<Rightarrow> evoke_status \<times> evoke_scope_header option" where
  "evoke_scope_header_deserialize bytes_in buffer_size object_size expected_source_authority_checksum header_out =
     (case (bytes_in, header_out) of
        (Some bs, Some _) \<Rightarrow>
          if buffer_size < of_nat EVOKE_SCOPE_HEADER_SIZE \<or> object_size < buffer_size then (EVOKE_ERR_INVALID, header_out)
          else
            let version = evoke_scope_read_u16 bs 4
            in
              if evoke_scope_read_u32 bs 0 \<noteq> EVOKE_SCOPE_MAGIC \<or> version \<noteq> EVOKE_SCOPE_VERSION \<or>
                 evoke_scope_read_u16 bs 6 \<noteq> of_nat EVOKE_SCOPE_HEADER_SIZE \<or>
                 evoke_scope_read_u16 bs 8 \<noteq> of_nat EVOKE_SCOPE_COLUMN_ENTRY_SIZE \<or>
                 evoke_scope_read_u16 bs 10 \<noteq> of_nat EVOKE_SCOPE_VALUE_ENTRY_SIZE
              then (EVOKE_ERR_FORMAT, header_out)
              else
                let column_count = evoke_scope_read_u32 bs 28;
                    value_count = evoke_scope_read_u32 bs 32;
                    dictionary_offset = evoke_scope_read_u64 bs 40;
                    dictionary_size = evoke_scope_read_u64 bs 48;
                    column_bytes = u64_of_u32 column_count * of_nat EVOKE_SCOPE_COLUMN_ENTRY_SIZE;
                    value_bytes = u64_of_u32 value_count * of_nat EVOKE_SCOPE_VALUE_ENTRY_SIZE;
                    metadata_end = of_nat EVOKE_SCOPE_HEADER_SIZE + column_bytes + value_bytes;
                    gram_block_count =
                      (if value_count = 0 then 0
                       else (u64_of_u32 value_count + of_nat EVOKE_SCOPE_GRAM_BLOCK_VALUES - 1) div
                              of_nat EVOKE_SCOPE_GRAM_BLOCK_VALUES);
                    h = \<lparr>sh_source_authority_checksum = evoke_scope_read_u64 bs 16,
                         sh_object_checksum = evoke_scope_read_u64 bs 72,
                         sh_total_size = object_size,
                         sh_dictionary_offset = dictionary_offset,
                         sh_dictionary_size = dictionary_size,
                         sh_postings_offset = evoke_scope_read_u64 bs 56,
                         sh_postings_size = evoke_scope_read_u64 bs 64,
                         sh_gram_filter_offset = dictionary_offset + dictionary_size,
                         sh_gram_filter_size = gram_block_count * of_nat EVOKE_SCOPE_GRAM_FILTER_BYTES,
                         sh_document_count = evoke_scope_read_u32 bs 24,
                         sh_column_count = column_count,
                         sh_value_count = value_count,
                         sh_version = version,
                         sh_gram_block_values = evoke_scope_read_u16 bs 12,
                         sh_gram_filter_bytes = evoke_scope_read_u16 bs 14\<rparr>
                in
                  if sh_source_authority_checksum h = 0 \<or>
                     sh_source_authority_checksum h \<noteq> expected_source_authority_checksum \<or>
                     sh_document_count h = 0 \<or> sh_column_count h = 0 \<or> metadata_end > object_size \<or>
                     sh_dictionary_offset h \<noteq> metadata_end \<or> sh_dictionary_size h > object_size - metadata_end \<or>
                     sh_gram_filter_offset h < sh_dictionary_offset h \<or> sh_gram_filter_offset h > object_size \<or>
                     sh_gram_filter_size h > object_size - sh_gram_filter_offset h \<or>
                     sh_postings_offset h \<noteq> sh_gram_filter_offset h + sh_gram_filter_size h \<or>
                     sh_postings_size h > object_size - sh_postings_offset h \<or>
                     sh_postings_offset h + sh_postings_size h \<noteq> object_size \<or>
                     sh_object_checksum h = 0 \<or> evoke_scope_read_u32 bs 36 \<noteq> 0 \<or>
                     sh_gram_block_values h \<noteq> of_nat EVOKE_SCOPE_GRAM_BLOCK_VALUES \<or>
                     sh_gram_filter_bytes h \<noteq> of_nat EVOKE_SCOPE_GRAM_FILTER_BYTES
                  then (EVOKE_ERR_FORMAT, header_out)
                  else (EVOKE_OK, Some h)
      | _ \<Rightarrow> (EVOKE_ERR_INVALID, header_out))"

definition evoke_scope_column_entry_deserialize ::
  "bytes option \<Rightarrow> u64 \<Rightarrow> evoke_scope_header option \<Rightarrow> u32 \<Rightarrow> evoke_scope_column_entry option
     \<Rightarrow> evoke_status \<times> evoke_scope_column_entry option" where
  "evoke_scope_column_entry_deserialize bytes_in buffer_size header column_index entry_out =
     (case (bytes_in, header, entry_out) of
        (Some bs, Some h, Some _) \<Rightarrow>
          if column_index \<ge> sh_column_count h \<or>
             buffer_size < u64_of_u32 (sh_column_count h) * of_nat EVOKE_SCOPE_COLUMN_ENTRY_SIZE
          then (EVOKE_ERR_INVALID, entry_out)
          else
            let entry = unat column_index * EVOKE_SCOPE_COLUMN_ENTRY_SIZE;
                e = \<lparr>ce_index_attribute = evoke_scope_read_u16 bs (entry + 0),
                     ce_heap_attribute = evoke_scope_read_u16 bs (entry + 2),
                     ce_type_oid = evoke_scope_read_u32 bs (entry + 4),
                     ce_element_type_oid = evoke_scope_read_u32 bs (entry + 8),
                     ce_collation_oid = evoke_scope_read_u32 bs (entry + 12),
                     ce_type_modifier = evoke_scope_read_u32 bs (entry + 16),
                     ce_name_offset = evoke_scope_read_u32 bs (entry + 20),
                     ce_name_size = evoke_scope_read_u32 bs (entry + 24),
                     ce_first_value = evoke_scope_read_u32 bs (entry + 28),
                     ce_value_count = evoke_scope_read_u32 bs (entry + 32)\<rparr>
            in
              if ce_index_attribute e = 0 \<or> sint (ce_heap_attribute e) \<le> 0 \<or> ce_type_oid e = 0 \<or> ce_name_size e = 0 \<or>
                 u64_of_u32 (ce_name_offset e) > sh_dictionary_size h \<or>
                 u64_of_u32 (ce_name_size e) > sh_dictionary_size h - u64_of_u32 (ce_name_offset e) \<or>
                 ce_first_value e > sh_value_count h \<or> ce_value_count e > sh_value_count h - ce_first_value e \<or>
                 evoke_scope_read_u32 bs (entry + 36) \<noteq> 0
              then (EVOKE_ERR_FORMAT, Some e)
              else (EVOKE_OK, Some e)
      | _ \<Rightarrow> (EVOKE_ERR_INVALID, entry_out))"

definition evoke_scope_value_entry_deserialize_one ::
  "bytes option \<Rightarrow> u64 \<Rightarrow> evoke_scope_header option \<Rightarrow> u32 \<Rightarrow> evoke_scope_value_entry option
     \<Rightarrow> evoke_status \<times> evoke_scope_value_entry option" where
  "evoke_scope_value_entry_deserialize_one bytes_in buffer_size header value_index entry_out =
     (case (bytes_in, header, entry_out) of
        (Some bs, Some h, Some _) \<Rightarrow>
          if value_index \<ge> sh_value_count h \<or> buffer_size < of_nat EVOKE_SCOPE_VALUE_ENTRY_SIZE
          then (EVOKE_ERR_INVALID, entry_out)
          else
            let e = \<lparr>ve_column_index = evoke_scope_read_u32 bs 0,
                     ve_kind = bs ! 4,
                     ve_value_offset = evoke_scope_read_u32 bs 8,
                     ve_value_size = evoke_scope_read_u32 bs 12,
                     ve_postings_offset = evoke_scope_read_u64 bs 16,
                     ve_document_count = evoke_scope_read_u32 bs 24,
                     ve_gram_mask = evoke_scope_read_u32 bs 28\<rparr>;
                posting_bytes = u64_of_u32 (ve_document_count e) * 4
            in
              if ve_column_index e \<ge> sh_column_count h \<or>
                 (ve_kind e \<noteq> EVOKE_SCOPE_VALUE_SCALAR \<and> ve_kind e \<noteq> EVOKE_SCOPE_VALUE_ARRAY_ELEMENT) \<or>
                 ve_document_count e = 0 \<or> u64_of_u32 (ve_value_offset e) > sh_dictionary_size h \<or>
                 u64_of_u32 (ve_value_size e) > sh_dictionary_size h - u64_of_u32 (ve_value_offset e) \<or>
                 ve_postings_offset e > sh_postings_size h \<or>
                 posting_bytes > sh_postings_size h - ve_postings_offset e
              then (EVOKE_ERR_FORMAT, Some e)
              else (EVOKE_OK, Some e)
      | _ \<Rightarrow> (EVOKE_ERR_INVALID, entry_out))"

definition evoke_scope_value_entry_deserialize ::
  "bytes option \<Rightarrow> u64 \<Rightarrow> evoke_scope_header option \<Rightarrow> u32 \<Rightarrow> evoke_scope_value_entry option
     \<Rightarrow> evoke_status \<times> evoke_scope_value_entry option" where
  "evoke_scope_value_entry_deserialize bytes_in buffer_size header value_index entry_out =
     (case header of
        None \<Rightarrow> (EVOKE_ERR_INVALID, entry_out)
      | Some h \<Rightarrow>
          if value_index \<ge> sh_value_count h then (EVOKE_ERR_INVALID, entry_out)
          else
            let required_size = u64_of_u32 (sh_value_count h) * of_nat EVOKE_SCOPE_VALUE_ENTRY_SIZE
            in
              if (sh_value_count h > 0 \<and>
                  required_size div of_nat EVOKE_SCOPE_VALUE_ENTRY_SIZE \<noteq> u64_of_u32 (sh_value_count h)) \<or>
                 bytes_in = None \<or> buffer_size < required_size
              then (EVOKE_ERR_INVALID, entry_out)
              else evoke_scope_value_entry_deserialize_one
                     (map_option (drop (unat value_index * EVOKE_SCOPE_VALUE_ENTRY_SIZE)) bytes_in)
                     (of_nat EVOKE_SCOPE_VALUE_ENTRY_SIZE) header value_index entry_out)"

section \<open>Validating\<close>

definition zero_column_entry :: evoke_scope_column_entry where
  "zero_column_entry =
     \<lparr>ce_index_attribute = 0, ce_heap_attribute = 0, ce_type_oid = 0, ce_element_type_oid = 0, ce_collation_oid = 0,
      ce_type_modifier = 0, ce_name_offset = 0, ce_name_size = 0, ce_first_value = 0, ce_value_count = 0\<rparr>"

definition zero_value_entry :: evoke_scope_value_entry where
  "zero_value_entry =
     \<lparr>ve_column_index = 0, ve_kind = 0, ve_value_offset = 0, ve_value_size = 0, ve_postings_offset = 0,
      ve_document_count = 0, ve_gram_mask = 0\<rparr>"

text \<open>The decoders as the validator calls them, on the whole object.\<close>

definition column_at :: "bytes \<Rightarrow> evoke_scope_header \<Rightarrow> u32 \<Rightarrow> evoke_status \<times> evoke_scope_column_entry" where
  "column_at bs h column =
     (case evoke_scope_column_entry_deserialize (Some (drop EVOKE_SCOPE_HEADER_SIZE bs))
             (u64_of_u32 (sh_column_count h) * of_nat EVOKE_SCOPE_COLUMN_ENTRY_SIZE) (Some h) column (Some zero_column_entry) of
        (status, entry) \<Rightarrow> (status, the entry))"

definition value_at :: "bytes \<Rightarrow> evoke_scope_header \<Rightarrow> u32 \<Rightarrow> evoke_status \<times> evoke_scope_value_entry" where
  "value_at bs h index =
     (case evoke_scope_value_entry_deserialize
             (Some (drop (EVOKE_SCOPE_HEADER_SIZE + unat (sh_column_count h) * EVOKE_SCOPE_COLUMN_ENTRY_SIZE) bs))
             (u64_of_u32 (sh_value_count h) * of_nat EVOKE_SCOPE_VALUE_ENTRY_SIZE) (Some h) index (Some zero_value_entry) of
        (status, entry) \<Rightarrow> (status, the entry))"

text \<open>
  The first loop over the columns: the remaining indices, the previous column and the expected offset and first
  value; the result is an error or the two expectations at the end.
\<close>

fun validate_columns ::
  "bytes \<Rightarrow> evoke_scope_header \<Rightarrow> nat list \<Rightarrow> evoke_scope_column_entry \<Rightarrow> u64 \<Rightarrow> u32 \<Rightarrow> evoke_status + u64 \<times> u32" where
  "validate_columns bs h [] previous_column expected_dictionary_offset expected_first_value =
     Inr (expected_dictionary_offset, expected_first_value)"
| "validate_columns bs h (column # rest) previous_column expected_dictionary_offset expected_first_value =
     (case column_at bs h (of_nat column) of
        (status, entry) \<Rightarrow>
          if status \<noteq> EVOKE_OK \<or>
             (column > 0 \<and> ce_index_attribute previous_column \<ge> ce_index_attribute entry) \<or>
             u64_of_u32 (ce_name_offset entry) \<noteq> expected_dictionary_offset \<or> ce_first_value entry \<noteq> expected_first_value
          then Inl (if status = EVOKE_OK then EVOKE_ERR_FORMAT else status)
          else validate_columns bs h rest entry (expected_dictionary_offset + u64_of_u32 (ce_name_size entry))
                 (expected_first_value + ce_value_count entry))"

text \<open>The order of two neighbouring values, and the documents of a value.\<close>

definition values_in_order :: "bytes \<Rightarrow> evoke_scope_header \<Rightarrow> evoke_scope_value_entry \<Rightarrow> evoke_scope_value_entry \<Rightarrow> bool" where
  "values_in_order bs h previous_value entry =
     (if ve_column_index previous_value = ve_column_index entry \<and> ve_kind previous_value = ve_kind entry
      then
        let common = unat (if ve_value_size previous_value < ve_value_size entry
                           then ve_value_size previous_value else ve_value_size entry);
            comparison = memcmp
              (take common (drop (unat (sh_dictionary_offset h) + unat (ve_value_offset previous_value)) bs))
              (take common (drop (unat (sh_dictionary_offset h) + unat (ve_value_offset entry)) bs))
        in \<not> (comparison > 0 \<or> (comparison = 0 \<and> ve_value_size previous_value \<ge> ve_value_size entry))
      else
        \<not> (ve_column_index previous_value > ve_column_index entry \<or>
           (ve_column_index previous_value = ve_column_index entry \<and> ve_kind previous_value > ve_kind entry)))"

definition documents_ok :: "bytes \<Rightarrow> evoke_scope_header \<Rightarrow> evoke_scope_value_entry \<Rightarrow> bool" where
  "documents_ok bs h entry \<longleftrightarrow>
     (\<forall>document \<in> set [0..<unat (ve_document_count entry)].
        let base = unat (sh_postings_offset h) + unat (ve_postings_offset entry);
            document_id = evoke_scope_read_u32 bs (base + document * 4)
        in \<not> (document_id \<ge> sh_document_count h \<or>
              (document > 0 \<and> evoke_scope_read_u32 bs (base + (document - 1) * 4) \<ge> document_id)))"

text \<open>The loop over the values; the previous value is \<open>None\<close> for the first one.\<close>

fun validate_values ::
  "bytes \<Rightarrow> evoke_scope_header \<Rightarrow> nat list \<Rightarrow> evoke_scope_value_entry option \<Rightarrow> u64 \<Rightarrow> u64 \<Rightarrow> evoke_status + u64 \<times> u64" where
  "validate_values bs h [] previous_value expected_dictionary_offset expected_postings_offset =
     Inr (expected_dictionary_offset, expected_postings_offset)"
| "validate_values bs h (index # rest) previous_value expected_dictionary_offset expected_postings_offset =
     (case value_at bs h (of_nat index) of
        (status, entry) \<Rightarrow>
          if status \<noteq> EVOKE_OK then Inl status
          else if u64_of_u32 (ve_value_offset entry) \<noteq> expected_dictionary_offset \<or>
                  ve_postings_offset entry \<noteq> expected_postings_offset
          then Inl EVOKE_ERR_FORMAT
          else if ve_column_index entry \<ge> sh_column_count h then Inl EVOKE_ERR_FORMAT
          else if (case previous_value of None \<Rightarrow> False | Some p \<Rightarrow> \<not> values_in_order bs h p entry) then Inl EVOKE_ERR_FORMAT
          else if \<not> documents_ok bs h entry then Inl EVOKE_ERR_FORMAT
          else validate_values bs h rest (Some entry)
                 (expected_dictionary_offset + u64_of_u32 (ve_value_size entry))
                 (expected_postings_offset + u64_of_u32 (ve_document_count entry) * 4))"

text \<open>The last loop: the values of a column say so.\<close>

fun validate_column_values :: "bytes \<Rightarrow> evoke_scope_header \<Rightarrow> nat \<Rightarrow> nat list \<Rightarrow> evoke_status" where
  "validate_column_values bs h column [] = EVOKE_OK"
| "validate_column_values bs h column (index # rest) =
     (case value_at bs h (of_nat index) of
        (status, entry) \<Rightarrow>
          if status \<noteq> EVOKE_OK \<or> ve_column_index entry \<noteq> of_nat column
          then (if status = EVOKE_OK then EVOKE_ERR_FORMAT else status)
          else validate_column_values bs h column rest)"

fun validate_membership :: "bytes \<Rightarrow> evoke_scope_header \<Rightarrow> nat list \<Rightarrow> evoke_status" where
  "validate_membership bs h [] = EVOKE_OK"
| "validate_membership bs h (column # rest) =
     (case column_at bs h (of_nat column) of
        (status, entry) \<Rightarrow>
          if status \<noteq> EVOKE_OK then status
          else
            let status = validate_column_values bs h column
                  [unat (ce_first_value entry)..<unat (ce_first_value entry + ce_value_count entry)]
            in if status \<noteq> EVOKE_OK then status else validate_membership bs h rest)"

definition zero_scope_header :: evoke_scope_header where
  "zero_scope_header =
     \<lparr>sh_source_authority_checksum = 0, sh_object_checksum = 0, sh_total_size = 0, sh_dictionary_offset = 0,
      sh_dictionary_size = 0, sh_postings_offset = 0, sh_postings_size = 0, sh_gram_filter_offset = 0,
      sh_gram_filter_size = 0, sh_document_count = 0, sh_column_count = 0, sh_value_count = 0, sh_version = 0,
      sh_gram_block_values = 0, sh_gram_filter_bytes = 0\<rparr>"

text \<open>The local header is written before it is read; its first content does not matter.\<close>

definition evoke_scope_validate :: "bytes option \<Rightarrow> u64 \<Rightarrow> u64 \<Rightarrow> evoke_status" where
  "evoke_scope_validate bytes_in buffer_size expected_source_authority_checksum =
     (case evoke_scope_header_deserialize bytes_in buffer_size buffer_size expected_source_authority_checksum
             (Some zero_scope_header) of
        (status, header) \<Rightarrow>
          if status \<noteq> EVOKE_OK then status
          else
            let bs = the bytes_in; h = the header
            in
              if evoke_scope_read_u64 bs 72 \<noteq> evoke_scope_checksum bs (unat buffer_size) then EVOKE_ERR_FORMAT
              else
                case validate_columns bs h [0..<unat (sh_column_count h)] zero_column_entry 0 0 of
                  Inl status \<Rightarrow> status
                | Inr (expected_dictionary_offset, expected_first_value) \<Rightarrow>
                    if expected_first_value \<noteq> sh_value_count h then EVOKE_ERR_FORMAT
                    else
                      case validate_values bs h [0..<unat (sh_value_count h)] None expected_dictionary_offset 0 of
                        Inl status \<Rightarrow> status
                      | Inr (expected_dictionary_offset, expected_postings_offset) \<Rightarrow>
                          if expected_dictionary_offset \<noteq> sh_dictionary_size h \<or>
                             expected_postings_offset \<noteq> sh_postings_size h
                          then EVOKE_ERR_FORMAT
                          else validate_membership bs h [0..<unat (sh_column_count h)])"

end
