(* ===== verification/Scope_Layout.thy ===== *)
theory Scope_Layout
  imports Scope_Codec
begin

unbundle bit_operations_syntax

text \<open>
  The scope object as a sequence of regions: header, column entries, value entries, dictionary, trigram filters and
  postings. Every store of the writer falls into one region, so that it is an update of that region and leaves
  the others alone; every read of the decoders looks at one region.
\<close>

section \<open>Accessors\<close>

lemma scope_accessors [simp]:
  "evoke_scope_write_u16 = evoke_write_u16_le"
  "evoke_scope_write_u32 = evoke_write_u32_le"
  "evoke_scope_write_u64 = evoke_write_u64_le"
  "evoke_scope_read_u16 = evoke_read_u16_le"
  "evoke_scope_read_u32 = evoke_read_u32_le"
  "evoke_scope_read_u64 = evoke_read_u64_le"
proof -
  have "[0..<4] = [0, 1, 2, 3 :: nat]" by code_simp
  then show "evoke_scope_write_u32 = evoke_write_u32_le"
    by (intro ext) (simp add: evoke_scope_write_u32_def evoke_write_u32_le_def)
qed (auto simp: fun_eq_iff evoke_scope_write_u16_def evoke_write_u16_le_def
    evoke_scope_write_u64_def evoke_write_u64_le_def evoke_scope_read_u16_def evoke_read_u16_le_def
    evoke_scope_read_u32_def evoke_read_u32_le_def evoke_scope_read_u64_def evoke_read_u64_le_def)

lemma scope_checksum_zeroed:
  assumes "80 \<le> n" and "n \<le> length bs"
  shows "evoke_scope_checksum bs n = evoke_checksum_with_zero_range bs n 72 8"
proof -
  have z: "zeroed n 72 bs = map (\<lambda>i. if i \<ge> 72 \<and> i < 80 then 0 else bs ! i) [0..<n]"
    using assms by (intro nth_equalityI) (auto simp: zeroed_def nth_append)
  have "foldl fnv_step c (map f is) = foldl (\<lambda>c i. fnv_step c (f i)) c is" for c f and "is" :: "nat list"
    by (induction "is" arbitrary: c) simp_all
  then show ?thesis
    unfolding checksum_zeroed z evoke_checksum_update_def
    by (simp add: evoke_scope_checksum_def scope_consts fnv_step_def FNV_OFFSET_BASIS_def Let_def)
qed

section \<open>Buffers in parts\<close>

lemma read_append_left [codec]:
  "off + 2 \<le> length a \<Longrightarrow> evoke_read_u16_le (a @ b) off = evoke_read_u16_le a off"
  "off + 4 \<le> length a \<Longrightarrow> evoke_read_u32_le (a @ b) off = evoke_read_u32_le a off"
  "off + 8 \<le> length a \<Longrightarrow> evoke_read_u64_le (a @ b) off = evoke_read_u64_le a off"
  by (rule read_le_cong; simp add: nth_append)+

lemma read_drop [codec]:
  "n \<le> length bs \<Longrightarrow> evoke_read_u16_le (drop n bs) off = evoke_read_u16_le bs (n + off)"
  "n \<le> length bs \<Longrightarrow> evoke_read_u32_le (drop n bs) off = evoke_read_u32_le bs (n + off)"
  "n \<le> length bs \<Longrightarrow> evoke_read_u64_le (drop n bs) off = evoke_read_u64_le bs (n + off)"
  by (simp_all add: evoke_read_u16_le_def evoke_read_u32_le_def evoke_read_u64_le_def add.assoc)

lemma read_list_update [codec]:
  "i < off \<or> off + 2 \<le> i \<Longrightarrow> evoke_read_u16_le (bs[i := x]) off = evoke_read_u16_le bs off"
  "i < off \<or> off + 4 \<le> i \<Longrightarrow> evoke_read_u32_le (bs[i := x]) off = evoke_read_u32_le bs off"
  "i < off \<or> off + 8 \<le> i \<Longrightarrow> evoke_read_u64_le (bs[i := x]) off = evoke_read_u64_le bs off"
  by (rule read_le_cong; auto simp: nth_list_update)+

lemma put_append_right: "put_bytes (a @ b) (length a + off) bs = a @ put_bytes b off bs"
proof (induction bs arbitrary: b off)
  case (Cons x bs)
  then show ?case by (simp add: put_bytes.simps list_update_append add_Suc_right [symmetric] del: add_Suc_right)
qed (simp add: put_bytes.simps)

lemma put_append_left: "off + length bs \<le> length a \<Longrightarrow> put_bytes (a @ b) off bs = put_bytes a off bs @ b"
proof (induction bs arbitrary: a off)
  case (Cons x bs)
  then show ?case by (simp add: put_bytes.simps list_update_append)
qed (simp add: put_bytes.simps)

text \<open>A table of entries of one size.\<close>

definition chunks :: "nat \<Rightarrow> bytes list \<Rightarrow> bool" where
  "chunks n xs \<longleftrightarrow> (\<forall>x \<in> set xs. length x = n)"

lemma chunks_nth: "chunks n xs \<Longrightarrow> j < length xs \<Longrightarrow> length (xs ! j) = n"
  by (simp add: chunks_def)

lemma chunks_update [simp]: "chunks n xs \<Longrightarrow> length x = n \<Longrightarrow> chunks n (xs[j := x])"
  using set_update_subset_insert [of xs j x] by (auto simp: chunks_def)

lemma length_chunks: "chunks n xs \<Longrightarrow> length (concat xs) = n * length xs"
  by (induction xs) (auto simp: chunks_def)

lemma split_chunk:
  assumes "chunks n xs" "j < length xs"
  shows "concat xs = concat (take j xs) @ xs ! j @ concat (drop (Suc j) xs)"
    and "length (concat (take j xs)) = n * j"
proof -
  show "concat xs = concat (take j xs) @ xs ! j @ concat (drop (Suc j) xs)"
    using id_take_nth_drop [OF assms(2)] by (metis concat.simps(2) concat_append)
  have "chunks n (take j xs)" using assms(1) set_take_subset [of j xs] by (auto simp: chunks_def)
  then show "length (concat (take j xs)) = n * j" using assms(2) by (simp add: length_chunks)
qed

lemma drop_chunk:
  assumes "chunks n xs" "j < length xs"
  shows "drop (length a + n * j) (a @ concat xs @ b) = xs ! j @ concat (drop (Suc j) xs) @ b"
proof -
  have "a @ concat xs @ b = (a @ concat (take j xs)) @ xs ! j @ concat (drop (Suc j) xs) @ b"
    using split_chunk(1) [OF assms] by simp
  moreover have "length (a @ concat (take j xs)) = length a + n * j" using split_chunk(2) [OF assms] by simp
  ultimately show ?thesis by (metis append_eq_conv_conj)
qed

lemma put_chunk:
  assumes "chunks n xs" "j < length xs" "off + length bs \<le> n"
  shows "put_bytes (a @ concat xs @ b) (length a + n * j + off) bs = a @ concat (xs[j := put_bytes (xs ! j) off bs]) @ b"
proof -
  let ?a = "a @ concat (take j xs)" and ?b = "concat (drop (Suc j) xs) @ b"
  have "length (xs ! j) = n" using assms(1,2) by (rule chunks_nth)
  have "put_bytes (a @ concat xs @ b) (length a + n * j + off) bs = put_bytes (?a @ xs ! j @ ?b) (length ?a + off) bs"
    using split_chunk [OF assms(1,2)] by simp
  also have "\<dots> = ?a @ put_bytes (xs ! j) off bs @ ?b"
    unfolding put_append_right using assms \<open>length (xs ! j) = n\<close> by (simp add: put_append_left)
  also have "\<dots> = a @ concat (xs[j := put_bytes (xs ! j) off bs]) @ b"
    using assms(2) by (simp add: upd_conv_take_nth_drop)
  finally show ?thesis .
qed

lemma write_chunk:
  assumes "chunks n xs" "j < length xs"
  shows "off + 2 \<le> n \<Longrightarrow> evoke_write_u16_le (a @ concat xs @ b) (length a + n * j + off) x =
      a @ concat (xs[j := evoke_write_u16_le (xs ! j) off x]) @ b"
    and "off + 4 \<le> n \<Longrightarrow> evoke_write_u32_le (a @ concat xs @ b) (length a + n * j + off) y =
      a @ concat (xs[j := evoke_write_u32_le (xs ! j) off y]) @ b"
    and "off + 8 \<le> n \<Longrightarrow> evoke_write_u64_le (a @ concat xs @ b) (length a + n * j + off) z =
      a @ concat (xs[j := evoke_write_u64_le (xs ! j) off z]) @ b"
    and "off < n \<Longrightarrow> (a @ concat xs @ b)[length a + n * j + off := c] = a @ concat (xs[j := (xs ! j)[off := c]]) @ b"
  unfolding evoke_write_u16_le_def evoke_write_u32_le_def evoke_write_u64_le_def
  using put_chunk [OF assms, of off "[c]", unfolded put_bytes.simps] by (simp_all add: put_chunk [OF assms])

lemma read_chunk:
  assumes "chunks n xs" "j < length xs"
  shows "off + 2 \<le> n \<Longrightarrow> evoke_read_u16_le (a @ concat xs @ b) (length a + n * j + off) = evoke_read_u16_le (xs ! j) off"
    and "off + 4 \<le> n \<Longrightarrow> evoke_read_u32_le (a @ concat xs @ b) (length a + n * j + off) = evoke_read_u32_le (xs ! j) off"
    and "off + 8 \<le> n \<Longrightarrow> evoke_read_u64_le (a @ concat xs @ b) (length a + n * j + off) = evoke_read_u64_le (xs ! j) off"
    and "off < n \<Longrightarrow> (a @ concat xs @ b) ! (length a + n * j + off) = xs ! j ! off"
proof -
  have len: "length a + n * j \<le> length (a @ concat xs @ b)"
    using assms(2) length_chunks [OF assms(1)] by (simp add: trans_le_add1)
  note d = drop_chunk [OF assms, of a b] and r = read_drop [OF len, of off, symmetric]
  show "off + 2 \<le> n \<Longrightarrow> evoke_read_u16_le (a @ concat xs @ b) (length a + n * j + off) = evoke_read_u16_le (xs ! j) off"
    "off + 4 \<le> n \<Longrightarrow> evoke_read_u32_le (a @ concat xs @ b) (length a + n * j + off) = evoke_read_u32_le (xs ! j) off"
    "off + 8 \<le> n \<Longrightarrow> evoke_read_u64_le (a @ concat xs @ b) (length a + n * j + off) = evoke_read_u64_le (xs ! j) off"
    unfolding r d using chunks_nth [OF assms] by (simp_all add: read_append_left)
  show "off < n \<Longrightarrow> (a @ concat xs @ b) ! (length a + n * j + off) = xs ! j ! off"
    using nth_drop [OF len, of off] chunks_nth [OF assms] unfolding d by (simp add: nth_append)
qed

section \<open>The regions of an object\<close>

record scope_image =
  im_head :: bytes
  im_columns :: "bytes list"
  im_values :: "bytes list"
  im_dictionary :: bytes
  im_filters :: "bytes list"
  im_postings :: bytes

definition flat :: "scope_image \<Rightarrow> bytes" where
  "flat im = im_head im @ concat (im_columns im) @ concat (im_values im) @ im_dictionary im @
     concat (im_filters im) @ im_postings im"

definition sized :: "nat \<Rightarrow> nat \<Rightarrow> nat \<Rightarrow> nat \<Rightarrow> scope_image \<Rightarrow> bool" where
  "sized cc vc ds ps im \<longleftrightarrow>
     length (im_head im) = 80 \<and> chunks 40 (im_columns im) \<and> length (im_columns im) = cc \<and>
     chunks 32 (im_values im) \<and> length (im_values im) = vc \<and> length (im_dictionary im) = ds \<and>
     chunks 1024 (im_filters im) \<and> length (im_filters im) = (vc + 255) div 256 \<and> length (im_postings im) = ps"

text \<open>Where the value entries, the dictionary, the filters and the postings begin.\<close>

abbreviation values_at :: "nat \<Rightarrow> nat" where "values_at cc \<equiv> 80 + 40 * cc"
abbreviation dictionary_at :: "nat \<Rightarrow> nat \<Rightarrow> nat" where "dictionary_at cc vc \<equiv> 80 + 40 * cc + 32 * vc"
abbreviation filters_at :: "nat \<Rightarrow> nat \<Rightarrow> nat \<Rightarrow> nat" where "filters_at cc vc ds \<equiv> 80 + 40 * cc + 32 * vc + ds"
abbreviation postings_at :: "nat \<Rightarrow> nat \<Rightarrow> nat \<Rightarrow> nat" where
  "postings_at cc vc ds \<equiv> 80 + 40 * cc + 32 * vc + ds + 1024 * ((vc + 255) div 256)"

lemma length_regions:
  assumes "sized cc vc ds ps im"
  shows "length (im_head im) = 80" "length (concat (im_columns im)) = 40 * cc" "length (concat (im_values im)) = 32 * vc"
    "length (im_dictionary im) = ds" "length (concat (im_filters im)) = 1024 * ((vc + 255) div 256)"
    "length (im_postings im) = ps"
  using assms length_chunks [of 40 "im_columns im"] length_chunks [of 32 "im_values im"] length_chunks [of 1024 "im_filters im"]
  by (simp_all add: sized_def)

lemma length_flat: "sized cc vc ds ps im \<Longrightarrow> length (flat im) = postings_at cc vc ds + ps"
  by (simp add: flat_def length_regions)

lemma flat_parts:
  assumes "sized cc vc ds ps im"
  shows "flat im = im_head im @ concat (im_columns im) @
      (concat (im_values im) @ im_dictionary im @ concat (im_filters im) @ im_postings im)"
    and "flat im = (im_head im @ concat (im_columns im)) @ concat (im_values im) @
      (im_dictionary im @ concat (im_filters im) @ im_postings im)"
    and "flat im = (im_head im @ concat (im_columns im) @ concat (im_values im)) @ im_dictionary im @
      (concat (im_filters im) @ im_postings im)"
    and "flat im = (im_head im @ concat (im_columns im) @ concat (im_values im) @ im_dictionary im) @
      concat (im_filters im) @ im_postings im"
    and "flat im = (im_head im @ concat (im_columns im) @ concat (im_values im) @ im_dictionary im @
      concat (im_filters im)) @ im_postings im"
    and "length (im_head im @ concat (im_columns im)) = values_at cc"
    and "length (im_head im @ concat (im_columns im) @ concat (im_values im)) = dictionary_at cc vc"
    and "length (im_head im @ concat (im_columns im) @ concat (im_values im) @ im_dictionary im) = filters_at cc vc ds"
    and "length (im_head im @ concat (im_columns im) @ concat (im_values im) @ im_dictionary im @ concat (im_filters im)) =
      postings_at cc vc ds"
  using length_regions [OF assms] by (simp_all add: flat_def)

text \<open>Stores.\<close>

lemma put_head: "sized cc vc ds ps im \<Longrightarrow> off + length bs \<le> 80 \<Longrightarrow>
   put_bytes (flat im) off bs = flat (im\<lparr>im_head := put_bytes (im_head im) off bs\<rparr>)"
  by (simp add: flat_def put_append_left sized_def)

lemma put_column:
  assumes "sized cc vc ds ps im" "j < cc" "off + length bs \<le> 40"
  shows "put_bytes (flat im) (80 + 40 * j + off) bs =
    flat (im\<lparr>im_columns := (im_columns im)[j := put_bytes (im_columns im ! j) off bs]\<rparr>)"
  using put_chunk [of 40 "im_columns im" j off bs "im_head im"] assms
  unfolding flat_parts(1) [OF assms(1)] by (simp add: sized_def flat_def)

lemma put_value:
  assumes "sized cc vc ds ps im" "j < vc" "off + length bs \<le> 32"
  shows "put_bytes (flat im) (values_at cc + 32 * j + off) bs =
    flat (im\<lparr>im_values := (im_values im)[j := put_bytes (im_values im ! j) off bs]\<rparr>)"
  using put_chunk [of 32 "im_values im" j off bs "im_head im @ concat (im_columns im)"] assms
  unfolding flat_parts(2) [OF assms(1)] flat_parts(6) [OF assms(1)] by (simp add: sized_def flat_def)

lemma put_dictionary:
  assumes "sized cc vc ds ps im" "off + length bs \<le> ds"
  shows "put_bytes (flat im) (dictionary_at cc vc + off) bs =
    flat (im\<lparr>im_dictionary := put_bytes (im_dictionary im) off bs\<rparr>)"
proof -
  note p = put_append_right [of "im_head im @ concat (im_columns im) @ concat (im_values im)"
      "im_dictionary im @ concat (im_filters im) @ im_postings im" off bs, unfolded flat_parts(7) [OF assms(1)]]
  show ?thesis unfolding flat_parts(3) [OF assms(1)] p using assms by (simp add: put_append_left sized_def flat_def)
qed

lemma put_filter:
  assumes "sized cc vc ds ps im" "j < (vc + 255) div 256" "length bs = 1024"
  shows "put_bytes (flat im) (filters_at cc vc ds + 1024 * j) bs = flat (im\<lparr>im_filters := (im_filters im)[j := bs]\<rparr>)"
proof -
  have "put_bytes (im_filters im ! j) 0 bs = bs"
    using assms put_bytes_append [of 0 bs "im_filters im ! j"] chunks_nth [of 1024 "im_filters im" j] by (simp add: sized_def)
  then show ?thesis
    using put_chunk [of 1024 "im_filters im" j 0 bs
        "im_head im @ concat (im_columns im) @ concat (im_values im) @ im_dictionary im" "im_postings im"] assms
    unfolding flat_parts(4) [OF assms(1)] flat_parts(8) [OF assms(1)] by (simp add: sized_def flat_def)
qed

lemma put_postings:
  assumes "sized cc vc ds ps im"
  shows "put_bytes (flat im) (postings_at cc vc ds + off) bs =
    flat (im\<lparr>im_postings := put_bytes (im_postings im) off bs\<rparr>)"
  using put_append_right [of "im_head im @ concat (im_columns im) @ concat (im_values im) @ im_dictionary im @
      concat (im_filters im)" "im_postings im" off bs, unfolded flat_parts(9) [OF assms]]
  unfolding flat_parts(5) [OF assms] by (simp add: flat_def)

text \<open>Reads.\<close>

lemma drop_column:
  assumes "sized cc vc ds ps im" "j < cc"
  shows "\<exists>rest. drop (80 + 40 * j) (flat im) = im_columns im ! j @ rest"
proof -
  have "chunks 40 (im_columns im)" "j < length (im_columns im)" "length (im_head im) = 80" using assms by (simp_all add: sized_def)
  then show ?thesis using drop_chunk [of 40 "im_columns im" j "im_head im"] flat_parts(1) [OF assms(1)] by metis
qed

lemma drop_value:
  assumes "sized cc vc ds ps im" "j < vc"
  shows "\<exists>rest. drop (values_at cc + 32 * j) (flat im) = im_values im ! j @ rest"
proof -
  have "chunks 32 (im_values im)" "j < length (im_values im)" using assms by (simp_all add: sized_def)
  then show ?thesis
    using drop_chunk [of 32 "im_values im" j "im_head im @ concat (im_columns im)"] flat_parts(2,6) [OF assms(1)] by metis
qed

lemma drop_dictionary: "sized cc vc ds ps im \<Longrightarrow> \<exists>rest. drop (dictionary_at cc vc) (flat im) = im_dictionary im @ rest"
  using flat_parts(3,7) [of cc vc ds ps im] by (metis append_eq_conv_conj)

lemma drop_filter:
  assumes "sized cc vc ds ps im" "j < (vc + 255) div 256"
  shows "\<exists>rest. drop (filters_at cc vc ds + 1024 * j) (flat im) = im_filters im ! j @ rest"
proof -
  have "chunks 1024 (im_filters im)" "j < length (im_filters im)" using assms by (simp_all add: sized_def)
  then show ?thesis
    using drop_chunk [of 1024 "im_filters im" j
        "im_head im @ concat (im_columns im) @ concat (im_values im) @ im_dictionary im"] flat_parts(4,8) [OF assms(1)]
    by metis
qed

lemma drop_postings: "sized cc vc ds ps im \<Longrightarrow> drop (postings_at cc vc ds) (flat im) = im_postings im"
  using flat_parts(5,9) [of cc vc ds ps im] by (metis append_eq_conv_conj)


section \<open>Entries\<close>

lemma write_column_chunk:
  assumes "chunks 40 xs" "j < length xs"
  shows "write_column_entry (a @ concat xs @ b) (length a + 40 * j) c cursor =
    a @ concat (xs[j := write_column_entry (xs ! j) 0 c cursor]) @ b"
proof -
  have len: "length (xs ! j) = 40" using assms by (rule chunks_nth)
  note w = write_chunk [where n = 40 and j = j] write_chunk [where n = 40 and j = j and off = 0, simplified]
  show ?thesis unfolding write_column_entry_def Let_def scope_accessors
    by (simp add: w assms len del: add_2_eq_Suc add_2_eq_Suc')
qed

lemma length_write_column_entry [simp]: "length (write_column_entry bs off c cursor) = length bs"
  by (simp add: write_column_entry_def Let_def)

lemma write_column_flat:
  assumes "sized cc vc ds ps im" "j < cc"
  shows "write_column_entry (flat im) (80 + 40 * j) c cursor =
    flat (im\<lparr>im_columns := (im_columns im)[j := write_column_entry (im_columns im ! j) 0 c cursor]\<rparr>)"
proof -
  have "chunks 40 (im_columns im)" "j < length (im_columns im)" "length (im_head im) = 80" using assms by (simp_all add: sized_def)
  then show ?thesis
    using write_column_chunk [of "im_columns im" j "im_head im"
        "concat (im_values im) @ im_dictionary im @ concat (im_filters im) @ im_postings im" c cursor]
    by (simp add: flat_def)
qed

text \<open>The fields of a column entry and of a value entry.\<close>

definition column_fields :: "bytes \<Rightarrow> evoke_scope_column_entry" where
  "column_fields e =
     \<lparr>ce_index_attribute = evoke_read_u16_le e 0, ce_heap_attribute = evoke_read_u16_le e 2,
      ce_type_oid = evoke_read_u32_le e 4, ce_element_type_oid = evoke_read_u32_le e 8,
      ce_collation_oid = evoke_read_u32_le e 12, ce_type_modifier = evoke_read_u32_le e 16,
      ce_name_offset = evoke_read_u32_le e 20, ce_name_size = evoke_read_u32_le e 24,
      ce_first_value = evoke_read_u32_le e 28, ce_value_count = evoke_read_u32_le e 32\<rparr>"

definition value_fields :: "bytes \<Rightarrow> evoke_scope_value_entry" where
  "value_fields e =
     \<lparr>ve_column_index = evoke_read_u32_le e 0, ve_kind = e ! 4, ve_value_offset = evoke_read_u32_le e 8,
      ve_value_size = evoke_read_u32_le e 12, ve_postings_offset = evoke_read_u64_le e 16,
      ve_document_count = evoke_read_u32_le e 24, ve_gram_mask = evoke_read_u32_le e 28\<rparr>"

definition column_entry_of :: "evoke_scope_column \<Rightarrow> u32 \<Rightarrow> evoke_scope_column_entry" where
  "column_entry_of c name_offset =
     \<lparr>ce_index_attribute = sc_index_attribute c, ce_heap_attribute = sc_heap_attribute c, ce_type_oid = sc_type_oid c,
      ce_element_type_oid = sc_element_type_oid c, ce_collation_oid = sc_collation_oid c,
      ce_type_modifier = sc_type_modifier c, ce_name_offset = name_offset, ce_name_size = sc_name_size c,
      ce_first_value = sc_first_value c, ce_value_count = sc_value_count c\<rparr>"

lemma column_fields_written:
  "length e = 40 \<Longrightarrow> column_fields (write_column_entry e 0 c cursor) = column_entry_of c (ucast cursor)"
  by (simp add: column_fields_def column_entry_of_def write_column_entry_def Let_def codec del: add_2_eq_Suc add_2_eq_Suc')

lemma column_reserved_written:
  "length e = 40 \<Longrightarrow> evoke_read_u32_le (write_column_entry e 0 c cursor) 36 = evoke_read_u32_le e 36"
  by (simp add: write_column_entry_def Let_def codec)

lemma read_replicate_zero [simp]:
  "off + 4 \<le> n \<Longrightarrow> evoke_read_u32_le (replicate n 0) off = 0"
  by (simp add: evoke_read_u32_le_def)

lemma column_at_flat:
  assumes "sized cc vc ds ps im" "j < cc"
  shows "column_fields (im_columns im ! j) =
      \<lparr>ce_index_attribute = evoke_read_u16_le (drop 80 (flat im)) (j * 40 + 0),
       ce_heap_attribute = evoke_read_u16_le (drop 80 (flat im)) (j * 40 + 2),
       ce_type_oid = evoke_read_u32_le (drop 80 (flat im)) (j * 40 + 4),
       ce_element_type_oid = evoke_read_u32_le (drop 80 (flat im)) (j * 40 + 8),
       ce_collation_oid = evoke_read_u32_le (drop 80 (flat im)) (j * 40 + 12),
       ce_type_modifier = evoke_read_u32_le (drop 80 (flat im)) (j * 40 + 16),
       ce_name_offset = evoke_read_u32_le (drop 80 (flat im)) (j * 40 + 20),
       ce_name_size = evoke_read_u32_le (drop 80 (flat im)) (j * 40 + 24),
       ce_first_value = evoke_read_u32_le (drop 80 (flat im)) (j * 40 + 28),
       ce_value_count = evoke_read_u32_le (drop 80 (flat im)) (j * 40 + 32)\<rparr>"
    and "evoke_read_u32_le (drop 80 (flat im)) (j * 40 + 36) = evoke_read_u32_le (im_columns im ! j) 36"
    and "evoke_read_u32_le (flat im) (80 + j * 40 + 28) = ce_first_value (column_fields (im_columns im ! j))"
    and "evoke_read_u32_le (flat im) (80 + j * 40 + 32) = ce_value_count (column_fields (im_columns im ! j))"
proof -
  obtain rest where rest: "drop (80 + 40 * j) (flat im) = im_columns im ! j @ rest" using drop_column [OF assms] by blast
  have len: "length (im_columns im ! j) = 40" "80 + 40 * j \<le> length (flat im)" "80 \<le> length (flat im)"
    using assms chunks_nth [of 40 "im_columns im" j] length_flat [OF assms(1)] by (simp_all add: sized_def)
  have r: "evoke_read_u16_le (drop 80 (flat im)) (j * 40 + off) = evoke_read_u16_le (im_columns im ! j) off" if "off + 2 \<le> 40" for off
    using that len read_drop(1) [OF len(2), of off] unfolding rest by (simp add: codec mult.commute add.assoc)
  have s: "evoke_read_u32_le (drop 80 (flat im)) (j * 40 + off) = evoke_read_u32_le (im_columns im ! j) off" if "off + 4 \<le> 40" for off
    using that len read_drop(2) [OF len(2), of off] unfolding rest by (simp add: codec mult.commute add.assoc)
  show "column_fields (im_columns im ! j) =
      \<lparr>ce_index_attribute = evoke_read_u16_le (drop 80 (flat im)) (j * 40 + 0),
       ce_heap_attribute = evoke_read_u16_le (drop 80 (flat im)) (j * 40 + 2),
       ce_type_oid = evoke_read_u32_le (drop 80 (flat im)) (j * 40 + 4),
       ce_element_type_oid = evoke_read_u32_le (drop 80 (flat im)) (j * 40 + 8),
       ce_collation_oid = evoke_read_u32_le (drop 80 (flat im)) (j * 40 + 12),
       ce_type_modifier = evoke_read_u32_le (drop 80 (flat im)) (j * 40 + 16),
       ce_name_offset = evoke_read_u32_le (drop 80 (flat im)) (j * 40 + 20),
       ce_name_size = evoke_read_u32_le (drop 80 (flat im)) (j * 40 + 24),
       ce_first_value = evoke_read_u32_le (drop 80 (flat im)) (j * 40 + 28),
       ce_value_count = evoke_read_u32_le (drop 80 (flat im)) (j * 40 + 32)\<rparr>"
    using r [of 0] r [of 2] by (simp add: s column_fields_def del: add_2_eq_Suc add_2_eq_Suc')
  show "evoke_read_u32_le (drop 80 (flat im)) (j * 40 + 36) = evoke_read_u32_le (im_columns im ! j) 36"
    by (rule s) simp
  show "evoke_read_u32_le (flat im) (80 + j * 40 + 28) = ce_first_value (column_fields (im_columns im ! j))"
    "evoke_read_u32_le (flat im) (80 + j * 40 + 32) = ce_value_count (column_fields (im_columns im ! j))"
    using s [of 28] s [of 32] len(3) by (simp_all add: column_fields_def codec add.assoc)
qed

end
