(* ===== verification/Scope_Writer.thy ===== *)
theory Scope_Writer
  imports Scope_Layout
begin

unbundle bit_operations_syntax

text \<open>
  What the scope writer builds. The ghost state is the list of the values started so far, each with the documents
  appended to it; the invariant \<open>writer_ok\<close> says what the regions of the object hold for that list. Every operation
  of the writer that succeeds takes the invariant to the longer list, and a finished object holds the
  whole input.
\<close>

section \<open>What an object holds\<close>

type_synonym scope_values = "(evoke_scope_value \<times> u32 list) list"

definition name_bytes :: "evoke_scope_column \<Rightarrow> bytes" where
  "name_bytes c = take (unat (sc_name_size c)) (the (sc_name c))"

definition names :: "evoke_scope_column list \<Rightarrow> bytes" where
  "names cols = concat (map name_bytes cols)"

definition text_of :: "evoke_scope_value \<Rightarrow> bytes" where
  "text_of v = sized_bytes (sv_value v) (sv_value_size v)"

definition texts :: "scope_values \<Rightarrow> bytes" where
  "texts st = concat (map (text_of \<circ> fst) st)"

definition posts :: "scope_values \<Rightarrow> u32 list" where
  "posts st = concat (map snd st)"

text \<open>The text a value's trigrams are taken from and whether it is folded; an empty value has none.\<close>

definition gram_inputs :: "evoke_scope_value \<Rightarrow> (bytes \<times> bool) list" where
  "gram_inputs v =
     (if sv_value_size v > 0
      then [(case sv_gram_value v of None \<Rightarrow> text_of v | Some g \<Rightarrow> sized_bytes (Some g) (sv_gram_value_size v),
             sv_gram_value v \<noteq> None)]
      else [])"

definition mask_of :: "evoke_scope_value \<Rightarrow> u32" where
  "mask_of v = (case gram_inputs v of [] \<Rightarrow> 0 | (g, folded) # _ \<Rightarrow> value_mask (replicate 1024 0) g folded)"

definition block_inputs :: "scope_values \<Rightarrow> nat \<Rightarrow> (bytes \<times> bool) list" where
  "block_inputs st b = concat (map (gram_inputs \<circ> fst) (take 256 (drop (256 * b) st)))"

definition entry_of :: "evoke_scope_column list \<Rightarrow> scope_values \<Rightarrow> nat \<Rightarrow> evoke_scope_value_entry" where
  "entry_of cols st j =
     (case st ! j of (v, docs) \<Rightarrow>
       \<lparr>ve_column_index = sv_column_index v, ve_kind = sv_kind v,
        ve_value_offset = of_nat (length (names cols @ texts (take j st))), ve_value_size = sv_value_size v,
        ve_postings_offset = of_nat (4 * length (posts (take j st))), ve_document_count = of_nat (length docs),
        ve_gram_mask = mask_of v\<rparr>)"

text \<open>The order of the values: by column, kind and then bytes.\<close>

definition text_before :: "bytes \<Rightarrow> bytes \<Rightarrow> bool" where
  "text_before xs ys \<longleftrightarrow>
     (let n = min (length xs) (length ys); c = memcmp (take n xs) (take n ys)
      in c < 0 \<or> c = 0 \<and> length xs < length ys)"

definition value_before :: "evoke_scope_value \<Rightarrow> evoke_scope_value \<Rightarrow> bool" where
  "value_before a b \<longleftrightarrow>
     sv_column_index a < sv_column_index b \<or>
     sv_column_index a = sv_column_index b \<and>
       (sv_kind a < sv_kind b \<or> sv_kind a = sv_kind b \<and> text_before (text_of a) (text_of b))"

text \<open>The memory behind the pointers of the inputs is as large as the sizes say.\<close>

definition column_fits :: "evoke_scope_column \<Rightarrow> bool" where
  "column_fits c \<longleftrightarrow> (\<forall>n. sc_name c = Some n \<longrightarrow> unat (sc_name_size c) \<le> length n)"

definition value_fits :: "evoke_scope_value \<Rightarrow> bool" where
  "value_fits v \<longleftrightarrow>
     (\<forall>t. sv_value v = Some t \<longrightarrow> unat (sv_value_size v) \<le> length t) \<and>
     (\<forall>t. sv_gram_value v = Some t \<longrightarrow> unat (sv_gram_value_size v) \<le> length t) \<and>
     (\<forall>ds. sv_documents v = Some ds \<longrightarrow> unat (sv_document_count v) \<le> length ds)"

section \<open>The invariant\<close>

definition layout_ok :: "scope_image \<Rightarrow> evoke_scope_writer \<Rightarrow> bool" where
  "layout_ok im w \<longleftrightarrow>
     (let cc = unat (sw_column_count w); vc = unat (sw_value_count w); ds = unat (sw_dictionary_size w);
          ps = unat (sw_postings_size w)
      in sized cc vc ds ps im \<and> unat (sw_column_bytes w) = 40 * cc \<and>
         unat (sw_dictionary_offset w) = dictionary_at cc vc \<and> unat (sw_gram_filter_offset w) = filters_at cc vc ds \<and>
         unat (sw_postings_offset w) = postings_at cc vc ds \<and> unat (sw_total_size w) = postings_at cc vc ds + ps \<and>
         ds < 2 ^ 32)"

definition columns_ok :: "evoke_scope_column list \<Rightarrow> scope_image \<Rightarrow> bool" where
  "columns_ok cols im \<longleftrightarrow>
     length cols = length (im_columns im) \<and>
     (\<forall>i < length cols.
        column_fields (im_columns im ! i) = column_entry_of (cols ! i) (of_nat (length (names (take i cols)))) \<and>
        evoke_read_u32_le (im_columns im ! i) 36 = 0)"

text \<open>A value entry as it will be once the open value is closed.\<close>

definition closed_entry :: "evoke_scope_writer \<Rightarrow> scope_image \<Rightarrow> nat \<Rightarrow> bytes" where
  "closed_entry w im j =
     (if sw_value_open w \<and> Suc j = unat (sw_next_value w)
      then evoke_write_u32_le (im_values im ! j) 24 (sw_current_document_count w) else im_values im ! j)"

definition entries_ok :: "evoke_scope_column list \<Rightarrow> scope_values \<Rightarrow> scope_image \<Rightarrow> evoke_scope_writer \<Rightarrow> bool" where
  "entries_ok cols st im w \<longleftrightarrow>
     unat (sw_next_value w) = length st \<and> length st \<le> unat (sw_value_count w) \<and>
     (\<forall>j < length st. value_fields (closed_entry w im j) = entry_of cols st j)"

definition dictionary_ok :: "evoke_scope_column list \<Rightarrow> scope_values \<Rightarrow> scope_image \<Rightarrow> evoke_scope_writer \<Rightarrow> bool" where
  "dictionary_ok cols st im w \<longleftrightarrow>
     unat (sw_dictionary_cursor w) = length (names cols @ texts st) \<and>
     take (length (names cols @ texts st)) (im_dictionary im) = names cols @ texts st"

definition filters_ok :: "scope_values \<Rightarrow> scope_image \<Rightarrow> bool" where
  "filters_ok st im \<longleftrightarrow>
     (\<forall>b < length (im_filters im). im_filters im ! b = block_filter (replicate 1024 0) (block_inputs st b))"

definition postings_ok :: "scope_values \<Rightarrow> scope_image \<Rightarrow> evoke_scope_writer \<Rightarrow> bool" where
  "postings_ok st im w \<longleftrightarrow>
     unat (sw_postings_cursor w) = 4 * length (posts st) \<and> sw_postings_cursor w \<le> sw_postings_size w \<and>
     (\<forall>m < length (posts st). evoke_read_u32_le (im_postings im) (4 * m) = posts st ! m)"

definition open_ok :: "scope_values \<Rightarrow> evoke_scope_writer \<Rightarrow> bool" where
  "open_ok st w \<longleftrightarrow>
     (if sw_value_open w
      then st \<noteq> [] \<and> unat (sw_current_document_count w) = length (snd (last st)) \<and>
           (snd (last st) \<noteq> [] \<longrightarrow> sw_previous_document w = last (snd (last st))) \<and>
           (\<forall>x \<in> set (butlast st). snd x \<noteq> [])
      else sw_current_document_count w = 0 \<and> (\<forall>x \<in> set st. snd x \<noteq> []))"

text \<open>What the writer has checked of the values.\<close>

definition value_checked :: "evoke_scope_column list \<Rightarrow> u32 \<Rightarrow> nat \<Rightarrow> evoke_scope_value \<times> u32 list \<Rightarrow> bool" where
  "value_checked cols document_count j x \<longleftrightarrow>
     (case x of (v, docs) \<Rightarrow>
       unat (sv_column_index v) < length cols \<and>
       (let c = cols ! unat (sv_column_index v)
        in unat (sc_first_value c) \<le> j \<and> j < unat (sc_first_value c) + unat (sc_value_count c)) \<and>
       (sv_kind v = EVOKE_SCOPE_VALUE_SCALAR \<or> sv_kind v = EVOKE_SCOPE_VALUE_ARRAY_ELEMENT) \<and>
       length (text_of v) = unat (sv_value_size v) \<and>
       sorted_wrt (<) docs \<and> (\<forall>d \<in> set docs. d < document_count))"

definition values_checked :: "evoke_scope_column list \<Rightarrow> scope_values \<Rightarrow> u32 \<Rightarrow> bool" where
  "values_checked cols st document_count \<longleftrightarrow>
     (\<forall>j < length st. value_checked cols document_count j (st ! j)) \<and>
     (\<forall>j. Suc j < length st \<longrightarrow> value_before (fst (st ! j)) (fst (st ! Suc j)))"

definition writer_ok :: "evoke_scope_column list \<Rightarrow> scope_values \<Rightarrow> scope_image \<Rightarrow> evoke_scope_writer \<Rightarrow> bool" where
  "writer_ok cols st im w \<longleftrightarrow>
     sw_bytes w = Some (flat im) \<and> layout_ok im w \<and> columns_ok cols im \<and> entries_ok cols st im w \<and>
     dictionary_ok cols st im w \<and> filters_ok st im \<and> postings_ok st im w \<and> open_ok st w \<and>
     values_checked cols st (sw_document_count w)"

lemma writer_okD:
  assumes "writer_ok cols st im w"
  shows "sw_bytes w = Some (flat im)" "layout_ok im w" "columns_ok cols im" "entries_ok cols st im w"
    "dictionary_ok cols st im w" "filters_ok st im" "postings_ok st im w" "open_ok st w"
    "values_checked cols st (sw_document_count w)"
  using assms by (simp_all add: writer_ok_def)

lemma layout_okD:
  assumes "layout_ok im w"
  shows "sized (unat (sw_column_count w)) (unat (sw_value_count w)) (unat (sw_dictionary_size w)) (unat (sw_postings_size w)) im"
    and "unat (sw_column_bytes w) = 40 * unat (sw_column_count w)"
    and "unat (sw_dictionary_offset w) = dictionary_at (unat (sw_column_count w)) (unat (sw_value_count w))"
    and "unat (sw_gram_filter_offset w) =
      filters_at (unat (sw_column_count w)) (unat (sw_value_count w)) (unat (sw_dictionary_size w))"
    and "unat (sw_postings_offset w) =
      postings_at (unat (sw_column_count w)) (unat (sw_value_count w)) (unat (sw_dictionary_size w))"
    and "unat (sw_total_size w) = postings_at (unat (sw_column_count w)) (unat (sw_value_count w))
      (unat (sw_dictionary_size w)) + unat (sw_postings_size w)"
    and "unat (sw_dictionary_size w) < 2 ^ 32"
  using assms by (simp_all add: layout_ok_def Let_def)

section \<open>Closing a value\<close>

lemma nth_write_skip [codec]:
  "i < off \<or> off + 4 \<le> i \<Longrightarrow> evoke_write_u32_le bs off v ! i = bs ! i"
  "i < off \<or> off + 8 \<le> i \<Longrightarrow> evoke_write_u64_le bs off u ! i = bs ! i"
  by (auto simp: evoke_write_u32_le_def evoke_write_u64_le_def nth_put_bytes)

lemma value_fields_written:
  assumes "length e = 32"
  shows "value_fields (evoke_write_u32_le e 24 n) = (value_fields e)\<lparr>ve_document_count := n\<rparr>"
  using assms by (simp add: value_fields_def codec)

lemma sized_updates:
  assumes "sized cc vc ds ps im"
  shows "length x = 32 \<Longrightarrow> sized cc vc ds ps (im\<lparr>im_values := (im_values im)[j := x]\<rparr>)"
    and "length y = 40 \<Longrightarrow> sized cc vc ds ps (im\<lparr>im_columns := (im_columns im)[j := y]\<rparr>)"
    and "length z = 1024 \<Longrightarrow> sized cc vc ds ps (im\<lparr>im_filters := (im_filters im)[j := z]\<rparr>)"
    and "length d = ds \<Longrightarrow> sized cc vc ds ps (im\<lparr>im_dictionary := d\<rparr>)"
    and "length p = ps \<Longrightarrow> sized cc vc ds ps (im\<lparr>im_postings := p\<rparr>)"
    and "length h = 80 \<Longrightarrow> sized cc vc ds ps (im\<lparr>im_head := h\<rparr>)"
  using assms by (simp_all add: sized_def)

lemma length_entry: "sized cc vc ds ps im \<Longrightarrow> j < vc \<Longrightarrow> length (im_values im ! j) = 32"
  using chunks_nth [of 32 "im_values im" j] by (simp add: sized_def)

definition close_image :: "evoke_scope_writer \<Rightarrow> scope_image \<Rightarrow> scope_image" where
  "close_image w im =
     (if sw_value_open w
      then im\<lparr>im_values := (im_values im)[unat (sw_next_value w) - 1 :=
              closed_entry w im (unat (sw_next_value w) - 1)]\<rparr>
      else im)"

lemma close_value_ok:
  assumes ok: "writer_ok cols st im w" and run: "evoke_scope_writer_close_value w = (EVOKE_OK, w')"
  shows "writer_ok cols st (close_image w im) w' \<and> \<not> sw_value_open w' \<and>
    w' = w\<lparr>sw_bytes := Some (flat (close_image w im)), sw_value_open := False,
           sw_current_document_count := 0, sw_previous_document := sw_previous_document w'\<rparr>"
proof (cases "sw_value_open w")
  case False
  then show ?thesis using assms
    by (auto simp: evoke_scope_writer_close_value_def close_image_def writer_ok_def open_ok_def)
next
  case True
  note inv = writer_okD [OF ok]
  note lay = layout_okD [OF inv(2)]
  let ?k = "unat (sw_next_value w) - 1"
  let ?e = "evoke_write_u32_le (im_values im ! ?k) 24 (sw_current_document_count w)"
  have st: "unat (sw_next_value w) = length st" "st \<noteq> []" "length st \<le> unat (sw_value_count w)"
    using inv(4,8) True by (simp_all add: entries_ok_def open_ok_def)
  then have k: "unat (sw_next_value w) = length st" "st \<noteq> []" "?k < unat (sw_value_count w)" "Suc ?k = unat (sw_next_value w)"
    by (cases st; simp)+
  have e: "closed_entry w im ?k = ?e" "length ?e = 32"
    using True k length_entry [OF lay(1) k(3)] by (simp_all add: closed_entry_def)
  have "0 < unat (sw_next_value w)" using k by simp
  then have pred: "unat (sw_next_value w - 1) = ?k"
    by (simp add: unat_sub word_le_nat_alt Suc_le_eq)
  have docs: "sw_current_document_count w \<noteq> 0"
    and w': "w' = w\<lparr>sw_bytes := Some (evoke_write_u32_le (flat im) (80 + 40 * unat (sw_column_count w) + ?k * 32 + 24)
                (sw_current_document_count w)), sw_value_open := False, sw_current_document_count := 0, sw_previous_document := 0\<rparr>"
    using run True inv(1) lay(2) pred by (auto simp: evoke_scope_writer_close_value_def scope_consts Let_def split: if_splits)
  have bs: "evoke_write_u32_le (flat im) (80 + 40 * unat (sw_column_count w) + ?k * 32 + 24) (sw_current_document_count w) =
      flat (close_image w im)"
    using put_value [OF lay(1) k(3), of 24 "[_, _, _, _]"] True e(1)
    by (simp add: evoke_write_u32_le_def close_image_def mult.commute)
  have "layout_ok (close_image w im) w'"
    using inv(2) True sized_updates(1) [OF lay(1) e(2)] e(1) by (simp add: w' close_image_def layout_ok_def Let_def)
  moreover have "entries_ok cols st (close_image w im) w'"
  proof -
    have "closed_entry w' (close_image w im) j = closed_entry w im j" if "j < length st" for j
    proof (cases "j = ?k")
      case False
      then have "Suc j \<noteq> unat (sw_next_value w)" using k(4) by simp
      then show ?thesis using False True by (simp add: closed_entry_def close_image_def w')
    qed (use True k lay(1) in \<open>simp add: closed_entry_def close_image_def w' sized_def\<close>)
    then show ?thesis using inv(4) by (simp add: entries_ok_def w')
  qed
  moreover have "open_ok st w'"
  proof -
    have "snd (last st) \<noteq> []" using docs inv(8) True by (auto simp: open_ok_def word_unat_eq_iff)
    moreover have "set st = insert (last st) (set (butlast st))" using k(2)
      by (metis append_butlast_last_id list.simps(15) rotate1.simps(2) set_rotate1)
    ultimately show ?thesis using inv(8) True by (simp add: open_ok_def w')
  qed
  moreover have w'': "w' = w\<lparr>sw_bytes := Some (flat (close_image w im)), sw_value_open := False,
      sw_current_document_count := 0, sw_previous_document := 0\<rparr>"
    unfolding w' bs by (rule refl)
  moreover have "columns_ok cols (close_image w im)" "dictionary_ok cols st (close_image w im) w'"
      "filters_ok st (close_image w im)" "postings_ok st (close_image w im) w'"
    using inv(3,5,6,7) by (simp_all add: w'' close_image_def columns_ok_def dictionary_ok_def filters_ok_def postings_ok_def)
  ultimately show ?thesis using inv(9) by (simp add: writer_ok_def)
qed

section \<open>Appending a document\<close>

definition add_document :: "scope_values \<Rightarrow> u32 \<Rightarrow> scope_values" where
  "add_document st d = butlast st @ [(fst (last st), snd (last st) @ [d])]"

lemma ascending_bounded:
  fixes docs :: "u32 list"
  assumes "sorted_wrt (<) docs" "\<forall>d \<in> set docs. d < n"
  shows "length docs \<le> unat n"
proof -
  have "distinct docs" using assms(1) by (simp add: strict_sorted_iff)
  moreover have "inj_on unat (set docs)" by (simp add: inj_on_def word_unat_eq_iff)
  ultimately have "length docs = card (unat ` set docs)" by (simp add: card_image distinct_card)
  also have "\<dots> \<le> card {..< unat n}" using assms(2) by (intro card_mono) (auto simp: word_less_nat_alt)
  finally show ?thesis by simp
qed

lemma posts_add: "st \<noteq> [] \<Longrightarrow> posts (add_document st d) = posts st @ [d]"
proof -
  assume "st \<noteq> []"
  then obtain xs x where "st = xs @ [x]" by (meson rev_exhaust)
  then show ?thesis by (simp add: posts_def add_document_def)
qed

lemma add_document_nth:
  assumes "st \<noteq> []"
  shows "length (add_document st d) = length st"
    and "j < length st \<Longrightarrow> fst (add_document st d ! j) = fst (st ! j)"
    and "Suc j < length st \<Longrightarrow> add_document st d ! j = st ! j"
    and "Suc j = length st \<Longrightarrow> add_document st d ! j = (fst (last st), snd (last st) @ [d])"
    and "j < length st \<Longrightarrow> take j (add_document st d) = take j st"
    and "map fst (add_document st d) = map fst st"
proof -
  obtain xs x where "st = xs @ [x]" using assms by (meson rev_exhaust)
  then show "length (add_document st d) = length st"
    "j < length st \<Longrightarrow> fst (add_document st d ! j) = fst (st ! j)"
    "Suc j < length st \<Longrightarrow> add_document st d ! j = st ! j"
    "Suc j = length st \<Longrightarrow> add_document st d ! j = (fst (last st), snd (last st) @ [d])"
    "j < length st \<Longrightarrow> take j (add_document st d) = take j st"
    "map fst (add_document st d) = map fst st"
    by (auto simp: add_document_def nth_append)
qed

lemma texts_fst: "map fst st = map fst st' \<Longrightarrow> texts st = texts st'"
  unfolding texts_def by (metis map_map)

lemma blocks_fst: "map fst st = map fst st' \<Longrightarrow> block_inputs st b = block_inputs st' b"
proof -
  assume "map fst st = map fst st'"
  then have "map fst (take 256 (drop (256 * b) st)) = map fst (take 256 (drop (256 * b) st'))"
    by (metis take_map drop_map)
  then show ?thesis unfolding block_inputs_def by (metis map_map)
qed

lemma append_document_ok:
  assumes ok: "writer_ok cols st im w" and run: "evoke_scope_writer_append_document (Some w) d = (EVOKE_OK, w')"
  shows "\<exists>im' w''. w' = Some w'' \<and> writer_ok cols (add_document st d) im' w'' \<and> im_head im' = im_head im"
proof -
  note inv = writer_okD [OF ok]
  note lay = layout_okD [OF inv(2)]
  let ?im = "im\<lparr>im_postings := evoke_write_u32_le (im_postings im) (unat (sw_postings_cursor w)) d\<rparr>"
  let ?w = "w\<lparr>sw_bytes := Some (flat ?im), sw_postings_cursor := sw_postings_cursor w + 4, sw_previous_document := d,
              sw_current_document_count := sw_current_document_count w + 1\<rparr>"
  have guard: "sw_value_open w" "d < sw_document_count w"
      "sw_current_document_count w > 0 \<Longrightarrow> sw_previous_document w < d"
      "sw_postings_cursor w \<le> sw_postings_size w" "\<not> sw_postings_size w - sw_postings_cursor w < 4"
    using run by (auto simp: evoke_scope_writer_append_document_def split: if_splits)
  have room: "unat (sw_postings_cursor w) + 4 \<le> unat (sw_postings_size w)"
    using guard(4,5) by (simp add: word_less_nat_alt word_le_nat_alt unat_sub)
  have flat': "evoke_write_u32_le (flat im) (unat (sw_postings_offset w) + unat (sw_postings_cursor w)) d = flat ?im"
    using put_postings [OF lay(1)] lay(5) by (simp add: evoke_write_u32_le_def)
  have w': "w' = Some ?w"
    using run inv(1) flat' by (auto simp: evoke_scope_writer_append_document_def split: if_splits)
  have st: "st \<noteq> []" "unat (sw_current_document_count w) = length (snd (last st))"
      "snd (last st) \<noteq> [] \<Longrightarrow> sw_previous_document w = last (snd (last st))" "\<forall>x \<in> set (butlast st). snd x \<noteq> []"
    using inv(8) guard(1) by (simp_all add: open_ok_def)
  note nth = add_document_nth [OF st(1)]
  have last: "value_checked cols (sw_document_count w) (length st - 1) (last st)"
    using inv(9) st(1) by (simp add: values_checked_def last_conv_nth)
  have sorted: "sorted_wrt (<) (snd (last st) @ [d])" "\<forall>e \<in> set (snd (last st) @ [d]). e < sw_document_count w"
  proof -
    have s: "sorted_wrt (<) (snd (last st))" "\<forall>e \<in> set (snd (last st)). e < sw_document_count w"
      using last by (auto simp: value_checked_def split: prod.splits)
    show "\<forall>e \<in> set (snd (last st) @ [d]). e < sw_document_count w" using s(2) guard(2) by simp
    show "sorted_wrt (<) (snd (last st) @ [d])"
    proof (cases "snd (last st) = []")
      case False
      then have "sw_current_document_count w > 0" using st(2) by (simp add: word_less_nat_alt)
      then have "last (snd (last st)) < d" using guard(3) st(3) False by simp
      moreover have "e \<le> last (snd (last st))" if "e \<in> set (snd (last st))" for e
        using s(1) that False by (cases "snd (last st)" rule: rev_cases) (auto simp: sorted_wrt_append)
      ultimately show ?thesis using s(1) by (fastforce simp: sorted_wrt_append)
    qed simp
  qed
  have "length (snd (last st)) + 1 \<le> unat (sw_document_count w)" using ascending_bounded [OF sorted] by simp
  then have count: "unat (sw_current_document_count w + 1) = length (snd (last st)) + 1"
    using st(2) u32_less [of "sw_document_count w"] by (subst unat_add_u32) (simp_all del: u32_less)
  have "layout_ok ?im ?w" using inv(2) lay(1) sized_updates(5) [OF lay(1)] by (simp add: layout_ok_def Let_def sized_def)
  moreover have "columns_ok cols ?im" using inv(3) by (simp add: columns_ok_def)
  moreover have "entries_ok cols (add_document st d) ?im ?w"
  proof -
    have "value_fields (closed_entry ?w ?im j) = entry_of cols (add_document st d) j" if j: "j < length st" for j
    proof -
      have next_is: "unat (sw_next_value w) = length st" and old: "value_fields (closed_entry w im j) = entry_of cols st j"
        and len: "length (im_values im ! j) = 32"
        using inv(4) j length_entry [OF lay(1), of j] by (simp_all add: entries_ok_def)
      show ?thesis
      proof (cases "Suc j = length st")
        case False
        then show ?thesis using old j nth(3,5) [of j] next_is by (simp add: closed_entry_def entry_of_def)
      next
        case True
        have "st ! j = last st" using True st(1) by (metis diff_Suc_1 last_conv_nth)
        moreover have "sw_current_document_count w + 1 = of_nat (length (snd (last st)) + 1)"
          using count by (metis of_nat_unat ucast_id)
        ultimately show ?thesis using old True j nth(4,5) [of j] next_is guard(1) len
          by (simp add: closed_entry_def entry_of_def value_fields_written split: prod.splits)
            (simp add: value_fields_def)
      qed
    qed
    then show ?thesis using inv(4) nth(1) by (simp add: entries_ok_def)
  qed
  moreover have "dictionary_ok cols (add_document st d) ?im ?w"
    using inv(5) texts_fst [OF nth(6)] by (simp add: dictionary_ok_def)
  moreover have "filters_ok (add_document st d) ?im"
    using inv(6) blocks_fst [OF nth(6)] by (simp add: filters_ok_def)
  moreover have "postings_ok (add_document st d) ?im ?w"
  proof -
    have cursor: "unat (sw_postings_cursor w) = 4 * length (posts st)" using inv(7) by (simp add: postings_ok_def)
    have next_cursor: "unat (sw_postings_cursor w + 4) = unat (sw_postings_cursor w) + 4"
      using room u64_less [of "sw_postings_size w"] by (subst unat_add_u64) (simp_all del: u64_less)
    have "evoke_read_u32_le (im_postings ?im) (4 * m) = (posts st @ [d]) ! m" if "m < length (posts st @ [d])" for m
    proof (cases "m = length (posts st)")
      case True
      then show ?thesis using cursor room length_regions(6) [OF lay(1)] by simp
    next
      case False
      then have "4 * m + 4 \<le> unat (sw_postings_cursor w)" "m < length (posts st)" using that cursor by simp_all
      then show ?thesis using inv(7) by (simp add: postings_ok_def codec nth_append)
    qed
    then show ?thesis using cursor next_cursor room posts_add [OF st(1)] by (simp add: postings_ok_def word_le_nat_alt)
  qed
  moreover have "open_ok (add_document st d) ?w"
    using st count guard(1) by (simp add: open_ok_def add_document_def)
  moreover have "values_checked cols (add_document st d) (sw_document_count ?w)"
  proof -
    have "value_checked cols (sw_document_count w) j (add_document st d ! j)" if j: "j < length st" for j
    proof (cases "Suc j = length st")
      case True
      then have "j = length st - 1" by simp
      then show ?thesis using last nth(4) [OF True] sorted by (auto simp: value_checked_def split: prod.splits)
    next
      case False
      then show ?thesis using inv(9) nth(3) [of j] j by (simp add: values_checked_def)
    qed
    then show ?thesis using inv(9) nth(1,2) by (simp add: values_checked_def)
  qed
  ultimately have "writer_ok cols (add_document st d) ?im ?w" by (simp add: writer_ok_def)
  then show ?thesis using w' by fastforce
qed


section \<open>Starting a value\<close>

lemma three_way_order:
  fixes pc vc :: "'a::linorder" and pk vk :: "'b::linorder" and ps vs :: "'c::linorder" and c :: int
  assumes "n = (0 :: nat) \<Longrightarrow> c = 0"
  shows "\<not> (pc > vc \<or> (pc = vc \<and> pk > vk) \<or>
      (pc = vc \<and> pk = vk \<and>
       (if pc = vc \<and> pk = vk
        then if (if n = 0 then 0 else c) = 0 then if ps < vs then -1 else if ps > vs then 1 else 0
             else if n = 0 then 0 else c
        else 0) \<ge> 0)) \<longleftrightarrow>
    pc < vc \<or> pc = vc \<and> (pk < vk \<or> pk = vk \<and> (c < 0 \<or> c = 0 \<and> ps < vs))"
  using assms by (cases pc vc rule: linorder_cases; cases pk vk rule: linorder_cases) auto

lemma follows_previous_iff:
  assumes "evoke_read_u32_le bs entry = sv_column_index p" "bs ! (entry + 4) = sv_kind p"
    and "evoke_read_u32_le bs (entry + 12) = sv_value_size p"
    and "take (unat (sv_value_size p)) (drop (at_dict + unat (evoke_read_u32_le bs (entry + 8))) bs) = text_of p"
    and "length (text_of p) = unat (sv_value_size p)" "length (text_of v) = unat (sv_value_size v)"
  shows "follows_previous bs entry at_dict v \<longleftrightarrow> value_before p v"
proof -
  let ?n = "min (length (text_of p)) (length (text_of v))"
  have common: "unat (if sv_value_size p < sv_value_size v then sv_value_size p else sv_value_size v) = ?n"
    using assms(5,6) by (simp add: word_less_nat_alt min_def)
  have "?n \<le> unat (sv_value_size p)" using assms(5) by simp
  then have "take ?n d = take ?n (take (unat (sv_value_size p)) d)" for d :: bytes by (simp only: take_take min_absorb1)
  then have prefix: "take ?n (drop (at_dict + unat (evoke_read_u32_le bs (entry + 8))) bs) = take ?n (text_of p)"
    using assms(4) by metis
  have sizes: "length (text_of p) < length (text_of v) \<longleftrightarrow> sv_value_size p < sv_value_size v"
    using assms(5,6) by (simp add: word_less_nat_alt)
  have zero: "?n = 0 \<Longrightarrow> memcmp (take ?n (text_of p)) (take ?n (text_of v)) = 0" by simp
  show ?thesis
    unfolding follows_previous_def Let_def scope_accessors add_0_right assms(1,2,3) common text_of_def [of v, symmetric] prefix
      value_before_def text_before_def sizes
    by (rule three_way_order [OF zero])
qed

text \<open>The stores of one value: its entry, its text, its trigrams.\<close>

definition new_entry :: "bytes \<Rightarrow> evoke_scope_value \<Rightarrow> u64 \<Rightarrow> u64 \<Rightarrow> bytes" where
  "new_entry e v cursor postings_cursor =
     evoke_write_u64_le (evoke_write_u32_le (evoke_write_u32_le ((evoke_write_u32_le e 0 (sv_column_index v))[4 := sv_kind v])
       8 (ucast cursor)) 12 (sv_value_size v)) 16 postings_cursor"

lemma length_new_entry [simp]: "length (new_entry e v c p) = length e"
  by (simp add: new_entry_def)

lemma new_entry_chunk:
  assumes "chunks 32 xs" "k < length xs"
  shows "evoke_write_u64_le (evoke_write_u32_le (evoke_write_u32_le
      ((evoke_write_u32_le (a @ concat xs @ b) (length a + 32 * k) (sv_column_index v))[length a + 32 * k + 4 := sv_kind v])
       (length a + 32 * k + 8) (ucast cursor)) (length a + 32 * k + 12) (sv_value_size v))
       (length a + 32 * k + 16) postings_cursor =
     a @ concat (xs[k := new_entry (xs ! k) v cursor postings_cursor]) @ b"
proof -
  have len: "length (xs ! k) = 32" using assms by (rule chunks_nth)
  note w = write_chunk [where n = 32 and j = k] write_chunk(2) [where n = 32 and j = k and off = 0, simplified]
  show ?thesis by (simp add: w assms len new_entry_def)
qed

lemma new_entry_flat:
  assumes "sized cc vc ds ps im" "k < vc"
  shows "evoke_write_u64_le (evoke_write_u32_le (evoke_write_u32_le
      ((evoke_write_u32_le (flat im) (80 + 40 * cc + k * 32) (sv_column_index v))[80 + 40 * cc + k * 32 + 4 := sv_kind v])
       (80 + 40 * cc + k * 32 + 8) (ucast cursor)) (80 + 40 * cc + k * 32 + 12) (sv_value_size v))
       (80 + 40 * cc + k * 32 + 16) postings_cursor =
     flat (im\<lparr>im_values := (im_values im)[k := new_entry (im_values im ! k) v cursor postings_cursor]\<rparr>)"
proof -
  let ?a = "im_head im @ concat (im_columns im)"
  have c: "chunks 32 (im_values im)" "k < length (im_values im)" using assms by (simp_all add: sized_def)
  have at: "80 + 40 * cc + k * 32 = length ?a + 32 * k" using flat_parts(6) [OF assms(1)] by simp
  show ?thesis unfolding at flat_parts(2) [OF assms(1)] new_entry_chunk [OF c, of ?a] by (simp add: flat_def)
qed

lemma new_entry_fields:
  assumes "length e = 32"
  shows "value_fields (evoke_write_u32_le (evoke_write_u32_le (new_entry e v cursor pc) 28 m) 24 n) =
    \<lparr>ve_column_index = sv_column_index v, ve_kind = sv_kind v, ve_value_offset = ucast cursor,
     ve_value_size = sv_value_size v, ve_postings_offset = pc, ve_document_count = n, ve_gram_mask = m\<rparr>"
  using assms by (simp add: value_fields_def new_entry_def codec)

lemma block_filter_append: "block_filter f (xs @ ys) = block_filter (block_filter f xs) ys"
  by (simp add: block_filter_def)

lemma value_bytes_flat:
  fixes w :: evoke_scope_writer and v :: evoke_scope_value
  defines "b \<equiv> unat (sw_next_value w) div 256"
  assumes lay: "layout_ok im w" and k: "unat (sw_next_value w) < unat (sw_value_count w)"
    and room: "unat (sw_dictionary_cursor w) + unat (sv_value_size v) \<le> unat (sw_dictionary_size w)"
    and v: "length (text_of v) = unat (sv_value_size v)" "sv_value_size v > 0 \<Longrightarrow> sv_value v \<noteq> None"
  shows "write_value_bytes w v (flat im) =
    (flat (im\<lparr>im_dictionary := put_bytes (im_dictionary im) (unat (sw_dictionary_cursor w)) (text_of v),
              im_filters := (im_filters im)[b := block_filter (im_filters im ! b) (gram_inputs v)]\<rparr>), mask_of v)"
proof -
  note l = layout_okD [OF lay]
  have b: "b < (unat (sw_value_count w) + 255) div 256" unfolding b_def using k by (simp add: less_eq_div_iff_mult_less_eq Suc_le_eq)
  show ?thesis
  proof (cases "sv_value_size v > 0")
    case False
    then have "text_of v = []" using v(1) by (simp add: word_less_nat_alt)
    moreover have "b < length (im_filters im)" using b l(1) by (simp add: sized_def)
    ultimately show ?thesis using False
      by (simp add: write_value_bytes_def gram_inputs_def mask_of_def put_bytes.simps block_filter_def)
  next
    case True
    let ?im = "im\<lparr>im_dictionary := put_bytes (im_dictionary im) (unat (sw_dictionary_cursor w)) (text_of v)\<rparr>"
    let ?g = "case sv_gram_value v of None \<Rightarrow> text_of v | Some g \<Rightarrow> sized_bytes (Some g) (sv_gram_value_size v)"
    let ?f = "im_filters im ! b"
    have sized: "sized (unat (sw_column_count w)) (unat (sw_value_count w)) (unat (sw_dictionary_size w)) (unat (sw_postings_size w)) ?im"
      using sized_updates(4) [OF l(1)] l(1) by (simp add: sized_def)
    have dict: "put_bytes (flat im) (unat (sw_dictionary_offset w) + unat (sw_dictionary_cursor w)) (text_of v) = flat ?im"
      unfolding l(3) using put_dictionary [OF l(1)] room v(1) by simp
    have at: "unat (sw_gram_filter_offset w) + b * 1024 =
        filters_at (unat (sw_column_count w)) (unat (sw_value_count w)) (unat (sw_dictionary_size w)) + 1024 * b"
      using l(4) by simp
    have len: "length ?f = 1024" using chunks_nth [of 1024 "im_filters im" b] b l(1) by (simp add: sized_def)
    have slice: "take 1024 (drop (unat (sw_gram_filter_offset w) + b * 1024) (flat ?im)) = ?f"
      using drop_filter [OF sized b] len unfolding at by auto
    have grams: "evoke_scope_add_value_grams (Some ?f) (Some ?g) (sv_gram_value v \<noteq> None) (Some 0) =
        (Some (block_filter ?f (gram_inputs v)), Some (mask_of v))"
      using True add_value_grams_some [of ?f ?g "sv_gram_value v \<noteq> None" 0] value_mask_any [of ?f ?g _ "replicate 1024 0"]
      by (simp add: gram_inputs_def mask_of_def block_filter_def)
    have "length (block_filter ?f (gram_inputs v)) = 1024" using block_filter_keeps [OF len] by blast
    from put_filter [OF sized b this]
    have put: "put_bytes (flat ?im) (unat (sw_gram_filter_offset w) + b * 1024) (block_filter ?f (gram_inputs v)) =
        flat (?im\<lparr>im_filters := (im_filters im)[b := block_filter ?f (gram_inputs v)]\<rparr>)"
      unfolding at by simp
    have g: "map_option (\<lambda>_. sized_bytes (if sv_gram_value v = None then sv_value v else sv_gram_value v)
          (if sv_gram_value v = None then sv_value_size v else sv_gram_value_size v))
          (if sv_gram_value v = None then sv_value v else sv_gram_value v) = Some ?g"
      using True v(2) by (auto simp: text_of_def split: option.splits)
    show ?thesis
      unfolding write_value_bytes_def Let_def scope_consts b_def [symmetric] text_of_def [symmetric] dict slice g grams
      using True put by simp
  qed
qed

lemma block_inputs_snoc:
  "block_inputs (st @ [x]) b = block_inputs st b @ (if b = length st div 256 then gram_inputs (fst x) else [])"
proof -
  consider "b < length st div 256" | "b = length st div 256" | "length st div 256 < b" by linarith
  then show ?thesis
  proof cases
    case 1
    then have "256 * b + 256 \<le> length st" by (simp add: less_eq_div_iff_mult_less_eq Suc_le_eq [symmetric])
    then show ?thesis using 1 by (simp add: block_inputs_def)
  next
    case 2
    then have "256 * b \<le> length st" "length st - 256 * b < 256" by (simp_all add: minus_mult_div_eq_mod)
    then show ?thesis using 2 by (simp add: block_inputs_def)
  next
    case 3
    then have "length st < 256 * b" by (simp add: div_less_iff_less_mult)
    then show ?thesis using 3 by (simp add: block_inputs_def)
  qed
qed


definition start_image :: "evoke_scope_writer \<Rightarrow> evoke_scope_value \<Rightarrow> scope_image \<Rightarrow> scope_image" where
  "start_image w v im =
     (let k = unat (sw_next_value w); b = k div 256
      in im\<lparr>im_values := (im_values im)[k :=
              evoke_write_u32_le (new_entry (im_values im ! k) v (sw_dictionary_cursor w) (sw_postings_cursor w)) 28 (mask_of v)],
            im_dictionary := put_bytes (im_dictionary im) (unat (sw_dictionary_cursor w)) (text_of v),
            im_filters := (im_filters im)[b := block_filter (im_filters im ! b) (gram_inputs v)]\<rparr>)"

definition start_writer :: "evoke_scope_writer \<Rightarrow> evoke_scope_value \<Rightarrow> scope_image \<Rightarrow> evoke_scope_writer" where
  "start_writer w v im =
     w\<lparr>sw_bytes := Some (flat (start_image w v im)),
       sw_dictionary_cursor := sw_dictionary_cursor w + u64_of_u32 (sv_value_size v),
       sw_next_value := sw_next_value w + 1, sw_value_open := True\<rparr>"

lemma block_filter_Nil [simp]: "block_filter f [] = f"
  by (simp add: block_filter_def)

lemma texts_snoc: "texts (st @ [x]) = texts st @ text_of (fst x)"
  by (simp add: texts_def)

lemma entry_of_snoc: "j < length st \<Longrightarrow> entry_of cols (st @ [x]) j = entry_of cols st j"
  by (simp add: entry_of_def nth_append)

lemma put_bytes_extends: "n + length bs \<le> length d \<Longrightarrow> take (n + length bs) (put_bytes d n bs) = take n d @ bs"
  by (simp add: put_bytes_append)

lemma of_nat_unat_narrow: "unat (x :: u64) = n \<Longrightarrow> (of_nat n :: u32) = ucast x" "unat (x :: u64) = n \<Longrightarrow> of_nat n = x"
  by (auto simp: of_nat_unat)

lemma u32_of_nat: "n < 2 ^ 32 \<Longrightarrow> unat (of_nat n :: u32) = n"
  by (simp add: unat_of_nat)

lemma start_keeps:
  assumes ok: "writer_ok cols st im w" and closed: "\<not> sw_value_open w"
    and k: "sw_next_value w < sw_value_count w"
    and room: "unat (sw_dictionary_cursor w) + unat (sv_value_size v) \<le> unat (sw_dictionary_size w)"
    and tlen: "length (text_of v) = unat (sv_value_size v)"
    and new: "value_checked cols (sw_document_count w) (length st) (v, [])"
    and order: "st \<noteq> [] \<Longrightarrow> value_before (fst (last st)) v"
  shows "writer_ok cols (st @ [(v, [])]) (start_image w v im) (start_writer w v im)"
proof -
  note inv = writer_okD [OF ok]
  note lay = layout_okD [OF inv(2)]
  let ?im = "start_image w v im" and ?w = "start_writer w v im" and ?k = "unat (sw_next_value w)"
  have kl: "?k = length st" "?k < unat (sw_value_count w)" using inv(4) k by (simp_all add: entries_ok_def word_less_nat_alt)
  have next_is: "unat (sw_next_value w + 1) = length st + 1"
    using kl u32_less [of "sw_value_count w"] by (subst unat_add_u32) (simp_all del: u32_less)
  have cursor: "unat (sw_dictionary_cursor w) = length (names cols @ texts st)" using inv(5) by (simp add: dictionary_ok_def)
  have next_cursor: "unat (sw_dictionary_cursor w + u64_of_u32 (sv_value_size v)) = unat (sw_dictionary_cursor w) + unat (sv_value_size v)"
    using room lay(7) by (subst unat_add_u64) simp_all
  have len: "length (im_values im ! ?k) = 32" by (rule length_entry [OF lay(1) kl(2)])
  have flen: "length (im_filters im ! (?k div 256)) = 1024"
    using chunks_nth [of 1024 "im_filters im" "?k div 256"] lay(1) kl(2)
    by (simp add: sized_def less_eq_div_iff_mult_less_eq Suc_le_eq)
  have "layout_ok ?im ?w"
    using inv(2) lay(1) len block_filter_keeps [OF flen, of "gram_inputs v"]
    by (simp add: layout_ok_def start_image_def start_writer_def Let_def sized_def)
  moreover have "columns_ok cols ?im" using inv(3) by (simp add: columns_ok_def start_image_def Let_def)
  moreover have "entries_ok cols (st @ [(v, [])]) ?im ?w"
  proof -
    have "value_fields (closed_entry ?w ?im j) = entry_of cols (st @ [(v, [])]) j" if "j < length (st @ [(v, [])])" for j
    proof (cases "j = length st")
      case True
      have cdc: "sw_current_document_count w = 0" using inv(8) closed by (simp add: open_ok_def)
      have pc: "unat (sw_postings_cursor w) = 4 * length (posts st)" using inv(7) by (simp add: postings_ok_def)
      have "closed_entry ?w ?im j = evoke_write_u32_le (evoke_write_u32_le
          (new_entry (im_values im ! ?k) v (sw_dictionary_cursor w) (sw_postings_cursor w)) 28 (mask_of v)) 24 0"
        using True next_is kl lay(1) cdc by (simp add: closed_entry_def start_image_def start_writer_def Let_def sized_def)
      then show ?thesis
        using True new_entry_fields [OF len] of_nat_unat_narrow(1) [OF cursor] of_nat_unat_narrow(2) [OF pc]
        by (simp add: entry_of_def)
    next
      case False
      then have j: "j < length st" using that by simp
      then have "closed_entry ?w ?im j = closed_entry w im j"
        using next_is kl closed by (simp add: closed_entry_def start_image_def start_writer_def Let_def)
      then show ?thesis using inv(4) j by (simp add: entries_ok_def entry_of_snoc)
    qed
    then show ?thesis using next_is kl by (simp add: entries_ok_def start_writer_def)
  qed
  moreover have "dictionary_ok cols (st @ [(v, [])]) ?im ?w"
    using inv(5) next_cursor cursor tlen room put_bytes_extends [of "length (names cols @ texts st)" "text_of v" "im_dictionary im"]
      length_regions(4) [OF lay(1)]
    by (simp add: dictionary_ok_def start_image_def start_writer_def Let_def texts_snoc add.assoc)
  moreover have "filters_ok (st @ [(v, [])]) ?im"
    using inv(6) kl(1) unfolding filters_ok_def
    by (auto simp: start_image_def Let_def block_inputs_snoc block_filter_append nth_list_update)
  moreover have "postings_ok (st @ [(v, [])]) ?im ?w"
    using inv(7) by (simp add: postings_ok_def start_image_def start_writer_def Let_def posts_def)
  moreover have "open_ok (st @ [(v, [])]) ?w" using inv(8) closed by (simp add: open_ok_def start_writer_def)
  moreover have "values_checked cols (st @ [(v, [])]) (sw_document_count ?w)"
  proof -
    have "value_before (fst (st ! j)) v" if "Suc j = length st" for j
    proof -
      have "st \<noteq> []" "length st - 1 = j" using that by auto
      then show ?thesis using order last_conv_nth [of st] by simp
    qed
    then show ?thesis using inv(9) new by (auto simp: values_checked_def start_writer_def nth_append less_Suc_eq)
  qed
  ultimately show ?thesis by (simp add: writer_ok_def start_writer_def)
qed

text \<open>What the writer reads back of the columns and of the value before.\<close>

lemma column_range_read:
  assumes ok: "writer_ok cols st im w" and c: "sv_column_index v < sw_column_count w"
  shows "evoke_read_u32_le (flat im) (80 + unat (sv_column_index v) * 40 + 28) = sc_first_value (cols ! unat (sv_column_index v))"
    and "evoke_read_u32_le (flat im) (80 + unat (sv_column_index v) * 40 + 32) = sc_value_count (cols ! unat (sv_column_index v))"
    and "unat (sv_column_index v) < length cols"
proof -
  note inv = writer_okD [OF ok]
  note lay = layout_okD [OF inv(2)]
  have i: "unat (sv_column_index v) < unat (sw_column_count w)" using c by (simp add: word_less_nat_alt)
  then show l: "unat (sv_column_index v) < length cols" using inv(3) lay(1) by (simp add: columns_ok_def sized_def)
  have "column_fields (im_columns im ! unat (sv_column_index v)) = column_entry_of (cols ! unat (sv_column_index v))
      (of_nat (length (names (take (unat (sv_column_index v)) cols))))"
    using inv(3) l by (simp add: columns_ok_def)
  then show "evoke_read_u32_le (flat im) (80 + unat (sv_column_index v) * 40 + 28) = sc_first_value (cols ! unat (sv_column_index v))"
    "evoke_read_u32_le (flat im) (80 + unat (sv_column_index v) * 40 + 32) = sc_value_count (cols ! unat (sv_column_index v))"
    using column_at_flat(3,4) [OF lay(1) i] by (simp_all add: column_entry_of_def)
qed

lemma value_at_flat:
  assumes "sized cc vc ds ps im" "j < vc"
  shows "value_fields (drop (values_at cc + 32 * j) (flat im)) = value_fields (im_values im ! j)"
    and "evoke_read_u32_le (flat im) (values_at cc + 32 * j) = ve_column_index (value_fields (im_values im ! j))"
    and "flat im ! (values_at cc + 32 * j + 4) = ve_kind (value_fields (im_values im ! j))"
    and "evoke_read_u32_le (flat im) (values_at cc + 32 * j + 8) = ve_value_offset (value_fields (im_values im ! j))"
    and "evoke_read_u32_le (flat im) (values_at cc + 32 * j + 12) = ve_value_size (value_fields (im_values im ! j))"
proof -
  obtain rest where rest: "drop (values_at cc + 32 * j) (flat im) = im_values im ! j @ rest" using drop_value [OF assms] by blast
  have len: "length (im_values im ! j) = 32" "values_at cc + 32 * j \<le> length (flat im)"
    using length_entry [OF assms] length_flat [OF assms(1)] assms(2) by simp_all
  show fields: "value_fields (drop (values_at cc + 32 * j) (flat im)) = value_fields (im_values im ! j)"
    unfolding rest using len(1) by (simp add: value_fields_def codec nth_append)
  show "evoke_read_u32_le (flat im) (values_at cc + 32 * j) = ve_column_index (value_fields (im_values im ! j))"
    "flat im ! (values_at cc + 32 * j + 4) = ve_kind (value_fields (im_values im ! j))"
    "evoke_read_u32_le (flat im) (values_at cc + 32 * j + 8) = ve_value_offset (value_fields (im_values im ! j))"
    "evoke_read_u32_le (flat im) (values_at cc + 32 * j + 12) = ve_value_size (value_fields (im_values im ! j))"
    unfolding fields [symmetric] using len(2) by (simp_all add: value_fields_def codec)
qed

text \<open>The text of a value is found at its offset.\<close>

lemma checked_text:
  assumes "values_checked cols st n" "j < length st"
  shows "length (text_of (fst (st ! j))) = unat (sv_value_size (fst (st ! j)))"
proof -
  have "value_checked cols n j (st ! j)" using assms by (simp add: values_checked_def)
  then show ?thesis by (cases "st ! j") (simp add: value_checked_def)
qed

lemma dictionary_text:
  assumes ok: "writer_ok cols st im w" and j: "j < length st"
  shows "take (unat (sv_value_size (fst (st ! j))))
      (drop (unat (sw_dictionary_offset w) + unat (ve_value_offset (entry_of cols st j))) (flat im)) = text_of (fst (st ! j))"
proof -
  note inv = writer_okD [OF ok]
  note lay = layout_okD [OF inv(2)]
  let ?p = "names cols @ texts (take j st)" and ?t = "text_of (fst (st ! j))"
  have split: "names cols @ texts st = ?p @ ?t @ texts (drop (Suc j) st)"
    using arg_cong [OF id_take_nth_drop [OF j], of texts] by (simp add: texts_def)
  have all: "length (names cols @ texts st) \<le> unat (sw_dictionary_size w)"
  proof -
    have "length (names cols @ texts st) = length (take (length (names cols @ texts st)) (im_dictionary im))"
      using inv(5) by (simp only: dictionary_ok_def)
    also have "\<dots> \<le> length (im_dictionary im)" by simp
    finally show ?thesis using length_regions(4) [OF lay(1)] by simp
  qed
  have "unat (of_nat (length ?p) :: u32) = length ?p"
    by (rule u32_of_nat) (use all lay(7) split in simp)
  then have off: "unat (ve_value_offset (entry_of cols st j)) = length ?p" by (simp add: entry_of_def split: prod.splits)
  obtain rest where rest: "drop (dictionary_at (unat (sw_column_count w)) (unat (sw_value_count w))) (flat im) = im_dictionary im @ rest"
    using drop_dictionary [OF lay(1)] by blast
  have dict: "im_dictionary im = (?p @ ?t @ texts (drop (Suc j) st)) @ drop (length (names cols @ texts st)) (im_dictionary im)"
    using inv(5) unfolding split [symmetric] dictionary_ok_def by (metis append_take_drop_id)
  have "drop (unat (sw_dictionary_offset w) + length ?p) (flat im) = drop (length ?p) (im_dictionary im @ rest)"
    unfolding lay(3) rest [symmetric] by (simp add: add.commute)
  also have "\<dots> = ?t @ texts (drop (Suc j) st) @ drop (length (names cols @ texts st)) (im_dictionary im) @ rest"
    by (subst dict) simp
  moreover have "length ?t = unat (sv_value_size (fst (st ! j)))"
    by (rule checked_text [OF inv(9) j])
  ultimately show ?thesis unfolding off by simp
qed

text \<open>The checks of a call and its stores, with \<open>w1\<close> the writer after the value before is closed.\<close>

definition start_accepts :: "evoke_scope_writer \<Rightarrow> evoke_scope_writer \<Rightarrow> evoke_scope_value \<Rightarrow> bool" where
  "start_accepts w w1 v \<longleftrightarrow>
     sw_next_value w < sw_value_count w \<and> sv_column_index v < sw_column_count w \<and>
     (sv_value_size v > 0 \<longrightarrow> sv_value v \<noteq> None) \<and>
     (sv_kind v = EVOKE_SCOPE_VALUE_SCALAR \<or> sv_kind v = EVOKE_SCOPE_VALUE_ARRAY_ELEMENT) \<and>
     sw_dictionary_cursor w \<le> sw_dictionary_size w \<and>
     u64_of_u32 (sv_value_size v) \<le> sw_dictionary_size w - sw_dictionary_cursor w \<and>
     (let first_value = evoke_read_u32_le (the (sw_bytes w1)) (80 + unat (sv_column_index v) * 40 + 28)
      in first_value \<le> sw_next_value w1 \<and>
         sw_next_value w1 - first_value < evoke_read_u32_le (the (sw_bytes w1)) (80 + unat (sv_column_index v) * 40 + 32)) \<and>
     (sw_next_value w1 > 0 \<longrightarrow> follows_previous (the (sw_bytes w1))
        (80 + unat (sw_column_bytes w1) + unat (sw_next_value w1 - 1) * 32) (unat (sw_dictionary_offset w1)) v)"

definition start_stores :: "evoke_scope_writer \<Rightarrow> evoke_scope_value \<Rightarrow> evoke_scope_writer" where
  "start_stores w1 v =
     (let entry = 80 + unat (sw_column_bytes w1) + unat (sw_next_value w1) * 32
      in case write_value_bytes w1 v (evoke_write_u64_le (evoke_write_u32_le (evoke_write_u32_le
             ((evoke_write_u32_le (the (sw_bytes w1)) entry (sv_column_index v))[entry + 4 := sv_kind v])
             (entry + 8) (ucast (sw_dictionary_cursor w1))) (entry + 12) (sv_value_size v))
             (entry + 16) (sw_postings_cursor w1)) of
           (bs, m) \<Rightarrow> w1\<lparr>sw_bytes := Some (evoke_write_u32_le bs (entry + 28) m),
             sw_dictionary_cursor := sw_dictionary_cursor w1 + u64_of_u32 (sv_value_size v),
             sw_next_value := sw_next_value w1 + 1, sw_value_open := True\<rparr>)"

lemma start_value_run:
  assumes "evoke_scope_writer_start_value (Some w) (Some v) = (EVOKE_OK, w')"
  shows "\<exists>w1. evoke_scope_writer_close_value w = (EVOKE_OK, w1) \<and> start_accepts w w1 v \<and> w' = Some (start_stores w1 v)"
proof -
  obtain s w1 where c: "evoke_scope_writer_close_value w = (s, w1)" by (meson surj_pair)
  then have "s = EVOKE_OK" using assms by (auto simp: evoke_scope_writer_start_value_def split: if_splits)
  then show ?thesis
    using assms unfolding evoke_scope_writer_start_value_def Let_def scope_consts scope_accessors start_accepts_def start_stores_def
    by (intro exI [of _ w1]) (auto simp: c not_less not_le word_gt_0 split: if_splits prod.splits)
qed

lemma text_of_length:
  assumes "value_fits v" "sv_value_size v > 0 \<Longrightarrow> sv_value v \<noteq> None"
  shows "length (text_of v) = unat (sv_value_size v)"
proof (cases "sv_value v")
  case None
  then have "\<not> sv_value_size v > 0" using assms(2) by blast
  then show ?thesis using None by (simp add: text_of_def sized_bytes_def word_less_nat_alt)
qed (use assms(1) in \<open>simp add: text_of_def sized_bytes_def value_fits_def\<close>)

lemma previous_before:
  assumes ok: "writer_ok cols st im w" and closed: "\<not> sw_value_open w" and st: "st \<noteq> []"
    and v: "length (text_of v) = unat (sv_value_size v)"
  shows "follows_previous (flat im) (80 + unat (sw_column_bytes w) + unat (sw_next_value w - 1) * 32)
      (unat (sw_dictionary_offset w)) v \<longleftrightarrow> value_before (fst (last st)) v"
proof -
  note inv = writer_okD [OF ok]
  note lay = layout_okD [OF inv(2)]
  let ?k = "length st - 1"
  have k: "?k < length st" "?k < unat (sw_value_count w)" "last st = st ! ?k" "unat (sw_next_value w) = length st"
  proof -
    have n: "0 < length st" "unat (sw_next_value w) = length st" "length st \<le> unat (sw_value_count w)"
      using st inv(4) by (simp_all add: entries_ok_def)
    then show "?k < length st" "?k < unat (sw_value_count w)" "unat (sw_next_value w) = length st" by linarith+
    show "last st = st ! ?k" by (rule last_conv_nth [OF st])
  qed
  have "sw_next_value w \<ge> 1" using k(1,4) by (simp add: word_le_nat_alt)
  then have "unat (sw_next_value w - 1) = ?k" using k(4) by (simp add: unat_sub)
  then have at: "80 + unat (sw_column_bytes w) + unat (sw_next_value w - 1) * 32 = values_at (unat (sw_column_count w)) + 32 * ?k"
    using lay(2) by simp
  have "value_fields (im_values im ! ?k) = entry_of cols st ?k"
    using inv(4) k(1) closed by (simp add: entries_ok_def closed_entry_def)
  note reads = value_at_flat(2-5) [OF lay(1) k(2), unfolded this]
  have "follows_previous (flat im) (values_at (unat (sw_column_count w)) + 32 * ?k) (unat (sw_dictionary_offset w)) v \<longleftrightarrow>
      value_before (fst (st ! ?k)) v"
    using reads dictionary_text [OF ok k(1)] checked_text [OF inv(9) k(1)] v
    by (intro follows_previous_iff) (simp_all add: entry_of_def split: prod.splits)
  then show ?thesis unfolding at k(3) .
qed

lemma start_stores_image:
  assumes ok: "writer_ok cols st im w" and k: "unat (sw_next_value w) < unat (sw_value_count w)"
    and room: "unat (sw_dictionary_cursor w) + unat (sv_value_size v) \<le> unat (sw_dictionary_size w)"
    and tlen: "length (text_of v) = unat (sv_value_size v)" and v: "sv_value_size v > 0 \<Longrightarrow> sv_value v \<noteq> None"
  shows "start_stores w v = start_writer w v im"
proof -
  note inv = writer_okD [OF ok]
  note lay = layout_okD [OF inv(2)]
  let ?k = "unat (sw_next_value w)" and ?b = "unat (sw_next_value w) div 256"
  let ?e = "new_entry (im_values im ! ?k) v (sw_dictionary_cursor w) (sw_postings_cursor w)"
  let ?im1 = "im\<lparr>im_values := (im_values im)[?k := ?e]\<rparr>"
  let ?im2 = "?im1\<lparr>im_dictionary := put_bytes (im_dictionary im) (unat (sw_dictionary_cursor w)) (text_of v),
              im_filters := (im_filters im)[?b := block_filter (im_filters im ! ?b) (gram_inputs v)]\<rparr>"
  have len: "length ?e = 32" using length_entry [OF lay(1) k] by simp
  have lay1: "layout_ok ?im1 w" using inv(2) sized_updates(1) [OF lay(1) len] by (simp add: layout_ok_def Let_def)
  have "length (im_filters im ! ?b) = 1024"
    using chunks_nth [of 1024 "im_filters im" ?b] lay(1) k by (simp add: sized_def less_eq_div_iff_mult_less_eq Suc_le_eq)
  then have "sized (unat (sw_column_count w)) (unat (sw_value_count w)) (unat (sw_dictionary_size w)) (unat (sw_postings_size w)) ?im2"
    using layout_okD(1) [OF lay1] block_filter_keeps by (simp add: sized_def)
  from put_value [OF this k, of 28 "[_, _, _, _]"]
  have m: "evoke_write_u32_le (flat ?im2) (80 + unat (sw_column_bytes w) + ?k * 32 + 28) (mask_of v) = flat (start_image w v im)"
    unfolding evoke_write_u32_le_def lay(2) using lay(1) k
    by (simp add: start_image_def Let_def mult.commute sized_def evoke_write_u32_le_def) (simp add: flat_def)
  show ?thesis
    using new_entry_flat [OF lay(1) k, of v "sw_dictionary_cursor w" "sw_postings_cursor w"] inv(1)
      value_bytes_flat [OF lay1 k room tlen v] m
    by (simp add: start_stores_def start_writer_def Let_def lay(2))
qed

lemma start_value_ok:
  assumes ok: "writer_ok cols st im w" and run: "evoke_scope_writer_start_value (Some w) (Some v) = (EVOKE_OK, w')"
    and v: "value_fits v"
  shows "\<exists>im' w''. w' = Some w'' \<and> writer_ok cols (st @ [(v, [])]) im' w'' \<and> im_head im' = im_head im"
proof -
  from start_value_run [OF run] obtain w1 where close: "evoke_scope_writer_close_value w = (EVOKE_OK, w1)"
    and acc: "start_accepts w w1 v" and w': "w' = Some (start_stores w1 v)" by blast
  let ?im = "close_image w im"
  have ok1: "writer_ok cols st ?im w1" and closed: "\<not> sw_value_open w1"
    and w1: "w1 = w\<lparr>sw_bytes := Some (flat ?im), sw_value_open := False, sw_current_document_count := 0,
        sw_previous_document := sw_previous_document w1\<rparr>"
    using close_value_ok [OF ok close] by blast+
  have same: "sw_next_value w1 = sw_next_value w" "sw_value_count w1 = sw_value_count w" "sw_column_count w1 = sw_column_count w"
      "sw_dictionary_cursor w1 = sw_dictionary_cursor w" "sw_dictionary_size w1 = sw_dictionary_size w"
    by (subst w1, simp)+
  note inv = writer_okD [OF ok1]
  note lay = layout_okD [OF inv(2)]
  have tlen: "length (text_of v) = unat (sv_value_size v)" using text_of_length [OF v] acc by (simp add: start_accepts_def)
  have k: "unat (sw_next_value w1) = length st" "unat (sw_next_value w1) < unat (sw_value_count w1)"
    using inv(4) acc same by (simp_all add: entries_ok_def word_less_nat_alt start_accepts_def)
  have room: "unat (sw_dictionary_cursor w1) + unat (sv_value_size v) \<le> unat (sw_dictionary_size w1)"
  proof -
    have le: "sw_dictionary_cursor w \<le> sw_dictionary_size w"
        "u64_of_u32 (sv_value_size v) \<le> sw_dictionary_size w - sw_dictionary_cursor w"
      using acc by (simp_all only: start_accepts_def)
    then show ?thesis unfolding same by (simp add: word_le_nat_alt unat_sub_word [OF le(1)])
  qed
  have "sv_column_index v < sw_column_count w1" using acc same by (simp add: start_accepts_def)
  note col = column_range_read [OF ok1 this]
  have new: "value_checked cols (sw_document_count w1) (length st) (v, [])"
  proof -
    let ?c = "cols ! unat (sv_column_index v)"
    have "sc_first_value ?c \<le> sw_next_value w1" "sw_next_value w1 - sc_first_value ?c < sc_value_count ?c"
      using acc inv(1) col(1,2) by (simp_all add: start_accepts_def Let_def)
    then have "unat (sc_first_value ?c) \<le> length st" "length st < unat (sc_first_value ?c) + unat (sc_value_count ?c)"
      using k(1) by (simp_all add: word_le_nat_alt word_less_nat_alt unat_sub)
    then show ?thesis using col(3) acc tlen by (simp add: value_checked_def start_accepts_def Let_def)
  qed
  have order: "value_before (fst (last st)) v" if "st \<noteq> []"
    using previous_before [OF ok1 closed that tlen] acc k(1) inv(1) that by (simp add: word_less_nat_alt start_accepts_def)
  have "writer_ok cols (st @ [(v, [])]) (start_image w1 v ?im) (start_writer w1 v ?im)"
    using start_keeps [OF ok1 closed _ room tlen new order] acc same by (simp add: start_accepts_def)
  moreover have "start_stores w1 v = start_writer w1 v ?im"
    using start_stores_image [OF ok1 k(2) room tlen] acc by (simp add: start_accepts_def)
  ultimately show ?thesis using w' by (auto simp: start_image_def close_image_def Let_def)
qed

end
