(* ===== verification/Scope_Roundtrip.thy ===== *)
theory Scope_Roundtrip
  imports Scope_Writer
begin

unbundle bit_operations_syntax

text \<open>
  From the first call of the scope writer to the validator: \<open>evoke_scope_writer_begin\<close> establishes the invariant of
  \<open>Scope_Writer\<close>, the serializer keeps it over all values and documents, and a finished object is accepted by
  \<open>evoke_scope_validate\<close> and gives back what was written.
\<close>

section \<open>Checked columns\<close>

text \<open>What the writer demands of a column, given the column before it and whether it is the last.\<close>

definition column_valid :: "u32 \<Rightarrow> evoke_scope_column option \<Rightarrow> evoke_scope_column \<Rightarrow> bool \<Rightarrow> bool" where
  "column_valid value_count previous c is_last \<longleftrightarrow>
     sc_index_attribute c \<noteq> 0 \<and> sint (sc_heap_attribute c) > 0 \<and> sc_type_oid c \<noteq> 0 \<and> sc_name c \<noteq> None \<and> sc_name_size c \<noteq> 0 \<and>
     unat (sc_first_value c) + unat (sc_value_count c) \<le> unat value_count \<and>
     (case previous of
        None \<Rightarrow> sc_first_value c = 0
      | Some p \<Rightarrow> sc_index_attribute p < sc_index_attribute c \<and> sc_first_value c = sc_first_value p + sc_value_count p) \<and>
     (is_last \<longrightarrow> sc_first_value c + sc_value_count c = value_count)"

definition columns_valid :: "u32 \<Rightarrow> evoke_scope_column list \<Rightarrow> bool" where
  "columns_valid value_count cols \<longleftrightarrow>
     (\<forall>i < length cols. column_valid value_count (if i = 0 then None else Some (cols ! (i - 1))) (cols ! i) (Suc i = length cols))"

lemma add_size_Some: "evoke_scope_add_size a b = Some c \<Longrightarrow> unat c = unat a + unat b"
proof -
  assume "evoke_scope_add_size a b = Some c"
  then have "a \<le> SIZE_MAX - b" and c: "c = a + b" by (auto simp: evoke_scope_add_size_def not_less split: if_splits)
  then have "unat a \<le> unat (SIZE_MAX - b)" by (simp add: word_le_nat_alt)
  moreover have "b \<le> SIZE_MAX" using u64_less [of b] by (simp add: word_le_nat_alt less_Suc_eq_le [symmetric] del: u64_less)
  ultimately have "unat a + unat b < 18446744073709551616" using u64_less [of b] by (simp add: unat_sub_word del: u64_less)
  then show ?thesis unfolding c by (rule unat_add_u64)
qed

lemma begin_columns_Some:
  assumes "begin_columns value_count previous cs ds0 = Some ds"
  shows "unat ds = unat ds0 + sum_list (map (unat \<circ> sc_name_size) cs) \<and>
    (\<forall>i < length cs. column_valid value_count (if i = 0 then previous else Some (cs ! (i - 1))) (cs ! i) (Suc i = length cs))"
  using assms
proof (induction value_count previous cs ds0 rule: begin_columns.induct)
  case (2 value_count previous c rest ds0)
  let ?bad = "sc_index_attribute c = 0 \<or> sint (sc_heap_attribute c) \<le> 0 \<or> sc_type_oid c = 0 \<or>
         sc_name c = None \<or> sc_name_size c = 0 \<or> sc_first_value c > value_count \<or>
         sc_value_count c > value_count - sc_first_value c \<or>
         (case previous of
            None \<Rightarrow> sc_first_value c \<noteq> 0
          | Some p \<Rightarrow> sc_index_attribute p \<ge> sc_index_attribute c \<or>
                      sc_first_value c \<noteq> sc_first_value p + sc_value_count p) \<or>
         (rest = [] \<and> sc_first_value c + sc_value_count c \<noteq> value_count)"
  obtain ds1 where good: "\<not> ?bad" and add: "evoke_scope_add_size ds0 (u64_of_u32 (sc_name_size c)) = Some ds1"
    and run: "begin_columns value_count (Some c) rest ds1 = Some ds"
    using "2.prems" by (auto split: if_splits option.splits)
  note IH = "2.IH" [OF good add run]
  have "sc_first_value c \<le> value_count" "sc_value_count c \<le> value_count - sc_first_value c" using good by (auto simp: not_less)
  then have "unat (sc_first_value c) + unat (sc_value_count c) \<le> unat value_count"
    by (simp add: word_le_nat_alt unat_sub_word)
  then have head: "column_valid value_count previous c (rest = [])"
    using good by (auto simp: column_valid_def not_less not_le split: option.splits)
  have "column_valid value_count (if i = 0 then previous else Some ((c # rest) ! (i - 1))) ((c # rest) ! i)
      (Suc i = length (c # rest))" if "i < length (c # rest)" for i
  proof (cases i)
    case 0
    then show ?thesis using head by simp
  next
    case (Suc k)
    have "column_valid value_count (if k = 0 then Some c else Some (rest ! (k - 1))) (rest ! k) (Suc k = length rest)"
      using IH that Suc by simp
    then show ?thesis using Suc by (cases k) simp_all
  qed
  then show ?case using IH add_size_Some [OF add] by simp
qed simp

section \<open>Beginning\<close>

lemma put_bytes_two: "put_bytes (put_bytes d n xs) (n + length xs) ys = put_bytes d n (xs @ ys)"
proof (induction xs arbitrary: d n)
  case (Cons x xs)
  then show ?case using Cons [of "d[n := x]" "Suc n"] by (simp add: put_bytes.simps)
qed (simp add: put_bytes.simps)

lemma name_length: "column_fits c \<Longrightarrow> sc_name c \<noteq> None \<Longrightarrow> length (name_bytes c) = unat (sc_name_size c)"
  by (auto simp: column_fits_def name_bytes_def)

lemma names_length:
  "\<forall>c \<in> set cs. column_fits c \<and> sc_name c \<noteq> None \<Longrightarrow> length (names cs) = sum_list (map (unat \<circ> sc_name_size) cs)"
  by (induction cs) (simp_all add: names_def name_length)

lemma names_Cons [simp]: "names (c # cs) = name_bytes c @ names cs" "names [] = []"
  by (simp_all add: names_def)


text \<open>The loop over the columns fills their entries and the front of the dictionary.\<close>

lemma write_columns_flat:
  assumes "sized cc vc ds ps im" "i + length cs = cc" "unat cursor + length (names cs) \<le> ds" "ds < 2 ^ 32"
    and "\<forall>c \<in> set cs. column_fits c \<and> sc_name c \<noteq> None"
  shows "\<exists>ecs cursor'. write_columns (dictionary_at cc vc) (flat im) i cursor cs =
      (flat (im\<lparr>im_columns := ecs, im_dictionary := put_bytes (im_dictionary im) (unat cursor) (names cs)\<rparr>), cursor') \<and>
    unat cursor' = unat cursor + length (names cs) \<and> chunks 40 ecs \<and> length ecs = cc \<and>
    (\<forall>j < i. ecs ! j = im_columns im ! j) \<and>
    (\<forall>j < length cs. column_fields (ecs ! (i + j)) = column_entry_of (cs ! j) (of_nat (unat cursor + length (names (take j cs)))) \<and>
       evoke_read_u32_le (ecs ! (i + j)) 36 = evoke_read_u32_le (im_columns im ! (i + j)) 36)"
  using assms
proof (induction cs arbitrary: im i cursor)
  case Nil
  then show ?case by (intro exI [of _ "im_columns im"]) (simp add: put_bytes.simps sized_def)
next
  case (Cons c cs)
  have i: "i < cc" using Cons.prems(2) by simp
  let ?e = "write_column_entry (im_columns im ! i) 0 c cursor"
  let ?im1 = "im\<lparr>im_columns := (im_columns im)[i := ?e]\<rparr>"
  let ?im2 = "?im1\<lparr>im_dictionary := put_bytes (im_dictionary im) (unat cursor) (name_bytes c)\<rparr>"
  have name: "length (name_bytes c) = unat (sc_name_size c)" using Cons.prems(5) name_length by simp
  have len: "length (im_columns im ! i) = 40" using chunks_nth [of 40 "im_columns im" i] Cons.prems(1) i by (simp add: sized_def)
  have s1: "sized cc vc ds ps ?im1" by (rule sized_updates(2) [OF Cons.prems(1)]) (simp add: len)
  have s2: "sized cc vc ds ps ?im2" by (rule sized_updates(4) [OF s1]) (use Cons.prems(1) in \<open>simp add: sized_def\<close>)
  let ?cur = "cursor + u64_of_u32 (sc_name_size c)"
  have cur: "unat ?cur = unat cursor + length (name_bytes c)"
    using Cons.prems(3,4) name by (subst unat_add_u64) simp_all
  have step: "write_columns (dictionary_at cc vc) (flat im) i cursor (c # cs) =
      write_columns (dictionary_at cc vc) (flat ?im2) (i + 1) ?cur cs"
    using write_column_flat [OF Cons.prems(1) i, of c cursor] put_dictionary [OF s1, of "unat cursor" "name_bytes c"] Cons.prems(3)
    by (simp add: Let_def scope_consts name_bytes_def [symmetric] mult.commute)
  obtain ecs cursor' where IH: "write_columns (dictionary_at cc vc) (flat ?im2) (i + 1) ?cur cs =
      (flat (?im2\<lparr>im_columns := ecs, im_dictionary := put_bytes (im_dictionary ?im2) (unat ?cur) (names cs)\<rparr>), cursor')"
      "unat cursor' = unat ?cur + length (names cs)" "chunks 40 ecs" "length ecs = cc"
      "\<forall>j < i + 1. ecs ! j = im_columns ?im2 ! j"
      "\<forall>j < length cs. column_fields (ecs ! (i + 1 + j)) = column_entry_of (cs ! j) (of_nat (unat ?cur + length (names (take j cs)))) \<and>
         evoke_read_u32_le (ecs ! (i + 1 + j)) 36 = evoke_read_u32_le (im_columns ?im2 ! (i + 1 + j)) 36"
    using Cons.IH [OF s2, of "i + 1" ?cur] Cons.prems cur by auto
  have here: "ecs ! i = ?e" using IH(5) i Cons.prems(1) by (simp add: sized_def)
  have "flat (?im2\<lparr>im_columns := ecs, im_dictionary := put_bytes (im_dictionary ?im2) (unat ?cur) (names cs)\<rparr>) =
      flat (im\<lparr>im_columns := ecs, im_dictionary := put_bytes (im_dictionary im) (unat cursor) (names (c # cs))\<rparr>)"
    using put_bytes_two [of "im_dictionary im" "unat cursor" "name_bytes c" "names cs"] cur by simp
  moreover have "column_fields (ecs ! (i + j)) = column_entry_of ((c # cs) ! j) (of_nat (unat cursor + length (names (take j (c # cs))))) \<and>
       evoke_read_u32_le (ecs ! (i + j)) 36 = evoke_read_u32_le (im_columns im ! (i + j)) 36" if "j < length (c # cs)" for j
  proof (cases j)
    case 0
    then show ?thesis using here column_fields_written [OF len] column_reserved_written [OF len] by (simp add: of_nat_unat)
  next
    case (Suc k)
    then show ?thesis using IH(6) that cur by (simp add: add.assoc)
  qed
  ultimately show ?case unfolding step using IH(1-5) cur by (intro exI [of _ ecs] exI [of _ cursor']) auto
qed

definition zero_image :: "nat \<Rightarrow> nat \<Rightarrow> nat \<Rightarrow> nat \<Rightarrow> scope_image" where
  "zero_image cc vc ds ps =
     \<lparr>im_head = replicate 80 0, im_columns = replicate cc (replicate 40 0), im_values = replicate vc (replicate 32 0),
      im_dictionary = replicate ds 0, im_filters = replicate ((vc + 255) div 256) (replicate 1024 0),
      im_postings = replicate ps 0\<rparr>"

lemma concat_zeros: "concat (replicate n (replicate m x)) = replicate (m * n) x"
  by (induction n) (simp_all add: replicate_add)

lemma zero_image_flat: "flat (zero_image cc vc ds ps) = replicate (postings_at cc vc ds + ps) 0"
  by (simp add: flat_def zero_image_def concat_zeros replicate_add [symmetric] add.assoc)

lemma sized_zero_image: "sized cc vc ds ps (zero_image cc vc ds ps)"
  by (simp add: sized_def zero_image_def chunks_def)

lemma write_scope_header_append:
  "length a = 80 \<Longrightarrow> write_scope_header (a @ b) s dc cc vc dof ds pof ps = write_scope_header a s dc cc vc dof ds pof ps @ b"
  unfolding write_scope_header_def Let_def scope_accessors evoke_write_u16_le_def evoke_write_u32_le_def evoke_write_u64_le_def
  by (simp add: put_append_left)

lemma length_write_scope_header [simp]: "length (write_scope_header a s dc cc vc dof ds pof ps) = length a"
  by (simp add: write_scope_header_def Let_def)


lemma begin_layout_OK:
  assumes "begin_layout w vb ds gs ps = (EVOKE_OK, w')"
  shows "\<exists>d g p t. w' = w\<lparr>sw_dictionary_offset := d, sw_gram_filter_offset := g, sw_postings_offset := p, sw_total_size := t\<rparr> \<and>
    unat d = 80 + unat (sw_column_bytes w) + unat vb \<and> unat g = unat d + unat ds \<and> unat p = unat g + unat gs \<and>
    unat t = unat p + unat ps"
proof -
  have *: "\<exists>d g p t. w' = w\<lparr>sw_dictionary_offset := d, sw_gram_filter_offset := g, sw_postings_offset := p, sw_total_size := t\<rparr> \<and>
      Option.bind (evoke_scope_add_size 80 (sw_column_bytes w)) (\<lambda>s. evoke_scope_add_size s vb) = Some d \<and>
      evoke_scope_add_size d ds = Some g \<and> evoke_scope_add_size g gs = Some p \<and> evoke_scope_add_size p ps = Some t"
    using assms unfolding begin_layout_def Let_def scope_consts by (auto split: option.splits)
  then obtain d g p t s where w': "w' = w\<lparr>sw_dictionary_offset := d, sw_gram_filter_offset := g, sw_postings_offset := p, sw_total_size := t\<rparr>"
    and s: "evoke_scope_add_size 80 (sw_column_bytes w) = Some s" "evoke_scope_add_size s vb = Some d"
    and r: "evoke_scope_add_size d ds = Some g" "evoke_scope_add_size g gs = Some p" "evoke_scope_add_size p ps = Some t"
    by (auto simp: bind_eq_Some_conv)
  show ?thesis using w' s [THEN add_size_Some] r [THEN add_size_Some]
    by (intro exI [of _ d] exI [of _ g] exI [of _ p] exI [of _ t]) simp
qed

lemma unat_entry_bytes: "unat (u64_of_u32 n * 40) = 40 * unat n" "unat (u64_of_u32 n * 32) = 32 * unat n"
  using u32_less [of n] by (simp_all add: unat_word_ariths del: u32_less)

lemma unat_blocks: "unat ((u64_of_u32 n + 255) div 256) = (unat n + 255) div 256"
proof -
  have "unat (u64_of_u32 n + 255) = unat n + 255" using u32_less [of n] by (subst unat_add_u64) (simp_all del: u32_less)
  then show ?thesis by (simp add: unat_div)
qed

lemma unat_filter_size:
  "unat ((if n = 0 then 0 else (u64_of_u32 n + 256 - 1) div 256) * 1024) = 1024 * ((unat n + 255) div 256)"
proof -
  have b: "(unat n + 255) div 256 < 4294967296" using u32_less [of n] by (simp add: div_less_iff_less_mult del: u32_less)
  have "unat ((u64_of_u32 n + 255) div 256 * 1024) = 1024 * ((unat n + 255) div 256)"
    using b unat_blocks [of n] by (simp add: unat_word_ariths)
  moreover have "u64_of_u32 n + 256 - 1 = u64_of_u32 n + 255" by simp
  ultimately show ?thesis by (cases "n = 0") (simp_all add: add.commute)
qed

text \<open>The writer that a successful call leaves.\<close>

definition begun :: "evoke_scope_column list \<Rightarrow> u64 \<Rightarrow> u32 \<Rightarrow> u32 \<Rightarrow> u64 \<Rightarrow> u64 \<Rightarrow> scope_image \<Rightarrow> evoke_scope_writer \<Rightarrow> bool" where
  "begun cols s document_count value_count value_dictionary_size posting_count im w \<longleftrightarrow>
     writer_ok cols [] im w \<and> columns_valid value_count cols \<and>
     sw_document_count w = document_count \<and> sw_value_count w = value_count \<and> sw_column_count w = of_nat (length cols) \<and>
     document_count \<noteq> 0 \<and> s \<noteq> 0 \<and> cols \<noteq> [] \<and> unat (sw_postings_size w) = 4 * unat posting_count \<and>
     unat (sw_dictionary_size w) = unat value_dictionary_size + length (names cols) \<and>
     im_head im = write_scope_header (replicate 80 0) s document_count (sw_column_count w) value_count
       (sw_dictionary_offset w) (sw_dictionary_size w) (sw_postings_offset w) (sw_postings_size w)"

lemma begin_ok:
  assumes run: "evoke_scope_writer_begin calloc_ok (Some zero_scope_writer) s document_count (Some columns) column_count
      value_count value_dictionary_size posting_count maximum_size = (EVOKE_OK, w')"
    and cols: "cols = take (unat column_count) columns" "unat column_count \<le> length columns" "\<forall>c \<in> set cols. column_fits c"
  shows "\<exists>im w. w' = Some w \<and> begun cols s document_count value_count value_dictionary_size posting_count im w"
proof -
  let ?cb = "u64_of_u32 column_count * 40" and ?vb = "u64_of_u32 value_count * 32"
  let ?gs = "(if value_count = 0 then 0 else (u64_of_u32 value_count + 256 - 1) div 256) * 1024"
  let ?w0 = "zero_scope_writer\<lparr>sw_column_bytes := ?cb\<rparr>"
  have zero: "sw_bytes zero_scope_writer = None" by (simp add: zero_scope_writer_def)
  obtain ds w1 bs cursor where
    g: "s \<noteq> 0" "document_count \<noteq> 0" "column_count \<noteq> 0" "\<not> posting_count > SIZE_MAX div 4"
    and dict: "begin_columns value_count None cols value_dictionary_size = Some ds" "\<not> ds > u64_of_u32 UINT32_MAX"
    and lay: "begin_layout ?w0 ?vb ds ?gs (posting_count * 4) = (EVOKE_OK, w1)"
    and wr: "write_columns (unat (sw_dictionary_offset w1)) (write_scope_header (replicate (unat (sw_total_size w1)) 0)
        s document_count column_count value_count (sw_dictionary_offset w1) ds (sw_postings_offset w1) (posting_count * 4)) 0 0 cols =
      (bs, cursor)"
    and w': "w' = Some (w1\<lparr>sw_bytes := Some bs, sw_dictionary_size := ds, sw_postings_size := posting_count * 4,
        sw_document_count := document_count, sw_column_count := column_count, sw_value_count := value_count,
        sw_dictionary_cursor := cursor\<rparr>)"
    using run cols(1) zero unfolding evoke_scope_writer_begin_def Let_def scope_consts
    by (auto split: if_splits option.splits prod.splits)
  define cc where "cc = unat column_count"
  define vc where "vc = unat value_count"
  define n where "n = unat ds"
  define ps where "ps = unat (posting_count * 4)"
  obtain d gf p t where w1: "w1 = ?w0\<lparr>sw_dictionary_offset := d, sw_gram_filter_offset := gf, sw_postings_offset := p, sw_total_size := t\<rparr>"
    and at: "unat d = dictionary_at cc vc" "unat gf = filters_at cc vc n" "unat p = postings_at cc vc n" "unat t = postings_at cc vc n + ps"
    using begin_layout_OK [OF lay] unat_filter_size [of value_count]
    by (auto simp: unat_entry_bytes cc_def vc_def n_def ps_def)
  have valid: "columns_valid value_count cols" and n: "n = unat value_dictionary_size + sum_list (map (unat \<circ> sc_name_size) cols)"
    using begin_columns_Some [OF dict(1)] by (simp_all add: columns_valid_def n_def)
  have len: "length cols = cc" using cols(1,2) by (simp add: cc_def)
  have named: "\<forall>c \<in> set cols. column_fits c \<and> sc_name c \<noteq> None"
    using valid cols(3) by (auto simp: columns_valid_def column_valid_def in_set_conv_nth)
  have small: "n < 2 ^ 32" using dict(2) by (simp add: n_def word_less_nat_alt)
  have dsize: "n = unat value_dictionary_size + length (names cols)" using names_length [OF named] n by simp
  then have names: "length (names cols) \<le> n" by simp
  have "unat posting_count \<le> 4611686018427387903" using g(4) by (simp add: word_less_nat_alt unat_div SIZE_MAX_def not_less)
  then have ps: "ps = 4 * unat posting_count" by (simp add: ps_def unat_word_ariths)
  let ?H = "write_scope_header (replicate 80 0) s document_count column_count value_count d ds p (posting_count * 4)"
  let ?zim = "zero_image cc vc n ps"
  let ?im0 = "?zim\<lparr>im_head := ?H\<rparr>"
  have sized0: "sized cc vc n ps ?im0" by (rule sized_updates(6) [OF sized_zero_image]) simp
  have "write_scope_header (replicate (postings_at cc vc n + ps) 0) s document_count column_count value_count d ds p (posting_count * 4) = flat ?im0"
    unfolding zero_image_flat [symmetric] flat_def by (simp add: write_scope_header_append zero_image_def)
  then have run0: "write_columns (dictionary_at cc vc) (flat ?im0) 0 0 cols = (bs, cursor)"
    using wr by (simp add: w1 at)
  obtain ecs where bs: "bs = flat (?im0\<lparr>im_columns := ecs, im_dictionary := put_bytes (im_dictionary ?im0) 0 (names cols)\<rparr>)"
    and cur: "unat cursor = length (names cols)" and ecs: "chunks 40 ecs" "length ecs = cc"
      "\<forall>j < length cols. column_fields (ecs ! j) = column_entry_of (cols ! j) (of_nat (length (names (take j cols)))) \<and>
        evoke_read_u32_le (ecs ! j) 36 = evoke_read_u32_le (im_columns ?im0 ! j) 36"
    using write_columns_flat [OF sized0, of 0 cols 0] run0 len names small named by auto
  define im where "im = ?im0\<lparr>im_columns := ecs, im_dictionary := put_bytes (im_dictionary ?im0) 0 (names cols)\<rparr>"
  define w where "w = w1\<lparr>sw_bytes := Some bs, sw_dictionary_size := ds, sw_postings_size := posting_count * 4,
        sw_document_count := document_count, sw_column_count := column_count, sw_value_count := value_count,
        sw_dictionary_cursor := cursor\<rparr>"
  have "sized cc vc n ps im" using sized0 ecs(1,2) by (simp add: im_def sized_def)
  then have "layout_ok im w"
    using at small by (simp add: layout_ok_def Let_def w_def w1 cc_def vc_def n_def ps_def unat_entry_bytes)
  moreover have "columns_ok cols im"
    using ecs len by (simp add: columns_ok_def im_def zero_image_def)
  moreover have "entries_ok cols [] im w" "postings_ok [] im w" "open_ok [] w" "values_checked cols [] (sw_document_count w)"
    by (simp_all add: entries_ok_def postings_ok_def open_ok_def values_checked_def w_def w1 zero_scope_writer_def posts_def)
  moreover have "dictionary_ok cols [] im w"
    using names cur put_bytes_extends [of 0 "names cols" "replicate n 0"]
    by (simp add: dictionary_ok_def w_def im_def zero_image_def texts_def)
  moreover have "filters_ok [] im" by (simp add: filters_ok_def im_def zero_image_def block_inputs_def)
  ultimately have "writer_ok cols [] im w" using bs by (simp add: writer_ok_def w_def im_def)
  moreover have "column_count = of_nat (length cols)" using len by (simp add: cc_def of_nat_unat)
  moreover have "cols \<noteq> []" using len g(3) by (auto simp: cc_def word_unat_eq_iff)
  ultimately have "begun cols s document_count value_count value_dictionary_size posting_count im w"
    using valid g(1,2) ps dsize by (simp add: begun_def w_def w1 ps_def n_def im_def)
  then show ?thesis using w' by (auto simp: w_def)
qed


section \<open>Serializing\<close>

text \<open>What no operation after the first changes.\<close>

definition frozen :: "evoke_scope_writer \<Rightarrow> u64 \<times> u64 \<times> u64 \<times> u64 \<times> u32 \<times> u32 \<times> u32 \<times> u64" where
  "frozen w = (sw_dictionary_offset w, sw_dictionary_size w, sw_postings_offset w, sw_postings_size w,
     sw_document_count w, sw_column_count w, sw_value_count w, sw_total_size w)"

lemma close_frozen: "evoke_scope_writer_close_value w = (EVOKE_OK, w') \<Longrightarrow> frozen w' = frozen w"
  by (auto simp: evoke_scope_writer_close_value_def frozen_def Let_def split: if_splits)

lemma start_frozen:
  assumes "evoke_scope_writer_start_value (Some w) (Some v) = (EVOKE_OK, Some w')"
  shows "frozen w' = frozen w"
proof -
  obtain w1 where "evoke_scope_writer_close_value w = (EVOKE_OK, w1)" "w' = start_stores w1 v"
    using start_value_run [OF assms] by blast
  then show ?thesis using close_frozen [of w w1] by (simp add: start_stores_def frozen_def Let_def split: prod.splits)
qed

lemma append_frozen:
  "evoke_scope_writer_append_document (Some w) d = (EVOKE_OK, Some w') \<Longrightarrow> frozen w' = frozen w"
  by (auto simp: evoke_scope_writer_append_document_def frozen_def split: if_splits)

lemma append_documents_ok:
  assumes "writer_ok cols st im w" "st \<noteq> []" "append_documents (Some w) ds = (EVOKE_OK, w')"
  shows "\<exists>im' w''. w' = Some w'' \<and> writer_ok cols (butlast st @ [(fst (last st), snd (last st) @ ds)]) im' w'' \<and>
    im_head im' = im_head im \<and> frozen w'' = frozen w"
  using assms
proof (induction ds arbitrary: st im w)
  case Nil
  then show ?case by (intro exI [of _ im] exI [of _ w]) simp
next
  case (Cons d ds)
  then obtain w1 where run: "evoke_scope_writer_append_document (Some w) d = (EVOKE_OK, w1)"
    and rest: "append_documents w1 ds = (EVOKE_OK, w')"
    by (auto split: prod.splits if_splits)
  obtain im1 w2 where w1: "w1 = Some w2" and ok: "writer_ok cols (add_document st d) im1 w2" and h: "im_head im1 = im_head im"
    using append_document_ok [OF Cons.prems(1) run] by blast
  have "add_document st d \<noteq> []" by (simp add: add_document_def)
  from Cons.IH [OF ok this] rest w1 h append_frozen [of w d w2] run show ?case
    by (simp add: add_document_def)
qed

definition documents_of :: "evoke_scope_value \<Rightarrow> u32 list" where
  "documents_of v = take (unat (sv_document_count v)) (the (sv_documents v))"

lemma serialize_values_ok:
  assumes "writer_ok cols st im w" "serialize_values (Some w) vs = (EVOKE_OK, w')" "\<forall>v \<in> set vs. value_fits v"
  shows "\<exists>im' w''. w' = Some w'' \<and> writer_ok cols (st @ map (\<lambda>v. (v, documents_of v)) vs) im' w'' \<and>
    im_head im' = im_head im \<and> frozen w'' = frozen w"
  using assms
proof (induction vs arbitrary: st im w)
  case Nil
  then show ?case by (intro exI [of _ im] exI [of _ w]) simp
next
  case (Cons v vs)
  then obtain w1 w2 where run: "evoke_scope_writer_start_value (Some w) (Some v) = (EVOKE_OK, w1)"
    and docs: "append_documents w1 (documents_of v) = (EVOKE_OK, w2)" and rest: "serialize_values w2 vs = (EVOKE_OK, w')"
    by (auto simp: documents_of_def split: prod.splits if_splits)
  obtain im1 x1 where w1: "w1 = Some x1" and ok1: "writer_ok cols (st @ [(v, [])]) im1 x1" and h1: "im_head im1 = im_head im"
    using start_value_ok [OF Cons.prems(1) run] Cons.prems(3) by auto
  obtain im2 x2 where w2: "w2 = Some x2" and ok2: "writer_ok cols (st @ [(v, documents_of v)]) im2 x2"
    and h2: "im_head im2 = im_head im1" "frozen x2 = frozen x1"
    using append_documents_ok [OF ok1 _ docs [unfolded w1]] by auto
  from Cons.IH [OF ok2] rest w2 h1 h2 start_frozen [of w v x1] run w1 Cons.prems(3) show ?case
    by simp
qed

lemma finish_ok:
  assumes ok: "writer_ok cols st im w"
    and run: "evoke_scope_writer_finish (Some w) (Some b) (Some z) = (EVOKE_OK, w', bytes_out, size_out)"
  shows "\<exists>im' w''. writer_ok cols st im' w'' \<and> \<not> sw_value_open w'' \<and> im_head im' = im_head im \<and> frozen w'' = frozen w \<and>
    length st = unat (sw_value_count w) \<and> sw_dictionary_cursor w'' = sw_dictionary_size w \<and>
    sw_postings_cursor w'' = sw_postings_size w \<and> size_out = Some (sw_total_size w) \<and>
    bytes_out = Some (Some (flat (im'\<lparr>im_head := evoke_write_u64_le (im_head im') 72
      (evoke_scope_checksum (flat im') (unat (sw_total_size w)))\<rparr>)))"
proof -
  obtain w1 where close: "evoke_scope_writer_close_value w = (EVOKE_OK, w1)"
    and g: "sw_next_value w1 = sw_value_count w1" "sw_dictionary_cursor w1 = sw_dictionary_size w1"
      "sw_postings_cursor w1 = sw_postings_size w1"
    and res: "size_out = Some (sw_total_size w1)" "bytes_out = Some (Some (evoke_write_u64_le (the (sw_bytes w1)) 72
      (evoke_scope_checksum (the (sw_bytes w1)) (unat (sw_total_size w1)))))"
    using run by (auto simp: evoke_scope_writer_finish_def Let_def scope_consts split: if_splits prod.splits)
  let ?im = "close_image w im"
  have ok1: "writer_ok cols st ?im w1" and closed: "\<not> sw_value_open w1" using close_value_ok [OF ok close] by blast+
  note inv = writer_okD [OF ok1]
  note lay = layout_okD [OF inv(2)]
  have "evoke_write_u64_le (flat ?im) 72 c = flat (?im\<lparr>im_head := evoke_write_u64_le (im_head ?im) 72 c\<rparr>)" for c
    unfolding evoke_write_u64_le_def using put_head [OF lay(1)] by simp
  moreover have "im_head ?im = im_head im" by (simp add: close_image_def)
  moreover have "length st = unat (sw_value_count w1)" using inv(4) g(1) by (simp add: entries_ok_def)
  ultimately show ?thesis using ok1 closed g res inv(1) close_frozen [OF close]
    by (intro exI [of _ ?im] exI [of _ w1]) (simp add: frozen_def)
qed

text \<open>A finished object: the writer that built it, its regions without the checksum, and its bytes.\<close>

definition finished :: "evoke_scope_column list \<Rightarrow> scope_values \<Rightarrow> u64 \<Rightarrow> evoke_scope_writer \<Rightarrow> scope_image \<Rightarrow> bytes \<Rightarrow> bool" where
  "finished cols st s w im bs \<longleftrightarrow>
     writer_ok cols st im w \<and> \<not> sw_value_open w \<and> length st = unat (sw_value_count w) \<and>
     sw_dictionary_cursor w = sw_dictionary_size w \<and> sw_postings_cursor w = sw_postings_size w \<and>
     columns_valid (sw_value_count w) cols \<and> sw_column_count w = of_nat (length cols) \<and> cols \<noteq> [] \<and>
     sw_document_count w \<noteq> 0 \<and> s \<noteq> 0 \<and>
     im_head im = write_scope_header (replicate 80 0) s (sw_document_count w) (sw_column_count w) (sw_value_count w)
       (sw_dictionary_offset w) (sw_dictionary_size w) (sw_postings_offset w) (sw_postings_size w) \<and>
     bs = flat (im\<lparr>im_head := evoke_write_u64_le (im_head im) 72 (evoke_scope_checksum (flat im) (unat (sw_total_size w)))\<rparr>)"

lemma serialize_finished:
  assumes run: "evoke_scope_serialize calloc_ok s document_count (Some columns) column_count (Some vals) value_count
      (Some b) (Some z) = (EVOKE_OK, Some (Some bs), Some n)"
    and cols: "cols = take (unat column_count) columns" "unat column_count \<le> length columns" "\<forall>c \<in> set cols. column_fits c"
    and vs: "vs = take (unat value_count) vals" "unat value_count \<le> length vals" "\<forall>v \<in> set vs. value_fits v"
  shows "\<exists>w im. finished cols (map (\<lambda>v. (v, documents_of v)) vs) s w im bs \<and> n = sw_total_size w \<and>
    sw_document_count w = document_count \<and> sw_value_count w = value_count"
proof -
  obtain vds pc w0 w1 w2 where
    begin_run: "evoke_scope_writer_begin calloc_ok (Some zero_scope_writer) s document_count (Some columns) column_count value_count
      vds pc SIZE_MAX = (EVOKE_OK, w0)"
    and values_run: "serialize_values w0 vs = (EVOKE_OK, w1)"
    and finish_run: "evoke_scope_writer_finish w1 (Some None) (Some 0) = (EVOKE_OK, w2, Some (Some bs), Some n)"
    using run vs(1) unfolding evoke_scope_serialize_def Let_def
    by (auto split: if_splits option.splits prod.splits)
  obtain im0 x0 where w0: "w0 = Some x0" and begun: "begun cols s document_count value_count vds pc im0 x0"
    using begin_ok [OF begin_run cols] by blast
  then have "writer_ok cols [] im0 x0" by (simp add: begun_def)
  then obtain im1 x1 where w1: "w1 = Some x1" and ok1: "writer_ok cols (map (\<lambda>v. (v, documents_of v)) vs) im1 x1"
    and same1: "im_head im1 = im_head im0" "frozen x1 = frozen x0"
    using serialize_values_ok [of cols "[]" im0 x0 vs w1] values_run w0 vs(3) by auto
  obtain im2 x2 where "writer_ok cols (map (\<lambda>v. (v, documents_of v)) vs) im2 x2" "\<not> sw_value_open x2"
      "im_head im2 = im_head im1" "frozen x2 = frozen x1"
      "length (map (\<lambda>v. (v, documents_of v)) vs) = unat (sw_value_count x1)" "sw_dictionary_cursor x2 = sw_dictionary_size x1"
      "sw_postings_cursor x2 = sw_postings_size x1" "n = sw_total_size x1"
      "bs = flat (im2\<lparr>im_head := evoke_write_u64_le (im_head im2) 72
        (evoke_scope_checksum (flat im2) (unat (sw_total_size x1)))\<rparr>)"
    using finish_ok [OF ok1 finish_run [unfolded w1]] by auto
  then show ?thesis using begun same1
    by (intro exI [of _ x2] exI [of _ im2]) (simp add: finished_def begun_def frozen_def)
qed


section \<open>Decoding a finished object\<close>

lemma finishedD:
  assumes "finished cols st s w im bs"
  shows "writer_ok cols st im w" "\<not> sw_value_open w" "length st = unat (sw_value_count w)"
    "sw_dictionary_cursor w = sw_dictionary_size w" "sw_postings_cursor w = sw_postings_size w"
    "columns_valid (sw_value_count w) cols" "sw_column_count w = of_nat (length cols)" "cols \<noteq> []"
    "sw_document_count w \<noteq> 0" "s \<noteq> 0"
    "im_head im = write_scope_header (replicate 80 0) s (sw_document_count w) (sw_column_count w) (sw_value_count w)
       (sw_dictionary_offset w) (sw_dictionary_size w) (sw_postings_offset w) (sw_postings_size w)"
    "bs = flat (im\<lparr>im_head := evoke_write_u64_le (im_head im) 72 (evoke_scope_checksum (flat im) (unat (sw_total_size w)))\<rparr>)"
  using assms by (simp_all add: finished_def)

text \<open>The sizes and offsets as words: nothing wraps.\<close>

lemma layout_words:
  assumes "layout_ok im w"
  defines "gs \<equiv> (if sw_value_count w = 0 then 0 else (u64_of_u32 (sw_value_count w) + 256 - 1) div 256) * 1024"
  shows "80 + u64_of_u32 (sw_column_count w) * 40 + u64_of_u32 (sw_value_count w) * 32 = sw_dictionary_offset w"
    and "sw_dictionary_offset w + sw_dictionary_size w = sw_gram_filter_offset w"
    and "sw_gram_filter_offset w + gs = sw_postings_offset w"
    and "sw_postings_offset w + sw_postings_size w = sw_total_size w"
    and "sw_dictionary_offset w \<le> sw_total_size w" "sw_dictionary_size w \<le> sw_total_size w - sw_dictionary_offset w"
    and "sw_dictionary_offset w \<le> sw_gram_filter_offset w" "sw_gram_filter_offset w \<le> sw_total_size w"
    and "gs \<le> sw_total_size w - sw_gram_filter_offset w" "sw_postings_size w \<le> sw_total_size w - sw_postings_offset w"
proof -
  note l = layout_okD [OF assms(1)]
  let ?cc = "sw_column_count w" and ?vc = "sw_value_count w"
  have gs: "unat gs = 1024 * ((unat ?vc + 255) div 256)" unfolding gs_def by (rule unat_filter_size)
  have t: "unat (sw_total_size w) < 18446744073709551616" by simp
  have a: "unat (80 + u64_of_u32 ?cc * 40) = 80 + 40 * unat ?cc"
    using t l(6) by (subst unat_add_u64) (simp_all add: unat_entry_bytes del: u64_less)
  have "unat (80 + u64_of_u32 ?cc * 40 + u64_of_u32 ?vc * 32) = dictionary_at (unat ?cc) (unat ?vc)"
    using t l(6) a by (subst unat_add_u64) (simp_all add: unat_entry_bytes del: u64_less)
  then show "80 + u64_of_u32 ?cc * 40 + u64_of_u32 ?vc * 32 = sw_dictionary_offset w" using l(3) by (simp add: word_unat_eq_iff)
  have "unat (sw_dictionary_offset w + sw_dictionary_size w) = unat (sw_gram_filter_offset w)"
    using t l(3,4,6) by (subst unat_add_u64) (simp_all del: u64_less)
  then show "sw_dictionary_offset w + sw_dictionary_size w = sw_gram_filter_offset w" by (simp add: word_unat_eq_iff)
  have "unat (sw_gram_filter_offset w + gs) = unat (sw_postings_offset w)"
    using t l(4,5,6) gs by (subst unat_add_u64) (simp_all del: u64_less)
  then show "sw_gram_filter_offset w + gs = sw_postings_offset w" by (simp add: word_unat_eq_iff)
  have "unat (sw_postings_offset w + sw_postings_size w) = unat (sw_total_size w)"
    using t l(5,6) by (subst unat_add_u64) (simp_all del: u64_less)
  then show "sw_postings_offset w + sw_postings_size w = sw_total_size w" by (simp add: word_unat_eq_iff)
  show le: "sw_dictionary_offset w \<le> sw_total_size w" "sw_dictionary_offset w \<le> sw_gram_filter_offset w"
    "sw_gram_filter_offset w \<le> sw_total_size w" using l by (simp_all add: word_le_nat_alt)
  have "sw_postings_offset w \<le> sw_total_size w" using l by (simp add: word_le_nat_alt)
  then show "sw_dictionary_size w \<le> sw_total_size w - sw_dictionary_offset w" "gs \<le> sw_total_size w - sw_gram_filter_offset w"
    "sw_postings_size w \<le> sw_total_size w - sw_postings_offset w"
    using le l gs by (simp_all add: word_le_nat_alt unat_sub_word)
qed

lemma read_scope_header:
  fixes s :: u64 and dc cc vc :: u32 and dof ds pof ps c :: u64
  defines "h \<equiv> evoke_write_u64_le (write_scope_header (replicate 80 0) s dc cc vc dof ds pof ps) 72 c"
  shows "evoke_read_u32_le h 0 = EVOKE_SCOPE_MAGIC" "evoke_read_u16_le h 4 = EVOKE_SCOPE_VERSION"
    "evoke_read_u16_le h 6 = 80" "evoke_read_u16_le h 8 = 40" "evoke_read_u16_le h 10 = 32" "evoke_read_u16_le h 12 = 256"
    "evoke_read_u16_le h 14 = 1024" "evoke_read_u64_le h 16 = s" "evoke_read_u32_le h 24 = dc" "evoke_read_u32_le h 28 = cc"
    "evoke_read_u32_le h 32 = vc" "evoke_read_u32_le h 36 = 0" "evoke_read_u64_le h 40 = dof" "evoke_read_u64_le h 48 = ds"
    "evoke_read_u64_le h 56 = pof" "evoke_read_u64_le h 64 = ps" "evoke_read_u64_le h 72 = c" "length h = 80"
  unfolding h_def write_scope_header_def Let_def scope_accessors scope_consts by (simp_all add: codec)

definition header_of :: "u64 \<Rightarrow> evoke_scope_writer \<Rightarrow> u64 \<Rightarrow> evoke_scope_header" where
  "header_of s w c =
     \<lparr>sh_source_authority_checksum = s, sh_object_checksum = c, sh_total_size = sw_total_size w,
      sh_dictionary_offset = sw_dictionary_offset w, sh_dictionary_size = sw_dictionary_size w,
      sh_postings_offset = sw_postings_offset w, sh_postings_size = sw_postings_size w,
      sh_gram_filter_offset = sw_gram_filter_offset w,
      sh_gram_filter_size = (if sw_value_count w = 0 then 0 else (u64_of_u32 (sw_value_count w) + 256 - 1) div 256) * 1024,
      sh_document_count = sw_document_count w, sh_column_count = sw_column_count w, sh_value_count = sw_value_count w,
      sh_version = EVOKE_SCOPE_VERSION, sh_gram_block_values = 256, sh_gram_filter_bytes = 1024\<rparr>"

lemma finished_bytes:
  assumes "finished cols st s w im bs"
  shows "length bs = unat (sw_total_size w)" and "of_nat (length bs) = sw_total_size w" and "80 \<le> length bs"
    and "evoke_read_u64_le bs 72 = evoke_scope_checksum bs (length bs)"
    and "evoke_read_u64_le bs 72 = evoke_scope_checksum (flat im) (unat (sw_total_size w))"
proof -
  note f = finishedD [OF assms]
  note lay = layout_okD [OF writer_okD(2) [OF f(1)]]
  let ?c = "evoke_scope_checksum (flat im) (unat (sw_total_size w))"
  have len: "length (flat im) = unat (sw_total_size w)" using length_flat [OF lay(1)] lay(6) by simp
  have bs: "bs = evoke_write_u64_le (flat im) 72 ?c"
    using f(12) put_head [OF lay(1)] by (simp add: evoke_write_u64_le_def)
  show l: "length bs = unat (sw_total_size w)" unfolding bs using len by simp
  then show "of_nat (length bs) = sw_total_size w" by (simp add: of_nat_unat)
  show e: "80 \<le> length bs" using l lay(6) by simp
  have "sealed (length bs) 72 bs"
    using sealed_write_checksum [of 72 "length bs" "flat im"] e l len scope_checksum_zeroed [of "length bs" "flat im"]
    unfolding bs by simp
  then show "evoke_read_u64_le bs 72 = evoke_scope_checksum bs (length bs)"
    using scope_checksum_zeroed [OF e] by (simp add: sealed_def)
  show "evoke_read_u64_le bs 72 = ?c" unfolding bs using e l len by simp
qed

lemma finished_reads:
  assumes fin: "finished cols st s w im bs"
  shows "evoke_read_u32_le bs 0 = EVOKE_SCOPE_MAGIC" "evoke_read_u16_le bs 4 = EVOKE_SCOPE_VERSION"
    "evoke_read_u16_le bs 6 = 80" "evoke_read_u16_le bs 8 = 40" "evoke_read_u16_le bs 10 = 32" "evoke_read_u16_le bs 12 = 256"
    "evoke_read_u16_le bs 14 = 1024" "evoke_read_u64_le bs 16 = s" "evoke_read_u32_le bs 24 = sw_document_count w"
    "evoke_read_u32_le bs 28 = sw_column_count w" "evoke_read_u32_le bs 32 = sw_value_count w" "evoke_read_u32_le bs 36 = 0"
    "evoke_read_u64_le bs 40 = sw_dictionary_offset w" "evoke_read_u64_le bs 48 = sw_dictionary_size w"
    "evoke_read_u64_le bs 56 = sw_postings_offset w" "evoke_read_u64_le bs 64 = sw_postings_size w"
proof -
  note f = finishedD [OF fin]
  let ?h = "evoke_write_u64_le (im_head im) 72 (evoke_scope_checksum (flat im) (unat (sw_total_size w)))"
  note r = read_scope_header [of s "sw_document_count w" "sw_column_count w" "sw_value_count w" "sw_dictionary_offset w"
      "sw_dictionary_size w" "sw_postings_offset w" "sw_postings_size w" "evoke_scope_checksum (flat im) (unat (sw_total_size w))",
      folded f(11)]
  have bs: "\<exists>rest. bs = ?h @ rest" unfolding f(12) by (simp add: flat_def)
  then have r16: "\<And>off. off + 2 \<le> 80 \<Longrightarrow> evoke_read_u16_le bs off = evoke_read_u16_le ?h off"
    and r32: "\<And>off. off + 4 \<le> 80 \<Longrightarrow> evoke_read_u32_le bs off = evoke_read_u32_le ?h off"
    and r64: "\<And>off. off + 8 \<le> 80 \<Longrightarrow> evoke_read_u64_le bs off = evoke_read_u64_le ?h off"
    using r(18) by (auto simp: read_append_left)
  show "evoke_read_u32_le bs 0 = EVOKE_SCOPE_MAGIC" "evoke_read_u16_le bs 4 = EVOKE_SCOPE_VERSION"
    "evoke_read_u16_le bs 6 = 80" "evoke_read_u16_le bs 8 = 40" "evoke_read_u16_le bs 10 = 32" "evoke_read_u16_le bs 12 = 256"
    "evoke_read_u16_le bs 14 = 1024" "evoke_read_u64_le bs 16 = s" "evoke_read_u32_le bs 24 = sw_document_count w"
    "evoke_read_u32_le bs 28 = sw_column_count w" "evoke_read_u32_le bs 32 = sw_value_count w" "evoke_read_u32_le bs 36 = 0"
    "evoke_read_u64_le bs 40 = sw_dictionary_offset w" "evoke_read_u64_le bs 48 = sw_dictionary_size w"
    "evoke_read_u64_le bs 56 = sw_postings_offset w" "evoke_read_u64_le bs 64 = sw_postings_size w"
    by (simp_all add: r16 r32 r64 r)
qed

text \<open>An object whose checksum happens to be zero is refused; every other one gives the header that was written.\<close>

lemma decode_header:
  assumes fin: "finished cols st s w im bs"
  shows "evoke_read_u64_le bs 72 \<noteq> 0 \<Longrightarrow>
      evoke_scope_header_deserialize (Some bs) (of_nat (length bs)) (of_nat (length bs)) s (Some h0) =
        (EVOKE_OK, Some (header_of s w (evoke_read_u64_le bs 72)))"
    and "evoke_read_u64_le bs 72 = 0 \<Longrightarrow>
      evoke_scope_header_deserialize (Some bs) (of_nat (length bs)) (of_nat (length bs)) s (Some h0) = (EVOKE_ERR_FORMAT, Some h0)"
proof -
  note f = finishedD [OF fin] and b = finished_bytes [OF fin] and reads = finished_reads [OF fin]
  note lw = layout_words [OF writer_okD(2) [OF f(1)]]
  have cc: "sw_column_count w \<noteq> 0"
    using f(7,8) writer_okD(3) [OF f(1)] layout_okD(1) [OF writer_okD(2) [OF f(1)]]
    by (auto simp: columns_ok_def sized_def word_unat_eq_iff)
  have big: "\<not> sw_total_size w < 80" using b(1,3) by (simp add: word_less_nat_alt)
  note guards = big cc f(9,10) lw(5-10) [folded not_less] less_irrefl
  note run = evoke_scope_header_deserialize_def Let_def scope_accessors scope_consts of_nat_numeral b(2) header_of_def
  show "evoke_scope_header_deserialize (Some bs) (of_nat (length bs)) (of_nat (length bs)) s (Some h0) =
      (EVOKE_OK, Some (header_of s w (evoke_read_u64_le bs 72)))" if c: "evoke_read_u64_le bs 72 \<noteq> 0"
    unfolding run by (simp only: reads lw(1-4) guards c option.case prod.case simp_thms if_True if_False evoke_scope_header.select_convs)
  show "evoke_scope_header_deserialize (Some bs) (of_nat (length bs)) (of_nat (length bs)) s (Some h0) = (EVOKE_ERR_FORMAT, Some h0)"
    if c: "evoke_read_u64_le bs 72 = 0"
    unfolding run by (simp only: reads lw(1-4) guards c option.case prod.case simp_thms if_True if_False evoke_scope_header.select_convs)
qed

lemma finished_sizes:
  assumes "finished cols st s w im bs"
  shows "length cols = unat (sw_column_count w)" "length st = unat (sw_value_count w)"
    "length (names cols @ texts st) = unat (sw_dictionary_size w)" "4 * length (posts st) = unat (sw_postings_size w)"
    "unat (sw_dictionary_size w) < 2 ^ 32"
    "sized (length cols) (length st) (unat (sw_dictionary_size w)) (unat (sw_postings_size w))
       (im\<lparr>im_head := evoke_write_u64_le (im_head im) 72 (evoke_scope_checksum (flat im) (unat (sw_total_size w)))\<rparr>)"
proof -
  note f = finishedD [OF assms]
  note inv = writer_okD [OF f(1)]
  note lay = layout_okD [OF inv(2)]
  show cc: "length cols = unat (sw_column_count w)" using inv(3) lay(1) by (simp add: columns_ok_def sized_def)
  show vc: "length st = unat (sw_value_count w)" by (rule f(3))
  show "length (names cols @ texts st) = unat (sw_dictionary_size w)" using inv(5) f(4) by (simp add: dictionary_ok_def)
  show "4 * length (posts st) = unat (sw_postings_size w)" using inv(7) f(5) by (simp add: postings_ok_def)
  show "unat (sw_dictionary_size w) < 2 ^ 32" by (rule lay(7))
  show "sized (length cols) (length st) (unat (sw_dictionary_size w)) (unat (sw_postings_size w))
       (im\<lparr>im_head := evoke_write_u64_le (im_head im) 72 (evoke_scope_checksum (flat im) (unat (sw_total_size w)))\<rparr>)"
    unfolding cc vc using sized_updates(6) [OF lay(1)] lay(1) by (simp add: sized_def)
qed

lemma names_take: "i < length cols \<Longrightarrow> names cols = names (take i cols) @ name_bytes (cols ! i) @ names (drop (Suc i) cols)"
  using arg_cong [OF id_take_nth_drop, of i cols names] by (simp add: names_def)

lemma column_facts:
  assumes fin: "finished cols st s w im bs" and i: "i < length cols"
  shows "column_valid (sw_value_count w) (if i = 0 then None else Some (cols ! (i - 1))) (cols ! i) (Suc i = length cols)"
    and "length (name_bytes (cols ! i)) = unat (sc_name_size (cols ! i)) \<Longrightarrow>
      length (names (take i cols)) + unat (sc_name_size (cols ! i)) \<le> unat (sw_dictionary_size w)"
    and "length (names (take i cols)) < 2 ^ 32"
proof -
  show "column_valid (sw_value_count w) (if i = 0 then None else Some (cols ! (i - 1))) (cols ! i) (Suc i = length cols)"
    using finishedD(6) [OF fin] i by (simp add: columns_valid_def)
  note sz = finished_sizes(3,5) [OF fin] and split = names_take [OF i]
  show "length (names (take i cols)) < 2 ^ 32" using sz split by simp
  show "length (name_bytes (cols ! i)) = unat (sc_name_size (cols ! i)) \<Longrightarrow>
      length (names (take i cols)) + unat (sc_name_size (cols ! i)) \<le> unat (sw_dictionary_size w)"
    using sz(1) split by simp
qed

lemma decode_column:
  assumes fin: "finished cols st s w im bs" and i: "i < length cols"
    and fits: "length (name_bytes (cols ! i)) = unat (sc_name_size (cols ! i))"
  shows "column_at bs (header_of s w c) (of_nat i) =
    (EVOKE_OK, column_entry_of (cols ! i) (of_nat (length (names (take i cols)))))"
proof -
  note f = finishedD [OF fin] and z = finished_sizes [OF fin] and cf = column_facts [OF fin i]
  note inv = writer_okD [OF f(1)]
  let ?im = "im\<lparr>im_head := evoke_write_u64_le (im_head im) 72 (evoke_scope_checksum (flat im) (unat (sw_total_size w)))\<rparr>"
  let ?e = "column_entry_of (cols ! i) (of_nat (length (names (take i cols))))"
  have bs: "bs = flat ?im" by (rule f(12))
  have fields: "column_fields (im_columns ?im ! i) = ?e" "evoke_read_u32_le (im_columns ?im ! i) 36 = 0"
    using inv(3) i by (simp_all add: columns_ok_def)
  have ui: "unat (of_nat i :: u32) = i" using i z(1) u32_less [of "sw_column_count w"] by (intro u32_of_nat) (simp del: u32_less)
  have idx: "\<not> sw_column_count w \<le> of_nat i" using i z(1) ui by (simp add: word_le_nat_alt)
  have off: "unat (of_nat (length (names (take i cols))) :: u32) = length (names (take i cols))" by (rule u32_of_nat [OF cf(3)])
  have v: "sc_index_attribute (cols ! i) \<noteq> 0" "\<not> sint (sc_heap_attribute (cols ! i)) \<le> 0" "sc_type_oid (cols ! i) \<noteq> 0"
      "sc_name_size (cols ! i) \<noteq> 0" "unat (sc_first_value (cols ! i)) + unat (sc_value_count (cols ! i)) \<le> unat (sw_value_count w)"
    using cf(1) by (simp_all add: column_valid_def)
  have o1: "\<not> sw_dictionary_size w < u64_of_u32 (of_nat (length (names (take i cols))))"
    using cf(2) [OF fits] off by (simp add: word_less_nat_alt)
  then have o2: "\<not> sw_dictionary_size w - u64_of_u32 (of_nat (length (names (take i cols)))) < u64_of_u32 (sc_name_size (cols ! i))"
    using cf(2) [OF fits] off by (simp add: word_less_nat_alt unat_sub_word not_less word_le_nat_alt)
  have o3: "\<not> sw_value_count w < sc_first_value (cols ! i)" using v(5) by (simp add: word_less_nat_alt)
  then have o4: "\<not> sw_value_count w - sc_first_value (cols ! i) < sc_value_count (cols ! i)"
    using v(5) by (simp add: word_less_nat_alt unat_sub_word not_less word_le_nat_alt)
  note at = column_at_flat(1,2) [OF z(6) i, unfolded fields]
  show ?thesis
    unfolding column_at_def evoke_scope_column_entry_deserialize_def Let_def scope_accessors scope_consts of_nat_numeral ui bs
    using at idx v(1-4) o1 o2 o3 o4 by (simp add: header_of_def column_entry_of_def del: add_2_eq_Suc add_2_eq_Suc')
qed


lemma texts_take: "j < length st \<Longrightarrow> texts st = texts (take j st) @ text_of (fst (st ! j)) @ texts (drop (Suc j) st)"
  using arg_cong [OF id_take_nth_drop, of j st texts] by (simp add: texts_def)

lemma posts_take: "j < length st \<Longrightarrow> posts st = posts (take j st) @ snd (st ! j) @ posts (drop (Suc j) st)"
  using arg_cong [OF id_take_nth_drop, of j st posts] by (simp add: posts_def)

text \<open>The numbers of an entry, as natural numbers.\<close>

lemma entry_numbers:
  assumes fin: "finished cols st s w im bs" and j: "j < length st"
  shows "unat (ve_value_offset (entry_of cols st j)) = length (names cols @ texts (take j st))"
    and "unat (ve_postings_offset (entry_of cols st j)) = 4 * length (posts (take j st))"
    and "unat (ve_document_count (entry_of cols st j)) = length (snd (st ! j))"
    and "length (names cols @ texts (take j st)) + unat (sv_value_size (fst (st ! j))) \<le> unat (sw_dictionary_size w)"
    and "4 * length (posts (take j st)) + 4 * length (snd (st ! j)) \<le> unat (sw_postings_size w)"
    and "snd (st ! j) \<noteq> []" and "value_checked cols (sw_document_count w) j (st ! j)"
proof -
  note f = finishedD [OF fin] and z = finished_sizes [OF fin]
  note inv = writer_okD [OF f(1)]
  show checked: "value_checked cols (sw_document_count w) j (st ! j)" using inv(9) j by (simp add: values_checked_def)
  have docs: "length (snd (st ! j)) \<le> unat (sw_document_count w)"
    using checked ascending_bounded [of "snd (st ! j)"] by (cases "st ! j") (simp add: value_checked_def)
  have tl: "length (text_of (fst (st ! j))) = unat (sv_value_size (fst (st ! j)))" by (rule checked_text [OF inv(9) j])
  show d: "length (names cols @ texts (take j st)) + unat (sv_value_size (fst (st ! j))) \<le> unat (sw_dictionary_size w)"
    using z(3) texts_take [OF j] tl by simp
  show p: "4 * length (posts (take j st)) + 4 * length (snd (st ! j)) \<le> unat (sw_postings_size w)"
    using z(4) posts_take [OF j] by simp
  have "unat (of_nat (length (names cols @ texts (take j st))) :: u32) = length (names cols @ texts (take j st))"
    by (rule u32_of_nat) (use d z(5) in simp)
  then show "unat (ve_value_offset (entry_of cols st j)) = length (names cols @ texts (take j st))"
    by (simp add: entry_of_def split: prod.splits)
  have "4 * length (posts (take j st)) < 18446744073709551616" using p u64_less [of "sw_postings_size w"] by linarith
  then have "unat (of_nat (4 * length (posts (take j st))) :: u64) = 4 * length (posts (take j st))"
    by (simp only: unat_of_nat) simp
  then show "unat (ve_postings_offset (entry_of cols st j)) = 4 * length (posts (take j st))"
    by (simp add: entry_of_def split: prod.splits)
  have "unat (of_nat (length (snd (st ! j))) :: u32) = length (snd (st ! j))"
    by (rule u32_of_nat) (use docs u32_less [of "sw_document_count w"] in \<open>simp del: u32_less\<close>)
  then show "unat (ve_document_count (entry_of cols st j)) = length (snd (st ! j))"
    by (cases "st ! j") (simp add: entry_of_def)
  show "snd (st ! j) \<noteq> []" using inv(8) f(2) j by (simp add: open_ok_def)
qed

lemma entry_of_fields:
  "ve_column_index (entry_of cols st j) = sv_column_index (fst (st ! j))" "ve_kind (entry_of cols st j) = sv_kind (fst (st ! j))"
  "ve_value_size (entry_of cols st j) = sv_value_size (fst (st ! j))" "ve_gram_mask (entry_of cols st j) = mask_of (fst (st ! j))"
  by (simp_all add: entry_of_def split: prod.splits)

lemma entry_bytes:
  assumes fin: "finished cols st s w im bs" and j: "j < length st"
  shows "value_fields (drop (80 + unat (sw_column_count w) * 40 + j * 32) bs) = entry_of cols st j"
proof -
  note f = finishedD [OF fin] and z = finished_sizes [OF fin]
  show ?thesis
    using value_at_flat(1) [OF z(6) j] f(12) writer_okD(4) [OF f(1)] j f(2) z(1)
    by (simp add: entries_ok_def closed_entry_def add.commute add.left_commute mult.commute)
qed

lemma decode_one:
  assumes fin: "finished cols st s w im bs" and j: "j < length st" and fields: "value_fields d = entry_of cols st j"
  shows "evoke_scope_value_entry_deserialize_one (Some d) 32 (Some (header_of s w c)) (of_nat j) (Some zero_value_entry) =
    (EVOKE_OK, Some (entry_of cols st j))"
proof -
  note z = finished_sizes [OF fin] and n = entry_numbers [OF fin j]
  let ?e = "entry_of cols st j"
  have uj: "unat (of_nat j :: u32) = j" using j z(2) u32_less [of "sw_value_count w"] by (intro u32_of_nat) (simp del: u32_less)
  have idx: "\<not> sw_value_count w \<le> of_nat j" using j z(2) uj by (simp add: word_le_nat_alt)
  have checked: "\<not> sw_column_count w \<le> ve_column_index ?e"
    "ve_kind ?e = EVOKE_SCOPE_VALUE_SCALAR \<or> ve_kind ?e = EVOKE_SCOPE_VALUE_ARRAY_ELEMENT"
    using n(7) z(1) by (cases "st ! j"; simp add: value_checked_def entry_of_fields word_le_nat_alt)+
  have docs: "ve_document_count ?e \<noteq> 0" using n(3,6) by (auto simp: word_unat_eq_iff)
  have o1: "\<not> sw_dictionary_size w < u64_of_u32 (ve_value_offset ?e)" using n(1,4) by (simp add: word_less_nat_alt)
  then have o2: "\<not> sw_dictionary_size w - u64_of_u32 (ve_value_offset ?e) < u64_of_u32 (ve_value_size ?e)"
    using n(1,4) by (simp add: word_less_nat_alt unat_sub_word not_less word_le_nat_alt entry_of_fields)
  have o3: "\<not> sw_postings_size w < ve_postings_offset ?e" using n(2,5) by (simp add: word_less_nat_alt)
  have four: "unat (u64_of_u32 (ve_document_count ?e) * 4) = 4 * length (snd (st ! j))"
    using n(3) u32_less [of "ve_document_count ?e"] by (simp add: unat_word_ariths del: u32_less)
  have o4: "\<not> sw_postings_size w - ve_postings_offset ?e < u64_of_u32 (ve_document_count ?e) * 4"
    using o3 four n(2,5) by (simp add: word_less_nat_alt unat_sub_word not_less word_le_nat_alt)
  show ?thesis
    unfolding evoke_scope_value_entry_deserialize_one_def Let_def scope_accessors scope_consts of_nat_numeral
      value_fields_def [symmetric] fields
    using idx checked docs o1 o2 o3 o4 by (auto simp: header_of_def fields)
qed

lemma decode_value:
  assumes fin: "finished cols st s w im bs" and j: "j < length st"
  shows "value_at bs (header_of s w c) (of_nat j) = (EVOKE_OK, entry_of cols st j)"
proof -
  note z = finished_sizes [OF fin]
  have uj: "unat (of_nat j :: u32) = j" using j z(2) u32_less [of "sw_value_count w"] by (intro u32_of_nat) (simp del: u32_less)
  have idx: "\<not> sw_value_count w \<le> of_nat j" using j z(2) uj by (simp add: word_le_nat_alt)
  have vc: "u64_of_u32 (sw_value_count w) * 32 div 32 = u64_of_u32 (sw_value_count w)"
    using unat_entry_bytes(2) [of "sw_value_count w"] by (simp add: word_unat_eq_iff unat_div)
  have h: "sh_column_count (header_of s w c) = sw_column_count w" "sh_value_count (header_of s w c) = sw_value_count w"
    by (simp_all add: header_of_def)
  have "value_fields (drop (j * 32) (drop (80 + unat (sw_column_count w) * 40) bs)) = entry_of cols st j"
    using entry_bytes [OF fin j] by (simp add: add.commute)
  note one = decode_one [OF fin j this, of c]
  show ?thesis
    unfolding value_at_def evoke_scope_value_entry_deserialize_def Let_def scope_consts of_nat_numeral h uj option.map
      option.case one
    using idx vc by simp
qed

end
