(* ===== verification/Scope_Validate.thy ===== *)
theory Scope_Validate
  imports Scope_Roundtrip
begin

unbundle bit_operations_syntax

text \<open>
  The validator of scope objects accepts what the serializer builds, loop by loop, and the entries it decodes are
  those of the input. The theory ends with the properties of the codec.
\<close>

section \<open>Columns\<close>

definition names_sized :: "evoke_scope_column list \<Rightarrow> bool" where
  "names_sized cols \<longleftrightarrow> (\<forall>c \<in> set cols. length (name_bytes c) = unat (sc_name_size c))"

definition first_at :: "evoke_scope_column list \<Rightarrow> u32 \<Rightarrow> nat \<Rightarrow> u32" where
  "first_at cols value_count i = (if i < length cols then sc_first_value (cols ! i) else value_count)"

lemma first_at_step:
  assumes "columns_valid vc cols" "i < length cols"
  shows "sc_first_value (cols ! i) + sc_value_count (cols ! i) = first_at cols vc (Suc i)"
proof -
  have "column_valid vc (if i = 0 then None else Some (cols ! (i - 1))) (cols ! i) (Suc i = length cols)"
    using assms by (simp add: columns_valid_def)
  moreover have "column_valid vc (Some (cols ! i)) (cols ! Suc i) (Suc (Suc i) = length cols)" if "Suc i < length cols"
    using assms(1) that by (auto simp: columns_valid_def dest: spec [of _ "Suc i"])
  ultimately show ?thesis using assms(2) by (auto simp: first_at_def column_valid_def)
qed

lemma u64_of_small: "n < 2 ^ 32 \<Longrightarrow> u64_of_u32 (of_nat n) = of_nat n"
  using u32_of_nat [of n] by (simp add: word_unat_eq_iff unat_of_nat)

lemma names_take_Suc: "i < length cols \<Longrightarrow> names (take (Suc i) cols) = names (take i cols) @ name_bytes (cols ! i)"
  by (simp add: names_def take_Suc_conv_app_nth)

lemma validate_columns_ok:
  assumes fin: "finished cols st s w im bs" and named: "names_sized cols"
  shows "i \<le> length cols \<Longrightarrow> (0 < i \<Longrightarrow> ce_index_attribute previous = sc_index_attribute (cols ! (i - 1))) \<Longrightarrow>
    validate_columns bs (header_of s w c) [i..<length cols] previous (of_nat (length (names (take i cols))))
      (first_at cols (sw_value_count w) i) = Inr (of_nat (length (names cols)), sw_value_count w)"
proof (induction "length cols - i" arbitrary: i previous)
  case 0
  then show ?case by (simp add: first_at_def)
next
  case (Suc k)
  then have i: "i < length cols" by simp
  note cf = column_facts [OF fin i]
  have fits: "length (name_bytes (cols ! i)) = unat (sc_name_size (cols ! i))" using named i by (simp add: names_sized_def)
  let ?e = "column_entry_of (cols ! i) (of_nat (length (names (take i cols))))"
  have dec: "column_at bs (header_of s w c) (of_nat i) = (EVOKE_OK, ?e)" by (rule decode_column [OF fin i fits])
  have asc: "\<not> (0 < i \<and> ce_index_attribute previous \<ge> ce_index_attribute ?e)"
    using cf(1) Suc.prems(2) by (auto simp: column_valid_def column_entry_of_def split: if_splits)
  have off: "u64_of_u32 (ce_name_offset ?e) = of_nat (length (names (take i cols)))"
    using u64_of_small [OF cf(3)] by (simp add: column_entry_of_def)
  have next_off: "of_nat (length (names (take i cols))) + u64_of_u32 (ce_name_size ?e) = of_nat (length (names (take (Suc i) cols)))"
    using names_take_Suc [OF i] fits by (simp add: column_entry_of_def u64_of_u32_def of_nat_unat)
  have next_first: "first_at cols (sw_value_count w) i + ce_value_count ?e = first_at cols (sw_value_count w) (Suc i)"
    using first_at_step [OF finishedD(6) [OF fin] i] i by (simp add: first_at_def column_entry_of_def)
  have "validate_columns bs (header_of s w c) [Suc i..<length cols] ?e (of_nat (length (names (take (Suc i) cols))))
      (first_at cols (sw_value_count w) (Suc i)) = Inr (of_nat (length (names cols)), sw_value_count w)"
    by (rule Suc.hyps(1)) (use Suc.hyps(2) i in \<open>simp_all add: column_entry_of_def\<close>)
  moreover have "ce_first_value ?e = first_at cols (sw_value_count w) i" using i by (simp add: first_at_def column_entry_of_def)
  ultimately show ?case
    using asc off by (simp add: upt_conv_Cons [OF i] dec next_off next_first del: upt_Suc)
qed

section \<open>Values\<close>

lemma drop_same:
  assumes "finished cols st s w im bs" "80 \<le> n"
  shows "drop n bs = drop n (flat im)"
proof -
  have "length (im_head im) = 80" using length_regions(1) [OF layout_okD(1) [OF writer_okD(2) [OF finishedD(1) [OF assms(1)]]]] .
  then show ?thesis using finishedD(12) [OF assms(1)] assms(2) by (simp add: flat_def)
qed

lemma finished_text:
  assumes fin: "finished cols st s w im bs" and j: "j < length st"
  shows "take (unat (sv_value_size (fst (st ! j))))
      (drop (unat (sw_dictionary_offset w) + unat (ve_value_offset (entry_of cols st j))) bs) = text_of (fst (st ! j))"
proof -
  note f = finishedD [OF fin]
  have "80 \<le> unat (sw_dictionary_offset w)" using layout_okD(3) [OF writer_okD(2) [OF f(1)]] by simp
  then show ?thesis using dictionary_text [OF f(1) j] drop_same [OF fin] by simp
qed

lemma finished_post:
  assumes fin: "finished cols st s w im bs" and p: "p < length (posts st)"
  shows "evoke_read_u32_le bs (unat (sw_postings_offset w) + 4 * p) = posts st ! p"
proof -
  note inv = writer_okD [OF finishedD(1) [OF fin]]
  note lay = layout_okD [OF inv(2)]
  have len: "unat (sw_postings_offset w) \<le> length bs" using finished_bytes(1) [OF fin] lay(5,6) by simp
  have "80 \<le> unat (sw_postings_offset w)" using lay(5) by simp
  then have region: "drop (unat (sw_postings_offset w)) bs = im_postings im"
    using drop_same [OF fin] drop_postings [OF lay(1)] lay(5) by simp
  have "evoke_read_u32_le bs (unat (sw_postings_offset w) + 4 * p) = evoke_read_u32_le (im_postings im) (4 * p)"
    using read_drop(2) [OF len, of "4 * p"] unfolding region by simp
  also have "\<dots> = posts st ! p" using inv(7) p unfolding postings_ok_def by blast
  finally show ?thesis .
qed

lemma finished_document:
  assumes fin: "finished cols st s w im bs" and j: "j < length st" and m: "m < length (snd (st ! j))"
  shows "evoke_read_u32_le bs (unat (sw_postings_offset w) + unat (ve_postings_offset (entry_of cols st j)) + m * 4) = snd (st ! j) ! m"
proof -
  let ?p = "length (posts (take j st)) + m"
  have "?p < length (posts st)" "posts st ! ?p = snd (st ! j) ! m" using posts_take [OF j] m by (simp_all add: nth_append)
  then show ?thesis using finished_post [OF fin, of ?p] entry_numbers(2) [OF fin j] by (simp add: algebra_simps)
qed

lemma documents_accepted:
  assumes fin: "finished cols st s w im bs" and j: "j < length st"
  shows "documents_ok bs (header_of s w c) (entry_of cols st j)"
proof -
  note n = entry_numbers [OF fin j]
  let ?docs = "snd (st ! j)"
  have s: "sorted_wrt (<) ?docs" "\<forall>d \<in> set ?docs. d < sw_document_count w"
    using n(7) by (cases "st ! j"; simp add: value_checked_def)+
  have "\<not> (?docs ! m \<ge> sw_document_count w \<or> (m > 0 \<and> ?docs ! (m - 1) \<ge> ?docs ! m))" if m: "m < length ?docs" for m
    using s m sorted_wrt_nth_less [OF s(1), of "m - 1" m] by (cases m) (auto simp: not_le)
  then show ?thesis using n(3) finished_document [OF fin j]
    by (simp add: documents_ok_def Let_def header_of_def)
qed

lemma order_accepted:
  assumes fin: "finished cols st s w im bs" and j: "Suc j < length st"
  shows "values_in_order bs (header_of s w c) (entry_of cols st j) (entry_of cols st (Suc j))"
proof -
  note f = finishedD [OF fin]
  note inv = writer_okD [OF f(1)]
  let ?p = "fst (st ! j)" and ?v = "fst (st ! Suc j)"
  let ?n = "min (length (text_of ?p)) (length (text_of ?v))"
  have lens: "length (text_of ?p) = unat (sv_value_size ?p)" "length (text_of ?v) = unat (sv_value_size ?v)"
    using checked_text [OF inv(9)] j by simp_all
  have before: "value_before ?p ?v" using inv(9) j by (simp add: values_checked_def)
  have common: "unat (if sv_value_size ?p < sv_value_size ?v then sv_value_size ?p else sv_value_size ?v) = ?n"
    using lens by (simp add: word_less_nat_alt min_def)
  have cut: "take ?n d = take ?n (take (unat (sv_value_size ?p)) d)" "take ?n d = take ?n (take (unat (sv_value_size ?v)) d)"
    for d :: bytes using lens by (simp_all add: min.absorb1)
  have texts: "take ?n (drop (unat (sw_dictionary_offset w) + unat (ve_value_offset (entry_of cols st j))) bs) = take ?n (text_of ?p)"
    "take ?n (drop (unat (sw_dictionary_offset w) + unat (ve_value_offset (entry_of cols st (Suc j)))) bs) = take ?n (text_of ?v)"
    using finished_text [OF fin, of j] finished_text [OF fin j] j by (subst cut; simp)+
  have h: "sh_dictionary_offset (header_of s w c) = sw_dictionary_offset w" by (simp add: header_of_def)
  show ?thesis
    unfolding values_in_order_def Let_def entry_of_fields h common texts
    using before lens unfolding value_before_def text_before_def Let_def
    by (auto simp: word_less_nat_alt word_le_nat_alt)
qed

lemma validate_values_ok:
  assumes fin: "finished cols st s w im bs"
  shows "j \<le> length st \<Longrightarrow> previous = (if j = 0 then None else Some (entry_of cols st (j - 1))) \<Longrightarrow>
    validate_values bs (header_of s w c) [j..<length st] previous (of_nat (length (names cols @ texts (take j st))))
      (of_nat (4 * length (posts (take j st)))) = Inr (sw_dictionary_size w, sw_postings_size w)"
proof (induction "length st - j" arbitrary: j previous)
  case 0
  note z = finished_sizes [OF fin]
  have "(of_nat (length (names cols @ texts st)) :: u64) = sw_dictionary_size w"
    "(of_nat (4 * length (posts st)) :: u64) = sw_postings_size w"
    unfolding z(3) z(4) by (simp_all add: of_nat_unat)
  then show ?case using 0 by simp
next
  case (Suc k)
  then have j: "j < length st" by simp
  note n = entry_numbers [OF fin j] and z = finished_sizes [OF fin]
  let ?e = "entry_of cols st j"
  have dec: "value_at bs (header_of s w c) (of_nat j) = (EVOKE_OK, ?e)" by (rule decode_value [OF fin j])
  have off: "u64_of_u32 (ve_value_offset ?e) = of_nat (length (names cols @ texts (take j st)))"
    unfolding n(1) [symmetric] by (simp add: u64_of_u32_def of_nat_unat)
  have poff: "ve_postings_offset ?e = of_nat (4 * length (posts (take j st)))"
    unfolding n(2) [symmetric] by (simp add: of_nat_unat)
  have col: "\<not> sw_column_count w \<le> ve_column_index ?e"
    using n(7) z(1) by (cases "st ! j") (simp add: value_checked_def entry_of_fields word_le_nat_alt)
  have order: "\<not> (case previous of None \<Rightarrow> False | Some p \<Rightarrow> \<not> values_in_order bs (header_of s w c) p ?e)"
    using Suc.prems(2) order_accepted [OF fin, of "j - 1" c] j by (cases j) simp_all
  have next_off: "of_nat (length (names cols @ texts (take j st))) + u64_of_u32 (ve_value_size ?e) =
      of_nat (length (names cols @ texts (take (Suc j) st)))"
  proof -
    have "texts (take (Suc j) st) = texts (take j st) @ text_of (fst (st ! j))"
      using j by (simp add: texts_def take_Suc_conv_app_nth)
    moreover have "u64_of_u32 (ve_value_size ?e) = of_nat (length (text_of (fst (st ! j))))"
      using checked_text [OF writer_okD(9) [OF finishedD(1) [OF fin]] j] by (simp add: entry_of_fields u64_of_u32_def of_nat_unat)
    ultimately show ?thesis by simp
  qed
  have next_poff: "of_nat (4 * length (posts (take j st))) + u64_of_u32 (ve_document_count ?e) * 4 =
      of_nat (4 * length (posts (take (Suc j) st)))"
  proof -
    have "posts (take (Suc j) st) = posts (take j st) @ snd (st ! j)"
      using j by (simp add: posts_def take_Suc_conv_app_nth)
    moreover have "u64_of_u32 (ve_document_count ?e) = of_nat (length (snd (st ! j)))"
      unfolding n(3) [symmetric] by (simp add: u64_of_u32_def of_nat_unat)
    ultimately show ?thesis by simp
  qed
  have "validate_values bs (header_of s w c) [Suc j..<length st] (Some ?e) (of_nat (length (names cols @ texts (take (Suc j) st))))
      (of_nat (4 * length (posts (take (Suc j) st)))) = Inr (sw_dictionary_size w, sw_postings_size w)"
    by (rule Suc.hyps(1)) (use Suc.hyps(2) j in simp_all)
  moreover have "sh_column_count (header_of s w c) = sw_column_count w" by (simp add: header_of_def)
  ultimately show ?case
    unfolding upt_conv_Cons [OF j] validate_values.simps dec prod.case next_off [symmetric] next_poff [symmetric]
    using off poff col order documents_accepted [OF fin j, of c] by simp
qed

section \<open>Membership\<close>

lemma column_ranges_disjoint:
  assumes valid: "columns_valid vc cols" and "i < k" "k < length cols"
  shows "unat (sc_first_value (cols ! i)) + unat (sc_value_count (cols ! i)) \<le> unat (sc_first_value (cols ! k))"
  using assms(2,3)
proof (induction k)
  case (Suc k)
  have range: "unat (sc_first_value (cols ! k)) + unat (sc_value_count (cols ! k)) \<le> unat vc"
    using valid Suc.prems(2) by (simp add: columns_valid_def column_valid_def)
  then have "unat (sc_first_value (cols ! k) + sc_value_count (cols ! k)) = unat (sc_first_value (cols ! k)) + unat (sc_value_count (cols ! k))"
    using u32_less [of vc] by (intro unat_add_u32) linarith
  then have "unat (sc_first_value (cols ! Suc k)) = unat (sc_first_value (cols ! k)) + unat (sc_value_count (cols ! k))"
    using first_at_step [OF valid, of k] Suc.prems(2) by (simp add: first_at_def)
  then show ?case using Suc by (cases "i = k") auto
qed simp

text \<open>The values in the range of a column are the values of that column.\<close>

lemma value_in_column:
  assumes fin: "finished cols st s w im bs" and i: "i < length cols"
    and range: "unat (sc_first_value (cols ! i)) \<le> j" "j < unat (sc_first_value (cols ! i)) + unat (sc_value_count (cols ! i))"
  shows "j < length st" "sv_column_index (fst (st ! j)) = of_nat i"
proof -
  note valid = finishedD(6) [OF fin]
  have "unat (sc_first_value (cols ! i)) + unat (sc_value_count (cols ! i)) \<le> unat (sw_value_count w)"
    using valid i by (simp add: columns_valid_def column_valid_def)
  then show j: "j < length st" using range finished_sizes(2) [OF fin] by simp
  let ?c = "unat (sv_column_index (fst (st ! j)))"
  have mine: "?c < length cols" "unat (sc_first_value (cols ! ?c)) \<le> j"
      "j < unat (sc_first_value (cols ! ?c)) + unat (sc_value_count (cols ! ?c))"
    using entry_numbers(7) [OF fin j] by (cases "st ! j"; simp add: value_checked_def Let_def)+
  have "?c = i"
    using column_ranges_disjoint [OF valid, of i ?c] column_ranges_disjoint [OF valid, of ?c i] mine i range
    by (cases ?c i rule: linorder_cases) auto
  then show "sv_column_index (fst (st ! j)) = of_nat i" by (auto simp: of_nat_unat)
qed

lemma column_values_ok:
  assumes fin: "finished cols st s w im bs" and i: "i < length cols"
    and js: "\<forall>j \<in> set js. unat (sc_first_value (cols ! i)) \<le> j \<and> j < unat (sc_first_value (cols ! i)) + unat (sc_value_count (cols ! i))"
  shows "validate_column_values bs (header_of s w c) i js = EVOKE_OK"
  using js
proof (induction js)
  case (Cons j js)
  then have j: "j < length st" "sv_column_index (fst (st ! j)) = of_nat i" using value_in_column [OF fin i, of j] by simp_all
  then show ?case using Cons decode_value [OF fin j(1), of c] by (simp add: entry_of_fields)
qed simp

lemma membership_ok:
  assumes fin: "finished cols st s w im bs" and named: "names_sized cols"
  shows "\<forall>i \<in> set is. i < length cols \<Longrightarrow> validate_membership bs (header_of s w c) is = EVOKE_OK"
proof (induction "is")
  case (Cons i "is")
  then have i: "i < length cols" by simp
  have fits: "length (name_bytes (cols ! i)) = unat (sc_name_size (cols ! i))" using named i by (simp add: names_sized_def)
  have "unat (sc_first_value (cols ! i)) + unat (sc_value_count (cols ! i)) \<le> unat (sw_value_count w)"
    using finishedD(6) [OF fin] i by (simp add: columns_valid_def column_valid_def)
  then have "unat (sc_first_value (cols ! i) + sc_value_count (cols ! i)) = unat (sc_first_value (cols ! i)) + unat (sc_value_count (cols ! i))"
    using u32_less [of "sw_value_count w"] by (intro unat_add_u32) linarith
  then have "validate_column_values bs (header_of s w c) i
      [unat (sc_first_value (cols ! i))..<unat (sc_first_value (cols ! i) + sc_value_count (cols ! i))] = EVOKE_OK"
    by (intro column_values_ok [OF fin i]) simp
  then show ?case using Cons decode_column [OF fin i fits, of c] by (simp add: Let_def column_entry_of_def)
qed simp

lemma finished_accepted:
  assumes fin: "finished cols st s w im bs" and named: "names_sized cols" and c: "evoke_read_u64_le bs 72 \<noteq> 0"
  shows "evoke_scope_validate (Some bs) (of_nat (length bs)) s = EVOKE_OK"
proof -
  note z = finished_sizes [OF fin] and b = finished_bytes [OF fin]
  let ?h = "header_of s w (evoke_read_u64_le bs 72)"
  have h: "sh_column_count ?h = sw_column_count w" "sh_value_count ?h = sw_value_count w"
      "sh_dictionary_size ?h = sw_dictionary_size w" "sh_postings_size ?h = sw_postings_size w"
    by (simp_all add: header_of_def)
  have "sc_first_value (cols ! 0) = 0"
    using finishedD(6,8) [OF fin] by (auto simp: columns_valid_def column_valid_def dest: spec [of _ 0])
  then have "first_at cols (sw_value_count w) 0 = 0" using finishedD(8) [OF fin] by (simp add: first_at_def)
  then have cols: "validate_columns bs ?h [0..<unat (sw_column_count w)] zero_column_entry 0 0 =
      Inr (of_nat (length (names cols)), sw_value_count w)"
    using validate_columns_ok [OF fin named, of 0 zero_column_entry] z(1) by simp
  have vals: "validate_values bs ?h [0..<unat (sw_value_count w)] None (of_nat (length (names cols))) 0 =
      Inr (sw_dictionary_size w, sw_postings_size w)"
    using validate_values_ok [OF fin, of 0 None] z(2) by (simp add: texts_def posts_def)
  have mem: "validate_membership bs ?h [0..<unat (sw_column_count w)] = EVOKE_OK"
    by (rule membership_ok [OF fin named]) (use z(1) in simp)
  have len: "unat (of_nat (length bs) :: u64) = length bs" using b(1,2) by simp
  show ?thesis
    unfolding evoke_scope_validate_def decode_header(1) [OF fin c] Let_def scope_accessors prod.case option.sel len h cols vals mem
    by (simp add: b(4) [symmetric] vals mem h)
qed

section \<open>The serializer and the decoders\<close>

text \<open>The inputs of a call: the memory behind every pointer is as large as the code takes it to be.\<close>

definition inputs_fit :: "evoke_scope_column list \<Rightarrow> u32 \<Rightarrow> evoke_scope_value list \<Rightarrow> u32 \<Rightarrow> bool" where
  "inputs_fit columns column_count vals value_count \<longleftrightarrow>
     unat column_count \<le> length columns \<and> (\<forall>c \<in> set (take (unat column_count) columns). column_fits c) \<and>
     unat value_count \<le> length vals \<and> (\<forall>v \<in> set (take (unat value_count) vals). value_fits v)"

lemma scope_serialize_run:
  assumes "evoke_scope_serialize calloc_ok s document_count (Some columns) column_count (Some vals) value_count
      (Some b) (Some z) = (EVOKE_OK, Some (Some bs), Some n)"
    and "inputs_fit columns column_count vals value_count"
  obtains w im where "finished (take (unat column_count) columns)
      (map (\<lambda>v. (v, documents_of v)) (take (unat value_count) vals)) s w im bs"
    and "n = of_nat (length bs)" "names_sized (take (unat column_count) columns)" "sw_value_count w = value_count"
    and "sw_document_count w = document_count"
proof -
  let ?cols = "take (unat column_count) columns" and ?st = "map (\<lambda>v. (v, documents_of v)) (take (unat value_count) vals)"
  obtain w im where fin: "finished ?cols ?st s w im bs" and n: "n = sw_total_size w" and vc: "sw_value_count w = value_count"
    and dc: "sw_document_count w = document_count"
    using serialize_finished [OF assms(1) refl _ _ refl] assms(2) unfolding inputs_fit_def by blast
  have "sc_name c \<noteq> None" if "c \<in> set ?cols" for c
    using that finishedD(6) [OF fin] by (auto simp: columns_valid_def column_valid_def in_set_conv_nth)
  moreover have "column_fits c" if "c \<in> set ?cols" for c using that assms(2) by (simp add: inputs_fit_def)
  ultimately have "names_sized ?cols" by (simp add: names_sized_def name_length)
  then show ?thesis using that fin n finished_bytes(2) [OF fin] vc dc by simp
qed

text \<open>The validator honours the seal, so that a change of any one byte of an accepted object is noticed.\<close>

lemma validate_sealed:
  assumes "evoke_scope_validate (Some bs) (of_nat (length bs)) s = EVOKE_OK" "length bs < 2 ^ 64"
  shows "80 \<le> length bs \<and> sealed (length bs) 72 bs"
proof -
  have u: "unat (of_nat (length bs) :: u64) = length bs" using assms(2) by (simp add: unat_of_nat)
  have "\<not> (of_nat (length bs) :: u64) < 80" and ck: "evoke_read_u64_le bs 72 = evoke_scope_checksum bs (length bs)"
    using assms(1) unfolding evoke_scope_validate_def evoke_scope_header_deserialize_def Let_def scope_accessors scope_consts u
    by (auto split: if_splits)
  then have len: "80 \<le> length bs" using u by (simp add: word_less_nat_alt)
  then show ?thesis using ck scope_checksum_zeroed [OF len] by (simp add: sealed_def)
qed

interpretation scope_seal: sealed_codec
  "\<lambda>bs. length bs = max n 80 \<and> n < 2 ^ 64 \<and> evoke_scope_validate (Some bs) (of_nat (length bs)) s = EVOKE_OK" "max n 80" 72
  for n s
proof unfold_locales
  fix bs :: bytes
  assume a: "length bs = max n 80 \<and> n < 2 ^ 64 \<and> evoke_scope_validate (Some bs) (of_nat (length bs)) s = EVOKE_OK"
  then have "length bs < 2 ^ 64" by auto
  then have "sealed (length bs) 72 bs" using validate_sealed a by blast
  then show "sealed (max n 80) 72 bs" using a by simp
qed simp

lemma scope_detects_corruption:
  assumes "evoke_scope_validate (Some bs) (of_nat (length bs)) s = EVOKE_OK" "length bs < 2 ^ 64"
    and "i < length bs" "x \<noteq> bs ! i"
  shows "evoke_scope_validate (Some (bs[i := x])) (of_nat (length bs)) s \<noteq> EVOKE_OK"
  using scope_seal.refuses_single_byte [of bs "length bs" s i x] validate_sealed [OF assms(1,2)] assms by auto

end
