(* ===== verification/Scope_Accept.thy ===== *)
theory Scope_Accept
  imports Scope_Validate
begin

unbundle bit_operations_syntax

text \<open>
  Which inputs the serializer of scope objects accepts: the calls of the writer succeed on every well-formed input, so
  that the theorems about serialized objects are about all of them.
\<close>

section \<open>Beginning\<close>

lemma add_size_fits: "unat a + unat b < 2 ^ 64 \<Longrightarrow> evoke_scope_add_size a b = Some (a + b) \<and> unat (a + b) = unat a + unat b"
proof -
  assume *: "unat a + unat b < 2 ^ 64"
  have "b \<le> SIZE_MAX" using u64_less [of b] by (simp add: word_le_nat_alt less_Suc_eq_le [symmetric] del: u64_less)
  then have "\<not> a > SIZE_MAX - b" using * by (simp add: word_less_nat_alt unat_sub_word)
  then show ?thesis using * by (simp add: evoke_scope_add_size_def unat_add_u64)
qed

lemma begin_columns_total:
  assumes "\<forall>i < length cs. column_valid value_count (if i = 0 then previous else Some (cs ! (i - 1))) (cs ! i) (Suc i = length cs)"
    and "unat ds0 + sum_list (map (unat \<circ> sc_name_size) cs) < 2 ^ 64"
  shows "begin_columns value_count previous cs ds0 \<noteq> None"
  using assms
proof (induction cs arbitrary: previous ds0)
  case (Cons c rest)
  have head: "column_valid value_count previous c (rest = [])" using Cons.prems(1) by (auto dest: spec [of _ 0])
  have tail: "\<forall>i < length rest. column_valid value_count (if i = 0 then Some c else Some (rest ! (i - 1))) (rest ! i) (Suc i = length rest)"
  proof (intro allI impI)
    fix i assume "i < length rest"
    then have "column_valid value_count (Some ((c # rest) ! i)) (rest ! i) (Suc (Suc i) = Suc (length rest))"
      using Cons.prems(1) by (auto dest!: spec [of _ "Suc i"])
    then show "column_valid value_count (if i = 0 then Some c else Some (rest ! (i - 1))) (rest ! i) (Suc i = length rest)"
      by (cases i) simp_all
  qed
  have add: "evoke_scope_add_size ds0 (u64_of_u32 (sc_name_size c)) = Some (ds0 + u64_of_u32 (sc_name_size c))"
      "unat (ds0 + u64_of_u32 (sc_name_size c)) = unat ds0 + unat (sc_name_size c)"
    using add_size_fits [of ds0 "u64_of_u32 (sc_name_size c)"] Cons.prems(2) by simp_all
  have f: "\<not> sc_first_value c > value_count" using head by (simp add: column_valid_def word_less_nat_alt)
  moreover have "\<not> sc_value_count c > value_count - sc_first_value c"
  proof -
    have "unat (sc_first_value c) + unat (sc_value_count c) \<le> unat value_count" using head by (simp add: column_valid_def)
    then show ?thesis using f by (simp add: word_less_nat_alt unat_sub_word not_less word_le_nat_alt)
  qed
  moreover have "begin_columns value_count (Some c) rest (ds0 + u64_of_u32 (sc_name_size c)) \<noteq> None"
    by (rule Cons.IH [OF tail]) (use Cons.prems(2) add(2) in simp)
  ultimately show ?case using head add(1) by (auto simp: column_valid_def not_le split: option.splits)
qed simp

lemma begin_layout_total:
  assumes "80 + unat (sw_column_bytes w) + unat vb + unat ds + unat gs + unat ps < 2 ^ 64"
  shows "fst (begin_layout w vb ds gs ps) = EVOKE_OK"
proof -
  have a: "evoke_scope_add_size 80 (sw_column_bytes w) = Some (80 + sw_column_bytes w)" "unat (80 + sw_column_bytes w) = 80 + unat (sw_column_bytes w)"
    using add_size_fits [of 80 "sw_column_bytes w"] assms by simp_all
  let ?d = "80 + sw_column_bytes w + vb"
  have b: "evoke_scope_add_size (80 + sw_column_bytes w) vb = Some ?d" "unat ?d = 80 + unat (sw_column_bytes w) + unat vb"
    using add_size_fits [of "80 + sw_column_bytes w" vb] assms a by simp_all
  have c: "evoke_scope_add_size ?d ds = Some (?d + ds)" "unat (?d + ds) = unat ?d + unat ds"
    using add_size_fits [of ?d ds] assms b by simp_all
  have d: "evoke_scope_add_size (?d + ds) gs = Some (?d + ds + gs)" "unat (?d + ds + gs) = unat ?d + unat ds + unat gs"
    using add_size_fits [of "?d + ds" gs] assms b c by simp_all
  have e: "evoke_scope_add_size (?d + ds + gs) ps = Some (?d + ds + gs + ps)"
    using add_size_fits [of "?d + ds + gs" ps] assms b c d by simp
  show ?thesis by (simp add: begin_layout_def Let_def scope_consts a(1) b(1) c(1) d(1) e)
qed

lemma begin_total:
  assumes g: "s \<noteq> 0" "document_count \<noteq> 0" "cols \<noteq> []"
    and cols: "cols = take (unat column_count) columns" "unat column_count \<le> length columns"
    and valid: "columns_valid value_count cols" "names_sized cols"
    and ds: "unat vds + length (names cols) < 2 ^ 32"
    and pc: "value_count = 0 \<Longrightarrow> pc = 0"
    and all: "postings_at (length cols) (unat value_count) (unat vds + length (names cols)) + 4 * unat pc < 2 ^ 64"
  shows "fst (evoke_scope_writer_begin True (Some zero_scope_writer) s document_count (Some columns) column_count value_count
    vds pc SIZE_MAX) = EVOKE_OK"
proof -
  let ?cb = "u64_of_u32 column_count * 40" and ?vb = "u64_of_u32 value_count * 32"
  let ?gs = "(if value_count = 0 then 0 else (u64_of_u32 value_count + 256 - 1) div 256) * 1024"
  let ?w0 = "zero_scope_writer\<lparr>sw_column_bytes := ?cb\<rparr>"
  have cc: "unat column_count = length cols" "column_count \<noteq> 0" using cols g(3) by auto
  have sizes: "length (names cols) = sum_list (map (unat \<circ> sc_name_size) cols)"
    using valid(2) by (induction cols) (simp_all add: names_sized_def)
  have "begin_columns value_count None cols vds \<noteq> None"
    by (rule begin_columns_total) (use valid(1) ds sizes in \<open>simp_all add: columns_valid_def\<close>)
  then obtain dsz where dict: "begin_columns value_count None cols vds = Some dsz" by blast
  then have dsz: "unat dsz = unat vds + length (names cols)" using begin_columns_Some [OF dict] sizes by simp
  have pcs: "\<not> pc > SIZE_MAX div 4" using all by (simp add: word_less_nat_alt unat_div SIZE_MAX_def not_less)
  have p4: "unat (pc * 4) = 4 * unat pc" using all by (simp add: unat_word_ariths)
  have small: "\<not> dsz > u64_of_u32 UINT32_MAX" using dsz ds by (simp add: word_less_nat_alt)
  have gs: "unat ?gs = 1024 * ((unat value_count + 255) div 256)" by (rule unat_filter_size)
  have lay: "fst (begin_layout ?w0 ?vb dsz ?gs (pc * 4)) = EVOKE_OK"
    by (rule begin_layout_total) (use all cc gs p4 dsz in \<open>simp add: unat_entry_bytes\<close>)
  obtain w1 where run: "begin_layout ?w0 ?vb dsz ?gs (pc * 4) = (EVOKE_OK, w1)" using lay by (metis prod.collapse)
  have div: "?cb div 40 = u64_of_u32 column_count" "?vb div 32 = u64_of_u32 value_count"
    by (simp_all add: word_unat_eq_iff unat_div unat_entry_bytes)
  have blocks: "\<not> (if value_count = 0 then 0 else (u64_of_u32 value_count + 256 - 1) div 256) > (SIZE_MAX div 1024 :: u64)"
  proof -
    have w: "u64_of_u32 value_count + 256 - 1 = u64_of_u32 value_count + 255" by simp
    have "unat value_count + 255 \<le> 4294967550" using u32_less [of value_count] by linarith
    from div_le_mono [OF this, of 256] have "(unat value_count + 255) div 256 \<le> 4294967295" by simp
    then show ?thesis using unat_blocks [of value_count] unfolding w by (simp add: word_less_nat_alt unat_div SIZE_MAX_def)
  qed
  have fresh: "sw_bytes zero_scope_writer = None" "sw_column_bytes ?w0 = ?cb" by (simp_all add: zero_scope_writer_def)
  have max: "\<not> x > SIZE_MAX" for x :: u64 using u64_less [of x] by (simp add: word_less_nat_alt del: u64_less)
  have none: "\<not> (value_count = 0 \<and> pc \<noteq> 0)" using pc by blast
  show ?thesis
    unfolding evoke_scope_writer_begin_def Let_def scope_consts of_nat_numeral option.case prod.case cols(1) [symmetric] fresh
    by (simp only: g(1,2) cc(2) none pcs div blocks dict small run max simp_thms if_False option.case prod.case HOL.if_True)
      (simp split: prod.split)
qed

section \<open>Values and documents\<close>

lemma close_total:
  assumes "writer_ok cols st im w" "\<forall>x \<in> set st. snd x \<noteq> []"
  shows "\<exists>w1. evoke_scope_writer_close_value w = (EVOKE_OK, w1)"
proof -
  have "sw_current_document_count w \<noteq> 0" if "sw_value_open w"
  proof -
    have "st \<noteq> []" "unat (sw_current_document_count w) = length (snd (last st))"
      using writer_okD(8) [OF assms(1)] that by (simp_all add: open_ok_def)
    then show ?thesis using assms(2) by (auto simp: word_unat_eq_iff)
  qed
  then show ?thesis by (simp add: evoke_scope_writer_close_value_def Let_def)
qed

lemma start_total:
  assumes ok: "writer_ok cols st im w" and docs: "\<forall>x \<in> set st. snd x \<noteq> []"
    and k: "length st < unat (sw_value_count w)"
    and room: "length (names cols @ texts st) + unat (sv_value_size v) \<le> unat (sw_dictionary_size w)"
    and v: "sv_value_size v > 0 \<Longrightarrow> sv_value v \<noteq> None" "sv_gram_value_size v > 0 \<Longrightarrow> sv_gram_value v \<noteq> None"
    and checked: "value_checked cols n (length st) (v, ds)"
    and order: "st \<noteq> [] \<Longrightarrow> value_before (fst (last st)) v"
  shows "fst (evoke_scope_writer_start_value (Some w) (Some v)) = EVOKE_OK"
proof -
  obtain w1 where close: "evoke_scope_writer_close_value w = (EVOKE_OK, w1)" using close_total [OF ok docs] by blast
  let ?im = "close_image w im"
  have ok1: "writer_ok cols st ?im w1" and closed: "\<not> sw_value_open w1"
    and w1: "w1 = w\<lparr>sw_bytes := Some (flat ?im), sw_value_open := False, sw_current_document_count := 0,
        sw_previous_document := sw_previous_document w1\<rparr>"
    using close_value_ok [OF ok close] by blast+
  have same: "sw_next_value w1 = sw_next_value w" "sw_column_count w1 = sw_column_count w" by (subst w1, simp)+
  note inv = writer_okD [OF ok] and inv1 = writer_okD [OF ok1]
  note lay = layout_okD [OF inv(2)]
  have next_is: "unat (sw_next_value w) = length st" using inv(4) by (simp add: entries_ok_def)
  have tlen: "length (text_of v) = unat (sv_value_size v)" using checked by (simp add: value_checked_def)
  have cur: "unat (sw_dictionary_cursor w) = length (names cols @ texts st)" using inv(5) by (simp add: dictionary_ok_def)
  have c1: "\<not> sw_dictionary_cursor w > sw_dictionary_size w" using cur room by (simp add: word_less_nat_alt)
  then have c2: "\<not> u64_of_u32 (sv_value_size v) > sw_dictionary_size w - sw_dictionary_cursor w"
    using cur room by (simp add: word_less_nat_alt unat_sub_word not_less word_le_nat_alt)
  have ci: "unat (sv_column_index v) < length cols" using checked by (simp add: value_checked_def)
  then have ci': "sv_column_index v < sw_column_count w1"
    using inv(3) lay(1) same by (simp add: columns_ok_def sized_def word_less_nat_alt)
  note col = column_range_read [OF ok1 ci']
  let ?c = "cols ! unat (sv_column_index v)"
  have range: "unat (sc_first_value ?c) \<le> length st" "length st < unat (sc_first_value ?c) + unat (sc_value_count ?c)"
    using checked by (simp_all add: value_checked_def Let_def)
  have r1: "\<not> sw_next_value w < sc_first_value ?c" using range(1) next_is by (simp add: word_less_nat_alt)
  then have r2: "\<not> sw_next_value w - sc_first_value ?c \<ge> sc_value_count ?c"
    using range next_is by (simp add: word_le_nat_alt unat_sub_word not_less)
  have follows: "follows_previous (flat ?im) (80 + unat (sw_column_bytes w1) + unat (sw_next_value w1 - 1) * 32)
      (unat (sw_dictionary_offset w1)) v" if "sw_next_value w > 0"
  proof -
    have "st \<noteq> []" using that next_is by (auto simp: word_less_nat_alt)
    then show ?thesis using previous_before [OF ok1 closed _ tlen] order by simp
  qed
  have kind: "sv_kind v = EVOKE_SCOPE_VALUE_SCALAR \<or> sv_kind v = EVOKE_SCOPE_VALUE_ARRAY_ELEMENT"
    using checked by (simp add: value_checked_def)
  have nv: "\<not> sw_next_value w \<ge> sw_value_count w" using k next_is by (simp add: word_le_nat_alt)
  show ?thesis
    unfolding evoke_scope_writer_start_value_def Let_def scope_consts scope_accessors
    using inv(1) inv1(1) nv ci' same v c1 c2 kind close col(1,2) r1 r2 follows
    by (auto split: prod.splits)
qed

lemma append_total:
  assumes ok: "writer_ok cols st im w" and st: "st \<noteq> []" and opened: "sw_value_open w"
    and d: "d < sw_document_count w" "sorted_wrt (<) (snd (last st) @ [d])"
    and room: "4 * length (posts st) + 4 \<le> unat (sw_postings_size w)"
  shows "fst (evoke_scope_writer_append_document (Some w) d) = EVOKE_OK"
proof -
  note inv = writer_okD [OF ok]
  have cur: "unat (sw_postings_cursor w) = 4 * length (posts st)" using inv(7) by (simp add: postings_ok_def)
  have c1: "\<not> sw_postings_cursor w > sw_postings_size w" using cur room by (simp add: word_less_nat_alt)
  then have c2: "\<not> sw_postings_size w - sw_postings_cursor w < 4"
    using cur room by (simp add: word_less_nat_alt unat_sub_word not_less word_le_nat_alt)
  have "sw_previous_document w < d" if "sw_current_document_count w > 0"
  proof -
    have o: "unat (sw_current_document_count w) = length (snd (last st))" "snd (last st) \<noteq> [] \<Longrightarrow> sw_previous_document w = last (snd (last st))"
      using inv(8) opened by (simp_all add: open_ok_def)
    then have ne: "snd (last st) \<noteq> []" using that by (auto simp: word_less_nat_alt)
    then have "last (snd (last st)) \<in> set (snd (last st))" by simp
    then show ?thesis using d(2) o(2) [OF ne] unfolding sorted_wrt_append by simp
  qed
  then show ?thesis using inv(1) opened d(1) c1 c2
    by (auto simp: evoke_scope_writer_append_document_def not_le)
qed

lemma opened:
  "evoke_scope_writer_start_value (Some w) (Some v) = (EVOKE_OK, Some w') \<Longrightarrow> sw_value_open w'"
  "evoke_scope_writer_append_document (Some w) d = (EVOKE_OK, Some w') \<Longrightarrow> sw_value_open w'"
proof -
  show "evoke_scope_writer_start_value (Some w) (Some v) = (EVOKE_OK, Some w') \<Longrightarrow> sw_value_open w'"
  proof -
    assume "evoke_scope_writer_start_value (Some w) (Some v) = (EVOKE_OK, Some w')"
    then obtain w1 where "w' = start_stores w1 v" using start_value_run by blast
    then show ?thesis by (simp add: start_stores_def Let_def split: prod.split)
  qed
  show "evoke_scope_writer_append_document (Some w) d = (EVOKE_OK, Some w') \<Longrightarrow> sw_value_open w'"
    by (auto simp: evoke_scope_writer_append_document_def split: if_splits)
qed

lemma append_documents_total:
  assumes "writer_ok cols st im w" "st \<noteq> []" "sw_value_open w"
    and "\<forall>d \<in> set ds. d < sw_document_count w" "sorted_wrt (<) (snd (last st) @ ds)"
    and "4 * length (posts st) + 4 * length ds \<le> unat (sw_postings_size w)"
  shows "fst (append_documents (Some w) ds) = EVOKE_OK"
  using assms
proof (induction ds arbitrary: st im w)
  case (Cons d ds)
  have "fst (evoke_scope_writer_append_document (Some w) d) = EVOKE_OK"
    by (rule append_total [OF Cons.prems(1-3)]) (use Cons.prems(4-6) in \<open>auto simp: sorted_wrt_append\<close>)
  then obtain w' where "evoke_scope_writer_append_document (Some w) d = (EVOKE_OK, w')"
    by (metis prod.collapse)
  moreover from append_document_ok [OF Cons.prems(1) this] obtain im1 w1 where
    w1: "w' = Some w1" and ok: "writer_ok cols (add_document st d) im1 w1" by blast
  ultimately have run: "evoke_scope_writer_append_document (Some w) d = (EVOKE_OK, Some w1)" by simp
  have same: "sw_document_count w1 = sw_document_count w" "sw_postings_size w1 = sw_postings_size w"
    using append_frozen [OF run] by (simp_all add: frozen_def)
  have "fst (append_documents (Some w1) ds) = EVOKE_OK"
    by (rule Cons.IH [OF ok _ opened(2) [OF run]])
      (use Cons.prems same posts_add [OF Cons.prems(2), of d] in \<open>simp_all add: add_document_def\<close>)
  then show ?case using run by simp
qed simp

lemma serialize_values_total:
  assumes "writer_ok cols st im w"
    and "values_checked cols (st @ map (\<lambda>v. (v, documents_of v)) vs) (sw_document_count w)"
    and "\<forall>x \<in> set st. snd x \<noteq> []" "\<forall>v \<in> set vs. documents_of v \<noteq> []"
    and "length st + length vs = unat (sw_value_count w)"
    and "length (names cols @ texts (st @ map (\<lambda>v. (v, documents_of v)) vs)) = unat (sw_dictionary_size w)"
    and "4 * length (posts (st @ map (\<lambda>v. (v, documents_of v)) vs)) = unat (sw_postings_size w)"
    and "\<forall>v \<in> set vs. value_fits v \<and> (sv_value_size v > 0 \<longrightarrow> sv_value v \<noteq> None) \<and> (sv_gram_value_size v > 0 \<longrightarrow> sv_gram_value v \<noteq> None)"
  shows "fst (serialize_values (Some w) vs) = EVOKE_OK"
  using assms
proof (induction vs arbitrary: st im w)
  case (Cons v vs)
  let ?f = "\<lambda>v. (v, documents_of v)"
  have checked: "value_checked cols (sw_document_count w) (length st) (v, documents_of v)"
    using Cons.prems(2) by (auto simp: values_checked_def dest!: spec [of _ "length st"])
  have order: "value_before (fst (last st)) v" if "st \<noteq> []"
  proof -
    have n: "Suc (length st - 1) = length st" using that by simp
    have "value_before (fst ((st @ map ?f (v # vs)) ! (length st - 1))) (fst ((st @ map ?f (v # vs)) ! Suc (length st - 1)))"
    proof -
      have "Suc (length st - 1) < length (st @ map ?f (v # vs))" using n by simp
      then show ?thesis using Cons.prems(2) unfolding values_checked_def by blast
    qed
    then show ?thesis unfolding n using that by (simp add: nth_append last_conv_nth)
  qed
  have tlen: "length (text_of v) = unat (sv_value_size v)" using checked by (simp add: value_checked_def)
  have "fst (evoke_scope_writer_start_value (Some w) (Some v)) = EVOKE_OK"
    by (rule start_total [OF Cons.prems(1,3) _ _ _ _ checked order])
      (use Cons.prems(5,6,8) tlen in \<open>simp_all add: texts_def\<close>)
  then obtain x where "evoke_scope_writer_start_value (Some w) (Some v) = (EVOKE_OK, x)" by (metis prod.collapse)
  moreover from start_value_ok [OF Cons.prems(1) this] Cons.prems(8) obtain im1 w1 where
    x: "x = Some w1" and ok1: "writer_ok cols (st @ [(v, [])]) im1 w1" by auto
  ultimately have run: "evoke_scope_writer_start_value (Some w) (Some v) = (EVOKE_OK, Some w1)" by simp
  have same1: "frozen w1 = frozen w" by (rule start_frozen [OF run])
  have docs: "sorted_wrt (<) (documents_of v)" "\<forall>d \<in> set (documents_of v). d < sw_document_count w"
    using checked by (simp_all add: value_checked_def)
  have "fst (append_documents (Some w1) (documents_of v)) = EVOKE_OK"
    by (rule append_documents_total [OF ok1 _ opened(1) [OF run]])
      (use same1 docs Cons.prems(7) in \<open>simp_all add: frozen_def posts_def\<close>)
  then obtain y where y: "append_documents (Some w1) (documents_of v) = (EVOKE_OK, y)" by (metis prod.collapse)
  from append_documents_ok [OF ok1 _ y] obtain im2 w2 where w2: "y = Some w2"
    and ok2: "writer_ok cols (st @ [(v, documents_of v)]) im2 w2" and same2: "frozen w2 = frozen w1" by auto
  have "fst (serialize_values (Some w2) vs) = EVOKE_OK"
    by (rule Cons.IH [OF ok2]) (use Cons.prems same1 same2 in \<open>auto simp: frozen_def\<close>)
  then show ?case using run y w2 by (simp add: documents_of_def)
qed simp

lemma finish_total:
  assumes ok: "writer_ok cols st im w" and docs: "\<forall>x \<in> set st. snd x \<noteq> []" and "length st = unat (sw_value_count w)"
    and "length (names cols @ texts st) = unat (sw_dictionary_size w)" "4 * length (posts st) = unat (sw_postings_size w)"
  shows "fst (evoke_scope_writer_finish (Some w) (Some b) (Some z)) = EVOKE_OK"
proof -
  obtain w1 where close: "evoke_scope_writer_close_value w = (EVOKE_OK, w1)" using close_total [OF ok docs] by blast
  have ok1: "writer_ok cols st (close_image w im) w1" using close_value_ok [OF ok close] by blast
  note inv = writer_okD [OF ok1]
  have "frozen w1 = frozen w" by (rule close_frozen [OF close])
  then have "sw_next_value w1 = sw_value_count w1" "sw_dictionary_cursor w1 = sw_dictionary_size w1" "sw_postings_cursor w1 = sw_postings_size w1"
    using inv(4,5,7) assms(3-5) by (simp_all add: frozen_def entries_ok_def dictionary_ok_def postings_ok_def word_unat_eq_iff)
  then show ?thesis using close writer_okD(1) [OF ok] by (simp add: evoke_scope_writer_finish_def Let_def)
qed


section \<open>The serializer\<close>

definition pointers_ok :: "evoke_scope_value \<Rightarrow> bool" where
  "pointers_ok v \<longleftrightarrow>
     (sv_value_size v > 0 \<longrightarrow> sv_value v \<noteq> None) \<and> (sv_gram_value_size v > 0 \<longrightarrow> sv_gram_value v \<noteq> None) \<and>
     sv_documents v \<noteq> None \<and> sv_document_count v \<noteq> 0"

definition with_documents :: "evoke_scope_value list \<Rightarrow> scope_values" where
  "with_documents vals = map (\<lambda>v. (v, documents_of v)) vals"

text \<open>
  An input as the format wants it: columns and values in order, every value in the range of its column, documents
  ascending and below the document count, a dictionary of less than 4 GiB and a size that fits in 64 bits.
\<close>

definition scope_input_valid :: "u64 \<Rightarrow> u32 \<Rightarrow> evoke_scope_column list \<Rightarrow> evoke_scope_value list \<Rightarrow> u32 \<Rightarrow> bool" where
  "scope_input_valid s document_count cols vals value_count \<longleftrightarrow>
     s \<noteq> 0 \<and> document_count \<noteq> 0 \<and> cols \<noteq> [] \<and> columns_valid value_count cols \<and>
     (\<forall>v \<in> set vals. pointers_ok v) \<and> values_checked cols (with_documents vals) document_count \<and>
     (let dictionary_size = length (names cols @ texts (with_documents vals))
      in dictionary_size < 2 ^ 32 \<and>
         postings_at (length cols) (length vals) dictionary_size + 4 * length (posts (with_documents vals)) < 2 ^ 64)"

lemma serialize_sizes_Some:
  "serialize_sizes vs a b = Some (a', b') \<Longrightarrow>
   unat a' = unat a + sum_list (map (unat \<circ> sv_value_size) vs) \<and> unat b' = unat b + sum_list (map (unat \<circ> sv_document_count) vs) \<and>
   (\<forall>v \<in> set vs. (sv_value_size v > 0 \<longrightarrow> sv_value v \<noteq> None) \<and> sv_documents v \<noteq> None \<and> sv_document_count v \<noteq> 0)"
proof (induction vs a b rule: serialize_sizes.induct)
  case (2 v vs a b)
  obtain a1 where g: "\<not> ((sv_value_size v > 0 \<and> sv_value v = None) \<or> sv_documents v = None \<or> sv_document_count v = 0)"
    and a1: "evoke_scope_add_size a (u64_of_u32 (sv_value_size v)) = Some a1"
    and b1: "\<not> b > UINT64_MAX - u64_of_u32 (sv_document_count v)"
    and run: "serialize_sizes vs a1 (b + u64_of_u32 (sv_document_count v)) = Some (a', b')"
    using "2.prems" by (auto split: if_splits option.splits)
  have "u64_of_u32 (sv_document_count v) \<le> UINT64_MAX" using u32_less [of "sv_document_count v"] by (simp add: word_le_nat_alt del: u32_less)
  then have "unat b + unat (sv_document_count v) < 18446744073709551616"
    using b1 u32_less [of "sv_document_count v"] by (simp add: word_less_nat_alt unat_sub_word not_less del: u32_less)
  then have "unat (b + u64_of_u32 (sv_document_count v)) = unat b + unat (sv_document_count v)" by (subst unat_add_u64) simp_all
  then show ?case using "2.IH" [OF g a1 b1 run] add_size_Some [OF a1] g by auto
qed simp

lemma serialize_sizes_total:
  "\<forall>v \<in> set vs. pointers_ok v \<Longrightarrow> unat a + sum_list (map (unat \<circ> sv_value_size) vs) < 2 ^ 64 \<Longrightarrow>
   unat b + sum_list (map (unat \<circ> sv_document_count) vs) < 2 ^ 64 \<Longrightarrow> serialize_sizes vs a b \<noteq> None"
proof (induction vs a b rule: serialize_sizes.induct)
  case (2 v vs a b)
  let ?a = "a + u64_of_u32 (sv_value_size v)" and ?b = "b + u64_of_u32 (sv_document_count v)"
  have g: "\<not> ((sv_value_size v > 0 \<and> sv_value v = None) \<or> sv_documents v = None \<or> sv_document_count v = 0)"
    using "2.prems"(1) by (auto simp: pointers_ok_def)
  have a: "evoke_scope_add_size a (u64_of_u32 (sv_value_size v)) = Some ?a" "unat ?a = unat a + unat (sv_value_size v)"
    using add_size_fits [of a "u64_of_u32 (sv_value_size v)"] "2.prems"(2) by simp_all
  have "u64_of_u32 (sv_document_count v) \<le> UINT64_MAX" using u32_less [of "sv_document_count v"] by (simp add: word_le_nat_alt del: u32_less)
  then have b: "\<not> b > UINT64_MAX - u64_of_u32 (sv_document_count v)" "unat ?b = unat b + unat (sv_document_count v)"
    using "2.prems"(3) by (simp_all add: word_less_nat_alt unat_sub_word unat_add_u64)
  have "serialize_sizes vs ?a ?b \<noteq> None" by (rule "2.IH" [OF g a(1) b(1)]) (use "2.prems" a(2) b(2) in simp_all)
  then show ?case using g a(1) b(1) by auto
qed simp

lemma texts_with_documents:
  "\<forall>v \<in> set vals. value_fits v \<and> (sv_value_size v > 0 \<longrightarrow> sv_value v \<noteq> None) \<Longrightarrow>
   length (texts (with_documents vals)) = sum_list (map (unat \<circ> sv_value_size) vals)"
proof (induction vals)
  case (Cons v vals)
  then show ?case using text_of_length [of v] by (simp add: texts_def with_documents_def)
qed (simp add: texts_def with_documents_def)

lemma posts_with_documents:
  "\<forall>v \<in> set vals. value_fits v \<and> sv_documents v \<noteq> None \<Longrightarrow>
   length (posts (with_documents vals)) = sum_list (map (unat \<circ> sv_document_count) vals)"
proof (induction vals)
  case (Cons v vals)
  have "length (documents_of v) = unat (sv_document_count v)" using Cons.prems by (auto simp: documents_of_def value_fits_def)
  then show ?case using Cons by (simp add: posts_def with_documents_def)
qed (simp add: posts_def with_documents_def)

lemma documents_not_empty: "value_fits v \<Longrightarrow> pointers_ok v \<Longrightarrow> documents_of v \<noteq> []"
  by (auto simp: value_fits_def pointers_ok_def documents_of_def word_unat_eq_iff)

lemma serialize_accepts:
  assumes valid: "scope_input_valid s document_count (take (unat column_count) columns) (take (unat value_count) vals) value_count"
    and fit: "inputs_fit columns column_count vals value_count"
  shows "fst (evoke_scope_serialize True s document_count (Some columns) column_count (Some vals) value_count (Some b) (Some z)) = EVOKE_OK"
proof -
  define cols where "cols = take (unat column_count) columns"
  define vs where "vs = take (unat value_count) vals"
  have v: "s \<noteq> 0" "document_count \<noteq> 0" "cols \<noteq> []" "columns_valid value_count cols" "\<forall>v \<in> set vs. pointers_ok v"
      "values_checked cols (with_documents vs) document_count" "length (names cols @ texts (with_documents vs)) < 2 ^ 32"
      "postings_at (length cols) (length vs) (length (names cols @ texts (with_documents vs))) + 4 * length (posts (with_documents vs)) < 2 ^ 64"
    using valid by (simp_all add: scope_input_valid_def cols_def vs_def Let_def)
  have f: "unat column_count \<le> length columns" "\<forall>c \<in> set cols. column_fits c" "\<forall>v \<in> set vs. value_fits v" "length vs = unat value_count"
    using fit by (simp_all add: inputs_fit_def cols_def vs_def)
  have ps: "\<forall>v \<in> set vs. value_fits v \<and> (sv_value_size v > 0 \<longrightarrow> sv_value v \<noteq> None)" "\<forall>v \<in> set vs. value_fits v \<and> sv_documents v \<noteq> None"
    using v(5) f(3) by (simp_all add: pointers_ok_def)
  note lens = texts_with_documents [OF ps(1)] posts_with_documents [OF ps(2)]
  have "serialize_sizes vs 0 0 \<noteq> None" by (rule serialize_sizes_total) (use v(5,7,8) lens in simp_all)
  then obtain vds pc where sizes: "serialize_sizes vs 0 0 = Some (vds, pc)" by auto
  have vds: "unat vds = length (texts (with_documents vs))" "unat pc = length (posts (with_documents vs))"
    using serialize_sizes_Some [OF sizes] lens by simp_all
  have "sc_name c \<noteq> None" if "c \<in> set cols" for c
    using that v(4) by (auto simp: columns_valid_def column_valid_def in_set_conv_nth)
  then have named: "names_sized cols" using f(2) by (simp add: names_sized_def name_length)
  have cc: "column_count \<noteq> 0" using v(3) by (auto simp: cols_def)
  have "fst (evoke_scope_writer_begin True (Some zero_scope_writer) s document_count (Some columns) column_count value_count vds pc SIZE_MAX) = EVOKE_OK"
  proof (rule begin_total [OF v(1-3) cols_def f(1) v(4) named])
    show "pc = 0" if "value_count = 0" using that vds(2) f(4) by (simp add: with_documents_def posts_def word_unat_eq_iff)
  qed (use v(7,8) vds f(4) in \<open>simp_all add: add.commute\<close>)
  then obtain x where b0: "evoke_scope_writer_begin True (Some zero_scope_writer) s document_count (Some columns) column_count value_count vds pc SIZE_MAX = (EVOKE_OK, x)"
    by (metis prod.collapse)
  from begin_ok [OF b0 cols_def f(1,2)] obtain im w where x: "x = Some w" and beg: "begun cols s document_count value_count vds pc im w" by blast
  have w: "writer_ok cols [] im w" "sw_document_count w = document_count" "sw_value_count w = value_count"
      "unat (sw_postings_size w) = 4 * unat pc" "unat (sw_dictionary_size w) = unat vds + length (names cols)"
    using beg by (simp_all add: begun_def)
  have ne: "\<forall>v \<in> set vs. documents_of v \<noteq> []" using documents_not_empty v(5) f(3) by blast
  have "fst (serialize_values (Some w) vs) = EVOKE_OK"
    by (rule serialize_values_total [OF w(1)])
      (use v(5,6) w vds f(3,4) ne in \<open>simp_all add: with_documents_def pointers_ok_def add.commute\<close>)
  then obtain y where vals_run: "serialize_values (Some w) vs = (EVOKE_OK, y)" by (metis prod.collapse)
  from serialize_values_ok [OF w(1) vals_run f(3)] obtain im2 w2 where y: "y = Some w2"
    and ok2: "writer_ok cols (with_documents vs) im2 w2" and same: "frozen w2 = frozen w"
    by (auto simp: with_documents_def)
  have "fst (evoke_scope_writer_finish (Some w2) (Some None) (Some 0)) = EVOKE_OK"
    by (rule finish_total [OF ok2])
      (use ne same w vds f(4) in \<open>auto simp: with_documents_def frozen_def\<close>)
  then obtain w3 bo so where "evoke_scope_writer_finish (Some w2) (Some None) (Some 0) = (EVOKE_OK, w3, bo, so)"
    by (metis prod.collapse)
  then show ?thesis
    using v(1,2) cc b0 x vals_run y sizes by (simp add: evoke_scope_serialize_def vs_def [symmetric])
qed

lemma serialize_outputs:
  assumes "fst (evoke_scope_serialize calloc_ok s document_count (Some columns) column_count (Some vals) value_count (Some b) (Some z)) = EVOKE_OK"
  shows "\<exists>bs n. evoke_scope_serialize calloc_ok s document_count (Some columns) column_count (Some vals) value_count (Some b) (Some z) =
    (EVOKE_OK, Some (Some bs), Some n)"
proof -
  have "\<exists>bs n. bytes_out = Some (Some bs) \<and> size_out = Some n"
    if "evoke_scope_writer_finish w (Some None) (Some 0) = (EVOKE_OK, w', bytes_out, size_out)" for w w' bytes_out size_out
    using that by (auto simp: evoke_scope_writer_finish_def Let_def split: option.splits prod.splits if_splits)
  then show ?thesis using assms unfolding evoke_scope_serialize_def Let_def
    by (auto split: if_splits option.splits prod.splits)
qed

lemma serialize_values_pointers:
  "serialize_values w vs = (EVOKE_OK, w') \<Longrightarrow> v \<in> set vs \<Longrightarrow> sv_gram_value_size v > 0 \<longrightarrow> sv_gram_value v \<noteq> None"
proof (induction vs arbitrary: w)
  case (Cons x vs)
  obtain w1 w2 where start: "evoke_scope_writer_start_value w (Some x) = (EVOKE_OK, w1)" and rest: "serialize_values w2 vs = (EVOKE_OK, w')"
    using Cons.prems(1) by (auto split: prod.splits if_splits)
  have "sv_gram_value_size x > 0 \<longrightarrow> sv_gram_value x \<noteq> None"
    using start by (auto simp: evoke_scope_writer_start_value_def split: option.splits if_splits)
  then show ?case using Cons.IH [OF rest] Cons.prems(2) by auto
qed simp

lemma serialize_refuses:
  assumes run: "evoke_scope_serialize calloc_ok s document_count (Some columns) column_count (Some vals) value_count (Some b) (Some z) =
      (EVOKE_OK, Some (Some bs), Some n)"
    and fit: "inputs_fit columns column_count vals value_count"
  shows "calloc_ok \<and> scope_input_valid s document_count (take (unat column_count) columns) (take (unat value_count) vals) value_count"
proof -
  let ?cols = "take (unat column_count) columns" and ?vs = "take (unat value_count) vals"
  obtain w im where fin: "finished ?cols (with_documents ?vs) s w im bs" and dc: "sw_document_count w = document_count"
    and vc: "sw_value_count w = value_count"
    using scope_serialize_run [OF run fit] unfolding with_documents_def by metis
  obtain vds pc w0 w1 where sizes: "serialize_sizes ?vs 0 0 = Some (vds, pc)"
    and beg: "evoke_scope_writer_begin calloc_ok (Some zero_scope_writer) s document_count (Some columns) column_count value_count
      vds pc SIZE_MAX = (EVOKE_OK, w0)"
    and vals_run: "serialize_values w0 ?vs = (EVOKE_OK, w1)"
    using run unfolding evoke_scope_serialize_def Let_def by (auto split: if_splits option.splits prod.splits)
  have "calloc_ok" using beg unfolding evoke_scope_writer_begin_def Let_def by (auto split: if_splits option.splits prod.splits)
  moreover have "\<forall>v \<in> set ?vs. pointers_ok v"
    using serialize_sizes_Some [OF sizes] serialize_values_pointers [OF vals_run] by (simp add: pointers_ok_def)
  moreover note f = finishedD [OF fin] and z = finished_sizes [OF fin]
  note inv = writer_okD [OF f(1)]
  have "unat (sw_total_size w) < 2 ^ 64" by simp
  then have "postings_at (length ?cols) (length ?vs) (unat (sw_dictionary_size w)) + unat (sw_postings_size w) < 2 ^ 64"
    using layout_okD(6) [OF inv(2)] z(1,2) by (simp add: with_documents_def del: u64_less)
  then have "postings_at (length ?cols) (length ?vs) (length (names ?cols @ texts (with_documents ?vs))) +
      4 * length (posts (with_documents ?vs)) < 2 ^ 64"
    unfolding z(3) z(4) .
  moreover have "length (names ?cols @ texts (with_documents ?vs)) < 2 ^ 32" unfolding z(3) by (rule z(5))
  ultimately show ?thesis
    using f(6,8,9,10) inv(9) dc vc unfolding scope_input_valid_def Let_def by simp
qed

text \<open>
  C32. The serializer of scope objects accepts exactly the well-formed inputs, provided its one allocation succeeds: columns by
  ascending attribute that share out the values, values in order inside the range of their column, documents
  ascending below the document count, and sizes the format can hold. On each of them all calls of the
  writer succeed and an object is returned.
\<close>

theorem scope_serialize_accepts:
  assumes "inputs_fit columns column_count vals value_count"
  shows "(\<exists>bs n. evoke_scope_serialize calloc_ok s document_count (Some columns) column_count (Some vals) value_count (Some b) (Some z) =
      (EVOKE_OK, Some (Some bs), Some n)) \<longleftrightarrow>
    calloc_ok \<and> scope_input_valid s document_count (take (unat column_count) columns) (take (unat value_count) vals) value_count"
    (is "?L \<longleftrightarrow> ?R")
proof
  assume ?L
  then show ?R using serialize_refuses [OF _ assms] by blast
next
  assume r: ?R
  then have "calloc_ok = True" by simp
  moreover have "fst (evoke_scope_serialize True s document_count (Some columns) column_count (Some vals) value_count
      (Some b) (Some z)) = EVOKE_OK"
    using serialize_accepts [OF _ assms] r by blast
  ultimately show ?L using serialize_outputs by blast
qed

section \<open>What is serialized can be read\<close>

text \<open>
  C30. What the serializer of scope objects builds, the validator accepts: layout, order of columns and values, the texts,
  the documents and the membership of every value in its column. The one exception is an object whose 64-bit
  checksum comes out as zero, which the header decoder takes for an object without a checksum and refuses.
\<close>

theorem scope_serialize_validates:
  assumes "evoke_scope_serialize calloc_ok s document_count (Some columns) column_count (Some vals) value_count
      (Some b) (Some z) = (EVOKE_OK, Some (Some bs), Some n)"
    and "inputs_fit columns column_count vals value_count"
  shows "evoke_scope_validate (Some bs) n s = (if evoke_scope_read_u64 bs 72 = 0 then EVOKE_ERR_FORMAT else EVOKE_OK)"
proof -
  obtain w im where fin: "finished (take (unat column_count) columns)
      (map (\<lambda>v. (v, documents_of v)) (take (unat value_count) vals)) s w im bs"
    and n: "n = of_nat (length bs)" and named: "names_sized (take (unat column_count) columns)"
    using scope_serialize_run [OF assms] by metis
  show ?thesis unfolding n using finished_accepted [OF fin named] decode_header(2) [OF fin]
    by (auto simp: evoke_scope_validate_def)
qed

text \<open>
  C31. Every value comes back: unless the checksum of the object is zero, its header decodes, and under that header the entry
  of each value has its column and kind, the dictionary holds its bytes at the entry's offset, and the
  postings hold its documents in order.
\<close>

theorem scope_values_roundtrip:
  assumes "evoke_scope_serialize calloc_ok s document_count (Some columns) column_count (Some vals) value_count
      (Some b) (Some z) = (EVOKE_OK, Some (Some bs), Some n)"
    and "inputs_fit columns column_count vals value_count" and "j < unat value_count"
  shows "evoke_scope_read_u64 bs 72 = 0 \<or>
    (\<exists>h e. evoke_scope_header_deserialize (Some bs) n n s (Some h0) = (EVOKE_OK, Some h) \<and>
       value_at bs h (of_nat j) = (EVOKE_OK, e) \<and>
       ve_column_index e = sv_column_index (vals ! j) \<and> ve_kind e = sv_kind (vals ! j) \<and>
       take (unat (ve_value_size e)) (drop (unat (sh_dictionary_offset h) + unat (ve_value_offset e)) bs) = text_of (vals ! j) \<and>
       map (\<lambda>m. evoke_scope_read_u32 bs (unat (sh_postings_offset h) + unat (ve_postings_offset e) + m * 4))
         [0..<unat (ve_document_count e)] = documents_of (vals ! j))"
proof -
  let ?st = "map (\<lambda>v. (v, documents_of v)) (take (unat value_count) vals)"
  obtain w im where fin: "finished (take (unat column_count) columns) ?st s w im bs" and n: "n = of_nat (length bs)"
    using scope_serialize_run [OF assms(1,2)] by metis
  let ?h = "header_of s w (evoke_read_u64_le bs 72)"
  have j: "j < length ?st" "?st ! j = (vals ! j, documents_of (vals ! j))"
    using assms(2,3) by (simp_all add: inputs_fit_def)
  let ?e = "entry_of (take (unat column_count) columns) ?st j"
  have docs: "map (\<lambda>m. evoke_scope_read_u32 bs (unat (sh_postings_offset ?h) + unat (ve_postings_offset ?e) + m * 4))
      [0..<unat (ve_document_count ?e)] = documents_of (vals ! j)"
    using finished_document [OF fin j(1)] entry_numbers(3) [OF fin j(1)] j(2)
    by (intro nth_equalityI) (simp_all add: header_of_def)
  have at: "sh_dictionary_offset ?h = sw_dictionary_offset w" by (simp add: header_of_def)
  show ?thesis
  proof (cases "evoke_read_u64_le bs 72 = 0")
    case False
    have "take (unat (ve_value_size ?e)) (drop (unat (sh_dictionary_offset ?h) + unat (ve_value_offset ?e)) bs) = text_of (vals ! j)"
      using finished_text [OF fin j(1)] j(2) at by (simp add: entry_of_fields)
    then show ?thesis
      using decode_header(1) [OF fin False, of h0] decode_value [OF fin j(1)] docs n j(2)
      by (intro disjI2 exI [of _ ?h] exI [of _ ?e]) (simp add: entry_of_fields)
  qed simp
qed

section \<open>A small object\<close>

definition sample_column :: evoke_scope_column where
  "sample_column =
     \<lparr>sc_index_attribute = 2, sc_heap_attribute = 3, sc_type_oid = 25, sc_element_type_oid = 0, sc_collation_oid = 100,
      sc_type_modifier = 0xFFFFFFFF, sc_name = Some [0x6B], sc_name_size = 1, sc_first_value = 0, sc_value_count = 2\<rparr>"

definition sample_value :: "bytes \<Rightarrow> u32 list \<Rightarrow> evoke_scope_value" where
  "sample_value t docs =
     \<lparr>sv_column_index = 0, sv_kind = EVOKE_SCOPE_VALUE_SCALAR, sv_value = Some t, sv_value_size = of_nat (length t),
      sv_gram_value = None, sv_gram_value_size = 0, sv_documents = Some docs, sv_document_count = of_nat (length docs)\<rparr>"

abbreviation sample_values :: "evoke_scope_value list" where
  "sample_values \<equiv> [sample_value [0x61, 0x62, 0x63] [1, 4], sample_value [0x61, 0x63] [0]]"

lemma sample_fits: "inputs_fit [sample_column] 1 sample_values 2"
  by (simp add: inputs_fit_def sample_column_def sample_value_def column_fits_def value_fits_def)

lemma sample_valid: "scope_input_valid 7 5 (take (unat (1 :: u32)) [sample_column]) (take (unat (2 :: u32)) sample_values) 2"
proof -
  have "columns_valid 2 [sample_column]"
    by (simp add: columns_valid_def column_valid_def sample_column_def)
  moreover have "values_checked [sample_column] (with_documents sample_values) 5"
    by (simp add: values_checked_def value_checked_def with_documents_def sample_column_def sample_value_def documents_of_def
        text_of_def sized_bytes_def value_before_def text_before_def less_Suc_eq Let_def)
  ultimately show ?thesis
    by (simp add: scope_input_valid_def pointers_ok_def sample_value_def with_documents_def names_def name_bytes_def
        sample_column_def texts_def text_of_def sized_bytes_def posts_def documents_of_def Let_def)
qed

lemma sample_object:
  "\<exists>bs n. evoke_scope_serialize True 7 5 (Some [sample_column]) 1 (Some sample_values) 2 (Some None) (Some 0) =
     (EVOKE_OK, Some (Some bs), Some n)"
  by (rule serialize_outputs [OF serialize_accepts [OF sample_valid sample_fits]])

theorem scope_serialize_accepts_witness:
  "\<exists>bs n. evoke_scope_serialize True 7 5 (Some [sample_column]) 1 (Some sample_values) 2 (Some None) (Some 0) =
     (EVOKE_OK, Some (Some bs), Some n)"
  using scope_serialize_accepts [OF sample_fits, of True 7 5 None 0] sample_valid by simp

theorem scope_serialize_validates_witness:
  "\<exists>bs n. evoke_scope_serialize True 7 5 (Some [sample_column]) 1 (Some sample_values) 2 (Some None) (Some 0) =
       (EVOKE_OK, Some (Some bs), Some n) \<and>
     evoke_scope_validate (Some bs) n 7 = (if evoke_scope_read_u64 bs 72 = 0 then EVOKE_ERR_FORMAT else EVOKE_OK)"
proof -
  obtain bs n where run: "evoke_scope_serialize True 7 5 (Some [sample_column]) 1 (Some sample_values) 2 (Some None) (Some 0) =
      (EVOKE_OK, Some (Some bs), Some n)" using sample_object by blast
  from scope_serialize_validates [OF run sample_fits] run show ?thesis by blast
qed

theorem scope_values_roundtrip_witness:
  "\<exists>bs n. evoke_scope_serialize True 7 5 (Some [sample_column]) 1 (Some sample_values) 2 (Some None) (Some 0) =
       (EVOKE_OK, Some (Some bs), Some n) \<and>
     (evoke_scope_read_u64 bs 72 = 0 \<or>
      (\<exists>h e. evoke_scope_header_deserialize (Some bs) n n 7 (Some zero_scope_header) = (EVOKE_OK, Some h) \<and>
         value_at bs h (of_nat 1) = (EVOKE_OK, e) \<and>
         take (unat (ve_value_size e)) (drop (unat (sh_dictionary_offset h) + unat (ve_value_offset e)) bs) = [0x61, 0x63] \<and>
         map (\<lambda>m. evoke_scope_read_u32 bs (unat (sh_postings_offset h) + unat (ve_postings_offset e) + m * 4))
           [0..<unat (ve_document_count e)] = [0]))"
proof -
  obtain bs n where run: "evoke_scope_serialize True 7 5 (Some [sample_column]) 1 (Some sample_values) 2 (Some None) (Some 0) =
      (EVOKE_OK, Some (Some bs), Some n)" using sample_object by blast
  have "text_of (sample_values ! 1) = [0x61, 0x63]" "documents_of (sample_values ! 1) = [0]"
    by (simp_all add: text_of_def sized_bytes_def sample_value_def documents_of_def)
  then show ?thesis
    using scope_values_roundtrip [OF run sample_fits, of 1 zero_scope_header] run by fastforce
qed

end
