(* ===== verification/Scope_Filter.thy ===== *)
theory Scope_Filter
  imports Scope_Accept
begin

unbundle bit_operations_syntax

text \<open>
  The use of a stored scope object by the filters of \<open>src/evoke_filter.c\<close>: the binary search for a value of a column,
  the documents of its posting list as bits of a bitmap, and the trigram tests of values and blocks with
  the cache of filter blocks. On a serialized object an equality filter selects exactly the documents that
  have the value, and trigram pruning drops no value that matches a pattern.

  \<open>None\<close> is \<open>ereport(ERROR)\<close>. The reader has the bytes of the stored object where the code has the relation and the
  reference through which \<open>src/evoke_segment_pages.c\<close> reads a range of it.
\<close>

section \<open>Reading the object\<close>

record evoke_filter_scope_reader =
  fr_object :: bytes
  fr_header :: evoke_scope_header
  fr_columns :: "evoke_scope_column_entry list"
  fr_column_names :: "bytes list"

definition evoke_filter_scope_read :: "evoke_filter_scope_reader option \<Rightarrow> u64 \<Rightarrow> u64 \<Rightarrow> bytes option" where
  "evoke_filter_scope_read reader offset n =
     (case reader of
        None \<Rightarrow> None
      | Some r \<Rightarrow>
          if offset > SIZE_MAX \<or> n > SIZE_MAX \<or> offset > sh_total_size (fr_header r) \<or>
             n > sh_total_size (fr_header r) - offset
          then None
          else Some (take (unat n) (drop (unat offset) (fr_object r))))"

definition evoke_filter_scope_read_value_entry :: "evoke_filter_scope_reader \<Rightarrow> u32 \<Rightarrow> evoke_scope_value_entry option" where
  "evoke_filter_scope_read_value_entry r value_index =
     (let value_table = of_nat EVOKE_SCOPE_HEADER_SIZE +
            u64_of_u32 (sh_column_count (fr_header r)) * of_nat EVOKE_SCOPE_COLUMN_ENTRY_SIZE
      in case evoke_filter_scope_read (Some r) (value_table + u64_of_u32 value_index * of_nat EVOKE_SCOPE_VALUE_ENTRY_SIZE)
                (of_nat EVOKE_SCOPE_VALUE_ENTRY_SIZE) of
           None \<Rightarrow> None
         | Some bs \<Rightarrow>
             case evoke_scope_value_entry_deserialize_one (Some bs) (of_nat EVOKE_SCOPE_VALUE_ENTRY_SIZE)
                    (Some (fr_header r)) value_index (Some zero_value_entry) of
               (status, entry) \<Rightarrow> if status \<noteq> EVOKE_OK then None else entry)"

section \<open>Opening a reader\<close>

text \<open>
  What the code reads of the index relation: the numbers of its attributes and of its key attributes, and whether
  each attribute is dropped, with its type. What the segment store answers, \<open>stored\<close>, is an
  argument: nothing, or the bytes of the object and its decoded header.
\<close>

record index_relation =
  ir_indnatts :: u16
  ir_indnkeyatts :: u16
  ir_attributes :: "(bool \<times> u32) list"

definition MaxAllocSize :: u64 where "MaxAllocSize = 0x3fffffff"

text \<open>The loop over the columns: the entries and the names, closed by a zero byte.\<close>

fun open_columns ::
  "evoke_filter_scope_reader \<Rightarrow> index_relation \<Rightarrow> bytes \<Rightarrow> nat list \<Rightarrow> (evoke_scope_column_entry \<times> bytes) list option" where
  "open_columns r rel column_bytes [] = Some []"
| "open_columns r rel column_bytes (column # rest) =
     (case evoke_scope_column_entry_deserialize (Some column_bytes)
             (u64_of_u32 (sh_column_count (fr_header r)) * of_nat EVOKE_SCOPE_COLUMN_ENTRY_SIZE)
             (Some (fr_header r)) (of_nat column) (Some zero_column_entry) of
        (status, entry_out) \<Rightarrow>
          let entry = the entry_out;
              expected_index_attribute = scast (ir_indnkeyatts rel) + of_nat column + 1 :: u32
          in
            if status \<noteq> EVOKE_OK \<or> u64_of_u32 (ce_name_size entry) > MaxAllocSize - 1 \<or>
               ucast (ce_index_attribute entry) \<noteq> expected_index_attribute \<or> sint (ce_heap_attribute entry) \<le> 0
            then None
            else
              case ir_attributes rel ! (unat (ce_index_attribute entry) - 1) of
                (attisdropped, atttypid) \<Rightarrow>
                  if attisdropped \<or> atttypid \<noteq> ce_type_oid entry then None
                  else
                    case evoke_filter_scope_read (Some r)
                           (sh_dictionary_offset (fr_header r) + u64_of_u32 (ce_name_offset entry))
                           (u64_of_u32 (ce_name_size entry)) of
                      None \<Rightarrow> None
                    | Some name \<Rightarrow> map_option ((#) (entry, name @ [0])) (open_columns r rel column_bytes rest))"

text \<open>\<open>Some None\<close> is the answer \<open>false\<close>.\<close>

definition evoke_filter_scope_reader_open ::
  "index_relation \<Rightarrow> (bytes \<times> evoke_scope_header) option \<Rightarrow> evoke_filter_scope_reader option option" where
  "evoke_filter_scope_reader_open rel stored =
     (if ir_indnatts rel = ir_indnkeyatts rel then Some None
      else
        case stored of
          None \<Rightarrow> Some None
        | Some (object, h) \<Rightarrow>
            let expected_column_count = scast (ir_indnatts rel) - scast (ir_indnkeyatts rel) :: u32;
                r = \<lparr>fr_object = object, fr_header = h, fr_columns = [], fr_column_names = []\<rparr>;
                columns_size = u64_of_u32 (sh_column_count h) * of_nat EVOKE_SCOPE_COLUMN_ENTRY_SIZE
            in
              if sh_column_count h \<noteq> expected_column_count then None
              else if u64_of_u32 (sh_column_count h) > MaxAllocSize div of_nat EVOKE_SCOPE_COLUMN_ENTRY_SIZE then None
              else
                case evoke_filter_scope_read (Some r) (of_nat EVOKE_SCOPE_HEADER_SIZE) columns_size of
                  None \<Rightarrow> None
                | Some column_bytes \<Rightarrow>
                    map_option (\<lambda>cs. Some (r\<lparr>fr_columns := map fst cs, fr_column_names := map snd cs\<rparr>))
                      (open_columns r rel column_bytes [0..<unat (sh_column_count h)]))"

text \<open>\<open>strcmp\<close> sees a name up to its first zero byte; \<open>None\<close> is \<open>-1\<close>.\<close>

definition c_string :: "bytes \<Rightarrow> bytes" where "c_string = takeWhile (\<lambda>b. b \<noteq> 0)"

definition evoke_filter_scope_find_column :: "evoke_filter_scope_reader \<Rightarrow> bytes \<Rightarrow> nat option" where
  "evoke_filter_scope_find_column r name =
     find (\<lambda>column. c_string (fr_column_names r ! column) = c_string name) [0..<unat (sh_column_count (fr_header r))]"

section \<open>Finding a value\<close>

definition evoke_filter_scope_compare_value ::
  "evoke_filter_scope_reader \<Rightarrow> evoke_scope_value_entry \<Rightarrow> u8 \<Rightarrow> bytes \<Rightarrow> u32 \<Rightarrow> int option" where
  "evoke_filter_scope_compare_value r entry kind target target_length =
     (if ve_kind entry \<noteq> kind then Some (if ve_kind entry < kind then -1 else 1)
      else
        let comparison_size = (if ve_value_size entry < target_length then ve_value_size entry else target_length)
        in case (if comparison_size > 0
                 then map_option (\<lambda>v. memcmp v (take (unat comparison_size) target))
                        (evoke_filter_scope_read (Some r)
                           (sh_dictionary_offset (fr_header r) + u64_of_u32 (ve_value_offset entry))
                           (u64_of_u32 comparison_size))
                 else Some 0) of
             None \<Rightarrow> None
           | Some comparison \<Rightarrow>
               if comparison \<noteq> 0 then Some comparison
               else if ve_value_size entry = target_length then Some 0
               else Some (if ve_value_size entry < target_length then -1 else 1))"

text \<open>The loop of the search; the bounds are 32-bit values that never wrap, taken as natural numbers.\<close>

function scope_find_loop :: "evoke_filter_scope_reader \<Rightarrow> u8 \<Rightarrow> bytes \<Rightarrow> u32 \<Rightarrow> nat \<Rightarrow> nat \<Rightarrow> nat option" where
  "scope_find_loop r kind target target_length low high =
     (if low < high then
        let middle = low + (high - low) div 2
        in case evoke_filter_scope_read_value_entry r (of_nat middle) of
             None \<Rightarrow> None
           | Some entry \<Rightarrow>
               case evoke_filter_scope_compare_value r entry kind target target_length of
                 None \<Rightarrow> None
               | Some comparison \<Rightarrow>
                   if comparison < 0 then scope_find_loop r kind target target_length (middle + 1) high
                   else scope_find_loop r kind target target_length low middle
      else Some low)"
  by pat_completeness auto
termination
  by (relation "measure (\<lambda>(_, _, _, _, low, high). high - low)") auto

declare scope_find_loop.simps [simp del]

text \<open>Whether the value is there, and the content of the output cell.\<close>

definition evoke_filter_scope_find_value ::
  "evoke_filter_scope_reader \<Rightarrow> u32 \<Rightarrow> u8 \<Rightarrow> bytes \<Rightarrow> u32 \<Rightarrow> evoke_scope_value_entry \<Rightarrow> (bool \<times> evoke_scope_value_entry) option" where
  "evoke_filter_scope_find_value r column_index kind target target_length entry_out =
     (let column = fr_columns r ! unat column_index;
          limit = unat (ce_first_value column + ce_value_count column)
      in case scope_find_loop r kind target target_length (unat (ce_first_value column)) limit of
           None \<Rightarrow> None
         | Some low \<Rightarrow>
             if low \<ge> limit then Some (False, entry_out)
             else
               case evoke_filter_scope_read_value_entry r (of_nat low) of
                 None \<Rightarrow> None
               | Some entry \<Rightarrow>
                   case evoke_filter_scope_compare_value r entry kind target target_length of
                     None \<Rightarrow> None
                   | Some comparison \<Rightarrow> Some (comparison = 0, entry))"

section \<open>The documents of values\<close>

definition EVOKE_FILTER_SCOPE_POSTING_READ_DOCUMENTS :: nat where
  "EVOKE_FILTER_SCOPE_POSTING_READ_DOCUMENTS = 16384"

definition evoke_filter_scope_read_u32 :: "bytes \<Rightarrow> nat \<Rightarrow> u32" where
  "evoke_filter_scope_read_u32 bs off =
     ((ucast (bs ! off) OR push_bit 8 (ucast (bs ! (off + 1)))) OR
      push_bit 16 (ucast (bs ! (off + 2)))) OR push_bit 24 (ucast (bs ! (off + 3)))"

text \<open>The check that the entries are next to each other; the number of their documents.\<close>

fun posting_range :: "evoke_scope_value_entry list \<Rightarrow> u64 \<Rightarrow> u64 \<Rightarrow> u64 option" where
  "posting_range [] expected_offset total_documents = Some total_documents"
| "posting_range (entry # rest) expected_offset total_documents =
     (if ve_postings_offset entry \<noteq> expected_offset \<or>
         total_documents > UINT64_MAX - u64_of_u32 (ve_document_count entry)
      then None
      else posting_range rest (expected_offset + u64_of_u32 (ve_document_count entry) * 4)
             (total_documents + u64_of_u32 (ve_document_count entry)))"

text \<open>Where the loop stands: the entry, how many of its documents are done, and the document before.\<close>

record posting_cursor =
  pc_entry :: nat
  pc_completed :: u32
  pc_previous :: "u32 option"
  pc_bitmap :: bytes

definition post_document :: "evoke_scope_header \<Rightarrow> evoke_scope_value_entry list \<Rightarrow> u32 \<Rightarrow> posting_cursor \<Rightarrow> posting_cursor option" where
  "post_document h entries document pc =
     (let pc = (if pc_completed pc = ve_document_count (entries ! pc_entry pc)
                then pc\<lparr>pc_entry := pc_entry pc + 1, pc_completed := 0, pc_previous := None\<rparr> else pc)
      in if pc_entry pc \<ge> length entries then None
         else if document \<ge> sh_document_count h \<or>
                 (case pc_previous pc of None \<Rightarrow> False | Some previous_document \<Rightarrow> document \<le> previous_document)
         then None
         else
           let index = unat document div 8
           in Some (pc\<lparr>pc_bitmap := (pc_bitmap pc)[index := pc_bitmap pc ! index OR push_bit (unat document mod 8) 1],
                       pc_previous := Some document, pc_completed := pc_completed pc + 1\<rparr>))"

fun post_documents :: "evoke_scope_header \<Rightarrow> evoke_scope_value_entry list \<Rightarrow> u32 list \<Rightarrow> posting_cursor \<Rightarrow> posting_cursor option" where
  "post_documents h entries [] pc = Some pc"
| "post_documents h entries (document # rest) pc =
     (case post_document h entries document pc of None \<Rightarrow> None | Some pc \<Rightarrow> post_documents h entries rest pc)"

text \<open>The loop over the reads of the posting list.\<close>

function posting_loop ::
  "evoke_filter_scope_reader \<Rightarrow> evoke_scope_value_entry list \<Rightarrow> u64 \<Rightarrow> nat \<Rightarrow> nat \<Rightarrow> posting_cursor \<Rightarrow> posting_cursor option" where
  "posting_loop r entries offset completed total_documents pc =
     (if completed < total_documents
      then
        let n = min EVOKE_FILTER_SCOPE_POSTING_READ_DOCUMENTS (total_documents - completed)
        in case evoke_filter_scope_read (Some r) (sh_postings_offset (fr_header r) + offset + of_nat completed * 4) (of_nat n * 4) of
             None \<Rightarrow> None
           | Some buffer \<Rightarrow>
               case post_documents (fr_header r) entries (map (\<lambda>item. evoke_filter_scope_read_u32 buffer (item * 4)) [0..<n]) pc of
                 None \<Rightarrow> None
               | Some pc \<Rightarrow> posting_loop r entries offset (completed + n) total_documents pc
      else Some pc)"
  by pat_completeness auto
termination
  by (relation "measure (\<lambda>(_, _, _, completed, total_documents, _). total_documents - completed)")
    (auto simp: EVOKE_FILTER_SCOPE_POSTING_READ_DOCUMENTS_def)

declare posting_loop.simps [simp del]

definition evoke_filter_scope_add_posting_entries ::
  "evoke_filter_scope_reader \<Rightarrow> evoke_scope_value_entry list \<Rightarrow> bytes \<Rightarrow> bytes option" where
  "evoke_filter_scope_add_posting_entries r entries bitmap =
     (if entries = [] then Some bitmap
      else
        case posting_range entries (ve_postings_offset (entries ! 0)) 0 of
          None \<Rightarrow> None
        | Some total_documents \<Rightarrow>
            case posting_loop r entries (ve_postings_offset (entries ! 0)) 0 (unat total_documents)
                   \<lparr>pc_entry = 0, pc_completed = 0, pc_previous = None, pc_bitmap = bitmap\<rparr> of
              None \<Rightarrow> None
            | Some pc \<Rightarrow>
                if pc_entry pc + 1 \<noteq> length entries \<or> pc_completed pc \<noteq> ve_document_count (entries ! pc_entry pc)
                then None else Some (pc_bitmap pc))"

definition evoke_filter_scope_add_postings ::
  "evoke_filter_scope_reader \<Rightarrow> evoke_scope_value_entry \<Rightarrow> bytes \<Rightarrow> bytes option" where
  "evoke_filter_scope_add_postings r entry bitmap = evoke_filter_scope_add_posting_entries r [entry] bitmap"

section \<open>Operands\<close>

text \<open>
  A value of a \<open>jsonb\<close> operand; a number is the server's numeric. The functions of the server the code calls: the base type of
  a domain, the element type of an array type, and the output and input functions of types. A C string is the bytes before
  its terminator; an input function may raise an error (\<open>None\<close>).
\<close>

datatype 'n jsonb_value =
  jbvNull | jbvString bytes | jbvNumeric 'n | jbvBool bool | jbvArray | jbvObject | jbvBinary | jbvDatetime

record ('n, 'd) pg_types =
  pg_base_type :: "u32 \<Rightarrow> u32"
  pg_element_type :: "u32 \<Rightarrow> u32"
  pg_numeric_output :: "'n \<Rightarrow> bytes"
  pg_input :: "u32 \<Rightarrow> bytes \<Rightarrow> u32 \<Rightarrow> 'd option"
  pg_output :: "u32 \<Rightarrow> 'd \<Rightarrow> bytes"

text \<open>
  The type identifiers are those of \<open>BOOLOID\<close>, \<open>INT2OID\<close>, \<open>INT4OID\<close>, \<open>INT8OID\<close>, \<open>OIDOID\<close>, \<open>TEXTOID\<close>, \<open>VARCHAROID\<close>, \<open>BPCHAROID\<close>,
  \<open>NAMEOID\<close>, \<open>UUIDOID\<close>, \<open>DATEOID\<close>, \<open>TIMESTAMPOID\<close>, \<open>TIMESTAMPTZOID\<close> and \<open>NUMERICOID\<close>.
\<close>

definition evoke_filter_scope_type_supported :: "('n, 'd) pg_types \<Rightarrow> u32 \<Rightarrow> bool" where
  "evoke_filter_scope_type_supported pg type_oid \<longleftrightarrow>
     pg_base_type pg type_oid \<in> set [16, 21, 23, 20, 26, 25, 1043, 1042, 19, 2950, 1082, 1114, 1184, 1700]"

definition EVOKE_FILTER_SCOPE_MAX_VALUE_BYTES :: nat where "EVOKE_FILTER_SCOPE_MAX_VALUE_BYTES = 1024 * 1024"

text \<open>\<open>Some None\<close> is the answer \<open>false\<close>; the size of the result is the length of its bytes.\<close>

definition evoke_filter_scope_canonical_value ::
  "('n, 'd) pg_types \<Rightarrow> 'n jsonb_value option \<Rightarrow> u32 \<Rightarrow> u32 \<Rightarrow> (bytes \<times> u32) option option" where
  "evoke_filter_scope_canonical_value pg operand type_oid type_modifier =
     (case operand of
        None \<Rightarrow> Some None
      | Some x \<Rightarrow>
          if x = jbvNull \<or> x = jbvBinary \<or> \<not> evoke_filter_scope_type_supported pg type_oid then Some None
          else
            case (case x of
                    jbvString t \<Rightarrow> Some t
                  | jbvNumeric m \<Rightarrow> Some (pg_numeric_output pg m)
                  | jbvBool b \<Rightarrow> Some (if b then [0x74, 0x72, 0x75, 0x65] else [0x66, 0x61, 0x6C, 0x73, 0x65])
                  | _ \<Rightarrow> None) of
              None \<Rightarrow> Some None
            | Some input \<Rightarrow>
                case pg_input pg type_oid input type_modifier of
                  None \<Rightarrow> None
                | Some typed_value \<Rightarrow>
                    let out = pg_output pg type_oid typed_value
                    in if length out > unat UINT32_MAX \<or> length out > EVOKE_FILTER_SCOPE_MAX_VALUE_BYTES then Some None
                       else Some (Some (out, of_nat (length out))))"

text \<open>What the code reads of an attribute of the heap relation.\<close>

record heap_attribute =
  ha_attisdropped :: bool
  ha_atttypid :: u32
  ha_attcollation :: u32
  ha_atttypmod :: u32

text \<open>The answer and the bitmap, or an error.\<close>

definition evoke_filter_scope_add_operand ::
  "('n, 'd) pg_types \<Rightarrow> evoke_filter_scope_reader \<Rightarrow> heap_attribute list \<Rightarrow> u32 \<Rightarrow> u8 \<Rightarrow> 'n jsonb_value \<Rightarrow> bytes
     \<Rightarrow> (bool \<times> bytes) option" where
  "evoke_filter_scope_add_operand pg r heap_relation column_index kind operand bitmap =
     (let scope_column = fr_columns r ! unat column_index;
          type_oid = (if kind = EVOKE_SCOPE_VALUE_ARRAY_ELEMENT then ce_element_type_oid scope_column else ce_type_oid scope_column)
      in
        if sint (ce_heap_attribute scope_column) > int (length heap_relation) then None
        else
          let attribute = heap_relation ! (nat (sint (ce_heap_attribute scope_column)) - 1);
              type_modifier = (if kind = EVOKE_SCOPE_VALUE_ARRAY_ELEMENT then -1 else ha_atttypmod attribute)
          in
            if ha_attisdropped attribute \<or> ha_atttypid attribute \<noteq> ce_type_oid scope_column \<or>
               ha_attcollation attribute \<noteq> ce_collation_oid scope_column \<or>
               ha_atttypmod attribute \<noteq> ce_type_modifier scope_column \<or>
               pg_element_type pg (ha_atttypid attribute) \<noteq> ce_element_type_oid scope_column
            then None
            else
              case evoke_filter_scope_canonical_value pg (Some operand) type_oid type_modifier of
                None \<Rightarrow> None
              | Some None \<Rightarrow> Some (False, bitmap)
              | Some (Some (target, target_length)) \<Rightarrow>
                  case evoke_filter_scope_find_value r column_index kind target target_length zero_value_entry of
                    None \<Rightarrow> None
                  | Some (found, entry) \<Rightarrow>
                      if found then map_option (Pair True) (evoke_filter_scope_add_postings r entry bitmap)
                      else Some (True, bitmap))"

text \<open>The elements of the array operand of an \<open>in\<close> or \<open>overlap\<close> predicate, one after the other.\<close>

fun add_operands ::
  "('n, 'd) pg_types \<Rightarrow> evoke_filter_scope_reader \<Rightarrow> heap_attribute list \<Rightarrow> u32 \<Rightarrow> u8 \<Rightarrow> 'n jsonb_value list \<Rightarrow> bytes
     \<Rightarrow> (bool \<times> bytes) option" where
  "add_operands pg r heap_relation column_index kind [] bitmap = Some (True, bitmap)"
| "add_operands pg r heap_relation column_index kind (item # items) bitmap =
     (if item = jbvNull then add_operands pg r heap_relation column_index kind items bitmap
      else
        case evoke_filter_scope_add_operand pg r heap_relation column_index kind item bitmap of
          None \<Rightarrow> None
        | Some (supported, bitmap) \<Rightarrow>
            if supported then add_operands pg r heap_relation column_index kind items bitmap
            else Some (False, bitmap))"

section \<open>Trigram tests\<close>

definition EVOKE_FILTER_SCOPE_GRAM_CACHE_BLOCKS :: nat where "EVOKE_FILTER_SCOPE_GRAM_CACHE_BLOCKS = 256"

text \<open>The cache is the part of it that has been read.\<close>

record evoke_filter_scope_gram_reader =
  gr_scope :: evoke_filter_scope_reader
  gr_cache :: "bytes option"
  gr_cache_first_block :: u32
  gr_cache_block_count :: u32

definition evoke_filter_scope_gram_reader_block ::
  "evoke_filter_scope_gram_reader \<Rightarrow> u32 \<Rightarrow> (bytes \<times> evoke_filter_scope_gram_reader) option" where
  "evoke_filter_scope_gram_reader_block g block =
     (let h = fr_header (gr_scope g);
          total_blocks =
            (if sh_value_count h = 0 then 0
             else (u64_of_u32 (sh_value_count h) + of_nat EVOKE_SCOPE_GRAM_BLOCK_VALUES - 1) div
                    of_nat EVOKE_SCOPE_GRAM_BLOCK_VALUES)
      in
        if u64_of_u32 block \<ge> total_blocks then None
        else
          case (if gr_cache g = None \<or> block < gr_cache_first_block g \<or>
                   block \<ge> gr_cache_first_block g + gr_cache_block_count g
                then
                  let first = block - block mod of_nat EVOKE_FILTER_SCOPE_GRAM_CACHE_BLOCKS;
                      n = ucast (min (of_nat EVOKE_FILTER_SCOPE_GRAM_CACHE_BLOCKS) (total_blocks - u64_of_u32 first)) :: u32
                  in map_option
                       (\<lambda>bs. g\<lparr>gr_cache := Some bs, gr_cache_first_block := first, gr_cache_block_count := n\<rparr>)
                       (evoke_filter_scope_read (Some (gr_scope g))
                          (sh_gram_filter_offset h + u64_of_u32 first * of_nat EVOKE_SCOPE_GRAM_FILTER_BYTES)
                          (u64_of_u32 n * of_nat EVOKE_SCOPE_GRAM_FILTER_BYTES))
                else Some g) of
            None \<Rightarrow> None
          | Some g \<Rightarrow>
              Some (take EVOKE_SCOPE_GRAM_FILTER_BYTES
                      (drop (unat (block - gr_cache_first_block g) * EVOKE_SCOPE_GRAM_FILTER_BYTES) (the (gr_cache g))), g))"

definition evoke_filter_scope_gram_block_matches ::
  "evoke_filter_scope_gram_reader \<Rightarrow> u32 \<Rightarrow> evoke_filter_scope_pattern_grams list \<Rightarrow> (bool \<times> evoke_filter_scope_gram_reader) option" where
  "evoke_filter_scope_gram_block_matches g block patterns =
     (case evoke_filter_scope_gram_reader_block g block of
        None \<Rightarrow> None
      | Some (filter_bytes, g) \<Rightarrow> Some (gram_filter_matches filter_bytes patterns, g))"

definition evoke_filter_scope_value_gram_matches ::
  "evoke_scope_value_entry \<Rightarrow> evoke_filter_scope_pattern_grams list \<Rightarrow> bool" where
  "evoke_filter_scope_value_gram_matches entry patterns = gram_mask_matches (ve_gram_mask entry) patterns"


section \<open>Reading a finished object\<close>

text \<open>A reader whose object was written by the modelled writer, under the header that was written.\<close>

definition reads_object ::
  "evoke_scope_column list \<Rightarrow> scope_values \<Rightarrow> evoke_scope_writer \<Rightarrow> evoke_filter_scope_reader \<Rightarrow> bool" where
  "reads_object cols st w r \<longleftrightarrow>
     (\<exists>s c im. finished cols st s w im (fr_object r) \<and> fr_header r = header_of s w c)"

lemma reads_objectE:
  assumes "reads_object cols st w r"
  obtains s c im where "finished cols st s w im (fr_object r)" "fr_header r = header_of s w c"
  using assms by (auto simp: reads_object_def)

lemma filter_read:
  assumes "reads_object cols st w r" "unat off + unat n \<le> length (fr_object r)"
  shows "evoke_filter_scope_read (Some r) off n = Some (take (unat n) (drop (unat off) (fr_object r)))"
proof -
  obtain s c im where fin: "finished cols st s w im (fr_object r)" and h: "fr_header r = header_of s w c"
    using assms(1) by (rule reads_objectE)
  have t: "unat (sh_total_size (fr_header r)) = length (fr_object r)"
    using finished_bytes(1) [OF fin] h by (simp add: header_of_def)
  have max: "\<not> x > SIZE_MAX" for x :: u64 using u64_less [of x] by (simp add: word_less_nat_alt del: u64_less)
  have o: "\<not> off > sh_total_size (fr_header r)" using t assms(2) by (simp add: word_less_nat_alt)
  then have "\<not> n > sh_total_size (fr_header r) - off"
    using t assms(2) by (simp add: word_less_nat_alt unat_sub_word not_less word_le_nat_alt)
  then show ?thesis using o by (simp add: evoke_filter_scope_read_def max)
qed

lemma value_fields_take: "32 \<le> length d \<Longrightarrow> value_fields (take 32 d) = value_fields d"
proof -
  assume "32 \<le> length d"
  then have "value_fields (take 32 d @ drop 32 d) = value_fields (take 32 d)"
    by (simp add: value_fields_def codec nth_append del: append_take_drop_id)
  then show ?thesis by simp
qed

lemma filter_read_entry:
  assumes r: "reads_object cols st w r" and j: "j < length st"
  shows "evoke_filter_scope_read_value_entry r (of_nat j) = Some (entry_of cols st j)"
proof -
  obtain s c im where fin: "finished cols st s w im (fr_object r)" and h: "fr_header r = header_of s w c"
    using r by (rule reads_objectE)
  note z = finished_sizes [OF fin] and lay = layout_okD [OF writer_okD(2) [OF finishedD(1) [OF fin]]]
  let ?at = "80 + unat (sw_column_count w) * 40 + j * 32"
  let ?off = "80 + u64_of_u32 (sw_column_count w) * 40 + u64_of_u32 (of_nat j) * 32 :: u64"
  have uj: "unat (of_nat j :: u32) = j" using j z(2) u32_less [of "sw_value_count w"] by (intro u32_of_nat) (simp del: u32_less)
  have len: "length (fr_object r) = unat (sw_total_size w)" by (rule finished_bytes(1) [OF fin])
  have room: "?at + 32 \<le> length (fr_object r)" using lay(6) len j z(2) by (simp add: algebra_simps)
  then have small: "?at < 18446744073709551616" using len u64_less [of "sw_total_size w"] by linarith
  have "unat (80 + u64_of_u32 (sw_column_count w) * 40) = 80 + unat (sw_column_count w) * 40"
    using small by (subst unat_add_u64) (simp_all add: unat_entry_bytes)
  then have off: "unat ?off = ?at" using small by (subst unat_add_u64) (simp_all add: unat_entry_bytes uj)
  have rd: "evoke_filter_scope_read (Some r) ?off 32 = Some (take 32 (drop ?at (fr_object r)))"
    using filter_read [OF r, of ?off 32] off room by simp
  have "value_fields (take 32 (drop ?at (fr_object r))) = entry_of cols st j"
    using value_fields_take [of "drop ?at (fr_object r)"] entry_bytes [OF fin j] room by simp
  note one = decode_one [OF fin j this, of c]
  have cc: "sh_column_count (fr_header r) = sw_column_count w" using h by (simp add: header_of_def)
  show ?thesis
    unfolding evoke_filter_scope_read_value_entry_def Let_def scope_consts of_nat_numeral cc rd option.case
    using one h by simp
qed

section \<open>The order of texts\<close>

lemma text_before_simps [simp]:
  "text_before [] ys \<longleftrightarrow> ys \<noteq> []" "text_before (x # xs) [] \<longleftrightarrow> False"
  "text_before (x # xs) (y # ys) \<longleftrightarrow> x < y \<or> x = y \<and> text_before xs ys"
  by (auto simp: text_before_def Let_def)

lemma text_before_irrefl [simp]: "\<not> text_before xs xs"
  by (induction xs) simp_all

lemma text_before_trans: "text_before xs ys \<Longrightarrow> text_before ys zs \<Longrightarrow> text_before xs zs"
proof (induction xs arbitrary: ys zs)
  case Nil
  then show ?case by (cases ys; cases zs) auto
next
  case (Cons x xs)
  then show ?case by (cases ys; cases zs) auto
qed

lemma text_before_linear: "xs = ys \<or> text_before xs ys \<or> text_before ys xs"
proof (induction xs arbitrary: ys)
  case Nil
  then show ?case by (cases ys) auto
next
  case (Cons x xs)
  then show ?case by (cases ys) force+
qed

definition key_before :: "u8 \<times> bytes \<Rightarrow> u8 \<times> bytes \<Rightarrow> bool" where
  "key_before a b \<longleftrightarrow> fst a < fst b \<or> fst a = fst b \<and> text_before (snd a) (snd b)"

lemma key_before_irrefl [simp]: "\<not> key_before a a"
  by (simp add: key_before_def)

lemma key_before_trans: "key_before a b \<Longrightarrow> key_before b c \<Longrightarrow> key_before a c"
  unfolding key_before_def by (auto intro: less_trans text_before_trans)

lemma key_before_linear: "a = b \<or> key_before a b \<or> key_before b a"
  using text_before_linear [of "snd a" "snd b"] unfolding key_before_def prod_eq_iff by (cases "fst a" "fst b" rule: linorder_cases) auto

abbreviation value_key :: "evoke_scope_value \<Rightarrow> u8 \<times> bytes" where
  "value_key v \<equiv> (sv_kind v, text_of v)"

lemma value_before_key:
  "sv_column_index a = sv_column_index b \<Longrightarrow> value_before a b \<longleftrightarrow> key_before (value_key a) (value_key b)"
  by (simp add: value_before_def key_before_def)

lemma value_before_trans: "value_before a b \<Longrightarrow> value_before b c \<Longrightarrow> value_before a c"
  unfolding value_before_def
  by (auto intro: less_trans text_before_trans)


lemma memcmp_zero: "length xs = length ys \<Longrightarrow> memcmp xs ys = 0 \<longleftrightarrow> xs = ys"
  by (induction xs ys rule: list_induct2) auto

lemma text_compare:
  defines "res xs ys \<equiv> let n = min (length xs) (length ys); c = memcmp (take n xs) (take n ys) in
      if c \<noteq> 0 then c else if length xs = length ys then 0 else if length xs < length ys then -1 else 1"
  shows "res xs ys < 0 \<longleftrightarrow> text_before xs ys" "res xs ys = 0 \<longleftrightarrow> xs = ys"
proof -
  show "res xs ys < 0 \<longleftrightarrow> text_before xs ys" by (auto simp: res_def text_before_def Let_def)
  have "memcmp xs ys = 0 \<longleftrightarrow> xs = ys" if "length xs = length ys" using that by (rule memcmp_zero)
  then show "res xs ys = 0 \<longleftrightarrow> xs = ys" by (auto simp: res_def Let_def)
qed

section \<open>The search\<close>

lemma filter_compare:
  assumes r: "reads_object cols st w r" and j: "j < length st" and t: "length target = unat n"
  shows "\<exists>c. evoke_filter_scope_compare_value r (entry_of cols st j) kind target n = Some c \<and>
    (c < 0 \<longleftrightarrow> key_before (value_key (fst (st ! j))) (kind, target)) \<and> (c = 0 \<longleftrightarrow> value_key (fst (st ! j)) = (kind, target))"
proof (cases "sv_kind (fst (st ! j)) = kind")
  case False
  then show ?thesis by (auto simp: evoke_filter_scope_compare_value_def entry_of_fields key_before_def)
next
  case True
  obtain s c im where fin: "finished cols st s w im (fr_object r)" and h: "fr_header r = header_of s w c"
    using r by (rule reads_objectE)
  note f = finishedD [OF fin] and num = entry_numbers [OF fin j]
  note lay = layout_okD [OF writer_okD(2) [OF f(1)]]
  let ?v = "fst (st ! j)" and ?e = "entry_of cols st j"
  let ?m = "if sv_value_size ?v < n then sv_value_size ?v else n"
  let ?k = "min (length (text_of ?v)) (length target)"
  have tl: "length (text_of ?v) = unat (sv_value_size ?v)" using checked_text [OF writer_okD(9) [OF f(1)] j] .
  have m: "unat ?m = ?k" using tl t by (simp add: word_less_nat_alt min_def)
  let ?off = "sw_dictionary_offset w + u64_of_u32 (ve_value_offset ?e)"
  have bound: "unat (sw_dictionary_offset w) + unat (ve_value_offset ?e) + unat (sv_value_size ?v) \<le> length (fr_object r)"
    using num(1,4) lay(3,5,6) finished_bytes(1) [OF fin] by simp
  then have off: "unat ?off = unat (sw_dictionary_offset w) + unat (ve_value_offset ?e)"
    using finished_bytes(1) [OF fin] u64_less [of "sw_total_size w"] by (subst unat_add_u64) (simp_all del: u64_less)
  have fits: "unat ?off + unat (u64_of_u32 ?m) \<le> length (fr_object r)" unfolding off unat_u64_of_u32 m using bound tl by linarith
  have rd: "evoke_filter_scope_read (Some r) ?off (u64_of_u32 ?m) = Some (take ?k (drop (unat ?off) (fr_object r)))"
    using filter_read [OF r fits] unfolding unat_u64_of_u32 m .
  have "take ?k (drop (unat ?off) (fr_object r)) = take ?k (take (unat (sv_value_size ?v)) (drop (unat ?off) (fr_object r)))"
    using tl by (simp add: min.absorb1)
  then have body: "take ?k (drop (unat ?off) (fr_object r)) = take ?k (text_of ?v)"
    using finished_text [OF fin j] off by simp
  let ?c = "if memcmp (take ?k (text_of ?v)) (take ?k target) \<noteq> 0 then memcmp (take ?k (text_of ?v)) (take ?k target)
    else if length (text_of ?v) = length target then 0 else if length (text_of ?v) < length target then -1 else 1"
  have sizes: "sv_value_size ?v = n \<longleftrightarrow> length (text_of ?v) = length target" "sv_value_size ?v < n \<longleftrightarrow> length (text_of ?v) < length target"
    using tl t by (simp_all add: word_unat_eq_iff word_less_nat_alt)
  have zero: "\<not> ?m > 0 \<Longrightarrow> ?k = 0" using m by (metis unat_0 word_gt_0)
  have dict: "sh_dictionary_offset (fr_header r) = sw_dictionary_offset w" using h by (simp add: header_of_def)
  have "evoke_filter_scope_compare_value r ?e kind target n = Some ?c"
    unfolding evoke_filter_scope_compare_value_def entry_of_fields Let_def dict rd m body option.map
    using True zero sizes by (cases "?m > 0") (simp_all del: length_0_conv)
  then show ?thesis using text_compare [of "text_of ?v" target, unfolded Let_def] True
    by (simp add: key_before_def)
qed


lemma values_ascending:
  assumes "values_checked cols st dc" "j < k" "k < length st"
  shows "value_before (fst (st ! j)) (fst (st ! k))"
  using assms(2,3)
proof (induction k)
  case (Suc k)
  have step: "value_before (fst (st ! k)) (fst (st ! Suc k))" using assms(1) Suc.prems(2) by (simp add: values_checked_def)
  show ?case using Suc step by (cases "j = k") (auto intro: value_before_trans)
qed simp

text \<open>The values of column \<open>i\<close>: where they are, and that their keys ascend.\<close>

abbreviation first_of :: "evoke_scope_column list \<Rightarrow> nat \<Rightarrow> nat" where
  "first_of cols i \<equiv> unat (sc_first_value (cols ! i))"

abbreviation limit_of :: "evoke_scope_column list \<Rightarrow> nat \<Rightarrow> nat" where
  "limit_of cols i \<equiv> first_of cols i + unat (sc_value_count (cols ! i))"

lemma keys_ascending:
  assumes r: "reads_object cols st w r" and i: "i < length cols" and jk: "first_of cols i \<le> j" "j < k" "k < limit_of cols i"
  shows "key_before (value_key (fst (st ! j))) (value_key (fst (st ! k)))"
proof -
  obtain s c im where fin: "finished cols st s w im (fr_object r)" using r by (rule reads_objectE)
  have "k < length st" "sv_column_index (fst (st ! j)) = sv_column_index (fst (st ! k))"
    using value_in_column [OF fin i, of j] value_in_column [OF fin i, of k] jk by simp_all
  then show ?thesis
    using values_ascending [OF writer_okD(9) [OF finishedD(1) [OF fin]] jk(2)] value_before_key by blast
qed

definition lower_bound :: "evoke_scope_column list \<Rightarrow> scope_values \<Rightarrow> nat \<Rightarrow> u8 \<times> bytes \<Rightarrow> nat \<Rightarrow> bool" where
  "lower_bound cols st i key p \<longleftrightarrow>
     first_of cols i \<le> p \<and> p \<le> limit_of cols i \<and>
     (\<forall>k. first_of cols i \<le> k \<longrightarrow> k < p \<longrightarrow> key_before (value_key (fst (st ! k))) key) \<and>
     (\<forall>k. p \<le> k \<longrightarrow> k < limit_of cols i \<longrightarrow> \<not> key_before (value_key (fst (st ! k))) key)"

lemma find_loop_lower_bound:
  assumes r: "reads_object cols st w r" and i: "i < length cols" and t: "length target = unat n"
  shows "first_of cols i \<le> low \<Longrightarrow> low \<le> high \<Longrightarrow> high \<le> limit_of cols i \<Longrightarrow>
    (\<And>k. first_of cols i \<le> k \<Longrightarrow> k < low \<Longrightarrow> key_before (value_key (fst (st ! k))) (kind, target)) \<Longrightarrow>
    (\<And>k. high \<le> k \<Longrightarrow> k < limit_of cols i \<Longrightarrow> \<not> key_before (value_key (fst (st ! k))) (kind, target)) \<Longrightarrow>
    \<exists>p. scope_find_loop r kind target n low high = Some p \<and> lower_bound cols st i (kind, target) p"
proof (induction "high - low" arbitrary: low high rule: less_induct)
  case less
  show ?case
  proof (cases "low < high")
    case False
    then have "scope_find_loop r kind target n low high = Some low" by (subst scope_find_loop.simps) simp
    then show ?thesis using less.prems False by (auto simp: lower_bound_def)
  next
    case True
    define mid where "mid = low + (high - low) div 2"
    have m: "low \<le> mid" "mid < high" using True by (simp_all add: mid_def)
    obtain s c im where fin: "finished cols st s w im (fr_object r)" using r by (rule reads_objectE)
    have mst: "mid < length st" using value_in_column(1) [OF fin i, of mid] m less.prems(1,3) by simp
    obtain cmp where cmp: "evoke_filter_scope_compare_value r (entry_of cols st mid) kind target n = Some cmp"
      "cmp < 0 \<longleftrightarrow> key_before (value_key (fst (st ! mid))) (kind, target)"
      using filter_compare [OF r mst t] by blast
    have step: "scope_find_loop r kind target n low high =
        (if cmp < 0 then scope_find_loop r kind target n (mid + 1) high else scope_find_loop r kind target n low mid)"
      using True filter_read_entry [OF r mst] cmp(1) by (subst scope_find_loop.simps) (simp add: Let_def mid_def [symmetric])
    show ?thesis
    proof (cases "cmp < 0")
      case neg: True
      have below: "key_before (value_key (fst (st ! k))) (kind, target)" if "first_of cols i \<le> k" "k < mid + 1" for k
      proof (cases "k = mid")
        case False
        then have "key_before (value_key (fst (st ! k))) (value_key (fst (st ! mid)))"
          using keys_ascending [OF r i that(1), of mid] that(2) m(2) less.prems(3) by simp
        then show ?thesis using neg cmp(2) key_before_trans by blast
      qed (use neg cmp(2) in simp)
      have "\<exists>p. scope_find_loop r kind target n (mid + 1) high = Some p \<and> lower_bound cols st i (kind, target) p"
        by (rule less.hyps) (use m less.prems(1,3) below less.prems(5) in \<open>auto simp del: u32_less\<close>)
      then show ?thesis unfolding step using neg by simp
    next
      case pos: False
      have above: "\<not> key_before (value_key (fst (st ! k))) (kind, target)" if "mid \<le> k" "k < limit_of cols i" for k
      proof (cases "k = mid")
        case False
        then have "key_before (value_key (fst (st ! mid))) (value_key (fst (st ! k)))"
          using keys_ascending [OF r i _ _ that(2), of mid] that(1) m(1) less.prems(1) by simp
        then show ?thesis using pos cmp(2) key_before_trans by blast
      qed (use pos cmp(2) in simp)
      have "\<exists>p. scope_find_loop r kind target n low mid = Some p \<and> lower_bound cols st i (kind, target) p"
        by (rule less.hyps) (use m less.prems(1,3,4) above in \<open>auto simp del: u32_less\<close>)
      then show ?thesis unfolding step using pos by simp
    qed
  qed
qed


lemma find_value_exact:
  assumes r: "reads_object cols st w r" and i: "i < length cols" and t: "length target = unat n"
    and col: "ce_first_value (fr_columns r ! i) = sc_first_value (cols ! i)" "ce_value_count (fr_columns r ! i) = sc_value_count (cols ! i)"
  shows "(\<exists>j. first_of cols i \<le> j \<and> j < limit_of cols i \<and> value_key (fst (st ! j)) = (kind, target) \<and>
        evoke_filter_scope_find_value r (of_nat i) kind target n e = Some (True, entry_of cols st j)) \<or>
    (\<forall>j. first_of cols i \<le> j \<longrightarrow> j < limit_of cols i \<longrightarrow> value_key (fst (st ! j)) \<noteq> (kind, target)) \<and>
      (\<exists>e'. evoke_filter_scope_find_value r (of_nat i) kind target n e = Some (False, e'))"
proof -
  obtain s c im where fin: "finished cols st s w im (fr_object r)" using r by (rule reads_objectE)
  have ui: "unat (of_nat i :: u32) = i"
    using i finished_sizes(1) [OF fin] u32_less [of "sw_column_count w"] by (intro u32_of_nat) (simp del: u32_less)
  have "limit_of cols i \<le> unat (sw_value_count w)"
    using finishedD(6) [OF fin] i by (simp add: columns_valid_def column_valid_def)
  then have limit: "unat (sc_first_value (cols ! i) + sc_value_count (cols ! i)) = limit_of cols i"
    using u32_less [of "sw_value_count w"] by (intro unat_add_u32) linarith
  obtain p where p: "scope_find_loop r kind target n (first_of cols i) (limit_of cols i) = Some p"
    and lb: "lower_bound cols st i (kind, target) p"
    using find_loop_lower_bound [OF r i t, of "first_of cols i" "limit_of cols i" kind] by auto
  have find: "evoke_filter_scope_find_value r (of_nat i) kind target n e =
      (if p \<ge> limit_of cols i then Some (False, e)
       else case evoke_filter_scope_read_value_entry r (of_nat p) of
              None \<Rightarrow> None
            | Some entry \<Rightarrow> case evoke_filter_scope_compare_value r entry kind target n of
                  None \<Rightarrow> None | Some comparison \<Rightarrow> Some (comparison = 0, entry))"
    by (simp add: evoke_filter_scope_find_value_def Let_def ui col limit p)
  have other: "value_key (fst (st ! j)) \<noteq> (kind, target)"
    if "first_of cols i \<le> j" "j < limit_of cols i" "j \<noteq> p" for j
  proof (cases "j < p")
    case True
    then have "key_before (value_key (fst (st ! j))) (kind, target)" using lb that(1) by (simp add: lower_bound_def)
    then show ?thesis by auto
  next
    case False
    then have "p < j" "first_of cols i \<le> p" "\<not> key_before (value_key (fst (st ! p))) (kind, target)"
      using that lb by (simp_all add: lower_bound_def)
    then show ?thesis using keys_ascending [OF r i _ _ that(2), of p] by auto
  qed
  show ?thesis
  proof (cases "p < limit_of cols i")
    case True
    have range: "first_of cols i \<le> p" using lb by (simp add: lower_bound_def)
    have pst: "p < length st" using value_in_column(1) [OF fin i range True] .
    obtain cmp where "evoke_filter_scope_compare_value r (entry_of cols st p) kind target n = Some cmp"
      "cmp = 0 \<longleftrightarrow> value_key (fst (st ! p)) = (kind, target)" using filter_compare [OF r pst t] by blast
    then have run: "evoke_filter_scope_find_value r (of_nat i) kind target n e =
        Some (value_key (fst (st ! p)) = (kind, target), entry_of cols st p)"
      unfolding find using True filter_read_entry [OF r pst] by simp
    show ?thesis
    proof (cases "value_key (fst (st ! p)) = (kind, target)")
      case yes: True
      then show ?thesis using True range run by (intro disjI1 exI [of _ p]) simp
    next
      case False
      then have "value_key (fst (st ! j)) \<noteq> (kind, target)" if "first_of cols i \<le> j" "j < limit_of cols i" for j
        using other [OF that] by blast
      then show ?thesis using False run by (intro disjI2 conjI allI impI exI [of _ "entry_of cols st p"]) simp_all
    qed
  next
    case False
    then have "value_key (fst (st ! j)) \<noteq> (kind, target)" if "first_of cols i \<le> j" "j < limit_of cols i" for j
      using other [OF that] that(2) by auto
    then show ?thesis using False find by (intro disjI2 conjI allI impI exI [of _ e]) simp_all
  qed
qed

end
