(* ===== verification/Scope_Selection.thy ===== *)
theory Scope_Selection
  imports Scope_Filter
begin

unbundle bit_operations_syntax

text \<open>
  What the filters of \<open>src/evoke_filter.c\<close> select from a serialized scope object: the posting lists as bits of a bitmap, the
  equality filter as a whole, from opening the reader to the documents, and the trigram tests that may skip
  values and blocks of values.
\<close>

section \<open>Bitmaps of documents\<close>

definition set_document :: "bytes \<Rightarrow> u32 \<Rightarrow> bytes" where
  "set_document bm d = bm[unat d div 8 := bm ! (unat d div 8) OR push_bit (unat d mod 8) 1]"

definition has_document :: "bytes \<Rightarrow> u32 \<Rightarrow> bool" where
  "has_document bm d \<longleftrightarrow> bit (bm ! (unat d div 8)) (unat d mod 8)"

lemma length_set_document [simp]: "length (set_document bm d) = length bm"
  by (simp add: set_document_def)

lemma length_set_documents [simp]: "length (foldl set_document bm ds) = length bm"
  by (induction ds arbitrary: bm) simp_all

lemma bit_or_single: "k < 8 \<Longrightarrow> bit ((x :: u8) OR 2 ^ k) m \<longleftrightarrow> bit x m \<or> m = k"
  by (auto simp: bit_or_iff bit_exp_iff)

lemma has_set_document:
  assumes "unat d div 8 < length bm"
  shows "has_document (set_document bm d) d' \<longleftrightarrow> has_document bm d' \<or> d' = d"
proof (cases "unat d' div 8 = unat d div 8")
  case True
  have "d' = d \<longleftrightarrow> unat d' mod 8 = unat d mod 8"
    using True by (metis div_mult_mod_eq word_unat_eq_iff)
  then show ?thesis using assms True by (simp add: has_document_def set_document_def bit_or_single)
next
  case False
  then show ?thesis by (auto simp: has_document_def set_document_def)
qed

lemma has_set_documents:
  "\<forall>d \<in> set ds. unat d div 8 < length bm \<Longrightarrow> has_document (foldl set_document bm ds) d' \<longleftrightarrow> has_document bm d' \<or> d' \<in> set ds"
  by (induction ds arbitrary: bm) (auto simp: has_set_document)

section \<open>Posting lists\<close>

text \<open>The entries of a run of values and the documents they stand for.\<close>

definition posting_lists :: "evoke_scope_value_entry list \<Rightarrow> scope_values \<Rightarrow> u32 \<Rightarrow> bool" where
  "posting_lists entries xs dc \<longleftrightarrow>
     length entries = length xs \<and>
     (\<forall>k < length xs. unat (ve_document_count (entries ! k)) = length (snd (xs ! k)) \<and> snd (xs ! k) \<noteq> [] \<and>
        sorted_wrt (<) (snd (xs ! k)) \<and> (\<forall>d \<in> set (snd (xs ! k)). d < dc))"

text \<open>The cursor after \<open>p\<close> documents: inside entry \<open>pc_entry\<close>, behind its first \<open>m\<close> documents.\<close>

definition cursor_at :: "scope_values \<Rightarrow> bytes \<Rightarrow> nat \<Rightarrow> nat \<Rightarrow> posting_cursor \<Rightarrow> bool" where
  "cursor_at xs bm k m pc \<longleftrightarrow>
     pc_entry pc = k \<and> k < length xs \<and> m \<le> length (snd (xs ! k)) \<and> unat (pc_completed pc) = m \<and>
     pc_previous pc = (if m = 0 then None else Some (snd (xs ! k) ! (m - 1))) \<and>
     pc_bitmap pc = foldl set_document bm (take (length (posts (take k xs)) + m) (posts xs))"

definition cursor_ok :: "scope_values \<Rightarrow> bytes \<Rightarrow> nat \<Rightarrow> posting_cursor \<Rightarrow> bool" where
  "cursor_ok xs bm p pc \<longleftrightarrow> (\<exists>k m. cursor_at xs bm k m pc \<and> p = length (posts (take k xs)) + m)"

lemma post_document_inside:
  assumes lists: "posting_lists entries xs (sh_document_count h)" and at: "cursor_at xs bm k m pc" and m: "m < length (snd (xs ! k))"
  shows "\<exists>pc'. post_document h entries (snd (xs ! k) ! m) pc = Some pc' \<and> cursor_at xs bm k (Suc m) pc'"
proof -
  let ?d = "snd (xs ! k) ! m"
  have c: "pc_entry pc = k" "k < length xs" "unat (pc_completed pc) = m"
    "pc_previous pc = (if m = 0 then None else Some (snd (xs ! k) ! (m - 1)))"
    "pc_bitmap pc = foldl set_document bm (take (length (posts (take k xs)) + m) (posts xs))"
    using at by (simp_all add: cursor_at_def)
  have l: "length entries = length xs" "unat (ve_document_count (entries ! k)) = length (snd (xs ! k))"
    "sorted_wrt (<) (snd (xs ! k))" "?d < sh_document_count h"
    using lists c(2) m by (auto simp: posting_lists_def)
  have more: "pc_completed pc \<noteq> ve_document_count (entries ! k)" using c(3) l(2) m by auto
  have asc: "\<not> ?d \<le> snd (xs ! k) ! (m - 1)" if "m \<noteq> 0"
    using that m sorted_wrt_nth_less [OF l(3), of "m - 1" m] by simp
  let ?pc = "pc\<lparr>pc_bitmap := set_document (pc_bitmap pc) ?d, pc_previous := Some ?d, pc_completed := pc_completed pc + 1\<rparr>"
  have run: "post_document h entries ?d pc = Some ?pc"
    using more c(1,2,4) l(1,4) asc by (auto simp: post_document_def Let_def set_document_def not_le)
  have "length (snd (xs ! k)) < 2 ^ 32" using l(2) u32_less [of "ve_document_count (entries ! k)"] by simp
  then have upto: "unat (pc_completed pc + 1) = Suc m" using c(3) m by (subst unat_add_u32) simp_all
  have next_doc: "take (length (posts (take k xs)) + Suc m) (posts xs) = take (length (posts (take k xs)) + m) (posts xs) @ [?d]"
  proof -
    let ?p = "length (posts (take k xs)) + m"
    have "?p < length (posts xs)" "posts xs ! ?p = ?d" using posts_take [OF c(2)] m by (simp_all add: nth_append)
    then show ?thesis by (simp add: take_Suc_conv_app_nth)
  qed
  have "cursor_at xs bm k (Suc m) ?pc" using c m upto next_doc by (simp add: cursor_at_def)
  then show ?thesis using run by blast
qed

lemma post_document_ok:
  assumes lists: "posting_lists entries xs (sh_document_count h)" and ok: "cursor_ok xs bm p pc" and p: "p < length (posts xs)"
  shows "\<exists>pc'. post_document h entries (posts xs ! p) pc = Some pc' \<and> cursor_ok xs bm (Suc p) pc'"
proof -
  obtain k m where at: "cursor_at xs bm k m pc" and pm: "p = length (posts (take k xs)) + m" using ok by (auto simp: cursor_ok_def)
  have k: "k < length xs" "m \<le> length (snd (xs ! k))" using at by (simp_all add: cursor_at_def)
  show ?thesis
  proof (cases "m < length (snd (xs ! k))")
    case True
    then have "posts xs ! p = snd (xs ! k) ! m" using posts_take [OF k(1)] pm by (simp add: nth_append)
    then show ?thesis using post_document_inside [OF lists at True] pm by (fastforce simp: cursor_ok_def)
  next
    case False
    then have full: "m = length (snd (xs ! k))" using k(2) by simp
    then have pk: "p = length (posts (take (Suc k) xs))" using pm k(1) by (simp add: posts_def take_Suc_conv_app_nth)
    then have k1: "Suc k < length xs" using p k(1) by (metis Suc_lessI order_less_irrefl take_all_iff order_refl)
    let ?pc = "pc\<lparr>pc_entry := Suc k, pc_completed := 0, pc_previous := None\<rparr>"
    have at1: "cursor_at xs bm (Suc k) 0 ?pc" using at k1 pk pm by (simp add: cursor_at_def)
    have ne: "0 < length (snd (xs ! Suc k))" using lists k1 by (simp add: posting_lists_def)
    have counts: "unat (ve_document_count (entries ! k)) = m" "unat (ve_document_count (entries ! Suc k)) \<noteq> 0"
      using lists k(1) k1 full by (simp_all add: posting_lists_def)
    have "post_document h entries d pc = post_document h entries d ?pc" for d
      using at counts by (simp add: post_document_def Let_def cursor_at_def word_unat_eq_iff)
    moreover have "posts xs ! p = snd (xs ! Suc k) ! 0" using posts_take [OF k1] pk ne by (simp add: nth_append)
    ultimately show ?thesis using post_document_inside [OF lists at1 ne] pk by (fastforce simp: cursor_ok_def)
  qed
qed

lemma post_documents_ok:
  assumes lists: "posting_lists entries xs (sh_document_count h)"
  shows "cursor_ok xs bm p pc \<Longrightarrow> p + n \<le> length (posts xs) \<Longrightarrow>
    \<exists>pc'. post_documents h entries (take n (drop p (posts xs))) pc = Some pc' \<and> cursor_ok xs bm (p + n) pc'"
proof (induction n arbitrary: p pc)
  case (Suc n)
  then have p: "p < length (posts xs)" by simp
  obtain pc1 where one: "post_document h entries (posts xs ! p) pc = Some pc1" "cursor_ok xs bm (Suc p) pc1"
    using post_document_ok [OF lists Suc.prems(1) p] by blast
  then obtain pc' where "post_documents h entries (take n (drop (Suc p) (posts xs))) pc1 = Some pc'" "cursor_ok xs bm (Suc p + n) pc'"
    using Suc.IH [OF one(2)] Suc.prems(2) by auto
  moreover have "take (Suc n) (drop p (posts xs)) = posts xs ! p # take n (drop (Suc p) (posts xs))"
    using p by (simp add: Cons_nth_drop_Suc [symmetric])
  ultimately show ?case using one(1) by simp
qed simp


lemma cursor_end:
  assumes lists: "posting_lists entries xs dc" and ok: "cursor_ok xs bm (length (posts xs)) pc"
  shows "pc_entry pc + 1 = length entries" "pc_completed pc = ve_document_count (entries ! pc_entry pc)"
    "pc_bitmap pc = foldl set_document bm (posts xs)"
proof -
  obtain k m where at: "cursor_at xs bm k m pc" and p: "length (posts xs) = length (posts (take k xs)) + m"
    using ok by (auto simp: cursor_ok_def)
  have k: "k < length xs" "m \<le> length (snd (xs ! k))" "pc_entry pc = k" "unat (pc_completed pc) = m"
    using at by (simp_all add: cursor_at_def)
  have "length (snd (xs ! k)) + length (posts (drop (Suc k) xs)) = m" using posts_take [OF k(1)] p by simp
  then have m: "m = length (snd (xs ! k))" and "length (posts (drop (Suc k) xs)) = 0" using k(2) by linarith+
  then have rest: "posts (drop (Suc k) xs) = []" by simp
  have "drop (Suc k) xs = []"
  proof (rule ccontr)
    assume "drop (Suc k) xs \<noteq> []"
    then have "Suc k < length xs" by simp
    then have "snd (xs ! Suc k) \<noteq> []" "drop (Suc k) xs = xs ! Suc k # drop (Suc (Suc k)) xs"
      using lists by (simp_all add: posting_lists_def Cons_nth_drop_Suc)
    then show False using rest by (simp add: posts_def)
  qed
  then show "pc_entry pc + 1 = length entries" using k lists by (simp add: posting_lists_def)
  show "pc_completed pc = ve_document_count (entries ! pc_entry pc)"
    using k m lists by (simp add: posting_lists_def word_unat_eq_iff)
  show "pc_bitmap pc = foldl set_document bm (posts xs)" using at p by (simp add: cursor_at_def)
qed

text \<open>A run of values of an object, from \<open>a\<close> up to \<open>b\<close>.\<close>

abbreviation run_of :: "scope_values \<Rightarrow> nat \<Rightarrow> nat \<Rightarrow> scope_values" where
  "run_of st a b \<equiv> take (b - a) (drop a st)"

lemma posts_append: "posts (xs @ ys) = posts xs @ posts ys"
  by (simp add: posts_def)

lemma posts_run: "a \<le> b \<Longrightarrow> posts st = posts (take a st) @ posts (run_of st a b) @ posts (drop b st)"
proof -
  assume "a \<le> b"
  then have "st = take a st @ run_of st a b @ drop b st"
    by (metis append_take_drop_id drop_drop le_add_diff_inverse2)
  then show ?thesis by (metis posts_append)
qed

lemma posting_lists_run:
  assumes fin: "finished cols st s w im bs" and b: "b \<le> length st"
  shows "posting_lists (map (entry_of cols st) [a..<b]) (run_of st a b) (sw_document_count w)"
  unfolding posting_lists_def
proof (intro conjI allI impI)
  show "length (map (entry_of cols st) [a..<b]) = length (run_of st a b)" using b by simp
  fix k assume "k < length (run_of st a b)"
  then have k: "a + k < length st" "k < b - a" using b by simp_all
  note n = entry_numbers [OF fin k(1)]
  have c: "value_checked cols (sw_document_count w) (a + k) (st ! (a + k))" by (rule n(7))
  show "unat (ve_document_count (map (entry_of cols st) [a..<b] ! k)) = length (snd (run_of st a b ! k))"
    "snd (run_of st a b ! k) \<noteq> []" using n(3,6) k by simp_all
  show "sorted_wrt (<) (snd (run_of st a b ! k))" "\<forall>d \<in> set (snd (run_of st a b ! k)). d < sw_document_count w"
    using c k by (cases "st ! (a + k)"; simp add: value_checked_def)+
qed

lemma posting_range_ok:
  assumes fin: "finished cols st s w im bs" and b: "b \<le> length st"
  shows "a \<le> b \<Longrightarrow> t + length (posts (run_of st a b)) \<le> length (posts st) \<Longrightarrow>
    posting_range (map (entry_of cols st) [a..<b]) (of_nat (4 * length (posts (take a st)))) (of_nat t) =
      Some (of_nat (t + length (posts (run_of st a b))))"
proof (induction "b - a" arbitrary: a t)
  case (Suc k)
  then have ab: "a < b" and a: "a < length st" using b by simp_all
  note n = entry_numbers [OF fin a]
  have split: "run_of st a b = st ! a # run_of st (Suc a) b" using a ab
    by (metis Cons_nth_drop_Suc Suc_diff_Suc take_Suc_Cons)
  have cnt: "u64_of_u32 (ve_document_count (entry_of cols st a)) = of_nat (length (snd (st ! a)))"
    unfolding n(3) [symmetric] by (simp add: u64_of_u32_def of_nat_unat)
  have off: "ve_postings_offset (entry_of cols st a) = of_nat (4 * length (posts (take a st)))"
    unfolding n(2) [symmetric] by (simp add: of_nat_unat)
  have small: "4 * length (posts st) < 18446744073709551616"
    using finished_sizes(4) [OF fin] u64_less [of "sw_postings_size w"] by linarith
  have parts: "t + length (snd (st ! a)) + length (posts (run_of st (Suc a) b)) \<le> length (posts st)"
    using Suc.prems(2) unfolding split by (simp add: posts_def)
  have "\<not> of_nat t > UINT64_MAX - (of_nat (length (snd (st ! a))) :: u64)"
  proof -
    have u: "unat (of_nat t :: u64) = t" "unat (of_nat (length (snd (st ! a))) :: u64) = length (snd (st ! a))"
      using parts small by (simp_all add: unat_of_nat)
    have "(of_nat (length (snd (st ! a))) :: u64) \<le> UINT64_MAX"
      using u parts small by (simp add: word_le_nat_alt)
    then show ?thesis using u parts small by (simp add: word_less_nat_alt unat_sub_word)
  qed
  moreover have "of_nat (4 * length (posts (take a st))) + of_nat (length (snd (st ! a))) * 4 =
      (of_nat (4 * length (posts (take (Suc a) st))) :: u64)"
    using a by (simp add: posts_def take_Suc_conv_app_nth)
  moreover have "posting_range (map (entry_of cols st) [Suc a..<b]) (of_nat (4 * length (posts (take (Suc a) st))))
      (of_nat (t + length (snd (st ! a)))) = Some (of_nat (t + length (snd (st ! a)) + length (posts (run_of st (Suc a) b))))"
    by (rule Suc.hyps(1)) (use Suc.hyps(2) ab parts in simp_all)
  moreover have "length (posts (run_of st a b)) = length (snd (st ! a)) + length (posts (run_of st (Suc a) b))"
    unfolding split by (simp add: posts_def)
  ultimately show ?case by (simp add: upt_conv_Cons [OF ab] cnt off add.assoc del: upt_Suc)
qed (simp add: posts_def)


lemma read_u32_same: "evoke_filter_scope_read_u32 = evoke_read_u32_le"
  by (intro ext) (simp add: evoke_filter_scope_read_u32_def evoke_read_u32_le_def)

lemma posting_buffer:
  assumes fin: "finished cols st s w im bs" and ab: "a \<le> b" and n: "c + n \<le> length (posts (run_of st a b))"
  shows "map (\<lambda>item. evoke_filter_scope_read_u32
      (take (4 * n) (drop (unat (sw_postings_offset w) + 4 * (length (posts (take a st)) + c)) bs)) (item * 4)) [0..<n] =
    take n (drop c (posts (run_of st a b)))"
proof (rule nth_equalityI)
  show len: "length (map (\<lambda>item. evoke_filter_scope_read_u32
      (take (4 * n) (drop (unat (sw_postings_offset w) + 4 * (length (posts (take a st)) + c)) bs)) (item * 4)) [0..<n]) =
    length (take n (drop c (posts (run_of st a b))))" using n by simp
  fix q assume "q < length (map (\<lambda>item. evoke_filter_scope_read_u32
      (take (4 * n) (drop (unat (sw_postings_offset w) + 4 * (length (posts (take a st)) + c)) bs)) (item * 4)) [0..<n])"
  then have q: "q < n" by simp
  let ?at = "unat (sw_postings_offset w) + 4 * (length (posts (take a st)) + c)"
  let ?buf = "take (4 * n) (drop ?at bs)"
  have total: "length (posts (take a st)) + c + n \<le> length (posts st)" using posts_run [OF ab, of st] n by simp
  have room: "?at + 4 * n \<le> length bs"
    using total finished_sizes(4) [OF fin] finished_bytes(1) [OF fin] layout_okD(5,6) [OF writer_okD(2) [OF finishedD(1) [OF fin]]]
    by simp
  have "evoke_read_u32_le ?buf (q * 4) = evoke_read_u32_le (?buf @ drop (4 * n) (drop ?at bs)) (q * 4)"
    using q room by (subst read_append_left(2)) simp_all
  also have "\<dots> = evoke_read_u32_le bs (unat (sw_postings_offset w) + 4 * (length (posts (take a st)) + c + q))"
    using room by (simp only: append_take_drop_id read_drop(2)) (simp add: algebra_simps)
  also have "\<dots> = posts st ! (length (posts (take a st)) + c + q)" by (rule finished_post [OF fin]) (use total q in simp)
  also have "\<dots> = posts (run_of st a b) ! (c + q)"
    using arg_cong [OF posts_run [OF ab, of st], of "\<lambda>l. l ! (length (posts (take a st)) + (c + q))"] q n
    by (simp add: nth_append add.assoc)
  finally show "map (\<lambda>item. evoke_filter_scope_read_u32 ?buf (item * 4)) [0..<n] ! q = take n (drop c (posts (run_of st a b))) ! q"
    using q n by (simp add: read_u32_same)
qed

lemma posting_loop_ok:
  assumes r: "reads_object cols st w r" and ab: "a \<le> b" "b \<le> length st"
  shows "cursor_ok (run_of st a b) bm c pc \<Longrightarrow> c \<le> length (posts (run_of st a b)) \<Longrightarrow>
    \<exists>pc'. posting_loop r (map (entry_of cols st) [a..<b]) (of_nat (4 * length (posts (take a st)))) c
        (length (posts (run_of st a b))) pc = Some pc' \<and> cursor_ok (run_of st a b) bm (length (posts (run_of st a b))) pc'"
proof (induction "length (posts (run_of st a b)) - c" arbitrary: c pc rule: less_induct)
  case less
  let ?t = "length (posts (run_of st a b))" and ?es = "map (entry_of cols st) [a..<b]" and ?A = "length (posts (take a st))"
  show ?case
  proof (cases "c < ?t")
    case False
    then show ?thesis using less.prems by (subst posting_loop.simps) simp
  next
    case True
    define n where "n = min EVOKE_FILTER_SCOPE_POSTING_READ_DOCUMENTS (?t - c)"
    have n: "0 < n" "c + n \<le> ?t" using True by (simp_all add: n_def EVOKE_FILTER_SCOPE_POSTING_READ_DOCUMENTS_def)
    obtain s ck im where fin: "finished cols st s w im (fr_object r)" and h: "fr_header r = header_of s w ck"
      using r by (rule reads_objectE)
    note lay = layout_okD [OF writer_okD(2) [OF finishedD(1) [OF fin]]]
    have fits: "unat (sw_postings_offset w) + 4 * (?A + c) + 4 * n \<le> length (fr_object r)"
      using posts_run [OF ab(1), of st] n finished_sizes(4) [OF fin] finished_bytes(1) [OF fin] lay(5,6) by simp
    then have small: "unat (sw_postings_offset w) + 4 * (?A + c) + 4 * n < 18446744073709551616"
      using finished_bytes(1) [OF fin] u64_less [of "sw_total_size w"] by linarith
    let ?off = "sh_postings_offset (fr_header r) + of_nat (4 * ?A) + of_nat c * 4"
    have "?off = of_nat (unat (sw_postings_offset w) + 4 * (?A + c))" using h by (simp add: header_of_def algebra_simps)
    then have off: "unat ?off = unat (sw_postings_offset w) + 4 * (?A + c)" using small by (simp only: unat_of_nat) simp
    have "(of_nat n * 4 :: u64) = of_nat (4 * n)" by simp
    then have len: "unat (of_nat n * 4 :: u64) = 4 * n" using small by (simp only: unat_of_nat) simp
    have rd: "evoke_filter_scope_read (Some r) ?off (of_nat n * 4) =
        Some (take (4 * n) (drop (unat (sw_postings_offset w) + 4 * (?A + c)) (fr_object r)))"
      using filter_read [OF r, of ?off "of_nat n * 4"] fits unfolding off len by blast
    have dc: "sh_document_count (fr_header r) = sw_document_count w" using h by (simp add: header_of_def)
    obtain pc1 where one: "post_documents (fr_header r) ?es (take n (drop c (posts (run_of st a b)))) pc = Some pc1"
      "cursor_ok (run_of st a b) bm (c + n) pc1"
      using post_documents_ok [OF _ less.prems(1) n(2), of ?es "fr_header r"] posting_lists_run [OF fin ab(2)] dc by auto
    have step: "posting_loop r ?es (of_nat (4 * ?A)) c ?t pc = posting_loop r ?es (of_nat (4 * ?A)) (c + n) ?t pc1"
      using True rd posting_buffer [OF fin ab(1) n(2)] one(1)
      by (subst posting_loop.simps) (simp add: Let_def n_def [symmetric])
    show ?thesis unfolding step by (rule less.hyps) (use n one(2) True in simp_all)
  qed
qed

text \<open>The documents of a run of values become bits, and no error is reported.\<close>

lemma add_entries_exact:
  assumes r: "reads_object cols st w r" and ab: "a \<le> b" "b \<le> length st"
  shows "evoke_filter_scope_add_posting_entries r (map (entry_of cols st) [a..<b]) bm =
    Some (foldl set_document bm (posts (run_of st a b)))"
proof (cases "a = b")
  case True
  then show ?thesis by (simp add: evoke_filter_scope_add_posting_entries_def posts_def)
next
  case False
  then have a: "a < b" "a < length st" using ab by simp_all
  obtain s ck im where fin: "finished cols st s w im (fr_object r)" and h: "fr_header r = header_of s w ck"
    using r by (rule reads_objectE)
  let ?es = "map (entry_of cols st) [a..<b]" and ?xs = "run_of st a b"
  let ?pc = "\<lparr>pc_entry = 0, pc_completed = 0, pc_previous = None, pc_bitmap = bm\<rparr>"
  have first: "?es ! 0 = entry_of cols st a" "?es \<noteq> []" using a by simp_all
  have off: "ve_postings_offset (entry_of cols st a) = of_nat (4 * length (posts (take a st)))"
    unfolding entry_numbers(2) [OF fin a(2), symmetric] by (simp add: of_nat_unat)
  have fits: "length (posts ?xs) \<le> length (posts st)" using posts_run [OF ab(1), of st] by simp
  have rng: "posting_range ?es (of_nat (4 * length (posts (take a st)))) 0 = Some (of_nat (length (posts ?xs)))"
    using posting_range_ok [OF fin ab(2,1), of 0] fits by simp
  have "length (posts ?xs) < 18446744073709551616"
    using fits finished_sizes(4) [OF fin] u64_less [of "sw_postings_size w"] by linarith
  then have cnt: "unat (of_nat (length (posts ?xs)) :: u64) = length (posts ?xs)" by (simp only: unat_of_nat) simp
  have "cursor_at ?xs bm 0 0 ?pc" using a by (simp add: cursor_at_def posts_def)
  then have start: "cursor_ok ?xs bm 0 ?pc" by (auto simp: cursor_ok_def posts_def intro!: exI [of _ 0])
  obtain pc' where loop: "posting_loop r ?es (of_nat (4 * length (posts (take a st)))) 0 (length (posts ?xs)) ?pc = Some pc'"
    and fin_pc: "cursor_ok ?xs bm (length (posts ?xs)) pc'"
    using posting_loop_ok [OF r ab start] by auto
  note e = cursor_end [OF posting_lists_run [OF fin ab(2)] fin_pc]
  show ?thesis
    using first off rng cnt loop e by (simp add: evoke_filter_scope_add_posting_entries_def)
qed


section \<open>Opening a reader\<close>

lemma read_take:
  "off + 2 \<le> n \<Longrightarrow> n \<le> length d \<Longrightarrow> evoke_read_u16_le (take n d) off = evoke_read_u16_le d off"
  "off + 4 \<le> n \<Longrightarrow> n \<le> length d \<Longrightarrow> evoke_read_u32_le (take n d) off = evoke_read_u32_le d off"
  by (rule read_le_cong; simp)+

lemma column_deserialize_take:
  assumes "n = unat (sh_column_count h) * 40" "n \<le> length d" "unat column < unat (sh_column_count h)"
  shows "evoke_scope_column_entry_deserialize (Some (take n d)) z (Some h) column e =
    evoke_scope_column_entry_deserialize (Some d) z (Some h) column e"
proof -
  have "unat column * 40 + 40 \<le> n" using assms(1,3) by simp
  then have r16: "off \<le> 38 \<Longrightarrow> evoke_read_u16_le (take n d) (unat column * 40 + off) = evoke_read_u16_le d (unat column * 40 + off)"
    and r32: "off \<le> 36 \<Longrightarrow> evoke_read_u32_le (take n d) (unat column * 40 + off) = evoke_read_u32_le d (unat column * 40 + off)" for off
    using assms(2) by (intro read_take; simp)+
  show ?thesis
    unfolding evoke_scope_column_entry_deserialize_def Let_def scope_accessors scope_consts
    by (cases e) (simp_all add: r16 r32 r16 [of 0, simplified] del: add_2_eq_Suc add_2_eq_Suc')
qed

lemma finished_name:
  assumes fin: "finished cols st s w im bs" and i: "i < length cols"
  shows "take (length (name_bytes (cols ! i))) (drop (unat (sw_dictionary_offset w) + length (names (take i cols))) bs) =
    name_bytes (cols ! i)"
proof -
  note inv = writer_okD [OF finishedD(1) [OF fin]]
  note lay = layout_okD [OF inv(2)]
  obtain rest where rest: "drop (dictionary_at (unat (sw_column_count w)) (unat (sw_value_count w))) (flat im) = im_dictionary im @ rest"
    using drop_dictionary [OF lay(1)] by blast
  have dict: "im_dictionary im = (names cols @ texts st) @ drop (length (names cols @ texts st)) (im_dictionary im)"
    using inv(5) unfolding dictionary_ok_def by (metis append_take_drop_id)
  have "80 \<le> unat (sw_dictionary_offset w)" using lay(3) by simp
  then have "drop (unat (sw_dictionary_offset w)) bs = im_dictionary im @ rest"
    using drop_same [OF fin] rest lay(3) by simp
  then have "drop (unat (sw_dictionary_offset w) + length (names (take i cols))) bs =
      drop (length (names (take i cols))) (im_dictionary im @ rest)"
    by (metis add.commute drop_drop)
  then show ?thesis by (subst (asm) dict) (simp add: names_take [OF i])
qed

text \<open>The index relation is the one the columns were collected for, and its sizes are ones the server can allocate.\<close>

definition relation_matches :: "index_relation \<Rightarrow> evoke_scope_column list \<Rightarrow> bool" where
  "relation_matches rel cols \<longleftrightarrow>
     ir_indnatts rel \<noteq> ir_indnkeyatts rel \<and>
     (scast (ir_indnatts rel) - scast (ir_indnkeyatts rel) :: u32) = of_nat (length cols) \<and>
     length cols \<le> unat (MaxAllocSize div 40) \<and>
     (\<forall>i < length cols.
        ucast (sc_index_attribute (cols ! i)) = (scast (ir_indnkeyatts rel) + of_nat i + 1 :: u32) \<and>
        ir_attributes rel ! (unat (sc_index_attribute (cols ! i)) - 1) = (False, sc_type_oid (cols ! i)) \<and>
        u64_of_u32 (sc_name_size (cols ! i)) \<le> MaxAllocSize - 1)"

abbreviation stored_column :: "evoke_scope_column list \<Rightarrow> nat \<Rightarrow> evoke_scope_column_entry" where
  "stored_column cols i \<equiv> column_entry_of (cols ! i) (of_nat (length (names (take i cols))))"

lemma open_columns_ok:
  assumes r: "reads_object cols st w r" and named: "names_sized cols" and rel: "relation_matches rel cols"
    and d: "d = take (unat (sw_column_count w) * 40) (drop 80 (fr_object r))"
  shows "\<forall>i \<in> set is. i < length cols \<Longrightarrow>
    open_columns r rel d is = Some (map (\<lambda>i. (stored_column cols i, name_bytes (cols ! i) @ [0])) is)"
proof (induction "is")
  case (Cons i "is")
  then have i: "i < length cols" by simp
  obtain s c im where fin: "finished cols st s w im (fr_object r)" and h: "fr_header r = header_of s w c"
    using r by (rule reads_objectE)
  note z = finished_sizes [OF fin] and cf = column_facts [OF fin i]
  note lay = layout_okD [OF writer_okD(2) [OF finishedD(1) [OF fin]]]
  have fits: "length (name_bytes (cols ! i)) = unat (sc_name_size (cols ! i))" using named i by (simp add: names_sized_def)
  have cc: "sh_column_count (fr_header r) = sw_column_count w" "sh_dictionary_offset (fr_header r) = sw_dictionary_offset w"
    using h by (simp_all add: header_of_def)
  have ui: "unat (of_nat i :: u32) = i" using i z(1) u32_less [of "sw_column_count w"] by (intro u32_of_nat) (simp del: u32_less)
  have len: "length (fr_object r) = unat (sw_total_size w)" by (rule finished_bytes(1) [OF fin])
  have "unat (sw_column_count w) * 40 \<le> length (drop 80 (fr_object r))" using lay(6) len by simp
  then have same: "evoke_scope_column_entry_deserialize (Some d) z (Some (fr_header r)) (of_nat i) e =
      evoke_scope_column_entry_deserialize (Some (drop 80 (fr_object r))) z (Some (fr_header r)) (of_nat i) e" for z e
    unfolding d by (rule column_deserialize_take [rotated]) (use cc ui i z(1) in simp_all)
  obtain e where entry: "evoke_scope_column_entry_deserialize (Some d) (u64_of_u32 (sw_column_count w) * 40) (Some (fr_header r))
      (of_nat i) (Some zero_column_entry) = (EVOKE_OK, e)" "the e = stored_column cols i"
    using decode_column [OF fin i fits, of c] unfolding column_at_def scope_consts of_nat_numeral same cc(1) h [symmetric]
    by (auto split: prod.splits)
  let ?off = "sw_dictionary_offset w + u64_of_u32 (of_nat (length (names (take i cols))))"
  have no: "unat (of_nat (length (names (take i cols))) :: u32) = length (names (take i cols))" by (rule u32_of_nat [OF cf(3)])
  have room: "unat (sw_dictionary_offset w) + length (names (take i cols)) + unat (sc_name_size (cols ! i)) \<le> length (fr_object r)"
    using cf(2) [OF fits] lay(3,5,6) len by simp
  then have off: "unat ?off = unat (sw_dictionary_offset w) + length (names (take i cols))"
    using len u64_less [of "sw_total_size w"] by (subst unat_add_u64) (simp_all add: no del: u64_less)
  have rd: "evoke_filter_scope_read (Some r) ?off (u64_of_u32 (sc_name_size (cols ! i))) = Some (name_bytes (cols ! i))"
    using filter_read [OF r, of ?off "u64_of_u32 (sc_name_size (cols ! i))"] finished_name [OF fin i] room unfolding off
    by (simp add: fits)
  have heap: "\<not> sint (sc_heap_attribute (cols ! i)) \<le> 0" using cf(1) by (simp add: column_valid_def)
  note m = rel [unfolded relation_matches_def, THEN conjunct2, THEN conjunct2, THEN conjunct2, rule_format, OF i]
  have "open_columns r rel d is = Some (map (\<lambda>i. (stored_column cols i, name_bytes (cols ! i) @ [0])) is)"
    using Cons by simp
  then show ?case
    using entry rd heap m cc by (simp add: scope_consts Let_def column_entry_of_def not_less)
qed simp

definition opened :: "bytes \<Rightarrow> evoke_scope_header \<Rightarrow> evoke_scope_column list \<Rightarrow> evoke_filter_scope_reader" where
  "opened bs h cols =
     \<lparr>fr_object = bs, fr_header = h, fr_columns = map (stored_column cols) [0..<length cols],
      fr_column_names = map (\<lambda>i. name_bytes (cols ! i) @ [0]) [0..<length cols]\<rparr>"

lemma reader_open_ok:
  assumes fin: "finished cols st s w im bs" and named: "names_sized cols" and rel: "relation_matches rel cols"
  shows "evoke_filter_scope_reader_open rel (Some (bs, header_of s w c)) = Some (Some (opened bs (header_of s w c) cols))"
proof -
  let ?h = "header_of s w c" and ?r = "\<lparr>fr_object = bs, fr_header = header_of s w c, fr_columns = [], fr_column_names = []\<rparr>"
  note z = finished_sizes [OF fin] and lay = layout_okD [OF writer_okD(2) [OF finishedD(1) [OF fin]]]
  have r: "reads_object cols st w ?r" using fin unfolding reads_object_def by fastforce
  have cc: "sh_column_count ?h = sw_column_count w" "unat (sw_column_count w) = length cols" using z(1) by (simp_all add: header_of_def)
  have count: "sw_column_count w = scast (ir_indnatts rel) - scast (ir_indnkeyatts rel)"
    using rel z(1) by (simp add: relation_matches_def of_nat_unat)
  have alloc: "\<not> u64_of_u32 (sw_column_count w) > MaxAllocSize div 40"
    using rel cc(2) by (simp add: relation_matches_def word_less_nat_alt)
  have rd: "evoke_filter_scope_read (Some ?r) 80 (u64_of_u32 (sw_column_count w) * 40) =
      Some (take (unat (sw_column_count w) * 40) (drop 80 bs))"
    using filter_read [OF r, of 80 "u64_of_u32 (sw_column_count w) * 40"] lay(6) finished_bytes(1) [OF fin]
    by (simp add: unat_entry_bytes mult.commute)
  have "open_columns ?r rel (take (unat (sw_column_count w) * 40) (drop 80 bs)) [0..<length cols] =
      Some (map (\<lambda>i. (stored_column cols i, name_bytes (cols ! i) @ [0])) [0..<length cols])"
    by (rule open_columns_ok [OF r named rel]) simp_all
  then show ?thesis
    using rel count alloc rd cc unfolding evoke_filter_scope_reader_open_def Let_def scope_consts
    by (simp add: relation_matches_def opened_def comp_def)
qed

lemma opened_reads: "finished cols st s w im bs \<Longrightarrow> reads_object cols st w (opened bs (header_of s w c) cols)"
  unfolding reads_object_def by (force simp: opened_def)

lemma opened_column:
  assumes "i < length cols"
  shows "fr_columns (opened bs h cols) ! i = stored_column cols i"
  using assms by (simp add: opened_def)


lemma c_string_terminated [simp]: "c_string (xs @ [0]) = c_string xs"
  by (induction xs) (simp_all add: c_string_def)

lemma find_column_ok:
  assumes fin: "finished cols st s w im bs" and i: "i < length cols" and names: "distinct (map (c_string \<circ> name_bytes) cols)"
  shows "evoke_filter_scope_find_column (opened bs (header_of s w c) cols) (name_bytes (cols ! i)) = Some i"
proof -
  let ?r = "opened bs (header_of s w c) cols"
  have n: "unat (sh_column_count (fr_header ?r)) = length cols"
    using finished_sizes(1) [OF fin] by (simp add: opened_def header_of_def)
  have "c_string (fr_column_names ?r ! k) = c_string (name_bytes (cols ! i)) \<longleftrightarrow> k = i" if "k < length cols" for k
    using that i nth_eq_iff_index_eq [OF names, of k i] by (simp add: opened_def)
  then have "find (\<lambda>k. c_string (fr_column_names ?r ! k) = c_string (name_bytes (cols ! i))) [0..<length cols] =
      find (\<lambda>k. k = i) [0..<length cols]"
    by (intro find_cong) simp_all
  also have "\<dots> = Some i" using i unfolding find_Some_iff by (intro exI [of _ i]) simp
  finally show ?thesis by (simp add: evoke_filter_scope_find_column_def n)
qed

section \<open>Operands\<close>

definition matching_documents :: "scope_values \<Rightarrow> nat \<Rightarrow> u8 \<times> bytes \<Rightarrow> u32 set" where
  "matching_documents st i key =
     (\<Union>x \<in> {x \<in> set st. sv_column_index (fst x) = of_nat i \<and> value_key (fst x) = key}. set (snd x))"

lemma column_range_of:
  assumes fin: "finished cols st s w im bs" and k: "k < length st" and i: "i < length cols" "sv_column_index (fst (st ! k)) = of_nat i"
  shows "first_of cols i \<le> k" "k < limit_of cols i"
proof -
  have "unat (of_nat i :: u32) = i"
    using i(1) finished_sizes(1) [OF fin] u32_less [of "sw_column_count w"] by (intro u32_of_nat) (simp del: u32_less)
  then show "first_of cols i \<le> k" "k < limit_of cols i"
    using entry_numbers(7) [OF fin k] i(2) by (cases "st ! k"; simp add: value_checked_def Let_def)+
qed

lemma matching_unique:
  assumes r: "reads_object cols st w r" and i: "i < length cols" and j: "first_of cols i \<le> j" "j < limit_of cols i"
    and key: "value_key (fst (st ! j)) = key"
  shows "matching_documents st i key = set (snd (st ! j))"
proof -
  obtain s c im where fin: "finished cols st s w im (fr_object r)" using r by (rule reads_objectE)
  note mine = value_in_column [OF fin i j]
  have only: "k = j" if k: "k < length st" "sv_column_index (fst (st ! k)) = of_nat i" "value_key (fst (st ! k)) = key" for k
  proof -
    note range = column_range_of [OF fin k(1) i k(2)]
    have "\<not> k < j" using keys_ascending [OF r i range(1) _ j(2)] k(3) key by (metis key_before_irrefl)
    moreover have "\<not> j < k" using keys_ascending [OF r i j(1) _ range(2)] k(3) key by (metis key_before_irrefl)
    ultimately show ?thesis by simp
  qed
  have "{x \<in> set st. sv_column_index (fst x) = of_nat i \<and> value_key (fst x) = key} = {st ! j}"
  proof (intro equalityI subsetI)
    fix x assume "x \<in> {x \<in> set st. sv_column_index (fst x) = of_nat i \<and> value_key (fst x) = key}"
    then obtain k where "k < length st" "st ! k = x" "sv_column_index (fst (st ! k)) = of_nat i" "value_key (fst (st ! k)) = key"
      unfolding mem_Collect_eq in_set_conv_nth by metis
    then show "x \<in> {st ! j}" using only by blast
  qed (use mine key in simp)
  then show ?thesis by (simp add: matching_documents_def)
qed

lemma matching_none:
  assumes fin: "finished cols st s w im bs" and i: "i < length cols"
    and none: "\<forall>j. first_of cols i \<le> j \<longrightarrow> j < limit_of cols i \<longrightarrow> value_key (fst (st ! j)) \<noteq> key"
  shows "matching_documents st i key = {}"
proof -
  have "value_key (fst (st ! k)) \<noteq> key" if "k < length st" "sv_column_index (fst (st ! k)) = of_nat i" for k
    using none column_range_of [OF fin that(1) i that(2)] by blast
  then have "\<not> (sv_column_index (fst x) = of_nat i \<and> value_key (fst x) = key)" if "x \<in> set st" for x
    using that by (metis in_set_conv_nth)
  then show ?thesis unfolding matching_documents_def by blast
qed

text \<open>The heap attribute is the one the column was collected from.\<close>

definition heap_matches :: "('n, 'd) pg_types \<Rightarrow> heap_attribute list \<Rightarrow> evoke_scope_column \<Rightarrow> bool" where
  "heap_matches pg heap c \<longleftrightarrow>
     sint (sc_heap_attribute c) \<le> int (length heap) \<and>
     heap ! (nat (sint (sc_heap_attribute c)) - 1) =
       \<lparr>ha_attisdropped = False, ha_atttypid = sc_type_oid c, ha_attcollation = sc_collation_oid c, ha_atttypmod = sc_type_modifier c\<rparr> \<and>
     pg_element_type pg (sc_type_oid c) = sc_element_type_oid c"

definition canonical_text :: "('n, 'd) pg_types \<Rightarrow> evoke_scope_column \<Rightarrow> u8 \<Rightarrow> 'n jsonb_value \<Rightarrow> (bytes \<times> u32) option option" where
  "canonical_text pg c kind x =
     (if kind = EVOKE_SCOPE_VALUE_ARRAY_ELEMENT
      then evoke_filter_scope_canonical_value pg (Some x) (sc_element_type_oid c) (-1)
      else evoke_filter_scope_canonical_value pg (Some x) (sc_type_oid c) (sc_type_modifier c))"

lemma canonical_length: "canonical_text pg c kind x = Some (Some (t, n)) \<Longrightarrow> length t = unat n"
  by (auto simp: canonical_text_def evoke_filter_scope_canonical_value_def Let_def EVOKE_FILTER_SCOPE_MAX_VALUE_BYTES_def
      unat_of_nat split: if_splits option.splits)

lemma add_operand_exact:
  assumes fin: "finished cols st s w im bs" and i: "i < length cols" and heap: "heap_matches pg heap (cols ! i)"
    and t: "canonical_text pg (cols ! i) kind x = Some (Some (t, n))"
  shows "\<exists>ds. evoke_filter_scope_add_operand pg (opened bs (header_of s w c) cols) heap (of_nat i) kind x bm =
      Some (True, foldl set_document bm ds) \<and> set ds = matching_documents st i (kind, t)"
proof -
  let ?r = "opened bs (header_of s w c) cols"
  note r = opened_reads [OF fin, of c]
  have ui: "unat (of_nat i :: u32) = i"
    using i finished_sizes(1) [OF fin] u32_less [of "sw_column_count w"] by (intro u32_of_nat) (simp del: u32_less)
  have col: "fr_columns ?r ! i = stored_column cols i" by (rule opened_column [OF i])
  have run: "evoke_filter_scope_add_operand pg ?r heap (of_nat i) kind x bm =
      (case evoke_filter_scope_find_value ?r (of_nat i) kind t n zero_value_entry of
         None \<Rightarrow> None
       | Some (found, entry) \<Rightarrow>
           if found then map_option (Pair True) (evoke_filter_scope_add_postings ?r entry bm) else Some (True, bm))"
    using heap t by (simp add: evoke_filter_scope_add_operand_def Let_def ui col column_entry_of_def heap_matches_def
        canonical_text_def split: if_splits)
  have fields: "ce_first_value (fr_columns ?r ! i) = sc_first_value (cols ! i)" "ce_value_count (fr_columns ?r ! i) = sc_value_count (cols ! i)"
    by (simp_all add: col column_entry_of_def)
  from find_value_exact [OF r i canonical_length [OF t] fields, of kind zero_value_entry] show ?thesis
  proof (elim disjE exE conjE)
    fix j assume j: "first_of cols i \<le> j" "j < limit_of cols i" "value_key (fst (st ! j)) = (kind, t)"
      "evoke_filter_scope_find_value ?r (of_nat i) kind t n zero_value_entry = Some (True, entry_of cols st j)"
    have "j < length st" using value_in_column(1) [OF fin i j(1,2)] .
    then have "evoke_filter_scope_add_postings ?r (entry_of cols st j) bm = Some (foldl set_document bm (snd (st ! j)))"
      using add_entries_exact [OF r, of j "Suc j" bm] by (simp add: evoke_filter_scope_add_postings_def posts_def take_Suc hd_drop_conv_nth)
    then show ?thesis using run j(4) matching_unique [OF r i j(1-3)] by auto
  next
    fix e assume none: "\<forall>j. first_of cols i \<le> j \<longrightarrow> j < limit_of cols i \<longrightarrow> value_key (fst (st ! j)) \<noteq> (kind, t)"
      "evoke_filter_scope_find_value ?r (of_nat i) kind t n zero_value_entry = Some (False, e)"
    then show ?thesis using run matching_none [OF fin i none(1)] by (intro exI [of _ "[]"]) simp
  qed
qed

definition selected :: "('n, 'd) pg_types \<Rightarrow> evoke_scope_column \<Rightarrow> u8 \<Rightarrow> 'n jsonb_value list \<Rightarrow> bytes set" where
  "selected pg c kind items = {t. \<exists>x \<in> set items. \<exists>n. x \<noteq> jbvNull \<and> canonical_text pg c kind x = Some (Some (t, n))}"

lemma add_operands_exact:
  assumes fin: "finished cols st s w im bs" and i: "i < length cols" and heap: "heap_matches pg heap (cols ! i)"
  shows "\<forall>x \<in> set items. x = jbvNull \<or> (\<exists>t. canonical_text pg (cols ! i) kind x = Some (Some t)) \<Longrightarrow>
    \<exists>ds. add_operands pg (opened bs (header_of s w c) cols) heap (of_nat i) kind items bm = Some (True, foldl set_document bm ds) \<and>
      set ds = (\<Union>t \<in> selected pg (cols ! i) kind items. matching_documents st i (kind, t))"
proof (induction items arbitrary: bm)
  case Nil
  show ?case by (rule exI [of _ "[]"]) (simp add: selected_def)
next
  case (Cons x items)
  let ?r = "opened bs (header_of s w c) cols"
  have rest: "\<forall>x \<in> set items. x = jbvNull \<or> (\<exists>t. canonical_text pg (cols ! i) kind x = Some (Some t))" using Cons.prems by simp
  show ?case
  proof (cases "x = jbvNull")
    case True
    then have "selected pg (cols ! i) kind (x # items) = selected pg (cols ! i) kind items" by (simp add: selected_def)
    then show ?thesis using True Cons.IH [OF rest] by simp
  next
    case False
    then obtain t n where t: "canonical_text pg (cols ! i) kind x = Some (Some (t, n))" using Cons.prems by auto
    obtain d1 where one: "evoke_filter_scope_add_operand pg ?r heap (of_nat i) kind x bm = Some (True, foldl set_document bm d1)"
      "set d1 = matching_documents st i (kind, t)" using add_operand_exact [OF fin i heap t] by blast
    obtain d2 where two: "add_operands pg ?r heap (of_nat i) kind items (foldl set_document bm d1) =
        Some (True, foldl set_document (foldl set_document bm d1) d2)"
      "set d2 = (\<Union>t \<in> selected pg (cols ! i) kind items. matching_documents st i (kind, t))" using Cons.IH [OF rest] by blast
    have "selected pg (cols ! i) kind (x # items) = insert t (selected pg (cols ! i) kind items)"
      using t False by (auto simp: selected_def)
    then show ?thesis using False one two by (intro exI [of _ "d1 @ d2"]) simp
  qed
qed


text \<open>
  C34. An equality, \<open>in\<close> or \<open>overlap\<close> filter on a scope column selects exactly the right documents. From the object that was
  serialized, with the index and heap relations the columns were collected for: unless the checksum of the object is zero, its
  header decodes, the reader opens, the column is found by its name, and adding the operands reports no error and sets
  exactly the bits of the documents that have, in that column and with that kind, a value whose text is the
  canonical text of one of the operands.
\<close>

theorem scope_operands_exact:
  assumes "evoke_scope_serialize calloc_ok s document_count (Some columns) column_count (Some vals) value_count
      (Some b) (Some z) = (EVOKE_OK, Some (Some bs), Some n)"
    and "inputs_fit columns column_count vals value_count"
    and "relation_matches rel (take (unat column_count) columns)" "heap_matches pg heap (columns ! i)"
    and "distinct (map (c_string \<circ> name_bytes) (take (unat column_count) columns))"
    and "i < unat column_count" "unat document_count \<le> 8 * length bitmap"
    and "\<forall>x \<in> set items. x = jbvNull \<or> (\<exists>t. canonical_text pg (columns ! i) kind x = Some (Some t))"
  shows "evoke_scope_read_u64 bs 72 = 0 \<or>
    (\<exists>h r bm. evoke_scope_header_deserialize (Some bs) n n s (Some h0) = (EVOKE_OK, Some h) \<and>
       evoke_filter_scope_reader_open rel (Some (bs, h)) = Some (Some r) \<and>
       evoke_filter_scope_find_column r (name_bytes (columns ! i)) = Some i \<and>
       add_operands pg r heap (of_nat i) kind items bitmap = Some (True, bm) \<and>
       (\<forall>d. has_document bm d \<longleftrightarrow> has_document bitmap d \<or>
          (\<exists>v \<in> set (take (unat value_count) vals). sv_column_index v = of_nat i \<and> sv_kind v = kind \<and>
             text_of v \<in> selected pg (columns ! i) kind items \<and> d \<in> set (documents_of v))))"
proof (cases "evoke_read_u64_le bs 72 = 0")
  case False
  let ?cols = "take (unat column_count) columns" and ?st = "map (\<lambda>v. (v, documents_of v)) (take (unat value_count) vals)"
  obtain w im where fin: "finished ?cols ?st s w im bs" and n: "n = of_nat (length bs)" and named: "names_sized ?cols"
    and dc: "sw_document_count w = document_count"
    using scope_serialize_run [OF assms(1,2)] by metis
  let ?h = "header_of s w (evoke_read_u64_le bs 72)" and ?M = "\<lambda>t. matching_documents ?st i (kind, t)"
  have i: "i < length ?cols" "?cols ! i = columns ! i" using assms(2,6) by (simp_all add: inputs_fit_def)
  obtain ds where run: "add_operands pg (opened bs ?h ?cols) heap (of_nat i) kind items bitmap = Some (True, foldl set_document bitmap ds)"
    and ds: "set ds = (\<Union>t \<in> selected pg (columns ! i) kind items. ?M t)"
    using add_operands_exact [OF fin i(1), of pg heap items kind "evoke_read_u64_le bs 72" bitmap] assms(4,8) i(2) by auto
  have match: "d \<in> ?M t \<longleftrightarrow> (\<exists>v \<in> set (take (unat value_count) vals). sv_column_index v = of_nat i \<and> sv_kind v = kind \<and>
      text_of v = t \<and> d \<in> set (documents_of v))" for d t
    by (auto simp: matching_documents_def)
  have "unat d div 8 < length bitmap" if d: "d \<in> set ds" for d
  proof -
    obtain x where "x \<in> set ?st" "d \<in> set (snd x)" using d unfolding ds matching_documents_def by blast
    then obtain k where "k < length ?st" "?st ! k = x" unfolding in_set_conv_nth by blast
    with \<open>d \<in> set (snd x)\<close> have "d < document_count" using entry_numbers(7) [OF fin, of k] dc by (cases "?st ! k") (auto simp: value_checked_def)
    then show ?thesis using assms(7) by (simp add: word_less_nat_alt less_mult_imp_div_less mult.commute)
  qed
  then have "has_document (foldl set_document bitmap ds) d \<longleftrightarrow> has_document bitmap d \<or> d \<in> set ds" for d
    using has_set_documents by blast
  moreover have "d \<in> set ds \<longleftrightarrow>
      (\<exists>v \<in> set (take (unat value_count) vals). sv_column_index v = of_nat i \<and> sv_kind v = kind \<and>
         text_of v \<in> selected pg (columns ! i) kind items \<and> d \<in> set (documents_of v))" for d
    unfolding ds UN_iff match by blast
  ultimately show ?thesis
    using decode_header(1) [OF fin False, of h0] reader_open_ok [OF fin named assms(3)]
      find_column_ok [OF fin i(1) assms(5)] run n i(2) by auto
qed simp

section \<open>A filter on the small object\<close>

definition sample_relation :: index_relation where
  "sample_relation = \<lparr>ir_indnatts = 2, ir_indnkeyatts = 1, ir_attributes = [(False, 25), (False, 25)]\<rparr>"

definition sample_heap :: "heap_attribute list" where
  "sample_heap = replicate 3 \<lparr>ha_attisdropped = False, ha_atttypid = 25, ha_attcollation = 100, ha_atttypmod = 0xFFFFFFFF\<rparr>"

definition sample_types :: "(nat, bytes) pg_types" where
  "sample_types = \<lparr>pg_base_type = \<lambda>t. t, pg_element_type = \<lambda>_. 0, pg_numeric_output = \<lambda>n. replicate n 0x31,
     pg_input = \<lambda>_ t _. Some t, pg_output = \<lambda>_ t. t\<rparr>"

theorem scope_operands_exact_witness:
  "\<exists>bs n. evoke_scope_serialize True 7 5 (Some [sample_column]) 1 (Some sample_values) 2 (Some None) (Some 0) =
       (EVOKE_OK, Some (Some bs), Some n) \<and>
     (evoke_scope_read_u64 bs 72 = 0 \<or>
      (\<exists>h r bm. evoke_filter_scope_reader_open sample_relation (Some (bs, h)) = Some (Some r) \<and>
         add_operands sample_types r sample_heap (of_nat 0) EVOKE_SCOPE_VALUE_SCALAR [jbvNull, jbvString [0x61, 0x62, 0x63]] [0] = Some (True, bm) \<and>
         has_document bm 4 \<and> \<not> has_document bm 0))"
proof -
  obtain bs n where run: "evoke_scope_serialize True 7 5 (Some [sample_column]) 1 (Some sample_values) 2 (Some None) (Some 0) =
      (EVOKE_OK, Some (Some bs), Some n)" using sample_object by blast
  let ?items = "[jbvNull, jbvString [0x61, 0x62, 0x63]]"
  have t: "canonical_text sample_types sample_column EVOKE_SCOPE_VALUE_SCALAR (jbvString [0x61, 0x62, 0x63]) =
      Some (Some ([0x61, 0x62, 0x63], 3))"
    by (simp add: canonical_text_def evoke_filter_scope_canonical_value_def evoke_filter_scope_type_supported_def sample_types_def
        sample_column_def EVOKE_SCOPE_VALUE_SCALAR_def EVOKE_SCOPE_VALUE_ARRAY_ELEMENT_def EVOKE_FILTER_SCOPE_MAX_VALUE_BYTES_def Let_def)
  then have sel: "selected sample_types ([sample_column] ! 0) EVOKE_SCOPE_VALUE_SCALAR ?items = {[0x61, 0x62, 0x63]}"
    by (auto simp: selected_def)
  have rel: "relation_matches sample_relation (take (unat (1 :: u32)) [sample_column])"
    by (simp add: relation_matches_def sample_relation_def sample_column_def MaxAllocSize_def u64_of_u32_def)
  have heap: "heap_matches sample_types sample_heap ([sample_column] ! 0)"
    by (simp add: heap_matches_def sample_types_def sample_heap_def sample_column_def)
  have parts: "text_of (sample_value [0x61, 0x62, 0x63] [1, 4]) = [0x61, 0x62, 0x63]" "text_of (sample_value [0x61, 0x63] [0]) = [0x61, 0x63]"
    "documents_of (sample_value [0x61, 0x62, 0x63] [1, 4]) = [1, 4]"
    "sv_column_index (sample_value t d) = 0" "sv_kind (sample_value t d) = EVOKE_SCOPE_VALUE_SCALAR" for t d
    by (simp_all add: text_of_def sized_bytes_def sample_value_def documents_of_def)
  let ?sel = "\<lambda>d. \<exists>v \<in> set (take (unat (2 :: u32)) sample_values). sv_column_index v = of_nat 0 \<and> sv_kind v = EVOKE_SCOPE_VALUE_SCALAR \<and>
      text_of v \<in> selected sample_types ([sample_column] ! 0) EVOKE_SCOPE_VALUE_SCALAR ?items \<and> d \<in> set (documents_of v)"
  have answer: "has_document bm 4 \<and> \<not> has_document bm 0" if "\<forall>d. has_document bm d \<longleftrightarrow> has_document [0] d \<or> ?sel d" for bm
    using spec [OF that, of 4] spec [OF that, of 0] unfolding sel by (simp add: parts has_document_def)
  have "evoke_scope_read_u64 bs 72 = 0 \<or>
    (\<exists>h r bm. evoke_scope_header_deserialize (Some bs) n n 7 (Some zero_scope_header) = (EVOKE_OK, Some h) \<and>
       evoke_filter_scope_reader_open sample_relation (Some (bs, h)) = Some (Some r) \<and>
       evoke_filter_scope_find_column r (name_bytes ([sample_column] ! 0)) = Some 0 \<and>
       add_operands sample_types r sample_heap (of_nat 0) EVOKE_SCOPE_VALUE_SCALAR ?items [0] = Some (True, bm) \<and>
       (\<forall>d. has_document bm d \<longleftrightarrow> has_document [0] d \<or> ?sel d))"
    by (rule scope_operands_exact [OF run sample_fits rel heap]) (use t in simp_all)
  then show ?thesis using run answer by blast
qed

end
