(* ===== verification/Scope_Pruning.thy ===== *)
theory Scope_Pruning
  imports Scope_Filter
begin

unbundle bit_operations_syntax

text \<open>
  The trigram tests of \<open>src/evoke_filter.c\<close> on a serialized scope object: whatever blocks were tested before, the cached reader
  hands out the filter of a block, and no value that matches a pattern is skipped.
\<close>

section \<open>The cache of filter blocks\<close>

abbreviation block_count_of :: "evoke_scope_writer \<Rightarrow> nat" where
  "block_count_of w \<equiv> (unat (sw_value_count w) + 255) div 256"

definition cache_ok :: "evoke_scope_writer \<Rightarrow> evoke_filter_scope_gram_reader \<Rightarrow> bool" where
  "cache_ok w g \<longleftrightarrow>
     (\<forall>cached. gr_cache g = Some cached \<longrightarrow>
        cached = take (1024 * unat (gr_cache_block_count g))
          (drop (unat (sw_gram_filter_offset w) + 1024 * unat (gr_cache_first_block g)) (fr_object (gr_scope g))) \<and>
        unat (gr_cache_first_block g) + unat (gr_cache_block_count g) \<le> block_count_of w)"

abbreviation filter_bytes_of :: "evoke_scope_writer \<Rightarrow> bytes \<Rightarrow> nat \<Rightarrow> bytes" where
  "filter_bytes_of w bs b \<equiv> take 1024 (drop (unat (sw_gram_filter_offset w) + 1024 * b) bs)"

lemma block_count_small: "block_count_of w \<le> 16777216"
proof -
  have "unat (sw_value_count w) + 255 \<le> 4294967550" using u32_less [of "sw_value_count w"] by linarith
  from div_le_mono [OF this, of 256] show ?thesis by simp
qed

lemma cached_block:
  assumes "cached = take (1024 * n) (drop (at + 1024 * first) bs)" "first \<le> b" "b < first + n"
  shows "take 1024 (drop ((b - first) * 1024) cached) = take 1024 (drop (at + 1024 * b) bs)"
proof -
  have "1024 * n - (b - first) * 1024 \<ge> 1024"
  proof -
    have "(b - first) * 1024 + 1024 \<le> 1024 * n" using assms(2,3) by (simp add: algebra_simps)
    then show ?thesis by linarith
  qed
  moreover have "(b - first) * 1024 + (at + 1024 * first) = at + 1024 * b" using assms(2) by (simp add: algebra_simps)
  ultimately show ?thesis using assms(1) by (simp only: drop_take take_take drop_drop min_absorb1)
qed

lemma gram_reader_block_ok:
  assumes r: "reads_object cols st w (gr_scope g)" and ok: "cache_ok w g"
  shows "unat b < block_count_of w \<Longrightarrow>
      \<exists>g'. evoke_filter_scope_gram_reader_block g b = Some (filter_bytes_of w (fr_object (gr_scope g)) (unat b), g') \<and>
        gr_scope g' = gr_scope g \<and> cache_ok w g'"
    and "\<not> unat b < block_count_of w \<Longrightarrow> evoke_filter_scope_gram_reader_block g b = None"
proof -
  obtain s c im where fin: "finished cols st s w im (fr_object (gr_scope g))" and h: "fr_header (gr_scope g) = header_of s w c"
    using r by (rule reads_objectE)
  note lay = layout_okD [OF writer_okD(2) [OF finishedD(1) [OF fin]]]
  let ?total = "if sw_value_count w = 0 then 0 else (u64_of_u32 (sw_value_count w) + 256 - 1) div 256 :: u64"
  have total: "unat ?total = block_count_of w" using unat_blocks [of "sw_value_count w"] by (simp add: add.commute)
  have heads: "sh_value_count (fr_header (gr_scope g)) = sw_value_count w" "sh_gram_filter_offset (fr_header (gr_scope g)) = sw_gram_filter_offset w"
    using h by (simp_all add: header_of_def)
  note run = evoke_filter_scope_gram_reader_block_def [of g b] Let_def scope_consts EVOKE_FILTER_SCOPE_GRAM_CACHE_BLOCKS_def
    of_nat_numeral heads
  show "\<not> unat b < block_count_of w \<Longrightarrow> evoke_filter_scope_gram_reader_block g b = None"
    unfolding run using total by (simp add: word_le_nat_alt not_less)
  assume b: "unat b < block_count_of w"
  then have inside: "\<not> u64_of_u32 b \<ge> ?total" using total by (simp add: word_le_nat_alt)
  let ?hit = "\<not> (gr_cache g = None \<or> b < gr_cache_first_block g \<or> b \<ge> gr_cache_first_block g + gr_cache_block_count g)"
  show "\<exists>g'. evoke_filter_scope_gram_reader_block g b = Some (filter_bytes_of w (fr_object (gr_scope g)) (unat b), g') \<and>
      gr_scope g' = gr_scope g \<and> cache_ok w g'"
  proof (cases ?hit)
    case True
    then obtain cached where cached: "gr_cache g = Some cached" by auto
    then have c: "cached = take (1024 * unat (gr_cache_block_count g))
          (drop (unat (sw_gram_filter_offset w) + 1024 * unat (gr_cache_first_block g)) (fr_object (gr_scope g)))"
      "unat (gr_cache_first_block g) + unat (gr_cache_block_count g) \<le> block_count_of w"
      using ok by (simp_all add: cache_ok_def)
    have sum: "unat (gr_cache_first_block g + gr_cache_block_count g) = unat (gr_cache_first_block g) + unat (gr_cache_block_count g)"
      using c(2) block_count_small [of w] by (intro unat_add_u32) linarith
    have lo: "gr_cache_first_block g \<le> b" and range: "unat (gr_cache_first_block g) \<le> unat b"
        "unat b < unat (gr_cache_first_block g) + unat (gr_cache_block_count g)"
      using True sum by (auto simp: word_le_nat_alt word_less_nat_alt)
    have "take 1024 (drop (unat (b - gr_cache_first_block g) * 1024) cached) = filter_bytes_of w (fr_object (gr_scope g)) (unat b)"
      using cached_block [OF c(1) range] unat_sub_word [OF lo] by simp
    then show ?thesis using True inside cached ok unfolding run by simp
  next
    case False
    let ?first = "b - b mod 256"
    have fb: "unat (b mod 256) = unat b mod 256" by (simp add: unat_mod)
    have "b mod 256 \<le> b" by (simp add: word_le_nat_alt fb)
    then have first: "unat ?first = unat b - unat b mod 256" by (simp add: unat_sub_word fb)
    then have fle: "unat ?first \<le> unat b" "unat b < unat ?first + 256" by (simp_all add: mod_less_divisor)
    let ?n64 = "min 256 (?total - u64_of_u32 ?first)"
    have le: "u64_of_u32 ?first \<le> ?total" using total b fle(1) by (simp add: word_le_nat_alt)
    have n64: "unat ?n64 = min 256 (block_count_of w - unat ?first)"
    proof -
      have "unat (?total - u64_of_u32 ?first) = block_count_of w - unat ?first" unfolding unat_sub_word [OF le] total by simp
      then show ?thesis by (simp add: min_def word_le_nat_alt)
    qed
    define n where "n = (ucast ?n64 :: u32)"
    have n: "unat n = min 256 (block_count_of w - unat ?first)"
    proof -
      have "unat n = unat ?n64" unfolding n_def by (rule unat_ucast_u64_u32) (use n64 in simp)
      then show ?thesis using n64 by simp
    qed
    have cover: "unat ?first + unat n \<le> block_count_of w" "unat b < unat ?first + unat n" using n b fle by (auto simp: min_def)
    let ?off = "sw_gram_filter_offset w + u64_of_u32 ?first * 1024" and ?len = "u64_of_u32 n * 1024"
    have room: "unat (sw_gram_filter_offset w) + 1024 * unat ?first + 1024 * unat n \<le> length (fr_object (gr_scope g))"
      using cover(1) lay(4,6) finished_bytes(1) [OF fin] by simp
    have small: "1024 * unat ?first < 18446744073709551616" "1024 * unat n < 18446744073709551616"
      using cover(1) block_count_small [of w] by linarith+
    have words: "unat (u64_of_u32 ?first * 1024) = 1024 * unat ?first" "unat ?len = 1024 * unat n"
      using small by (simp_all add: unat_word_ariths)
    then have off: "unat ?off = unat (sw_gram_filter_offset w) + 1024 * unat ?first"
      using room finished_bytes(1) [OF fin] u64_less [of "sw_total_size w"] by (subst unat_add_u64) (simp_all del: u64_less)
    have rd: "evoke_filter_scope_read (Some (gr_scope g)) ?off ?len =
        Some (take (1024 * unat n) (drop (unat (sw_gram_filter_offset w) + 1024 * unat ?first) (fr_object (gr_scope g))))"
      using filter_read [OF r, of ?off ?len] room unfolding off words by blast
    let ?c = "take (1024 * unat n) (drop (unat (sw_gram_filter_offset w) + 1024 * unat ?first) (fr_object (gr_scope g)))"
    let ?g = "g\<lparr>gr_cache := Some ?c, gr_cache_first_block := ?first, gr_cache_block_count := n\<rparr>"
    have "take 1024 (drop (unat (b - ?first) * 1024) ?c) = filter_bytes_of w (fr_object (gr_scope g)) (unat b)"
      using cached_block [OF refl fle(1) cover(2), of "unat (sw_gram_filter_offset w)" "fr_object (gr_scope g)"]
        unat_sub_word [of ?first b] fle(1) by (simp add: word_le_nat_alt)
    moreover have "cache_ok w ?g" using cover(1) by (simp add: cache_ok_def)
    moreover have "evoke_filter_scope_gram_reader_block g b = Some (take 1024 (drop (unat (b - ?first) * 1024) ?c), ?g)"
      using False inside rd unfolding run n_def [symmetric] by auto
    ultimately show ?thesis by simp
  qed
qed


text \<open>The gram readers a scan can reach: a fresh one, and one after any further test of a block.\<close>

inductive gram_reader_run :: "evoke_filter_scope_reader \<Rightarrow> evoke_filter_scope_gram_reader \<Rightarrow> bool" for r where
  fresh: "gram_reader_run r \<lparr>gr_scope = r, gr_cache = None, gr_cache_first_block = 0, gr_cache_block_count = 0\<rparr>"
| tested: "gram_reader_run r g \<Longrightarrow> evoke_filter_scope_gram_block_matches g block patterns = Some (found, g') \<Longrightarrow> gram_reader_run r g'"

lemma gram_reader_run_ok:
  assumes "gram_reader_run r g" "reads_object cols st w r"
  shows "gr_scope g = r \<and> cache_ok w g"
  using assms
proof induction
  case fresh
  then show ?case by (simp add: cache_ok_def)
next
  case (tested g block patterns found g')
  then have g: "gr_scope g = r" "cache_ok w g" by blast+
  then have r: "reads_object cols st w (gr_scope g)" using tested.prems by simp
  obtain f where f: "evoke_filter_scope_gram_reader_block g block = Some (f, g')"
    using tested.hyps(2) by (auto simp: evoke_filter_scope_gram_block_matches_def split: option.splits)
  then have "unat block < block_count_of w" using gram_reader_block_ok(2) [OF r g(2), of block] by fastforce
  then show ?case using gram_reader_block_ok(1) [OF r g(2), of block] f g(1) by auto
qed

section \<open>No match is skipped\<close>

lemma finished_filter:
  assumes fin: "finished cols st s w im bs" and b: "b < block_count_of w"
  shows "filter_bytes_of w bs b = block_filter (replicate 1024 0) (block_inputs st b)"
proof -
  note inv = writer_okD [OF finishedD(1) [OF fin]]
  note lay = layout_okD [OF inv(2)]
  have n: "b < length (im_filters im)" using b lay(1) by (simp add: sized_def)
  obtain rest where "drop (unat (sw_gram_filter_offset w) + 1024 * b) (flat im) = im_filters im ! b @ rest"
    using drop_filter [OF lay(1) b] lay(4) by auto
  moreover have "drop (unat (sw_gram_filter_offset w) + 1024 * b) bs = drop (unat (sw_gram_filter_offset w) + 1024 * b) (flat im)"
    by (rule drop_same [OF fin]) (use lay(4) in simp)
  moreover have "length (im_filters im ! b) = 1024" using chunks_nth [OF _ n] lay(1) by (simp add: sized_def)
  ultimately have "filter_bytes_of w bs b = im_filters im ! b" by simp
  then show ?thesis using inv(6) n by (simp add: filters_ok_def)
qed

lemma gram_inputs_in_block:
  assumes "j < length st" "x \<in> set (gram_inputs (fst (st ! j)))"
  shows "x \<in> set (block_inputs st (j div 256))"
proof -
  have "take 256 (drop (256 * (j div 256)) st) ! (j mod 256) = st ! j" "j mod 256 < length (take 256 (drop (256 * (j div 256)) st))"
    using assms(1) by (simp_all add: mult_div_mod_eq less_diff_conv add.commute)
  then have "st ! j \<in> set (take 256 (drop (256 * (j div 256)) st))" by (metis nth_mem)
  then show ?thesis using assms(2) unfolding block_inputs_def set_concat set_map by fastforce
qed

lemma mask_of_input: "(t, folded) \<in> set (gram_inputs v) \<Longrightarrow> mask_of v = value_mask (replicate 1024 0) t folded"
  by (auto simp: gram_inputs_def mask_of_def split: if_splits)

text \<open>
  C35. Trigram pruning never loses a match. Take a value of a serialized object and a pattern it matches (or a value with bytes outside
  ASCII that was not folded, which may match by rules of a collation). Unless the checksum of the object is zero its
  header decodes, and for every reader of the object, whatever blocks its cache was used for before, the entry of the value passes
  the test of its mask and its block passes the test of the block filter, without an error.
\<close>

theorem scope_pruning_keeps_matches:
  assumes "evoke_scope_serialize calloc_ok s document_count (Some columns) column_count (Some vals) value_count
      (Some b) (Some z) = (EVOKE_OK, Some (Some bs), Some n)"
    and "inputs_fit columns column_count vals value_count" and "j < unat value_count"
    and "(t, folded) \<in> set (gram_inputs (vals ! j))" "like_match pattern t \<or> saturates t folded"
    and "snd (evoke_filter_scope_pattern_grams_build pattern) \<in> set patterns"
  shows "evoke_scope_read_u64 bs 72 = 0 \<or>
    (\<exists>h. evoke_scope_header_deserialize (Some bs) n n s (Some h0) = (EVOKE_OK, Some h) \<and>
       (\<forall>r g. fr_object r = bs \<longrightarrow> fr_header r = h \<longrightarrow> gram_reader_run r g \<longrightarrow>
          (\<exists>e g'. evoke_filter_scope_read_value_entry r (of_nat j) = Some e \<and> evoke_filter_scope_value_gram_matches e patterns \<and>
             evoke_filter_scope_gram_block_matches g (of_nat (j div 256)) patterns = Some (True, g'))))"
proof (cases "evoke_read_u64_le bs 72 = 0")
  case False
  let ?cols = "take (unat column_count) columns" and ?st = "map (\<lambda>v. (v, documents_of v)) (take (unat value_count) vals)"
  obtain w im where fin: "finished ?cols ?st s w im bs" and n: "n = of_nat (length bs)"
    using scope_serialize_run [OF assms(1,2)] by metis
  have j: "j < length ?st" "fst (?st ! j) = vals ! j" using assms(2,3) by (simp_all add: inputs_fit_def)
  let ?h = "header_of s w (evoke_read_u64_le bs 72)" and ?e = "entry_of ?cols ?st j" and ?b = "j div 256"
  have jw: "j < unat (sw_value_count w)" using j(1) unfolding finished_sizes(2) [OF fin] .
  then have blk: "?b < block_count_of w" by linarith
  have ub: "unat (of_nat ?b :: u32) = ?b" by (rule u32_of_nat) (use blk block_count_small [of w] in simp)
  have keep: "gram_mask_matches (value_mask (replicate 1024 0) t folded) patterns"
    "gram_filter_matches (block_filter (replicate 1024 0) (block_inputs ?st ?b)) patterns"
    using pruning_keeps [OF assms(5) _ gram_inputs_in_block [OF j(1)] assms(6), of "replicate 1024 0"] assms(4) j(2) by simp_all
  have "\<exists>e g'. evoke_filter_scope_read_value_entry r (of_nat j) = Some e \<and> evoke_filter_scope_value_gram_matches e patterns \<and>
      evoke_filter_scope_gram_block_matches g (of_nat ?b) patterns = Some (True, g')"
    if r: "fr_object r = bs" "fr_header r = ?h" "gram_reader_run r g" for r g
  proof -
    have reads: "reads_object ?cols ?st w r" using fin r(1,2) by (auto simp: reads_object_def)
    have g: "gr_scope g = r" "cache_ok w g" using gram_reader_run_ok [OF r(3) reads] by simp_all
    obtain g' where "evoke_filter_scope_gram_reader_block g (of_nat ?b) = Some (filter_bytes_of w bs ?b, g')"
      using gram_reader_block_ok(1) [of ?cols ?st w g "of_nat ?b"] g reads blk ub r(1) by auto
    then have "evoke_filter_scope_gram_block_matches g (of_nat ?b) patterns = Some (True, g')"
      using keep(2) finished_filter [OF fin blk] by (simp add: evoke_filter_scope_gram_block_matches_def)
    moreover have "evoke_filter_scope_value_gram_matches ?e patterns"
      using keep(1) mask_of_input [OF assms(4)] j(2) by (simp add: evoke_filter_scope_value_gram_matches_def entry_of_fields)
    ultimately show ?thesis using filter_read_entry [OF reads j(1)] by blast
  qed
  then show ?thesis using decode_header(1) [OF fin False, of h0] n by (intro disjI2 exI [of _ ?h]) simp
qed simp

theorem scope_pruning_keeps_matches_witness:
  "\<exists>bs n. evoke_scope_serialize True 7 5 (Some [sample_column]) 1 (Some sample_values) 2 (Some None) (Some 0) =
       (EVOKE_OK, Some (Some bs), Some n) \<and>
     (evoke_scope_read_u64 bs 72 = 0 \<or>
      (\<exists>h g'. evoke_scope_header_deserialize (Some bs) n n 7 (Some zero_scope_header) = (EVOKE_OK, Some h) \<and>
         evoke_filter_scope_gram_block_matches
           \<lparr>gr_scope = \<lparr>fr_object = bs, fr_header = h, fr_columns = [], fr_column_names = []\<rparr>, gr_cache = None,
            gr_cache_first_block = 0, gr_cache_block_count = 0\<rparr> (of_nat (0 div 256))
           [snd (evoke_filter_scope_pattern_grams_build [0x25, 0x41, 0x42, 0x43])] = Some (True, g')))"
proof -
  obtain bs n where run: "evoke_scope_serialize True 7 5 (Some [sample_column]) 1 (Some sample_values) 2 (Some None) (Some 0) =
      (EVOKE_OK, Some (Some bs), Some n)" using sample_object by blast
  let ?p = "[0x25, 0x41, 0x42, 0x43] :: bytes"
  have gram: "([0x61, 0x62, 0x63], False) \<in> set (gram_inputs (sample_values ! 0))"
    by (simp add: gram_inputs_def sample_value_def text_of_def sized_bytes_def)
  have like: "like_match ?p [0x61, 0x62, 0x63] \<or> saturates [0x61, 0x62, 0x63] False" by (rule disjI1) code_simp
  have "evoke_scope_read_u64 bs 72 = 0 \<or>
    (\<exists>h. evoke_scope_header_deserialize (Some bs) n n 7 (Some zero_scope_header) = (EVOKE_OK, Some h) \<and>
       (\<forall>r g. fr_object r = bs \<longrightarrow> fr_header r = h \<longrightarrow> gram_reader_run r g \<longrightarrow>
          (\<exists>e g'. evoke_filter_scope_read_value_entry r (of_nat 0) = Some e \<and>
             evoke_filter_scope_value_gram_matches e [snd (evoke_filter_scope_pattern_grams_build ?p)] \<and>
             evoke_filter_scope_gram_block_matches g (of_nat (0 div 256)) [snd (evoke_filter_scope_pattern_grams_build ?p)] = Some (True, g'))))"
    by (rule scope_pruning_keeps_matches [OF run sample_fits _ gram like]) simp_all
  then show ?thesis
  proof (elim disjE exE conjE)
    fix h assume h: "evoke_scope_header_deserialize (Some bs) n n 7 (Some zero_scope_header) = (EVOKE_OK, Some h)"
      and keep: "\<forall>r g. fr_object r = bs \<longrightarrow> fr_header r = h \<longrightarrow> gram_reader_run r g \<longrightarrow>
          (\<exists>e g'. evoke_filter_scope_read_value_entry r (of_nat 0) = Some e \<and>
             evoke_filter_scope_value_gram_matches e [snd (evoke_filter_scope_pattern_grams_build ?p)] \<and>
             evoke_filter_scope_gram_block_matches g (of_nat (0 div 256)) [snd (evoke_filter_scope_pattern_grams_build ?p)] = Some (True, g'))"
    let ?r = "\<lparr>fr_object = bs, fr_header = h, fr_columns = [], fr_column_names = []\<rparr>"
    from keep [rule_format, OF _ _ gram_reader_run.fresh, of ?r] show ?thesis using run h by auto
  qed (use run in blast)
qed

end
