(* ===== verification/Scheduler.thy ===== *)
theory Scheduler
  imports Prelude
begin

unbundle bit_operations_syntax

text \<open>
  The shared scheduler state of \<open>src/evoke_am_scheduler.c\<close>: the table of work hints, the table of catalog reconciliations and
  the counters of background workers. Every operation is one critical section under the scheduler's lock (or an atomic
  read or write), so that an operation is a function from state to state and concurrency is the order of the
  operations.

  \<open>None\<close> for the state is a scheduler that is not available. The database of the calling process (\<open>MyDatabaseId\<close>) and the
  clock (\<open>GetCurrentTimestamp\<close>) are arguments, as are \<open>TimestampDifferenceExceeds\<close> and \<open>RecoveryInProgress\<close> of the server.
  An outcome is the result, \<open>None\<close> for \<open>ereport(ERROR)\<close>, with the state the call leaves in shared memory. Times are
  integers.
\<close>

section \<open>State\<close>

definition EVOKE_AM_WORK_HINT_CAPACITY :: nat where "EVOKE_AM_WORK_HINT_CAPACITY = 4096"
definition EVOKE_AM_RECONCILE_DB_CAPACITY :: nat where "EVOKE_AM_RECONCILE_DB_CAPACITY = 256"
definition EVOKE_AM_CATALOG_RECONCILE_INTERVAL_MS :: int where "EVOKE_AM_CATALOG_RECONCILE_INTERVAL_MS = 300000"
definition EVOKE_AM_STANDBY_PRELOAD_RECONCILE_INTERVAL_MS :: int where "EVOKE_AM_STANDBY_PRELOAD_RECONCILE_INTERVAL_MS = 5000"
definition EVOKE_AM_WORKER_LAUNCH_RESERVATION_TIMEOUT_MS :: int where "EVOKE_AM_WORKER_LAUNCH_RESERVATION_TIMEOUT_MS = 30000"
definition EVOKE_AM_WORK_HINT_MAINTENANCE :: u8 where "EVOKE_AM_WORK_HINT_MAINTENANCE = 1"
definition EVOKE_AM_WORK_HINT_PRELOAD :: u8 where "EVOKE_AM_WORK_HINT_PRELOAD = 2"
definition PG_INT64_MAX :: int where "PG_INT64_MAX = 9223372036854775807"

lemmas scheduler_consts = EVOKE_AM_WORK_HINT_CAPACITY_def EVOKE_AM_RECONCILE_DB_CAPACITY_def
  EVOKE_AM_WORK_HINT_MAINTENANCE_def EVOKE_AM_WORK_HINT_PRELOAD_def

record evoke_am_scheduler_work_hint =
  wh_database_oid :: u32
  wh_index_oid :: u32
  wh_flags :: u8
  wh_sequence :: u64
  wh_maintenance_first_marked_at :: int
  wh_accelerator_retry_after :: int

record evoke_am_scheduler_reconcile_db =
  rd_database_oid :: u32
  rd_maintenance_last_served_index_oid :: u32
  rd_requested_flags :: u8
  rd_running_flags :: u8
  rd_maintenance_completed_at :: int
  rd_preload_completed_at :: int
  rd_maintenance_count :: u64
  rd_maintenance_last_rows :: u64
  rd_maintenance_last_duration_us :: u64
  rd_maintenance_max_duration_us :: u64
  rd_maintenance_service_count :: u64
  rd_preload_count :: u64
  rd_preload_last_rows :: u64
  rd_preload_last_duration_us :: u64
  rd_preload_max_duration_us :: u64
  rd_last_access_counter :: u64

record evoke_am_scheduler_control =
  sc_active_background_workers :: u32
  sc_pending_maintenance_worker_launches :: u32
  sc_active_preload_workers :: u32
  sc_active_index_maintenance_workers :: u32
  sc_maintenance_worker_limit :: u32
  sc_last_maintenance_db_oid :: u32
  sc_last_maintenance_cycle :: int
  sc_last_maintenance_worker_launch :: int
  sc_work_hint_sequence :: u64
  sc_work_hint_overflows :: u64
  sc_work_hints_consumed :: u64
  sc_reconcile_access_clock :: u64
  sc_work_hints :: "evoke_am_scheduler_work_hint list"
  sc_reconcile_dbs :: "evoke_am_scheduler_reconcile_db list"

type_synonym scheduler = "evoke_am_scheduler_control option"
type_synonym 'a outcome = "'a option \<times> scheduler"

definition zero_hint :: evoke_am_scheduler_work_hint where
  "zero_hint = \<lparr>wh_database_oid = 0, wh_index_oid = 0, wh_flags = 0, wh_sequence = 0,
     wh_maintenance_first_marked_at = 0, wh_accelerator_retry_after = 0\<rparr>"

definition zero_reconcile_db :: evoke_am_scheduler_reconcile_db where
  "zero_reconcile_db = \<lparr>rd_database_oid = 0, rd_maintenance_last_served_index_oid = 0, rd_requested_flags = 0, rd_running_flags = 0,
     rd_maintenance_completed_at = 0, rd_preload_completed_at = 0, rd_maintenance_count = 0, rd_maintenance_last_rows = 0,
     rd_maintenance_last_duration_us = 0, rd_maintenance_max_duration_us = 0, rd_maintenance_service_count = 0,
     rd_preload_count = 0, rd_preload_last_rows = 0, rd_preload_last_duration_us = 0, rd_preload_max_duration_us = 0,
     rd_last_access_counter = 0\<rparr>"

text \<open>The state as \<open>evoke_am_scheduler_shmem_startup\<close> sets it up: all bytes zero, and the worker limit.\<close>

definition evoke_am_scheduler_shmem_startup :: "u32 \<Rightarrow> scheduler" where
  "evoke_am_scheduler_shmem_startup maintenance_worker_limit =
     Some \<lparr>sc_active_background_workers = 0, sc_pending_maintenance_worker_launches = 0, sc_active_preload_workers = 0,
        sc_active_index_maintenance_workers = 0, sc_maintenance_worker_limit = maintenance_worker_limit,
        sc_last_maintenance_db_oid = 0, sc_last_maintenance_cycle = 0, sc_last_maintenance_worker_launch = 0,
        sc_work_hint_sequence = 0, sc_work_hint_overflows = 0, sc_work_hints_consumed = 0, sc_reconcile_access_clock = 0,
        sc_work_hints = replicate EVOKE_AM_WORK_HINT_CAPACITY zero_hint,
        sc_reconcile_dbs = replicate EVOKE_AM_RECONCILE_DB_CAPACITY zero_reconcile_db\<rparr>"

definition evoke_am_scheduler_valid_work_class :: "u8 \<Rightarrow> bool" where
  "evoke_am_scheduler_valid_work_class flag \<longleftrightarrow> flag = EVOKE_AM_WORK_HINT_MAINTENANCE \<or> flag = EVOKE_AM_WORK_HINT_PRELOAD"

definition evoke_am_scheduler_worker_limit :: "scheduler \<Rightarrow> u32" where
  "evoke_am_scheduler_worker_limit sched = (case sched of None \<Rightarrow> 0 | Some c \<Rightarrow> sc_maintenance_worker_limit c)"

definition evoke_am_scheduler_set_worker_limit :: "scheduler \<Rightarrow> u32 \<Rightarrow> scheduler" where
  "evoke_am_scheduler_set_worker_limit sched limit = map_option (\<lambda>c. c\<lparr>sc_maintenance_worker_limit := limit\<rparr>) sched"

definition evoke_am_scheduler_note_maintenance_cycle :: "int \<Rightarrow> scheduler \<Rightarrow> scheduler" where
  "evoke_am_scheduler_note_maintenance_cycle now sched = map_option (\<lambda>c. c\<lparr>sc_last_maintenance_cycle := now\<rparr>) sched"

definition evoke_am_scheduler_last_maintenance_db_oid :: "scheduler \<Rightarrow> u32" where
  "evoke_am_scheduler_last_maintenance_db_oid sched = (case sched of None \<Rightarrow> 0 | Some c \<Rightarrow> sc_last_maintenance_db_oid c)"

definition evoke_am_scheduler_set_last_maintenance_db_oid :: "scheduler \<Rightarrow> u32 \<Rightarrow> scheduler" where
  "evoke_am_scheduler_set_last_maintenance_db_oid sched database_oid =
     map_option (\<lambda>c. c\<lparr>sc_last_maintenance_db_oid := database_oid\<rparr>) sched"

section \<open>Catalog reconciliation\<close>

text \<open>
  The loop over the entries: the entry of the database, the first free entry, and the idle entry that was used
  least recently. The result of the whole is the index of an entry; \<open>create\<close> resets an entry of another database.
\<close>

fun reconcile_scan ::
  "u32 \<Rightarrow> evoke_am_scheduler_reconcile_db list \<Rightarrow> nat list \<Rightarrow> nat option \<Rightarrow> nat option \<Rightarrow> nat option" where
  "reconcile_scan database_oid dbs [] free_entry oldest = (case free_entry of Some f \<Rightarrow> Some f | None \<Rightarrow> oldest)"
| "reconcile_scan database_oid dbs (i # rest) free_entry oldest =
     (let candidate = dbs ! i
      in if rd_database_oid candidate = database_oid then Some i
         else if rd_database_oid candidate = 0
         then reconcile_scan database_oid dbs rest (if free_entry = None then Some i else free_entry) oldest
         else if rd_running_flags candidate = 0 \<and>
                 (case oldest of None \<Rightarrow> True | Some j \<Rightarrow> rd_last_access_counter candidate < rd_last_access_counter (dbs ! j))
         then reconcile_scan database_oid dbs rest free_entry (Some i)
         else reconcile_scan database_oid dbs rest free_entry oldest)"

definition evoke_am_scheduler_reconcile_db_locked ::
  "evoke_am_scheduler_control \<Rightarrow> u32 \<Rightarrow> bool \<Rightarrow> nat option \<times> evoke_am_scheduler_control" where
  "evoke_am_scheduler_reconcile_db_locked c database_oid create =
     (case reconcile_scan database_oid (sc_reconcile_dbs c) [0..<length (sc_reconcile_dbs c)] None None of
        None \<Rightarrow> (None, c)
      | Some i \<Rightarrow>
          (Some i,
           if create \<and> rd_database_oid (sc_reconcile_dbs c ! i) \<noteq> database_oid
           then c\<lparr>sc_reconcile_dbs := (sc_reconcile_dbs c)[i := zero_reconcile_db\<lparr>rd_database_oid := database_oid\<rparr>]\<rparr>
           else c))"

definition evoke_am_scheduler_reconcile_touch_locked ::
  "evoke_am_scheduler_control \<Rightarrow> nat \<Rightarrow> evoke_am_scheduler_control" where
  "evoke_am_scheduler_reconcile_touch_locked c entry =
     (let c = (if sc_reconcile_access_clock c = UINT64_MAX
               then c\<lparr>sc_reconcile_dbs := map (\<lambda>e. e\<lparr>rd_last_access_counter := 0\<rparr>) (sc_reconcile_dbs c),
                      sc_reconcile_access_clock := 1\<rparr>
               else c\<lparr>sc_reconcile_access_clock := sc_reconcile_access_clock c + 1\<rparr>)
      in c\<lparr>sc_reconcile_dbs := (sc_reconcile_dbs c)
             [entry := (sc_reconcile_dbs c ! entry)\<lparr>rd_last_access_counter := sc_reconcile_access_clock c\<rparr>]\<rparr>)"

text \<open>A change of an entry followed by its touch.\<close>

definition update_reconcile_db ::
  "evoke_am_scheduler_control \<Rightarrow> nat \<Rightarrow> evoke_am_scheduler_reconcile_db \<Rightarrow> evoke_am_scheduler_control" where
  "update_reconcile_db c i entry =
     evoke_am_scheduler_reconcile_touch_locked (c\<lparr>sc_reconcile_dbs := (sc_reconcile_dbs c)[i := entry]\<rparr>) i"

definition evoke_am_scheduler_claim_catalog_reconcile ::
  "(int \<Rightarrow> int \<Rightarrow> int \<Rightarrow> bool) \<Rightarrow> bool \<Rightarrow> u32 \<Rightarrow> int \<Rightarrow> scheduler \<Rightarrow> u8 \<Rightarrow> int \<Rightarrow> bool outcome" where
  "evoke_am_scheduler_claim_catalog_reconcile TimestampDifferenceExceeds RecoveryInProgress MyDatabaseId now sched flag
     preload_timer_interval_ms =
     (case sched of
        None \<Rightarrow> (Some True, None)
      | Some c \<Rightarrow>
          if \<not> evoke_am_scheduler_valid_work_class flag then (None, sched)
          else
            case evoke_am_scheduler_reconcile_db_locked c MyDatabaseId True of
              (None, c) \<Rightarrow> (Some True, Some c)
            | (Some i, c) \<Rightarrow>
                let entry = sc_reconcile_dbs c ! i
                in if rd_running_flags entry AND flag \<noteq> 0 then (Some False, Some c)
                   else
                     let completed_at = (if flag = EVOKE_AM_WORK_HINT_MAINTENANCE then rd_maintenance_completed_at entry
                                         else rd_preload_completed_at entry);
                         reconcile_interval_ms =
                           (if flag = EVOKE_AM_WORK_HINT_PRELOAD \<and> RecoveryInProgress
                            then max EVOKE_AM_STANDBY_PRELOAD_RECONCILE_INTERVAL_MS preload_timer_interval_ms
                            else EVOKE_AM_CATALOG_RECONCILE_INTERVAL_MS)
                     in if rd_requested_flags entry AND flag = 0 \<and> completed_at \<noteq> 0 \<and>
                           \<not> TimestampDifferenceExceeds completed_at now reconcile_interval_ms
                        then (Some False, Some c)
                        else (Some True, Some (update_reconcile_db c i
                               (entry\<lparr>rd_requested_flags := rd_requested_flags entry AND NOT flag,
                                      rd_running_flags := rd_running_flags entry OR flag\<rparr>))))"

definition evoke_am_scheduler_request_catalog_reconcile :: "u32 \<Rightarrow> scheduler \<Rightarrow> u8 \<Rightarrow> unit outcome" where
  "evoke_am_scheduler_request_catalog_reconcile MyDatabaseId sched flags =
     (case sched of
        None \<Rightarrow> (Some (), None)
      | Some c \<Rightarrow>
          if flags = 0 \<or> flags AND NOT (EVOKE_AM_WORK_HINT_MAINTENANCE OR EVOKE_AM_WORK_HINT_PRELOAD) \<noteq> 0
          then (None, sched)
          else
            case evoke_am_scheduler_reconcile_db_locked c MyDatabaseId True of
              (None, c) \<Rightarrow> (Some (), Some c)
            | (Some i, c) \<Rightarrow>
                let entry = sc_reconcile_dbs c ! i
                in (Some (), Some (update_reconcile_db c i (entry\<lparr>rd_requested_flags := rd_requested_flags entry OR flags\<rparr>))))"

definition evoke_am_scheduler_complete_catalog_reconcile ::
  "u32 \<Rightarrow> int \<Rightarrow> scheduler \<Rightarrow> u8 \<Rightarrow> u64 \<Rightarrow> u64 \<Rightarrow> unit outcome" where
  "evoke_am_scheduler_complete_catalog_reconcile MyDatabaseId now sched flag rows duration_us =
     (case sched of
        None \<Rightarrow> (Some (), None)
      | Some c \<Rightarrow>
          if \<not> evoke_am_scheduler_valid_work_class flag then (None, sched)
          else
            case evoke_am_scheduler_reconcile_db_locked c MyDatabaseId False of
              (None, c) \<Rightarrow> (Some (), Some c)
            | (Some i, c) \<Rightarrow>
                let entry = (sc_reconcile_dbs c ! i)\<lparr>rd_running_flags := rd_running_flags (sc_reconcile_dbs c ! i) AND NOT flag\<rparr>
                in (Some (), Some (update_reconcile_db c i
                     (if flag = EVOKE_AM_WORK_HINT_MAINTENANCE
                      then entry\<lparr>rd_maintenance_completed_at := now, rd_maintenance_count := rd_maintenance_count entry + 1,
                             rd_maintenance_last_rows := rows, rd_maintenance_last_duration_us := duration_us,
                             rd_maintenance_max_duration_us := max (rd_maintenance_max_duration_us entry) duration_us\<rparr>
                      else entry\<lparr>rd_preload_completed_at := now, rd_preload_count := rd_preload_count entry + 1,
                             rd_preload_last_rows := rows, rd_preload_last_duration_us := duration_us,
                             rd_preload_max_duration_us := max (rd_preload_max_duration_us entry) duration_us\<rparr>))))"

definition evoke_am_scheduler_release_catalog_reconcile :: "u32 \<Rightarrow> scheduler \<Rightarrow> u8 \<Rightarrow> unit outcome" where
  "evoke_am_scheduler_release_catalog_reconcile MyDatabaseId sched flag =
     (case sched of
        None \<Rightarrow> (Some (), None)
      | Some c \<Rightarrow>
          if \<not> evoke_am_scheduler_valid_work_class flag then (None, sched)
          else
            case evoke_am_scheduler_reconcile_db_locked c MyDatabaseId False of
              (None, c) \<Rightarrow> (Some (), Some c)
            | (Some i, c) \<Rightarrow>
                let entry = sc_reconcile_dbs c ! i
                in (Some (), Some (update_reconcile_db c i
                     (entry\<lparr>rd_running_flags := rd_running_flags entry AND NOT flag,
                            rd_requested_flags := rd_requested_flags entry OR flag\<rparr>))))"

definition evoke_am_scheduler_maintenance_fairness_cursor :: "u32 \<Rightarrow> scheduler \<Rightarrow> u32" where
  "evoke_am_scheduler_maintenance_fairness_cursor MyDatabaseId sched =
     (case sched of
        None \<Rightarrow> 0
      | Some c \<Rightarrow>
          case evoke_am_scheduler_reconcile_db_locked c MyDatabaseId False of
            (None, c) \<Rightarrow> 0
          | (Some i, c) \<Rightarrow> rd_maintenance_last_served_index_oid (sc_reconcile_dbs c ! i))"

definition evoke_am_scheduler_note_maintenance_service :: "u32 \<Rightarrow> scheduler \<Rightarrow> u32 \<Rightarrow> scheduler" where
  "evoke_am_scheduler_note_maintenance_service MyDatabaseId sched index_oid =
     (case sched of
        None \<Rightarrow> None
      | Some c \<Rightarrow>
          if index_oid = 0 then sched
          else
            case evoke_am_scheduler_reconcile_db_locked c MyDatabaseId True of
              (None, c) \<Rightarrow> Some c
            | (Some i, c) \<Rightarrow>
                let entry = sc_reconcile_dbs c ! i
                in Some (update_reconcile_db c i
                     (entry\<lparr>rd_maintenance_last_served_index_oid := index_oid,
                            rd_maintenance_service_count :=
                              (if rd_maintenance_service_count entry = UINT64_MAX then UINT64_MAX
                               else rd_maintenance_service_count entry + 1)\<rparr>)))"


section \<open>Work hints\<close>

text \<open>Where the probing for a hint starts, and the slots in the order in which they are probed.\<close>

definition hint_start :: "u32 \<Rightarrow> u32 \<Rightarrow> nat" where
  "hint_start MyDatabaseId index_oid =
     (let key = push_bit 32 (u64_of_u32 MyDatabaseId) XOR u64_of_u32 index_oid;
          key = key XOR drop_bit 33 key;
          key = key * 0xff51afd7ed558ccd;
          key = key XOR drop_bit 33 key
      in unat (key mod of_nat EVOKE_AM_WORK_HINT_CAPACITY))"

definition hint_slots :: "u32 \<Rightarrow> u32 \<Rightarrow> nat list" where
  "hint_slots MyDatabaseId index_oid =
     map (\<lambda>probe. (hint_start MyDatabaseId index_oid + probe) mod EVOKE_AM_WORK_HINT_CAPACITY) [0..<EVOKE_AM_WORK_HINT_CAPACITY]"

text \<open>The slot of the hint, or the one to put it in: the first tombstone passed or else the free slot that ends the search.\<close>

fun hint_place :: "evoke_am_scheduler_work_hint list \<Rightarrow> u32 \<Rightarrow> u32 \<Rightarrow> nat list \<Rightarrow> nat option \<Rightarrow> nat option" where
  "hint_place hints MyDatabaseId index_oid [] tombstone_slot = tombstone_slot"
| "hint_place hints MyDatabaseId index_oid (slot # slots) tombstone_slot =
     (let candidate = hints ! slot
      in if wh_flags candidate \<noteq> 0
         then if wh_database_oid candidate = MyDatabaseId \<and> wh_index_oid candidate = index_oid then Some slot
              else hint_place hints MyDatabaseId index_oid slots tombstone_slot
         else if wh_sequence candidate = UINT64_MAX
         then hint_place hints MyDatabaseId index_oid slots (if tombstone_slot = None then Some slot else tombstone_slot)
         else (case tombstone_slot of None \<Rightarrow> Some slot | Some t \<Rightarrow> Some t))"

text \<open>The search of the calls that only change a hint that is there.\<close>

fun hint_find :: "evoke_am_scheduler_work_hint list \<Rightarrow> u32 \<Rightarrow> u32 \<Rightarrow> nat list \<Rightarrow> nat option" where
  "hint_find hints MyDatabaseId index_oid [] = None"
| "hint_find hints MyDatabaseId index_oid (slot # slots) =
     (let hint = hints ! slot
      in if wh_flags hint = 0 \<and> wh_sequence hint = 0 then None
         else if wh_database_oid hint \<noteq> MyDatabaseId \<or> wh_index_oid hint \<noteq> index_oid
         then hint_find hints MyDatabaseId index_oid slots
         else Some slot)"

definition next_hint_sequence :: "evoke_am_scheduler_control \<Rightarrow> u64" where
  "next_hint_sequence c = (if sc_work_hint_sequence c = UINT64_MAX then 1 else sc_work_hint_sequence c + 1)"

text \<open>The store of a mark into the slot: a hint that is there gains flags, any other slot is taken over.\<close>

definition marked_hint :: "u32 \<Rightarrow> int \<Rightarrow> u32 \<Rightarrow> u8 \<Rightarrow> u64 \<Rightarrow> evoke_am_scheduler_work_hint \<Rightarrow> evoke_am_scheduler_work_hint" where
  "marked_hint MyDatabaseId now index_oid flags sequence hint =
     (let maintenance_was_pending = (wh_flags hint AND EVOKE_AM_WORK_HINT_MAINTENANCE \<noteq> 0);
          h = (if wh_flags hint \<noteq> 0 then hint\<lparr>wh_flags := wh_flags hint OR flags\<rparr>
               else hint\<lparr>wh_database_oid := MyDatabaseId, wh_index_oid := index_oid, wh_flags := flags,
                         wh_maintenance_first_marked_at := 0, wh_accelerator_retry_after := 0\<rparr>);
          h = h\<lparr>wh_sequence := sequence\<rparr>
      in if flags AND EVOKE_AM_WORK_HINT_MAINTENANCE \<noteq> 0 \<and> \<not> maintenance_was_pending
         then h\<lparr>wh_maintenance_first_marked_at := now\<rparr> else h)"

text \<open>
  A mark is one critical section, and when the table is full a second one: only after the lock is released the reconciliation is requested.
  The first returns whether the second follows.
\<close>

definition hint_mark_section :: "u32 \<Rightarrow> int \<Rightarrow> scheduler \<Rightarrow> u32 \<Rightarrow> u8 \<Rightarrow> bool \<times> scheduler" where
  "hint_mark_section MyDatabaseId now sched index_oid flags =
     (case sched of
        None \<Rightarrow> (False, None)
      | Some c \<Rightarrow>
          if index_oid = 0 \<or> flags = 0 then (False, sched)
          else
            case hint_place (sc_work_hints c) MyDatabaseId index_oid (hint_slots MyDatabaseId index_oid) None of
              None \<Rightarrow> (True, Some (c\<lparr>sc_work_hint_overflows := sc_work_hint_overflows c + 1\<rparr>))
            | Some slot \<Rightarrow>
                let sequence = next_hint_sequence c
                in (False, Some (c\<lparr>sc_work_hint_sequence := sequence,
                      sc_work_hints := (sc_work_hints c)
                        [slot := marked_hint MyDatabaseId now index_oid flags sequence (sc_work_hints c ! slot)]\<rparr>)))"

definition evoke_am_scheduler_work_hint_mark :: "u32 \<Rightarrow> int \<Rightarrow> scheduler \<Rightarrow> u32 \<Rightarrow> u8 \<Rightarrow> unit outcome" where
  "evoke_am_scheduler_work_hint_mark MyDatabaseId now sched index_oid flags =
     (case hint_mark_section MyDatabaseId now sched index_oid flags of
        (request_reconcile, sched) \<Rightarrow>
          if request_reconcile then evoke_am_scheduler_request_catalog_reconcile MyDatabaseId sched flags else (Some (), sched))"

text \<open>What is left of a hint whose flag is taken away: a tombstone when no flag is left.\<close>

definition unmarked_hint :: "u8 \<Rightarrow> evoke_am_scheduler_work_hint \<Rightarrow> evoke_am_scheduler_work_hint" where
  "unmarked_hint flag hint =
     (let h = hint\<lparr>wh_flags := wh_flags hint AND NOT flag\<rparr>;
          h = (if flag = EVOKE_AM_WORK_HINT_MAINTENANCE
               then h\<lparr>wh_maintenance_first_marked_at := 0, wh_accelerator_retry_after := 0\<rparr> else h)
      in if wh_flags h = 0 then h\<lparr>wh_database_oid := 0, wh_index_oid := 0, wh_sequence := UINT64_MAX\<rparr> else h)"

text \<open>A table without hints is cleared as a whole, tombstones and all.\<close>

definition clear_if_inactive :: "evoke_am_scheduler_work_hint list \<Rightarrow> evoke_am_scheduler_work_hint list" where
  "clear_if_inactive hints = (if \<exists>h \<in> set hints. wh_flags h \<noteq> 0 then hints else replicate (length hints) zero_hint)"

definition hint_pending :: "u32 \<Rightarrow> u8 \<Rightarrow> evoke_am_scheduler_work_hint \<Rightarrow> bool" where
  "hint_pending MyDatabaseId flag hint \<longleftrightarrow>
     \<not> (wh_database_oid hint \<noteq> MyDatabaseId \<or> wh_index_oid hint = 0 \<or> wh_flags hint AND flag = 0)"

fun consume_loop :: "u32 \<Rightarrow> u8 \<Rightarrow> evoke_am_scheduler_work_hint list \<Rightarrow> u32 list \<times> evoke_am_scheduler_work_hint list" where
  "consume_loop MyDatabaseId flag [] = ([], [])"
| "consume_loop MyDatabaseId flag (hint # rest) =
     (case consume_loop MyDatabaseId flag rest of
        (oids, hints) \<Rightarrow>
          if hint_pending MyDatabaseId flag hint then (wh_index_oid hint # oids, unmarked_hint flag hint # hints)
          else (oids, hint # hints))"

definition evoke_am_scheduler_compare_oid :: "u32 \<Rightarrow> u32 \<Rightarrow> int" where
  "evoke_am_scheduler_compare_oid a b = (if a = b then 0 else if a < b then -1 else 1)"

text \<open>The identifiers without neighbours that are equal.\<close>

fun unique_oids :: "u32 list \<Rightarrow> u32 list \<Rightarrow> u32 list" where
  "unique_oids [] unique = unique"
| "unique_oids (oid # rest) unique =
     unique_oids rest (if unique = [] \<or> oid \<noteq> last unique then unique @ [oid] else unique)"

definition evoke_am_scheduler_work_hint_consume :: "u32 \<Rightarrow> scheduler \<Rightarrow> u8 \<Rightarrow> u32 list outcome" where
  "evoke_am_scheduler_work_hint_consume MyDatabaseId sched flag =
     (case sched of
        None \<Rightarrow> (Some [], None)
      | Some c \<Rightarrow>
          if \<not> evoke_am_scheduler_valid_work_class flag then (None, sched)
          else
            case consume_loop MyDatabaseId flag (sc_work_hints c) of
              (oids, hints) \<Rightarrow>
                (Some (unique_oids (c_qsort evoke_am_scheduler_compare_oid oids) []),
                 Some (c\<lparr>sc_work_hints := clear_if_inactive hints,
                         sc_work_hints_consumed := sc_work_hints_consumed c + of_nat (length oids)\<rparr>)))"

record evoke_am_scheduler_work_hint_token =
  wt_index_oid :: u32
  wt_sequence :: u64
  wt_maintenance_first_marked_at :: int
  wt_accelerator_retry_after :: int

definition hint_token :: "evoke_am_scheduler_work_hint \<Rightarrow> evoke_am_scheduler_work_hint_token" where
  "hint_token hint =
     \<lparr>wt_index_oid = wh_index_oid hint, wt_sequence = wh_sequence hint,
      wt_maintenance_first_marked_at = wh_maintenance_first_marked_at hint,
      wt_accelerator_retry_after = wh_accelerator_retry_after hint\<rparr>"

definition evoke_am_scheduler_compare_work_hint_token ::
  "evoke_am_scheduler_work_hint_token \<Rightarrow> evoke_am_scheduler_work_hint_token \<Rightarrow> int" where
  "evoke_am_scheduler_compare_work_hint_token a b =
     (if wt_index_oid a = wt_index_oid b then 0 else if wt_index_oid a < wt_index_oid b then -1 else 1)"

definition evoke_am_scheduler_work_hint_snapshot :: "u32 \<Rightarrow> scheduler \<Rightarrow> u8 \<Rightarrow> evoke_am_scheduler_work_hint_token list option" where
  "evoke_am_scheduler_work_hint_snapshot MyDatabaseId sched flag =
     (case sched of
        None \<Rightarrow> Some []
      | Some c \<Rightarrow>
          if \<not> evoke_am_scheduler_valid_work_class flag then None
          else Some (c_qsort evoke_am_scheduler_compare_work_hint_token
                  (map hint_token (filter (hint_pending MyDatabaseId flag) (sc_work_hints c)))))"

definition evoke_am_scheduler_work_hint_clear_if_unchanged :: "u32 \<Rightarrow> scheduler \<Rightarrow> u32 \<Rightarrow> u8 \<Rightarrow> u64 \<Rightarrow> scheduler" where
  "evoke_am_scheduler_work_hint_clear_if_unchanged MyDatabaseId sched index_oid flag sequence =
     (case sched of
        None \<Rightarrow> None
      | Some c \<Rightarrow>
          if index_oid = 0 \<or> sequence = 0 \<or> flag = 0 then sched
          else
            case hint_find (sc_work_hints c) MyDatabaseId index_oid (hint_slots MyDatabaseId index_oid) of
              None \<Rightarrow> sched
            | Some slot \<Rightarrow>
                let hint = sc_work_hints c ! slot
                in if wh_sequence hint \<noteq> sequence \<or> wh_flags hint AND flag = 0 then sched
                   else
                     let hints = (sc_work_hints c)[slot := unmarked_hint flag hint]
                     in Some (c\<lparr>sc_work_hints := (if wh_flags (unmarked_hint flag hint) = 0 then clear_if_inactive hints else hints),
                                sc_work_hints_consumed := sc_work_hints_consumed c + 1\<rparr>))"

definition evoke_am_scheduler_work_hint_reset_age :: "u32 \<Rightarrow> int \<Rightarrow> scheduler \<Rightarrow> u32 \<Rightarrow> u8 \<Rightarrow> scheduler" where
  "evoke_am_scheduler_work_hint_reset_age MyDatabaseId now sched index_oid flag =
     (case sched of
        None \<Rightarrow> None
      | Some c \<Rightarrow>
          if index_oid = 0 \<or> flag \<noteq> EVOKE_AM_WORK_HINT_MAINTENANCE then sched
          else
            case hint_find (sc_work_hints c) MyDatabaseId index_oid (hint_slots MyDatabaseId index_oid) of
              None \<Rightarrow> sched
            | Some slot \<Rightarrow>
                let hint = sc_work_hints c ! slot
                in if wh_flags hint AND flag \<noteq> 0
                   then Some (c\<lparr>sc_work_hints := (sc_work_hints c)[slot := hint\<lparr>wh_maintenance_first_marked_at := now\<rparr>]\<rparr>)
                   else sched)"

definition evoke_am_scheduler_work_hint_allow_accelerator_now :: "u32 \<Rightarrow> scheduler \<Rightarrow> u32 \<Rightarrow> scheduler" where
  "evoke_am_scheduler_work_hint_allow_accelerator_now MyDatabaseId sched index_oid =
     (case sched of
        None \<Rightarrow> None
      | Some c \<Rightarrow>
          if index_oid = 0 then sched
          else
            case hint_find (sc_work_hints c) MyDatabaseId index_oid (hint_slots MyDatabaseId index_oid) of
              None \<Rightarrow> sched
            | Some slot \<Rightarrow>
                Some (c\<lparr>sc_work_hints := (sc_work_hints c)[slot := (sc_work_hints c ! slot)\<lparr>wh_accelerator_retry_after := 0\<rparr>]\<rparr>))"

text \<open>The store of a deferral; a hint that is new takes the sequence.\<close>

definition deferred_hint :: "u32 \<Rightarrow> int \<Rightarrow> u32 \<Rightarrow> u64 \<Rightarrow> int \<Rightarrow> evoke_am_scheduler_work_hint \<Rightarrow> evoke_am_scheduler_work_hint" where
  "deferred_hint MyDatabaseId now index_oid sequence retry_after hint =
     (let h = (if wh_flags hint = 0
               then hint\<lparr>wh_database_oid := MyDatabaseId, wh_index_oid := index_oid, wh_flags := EVOKE_AM_WORK_HINT_MAINTENANCE,
                         wh_sequence := sequence, wh_maintenance_first_marked_at := now\<rparr>
               else
                 let h = hint\<lparr>wh_flags := wh_flags hint OR EVOKE_AM_WORK_HINT_MAINTENANCE\<rparr>
                 in if wh_maintenance_first_marked_at h = 0 then h\<lparr>wh_maintenance_first_marked_at := now\<rparr> else h)
      in h\<lparr>wh_accelerator_retry_after := retry_after\<rparr>)"

definition hint_defer_section :: "u32 \<Rightarrow> int \<Rightarrow> scheduler \<Rightarrow> u32 \<Rightarrow> int \<Rightarrow> bool \<times> scheduler" where
  "hint_defer_section MyDatabaseId now sched index_oid retry_interval_ms =
     (case sched of
        None \<Rightarrow> (False, None)
      | Some c \<Rightarrow>
          if index_oid = 0 then (False, sched)
          else
            let retry_interval_ms = max retry_interval_ms 1;
                retry_after = (if PG_INT64_MAX - now < retry_interval_ms * 1000 then PG_INT64_MAX
                               else now + retry_interval_ms * 1000)
            in case hint_place (sc_work_hints c) MyDatabaseId index_oid (hint_slots MyDatabaseId index_oid) None of
                 None \<Rightarrow> (True, Some (c\<lparr>sc_work_hint_overflows := sc_work_hint_overflows c + 1\<rparr>))
               | Some slot \<Rightarrow>
                   let hint = sc_work_hints c ! slot; sequence = next_hint_sequence c
                   in (False, Some (c\<lparr>
                         sc_work_hint_sequence := (if wh_flags hint = 0 then sequence else sc_work_hint_sequence c),
                         sc_work_hints := (sc_work_hints c)
                           [slot := deferred_hint MyDatabaseId now index_oid sequence retry_after hint]\<rparr>)))"

definition evoke_am_scheduler_work_hint_defer_accelerator :: "u32 \<Rightarrow> int \<Rightarrow> scheduler \<Rightarrow> u32 \<Rightarrow> int \<Rightarrow> unit outcome" where
  "evoke_am_scheduler_work_hint_defer_accelerator MyDatabaseId now sched index_oid retry_interval_ms =
     (case hint_defer_section MyDatabaseId now sched index_oid retry_interval_ms of
        (request_reconcile, sched) \<Rightarrow>
          if request_reconcile
          then evoke_am_scheduler_request_catalog_reconcile MyDatabaseId sched EVOKE_AM_WORK_HINT_MAINTENANCE else (Some (), sched))"

section \<open>Background workers\<close>

datatype evoke_am_scheduler_worker_phase =
  EVOKE_AM_SCHEDULER_WORKER_IDLE | EVOKE_AM_SCHEDULER_WORKER_PRELOAD | EVOKE_AM_SCHEDULER_WORKER_MAINTENANCE

text \<open>A change of the counter of a phase; an idle worker has none.\<close>

definition evoke_am_scheduler_phase_counter ::
  "(u32 \<Rightarrow> u32) \<Rightarrow> evoke_am_scheduler_worker_phase \<Rightarrow> evoke_am_scheduler_control \<Rightarrow> evoke_am_scheduler_control" where
  "evoke_am_scheduler_phase_counter f phase c =
     (case phase of
        EVOKE_AM_SCHEDULER_WORKER_PRELOAD \<Rightarrow> c\<lparr>sc_active_preload_workers := f (sc_active_preload_workers c)\<rparr>
      | EVOKE_AM_SCHEDULER_WORKER_MAINTENANCE \<Rightarrow>
          c\<lparr>sc_active_index_maintenance_workers := f (sc_active_index_maintenance_workers c)\<rparr>
      | EVOKE_AM_SCHEDULER_WORKER_IDLE \<Rightarrow> c)"

definition evoke_am_scheduler_change_worker_phase ::
  "scheduler \<Rightarrow> evoke_am_scheduler_worker_phase \<Rightarrow> evoke_am_scheduler_worker_phase \<Rightarrow> scheduler" where
  "evoke_am_scheduler_change_worker_phase sched old_phase new_phase =
     (if old_phase = new_phase then sched
      else map_option
        (\<lambda>c. evoke_am_scheduler_phase_counter (\<lambda>n. if n < UINT32_MAX then n + 1 else n) new_phase
               (evoke_am_scheduler_phase_counter (\<lambda>n. if n > 0 then n - 1 else n) old_phase c)) sched)"

definition evoke_am_scheduler_note_worker_started :: "scheduler \<Rightarrow> scheduler" where
  "evoke_am_scheduler_note_worker_started sched =
     map_option (\<lambda>c. if sc_active_background_workers c < UINT32_MAX
                     then c\<lparr>sc_active_background_workers := sc_active_background_workers c + 1\<rparr> else c) sched"

definition evoke_am_scheduler_note_worker_finished :: "scheduler \<Rightarrow> scheduler" where
  "evoke_am_scheduler_note_worker_finished sched =
     map_option (\<lambda>c. if sc_active_background_workers c > 0
                     then c\<lparr>sc_active_background_workers := sc_active_background_workers c - 1\<rparr> else c) sched"

definition evoke_am_scheduler_active_workers :: "scheduler \<Rightarrow> u32" where
  "evoke_am_scheduler_active_workers sched = (case sched of None \<Rightarrow> 0 | Some c \<Rightarrow> sc_active_background_workers c)"

definition evoke_am_scheduler_prune_worker_launches_locked ::
  "(int \<Rightarrow> int \<Rightarrow> int \<Rightarrow> bool) \<Rightarrow> int \<Rightarrow> evoke_am_scheduler_control \<Rightarrow> evoke_am_scheduler_control" where
  "evoke_am_scheduler_prune_worker_launches_locked TimestampDifferenceExceeds now c =
     (if sc_pending_maintenance_worker_launches c = 0 then c\<lparr>sc_last_maintenance_worker_launch := 0\<rparr>
      else if sc_last_maintenance_worker_launch c = 0 \<or>
              TimestampDifferenceExceeds (sc_last_maintenance_worker_launch c) now EVOKE_AM_WORKER_LAUNCH_RESERVATION_TIMEOUT_MS
      then c\<lparr>sc_pending_maintenance_worker_launches := 0, sc_last_maintenance_worker_launch := 0\<rparr>
      else c)"

definition evoke_am_scheduler_try_reserve_worker_launch ::
  "(int \<Rightarrow> int \<Rightarrow> int \<Rightarrow> bool) \<Rightarrow> int \<Rightarrow> scheduler \<Rightarrow> int \<Rightarrow> bool \<times> scheduler" where
  "evoke_am_scheduler_try_reserve_worker_launch TimestampDifferenceExceeds now sched limit =
     (case sched of
        None \<Rightarrow> (True, None)
      | Some c \<Rightarrow>
          let c = evoke_am_scheduler_prune_worker_launches_locked TimestampDifferenceExceeds now c;
              active = sc_active_background_workers c;
              pending = sc_pending_maintenance_worker_launches c
          in if u64_of_u32 active + u64_of_u32 pending \<ge> word_of_int (max limit 1) then (False, Some c)
             else if pending \<ge> UINT32_MAX then (False, Some c)
             else (True, Some (c\<lparr>sc_pending_maintenance_worker_launches := pending + 1,
                                sc_last_maintenance_worker_launch := now\<rparr>)))"

definition evoke_am_scheduler_release_worker_launch :: "scheduler \<Rightarrow> scheduler" where
  "evoke_am_scheduler_release_worker_launch sched =
     map_option (\<lambda>c.
       let c = (if sc_pending_maintenance_worker_launches c > 0
                then c\<lparr>sc_pending_maintenance_worker_launches := sc_pending_maintenance_worker_launches c - 1\<rparr> else c)
       in if sc_pending_maintenance_worker_launches c = 0 then c\<lparr>sc_last_maintenance_worker_launch := 0\<rparr> else c) sched"

text \<open>The variables of one process, and its calls. Reporting the phase to the server's statistics is left out.\<close>

record scheduler_process =
  evoke_scheduler_process_counted_active :: bool
  evoke_scheduler_process_launch_reserved :: bool
  evoke_scheduler_process_phase :: evoke_am_scheduler_worker_phase

definition evoke_am_scheduler_process_set_phase ::
  "evoke_am_scheduler_worker_phase \<Rightarrow> scheduler_process \<times> scheduler \<Rightarrow> scheduler_process \<times> scheduler" where
  "evoke_am_scheduler_process_set_phase phase = (\<lambda>(p, sched).
     if evoke_scheduler_process_phase p \<noteq> phase
     then (p\<lparr>evoke_scheduler_process_phase := phase\<rparr>,
           evoke_am_scheduler_change_worker_phase sched (evoke_scheduler_process_phase p) phase)
     else (p, sched))"

definition evoke_am_scheduler_process_note_started :: "scheduler_process \<times> scheduler \<Rightarrow> scheduler_process \<times> scheduler" where
  "evoke_am_scheduler_process_note_started = (\<lambda>(p, sched).
     if sched = None \<or> evoke_scheduler_process_counted_active p then (p, sched)
     else (p\<lparr>evoke_scheduler_process_counted_active := True\<rparr>, evoke_am_scheduler_note_worker_started sched))"

text \<open>A process that finishes leaves its phase in one critical section, and the count of active workers in the next.\<close>

definition process_uncount :: "scheduler_process \<times> scheduler \<Rightarrow> scheduler_process \<times> scheduler" where
  "process_uncount = (\<lambda>(p, sched).
     if \<not> evoke_scheduler_process_counted_active p then (p, sched)
     else (p\<lparr>evoke_scheduler_process_counted_active := False\<rparr>, evoke_am_scheduler_note_worker_finished sched))"

definition evoke_am_scheduler_process_note_finished :: "scheduler_process \<times> scheduler \<Rightarrow> scheduler_process \<times> scheduler" where
  "evoke_am_scheduler_process_note_finished ps =
     process_uncount (evoke_am_scheduler_process_set_phase EVOKE_AM_SCHEDULER_WORKER_IDLE ps)"

definition evoke_am_scheduler_process_release_worker_launch ::
  "scheduler_process \<times> scheduler \<Rightarrow> scheduler_process \<times> scheduler" where
  "evoke_am_scheduler_process_release_worker_launch = (\<lambda>(p, sched).
     if \<not> evoke_scheduler_process_launch_reserved p then (p, sched)
     else (p\<lparr>evoke_scheduler_process_launch_reserved := False\<rparr>, evoke_am_scheduler_release_worker_launch sched))"

text \<open>Adopting a launch; the registration of the exit callbacks, which are the two calls above, is not state of the model.\<close>

definition evoke_am_scheduler_process_adopt_worker_launch ::
  "scheduler_process \<times> scheduler \<Rightarrow> scheduler_process \<times> scheduler" where
  "evoke_am_scheduler_process_adopt_worker_launch = (\<lambda>(p, sched).
     evoke_am_scheduler_process_note_started (p\<lparr>evoke_scheduler_process_launch_reserved := True\<rparr>, sched))"

end
