(* ===== verification/Scheduler_Calls.thy ===== *)
theory Scheduler_Calls
  imports Scheduler
begin

unbundle bit_operations_syntax

text \<open>
  Runs of the scheduler of \<open>src/evoke_am_scheduler.c\<close>: any sequence of calls by any number of processes. Over every such run a
  marked hint stays pending until its own work is done, and no call for one database touches the hints of another.
\<close>

section \<open>Calls of all processes\<close>

text \<open>
  The calls that change the shared state, and the effect of one made by a process of a database at some time. Each is one critical section. A mark or a
  deferral that finds the table full is followed by a \<open>Request_catalog_reconcile\<close> of the same process, with any calls of others between the two.
\<close>

datatype scheduler_call =
    Work_hint_mark u32 u8
  | Work_hint_consume u8
  | Work_hint_clear_if_unchanged u32 u8 u64
  | Work_hint_reset_age u32 u8
  | Work_hint_allow_accelerator_now u32
  | Work_hint_defer_accelerator u32 int
  | Claim_catalog_reconcile bool u8 int
  | Request_catalog_reconcile u8
  | Complete_catalog_reconcile u8 u64 u64
  | Release_catalog_reconcile u8
  | Note_maintenance_service u32
  | Note_maintenance_cycle
  | Set_worker_limit u32
  | Set_last_maintenance_db_oid u32
  | Change_worker_phase evoke_am_scheduler_worker_phase evoke_am_scheduler_worker_phase
  | Note_worker_started
  | Note_worker_finished
  | Try_reserve_worker_launch int
  | Release_worker_launch

fun perform :: "(int \<Rightarrow> int \<Rightarrow> int \<Rightarrow> bool) \<Rightarrow> scheduler \<Rightarrow> u32 \<times> int \<times> scheduler_call \<Rightarrow> scheduler" where
  "perform tde sched (db, now, Work_hint_mark idx flags) = snd (hint_mark_section db now sched idx flags)"
| "perform tde sched (db, now, Work_hint_consume flag) = snd (evoke_am_scheduler_work_hint_consume db sched flag)"
| "perform tde sched (db, now, Work_hint_clear_if_unchanged idx flag sequence) =
     evoke_am_scheduler_work_hint_clear_if_unchanged db sched idx flag sequence"
| "perform tde sched (db, now, Work_hint_reset_age idx flag) = evoke_am_scheduler_work_hint_reset_age db now sched idx flag"
| "perform tde sched (db, now, Work_hint_allow_accelerator_now idx) = evoke_am_scheduler_work_hint_allow_accelerator_now db sched idx"
| "perform tde sched (db, now, Work_hint_defer_accelerator idx interval) =
     snd (hint_defer_section db now sched idx interval)"
| "perform tde sched (db, now, Claim_catalog_reconcile recovery flag interval) =
     snd (evoke_am_scheduler_claim_catalog_reconcile tde recovery db now sched flag interval)"
| "perform tde sched (db, now, Request_catalog_reconcile flags) = snd (evoke_am_scheduler_request_catalog_reconcile db sched flags)"
| "perform tde sched (db, now, Complete_catalog_reconcile flag rows duration) =
     snd (evoke_am_scheduler_complete_catalog_reconcile db now sched flag rows duration)"
| "perform tde sched (db, now, Release_catalog_reconcile flag) = snd (evoke_am_scheduler_release_catalog_reconcile db sched flag)"
| "perform tde sched (db, now, Note_maintenance_service idx) = evoke_am_scheduler_note_maintenance_service db sched idx"
| "perform tde sched (db, now, Note_maintenance_cycle) = evoke_am_scheduler_note_maintenance_cycle now sched"
| "perform tde sched (db, now, Set_worker_limit limit) = evoke_am_scheduler_set_worker_limit sched limit"
| "perform tde sched (db, now, Set_last_maintenance_db_oid oid) = evoke_am_scheduler_set_last_maintenance_db_oid sched oid"
| "perform tde sched (db, now, Change_worker_phase old_phase new_phase) =
     evoke_am_scheduler_change_worker_phase sched old_phase new_phase"
| "perform tde sched (db, now, Note_worker_started) = evoke_am_scheduler_note_worker_started sched"
| "perform tde sched (db, now, Note_worker_finished) = evoke_am_scheduler_note_worker_finished sched"
| "perform tde sched (db, now, Try_reserve_worker_launch limit) =
     snd (evoke_am_scheduler_try_reserve_worker_launch tde now sched limit)"
| "perform tde sched (db, now, Release_worker_launch) = evoke_am_scheduler_release_worker_launch sched"

abbreviation run_calls ::
  "(int \<Rightarrow> int \<Rightarrow> int \<Rightarrow> bool) \<Rightarrow> (u32 \<times> int \<times> scheduler_call) list \<Rightarrow> scheduler \<Rightarrow> scheduler" where
  "run_calls tde calls sched \<equiv> foldl (perform tde) sched calls"

section \<open>Calls that leave the hints alone\<close>

definition hint_part :: "scheduler \<Rightarrow> (evoke_am_scheduler_work_hint list \<times> u64) option" where
  "hint_part = map_option (\<lambda>c. (sc_work_hints c, sc_work_hint_sequence c))"

lemma hint_part_simps [simp]:
  "hint_part None = None" "hint_part (Some c) = Some (sc_work_hints c, sc_work_hint_sequence c)"
  by (simp_all add: hint_part_def)

named_theorems keeps_hints

text \<open>The reconciliation calls only change their own table and its clock; the rest of the state is what it was.\<close>

definition rest_of :: "scheduler \<Rightarrow> scheduler" where
  "rest_of = map_option (\<lambda>c. c\<lparr>sc_reconcile_dbs := [], sc_reconcile_access_clock := 0\<rparr>)"

lemma rest_of_simps [simp]:
  "rest_of None = None" "rest_of (Some c) = Some (c\<lparr>sc_reconcile_dbs := [], sc_reconcile_access_clock := 0\<rparr>)"
  by (simp_all add: rest_of_def)

lemma rest_of_reconcile_db_locked:
  "evoke_am_scheduler_reconcile_db_locked c db create = (e, c') \<Longrightarrow> rest_of (Some c') = rest_of (Some c)"
  by (auto simp: evoke_am_scheduler_reconcile_db_locked_def split: option.splits if_splits)

lemma rest_of_update_reconcile_db [simp]: "rest_of (Some (update_reconcile_db c i e)) = rest_of (Some c)"
  by (simp add: update_reconcile_db_def evoke_am_scheduler_reconcile_touch_locked_def Let_def)

lemma reconcile_db_lockedE:
  obtains e c' where "evoke_am_scheduler_reconcile_db_locked c db create = (e, c')" "rest_of (Some c') = rest_of (Some c)"
  using rest_of_reconcile_db_locked by (metis surj_pair)

lemma reconcile_keeps_rest:
  "rest_of (snd (evoke_am_scheduler_request_catalog_reconcile db sched flags)) = rest_of sched"
  "rest_of (snd (evoke_am_scheduler_claim_catalog_reconcile tde recovery db now sched flag interval)) = rest_of sched"
  "rest_of (evoke_am_scheduler_note_maintenance_service db sched idx) = rest_of sched"
  "rest_of (snd (evoke_am_scheduler_complete_catalog_reconcile db now sched flag rows duration)) = rest_of sched"
  "rest_of (snd (evoke_am_scheduler_release_catalog_reconcile db sched flag)) = rest_of sched"
proof -
  note ops = evoke_am_scheduler_request_catalog_reconcile_def evoke_am_scheduler_claim_catalog_reconcile_def
    evoke_am_scheduler_note_maintenance_service_def evoke_am_scheduler_complete_catalog_reconcile_def
    evoke_am_scheduler_release_catalog_reconcile_def
  show "rest_of (snd (evoke_am_scheduler_request_catalog_reconcile db sched flags)) = rest_of sched"
    "rest_of (snd (evoke_am_scheduler_claim_catalog_reconcile tde recovery db now sched flag interval)) = rest_of sched"
    "rest_of (evoke_am_scheduler_note_maintenance_service db sched idx) = rest_of sched"
  proof (atomize (full), cases sched)
    case (Some c)
    obtain e c' where "evoke_am_scheduler_reconcile_db_locked c db True = (e, c')" "rest_of (Some c') = rest_of (Some c)"
      by (rule reconcile_db_lockedE)
    then show "rest_of (snd (evoke_am_scheduler_request_catalog_reconcile db sched flags)) = rest_of sched \<and>
        rest_of (snd (evoke_am_scheduler_claim_catalog_reconcile tde recovery db now sched flag interval)) = rest_of sched \<and>
        rest_of (evoke_am_scheduler_note_maintenance_service db sched idx) = rest_of sched"
      using Some by (cases e) (simp_all add: ops Let_def del: rest_of_simps)
  qed (simp add: ops)
  show "rest_of (snd (evoke_am_scheduler_complete_catalog_reconcile db now sched flag rows duration)) = rest_of sched"
    "rest_of (snd (evoke_am_scheduler_release_catalog_reconcile db sched flag)) = rest_of sched"
  proof (atomize (full), cases sched)
    case (Some c)
    obtain e c' where "evoke_am_scheduler_reconcile_db_locked c db False = (e, c')" "rest_of (Some c') = rest_of (Some c)"
      by (rule reconcile_db_lockedE)
    then show "rest_of (snd (evoke_am_scheduler_complete_catalog_reconcile db now sched flag rows duration)) = rest_of sched \<and>
        rest_of (snd (evoke_am_scheduler_release_catalog_reconcile db sched flag)) = rest_of sched"
      using Some by (cases e) (simp_all add: ops Let_def del: rest_of_simps)
  qed (simp add: ops)
qed

lemma hint_part_rest: "hint_part sched = hint_part (rest_of sched)"
  by (cases sched) simp_all

lemma reconcile_keeps_hints [keeps_hints]:
  "hint_part (snd (evoke_am_scheduler_request_catalog_reconcile db sched flags)) = hint_part sched"
  "hint_part (snd (evoke_am_scheduler_claim_catalog_reconcile tde recovery db now sched flag interval)) = hint_part sched"
  "hint_part (evoke_am_scheduler_note_maintenance_service db sched idx) = hint_part sched"
  "hint_part (snd (evoke_am_scheduler_complete_catalog_reconcile db now sched flag rows duration)) = hint_part sched"
  "hint_part (snd (evoke_am_scheduler_release_catalog_reconcile db sched flag)) = hint_part sched"
  by (subst (1 2) hint_part_rest, simp add: reconcile_keeps_rest)+

lemma worker_state_hints [simp]:
  "sc_work_hints (evoke_am_scheduler_phase_counter f phase c) = sc_work_hints c"
  "sc_work_hint_sequence (evoke_am_scheduler_phase_counter f phase c) = sc_work_hint_sequence c"
  "sc_work_hints (evoke_am_scheduler_prune_worker_launches_locked tde now c) = sc_work_hints c"
  "sc_work_hint_sequence (evoke_am_scheduler_prune_worker_launches_locked tde now c) = sc_work_hint_sequence c"
  by (cases phase; simp add: evoke_am_scheduler_phase_counter_def)+
    (simp_all add: evoke_am_scheduler_prune_worker_launches_locked_def)

lemma workers_keep_hints [keeps_hints]:
  "hint_part (evoke_am_scheduler_note_maintenance_cycle now sched) = hint_part sched"
  "hint_part (evoke_am_scheduler_set_worker_limit sched limit) = hint_part sched"
  "hint_part (evoke_am_scheduler_set_last_maintenance_db_oid sched oid) = hint_part sched"
  "hint_part (evoke_am_scheduler_note_worker_started sched) = hint_part sched"
  "hint_part (evoke_am_scheduler_note_worker_finished sched) = hint_part sched"
  by (cases sched; simp add: evoke_am_scheduler_note_maintenance_cycle_def evoke_am_scheduler_set_worker_limit_def
        evoke_am_scheduler_set_last_maintenance_db_oid_def evoke_am_scheduler_note_worker_started_def
        evoke_am_scheduler_note_worker_finished_def)+

lemma phase_keeps_hints [keeps_hints]:
  "hint_part (evoke_am_scheduler_change_worker_phase sched old_phase new_phase) = hint_part sched"
  by (cases sched) (simp_all add: evoke_am_scheduler_change_worker_phase_def)

lemma launch_keeps_hints [keeps_hints]:
  "hint_part (snd (evoke_am_scheduler_try_reserve_worker_launch tde now sched limit)) = hint_part sched"
  "hint_part (evoke_am_scheduler_release_worker_launch sched) = hint_part sched"
  by (cases sched; simp add: evoke_am_scheduler_try_reserve_worker_launch_def evoke_am_scheduler_release_worker_launch_def
        Let_def del: of_int_max of_int_1)+


section \<open>A marked hint is not lost\<close>

text \<open>The slots the two searches end with.\<close>

lemma hint_place_Some:
  assumes "hint_place hints db idx slots t = Some p" "\<And>q. t = Some q \<Longrightarrow> wh_flags (hints ! q) = 0"
  shows "(p \<in> set slots \<or> t = Some p) \<and>
         (wh_flags (hints ! p) = 0 \<or> wh_database_oid (hints ! p) = db \<and> wh_index_oid (hints ! p) = idx)"
  using assms
  by (induction hints db idx slots t rule: hint_place.induct) (fastforce simp: Let_def split: if_splits option.splits)+

lemma hint_find_Some:
  "hint_find hints db idx slots = Some p \<Longrightarrow>
     p \<in> set slots \<and> wh_database_oid (hints ! p) = db \<and> wh_index_oid (hints ! p) = idx"
  by (induction hints db idx slots rule: hint_find.induct) (auto simp: Let_def split: if_splits)

text \<open>A pending flag of a hint that was marked after the sequence was \<open>s\<close>.\<close>

definition hint_since :: "u32 \<Rightarrow> u32 \<Rightarrow> u8 \<Rightarrow> u64 \<Rightarrow> evoke_am_scheduler_work_hint \<Rightarrow> bool" where
  "hint_since db idx flag s h \<longleftrightarrow>
     wh_database_oid h = db \<and> wh_index_oid h = idx \<and> wh_flags h AND flag \<noteq> 0 \<and> s < wh_sequence h"

definition pending_since :: "u32 \<Rightarrow> u32 \<Rightarrow> u8 \<Rightarrow> u64 \<Rightarrow> scheduler \<Rightarrow> bool" where
  "pending_since db idx flag s sched \<longleftrightarrow>
     (case hint_part sched of None \<Rightarrow> False
      | Some (hints, sequence) \<Rightarrow> s \<le> sequence \<and> (\<exists>h \<in> set hints. hint_since db idx flag s h))"

text \<open>The calls that are meant to take the flag away: a worker consumes the work, or has done it under a token that is as new.\<close>

fun takes_away :: "u32 \<Rightarrow> u32 \<Rightarrow> u8 \<Rightarrow> u64 \<Rightarrow> u32 \<times> int \<times> scheduler_call \<Rightarrow> bool" where
  "takes_away db idx flag s (db', now, Work_hint_consume flag') \<longleftrightarrow> db' = db \<and> flag' = flag"
| "takes_away db idx flag s (db', now, Work_hint_clear_if_unchanged idx' flag' sequence) \<longleftrightarrow>
     db' = db \<and> idx' = idx \<and> flag' AND flag \<noteq> 0 \<and> s < sequence"
| "takes_away db idx flag s call \<longleftrightarrow> False"

text \<open>Flags.\<close>

lemma flag_or: "(a :: u8) AND flag \<noteq> 0 \<Longrightarrow> (a OR b) AND flag \<noteq> 0" "(b :: u8) AND flag \<noteq> 0 \<Longrightarrow> (a OR b) AND flag \<noteq> 0"
  by (simp_all add: word_ao_dist or_eq_0_iff)

lemma flag_and_not:
  assumes "(f :: u8) AND flag = 0"
  shows "(a AND NOT f) AND flag = a AND flag"
proof -
  have "a AND flag = ((a AND NOT f) OR (a AND f)) AND flag"
    by (metis bit.conj_cancel_right bit.conj_disj_distrib bit.conj_one_right bit.disj_cancel_left)
  also have "\<dots> = ((a AND NOT f) AND flag) OR (a AND (f AND flag))" by (simp add: word_ao_dist and.assoc)
  finally show ?thesis using assms by simp
qed

lemma classes_disjoint:
  "evoke_am_scheduler_valid_work_class f \<Longrightarrow> evoke_am_scheduler_valid_work_class flag \<Longrightarrow> f \<noteq> flag \<Longrightarrow> f AND flag = 0"
  by (auto simp: evoke_am_scheduler_valid_work_class_def scheduler_consts)

text \<open>What the calls store keeps a hint that is pending.\<close>

lemma hint_since_flags: "hint_since db idx flag s h \<Longrightarrow> wh_flags h \<noteq> 0"
  by (auto simp: hint_since_def)

lemma marked_hint_since:
  "hint_since db idx flag s h \<Longrightarrow> s < sequence \<Longrightarrow> hint_since db idx flag s (marked_hint db' now idx' flags sequence h)"
  by (auto simp: hint_since_def marked_hint_def Let_def flag_or)

lemma new_marked_hint_since:
  "wh_flags h = 0 \<or> wh_database_oid h = db \<and> wh_index_oid h = idx \<Longrightarrow> flags AND flag \<noteq> 0 \<Longrightarrow> s < sequence \<Longrightarrow>
     hint_since db idx flag s (marked_hint db now idx flags sequence h)"
  by (auto simp: hint_since_def marked_hint_def Let_def flag_or)

lemma deferred_hint_since:
  "hint_since db idx flag s h \<Longrightarrow> hint_since db idx flag s (deferred_hint db' now idx' sequence retry h)"
  by (auto simp: hint_since_def deferred_hint_def Let_def flag_or)

lemma unmarked_hint_since:
  "hint_since db idx flag s h \<Longrightarrow> f AND flag = 0 \<Longrightarrow> hint_since db idx flag s (unmarked_hint f h)"
  using flag_and_not [of f flag "wh_flags h"] by (auto simp: hint_since_def unmarked_hint_def Let_def)

lemma hint_since_update:
  assumes "h \<in> set hints" "hint_since db idx flag s h"
    and "hint_since db idx flag s (hints ! p) \<Longrightarrow> hint_since db idx flag s x"
  shows "\<exists>h \<in> set (hints[p := x]). hint_since db idx flag s h"
proof -
  obtain i where i: "i < length hints" "hints ! i = h" using assms(1) by (auto simp: in_set_conv_nth)
  have "hint_since db idx flag s (hints[p := x] ! i)" using assms(2,3) i by (cases "i = p") simp_all
  moreover have "hints[p := x] ! i \<in> set (hints[p := x])" using i by (intro nth_mem) simp
  ultimately show ?thesis by blast
qed

lemma hint_since_clear_if_inactive:
  "h \<in> set hints \<Longrightarrow> hint_since db idx flag s h \<Longrightarrow> h \<in> set (clear_if_inactive hints)"
  using hint_since_flags [of db idx flag s h] by (auto simp: clear_if_inactive_def)

lemma consume_loop_eq:
  "consume_loop db flag hints =
     (map wh_index_oid (filter (hint_pending db flag) hints),
      map (\<lambda>h. if hint_pending db flag h then unmarked_hint flag h else h) hints)"
  by (induction hints) simp_all

lemma next_hint_sequence_eq:
  "sc_work_hint_sequence c < UINT64_MAX \<Longrightarrow> unat (next_hint_sequence c) = unat (sc_work_hint_sequence c) + 1"
  by (auto simp: next_hint_sequence_def word_less_nat_alt unat_add_u64)

text \<open>The same of the calls: the flag stays pending, and the sequence grows by one at most.\<close>

definition hint_clock :: "scheduler \<Rightarrow> nat" where
  "hint_clock sched = (case hint_part sched of None \<Rightarrow> 0 | Some (hints, sequence) \<Rightarrow> unat sequence)"

definition carries_on :: "u32 \<Rightarrow> u32 \<Rightarrow> u8 \<Rightarrow> u64 \<Rightarrow> nat \<Rightarrow> scheduler \<Rightarrow> bool" where
  "carries_on db idx flag s n sched \<longleftrightarrow> pending_since db idx flag s sched \<and> hint_clock sched \<le> n + 1"

lemma carries_on_same:
  "hint_part sched' = hint_part sched \<Longrightarrow> pending_since db idx flag s sched \<Longrightarrow> carries_on db idx flag s (hint_clock sched) sched'"
  by (simp add: carries_on_def hint_clock_def pending_since_def)

lemma pending_sinceE:
  assumes "pending_since db idx flag s (Some c)"
  obtains h where "s \<le> sc_work_hint_sequence c" "h \<in> set (sc_work_hints c)" "hint_since db idx flag s h"
  using assms by (auto simp: pending_since_def)

lemma carries_on_self [simp]: "pending_since db idx flag s sched \<Longrightarrow> carries_on db idx flag s (hint_clock sched) sched"
  by (rule carries_on_same) simp_all

text \<open>A change of one slot.\<close>

lemma carries_on_update:
  assumes "pending_since db idx flag s (Some c)"
    and "hint_since db idx flag s (sc_work_hints c ! p) \<Longrightarrow> hint_since db idx flag s x"
    and "sc_work_hints c' = (if cleared then clear_if_inactive ((sc_work_hints c)[p := x]) else (sc_work_hints c)[p := x])"
    and "s \<le> sc_work_hint_sequence c'" "unat (sc_work_hint_sequence c') \<le> unat (sc_work_hint_sequence c) + 1"
  shows "carries_on db idx flag s (hint_clock (Some c)) (Some c')"
proof -
  obtain h where "h \<in> set (sc_work_hints c)" "hint_since db idx flag s h" using assms(1) by (rule pending_sinceE)
  then obtain h' where h': "h' \<in> set ((sc_work_hints c)[p := x])" "hint_since db idx flag s h'"
    using hint_since_update assms(2) by blast
  have "h' \<in> set (sc_work_hints c')"
    using assms(3) h'(1) hint_since_clear_if_inactive [OF h'] by simp
  then show ?thesis using h'(2) assms(4,5) by (auto simp: carries_on_def hint_clock_def pending_since_def)
qed

lemmas carries_on_store = carries_on_update [where cleared = False, unfolded if_False]

lemma next_hint_sequence_grows:
  assumes "s \<le> sc_work_hint_sequence c" "sc_work_hint_sequence c < UINT64_MAX"
  shows "s < next_hint_sequence c" "s \<le> next_hint_sequence c" "unat (next_hint_sequence c) \<le> unat (sc_work_hint_sequence c) + 1"
  using assms next_hint_sequence_eq [of c] by (simp_all add: word_less_nat_alt word_le_nat_alt)

lemma mark_carries_on:
  assumes pending: "pending_since db idx flag s (Some c)" and "sc_work_hint_sequence c < UINT64_MAX"
  shows "carries_on db idx flag s (hint_clock (Some c)) (snd (hint_mark_section db' now (Some c) idx' flags))"
proof -
  have s: "s \<le> sc_work_hint_sequence c" using pending by (auto simp: pending_since_def)
  note grows = next_hint_sequence_grows [OF s assms(2)]
  show ?thesis
  proof (cases "hint_place (sc_work_hints c) db' idx' (hint_slots db' idx') None")
    case None
    then show ?thesis using pending
      by (auto simp: hint_mark_section_def keeps_hints intro!: carries_on_same)
  next
    case (Some p)
    then show ?thesis using pending grows
      by (auto simp: hint_mark_section_def Let_def marked_hint_since
        intro!: carries_on_store [where p = p and x = "marked_hint db' now idx' flags (next_hint_sequence c) (sc_work_hints c ! p)"])
  qed
qed

lemma defer_carries_on:
  assumes pending: "pending_since db idx flag s (Some c)" and "sc_work_hint_sequence c < UINT64_MAX"
  shows "carries_on db idx flag s (hint_clock (Some c))
           (snd (hint_defer_section db' now (Some c) idx' interval))"
proof -
  have s: "s \<le> sc_work_hint_sequence c" using pending by (auto simp: pending_since_def)
  note grows = next_hint_sequence_grows [OF s assms(2)]
  show ?thesis
  proof (cases "hint_place (sc_work_hints c) db' idx' (hint_slots db' idx') None")
    case None
    then show ?thesis using pending
      by (auto simp: hint_defer_section_def Let_def keeps_hints intro!: carries_on_same)
  next
    case (Some p)
    then show ?thesis using pending grows s
      by (auto simp: hint_defer_section_def Let_def deferred_hint_since
            simp del: of_int_max intro!: carries_on_store [where p = p and x = "deferred_hint db' now idx' (next_hint_sequence c) retry (sc_work_hints c ! p)" for retry])
  qed
qed

lemma clear_carries_on:
  assumes pending: "pending_since db idx flag s (Some c)"
    and spared: "\<not> takes_away db idx flag s (db', now, Work_hint_clear_if_unchanged idx' f sequence)"
  shows "carries_on db idx flag s (hint_clock (Some c))
           (evoke_am_scheduler_work_hint_clear_if_unchanged db' (Some c) idx' f sequence)"
proof (cases "hint_find (sc_work_hints c) db' idx' (hint_slots db' idx')")
  case None
  then show ?thesis using pending
    by (simp add: evoke_am_scheduler_work_hint_clear_if_unchanged_def)
next
  case (Some p)
  let ?h = "sc_work_hints c ! p"
  have s: "s \<le> sc_work_hint_sequence c" using pending by (auto simp: pending_since_def)
  have keeps: "hint_since db idx flag s (unmarked_hint f ?h)"
    if "hint_since db idx flag s ?h" "wh_sequence ?h = sequence"
  proof (rule unmarked_hint_since [OF that(1)])
    show "f AND flag = 0" using that spared hint_find_Some [OF Some] by (auto simp: hint_since_def)
  qed
  show ?thesis using pending Some keeps s
    by (auto simp: evoke_am_scheduler_work_hint_clear_if_unchanged_def Let_def
        intro!: carries_on_update [where p = p and x = "unmarked_hint f ?h" and cleared = "wh_flags (unmarked_hint f ?h) = 0"])
qed

lemma age_carries_on:
  assumes pending: "pending_since db idx flag s (Some c)"
  shows "carries_on db idx flag s (hint_clock (Some c)) (evoke_am_scheduler_work_hint_reset_age db' now (Some c) idx' f)"
    and "carries_on db idx flag s (hint_clock (Some c)) (evoke_am_scheduler_work_hint_allow_accelerator_now db' (Some c) idx')"
proof -
  have s: "s \<le> sc_work_hint_sequence c" using pending by (auto simp: pending_since_def)
  have update: "carries_on db idx flag s (hint_clock (Some c)) (Some (c\<lparr>sc_work_hints := (sc_work_hints c)[p := x]\<rparr>))"
    if "hint_since db idx flag s (sc_work_hints c ! p) \<Longrightarrow> hint_since db idx flag s x" for p x
    using s by (intro carries_on_store [OF pending that]) simp_all
  show "carries_on db idx flag s (hint_clock (Some c)) (evoke_am_scheduler_work_hint_reset_age db' now (Some c) idx' f)"
    using pending by (auto simp: evoke_am_scheduler_work_hint_reset_age_def Let_def hint_since_def
        intro!: update split: option.split)
  show "carries_on db idx flag s (hint_clock (Some c)) (evoke_am_scheduler_work_hint_allow_accelerator_now db' (Some c) idx')"
    using pending by (auto simp: evoke_am_scheduler_work_hint_allow_accelerator_now_def hint_since_def
        intro!: update split: option.split)
qed

lemma consume_carries_on:
  assumes pending: "pending_since db idx flag s (Some c)" and flag: "evoke_am_scheduler_valid_work_class flag"
    and spared: "\<not> takes_away db idx flag s (db', now, Work_hint_consume f)"
  shows "carries_on db idx flag s (hint_clock (Some c)) (snd (evoke_am_scheduler_work_hint_consume db' (Some c) f))"
proof (cases "evoke_am_scheduler_valid_work_class f")
  case False
  then show ?thesis using pending by (simp add: evoke_am_scheduler_work_hint_consume_def carries_on_same)
next
  case True
  obtain h where h: "s \<le> sc_work_hint_sequence c" "h \<in> set (sc_work_hints c)" "hint_since db idx flag s h"
    using pending by (rule pending_sinceE)
  let ?g = "\<lambda>h. if hint_pending db' f h then unmarked_hint f h else h"
  have "hint_since db idx flag s (?g h)"
  proof (cases "hint_pending db' f h")
    case pend: True
    then have "f \<noteq> flag" using spared h(3) by (auto simp: hint_pending_def hint_since_def)
    then show ?thesis using pend unmarked_hint_since [OF h(3) classes_disjoint [OF True flag]] by simp
  qed (simp add: h(3))
  moreover have "?g h \<in> set (map ?g (sc_work_hints c))" using h(2) by auto
  ultimately have "?g h \<in> set (clear_if_inactive (map ?g (sc_work_hints c)))" "hint_since db idx flag s (?g h)"
    by (auto intro: hint_since_clear_if_inactive)
  then show ?thesis using True h(1)
    by (auto simp: evoke_am_scheduler_work_hint_consume_def consume_loop_eq carries_on_def hint_clock_def pending_since_def
        simp del: if_split_asm)
qed

lemma perform_carries_on:
  assumes "pending_since db idx flag s sched" "evoke_am_scheduler_valid_work_class flag" "hint_clock sched < 2 ^ 64 - 1"
    and "\<not> takes_away db idx flag s call"
  shows "carries_on db idx flag s (hint_clock sched) (perform tde sched call)"
proof -
  obtain c where c: "sched = Some c" using assms(1) by (cases sched) (auto simp: pending_since_def)
  obtain db' now k where call: "call = (db', now, k)" by (cases call)
  have room: "sc_work_hint_sequence c < UINT64_MAX" using assms(3) c by (simp add: hint_clock_def word_less_nat_alt)
  note pending = assms(1) [unfolded c] and spared = assms(4) [unfolded call]
  show ?thesis unfolding c call
    using spared mark_carries_on [OF pending room] consume_carries_on [OF pending assms(2)] clear_carries_on [OF pending]
      age_carries_on [OF pending] defer_carries_on [OF pending room] carries_on_same [OF _ pending]
    by (cases k) (simp_all add: keeps_hints)
qed

lemma run_keeps_pending:
  assumes "pending_since db idx flag s sched" "evoke_am_scheduler_valid_work_class flag"
    and "hint_clock sched + length calls < 2 ^ 64" "\<forall>call \<in> set calls. \<not> takes_away db idx flag s call"
  shows "pending_since db idx flag s (run_calls tde calls sched)"
  using assms
proof (induction calls arbitrary: sched)
  case (Cons call calls)
  have "carries_on db idx flag s (hint_clock sched) (perform tde sched call)"
    using Cons.prems by (intro perform_carries_on) auto
  then show ?case using Cons.prems by (auto simp: carries_on_def intro!: Cons.IH)
qed simp

text \<open>The table keeps its capacity.\<close>

definition full_table :: "scheduler \<Rightarrow> bool" where
  "full_table sched \<longleftrightarrow> (\<exists>hints sequence. hint_part sched = Some (hints, sequence) \<and> length hints = EVOKE_AM_WORK_HINT_CAPACITY)"

lemma full_table_cong: "hint_part sched' = hint_part sched \<Longrightarrow> full_table sched \<Longrightarrow> full_table sched'"
  by (simp add: full_table_def)

lemma full_table_Some [simp]: "full_table (Some c) \<longleftrightarrow> length (sc_work_hints c) = EVOKE_AM_WORK_HINT_CAPACITY"
  by (simp add: full_table_def)

lemma length_clear_if_inactive [simp]: "length (clear_if_inactive hints) = length hints"
  by (simp add: clear_if_inactive_def)

lemma full_table_mark:
  assumes "full_table (Some c)"
  shows "full_table (snd (hint_mark_section db now (Some c) idx flags))"
    and "full_table (snd (hint_defer_section db now (Some c) idx interval))"
  using assms
  by (auto simp: hint_mark_section_def hint_defer_section_def Let_def
      simp del: of_int_max split: option.split)

lemma full_table_clear:
  assumes "full_table (Some c)"
  shows "full_table (evoke_am_scheduler_work_hint_clear_if_unchanged db (Some c) idx f sequence)"
    and "full_table (evoke_am_scheduler_work_hint_reset_age db now (Some c) idx f)"
    and "full_table (evoke_am_scheduler_work_hint_allow_accelerator_now db (Some c) idx)"
    and "full_table (snd (evoke_am_scheduler_work_hint_consume db (Some c) f))"
  using assms
  by (auto simp: evoke_am_scheduler_work_hint_clear_if_unchanged_def evoke_am_scheduler_work_hint_reset_age_def
      evoke_am_scheduler_work_hint_allow_accelerator_now_def evoke_am_scheduler_work_hint_consume_def consume_loop_eq Let_def
      split: option.split)

lemma perform_full_table: "full_table sched \<Longrightarrow> full_table (perform tde sched call)"
proof -
  assume full: "full_table sched"
  obtain c where c: "sched = Some c" using full by (cases sched) (auto simp: full_table_def)
  obtain db' now k where call: "call = (db', now, k)" by (cases call)
  show ?thesis unfolding c call
    using full_table_mark [OF full [unfolded c]] full_table_clear [OF full [unfolded c]] full_table_cong [OF _ full [unfolded c]]
    by (cases k) (simp_all add: keeps_hints)
qed

lemma run_full_table: "full_table sched \<Longrightarrow> full_table (run_calls tde calls sched)"
  by (induction calls arbitrary: sched) (simp_all add: perform_full_table)

lemma startup_full_table: "full_table (evoke_am_scheduler_shmem_startup limit)"
  by (simp add: evoke_am_scheduler_shmem_startup_def)

text \<open>A mark that finds a slot.\<close>

lemma set_hint_slots_less: "p \<in> set (hint_slots db idx) \<Longrightarrow> p < EVOKE_AM_WORK_HINT_CAPACITY"
  by (auto simp: hint_slots_def scheduler_consts)

lemma mark_pending:
  assumes "full_table (Some c)" "evoke_am_scheduler_work_hint_mark db now (Some c) idx flags = (r, Some c')"
    and "idx \<noteq> 0" "flags AND flag \<noteq> 0" "sc_work_hint_overflows c' = sc_work_hint_overflows c"
    and "sc_work_hint_sequence c < UINT64_MAX"
  shows "pending_since db idx flag (sc_work_hint_sequence c) (Some c') \<and>
         hint_clock (Some c') = unat (sc_work_hint_sequence c) + 1"
proof -
  have "flags \<noteq> 0" using assms(4) by auto
  have overflows: "sc_work_hint_overflows c'' = sc_work_hint_overflows c + 1"
    if "evoke_am_scheduler_request_catalog_reconcile db (Some (c\<lparr>sc_work_hint_overflows := sc_work_hint_overflows c + 1\<rparr>)) flags =
          (r, Some c'')" for r c''
    using that by (auto simp: evoke_am_scheduler_request_catalog_reconcile_def evoke_am_scheduler_reconcile_db_locked_def
        update_reconcile_db_def evoke_am_scheduler_reconcile_touch_locked_def Let_def split: if_splits option.splits)
  obtain p where p: "hint_place (sc_work_hints c) db idx (hint_slots db idx) None = Some p"
    using assms(2,3,5) overflows \<open>flags \<noteq> 0\<close>
    by (cases "hint_place (sc_work_hints c) db idx (hint_slots db idx) None")
       (auto simp: evoke_am_scheduler_work_hint_mark_def hint_mark_section_def)
  have "p < length (sc_work_hints c)" using hint_place_Some [OF p] set_hint_slots_less assms(1) by auto
  then have "marked_hint db now idx flags (next_hint_sequence c) (sc_work_hints c ! p) \<in>
      set ((sc_work_hints c)[p := marked_hint db now idx flags (next_hint_sequence c) (sc_work_hints c ! p)])"
    by (simp add: set_update_memI)
  moreover have "hint_since db idx flag (sc_work_hint_sequence c)
      (marked_hint db now idx flags (next_hint_sequence c) (sc_work_hints c ! p))"
    using hint_place_Some [OF p] assms(4) next_hint_sequence_grows(1) [OF order.refl assms(6)]
    by (intro new_marked_hint_since) auto
  ultimately show ?thesis
    using assms(2,3) \<open>flags \<noteq> 0\<close> p next_hint_sequence_grows(2) [OF order.refl assms(6)] next_hint_sequence_eq [OF assms(6)]
    by (auto simp: evoke_am_scheduler_work_hint_mark_def hint_mark_section_def Let_def pending_since_def hint_clock_def)
qed

text \<open>The snapshot returns every pending hint of the database.\<close>

lemma snapshot_pending:
  assumes "pending_since db idx flag s sched" "idx \<noteq> 0" "evoke_am_scheduler_valid_work_class flag"
  shows "\<exists>tokens. evoke_am_scheduler_work_hint_snapshot db sched flag = Some tokens \<and>
           (\<exists>t \<in> set tokens. wt_index_oid t = idx \<and> s < wt_sequence t)"
proof -
  obtain c where c: "sched = Some c" using assms(1) by (cases sched) (auto simp: pending_since_def)
  obtain h where h: "h \<in> set (sc_work_hints c)" "hint_since db idx flag s h"
    using assms(1) unfolding c by (rule pending_sinceE)
  then have "hint_pending db flag h" using assms(2) by (simp add: hint_pending_def hint_since_def)
  then show ?thesis using h assms(3) c
    by (auto simp: evoke_am_scheduler_work_hint_snapshot_def hint_token_def hint_since_def intro!: bexI [of _ h])
qed

text \<open>
  C36. Marked work is not lost. Take the scheduler after any calls since its start, and let a process of database \<open>db\<close> mark an index
  without an overflow of the table. Whatever calls any processes then make, in any order, the index is in the next snapshot of the
  database for each marked class, with a sequence from after the mark, unless one of the calls consumed that class of that
  database or cleared that very hint with a token from after the mark. In particular a worker that finishes under a token it took
  before the mark does not clear it. (The sequence is a 64-bit counter and must not wrap around meanwhile.)
\<close>

theorem marked_hint_not_lost:
  assumes "run_calls tde before (evoke_am_scheduler_shmem_startup limit) = Some c"
    and "evoke_am_scheduler_work_hint_mark db now (Some c) idx flags = (r, Some c')"
    and "idx \<noteq> 0" "evoke_am_scheduler_valid_work_class flag" "flags AND flag \<noteq> 0"
    and "sc_work_hint_overflows c' = sc_work_hint_overflows c"
    and "\<forall>call \<in> set later. \<not> takes_away db idx flag (sc_work_hint_sequence c) call"
    and "unat (sc_work_hint_sequence c) + 1 + length later < 2 ^ 64"
  shows "\<exists>tokens. evoke_am_scheduler_work_hint_snapshot db (run_calls tde later (Some c')) flag = Some tokens \<and>
           (\<exists>t \<in> set tokens. wt_index_oid t = idx \<and> sc_work_hint_sequence c < wt_sequence t)"
proof -
  have full: "full_table (Some c)" using run_full_table [OF startup_full_table] assms(1) by metis
  have room: "sc_work_hint_sequence c < UINT64_MAX" using assms(8) by (simp add: word_less_nat_alt)
  note marked = mark_pending [OF full assms(2,3,5,6) room]
  have "pending_since db idx flag (sc_work_hint_sequence c) (run_calls tde later (Some c'))"
    using marked assms(4,7,8) by (intro run_keeps_pending) auto
  then show ?thesis using assms(3,4) by (rule snapshot_pending)
qed

text \<open>An index of database 5 that is marked again while a worker is busy with it under its first token.\<close>

lemma hint_start_less [simp]: "hint_start db idx < EVOKE_AM_WORK_HINT_CAPACITY"
  by (simp add: hint_start_def Let_def scheduler_consts unat_mod)

lemma hint_slots_Cons: "hint_slots db idx = hint_start db idx # tl (hint_slots db idx)"
proof -
  have "[0..<EVOKE_AM_WORK_HINT_CAPACITY] = 0 # [1..<EVOKE_AM_WORK_HINT_CAPACITY]"
    using upt_conv_Cons [of 0 EVOKE_AM_WORK_HINT_CAPACITY] hint_start_less [of db idx] by simp
  then show ?thesis by (simp add: hint_slots_def)
qed

lemma hint_place_first:
  "hints ! hint_start db idx = h \<Longrightarrow> wh_flags h = 0 \<and> wh_sequence h = 0 \<or> wh_flags h \<noteq> 0 \<and> wh_database_oid h = db \<and> wh_index_oid h = idx \<Longrightarrow>
     hint_place hints db idx (hint_slots db idx) None = Some (hint_start db idx)"
  by (subst hint_slots_Cons) (auto simp: word_unat_eq_iff)

definition sample_start :: evoke_am_scheduler_control where
  "sample_start = the (evoke_am_scheduler_shmem_startup 3)"

definition sample_marked :: "nat \<Rightarrow> evoke_am_scheduler_control" where
  "sample_marked n = sample_start\<lparr>sc_work_hint_sequence := of_nat n,
     sc_work_hints := (sc_work_hints sample_start)
       [hint_start 5 7 := \<lparr>wh_database_oid = 5, wh_index_oid = 7, wh_flags = 1, wh_sequence = of_nat n,
          wh_maintenance_first_marked_at = 1, wh_accelerator_retry_after = 0\<rparr>]\<rparr>"

lemma sample_mark_section:
  "hint_mark_section 5 1 (evoke_am_scheduler_shmem_startup 3) 7 1 = (False, Some (sample_marked 1))"
  "hint_mark_section 5 2 (Some (sample_marked 1)) 7 1 = (False, Some (sample_marked 2))"
proof -
  have start: "evoke_am_scheduler_shmem_startup 3 = Some sample_start"
    by (simp add: sample_start_def evoke_am_scheduler_shmem_startup_def)
  have hints: "sc_work_hints sample_start = replicate EVOKE_AM_WORK_HINT_CAPACITY zero_hint"
    "sc_work_hint_sequence sample_start = 0"
    by (simp_all add: sample_start_def evoke_am_scheduler_shmem_startup_def)
  have first: "hint_place (sc_work_hints sample_start) 5 7 (hint_slots 5 7) None = Some (hint_start 5 7)"
    by (rule hint_place_first [OF refl]) (simp add: hints zero_hint_def)
  have again: "hint_place (sc_work_hints (sample_marked 1)) 5 7 (hint_slots 5 7) None = Some (hint_start 5 7)"
    by (rule hint_place_first [OF refl]) (simp add: sample_marked_def hints)
  show "hint_mark_section 5 1 (evoke_am_scheduler_shmem_startup 3) 7 1 = (False, Some (sample_marked 1))"
    by (simp add: start hint_mark_section_def first [unfolded hints(1) zero_hint_def] Let_def marked_hint_def next_hint_sequence_def hints
        sample_marked_def zero_hint_def scheduler_consts(3))
  show "hint_mark_section 5 2 (Some (sample_marked 1)) 7 1 = (False, Some (sample_marked 2))"
    using again [unfolded sample_marked_def]
    by (simp add: hint_mark_section_def Let_def marked_hint_def next_hint_sequence_def hints scheduler_consts(3)
        sample_marked_def word_unat_eq_iff)
qed

lemma sample_mark:
  "evoke_am_scheduler_work_hint_mark 5 2 (Some (sample_marked 1)) 7 1 = (Some (), Some (sample_marked 2))"
  by (simp only: evoke_am_scheduler_work_hint_mark_def sample_mark_section(2) prod.case if_False)

text \<open>The first worker clears its token, other databases and other classes consume: the second mark is in the next snapshot.\<close>

lemma marked_hint_not_lost_witness:
  "\<exists>tokens. evoke_am_scheduler_work_hint_snapshot 5
       (run_calls (\<lambda>_ _ _. False) [(5, 3, Work_hint_clear_if_unchanged 7 1 1), (6, 3, Work_hint_consume 1), (5, 4, Work_hint_consume 2)]
         (Some (sample_marked 2))) 1 = Some tokens \<and>
     (\<exists>t \<in> set tokens. wt_index_oid t = 7 \<and> 1 < wt_sequence t)"
proof -
  have run: "run_calls (\<lambda>_ _ _. False) [(5, 1, Work_hint_mark 7 1)] (evoke_am_scheduler_shmem_startup 3) = Some (sample_marked 1)"
    by (simp add: sample_mark_section(1))
  have "sc_work_hint_sequence (sample_marked 1) = 1"
    "sc_work_hint_overflows (sample_marked 2) = sc_work_hint_overflows (sample_marked 1)"
    by (simp_all add: sample_marked_def)
  then show ?thesis
    using marked_hint_not_lost [OF run sample_mark, of 1
        "[(5, 3, Work_hint_clear_if_unchanged 7 1 1), (6, 3, Work_hint_consume 1), (5, 4, Work_hint_consume 2)]"]
    by (simp add: evoke_am_scheduler_valid_work_class_def scheduler_consts(3))
qed

end
