(* ===== verification/Worker_Counters.thy ===== *)
theory Worker_Counters
  imports Scheduler_Calls
begin

text \<open>
  Background workers, from \<open>src/evoke_am_scheduler.c\<close> and the way \<open>evoke_am_launch_background_maintenance\<close> and the main
  function of a worker in \<open>src/evoke_am.c\<close> call it: the launcher reserves, the worker adopts the reservation, counts itself,
  releases the reservation, changes phases and finishes, and the exit callbacks release and finish once more. Every step is one critical
  section; the steps of all processes interleave with each other and with every other call of the scheduler.

  A reservation may time out: a launcher that comes later forgets all reservations that are pending, although their workers may still start.
  The number of reservations forgotten so far is a ghost variable. In every reachable state the counters of workers at work are exact, and the
  counter of pending launches and the bound on the workers are off by no more than the forgotten ones.
\<close>

section \<open>Steps of launchers and workers\<close>

text \<open>
  The shared state, the launches that no worker has adopted yet, the reservations forgotten so far, and the processes of the workers.
\<close>

record worker_system =
  ws_control :: evoke_am_scheduler_control
  ws_launched :: nat
  ws_forgotten :: nat
  ws_processes :: "scheduler_process list"

text \<open>The variables of a process that has just been started.\<close>

definition fresh_process :: scheduler_process where
  "fresh_process = \<lparr>evoke_scheduler_process_counted_active = False, evoke_scheduler_process_launch_reserved = False,
     evoke_scheduler_process_phase = EVOKE_AM_SCHEDULER_WORKER_IDLE\<rparr>"

fun worker_call :: "scheduler_call \<Rightarrow> bool" where
  "worker_call (Change_worker_phase old_phase new_phase) \<longleftrightarrow> True"
| "worker_call Note_worker_started \<longleftrightarrow> True"
| "worker_call Note_worker_finished \<longleftrightarrow> True"
| "worker_call (Try_reserve_worker_launch limit) \<longleftrightarrow> True"
| "worker_call Release_worker_launch \<longleftrightarrow> True"
| "worker_call call \<longleftrightarrow> False"

section \<open>Processes in a state\<close>

definition number :: "('a \<Rightarrow> bool) \<Rightarrow> 'a list \<Rightarrow> nat" where "number P xs = length (filter P xs)"

lemma number_simps [simp]: "number P [] = 0" "number P (xs @ [x]) = number P xs + of_bool (P x)"
  by (simp_all add: number_def)

lemma number_update:
  "i < length xs \<Longrightarrow> number P (xs[i := x]) + of_bool (P (xs ! i)) = number P xs + of_bool (P x)"
proof (induction xs arbitrary: i)
  case (Cons y ys)
  then show ?case by (cases i) (auto simp: number_def)
qed simp

lemma number_pos: "i < length xs \<Longrightarrow> P (xs ! i) \<Longrightarrow> 0 < number P xs"
  by (auto simp: number_def filter_empty_conv intro!: bexI [of _ "xs ! i"])

lemma number_mono: "(\<And>x. P x \<Longrightarrow> Q x) \<Longrightarrow> number P xs \<le> number Q xs"
  by (induction xs) (auto simp: number_def)

lemma number_union: "number (\<lambda>x. P x \<or> Q x) xs \<le> number P xs + number Q xs"
  by (induction xs) (auto simp: number_def)

text \<open>A process that is in phase \<open>phase\<close>, and one that exists for the launcher.\<close>

abbreviation counted :: "scheduler_process \<Rightarrow> bool" where "counted \<equiv> evoke_scheduler_process_counted_active"
abbreviation reserved :: "scheduler_process \<Rightarrow> bool" where "reserved \<equiv> evoke_scheduler_process_launch_reserved"

definition in_phase :: "evoke_am_scheduler_worker_phase \<Rightarrow> scheduler_process \<Rightarrow> bool" where
  "in_phase phase p \<longleftrightarrow> evoke_scheduler_process_phase p = phase"

definition at_work :: "scheduler_process \<Rightarrow> bool" where "at_work p \<longleftrightarrow> counted p \<or> reserved p"

section \<open>The step relation\<close>

text \<open>The reservations that a launcher forgets at time \<open>now\<close>, when the test of the server for the timeout says so.\<close>

definition timed_out :: "(int \<Rightarrow> int \<Rightarrow> int \<Rightarrow> bool) \<Rightarrow> int \<Rightarrow> evoke_am_scheduler_control \<Rightarrow> nat" where
  "timed_out tde now c =
     unat (sc_pending_maintenance_worker_launches c) -
     unat (sc_pending_maintenance_worker_launches (evoke_am_scheduler_prune_worker_launches_locked tde now c))"

text \<open>
  A launcher reserves under the worker limit of its session, which is at most \<open>limit\<close>, and registers a worker; when that fails it
  gives its reservation back. A registered worker gets one of the \<open>slots\<close> of the server and adopts its launch. A worker counts itself
  while it holds its reservation, and takes a phase while it is counted. It finishes by leaving its phase and then its count.
\<close>

inductive worker_step :: "int \<Rightarrow> nat \<Rightarrow> worker_system \<Rightarrow> worker_system \<Rightarrow> bool" for limit :: int and slots :: nat where
  launch:
    "evoke_am_scheduler_try_reserve_worker_launch tde now (Some c) session_limit = (True, Some c') \<Longrightarrow>
       session_limit \<le> limit \<Longrightarrow> now \<noteq> 0 \<Longrightarrow>
       worker_step limit slots \<lparr>ws_control = c, ws_launched = n, ws_forgotten = f, ws_processes = ps\<rparr>
         \<lparr>ws_control = c', ws_launched = Suc n, ws_forgotten = f + timed_out tde now c, ws_processes = ps\<rparr>"
| launch_refused:
    "evoke_am_scheduler_try_reserve_worker_launch tde now (Some c) session_limit = (False, Some c') \<Longrightarrow>
       worker_step limit slots \<lparr>ws_control = c, ws_launched = n, ws_forgotten = f, ws_processes = ps\<rparr>
         \<lparr>ws_control = c', ws_launched = n, ws_forgotten = f + timed_out tde now c, ws_processes = ps\<rparr>"
| launch_failed:
    "evoke_am_scheduler_release_worker_launch (Some c) = Some c' \<Longrightarrow>
       worker_step limit slots \<lparr>ws_control = c, ws_launched = Suc n, ws_forgotten = f, ws_processes = ps\<rparr>
         \<lparr>ws_control = c', ws_launched = n, ws_forgotten = f, ws_processes = ps\<rparr>"
| adopt:
    "evoke_am_scheduler_process_adopt_worker_launch (fresh_process, Some c) = (p, Some c') \<Longrightarrow> number at_work ps < slots \<Longrightarrow>
       worker_step limit slots \<lparr>ws_control = c, ws_launched = Suc n, ws_forgotten = f, ws_processes = ps\<rparr>
         \<lparr>ws_control = c', ws_launched = n, ws_forgotten = f, ws_processes = ps @ [p]\<rparr>"
| started:
    "i < length ps \<Longrightarrow> reserved (ps ! i) \<Longrightarrow>
       evoke_am_scheduler_process_note_started (ps ! i, Some c) = (p, Some c') \<Longrightarrow>
       worker_step limit slots \<lparr>ws_control = c, ws_launched = n, ws_forgotten = f, ws_processes = ps\<rparr>
         \<lparr>ws_control = c', ws_launched = n, ws_forgotten = f, ws_processes = ps[i := p]\<rparr>"
| release:
    "i < length ps \<Longrightarrow> evoke_am_scheduler_process_release_worker_launch (ps ! i, Some c) = (p, Some c') \<Longrightarrow>
       worker_step limit slots \<lparr>ws_control = c, ws_launched = n, ws_forgotten = f, ws_processes = ps\<rparr>
         \<lparr>ws_control = c', ws_launched = n, ws_forgotten = f, ws_processes = ps[i := p]\<rparr>"
| change_phase:
    "i < length ps \<Longrightarrow> counted (ps ! i) \<or> phase = EVOKE_AM_SCHEDULER_WORKER_IDLE \<Longrightarrow>
       evoke_am_scheduler_process_set_phase phase (ps ! i, Some c) = (p, Some c') \<Longrightarrow>
       worker_step limit slots \<lparr>ws_control = c, ws_launched = n, ws_forgotten = f, ws_processes = ps\<rparr>
         \<lparr>ws_control = c', ws_launched = n, ws_forgotten = f, ws_processes = ps[i := p]\<rparr>"
| finished:
    "i < length ps \<Longrightarrow> in_phase EVOKE_AM_SCHEDULER_WORKER_IDLE (ps ! i) \<Longrightarrow>
       process_uncount (ps ! i, Some c) = (p, Some c') \<Longrightarrow>
       worker_step limit slots \<lparr>ws_control = c, ws_launched = n, ws_forgotten = f, ws_processes = ps\<rparr>
         \<lparr>ws_control = c', ws_launched = n, ws_forgotten = f, ws_processes = ps[i := p]\<rparr>"
| other_call:
    "\<not> worker_call call \<Longrightarrow> perform tde (Some c) (db, now, call) = Some c' \<Longrightarrow>
       worker_step limit slots \<lparr>ws_control = c, ws_launched = n, ws_forgotten = f, ws_processes = ps\<rparr>
         \<lparr>ws_control = c', ws_launched = n, ws_forgotten = f, ws_processes = ps\<rparr>"

inductive workers_reachable :: "int \<Rightarrow> nat \<Rightarrow> worker_system \<Rightarrow> bool" for limit :: int and slots :: nat where
  startup: "evoke_am_scheduler_shmem_startup workers = Some c \<Longrightarrow>
     workers_reachable limit slots \<lparr>ws_control = c, ws_launched = 0, ws_forgotten = 0, ws_processes = []\<rparr>"
| step: "workers_reachable limit slots s \<Longrightarrow> worker_step limit slots s s' \<Longrightarrow> workers_reachable limit slots s'"

section \<open>The invariant\<close>

text \<open>The counters.\<close>

record worker_counters =
  wc_active :: u32
  wc_pending :: u32
  wc_preload :: u32
  wc_maintenance :: u32
  wc_last_launch :: int

definition counters :: "evoke_am_scheduler_control \<Rightarrow> worker_counters" where
  "counters c = \<lparr>wc_active = sc_active_background_workers c, wc_pending = sc_pending_maintenance_worker_launches c,
     wc_preload = sc_active_preload_workers c, wc_maintenance = sc_active_index_maintenance_workers c,
     wc_last_launch = sc_last_maintenance_worker_launch c\<rparr>"

definition workers_ok :: "int \<Rightarrow> nat \<Rightarrow> worker_counters \<Rightarrow> nat \<Rightarrow> nat \<Rightarrow> scheduler_process list \<Rightarrow> bool" where
  "workers_ok limit slots w n f ps \<longleftrightarrow>
     unat (wc_active w) = number counted ps \<and>
     unat (wc_pending w) \<le> n + number reserved ps \<and>
     n + number reserved ps \<le> unat (wc_pending w) + f \<and>
     unat (wc_preload w) = number (in_phase EVOKE_AM_SCHEDULER_WORKER_PRELOAD) ps \<and>
     unat (wc_maintenance w) = number (in_phase EVOKE_AM_SCHEDULER_WORKER_MAINTENANCE) ps \<and>
     (wc_pending w \<noteq> 0 \<longrightarrow> wc_last_launch w \<noteq> 0) \<and>
     (\<forall>p \<in> set ps. counted p \<or> in_phase EVOKE_AM_SCHEDULER_WORKER_IDLE p) \<and>
     int (n + number at_work ps) \<le> limit + int f \<and>
     number at_work ps \<le> slots"

section \<open>Calls that leave the counters alone\<close>

definition counter_part :: "scheduler \<Rightarrow> worker_counters option" where "counter_part = map_option counters"

lemma counter_part_simps [simp]: "counter_part None = None" "counter_part (Some c) = Some (counters c)"
  by (simp_all add: counter_part_def)

lemma counters_cong [simp]:
  "counters (c\<lparr>sc_work_hints := h\<rparr>) = counters c" "counters (c\<lparr>sc_work_hint_sequence := s\<rparr>) = counters c"
  "counters (c\<lparr>sc_work_hint_overflows := s\<rparr>) = counters c" "counters (c\<lparr>sc_work_hints_consumed := s\<rparr>) = counters c"
  "counters (c\<lparr>sc_reconcile_access_clock := s\<rparr>) = counters c" "counters (c\<lparr>sc_reconcile_dbs := d\<rparr>) = counters c"
  "counters (c\<lparr>sc_last_maintenance_cycle := i\<rparr>) = counters c" "counters (c\<lparr>sc_last_maintenance_db_oid := o'\<rparr>) = counters c"
  "counters (c\<lparr>sc_maintenance_worker_limit := o'\<rparr>) = counters c"
  by (simp_all add: counters_def)

named_theorems keeps_counters

lemma counter_part_rest: "counter_part sched = counter_part (rest_of sched)"
  by (cases sched) simp_all

lemma reconcile_keeps_counters [keeps_counters]:
  "counter_part (snd (evoke_am_scheduler_request_catalog_reconcile db sched flags)) = counter_part sched"
  "counter_part (snd (evoke_am_scheduler_claim_catalog_reconcile tde recovery db now sched flag interval)) = counter_part sched"
  "counter_part (evoke_am_scheduler_note_maintenance_service db sched idx) = counter_part sched"
  "counter_part (snd (evoke_am_scheduler_complete_catalog_reconcile db now sched flag rows duration)) = counter_part sched"
  "counter_part (snd (evoke_am_scheduler_release_catalog_reconcile db sched flag)) = counter_part sched"
  by (subst (1 2) counter_part_rest, simp add: reconcile_keeps_rest)+

lemma hints_keep_counters [keeps_counters]:
  "counter_part (snd (hint_mark_section db now sched idx flags)) = counter_part sched"
  "counter_part (snd (evoke_am_scheduler_work_hint_consume db sched flag)) = counter_part sched"
  "counter_part (evoke_am_scheduler_work_hint_clear_if_unchanged db sched idx flag sequence) = counter_part sched"
  "counter_part (evoke_am_scheduler_work_hint_reset_age db now sched idx flag) = counter_part sched"
  "counter_part (evoke_am_scheduler_work_hint_allow_accelerator_now db sched idx) = counter_part sched"
  by (cases sched; simp add: hint_mark_section_def evoke_am_scheduler_work_hint_consume_def
        evoke_am_scheduler_work_hint_clear_if_unchanged_def evoke_am_scheduler_work_hint_reset_age_def
        evoke_am_scheduler_work_hint_allow_accelerator_now_def consume_loop_eq Let_def keeps_counters split: option.split)+

lemma defer_keeps_counters [keeps_counters]:
  "counter_part (snd (hint_defer_section db now sched idx interval)) = counter_part sched"
  by (cases sched) (simp_all add: hint_defer_section_def Let_def keeps_counters
      del: of_int_max split: option.split)

lemma other_keeps_counters [keeps_counters]:
  "counter_part (evoke_am_scheduler_note_maintenance_cycle now sched) = counter_part sched"
  "counter_part (evoke_am_scheduler_set_worker_limit sched limit) = counter_part sched"
  "counter_part (evoke_am_scheduler_set_last_maintenance_db_oid sched oid) = counter_part sched"
  by (cases sched; simp add: evoke_am_scheduler_note_maintenance_cycle_def evoke_am_scheduler_set_worker_limit_def
        evoke_am_scheduler_set_last_maintenance_db_oid_def)+

lemma perform_keeps_counters:
  assumes "\<not> worker_call call" "perform tde (Some c) (db, now, call) = Some c'"
  shows "counters c' = counters c"
proof -
  have "counter_part (perform tde (Some c) (db, now, call)) = counter_part (Some c)"
    using assms(1) by (cases call) (simp_all add: keeps_counters del: counter_part_simps)
  then show ?thesis using assms(2) by simp
qed

section \<open>What the worker calls do to the counters\<close>

lemma u64_limit_less:
  assumes "limit \<le> 2147483647" "\<not> (word_of_int (max limit 1) :: u64) \<le> u64_of_u32 a + u64_of_u32 b"
  shows "int (unat a + unat b) < max limit 1"
proof -
  have "unat (word_of_int (max limit 1) :: u64) = nat (max limit 1)"
    using assms(1) by (simp add: unat_eq_nat_uint uint_word_of_int del: of_int_max)
  then show ?thesis using assms by (auto simp: word_le_nat_alt nat_le_iff max_def)
qed

text \<open>A reservation first forgets what has timed out.\<close>

lemma prune_counters:
  assumes "wc_pending (counters c) \<noteq> 0 \<longrightarrow> wc_last_launch (counters c) \<noteq> 0"
  obtains (kept) "counters (evoke_am_scheduler_prune_worker_launches_locked tde now c) =
        (counters c)\<lparr>wc_last_launch := (if wc_pending (counters c) = 0 then 0 else wc_last_launch (counters c))\<rparr>" "timed_out tde now c = 0"
    | (forgotten) "counters (evoke_am_scheduler_prune_worker_launches_locked tde now c) =
        (counters c)\<lparr>wc_pending := 0, wc_last_launch := 0\<rparr>" "timed_out tde now c = unat (wc_pending (counters c))"
proof (cases "wc_pending (counters c) \<noteq> 0 \<and>
    tde (sc_last_maintenance_worker_launch c) now EVOKE_AM_WORKER_LAUNCH_RESERVATION_TIMEOUT_MS")
  case True
  then show ?thesis using assms
    by (intro forgotten) (auto simp: evoke_am_scheduler_prune_worker_launches_locked_def counters_def timed_out_def)
next
  case False
  then show ?thesis using assms
    by (intro kept) (auto simp: evoke_am_scheduler_prune_worker_launches_locked_def counters_def timed_out_def)
qed

lemma reserve_counters:
  assumes "evoke_am_scheduler_try_reserve_worker_launch tde now (Some c) session_limit = (ok, Some c')"
    and "c1 = evoke_am_scheduler_prune_worker_launches_locked tde now c"
  shows "ok \<Longrightarrow> counters c' = (counters c1)\<lparr>wc_pending := wc_pending (counters c1) + 1, wc_last_launch := now\<rparr> \<and>
           \<not> (word_of_int (max session_limit 1) :: u64) \<le> u64_of_u32 (wc_active (counters c1)) + u64_of_u32 (wc_pending (counters c1))"
    and "\<not> ok \<Longrightarrow> c' = c1"
  using assms
  by (auto simp: evoke_am_scheduler_try_reserve_worker_launch_def counters_def Let_def simp del: of_int_max split: if_splits)

lemma release_counters:
  "evoke_am_scheduler_release_worker_launch (Some c) = Some c' \<Longrightarrow>
     counters c' = (let pending = (if wc_pending (counters c) > 0 then wc_pending (counters c) - 1 else 0)
       in (counters c)\<lparr>wc_pending := pending, wc_last_launch := (if pending = 0 then 0 else wc_last_launch (counters c))\<rparr>)"
  by (auto simp: evoke_am_scheduler_release_worker_launch_def counters_def Let_def word_gt_0)

lemma started_counters:
  "evoke_am_scheduler_process_note_started (p, Some c) = (p', Some c') \<Longrightarrow>
     p' = p\<lparr>evoke_scheduler_process_counted_active := True\<rparr> \<and>
     counters c' = (if counted p \<or> wc_active (counters c) \<ge> UINT32_MAX then counters c
       else (counters c)\<lparr>wc_active := wc_active (counters c) + 1\<rparr>)"
  by (auto simp: evoke_am_scheduler_process_note_started_def evoke_am_scheduler_note_worker_started_def counters_def
      split: if_splits)

text \<open>A phase that is left and one that is entered.\<close>

definition leave :: "u32 \<Rightarrow> u32" where "leave n = (if n > 0 then n - 1 else n)"
definition enter :: "u32 \<Rightarrow> u32" where "enter n = (if n < UINT32_MAX then n + 1 else n)"

definition count_phase ::
  "(u32 \<Rightarrow> u32) \<Rightarrow> evoke_am_scheduler_worker_phase \<Rightarrow> worker_counters \<Rightarrow> worker_counters" where
  "count_phase f phase w =
     (case phase of
        EVOKE_AM_SCHEDULER_WORKER_PRELOAD \<Rightarrow> w\<lparr>wc_preload := f (wc_preload w)\<rparr>
      | EVOKE_AM_SCHEDULER_WORKER_MAINTENANCE \<Rightarrow> w\<lparr>wc_maintenance := f (wc_maintenance w)\<rparr>
      | EVOKE_AM_SCHEDULER_WORKER_IDLE \<Rightarrow> w)"

lemma phase_counter_counters [simp]:
  "counters (evoke_am_scheduler_phase_counter f phase c) = count_phase f phase (counters c)"
  by (cases phase) (simp_all add: evoke_am_scheduler_phase_counter_def count_phase_def counters_def)

lemma phase_counters:
  "evoke_am_scheduler_process_set_phase phase (p, Some c) = (p', Some c') \<Longrightarrow>
     p' = p\<lparr>evoke_scheduler_process_phase := phase\<rparr> \<and>
     counters c' = (if evoke_scheduler_process_phase p = phase then counters c
       else count_phase enter phase (count_phase leave (evoke_scheduler_process_phase p) (counters c)))"
  by (auto simp: evoke_am_scheduler_process_set_phase_def evoke_am_scheduler_change_worker_phase_def
      leave_def [abs_def] enter_def [abs_def])

lemma uncount_counters:
  "process_uncount (p, Some c) = (p', Some c') \<Longrightarrow>
     p' = p\<lparr>evoke_scheduler_process_counted_active := False\<rparr> \<and>
     counters c' = (if counted p then (counters c)\<lparr>wc_active := leave (wc_active (counters c))\<rparr> else counters c)"
  by (auto simp: process_uncount_def evoke_am_scheduler_note_worker_finished_def counters_def leave_def split: if_splits)

lemma process_release_counters:
  "evoke_am_scheduler_process_release_worker_launch (p, Some c) = (p', Some c') \<Longrightarrow>
     p' = p\<lparr>evoke_scheduler_process_launch_reserved := False\<rparr> \<and>
     (if reserved p then evoke_am_scheduler_release_worker_launch (Some c) = Some c' else c' = c)"
  by (auto simp: evoke_am_scheduler_process_release_worker_launch_def split: if_splits)

section \<open>The invariant is kept\<close>

lemma workers_okD:
  assumes "workers_ok limit slots w n f ps"
  shows "unat (wc_active w) = number counted ps" "unat (wc_pending w) \<le> n + number reserved ps"
    "n + number reserved ps \<le> unat (wc_pending w) + f"
    "unat (wc_preload w) = number (in_phase EVOKE_AM_SCHEDULER_WORKER_PRELOAD) ps"
    "unat (wc_maintenance w) = number (in_phase EVOKE_AM_SCHEDULER_WORKER_MAINTENANCE) ps"
    "wc_pending w \<noteq> 0 \<longrightarrow> wc_last_launch w \<noteq> 0"
    "p \<in> set ps \<Longrightarrow> counted p \<or> in_phase EVOKE_AM_SCHEDULER_WORKER_IDLE p"
    "int (n + number at_work ps) \<le> limit + int f" "number at_work ps \<le> slots"
  using assms by (auto simp: workers_ok_def)

text \<open>No counter comes near the width of its word: a process in a phase, a counted one and a reserved one are all at work.\<close>

lemma number_at_work:
  "number counted ps \<le> number at_work ps" "number reserved ps \<le> number at_work ps"
  "number at_work ps \<le> number counted ps + number reserved ps"
  using number_union [of counted reserved ps] by (auto simp: at_work_def [abs_def] intro: number_mono)

lemma number_phase:
  assumes "\<forall>p \<in> set ps. counted p \<or> in_phase EVOKE_AM_SCHEDULER_WORKER_IDLE p" "phase \<noteq> EVOKE_AM_SCHEDULER_WORKER_IDLE"
  shows "number (in_phase phase) ps \<le> number counted ps"
  using assms by (induction ps) (auto simp: number_def in_phase_def)

lemma word_add_1_less: "unat x < 4294967295 \<Longrightarrow> unat (x + 1 :: u32) = unat x + 1"
  by (subst unat_add_u32) simp_all

lemma enter_leave:
  "unat x < 4294967295 \<Longrightarrow> unat (enter x) = unat x + 1" "unat (leave x) = unat x - 1"
  by (auto simp: enter_def leave_def word_add_1_less word_less_nat_alt unat_sub_word word_le_nat_alt)

lemma number_keep: "i < length xs \<Longrightarrow> P x = P (xs ! i) \<Longrightarrow> number P (xs[i := x]) = number P xs"
  using number_update [of i xs P x] by simp

lemma number_gain: "i < length xs \<Longrightarrow> \<not> P (xs ! i) \<Longrightarrow> P x \<Longrightarrow> number P (xs[i := x]) = number P xs + 1"
  using number_update [of i xs P x] by simp

lemma number_loss: "i < length xs \<Longrightarrow> P (xs ! i) \<Longrightarrow> \<not> P x \<Longrightarrow> number P (xs[i := x]) = number P xs - 1"
  using number_update [of i xs P x] by simp

lemma number_shrink: "i < length xs \<Longrightarrow> P x \<longrightarrow> P (xs ! i) \<Longrightarrow> number P (xs[i := x]) \<le> number P xs"
  using number_update [of i xs P x] by (cases "P x"; cases "P (xs ! i)") simp_all

lemma all_update: "i < length xs \<Longrightarrow> \<forall>x \<in> set xs. P x \<Longrightarrow> P y \<Longrightarrow> \<forall>x \<in> set (xs[i := y]). P x"
  using set_update_subset_insert [of xs i y] by blast

lemma prune_ok:
  assumes "workers_ok limit slots (counters c) n f ps"
  shows "workers_ok limit slots (counters (evoke_am_scheduler_prune_worker_launches_locked tde now c)) n (f + timed_out tde now c) ps"
proof -
  have grows: "int (n + number at_work ps) \<le> limit + int (f + timed_out tde now c)" using workers_okD(8) [OF assms] by simp
  show ?thesis
    using workers_okD(6) [OF assms]
    by (rule prune_counters [of c tde now]) (use assms grows in \<open>auto simp: workers_ok_def\<close>)
qed

lemma launch_ok:
  assumes ok: "workers_ok limit slots (counters c) n f ps" and limit: "1 \<le> limit" "limit \<le> 2147483647" "session_limit \<le> limit"
    and reserve: "evoke_am_scheduler_try_reserve_worker_launch tde now (Some c) session_limit = (True, Some c')" "now \<noteq> 0"
  shows "workers_ok limit slots (counters c') (Suc n) (f + timed_out tde now c) ps"
proof -
  let ?c1 = "evoke_am_scheduler_prune_worker_launches_locked tde now c"
  note pruned = prune_ok [OF ok, of tde now]
  note D = workers_okD [OF pruned] and r = reserve_counters(1) [OF reserve(1) refl TrueI]
  have less: "int (unat (wc_active (counters ?c1)) + unat (wc_pending (counters ?c1))) < limit"
    using u64_limit_less [of session_limit] r limit by fastforce
  have "unat (wc_pending (counters ?c1) + 1) = unat (wc_pending (counters ?c1)) + 1"
    using less limit by (intro word_add_1_less) linarith
  moreover have "int (Suc n + number at_work ps) \<le> limit + int (f + timed_out tde now c)"
    using less D(1,3) number_at_work(3) [of ps] by linarith
  ultimately show ?thesis using pruned r reserve(2) by (simp add: workers_ok_def)
qed

lemma refused_ok:
  assumes ok: "workers_ok limit slots (counters c) n f ps"
    and reserve: "evoke_am_scheduler_try_reserve_worker_launch tde now (Some c) session_limit = (False, Some c')"
  shows "workers_ok limit slots (counters c') n (f + timed_out tde now c) ps"
  using prune_ok [OF ok] reserve_counters(2) [OF reserve refl] by simp

lemma release_ok:
  assumes ok: "workers_ok limit slots (counters c) (Suc n) f ps"
    and release: "evoke_am_scheduler_release_worker_launch (Some c) = Some c'"
  shows "workers_ok limit slots (counters c') n f ps"
proof -
  have "unat (if wc_pending (counters c) > 0 then wc_pending (counters c) - 1 else 0) = unat (wc_pending (counters c)) - 1"
    by (auto simp: unat_sub_word word_le_nat_alt word_less_nat_alt)
  then show ?thesis using ok unfolding workers_ok_def release_counters [OF release] Let_def by auto
qed

lemma counted_less:
  assumes "workers_ok limit slots w n f ps" "slots < 4294967295"
  shows "unat (wc_active w) < 4294967295"
  using workers_okD(1,9) [OF assms(1)] number_at_work(1) [of ps] assms(2) by linarith

lemma adopt_ok:
  assumes ok: "workers_ok limit slots (counters c) (Suc n) f ps" and slots: "slots < 4294967295" "number at_work ps < slots"
    and adopt: "evoke_am_scheduler_process_adopt_worker_launch (fresh_process, Some c) = (p, Some c')"
  shows "workers_ok limit slots (counters c') n f (ps @ [p])"
proof -
  have active: "unat (wc_active (counters c)) < 4294967295" by (rule counted_less [OF ok slots(1)])
  have "p = fresh_process\<lparr>evoke_scheduler_process_launch_reserved := True, evoke_scheduler_process_counted_active := True\<rparr>"
    and c': "counters c' = (counters c)\<lparr>wc_active := wc_active (counters c) + 1\<rparr>"
    using adopt active started_counters [of "fresh_process\<lparr>evoke_scheduler_process_launch_reserved := True\<rparr>" c p c']
    by (auto simp: evoke_am_scheduler_process_adopt_worker_launch_def fresh_process_def word_le_nat_alt)
  then show ?thesis using ok slots(2) word_add_1_less [OF active]
    by (auto simp: workers_ok_def fresh_process_def at_work_def in_phase_def)
qed

lemma started_ok:
  assumes ok: "workers_ok limit slots (counters c) n f ps" and slots: "slots < 4294967295"
    and i: "i < length ps" "reserved (ps ! i)"
    and started: "evoke_am_scheduler_process_note_started (ps ! i, Some c) = (p, Some c')"
  shows "workers_ok limit slots (counters c') n f (ps[i := p])"
proof -
  have active: "unat (wc_active (counters c)) < 4294967295" by (rule counted_less [OF ok slots])
  note st = started_counters [OF started]
  have "number reserved (ps[i := p]) = number reserved ps" "number (in_phase ph) (ps[i := p]) = number (in_phase ph) ps"
    "number at_work (ps[i := p]) = number at_work ps" for ph
    using i st by (simp_all add: number_keep in_phase_def at_work_def)
  moreover have "unat (wc_active (counters c')) = number counted (ps[i := p])"
    using i st ok active word_add_1_less [OF active]
    by (cases "counted (ps ! i)") (auto simp: workers_ok_def number_keep number_gain word_le_nat_alt)
  moreover have "\<forall>p \<in> set (ps[i := p]). counted p \<or> in_phase EVOKE_AM_SCHEDULER_WORKER_IDLE p"
    using ok st by (intro all_update [OF i(1)]) (auto simp: workers_ok_def)
  ultimately show ?thesis using ok st by (auto simp: workers_ok_def)
qed

lemma process_release_ok:
  assumes ok: "workers_ok limit slots (counters c) n f ps" and i: "i < length ps"
    and release: "evoke_am_scheduler_process_release_worker_launch (ps ! i, Some c) = (p, Some c')"
  shows "workers_ok limit slots (counters c') n f (ps[i := p])"
proof -
  note rl = process_release_counters [OF release]
  have keep: "number counted (ps[i := p]) = number counted ps" "number (in_phase ph) (ps[i := p]) = number (in_phase ph) ps" for ph
    using i rl by (simp_all add: number_keep in_phase_def)
  have all: "\<forall>p \<in> set (ps[i := p]). counted p \<or> in_phase EVOKE_AM_SCHEDULER_WORKER_IDLE p"
    using ok rl i by (intro all_update [OF i]) (auto simp: workers_ok_def in_phase_def)
  show ?thesis
  proof (cases "reserved (ps ! i)")
    case False
    then have "p = ps ! i" "c' = c" using rl by simp_all
    then show ?thesis using ok by simp
  next
    case True
    have loss: "number reserved (ps[i := p]) = number reserved ps - 1" "0 < number reserved ps"
      using True i rl by (simp_all add: number_loss number_pos)
    have work: "number at_work (ps[i := p]) \<le> number at_work ps"
      using True by (intro number_shrink i) (simp add: at_work_def)
    then have "int (Suc n + number at_work (ps[i := p])) \<le> limit + 1 + int f" and within: "int (n + number at_work (ps[i := p])) \<le> limit + int f"
      using workers_okD(8) [OF ok] by linarith+
    then have "workers_ok (limit + 1) slots (counters c) (Suc n) f (ps[i := p])" using ok keep all loss work by (auto simp: workers_ok_def)
    then have "workers_ok (limit + 1) slots (counters c') n f (ps[i := p])" using release_ok rl True by auto
    then show ?thesis using within by (simp add: workers_ok_def)
  qed
qed

lemma other_phases:
  assumes "i < length ps" "p = (ps ! i)\<lparr>evoke_scheduler_process_phase := phase\<rparr>"
  shows "number counted (ps[i := p]) = number counted ps" "number reserved (ps[i := p]) = number reserved ps"
    "number at_work (ps[i := p]) = number at_work ps"
    "ph \<noteq> phase \<Longrightarrow> ph \<noteq> evoke_scheduler_process_phase (ps ! i) \<Longrightarrow> number (in_phase ph) (ps[i := p]) = number (in_phase ph) ps"
    "ph \<noteq> phase \<Longrightarrow> ph = evoke_scheduler_process_phase (ps ! i) \<Longrightarrow> number (in_phase ph) (ps[i := p]) = number (in_phase ph) ps - 1"
    "ph = phase \<Longrightarrow> ph \<noteq> evoke_scheduler_process_phase (ps ! i) \<Longrightarrow> number (in_phase ph) (ps[i := p]) = number (in_phase ph) ps + 1"
  using assms by (simp_all add: number_keep number_loss number_gain in_phase_def at_work_def)

lemma phase_ok:
  assumes ok: "workers_ok limit slots (counters c) n f ps" and slots: "slots < 4294967295"
    and i: "i < length ps" "counted (ps ! i) \<or> phase = EVOKE_AM_SCHEDULER_WORKER_IDLE"
    and set_phase: "evoke_am_scheduler_process_set_phase phase (ps ! i, Some c) = (p, Some c')"
  shows "workers_ok limit slots (counters c') n f (ps[i := p])"
proof -
  note ph = phase_counters [OF set_phase]
  note D = workers_okD [OF ok]
  show ?thesis
  proof (cases "evoke_scheduler_process_phase (ps ! i) = phase")
    case True
    then have "p = ps ! i" "c' = c" using set_phase by (simp_all add: evoke_am_scheduler_process_set_phase_def)
    then show ?thesis using ok by simp
  next
    case False
    have all: "\<forall>p \<in> set (ps[i := p]). counted p \<or> in_phase EVOKE_AM_SCHEDULER_WORKER_IDLE p"
      using ok ph i by (intro all_update [OF i(1)]) (auto simp: workers_ok_def in_phase_def)
    have "\<forall>p \<in> set ps. counted p \<or> in_phase EVOKE_AM_SCHEDULER_WORKER_IDLE p" using D(7) by blast
    note phases = number_phase [OF this]
    have "unat (wc_preload (counters c)) < 4294967295" "unat (wc_maintenance (counters c)) < 4294967295"
      using phases [of EVOKE_AM_SCHEDULER_WORKER_PRELOAD] phases [of EVOKE_AM_SCHEDULER_WORKER_MAINTENANCE] D(1,4,5)
        counted_less [OF ok slots] by simp_all
    note bounds = enter_leave(1) [OF this(1)] enter_leave(1) [OF this(2)] enter_leave(2)
    note others = other_phases [OF i(1), of p phase]
    have c': "counters c' = count_phase enter phase (count_phase leave (evoke_scheduler_process_phase (ps ! i)) (counters c))"
      and p: "p = (ps ! i)\<lparr>evoke_scheduler_process_phase := phase\<rparr>" using ph False by simp_all
    have "unat (wc_preload (counters c')) = number (in_phase EVOKE_AM_SCHEDULER_WORKER_PRELOAD) (ps[i := p])"
      "unat (wc_maintenance (counters c')) = number (in_phase EVOKE_AM_SCHEDULER_WORKER_MAINTENANCE) (ps[i := p])"
      "wc_active (counters c') = wc_active (counters c)" "wc_pending (counters c') = wc_pending (counters c)"
      "wc_last_launch (counters c') = wc_last_launch (counters c)"
      using others(4-6) [OF p] bounds D(4,5) False
      by (cases phase; cases "evoke_scheduler_process_phase (ps ! i)"; simp add: c' count_phase_def)+
    then show ?thesis using ok all others(1-3) [OF p] by (auto simp: workers_ok_def)
  qed
qed

lemma uncount_ok:
  assumes ok: "workers_ok limit slots (counters c) n f ps" and i: "i < length ps" "in_phase EVOKE_AM_SCHEDULER_WORKER_IDLE (ps ! i)"
    and finished: "process_uncount (ps ! i, Some c) = (p, Some c')"
  shows "workers_ok limit slots (counters c') n f (ps[i := p])"
proof -
  note un = uncount_counters [OF finished]
  have keep: "number reserved (ps[i := p]) = number reserved ps" "number (in_phase ph) (ps[i := p]) = number (in_phase ph) ps" for ph
    by (rule number_keep [OF i(1)]; use un in \<open>simp add: in_phase_def\<close>)+
  have "number at_work (ps[i := p]) \<le> number at_work ps"
    by (rule number_shrink [OF i(1)]) (use un in \<open>simp add: at_work_def\<close>)
  moreover have "unat (wc_active (counters c')) = number counted (ps[i := p])"
  proof (cases "counted (ps ! i)")
    case True
    then show ?thesis using un number_loss [OF i(1), of counted p] workers_okD(1) [OF ok] enter_leave(2) by simp
  next
    case False
    then show ?thesis using un number_keep [OF i(1), of counted p] workers_okD(1) [OF ok] by simp
  qed
  moreover have "\<forall>p \<in> set (ps[i := p]). counted p \<or> in_phase EVOKE_AM_SCHEDULER_WORKER_IDLE p"
    using ok un i(2) by (intro all_update [OF i(1)]) (auto simp: workers_ok_def in_phase_def)
  ultimately show ?thesis using ok keep un by (auto simp: workers_ok_def)
qed

lemma worker_step_ok:
  assumes "worker_step limit slots s s'"
    "workers_ok limit slots (counters (ws_control s)) (ws_launched s) (ws_forgotten s) (ws_processes s)"
    and limit: "1 \<le> limit" "limit \<le> 2147483647" and slots: "slots < 4294967295"
  shows "workers_ok limit slots (counters (ws_control s')) (ws_launched s') (ws_forgotten s') (ws_processes s')"
  using assms(1,2)
proof (induction rule: worker_step.induct)
  case launch
  then show ?case using launch_ok [OF _ limit] by auto
next
  case launch_refused
  then show ?case using refused_ok by auto
next
  case launch_failed
  then show ?case using release_ok by auto
next
  case adopt
  then show ?case using adopt_ok [OF _ slots] by auto
next
  case started
  then show ?case using started_ok [OF _ slots] by auto
next
  case release
  then show ?case using process_release_ok by auto
next
  case change_phase
  then show ?case using phase_ok [OF _ slots] by auto
next
  case finished
  then show ?case using uncount_ok by auto
next
  case other_call
  then show ?case using perform_keeps_counters by auto
qed

text \<open>
  C38. The worker counters are exact. In every state that launchers, workers and other callers of the scheduler can reach in any
  interleaving of their critical sections, with any reservations timing out at any launch, the counter of active workers is the number of processes that have
  counted themselves and not finished, and the phase counters are the numbers of workers in the phases. The pending launches never exceed the workers that are
  reserved or still hold their reservation, and fall short of them by no more than the reservations that were forgotten in a timeout; likewise the launched and
  working processes together never exceed the worker limit by more than the forgotten reservations. So as long as none times out the
  pending counter is exact and the limit holds. (The sessions' limits are at most \<open>limit\<close>, an \<open>int\<close>; the server has \<open>slots\<close> worker processes,
  of which PostgreSQL allows 262143.)
\<close>

theorem worker_counters_exact:
  assumes "workers_reachable limit slots s" and limit: "1 \<le> limit" "limit \<le> 2147483647" and slots: "slots < 4294967295"
  shows "unat (evoke_am_scheduler_active_workers (Some (ws_control s))) = number counted (ws_processes s) \<and>
         unat (sc_active_preload_workers (ws_control s)) =
           number (in_phase EVOKE_AM_SCHEDULER_WORKER_PRELOAD) (ws_processes s) \<and>
         unat (sc_active_index_maintenance_workers (ws_control s)) =
           number (in_phase EVOKE_AM_SCHEDULER_WORKER_MAINTENANCE) (ws_processes s) \<and>
         unat (sc_pending_maintenance_worker_launches (ws_control s)) \<le> ws_launched s + number reserved (ws_processes s) \<and>
         ws_launched s + number reserved (ws_processes s) \<le>
           unat (sc_pending_maintenance_worker_launches (ws_control s)) + ws_forgotten s \<and>
         int (ws_launched s + number at_work (ws_processes s)) \<le> limit + int (ws_forgotten s)"
proof -
  have "workers_ok limit slots (counters (ws_control s)) (ws_launched s) (ws_forgotten s) (ws_processes s)"
    using assms(1)
  proof induction
    case (startup workers c)
    then show ?case using limit by (auto simp: evoke_am_scheduler_shmem_startup_def workers_ok_def counters_def)
  next
    case (step s s')
    then show ?case using worker_step_ok limit slots by blast
  qed
  then show ?thesis by (simp add: workers_ok_def counters_def evoke_am_scheduler_active_workers_def)
qed

text \<open>
  A limit of two workers: one has adopted its launch and works, one more is registered, and when that one takes too long a third is launched. The
  bound is attained.
\<close>

definition sample_workers :: worker_system where
  "sample_workers =
     (let start = the (evoke_am_scheduler_shmem_startup 2)
      in \<lparr>ws_control = start\<lparr>sc_active_background_workers := 1, sc_active_index_maintenance_workers := 1,
             sc_pending_maintenance_worker_launches := 1, sc_last_maintenance_worker_launch := 20\<rparr>,
          ws_launched = 2, ws_forgotten = 1,
          ws_processes = [\<lparr>evoke_scheduler_process_counted_active = True, evoke_scheduler_process_launch_reserved = False,
            evoke_scheduler_process_phase = EVOKE_AM_SCHEDULER_WORKER_MAINTENANCE\<rparr>]\<rparr>)"

text \<open>A process that is counted, with a reservation or not and in some phase.\<close>

definition sample_process :: "bool \<Rightarrow> evoke_am_scheduler_worker_phase \<Rightarrow> scheduler_process" where
  "sample_process res phase = \<lparr>evoke_scheduler_process_counted_active = True, evoke_scheduler_process_launch_reserved = res,
     evoke_scheduler_process_phase = phase\<rparr>"

abbreviation sample_state :: "evoke_am_scheduler_control \<Rightarrow> nat \<Rightarrow> nat \<Rightarrow> scheduler_process list \<Rightarrow> worker_system" where
  "sample_state c n f ps \<equiv> \<lparr>ws_control = c, ws_launched = n, ws_forgotten = f, ws_processes = ps\<rparr>"

lemma sample_workers_reachable: "workers_reachable 2 8 sample_workers"
proof -
  obtain c where c: "evoke_am_scheduler_shmem_startup 2 = Some c" by (simp add: evoke_am_scheduler_shmem_startup_def)
  have zero: "sc_active_background_workers c = 0" "sc_pending_maintenance_worker_launches c = 0"
    "sc_active_index_maintenance_workers c = 0" "sc_last_maintenance_worker_launch c = 0"
    using c by (auto simp: evoke_am_scheduler_shmem_startup_def)
  let ?idle = EVOKE_AM_SCHEDULER_WORKER_IDLE and ?busy = EVOKE_AM_SCHEDULER_WORKER_MAINTENANCE
  define c1 where "c1 = c\<lparr>sc_pending_maintenance_worker_launches := 1, sc_last_maintenance_worker_launch := 7\<rparr>"
  define c2 where "c2 = c1\<lparr>sc_active_background_workers := 1\<rparr>"
  define c3 where "c3 = c2\<lparr>sc_pending_maintenance_worker_launches := 0, sc_last_maintenance_worker_launch := 0\<rparr>"
  define c4 where "c4 = c3\<lparr>sc_active_index_maintenance_workers := 1\<rparr>"
  define c5 where "c5 = c4\<lparr>sc_pending_maintenance_worker_launches := 1, sc_last_maintenance_worker_launch := 9\<rparr>"
  define c6 where "c6 = c5\<lparr>sc_last_maintenance_worker_launch := 20\<rparr>"
  note steps = evoke_am_scheduler_try_reserve_worker_launch_def evoke_am_scheduler_prune_worker_launches_locked_def
    evoke_am_scheduler_process_adopt_worker_launch_def evoke_am_scheduler_process_note_started_def
    evoke_am_scheduler_note_worker_started_def evoke_am_scheduler_process_release_worker_launch_def
    evoke_am_scheduler_release_worker_launch_def evoke_am_scheduler_process_set_phase_def
    evoke_am_scheduler_change_worker_phase_def evoke_am_scheduler_phase_counter_def fresh_process_def sample_process_def
    timed_out_def zero word_less_nat_alt word_le_nat_alt c1_def c2_def c3_def c4_def c5_def c6_def
  have r0: "workers_reachable 2 8 (sample_state c 0 0 [])" using c by (rule workers_reachable.startup)
  have s1: "worker_step 2 8 (sample_state c 0 0 []) (sample_state c1 (Suc 0) (0 + timed_out (\<lambda>_ _ _. False) 7 c) [])"
    by (rule worker_step.launch [of _ _ _ 2]) (simp_all add: steps)
  have s2: "worker_step 2 8 (sample_state c1 (Suc 0) 0 []) (sample_state c2 0 0 ([] @ [sample_process True ?idle]))"
    by (rule worker_step.adopt) (simp_all add: steps)
  have s3: "worker_step 2 8 (sample_state c2 0 0 [sample_process True ?idle])
      (sample_state c3 0 0 ([sample_process True ?idle][0 := sample_process False ?idle]))"
    by (rule worker_step.release) (simp_all add: steps)
  have s4: "worker_step 2 8 (sample_state c3 0 0 [sample_process False ?idle])
      (sample_state c4 0 0 ([sample_process False ?idle][0 := sample_process False ?busy]))"
    by (rule worker_step.change_phase [where phase = ?busy]) (simp_all add: steps)
  have s5: "worker_step 2 8 (sample_state c4 0 0 [sample_process False ?busy])
      (sample_state c5 (Suc 0) (0 + timed_out (\<lambda>_ _ _. False) 9 c4) [sample_process False ?busy])"
    by (rule worker_step.launch [of _ _ _ 2]) (simp_all add: steps)
  have s6: "worker_step 2 8 (sample_state c5 (Suc 0) 0 [sample_process False ?busy])
      (sample_state c6 (Suc (Suc 0)) (0 + timed_out (\<lambda>_ _ _. True) 20 c5) [sample_process False ?busy])"
    by (rule worker_step.launch [of _ _ _ 2]) (simp_all add: steps)
  have forgotten: "timed_out (\<lambda>_ _ _. False) 7 c = 0" "timed_out (\<lambda>_ _ _. False) 9 c4 = 0" "timed_out (\<lambda>_ _ _. True) 20 c5 = 1"
    by (simp_all add: steps)
  note states = forgotten add_0 append_Nil list_update_code
  note r2 = workers_reachable.step [OF workers_reachable.step [OF r0 s1, unfolded states] s2, unfolded states]
  note r4 = workers_reachable.step [OF workers_reachable.step [OF r2 s3, unfolded states] s4, unfolded states]
  note r6 = workers_reachable.step [OF workers_reachable.step [OF r4 s5, unfolded states] s6, unfolded states]
  then show ?thesis using c by (simp add: sample_workers_def sample_process_def c1_def c2_def c3_def c4_def c5_def c6_def zero numeral_2_eq_2)
qed

lemma worker_counters_exact_witness:
  "workers_reachable 2 8 sample_workers \<and>
   unat (evoke_am_scheduler_active_workers (Some (ws_control sample_workers))) = 1 \<and>
   number counted (ws_processes sample_workers) = 1 \<and> ws_launched sample_workers = 2 \<and> ws_forgotten sample_workers = 1"
proof -
  have "number counted (ws_processes sample_workers) = 1" "ws_launched sample_workers = 2" "ws_forgotten sample_workers = 1"
    by (simp_all add: sample_workers_def number_def Let_def)
  then show ?thesis using worker_counters_exact [OF sample_workers_reachable] sample_workers_reachable by simp
qed

end
