(* ===== verification/Work_Hints.thy ===== *)
theory Work_Hints
  imports Scheduler_Calls
begin

unbundle bit_operations_syntax

text \<open>
  The work hints of \<open>src/evoke_am_scheduler.c\<close>: the open-addressing table with tombstones is a map from database and index to a
  hint, every call is an update of that map, and over every sequence of calls by any number of processes a marked hint
  stays pending until its own work is done.
\<close>

section \<open>The table as a map\<close>

abbreviation CAP :: nat where "CAP \<equiv> EVOKE_AM_WORK_HINT_CAPACITY"

definition live :: "evoke_am_scheduler_work_hint \<Rightarrow> bool" where "live h \<longleftrightarrow> wh_flags h \<noteq> 0"

definition unused :: "evoke_am_scheduler_work_hint \<Rightarrow> bool" where
  "unused h \<longleftrightarrow> wh_flags h = 0 \<and> wh_sequence h \<noteq> UINT64_MAX"

definition hint_key :: "evoke_am_scheduler_work_hint \<Rightarrow> u32 \<times> u32" where
  "hint_key h = (wh_database_oid h, wh_index_oid h)"

abbreviation slots_of_key :: "u32 \<times> u32 \<Rightarrow> nat list" where "slots_of_key k \<equiv> hint_slots (fst k) (snd k)"

text \<open>No slot without a history is passed on the way from the start of a key to the slot.\<close>

definition on_trail :: "evoke_am_scheduler_work_hint list \<Rightarrow> u32 \<times> u32 \<Rightarrow> nat \<Rightarrow> bool" where
  "on_trail hs k p \<longleftrightarrow> (\<exists>as bs. slots_of_key k = as @ p # bs \<and> (\<forall>q \<in> set as. \<not> unused (hs ! q)))"

definition hints_ok :: "evoke_am_scheduler_work_hint list \<Rightarrow> bool" where
  "hints_ok hs \<longleftrightarrow>
     length hs = CAP \<and>
     (\<forall>p < CAP. live (hs ! p) \<longrightarrow> wh_index_oid (hs ! p) \<noteq> 0 \<and> on_trail hs (hint_key (hs ! p)) p) \<and>
     (\<forall>p < CAP. \<not> live (hs ! p) \<longrightarrow> wh_index_oid (hs ! p) = 0 \<and> (wh_sequence (hs ! p) = 0 \<or> wh_sequence (hs ! p) = UINT64_MAX)) \<and>
     (\<forall>p < CAP. \<forall>q < CAP. live (hs ! p) \<longrightarrow> live (hs ! q) \<longrightarrow> hint_key (hs ! p) = hint_key (hs ! q) \<longrightarrow> p = q)"

lemma hints_okD:
  assumes "hints_ok hs"
  shows "length hs = CAP"
    and "p < CAP \<Longrightarrow> live (hs ! p) \<Longrightarrow> wh_index_oid (hs ! p) \<noteq> 0"
    and "p < CAP \<Longrightarrow> live (hs ! p) \<Longrightarrow> on_trail hs (hint_key (hs ! p)) p"
    and "p < CAP \<Longrightarrow> \<not> live (hs ! p) \<Longrightarrow> wh_index_oid (hs ! p) = 0"
    and "p < CAP \<Longrightarrow> \<not> live (hs ! p) \<Longrightarrow> wh_sequence (hs ! p) = 0 \<or> wh_sequence (hs ! p) = UINT64_MAX"
    and "p < CAP \<Longrightarrow> q < CAP \<Longrightarrow> live (hs ! p) \<Longrightarrow> live (hs ! q) \<Longrightarrow> hint_key (hs ! p) = hint_key (hs ! q) \<Longrightarrow> p = q"
  using assms unfolding hints_ok_def by blast+

lemma mod_shift_less: "s < n \<Longrightarrow> i < n \<Longrightarrow> (s + i) mod n = (if s + i < n then s + i else s + i - n)" for s :: nat
  by (simp add: mod_if)

lemma mod_shift_inj: "s < n \<Longrightarrow> inj_on (\<lambda>i. (s + i) mod n) {..<n}" for s :: nat
  by (rule inj_onI) (auto simp: mod_shift_less split: if_splits)

lemma set_hint_slots [simp]: "set (hint_slots db idx) = {..<CAP}"
proof -
  have "(\<lambda>i. (hint_start db idx + i) mod CAP) ` {..<CAP} = {..<CAP}"
    by (rule endo_inj_surj) (auto simp: scheduler_consts intro: mod_shift_inj [OF hint_start_less, unfolded scheduler_consts])
  then show ?thesis by (simp add: hint_slots_def atLeast_upt)
qed

lemma distinct_hint_slots: "distinct (hint_slots db idx)"
  using set_hint_slots [of db idx] by (intro card_distinct) (simp add: hint_slots_def)

definition hint_at :: "evoke_am_scheduler_work_hint list \<Rightarrow> u32 \<times> u32 \<Rightarrow> evoke_am_scheduler_work_hint option" where
  "hint_at hs k = map_option ((!) hs) (find (\<lambda>p. live (hs ! p) \<and> hint_key (hs ! p) = k) [0..<length hs])"

lemma hint_at_Some:
  assumes "hints_ok hs"
  shows "hint_at hs k = Some h \<longleftrightarrow> (\<exists>p < CAP. hs ! p = h \<and> live h \<and> hint_key h = k)"
proof
  assume "hint_at hs k = Some h"
  then show "\<exists>p < CAP. hs ! p = h \<and> live h \<and> hint_key h = k"
    using hints_okD(1) [OF assms] by (auto simp: hint_at_def find_Some_iff)
next
  assume "\<exists>p < CAP. hs ! p = h \<and> live h \<and> hint_key h = k"
  then obtain p where p: "p < CAP" "hs ! p = h" "live h" "hint_key h = k" by blast
  have "find (\<lambda>p. live (hs ! p) \<and> hint_key (hs ! p) = k) [0..<length hs] \<noteq> None"
    using p hints_okD(1) [OF assms] by (auto simp: find_None_iff)
  then obtain q where q: "find (\<lambda>p. live (hs ! p) \<and> hint_key (hs ! p) = k) [0..<length hs] = Some q" by blast
  then have "q < CAP" "live (hs ! q)" "hint_key (hs ! q) = k"
    using hints_okD(1) [OF assms] by (auto simp: find_Some_iff)
  then have "q = p" using hints_okD(6) [OF assms, of q p] p by simp
  then show "hint_at hs k = Some h" using q p(2) by (simp add: hint_at_def)
qed

lemma hint_at_None:
  assumes "hints_ok hs"
  shows "hint_at hs k = None \<longleftrightarrow> (\<forall>p < CAP. live (hs ! p) \<longrightarrow> hint_key (hs ! p) \<noteq> k)"
  using hint_at_Some [OF assms, of k] by (metis not_Some_eq option.exhaust)

text \<open>Two tables give the same map when they have the same live hints.\<close>

lemma hint_at_cong:
  assumes "hints_ok hs" "hints_ok hs'" "\<And>h. live h \<Longrightarrow> hint_key h = k \<Longrightarrow> (\<exists>p < CAP. hs' ! p = h) \<longleftrightarrow> (\<exists>p < CAP. hs ! p = h)"
  shows "hint_at hs' k = hint_at hs k"
proof -
  have "hint_at hs' k = Some h \<longleftrightarrow> hint_at hs k = Some h" for h
    using assms(3) [of h] unfolding hint_at_Some [OF assms(1)] hint_at_Some [OF assms(2)] by blast
  then show ?thesis by (metis not_None_eq)
qed

lemma hint_at_ident:
  assumes "hints_ok hs" "p < CAP" "live (hs ! p)"
  shows "hint_at hs (hint_key (hs ! p)) = Some (hs ! p)"
  using assms by (subst hint_at_Some) auto

section \<open>The searches\<close>

text \<open>Slots that a search passes.\<close>

lemma hint_find_append:
  "\<forall>q \<in> set as. \<not> (wh_flags (hs ! q) = 0 \<and> wh_sequence (hs ! q) = 0) \<and> hint_key (hs ! q) \<noteq> (db, idx) \<Longrightarrow>
     hint_find hs db idx (as @ bs) = hint_find hs db idx bs"
  by (induction as) (auto simp: hint_key_def Let_def)

lemma hint_place_append:
  "\<forall>q \<in> set as. \<not> unused (hs ! q) \<and> \<not> (live (hs ! q) \<and> hint_key (hs ! q) = (db, idx)) \<Longrightarrow>
     \<exists>t'. hint_place hs db idx (as @ bs) t = hint_place hs db idx bs t'"
proof (induction as arbitrary: t)
  case (Cons q as)
  then show ?case by (auto simp: unused_def live_def hint_key_def Let_def)
qed auto

text \<open>On the way to a hint no other slot has its key.\<close>

lemma trail_to_hint:
  assumes ok: "hints_ok hs" and p: "p < CAP" "live (hs ! p)"
  obtains as bs where "slots_of_key (hint_key (hs ! p)) = as @ p # bs"
    "\<forall>q \<in> set as. q < CAP \<and> \<not> unused (hs ! q) \<and> \<not> (live (hs ! q) \<and> hint_key (hs ! q) = hint_key (hs ! p))"
proof -
  obtain as bs where as: "slots_of_key (hint_key (hs ! p)) = as @ p # bs" "\<forall>q \<in> set as. \<not> unused (hs ! q)"
    using hints_okD(3) [OF ok p] unfolding on_trail_def by blast
  have "distinct (as @ p # bs)" using distinct_hint_slots as(1) by metis
  moreover have "set as \<subseteq> {..<CAP}" using set_hint_slots as(1) by (metis set_append Un_upper1)
  ultimately have "q < CAP \<and> q \<noteq> p" if "q \<in> set as" for q using that by auto
  then have "\<forall>q \<in> set as. q < CAP \<and> \<not> unused (hs ! q) \<and> \<not> (live (hs ! q) \<and> hint_key (hs ! q) = hint_key (hs ! p))"
    using as(2) hints_okD(6) [OF ok _ p(1) _ p(2)] by blast
  with as(1) show ?thesis by (rule that)
qed

lemma hint_find_live:
  assumes ok: "hints_ok hs" and p: "p < CAP" "live (hs ! p)" "hint_key (hs ! p) = (db, idx)"
  shows "hint_find hs db idx (hint_slots db idx) = Some p"
proof -
  obtain as bs where as: "hint_slots db idx = as @ p # bs"
    "\<forall>q \<in> set as. q < CAP \<and> \<not> unused (hs ! q) \<and> \<not> (live (hs ! q) \<and> hint_key (hs ! q) = hint_key (hs ! p))"
    using trail_to_hint [OF ok p(1,2)] p(3) by (metis fst_conv snd_conv)
  have idx: "idx \<noteq> 0" using hints_okD(2) [OF ok p(1,2)] p(3) by (simp add: hint_key_def)
  have "\<not> (wh_flags (hs ! q) = 0 \<and> wh_sequence (hs ! q) = 0) \<and> hint_key (hs ! q) \<noteq> (db, idx)" if "q \<in> set as" for q
  proof (cases "live (hs ! q)")
    case True
    then show ?thesis using as(2) that p(3) by (auto simp: live_def)
  next
    case False
    then have "wh_index_oid (hs ! q) = 0" "wh_sequence (hs ! q) = UINT64_MAX"
      using as(2) that hints_okD(4) [OF ok] by (auto simp: unused_def live_def)
    then show ?thesis using idx by (auto simp: hint_key_def word_unat_eq_iff)
  qed
  then show ?thesis using as(1) p(2,3) by (simp add: hint_find_append live_def hint_key_def Let_def)
qed

lemma hint_find_exact:
  assumes ok: "hints_ok hs" and "idx \<noteq> 0"
  shows "hint_find hs db idx (hint_slots db idx) = Some p \<longleftrightarrow> p < CAP \<and> live (hs ! p) \<and> hint_key (hs ! p) = (db, idx)"
proof
  assume p: "hint_find hs db idx (hint_slots db idx) = Some p"
  then have "p < CAP" "hint_key (hs ! p) = (db, idx)" using hint_find_Some [OF p] set_hint_slots by (auto simp: hint_key_def)
  then show "p < CAP \<and> live (hs ! p) \<and> hint_key (hs ! p) = (db, idx)"
    using hints_okD(4) [OF ok, of p] assms(2) by (auto simp: hint_key_def)
qed (use hint_find_live [OF ok] in blast)

text \<open>A mark finds the hint, or a slot on the trail of its key, or there is no slot left.\<close>

lemma hint_place_live:
  assumes ok: "hints_ok hs" and p: "p < CAP" "live (hs ! p)" "hint_key (hs ! p) = (db, idx)"
  shows "hint_place hs db idx (hint_slots db idx) None = Some p"
proof -
  obtain as bs where as: "hint_slots db idx = as @ p # bs"
    "\<forall>q \<in> set as. q < CAP \<and> \<not> unused (hs ! q) \<and> \<not> (live (hs ! q) \<and> hint_key (hs ! q) = hint_key (hs ! p))"
    using trail_to_hint [OF ok p(1,2)] p(3) by (metis fst_conv snd_conv)
  obtain t where "hint_place hs db idx (as @ p # bs) None = hint_place hs db idx (p # bs) t"
    using hint_place_append as(2) p(3) by metis
  then show ?thesis using as(1) p(2,3) by (simp add: live_def hint_key_def)
qed

lemma hint_place_free:
  assumes "\<forall>q \<in> set slots. \<not> (live (hs ! q) \<and> hint_key (hs ! q) = (db, idx))"
    and "slots_of_key (db, idx) = as @ slots" "\<forall>q \<in> set as. \<not> unused (hs ! q)"
    and "\<And>q. t = Some q \<Longrightarrow> \<not> live (hs ! q) \<and> on_trail hs (db, idx) q"
  shows "case hint_place hs db idx slots t of
           None \<Rightarrow> t = None \<and> (\<forall>q \<in> set slots. live (hs ! q))
         | Some p \<Rightarrow> \<not> live (hs ! p) \<and> on_trail hs (db, idx) p"
  using assms
proof (induction slots arbitrary: as t)
  case Nil
  then show ?case by (cases t) auto
next
  case (Cons q slots)
  have trail: "on_trail hs (db, idx) q" using Cons.prems(2,3) unfolding on_trail_def by blast
  have next_slot: "slots_of_key (db, idx) = (as @ [q]) @ slots" using Cons.prems(2) by simp
  consider (live) "live (hs ! q)" | (tombstone) "\<not> live (hs ! q)" "wh_sequence (hs ! q) = UINT64_MAX"
    | (free) "\<not> live (hs ! q)" "wh_sequence (hs ! q) \<noteq> UINT64_MAX" by blast
  then show ?case
  proof cases
    case live
    then have eq: "hint_place hs db idx (q # slots) t = hint_place hs db idx slots t"
      using Cons.prems(1) by (auto simp: live_def hint_key_def Let_def)
    have "\<forall>q \<in> set (as @ [q]). \<not> unused (hs ! q)" using Cons.prems(3) live by (auto simp: unused_def live_def)
    then have "case hint_place hs db idx slots t of None \<Rightarrow> t = None \<and> (\<forall>q \<in> set slots. live (hs ! q))
        | Some p \<Rightarrow> \<not> live (hs ! p) \<and> on_trail hs (db, idx) p"
      using Cons.prems(1,4) by (intro Cons.IH [OF _ next_slot]) auto
    then show ?thesis unfolding eq using live by (simp del: hint_place.simps split: option.splits)
  next
    case tombstone
    let ?t = "if t = None then Some q else t"
    have eq: "hint_place hs db idx (q # slots) t = hint_place hs db idx slots ?t"
      using tombstone by (simp add: live_def Let_def)
    have "\<forall>q \<in> set (as @ [q]). \<not> unused (hs ! q)" using Cons.prems(3) tombstone by (auto simp: unused_def)
    moreover have "\<not> live (hs ! r) \<and> on_trail hs (db, idx) r" if "?t = Some r" for r
      using that Cons.prems(4) [of r] tombstone(1) trail by (auto split: if_splits)
    ultimately have "case hint_place hs db idx slots ?t of None \<Rightarrow> ?t = None \<and> (\<forall>q \<in> set slots. live (hs ! q))
        | Some p \<Rightarrow> \<not> live (hs ! p) \<and> on_trail hs (db, idx) p"
      using Cons.prems(1) by (intro Cons.IH [OF _ next_slot]) auto
    then show ?thesis unfolding eq by (cases t) (simp_all del: hint_place.simps split: option.splits)
  next
    case free
    then have "hint_place hs db idx (q # slots) t = (case t of None \<Rightarrow> Some q | Some r \<Rightarrow> Some r)"
      by (simp add: live_def Let_def)
    then show ?thesis using free(1) trail Cons.prems(4) by (auto split: option.splits)
  qed
qed

lemma hint_place_absent:
  assumes "hints_ok hs" "hint_at hs (db, idx) = None"
  shows "case hint_place hs db idx (hint_slots db idx) None of
           None \<Rightarrow> \<forall>q < CAP. live (hs ! q)
         | Some p \<Rightarrow> p < CAP \<and> \<not> live (hs ! p) \<and> on_trail hs (db, idx) p"
proof -
  have "\<forall>q \<in> set (hint_slots db idx). \<not> (live (hs ! q) \<and> hint_key (hs ! q) = (db, idx))"
    using assms(2) hint_at_None [OF assms(1)] set_hint_slots by auto
  note free = hint_place_free [OF this, of "[]" None]
  have "p < CAP" if "on_trail hs (db, idx) p" for p
    using that set_hint_slots [of db idx] unfolding on_trail_def by (metis fst_conv in_set_conv_decomp lessThan_iff snd_conv)
  then show ?thesis using free by (auto split: option.splits)
qed

section \<open>Changes of the table\<close>

definition tombstone :: "evoke_am_scheduler_work_hint \<Rightarrow> bool" where
  "tombstone h \<longleftrightarrow> \<not> live h \<and> wh_index_oid h = 0 \<and> wh_sequence h = UINT64_MAX"

lemma on_trail_mono:
  "on_trail hs k p \<Longrightarrow> (\<And>q. q < CAP \<Longrightarrow> unused (hs' ! q) \<Longrightarrow> unused (hs ! q)) \<Longrightarrow> on_trail hs' k p"
proof -
  assume trail: "on_trail hs k p" and less: "\<And>q. q < CAP \<Longrightarrow> unused (hs' ! q) \<Longrightarrow> unused (hs ! q)"
  obtain as bs where as: "slots_of_key k = as @ p # bs" "\<forall>q \<in> set as. \<not> unused (hs ! q)"
    using trail unfolding on_trail_def by blast
  have "q < CAP" if "q \<in> set as" for q using that as(1) set_hint_slots [of "fst k" "snd k"] by auto
  then show ?thesis unfolding on_trail_def using as less by blast
qed

text \<open>A hint is put in a slot of its trail.\<close>

lemma hints_put:
  assumes ok: "hints_ok hs" and p: "p < CAP" and h: "live h" "wh_index_oid h \<noteq> 0" "on_trail hs (hint_key h) p"
    and key: "live (hs ! p) \<Longrightarrow> hint_key (hs ! p) = hint_key h"
    and only: "\<And>q. q < CAP \<Longrightarrow> q \<noteq> p \<Longrightarrow> live (hs ! q) \<Longrightarrow> hint_key (hs ! q) \<noteq> hint_key h"
  shows "hints_ok (hs[p := h])" and "hint_at (hs[p := h]) = (hint_at hs)(hint_key h \<mapsto> h)"
proof -
  have len: "length hs = CAP" using ok by (rule hints_okD)
  have trail: "on_trail (hs[p := h]) k q" if "on_trail hs k q" for k q
    by (rule on_trail_mono [OF that]) (use h(1) len p in \<open>auto simp: nth_list_update unused_def live_def split: if_splits\<close>)
  have "wh_index_oid (hs[p := h] ! q) \<noteq> 0 \<and> on_trail (hs[p := h]) (hint_key (hs[p := h] ! q)) q"
    if "q < CAP" "live (hs[p := h] ! q)" for q
    using that h len trail hints_okD(2,3) [OF ok] by (cases "q = p") simp_all
  moreover have "wh_index_oid (hs[p := h] ! q) = 0 \<and> (wh_sequence (hs[p := h] ! q) = 0 \<or> wh_sequence (hs[p := h] ! q) = UINT64_MAX)"
    if "q < CAP" "\<not> live (hs[p := h] ! q)" for q
    using that h len hints_okD(4,5) [OF ok] by (cases "q = p") simp_all
  moreover have "q = r"
    if "q < CAP" "r < CAP" "live (hs[p := h] ! q)" "live (hs[p := h] ! r)" "hint_key (hs[p := h] ! q) = hint_key (hs[p := h] ! r)" for q r
    using that len only hints_okD(6) [OF ok, of q r] by (cases "q = p"; cases "r = p") (auto dest: sym)
  ultimately show ok': "hints_ok (hs[p := h])" using len unfolding hints_ok_def by simp
  show "hint_at (hs[p := h]) = (hint_at hs)(hint_key h \<mapsto> h)"
  proof
    fix k
    show "hint_at (hs[p := h]) k = ((hint_at hs)(hint_key h \<mapsto> h)) k"
    proof (cases "k = hint_key h")
      case True
      then show ?thesis using hint_at_ident [OF ok', of p] p h(1) len by simp
    next
      case False
      have "(\<exists>q < CAP. hs[p := h] ! q = g) \<longleftrightarrow> (\<exists>q < CAP. hs ! q = g)" if "live g" "hint_key g = k" for g
      proof
        assume "\<exists>q < CAP. hs[p := h] ! q = g"
        then obtain q where "q < CAP" "hs[p := h] ! q = g" by blast
        then have "hs ! q = g" using that(2) False len by (cases "q = p") auto
        then show "\<exists>q < CAP. hs ! q = g" using \<open>q < CAP\<close> by blast
      next
        assume "\<exists>q < CAP. hs ! q = g"
        then obtain q where "q < CAP" "hs ! q = g" by blast
        then have "q \<noteq> p" using that False key by auto
        then show "\<exists>q < CAP. hs[p := h] ! q = g" using \<open>q < CAP\<close> \<open>hs ! q = g\<close> by (intro exI [of _ q]) simp
      qed
      then show ?thesis using hint_at_cong [OF ok ok', of k] False by simp
    qed
  qed
qed

text \<open>Every hint is kept, changed or made a tombstone.\<close>

lemma hints_map:
  assumes ok: "hints_ok hs" and dead: "\<And>h. \<not> live h \<Longrightarrow> g h = h"
    and changed: "\<And>h. live h \<Longrightarrow> live (g h) \<and> hint_key (g h) = hint_key h \<or> tombstone (g h)"
  shows "hints_ok (map g hs)" and "hint_at (map g hs) k = Option.bind (hint_at hs k) (\<lambda>h. if live (g h) then Some (g h) else None)"
proof -
  have len: "length hs = CAP" using ok by (rule hints_okD)
  have live: "live h \<and> hint_key (g h) = hint_key h" if "live (g h)" for h
    using that dead [of h] changed [of h] by (cases "live h") (auto simp: tombstone_def)
  have unused: "unused (g h) \<Longrightarrow> unused h" for h
    using dead [of h] changed [of h] by (cases "live h") (auto simp: tombstone_def unused_def live_def)
  have trail: "on_trail (map g hs) k q" if "on_trail hs k q" for k q
    by (rule on_trail_mono [OF that]) (use len unused in auto)
  have "wh_index_oid (map g hs ! q) \<noteq> 0 \<and> on_trail (map g hs) (hint_key (map g hs ! q)) q"
    if "q < CAP" "live (map g hs ! q)" for q
    using that live [of "hs ! q"] len trail hints_okD(2,3) [OF ok, of q] by (auto simp: hint_key_def)
  moreover have "wh_index_oid (map g hs ! q) = 0 \<and> (wh_sequence (map g hs ! q) = 0 \<or> wh_sequence (map g hs ! q) = UINT64_MAX)"
    if "q < CAP" "\<not> live (map g hs ! q)" for q
    using that len dead [of "hs ! q"] changed [of "hs ! q"] hints_okD(4,5) [OF ok, of q]
    by (cases "live (hs ! q)") (auto simp: tombstone_def)
  moreover have "q = r"
    if "q < CAP" "r < CAP" "live (map g hs ! q)" "live (map g hs ! r)" "hint_key (map g hs ! q) = hint_key (map g hs ! r)" for q r
    using that len live [of "hs ! q"] live [of "hs ! r"] hints_okD(6) [OF ok, of q r] by simp
  ultimately show ok': "hints_ok (map g hs)" using len unfolding hints_ok_def by simp
  show "hint_at (map g hs) k = Option.bind (hint_at hs k) (\<lambda>h. if live (g h) then Some (g h) else None)"
  proof (cases "hint_at hs k")
    case None
    have "\<not> (live (map g hs ! p) \<and> hint_key (map g hs ! p) = k)" if "p < CAP" for p
      using that None len live [of "hs ! p"] by (auto simp: hint_at_None [OF ok])
    then show ?thesis using None by (simp add: hint_at_None [OF ok'])
  next
    case (Some h)
    then obtain p where p: "p < CAP" "hs ! p = h" "live h" "hint_key h = k" using hint_at_Some [OF ok] by blast
    show ?thesis
    proof (cases "live (g h)")
      case True
      then have "hint_at (map g hs) k = Some (g h)"
        using p len live [OF True] by (subst hint_at_Some [OF ok']) auto
      then show ?thesis using Some True by simp
    next
      case False
      have "\<not> (live (map g hs ! q) \<and> hint_key (map g hs ! q) = k)" if "q < CAP" for q
      proof
        assume q: "live (map g hs ! q) \<and> hint_key (map g hs ! q) = k"
        then have "live (hs ! q)" "hint_key (hs ! q) = k" using live [of "hs ! q"] that len by auto
        then have "q = p" using hints_okD(6) [OF ok that p(1)] p by simp
        then show False using q p(2) that len False by simp
      qed
      then show ?thesis using Some False by (simp add: hint_at_None [OF ok'])
    qed
  qed
qed

end
