(* ===== verification/Hint_Map.thy ===== *)
theory Hint_Map
  imports Work_Hints
begin

unbundle bit_operations_syntax

text \<open>
  The table of work hints refines a map. The specification below says what every call of \<open>src/evoke_am_scheduler.c\<close> does to
  a finite map from database and index to a hint, without slots, probing or tombstones; in every reachable state each call on the table
  is that call on the map.
\<close>

section \<open>The calls on a map\<close>

type_synonym hint_map = "u32 \<times> u32 \<Rightarrow> evoke_am_scheduler_work_hint option"

definition sequence_after :: "u64 \<Rightarrow> u64" where "sequence_after s = (if s = UINT64_MAX then 1 else s + 1)"

definition map_has_room :: "hint_map \<Rightarrow> bool" where "map_has_room m \<longleftrightarrow> card (dom m) < EVOKE_AM_WORK_HINT_CAPACITY"

definition map_mark :: "u32 \<Rightarrow> int \<Rightarrow> u32 \<Rightarrow> u8 \<Rightarrow> hint_map \<times> u64 \<Rightarrow> hint_map \<times> u64" where
  "map_mark db now idx flags = (\<lambda>(m, s).
     case m (db, idx) of
       Some h \<Rightarrow>
         (m((db, idx) \<mapsto> h\<lparr>wh_flags := wh_flags h OR flags, wh_sequence := sequence_after s,
            wh_maintenance_first_marked_at :=
              (if flags AND EVOKE_AM_WORK_HINT_MAINTENANCE \<noteq> 0 \<and> wh_flags h AND EVOKE_AM_WORK_HINT_MAINTENANCE = 0 then now
               else wh_maintenance_first_marked_at h)\<rparr>), sequence_after s)
     | None \<Rightarrow>
         if map_has_room m
         then (m((db, idx) \<mapsto> \<lparr>wh_database_oid = db, wh_index_oid = idx, wh_flags = flags, wh_sequence = sequence_after s,
            wh_maintenance_first_marked_at = (if flags AND EVOKE_AM_WORK_HINT_MAINTENANCE \<noteq> 0 then now else 0),
            wh_accelerator_retry_after = 0\<rparr>), sequence_after s)
         else (m, s))"

definition map_defer :: "u32 \<Rightarrow> int \<Rightarrow> u32 \<Rightarrow> int \<Rightarrow> hint_map \<times> u64 \<Rightarrow> hint_map \<times> u64" where
  "map_defer db now idx retry_after = (\<lambda>(m, s).
     case m (db, idx) of
       Some h \<Rightarrow>
         (m((db, idx) \<mapsto> h\<lparr>wh_flags := wh_flags h OR EVOKE_AM_WORK_HINT_MAINTENANCE,
            wh_maintenance_first_marked_at :=
              (if wh_maintenance_first_marked_at h = 0 then now else wh_maintenance_first_marked_at h),
            wh_accelerator_retry_after := retry_after\<rparr>), s)
     | None \<Rightarrow>
         if map_has_room m
         then (m((db, idx) \<mapsto> \<lparr>wh_database_oid = db, wh_index_oid = idx, wh_flags = EVOKE_AM_WORK_HINT_MAINTENANCE,
            wh_sequence = sequence_after s, wh_maintenance_first_marked_at = now, wh_accelerator_retry_after = retry_after\<rparr>),
            sequence_after s)
         else (m, s))"

text \<open>What is left of a hint when a flag of it is done.\<close>

definition without_flag :: "u8 \<Rightarrow> evoke_am_scheduler_work_hint \<Rightarrow> evoke_am_scheduler_work_hint option" where
  "without_flag flag h =
     (if wh_flags h AND NOT flag = 0 then None
      else Some (h\<lparr>wh_flags := wh_flags h AND NOT flag,
        wh_maintenance_first_marked_at :=
          (if flag = EVOKE_AM_WORK_HINT_MAINTENANCE then 0 else wh_maintenance_first_marked_at h),
        wh_accelerator_retry_after := (if flag = EVOKE_AM_WORK_HINT_MAINTENANCE then 0 else wh_accelerator_retry_after h)\<rparr>))"

definition map_hint ::
  "u32 \<times> u32 \<Rightarrow> (evoke_am_scheduler_work_hint \<Rightarrow> evoke_am_scheduler_work_hint option) \<Rightarrow> hint_map \<Rightarrow> hint_map" where
  "map_hint k f m = m(k := Option.bind (m k) f)"

fun map_call :: "u32 \<times> int \<times> scheduler_call \<Rightarrow> hint_map \<times> u64 \<Rightarrow> hint_map \<times> u64" where
  "map_call (db, now, Work_hint_mark idx flags) (m, s) = (if idx = 0 \<or> flags = 0 then (m, s) else map_mark db now idx flags (m, s))"
| "map_call (db, now, Work_hint_defer_accelerator idx interval) (m, s) =
     (if idx = 0 then (m, s)
      else map_defer db now idx (min PG_INT64_MAX (now + max interval 1 * 1000)) (m, s))"
| "map_call (db, now, Work_hint_consume flag) (m, s) =
     (if evoke_am_scheduler_valid_work_class flag
      then (\<lambda>k. Option.bind (m k) (\<lambda>h. if fst k = db \<and> wh_flags h AND flag \<noteq> 0 then without_flag flag h else Some h), s)
      else (m, s))"
| "map_call (db, now, Work_hint_clear_if_unchanged idx flag sequence) (m, s) =
     (if idx = 0 \<or> sequence = 0 \<or> flag = 0 then (m, s)
      else (map_hint (db, idx) (\<lambda>h. if wh_sequence h = sequence \<and> wh_flags h AND flag \<noteq> 0 then without_flag flag h else Some h) m, s))"
| "map_call (db, now, Work_hint_reset_age idx flag) (m, s) =
     (if idx = 0 \<or> flag \<noteq> EVOKE_AM_WORK_HINT_MAINTENANCE then (m, s)
      else (map_hint (db, idx) (\<lambda>h. Some (if wh_flags h AND flag \<noteq> 0 then h\<lparr>wh_maintenance_first_marked_at := now\<rparr> else h)) m, s))"
| "map_call (db, now, Work_hint_allow_accelerator_now idx) (m, s) =
     (if idx = 0 then (m, s) else (map_hint (db, idx) (\<lambda>h. Some (h\<lparr>wh_accelerator_retry_after := 0\<rparr>)) m, s))"
| "map_call call (m, s) = (m, s)"

section \<open>The table as a map\<close>

definition table_map :: "evoke_am_scheduler_control \<Rightarrow> hint_map \<times> u64" where
  "table_map c = (hint_at (sc_work_hints c), sc_work_hint_sequence c)"

definition table_ok :: "scheduler \<Rightarrow> bool" where
  "table_ok sched \<longleftrightarrow> (case hint_part sched of None \<Rightarrow> False | Some (hints, s) \<Rightarrow> hints_ok hints)"

lemma table_ok_Some [simp]: "table_ok (Some c) \<longleftrightarrow> hints_ok (sc_work_hints c)"
  by (simp add: table_ok_def)

lemma sequence_after_eq: "next_hint_sequence c = sequence_after (sc_work_hint_sequence c)"
  by (simp add: next_hint_sequence_def sequence_after_def)

lemma map_has_room:
  assumes "hints_ok hs"
  shows "map_has_room (hint_at hs) \<longleftrightarrow> (\<exists>p < CAP. \<not> live (hs ! p))"
proof -
  let ?L = "{p. p < CAP \<and> live (hs ! p)}"
  have "k \<in> dom (hint_at hs) \<longleftrightarrow> (\<exists>p < CAP. live (hs ! p) \<and> hint_key (hs ! p) = k)" for k
    by (simp add: domIff hint_at_None [OF assms])
  then have "dom (hint_at hs) = {k. \<exists>p < CAP. live (hs ! p) \<and> hint_key (hs ! p) = k}" by blast
  also have "\<dots> = (\<lambda>p. hint_key (hs ! p)) ` ?L" by blast
  finally have "dom (hint_at hs) = (\<lambda>p. hint_key (hs ! p)) ` ?L" .
  moreover have "inj_on (\<lambda>p. hint_key (hs ! p)) ?L"
    by (rule inj_onI) (use hints_okD(6) [OF assms] in blast)
  ultimately have card: "card (dom (hint_at hs)) = card ?L" by (simp add: card_image)
  have sub: "?L \<subseteq> {..<CAP}" by auto
  show ?thesis
  proof
    assume "map_has_room (hint_at hs)"
    then have "?L \<noteq> {..<CAP}" using card by (metis card_lessThan map_has_room_def nat_less_le)
    then show "\<exists>p < CAP. \<not> live (hs ! p)" by blast
  next
    assume "\<exists>p < CAP. \<not> live (hs ! p)"
    then have "?L \<subset> {..<CAP}" by auto
    then have "card ?L < CAP" using psubset_card_mono [of "{..<CAP}" ?L] by simp
    then show "map_has_room (hint_at hs)" using card by (simp add: map_has_room_def)
  qed
qed

text \<open>A store into the slot that a mark finds.\<close>

lemma hint_stored:
  assumes ok: "hints_ok hs" and idx: "idx \<noteq> 0" and place: "hint_place hs db idx (hint_slots db idx) None = Some p"
    and h: "live h" "hint_key h = (db, idx)"
  shows "hints_ok (hs[p := h])" and "hint_at (hs[p := h]) = (hint_at hs)((db, idx) \<mapsto> h)"
    and "hint_at hs (db, idx) = (if live (hs ! p) then Some (hs ! p) else None)"
    and "p < CAP" "hint_at hs (db, idx) = None \<Longrightarrow> map_has_room (hint_at hs)"
proof -
  have p: "p < CAP \<and> on_trail hs (db, idx) p \<and> (live (hs ! p) \<longrightarrow> hint_key (hs ! p) = (db, idx)) \<and>
      (\<forall>q < CAP. q \<noteq> p \<longrightarrow> live (hs ! q) \<longrightarrow> hint_key (hs ! q) \<noteq> (db, idx))"
  proof (cases "hint_at hs (db, idx)")
    case None
    then show ?thesis using hint_place_absent [OF ok None] place hint_at_None [OF ok] by auto
  next
    case (Some g)
    then obtain q where q: "q < CAP" "hs ! q = g" "live g" "hint_key g = (db, idx)" using hint_at_Some [OF ok] by blast
    then have "q = p" using hint_place_live [OF ok, of q db idx] place by simp
    then have p: "p < CAP" "live (hs ! p)" "hint_key (hs ! p) = (db, idx)" using q by auto
    have "\<forall>q < CAP. q \<noteq> p \<longrightarrow> live (hs ! q) \<longrightarrow> hint_key (hs ! q) \<noteq> (db, idx)"
      using hints_okD(6) [OF ok _ p(1) _ p(2)] p(3) by metis
    then show ?thesis using p hints_okD(3) [OF ok p(1,2)] by simp
  qed
  have index: "wh_index_oid h \<noteq> 0" using h(2) idx by (simp add: hint_key_def)
  have trail: "on_trail hs (hint_key h) p" using p h(2) by simp
  show "hints_ok (hs[p := h])" "hint_at (hs[p := h]) = (hint_at hs)((db, idx) \<mapsto> h)"
    using hints_put [OF ok _ h(1) index trail] p h(2) by auto
  show lookup: "hint_at hs (db, idx) = (if live (hs ! p) then Some (hs ! p) else None)"
    using p hint_at_ident [OF ok, of p] hint_at_None [OF ok, of "(db, idx)"] by auto
  show "p < CAP" using p by blast
  show "map_has_room (hint_at hs)" if "hint_at hs (db, idx) = None"
    using that lookup p by (subst map_has_room [OF ok]) (auto split: if_splits)
qed

text \<open>A change of the hint that a search finds.\<close>

lemma hint_changed:
  assumes ok: "hints_ok hs" and idx: "idx \<noteq> 0" and find: "hint_find hs db idx (hint_slots db idx) = Some p"
    and x: "live x \<and> hint_key x = (db, idx) \<or> tombstone x"
  shows "hints_ok (hs[p := x])" and "hint_at (hs[p := x]) = (hint_at hs)((db, idx) := (if live x then Some x else None))"
    and "hint_at hs (db, idx) = Some (hs ! p)"
proof -
  have p: "p < CAP" "live (hs ! p)" "hint_key (hs ! p) = (db, idx)" using find hint_find_exact [OF ok idx] by auto
  show at: "hint_at hs (db, idx) = Some (hs ! p)" using hint_at_ident [OF ok p(1,2)] p(3) by simp
  let ?g = "\<lambda>h. if live h \<and> hint_key h = (db, idx) then x else h"
  have len: "length hs = CAP" using ok by (rule hints_okD)
  have eq: "hs[p := x] = map ?g hs"
  proof (rule nth_equalityI)
    fix q assume "q < length (hs[p := x])"
    then show "hs[p := x] ! q = map ?g hs ! q" using p len hints_okD(6) [OF ok, of q p] by (cases "q = p") auto
  qed simp
  have g: "live h \<Longrightarrow> live (?g h) \<and> hint_key (?g h) = hint_key h \<or> tombstone (?g h)" for h using x by auto
  show "hints_ok (hs[p := x])" unfolding eq by (rule hints_map(1) [OF ok _ g]) simp_all
  show "hint_at (hs[p := x]) = (hint_at hs)((db, idx) := (if live x then Some x else None))"
  proof
    fix k
    have "hint_at (hs[p := x]) k = Option.bind (hint_at hs k) (\<lambda>h. if live (?g h) then Some (?g h) else None)"
      unfolding eq by (rule hints_map(2) [OF ok _ g]) simp_all
    moreover have "live h \<and> hint_key h = k" if "hint_at hs k = Some h" for h using that hint_at_Some [OF ok] by blast
    ultimately show "hint_at (hs[p := x]) k = ((hint_at hs)((db, idx) := (if live x then Some x else None))) k"
      using at p(2,3) by (cases "hint_at hs k") auto
  qed
qed

lemma cleared_if_inactive:
  assumes "hints_ok hs"
  shows "hints_ok (clear_if_inactive hs)" and "hint_at (clear_if_inactive hs) = hint_at hs"
proof -
  have len: "length hs = CAP" using assms by (rule hints_okD)
  have zero: "hints_ok (replicate CAP zero_hint)" by (simp add: hints_ok_def live_def zero_hint_def)
  show "hints_ok (clear_if_inactive hs)" using assms zero len by (simp add: clear_if_inactive_def)
  have "hint_at (replicate CAP zero_hint) k = hint_at hs k" if "\<not> (\<exists>h \<in> set hs. wh_flags h \<noteq> 0)" for k
  proof -
    have "hint_at hs k = None" using that len by (auto simp: hint_at_None [OF assms] live_def)
    moreover have "\<not> live zero_hint" by (simp add: live_def zero_hint_def)
    ultimately show ?thesis by (simp add: hint_at_None [OF zero])
  qed
  then show "hint_at (clear_if_inactive hs) = hint_at hs" using len by (auto simp: clear_if_inactive_def)
qed

section \<open>Every call is the call on the map\<close>

definition refines :: "u32 \<times> int \<times> scheduler_call \<Rightarrow> evoke_am_scheduler_control \<Rightarrow> scheduler \<Rightarrow> bool" where
  "refines call c sched \<longleftrightarrow> (\<exists>c'. sched = Some c' \<and> hints_ok (sc_work_hints c') \<and> table_map c' = map_call call (table_map c))"

lemma refines_same:
  "hints_ok (sc_work_hints c) \<Longrightarrow> hint_part sched = hint_part (Some c) \<Longrightarrow> map_call call (table_map c) = table_map c \<Longrightarrow> refines call c sched"
  by (cases sched) (auto simp: refines_def table_map_def)

lemma flags_or_0: "(a :: u8) \<noteq> 0 \<Longrightarrow> a OR b \<noteq> 0" "(b :: u8) \<noteq> 0 \<Longrightarrow> a OR b \<noteq> 0"
  by (simp_all add: or_eq_0_iff)

text \<open>The stored hints; a slot without a hint is overwritten in every field.\<close>

lemma marked_hint_eq:
  "live h \<Longrightarrow> marked_hint db now idx flags s h = h\<lparr>wh_flags := wh_flags h OR flags, wh_sequence := s,
     wh_maintenance_first_marked_at :=
       (if flags AND EVOKE_AM_WORK_HINT_MAINTENANCE \<noteq> 0 \<and> wh_flags h AND EVOKE_AM_WORK_HINT_MAINTENANCE = 0 then now
        else wh_maintenance_first_marked_at h)\<rparr>"
  "\<not> live h \<Longrightarrow> marked_hint db now idx flags s h = \<lparr>wh_database_oid = db, wh_index_oid = idx, wh_flags = flags, wh_sequence = s,
     wh_maintenance_first_marked_at = (if flags AND EVOKE_AM_WORK_HINT_MAINTENANCE \<noteq> 0 then now else 0),
     wh_accelerator_retry_after = 0\<rparr>"
  by (cases h; simp add: marked_hint_def live_def Let_def)+

lemma deferred_hint_eq:
  "live h \<Longrightarrow> deferred_hint db now idx s retry h = h\<lparr>wh_flags := wh_flags h OR EVOKE_AM_WORK_HINT_MAINTENANCE,
     wh_maintenance_first_marked_at := (if wh_maintenance_first_marked_at h = 0 then now else wh_maintenance_first_marked_at h),
     wh_accelerator_retry_after := retry\<rparr>"
  "\<not> live h \<Longrightarrow> deferred_hint db now idx s retry h = \<lparr>wh_database_oid = db, wh_index_oid = idx,
     wh_flags = EVOKE_AM_WORK_HINT_MAINTENANCE, wh_sequence = s, wh_maintenance_first_marked_at = now,
     wh_accelerator_retry_after = retry\<rparr>"
  by (cases h; simp add: deferred_hint_def live_def Let_def)+

lemma mark_refines:
  assumes ok: "hints_ok (sc_work_hints c)"
  shows "refines (db, now, Work_hint_mark idx flags) c (snd (hint_mark_section db now (Some c) idx flags))"
proof (cases "idx = 0 \<or> flags = 0")
  case True
  then show ?thesis using ok by (intro refines_same) (auto simp: hint_mark_section_def table_map_def)
next
  case False
  let ?hs = "sc_work_hints c"
  show ?thesis
  proof (cases "hint_place ?hs db idx (hint_slots db idx) None")
    case None
    have absent: "hint_at ?hs (db, idx) = None"
      using None hint_place_live [OF ok, of _ db idx] by (auto simp: hint_at_None [OF ok])
    then have "\<forall>q < CAP. live (?hs ! q)" using hint_place_absent [OF ok absent] None by simp
    then have "\<not> map_has_room (hint_at ?hs)" by (simp add: map_has_room [OF ok])
    then show ?thesis using ok None False absent
      by (intro refines_same) (auto simp: hint_mark_section_def keeps_hints table_map_def map_mark_def)
  next
    case (Some p)
    let ?h = "marked_hint db now idx flags (next_hint_sequence c) (?hs ! p)"
    have h: "live ?h" "hint_key ?h = (db, idx)"
      using False hint_place_Some [OF Some] by (auto simp: marked_hint_def Let_def live_def hint_key_def flags_or_0)
    note st = hint_stored [OF ok _ Some h]
    have idx: "idx \<noteq> 0" using False by simp
    have "map_mark db now idx flags (table_map c) = (hint_at (?hs[p := ?h]), next_hint_sequence c)"
    proof (cases "live (?hs ! p)")
      case True
      then show ?thesis using idx
        by (simp add: st(2,3) map_mark_def table_map_def) (simp add: marked_hint_eq sequence_after_eq)
    next
      case dead: False
      then have "map_has_room (hint_at ?hs)" using st(3,5) idx by simp
      then show ?thesis using idx dead
        by (simp add: st(2,3) map_mark_def table_map_def) (simp add: marked_hint_eq sequence_after_eq)
    qed
    then show ?thesis using Some False st(1) idx
      by (simp add: hint_mark_section_def Let_def refines_def table_map_def)
  qed
qed

lemma retry_time: "(if PG_INT64_MAX - now < i then PG_INT64_MAX else now + i) = min PG_INT64_MAX (now + i)"
  by (simp add: min_def)

lemma defer_refines:
  assumes ok: "hints_ok (sc_work_hints c)"
  shows "refines (db, now, Work_hint_defer_accelerator idx interval) c
           (snd (hint_defer_section db now (Some c) idx interval))"
proof (cases "idx = 0")
  case True
  then show ?thesis using ok
    by (intro refines_same) (auto simp: hint_defer_section_def table_map_def)
next
  case idx: False
  let ?hs = "sc_work_hints c" and ?retry = "min PG_INT64_MAX (now + max interval 1 * 1000)"
  show ?thesis
  proof (cases "hint_place ?hs db idx (hint_slots db idx) None")
    case None
    have absent: "hint_at ?hs (db, idx) = None"
      using None hint_place_live [OF ok, of _ db idx] by (auto simp: hint_at_None [OF ok])
    then have "\<forall>q < CAP. live (?hs ! q)" using hint_place_absent [OF ok absent] None by simp
    then have "\<not> map_has_room (hint_at ?hs)" by (simp add: map_has_room [OF ok])
    then show ?thesis using ok None idx absent
      by (intro refines_same)
         (auto simp: hint_defer_section_def keeps_hints table_map_def map_defer_def Let_def)
  next
    case (Some p)
    let ?h = "deferred_hint db now idx (next_hint_sequence c) ?retry (?hs ! p)"
    have h: "live ?h" "hint_key ?h = (db, idx)"
      using hint_place_Some [OF Some] by (auto simp: deferred_hint_def Let_def live_def hint_key_def flags_or_0 scheduler_consts)
    note st = hint_stored [OF ok idx Some h]
    have "map_defer db now idx ?retry (table_map c) =
        (hint_at (?hs[p := ?h]), if wh_flags (?hs ! p) = 0 then next_hint_sequence c else sc_work_hint_sequence c)"
    proof (cases "live (?hs ! p)")
      case True
      then show ?thesis
        by (simp add: st(2,3) map_defer_def table_map_def) (simp add: deferred_hint_eq live_def)
    next
      case dead: False
      then have "map_has_room (hint_at ?hs)" using st(3,5) by simp
      then show ?thesis using dead
        by (simp add: st(2,3) map_defer_def table_map_def) (simp add: deferred_hint_eq live_def sequence_after_eq)
    qed
    then show ?thesis using Some idx st(1)
      by (simp add: hint_defer_section_def Let_def refines_def table_map_def retry_time)
  qed
qed

lemma unmarked_hint_live:
  "without_flag f h = (if live (unmarked_hint f h) then Some (unmarked_hint f h) else None)"
  "live (unmarked_hint f h) \<and> hint_key (unmarked_hint f h) = hint_key h \<or> tombstone (unmarked_hint f h)"
  by (cases h; simp add: without_flag_def unmarked_hint_def live_def tombstone_def hint_key_def Let_def)+

lemma map_hint_absent: "m k = None \<Longrightarrow> map_hint k f m = m"
  by (auto simp: map_hint_def)

lemma map_hint_same: "m k = Some h \<Longrightarrow> f h = Some h \<Longrightarrow> map_hint k f m = m"
  by (auto simp: map_hint_def)

lemma hint_find_None:
  assumes "hints_ok hs" "idx \<noteq> 0" "hint_find hs db idx (hint_slots db idx) = None"
  shows "hint_at hs (db, idx) = None"
  using assms hint_find_live [OF assms(1), of _ db idx] by (auto simp: hint_at_None [OF assms(1)])

lemma clear_refines:
  assumes ok: "hints_ok (sc_work_hints c)"
  shows "refines (db, now, Work_hint_clear_if_unchanged idx flag sequence) c
           (evoke_am_scheduler_work_hint_clear_if_unchanged db (Some c) idx flag sequence)"
proof (cases "idx = 0 \<or> sequence = 0 \<or> flag = 0")
  case True
  then show ?thesis using ok
    by (intro refines_same) (auto simp: evoke_am_scheduler_work_hint_clear_if_unchanged_def table_map_def)
next
  case False
  then have idx: "idx \<noteq> 0" by simp
  let ?hs = "sc_work_hints c"
  show ?thesis
  proof (cases "hint_find ?hs db idx (hint_slots db idx)")
    case None
    then show ?thesis using ok False hint_find_None [OF ok idx None]
      by (intro refines_same) (auto simp: evoke_am_scheduler_work_hint_clear_if_unchanged_def table_map_def map_hint_absent)
  next
    case (Some p)
    let ?x = "unmarked_hint flag (?hs ! p)"
    have "live (?hs ! p)" "hint_key (?hs ! p) = (db, idx)" using hint_find_exact [OF ok idx] Some by auto
    then have x: "live ?x \<and> hint_key ?x = (db, idx) \<or> tombstone ?x" using unmarked_hint_live(2) [of flag "?hs ! p"] by simp
    note ch = hint_changed [OF ok idx Some x]
    show ?thesis
    proof (cases "wh_sequence (?hs ! p) \<noteq> sequence \<or> wh_flags (?hs ! p) AND flag = 0")
      case True
      have "map_hint (db, idx) (\<lambda>h. if wh_sequence h = sequence \<and> wh_flags h AND flag \<noteq> 0 then without_flag flag h else Some h)
          (hint_at ?hs) = hint_at ?hs"
        using True ch(3) by (intro map_hint_same [where h = "?hs ! p"]) auto
      then show ?thesis using ok False Some True
        by (intro refines_same) (auto simp: evoke_am_scheduler_work_hint_clear_if_unchanged_def table_map_def)
    next
      case hit: False
      let ?hs' = "if wh_flags ?x = 0 then clear_if_inactive (?hs[p := ?x]) else ?hs[p := ?x]"
      have "hints_ok ?hs'" "hint_at ?hs' = (hint_at ?hs)((db, idx) := without_flag flag (?hs ! p))"
        using ch cleared_if_inactive [OF ch(1)] by (simp_all add: unmarked_hint_live(1))
      then show ?thesis using False Some hit
        by (simp add: evoke_am_scheduler_work_hint_clear_if_unchanged_def Let_def refines_def table_map_def
            map_hint_def ch(3))
    qed
  qed
qed

lemma age_refines:
  assumes ok: "hints_ok (sc_work_hints c)"
  shows "refines (db, now, Work_hint_reset_age idx flag) c (evoke_am_scheduler_work_hint_reset_age db now (Some c) idx flag)"
proof (cases "idx = 0 \<or> flag \<noteq> EVOKE_AM_WORK_HINT_MAINTENANCE")
  case True
  then show ?thesis using ok by (intro refines_same) (auto simp: evoke_am_scheduler_work_hint_reset_age_def table_map_def)
next
  case False
  then have idx: "idx \<noteq> 0" by simp
  let ?hs = "sc_work_hints c"
  show ?thesis
  proof (cases "hint_find ?hs db idx (hint_slots db idx)")
    case None
    then show ?thesis using ok False hint_find_None [OF ok idx None]
      by (intro refines_same) (auto simp: evoke_am_scheduler_work_hint_reset_age_def table_map_def map_hint_absent)
  next
    case (Some p)
    let ?x = "if wh_flags (?hs ! p) AND flag \<noteq> 0 then (?hs ! p)\<lparr>wh_maintenance_first_marked_at := now\<rparr> else ?hs ! p"
    have "live (?hs ! p)" "hint_key (?hs ! p) = (db, idx)" using hint_find_exact [OF ok idx] Some by auto
    then have x: "live ?x \<and> hint_key ?x = (db, idx) \<or> tombstone ?x" and live: "live ?x"
      by (auto simp: live_def hint_key_def)
    note ch = hint_changed [OF ok idx Some x]
    have "sc_work_hints (the (evoke_am_scheduler_work_hint_reset_age db now (Some c) idx flag)) = ?hs[p := ?x]"
      "evoke_am_scheduler_work_hint_reset_age db now (Some c) idx flag \<noteq> None"
      "sc_work_hint_sequence (the (evoke_am_scheduler_work_hint_reset_age db now (Some c) idx flag)) = sc_work_hint_sequence c"
      using False Some by (auto simp: evoke_am_scheduler_work_hint_reset_age_def Let_def)
    then show ?thesis using ch(1,2) live False
      by (auto simp: refines_def table_map_def map_hint_def ch(3))
  qed
qed

lemma allow_refines:
  assumes ok: "hints_ok (sc_work_hints c)"
  shows "refines (db, now, Work_hint_allow_accelerator_now idx) c (evoke_am_scheduler_work_hint_allow_accelerator_now db (Some c) idx)"
proof (cases "idx = 0")
  case True
  then show ?thesis using ok
    by (intro refines_same) (auto simp: evoke_am_scheduler_work_hint_allow_accelerator_now_def table_map_def)
next
  case idx: False
  let ?hs = "sc_work_hints c"
  show ?thesis
  proof (cases "hint_find ?hs db idx (hint_slots db idx)")
    case None
    then show ?thesis using ok idx hint_find_None [OF ok idx None]
      by (intro refines_same) (auto simp: evoke_am_scheduler_work_hint_allow_accelerator_now_def table_map_def map_hint_absent)
  next
    case (Some p)
    let ?x = "(?hs ! p)\<lparr>wh_accelerator_retry_after := 0\<rparr>"
    have "live (?hs ! p)" "hint_key (?hs ! p) = (db, idx)" using hint_find_exact [OF ok idx] Some by auto
    then have x: "live ?x \<and> hint_key ?x = (db, idx) \<or> tombstone ?x" and live: "live ?x"
      by (auto simp: live_def hint_key_def)
    note ch = hint_changed [OF ok idx Some x]
    then show ?thesis using live idx Some
      by (simp add: evoke_am_scheduler_work_hint_allow_accelerator_now_def refines_def table_map_def
          map_hint_def ch(3))
  qed
qed

lemma consume_refines:
  assumes ok: "hints_ok (sc_work_hints c)"
  shows "refines (db, now, Work_hint_consume flag) c (snd (evoke_am_scheduler_work_hint_consume db (Some c) flag))"
proof (cases "evoke_am_scheduler_valid_work_class flag")
  case False
  then show ?thesis using ok by (intro refines_same) (auto simp: evoke_am_scheduler_work_hint_consume_def table_map_def)
next
  case True
  let ?hs = "sc_work_hints c" and ?g = "\<lambda>h. if hint_pending db flag h then unmarked_hint flag h else h"
  have dead: "\<not> live h \<Longrightarrow> ?g h = h" for h by (auto simp: live_def hint_pending_def)
  have changed: "live h \<Longrightarrow> live (?g h) \<and> hint_key (?g h) = hint_key h \<or> tombstone (?g h)" for h
    using unmarked_hint_live(2) [of flag h] by auto
  note m = hints_map [OF ok dead changed]
  have "hint_at (map ?g ?hs) k =
      Option.bind (hint_at ?hs k) (\<lambda>h. if fst k = db \<and> wh_flags h AND flag \<noteq> 0 then without_flag flag h else Some h)" for k
  proof (cases "hint_at ?hs k")
    case (Some h)
    then obtain p where p: "p < CAP" "?hs ! p = h" "live h" "hint_key h = k" using hint_at_Some [OF ok] by blast
    then have h: "live h" "hint_key h = k" "wh_index_oid h \<noteq> 0" using hints_okD(2) [OF ok p(1)] by simp_all
    then have "hint_pending db flag h \<longleftrightarrow> fst k = db \<and> wh_flags h AND flag \<noteq> 0"
      by (auto simp: hint_pending_def hint_key_def)
    then show ?thesis using Some h(1) m(2) [of k]
      by (cases "hint_pending db flag h") (auto simp: unmarked_hint_live(1))
  qed (use m(2) [of k] in simp)
  then have "hint_at (map ?g ?hs) =
      (\<lambda>k. Option.bind (hint_at ?hs k) (\<lambda>h. if fst k = db \<and> wh_flags h AND flag \<noteq> 0 then without_flag flag h else Some h))"
    by (rule ext)
  then show ?thesis using True cleared_if_inactive [OF m(1)]
    by (simp add: evoke_am_scheduler_work_hint_consume_def consume_loop_eq refines_def table_map_def)
qed

lemma perform_refines:
  assumes ok: "hints_ok (sc_work_hints c)"
  shows "refines call c (perform tde (Some c) call)"
proof -
  obtain db now k where call: "call = (db, now, k)" by (cases call)
  show ?thesis unfolding call
    using mark_refines [OF ok] defer_refines [OF ok] clear_refines [OF ok] age_refines [OF ok] allow_refines [OF ok]
      consume_refines [OF ok] refines_same [OF ok]
    by (cases k) (simp_all add: keeps_hints table_map_def)
qed

lemma startup_hints_ok: "evoke_am_scheduler_shmem_startup limit = Some c \<Longrightarrow> hints_ok (sc_work_hints c)"
proof -
  assume "evoke_am_scheduler_shmem_startup limit = Some c"
  then have "sc_work_hints c = replicate CAP zero_hint" by (auto simp: evoke_am_scheduler_shmem_startup_def)
  then show ?thesis by (simp add: hints_ok_def live_def zero_hint_def)
qed

lemma run_hints_ok:
  "hints_ok (sc_work_hints c) \<Longrightarrow> \<exists>c'. run_calls tde calls (Some c) = Some c' \<and> hints_ok (sc_work_hints c')"
proof (induction calls arbitrary: c)
  case (Cons call calls)
  obtain c1 where "perform tde (Some c) call = Some c1" "hints_ok (sc_work_hints c1)"
    using perform_refines [OF Cons.prems, of call tde] unfolding refines_def by blast
  then show ?case using Cons.IH by simp
qed simp

lemma reachable_hints_ok:
  "run_calls tde calls (evoke_am_scheduler_shmem_startup limit) = Some c \<Longrightarrow> hints_ok (sc_work_hints c)"
proof -
  assume run: "run_calls tde calls (evoke_am_scheduler_shmem_startup limit) = Some c"
  obtain c0 where c0: "evoke_am_scheduler_shmem_startup limit = Some c0" by (simp add: evoke_am_scheduler_shmem_startup_def)
  show ?thesis using run_hints_ok [OF startup_hints_ok [OF c0], of tde calls] run c0 by auto
qed

text \<open>
  C37. The table of work hints refines a map. In every state that any calls of any processes can lead to since the start, the hash table
  with its probing, tombstones and wholesale clearing holds at most one hint for a database and index; and whatever call comes
  next, the map read from the table afterwards is the map before it changed as the specification \<open>map_call\<close> says: a mark
  or deferral adds the hint or updates it, and is dropped only when all slots hold other hints; a token clears the hint
  exactly when it is unchanged; a consumer takes its class of its database and nothing else.
\<close>

theorem hint_table_refines_map:
  assumes "run_calls tde calls (evoke_am_scheduler_shmem_startup limit) = Some c"
  shows "\<exists>c'. perform tde (Some c) call = Some c' \<and> table_map c' = map_call call (table_map c)"
  using perform_refines [OF reachable_hints_ok [OF assms], of call tde] unfolding refines_def by blast

text \<open>A second mark of the sample index only moves its sequence on.\<close>

lemma hint_table_refines_map_witness:
  "\<exists>c'. perform (\<lambda>_ _ _. False) (Some (sample_marked 1)) (5, 2, Work_hint_mark 7 1) = Some c' \<and>
     table_map c' = map_call (5, 2, Work_hint_mark 7 1) (table_map (sample_marked 1))"
proof -
  have "run_calls (\<lambda>_ _ _. False) [(5, 1, Work_hint_mark 7 1)] (evoke_am_scheduler_shmem_startup 3) = Some (sample_marked 1)"
    by (simp add: sample_mark_section(1))
  then show ?thesis by (rule hint_table_refines_map)
qed

end
