(* ===== verification/Hint_Tokens.thy ===== *)
theory Hint_Tokens
  imports Hint_Map
begin

unbundle bit_operations_syntax

text \<open>
  The tokens of \<open>src/evoke_am_scheduler.c\<close>: the snapshot of all databases for the launcher, and the search of a worker in the snapshot
  of its database. The snapshot is strictly sorted, because the table holds a hint once, so that the search is exact.
\<close>

section \<open>The snapshot of all databases\<close>

record evoke_am_scheduler_database_hint_token =
  dt_database_oid :: u32
  dt_sequence :: u64

definition evoke_am_scheduler_compare_database_hint_token ::
  "evoke_am_scheduler_database_hint_token \<Rightarrow> evoke_am_scheduler_database_hint_token \<Rightarrow> int" where
  "evoke_am_scheduler_compare_database_hint_token a b =
     (if dt_sequence a \<noteq> dt_sequence b then (if dt_sequence a < dt_sequence b then -1 else 1)
      else if dt_database_oid a = dt_database_oid b then 0
      else if dt_database_oid a < dt_database_oid b then -1 else 1)"

definition evoke_am_scheduler_database_hint_snapshot ::
  "scheduler \<Rightarrow> u8 \<Rightarrow> evoke_am_scheduler_database_hint_token list option" where
  "evoke_am_scheduler_database_hint_snapshot sched flags =
     (let known_flags = EVOKE_AM_WORK_HINT_MAINTENANCE OR EVOKE_AM_WORK_HINT_PRELOAD
      in case sched of
           None \<Rightarrow> Some []
         | Some c \<Rightarrow>
             if flags AND known_flags = 0 \<or> flags AND NOT known_flags \<noteq> 0 then None
             else Some (c_qsort evoke_am_scheduler_compare_database_hint_token
                    (map (\<lambda>hint. \<lparr>dt_database_oid = wh_database_oid hint, dt_sequence = wh_sequence hint\<rparr>)
                      (filter (\<lambda>hint. \<not> (wh_database_oid hint = 0 \<or> wh_index_oid hint = 0 \<or> wh_flags hint AND flags = 0))
                        (sc_work_hints c)))))"

text \<open>The oldest hint of any database comes first.\<close>

interpretation database_token: c_comparator evoke_am_scheduler_compare_database_hint_token "\<lambda>_. True"
  by unfold_locales (auto simp: evoke_am_scheduler_compare_database_hint_token_def split: if_splits)

lemma database_snapshot_oldest_first:
  assumes "evoke_am_scheduler_database_hint_snapshot (Some c) flags = Some tokens"
    and "h \<in> set (sc_work_hints c)" "wh_database_oid h \<noteq> 0" "wh_index_oid h \<noteq> 0" "wh_flags h AND flags \<noteq> 0"
  shows "tokens \<noteq> [] \<and> dt_sequence (hd tokens) \<le> wh_sequence h"
proof -
  let ?t = "\<lambda>h. \<lparr>dt_database_oid = wh_database_oid h, dt_sequence = wh_sequence h\<rparr>"
  let ?hs = "filter (\<lambda>h. \<not> (wh_database_oid h = 0 \<or> wh_index_oid h = 0 \<or> wh_flags h AND flags = 0)) (sc_work_hints c)"
  have tokens: "tokens = c_qsort evoke_am_scheduler_compare_database_hint_token (map ?t ?hs)"
    using assms(1) by (auto simp: evoke_am_scheduler_database_hint_snapshot_def Let_def split: if_splits)
  have "?t h \<in> set tokens" using assms(2-5) unfolding tokens by auto
  moreover have "sorted_wrt (\<lambda>a b. evoke_am_scheduler_compare_database_hint_token a b \<le> 0) tokens"
    unfolding tokens by (rule database_token.sorted_c_qsort) simp
  ultimately show ?thesis
    by (cases tokens) (auto simp: evoke_am_scheduler_compare_database_hint_token_def split: if_splits)
qed

section \<open>The search in a snapshot\<close>

text \<open>\<open>bsearch\<close> of the C library, by halving.\<close>

function c_bsearch :: "('k \<Rightarrow> 'a \<Rightarrow> int) \<Rightarrow> 'k \<Rightarrow> 'a list \<Rightarrow> nat \<Rightarrow> nat \<Rightarrow> nat option" where
  "c_bsearch cmp key xs l u =
     (if l < u
      then let m = (l + u) div 2; r = cmp key (xs ! m)
           in if r < 0 then c_bsearch cmp key xs l m else if r > 0 then c_bsearch cmp key xs (Suc m) u else Some m
      else None)"
  by auto

termination by (relation "measure (\<lambda>(_, _, _, l, u). u - l)") auto

declare c_bsearch.simps [simp del]

lemma c_bsearch_Some: "c_bsearch cmp key xs l u = Some i \<Longrightarrow> l \<le> i \<and> i < u \<and> cmp key (xs ! i) = 0"
proof (induction cmp key xs l u rule: c_bsearch.induct)
  case (1 cmp key xs l u)
  let ?m = "(l + u) div 2"
  have "l < u" using 1(3) by (subst (asm) c_bsearch.simps) (simp split: if_splits)
  then have m: "l \<le> ?m" "?m < u" by simp_all
  consider "cmp key (xs ! ?m) < 0" | "cmp key (xs ! ?m) > 0" | "cmp key (xs ! ?m) = 0" by linarith
  then show ?case
  proof cases
    case a: 1
    then have "c_bsearch cmp key xs l ?m = Some i" using 1(3) \<open>l < u\<close> by (subst (asm) c_bsearch.simps) (simp add: Let_def)
    then show ?thesis using 1(1) [OF \<open>l < u\<close> refl refl a] m by auto
  next
    case a: 2
    then have "c_bsearch cmp key xs (Suc ?m) u = Some i" using 1(3) \<open>l < u\<close> by (subst (asm) c_bsearch.simps) (simp add: Let_def)
    then show ?thesis using 1(2) [OF \<open>l < u\<close> refl refl _ a] a m by auto
  next
    case a: 3
    then have "i = ?m" using 1(3) \<open>l < u\<close> by (subst (asm) c_bsearch.simps) (simp add: Let_def)
    then show ?thesis using m a by simp
  qed
qed

text \<open>Nothing that compares equal is missed when the elements below it compare less and those above greater.\<close>

lemma c_bsearch_finds:
  "l \<le> i \<Longrightarrow> i < u \<Longrightarrow> cmp key (xs ! i) = 0 \<Longrightarrow>
     (\<And>j. l \<le> j \<Longrightarrow> j < i \<Longrightarrow> cmp key (xs ! j) > 0) \<Longrightarrow> (\<And>j. i < j \<Longrightarrow> j < u \<Longrightarrow> cmp key (xs ! j) < 0) \<Longrightarrow>
     c_bsearch cmp key xs l u = Some i"
proof (induction cmp key xs l u rule: c_bsearch.induct)
  case (1 cmp key xs l u)
  let ?m = "(l + u) div 2"
  have lu: "l < u" using 1(3,4) by simp
  consider "?m < i" | "i < ?m" | "?m = i" by linarith
  then show ?case
  proof cases
    case a: 1
    then have pos: "cmp key (xs ! ?m) > 0" using 1(6) lu by simp
    then have not_neg: "\<not> cmp key (xs ! ?m) < 0" by simp
    have "c_bsearch cmp key xs (Suc ?m) u = Some i" using a 1(3-7) by (intro 1(2) [OF lu refl refl not_neg pos]) auto
    then show ?thesis using pos lu by (subst c_bsearch.simps) (simp add: Let_def)
  next
    case a: 2
    then have neg: "cmp key (xs ! ?m) < 0" using 1(7) lu by simp
    then have "c_bsearch cmp key xs l ?m = Some i" using a 1(3-7) lu by (intro 1(1) [OF lu refl refl neg]) auto
    then show ?thesis using neg lu by (subst c_bsearch.simps) (simp add: Let_def)
  next
    case 3
    then show ?thesis using 1(5) lu by (subst c_bsearch.simps) (simp add: Let_def)
  qed
qed

definition evoke_am_scheduler_work_hint_token_find ::
  "evoke_am_scheduler_work_hint_token list \<Rightarrow> u32 \<Rightarrow> evoke_am_scheduler_work_hint_token option" where
  "evoke_am_scheduler_work_hint_token_find tokens index_oid =
     (if tokens = [] \<or> index_oid = 0 then None
      else map_option ((!) tokens)
        (c_bsearch evoke_am_scheduler_compare_work_hint_token
          \<lparr>wt_index_oid = index_oid, wt_sequence = 0, wt_maintenance_first_marked_at = 0, wt_accelerator_retry_after = 0\<rparr>
          tokens 0 (length tokens)))"

lemma distinct_filter_key:
  assumes "\<And>i j. i < length xs \<Longrightarrow> j < length xs \<Longrightarrow> P (xs ! i) \<Longrightarrow> P (xs ! j) \<Longrightarrow> f (xs ! i) = f (xs ! j) \<Longrightarrow> i = j"
  shows "distinct (map f (filter P xs))"
  using assms
proof (induction xs)
  case (Cons x xs)
  have "distinct (map f (filter P xs))"
  proof (rule Cons.IH)
    fix i j
    assume "i < length xs" "j < length xs" "P (xs ! i)" "P (xs ! j)" "f (xs ! i) = f (xs ! j)"
    then show "i = j" using Cons.prems [of "Suc i" "Suc j"] by simp
  qed
  moreover have "f x \<noteq> f y" if "y \<in> set xs" "P y" "P x" for y
  proof -
    obtain j where "j < length xs" "xs ! j = y" using \<open>y \<in> set xs\<close> by (auto simp: in_set_conv_nth)
    then show ?thesis using Cons.prems [of 0 "Suc j"] that by auto
  qed
  ultimately show ?case by auto
qed simp

interpretation hint_token: c_comparator evoke_am_scheduler_compare_work_hint_token "\<lambda>_. True"
  by unfold_locales (auto simp: evoke_am_scheduler_compare_work_hint_token_def split: if_splits)

lemma hint_pending_key: "hint_pending db flag h \<Longrightarrow> live h \<and> hint_key h = (db, wh_index_oid h)"
  by (auto simp: hint_pending_def live_def hint_key_def)

lemma snapshot_strictly_sorted:
  assumes ok: "hints_ok (sc_work_hints c)" and snapshot: "evoke_am_scheduler_work_hint_snapshot db (Some c) flag = Some tokens"
  shows "sorted_wrt (\<lambda>a b. wt_index_oid a < wt_index_oid b) tokens"
    and "set tokens = hint_token ` {h \<in> set (sc_work_hints c). hint_pending db flag h}"
proof -
  let ?hs = "filter (hint_pending db flag) (sc_work_hints c)"
  have tokens: "tokens = c_qsort evoke_am_scheduler_compare_work_hint_token (map hint_token ?hs)"
    using snapshot by (auto simp: evoke_am_scheduler_work_hint_snapshot_def split: if_splits)
  show "set tokens = hint_token ` {h \<in> set (sc_work_hints c). hint_pending db flag h}" by (auto simp: tokens)
  have "distinct (map wh_index_oid ?hs)"
  proof (rule distinct_filter_key)
    fix i j
    let ?h = "\<lambda>i. sc_work_hints c ! i"
    assume a: "i < length (sc_work_hints c)" "j < length (sc_work_hints c)" "hint_pending db flag (?h i)" "hint_pending db flag (?h j)"
      "wh_index_oid (?h i) = wh_index_oid (?h j)"
    then show "i = j" using hint_pending_key [OF a(3)] hint_pending_key [OF a(4)] hints_okD(1,6) [OF ok] by metis
  qed
  moreover have "mset (map wt_index_oid tokens) = mset (map wh_index_oid ?hs)"
    by (simp add: tokens hint_token_def multiset.map_comp comp_def del: mset_filter)
  ultimately have distinct: "distinct (map wt_index_oid tokens)" using mset_eq_imp_distinct_iff by blast
  have "sorted_wrt (\<lambda>a b. evoke_am_scheduler_compare_work_hint_token a b \<le> 0) tokens"
    unfolding tokens by (rule hint_token.sorted_c_qsort) simp
  then show "sorted_wrt (\<lambda>a b. wt_index_oid a < wt_index_oid b) tokens"
    using distinct by (induction tokens) (auto simp: evoke_am_scheduler_compare_work_hint_token_def split: if_splits)
qed

text \<open>The search gives the token of the hint when its flag is pending, and nothing otherwise.\<close>

lemma token_find_exact:
  assumes ok: "hints_ok (sc_work_hints c)" and snapshot: "evoke_am_scheduler_work_hint_snapshot db (Some c) flag = Some tokens"
    and idx: "idx \<noteq> 0"
  shows "evoke_am_scheduler_work_hint_token_find tokens idx =
    (case hint_at (sc_work_hints c) (db, idx) of None \<Rightarrow> None
     | Some h \<Rightarrow> if wh_flags h AND flag \<noteq> 0 then Some (hint_token h) else None)"
proof -
  let ?key = "\<lparr>wt_index_oid = idx, wt_sequence = 0, wt_maintenance_first_marked_at = 0, wt_accelerator_retry_after = 0\<rparr>"
  note sorted = snapshot_strictly_sorted(1) [OF ok snapshot] and members = snapshot_strictly_sorted(2) [OF ok snapshot]
  have len: "length (sc_work_hints c) = CAP" using ok by (rule hints_okD)
  show ?thesis
  proof (cases "c_bsearch evoke_am_scheduler_compare_work_hint_token ?key tokens 0 (length tokens)")
    case (Some i)
    then have i: "i < length tokens" "wt_index_oid (tokens ! i) = idx"
      using c_bsearch_Some [OF Some] by (auto simp: evoke_am_scheduler_compare_work_hint_token_def split: if_splits)
    then obtain h where h: "h \<in> set (sc_work_hints c)" "hint_pending db flag h" "tokens ! i = hint_token h"
      using members nth_mem [OF i(1)] by auto
    obtain p where "p < CAP" "sc_work_hints c ! p = h" using h(1) len by (auto simp: in_set_conv_nth)
    then have "hint_at (sc_work_hints c) (db, idx) = Some h"
      using hint_at_ident [OF ok, of p] hint_pending_key [OF h(2)] h(3) i(2) by (simp add: hint_token_def)
    then show ?thesis using Some i h idx by (auto simp: evoke_am_scheduler_work_hint_token_find_def hint_pending_def)
  next
    case None
    have "wh_flags h AND flag = 0" if at: "hint_at (sc_work_hints c) (db, idx) = Some h" for h
    proof (rule ccontr)
      assume "wh_flags h AND flag \<noteq> 0"
      obtain p where p: "p < CAP" "sc_work_hints c ! p = h" "hint_key h = (db, idx)" using at hint_at_Some [OF ok] by blast
      then have "h \<in> set (sc_work_hints c)" using len by (metis nth_mem)
      moreover have "hint_pending db flag h"
        using p(3) idx \<open>wh_flags h AND flag \<noteq> 0\<close> by (auto simp: hint_pending_def hint_key_def)
      ultimately have "hint_token h \<in> set tokens" using members by blast
      then obtain i where i: "i < length tokens" "tokens ! i = hint_token h" by (auto simp: in_set_conv_nth)
      then have "wt_index_oid (tokens ! i) = idx" using p(3) by (simp add: hint_token_def hint_key_def)
      moreover have "wt_index_oid (tokens ! j) < wt_index_oid (tokens ! k)" if "j < k" "k < length tokens" for j k
        using sorted_wrt_nth_less [OF sorted] that by blast
      ultimately have "c_bsearch evoke_am_scheduler_compare_work_hint_token ?key tokens 0 (length tokens) = Some i"
        using i(1) by (intro c_bsearch_finds) (force simp: evoke_am_scheduler_compare_work_hint_token_def)+
      then show False using None by simp
    qed
    then show ?thesis using None by (auto simp: evoke_am_scheduler_work_hint_token_find_def split: option.splits)
  qed
qed

end
