(* ===== verification/Reconcile.thy ===== *)
theory Reconcile
  imports Scheduler_Calls
begin

unbundle bit_operations_syntax

text \<open>
  Catalog reconciliations of \<open>src/evoke_am_scheduler.c\<close>: at most one process at a time reconciles a class of a database, over
  every sequence of calls. The last section shows what the calls that look up a database without an entry get.
\<close>

section \<open>The entry of a database\<close>

abbreviation dbs :: "evoke_am_scheduler_control \<Rightarrow> evoke_am_scheduler_reconcile_db list" where "dbs \<equiv> sc_reconcile_dbs"

lemma reconcile_scan_Some:
  assumes "reconcile_scan db es is free old = Some i"
  shows "i \<in> set is \<and> rd_database_oid (es ! i) = db \<or>
         (\<forall>j \<in> set is. rd_database_oid (es ! j) \<noteq> db) \<and>
           (free = Some i \<or> old = Some i \<or> i \<in> set is \<and> (rd_database_oid (es ! i) = 0 \<or> rd_running_flags (es ! i) = 0))"
  using assms
proof (induction db es "is" free old rule: reconcile_scan.induct)
  case (1 db es free old)
  then show ?case by (auto split: option.splits)
next
  case (2 db es j rest free old)
  let ?e = "es ! j"
  consider (hit) "rd_database_oid ?e = db" | (unused) "rd_database_oid ?e \<noteq> db" "rd_database_oid ?e = 0"
    | (idle) "rd_database_oid ?e \<noteq> db" "rd_database_oid ?e \<noteq> 0"
        "rd_running_flags ?e = 0 \<and> (case old of None \<Rightarrow> True | Some k \<Rightarrow> rd_last_access_counter ?e < rd_last_access_counter (es ! k))"
    | (busy) "rd_database_oid ?e \<noteq> db" "rd_database_oid ?e \<noteq> 0"
        "\<not> (rd_running_flags ?e = 0 \<and> (case old of None \<Rightarrow> True | Some k \<Rightarrow> rd_last_access_counter ?e < rd_last_access_counter (es ! k)))"
    by blast
  then show ?case
  proof cases
    case hit
    then show ?thesis using 2 by simp
  next
    case unused
    then show ?thesis using 2 by (auto simp: Let_def split: if_splits)
  next
    case idle
    then show ?thesis using 2 by (auto simp: Let_def)
  next
    case busy
    then show ?thesis using 2 by (auto simp: Let_def)
  qed
qed

text \<open>The entry that is found is the one of the database if it has one, and else one that nobody runs.\<close>

lemma reconcile_entry:
  assumes "reconcile_scan db es [0..<length es] None None = Some i"
  shows "i < length es" and "rd_database_oid (es ! i) = db \<or>
    (\<forall>j < length es. rd_database_oid (es ! j) \<noteq> db) \<and> (rd_database_oid (es ! i) = 0 \<or> rd_running_flags (es ! i) = 0)"
  using reconcile_scan_Some [OF assms] by auto

definition dbs_ok :: "evoke_am_scheduler_reconcile_db list \<Rightarrow> bool" where
  "dbs_ok es \<longleftrightarrow> (\<forall>i < length es. \<forall>j < length es.
     rd_database_oid (es ! i) = rd_database_oid (es ! j) \<longrightarrow> rd_database_oid (es ! i) \<noteq> 0 \<longrightarrow> i = j)"

definition running_at :: "u32 \<Rightarrow> u8 \<Rightarrow> evoke_am_scheduler_reconcile_db list \<Rightarrow> bool" where
  "running_at db flag es \<longleftrightarrow> (\<exists>e \<in> set es. rd_database_oid e = db \<and> rd_running_flags e AND flag \<noteq> 0)"

text \<open>
  What a call may do to the table: change the entry of its database, taking away at most the flags \<open>taken\<close>, or, when its database
  has no entry, change an entry that nobody runs or give it to the database.
\<close>

definition same_owner :: "evoke_am_scheduler_reconcile_db \<Rightarrow> evoke_am_scheduler_reconcile_db \<Rightarrow> bool" where
  "same_owner e e' \<longleftrightarrow> rd_database_oid e' = rd_database_oid e \<and> rd_running_flags e' = rd_running_flags e"

definition keeps_running :: "u8 \<Rightarrow> u8 \<Rightarrow> u8 \<Rightarrow> bool" where
  "keeps_running taken r r' \<longleftrightarrow> (\<forall>f. taken AND f = 0 \<longrightarrow> r AND f \<noteq> 0 \<longrightarrow> r' AND f \<noteq> 0)"

definition stored ::
  "u32 \<Rightarrow> u8 \<Rightarrow> evoke_am_scheduler_reconcile_db list \<Rightarrow> nat \<Rightarrow> evoke_am_scheduler_reconcile_db list \<Rightarrow> bool" where
  "stored db taken es i es' \<longleftrightarrow>
     length es' = length es \<and> i < length es \<and> (\<forall>j < length es. j \<noteq> i \<longrightarrow> same_owner (es ! j) (es' ! j)) \<and>
     (rd_database_oid (es ! i) = db \<and> rd_database_oid (es' ! i) = db \<and>
        keeps_running taken (rd_running_flags (es ! i)) (rd_running_flags (es' ! i)) \<or>
      (\<forall>j < length es. rd_database_oid (es ! j) \<noteq> db) \<and> (rd_database_oid (es ! i) = 0 \<or> rd_running_flags (es ! i) = 0) \<and>
        (rd_database_oid (es' ! i) = db \<or> rd_database_oid (es' ! i) = rd_database_oid (es ! i)))"

definition table_change ::
  "u32 \<Rightarrow> u8 \<Rightarrow> evoke_am_scheduler_reconcile_db list \<Rightarrow> evoke_am_scheduler_reconcile_db list \<Rightarrow> bool" where
  "table_change db taken es es' \<longleftrightarrow> es' = es \<or> (\<exists>i. stored db taken es i es')"

lemma stored_ok:
  assumes "stored db taken es i es'" "dbs_ok es"
  shows "dbs_ok es'"
  unfolding dbs_ok_def
proof (intro allI impI)
  fix j k
  assume jk: "j < length es'" "k < length es'" "rd_database_oid (es' ! j) = rd_database_oid (es' ! k)" "rd_database_oid (es' ! j) \<noteq> 0"
  have len: "length es' = length es"
    and others: "j' < length es \<Longrightarrow> j' \<noteq> i \<Longrightarrow> rd_database_oid (es' ! j') = rd_database_oid (es ! j')" for j'
    using assms(1) by (auto simp: stored_def same_owner_def)
  have entry: "rd_database_oid (es' ! i) = rd_database_oid (es ! i) \<or>
      rd_database_oid (es' ! i) = db \<and> (\<forall>j < length es. rd_database_oid (es ! j) \<noteq> db)"
    using assms(1) by (auto simp: stored_def)
  have distinct: "rd_database_oid (es ! j) = rd_database_oid (es ! k) \<Longrightarrow> rd_database_oid (es ! j) \<noteq> 0 \<Longrightarrow> j = k"
    using assms(2) jk(1,2) len by (simp add: dbs_ok_def)
  show "j = k"
    using jk len others [of j] others [of k] entry distinct by (cases "j = i"; cases "k = i") metis+
qed

lemma table_change_ok: "table_change db taken es es' \<Longrightarrow> dbs_ok es \<Longrightarrow> dbs_ok es'"
  unfolding table_change_def using stored_ok by blast

lemma table_change_running:
  assumes "table_change db' taken es es'" "running_at db flag es" "db \<noteq> 0" "db' = db \<Longrightarrow> taken AND flag = 0"
  shows "running_at db flag es'"
  using assms(1) unfolding table_change_def
proof
  assume "\<exists>i. stored db' taken es i es'"
  then obtain i where st: "stored db' taken es i es'" by blast
  obtain j where j: "j < length es" "rd_database_oid (es ! j) = db" "rd_running_flags (es ! j) AND flag \<noteq> 0"
    using assms(2) unfolding running_at_def by (metis in_set_conv_nth)
  have "rd_database_oid (es' ! j) = db \<and> rd_running_flags (es' ! j) AND flag \<noteq> 0"
  proof (cases "j = i")
    case False
    then show ?thesis using st j by (simp add: stored_def same_owner_def)
  next
    case True
    have "rd_running_flags (es ! j) \<noteq> 0" using j(3) by auto
    then have "db' = db" "rd_database_oid (es' ! i) = db'" "keeps_running taken (rd_running_flags (es ! i)) (rd_running_flags (es' ! i))"
      using st j assms(3) True unfolding stored_def by auto
    then show ?thesis using j(3) assms(4) True by (simp add: keeps_running_def)
  qed
  moreover have "j < length es'" using st j(1) by (simp add: stored_def)
  ultimately show ?thesis unfolding running_at_def by (intro bexI [of _ "es' ! j"]) simp_all
qed (use assms(2) in simp)

section \<open>What the calls do to the table\<close>

lemma update_reconcile_db_dbs:
  "length (dbs (update_reconcile_db c i e)) = length (dbs c)"
  "j < length (dbs c) \<Longrightarrow> same_owner (if j = i then e else dbs c ! j) (dbs (update_reconcile_db c i e) ! j)"
  by (auto simp: update_reconcile_db_def evoke_am_scheduler_reconcile_touch_locked_def Let_def same_owner_def nth_list_update)

lemma keeps_running_or [simp]: "keeps_running taken r r" "keeps_running taken r (r OR flag)"
  by (simp_all add: keeps_running_def flag_or)

lemma keeps_running_and_not [simp]: "keeps_running flag r (r AND NOT flag)"
  by (simp add: keeps_running_def flag_and_not)

text \<open>The lookup with its reset, and a change of the entry.\<close>

lemma locked_entry:
  assumes "evoke_am_scheduler_reconcile_db_locked c db create = (Some i, c1)"
  shows "stored db 0 (dbs c) i (dbs c1) \<and> (create \<longrightarrow> rd_database_oid (dbs c1 ! i) = db) \<and> (\<not> create \<longrightarrow> c1 = c)"
proof -
  have scan: "reconcile_scan db (dbs c) [0..<length (dbs c)] None None = Some i"
    using assms by (auto simp: evoke_am_scheduler_reconcile_db_locked_def split: option.splits)
  note entry = reconcile_entry [OF scan]
  show ?thesis
  proof (cases "create \<and> rd_database_oid (dbs c ! i) \<noteq> db")
    case True
    then show ?thesis using assms scan entry
      by (auto simp: evoke_am_scheduler_reconcile_db_locked_def stored_def same_owner_def zero_reconcile_db_def)
  next
    case False
    then have "c1 = c" using assms scan by (auto simp: evoke_am_scheduler_reconcile_db_locked_def)
    then show ?thesis using entry False by (auto simp: stored_def same_owner_def)
  qed
qed

lemma locked_update:
  assumes "evoke_am_scheduler_reconcile_db_locked c db create = (Some i, c1)"
    and "rd_database_oid e = rd_database_oid (dbs c1 ! i)" "keeps_running taken (rd_running_flags (dbs c1 ! i)) (rd_running_flags e)"
  shows "stored db taken (dbs c) i (dbs (update_reconcile_db c1 i e))"
proof -
  have st: "stored db 0 (dbs c) i (dbs c1)" using locked_entry [OF assms(1)] by blast
  then have len: "length (dbs c1) = length (dbs c)" "i < length (dbs c)" by (simp_all add: stored_def)
  have up: "same_owner (if j = i then e else dbs c1 ! j) (dbs (update_reconcile_db c1 i e) ! j)" if "j < length (dbs c)" for j
    using update_reconcile_db_dbs(2) [of j c1] that len by simp
  have "keeps_running taken (rd_running_flags (dbs c ! i)) (rd_running_flags e)"
    if "keeps_running 0 (rd_running_flags (dbs c ! i)) (rd_running_flags (dbs c1 ! i))"
    using that assms(3) by (auto simp: keeps_running_def)
  moreover have "rd_database_oid (dbs (update_reconcile_db c1 i e) ! i) = rd_database_oid (dbs c1 ! i)"
    "rd_running_flags (dbs (update_reconcile_db c1 i e) ! i) = rd_running_flags e"
    using up [OF len(2)] assms(2) by (simp_all add: same_owner_def)
  moreover have "same_owner (dbs c ! j) (dbs (update_reconcile_db c1 i e) ! j)" if "j < length (dbs c)" "j \<noteq> i" for j
    using up [OF that(1)] that st by (simp add: same_owner_def stored_def)
  ultimately show ?thesis using st len update_reconcile_db_dbs(1) [of c1 i e] unfolding stored_def by auto
qed

definition changes :: "u32 \<Rightarrow> u8 \<Rightarrow> evoke_am_scheduler_control \<Rightarrow> scheduler \<Rightarrow> bool" where
  "changes db taken c sched \<longleftrightarrow> (\<exists>c'. sched = Some c' \<and> table_change db taken (dbs c) (dbs c'))"

lemma changes_same: "sched = Some c' \<Longrightarrow> dbs c' = dbs c \<Longrightarrow> changes db taken c sched"
  by (simp add: changes_def table_change_def)

lemma changes_locked:
  "evoke_am_scheduler_reconcile_db_locked c db create = (e, c1) \<Longrightarrow> changes db 0 c (Some c1)"
  using locked_entry [of c db create _ c1]
  by (cases e) (auto simp: changes_def table_change_def evoke_am_scheduler_reconcile_db_locked_def split: option.splits)

lemma changes_update:
  "evoke_am_scheduler_reconcile_db_locked c db create = (Some i, c1) \<Longrightarrow> rd_database_oid e = rd_database_oid (dbs c1 ! i) \<Longrightarrow>
     keeps_running taken (rd_running_flags (dbs c1 ! i)) (rd_running_flags e) \<Longrightarrow> changes db taken c (Some (update_reconcile_db c1 i e))"
  using locked_update [of c db create i c1 e taken] by (auto simp: changes_def table_change_def)

lemma request_changes: "changes db 0 c (snd (evoke_am_scheduler_request_catalog_reconcile db (Some c) flags))"
proof -
  obtain e c1 where e: "evoke_am_scheduler_reconcile_db_locked c db True = (e, c1)" by fastforce
  then show ?thesis using changes_same [OF refl refl] changes_locked [OF e]
    by (cases e) (auto simp: evoke_am_scheduler_request_catalog_reconcile_def Let_def intro!: changes_update)
qed

lemma claim_changes: "changes db 0 c (snd (evoke_am_scheduler_claim_catalog_reconcile tde recovery db now (Some c) flag interval))"
proof -
  obtain e c1 where e: "evoke_am_scheduler_reconcile_db_locked c db True = (e, c1)" by fastforce
  then show ?thesis using changes_same [OF refl refl] changes_locked [OF e]
    by (cases e) (auto simp: evoke_am_scheduler_claim_catalog_reconcile_def Let_def intro!: changes_update)
qed

lemma service_changes: "changes db 0 c (evoke_am_scheduler_note_maintenance_service db (Some c) idx)"
proof -
  obtain e c1 where e: "evoke_am_scheduler_reconcile_db_locked c db True = (e, c1)" by fastforce
  then show ?thesis using changes_same [OF refl refl] changes_locked [OF e]
    by (cases e) (auto simp: evoke_am_scheduler_note_maintenance_service_def Let_def intro!: changes_update)
qed

lemma keeps_running_zero: "keeps_running 0 r r' \<Longrightarrow> keeps_running taken r r'"
  by (simp add: keeps_running_def)

lemma changes_weaken: "changes db 0 c sched \<Longrightarrow> changes db taken c sched"
  unfolding changes_def table_change_def stored_def using keeps_running_zero by metis

lemma complete_changes:
  "changes db flag c (snd (evoke_am_scheduler_complete_catalog_reconcile db now (Some c) flag rows duration))"
proof -
  obtain e c1 where e: "evoke_am_scheduler_reconcile_db_locked c db False = (e, c1)" by fastforce
  then show ?thesis using changes_same [OF refl refl] changes_weaken [OF changes_locked [OF e]]
    by (cases e) (auto simp: evoke_am_scheduler_complete_catalog_reconcile_def Let_def intro!: changes_update)
qed

lemma release_changes: "changes db flag c (snd (evoke_am_scheduler_release_catalog_reconcile db (Some c) flag))"
proof -
  obtain e c1 where e: "evoke_am_scheduler_reconcile_db_locked c db False = (e, c1)" by fastforce
  then show ?thesis using changes_same [OF refl refl] changes_weaken [OF changes_locked [OF e]]
    by (cases e) (auto simp: evoke_am_scheduler_release_catalog_reconcile_def Let_def intro!: changes_update)
qed

text \<open>All other calls.\<close>

lemma hints_change:
  "changes db 0 c (snd (hint_mark_section db now (Some c) idx flags))"
  "changes db 0 c (snd (evoke_am_scheduler_work_hint_consume db (Some c) flag))"
  "changes db 0 c (evoke_am_scheduler_work_hint_clear_if_unchanged db (Some c) idx flag sequence)"
  "changes db 0 c (evoke_am_scheduler_work_hint_reset_age db now (Some c) idx flag)"
  "changes db 0 c (evoke_am_scheduler_work_hint_allow_accelerator_now db (Some c) idx)"
  by (auto simp: hint_mark_section_def evoke_am_scheduler_work_hint_consume_def
      evoke_am_scheduler_work_hint_clear_if_unchanged_def evoke_am_scheduler_work_hint_reset_age_def
      evoke_am_scheduler_work_hint_allow_accelerator_now_def consume_loop_eq Let_def
      intro: changes_same [OF refl] split: option.split)

lemma defer_changes: "changes db 0 c (snd (hint_defer_section db now (Some c) idx interval))"
  by (auto simp: hint_defer_section_def Let_def simp del: of_int_max
      intro: changes_same [OF refl] split: option.split)

lemma worker_state_dbs [simp]:
  "dbs (evoke_am_scheduler_phase_counter f phase c) = dbs c"
  "dbs (evoke_am_scheduler_prune_worker_launches_locked tde now c) = dbs c"
  by (cases phase; simp add: evoke_am_scheduler_phase_counter_def)
    (simp add: evoke_am_scheduler_prune_worker_launches_locked_def)

lemma workers_change:
  "changes db 0 c (evoke_am_scheduler_note_maintenance_cycle now (Some c))"
  "changes db 0 c (evoke_am_scheduler_set_worker_limit (Some c) limit)"
  "changes db 0 c (evoke_am_scheduler_set_last_maintenance_db_oid (Some c) oid)"
  "changes db 0 c (evoke_am_scheduler_change_worker_phase (Some c) old_phase new_phase)"
  "changes db 0 c (evoke_am_scheduler_note_worker_started (Some c))"
  "changes db 0 c (evoke_am_scheduler_note_worker_finished (Some c))"
  "changes db 0 c (snd (evoke_am_scheduler_try_reserve_worker_launch tde now (Some c) reserve))"
  "changes db 0 c (evoke_am_scheduler_release_worker_launch (Some c))"
  by (auto simp: evoke_am_scheduler_note_maintenance_cycle_def evoke_am_scheduler_set_worker_limit_def
      evoke_am_scheduler_set_last_maintenance_db_oid_def evoke_am_scheduler_note_worker_started_def
      evoke_am_scheduler_note_worker_finished_def evoke_am_scheduler_change_worker_phase_def
      evoke_am_scheduler_try_reserve_worker_launch_def evoke_am_scheduler_release_worker_launch_def Let_def
      simp del: of_int_max intro!: changes_same [OF refl])

section \<open>One process at a time\<close>

text \<open>The calls that end a reconciliation of a class of a database.\<close>

fun finishes :: "u32 \<Rightarrow> u8 \<Rightarrow> u32 \<times> int \<times> scheduler_call \<Rightarrow> bool" where
  "finishes db flag (db', now, Complete_catalog_reconcile flag' rows duration) \<longleftrightarrow> db' = db \<and> flag' = flag"
| "finishes db flag (db', now, Release_catalog_reconcile flag') \<longleftrightarrow> db' = db \<and> flag' = flag"
| "finishes db flag call \<longleftrightarrow> False"

definition claimed :: "u32 \<Rightarrow> u8 \<Rightarrow> scheduler \<Rightarrow> bool" where
  "claimed db flag sched \<longleftrightarrow> (\<exists>c. sched = Some c \<and> dbs_ok (dbs c) \<and> running_at db flag (dbs c))"

lemma changes_claimed:
  assumes "changes db' taken c sched" "dbs_ok (dbs c)"
  shows "\<exists>c'. sched = Some c' \<and> dbs_ok (dbs c')"
    and "running_at db flag (dbs c) \<Longrightarrow> db \<noteq> 0 \<Longrightarrow> (db' = db \<Longrightarrow> taken AND flag = 0) \<Longrightarrow> claimed db flag sched"
  using assms table_change_ok table_change_running unfolding changes_def claimed_def by blast+

lemma perform_changes:
  assumes "evoke_am_scheduler_valid_work_class flag"
  obtains taken where "changes db' taken c (perform tde (Some c) (db', now, k))"
    "\<not> finishes db flag (db', now, k) \<Longrightarrow> db' = db \<Longrightarrow> taken AND flag = 0"
proof (cases "\<exists>f rows duration. k = Complete_catalog_reconcile f rows duration \<or> k = Release_catalog_reconcile f")
  case True
  then obtain f rows duration where k: "k = Complete_catalog_reconcile f rows duration \<or> k = Release_catalog_reconcile f" by blast
  show ?thesis
  proof (cases "evoke_am_scheduler_valid_work_class f")
    case valid: True
    have "changes db' f c (perform tde (Some c) (db', now, k))" using k complete_changes release_changes by auto
    moreover have "f AND flag = 0" if "\<not> finishes db flag (db', now, k)" "db' = db"
      using that k classes_disjoint [OF valid assms] by auto
    ultimately show ?thesis by (rule that)
  next
    case False
    then have "perform tde (Some c) (db', now, k) = Some c"
      using k by (auto simp: evoke_am_scheduler_complete_catalog_reconcile_def evoke_am_scheduler_release_catalog_reconcile_def)
    then show ?thesis using that [of 0] changes_same by simp
  qed
next
  case False
  then have "changes db' 0 c (perform tde (Some c) (db', now, k))"
    using request_changes claim_changes service_changes hints_change defer_changes workers_change by (cases k) simp_all
  then show ?thesis by (rule that) simp
qed

lemma run_dbs_ok:
  "dbs_ok (dbs c) \<Longrightarrow> \<exists>c'. run_calls tde calls (Some c) = Some c' \<and> dbs_ok (dbs c')"
proof (induction calls arbitrary: c)
  case (Cons call calls)
  obtain db now k where call: "call = (db, now, k)" by (cases call)
  obtain taken where "changes db taken c (perform tde (Some c) (db, now, k))"
    by (rule perform_changes [of EVOKE_AM_WORK_HINT_PRELOAD]) (simp_all add: evoke_am_scheduler_valid_work_class_def)
  then show ?case using changes_claimed(1) [OF _ Cons.prems] Cons.IH call by fastforce
qed simp

lemma run_claimed:
  assumes "evoke_am_scheduler_valid_work_class flag" "db \<noteq> 0"
  shows "claimed db flag sched \<Longrightarrow> \<forall>call \<in> set calls. \<not> finishes db flag call \<Longrightarrow> claimed db flag (run_calls tde calls sched)"
proof (induction calls arbitrary: sched)
  case (Cons call calls)
  obtain c where c: "sched = Some c" "dbs_ok (dbs c)" "running_at db flag (dbs c)" using Cons.prems(1) by (auto simp: claimed_def)
  obtain db' now k where call: "call = (db', now, k)" by (cases call)
  obtain taken where taken: "changes db' taken c (perform tde (Some c) (db', now, k))"
    "\<not> finishes db flag (db', now, k) \<Longrightarrow> db' = db \<Longrightarrow> taken AND flag = 0"
    using perform_changes [OF assms(1)] by blast
  have "claimed db flag (perform tde sched call)"
    using changes_claimed(2) [OF taken(1) c(2,3) assms(2)] taken(2) Cons.prems(2) call c(1) by simp
  then show ?case using Cons.IH Cons.prems(2) by simp
qed simp

text \<open>A claim of what is claimed is refused, and a claim that is granted is on record if the database has an entry.\<close>

lemma locked_found:
  assumes "dbs_ok (dbs c)" "e \<in> set (dbs c)" "rd_database_oid e = db" "db \<noteq> 0"
  obtains i where "evoke_am_scheduler_reconcile_db_locked c db create = (Some i, c)" "i < length (dbs c)" "dbs c ! i = e"
proof -
  obtain j where j: "j < length (dbs c)" "dbs c ! j = e" using assms(2) by (auto simp: in_set_conv_nth)
  have found: "\<exists>i. reconcile_scan db es is free old = Some i" if "k \<in> set is" "rd_database_oid (es ! k) = db" for es "is" k free old
    using that by (induction db es "is" free old rule: reconcile_scan.induct) (auto simp: Let_def)
  obtain i where i: "reconcile_scan db (dbs c) [0..<length (dbs c)] None None = Some i"
    using found [of j "[0..<length (dbs c)]" "dbs c"] j assms(3) by auto
  have "rd_database_oid (dbs c ! i) = db" "i < length (dbs c)"
    using reconcile_entry [OF i] j assms(3) by auto
  moreover from this have "i = j" using assms(1,3,4) j unfolding dbs_ok_def by metis
  ultimately show ?thesis using that [of i] i j by (simp add: evoke_am_scheduler_reconcile_db_locked_def)
qed

lemma claimed_refuses:
  assumes "claimed db flag sched" "db \<noteq> 0" "evoke_am_scheduler_valid_work_class flag"
  shows "fst (evoke_am_scheduler_claim_catalog_reconcile tde recovery db now sched flag interval) = Some False"
proof -
  obtain c where c: "sched = Some c" "dbs_ok (dbs c)" "running_at db flag (dbs c)" using assms(1) by (auto simp: claimed_def)
  obtain e where e: "e \<in> set (dbs c)" "rd_database_oid e = db" "rd_running_flags e AND flag \<noteq> 0"
    using c(3) unfolding running_at_def by blast
  obtain i where "evoke_am_scheduler_reconcile_db_locked c db True = (Some i, c)" "dbs c ! i = e"
    using locked_found [OF c(2) e(1,2) assms(2)] by metis
  then show ?thesis using c(1) e(3) assms(3) by (simp add: evoke_am_scheduler_claim_catalog_reconcile_def Let_def)
qed

lemma granted_claimed:
  assumes "evoke_am_scheduler_claim_catalog_reconcile tde recovery db now (Some c) flag interval = (Some True, Some c')"
    and "dbs_ok (dbs c)" "evoke_am_scheduler_valid_work_class flag" "db \<noteq> 0" "e \<in> set (dbs c')" "rd_database_oid e = db"
  shows "claimed db flag (Some c')"
proof -
  have ok: "dbs_ok (dbs c')"
    using changes_claimed(1) [OF claim_changes assms(2), of tde recovery db now flag interval] assms(1) by simp
  obtain r c1 where locked: "evoke_am_scheduler_reconcile_db_locked c db True = (r, c1)" by fastforce
  show ?thesis
  proof (cases r)
    case None
    then have "c' = c1" "c1 = c" using assms(1,3) locked
      by (auto simp: evoke_am_scheduler_claim_catalog_reconcile_def evoke_am_scheduler_reconcile_db_locked_def split: option.splits)
    then show ?thesis using locked_found [OF assms(2) _ assms(6,4), of True] assms(5) locked None by auto
  next
    case (Some i)
    note entry = locked_entry [OF locked [unfolded Some]]
    obtain x where x: "c' = update_reconcile_db c1 i x" "rd_database_oid x = rd_database_oid (dbs c1 ! i)" "rd_running_flags x AND flag \<noteq> 0"
      using assms(1,3) locked Some
      by (auto simp: evoke_am_scheduler_claim_catalog_reconcile_def Let_def flag_or evoke_am_scheduler_valid_work_class_def
          scheduler_consts split: if_splits)
    have i: "i < length (dbs c1)" "rd_database_oid (dbs c1 ! i) = db" using entry by (simp_all add: stored_def)
    then have "rd_database_oid (dbs c' ! i) = db" "rd_running_flags (dbs c' ! i) AND flag \<noteq> 0" "i < length (dbs c')"
      using update_reconcile_db_dbs(2) [of i c1 i x] update_reconcile_db_dbs(1) [of c1 i x] x by (auto simp: same_owner_def)
    then show ?thesis using ok unfolding claimed_def running_at_def by (metis nth_mem)
  qed
qed

text \<open>
  C39. A catalog reconciliation is exclusive. Take the scheduler after any calls since its start, and let a process claim a class of
  its database and be granted it, with the database on record. Whatever calls any processes make afterwards, every further claim of
  that class for that database is refused until a process of the database completes or releases it: the entry of a running
  reconciliation is never given to another database, and no other call takes its flag away.
\<close>

theorem reconcile_claim_exclusive:
  assumes "run_calls tde before (evoke_am_scheduler_shmem_startup limit) = Some c"
    and "evoke_am_scheduler_claim_catalog_reconcile tde' recovery db now (Some c) flag interval = (Some True, Some c')"
    and "evoke_am_scheduler_valid_work_class flag" "db \<noteq> 0" "\<exists>e \<in> set (dbs c'). rd_database_oid e = db"
    and "\<forall>call \<in> set later. \<not> finishes db flag call"
  shows "fst (evoke_am_scheduler_claim_catalog_reconcile tde'' recovery' db now' (run_calls tde later (Some c')) flag interval') = Some False"
proof -
  obtain c0 where c0: "evoke_am_scheduler_shmem_startup limit = Some c0" "dbs_ok (dbs c0)"
    by (simp add: evoke_am_scheduler_shmem_startup_def dbs_ok_def zero_reconcile_db_def)
  have "dbs_ok (dbs c)" using run_dbs_ok [OF c0(2), of tde before] assms(1) c0(1) by simp
  then have "claimed db flag (Some c')" using granted_claimed [OF assms(2)] assms(3-5) by blast
  then have "claimed db flag (run_calls tde later (Some c'))" by (rule run_claimed [OF assms(3,4) _ assms(6)])
  then show ?thesis using assms(4,3) by (rule claimed_refuses)
qed

text \<open>Database 5 claims maintenance of an empty table; other databases and the other class go on.\<close>

lemma reconcile_scan_unused:
  "\<forall>j \<in> set is. rd_database_oid (es ! j) = 0 \<Longrightarrow> db \<noteq> 0 \<Longrightarrow> reconcile_scan db es is (Some f) None = Some f"
  by (induction "is") (auto simp: Let_def)

lemma sample_claim:
  obtains c c' where "evoke_am_scheduler_shmem_startup 3 = Some c"
    "evoke_am_scheduler_claim_catalog_reconcile (\<lambda>_ _ _. False) False 5 1 (Some c) 1 0 = (Some True, Some c')"
    "\<exists>e \<in> set (dbs c'). rd_database_oid e = 5"
proof -
  obtain c where c: "evoke_am_scheduler_shmem_startup 3 = Some c" by (simp add: evoke_am_scheduler_shmem_startup_def)
  then have table: "dbs c = replicate EVOKE_AM_RECONCILE_DB_CAPACITY zero_reconcile_db" by (auto simp: evoke_am_scheduler_shmem_startup_def)
  have cap: "0 < EVOKE_AM_RECONCILE_DB_CAPACITY" by (simp add: EVOKE_AM_RECONCILE_DB_CAPACITY_def)
  have length_table: "length (dbs c) = EVOKE_AM_RECONCILE_DB_CAPACITY" by (simp add: table)
  have upt: "[0..<EVOKE_AM_RECONCILE_DB_CAPACITY] = 0 # [1..<EVOKE_AM_RECONCILE_DB_CAPACITY]"
    using upt_conv_Cons [of 0 EVOKE_AM_RECONCILE_DB_CAPACITY] by (simp add: EVOKE_AM_RECONCILE_DB_CAPACITY_def)
  have entries: "rd_database_oid (dbs c ! j) = 0" if "j < EVOKE_AM_RECONCILE_DB_CAPACITY" for j
    using that by (simp add: table zero_reconcile_db_def)
  have "reconcile_scan 5 (dbs c) [0..<length (dbs c)] None None = Some 0"
    using entries [of 0] entries reconcile_scan_unused [of "[1..<EVOKE_AM_RECONCILE_DB_CAPACITY]" "dbs c" 5 0] cap
    by (simp add: upt length_table del: upt_Suc)
  then have locked: "evoke_am_scheduler_reconcile_db_locked c 5 True =
      (Some 0, c\<lparr>sc_reconcile_dbs := (dbs c)[0 := zero_reconcile_db\<lparr>rd_database_oid := 5\<rparr>]\<rparr>)"
    using entries [of 0] by (simp add: evoke_am_scheduler_reconcile_db_locked_def EVOKE_AM_RECONCILE_DB_CAPACITY_def)
  have len: "0 < length (dbs c)" by (simp add: table EVOKE_AM_RECONCILE_DB_CAPACITY_def)
  define c1 where "c1 = c\<lparr>sc_reconcile_dbs := (dbs c)[0 := zero_reconcile_db\<lparr>rd_database_oid := 5\<rparr>]\<rparr>"
  define x where "x = zero_reconcile_db\<lparr>rd_database_oid := 5, rd_running_flags := 1\<rparr>"
  have claim: "evoke_am_scheduler_claim_catalog_reconcile (\<lambda>_ _ _. False) False 5 1 (Some c) 1 0 =
      (Some True, Some (update_reconcile_db c1 0 x))"
    using len by (simp add: evoke_am_scheduler_claim_catalog_reconcile_def locked Let_def zero_reconcile_db_def
        evoke_am_scheduler_valid_work_class_def scheduler_consts c1_def x_def)
  have "rd_database_oid (dbs (update_reconcile_db c1 0 x) ! 0) = 5" "0 < length (dbs (update_reconcile_db c1 0 x))"
    using update_reconcile_db_dbs(2) [of 0 c1 0 x] update_reconcile_db_dbs(1) [of c1 0 x] len
    by (simp_all add: c1_def x_def same_owner_def)
  then show ?thesis using that [OF c claim] by (metis nth_mem)
qed

lemma reconcile_claim_exclusive_witness:
  "\<exists>c. fst (evoke_am_scheduler_claim_catalog_reconcile (\<lambda>_ _ _. True) True 5 900
     (run_calls (\<lambda>_ _ _. False) [(6, 2, Claim_catalog_reconcile False 1 0), (5, 3, Complete_catalog_reconcile 2 10 20),
        (6, 4, Release_catalog_reconcile 1), (5, 5, Request_catalog_reconcile 1)] (Some c)) 1 0) = Some False"
proof -
  obtain c c' where c: "run_calls (\<lambda>_ _ _. False) [] (evoke_am_scheduler_shmem_startup 3) = Some c"
    and claim: "evoke_am_scheduler_claim_catalog_reconcile (\<lambda>_ _ _. False) False 5 1 (Some c) 1 0 = (Some True, Some c')"
      "\<exists>e \<in> set (dbs c'). rd_database_oid e = 5"
    using sample_claim by (metis foldl_Nil)
  have "fst (evoke_am_scheduler_claim_catalog_reconcile (\<lambda>_ _ _. True) True 5 900
     (run_calls (\<lambda>_ _ _. False) [(6, 2, Claim_catalog_reconcile False 1 0), (5, 3, Complete_catalog_reconcile 2 10 20),
        (6, 4, Release_catalog_reconcile 1), (5, 5, Request_catalog_reconcile 1)] (Some c')) 1 0) = Some False"
    by (rule reconcile_claim_exclusive [OF c claim(1) _ _ claim(2)]) (simp_all add: evoke_am_scheduler_valid_work_class_def scheduler_consts)
  then show ?thesis by blast
qed

section \<open>Databases without an entry\<close>

text \<open>
  When every entry belongs to some other database and one of them is idle, the lookup without \<open>create\<close> returns an idle entry of
  another database: the fairness cursor of the calling database is then the cursor of the other, and a completion is recorded there.
  (A claim is granted without an entry when all entries run, so that its completion can come to this.)
\<close>

lemma reconcile_scan_idle:
  assumes "\<forall>e \<in> set es. rd_database_oid e \<noteq> db \<and> rd_database_oid e \<noteq> 0" "set is \<subseteq> {..<length es}"
    and "old \<noteq> None \<or> (\<exists>i \<in> set is. rd_running_flags (es ! i) = 0)"
  shows "reconcile_scan db es is None old \<noteq> None"
  using assms(2,3)
proof (induction "is" arbitrary: old)
  case (Cons i rest)
  have "es ! i \<in> set es" using Cons.prems(1) by simp
  then have i: "rd_database_oid (es ! i) \<noteq> db" "rd_database_oid (es ! i) \<noteq> 0" using assms(1) by auto
  show ?case
  proof (cases "rd_running_flags (es ! i) = 0 \<and>
      (case old of None \<Rightarrow> True | Some j \<Rightarrow> rd_last_access_counter (es ! i) < rd_last_access_counter (es ! j))")
    case True
    then show ?thesis using i Cons.IH [of "Some i"] Cons.prems(1) by (simp add: Let_def)
  next
    case False
    then have "old \<noteq> None \<or> (\<exists>j \<in> set rest. rd_running_flags (es ! j) = 0)" using Cons.prems(2) by auto
    moreover have "reconcile_scan db es (i # rest) None old = reconcile_scan db es rest None old"
      by (simp only: reconcile_scan.simps Let_def i False if_False)
    ultimately show ?thesis using Cons.IH [of old] Cons.prems(1) by simp
  qed
qed auto

lemma locked_other:
  assumes "\<forall>e \<in> set (dbs c). rd_database_oid e \<noteq> db \<and> rd_database_oid e \<noteq> 0" "\<exists>e \<in> set (dbs c). rd_running_flags e = 0"
  obtains i where "evoke_am_scheduler_reconcile_db_locked c db False = (Some i, c)" "i < length (dbs c)"
    "rd_database_oid (dbs c ! i) \<noteq> db" "rd_database_oid (dbs c ! i) \<noteq> 0"
proof -
  obtain i where i: "reconcile_scan db (dbs c) [0..<length (dbs c)] None None = Some i"
  proof -
    have "\<exists>i \<in> set [0..<length (dbs c)]. rd_running_flags (dbs c ! i) = 0" using assms(2) by (force simp: in_set_conv_nth)
    then have "reconcile_scan db (dbs c) [0..<length (dbs c)] None None \<noteq> None"
      by (intro reconcile_scan_idle [OF assms(1)]) auto
    then show ?thesis using that by blast
  qed
  have "i < length (dbs c)" using reconcile_entry [OF i] by simp
  then show ?thesis using that [of i] i assms(1) by (simp add: evoke_am_scheduler_reconcile_db_locked_def)
qed

lemma cursor_of_other_database:
  assumes "\<forall>e \<in> set (dbs c). rd_database_oid e \<noteq> db \<and> rd_database_oid e \<noteq> 0" "\<exists>e \<in> set (dbs c). rd_running_flags e = 0"
  shows "\<exists>e \<in> set (dbs c). rd_database_oid e \<noteq> db \<and>
           evoke_am_scheduler_maintenance_fairness_cursor db (Some c) = rd_maintenance_last_served_index_oid e"
proof -
  obtain i where i: "evoke_am_scheduler_reconcile_db_locked c db False = (Some i, c)" "i < length (dbs c)"
    "rd_database_oid (dbs c ! i) \<noteq> db" using locked_other [OF assms] by metis
  then show ?thesis by (intro bexI [of _ "dbs c ! i"]) (simp_all add: evoke_am_scheduler_maintenance_fairness_cursor_def)
qed

end
