(* ===== verification/Stem.thy ===== *)
theory Stem
  imports Prelude "HOL-Library.Monad_Syntax"
begin

text \<open>
  The Porter stemmer of \<open>src/evoke_stem.c\<close>, as it works: in place on a zero-terminated buffer, with the length beside it. A read or a
  write outside of the buffer is undefined in C; here it makes the whole call \<open>None\<close>. Lengths and indices are natural numbers,
  since they are \<open>int\<close> values that the code keeps from becoming negative.
\<close>

section \<open>Memory\<close>

type_synonym token = "u8 list"

definition rd :: "token \<Rightarrow> nat \<Rightarrow> u8 option" where
  "rd t i = (if i < length t then Some (t ! i) else None)"

definition wr :: "token \<Rightarrow> nat \<Rightarrow> u8 \<Rightarrow> token option" where
  "wr t i c = (if i < length t then Some (t[i := c]) else None)"

definition strlen :: "token \<Rightarrow> nat option" where
  "strlen t = (if 0 \<in> set t then Some (length (takeWhile (\<lambda>c. c \<noteq> 0) t)) else None)"

text \<open>\<open>memcpy\<close> into the token and \<open>memcmp\<close> with a part of it.\<close>

fun memcpy :: "token \<Rightarrow> nat \<Rightarrow> u8 list \<Rightarrow> token option" where
  "memcpy t pos [] = Some t"
| "memcpy t pos (c # cs) = do { t \<leftarrow> wr t pos c; memcpy t (Suc pos) cs }"

definition memcmp_equal :: "token \<Rightarrow> nat \<Rightarrow> u8 list \<Rightarrow> bool option" where
  "memcmp_equal t pos cs =
     (if pos + length cs \<le> length t then Some (take (length cs) (drop pos t) = cs) else None)"

text \<open>Letters of the source text.\<close>

definition lit :: "string \<Rightarrow> u8 list" where "lit s = map of_char s"
abbreviation ch :: "char \<Rightarrow> u8" where "ch c \<equiv> of_char c"

lemma length_lit [simp]: "length (lit s) = length s"
  by (simp add: lit_def)

lemma lit_Nil [simp]: "lit [] = []"
  by (simp add: lit_def)

section \<open>Predicates on the token\<close>

definition evoke_stem_is_lower_ascii_letter :: "u8 \<Rightarrow> bool" where
  "evoke_stem_is_lower_ascii_letter c \<longleftrightarrow> c \<ge> ch CHR ''a'' \<and> c \<le> ch CHR ''z''"

fun evoke_stem_is_consonant :: "token \<Rightarrow> nat \<Rightarrow> bool option" where
  "evoke_stem_is_consonant t i =
     (case rd t i of
        None \<Rightarrow> None
      | Some c \<Rightarrow>
          if c \<in> set (lit ''aeiou'') then Some False
          else if c = ch CHR ''y''
          then (if i = 0 then Some True else map_option Not (evoke_stem_is_consonant t (i - 1)))
          else Some True)"

declare evoke_stem_is_consonant.simps [simp del]

text \<open>The inner loops of the measure: on over the letters that are consonants, or that are not.\<close>

function skip_letters :: "bool \<Rightarrow> token \<Rightarrow> nat \<Rightarrow> nat \<Rightarrow> nat option" where
  "skip_letters consonants t len i =
     (if i < len
      then (case evoke_stem_is_consonant t i of
              None \<Rightarrow> None
            | Some c \<Rightarrow> if c = consonants then skip_letters consonants t len (i + 1) else Some i)
      else Some i)"
  by auto

termination by (relation "measure (\<lambda>(_, _, len, i). len - i)") auto

declare skip_letters.simps [simp del]

lemma skip_letters_le: "skip_letters b t len i = Some j \<Longrightarrow> i \<le> j"
  by (induction b t len i rule: skip_letters.induct)
     (subst (asm) (2) skip_letters.simps, fastforce split: if_splits option.splits)

lemma skip_letters_progress:
  assumes "skip_letters True t len i = Some j" "skip_letters False t len j = Some k" "i < len"
  shows "i < k"
proof -
  have "evoke_stem_is_consonant t i \<noteq> None" using assms(1,3) by (subst (asm) skip_letters.simps) (auto split: option.splits)
  then obtain c where c: "evoke_stem_is_consonant t i = Some c" by blast
  show ?thesis
  proof (cases c)
    case True
    then have "skip_letters True t len (i + 1) = Some j" using assms(1,3) c by (subst (asm) skip_letters.simps) simp
    then have "i + 1 \<le> j" by (rule skip_letters_le)
    then show ?thesis using skip_letters_le [OF assms(2)] by simp
  next
    case False
    then have "j = i" using assms(1,3) c by (subst (asm) skip_letters.simps) simp
    then have "skip_letters False t len (i + 1) = Some k" using assms(2,3) c False by (subst (asm) skip_letters.simps) simp
    then have "i + 1 \<le> k" by (rule skip_letters_le)
    then show ?thesis by simp
  qed
qed

function measure_loop :: "token \<Rightarrow> nat \<Rightarrow> nat \<Rightarrow> nat \<Rightarrow> nat option" where
  "measure_loop t len i m =
     (if i < len
      then (case skip_letters True t len i of
              None \<Rightarrow> None
            | Some j \<Rightarrow>
                case skip_letters False t len j of
                  None \<Rightarrow> None
                | Some k \<Rightarrow> measure_loop t len k (if k < len then m + 1 else m))
      else Some m)"
  by auto

termination
  by (relation "measure (\<lambda>(_, len, i, _). len - i)") (auto dest: skip_letters_progress intro: diff_less_mono2)

declare measure_loop.simps [simp del]

definition evoke_stem_measure :: "token \<Rightarrow> nat \<Rightarrow> nat option" where
  "evoke_stem_measure t len = measure_loop t len 0 0"

fun contains_vowel_loop :: "token \<Rightarrow> nat list \<Rightarrow> bool option" where
  "contains_vowel_loop t [] = Some False"
| "contains_vowel_loop t (i # rest) =
     do { c \<leftarrow> evoke_stem_is_consonant t i; if \<not> c then Some True else contains_vowel_loop t rest }"

definition evoke_stem_contains_vowel :: "token \<Rightarrow> nat \<Rightarrow> bool option" where
  "evoke_stem_contains_vowel t len = contains_vowel_loop t [0..<len]"

definition evoke_stem_ends_with_double_consonant :: "token \<Rightarrow> nat \<Rightarrow> bool option" where
  "evoke_stem_ends_with_double_consonant t len =
     (if len < 2 then Some False
      else do {
        a \<leftarrow> rd t (len - 1); b \<leftarrow> rd t (len - 2);
        if a = b then evoke_stem_is_consonant t (len - 1) else Some False })"

definition evoke_stem_is_cvc :: "token \<Rightarrow> nat \<Rightarrow> bool option" where
  "evoke_stem_is_cvc t len =
     (if len < 3 then Some False
      else do {
        c1 \<leftarrow> evoke_stem_is_consonant t (len - 1);
        if \<not> c1 then Some False
        else do {
          c2 \<leftarrow> evoke_stem_is_consonant t (len - 2);
          if c2 then Some False
          else do {
            c3 \<leftarrow> evoke_stem_is_consonant t (len - 3);
            if \<not> c3 then Some False
            else do {
              c \<leftarrow> rd t (len - 1);
              Some (c \<noteq> ch CHR ''w'' \<and> c \<noteq> ch CHR ''x'' \<and> c \<noteq> ch CHR ''y'') } } } })"

definition evoke_stem_ends_with :: "token \<Rightarrow> nat \<Rightarrow> u8 list \<Rightarrow> bool option" where
  "evoke_stem_ends_with t len suffix =
     (if len < length suffix then Some False else memcmp_equal t (len - length suffix) suffix)"

section \<open>Steps\<close>

text \<open>Steps return the token and its length. A new length is stored together with the zero byte behind it.\<close>

definition evoke_stem_replace_suffix :: "token \<Rightarrow> nat \<Rightarrow> nat \<Rightarrow> u8 list \<Rightarrow> (token \<times> nat) option" where
  "evoke_stem_replace_suffix t len suffix_len replacement =
     do {
       t \<leftarrow> memcpy t (len - suffix_len) replacement;
       let len = len - suffix_len + length replacement;
       t \<leftarrow> wr t len 0;
       Some (t, len) }"

definition append_e :: "token \<Rightarrow> nat \<Rightarrow> (token \<times> nat) option" where
  "append_e t len = do { t \<leftarrow> wr t len (ch CHR ''e''); t \<leftarrow> wr t (len + 1) 0; Some (t, len + 1) }"

definition drop_last :: "token \<Rightarrow> nat \<Rightarrow> (token \<times> nat) option" where
  "drop_last t len = do { t \<leftarrow> wr t (len - 1) 0; Some (t, len - 1) }"

text \<open>A chain of suffix tests: the first that holds decides.\<close>

definition evoke_stem_step_1a :: "token \<Rightarrow> nat \<Rightarrow> (token \<times> nat) option" where
  "evoke_stem_step_1a t len =
     do {
       sses \<leftarrow> evoke_stem_ends_with t len (lit ''sses'');
       if sses then evoke_stem_replace_suffix t len 4 (lit ''ss'')
       else do {
         ies \<leftarrow> evoke_stem_ends_with t len (lit ''ies'');
         if ies then evoke_stem_replace_suffix t len 3 (lit ''i'')
         else do {
           ss \<leftarrow> evoke_stem_ends_with t len (lit ''ss'');
           if ss then Some (t, len)
           else do {
             s \<leftarrow> evoke_stem_ends_with t len (lit ''s'');
             if s then evoke_stem_replace_suffix t len 1 (lit '''') else Some (t, len) } } } }"

definition evoke_stem_step_1b_postprocess :: "token \<Rightarrow> nat \<Rightarrow> (token \<times> nat) option" where
  "evoke_stem_step_1b_postprocess t len =
     do {
       at1 \<leftarrow> evoke_stem_ends_with t len (lit ''at'');
       bl \<leftarrow> if at1 then Some True else evoke_stem_ends_with t len (lit ''bl'');
       iz \<leftarrow> if bl then Some True else evoke_stem_ends_with t len (lit ''iz'');
       if iz then append_e t len
       else do {
         double \<leftarrow> evoke_stem_ends_with_double_consonant t len;
         single \<leftarrow> if double then do { c \<leftarrow> rd t (len - 1); Some (c \<notin> set (lit ''lsz'')) } else Some False;
         if single then drop_last t len
         else do {
           m \<leftarrow> evoke_stem_measure t len;
           short \<leftarrow> if m = 1 then evoke_stem_is_cvc t len else Some False;
           if short then append_e t len else Some (t, len) } } }"

text \<open>Step 1b for \<open>ed\<close> and \<open>ing\<close>.\<close>

definition strip_past :: "token \<Rightarrow> nat \<Rightarrow> nat \<Rightarrow> (token \<times> nat) option" where
  "strip_past t len suffix_len =
     do {
       vowel \<leftarrow> evoke_stem_contains_vowel t (len - suffix_len);
       if vowel
       then do {
         (t, len) \<leftarrow> evoke_stem_replace_suffix t len suffix_len (lit '''');
         evoke_stem_step_1b_postprocess t len }
       else Some (t, len) }"

definition evoke_stem_step_1b :: "token \<Rightarrow> nat \<Rightarrow> (token \<times> nat) option" where
  "evoke_stem_step_1b t len =
     do {
       eed \<leftarrow> evoke_stem_ends_with t len (lit ''eed'');
       if eed
       then do {
         m \<leftarrow> evoke_stem_measure t (len - 3);
         if m > 0 then evoke_stem_replace_suffix t len 3 (lit ''ee'') else Some (t, len) }
       else do {
         ed \<leftarrow> evoke_stem_ends_with t len (lit ''ed'');
         if ed then strip_past t len 2
         else do {
           ing \<leftarrow> evoke_stem_ends_with t len (lit ''ing'');
           if ing then strip_past t len 3 else Some (t, len) } } }"

definition evoke_stem_step_1c :: "token \<Rightarrow> nat \<Rightarrow> (token \<times> nat) option" where
  "evoke_stem_step_1c t len =
     (if len > 1
      then do {
        c \<leftarrow> rd t (len - 1);
        vowel \<leftarrow> if c = ch CHR ''y'' then evoke_stem_contains_vowel t (len - 1) else Some False;
        if vowel then do { t \<leftarrow> wr t (len - 1) (ch CHR ''i''); Some (t, len) } else Some (t, len) }
      else Some (t, len))"

type_synonym evoke_stem_rule = "string \<times> string"

fun evoke_stem_apply_rules :: "token \<Rightarrow> nat \<Rightarrow> evoke_stem_rule list \<Rightarrow> nat \<Rightarrow> (token \<times> nat) option" where
  "evoke_stem_apply_rules t len [] min_measure = Some (t, len)"
| "evoke_stem_apply_rules t len ((suffix, replacement) # rules) min_measure =
     do {
       ends \<leftarrow> evoke_stem_ends_with t len (lit suffix);
       if \<not> ends then evoke_stem_apply_rules t len rules min_measure
       else do {
         m \<leftarrow> evoke_stem_measure t (len - length suffix);
         if m > min_measure then evoke_stem_replace_suffix t len (length suffix) (lit replacement) else Some (t, len) } }"

definition step_2_rules :: "evoke_stem_rule list" where
  "step_2_rules =
     [(''ational'', ''ate''), (''tional'', ''tion''), (''enci'', ''ence''), (''anci'', ''ance''), (''izer'', ''ize''),
      (''abli'', ''able''), (''alli'', ''al''), (''entli'', ''ent''), (''eli'', ''e''), (''ousli'', ''ous''),
      (''ization'', ''ize''), (''ation'', ''ate''), (''ator'', ''ate''), (''alism'', ''al''), (''iveness'', ''ive''),
      (''fulness'', ''ful''), (''ousness'', ''ous''), (''aliti'', ''al''), (''iviti'', ''ive''), (''biliti'', ''ble''),
      (''logi'', ''log'')]"

definition evoke_stem_step_2 :: "token \<Rightarrow> nat \<Rightarrow> (token \<times> nat) option" where
  "evoke_stem_step_2 t len = evoke_stem_apply_rules t len step_2_rules 0"

definition step_3_rules :: "evoke_stem_rule list" where
  "step_3_rules =
     [(''icate'', ''ic''), (''ative'', ''''), (''alize'', ''al''), (''iciti'', ''ic''), (''ical'', ''ic''), (''ful'', ''''), (''ness'', '''')]"

definition evoke_stem_step_3 :: "token \<Rightarrow> nat \<Rightarrow> (token \<times> nat) option" where
  "evoke_stem_step_3 t len = evoke_stem_apply_rules t len step_3_rules 0"

definition step_4_suffixes :: "string list" where
  "step_4_suffixes =
     [''ement'', ''ance'', ''ence'', ''able'', ''ible'', ''ment'', ''ant'', ''ent'', ''ism'', ''ate'', ''iti'', ''ous'', ''ive'', ''ize'',
      ''al'', ''er'', ''ic'', ''ou'']"

fun step_4_loop :: "token \<Rightarrow> nat \<Rightarrow> string list \<Rightarrow> (token \<times> nat) option" where
  "step_4_loop t len [] = Some (t, len)"
| "step_4_loop t len (suffix # suffixes) =
     do {
       ends \<leftarrow> evoke_stem_ends_with t len (lit suffix);
       if \<not> ends then step_4_loop t len suffixes
       else do {
         m \<leftarrow> evoke_stem_measure t (len - length suffix);
         if m > 1 then evoke_stem_replace_suffix t len (length suffix) (lit '''') else Some (t, len) } }"

definition evoke_stem_step_4 :: "token \<Rightarrow> nat \<Rightarrow> (token \<times> nat) option" where
  "evoke_stem_step_4 t len =
     do {
       ion \<leftarrow> evoke_stem_ends_with t len (lit ''ion'');
       if ion
       then
         let stem_len = len - 3
         in if stem_len > 0
            then do {
              m \<leftarrow> evoke_stem_measure t stem_len;
              strip \<leftarrow> if m > 1 then do { c \<leftarrow> rd t (stem_len - 1); Some (c = ch CHR ''s'' \<or> c = ch CHR ''t'') } else Some False;
              if strip then evoke_stem_replace_suffix t len 3 (lit '''') else Some (t, len) }
            else Some (t, len)
       else step_4_loop t len step_4_suffixes }"

text \<open>Step 5, its two halves.\<close>

definition step_5a :: "token \<Rightarrow> nat \<Rightarrow> (token \<times> nat) option" where
  "step_5a t len =
     (if len > 0
      then do {
        c \<leftarrow> rd t (len - 1);
        if c = ch CHR ''e''
        then do {
          m \<leftarrow> evoke_stem_measure t (len - 1);
          strip \<leftarrow> if m > 1 then Some True else if m = 1 then map_option Not (evoke_stem_is_cvc t (len - 1)) else Some False;
          if strip then drop_last t len else Some (t, len) }
        else Some (t, len) }
      else Some (t, len))"

definition step_5b :: "token \<Rightarrow> nat \<Rightarrow> (token \<times> nat) option" where
  "step_5b t len =
     (if len > 1
      then do {
        a \<leftarrow> rd t (len - 1);
        b \<leftarrow> if a = ch CHR ''l'' then rd t (len - 2) else Some 0;
        m \<leftarrow> if b = ch CHR ''l'' then evoke_stem_measure t len else Some 0;
        if m > 1 then drop_last t len else Some (t, len) }
      else Some (t, len))"

definition evoke_stem_step_5 :: "token \<Rightarrow> nat \<Rightarrow> (token \<times> nat) option" where
  "evoke_stem_step_5 t len = do { (t, len) \<leftarrow> step_5a t len; step_5b t len }"

fun all_letters_loop :: "token \<Rightarrow> nat list \<Rightarrow> bool option" where
  "all_letters_loop t [] = Some True"
| "all_letters_loop t (i # rest) =
     do { c \<leftarrow> rd t i; if \<not> evoke_stem_is_lower_ascii_letter c then Some False else all_letters_loop t rest }"

text \<open>\<open>(int) strlen(token)\<close> keeps the low 32 bits as a signed number; a negative length is below 3 like a short one.\<close>

definition evoke_stem_english_porter :: "token option \<Rightarrow> token option option" where
  "evoke_stem_english_porter token =
     (case token of
        None \<Rightarrow> Some None
      | Some t \<Rightarrow> do {
          n \<leftarrow> strlen t;
          let len = sint (word_of_nat n :: u32);
          if len < 3 then Some (Some t)
          else do {
            letters \<leftarrow> all_letters_loop t [0..<nat len];
            if \<not> letters then Some (Some t)
            else do {
              (t, len) \<leftarrow> evoke_stem_step_1a t (nat len);
              (t, len) \<leftarrow> evoke_stem_step_1b t len;
              (t, len) \<leftarrow> evoke_stem_step_1c t len;
              (t, len) \<leftarrow> evoke_stem_step_2 t len;
              (t, len) \<leftarrow> evoke_stem_step_3 t len;
              (t, len) \<leftarrow> evoke_stem_step_4 t len;
              (t, len) \<leftarrow> evoke_stem_step_5 t len;
              Some (Some t) } } })"

end
