(* ===== verification/Stem_Spec.thy ===== *)
theory Stem_Spec
  imports Stem "HOL-Library.Sublist"
begin

text \<open>
  What the stemmer of \<open>src/evoke_stem.c\<close> does to a word, on lists and without lengths: the measure is the number of places where
  a consonant follows a vowel, a suffix is replaced behind its stem. The in-place code computes it on every buffer, and
  never reads or writes outside of the word and its terminating zero.
\<close>

section \<open>Words\<close>

fun consonant :: "u8 list \<Rightarrow> nat \<Rightarrow> bool" where
  "consonant w i \<longleftrightarrow>
     (if w ! i \<in> set (lit ''aeiou'') then False
      else if w ! i = ch CHR ''y'' then (if i = 0 then True else \<not> consonant w (i - 1))
      else True)"

declare consonant.simps [simp del]

definition vc :: "u8 list \<Rightarrow> nat \<Rightarrow> bool" where "vc w i \<longleftrightarrow> \<not> consonant w i \<and> consonant w (i + 1)"

definition vc_count :: "u8 list \<Rightarrow> nat" where "vc_count w = length (filter (vc w) [0..<length w - 1])"

definition has_vowel :: "u8 list \<Rightarrow> bool" where "has_vowel w \<longleftrightarrow> (\<exists>i < length w. \<not> consonant w i)"

definition double_consonant :: "u8 list \<Rightarrow> bool" where
  "double_consonant w \<longleftrightarrow> 2 \<le> length w \<and> w ! (length w - 1) = w ! (length w - 2) \<and> consonant w (length w - 1)"

definition short_end :: "u8 list \<Rightarrow> bool" where
  "short_end w \<longleftrightarrow> 3 \<le> length w \<and> consonant w (length w - 1) \<and> \<not> consonant w (length w - 2) \<and> consonant w (length w - 3) \<and>
     w ! (length w - 1) \<notin> set (lit ''wxy'')"

definition stem_of :: "u8 list \<Rightarrow> string \<Rightarrow> u8 list" where "stem_of w s = take (length w - length s) w"

abbreviation ends :: "u8 list \<Rightarrow> string \<Rightarrow> bool" where "ends w s \<equiv> suffix (lit s) w"

section \<open>The steps on words\<close>

definition word_1a :: "u8 list \<Rightarrow> u8 list" where
  "word_1a w =
     (if ends w ''sses'' then stem_of w ''sses'' @ lit ''ss''
      else if ends w ''ies'' then stem_of w ''ies'' @ lit ''i''
      else if ends w ''ss'' then w
      else if ends w ''s'' then stem_of w ''s'' else w)"

definition word_1b_after :: "u8 list \<Rightarrow> u8 list" where
  "word_1b_after w =
     (if ends w ''at'' \<or> ends w ''bl'' \<or> ends w ''iz'' then w @ lit ''e''
      else if double_consonant w \<and> last w \<notin> set (lit ''lsz'') then butlast w
      else if vc_count w = 1 \<and> short_end w then w @ lit ''e'' else w)"

definition word_past :: "u8 list \<Rightarrow> string \<Rightarrow> u8 list" where
  "word_past w s = (if has_vowel (stem_of w s) then word_1b_after (stem_of w s) else w)"

definition word_1b :: "u8 list \<Rightarrow> u8 list" where
  "word_1b w =
     (if ends w ''eed'' then (if vc_count (stem_of w ''eed'') > 0 then stem_of w ''eed'' @ lit ''ee'' else w)
      else if ends w ''ed'' then word_past w ''ed''
      else if ends w ''ing'' then word_past w ''ing'' else w)"

definition word_1c :: "u8 list \<Rightarrow> u8 list" where
  "word_1c w = (if ends w ''y'' \<and> has_vowel (butlast w) then butlast w @ lit ''i'' else w)"

text \<open>The first rule whose suffix fits is applied when the stem before it is long enough.\<close>

fun word_rules :: "nat \<Rightarrow> evoke_stem_rule list \<Rightarrow> u8 list \<Rightarrow> u8 list" where
  "word_rules n [] w = w"
| "word_rules n ((s, r) # rules) w =
     (if ends w s then (if vc_count (stem_of w s) > n then stem_of w s @ lit r else w) else word_rules n rules w)"

definition word_4 :: "u8 list \<Rightarrow> u8 list" where
  "word_4 w =
     (if ends w ''ion''
      then (let s = stem_of w ''ion'' in if vc_count s > 1 \<and> (ends s ''s'' \<or> ends s ''t'') then s else w)
      else word_rules 1 (map (\<lambda>s. (s, '''')) step_4_suffixes) w)"

definition word_5 :: "u8 list \<Rightarrow> u8 list" where
  "word_5 w =
     (let w = (if ends w ''e'' \<and> (vc_count (butlast w) > 1 \<or> vc_count (butlast w) = 1 \<and> \<not> short_end (butlast w)) then butlast w else w)
      in if ends w ''ll'' \<and> vc_count w > 1 then butlast w else w)"

definition porter :: "u8 list \<Rightarrow> u8 list" where
  "porter w =
     (if length w < 3 \<or> \<not> (\<forall>c \<in> set w. evoke_stem_is_lower_ascii_letter c) then w
      else word_5 (word_4 (word_rules 0 step_3_rules (word_rules 0 step_2_rules (word_1c (word_1b (word_1a w)))))))"

section \<open>A word in its buffer\<close>

definition holds :: "token \<Rightarrow> u8 list \<Rightarrow> bool" where
  "holds t w \<longleftrightarrow> length w < length t \<and> take (length w) t = w \<and> t ! length w = 0"

lemma holdsD:
  assumes "holds t w"
  shows "length w < length t" "i < length w \<Longrightarrow> t ! i = w ! i" "take (length w) t = w"
  using assms nth_take [of i "length w" t] by (auto simp: holds_def)

lemma rd_word: "holds t w \<Longrightarrow> i < length w \<Longrightarrow> rd t i = Some (w ! i)"
  using holdsD(1) [of t w] holdsD(2) [of t w i] by (simp add: rd_def)

lemma consonant_word: "holds t w \<Longrightarrow> i < length w \<Longrightarrow> evoke_stem_is_consonant t i = Some (consonant w i)"
proof (induction i rule: less_induct)
  case (less i)
  then show ?case
    using less.IH [of "i - 1"] less.prems rd_word [OF less.prems]
    by (subst evoke_stem_is_consonant.simps, subst consonant.simps) (cases "i = 0"; simp)
qed

lemma consonant_take: "i < n \<Longrightarrow> consonant (take n w) i = consonant w i"
proof (induction i rule: less_induct)
  case (less i)
  then show ?case using less.IH [of "i - 1"]
    by (subst (1 2) consonant.simps) (cases "i = 0"; simp)
qed

lemma skip_letters_word:
  assumes "holds t w" "len \<le> length w"
  shows "i \<le> len \<Longrightarrow> \<exists>j. skip_letters b t len i = Some j \<and> i \<le> j \<and> j \<le> len \<and> (\<forall>x. i \<le> x \<longrightarrow> x < j \<longrightarrow> consonant w x = b) \<and>
           (j < len \<longrightarrow> consonant w j \<noteq> b)"
proof (induction "len - i" arbitrary: i)
  case 0
  then show ?case by (subst skip_letters.simps) auto
next
  case (Suc n)
  then have i: "i < len" by simp
  have c: "evoke_stem_is_consonant t i = Some (consonant w i)" using assms i by (intro consonant_word) auto
  show ?case
  proof (cases "consonant w i = b")
    case True
    obtain j where j: "skip_letters b t len (i + 1) = Some j" "i + 1 \<le> j" "j \<le> len" "\<forall>x. i + 1 \<le> x \<longrightarrow> x < j \<longrightarrow> consonant w x = b"
      "j < len \<longrightarrow> consonant w j \<noteq> b"
    proof -
      have "n = len - (i + 1)" "i + 1 \<le> len" using Suc.hyps(2) i by simp_all
      then show ?thesis using Suc.hyps(1) [of "i + 1"] that by blast
    qed
    have "consonant w x = b" if "i \<le> x" "x < j" for x
      using that j(4) True by (cases "x = i") auto
    moreover have "skip_letters b t len i = Some j" using i c True j(1) by (subst skip_letters.simps) simp
    ultimately show ?thesis using j(2,3,5) by (intro exI [of _ j]) auto
  next
    case False
    then have "skip_letters b t len i = Some i" using i c by (subst skip_letters.simps) auto
    then show ?thesis using i False by auto
  qed
qed

lemma measure_loop_word:
  assumes "holds t w" "len \<le> length w"
  shows "i \<le> len \<Longrightarrow> measure_loop t len i m = Some (m + length (filter (vc w) [i..<len - 1]))"
proof (induction "len - i" arbitrary: i m rule: less_induct)
  case less
  show ?case
  proof (cases "i < len")
    case False
    then show ?thesis by (subst measure_loop.simps) simp
  next
    case True
    obtain j where j: "skip_letters True t len i = Some j" "i \<le> j" "j \<le> len" "\<forall>x. i \<le> x \<longrightarrow> x < j \<longrightarrow> consonant w x"
      "j < len \<longrightarrow> \<not> consonant w j"
      using skip_letters_word [OF assms less.prems, of True] by auto
    obtain k where k: "skip_letters False t len j = Some k" "j \<le> k" "k \<le> len" "\<forall>x. j \<le> x \<longrightarrow> x < k \<longrightarrow> \<not> consonant w x"
      "k < len \<longrightarrow> consonant w k"
      using skip_letters_word [OF assms j(3), of False] by auto
    have ik: "i < k" using skip_letters_progress [OF j(1) k(1) True] .
    have none: "\<not> vc w x" if "i \<le> x" "x < k - 1" for x
      using that j(4) k(4) by (cases "x < j") (auto simp: vc_def)
    have "measure_loop t len i m = measure_loop t len k (if k < len then m + 1 else m)"
      using True j(1) k(1) by (subst measure_loop.simps) simp
    also have "\<dots> = Some ((if k < len then m + 1 else m) + length (filter (vc w) [k..<len - 1]))"
      using True ik k(3) by (intro less.hyps) auto
    also have "\<dots> = Some (m + length (filter (vc w) [i..<len - 1]))"
    proof (cases "k < len")
      case False
      then have "filter (vc w) [i..<len - 1] = []" using none k(3) by (auto simp: filter_empty_conv)
      then show ?thesis using False k(3) by simp
    next
      case klen: True
      have "j \<noteq> k" using j(5) k(5) klen by auto
      then have "vc w (k - 1)" using k(2,4,5) klen by (auto simp: vc_def)
      moreover have "[i..<len - 1] = [i..<k - 1] @ (k - 1) # [k..<len - 1]"
        using ik klen upt_add_eq_append [of i "k - 1" "len - 1 - (k - 1)"] upt_conv_Cons [of "k - 1" "len - 1"] by simp
      moreover have "filter (vc w) [i..<k - 1] = []" using none by (auto simp: filter_empty_conv)
      ultimately show ?thesis using klen by simp
    qed
    finally show ?thesis .
  qed
qed

lemma vc_take: "i + 1 < n \<Longrightarrow> vc (take n w) i = vc w i"
  by (simp add: vc_def consonant_take)

lemma measure_word: "holds t w \<Longrightarrow> len \<le> length w \<Longrightarrow> evoke_stem_measure t len = Some (vc_count (take len w))"
proof -
  assume a: "holds t w" "len \<le> length w"
  have "filter (vc (take len w)) [0..<len - 1] = filter (vc w) [0..<len - 1]" by (rule filter_cong) (auto simp: vc_take)
  then show ?thesis using measure_loop_word [OF a, of 0 0] a(2) by (simp add: evoke_stem_measure_def vc_count_def min_def)
qed

lemma has_vowel_word:
  assumes "holds t w" "len \<le> length w"
  shows "evoke_stem_contains_vowel t len = Some (has_vowel (take len w))"
proof -
  have "contains_vowel_loop t is = Some (\<exists>i \<in> set is. \<not> consonant w i)" if "\<forall>i \<in> set is. i < length w" for "is"
    using that by (induction "is") (auto simp: consonant_word [OF assms(1)])
  then show ?thesis using assms(2)
    by (auto simp: evoke_stem_contains_vowel_def has_vowel_def consonant_take)
qed

lemma double_consonant_word: "holds t w \<Longrightarrow> evoke_stem_ends_with_double_consonant t (length w) = Some (double_consonant w)"
  by (auto simp: evoke_stem_ends_with_double_consonant_def double_consonant_def rd_word consonant_word)

lemma short_end_word: "holds t w \<Longrightarrow> len \<le> length w \<Longrightarrow> evoke_stem_is_cvc t len = Some (short_end (take len w))"
  by (auto simp: evoke_stem_is_cvc_def short_end_def rd_word consonant_word consonant_take lit_def)

lemma ends_word:
  assumes "holds t w"
  shows "evoke_stem_ends_with t (length w) (lit s) = Some (ends w s)"
proof (cases "length s \<le> length w")
  case True
  have "take (length s) (drop (length w - length s) t) = drop (length w - length s) w"
    using True holdsD(3) [OF assms] drop_take [of "length w - length s" "length w" t] by simp
  moreover have "drop (length w - length s) w = lit s \<longleftrightarrow> ends w s"
    using True by (metis append_take_drop_id diff_diff_cancel length_append length_drop length_lit suffix_def append_eq_conv_conj
        append_eq_append_conv)
  ultimately show ?thesis using True holdsD(1) [OF assms] by (simp add: evoke_stem_ends_with_def memcmp_equal_def)
next
  case False
  then have "\<not> ends w s" using suffix_length_le by fastforce
  then show ?thesis using False by (simp add: evoke_stem_ends_with_def)
qed

section \<open>Stores\<close>

text \<open>A step leaves the new word in the buffer, whose size stays.\<close>

definition stores :: "token \<Rightarrow> (token \<times> nat) option \<Rightarrow> u8 list \<Rightarrow> bool" where
  "stores t r w \<longleftrightarrow> (\<exists>t'. r = Some (t', length w) \<and> holds t' w \<and> length t' = length t)"

lemma stores_same: "holds t w \<Longrightarrow> stores t (Some (t, length w)) w"
  by (simp add: stores_def)

lemma memcpy_eq: "pos + length cs \<le> length t \<Longrightarrow> memcpy t pos cs = Some (take pos t @ cs @ drop (pos + length cs) t)"
proof (induction cs arbitrary: t pos)
  case (Cons c cs)
  have "take pos (t[pos := c]) @ [c] = take (Suc pos) (t[pos := c])" using Cons.prems by (simp add: take_Suc_conv_app_nth)
  then show ?case using Cons.prems Cons.IH [of "Suc pos" "t[pos := c]"] by (simp add: wr_def)
qed simp

lemma holds_store:
  assumes "length w < length t" "take (length w) t = w"
  shows "wr t (length w) 0 = Some (t[length w := 0])" "holds (t[length w := 0]) w"
  using assms by (simp_all add: wr_def holds_def)

lemma replace_word:
  assumes w: "holds t w" and s: "length s \<le> length w" "length r \<le> length s"
  shows "stores t (evoke_stem_replace_suffix t (length w) (length s) (lit r)) (stem_of w s @ lit r)"
proof -
  let ?pos = "length w - length s" and ?w' = "stem_of w s @ lit r"
  let ?t = "take ?pos t @ lit r @ drop (?pos + length r) t"
  have len: "length w < length t" using w by (rule holdsD)
  have copy: "memcpy t ?pos (lit r) = Some ?t" using s len by (subst memcpy_eq) auto
  have w': "length ?w' = ?pos + length r" by (simp add: stem_of_def)
  have "take ?pos t = take ?pos w" using holdsD(3) [OF w] by (metis diff_le_self min.absorb1 take_take)
  then have "take (length ?w') ?t = ?w'" using s len by (simp add: w') (simp add: stem_of_def)
  moreover have "length ?w' < length ?t" "length ?t = length t" using s len by (simp_all add: stem_of_def)
  ultimately have "wr ?t (?pos + length r) 0 = Some (?t[?pos + length r := 0])" "holds (?t[?pos + length r := 0]) ?w'"
    "length (?t[?pos + length r := 0]) = length t"
    using holds_store [of ?w' ?t] unfolding w' by simp_all
  then show ?thesis unfolding evoke_stem_replace_suffix_def stores_def w' by (simp add: copy Let_def)
qed

lemma append_e_word:
  assumes w: "holds t w" and room: "length w + 1 < length t"
  shows "stores t (append_e t (length w)) (w @ lit ''e'')"
  using assms by (auto simp: append_e_def stores_def holds_def wr_def take_Suc_conv_app_nth lit_def)

lemma drop_last_word:
  assumes w: "holds t w" "w \<noteq> []"
  shows "stores t (drop_last t (length w)) (butlast w)"
proof -
  have "take (length (butlast w)) t = butlast w"
    using holdsD(3) [OF w(1)] by (metis butlast_conv_take diff_le_self length_butlast min.absorb1 take_take)
  then show ?thesis using holds_store [of "butlast w" t] holdsD(1) [OF w(1)] by (simp add: drop_last_def stores_def)
qed

section \<open>The steps compute the steps on words\<close>

lemma ends_length: "ends w s \<Longrightarrow> length s \<le> length w"
  using suffix_length_le by fastforce

lemma replace_ends:
  "holds t w \<Longrightarrow> ends w s \<Longrightarrow> length r \<le> length s \<Longrightarrow> n = length s \<Longrightarrow>
     stores t (evoke_stem_replace_suffix t (length w) n (lit r)) (stem_of w s @ lit r)"
  using replace_word ends_length by blast

lemma remove_ends:
  "holds t w \<Longrightarrow> ends w s \<Longrightarrow> n = length s \<Longrightarrow> stores t (evoke_stem_replace_suffix t (length w) n []) (stem_of w s)"
  using replace_ends [of t w s "[]" n] by simp

lemma measure_stem: "holds t w \<Longrightarrow> ends w s \<Longrightarrow> n = length s \<Longrightarrow> evoke_stem_measure t (length w - n) = Some (vc_count (stem_of w s))"
  using measure_word [of t w "length w - length s"] by (simp add: stem_of_def)

lemma step_1a_word: "holds t w \<Longrightarrow> stores t (evoke_stem_step_1a t (length w)) (word_1a w)"
  by (auto simp: evoke_stem_step_1a_def word_1a_def ends_word intro: replace_ends remove_ends stores_same)

lemma step_1b_after_word:
  assumes w: "holds t w" and room: "length w + 1 < length t"
  shows "stores t (evoke_stem_step_1b_postprocess t (length w)) (word_1b_after w)"
proof -
  have last: "w \<noteq> [] \<Longrightarrow> rd t (length w - 1) = Some (last w)" using rd_word [OF w] by (simp add: last_conv_nth)
  have "double_consonant w \<Longrightarrow> w \<noteq> []" by (auto simp: double_consonant_def)
  then show ?thesis
    using append_e_word [OF w room] drop_last_word [OF w] stores_same [OF w] last measure_word [OF w order.refl]
      short_end_word [OF w order.refl]
    by (auto simp: evoke_stem_step_1b_postprocess_def word_1b_after_def ends_word [OF w] double_consonant_word [OF w])
qed

text \<open>Two steps one after the other.\<close>

lemma stores_bind:
  assumes "stores t r w" "\<And>t'. holds t' w \<Longrightarrow> length t' = length t \<Longrightarrow> stores t' (f t' (length w)) w'"
  shows "stores t (do { (t, len) \<leftarrow> r; f t len }) w'"
  using assms by (fastforce simp: stores_def)

lemma strip_past_word:
  assumes w: "holds t w" and s: "ends w s" "n = length s" "2 \<le> length s"
  shows "stores t (strip_past t (length w) n) (word_past w s)"
proof -
  have vowel: "evoke_stem_contains_vowel t (length w - n) = Some (has_vowel (stem_of w s))"
    using has_vowel_word [OF w] s(2) by (simp add: stem_of_def)
  have "stores t (do { (t, len) \<leftarrow> evoke_stem_replace_suffix t (length w) n []; evoke_stem_step_1b_postprocess t len })
      (word_1b_after (stem_of w s))"
  proof (rule stores_bind [OF remove_ends [OF w s(1,2)]])
    fix t' assume t': "holds t' (stem_of w s)" "length t' = length t"
    have "length (stem_of w s) + 1 < length t'" using ends_length [OF s(1)] s(3) t'(2) holdsD(1) [OF w] by (simp add: stem_of_def)
    then show "stores t' (evoke_stem_step_1b_postprocess t' (length (stem_of w s))) (word_1b_after (stem_of w s))"
      by (rule step_1b_after_word [OF t'(1)])
  qed
  then show ?thesis using vowel stores_same [OF w] by (simp add: strip_past_def word_past_def)
qed

lemma step_1b_word: "holds t w \<Longrightarrow> stores t (evoke_stem_step_1b t (length w)) (word_1b w)"
  by (auto simp: evoke_stem_step_1b_def word_1b_def ends_word measure_stem intro: replace_ends strip_past_word stores_same)

lemma ends_letter: "ends w [c] \<longleftrightarrow> w \<noteq> [] \<and> last w = ch c"
  by (cases w rule: rev_cases) (auto simp: lit_def suffix_def)

lemma step_1c_word:
  assumes w: "holds t w"
  shows "stores t (evoke_stem_step_1c t (length w)) (word_1c w)"
proof (cases "length w > 1")
  case False
  then have "\<not> has_vowel (butlast w)" by (auto simp: has_vowel_def)
  then show ?thesis using False stores_same [OF w] by (simp add: evoke_stem_step_1c_def word_1c_def)
next
  case True
  then have ne: "w \<noteq> []" by auto
  have vowel: "evoke_stem_contains_vowel t (length w - 1) = Some (has_vowel (butlast w))"
    using has_vowel_word [OF w, of "length w - 1"] by (simp add: butlast_conv_take)
  have "take (length w) (t[length w - 1 := ch CHR ''i'']) = w[length w - 1 := ch CHR ''i'']"
    using holdsD(3) [OF w] by (simp add: take_update_swap)
  also have "\<dots> = butlast w @ lit ''i''" using ne by (cases w rule: rev_cases) (auto simp: lit_def)
  finally have "stores t (Some (t[length w - 1 := ch CHR ''i''], length w)) (butlast w @ lit ''i'')"
    using w ne True by (simp add: stores_def holds_def nth_list_update)
  then show ?thesis using True ne vowel rd_word [OF w, of "length w - 1"] stores_same [OF w] holdsD(1) [OF w]
    by (auto simp: evoke_stem_step_1c_def word_1c_def ends_letter last_conv_nth wr_def)
qed

lemma rules_word:
  "holds t w \<Longrightarrow> \<forall>(s, r) \<in> set rules. length r \<le> length s \<Longrightarrow>
     stores t (evoke_stem_apply_rules t (length w) rules n) (word_rules n rules w)"
  by (induction rules) (auto simp: ends_word measure_stem intro: replace_ends stores_same)

lemma step_4_loop_word:
  "holds t w \<Longrightarrow> stores t (step_4_loop t (length w) ss) (word_rules 1 (map (\<lambda>s. (s, [])) ss) w)"
  by (induction ss) (auto simp: ends_word measure_stem intro: remove_ends stores_same)

lemma step_4_word:
  assumes w: "holds t w"
  shows "stores t (evoke_stem_step_4 t (length w)) (word_4 w)"
proof (cases "ends w ''ion''")
  case False
  then show ?thesis using step_4_loop_word [OF w] by (simp add: evoke_stem_step_4_def word_4_def ends_word [OF w])
next
  case True
  let ?s = "stem_of w ''ion''"
  have measure: "evoke_stem_measure t (length w - 3) = Some (vc_count ?s)" by (rule measure_stem [OF w True]) simp
  have len: "length ?s = length w - 3" by (simp add: stem_of_def)
  have empty: "?s = []" if "length w \<le> 3" using that by (simp add: stem_of_def)
  have letter: "rd t (length w - 4) = Some (last ?s)" if "3 < length w"
  proof -
    have "last ?s = w ! (length w - 4)" using that by (subst last_conv_nth) (auto simp: stem_of_def eval_nat_numeral)
    then show ?thesis using rd_word [OF w, of "length w - 4"] that by (simp add: eval_nat_numeral)
  qed
  have pos: "(length w - 3 > 0) = (3 < length w)" by auto
  show ?thesis
  proof (cases "3 < length w")
    case False
    then show ?thesis using True empty stores_same [OF w]
      by (simp add: evoke_stem_step_4_def word_4_def ends_word [OF w] ends_letter)
  next
    case long: True
    then have "?s \<noteq> []" using len by auto
    then show ?thesis using True long measure letter remove_ends [OF w True, of 3] stores_same [OF w]
      by (auto simp: evoke_stem_step_4_def word_4_def ends_word [OF w] ends_letter Let_def)
  qed
qed

lemma step_5a_word:
  assumes w: "holds t w"
  shows "stores t (step_5a t (length w))
    (if ends w ''e'' \<and> (vc_count (butlast w) > 1 \<or> vc_count (butlast w) = 1 \<and> \<not> short_end (butlast w)) then butlast w else w)"
proof (cases "w = []")
  case True
  then show ?thesis using stores_same [OF w] by (simp add: step_5a_def ends_letter)
next
  case False
  have "evoke_stem_measure t (length w - 1) = Some (vc_count (butlast w))"
    "evoke_stem_is_cvc t (length w - 1) = Some (short_end (butlast w))"
    using measure_word [OF w, of "length w - 1"] short_end_word [OF w, of "length w - 1"] by (simp_all add: butlast_conv_take)
  then show ?thesis
    using False rd_word [OF w, of "length w - 1"] drop_last_word [OF w False] stores_same [OF w]
    by (auto simp: step_5a_def ends_letter last_conv_nth)
qed

lemma ends_two: "ends w [a, b] \<longleftrightarrow> 2 \<le> length w \<and> w ! (length w - 2) = ch a \<and> w ! (length w - 1) = ch b"
proof (cases w rule: rev_cases)
  case (snoc v y)
  then show ?thesis by (cases v rule: rev_cases) (auto simp: lit_def suffix_def nth_append)
qed (simp add: lit_def)

lemma step_5b_word:
  assumes w: "holds t w"
  shows "stores t (step_5b t (length w)) (if ends w ''ll'' \<and> vc_count w > 1 then butlast w else w)"
proof (cases "length w > 1")
  case False
  then show ?thesis using stores_same [OF w] by (auto simp: step_5b_def ends_two)
next
  case True
  then have "w \<noteq> []" by auto
  then show ?thesis
    using True rd_word [OF w, of "length w - 1"] rd_word [OF w, of "length w - 2"] measure_word [OF w order.refl]
      drop_last_word [OF w] stores_same [OF w]
    by (auto simp: step_5b_def ends_two)
qed

lemma step_5_word: "holds t w \<Longrightarrow> stores t (evoke_stem_step_5 t (length w)) (word_5 w)"
  unfolding evoke_stem_step_5_def word_5_def Let_def by (rule stores_bind, erule step_5a_word, erule step_5b_word)

lemma rules_shrink: "\<forall>(s, r) \<in> set step_2_rules. length r \<le> length s" "\<forall>(s, r) \<in> set step_3_rules. length r \<le> length s"
  by (simp_all add: step_2_rules_def step_3_rules_def)

text \<open>All steps in a row.\<close>

definition word_steps :: "u8 list \<Rightarrow> u8 list" where
  "word_steps w = word_5 (word_4 (word_rules 0 step_3_rules (word_rules 0 step_2_rules (word_1c (word_1b (word_1a w))))))"

lemma steps_word:
  assumes "holds t w"
  shows "stores t (do {
      (t, len) \<leftarrow> evoke_stem_step_1a t (length w);
      (t, len) \<leftarrow> evoke_stem_step_1b t len;
      (t, len) \<leftarrow> evoke_stem_step_1c t len;
      (t, len) \<leftarrow> evoke_stem_step_2 t len;
      (t, len) \<leftarrow> evoke_stem_step_3 t len;
      (t, len) \<leftarrow> evoke_stem_step_4 t len;
      evoke_stem_step_5 t len }) (word_steps w)"
  unfolding word_steps_def
  unfolding evoke_stem_step_2_def evoke_stem_step_3_def
  by (rule stores_bind, rule step_1a_word [OF assms], rule stores_bind, erule step_1b_word, rule stores_bind, erule step_1c_word,
      rule stores_bind, erule rules_word, rule rules_shrink, rule stores_bind, erule rules_word, rule rules_shrink,
      rule stores_bind, erule step_4_word, erule step_5_word)

section \<open>The letters of the result\<close>

definition lower :: "u8 list \<Rightarrow> bool" where "lower w \<longleftrightarrow> (\<forall>c \<in> set w. evoke_stem_is_lower_ascii_letter c)"

lemma lower_parts [simp]:
  "lower (v @ w) \<longleftrightarrow> lower v \<and> lower w" "lower w \<Longrightarrow> lower (take n w)" "lower w \<Longrightarrow> lower (butlast w)"
  by (auto simp: lower_def dest: in_set_takeD in_set_butlastD)

lemma lower_stem_of [simp]: "lower w \<Longrightarrow> lower (stem_of w s)"
  by (simp add: stem_of_def)

lemma word_rules_lower: "\<forall>(s, r) \<in> set rules. lower (lit r) \<Longrightarrow> lower w \<Longrightarrow> lower (word_rules n rules w)"
  by (induction rules) auto

lemma lower_literals:
  "lower (lit ''ss'')" "lower (lit ''i'')" "lower (lit ''ee'')" "lower (lit ''e'')"
  "\<forall>(s, r) \<in> set step_2_rules. lower (lit r)" "\<forall>(s, r) \<in> set step_3_rules. lower (lit r)"
  "\<forall>(s, r) \<in> set (map (\<lambda>s. (s, [])) step_4_suffixes). lower (lit r)"
  by (simp_all add: lower_def lit_def evoke_stem_is_lower_ascii_letter_def step_2_rules_def step_3_rules_def word_le_nat_alt)

lemma word_steps_lower:
  assumes "lower w"
  shows "lower (word_steps w)"
proof -
  have "lower (word_1a w)" using assms lower_literals by (simp add: word_1a_def)
  moreover have "lower (word_1b v)" if "lower v" for v
    using that lower_literals by (simp add: word_1b_def word_past_def word_1b_after_def)
  moreover have "lower (word_1c v)" if "lower v" for v using that lower_literals by (simp add: word_1c_def)
  moreover have "lower (word_4 v)" if "lower v" for v
    using that word_rules_lower [OF lower_literals(7)] by (simp add: word_4_def Let_def)
  moreover have "lower (word_5 v)" if "lower v" for v using that by (simp add: word_5_def Let_def)
  ultimately show ?thesis using word_rules_lower [OF lower_literals(5)] word_rules_lower [OF lower_literals(6)]
    by (simp add: word_steps_def)
qed

section \<open>The stemmer\<close>

lemma all_letters_word:
  assumes "holds t w"
  shows "all_letters_loop t [0..<length w] = Some (lower w)"
proof -
  have "all_letters_loop t is = Some (\<forall>i \<in> set is. evoke_stem_is_lower_ascii_letter (w ! i))" if "\<forall>i \<in> set is. i < length w" for "is"
    using that by (induction "is") (auto simp: rd_word [OF assms])
  moreover have "(\<forall>i \<in> set [0..<length w]. evoke_stem_is_lower_ascii_letter (w ! i)) = lower w"
    by (auto simp: lower_def all_set_conv_all_nth)
  ultimately show ?thesis by simp
qed

lemma sint_length: "n < 2 ^ 31 \<Longrightarrow> sint (word_of_nat n :: u32) = int n"
  by (simp add: signed_of_nat signed_take_bit_int_eq_self)

lemma holds_append: "holds (w @ 0 # rest) w"
  by (simp add: holds_def)

lemma holds_split:
  assumes "holds t w"
  obtains rest where "t = w @ 0 # rest"
  using id_take_nth_drop [OF holdsD(1) [OF assms]] assms by (auto simp: holds_def)

lemma lower_no_zero: "lower w \<Longrightarrow> 0 \<notin> set w"
  by (auto simp: lower_def evoke_stem_is_lower_ascii_letter_def word_le_nat_alt)

lemma porter_steps: "porter w = (if length w < 3 \<or> \<not> lower w then w else word_steps w)"
  by (simp add: porter_def word_steps_def lower_def)

text \<open>
  C40. The stemmer works in place and stays in bounds. On any buffer that holds a word and its terminating zero (shorter than
  2^31 bytes, with any number of bytes behind the zero, also none), the call reads and writes only bytes of the buffer, and leaves
  in it the Porter stem of the word with its terminating zero: the rules of the algorithm applied to the word as a list, with
  the measure counted as the places where a consonant follows a vowel.
\<close>

theorem porter_in_place:
  assumes "0 \<notin> set w" "length w < 2 ^ 31"
  shows "\<exists>rest'. evoke_stem_english_porter (Some (w @ 0 # rest)) = Some (Some (porter w @ 0 # rest')) \<and>
           length (porter w) + length rest' = length w + length rest \<and> 0 \<notin> set (porter w)"
proof -
  let ?t = "w @ 0 # rest"
  have strlen: "strlen ?t = Some (length w)"
  proof -
    have "\<forall>c \<in> set w. c \<noteq> 0" using assms(1) by metis
    then show ?thesis by (simp add: strlen_def)
  qed
  note len = sint_length [OF assms(2)]
  show ?thesis
  proof (cases "length w < 3 \<or> \<not> lower w")
    case True
    then have "evoke_stem_english_porter (Some ?t) = Some (Some ?t)"
      using all_letters_word [OF holds_append, of w rest] by (auto simp: evoke_stem_english_porter_def strlen len Let_def)
    then show ?thesis using True assms(1) by (auto simp: porter_steps)
  next
    case False
    obtain t' where t': "do {
        (t, len) \<leftarrow> evoke_stem_step_1a ?t (length w);
        (t, len) \<leftarrow> evoke_stem_step_1b t len;
        (t, len) \<leftarrow> evoke_stem_step_1c t len;
        (t, len) \<leftarrow> evoke_stem_step_2 t len;
        (t, len) \<leftarrow> evoke_stem_step_3 t len;
        (t, len) \<leftarrow> evoke_stem_step_4 t len;
        evoke_stem_step_5 t len } = Some (t', length (word_steps w))" "holds t' (word_steps w)" "length t' = length ?t"
      using steps_word [OF holds_append, of w rest] by (auto simp: stores_def)
    have "evoke_stem_english_porter (Some ?t) = Option.bind (do {
        (t, len) \<leftarrow> evoke_stem_step_1a ?t (length w);
        (t, len) \<leftarrow> evoke_stem_step_1b t len;
        (t, len) \<leftarrow> evoke_stem_step_1c t len;
        (t, len) \<leftarrow> evoke_stem_step_2 t len;
        (t, len) \<leftarrow> evoke_stem_step_3 t len;
        (t, len) \<leftarrow> evoke_stem_step_4 t len;
        evoke_stem_step_5 t len }) (\<lambda>(t, len). Some (Some t))"
      using False all_letters_word [OF holds_append, of w rest]
      by (simp add: evoke_stem_english_porter_def strlen len Let_def Option.bind_assoc case_prod_beta')
    then have run: "evoke_stem_english_porter (Some ?t) = Some (Some t')" unfolding t'(1) by simp
    obtain rest' where rest': "t' = word_steps w @ 0 # rest'" using t'(2) by (rule holds_split)
    have "lower (word_steps w)" using False by (intro word_steps_lower) simp
    then show ?thesis using run rest' t'(3) False lower_no_zero by (auto simp: porter_steps)
  qed
qed

text \<open>The word \<open>agreed\<close> in a buffer without a spare byte; its stem is \<open>agre\<close>.\<close>

lemma porter_agreed: "porter (lit ''agreed'') = lit ''agre''"
  by code_simp

lemma porter_in_place_witness:
  "\<exists>rest'. evoke_stem_english_porter (Some (lit ''agreed'' @ [0])) = Some (Some (lit ''agre'' @ 0 # rest')) \<and> length rest' = 2"
proof -
  have "0 \<notin> set (lit ''agreed'')" "length (lit ''agreed'') < 2 ^ 31" by (simp_all add: lit_def)
  then show ?thesis using porter_in_place [of "lit ''agreed''" "[]"] by (auto simp: porter_agreed)
qed

end
