(* ===== verification/Spec2Isabelle.thy ===== *)
theory Spec2Isabelle
  imports Prelude Block_Ranges Segment_Codec Read_Root Tid_Lookup Topk Topk_Subset Query Query_Parser Query_Meaning
    Posting_Heat Binary_Heap Doubles Space_Saving Space_Saving_Table Space_Saving_Bounds
    Scope_Text Scope_Codec Scope_Layout Scope_Writer Scope_Roundtrip Scope_Validate Scope_Accept Scope_Filter
    Scope_Selection Scope_Pruning Scheduler Scheduler_Calls Worker_Counters Work_Hints Hint_Map
    Hint_Tokens Reconcile Stem Stem_Spec
begin

text \<open>
  A verification development for Evoke, a PostgreSQL extension that adds a ranked full-text index
  (\<open>USING evoke\<close>). All file names below are relative to \<open>src/\<close> of the repository.

  \<^bold>\<open>The program.\<close> One index is one relation of pages. Writers append records to an active L0 chain of
  pages; a worker rotates the chain, turns the rotated one into immutable objects (segments, catalogs,
  lookups) and publishes a new manifest through the \<^emph>\<open>read root\<close>; blocks no published object reaches are
  reclaimed. A query string is parsed to terms and a match tree, scored against the postings, and the
  best documents are selected. Shared memory keeps a table of the terms queries spend most work on, from
  which the scheduler takes its next task.

  \<^bold>\<open>Theories, and the code they model.\<close>

  \<^item> \<open>Prelude\<close>: word widths, \<open>evoke_status\<close>, little-endian accessors and the FNV-1a checksum of
    \<open>evoke_segments.c\<close>; lemmas on words and byte buffers. The locale \<open>c_comparator\<close> states what a comparator
    handed to \<open>qsort\<close> has to satisfy; its interpretations justify reading \<open>qsort\<close> as a sort.

  \<^item> \<open>Block_Ranges\<close> (\<open>evoke_block_ranges.c\<close>, whole file): the inventory of reachable block ranges and the
    allocator of free runs built from it. A finalized inventory covers exactly the added blocks; the
    allocator holds exactly the complement; best fit takes the front of a smallest fitting run. The locale
    \<open>run_allocator\<close> states what a client may rely on, and its interpretation gives that no two granted runs
    overlap and none touches a reachable block.

  \<^item> \<open>Segment_Codec\<close> (\<open>evoke_segments.c\<close>: checked sizes, checksums, the headers of object pages, active-L0
    pages and L0 record fragments). Round trips, detection of any single changed byte through the locale
    \<open>sealed_codec\<close> (interpreted for each sealed format here, in \<open>Read_Root\<close> and in \<open>Tid_Lookup\<close>), and the
    division of an object into pages.

  \<^item> \<open>Read_Root\<close> (\<open>evoke_segments.c\<close>: references, frontiers, the read root and its transitions;
    \<open>evoke_am_mutation.c\<close>: \<open>evoke_am_l0_advance_root\<close>). What the validator accepts, what each transition does
    on every branch, and, over all runs of the transitions (an inductive step relation), that the root stays
    valid and the L0 sequences stay contiguous, so that no record is lost or counted twice.

  \<^item> \<open>Tid_Lookup\<close> (\<open>evoke_document_tid_lookup.c\<close>, whole file): the serialized map from heap tuples to document
    slots, its validation on open and its binary search.

  \<^item> \<open>Binary_Heap\<close>: the array heap that \<open>Topk\<close> and \<open>Space_Saving\<close> share, as order invariants with a gap.

  \<^item> \<open>Topk\<close> and \<open>Topk_Subset\<close> (\<open>evoke_core.c\<close>: heap, buffered, compact and full-sort selection, and the
    streaming accumulator). Scores are their 32 bits, compared as C compares floats. All paths return the first
    \<open>k\<close> of the sorted candidates; the compact path equals the buffered one.

  \<^item> \<open>Query\<close>, \<open>Query_Parser\<close>, \<open>Query_Meaning\<close> (\<open>evoke_query.c\<close>): tokenizer, boolean and classic parsers, match
    trees, rewriting. The recursive descent has fuel; \<open>parse_fuel\<close> is four steps per token and four more, which
    is proved to be enough for every token list and every pattern of failing allocations. Printed expressions
    parse back; the classic tree has the required/optional/excluded meaning; rewriting keeps it. A failed copy of a term may free
    pointers that were never written: that is undefined behaviour, a possible ending of a call beside the statuses.

  \<^item> \<open>Posting_Heat\<close> (\<open>evoke_posting_heat.c\<close>, whole file): decay, merge with eviction, selection, notes and
    summaries. An inductive relation of all operations gives the invariant that makes \<open>find\<close> a map lookup, and
    shows how much of a bucket is ever used.

  \<^item> \<open>Doubles\<close>, \<open>Space_Saving\<close>, \<open>Space_Saving_Table\<close>, \<open>Space_Saving_Bounds\<close> (\<open>evoke_weighted_space_saving.c\<close>, whole
    file): doubles as their 64 bits with IEEE comparison and rounded addition; the summary with its
    linear-probing table, backward-shift removal and heap with positions; the table as a map; every offer as a step of
    the abstract algorithm, and its guarantees over all streams with the rounding accounted for.

  \<^item> \<open>Scope_Text\<close> (\<open>evoke_scope.c\<close>, the trigrams of patterns in \<open>evoke_filter.c\<close>): ASCII search and trigram filters. The
    search decides \<open>ILIKE\<close>; the filters keep every value that matches.

  \<^item> \<open>Scope_Codec\<close> (\<open>evoke_scope.c\<close>, the rest of the file): the writer of scope objects (columns, values with their
    texts, trigrams and documents), the serializer, the decoders and the validator. \<open>Scope_Layout\<close> splits the bytes
    of an object into its six regions; \<open>Scope_Writer\<close> has the writer's invariant, kept by every call;
    \<open>Scope_Roundtrip\<close> decodes what was written; \<open>Scope_Validate\<close> shows that the validator accepts it and,
    through \<open>sealed_codec\<close>, notices a changed byte; \<open>Scope_Accept\<close> says exactly which inputs are serialized.

  \<^item> \<open>Scope_Filter\<close>, \<open>Scope_Selection\<close>, \<open>Scope_Pruning\<close> (\<open>evoke_filter.c\<close>: the scope reader, the search for a value, posting lists,
    operands, trigram tests). The bytes of the stored object stand for the relation they are read from, and the type
    functions of the server are arguments. Serializing and then filtering selects exactly the documents with the value;
    trigram pruning loses no match, for every state of the block cache a scan can reach (an inductive relation).

  \<^item> \<open>Scheduler\<close> (\<open>evoke_am_scheduler.c\<close>): the shared tables of work hints and catalog reconciliations and the worker counters; each
    operation is a function from state to state, and one with two critical sections is composed of them. \<open>Scheduler_Calls\<close> runs any sequence of calls by
    any processes: a marked hint is not lost. \<open>Work_Hints\<close> and \<open>Hint_Map\<close>: the open-addressing table with tombstones
    refines a map; \<open>Hint_Tokens\<close>: snapshots and the search in them. \<open>Worker_Counters\<close>: an inductive step relation of
    launchers and workers (with the order of calls in \<open>evoke_am.c\<close>), in which the counters are exact up to reservations that
    timed out, which a ghost variable counts. \<open>Reconcile\<close>: a claimed reconciliation is exclusive, and what a database without an entry is given.

  \<^item> \<open>Stem\<close>, \<open>Stem_Spec\<close> (\<open>evoke_stem.c\<close>, whole file): the Porter stemmer on a zero-terminated buffer, in which an access outside
    of the bounds is a failure; it never fails and computes the steps of the algorithm on lists.

  \<^bold>\<open>Conventions.\<close> \<open>uint8_t\<close> to \<open>uint64_t\<close> and \<open>size_t\<close> are words of 8 to 64 bits and wrap. A pointer that may be
  null is an option; an output cell is an option of its content; an array with its length is a list. Whether an
  allocation succeeds is an argument, so that every out-of-memory path is a branch of the model and the
  theorems hold for each outcome. Every error return is a value of \<open>evoke_status\<close>; undefined behaviour of C is a value of its own. In-place loops are recursive
  functions with a termination proof.

  \<^bold>\<open>Not modelled.\<close> The PostgreSQL side (access-method callbacks, planner hooks, shared-memory set-up, locks,
  WAL, SQL functions: \<open>evoke_am*.c\<close> apart from the scheduler, \<open>evoke_pg*.c\<close>, \<open>evoke_planner.c\<close>) runs inside the server and
  consists of calls into it. Of the scheduler, the telemetry of semantic indexes, the status report and the wrappers around the heat
  table are left out. BM25 and semantic scoring are floating-point sums over postings. The copy-on-write trees, the
  segment object store and the page query engine (\<open>evoke_*_cow.c\<close>, \<open>evoke_segment_pages.c\<close>,
  \<open>evoke_page_query.c\<close>) build on the codecs above and are the next candidates. Text analysis in
  \<open>evoke_text.c\<close> rests on ICU, apart from the stemmer it calls. Helpers that only release memory have no counterpart.
\<close>

end
